(* ===== verification/Prelude.thy ===== *)
theory Prelude
  imports Main "HOL-Library.Word" "HOL-Library.Monad_Syntax"
begin

unbundle bit_operations_syntax

text \<open>
  Shared vocabulary of the development: the machine integers and the byte-addressed memory of the
  i686 target, the reading and writing of little-endian 32-bit words in that memory, and the
  generic facts on lists, words and memories that the components rest on.

  Conventions used by every theory of the library:
  \<^item> \<open>size_t\<close>, \<open>uint32_t\<close> and every pointer are 32-bit words; \<open>NULL\<close> is the word \<open>0\<close>;
  \<^item> a C function that may run past the end of an array, or whose loop may fail to end, returns
    an \<open>option\<close> and \<open>None\<close> stands for the missing outcome;
  \<^item> calls of the logging functions \<open>debug\<close>, \<open>error\<close> and \<open>success\<close> only write to the serial
    port and are left out of the definitions.
\<close>

type_synonym u8 = "8 word"
type_synonym u16 = "16 word"
type_synonym u32 = "32 word"
type_synonym u64 = "64 word"
type_synonym addr = "32 word"
type_synonym mem = "32 word \<Rightarrow> 8 word"

named_theorems mem_simps \<open>reading back what was written to memory\<close>
named_theorems addr_simps \<open>address arithmetic that does not wrap\<close>

subsection \<open>Little-endian words in memory\<close>

definition rd32 :: "mem \<Rightarrow> addr \<Rightarrow> u32" where
  "rd32 m a = ucast (m a) OR push_bit 8 (ucast (m (a + 1)))
     OR push_bit 16 (ucast (m (a + 2))) OR push_bit 24 (ucast (m (a + 3)))"

definition wr32 :: "mem \<Rightarrow> addr \<Rightarrow> u32 \<Rightarrow> mem" where
  "wr32 m a v = m(a := ucast v, a + 1 := ucast (drop_bit 8 v),
     a + 2 := ucast (drop_bit 16 v), a + 3 := ucast (drop_bit 24 v))"

text \<open>The addresses from \<open>a\<close> (included) to \<open>a + n\<close> (excluded), for regions that do not wrap.\<close>

definition region :: "addr \<Rightarrow> nat \<Rightarrow> addr set" where
  "region a n = {x. unat a \<le> unat x \<and> unat x < unat a + n}"

lemma unat_u32_bound [simp]: "unat (a :: u32) < 4294967296"
  using unsigned_less [of a, where ?'a = nat] by simp

lemma unat_plus_simple32 [addr_simps]:
  fixes a b :: u32
  shows "unat a + unat b < 2 ^ 32 \<Longrightarrow> unat (a + b) = unat a + unat b"
  by (simp add: unat_word_ariths)

lemma unat_plus_of_nat [addr_simps]:
  fixes a :: u32
  shows "unat a + n < 2 ^ 32 \<Longrightarrow> unat (a + of_nat n) = unat a + n"
  by (simp add: unat_word_ariths unat_of_nat)

lemma ucast_drop_bit_pieces:
  fixes v :: u32
  shows "ucast (ucast v :: u8) OR push_bit 8 (ucast (ucast (drop_bit 8 v) :: u8))
    OR push_bit 16 (ucast (ucast (drop_bit 16 v) :: u8))
    OR push_bit 24 (ucast (ucast (drop_bit 24 v) :: u8)) = v" (is "?l = v")
proof (rule bit_word_eqI)
  fix n assume "n < LENGTH(32)"
  then have "n < 8 \<or> 8 \<le> n \<and> n < 16 \<or> 16 \<le> n \<and> n < 24 \<or> 24 \<le> n \<and> n < 32" by auto
  then show "bit ?l n = bit v n" by (auto simp: bit_simps)
qed

lemma rd32_wr32_same [mem_simps]: "rd32 (wr32 m a v) a = v"
  by (simp add: rd32_def wr32_def ucast_drop_bit_pieces)

lemma wr32_other [mem_simps]:
  assumes "unat a + 4 \<le> 2 ^ 32" "x \<notin> region a 4"
  shows "wr32 m a v x = m x"
proof -
  have "unat (a + k) = unat a + unat k" if "unat k < 4" for k :: u32
    using assms(1) that by (intro unat_plus_simple32) simp
  from this [of 1] this [of 2] this [of 3] assms(2)
  have "x \<noteq> a" "x \<noteq> a + 1" "x \<noteq> a + 2" "x \<noteq> a + 3"
    by (auto simp: region_def)
  then show ?thesis by (simp add: wr32_def)
qed

lemma rd32_cong:
  assumes "unat a + 4 \<le> 2 ^ 32" "\<And>x. x \<in> region a 4 \<Longrightarrow> m x = m' x"
  shows "rd32 m a = rd32 m' a"
proof -
  have "unat (a + k) = unat a + unat k" if "unat k < 4" for k :: u32
    using assms(1) that by (intro unat_plus_simple32) simp
  from this [of 0] this [of 1] this [of 2] this [of 3]
  have "a \<in> region a 4" "a + 1 \<in> region a 4" "a + 2 \<in> region a 4" "a + 3 \<in> region a 4"
    by (auto simp: region_def)
  then show ?thesis using assms(2) by (simp add: rd32_def)
qed


subsection \<open>Rounding words to powers of two\<close>

lemma unat_and_not_mask: "unat ((x :: u32) AND NOT (mask k)) = unat x div 2 ^ k * 2 ^ k"
proof -
  have t: "take_bit 32 (unat x) = unat x" by (simp add: take_bit_eq_mod)
  have lt: "unat x div 2 ^ k * 2 ^ k < 2 ^ 32"
    by (rule le_less_trans [of _ "unat x"]) (auto simp: div_times_less_eq_dividend)
  have "x AND NOT (mask k) = push_bit k (drop_bit k x)"
    by (rule bit_word_eqI) (auto simp: bit_simps)
  then have "unat (x AND NOT (mask k)) = take_bit 32 (push_bit k (drop_bit k (unat x)))"
    using t by (simp add: unsigned_push_bit_eq unsigned_drop_bit_eq)
  also have "\<dots> = unat x div 2 ^ k * 2 ^ k"
    using lt by (simp add: push_bit_eq_mult drop_bit_eq_div take_bit_eq_mod)
  finally show ?thesis .
qed

lemma unat_and_mask: "unat ((x :: u32) AND mask k) = unat x mod 2 ^ k"
proof -
  have "unat (x AND mask k) = take_bit k (unat x)"
    by (simp add: take_bit_eq_mask [symmetric] unsigned_take_bit_eq)
  then show ?thesis by (simp add: take_bit_eq_mod)
qed


subsection \<open>Indices of ring buffers\<close>

lemma ring_index:
  fixes t i m :: nat
  assumes "i \<le> m" "0 < m"
  shows "(t + i) mod m = (if t mod m + i < m then t mod m + i else t mod m + i - m)"
proof -
  have "(t + i) mod m = (t mod m + i) mod m" by (simp add: mod_simps)
  moreover have "t mod m + i - m < m" if "\<not> t mod m + i < m"
  proof -
    have "t mod m < m" using assms(2) by simp
    with assms(1) that show ?thesis by linarith
  qed
  ultimately show ?thesis by (simp add: le_mod_geq)
qed

lemma ring_index_inj:
  fixes t i j m :: nat
  assumes "i < m" "j < m"
  shows "(t + i) mod m = (t + j) mod m \<longleftrightarrow> i = j"
proof -
  have "t mod m < m" using assms(1) by simp
  with assms show ?thesis by (auto simp: ring_index split: if_splits)
qed


subsection \<open>Shifting a part of an array down by one\<close>

text \<open>The loop \<open>for (j = i; j + 1 < n; ++j) a[j] = a[j + 1]\<close> that several components use to close a gap.\<close>

fun shift_down :: "'a list \<Rightarrow> nat list \<Rightarrow> 'a list" where
  "shift_down xs [] = xs"
| "shift_down xs (j # js) = shift_down (xs[j := xs ! (j + 1)]) js"

lemma shift_down_nth:
  "n < length xs \<Longrightarrow> i \<le> n \<Longrightarrow> length (shift_down xs [i..<n]) = length xs \<and>
   (\<forall>j<length xs. shift_down xs [i..<n] ! j = (if i \<le> j \<and> j < n then xs ! (j + 1) else xs ! j))"
proof (induction "n - i" arbitrary: xs i)
  case (Suc d)
  then have i: "[i..<n] = i # [Suc i..<n]" "i < n" "d = n - Suc i" by (simp_all add: upt_conv_Cons)
  have "length (shift_down (xs[i := xs ! (i + 1)]) [Suc i..<n]) = length xs \<and>
   (\<forall>j<length xs. shift_down (xs[i := xs ! (i + 1)]) [Suc i..<n] ! j =
     (if Suc i \<le> j \<and> j < n then xs[i := xs ! (i + 1)] ! (j + 1) else xs[i := xs ! (i + 1)] ! j))"
    using Suc.hyps(1) [OF i(3), of "xs[i := xs ! (i + 1)]"] Suc.prems i(2) by simp
  with i show ?case by (auto simp: nth_list_update not_less_eq_eq dest!: le_antisym)
qed auto

lemma shift_down_take:
  assumes "n < length xs" "i \<le> n"
  shows "take n (shift_down xs [i..<n]) = take i xs @ drop (Suc i) (take (Suc n) xs)"
  using shift_down_nth [OF assms] assms by (intro nth_equalityI) (auto simp: nth_append min_def)

subsection \<open>Grids and loops over them\<close>

definition grid_set :: "'a list list \<Rightarrow> nat \<Rightarrow> nat \<Rightarrow> 'a \<Rightarrow> 'a list list" where
  "grid_set g y x v = g[y := (g ! y)[x := v]]"

definition grid_ok :: "'a list list \<Rightarrow> nat \<Rightarrow> nat \<Rightarrow> bool" where
  "grid_ok g h w \<longleftrightarrow> length g = h \<and> (\<forall>y<h. length (g ! y) = w)"

lemma grid_set_ok [simp]: "grid_ok g h w \<Longrightarrow> grid_ok (grid_set g y x v) h w"
  by (cases "y < h") (auto simp: grid_ok_def grid_set_def nth_list_update)

lemma grid_set_get:
  "grid_ok g h w \<Longrightarrow> y < h \<Longrightarrow> x < w \<Longrightarrow> y' < h \<Longrightarrow>
   grid_set g y x v ! y' ! x' = (if y' = y \<and> x' = x then v else g ! y' ! x')"
  by (auto simp: grid_ok_def grid_set_def nth_list_update)

lemma grid_eqI:
  assumes "grid_ok g h w" "grid_ok g' h w" "\<And>y x. y < h \<Longrightarrow> x < w \<Longrightarrow> g ! y ! x = g' ! y ! x"
  shows "g = g'"
  using assms by (intro nth_equalityI) (auto simp: grid_ok_def intro!: nth_equalityI)

text \<open>The invariant rule of a loop over the rows of a grid with a loop over the columns inside.\<close>

lemma fold_upt_inv:
  assumes "P 0 s" "\<And>i s. i < n \<Longrightarrow> P i s \<Longrightarrow> P (Suc i) (body i s)"
  shows "P n (fold body [0..<n] s)"
  using assms by (induction n) auto

lemma fold_grid_inv:
  assumes "P 0 0 s" "\<And>y x s. y < h \<Longrightarrow> x < w \<Longrightarrow> P y x s \<Longrightarrow> P y (Suc x) (body y x s)"
    "\<And>y s. y < h \<Longrightarrow> P y w s \<Longrightarrow> P (Suc y) 0 s"
  shows "P h 0 (fold (\<lambda>y. fold (body y) [0..<w]) [0..<h] s)"
proof (rule fold_upt_inv [where P = "\<lambda>y. P y 0"])
  fix y s assume "y < h" "P y 0 s"
  then have "P y w (fold (body y) [0..<w] s)"
    using assms(2) by (intro fold_upt_inv [where P = "P y"]) auto
  then show "P (Suc y) 0 (fold (body y) [0..<w] s)" using \<open>y < h\<close> by (intro assms(3))
qed (rule assms(1))

end
