(* ===== verification/Libc_String.thy ===== *)
theory Libc_String
  imports Prelude
begin

text \<open>
  The string and memory routines of \<^verbatim>\<open>libc/string/string.cpp\<close>, over the byte-addressed memory.
  A \<open>while\<close> loop that looks for a terminating NUL is a \<^theory_text>\<open>partial_function\<close>: \<open>None\<close> is the
  loop that never finds one. The predicate \<open>cstr m p s\<close> says that the NUL-terminated string at
  \<open>p\<close> is \<open>s\<close>; the theorems relate each routine to the corresponding operation on \<open>string\<close>.
  The file-system theories work on \<open>string\<close> directly and rest on these facts.
\<close>

subsection \<open>The routines\<close>

partial_function (option) strlen_loop :: "mem \<Rightarrow> addr \<Rightarrow> u32 \<Rightarrow> u32 option" where
  "strlen_loop m str len =
     (if m (str + len) \<noteq> 0 then strlen_loop m str (len + 1) else Some len)"

definition strlen :: "mem \<Rightarrow> addr \<Rightarrow> u32 option" where
  "strlen m str = strlen_loop m str 0"

fun strncpy_copy :: "mem \<Rightarrow> addr \<Rightarrow> addr \<Rightarrow> u32 \<Rightarrow> nat \<Rightarrow> mem \<times> u32 \<times> nat" where
  "strncpy_copy m dest src i 0 = (m, i, 0)"
| "strncpy_copy m dest src i (Suc left) =
     (if m (src + i) \<noteq> 0
      then strncpy_copy (m(dest + i := m (src + i))) dest src (i + 1) left
      else (m, i, Suc left))"

fun strncpy_pad :: "mem \<Rightarrow> addr \<Rightarrow> u32 \<Rightarrow> nat \<Rightarrow> mem" where
  "strncpy_pad m dest i 0 = m"
| "strncpy_pad m dest i (Suc left) = strncpy_pad (m(dest + i := 0)) dest (i + 1) left"

definition strncpy :: "mem \<Rightarrow> addr \<Rightarrow> addr \<Rightarrow> u32 \<Rightarrow> mem" where
  "strncpy m dest src n =
     (case strncpy_copy m dest src 0 (unat n) of (m', i, left) \<Rightarrow> strncpy_pad m' dest i left)"

fun memcmp_loop :: "mem \<Rightarrow> addr \<Rightarrow> addr \<Rightarrow> nat list \<Rightarrow> int" where
  "memcmp_loop m a b [] = 0"
| "memcmp_loop m a b (i # is) =
     (if m (a + of_nat i) < m (b + of_nat i) then -1
      else if m (b + of_nat i) < m (a + of_nat i) then 1
      else memcmp_loop m a b is)"

definition memcmp :: "mem \<Rightarrow> addr \<Rightarrow> addr \<Rightarrow> u32 \<Rightarrow> int" where
  "memcmp m a b sz = memcmp_loop m a b [0..<unat sz]"

definition copy_byte :: "addr \<Rightarrow> addr \<Rightarrow> nat \<Rightarrow> mem \<Rightarrow> mem" where
  "copy_byte dst src i m = m(dst + of_nat i := m (src + of_nat i))"

definition memcpy :: "mem \<Rightarrow> addr \<Rightarrow> addr \<Rightarrow> u32 \<Rightarrow> mem" where
  "memcpy m dst src sz = fold (copy_byte dst src) [0..<unat sz] m"

partial_function (option) strrchr_loop :: "mem \<Rightarrow> addr \<Rightarrow> u8 \<Rightarrow> addr \<Rightarrow> addr option" where
  "strrchr_loop m str c lst =
     (if m str \<noteq> 0 then strrchr_loop m (str + 1) c (if m str = c then str else lst)
      else Some lst)"

definition strrchr :: "mem \<Rightarrow> addr \<Rightarrow> u8 \<Rightarrow> addr option" where
  "strrchr m str c = strrchr_loop m str c 0"

definition memmove :: "mem \<Rightarrow> addr \<Rightarrow> addr \<Rightarrow> u32 \<Rightarrow> mem" where
  "memmove m dst src sz =
     (if dst < src
      then fold (copy_byte dst src) [0..<unat sz] m
      else fold (\<lambda>i. copy_byte dst src (i - 1)) (rev [1..<unat sz + 1]) m)"

definition memset :: "mem \<Rightarrow> addr \<Rightarrow> u32 \<Rightarrow> u32 \<Rightarrow> mem" where
  "memset m buf v sz = fold (\<lambda>i m. m(buf + of_nat i := ucast v)) [0..<unat sz] m"

partial_function (option) strchr :: "mem \<Rightarrow> addr \<Rightarrow> u8 \<Rightarrow> addr option" where
  "strchr m str c =
     (if m str \<noteq> 0 then (if m str = c then Some str else strchr m (str + 1) c) else Some 0)"

partial_function (option) strcmp :: "mem \<Rightarrow> addr \<Rightarrow> addr \<Rightarrow> int option" where
  "strcmp m str1 str2 =
     (if m str1 \<noteq> 0 \<and> m str1 = m str2 then strcmp m (str1 + 1) (str2 + 1)
      else Some (uint (m str1) - uint (m str2)))"

fun strncmp :: "mem \<Rightarrow> addr \<Rightarrow> addr \<Rightarrow> nat \<Rightarrow> int" where
  "strncmp m str1 str2 0 = 0"
| "strncmp m str1 str2 (Suc n) =
     (if m str1 \<noteq> 0 \<and> m str1 = m str2 then strncmp m (str1 + 1) (str2 + 1) n
      else uint (m str1) - uint (m str2))"

partial_function (option) strcpy :: "mem \<Rightarrow> addr \<Rightarrow> addr \<Rightarrow> mem option" where
  "strcpy m dst src =
     (if m src \<noteq> 0 then strcpy (m(dst := m src)) (dst + 1) (src + 1)
      else Some (m(dst := m src)))"

partial_function (option) strcat_end :: "mem \<Rightarrow> addr \<Rightarrow> addr option" where
  "strcat_end m dst = (if m dst \<noteq> 0 then strcat_end m (dst + 1) else Some dst)"

definition strcat :: "mem \<Rightarrow> addr \<Rightarrow> addr \<Rightarrow> mem option" where
  "strcat m dst src = do { e \<leftarrow> strcat_end m dst; strcpy m e src }"

partial_function (option) strtok_skip :: "mem \<Rightarrow> addr \<Rightarrow> addr \<Rightarrow> addr option" where
  "strtok_skip m delim lst =
     (if m lst = 0 then Some lst
      else do { d \<leftarrow> strchr m delim (m lst);
                if d \<noteq> 0 then strtok_skip m delim (lst + 1) else Some lst })"

partial_function (option) strtok_scan :: "mem \<Rightarrow> addr \<Rightarrow> addr \<Rightarrow> addr option" where
  "strtok_scan m delim lst =
     (if m lst = 0 then Some lst
      else do { d \<leftarrow> strchr m delim (m lst);
                if d = 0 then strtok_scan m delim (lst + 1) else Some lst })"

text \<open>The result is the token (\<open>0\<close> for \<open>NULL\<close>), the memory and the static pointer \<open>last\<close>.\<close>

definition strtok :: "mem \<Rightarrow> addr \<Rightarrow> addr \<Rightarrow> addr \<Rightarrow> (addr \<times> mem \<times> addr) option" where
  "strtok m last0 str delim =
     (if str = 0 \<and> last0 = 0 then Some (0, m, last0)
      else do {
        start \<leftarrow> strtok_skip m delim (if str \<noteq> 0 then str else last0);
        if m start = 0 then Some (0, m, start)
        else do {
          e \<leftarrow> strtok_scan m delim start;
          if m e \<noteq> 0 then Some (start, m(e := 0), e + 1) else Some (start, m, e) } })"

subsection \<open>Strings in memory\<close>

fun cstr :: "mem \<Rightarrow> addr \<Rightarrow> string \<Rightarrow> bool" where
  "cstr m p [] = (m p = 0)"
| "cstr m p (c # s) = (c \<noteq> CHR 0x00 \<and> m p = of_char c \<and> unat p + 1 < 2 ^ 32 \<and> cstr m (p + 1) s)"

text \<open>The comparison of two strings by their first differing byte, as \<open>strcmp\<close> documents it.\<close>

fun byte_compare :: "string \<Rightarrow> string \<Rightarrow> int" where
  "byte_compare [] [] = 0"
| "byte_compare [] (d # t) = - of_char d"
| "byte_compare (c # s) [] = of_char c"
| "byte_compare (c # s) (d # t) =
     (if c = d then byte_compare s t else of_char c - of_char d)"


text \<open>A memory with a few strings in it, for the examples below.\<close>

definition wmem :: mem where
  "wmem = (\<lambda>_. 0)(16 := 47, 17 := 97, 18 := 47, 19 := 47, 20 := 98, 32 := 47, 48 := 97)"

subsection \<open>The string predicate\<close>

lemma of_char_u8_inject [simp]: "(of_char c :: u8) = of_char d \<longleftrightarrow> c = d"
proof
  assume "(of_char c :: u8) = of_char d"
  then have "unat (of_nat (of_char c) :: u8) = unat (of_nat (of_char d) :: u8)"
    by (simp only: of_nat_of_char)
  then show "c = d" by (simp add: unat_of_nat)
qed simp

lemma uint_of_char_u8 [simp]: "uint (of_char c :: u8) = of_char c"
proof -
  have "(of_char c :: u8) = word_of_int (of_char c)" by (simp add: of_int_of_char)
  then show ?thesis by (simp add: uint_word_of_int)
qed

lemma of_char_zero [simp]: "of_char c = (0 :: int) \<longleftrightarrow> c = CHR 0x00"
proof -
  have "of_char c = (of_char (CHR 0x00) :: int) \<longleftrightarrow> c = CHR 0x00" by (rule of_char_eq_iff)
  then show ?thesis by simp
qed

lemma of_char_zero_u8 [simp]: "of_char c = (0 :: u8) \<longleftrightarrow> c = CHR 0x00"
proof -
  have "of_char c = (of_char (CHR 0x00) :: u8) \<longleftrightarrow> c = CHR 0x00" by (rule of_char_u8_inject)
  then show ?thesis by simp
qed

lemma cstr_no_nul: "cstr m p s \<Longrightarrow> CHR 0x00 \<notin> set s"
  by (induction s arbitrary: p) auto

lemma cstr_length: "cstr m p s \<Longrightarrow> unat p + length s < 2 ^ 32"
proof (induction s arbitrary: p)
  case (Cons c s)
  then have "unat (p + 1) = unat p + 1" by (simp add: unat_plus_simple32)
  with Cons.IH [of "p + 1"] Cons.prems show ?case by auto
qed (simp add: unat_u32_bound)

lemma cstr_unique: "cstr m p s \<Longrightarrow> cstr m p t \<Longrightarrow> s = t"
proof (induction s arbitrary: p t)
  case Nil then show ?case by (cases t) auto
next
  case (Cons c s) then show ?case by (cases t) auto
qed

lemma strlen_loop_cstr:
  "cstr m (p + k) s \<Longrightarrow> strlen_loop m p k = Some (k + of_nat (length s))"
proof (induction s arbitrary: k)
  case Nil then show ?case by (simp add: strlen_loop.simps)
next
  case (Cons c s)
  then have "strlen_loop m p (k + 1) = Some ((k + 1) + of_nat (length s))"
    by (intro Cons.IH) (simp add: add.assoc)
  with Cons.prems show ?case by (auto simp add: strlen_loop.simps [of m p k] ac_simps)
qed

lemma strcmp_cstr:
  "cstr m p s \<Longrightarrow> cstr m q t \<Longrightarrow> strcmp m p q = Some (byte_compare s t)"
proof (induction s t arbitrary: p q rule: byte_compare.induct)
  case (4 c s d t)
  then show ?case by (auto simp: strcmp.simps [of m p q])
qed (auto simp: strcmp.simps)

lemma byte_compare_eq_0: "CHR 0x00 \<notin> set s \<Longrightarrow> CHR 0x00 \<notin> set t \<Longrightarrow> byte_compare s t = 0 \<longleftrightarrow> s = t"
  by (induction s t rule: byte_compare.induct) auto


lemma strchr_cstr:
  assumes "cstr m p s"
  shows "strchr m p (of_char c) =
    Some (if c \<in> set s \<and> c \<noteq> CHR 0x00 then p + of_nat (length (takeWhile (\<lambda>x. x \<noteq> c) s)) else 0)"
  using assms
proof (induction s arbitrary: p)
  case Nil then show ?case by (simp add: strchr.simps)
next
  case (Cons x s)
  then show ?case by (auto simp: strchr.simps [of m p] ac_simps)
qed

lemma strncmp_cstr:
  "cstr m p s \<Longrightarrow> cstr m q t \<Longrightarrow> strncmp m p q n = byte_compare (take n s) (take n t)"
proof (induction n arbitrary: p q s t)
  case (Suc n)
  then show ?case by (cases s; cases t) auto
qed simp

lemma strncmp_prefix:
  assumes "cstr m p s" "cstr m q t"
  shows "strncmp m p q (length t) = 0 \<longleftrightarrow> take (length t) s = t"
proof -
  have "CHR 0x00 \<notin> set (take (length t) s)" "CHR 0x00 \<notin> set t"
    using assms cstr_no_nul by (meson in_set_takeD)+
  with assms show ?thesis by (simp add: strncmp_cstr byte_compare_eq_0)
qed


subsection \<open>Block copies\<close>

definition copied :: "mem \<Rightarrow> mem \<Rightarrow> addr \<Rightarrow> addr \<Rightarrow> nat \<Rightarrow> bool" where
  "copied m m' d s n \<longleftrightarrow>
     (\<forall>i<n. m' (d + of_nat i) = m (s + of_nat i)) \<and> (\<forall>x. x \<notin> region d n \<longrightarrow> m' x = m x)"

lemma copy_byte_apply:
  "copy_byte d s i m x = (if x = d + of_nat i then m (s + of_nat i) else m x)"
  by (simp add: copy_byte_def)

lemma addr_neq:
  fixes a b :: addr
  assumes "unat a + i < 2 ^ 32" "unat b + k < 2 ^ 32" "unat a + i \<noteq> unat b + k"
  shows "a + of_nat i \<noteq> b + of_nat k"
  using assms by (metis unat_plus_of_nat)

lemma in_region_of_nat:
  "unat d + n \<le> 2 ^ 32 \<Longrightarrow> i < n \<Longrightarrow> d + of_nat i \<in> region d n"
  by (simp add: region_def unat_plus_of_nat)

lemma not_in_region_end:
  "unat d + n < 2 ^ 32 \<Longrightarrow> d + of_nat n \<notin> region d n"
  by (simp add: region_def unat_plus_of_nat)

lemma region_mono: "x \<notin> region d (Suc n) \<Longrightarrow> x \<notin> region d n"
  by (auto simp: region_def)

lemma copied_forward:
  assumes "unat d + n \<le> 2 ^ 32" and "\<And>i k. i < k \<Longrightarrow> k < n \<Longrightarrow> d + of_nat i \<noteq> s + of_nat k"
  shows "copied m (fold (copy_byte d s) [0..<n] m) d s n"
  using assms
proof (induction n)
  case 0 then show ?case by (simp add: copied_def)
next
  case (Suc n)
  define M where "M = fold (copy_byte d s) [0..<n] m"
  have IH: "copied m M d s n" unfolding M_def by (rule Suc.IH) (use Suc.prems in auto)
  have step: "fold (copy_byte d s) [0..<Suc n] m = copy_byte d s n M" by (simp add: M_def)
  have "M (s + of_nat n) = m (s + of_nat n)"
  proof (cases "s + of_nat n \<in> region d n")
    case True
    then obtain i where "i < n" "s + of_nat n = d + of_nat i"
      using Suc.prems(1) by (intro that [of "unat (s + of_nat n) - unat d"])
        (auto simp: region_def word_unat_eq_iff unat_plus_of_nat)
    with Suc.prems(2) [of i n] show ?thesis by simp
  next
    case False
    with IH show ?thesis by (simp add: copied_def)
  qed
  moreover have "d + of_nat i \<noteq> d + of_nat n" if "i < n" for i
    using that Suc.prems(1) by (intro addr_neq) auto
  moreover have "d + of_nat n \<in> region d (Suc n)"
    using Suc.prems(1) by (intro in_region_of_nat) auto
  ultimately show ?case using IH unfolding step
    by (auto simp: copied_def copy_byte_apply less_Suc_eq dest: region_mono)
qed

lemma copied_backward:
  assumes "unat d + n \<le> 2 ^ 32" and "\<And>i k. k < i \<Longrightarrow> i < n \<Longrightarrow> d + of_nat i \<noteq> s + of_nat k"
  shows "copied m (fold (\<lambda>i. copy_byte d s (i - 1)) (rev [1..<n + 1]) m) d s n"
  using assms
proof (induction n arbitrary: m)
  case 0 then show ?case by (simp add: copied_def)
next
  case (Suc n)
  let ?f = "\<lambda>i. copy_byte d s (i - 1)"
  let ?m1 = "copy_byte d s n m"
  let ?m' = "fold ?f (rev [1..<n + 1]) ?m1"
  have IH: "copied ?m1 ?m' d s n" by (rule Suc.IH) (use Suc.prems in auto)
  have step: "fold ?f (rev [1..<Suc n + 1]) m = ?m'" by simp
  have "?m' (d + of_nat n) = m (s + of_nat n)"
    using IH not_in_region_end [of d n] Suc.prems(1) by (simp add: copied_def copy_byte_apply)
  moreover have "?m1 (s + of_nat i) = m (s + of_nat i)" if "i < n" for i
    using Suc.prems(2) [of i n] that by (simp add: copy_byte_apply)
  moreover have "d + of_nat n \<in> region d (Suc n)"
    using Suc.prems(1) by (intro in_region_of_nat) auto
  ultimately show ?case
    using IH unfolding step
    by (auto simp: copied_def copy_byte_apply less_Suc_eq dest: region_mono)
qed

lemma memcpy_copied:
  assumes "unat d + unat n \<le> 2 ^ 32" "unat s + unat n \<le> 2 ^ 32"
    and "unat d \<le> unat s \<or> unat s + unat n \<le> unat d"
  shows "copied m (memcpy m d s n) d s (unat n)"
  unfolding memcpy_def
proof (rule copied_forward)
  fix i k assume "i < k" "k < unat n"
  with assms show "d + of_nat i \<noteq> s + of_nat k" by (intro addr_neq) auto
qed (use assms in simp)

lemma memset_fill:
  assumes "unat b + n \<le> 2 ^ 32"
  shows "fold (\<lambda>i m. m(b + of_nat i := v)) [0..<n] m x = (if x \<in> region b n then v else m x)"
  using assms
proof (induction n)
  case (Suc n)
  have "x \<in> region b (Suc n) \<longleftrightarrow> x \<in> region b n \<or> x = b + of_nat n"
    using Suc.prems by (auto simp: region_def unat_plus_of_nat word_unat_eq_iff)
  with Suc show ?case by auto
qed (auto simp: region_def)


subsection \<open>Copying and splitting strings\<close>

lemma region_Suc: "unat p + 1 < 2 ^ 32 \<Longrightarrow> region p (Suc n) = insert p (region (p + 1) n)"
  by (auto simp: region_def unat_plus_simple32 word_unat_eq_iff)

lemma cstr_cong:
  assumes "\<And>x. x \<in> region p (Suc (length s)) \<Longrightarrow> m x = m' x"
  shows "cstr m p s \<longleftrightarrow> cstr m' p s"
  using assms
proof (induction s arbitrary: p)
  case Nil then show ?case by (simp add: region_def)
next
  case (Cons c s)
  show ?case
  proof (cases "unat p + 1 < 2 ^ 32")
    case True
    then have "cstr m (p + 1) s \<longleftrightarrow> cstr m' (p + 1) s"
      using Cons.prems by (intro Cons.IH) (simp add: region_Suc)
    moreover have "m p = m' p" using Cons.prems True by (simp add: region_Suc)
    ultimately show ?thesis by simp
  qed simp
qed

lemma strcpy_cstr:
  assumes "cstr m src s" "unat dst + length s < 2 ^ 32"
    and "region dst (Suc (length s)) \<inter> region src (Suc (length s)) = {}"
  shows "\<exists>m'. strcpy m dst src = Some m' \<and> cstr m' dst s \<and>
    (\<forall>x. x \<notin> region dst (Suc (length s)) \<longrightarrow> m' x = m x)"
  using assms
proof (induction s arbitrary: m dst src)
  case Nil then show ?case by (auto simp: strcpy.simps [of m dst src] region_def)
next
  case (Cons c s)
  let ?m = "m(dst := m src)"
  have d1: "unat dst + 1 < 2 ^ 32" and s1: "unat src + 1 < 2 ^ 32" using Cons.prems by auto
  note reg = region_Suc [OF d1] region_Suc [OF s1]
  have "cstr ?m (src + 1) s"
    using Cons.prems reg by (subst cstr_cong [of _ _ _ m]) auto
  moreover have "unat (dst + 1) + length s < 2 ^ 32" using Cons.prems(2) by (simp add: unat_plus_simple32)
  moreover have "region (dst + 1) (Suc (length s)) \<inter> region (src + 1) (Suc (length s)) = {}"
    using Cons.prems(3) reg by auto
  ultimately obtain m' where m': "strcpy ?m (dst + 1) (src + 1) = Some m'" "cstr m' (dst + 1) s"
    "\<And>x. x \<notin> region (dst + 1) (Suc (length s)) \<Longrightarrow> m' x = ?m x"
    using Cons.IH by blast
  have "dst \<notin> region (dst + 1) (Suc (length s))" using d1 by (simp add: region_def unat_plus_simple32)
  then have "m' dst = of_char c" using m'(3) Cons.prems(1) by simp
  with m' d1 Cons.prems(1) show ?case
    by (auto simp: strcpy.simps [of m dst src] reg)
qed

lemma cstr_append:
  "cstr m p (s @ t) \<Longrightarrow> cstr m (p + of_nat (length s)) t"
proof (induction s arbitrary: p)
  case (Cons c s)
  then have "cstr m ((p + 1) + of_nat (length s)) t" by simp
  then show ?case by (simp add: add.assoc)
qed simp

lemma cstr_truncate:
  "cstr m p (s @ t) \<Longrightarrow> cstr (m(p + of_nat (length s) := 0)) p s"
proof (induction s arbitrary: p)
  case (Cons c s)
  have "unat p + length (c # s @ t) < 2 ^ 32" using cstr_length [OF Cons.prems] by simp
  then have ne: "p + of_nat 0 \<noteq> p + of_nat (Suc (length s))" by (intro addr_neq) auto
  have "cstr (m((p + 1) + of_nat (length s) := 0)) (p + 1) s"
    by (rule Cons.IH) (use Cons.prems in simp)
  then have "cstr (m(p + of_nat (length (c # s)) := 0)) (p + 1) s" by (simp add: add.assoc)
  with ne Cons.prems show ?case by (simp del: fun_upd_apply) simp
qed simp

lemma strchr_delim:
  assumes "cstr m delim ds" "delim \<noteq> 0" "c \<noteq> CHR 0x00"
  obtains d where "strchr m delim (of_char c) = Some d" "d \<noteq> 0 \<longleftrightarrow> c \<in> set ds"
proof -
  let ?k = "length (takeWhile (\<lambda>x. x \<noteq> c) ds)"
  have "?k \<le> length ds" by (rule length_takeWhile_le)
  then have "unat (delim + of_nat ?k) \<ge> unat delim"
    using cstr_length [OF assms(1)] by (simp add: unat_plus_of_nat)
  then have "delim + of_nat ?k \<noteq> 0" using assms(2) by (metis le_zero_eq unat_eq_zero)
  then show thesis using that strchr_cstr [OF assms(1), of c] assms(3) by auto
qed

lemma strtok_skip_cstr:
  assumes "cstr m p s" "cstr m delim ds" "delim \<noteq> 0"
  shows "strtok_skip m delim p = Some (p + of_nat (length (takeWhile (\<lambda>c. c \<in> set ds) s)))"
  using assms(1)
proof (induction s arbitrary: p)
  case Nil then show ?case by (simp add: strtok_skip.simps)
next
  case (Cons c s)
  obtain d where "strchr m delim (of_char c) = Some d" "d \<noteq> 0 \<longleftrightarrow> c \<in> set ds"
    using strchr_delim [OF assms(2,3), of c] Cons.prems by auto
  with Cons show ?case by (auto simp: strtok_skip.simps [of m delim p] add.assoc)
qed

lemma strtok_scan_cstr:
  assumes "cstr m p s" "cstr m delim ds" "delim \<noteq> 0"
  shows "strtok_scan m delim p = Some (p + of_nat (length (takeWhile (\<lambda>c. c \<notin> set ds) s)))"
  using assms(1)
proof (induction s arbitrary: p)
  case Nil then show ?case by (simp add: strtok_scan.simps)
next
  case (Cons c s)
  obtain d where "strchr m delim (of_char c) = Some d" "d \<noteq> 0 \<longleftrightarrow> c \<in> set ds"
    using strchr_delim [OF assms(2,3), of c] Cons.prems by auto
  with Cons show ?case by (auto simp: strtok_scan.simps [of m delim p] add.assoc)
qed

lemma cstr_head: "cstr m p s \<Longrightarrow> m p = 0 \<longleftrightarrow> s = []"
  by (cases s) auto

lemma cstr_tl: "cstr m p s \<Longrightarrow> s \<noteq> [] \<Longrightarrow> cstr m (p + 1) (tl s)"
  by (cases s) auto

lemma cstr_not_null: "cstr m (q + of_nat n) s \<Longrightarrow> q \<noteq> 0 \<Longrightarrow> unat q + n < 2 ^ 32 \<Longrightarrow> q + of_nat n \<noteq> 0"
  by (metis add_is_0 unat_eq_zero unat_plus_of_nat)

lemma cstr_cut:
  assumes "cstr m p (t @ r)" "r \<noteq> []"
  shows "cstr (m(p + of_nat (length t) := 0)) (p + of_nat (length t) + 1) (tl r)"
proof -
  let ?e = "p + of_nat (length t)"
  have r: "cstr m ?e r" by (rule cstr_append [OF assms(1)])
  then have "unat ?e + 1 < 2 ^ 32" using assms(2) by (cases r) auto
  then have "?e \<notin> region (?e + 1) (Suc (length (tl r)))" by (simp add: region_def unat_plus_simple32)
  then show ?thesis
    using cstr_tl [OF r assms(2)] by (subst cstr_cong [of _ _ _ m]) auto
qed

lemma strtok_at:
  assumes "q = (if str \<noteq> 0 then str else lst)" "q \<noteq> 0"
  shows "strtok m lst str delim =
    do { start \<leftarrow> strtok_skip m delim q;
         if m start = 0 then Some (0, m, start)
         else do { e \<leftarrow> strtok_scan m delim start;
                   if m e \<noteq> 0 then Some (start, m(e := 0), e + 1) else Some (start, m, e) } }"
  using assms by (auto simp: strtok_def split: if_splits)

lemma strtok_no_token:
  assumes "q = (if str \<noteq> 0 then str else lst)" "q \<noteq> 0" "cstr m q s" "cstr m delim ds" "delim \<noteq> 0"
    and "dropWhile (\<lambda>c. c \<in> set ds) s = []"
  shows "\<exists>l. strtok m lst str delim = Some (0, m, l) \<and> cstr m l []"
proof -
  have tw: "takeWhile (\<lambda>c. c \<in> set ds) s = s"
    using assms(6) by (metis append_Nil2 takeWhile_dropWhile_id)
  have "strtok_skip m delim q = Some (q + of_nat (length s))"
    using strtok_skip_cstr [OF assms(3-5)] unfolding tw .
  moreover have "m (q + of_nat (length s)) = 0" using cstr_append [of m q s "[]"] assms(3) by simp
  ultimately show ?thesis using strtok_at [OF assms(1,2)] by simp
qed

lemma strtok_token:
  assumes q: "q = (if str \<noteq> 0 then str else lst)" "q \<noteq> 0"
    and cs: "cstr m q s" "cstr m delim ds" "delim \<noteq> 0"
    and sep: "region q (Suc (length s)) \<inter> region delim (Suc (length ds)) = {}"
    and s: "s = a @ t @ r" "a = takeWhile (\<lambda>c. c \<in> set ds) s"
      "t = takeWhile (\<lambda>c. c \<notin> set ds) (t @ r)" "t @ r \<noteq> []"
  shows "\<exists>start m' l. strtok m lst str delim = Some (start, m', l) \<and> start \<noteq> 0 \<and>
    cstr m' start t \<and> cstr m' l (tl r) \<and> cstr m' delim ds"
proof -
  let ?start = "q + of_nat (length a)" and ?e = "q + of_nat (length a) + of_nat (length t)"
  have len: "unat q + length s < 2 ^ 32" by (rule cstr_length [OF cs(1)])
  have st: "cstr m ?start (t @ r)" using cs(1) s(1) cstr_append by simp
  have skip: "strtok_skip m delim q = Some ?start" using strtok_skip_cstr [OF cs] s(2) by simp
  have scan: "strtok_scan m delim ?start = Some ?e" using strtok_scan_cstr [OF st cs(2,3)] s(3) by simp
  have nn: "?start \<noteq> 0" using cstr_not_null [OF st q(2)] len s(1) by simp
  have ms: "m ?start \<noteq> 0" using cstr_head [OF st] s(4) by simp
  have er: "cstr m ?e r" by (rule cstr_append [OF st])
  show ?thesis
  proof (cases "r = []")
    case True
    then have "strtok m lst str delim = Some (?start, m, ?e)"
      using strtok_at [OF q] skip scan ms cstr_head [OF er] by simp
    with True nn st er cs(2) show ?thesis by auto
  next
    case False
    then have run: "strtok m lst str delim = Some (?start, m(?e := 0), ?e + 1)"
      using strtok_at [OF q] skip scan ms cstr_head [OF er] by simp
    have "?e = q + of_nat (length a + length t)" by (simp add: add.assoc)
    then have "?e \<in> region q (Suc (length s))"
      using len s(1) by (simp add: region_def unat_plus_of_nat del: of_nat_add)
    then have "cstr (m(?e := 0)) delim ds" using sep cs(2) by (subst cstr_cong [of _ _ _ m]) auto
    with run nn cstr_truncate [OF st] cstr_cut [OF st False] show ?thesis by blast
  qed
qed

subsection \<open>What the routines compute\<close>

text \<open>\<open>strlen\<close> returns on every NUL-terminated string, and returns its length.\<close>

theorem strlen_correct: "cstr m p s \<Longrightarrow> strlen m p = Some (of_nat (length s))"
  using strlen_loop_cstr [of m p 0 s] by (simp add: strlen_def)

theorem strlen_correct_witness:
  "cstr wmem 16 ''/a//b'' \<and> strlen wmem 16 = Some 5"
proof -
  have "cstr wmem 16 ''/a//b''" by (simp add: wmem_def)
  from this strlen_correct [OF this] show ?thesis by simp
qed

text \<open>C4. \<open>memmove\<close> copies the block as it was before the call, whatever the overlap of source and
  destination, and leaves every byte outside the destination alone.\<close>

theorem memmove_correct:
  assumes "unat d + unat n \<le> 2 ^ 32" "unat s + unat n \<le> 2 ^ 32"
  shows "copied m (memmove m d s n) d s (unat n)"
proof (cases "d < s")
  case True
  then have "copied m (fold (copy_byte d s) [0..<unat n] m) d s (unat n)"
    using assms by (intro copied_forward addr_neq) (auto simp: word_less_nat_alt)
  with True show ?thesis by (simp add: memmove_def)
next
  case False
  then have "copied m (fold (\<lambda>i. copy_byte d s (i - 1)) (rev [1..<unat n + 1]) m) d s (unat n)"
    using assms by (intro copied_backward addr_neq) (auto simp: word_less_nat_alt)
  with False show ?thesis by (simp add: memmove_def)
qed

theorem memmove_correct_witness:
  "copied wmem (memmove wmem 17 16 4) 17 16 4 \<and> memmove wmem 17 16 4 20 = 47"
proof -
  have c: "copied wmem (memmove wmem 17 16 4) 17 16 4"
    using memmove_correct [of 17 4 16 wmem] by simp
  have "(3::nat) < 4" by simp
  then have "memmove wmem 17 16 4 (17 + of_nat 3) = wmem (16 + of_nat 3)"
    using c unfolding copied_def by blast
  with c show ?thesis by (simp add: wmem_def)
qed

text \<open>\<open>strcmp\<close> returns on any two NUL-terminated strings and its result is zero exactly when they
  are equal; otherwise it is the difference of the first two bytes that differ.\<close>

theorem strcmp_correct:
  assumes "cstr m p s" "cstr m q t"
  shows "strcmp m p q = Some (byte_compare s t) \<and> (byte_compare s t = 0 \<longleftrightarrow> s = t)"
  using assms strcmp_cstr byte_compare_eq_0 cstr_no_nul by metis

theorem strcmp_correct_witness:
  "strcmp wmem 20 48 = Some 1 \<and> strcmp wmem 20 20 = Some 0"
proof -
  have "cstr wmem 20 ''b''" "cstr wmem 48 ''a''" by (simp_all add: wmem_def)
  with strcmp_correct [of wmem 20 "''b''" 48 "''a''"] strcmp_correct [of wmem 20 "''b''" 20 "''b''"]
  show ?thesis by simp
qed

text \<open>\<open>strtok\<close> finds the next maximal run of non-delimiters of the string it is working on, ends
  it with a NUL in place, and leaves \<open>last\<close> at what follows; it returns \<open>NULL\<close> when only delimiters
  are left. The buffer must not overlap the delimiter string.\<close>

theorem strtok_correct:
  fixes s ds :: string
  assumes q: "q = (if str \<noteq> 0 then str else lst)" "q \<noteq> 0"
    and cs: "cstr m q s" "cstr m delim ds" "delim \<noteq> 0"
    and sep: "region q (Suc (length s)) \<inter> region delim (Suc (length ds)) = {}"
  shows "(dropWhile (\<lambda>c. c \<in> set ds) s = [] \<longrightarrow> (\<exists>l. strtok m lst str delim = Some (0, m, l) \<and> cstr m l [])) \<and>
    (dropWhile (\<lambda>c. c \<in> set ds) s \<noteq> [] \<longrightarrow> (\<exists>start m' l. strtok m lst str delim = Some (start, m', l) \<and> start \<noteq> 0 \<and>
        cstr m' start (takeWhile (\<lambda>c. c \<notin> set ds) (dropWhile (\<lambda>c. c \<in> set ds) s)) \<and>
        cstr m' l (tl (dropWhile (\<lambda>c. c \<notin> set ds) (dropWhile (\<lambda>c. c \<in> set ds) s))) \<and> cstr m' delim ds))"
proof (intro conjI impI)
  assume "dropWhile (\<lambda>c. c \<in> set ds) s = []"
  then show "\<exists>l. strtok m lst str delim = Some (0, m, l) \<and> cstr m l []"
    by (rule strtok_no_token [OF q cs])
next
  assume "dropWhile (\<lambda>c. c \<in> set ds) s \<noteq> []"
  then show "\<exists>start m' l. strtok m lst str delim = Some (start, m', l) \<and> start \<noteq> 0 \<and>
      cstr m' start (takeWhile (\<lambda>c. c \<notin> set ds) (dropWhile (\<lambda>c. c \<in> set ds) s)) \<and>
      cstr m' l (tl (dropWhile (\<lambda>c. c \<notin> set ds) (dropWhile (\<lambda>c. c \<in> set ds) s))) \<and> cstr m' delim ds"
    by (intro strtok_token [OF q cs sep, where a = "takeWhile (\<lambda>c. c \<in> set ds) s"])
      simp_all
qed

theorem strtok_correct_witness:
  "\<exists>start m' l. strtok wmem 0 16 32 = Some (start, m', l) \<and> start \<noteq> 0 \<and>
     cstr m' start ''a'' \<and> cstr m' l ''/b''"
proof -
  have c: "cstr wmem 16 ''/a//b''" "cstr wmem 32 ''/''" by (simp_all add: wmem_def)
  have sep: "region 16 (Suc (length ''/a//b'')) \<inter> region 32 (Suc (length ''/'')) = {}"
    by (auto simp: region_def)
  show ?thesis using strtok_correct [of 16 16 0 wmem "''/a//b''" 32 "''/''", OF _ _ c _ sep] by auto
qed

end
