(* ===== verification/Stdio.thy ===== *)
theory Stdio
  imports Libc_String "HOL-Library.Monad_Syntax"
begin

unbundle bit_operations_syntax

text \<open>
  Formatted output of the C library (\<^verbatim>\<open>libc/stdio/stdio.cpp\<close>). The result of a call is the list of the pieces of text that go to
  \<^verbatim>\<open>sys_console_write\<close>, one after the other. The format is the text before its terminating zero; the variable arguments are the words on
  the stack, a \<^verbatim>\<open>long long\<close> being two of them, low word first; text arguments are addresses of the memory. \<^const>\<open>None\<close> stands for undefined behaviour:
  a width or precision beyond the range of \<^verbatim>\<open>int\<close>, a missing argument, the negation of the least number.
\<close>

subsection \<open>Console output\<close>

definition console_write :: "string \<Rightarrow> string list" where
  "console_write txt = (if txt = [] then [] else [txt])"

text \<open>The text at an address.\<close>

definition text_at :: "mem \<Rightarrow> addr \<Rightarrow> nat \<Rightarrow> string" where
  "text_at m p n = map (\<lambda>i. char_of (unat (m (p + of_nat i)))) [0..<n]"

definition console_write_string :: "mem \<Rightarrow> addr \<Rightarrow> string list option" where
  "console_write_string m str =
     (if str = 0 then Some (console_write ''(null)'')
      else do { n \<leftarrow> strlen m str; Some (console_write (text_at m str (unat n))) })"

definition putchar :: "char \<Rightarrow> nat \<times> string list" where
  "putchar c = (of_char c, console_write [c])"

definition puts :: "mem \<Rightarrow> addr \<Rightarrow> string list option" where
  "puts m str = do { out \<leftarrow> console_write_string m str; Some (out @ console_write [CHR 0x0A]) }"

fun repeat_loop :: "char \<Rightarrow> nat \<Rightarrow> string list" where
  "repeat_loop ch remaining =
     (if 0 < remaining
      then let chunk = (if remaining < 32 then remaining else 32)
           in console_write (replicate chunk ch) @ repeat_loop ch (remaining - chunk)
      else [])"

definition console_write_repeat :: "char \<Rightarrow> int \<Rightarrow> string list" where
  "console_write_repeat ch count = (if count \<le> 0 then [] else repeat_loop ch (nat count))"


subsection \<open>Numbers\<close>

definition is_digit :: "char \<Rightarrow> bool" where
  "is_digit c \<longleftrightarrow> 48 \<le> (of_char c :: nat) \<and> (of_char c :: nat) \<le> 57"

definition digits_of :: "bool \<Rightarrow> string" where
  "digits_of uppercase = (if uppercase then ''0123456789ABCDEF'' else ''0123456789abcdef'')"

text \<open>The digits in the order the loop finds them, the lowest first. The bases in use are 10 and 16; for a base below 2 the loop of the code would not end.\<close>

function digit_loop :: "string \<Rightarrow> nat \<Rightarrow> nat \<Rightarrow> string" where
  "digit_loop digits b v =
     (let temp = [digits ! (v mod b)]; v' = v div b
      in if v' \<noteq> 0 \<and> 1 < b then temp @ digit_loop digits b v' else temp)"
  by pat_completeness auto
termination by (relation "measure (\<lambda>(_, _, v). v)") (auto simp: div_greater_zero_iff intro!: div_less_dividend)

definition format_unsigned :: "u64 \<Rightarrow> nat \<Rightarrow> bool \<Rightarrow> string" where
  "format_unsigned v b uppercase = rev (digit_loop (digits_of uppercase) b (unat v))"


subsection \<open>Conversion specifications\<close>

record flags =
  left_adjust :: bool
  force_sign :: bool
  force_space :: bool
  alternate :: bool
  zero_pad :: bool

datatype len = LEN_NONE | LEN_LONG | LEN_LONGLONG

record conversion = flags +
  width :: int
  precision :: int
  length_mod :: len

definition no_flags :: flags where
  "no_flags = \<lparr>left_adjust = False, force_sign = False, force_space = False, alternate = False, zero_pad = False\<rparr>"

fun parse_flags :: "flags \<Rightarrow> string \<Rightarrow> flags \<times> string" where
  "parse_flags f [] = (f, [])"
| "parse_flags f (c # cs) =
     (if c = CHR ''-'' then parse_flags (f\<lparr>left_adjust := True\<rparr>) cs
      else if c = CHR ''+'' then parse_flags (f\<lparr>force_sign := True\<rparr>) cs
      else if c = CHR '' '' then parse_flags (f\<lparr>force_space := True\<rparr>) cs
      else if c = CHR ''#'' then parse_flags (f\<lparr>alternate := True\<rparr>) cs
      else if c = CHR ''0'' then parse_flags (f\<lparr>zero_pad := True\<rparr>) cs
      else (f, c # cs))"

text \<open>The largest \<^verbatim>\<open>int\<close>.\<close>

definition INT_MAX :: int where "INT_MAX = 0x7FFFFFFF"

fun parse_number :: "int \<Rightarrow> string \<Rightarrow> (int \<times> string) option" where
  "parse_number n [] = Some (n, [])"
| "parse_number n (c # cs) =
     (if is_digit c
      then let n' = n * 10 + (of_char c - 48)
           in if n' \<le> INT_MAX then parse_number n' cs else None
      else Some (n, c # cs))"

definition parse_precision :: "string \<Rightarrow> (int \<times> string) option" where
  "parse_precision format =
     (case format of c # cs \<Rightarrow> if c = CHR ''.'' then parse_number 0 cs else Some (-1, format) | [] \<Rightarrow> Some (-1, format))"

fun parse_length :: "string \<Rightarrow> len \<times> string" where
  "parse_length (c # d # cs) =
     (if c = CHR ''l'' then if d = CHR ''l'' then (LEN_LONGLONG, cs) else (LEN_LONG, d # cs) else (LEN_NONE, c # d # cs))"
| "parse_length [c] = (if c = CHR ''l'' then (LEN_LONG, []) else (LEN_NONE, [c]))"
| "parse_length [] = (LEN_NONE, [])"

definition parse_conversion :: "string \<Rightarrow> (conversion \<times> string) option" where
  "parse_conversion format = do {
     let (f, format) = parse_flags no_flags format;
     (w, format) \<leftarrow> parse_number 0 format;
     (p, format) \<leftarrow> parse_precision format;
     let (l, format) = parse_length format;
     Some (\<lparr>left_adjust = left_adjust f, force_sign = force_sign f, force_space = force_space f, alternate = alternate f,
       zero_pad = zero_pad f \<and> p < 0, width = w, precision = p, length_mod = l\<rparr>, format)
   }"


subsection \<open>Arguments\<close>

fun arg32 :: "u32 list \<Rightarrow> (u32 \<times> u32 list) option" where
  "arg32 (w # args) = Some (w, args)"
| "arg32 [] = None"

fun arg64 :: "u32 list \<Rightarrow> (u64 \<times> u32 list) option" where
  "arg64 (lo # hi # args) = Some (ucast lo OR push_bit 32 (ucast hi), args)"
| "arg64 _ = None"

definition signed_arg :: "len \<Rightarrow> u32 list \<Rightarrow> (int \<times> u32 list) option" where
  "signed_arg l args =
     (if l = LEN_LONGLONG then do { (x, args) \<leftarrow> arg64 args; Some (sint x, args) }
      else do { (x, args) \<leftarrow> arg32 args; Some (sint x, args) })"

definition unsigned_arg :: "len \<Rightarrow> u32 list \<Rightarrow> (u64 \<times> u32 list) option" where
  "unsigned_arg l args =
     (if l = LEN_LONGLONG then arg64 args
      else do { (x, args) \<leftarrow> arg32 args; Some (ucast x, args) })"


subsection \<open>Conversions\<close>

text \<open>The padding: the length of the text is cast to \<^verbatim>\<open>int\<close>, and the difference must be one.\<close>

definition padding_for :: "int \<Rightarrow> nat \<Rightarrow> int option" where
  "padding_for w total_len =
     (let t = sint (of_nat total_len :: u32)
      in if w > t then if w - t \<le> INT_MAX then Some (w - t) else None else Some 0)"

text \<open>A number: spaces, prefix, zeroes and digits, or the spaces at the end.\<close>

definition put_number :: "conversion \<Rightarrow> string \<Rightarrow> nat \<Rightarrow> string \<Rightarrow> string list option" where
  "put_number c prefix zeroes digits = do {
     padding \<leftarrow> padding_for (width c) (length prefix + zeroes + length digits);
     Some ((if \<not> left_adjust c then console_write_repeat (CHR '' '') padding else []) @ console_write prefix @
       console_write_repeat (CHR ''0'') (int zeroes) @ console_write digits @
       (if left_adjust c then console_write_repeat (CHR '' '') padding else []))
   }"

definition zeroes_for :: "conversion \<Rightarrow> nat \<Rightarrow> nat \<Rightarrow> nat" where
  "zeroes_for c prefix_len digits_len =
     (if 0 < precision c \<and> int digits_len < precision c then nat (precision c) - digits_len
      else if \<not> left_adjust c \<and> zero_pad c \<and> int (digits_len + prefix_len) < width c then nat (width c) - (digits_len + prefix_len)
      else 0)"

definition print_signed :: "conversion \<Rightarrow> u32 list \<Rightarrow> (string list \<times> u32 list) option" where
  "print_signed c args = do {
     (x, args) \<leftarrow> signed_arg (length_mod c) args;
     if x = -(2 ^ 63) then None
     else do {
       let negative = x < 0;
       let magnitude = (of_int (if negative then -x else x) :: u64);
       let digits = (if precision c = 0 \<and> magnitude = 0 then [] else format_unsigned magnitude 10 False);
       let prefix = (if negative then ''-'' else if force_sign c then ''+'' else if force_space c then '' '' else []);
       out \<leftarrow> put_number c prefix (if digits = [] \<and> precision c = 0 then 0 else zeroes_for c (length prefix) (length digits)) digits;
       Some (out, args)
     }
   }"

definition print_unsigned :: "conversion \<Rightarrow> u32 list \<Rightarrow> (string list \<times> u32 list) option" where
  "print_unsigned c args = do {
     (x, args) \<leftarrow> unsigned_arg (length_mod c) args;
     let digits = (if precision c = 0 \<and> x = 0 then [] else format_unsigned x 10 False);
     out \<leftarrow> put_number c [] (zeroes_for c 0 (length digits)) digits;
     Some (out, args)
   }"

definition print_hex :: "bool \<Rightarrow> conversion \<Rightarrow> u32 list \<Rightarrow> (string list \<times> u32 list) option" where
  "print_hex uppercase c args = do {
     (x, args) \<leftarrow> unsigned_arg (length_mod c) args;
     let digits = (if precision c = 0 \<and> x = 0 then [] else format_unsigned x 16 uppercase);
     let prefix = (if alternate c \<and> x \<noteq> 0 then if uppercase then ''0X'' else ''0x'' else []);
     out \<leftarrow> put_number c prefix (zeroes_for c (length prefix) (length digits)) digits;
     Some (out, args)
   }"

definition print_string :: "mem \<Rightarrow> conversion \<Rightarrow> u32 list \<Rightarrow> (string list \<times> u32 list) option" where
  "print_string m c args = do {
     (str, args) \<leftarrow> arg32 args;
     txt \<leftarrow> (if str = 0 then Some ''(null)'' else do { n \<leftarrow> strlen m str; Some (text_at m str (unat n)) });
     let txt = (if 0 \<le> precision c \<and> precision c < int (length txt) then take (nat (precision c)) txt else txt);
     padding \<leftarrow> padding_for (width c) (length txt);
     Some ((if \<not> left_adjust c then console_write_repeat (CHR '' '') padding else []) @ console_write txt @
       (if left_adjust c then console_write_repeat (CHR '' '') padding else []), args)
   }"

definition print_char :: "conversion \<Rightarrow> u32 list \<Rightarrow> (string list \<times> u32 list) option" where
  "print_char c args = do {
     (x, args) \<leftarrow> arg32 args;
     let padding = (if 1 < width c then width c - 1 else 0);
     Some ((if \<not> left_adjust c then console_write_repeat (CHR '' '') padding else []) @ console_write [char_of (unat x)] @
       (if left_adjust c then console_write_repeat (CHR '' '') padding else []), args)
   }"

definition print_pointer :: "conversion \<Rightarrow> u32 list \<Rightarrow> (string list \<times> u32 list) option" where
  "print_pointer c args = do {
     (x, args) \<leftarrow> arg32 args;
     let digits = format_unsigned (ucast x) 16 False;
     out \<leftarrow> put_number c ''0x'' (if 0 < precision c \<and> int (length digits) < precision c then nat (precision c) - length digits else 0) digits;
     Some (out, args)
   }"

definition convert :: "mem \<Rightarrow> conversion \<Rightarrow> char \<Rightarrow> u32 list \<Rightarrow> (string list \<times> u32 list) option" where
  "convert m c specifier args =
     (if specifier = CHR ''d'' \<or> specifier = CHR ''i'' then print_signed c args
      else if specifier = CHR ''u'' then print_unsigned c args
      else if specifier = CHR ''x'' \<or> specifier = CHR ''X'' then print_hex (specifier = CHR ''X'') c args
      else if specifier = CHR ''s'' then print_string m c args
      else if specifier = CHR ''c'' then print_char c args
      else if specifier = CHR ''p'' then print_pointer c args
      else if specifier = CHR ''%'' then Some (console_write ''%'', args)
      else Some (console_write ''%'' @ console_write [specifier], args))"


subsection \<open>The loop over the format\<close>

lemma parse_number_length: "parse_number n cs = Some (n', cs') \<Longrightarrow> length cs' \<le> length cs"
  by (induction n cs rule: parse_number.induct) (auto simp: Let_def split: if_splits)

lemma parse_flags_length: "parse_flags f cs = (f', cs') \<Longrightarrow> length cs' \<le> length cs"
  by (induction f cs rule: parse_flags.induct) (auto split: if_splits)

lemma parse_length_length: "parse_length cs = (l, cs') \<Longrightarrow> length cs' \<le> length cs"
  by (cases cs rule: parse_length.cases) (auto split: if_splits)

lemma parse_conversion_length: "parse_conversion cs = Some (c, cs') \<Longrightarrow> length cs' \<le> length cs"
  unfolding parse_conversion_def parse_precision_def
  by (fastforce simp: Let_def split: prod.splits option.splits list.splits if_splits bind_splits
    dest!: parse_number_length parse_flags_length parse_length_length)

text \<open>The literal text is collected in a buffer of 128 characters, which is written when it is full, before a conversion and at the end.\<close>

function vprintf_loop :: "mem \<Rightarrow> string \<Rightarrow> u32 list \<Rightarrow> string \<Rightarrow> string list option" where
  "vprintf_loop m [] args literal = Some (console_write literal)"
| "vprintf_loop m (ch # format) args literal =
     (if ch = CHR ''%''
      then (case parse_conversion format of
          None \<Rightarrow> None
        | Some (c, format') \<Rightarrow>
            (case format' of
              [] \<Rightarrow> Some (console_write literal)
            | specifier # rest \<Rightarrow> do {
                (out, args) \<leftarrow> convert m c specifier args;
                out' \<leftarrow> vprintf_loop m rest args [];
                Some (console_write literal @ out @ out')
              }))
      else if 128 \<le> length literal
      then do { out \<leftarrow> vprintf_loop m format args [ch]; Some (console_write literal @ out) }
      else vprintf_loop m format args (literal @ [ch]))"
  by pat_completeness auto
termination
  by (relation "measure (\<lambda>(_, format, _, _). length format)") (auto dest!: parse_conversion_length)

definition printf :: "mem \<Rightarrow> string \<Rightarrow> u32 list \<Rightarrow> (int \<times> string list) option" where
  "printf m format args = do { out \<leftarrow> vprintf_loop m format args []; Some (0, out) }"


subsection \<open>Digits\<close>

definition digit_value :: "char \<Rightarrow> nat" where
  "digit_value c = (let n = of_char c in if n < 58 then n - 48 else if n < 91 then n - 55 else n - 87)"

definition number_of :: "nat \<Rightarrow> string \<Rightarrow> nat" where
  "number_of b ds = foldl (\<lambda>n c. n * b + digit_value c) 0 ds"

lemma upto_16: "{..<16 :: nat} = {0, 1, 2, 3, 4, 5, 6, 7, 8, 9, 10, 11, 12, 13, 14, 15}"
  by (rule set_eqI) (simp, presburger)

lemma digit_value_digits: "k < 16 \<Longrightarrow> digit_value (digits_of up ! k) = k"
proof -
  have "\<forall>k\<in>{..<16}. digit_value (digits_of up ! k) = k" unfolding upto_16 by (cases up) (simp_all add: digits_of_def digit_value_def)
  then show "k < 16 \<Longrightarrow> digit_value (digits_of up ! k) = k" by simp
qed

lemma decimal_digits: "k < 10 \<Longrightarrow> is_digit (digits_of up ! k)"
proof -
  have "\<forall>k\<in>{..<16}. k < 10 \<longrightarrow> is_digit (digits_of up ! k)" unfolding upto_16 by (cases up) (simp_all add: digits_of_def is_digit_def)
  then show "k < 10 \<Longrightarrow> is_digit (digits_of up ! k)" by simp
qed

declare digit_loop.simps [simp del]

lemma number_of_snoc: "number_of b (ds @ [c]) = number_of b ds * b + digit_value c"
  by (simp add: number_of_def)

lemma number_of_loop: "1 < b \<Longrightarrow> b \<le> 16 \<Longrightarrow> number_of b (rev (digit_loop (digits_of up) b v)) = v"
proof (induction "digits_of up" b v rule: digit_loop.induct)
  case (1 b v)
  have d: "digit_value (digits_of up ! (v mod b)) = v mod b" using 1(2,3) mod_less_divisor [of b v] by (intro digit_value_digits) linarith
  show ?case
  proof (cases "v div b = 0")
    case True
    then show ?thesis using d 1(2) by (subst digit_loop.simps) (simp add: number_of_def div_eq_0_iff)
  next
    case False
    then show ?thesis using d 1 by (subst digit_loop.simps) (simp add: number_of_snoc)
  qed
qed

lemma length_loop: "v < b ^ k \<Longrightarrow> 1 < b \<Longrightarrow> 0 < k \<Longrightarrow> 0 < length (digit_loop ds b v) \<and> length (digit_loop ds b v) \<le> k"
proof (induction k arbitrary: v)
  case (Suc k)
  show ?case
  proof (cases "v div b = 0")
    case False
    then have "v div b < b ^ k" "0 < k" using Suc.prems by (auto simp: less_mult_imp_div_less mult.commute intro: gr0I)
    then show ?thesis using Suc.IH [of "v div b"] Suc.prems(2) False by (subst (1 2) digit_loop.simps) (simp add: Let_def)
  qed (subst (1 2) digit_loop.simps, simp)
qed simp

lemma set_loop: "0 < b \<Longrightarrow> set (digit_loop ds b v) \<subseteq> (!) ds ` {..<b}"
proof (induction ds b v rule: digit_loop.induct)
  case (1 ds b v)
  then show ?case by (subst digit_loop.simps) (auto simp: Let_def)
qed

lemma last_loop_digit: "v \<noteq> 0 \<Longrightarrow> 1 < b \<Longrightarrow> \<exists>k<b. 0 < k \<and> last (digit_loop ds b v) = ds ! k"
proof (induction ds b v rule: digit_loop.induct)
  case (1 ds b v)
  show ?case
  proof (cases "v div b = 0")
    case True
    then show ?thesis using 1(2,3) by (subst digit_loop.simps) (auto simp: div_eq_0_iff)
  next
    case False
    then have "digit_loop ds b (v div b) \<noteq> []" by (subst digit_loop.simps) (simp add: Let_def)
    then show ?thesis using 1 False by (subst digit_loop.simps) (simp add: Let_def)
  qed
qed

lemma format_unsigned_number: "b \<in> {10, 16} \<Longrightarrow> number_of b (format_unsigned v b up) = unat v"
  using number_of_loop [of b up "unat v"] by (auto simp: format_unsigned_def)

lemma format_unsigned_length: "b \<in> {10, 16} \<Longrightarrow> 0 < length (format_unsigned v b up) \<and> length (format_unsigned v b up) \<le> 20"
proof -
  assume b: "b \<in> {10, 16}"
  have "unat v < 2 ^ 64" using unsigned_less [of v] by simp
  also have "(2 :: nat) ^ 64 \<le> b ^ 20" using b by auto
  finally show ?thesis using length_loop [of "unat v" b 20] b by (auto simp: format_unsigned_def)
qed

lemma format_unsigned_decimal: "\<forall>c\<in>set (format_unsigned v 10 up). is_digit c"
  using set_loop [of 10 "digits_of up" "unat v"] decimal_digits by (auto simp: format_unsigned_def)

text \<open>The digits of a number read back as the number, fit into the buffers of 65 characters, are never empty, and have no leading zero
  unless the number is zero.\<close>

theorem format_unsigned_correct:
  assumes "b \<in> {10, 16}"
  shows "number_of b (format_unsigned v b up) = unat v \<and> 0 < length (format_unsigned v b up) \<and> length (format_unsigned v b up) \<le> 65 \<and>
    set (format_unsigned v b up) \<subseteq> set (take b (digits_of up)) \<and> (hd (format_unsigned v b up) = CHR ''0'' \<longrightarrow> v = 0)"
proof -
  have b: "1 < b" "b \<le> 16" "length (digits_of up) = 16" using assms by (auto simp: digits_of_def)
  have "set (format_unsigned v b up) \<subseteq> set (take b (digits_of up))"
    using set_loop [of b "digits_of up" "unat v"] b by (force simp: format_unsigned_def in_set_conv_nth)
  moreover have "v = 0" if "hd (format_unsigned v b up) = CHR ''0''"
  proof (rule ccontr)
    assume "v \<noteq> 0"
    then obtain k where k: "k < b" "0 < k" "last (digit_loop (digits_of up) b (unat v)) = digits_of up ! k"
      using last_loop_digit [of "unat v" b "digits_of up"] b(1) by (auto simp: unat_eq_0)
    have ne: "digit_loop (digits_of up) b (unat v) \<noteq> []" by (subst digit_loop.simps) (simp add: Let_def)
    have "digit_value (CHR ''0'') = k" using that k ne digit_value_digits [of k up] b(2) by (simp add: format_unsigned_def hd_rev)
    then show False using k(2) by (simp add: digit_value_def)
  qed
  ultimately show ?thesis using format_unsigned_number [OF assms, of v up] format_unsigned_length [OF assms, of v up] by auto
qed

theorem format_unsigned_correct_witness:
  "number_of 16 (format_unsigned 0xBEEF 16 True) = 0xBEEF \<and> length (format_unsigned 0xBEEF 16 True) \<le> 65"
  using format_unsigned_correct [of 16 "0xBEEF" True] by simp


subsection \<open>Padded numbers\<close>

lemma concat_console_write [simp]: "concat (console_write t) = t"
  by (simp add: console_write_def)

declare repeat_loop.simps [simp del]

lemma concat_repeat_loop: "concat (repeat_loop ch n) = replicate n ch"
proof (induction ch n rule: repeat_loop.induct)
  case (1 ch n)
  then show ?case by (subst repeat_loop.simps) (auto simp: Let_def simp flip: replicate_add)
qed

lemma concat_repeat [simp]: "concat (console_write_repeat ch n) = replicate (nat n) ch"
  by (simp add: console_write_repeat_def concat_repeat_loop)

definition padded :: "bool \<Rightarrow> int \<Rightarrow> string \<Rightarrow> string" where
  "padded left w t = (let spaces = replicate (nat w - length t) (CHR '' '') in if left then t @ spaces else spaces @ t)"

lemma length_padded: "length (padded left w t) = max (nat w) (length t)"
  by (auto simp: padded_def Let_def max_def)

lemma padding_for_ok:
  assumes "0 \<le> w" "w \<le> INT_MAX" "n < 2 ^ 31"
  shows "padding_for w n = Some (int (nat w - n))"
proof -
  have "sint (of_nat n :: u32) = int n" using assms(3) by (simp add: signed_of_nat signed_take_bit_int_eq_self)
  then show ?thesis using assms by (auto simp: padding_for_def INT_MAX_def Let_def)
qed

lemma put_number_ok:
  assumes "0 \<le> width c" "width c \<le> INT_MAX" "length prefix + zeroes + length digits < 2 ^ 31"
  obtains out where "put_number c prefix zeroes digits = Some out"
    "concat out = padded (left_adjust c) (width c) (prefix @ replicate zeroes (CHR ''0'') @ digits)"
  using padding_for_ok [OF assms] by (auto simp: put_number_def padded_def Let_def add.assoc)

text \<open>How many zeroes there are: up to the precision, or up to the width with the flag \<^verbatim>\<open>0\<close>.\<close>

lemma zeroes_for_bound:
  assumes "width c \<le> INT_MAX" "precision c \<le> INT_MAX - 2" "p \<le> 2" "d \<le> 20"
  shows "p + zeroes_for c p d + d < 2 ^ 31"
  using assms by (auto simp: zeroes_for_def INT_MAX_def)

lemma zeroes_for_precision: "0 < precision c \<Longrightarrow> precision c \<le> int (zeroes_for c p d + d)"
  by (auto simp: zeroes_for_def)

text \<open>Reading a number as \<^verbatim>\<open>strtol\<close> does: spaces, a sign, digits.\<close>

definition read_sign :: "string \<Rightarrow> bool \<times> string" where
  "read_sign t = (case t of c # cs \<Rightarrow> if c = CHR ''-'' then (True, cs) else if c = CHR ''+'' then (False, cs) else (False, t) | [] \<Rightarrow> (False, t))"

definition read_int :: "string \<Rightarrow> int option" where
  "read_int t =
     (let (negative, t) = read_sign (dropWhile (\<lambda>c. c = CHR '' '') t); ds = takeWhile is_digit t
      in if ds = [] then None else Some (if negative then - int (number_of 10 ds) else int (number_of 10 ds)))"

lemma not_digits: "\<not> is_digit (CHR '' '')" "\<not> is_digit (CHR ''-'')" "\<not> is_digit (CHR ''+'')" "is_digit (CHR ''0'')"
  by (simp_all add: is_digit_def)

lemma number_of_zeroes: "number_of b (replicate z (CHR ''0'') @ ds) = number_of b ds"
proof -
  have "foldl (\<lambda>n c. n * b + digit_value c) 0 (replicate z (CHR ''0'')) = 0" by (induction z) (simp_all add: digit_value_def)
  then show ?thesis by (simp add: number_of_def)
qed

lemma read_int_text:
  assumes "ds \<noteq> []" "\<forall>c\<in>set ds. is_digit c" "prefix \<in> {''-'', ''+'', '' '', []}" "\<forall>c\<in>set sp. c = CHR '' ''"
  shows "read_int (prefix @ ds @ sp) = Some (if prefix = ''-'' then - int (number_of 10 ds) else int (number_of 10 ds))"
proof -
  have sp: "takeWhile is_digit sp = []" using assms(4) not_digits(1) by (cases sp) auto
  have tw: "takeWhile is_digit (ds @ sp) = ds" using assms(2) sp by (simp add: takeWhile_append2)
  have hd: "hd ds \<noteq> CHR '' ''" "hd ds \<noteq> CHR ''-''" "hd ds \<noteq> CHR ''+''" using assms(1,2) not_digits by (metis hd_in_set)+
  obtain d ds' where d: "ds = d # ds'" using assms(1) by (cases ds) auto
  have "read_sign (dropWhile (\<lambda>c. c = CHR '' '') (prefix @ ds @ sp)) = (prefix = ''-'', ds @ sp)"
    using assms(3) hd d by (auto simp: read_sign_def)
  then show ?thesis using tw assms(1) by (simp add: read_int_def)
qed

lemma read_int_spaces: "read_int (replicate n (CHR '' '') @ t) = read_int t"
proof -
  have "dropWhile (\<lambda>c. c = CHR '' '') (replicate n (CHR '' '') @ t) = dropWhile (\<lambda>c. c = CHR '' '') t" by (induction n) auto
  then show ?thesis by (simp add: read_int_def)
qed

lemma read_int_padded:
  assumes "ds \<noteq> []" "\<forall>c\<in>set ds. is_digit c" "prefix \<in> {''-'', ''+'', '' '', []}"
  shows "read_int (padded left w (prefix @ ds)) = Some (if prefix = ''-'' then - int (number_of 10 ds) else int (number_of 10 ds))"
  using read_int_text [OF assms, of "[]"] read_int_text [OF assms] read_int_spaces by (auto simp: padded_def Let_def)

lemma signed_arg_range: "signed_arg l args = Some (x, rest) \<Longrightarrow> - (2 ^ 63) \<le> x \<and> x < 2 ^ 63"
proof -
  have i: "- (2 ^ 31) \<le> sint (a :: u32)" "sint a < 2 ^ 31" for a using sint_ge [of a] sint_lt [of a] by simp_all
  have a: "- (2 ^ 63) \<le> sint (a :: u32) \<and> sint a < 2 ^ 63" for a using i [of a] by simp
  have b: "- (2 ^ 63) \<le> sint (a :: u64) \<and> sint a < 2 ^ 63" for a using sint_ge [of a] sint_lt [of a] by simp
  show "signed_arg l args = Some (x, rest) \<Longrightarrow> - (2 ^ 63) \<le> x \<and> x < 2 ^ 63"
    using a b by (auto simp: signed_arg_def split: if_splits bind_splits)
qed

text \<open>C38. \<^verbatim>\<open>%d\<close>, with any flags and width and a precision of at most \<open>INT_MAX - 2\<close>, prints, padded to the width, the sign and then at least as many digits as
  the precision asks for. For zero with precision zero there are no digits at all; in all other cases the text reads back as the number. The least
  \<open>long long\<close> is the exception: its magnitude cannot be computed (\<open>None\<close>: the negation overflows, which is undefined).\<close>

theorem printf_signed_reads_back:
  assumes "0 \<le> width c" "width c \<le> INT_MAX" "precision c \<le> INT_MAX - 2" "signed_arg (length_mod c) args = Some (x, rest)"
  shows "if x = - (2 ^ 63) then print_signed c args = None
    else \<exists>out digits. print_signed c args = Some (out, rest) \<and> width c \<le> int (length (concat out)) \<and>
      concat out = padded (left_adjust c) (width c)
        ((if x < 0 then ''-'' else if force_sign c then ''+'' else if force_space c then '' '' else []) @ digits) \<and>
      precision c \<le> int (length digits) \<and>
      (if precision c = 0 \<and> x = 0 then digits = [] else read_int (concat out) = Some x)"
proof (cases "x = - (2 ^ 63)")
  case True
  then show ?thesis using assms(4) by (simp add: print_signed_def)
next
  case neq: False
  define mag where "mag = (of_int (if x < 0 then - x else x) :: u64)"
  define ds where "ds = (if precision c = 0 \<and> mag = 0 then [] else format_unsigned mag 10 False)"
  define prefix where "prefix = (if x < 0 then ''-'' else if force_sign c then ''+'' else if force_space c then '' '' else [])"
  define z where "z = (if ds = [] \<and> precision c = 0 then 0 else zeroes_for c (length prefix) (length ds))"
  have um: "unat mag = nat \<bar>x\<bar>" using signed_arg_range [OF assms(4)] neq
    by (auto simp: mag_def unsigned_of_int take_bit_int_eq_self nat_take_bit_eq)
  have len: "length prefix \<le> 2" "length ds \<le> 20" using format_unsigned_length [of 10 mag False] by (auto simp: prefix_def ds_def)
  have "length prefix + z + length ds < 2 ^ 31" using zeroes_for_bound [OF assms(2,3) len] len by (auto simp: z_def)
  then obtain out where out: "put_number c prefix z ds = Some out" "concat out = padded (left_adjust c) (width c) (prefix @ replicate z (CHR ''0'') @ ds)"
    using put_number_ok [OF assms(1,2)] by metis
  have run: "print_signed c args = Some (out, rest)"
    using assms(4) neq out(1) unfolding z_def ds_def
    by (auto simp: print_signed_def Let_def mag_def [symmetric] prefix_def [symmetric] split: if_splits)
  have w: "width c \<le> int (length (concat out))" using assms(1) by (simp add: out(2) length_padded)
  have "read_int (concat out) = Some x" if "\<not> (precision c = 0 \<and> x = 0)"
  proof -
    have ds: "ds = format_unsigned mag 10 False" using that um by (auto simp: ds_def unat_eq_0)
    have n: "number_of 10 (replicate z (CHR ''0'') @ ds) = nat \<bar>x\<bar>" using format_unsigned_number [of 10 mag False] um by (simp add: number_of_zeroes ds)
    have all: "\<forall>c\<in>set (replicate z (CHR ''0'') @ ds). is_digit c" using format_unsigned_decimal [of mag False] not_digits(4) by (auto simp: ds)
    have ne: "replicate z (CHR ''0'') @ ds \<noteq> []" using format_unsigned_length [of 10 mag False] by (auto simp: ds)
    have "prefix \<in> {''-'', ''+'', '' '', []}" "prefix = ''-'' \<longleftrightarrow> x < 0" by (auto simp: prefix_def)
    then show ?thesis using read_int_padded [OF ne all, of prefix "left_adjust c" "width c"] n by (auto simp: out(2))
  qed
  moreover have "replicate z (CHR ''0'') @ ds = []" if "precision c = 0" "x = 0" using that um by (simp add: z_def ds_def unat_eq_0)
  moreover have "precision c \<le> int (length (replicate z (CHR ''0'') @ ds))"
    using zeroes_for_precision [of c "length prefix" "length ds"] by (cases "0 < precision c") (auto simp: z_def)
  ultimately have "print_signed c args = Some (out, rest) \<and> width c \<le> int (length (concat out)) \<and>
      concat out = padded (left_adjust c) (width c) (prefix @ replicate z (CHR ''0'') @ ds) \<and> precision c \<le> int (length (replicate z (CHR ''0'') @ ds)) \<and>
      (if precision c = 0 \<and> x = 0 then replicate z (CHR ''0'') @ ds = [] else read_int (concat out) = Some x)"
    using run w out(2) by auto
  then show ?thesis using neq unfolding prefix_def by (simp only: if_False) blast
qed

theorem printf_signed_reads_back_witness:
  "\<exists>out. print_signed \<lparr>left_adjust = False, force_sign = True, force_space = False, alternate = False, zero_pad = True, width = 8, precision = -1, length_mod = LEN_NONE\<rparr>
     [0xFFFFFFF0] = Some (out, []) \<and> read_int (concat out) = Some (-16)"
proof -
  have "signed_arg LEN_NONE [0xFFFFFFF0] = Some (-16, [])" by (simp add: signed_arg_def)
  then show ?thesis
    using printf_signed_reads_back [of "\<lparr>left_adjust = False, force_sign = True, force_space = False, alternate = False, zero_pad = True, width = 8, precision = -1,
      length_mod = LEN_NONE\<rparr>" "[0xFFFFFFF0]" "-16" "[]"] by (auto simp: INT_MAX_def)
qed

text \<open>\<^verbatim>\<open>%x\<close> and \<^verbatim>\<open>%X\<close> print, padded to the width, the prefix if it is asked for and the number is not zero, and then digits that read back as the number, at
  least as many as the precision; there are none only for zero with precision zero.\<close>

theorem printf_hex_correct:
  assumes "0 \<le> width c" "width c \<le> INT_MAX" "precision c \<le> INT_MAX - 2" "unsigned_arg (length_mod c) args = Some (x, rest)"
  shows "\<exists>out body. print_hex up c args = Some (out, rest) \<and>
    concat out = padded (left_adjust c) (width c) ((if alternate c \<and> x \<noteq> 0 then if up then ''0X'' else ''0x'' else []) @ body) \<and>
    number_of 16 body = unat x \<and> precision c \<le> int (length body) \<and> (body = [] \<longrightarrow> precision c = 0 \<and> x = 0)"
proof -
  define ds where "ds = (if precision c = 0 \<and> x = 0 then [] else format_unsigned x 16 up)"
  define prefix where "prefix = (if alternate c \<and> x \<noteq> 0 then if up then ''0X'' else ''0x'' else [])"
  define z where "z = zeroes_for c (length prefix) (length ds)"
  have len: "length prefix \<le> 2" "length ds \<le> 20" using format_unsigned_length [of 16 x up] by (auto simp: prefix_def ds_def)
  obtain out where out: "put_number c prefix z ds = Some out" "concat out = padded (left_adjust c) (width c) (prefix @ replicate z (CHR ''0'') @ ds)"
    using put_number_ok [OF assms(1,2)] zeroes_for_bound [OF assms(2,3) len] unfolding z_def by metis
  have run: "print_hex up c args = Some (out, rest)"
    using assms(4) out(1) unfolding z_def ds_def by (auto simp: print_hex_def Let_def prefix_def [symmetric] split: if_splits)
  have "number_of 16 (replicate z (CHR ''0'') @ ds) = unat x"
    using format_unsigned_number [of 16 x up] unfolding number_of_zeroes by (auto simp: ds_def number_of_def)
  moreover have "precision c \<le> int (length (replicate z (CHR ''0'') @ ds))"
    using zeroes_for_precision [of c "length prefix" "length ds"] by (cases "0 < precision c") (auto simp: z_def)
  moreover have "replicate z (CHR ''0'') @ ds = [] \<longrightarrow> precision c = 0 \<and> x = 0" using format_unsigned_length [of 16 x up] by (auto simp: ds_def)
  ultimately show ?thesis using run out(2) unfolding prefix_def by blast
qed

theorem printf_hex_correct_witness:
  "\<exists>out body. print_hex True \<lparr>left_adjust = False, force_sign = False, force_space = False, alternate = True, zero_pad = False, width = 12, precision = 8, length_mod = LEN_NONE\<rparr>
     [0xBEEF] = Some (out, []) \<and> concat out = padded False 12 (''0X'' @ body) \<and> number_of 16 body = 0xBEEF"
proof -
  have "unsigned_arg LEN_NONE [0xBEEF] = Some (0xBEEF, [])" by (simp add: unsigned_arg_def)
  then show ?thesis
    using printf_hex_correct [of "\<lparr>left_adjust = False, force_sign = False, force_space = False, alternate = True, zero_pad = False, width = 12, precision = 8,
      length_mod = LEN_NONE\<rparr>" "[0xBEEF]" "0xBEEF" "[]" True] by (auto simp: INT_MAX_def)
qed


subsection \<open>The whole format\<close>

text \<open>The text of a format without the buffer: every character for itself, every conversion for itself.\<close>

function render :: "mem \<Rightarrow> string \<Rightarrow> u32 list \<Rightarrow> string option" where
  "render m [] args = Some []"
| "render m (ch # format) args =
     (if ch = CHR ''%''
      then (case parse_conversion format of
          Some (c, specifier # rest) \<Rightarrow> do {
            (out, args) \<leftarrow> convert m c specifier args;
            t \<leftarrow> render m rest args;
            Some (concat out @ t)
          }
        | Some (c, []) \<Rightarrow> Some []
        | None \<Rightarrow> None)
      else map_option ((#) ch) (render m format args))"
  by pat_completeness auto
termination
  by (relation "measure (\<lambda>(_, format, _). length format)") (auto dest!: parse_conversion_length)

text \<open>The buffer for literal text does not show: what a call of \<^verbatim>\<open>printf\<close> writes is the text of its format, whatever its length, and the call is defined
  exactly if that text is.\<close>

theorem printf_buffer_invisible:
  "map_option (\<lambda>(r, out). (r, concat out)) (printf m format args) = map_option (Pair 0) (render m format args)"
proof -
  have "map_option concat (vprintf_loop m format args literal) = map_option ((@) literal) (render m format args)" for literal
  proof (induction m format args literal rule: vprintf_loop.induct)
    case (2 m ch format args literal)
    show ?case
    proof (cases "ch = CHR ''%''")
      case True
      then show ?thesis using 2(1)
        by (auto split: option.splits list.splits prod.splits bind_splits) (fastforce split: option.splits bind_splits)+
    next
      case False
      then show ?thesis using 2(2,3)
        by (cases "render m format args"; cases "128 \<le> length literal") (auto split: bind_splits option.splits)
    qed
  qed simp
  from this [of "[]"] show ?thesis by (cases "vprintf_loop m format args []"; cases "render m format args") (auto simp: printf_def split: option.splits)
qed

end
