(* ===== verification/Debug.thy ===== *)
theory Debug
  imports Stdio
begin

unbundle bit_operations_syntax

text \<open>
  Messages of the kernel: the serial port with its own formatted output (\<^verbatim>\<open>serial.cpp\<close>), and the messages, the formatting into a buffer and the
  screen of a kernel panic (\<^verbatim>\<open>debug.cpp\<close>). Text goes out as the characters that are sent; the picture of a panic is the list of its
  drawing operations, with colours as the red, green and blue that \<^verbatim>\<open>pack_color\<close> gets. Formats and arguments are those of \<^verbatim>\<open>Stdio\<close>.
\<close>

subsection \<open>The serial port\<close>

text \<open>The bytes written to ports from 0x3F8 on. The wait for the transmitter is taken to end.\<close>

record serial =
  serial_initialized :: bool
  port_writes :: "(u16 \<times> u8) list"

definition COM1_PORT :: u16 where "COM1_PORT = 0x3F8"

definition serial_outb :: "u16 \<Rightarrow> u8 \<Rightarrow> serial \<Rightarrow> serial" where
  "serial_outb port x s = s\<lparr>port_writes := port_writes s @ [(port, x)]\<rparr>"

definition serial_init :: "serial \<Rightarrow> serial" where
  "serial_init s =
     (fold (\<lambda>(port, x). serial_outb port x) [(COM1_PORT + 1, 0x00), (COM1_PORT + 3, 0x80), (COM1_PORT + 0, 0x01), (COM1_PORT + 1, 0x00),
       (COM1_PORT + 3, 0x03), (COM1_PORT + 2, 0xC7), (COM1_PORT + 4, 0x0B)] s)\<lparr>serial_initialized := True\<rparr>"

definition serial_write_char :: "char \<Rightarrow> serial \<Rightarrow> serial" where
  "serial_write_char c s =
     (let s = (if \<not> serial_initialized s then serial_init s else s);
          s = (if c = CHR 0x0A then serial_outb COM1_PORT 0x0D s else s)
      in serial_outb COM1_PORT (of_char c) s)"

definition serial_write :: "string \<Rightarrow> serial \<Rightarrow> serial" where
  "serial_write str s = fold serial_write_char str s"

text \<open>Numbers, the digits as the loops find them; \<^const>\<open>None\<close> for the negation of the least number and a negative index into the digits.\<close>

definition serial_utoa :: "u32 \<Rightarrow> nat \<Rightarrow> string" where
  "serial_utoa v b = rev (digit_loop (digits_of True) b (unat v))"

definition serial_itoa :: "int \<Rightarrow> nat \<Rightarrow> string option" where
  "serial_itoa v b =
     (if b = 10 \<and> v < 0
      then if v = - (2 ^ 31) then None else Some (rev (digit_loop (digits_of True) b (nat (- v)) @ ''-''))
      else if v < 0 then None else Some (rev (digit_loop (digits_of True) b (nat v))))"

definition string_arg :: "mem \<Rightarrow> addr \<Rightarrow> string option" where
  "string_arg m str = (if str = 0 then Some ''(null)'' else do { n \<leftarrow> strlen m str; Some (text_at m str (unat n)) })"

definition serial_convert :: "mem \<Rightarrow> char \<Rightarrow> u32 list \<Rightarrow> (string \<times> u32 list) option" where
  "serial_convert m ch args =
     (if ch = CHR ''d'' then do { (x, args) \<leftarrow> arg32 args; t \<leftarrow> serial_itoa (sint x) 10; Some (t, args) }
      else if ch = CHR ''u'' then do { (x, args) \<leftarrow> arg32 args; Some (serial_utoa x 10, args) }
      else if ch = CHR ''x'' then do { (x, args) \<leftarrow> arg32 args; Some (serial_utoa x 16, args) }
      else if ch = CHR ''s'' then do { (x, args) \<leftarrow> arg32 args; t \<leftarrow> string_arg m x; Some (t, args) }
      else if ch = CHR ''c'' then do { (x, args) \<leftarrow> arg32 args; Some ([char_of (unat x)], args) }
      else if ch = CHR ''p'' then do { (x, args) \<leftarrow> arg32 args; Some (''0x'' @ serial_utoa x 16, args) }
      else if ch = CHR ''%'' then Some (''%'', args)
      else Some ([CHR ''%'', ch], args))"

text \<open>A format that ends with a single \<^verbatim>\<open>%\<close> makes the loop step over the terminating zero: \<^const>\<open>None\<close>.\<close>

fun serial_vprintf :: "mem \<Rightarrow> string \<Rightarrow> u32 list \<Rightarrow> serial \<Rightarrow> serial option" where
  "serial_vprintf m [] args s = Some s"
| "serial_vprintf m [ch] args s = (if ch = CHR ''%'' then None else Some (serial_write_char ch s))"
| "serial_vprintf m (ch # d # format) args s =
     (if ch = CHR ''%''
      then do { (t, args) \<leftarrow> serial_convert m d args; serial_vprintf m format args (serial_write t s) }
      else serial_vprintf m (d # format) args (serial_write_char ch s))"


subsection \<open>Formatting into a buffer\<close>

definition append_char :: "nat \<Rightarrow> char \<Rightarrow> string \<times> nat \<Rightarrow> string \<times> nat" where
  "append_char sz c = (\<lambda>(buffer, pos). (if pos + 1 < sz then buffer[pos := c] else buffer, pos + 1))"

text \<open>The digits of a number, lowest first, at most \<open>room\<close> of them.\<close>

fun room_digits :: "string \<Rightarrow> nat \<Rightarrow> nat \<Rightarrow> nat \<Rightarrow> string" where
  "room_digits alphabet b v room =
     (alphabet ! (v mod b)) # (if v div b \<noteq> 0 \<and> 1 < room then room_digits alphabet b (v div b) (room - 1) else [])"

definition append_unsigned :: "u64 \<Rightarrow> nat \<Rightarrow> bool \<Rightarrow> string" where
  "append_unsigned v b uppercase = rev (room_digits (digits_of uppercase) b (unat v) 32)"

definition buffer_convert :: "mem \<Rightarrow> char \<Rightarrow> u32 list \<Rightarrow> (string \<times> u32 list) option" where
  "buffer_convert m spec args =
     (if spec = CHR ''d'' \<or> spec = CHR ''i'' then do {
        (x, args) \<leftarrow> arg32 args;
        Some (if sint x < 0 then ''-'' @ append_unsigned (of_int (- sint x)) 10 False else append_unsigned (of_int (sint x)) 10 False, args) }
      else if spec = CHR ''u'' then do { (x, args) \<leftarrow> arg32 args; Some (append_unsigned (ucast x) 10 False, args) }
      else if spec = CHR ''x'' \<or> spec = CHR ''X'' then do { (x, args) \<leftarrow> arg32 args; Some (append_unsigned (ucast x) 16 (spec = CHR ''X''), args) }
      else if spec = CHR ''p'' then do { (x, args) \<leftarrow> arg32 args; Some (''0x'' @ append_unsigned (ucast x) 16 False, args) }
      else if spec = CHR ''c'' then do { (x, args) \<leftarrow> arg32 args; Some ([char_of (unat x)], args) }
      else if spec = CHR ''s'' then do { (x, args) \<leftarrow> arg32 args; t \<leftarrow> string_arg m x; Some (t, args) }
      else Some ([CHR ''%'', spec], args))"

text \<open>Again a single \<^verbatim>\<open>%\<close> at the end makes the loop read behind the terminating zero.\<close>

fun buffer_loop :: "mem \<Rightarrow> nat \<Rightarrow> string \<Rightarrow> u32 list \<Rightarrow> string \<times> nat \<Rightarrow> (string \<times> nat) option" where
  "buffer_loop m sz [] args st = Some st"
| "buffer_loop m sz [ch] args st = (if ch = CHR ''%'' then None else Some (append_char sz ch st))"
| "buffer_loop m sz (ch # spec # rest) args st =
     (if ch \<noteq> CHR ''%'' then buffer_loop m sz (spec # rest) args (append_char sz ch st)
      else if spec = CHR ''%'' then buffer_loop m sz rest args (append_char sz (CHR ''%'') st)
      else do { (t, args) \<leftarrow> buffer_convert m spec args; buffer_loop m sz rest args (fold (append_char sz) t st) })"

definition simple_vsnprintf :: "mem \<Rightarrow> string \<Rightarrow> nat \<Rightarrow> string \<Rightarrow> u32 list \<Rightarrow> (int \<times> string) option" where
  "simple_vsnprintf m buffer sz fmt args = do {
     (buffer, pos) \<leftarrow> buffer_loop m sz fmt args (buffer, 0);
     let buffer = (if 0 < sz then if pos < sz then buffer[pos := CHR 0x00] else buffer[sz - 1 := CHR 0x00] else buffer);
     Some (sint (of_nat pos :: u32), buffer)
   }"

fun format_has_placeholders :: "string \<Rightarrow> bool" where
  "format_has_placeholders [] = False"
| "format_has_placeholders [ch] = (ch = CHR ''%'')"
| "format_has_placeholders (ch # d # fmt) =
     (if ch = CHR ''%'' then if d = CHR ''%'' then format_has_placeholders fmt else True else format_has_placeholders (d # fmt))"


subsection \<open>Drawing text\<close>

type_synonym rgb = "u8 \<times> u8 \<times> u8"

datatype draw = Fill u32 u32 u32 u32 rgb | Glyph u32 u32 char rgb

text \<open>The framebuffer by its width and height, or \<^const>\<open>None\<close> when there is none.\<close>

type_synonym fb_info = "(u32 \<times> u32) option"

definition FONT_WIDTH :: u32 where "FONT_WIDTH = 8"
definition FONT_HEIGHT :: u32 where "FONT_HEIGHT = 16"

definition clamp_width :: "u32 \<Rightarrow> u32 \<Rightarrow> u32 \<Rightarrow> u32" where
  "clamp_width x requested fb_width =
     (if fb_width = 0 \<or> x \<ge> fb_width then 0
      else if requested = 0 \<or> x + requested > fb_width then fb_width - x
      else requested)"

fun pen_loop :: "u32 \<Rightarrow> u32 \<Rightarrow> rgb \<Rightarrow> u32 \<Rightarrow> string \<Rightarrow> draw list" where
  "pen_loop y limit_x color pen_x [] = []"
| "pen_loop y limit_x color pen_x (ch # txt) =
     (if ch = CHR 0x0A \<or> pen_x + FONT_WIDTH > limit_x then []
      else Glyph pen_x y ch color # pen_loop y limit_x color (pen_x + FONT_WIDTH) txt)"

definition draw_text_line :: "fb_info \<Rightarrow> u32 \<Rightarrow> u32 \<Rightarrow> u32 \<Rightarrow> rgb \<Rightarrow> string \<Rightarrow> draw list" where
  "draw_text_line fb x y max_width color txt =
     (case fb of None \<Rightarrow> []
      | Some (w, h) \<Rightarrow>
         if w = 0 \<or> h = 0 \<or> x \<ge> w \<or> y \<ge> h then []
         else let wd = clamp_width x max_width w
              in if wd < FONT_WIDTH \<or> y + FONT_HEIGHT > h then [] else pen_loop y (x + wd) color x txt)"

definition WRAP_BUFFER_SIZE :: nat where "WRAP_BUFFER_SIZE = 512"
definition LINE_SPACING :: u32 where "LINE_SPACING = 6"

definition skip_newline :: "string \<Rightarrow> string" where
  "skip_newline cursor = (case cursor of c # rest \<Rightarrow> if c = CHR 0x0A then rest else cursor | [] \<Rightarrow> [])"

lemma length_skip_newline: "length (skip_newline t) \<le> length t"
  by (auto simp: skip_newline_def split: list.splits)

text \<open>The part of the text that fits into a line.\<close>

definition fitting :: "nat \<Rightarrow> string \<Rightarrow> string" where
  "fitting max_chars cursor = take max_chars (takeWhile (\<lambda>c. c \<noteq> CHR 0x0A) cursor)"

function wrap_loop :: "fb_info \<Rightarrow> u32 \<Rightarrow> u32 \<Rightarrow> u32 \<Rightarrow> nat \<Rightarrow> u32 \<Rightarrow> rgb \<Rightarrow> u32 \<Rightarrow> string \<Rightarrow> draw list \<times> u32" where
  "wrap_loop fb x wd h max_chars line_height color y [] = ([], y)"
| "wrap_loop fb x wd h max_chars line_height color y (ch # cs) =
     (if \<not> y < h then ([], y)
      else if ch = CHR 0x0A then wrap_loop fb x wd h max_chars line_height color (y + line_height) cs
      else let line = fitting max_chars (ch # cs)
           in if line = [] then wrap_loop fb x wd h max_chars line_height color y cs
           else if y + FONT_HEIGHT > h then ([], y)
           else let cursor = skip_newline (drop (length line) (ch # cs));
                    (ds, y') = wrap_loop fb x wd h max_chars line_height color (y + line_height) cursor
                in (draw_text_line fb x y wd color line @ ds, y'))"
  by pat_completeness auto
termination
proof (relation "measure (\<lambda>(_, _, _, _, _, _, _, _, txt). length txt)", goal_cases)
  case (4 fb x wd h max_chars line_height color y ch cs line cursor)
  have "0 < length line" using 4 by simp
  then have "length (drop (length line) (ch # cs)) < length (ch # cs)" by simp
  moreover have "length cursor \<le> length (drop (length line) (ch # cs))" using 4 length_skip_newline by blast
  ultimately show ?case by simp
qed auto

definition draw_wrapped_text :: "fb_info \<Rightarrow> u32 \<Rightarrow> u32 \<Rightarrow> u32 \<Rightarrow> rgb \<Rightarrow> string \<Rightarrow> u32 \<Rightarrow> draw list \<times> u32" where
  "draw_wrapped_text fb x y max_width color txt line_spacing =
     (case fb of None \<Rightarrow> ([], y)
      | Some (w, h) \<Rightarrow>
         if w = 0 \<or> h = 0 \<or> x \<ge> w \<or> y \<ge> h then ([], y)
         else let wd = clamp_width x max_width w
              in if wd < FONT_WIDTH then ([], y)
              else let max_chars = unat (wd div FONT_WIDTH)
                   in if max_chars = 0 then ([], y)
                   else wrap_loop fb x wd h (if max_chars < WRAP_BUFFER_SIZE - 1 then max_chars else WRAP_BUFFER_SIZE - 1)
                     (FONT_HEIGHT + line_spacing) color y txt)"


subsection \<open>The screen of a panic\<close>

definition PANEL_PADDING :: u32 where "PANEL_PADDING = 32"
definition PANEL_BORDER :: u32 where "PANEL_BORDER = 2"
definition TITLE_GAP :: u32 where "TITLE_GAP = 12"
definition SECTION_GAP :: u32 where "SECTION_GAP = 14"

definition mix_channel :: "u32 \<Rightarrow> u32 \<Rightarrow> u32 \<Rightarrow> u8" where
  "mix_channel from_top from_bottom mix = ucast ((from_top * (255 - mix) + from_bottom * mix) div 255)"

definition gradient_row :: "u32 \<Rightarrow> u32 \<Rightarrow> u32 \<Rightarrow> draw" where
  "gradient_row w h row =
     (let mix = (if h > 1 then (row * 255) div (h - 1) else 0)
      in Fill 0 row w 1 (mix_channel 110 46 mix, mix_channel 28 6 mix, mix_channel 36 12 mix))"

definition panel_margin :: "u32 \<Rightarrow> u32" where
  "panel_margin m = (if m < PANEL_PADDING then PANEL_PADDING else m)"

text \<open>Place and extent of the panel in one direction.\<close>

definition panel_axis :: "u32 \<Rightarrow> u32 \<Rightarrow> u32 \<times> u32" where
  "panel_axis extent margin =
     (let (start, sz) = (if extent > 2 * margin then (margin, extent - 2 * margin) else (0, extent))
      in if sz < 2 * PANEL_PADDING then (0, extent) else (start, sz))"

definition panel_border :: "u32 \<Rightarrow> u32 \<Rightarrow> u32 \<Rightarrow> u32 \<Rightarrow> draw list" where
  "panel_border px py pw ph =
     (if pw > 2 * PANEL_BORDER \<and> ph > 2 * PANEL_BORDER
      then [Fill px py pw PANEL_BORDER (210, 70, 80), Fill px (py + ph - PANEL_BORDER) pw PANEL_BORDER (210, 70, 80),
            Fill px py PANEL_BORDER ph (210, 70, 80), Fill (px + pw - PANEL_BORDER) py PANEL_BORDER ph (210, 70, 80)]
      else [])"

text \<open>The sections of the text one below the other: a formatted text in the buffer of 512 characters, drawn, and the gap behind it.\<close>

fun draw_sections :: "fb_info \<Rightarrow> u32 \<Rightarrow> u32 \<Rightarrow> u32 \<Rightarrow> (rgb \<times> string \<times> u32) list \<Rightarrow> draw list" where
  "draw_sections fb x y wd [] = []"
| "draw_sections fb x y wd ((color, txt, gap) # sections) =
     (let (ds, y) = draw_wrapped_text fb x y wd color txt LINE_SPACING in ds @ draw_sections fb x (y + gap) wd sections)"

definition int_text :: "u32 \<Rightarrow> string" where
  "int_text x = (if sint x < 0 then ''-'' @ append_unsigned (of_int (- sint x)) 10 False else append_unsigned (of_int (sint x)) 10 False)"

text \<open>The text of a section as \<^verbatim>\<open>simple_snprintf\<close> leaves it in the buffer: at most 511 characters.\<close>

definition section_text :: "string \<Rightarrow> string" where
  "section_text t = take (WRAP_BUFFER_SIZE - 1) t"

definition text_width :: "u32 \<Rightarrow> u32 \<Rightarrow> u32 \<Rightarrow> u32" where
  "text_width w x pw =
     (let content_width = (if pw > 2 * PANEL_PADDING then pw - 2 * PANEL_PADDING else pw)
      in if content_width > w - x then w - x else content_width)"

definition panic_sections :: "string option \<Rightarrow> string option \<Rightarrow> string option \<Rightarrow> u32 \<Rightarrow> string option \<Rightarrow> (rgb \<times> string \<times> u32) list" where
  "panic_sections message details file_name line function_name =
     (let body = (236, 238, 246) in
      [(body, ''A critical error occurred and the kernel must stop.'', SECTION_GAP)] @
      (case message of Some t \<Rightarrow> [(body, section_text (''Message: '' @ t), SECTION_GAP)] | None \<Rightarrow> []) @
      (case details of Some t \<Rightarrow> if t \<noteq> [] then [(body, section_text (''Details: '' @ t), SECTION_GAP)] else [] | None \<Rightarrow> []) @
      [(body, section_text (case file_name of Some f \<Rightarrow> ''Location: '' @ f @ '':'' @ int_text line | None \<Rightarrow> ''Location: line '' @ int_text line), SECTION_GAP)] @
      (case function_name of Some f \<Rightarrow> [(body, section_text (''Function: '' @ f), SECTION_GAP)] | None \<Rightarrow> []) @
      [((210, 180, 186), ''System halted. Check the serial console for additional information.'', 0)])"

definition render_gui_panic_screen :: "fb_info \<Rightarrow> string option \<Rightarrow> string option \<Rightarrow> u32 \<Rightarrow> string option \<Rightarrow> string option \<Rightarrow> draw list" where
  "render_gui_panic_screen fb message file_name line function_name details =
     (case fb of None \<Rightarrow> []
      | Some (w, h) \<Rightarrow>
         if w = 0 \<or> h = 0 then []
         else let background = map (\<lambda>row. gradient_row w h (of_nat row)) [0..<unat h];
                  (px, pw) = panel_axis w (panel_margin (w div 8));
                  (py, ph) = panel_axis h (panel_margin (h div 6));
                  panel = Fill px py pw ph (18, 20, 30) # panel_border px py pw ph;
                  x = px + PANEL_PADDING;
                  y = py + PANEL_PADDING
              in background @ panel @
                (if x \<ge> w then []
                 else let wd = text_width w x pw
                      in draw_text_line fb x y wd (255, 128, 140) '':('' @
                         draw_text_line fb x (y + FONT_HEIGHT + TITLE_GAP) wd (255, 204, 210) ''Kernel Panic'' @
                         draw_sections fb x (y + FONT_HEIGHT + TITLE_GAP + FONT_HEIGHT + SECTION_GAP) wd
                           (panic_sections message details file_name line function_name)))"


subsection \<open>Messages\<close>

abbreviation nl :: string where "nl \<equiv> [CHR 0x0A]"

text \<open>A message with a tag to the console and to the serial port. \<^verbatim>\<open>debug\<close>, \<^verbatim>\<open>success\<close> and \<^verbatim>\<open>test\<close> are compiled in by their macros.\<close>

definition log_line :: "mem \<Rightarrow> string \<Rightarrow> string \<Rightarrow> u32 list \<Rightarrow> serial \<Rightarrow> (string list \<times> serial) option" where
  "log_line m tag fmt args s = do {
     (r, out) \<leftarrow> printf m fmt args;
     s \<leftarrow> serial_vprintf m fmt args (serial_write tag s);
     Some (console_write tag @ out @ console_write nl, serial_write nl s)
   }"

definition debug_msg :: "bool \<Rightarrow> mem \<Rightarrow> string \<Rightarrow> u32 list \<Rightarrow> serial \<Rightarrow> (string list \<times> serial) option" where
  "debug_msg DEBUG m fmt args s = (if DEBUG then log_line m ''[DEBUG] '' fmt args s else Some ([], s))"

definition success_msg :: "bool \<Rightarrow> mem \<Rightarrow> string \<Rightarrow> u32 list \<Rightarrow> serial \<Rightarrow> (string list \<times> serial) option" where
  "success_msg DEBUG m fmt args s = (if DEBUG then log_line m ''[SUCCESS] '' fmt args s else Some ([], s))"

definition error_msg :: "mem \<Rightarrow> string \<Rightarrow> u32 list \<Rightarrow> serial \<Rightarrow> (string list \<times> serial) option" where
  "error_msg m fmt args s = log_line m ''[ERROR] '' fmt args s"

definition test_msg :: "bool \<Rightarrow> mem \<Rightarrow> string \<Rightarrow> u32 list \<Rightarrow> serial \<Rightarrow> (string list \<times> serial) option" where
  "test_msg TEST m fmt args s = (if TEST then log_line m ''[TEST] '' fmt args s else Some ([], s))"

text \<open>The report of a panic, as it goes to the console and to the serial port; the number of the line is printed by their own functions.\<close>

definition panic_report :: "string \<Rightarrow> string \<Rightarrow> string \<Rightarrow> string \<Rightarrow> string option \<Rightarrow> string" where
  "panic_report message file_name line function_name details =
     nl @ nl @ ''        :('' @ nl @ nl @ ''================ KERNEL PANIC ================'' @ nl @
     ''A critical error occurred and the kernel must stop.'' @ nl @ nl @ ''Message: '' @ message @ nl @ ''Location: '' @ file_name @ '':'' @ line @ nl @
     ''Function: '' @ function_name @ nl @ (case details of Some t \<Rightarrow> ''Details: '' @ t @ nl | None \<Rightarrow> []) @
     nl @ ''=============================================='' @ nl"

text \<open>A panic up to the endless loop it stays in: the text on the console, which was cleared before, what went to the serial port, and the picture.\<close>

definition panic :: "mem \<Rightarrow> fb_info \<Rightarrow> string option \<Rightarrow> string option \<Rightarrow> u32 \<Rightarrow> string option \<Rightarrow> u32 list \<Rightarrow> serial \<Rightarrow> (string \<times> serial \<times> draw list) option" where
  "panic m fb msg file_name line func args s = do {
     let display_message = (case msg of Some t \<Rightarrow> t | None \<Rightarrow> ''<no message>'');
     let display_file = (case file_name of Some t \<Rightarrow> t | None \<Rightarrow> ''<unknown>'');
     let display_func = (case func of Some t \<Rightarrow> t | None \<Rightarrow> ''<unknown>'');
     details \<leftarrow> (if format_has_placeholders display_message
       then do { (r, buffer) \<leftarrow> simple_vsnprintf m (replicate WRAP_BUFFER_SIZE (CHR 0x00)) WRAP_BUFFER_SIZE display_message args;
                 Some (Some (takeWhile (\<lambda>c. c \<noteq> CHR 0x00) buffer)) }
       else Some None);
     console_line \<leftarrow> render m ''%d'' [line];
     serial_line \<leftarrow> serial_itoa (sint line) 10;
     Some (panic_report display_message display_file console_line display_func details,
       serial_write (panic_report display_message display_file serial_line display_func details) s,
       render_gui_panic_screen fb (Some display_message) (Some display_file) line (Some display_func) details)
   }"


subsection \<open>What the buffer holds\<close>

text \<open>The text of a format without a buffer around it.\<close>

fun buffer_text :: "mem \<Rightarrow> string \<Rightarrow> u32 list \<Rightarrow> string option" where
  "buffer_text m [] args = Some []"
| "buffer_text m [ch] args = (if ch = CHR ''%'' then None else Some [ch])"
| "buffer_text m (ch # spec # rest) args =
     (if ch \<noteq> CHR ''%'' then map_option ((#) ch) (buffer_text m (spec # rest) args)
      else if spec = CHR ''%'' then map_option ((#) (CHR ''%'')) (buffer_text m rest args)
      else do { (t, args) \<leftarrow> buffer_convert m spec args; t' \<leftarrow> buffer_text m rest args; Some (t @ t') })"

lemma buffer_loop_text: "buffer_loop m sz fmt args st = map_option (\<lambda>t. fold (append_char sz) t st) (buffer_text m fmt args)"
proof (induction m sz fmt args st rule: buffer_loop.induct)
  case (3 m sz ch spec rest args st)
  then show ?case by (auto simp: option.map_comp comp_def split: bind_splits option.splits)
qed auto

definition held :: "string \<Rightarrow> nat \<Rightarrow> string \<Rightarrow> string" where
  "held buffer sz t = take (sz - 1) t @ drop (length (take (sz - 1) t)) buffer"

lemma append_char_held:
  assumes "0 < sz" "sz \<le> length buffer"
  shows "append_char sz c (held buffer sz t, length t) = (held buffer sz (t @ [c]), length (t @ [c]))"
proof (cases "length t + 1 < sz")
  case True
  have d: "drop (length t) buffer = buffer ! length t # drop (Suc (length t)) buffer" using True assms by (simp add: Cons_nth_drop_Suc)
  have "(t @ drop (length t) buffer)[length t := c] = t @ c # drop (Suc (length t)) buffer" unfolding d by simp
  then show ?thesis using True by (simp add: append_char_def held_def min_def)
next
  case False
  then show ?thesis by (simp add: append_char_def held_def)
qed

lemma fold_append_held:
  assumes "0 < sz" "sz \<le> length buffer"
  shows "fold (append_char sz) u (held buffer sz t, length t) = (held buffer sz (t @ u), length (t @ u))"
proof (induction u arbitrary: t)
  case (Cons c u)
  then show ?case using append_char_held [OF assms, of c t] Cons.IH [of "t @ [c]"] by simp
qed simp

lemma vsnprintf_held:
  assumes "0 < sz" "sz \<le> length buffer"
  shows "simple_vsnprintf m buffer sz fmt args =
    map_option (\<lambda>t. (sint (of_nat (length t) :: u32), take (sz - 1) t @ CHR 0x00 # drop (Suc (min (length t) (sz - 1))) buffer)) (buffer_text m fmt args)"
proof -
  have z: "held buffer sz [] = buffer" by (simp add: held_def)
  have f: "fold (append_char sz) t (buffer, 0) = (held buffer sz t, length t)" for t
    using fold_append_held [OF assms, of t "[]"] by (simp add: z)
  have e: "(if length t < sz then (held buffer sz t)[length t := c] else (held buffer sz t)[sz - 1 := c]) =
      take (sz - 1) t @ c # drop (Suc (min (length t) (sz - 1))) buffer" for t c
  proof -
    let ?n = "min (length t) (sz - 1)"
    have n: "length (take (sz - 1) t) = ?n" "?n < length buffer" using assms by auto
    have d: "drop ?n buffer = buffer ! ?n # drop (Suc ?n) buffer" using n(2) by (simp add: Cons_nth_drop_Suc)
    have "(if length t < sz then length t else sz - 1) = ?n" by auto
    moreover have "(held buffer sz t)[?n := c] = take (sz - 1) t @ c # drop (Suc ?n) buffer" unfolding held_def n(1) d using n(1) by (simp add: list_update_append)
    ultimately show ?thesis by (auto split: if_splits)
  qed
  show ?thesis
  proof (cases "buffer_text m fmt args")
    case (Some t)
    then have "simple_vsnprintf m buffer sz fmt args =
        Some (sint (of_nat (length t) :: u32), if length t < sz then (held buffer sz t)[length t := CHR 0x00] else (held buffer sz t)[sz - 1 := CHR 0x00])"
      using assms(1) by (simp add: simple_vsnprintf_def buffer_loop_text f)
    then show ?thesis unfolding e using Some by simp
  qed (simp add: simple_vsnprintf_def buffer_loop_text)
qed

text \<open>C39. Formatting into a buffer is defined exactly if the text of the format is, leaves at the start of the buffer the first characters of that text, at most one fewer
  than the size, and a terminating zero behind them, changes nothing behind that, and returns the length of the whole text.\<close>

theorem vsnprintf_truncates:
  assumes "0 < sz" "sz \<le> length buffer"
  shows "simple_vsnprintf m buffer sz fmt args =
    map_option (\<lambda>t. (sint (of_nat (length t) :: u32), take (sz - 1) t @ CHR 0x00 # drop (Suc (min (length t) (sz - 1))) buffer)) (buffer_text m fmt args)"
  by (rule vsnprintf_held [OF assms])

theorem vsnprintf_truncates_witness:
  "simple_vsnprintf (\<lambda>_. 0) ''0123456789'' 6 ''a%u!'' [1234567] = Some (9, ''a1234'' @ [CHR 0x00] @ ''6789'')"
proof -
  have "buffer_text (\<lambda>_. 0) ''a%u!'' [1234567] = Some ''a1234567!''"
    by (simp add: buffer_convert_def append_unsigned_def digits_of_def)
  then show ?thesis using vsnprintf_truncates [of 6 "''0123456789''" "\<lambda>_. 0" "''a%u!''" "[1234567]"] by simp
qed


subsection \<open>Everything stays on the screen\<close>

fun on_screen :: "u32 \<Rightarrow> u32 \<Rightarrow> draw \<Rightarrow> bool" where
  "on_screen w h (Fill x y dx dy _) \<longleftrightarrow> unat x + unat dx \<le> unat w \<and> unat y + unat dy \<le> unat h"
| "on_screen w h (Glyph x y _ _) \<longleftrightarrow> unat x + unat FONT_WIDTH \<le> unat w \<and> unat y + unat FONT_HEIGHT \<le> unat h"

lemma clamp_width_fits:
  assumes "x < w" "unat x + unat requested < 2 ^ 32"
  shows "unat x + unat (clamp_width x requested w) \<le> unat w"
proof -
  have "unat (x + requested) = unat x + unat requested" using assms(2) by (simp add: unat_plus_simple32)
  then show ?thesis using assms(1) by (auto simp: clamp_width_def word_less_nat_alt word_le_nat_alt unat_sub)
qed

lemma pen_loop_on_screen:
  assumes "unat pen_x \<le> unat limit_x" "unat limit_x \<le> unat w" "unat w \<le> 2 ^ 31" "unat y + unat FONT_HEIGHT \<le> unat h"
  shows "list_all (on_screen w h) (pen_loop y limit_x color pen_x tx)"
  using assms
proof (induction y limit_x color pen_x tx rule: pen_loop.induct)
  case (2 y limit_x color pen_x ch t)
  have u: "unat (pen_x + FONT_WIDTH) = unat pen_x + unat FONT_WIDTH" using 2(2-4) by (simp add: unat_plus_simple32 FONT_WIDTH_def)
  then show ?case using 2 by (auto simp: word_less_nat_alt)
qed simp

lemma draw_text_line_on_screen:
  assumes "unat w \<le> 2 ^ 31" "unat h \<le> 2 ^ 31" "unat x + unat max_width < 2 ^ 32"
  shows "list_all (on_screen w h) (draw_text_line (Some (w, h)) x y max_width color tx)"
proof (cases "w = 0 \<or> h = 0 \<or> x \<ge> w \<or> y \<ge> h \<or> clamp_width x max_width w < FONT_WIDTH \<or> y + FONT_HEIGHT > h")
  case False
  let ?wd = "clamp_width x max_width w"
  have c: "unat x + unat ?wd \<le> unat w" using clamp_width_fits [OF _ assms(3), of w] False by (simp add: not_le)
  then have u: "unat (x + ?wd) = unat x + unat ?wd" using assms(1) by (simp add: unat_plus_simple32)
  have "unat (y + FONT_HEIGHT) = unat y + unat FONT_HEIGHT" using False assms(2) by (auto simp: unat_plus_simple32 FONT_HEIGHT_def word_le_nat_alt)
  then have "unat y + unat FONT_HEIGHT \<le> unat h" using False by (auto simp: word_less_nat_alt)
  then show ?thesis using False pen_loop_on_screen [of x "x + ?wd" w y h color tx] c u assms(1) by (simp add: draw_text_line_def Let_def)
qed (auto simp: draw_text_line_def Let_def)

lemma wrap_loop_on_screen:
  assumes "unat w \<le> 2 ^ 31" "unat h \<le> 2 ^ 31" "unat x + unat wd < 2 ^ 32"
  shows "list_all (on_screen w h) (fst (wrap_loop (Some (w, h)) x wd h n lh color y tx))"
proof (induction tx arbitrary: y rule: length_induct)
  case (1 t)
  show ?case
  proof (cases t)
    case (Cons ch cs)
    define line where "line = fitting n (ch # cs)"
    have "list_all (on_screen w h) (fst (wrap_loop (Some (w, h)) x wd h n lh color y' u))" if "length u \<le> length cs" for y' u
      using 1 that Cons by simp
    moreover have "length (skip_newline (drop (length line) (ch # cs))) \<le> length cs" if "line \<noteq> []"
    proof -
      have "length (drop (length line) (ch # cs)) \<le> length cs" using that by (cases line) simp_all
      then show ?thesis using length_skip_newline order_trans by blast
    qed
    ultimately show ?thesis
      using draw_text_line_on_screen [OF assms, of y color line] unfolding Cons
      by (subst wrap_loop.simps) (simp add: Let_def line_def [symmetric] case_prod_beta)
  qed simp
qed

lemma draw_wrapped_text_on_screen:
  assumes "unat w \<le> 2 ^ 31" "unat h \<le> 2 ^ 31" "unat x + unat max_width < 2 ^ 32"
  shows "list_all (on_screen w h) (fst (draw_wrapped_text (Some (w, h)) x y max_width color t spacing))"
proof (cases "w = 0 \<or> h = 0 \<or> x \<ge> w \<or> y \<ge> h")
  case False
  have "unat x + unat (clamp_width x max_width w) \<le> unat w" using clamp_width_fits [OF _ assms(3), of w] False by (simp add: not_le)
  then have "unat x + unat (clamp_width x max_width w) < 2 ^ 32" using assms(1) by simp
  from wrap_loop_on_screen [OF assms(1,2) this] show ?thesis by (auto simp: draw_wrapped_text_def Let_def)
qed (auto simp: draw_wrapped_text_def)

lemma draw_sections_on_screen:
  assumes "unat w \<le> 2 ^ 31" "unat h \<le> 2 ^ 31" "unat x + unat wd < 2 ^ 32"
  shows "list_all (on_screen w h) (draw_sections (Some (w, h)) x y wd secs)"
  using draw_wrapped_text_on_screen [OF assms]
  by (induction secs arbitrary: y) (auto simp: case_prod_beta)

lemma panel_axis_fits:
  assumes "unat extent \<le> 2 ^ 31" "unat margin \<le> 2 ^ 29"
  shows "unat (fst (panel_axis extent margin)) + unat (snd (panel_axis extent margin)) \<le> unat extent"
proof -
  have "unat (2 * margin) = 2 * unat margin" using assms(2) by (simp add: unat_word_ariths)
  then show ?thesis using assms by (auto simp: panel_axis_def Let_def word_less_nat_alt unat_sub word_le_nat_alt)
qed

lemma panel_margin_bound:
  assumes "unat extent \<le> 2 ^ 31" "4 \<le> k" "k \<le> 8"
  shows "unat (panel_margin (extent div of_nat k)) \<le> 2 ^ 29"
proof -
  have "unat (of_nat k :: u32) = k" using assms(3) by (simp add: unat_of_nat)
  then have "unat (extent div of_nat k) = unat extent div k" by (simp add: unat_div)
  also have "\<dots> \<le> 2 ^ 31 div 4" using assms div_le_mono2 [of 4 k "unat extent"] div_le_mono [of "unat extent" "2 ^ 31" 4] by linarith
  finally show ?thesis by (simp add: panel_margin_def PANEL_PADDING_def)
qed

lemma panel_border_fits:
  assumes "unat px + unat pw \<le> unat w" "unat py + unat ph \<le> unat h" "unat w \<le> 2 ^ 31" "unat h \<le> 2 ^ 31"
  shows "list_all (on_screen w h) (panel_border px py pw ph)"
proof (cases "pw > 2 * PANEL_BORDER \<and> ph > 2 * PANEL_BORDER")
  case True
  then have b: "4 < unat pw" "4 < unat ph" by (simp_all add: PANEL_BORDER_def word_less_nat_alt)
  have "unat (px + pw) = unat px + unat pw" "unat (py + ph) = unat py + unat ph" using assms by (simp_all add: unat_plus_simple32)
  then have "unat (px + pw - 2) = unat px + unat pw - 2" "unat (py + ph - 2) = unat py + unat ph - 2" using b by (simp_all add: unat_sub word_le_nat_alt)
  moreover have "2 + (unat py + unat ph - 2) \<le> unat h" "2 + (unat px + unat pw - 2) \<le> unat w" using b assms by linarith+
  ultimately show ?thesis using True b assms by (simp add: panel_border_def PANEL_BORDER_def)
qed (auto simp: panel_border_def)

text \<open>C40. Whatever the message, the file, the line, the function and the details, and whatever the size of the screen (below two thousand million pixels in each
  direction), every rectangle and every character of the picture of a panic lies completely on the screen.\<close>

theorem panic_screen_on_screen:
  assumes "unat w \<le> 2 ^ 31" "unat h \<le> 2 ^ 31"
  shows "list_all (on_screen w h) (render_gui_panic_screen (Some (w, h)) message file_name line function_name details)"
proof (cases "w = 0 \<or> h = 0")
  case False
  define px pw where "px = fst (panel_axis w (panel_margin (w div 8)))" and "pw = snd (panel_axis w (panel_margin (w div 8)))"
  define py ph where "py = fst (panel_axis h (panel_margin (h div 6)))" and "ph = snd (panel_axis h (panel_margin (h div 6)))"
  have fx: "unat px + unat pw \<le> unat w" unfolding px_def pw_def using panel_axis_fits [OF assms(1)] panel_margin_bound [OF assms(1), of 8] by simp
  have fy: "unat py + unat ph \<le> unat h" unfolding py_def ph_def using panel_axis_fits [OF assms(2)] panel_margin_bound [OF assms(2), of 6] by simp
  have rows: "list_all (on_screen w h) (map (\<lambda>row. gradient_row w h (of_nat row)) [0..<unat h])"
  proof -
    have "on_screen w h (gradient_row w h (of_nat row))" if "row < unat h" for row
    proof -
      have "unat (of_nat row :: u32) = row" using less_trans [OF that unat_u32_bound] by (simp add: unat_of_nat)
      then show ?thesis using that by (simp add: gradient_row_def Let_def)
    qed
    then show ?thesis by (simp add: list_all_iff)
  qed
  have drawn: "list_all (on_screen w h) (draw_text_line (Some (w, h)) x y (text_width w x a) color t)"
    "list_all (on_screen w h) (draw_sections (Some (w, h)) x y (text_width w x a) secs)" if "\<not> x \<ge> w" for x y a color t secs
  proof -
    have "unat (text_width w x a) \<le> unat w - unat x" using that by (auto simp: text_width_def Let_def word_less_nat_alt word_le_nat_alt unat_sub not_le)
    then have "unat x + unat (text_width w x a) < 2 ^ 32" using that assms(1) by (simp add: word_le_nat_alt)
    then show "list_all (on_screen w h) (draw_text_line (Some (w, h)) x y (text_width w x a) color t)"
      "list_all (on_screen w h) (draw_sections (Some (w, h)) x y (text_width w x a) secs)"
      using draw_text_line_on_screen [OF assms] draw_sections_on_screen [OF assms] by blast+
  qed
  show ?thesis unfolding render_gui_panic_screen_def using False rows fx fy panel_border_fits [OF fx fy assms] drawn
    by (auto simp: case_prod_beta Let_def px_def [symmetric] pw_def [symmetric] py_def [symmetric] ph_def [symmetric])
qed (auto simp: render_gui_panic_screen_def)


theorem panic_screen_on_screen_witness:
  "list_all (on_screen 1024 768) (render_gui_panic_screen (Some (1024, 768)) (Some ''Out of memory'') (Some ''heap.cpp'') 42 (Some ''kmalloc'') None)"
  by (rule panic_screen_on_screen) simp_all


subsection \<open>Serial port and console print the same text\<close>

text \<open>Formats whose conversions are \<^verbatim>\<open>%d\<close>, \<^verbatim>\<open>%u\<close>, \<^verbatim>\<open>%s\<close>, \<^verbatim>\<open>%c\<close> and \<^verbatim>\<open>%%\<close> without flags. (\<^verbatim>\<open>%x\<close> prints upper case on the serial port.)\<close>

fun plain_format :: "string \<Rightarrow> bool" where
  "plain_format [] = True"
| "plain_format [c] = (c \<noteq> CHR ''%'')"
| "plain_format (c # d # fmt) = (if c = CHR ''%'' then d \<in> set ''dusc%'' \<and> plain_format fmt else plain_format (d # fmt))"

definition bare :: conversion where
  "bare = \<lparr>left_adjust = False, force_sign = False, force_space = False, alternate = False, zero_pad = False, width = 0, precision = -1, length_mod = LEN_NONE\<rparr>"

lemma plain_cases:
  assumes "d \<in> set ''dusc%''"
  obtains "d = CHR ''d''" | "d = CHR ''u''" | "d = CHR ''s''" | "d = CHR ''c''" | "d = CHR ''%''"
  using assms by (auto simp del: char.inject)

lemma parse_bare: "d \<in> set ''dusc%'' \<Longrightarrow> parse_conversion (d # rest) = Some (bare, d # rest)"
proof -
  assume d: "d \<in> set ''dusc%''"
  have l: "d \<noteq> CHR ''l'' \<Longrightarrow> parse_length (d # rest) = (LEN_NONE, d # rest)" by (cases rest) auto
  from d show ?thesis
    by (cases rule: plain_cases) (use l in \<open>simp_all add: parse_conversion_def parse_precision_def is_digit_def no_flags_def bare_def\<close>)
qed

lemma decimal_alphabets: "digit_loop (digits_of True) 10 v = digit_loop (digits_of False) 10 v"
proof (induction v rule: less_induct)
  case (less v)
  have "\<forall>k\<in>{..<16}. k < 10 \<longrightarrow> digits_of True ! k = digits_of False ! k" unfolding upto_16 by (simp add: digits_of_def)
  then have "digits_of True ! (v mod 10) = digits_of False ! (v mod 10)" by simp
  then show ?case using less [of "v div 10"] by (subst (1 2) digit_loop.simps) (auto simp: Let_def)
qed

lemma unat_ucast64: "unat (ucast (x :: u32) :: u64) = unat x"
proof -
  have "unat x < 2 ^ 64" using unat_u32_bound [of x] by (rule less_trans) simp
  then show ?thesis by (simp add: unsigned_ucast_eq take_bit_nat_eq_self)
qed

lemma bare_number: "length digits \<le> 20 \<Longrightarrow> length prefix \<le> 2 \<Longrightarrow> \<exists>out. put_number bare prefix 0 digits = Some out \<and> concat out = prefix @ digits"
  using put_number_ok [of bare prefix 0 digits] by (auto simp: bare_def INT_MAX_def padded_def)

lemma bare_signed: "serial_itoa (sint x) 10 = Some t \<Longrightarrow> \<exists>out. print_signed bare (x # args) = Some (out, args) \<and> concat out = t"
proof -
  assume t: "serial_itoa (sint x) 10 = Some t"
  have r: "- (2 ^ 31) \<le> sint x" "sint x < 2 ^ 31" using sint_ge [of x] sint_lt [of x] by simp_all
  define mag where "mag = (of_int (if sint x < 0 then - sint x else sint x) :: u64)"
  define prefix where "prefix = (if sint x < 0 then ''-'' else [])"
  have um: "unat mag = nat \<bar>sint x\<bar>" using r by (auto simp: mag_def unsigned_of_int take_bit_int_eq_self nat_take_bit_eq)
  have t': "t = prefix @ format_unsigned mag 10 False"
    using t um by (auto simp: serial_itoa_def format_unsigned_def decimal_alphabets prefix_def split: if_splits)
  have lp: "length prefix \<le> 2" by (simp add: prefix_def)
  obtain out where out: "put_number bare prefix 0 (format_unsigned mag 10 False) = Some out" "concat out = t"
    using bare_number [OF _ lp, of "format_unsigned mag 10 False"] format_unsigned_length [of 10 mag False] t' by auto
  have f: "precision bare = -1" "length_mod bare = LEN_NONE" "\<not> force_sign bare" "\<not> force_space bare" "zeroes_for bare a b = 0" for a b
    by (simp_all add: bare_def zeroes_for_def)
  have "sint x \<noteq> - (2 ^ 63)" using r by simp
  then have "print_signed bare (x # args) = Some (out, args)"
    using out(1) unfolding prefix_def by (auto simp: print_signed_def signed_arg_def f mag_def [symmetric] Let_def)
  with out(2) show ?thesis by blast
qed

lemma bare_unsigned: "\<exists>out. print_unsigned bare (x # args) = Some (out, args) \<and> concat out = serial_utoa x 10"
proof -
  have f: "precision bare = -1" "length_mod bare = LEN_NONE" "zeroes_for bare a b = 0" for a b by (simp_all add: bare_def zeroes_for_def)
  have "serial_utoa x 10 = format_unsigned (ucast x) 10 False" by (simp add: serial_utoa_def format_unsigned_def decimal_alphabets unat_ucast64)
  then show ?thesis using bare_number [of "format_unsigned (ucast x) 10 False" "[]"] format_unsigned_length [of 10 "ucast x" False]
    by (auto simp: print_unsigned_def unsigned_arg_def f)
qed

lemma bare_string:
  assumes "string_arg m x = Some t" "length t < 2 ^ 31"
  shows "\<exists>out. print_string m bare (x # args) = Some (out, args) \<and> concat out = t"
proof -
  have "padding_for 0 (length t) = Some 0" using padding_for_ok [of 0 "length t"] assms(2) by (simp add: INT_MAX_def)
  moreover have "precision bare = -1" "width bare = 0" "\<not> left_adjust bare" by (simp_all add: bare_def)
  ultimately show ?thesis using assms(1) by (auto simp: print_string_def string_arg_def Let_def)
qed

lemma bare_convert:
  assumes "d \<in> set ''dusc%''" "serial_convert m d args = Some (t, rest)" "\<And>p n. strlen m p = Some n \<Longrightarrow> unat n < 2 ^ 31"
  shows "\<exists>out. convert m bare d args = Some (out, rest) \<and> concat out = t"
proof -
  have len: "length t < 2 ^ 31" if "string_arg m x = Some t" for x t
  proof (cases "x = 0")
    case True
    with that show ?thesis by (auto simp: string_arg_def)
  next
    case False
    with that obtain n where "strlen m x = Some n" "t = text_at m x (unat n)" by (auto simp: string_arg_def split: bind_splits)
    with assms(3) show ?thesis by (simp add: text_at_def)
  qed
  from assms(1) show ?thesis
  proof (cases rule: plain_cases)
    case 1
    then obtain x where "args = x # rest" "serial_itoa (sint x) 10 = Some t" using assms(2) by (cases args) (auto simp: serial_convert_def split: bind_splits)
    then show ?thesis using 1 bare_signed [of x t rest] by (simp add: convert_def)
  next
    case 2
    then obtain x where "args = x # rest" "t = serial_utoa x 10" using assms(2) by (cases args) (auto simp: serial_convert_def)
    then show ?thesis using 2 bare_unsigned [of x rest] by (simp add: convert_def)
  next
    case 3
    then obtain x where "args = x # rest" "string_arg m x = Some t" using assms(2) by (cases args) (auto simp: serial_convert_def split: bind_splits)
    then show ?thesis using 3 bare_string [of m x t rest] len by (simp add: convert_def)
  next
    case 4
    then obtain x where "args = x # rest" "t = [char_of (unat x)]" using assms(2) by (cases args) (auto simp: serial_convert_def)
    then show ?thesis using 4 by (simp add: convert_def print_char_def bare_def)
  next
    case 5
    then show ?thesis using assms(2) by (simp add: serial_convert_def convert_def)
  qed
qed

lemma serial_write_append: "serial_write (t @ u) s = serial_write u (serial_write t s)"
  by (simp add: serial_write_def)

text \<open>For a plain format, and strings shorter than two gigabytes, whatever the serial port prints is the text that \<^verbatim>\<open>printf\<close> prints on the console.\<close>

theorem serial_agrees_with_console:
  assumes "plain_format fmt" "serial_vprintf m fmt args s = Some s'" "\<forall>p n. strlen m p = Some n \<longrightarrow> unat n < 2 ^ 31"
  shows "\<exists>t. render m fmt args = Some t \<and> s' = serial_write t s"
  using assms
proof (induction m fmt args s rule: serial_vprintf.induct)
  case (3 m ch d format args s)
  show ?case
  proof (cases "ch = CHR ''%''")
    case True
    then have d: "d \<in> set ''dusc%''" "plain_format format" using 3(3) by auto
    obtain t rest where t: "serial_convert m d args = Some (t, rest)" "serial_vprintf m format rest (serial_write t s) = Some s'"
      using 3(4) True by (auto split: bind_splits)
    obtain out where out: "convert m bare d args = Some (out, rest)" "concat out = t" using bare_convert [OF d(1) t(1)] 3(5) by blast
    obtain u where "render m format rest = Some u" "s' = serial_write u (serial_write t s)" using 3(1) [OF True t(1) refl d(2) t(2)] 3(5) by auto
    then show ?thesis using True out parse_bare [OF d(1)] by (simp add: serial_write_append)
  next
    case False
    then obtain u where "render m (d # format) args = Some u" "s' = serial_write u (serial_write_char ch s)" using 3(2-5) by auto
    then show ?thesis using False by (simp add: serial_write_def)
  qed
qed (auto simp: serial_write_def split: if_splits)

theorem serial_agrees_with_console_witness:
  "\<exists>s' t. serial_vprintf (\<lambda>_. 0) ''%d%%'' [42] \<lparr>serial_initialized = True, port_writes = []\<rparr> = Some s' \<and> render (\<lambda>_. 0) ''%d%%'' [42] = Some t \<and>
     s' = serial_write t \<lparr>serial_initialized = True, port_writes = []\<rparr>"
proof -
  have l: "\<forall>p n. strlen (\<lambda>_. 0) p = Some n \<longrightarrow> unat n < 2 ^ 31" by (simp add: strlen_def strlen_loop.simps)
  obtain s' where "serial_vprintf (\<lambda>_. 0) ''%d%%'' [42] \<lparr>serial_initialized = True, port_writes = []\<rparr> = Some s'" by (simp add: serial_convert_def serial_itoa_def)
  with serial_agrees_with_console [OF _ this l] show ?thesis by auto
qed

text \<open>A format that ends with a single percent sign makes the loops of the serial port and of the formatting into a buffer step over the end of the format.\<close>

theorem single_percent_overruns:
  assumes "CHR ''%'' \<notin> set t"
  shows "serial_vprintf m (t @ ''%'') args s = None \<and> simple_vsnprintf m buffer sz (t @ ''%'') args = None"
proof -
  have "serial_vprintf m (t @ ''%'') args s = None" using assms
  proof (induction t arbitrary: s)
    case (Cons c t)
    then show ?case by (cases t) auto
  qed simp
  moreover have "buffer_loop m sz (t @ ''%'') args st = None" for st using assms
  proof (induction t arbitrary: st)
    case (Cons c t)
    then show ?case by (cases t) auto
  qed simp
  ultimately show ?thesis by (simp add: simple_vsnprintf_def)
qed

theorem single_percent_overruns_witness: "simple_vsnprintf (\<lambda>_. 0) ''        '' 8 (''100'' @ ''%'') [] = None"
  using single_percent_overruns [of "''100''"] by simp


lemma text_at_cstr: "cstr m p t \<Longrightarrow> text_at m p (length t) = t"
proof (induction t arbitrary: p)
  case (Cons c t)
  have "text_at m p (Suc (length t)) = char_of (unat (m p)) # text_at m (p + 1) (length t)"
    unfolding text_at_def by (simp add: upt_conv_Cons map_Suc_upt [symmetric] comp_def ac_simps del: upt_Suc map_Suc_upt)
  moreover have "unat (of_char c :: u8) = of_char c" unfolding of_nat_of_char [symmetric, where ?'a = "u8"] unat_of_nat using nat_of_char_less_256 [of c] by simp
  ultimately show ?case using Cons by simp
qed (simp add: text_at_def)

text \<open>The sections of the picture hold what \<^verbatim>\<open>simple_snprintf\<close> leaves in the buffer.\<close>

lemma message_section:
  assumes "cstr m p msg" "p \<noteq> 0" "length buffer = WRAP_BUFFER_SIZE" "simple_vsnprintf m buffer WRAP_BUFFER_SIZE ''Message: %s'' [p] = Some (r, buffer')"
  shows "takeWhile (\<lambda>c. c \<noteq> CHR 0x00) buffer' = section_text (''Message: '' @ msg)"
proof -
  have t: "text_at m p (length msg) = msg" "CHR 0x00 \<notin> set msg" "length msg < 2 ^ 32" using text_at_cstr [OF assms(1)] cstr_no_nul [OF assms(1)] cstr_length [OF assms(1)] by auto
  have "strlen m p = Some (of_nat (length msg))" using strlen_loop_cstr [of m p 0 msg] assms(1) by (simp add: strlen_def)
  then have "string_arg m p = Some msg" using t assms(2) by (simp add: string_arg_def unat_of_nat)
  then have "buffer_text m ''Message: %s'' [p] = Some (''Message: '' @ msg)" by (simp add: buffer_convert_def)
  then have "buffer' = section_text (''Message: '' @ msg) @ CHR 0x00 # drop (Suc (min (length (''Message: '' @ msg)) (WRAP_BUFFER_SIZE - 1))) buffer"
    using assms(3,4) vsnprintf_held [of WRAP_BUFFER_SIZE buffer m "''Message: %s''" "[p]"] by (simp add: section_text_def WRAP_BUFFER_SIZE_def)
  moreover have "\<forall>c\<in>set (section_text (''Message: '' @ msg)). c \<noteq> CHR 0x00" using t(2) by (auto simp: section_text_def dest!: in_set_takeD)
  ultimately show ?thesis by (simp add: takeWhile_append2)
qed

end
