(* ===== verification/Pmm.thy ===== *)
theory Pmm
  imports Prelude
begin

text \<open>
  The physical memory manager of \<^verbatim>\<open>src/kernel/memory.cpp\<close>: a bitmap with one bit per 4 KiB frame.
  The static members of the class are the fields of \<open>pmm\<close>; \<open>next_free_physical\<close> is the function-local
  static of \<open>initialize\<close>, which the linker symbol \<open>kernel_end\<close> initialises. An index past the
  bitmap is an access outside the array, hence \<open>None\<close>.

  \<open>frame_used\<close> is the abstract view, the set of frames in use; the locale \<open>frame_allocator\<close> is what
  the paging code relies on.
\<close>

subsection \<open>The contract of a frame allocator\<close>

locale frame_allocator =
  fixes ok :: "'s \<Rightarrow> bool" and used :: "'s \<Rightarrow> nat \<Rightarrow> bool" and limit :: "'s \<Rightarrow> nat"
    and alloc :: "'s \<Rightarrow> (addr \<times> 's) option"
  assumes limit_bound: "ok s \<Longrightarrow> limit s \<le> 2 ^ 20"
    and alloc_total: "ok s \<Longrightarrow> used s 0 \<Longrightarrow> \<exists>a s'. alloc s = Some (a, s') \<and> ok s' \<and> limit s' = limit s"
    and alloc_null: "ok s \<Longrightarrow> used s 0 \<Longrightarrow> alloc s = Some (0, s') \<Longrightarrow> s' = s \<and> (\<forall>f<limit s. used s f)"
    and alloc_frame: "ok s \<Longrightarrow> used s 0 \<Longrightarrow> alloc s = Some (a, s') \<Longrightarrow> a \<noteq> 0 \<Longrightarrow>
      (\<exists>f<limit s. unat a = f * 4096 \<and> \<not> used s f \<and> (\<forall>g. used s' g \<longleftrightarrow> g = f \<or> used s g))"
begin

lemma alloc_keeps_zero: "ok s \<Longrightarrow> used s 0 \<Longrightarrow> alloc s = Some (a, s') \<Longrightarrow> used s' 0"
  using alloc_null alloc_frame by (cases "a = 0") blast+

lemma alloc_mono: "ok s \<Longrightarrow> used s 0 \<Longrightarrow> alloc s = Some (a, s') \<Longrightarrow> used s f \<Longrightarrow> used s' f"
  using alloc_null alloc_frame by (cases "a = 0") blast+

lemma alloc_ok: "ok s \<Longrightarrow> used s 0 \<Longrightarrow> alloc s = Some (a, s') \<Longrightarrow> ok s' \<and> limit s' = limit s"
  using alloc_total by fastforce

text \<open>An allocation succeeds while a frame is free, and takes one of them.\<close>

lemma alloc_free:
  assumes "ok s" "used s 0" "alloc s = Some (a, s')" "Suc n \<le> card {f. f < limit s \<and> \<not> used s f}"
  shows "a \<noteq> 0" "n \<le> card {f. f < limit s' \<and> \<not> used s' f}"
proof -
  have "{f. f < limit s \<and> \<not> used s f} \<noteq> {}" using assms(4) by (metis card.empty not_less_eq_eq zero_le)
  with alloc_null [OF assms(1,2)] assms(3) show a: "a \<noteq> 0" by blast
  obtain f where f: "f < limit s" "\<not> used s f" "\<forall>g. used s' g \<longleftrightarrow> g = f \<or> used s g"
    using alloc_frame [OF assms(1-3) a] by blast
  have "{g. g < limit s' \<and> \<not> used s' g} = {g. g < limit s \<and> \<not> used s g} - {f}"
    using f alloc_ok [OF assms(1-3)] by auto
  with f assms(4) show "n \<le> card {f. f < limit s' \<and> \<not> used s' f}" by simp
qed

text \<open>Two successive successful allocations give two different frames.\<close>

lemma alloc_distinct:
  assumes "ok s" "used s 0" "alloc s = Some (a, s1)" "a \<noteq> 0" "alloc s1 = Some (b, s2)" "b \<noteq> 0"
  shows "a \<noteq> b"
proof
  assume ab: "a = b"
  obtain f where f: "unat a = f * 4096" "\<forall>g. used s1 g \<longleftrightarrow> g = f \<or> used s g"
    using alloc_frame [OF assms(1-4)] by blast
  obtain g where g: "unat b = g * 4096" "\<not> used s1 g"
    using alloc_frame [OF _ _ assms(5,6)] alloc_ok [OF assms(1-3)] alloc_keeps_zero [OF assms(1-3)] by blast
  from ab f(1) g(1) have "f = g" by simp
  with f(2) g(2) show False by simp
qed

end

subsection \<open>State and operations\<close>

definition PAGE_SIZE :: u32 where "PAGE_SIZE = 4096"

definition UINT32_MAX :: u32 where "UINT32_MAX = 0xFFFFFFFF"

record pmm =
  bitmap :: "u32 list"
  total_frames :: u32
  used_frames :: u32
  next_free_physical :: u32

definition align_up :: "u32 \<Rightarrow> u32 \<Rightarrow> u32" where
  "align_up val align = (val + (align - 1)) AND NOT (align - 1)"

definition set_frame :: "pmm \<Rightarrow> u32 \<Rightarrow> pmm option" where
  "set_frame s frame_addr =
     (let bt = unat (frame_addr mod 32); idx = unat (frame_addr div 32)
      in if idx < length (bitmap s)
         then Some (s\<lparr>bitmap := (bitmap s)[idx := bitmap s ! idx OR push_bit bt 1]\<rparr>) else None)"

definition clear_frame :: "pmm \<Rightarrow> u32 \<Rightarrow> pmm option" where
  "clear_frame s frame_addr =
     (let bt = unat (frame_addr mod 32); idx = unat (frame_addr div 32)
      in if idx < length (bitmap s)
         then Some (s\<lparr>bitmap := (bitmap s)[idx := bitmap s ! idx AND NOT (push_bit bt 1)]\<rparr>) else None)"

definition test_frame :: "pmm \<Rightarrow> u32 \<Rightarrow> u32 option" where
  "test_frame s frame_addr =
     (let bt = unat (frame_addr mod 32); idx = unat (frame_addr div 32)
      in if idx < length (bitmap s)
         then Some (if bitmap s ! idx AND push_bit bt 1 \<noteq> 0 then 1 else 0) else None)"

definition bitmap_words :: "u32 \<Rightarrow> u32" where
  "bitmap_words frames = (if frames mod 32 \<noteq> 0 then frames div 32 + 1 else frames div 32)"

text \<open>The inner loop over the bits of one word: \<open>None\<close> when it ends or breaks without a frame.\<close>

fun first_free_bits :: "u32 \<Rightarrow> u32 \<Rightarrow> u32 \<Rightarrow> nat list \<Rightarrow> u32 option" where
  "first_free_bits w i tot [] = None"
| "first_free_bits w i tot (j # js) =
     (if w AND push_bit j 1 = 0
      then (let frame_number = i * 32 + of_nat j
            in if frame_number < tot then Some frame_number else None)
      else first_free_bits w i tot js)"

fun first_free_words :: "u32 list \<Rightarrow> u32 \<Rightarrow> u32 \<Rightarrow> u32" where
  "first_free_words [] i tot = UINT32_MAX"
| "first_free_words (w # ws) i tot =
     (if w \<noteq> 0xFFFFFFFF
      then (case first_free_bits w i tot [0..<32] of
              Some f \<Rightarrow> f
            | None \<Rightarrow> first_free_words ws (i + 1) tot)
      else first_free_words ws (i + 1) tot)"

definition first_free :: "pmm \<Rightarrow> u32 option" where
  "first_free s =
     (let bm_size = unat (bitmap_words (total_frames s))
      in if bm_size \<le> length (bitmap s)
         then Some (first_free_words (take bm_size (bitmap s)) 0 (total_frames s)) else None)"

definition allocate_frame :: "pmm \<Rightarrow> (addr \<times> pmm) option" where
  "allocate_frame s = do {
     frame \<leftarrow> first_free s;
     if frame = UINT32_MAX then Some (0, s)
     else do {
       s \<leftarrow> set_frame s frame;
       Some (frame * PAGE_SIZE, s\<lparr>used_frames := used_frames s + 1\<rparr>) } }"

definition free_frame :: "pmm \<Rightarrow> addr \<Rightarrow> pmm option" where
  "free_frame s frame = do {
     s \<leftarrow> clear_frame s (frame div PAGE_SIZE);
     Some (s\<lparr>used_frames := used_frames s - 1\<rparr>) }"

definition get_memory_size :: "pmm \<Rightarrow> u32" where
  "get_memory_size s = total_frames s * PAGE_SIZE"

definition get_free_frames :: "pmm \<Rightarrow> u32" where
  "get_free_frames s = total_frames s - used_frames s"

partial_function (option) initialize_mark :: "pmm \<Rightarrow> u32 \<Rightarrow> pmm option" where
  "initialize_mark s adr =
     (if adr < next_free_physical s
      then do {
        s \<leftarrow> set_frame s (adr div PAGE_SIZE);
        initialize_mark (s\<lparr>used_frames := used_frames s + 1\<rparr>) (adr + PAGE_SIZE) }
      else Some s)"

text \<open>\<open>mem_upper\<close> is the field of the multiboot structure: kilobytes above the first megabyte.\<close>

definition initialize :: "pmm \<Rightarrow> u32 \<Rightarrow> pmm option" where
  "initialize s mem_upper =
     (let mem_bytes = (mem_upper + 1024) * 1024;
          tot = mem_bytes div PAGE_SIZE;
          bitmap_size = bitmap_words tot;
          nfp = align_up (next_free_physical s) PAGE_SIZE;
          bytes_needed = bitmap_size * 4
      in initialize_mark
           (s\<lparr>total_frames := tot, used_frames := 0, bitmap := replicate (unat bitmap_size) 0,
              next_free_physical := nfp + bytes_needed\<rparr>) 0)"

subsection \<open>Frames in use\<close>

definition frame_used :: "pmm \<Rightarrow> nat \<Rightarrow> bool" where
  "frame_used s f \<longleftrightarrow> f div 32 < length (bitmap s) \<and> bit (bitmap s ! (f div 32)) (f mod 32)"

definition pmm_ok :: "pmm \<Rightarrow> bool" where
  "pmm_ok s \<longleftrightarrow> length (bitmap s) = unat (bitmap_words (total_frames s)) \<and> total_frames s \<le> 0x100000"

text \<open>The counter \<open>used_frames\<close> agrees with the bitmap.\<close>

definition pmm_counted :: "pmm \<Rightarrow> bool" where
  "pmm_counted s \<longleftrightarrow> unat (used_frames s) = card {f. frame_used s f} \<and>
     (\<forall>f. frame_used s f \<longrightarrow> f < unat (total_frames s))"


subsection \<open>Bits and frames\<close>

lemma div_mod_32 [addr_simps]:
  fixes w :: u32
  shows "unat (w mod 32) = unat w mod 32" "unat (w div 32) = unat w div 32"
  by (simp_all add: unat_mod_distrib unat_div_distrib)

lemma frame_eq_iff: "(g :: nat) = f \<longleftrightarrow> g div 32 = f div 32 \<and> g mod 32 = f mod 32"
  by (metis div_mult_mod_eq)

lemma unat_frame [addr_simps]: "k < 1048576 \<Longrightarrow> unat (of_nat k * 4096 :: u32) = k * 4096"
  using unat_of_nat [of "k * 4096", where ?'a = 32] by simp

lemma set_frame_used:
  assumes "unat f div 32 < length (bitmap s)"
  obtains s' where "set_frame s f = Some s'" "length (bitmap s') = length (bitmap s)"
    "total_frames s' = total_frames s" "used_frames s' = used_frames s"
    "next_free_physical s' = next_free_physical s"
    "\<And>g. frame_used s' g \<longleftrightarrow> g = unat f \<or> frame_used s g"
proof -
  let ?s = "s\<lparr>bitmap := (bitmap s)[unat f div 32 := bitmap s ! (unat f div 32) OR push_bit (unat f mod 32) 1]\<rparr>"
  have *: "set_frame s f = Some ?s" using assms by (simp add: set_frame_def div_mod_32 Let_def)
  have "frame_used ?s g \<longleftrightarrow> g = unat f \<or> frame_used s g" for g
    using assms frame_eq_iff [of g "unat f"]
    by (cases "g div 32 = unat f div 32") (auto simp: frame_used_def bit_simps)
  with * show ?thesis using that by simp
qed

lemma clear_frame_used:
  assumes "unat f div 32 < length (bitmap s)"
  obtains s' where "clear_frame s f = Some s'" "length (bitmap s') = length (bitmap s)"
    "total_frames s' = total_frames s" "used_frames s' = used_frames s"
    "next_free_physical s' = next_free_physical s"
    "\<And>g. frame_used s' g \<longleftrightarrow> g \<noteq> unat f \<and> frame_used s g"
proof -
  let ?s = "s\<lparr>bitmap := (bitmap s)[unat f div 32 := bitmap s ! (unat f div 32) AND NOT (push_bit (unat f mod 32) 1)]\<rparr>"
  have *: "clear_frame s f = Some ?s" using assms by (simp add: clear_frame_def div_mod_32 Let_def)
  have "frame_used ?s g \<longleftrightarrow> g \<noteq> unat f \<and> frame_used s g" for g
    using assms frame_eq_iff [of g "unat f"]
    by (cases "g div 32 = unat f div 32") (auto simp: frame_used_def bit_simps)
  with * show ?thesis using that by simp
qed

lemma unat_bitmap_words: "unat (bitmap_words t) = (unat t + 31) div 32"
proof -
  have "unat (t div 32 + 1) = unat t div 32 + 1"
    using unat_plus_simple32 [of "t div 32" 1] unat_u32_bound [of t]
    by (simp add: div_mod_32 del: unat_u32_bound)
  moreover have "t mod 32 \<noteq> 0 \<longleftrightarrow> unat t mod 32 \<noteq> 0"
    by (metis div_mod_32(1) unat_eq_zero)
  moreover have "(a + 31) div 32 = (if a mod 32 \<noteq> 0 then a div 32 + 1 else a div 32)" for a :: nat
    by (cases "a mod 32 = 0") (auto simp: div_add1_eq [of a 31] elim!: dvdE)
  ultimately show ?thesis by (simp add: bitmap_words_def div_mod_32)
qed

lemma frame_in_bitmap: "pmm_ok s \<Longrightarrow> f < unat (total_frames s) \<Longrightarrow> f div 32 < length (bitmap s)"
  by (simp add: pmm_ok_def unat_bitmap_words)

lemma first_free_bits_find:
  assumes "unat i * 32 + 32 \<le> 2 ^ 32" "b \<le> 32"
  shows "first_free_bits w i t [a..<b] =
    (case find (\<lambda>j. \<not> bit w j) [a..<b] of
       None \<Rightarrow> None
     | Some j \<Rightarrow> if unat i * 32 + j < unat t then Some (i * 32 + of_nat j) else None)"
  using assms(2)
proof (induction "b - a" arbitrary: a)
  case (Suc n)
  then have ab: "[a..<b] = a # [Suc a..<b]" "a < b" by (simp_all add: upt_conv_Cons)
  have "unat (i * 32) = unat i * 32" using assms(1) by (simp add: unat_word_ariths)
  then have "unat (i * 32 + of_nat a) = unat i * 32 + a"
    using unat_plus_of_nat [of "i * 32" a] assms(1) ab(2) Suc.prems by simp
  with Suc ab show ?case
    by (simp add: bit_iff_and_push_bit_not_eq_0 [of w a] word_less_nat_alt Let_def)
qed simp

lemma find_upt_Some: "find P [a..<b] = Some j \<Longrightarrow> a \<le> j \<and> j < b \<and> P j \<and> (\<forall>k. a \<le> k \<and> k < j \<longrightarrow> \<not> P k)"
  by (auto simp: find_Some_iff nth_upt) (metis add_diff_inverse_nat le_trans less_diff_conv2 not_less less_imp_le add.commute)

lemma find_upt_None: "find P [a..<b] = None \<longleftrightarrow> (\<forall>k. a \<le> k \<and> k < b \<longrightarrow> \<not> P k)"
  by (auto simp: find_None_iff)


text \<open>Frame \<open>g\<close> is free in the words \<open>ws\<close> of the bitmap, the first of which has index \<open>k\<close>.\<close>

definition free_in :: "u32 \<Rightarrow> u32 list \<Rightarrow> nat \<Rightarrow> nat \<Rightarrow> bool" where
  "free_in t ws k g \<longleftrightarrow> k * 32 \<le> g \<and> g < (k + length ws) * 32 \<and> g < unat t \<and> \<not> bit (ws ! (g div 32 - k)) (g mod 32)"

lemma first_free_words_spec:
  assumes "(k + length ws) * 32 \<le> 2 ^ 32"
  shows "(first_free_words ws (of_nat k) t = UINT32_MAX \<and> (\<forall>g. \<not> free_in t ws k g)) \<or>
    (free_in t ws k (unat (first_free_words ws (of_nat k) t)) \<and> (\<forall>g<unat (first_free_words ws (of_nat k) t). \<not> free_in t ws k g))"
  using assms(1)
proof (induction ws arbitrary: k)
  case (Cons w ws)
  let ?F = "free_in t"
  let ?r = "first_free_words (w # ws) (of_nat k) t" and ?r' = "first_free_words ws (of_nat (Suc k)) t"
  have k: "unat (of_nat k :: u32) = k" using Cons.prems by (simp add: unat_of_nat)
  have rest: "?F (w # ws) k g \<longleftrightarrow> ?F ws (Suc k) g" if "\<not> ?F [w] k g" for g
    using that by (cases "g div 32 = k") (auto simp: free_in_def nth_Cons' not_less)
  have more: "?F [w] k g \<Longrightarrow> ?F (w # ws) k g" for g by (auto simp: free_in_def nth_Cons')
  have IH: "(?r' = UINT32_MAX \<and> (\<forall>g. \<not> ?F ws (Suc k) g)) \<or>
      (?F ws (Suc k) (unat ?r') \<and> (\<forall>g<unat ?r'. \<not> ?F ws (Suc k) g))"
    using Cons.IH [of "Suc k"] Cons.prems by simp
  have bits: "first_free_bits w (of_nat k) t [0..<32] =
    (case find (\<lambda>j. \<not> bit w j) [0..<32] of None \<Rightarrow> None
     | Some j \<Rightarrow> if k * 32 + j < unat t then Some (of_nat k * 32 + of_nat j) else None)"
    using first_free_bits_find [of "of_nat k" 32 w t 0] Cons.prems unfolding k by simp
  show ?case
  proof (cases "\<exists>g. ?F [w] k g")
    case False
    have "?r = ?r'"
    proof (cases "find (\<lambda>j. \<not> bit w j) [0..<32]")
      case (Some j)
      then have "\<not> k * 32 + j < unat t"
        using find_upt_Some [OF Some] False [unfolded not_ex, rule_format, of "k * 32 + j"]
        by (simp add: free_in_def)
      with Some show ?thesis by (simp add: bits add.commute)
    qed (simp add: bits add.commute)
    with IH rest False show ?thesis by presburger
  next
    case True
    then obtain g where g: "?F [w] k g" by blast
    then have "g div 32 = k" by (intro div_nat_eqI) (simp_all add: free_in_def)
    with g have gk: "g = k * 32 + g mod 32" "\<not> bit w (g mod 32)"
      using div_mult_mod_eq [of g 32] by (simp_all add: free_in_def)
    then obtain j where j: "find (\<lambda>j. \<not> bit w j) [0..<32] = Some j"
      by (metis find_upt_None mod_less_divisor not_None_eq zero_le zero_less_numeral)
    note j' = find_upt_Some [OF j]
    have "j \<le> g mod 32" using j' gk(2) not_le by blast
    then have t: "k * 32 + j < unat t" using g gk(1) by (simp add: free_in_def)
    have "w \<noteq> 0xFFFFFFFF"
    proof
      assume "w = 0xFFFFFFFF"
      then have "w = mask 32" by (simp add: mask_eq_exp_minus_1)
      with j' show False by (auto simp: bit_mask_iff)
    qed
    with j t have r: "?r = of_nat (k * 32 + j)" by (simp add: bits mult.commute)
    have ur: "unat ?r = k * 32 + j"
      unfolding r using Cons.prems j' unat_of_nat [of "k * 32 + j", where ?'a = 32] by simp
    have "\<not> ?F (w # ws) k h" if "h < k * 32 + j" for h
    proof
      assume h: "?F (w # ws) k h"
      then have hk: "h div 32 = k" using that j' by (intro div_nat_eqI) (simp_all add: free_in_def)
      then have "h mod 32 < j" using that div_mult_mod_eq [of h 32] by linarith
      with hk h j' show False by (auto simp: free_in_def)
    qed
    moreover have "?F (w # ws) k (k * 32 + j)" using j' t by (simp add: free_in_def nth_Cons')
    ultimately show ?thesis using ur by simp
  qed
qed (simp add: UINT32_MAX_def free_in_def)

lemma first_free_correct:
  assumes "pmm_ok s"
  obtains r where "first_free s = Some r"
    "r = UINT32_MAX \<Longrightarrow> \<forall>f<unat (total_frames s). frame_used s f"
    "r \<noteq> UINT32_MAX \<Longrightarrow> unat r < unat (total_frames s) \<and> \<not> frame_used s (unat r) \<and> (\<forall>f<unat r. frame_used s f)"
proof -
  let ?r = "first_free_words (bitmap s) 0 (total_frames s)"
  let ?F = "\<lambda>g. g < length (bitmap s) * 32 \<and> g < unat (total_frames s) \<and> \<not> bit (bitmap s ! (g div 32)) (g mod 32)"
  have t: "unat (total_frames s) \<le> 1048576" using assms by (simp add: pmm_ok_def word_le_nat_alt)
  have len: "length (bitmap s) * 32 \<le> 2 ^ 32"
    using assms t by (simp add: pmm_ok_def unat_bitmap_words)
  have r: "first_free s = Some ?r" using assms by (simp add: first_free_def pmm_ok_def)
  have F: "?F g \<longleftrightarrow> g < unat (total_frames s) \<and> \<not> frame_used s g" for g
    using frame_in_bitmap [OF assms, of g] by (auto simp: frame_used_def)
  have "(?r = UINT32_MAX \<and> (\<forall>g. \<not> ?F g)) \<or> (?F (unat ?r) \<and> (\<forall>g<unat ?r. \<not> ?F g))"
    using first_free_words_spec [of 0 "bitmap s" "total_frames s"] len by (simp add: free_in_def)
  then have "(?r = UINT32_MAX \<and> (\<forall>f<unat (total_frames s). frame_used s f)) \<or>
    (unat ?r < unat (total_frames s) \<and> \<not> frame_used s (unat ?r) \<and> (\<forall>f<unat ?r. frame_used s f))"
    unfolding F by (meson less_trans)
  moreover have "unat ?r < unat (total_frames s) \<Longrightarrow> ?r \<noteq> UINT32_MAX"
    using t by (auto simp: UINT32_MAX_def)
  ultimately show ?thesis using that [OF r] by blast
qed


subsection \<open>Allocation and release\<close>

lemma allocate_frame_spec:
  assumes "pmm_ok s"
  shows "(allocate_frame s = Some (0, s) \<and> (\<forall>f<unat (total_frames s). frame_used s f)) \<or>
    (\<exists>f s'. allocate_frame s = Some (of_nat (f * 4096), s') \<and> f < unat (total_frames s) \<and>
       \<not> frame_used s f \<and> (\<forall>g<f. frame_used s g) \<and> pmm_ok s' \<and> total_frames s' = total_frames s \<and>
       used_frames s' = used_frames s + 1 \<and> (\<forall>g. frame_used s' g \<longleftrightarrow> g = f \<or> frame_used s g))"
proof -
  obtain r where r: "first_free s = Some r"
    "r = UINT32_MAX \<Longrightarrow> \<forall>f<unat (total_frames s). frame_used s f"
    "r \<noteq> UINT32_MAX \<Longrightarrow> unat r < unat (total_frames s) \<and> \<not> frame_used s (unat r) \<and> (\<forall>f<unat r. frame_used s f)"
    by (rule first_free_correct [OF assms]) blast
  show ?thesis
  proof (cases "r = UINT32_MAX")
    case True
    with r show ?thesis by (simp add: allocate_frame_def)
  next
    case False
    obtain s1 where s1: "set_frame s r = Some s1" "length (bitmap s1) = length (bitmap s)"
      "total_frames s1 = total_frames s" "used_frames s1 = used_frames s"
      "\<And>g. frame_used s1 g \<longleftrightarrow> g = unat r \<or> frame_used s g"
      using set_frame_used [of r s] frame_in_bitmap [OF assms] r(3) [OF False] by metis
    have "r * PAGE_SIZE = of_nat (unat r * 4096)" by (simp add: PAGE_SIZE_def)
    with False r s1(1) have "allocate_frame s = Some (of_nat (unat r * 4096), s1\<lparr>used_frames := used_frames s1 + 1\<rparr>)"
      by (simp add: allocate_frame_def)
    moreover have "pmm_ok (s1\<lparr>used_frames := used_frames s1 + 1\<rparr>)" using assms s1 by (simp add: pmm_ok_def)
    moreover have "frame_used (s1\<lparr>used_frames := used_frames s1 + 1\<rparr>) g \<longleftrightarrow> g = unat r \<or> frame_used s g" for g
      using s1(5) [of g] by (simp add: frame_used_def)
    ultimately show ?thesis using r(3) [OF False] s1 by (intro disjI2 exI [of _ "unat r"]) auto
  qed
qed

lemma pmm_frames_bound: "pmm_ok s \<Longrightarrow> unat (total_frames s) \<le> 1048576"
  by (simp add: pmm_ok_def word_le_nat_alt)

lemma frame_address:
  assumes "pmm_ok s" "f < unat (total_frames s)"
  shows "unat (of_nat (f * 4096) :: u32) = f * 4096"
  using assms(2) pmm_frames_bound [OF assms(1)] by (simp add: unat_frame)

lemma finite_used: "finite {f. frame_used s f}"
  by (rule finite_subset [of _ "{..< length (bitmap s) * 32}"]) (auto simp: frame_used_def)

lemma free_frame_spec:
  assumes "pmm_ok s" "unat a div 4096 < unat (total_frames s)"
  obtains s' where "free_frame s a = Some s'" "pmm_ok s'" "total_frames s' = total_frames s"
    "used_frames s' = used_frames s - 1"
    "\<And>g. frame_used s' g \<longleftrightarrow> g \<noteq> unat a div 4096 \<and> frame_used s g"
proof -
  have d: "unat (a div PAGE_SIZE) = unat a div 4096" by (simp add: PAGE_SIZE_def unat_div_distrib)
  obtain s1 where s1: "clear_frame s (a div PAGE_SIZE) = Some s1" "length (bitmap s1) = length (bitmap s)"
      "total_frames s1 = total_frames s" "used_frames s1 = used_frames s"
      "\<And>g. frame_used s1 g \<longleftrightarrow> g \<noteq> unat a div 4096 \<and> frame_used s g"
    using clear_frame_used [of "a div PAGE_SIZE" s] frame_in_bitmap [OF assms] unfolding d by metis
  have "pmm_ok (s1\<lparr>used_frames := used_frames s1 - 1\<rparr>)" using assms s1 by (simp add: pmm_ok_def)
  moreover have "frame_used (s1\<lparr>used_frames := used_frames s1 - 1\<rparr>) g \<longleftrightarrow> frame_used s1 g" for g
    by (simp add: frame_used_def)
  ultimately show ?thesis using that s1 by (simp add: free_frame_def)
qed

interpretation pmm_frames: frame_allocator pmm_ok frame_used "\<lambda>s. unat (total_frames s)" allocate_frame
proof unfold_locales
  fix s s' :: pmm and a :: addr
  assume s: "pmm_ok s"
  show "unat (total_frames s) \<le> 2 ^ 20" using pmm_frames_bound [OF s] by simp
  assume z: "frame_used s 0"
  show "\<exists>a s'. allocate_frame s = Some (a, s') \<and> pmm_ok s' \<and> unat (total_frames s') = unat (total_frames s)"
    using allocate_frame_spec [OF s] s by auto
  have pos: "of_nat (f * 4096) \<noteq> (0 :: u32)" if "f < unat (total_frames s)" "\<not> frame_used s f" for f
    using frame_address [OF s that(1)] that z by (cases f) auto
  assume a: "allocate_frame s = Some (a, s')"
  show "a \<noteq> 0 \<Longrightarrow> \<exists>f<unat (total_frames s). unat a = f * 4096 \<and> \<not> frame_used s f \<and>
      (\<forall>g. frame_used s' g \<longleftrightarrow> g = f \<or> frame_used s g)"
    using allocate_frame_spec [OF s] a frame_address [OF s] by auto
next
  fix s s' :: pmm
  assume s: "pmm_ok s" and z: "frame_used s 0" and a: "allocate_frame s = Some (0, s')"
  have "f = 0" if "f < unat (total_frames s)" "of_nat (f * 4096) = (0 :: u32)" for f
    using frame_address [OF s that(1)] unfolding that(2) by simp
  with z allocate_frame_spec [OF s] a
  show "s' = s \<and> (\<forall>f<unat (total_frames s). frame_used s f)" by force
qed

subsection \<open>Initialisation\<close>

lemma initialize_mark_spec:
  assumes "unat (next_free_physical s) \<le> 2 ^ 32 - 4096" "adr = of_nat (k * 4096)"
    "k \<le> (unat (next_free_physical s) + 4095) div 4096"
    "unat (next_free_physical s) \<le> length (bitmap s) * 32 * 4096"
  shows "\<exists>s'. initialize_mark s adr = Some s' \<and> length (bitmap s') = length (bitmap s) \<and>
     total_frames s' = total_frames s \<and> next_free_physical s' = next_free_physical s \<and>
     unat (used_frames s') = (unat (used_frames s) + ((unat (next_free_physical s) + 4095) div 4096 - k)) mod 2 ^ 32 \<and>
     (\<forall>f. frame_used s' f \<longleftrightarrow> frame_used s f \<or> k \<le> f \<and> f * 4096 < unat (next_free_physical s))"
  using assms
proof (induction "(unat (next_free_physical s) + 4095) div 4096 - k" arbitrary: s adr k)
  case 0
  then have "unat (next_free_physical s) \<le> k * 4096" by simp
  moreover have "unat (of_nat (k * 4096) :: u32) = k * 4096" using 0 by (simp add: unat_frame)
  ultimately show ?case using 0
    by (subst initialize_mark.simps) (auto simp: word_less_nat_alt)
next
  case (Suc n)
  let ?e = "unat (next_free_physical s)"
  have k: "k * 4096 < ?e" using Suc by linarith
  have a: "unat adr = k * 4096" using Suc.prems k by (simp add: unat_frame)
  have d: "unat (adr div PAGE_SIZE) = k" using a by (simp add: PAGE_SIZE_def unat_div_distrib)
  obtain s1 where s1: "set_frame s (adr div PAGE_SIZE) = Some s1" "length (bitmap s1) = length (bitmap s)"
      "total_frames s1 = total_frames s" "used_frames s1 = used_frames s"
      "next_free_physical s1 = next_free_physical s"
      "\<And>g. frame_used s1 g \<longleftrightarrow> g = k \<or> frame_used s g"
    using set_frame_used [of "adr div PAGE_SIZE" s] Suc.prems(4) k unfolding d
    by (metis less_mult_imp_div_less less_le_trans mult_less_cancel2)
  let ?s = "s1\<lparr>used_frames := used_frames s1 + 1\<rparr>"
  have fu: "frame_used ?s g \<longleftrightarrow> g = k \<or> frame_used s g" for g
    using s1(6) [of g] by (simp add: frame_used_def)
  have nxt: "adr + PAGE_SIZE = of_nat (Suc k * 4096)" using Suc by (simp add: PAGE_SIZE_def)
  have n: "n = (unat (next_free_physical ?s) + 4095) div 4096 - Suc k" using Suc.hyps(2) s1(5) by simp
  have "Suc k \<le> (unat (next_free_physical ?s) + 4095) div 4096" using k s1(5) by simp
  then obtain s' where s': "initialize_mark ?s (adr + PAGE_SIZE) = Some s'" "length (bitmap s') = length (bitmap s)"
     "total_frames s' = total_frames s" "next_free_physical s' = next_free_physical s"
     "unat (used_frames s') = (unat (used_frames ?s) + ((?e + 4095) div 4096 - Suc k)) mod 2 ^ 32"
     "\<And>f. frame_used s' f \<longleftrightarrow> frame_used ?s f \<or> Suc k \<le> f \<and> f * 4096 < ?e"
    using Suc.hyps(1) [OF n _ nxt] Suc.prems s1 by auto
  have "initialize_mark s adr = Some s'"
    using s1(1) s'(1) k a by (subst initialize_mark.simps) (simp add: word_less_nat_alt)
  moreover have "unat (used_frames s') = (unat (used_frames s) + ((?e + 4095) div 4096 - k)) mod 2 ^ 32"
  proof -
    have m: "(?e + 4095) div 4096 - k = Suc n" "(?e + 4095) div 4096 - Suc k = n"
      using Suc.hyps(2) n s1(5) by simp_all
    have "unat (used_frames ?s) = (unat (used_frames s) + 1) mod 2 ^ 32"
      using s1(4) by (simp add: unat_word_ariths)
    then show ?thesis
      unfolding s'(5) m using mod_add_left_eq [of "unat (used_frames s) + 1" "2 ^ 32" n] by simp
  qed
  moreover have "frame_used s' f \<longleftrightarrow> frame_used s f \<or> k \<le> f \<and> f * 4096 < ?e" for f
    unfolding s'(6) [of f] fu [of f] using k by (cases "f = k") auto
  ultimately show ?case using s'(2-4) by blast
qed


lemma frame_count: "{f. f * 4096 < e} = {..< (e + 4095) div 4096}" for e :: nat
  by (auto simp: less_eq_Suc_le)

lemma initialize_spec:
  fixes s :: pmm and mem_upper :: u32
  defines "e \<equiv> (unat (next_free_physical s) + 4095) div 4096 * 4096"
    and "n \<equiv> (unat mem_upper + 1024) div 4"
  assumes "unat mem_upper + 1024 < 2 ^ 22" "e + 4 * ((n + 31) div 32) \<le> n * 4096"
  obtains s' where "initialize s mem_upper = Some s'" "pmm_ok s'" "pmm_counted s'"
    "unat (total_frames s') = n" "unat (next_free_physical s') = e + 4 * ((n + 31) div 32)"
    "\<And>f. frame_used s' f \<longleftrightarrow> f * 4096 < e + 4 * ((n + 31) div 32)"
proof -
  let ?t = "(mem_upper + 1024) * 1024 div PAGE_SIZE"
  let ?e = "align_up (next_free_physical s) PAGE_SIZE + bitmap_words ?t * 4"
  let ?s = "s\<lparr>total_frames := ?t, used_frames := 0, bitmap := replicate (unat (bitmap_words ?t)) 0,
              next_free_physical := ?e\<rparr>"
  have mb: "unat ((mem_upper + 1024) * 1024) = (unat mem_upper + 1024) * 1024"
    using assms(3) by (simp add: unat_word_ariths)
  have t: "unat ?t = n" using mb by (simp add: PAGE_SIZE_def unat_div_distrib n_def)
  have nb: "n \<le> 1048575" using assms(3) by (simp add: n_def)
  have "unat (bitmap_words ?t) = (n + 31) div 32" by (simp only: unat_bitmap_words t)
  then have w: "unat (bitmap_words ?t * 4) = 4 * ((n + 31) div 32)"
    using nb unat_word_ariths(2) [of "bitmap_words ?t" 4] by simp
  have "unat (next_free_physical s) + 4095 < 2 ^ 32" using assms(4) nb by (simp add: e_def)
  then have "unat (align_up (next_free_physical s) PAGE_SIZE) = e"
    using unat_and_not_mask [of "next_free_physical s + 4095" 12]
    by (simp add: align_up_def PAGE_SIZE_def e_def mask_eq_exp_minus_1 unat_word_ariths)
  then have e: "unat ?e = e + 4 * ((n + 31) div 32)"
    using assms(4) nb w unat_plus_simple32 [of "align_up (next_free_physical s) PAGE_SIZE" "bitmap_words ?t * 4"] by simp
  have fu: "\<not> frame_used ?s f" for f by (simp add: frame_used_def)
  have "\<exists>s'. initialize_mark ?s 0 = Some s' \<and> length (bitmap s') = length (bitmap ?s) \<and>
     total_frames s' = total_frames ?s \<and> next_free_physical s' = next_free_physical ?s \<and>
     unat (used_frames s') = (unat (used_frames ?s) + ((unat (next_free_physical ?s) + 4095) div 4096 - 0)) mod 2 ^ 32 \<and>
     (\<forall>f. frame_used s' f \<longleftrightarrow> frame_used ?s f \<or> 0 \<le> f \<and> f * 4096 < unat (next_free_physical ?s))"
  proof (rule initialize_mark_spec)
    show "unat (next_free_physical ?s) \<le> 2 ^ 32 - 4096" using e assms(4) nb by simp
    show "unat (next_free_physical ?s) \<le> length (bitmap ?s) * 32 * 4096"
      using e assms(4) t by (simp add: unat_bitmap_words)
  qed simp_all
  then obtain s' where s': "initialize s mem_upper = Some s'" "length (bitmap s') = unat (bitmap_words ?t)"
     "total_frames s' = ?t" "next_free_physical s' = ?e"
     "unat (used_frames s') = (unat ?e + 4095) div 4096"
     "\<And>f. frame_used s' f \<longleftrightarrow> f * 4096 < unat ?e"
    using fu e nb assms(4) by (auto simp: initialize_def Let_def)
  moreover have "pmm_ok s'" using s' t nb by (simp add: pmm_ok_def word_le_nat_alt)
  moreover have "pmm_counted s'"
    using s' t e assms(4) frame_count [of "unat ?e"] by (auto simp: pmm_counted_def)
  ultimately show ?thesis using that e t by simp
qed

subsection \<open>The counter of frames in use\<close>

lemma counted_le: "pmm_counted s \<Longrightarrow> card {f. frame_used s f} \<le> unat (total_frames s)"
  using card_mono [of "{..< unat (total_frames s)}" "{f. frame_used s f}"] by (auto simp: pmm_counted_def)

lemma counted_free_frames:
  assumes "pmm_counted s"
  shows "unat (get_free_frames s) = card {f. f < unat (total_frames s) \<and> \<not> frame_used s f}"
proof -
  have "{f. frame_used s f} \<subseteq> {..< unat (total_frames s)}" using assms by (auto simp: pmm_counted_def)
  moreover have "{f. f < unat (total_frames s) \<and> \<not> frame_used s f} = {..< unat (total_frames s)} - {f. frame_used s f}"
    by auto
  ultimately have "card {f. f < unat (total_frames s) \<and> \<not> frame_used s f} = unat (total_frames s) - card {f. frame_used s f}"
    by (simp add: card_Diff_subset finite_used)
  with counted_le [OF assms] assms show ?thesis
    by (simp add: get_free_frames_def pmm_counted_def unat_sub word_le_nat_alt)
qed

lemma counted_insert:
  assumes "pmm_counted s" "pmm_ok s" "\<not> frame_used s g" "g < unat (total_frames s)"
    "\<forall>f. frame_used s' f \<longleftrightarrow> f = g \<or> frame_used s f"
    "used_frames s' = used_frames s + 1" "total_frames s' = total_frames s"
  shows "pmm_counted s'"
proof -
  have "{f. frame_used s' f} = insert g {f. frame_used s f}" using assms(5) by auto
  then have "card {f. frame_used s' f} = card {f. frame_used s f} + 1"
    using assms(3) finite_used [of s] by simp
  moreover have "unat (used_frames s + 1) = unat (used_frames s) + 1"
    using counted_le [OF assms(1)] pmm_frames_bound [OF assms(2)] assms(1)
    by (simp add: unat_word_ariths pmm_counted_def)
  ultimately show ?thesis using assms by (auto simp: pmm_counted_def)
qed

lemma counted_remove:
  assumes "pmm_counted s" "frame_used s g"
    "\<And>f. frame_used s' f \<longleftrightarrow> f \<noteq> g \<and> frame_used s f"
    "used_frames s' = used_frames s - 1" "total_frames s' = total_frames s"
  shows "pmm_counted s'"
proof -
  have "{f. frame_used s' f} = {f. frame_used s f} - {g}" using assms(3) by auto
  then have "card {f. frame_used s' f} = card {f. frame_used s f} - 1"
    using assms(2) finite_used [of s] by simp
  moreover have "0 < card {f. frame_used s f}" using assms(2) finite_used [of s] card_gt_0_iff by blast
  then have "unat (used_frames s - 1) = card {f. frame_used s f} - 1"
    using assms(1) by (subst unat_sub) (auto simp: pmm_counted_def word_le_nat_alt)
  ultimately show ?thesis using assms by (auto simp: pmm_counted_def)
qed

subsection \<open>Properties\<close>

text \<open>C6. On a well-formed frame bitmap whose frame 0 is in use, \<open>allocate_frame\<close> always returns. It
  returns \<open>nullptr\<close> exactly when every frame of the memory is in use, and then changes nothing; otherwise it
  returns the address of the lowest free frame, marks that frame and no other, and the bitmap stays well formed.\<close>

theorem allocate_frame_correct:
  assumes "pmm_ok s" "frame_used s 0"
  shows "if \<forall>f<unat (total_frames s). frame_used s f then allocate_frame s = Some (0, s)
    else \<exists>f s'. allocate_frame s = Some (of_nat (f * 4096), s') \<and> unat (of_nat (f * 4096) :: addr) = f * 4096 \<and>
      0 < f \<and> f < unat (total_frames s) \<and> \<not> frame_used s f \<and> (\<forall>g<f. frame_used s g) \<and> pmm_ok s' \<and>
      (\<forall>g. frame_used s' g \<longleftrightarrow> g = f \<or> frame_used s g)"
  using allocate_frame_spec [OF assms(1)] frame_address [OF assms(1)] assms(2)
  by (auto intro!: gr0I)

text \<open>The counter \<open>used_frames\<close> always counts the frames marked in the bitmap: it does so after
  an allocation, and after the release of a frame that was in use; so \<open>get_free_frames\<close> is the number of free
  frames.\<close>

theorem frame_counter_correct:
  assumes "pmm_ok s" "pmm_counted s"
  shows "(\<forall>a s'. allocate_frame s = Some (a, s') \<longrightarrow> pmm_counted s') \<and>
    (\<forall>a s'. frame_used s (unat a div 4096) \<and> free_frame s a = Some s' \<longrightarrow> pmm_counted s') \<and>
    unat (get_free_frames s) = card {f. f < unat (total_frames s) \<and> \<not> frame_used s f}"
proof (intro conjI allI impI)
  show "unat (get_free_frames s) = card {f. f < unat (total_frames s) \<and> \<not> frame_used s f}"
    by (rule counted_free_frames [OF assms(2)])
  show "pmm_counted s'" if "allocate_frame s = Some (a, s')" for a s'
    using allocate_frame_spec [OF assms(1)] that assms(2) counted_insert [OF assms(2,1)] by auto
  show "pmm_counted s'" if a: "frame_used s (unat a div 4096) \<and> free_frame s a = Some s'" for a s'
  proof -
    have "unat a div 4096 < unat (total_frames s)" using a assms(2) by (simp add: pmm_counted_def)
    then obtain t where "free_frame s a = Some t" "total_frames t = total_frames s" "used_frames t = used_frames s - 1"
        "\<And>g. frame_used t g \<longleftrightarrow> g \<noteq> unat a div 4096 \<and> frame_used s g"
      using free_frame_spec [OF assms(1)] by metis
    with a counted_remove [OF assms(2), of "unat a div 4096" t] show ?thesis by simp
  qed
qed

text \<open>On a memory below 4 GiB that has room for the kernel and the bitmap, \<open>initialize\<close> ends with a
  well-formed bitmap for all of the memory, in which exactly the frames from address 0 to the end of the bitmap,
  rounded up to a frame, are in use, and the counter agrees with it.\<close>

theorem initialize_correct:
  fixes s :: pmm and mem_upper :: u32
  defines "e \<equiv> (unat (next_free_physical s) + 4095) div 4096 * 4096"
    and "n \<equiv> (unat mem_upper + 1024) div 4"
  assumes "unat mem_upper + 1024 < 2 ^ 22" "e + 4 * ((n + 31) div 32) \<le> n * 4096"
  shows "\<exists>s'. initialize s mem_upper = Some s' \<and> pmm_ok s' \<and> pmm_counted s' \<and> unat (total_frames s') = n \<and>
    (\<forall>f. frame_used s' f \<longleftrightarrow> f * 4096 < e + 4 * ((n + 31) div 32))"
  using initialize_spec [of mem_upper s] assms by metis

theorem initialize_correct_witness:
  "\<exists>s'. initialize \<lparr>bitmap = [], total_frames = 0, used_frames = 0, next_free_physical = 0x120123\<rparr> 0x1FC00 = Some s' \<and>
     pmm_ok s' \<and> pmm_counted s' \<and> unat (total_frames s') = 32768 \<and> (\<forall>f. frame_used s' f \<longleftrightarrow> f < 290)"
proof -
  have "f * 4096 < 1187840 \<longleftrightarrow> f < 290" for f :: nat by simp
  then show ?thesis
    using initialize_correct [of "0x1FC00" "\<lparr>bitmap = [], total_frames = 0, used_frames = 0, next_free_physical = 0x120123\<rparr>"]
    by simp
qed

text \<open>\<open>free_frame\<close> of any address in the memory clears the frame that holds it and no other. When
  that frame was free already the counter is decremented all the same, so it no longer counts the frames in use:
  releasing a frame twice makes \<open>get_free_frames\<close> too large.\<close>

theorem free_frame_correct:
  assumes "pmm_ok s" "unat a div 4096 < unat (total_frames s)"
  shows "\<exists>s'. free_frame s a = Some s' \<and> pmm_ok s' \<and>
    (\<forall>g. frame_used s' g \<longleftrightarrow> g \<noteq> unat a div 4096 \<and> frame_used s g) \<and>
    (pmm_counted s \<longrightarrow> (pmm_counted s' \<longleftrightarrow> frame_used s (unat a div 4096)))"
proof -
  obtain s' where s': "free_frame s a = Some s'" "pmm_ok s'" "total_frames s' = total_frames s"
    "used_frames s' = used_frames s - 1" "\<And>g. frame_used s' g \<longleftrightarrow> g \<noteq> unat a div 4096 \<and> frame_used s g"
    by (rule free_frame_spec [OF assms]) blast
  have "\<not> pmm_counted s'" if "\<not> frame_used s (unat a div 4096)" "pmm_counted s"
  proof -
    have "frame_used s' g \<longleftrightarrow> frame_used s g" for g using s'(5) [of g] that(1) by auto
    moreover have "unat (used_frames s - 1) \<noteq> unat (used_frames s)" by (simp flip: word_unat_eq_iff)
    ultimately show ?thesis using that(2) s'(4) by (simp add: pmm_counted_def)
  qed
  with s' counted_remove [of s "unat a div 4096" s'] show ?thesis by blast
qed

lemma small_pmm:
  defines "s \<equiv> \<lparr>bitmap = [0x7], total_frames = 5, used_frames = 3, next_free_physical = 0x3000\<rparr>"
  shows "pmm_ok s" "frame_used s f \<longleftrightarrow> f < 3" "pmm_counted s"
proof -
  show "pmm_ok s" by (simp add: s_def pmm_ok_def unat_bitmap_words)
  have b: "bit (7 :: u32) k \<longleftrightarrow> k < 3" if "k < 32" for k
    using bit_mask_iff [of 3 k, where ?'a = "32 word"] that by (simp add: mask_eq_exp_minus_1)
  have f: "frame_used s f \<longleftrightarrow> f < 3" for f
    using b [of f] by (auto simp: s_def frame_used_def)
  then show "frame_used s f \<longleftrightarrow> f < 3" .
  have "{f. frame_used s f} = {..<3}" using f by auto
  then show "pmm_counted s" using f by (auto simp: pmm_counted_def s_def)
qed

theorem allocate_frame_correct_witness:
  "\<exists>f s'. allocate_frame \<lparr>bitmap = [0x7], total_frames = 5, used_frames = 3, next_free_physical = 0x3000\<rparr> =
     Some (of_nat (f * 4096), s') \<and> f = 3"
proof -
  let ?s = "\<lparr>bitmap = [0x7], total_frames = 5, used_frames = 3, next_free_physical = 0x3000\<rparr>"
  have "\<not> (\<forall>f<unat (total_frames ?s). frame_used ?s f)" by (auto simp: small_pmm(2) intro: exI [of _ 3])
  moreover have "frame_used ?s 0" by (simp add: small_pmm(2))
  note allocate_frame_correct [OF small_pmm(1) this]
  ultimately obtain f s' where "allocate_frame ?s = Some (of_nat (f * 4096), s')"
    "\<not> frame_used ?s f" "\<forall>g<f. frame_used ?s g" by metis
  then show ?thesis unfolding small_pmm(2) by (intro exI [of _ f] exI [of _ s']) (auto intro!: le_antisym simp: not_less)
qed

theorem frame_counter_correct_witness:
  "unat (get_free_frames \<lparr>bitmap = [0x7], total_frames = 5, used_frames = 3, next_free_physical = 0x3000\<rparr>) =
     card {f. f < 5 \<and> \<not> f < (3 :: nat)}"
  using frame_counter_correct [OF small_pmm(1,3)] small_pmm(2) by simp

theorem free_frame_correct_witness:
  "\<exists>s'. free_frame \<lparr>bitmap = [0x7], total_frames = 5, used_frames = 3, next_free_physical = 0x3000\<rparr> 0x2ABC = Some s' \<and>
     pmm_counted s' \<and> (\<forall>g. frame_used s' g \<longleftrightarrow> g \<noteq> 2 \<and> g < 3)"
  using free_frame_correct [OF small_pmm(1), of "0x2ABC"] small_pmm(2,3) by auto

end
