(* ===== verification/Paging.thy ===== *)
theory Paging
  imports Libc_String Pmm
begin

text \<open>
  Paging, \<^verbatim>\<open>src/kernel/paging.cpp\<close>: the two-level page tables of the kernel, built in frames of the physical
  memory manager. The directory and the tables are arrays of 32-bit entries in the byte memory; the code reads
  and writes them through their physical addresses, which the identity map of the first 32 MiB keeps valid after
  paging is switched on. The frame bitmap lies in frames that are never handed out and has its own model in
  \<open>Pmm\<close>. Flushing one entry of the translation cache (\<open>invlpg\<close>) has no effect on these tables.

  \<open>walk\<close> is the translation the processor performs on the tables; the theorems relate \<open>vmm_init\<close>, \<open>vmm_map\<close>
  and \<open>vmm_map_range\<close> to it.
\<close>

subsection \<open>State and operations\<close>

definition IDENTITY_MAP_SIZE_MB :: nat where "IDENTITY_MAP_SIZE_MB = 32"

definition IDENTITY_TABLES :: nat where "IDENTITY_TABLES = IDENTITY_MAP_SIZE_MB div 4"

record vmm =
  pmem :: mem
  frames :: pmm
  kernel_page_directory :: addr
  kernel_page_tables :: "addr list"
  cr0 :: u32
  cr3 :: u32

text \<open>The entry with index \<open>i\<close> of an array of 32-bit words at address \<open>b\<close>.\<close>

definition entry :: "addr \<Rightarrow> u32 \<Rightarrow> addr" where
  "entry b i = b + 4 * i"

definition page_fault_handler :: "u32 \<Rightarrow> string list" where
  "page_fault_handler err_code =
     [''Page fault caused by '' @ (if err_code AND 1 \<noteq> 0 then ''write'' else ''read'') @ '' access'',
      ''Page fault '' @ (if err_code AND 2 \<noteq> 0 then ''protection'' else ''non-present''),
      ''Page fault in '' @ (if err_code AND 4 \<noteq> 0 then ''user'' else ''supervisor'') @ '' mode'',
      ''Page fault caused by '' @ (if err_code AND 8 \<noteq> 0 then ''instruction fetch'' else ''data access'') @ '' operation'']"

definition vmm_init_entry :: "addr \<Rightarrow> nat \<Rightarrow> nat \<Rightarrow> mem \<Rightarrow> mem" where
  "vmm_init_entry tbl table_idx i m =
     (let phys_addr = of_nat (table_idx * 0x400000) + of_nat i * 0x1000
      in wr32 m (entry tbl (of_nat i)) ((phys_addr AND 0xFFFFF000) OR 0x03))"

definition vmm_init_table :: "nat \<Rightarrow> vmm \<Rightarrow> vmm option" where
  "vmm_init_table table_idx s = do {
     (tbl, p) \<leftarrow> allocate_frame (frames s);
     let m = memset (pmem s) tbl 0 PAGE_SIZE;
     let m = fold (vmm_init_entry tbl table_idx) [0..<1024] m;
     let m = wr32 m (entry (kernel_page_directory s) (of_nat table_idx)) ((tbl AND 0xFFFFF000) OR 0x03);
     Some (s\<lparr>pmem := m, frames := p, kernel_page_tables := (kernel_page_tables s)[table_idx := tbl]\<rparr>) }"

fun vmm_init_tables :: "nat list \<Rightarrow> vmm \<Rightarrow> vmm option" where
  "vmm_init_tables [] s = Some s"
| "vmm_init_tables (i # js) s = do { s \<leftarrow> vmm_init_table i s; vmm_init_tables js s }"

definition vmm_init :: "vmm \<Rightarrow> vmm option" where
  "vmm_init s = do {
     (dir, p) \<leftarrow> allocate_frame (frames s);
     vmm_init_tables [0..<IDENTITY_TABLES]
       (s\<lparr>pmem := memset (pmem s) dir 0 PAGE_SIZE, frames := p, kernel_page_directory := dir\<rparr>) }"

definition vmm_enable :: "vmm \<Rightarrow> vmm" where
  "vmm_enable s =
     (let s = s\<lparr>cr3 := kernel_page_directory s\<rparr>
      in s\<lparr>cr0 := (cr0 s OR 0x80000000) OR 0x00000001\<rparr>)"

definition vmm_map_entry :: "vmm \<Rightarrow> u32 \<Rightarrow> u32 \<Rightarrow> addr \<Rightarrow> int \<Rightarrow> vmm" where
  "vmm_map_entry s pde_val pt_index physical_addr rw =
     (let pt_phys_base = pde_val AND 0xFFFFF000;
          flags = (if rw \<noteq> 0 then 0x3 else 0x1)
      in s\<lparr>pmem := wr32 (pmem s) (entry pt_phys_base pt_index) ((physical_addr AND 0xFFFFF000) OR flags)\<rparr>)"

definition vmm_map :: "vmm \<Rightarrow> addr \<Rightarrow> addr \<Rightarrow> int \<Rightarrow> vmm option" where
  "vmm_map s virtual_addr physical_addr rw =
     (let pd_index = drop_bit 22 virtual_addr AND 0x3FF;
          pt_index = drop_bit 12 virtual_addr AND 0x3FF;
          dir = kernel_page_directory s;
          pde_val = rd32 (pmem s) (entry dir pd_index)
      in if pde_val AND 1 = 0
         then do {
           (new_table, p) \<leftarrow> allocate_frame (frames s);
           if new_table = 0 then Some (s\<lparr>frames := p\<rparr>)
           else do {
             let m = memset (pmem s) new_table 0 PAGE_SIZE;
             let m = wr32 m (entry dir pd_index) ((new_table AND 0xFFFFF000) OR 0x03);
             Some (vmm_map_entry (s\<lparr>pmem := m, frames := p\<rparr>) (rd32 m (entry dir pd_index)) pt_index physical_addr rw) } }
         else Some (vmm_map_entry s pde_val pt_index physical_addr rw))"

fun vmm_map_pages :: "nat list \<Rightarrow> vmm \<Rightarrow> addr \<Rightarrow> addr \<Rightarrow> int \<Rightarrow> vmm option" where
  "vmm_map_pages [] s aligned_virtual aligned_physical rw = Some s"
| "vmm_map_pages (page # ps) s aligned_virtual aligned_physical rw = do {
     s \<leftarrow> vmm_map s (aligned_virtual + of_nat page * PAGE_SIZE) (aligned_physical + of_nat page * PAGE_SIZE) rw;
     vmm_map_pages ps s aligned_virtual aligned_physical rw }"

definition vmm_map_range :: "vmm \<Rightarrow> addr \<Rightarrow> addr \<Rightarrow> u32 \<Rightarrow> int \<Rightarrow> vmm option" where
  "vmm_map_range s virtual_addr physical_addr siz rw =
     (if siz = 0 then Some s
      else let page_mask = PAGE_SIZE - 1;
               virt_offset = virtual_addr AND page_mask;
               phys_offset = physical_addr AND page_mask
           in if virt_offset \<noteq> phys_offset then Some s
              else let aligned_virtual = virtual_addr AND NOT page_mask;
                       aligned_physical = physical_addr AND NOT page_mask;
                       total_size = siz + virt_offset;
                       page_count = (total_size + PAGE_SIZE - 1) div PAGE_SIZE
                   in vmm_map_pages [0..<unat page_count] s aligned_virtual aligned_physical rw)"

subsection \<open>The translation of the processor\<close>

definition pde :: "vmm \<Rightarrow> nat \<Rightarrow> u32" where
  "pde s i = rd32 (pmem s) (entry (kernel_page_directory s) (of_nat i))"

definition table_of :: "u32 \<Rightarrow> addr" where
  "table_of e = e AND NOT (mask 12)"

definition pte :: "vmm \<Rightarrow> nat \<Rightarrow> nat \<Rightarrow> u32" where
  "pte s i j = rd32 (pmem s) (entry (table_of (pde s i)) (of_nat j))"

text \<open>Translation of page number \<open>n\<close>: the frame address and whether the page is writable.\<close>

definition walk :: "vmm \<Rightarrow> nat \<Rightarrow> (addr \<times> bool) option" where
  "walk s n =
     (let d = pde s (n div 1024); t = pte s (n div 1024) (n mod 1024)
      in if bit d 0 \<and> bit t 0 then Some (table_of t, bit d 1 \<and> bit t 1) else None)"

definition frame_no :: "addr \<Rightarrow> nat" where
  "frame_no a = unat a div 4096"

definition aligned :: "addr \<Rightarrow> bool" where
  "aligned a \<longleftrightarrow> unat a mod 4096 = 0"

text \<open>The directory and the tables it names are different frames, all in use, and directory entries allow writing.\<close>

definition vmm_inv :: "vmm \<Rightarrow> bool" where
  "vmm_inv s \<longleftrightarrow> pmm_ok (frames s) \<and> frame_used (frames s) 0 \<and>
     aligned (kernel_page_directory s) \<and> frame_used (frames s) (frame_no (kernel_page_directory s)) \<and>
     (\<forall>i<1024. bit (pde s i) 0 \<longrightarrow> bit (pde s i) 1 \<and> frame_used (frames s) (frame_no (table_of (pde s i))) \<and>
        table_of (pde s i) \<noteq> kernel_page_directory s \<and>
        (\<forall>j<1024. bit (pde s j) 0 \<and> table_of (pde s j) = table_of (pde s i) \<longrightarrow> j = i))"


text \<open>A frame that holds the directory or one of its tables.\<close>

definition paging_frame :: "vmm \<Rightarrow> nat \<Rightarrow> bool" where
  "paging_frame s f \<longleftrightarrow> f = frame_no (kernel_page_directory s) \<or>
     (\<exists>i<1024. bit (pde s i) 0 \<and> f = frame_no (table_of (pde s i)))"

subsection \<open>Entries of page-aligned arrays\<close>

lemma aligned_bound: "aligned b \<Longrightarrow> unat b \<le> 4294963200"
  using unat_u32_bound [of b] by (auto simp: aligned_def simp del: unat_u32_bound elim!: dvdE)

lemma unat_entry: "aligned b \<Longrightarrow> i < 1024 \<Longrightarrow> unat (entry b (of_nat i)) = unat b + 4 * i"
  unfolding entry_def using aligned_bound [of b] unat_plus_of_nat [of b "4 * i"] by simp

lemma in_entry:
  assumes "aligned b" "i < 1024" "x \<in> region (entry b (of_nat i)) 4"
  shows "frame_no x = frame_no b" "(unat x - unat b) div 4 = i" "unat b \<le> unat x"
proof -
  have x: "unat b + 4 * i \<le> unat x" "unat x < unat b + 4 * i + 4"
    using assms(3) unat_entry [OF assms(1,2)] by (simp_all add: region_def)
  then show "unat b \<le> unat x" by linarith
  from x show "(unat x - unat b) div 4 = i" by (intro div_nat_eqI) auto
  obtain q where q: "unat b = 4096 * q" using assms(1) unfolding aligned_def by (auto elim!: dvdE)
  then have "unat x div 4096 = q" using x assms(2) by (intro div_nat_eqI) auto
  with q show "frame_no x = frame_no b" by (simp add: frame_no_def)
qed

lemma aligned_eq: "aligned a \<Longrightarrow> aligned b \<Longrightarrow> frame_no a = frame_no b \<Longrightarrow> a = b"
  unfolding aligned_def frame_no_def word_unat_eq_iff by (metis div_mult_mod_eq)

lemma wr32_entry_other:
  assumes "aligned b" "i < 1024" "frame_no x \<noteq> frame_no b"
  shows "wr32 m (entry b (of_nat i)) v x = m x"
  using in_entry(1) [OF assms(1,2)] assms aligned_bound [OF assms(1)]
  by (intro wr32_other) (auto simp: unat_entry)

lemma rd32_wr32_entry:
  assumes "aligned b" "i < 1024" "aligned c" "j < 1024"
  shows "rd32 (wr32 m (entry b (of_nat i)) v) (entry c (of_nat j)) =
    (if c = b \<and> j = i then v else rd32 m (entry c (of_nat j)))"
proof (cases "c = b \<and> j = i")
  case False
  have "wr32 m (entry b (of_nat i)) v x = m x" if x: "x \<in> region (entry c (of_nat j)) 4" for x
  proof (rule wr32_other)
    show "unat (entry b (of_nat i)) + 4 \<le> 2 ^ 32" using assms aligned_bound [of b] by (simp add: unat_entry)
    show "x \<notin> region (entry b (of_nat i)) 4"
      using in_entry [OF assms(3,4) x] in_entry [OF assms(1,2), of x] aligned_eq [OF assms(3,1)] False by auto
  qed
  then have "rd32 (wr32 m (entry b (of_nat i)) v) (entry c (of_nat j)) = rd32 m (entry c (of_nat j))"
    using assms aligned_bound [of c] by (intro rd32_cong) (simp_all add: unat_entry)
  with False show ?thesis by auto
qed (simp add: rd32_wr32_same)

lemma memset_page: "aligned b \<Longrightarrow> memset m b v PAGE_SIZE x = (if frame_no x = frame_no b then ucast v else m x)"
proof -
  assume b: "aligned b"
  then obtain q where q: "unat b = 4096 * q" unfolding aligned_def by (auto elim!: dvdE)
  have "x \<in> region b 4096 \<longleftrightarrow> frame_no x = frame_no b"
    unfolding region_def frame_no_def q by (auto simp: div_nat_eqI)
  then show ?thesis
    using memset_fill [of b 4096 "ucast v" m x] aligned_bound [OF b] by (simp add: memset_def PAGE_SIZE_def)
qed

lemma rd32_zero: "(\<And>x. x \<in> region a 4 \<Longrightarrow> m x = 0) \<Longrightarrow> unat a + 4 \<le> 2 ^ 32 \<Longrightarrow> rd32 m a = 0"
  using rd32_cong [of a m "\<lambda>_. 0"] by (simp add: rd32_def)

lemma rd32_memset_page:
  assumes "aligned b" "aligned c" "j < 1024"
  shows "rd32 (memset m b 0 PAGE_SIZE) (entry c (of_nat j)) = (if c = b then 0 else rd32 m (entry c (of_nat j)))"
proof (cases "c = b")
  case True
  then show ?thesis using assms aligned_bound [of b] in_entry(1) [OF assms(2,3)]
    by (auto simp: memset_page unat_entry intro!: rd32_zero)
next
  case False
  then show ?thesis using assms aligned_bound [of c] in_entry(1) [OF assms(2,3)] aligned_eq [OF assms(2,1)]
    by (auto simp: memset_page unat_entry intro!: rd32_cong)
qed

lemmas entry_simps = rd32_wr32_entry rd32_memset_page

subsection \<open>Values of entries\<close>

lemma page_masks: "(0xFFFFF000 :: u32) = NOT (mask 12)" "(0x3FF :: u32) = mask 10" "(0xFFF :: u32) = mask 12"
    "(3 :: u32) = mask 2"
  by (simp_all add: mask_eq_exp_minus_1)

lemma table_of_aligned [simp]: "aligned (table_of e)"
  using unat_and_not_mask [of e 12] by (simp add: aligned_def table_of_def)

lemma table_of_id: "aligned a \<Longrightarrow> table_of a = a"
  using unat_and_not_mask [of a 12] div_mult_mod_eq [of "unat a" 4096]
  unfolding aligned_def table_of_def word_unat_eq_iff by simp

lemma entry_value:
  fixes a :: u32
  shows "table_of ((a AND 0xFFFFF000) OR 3) = table_of a" "bit ((a AND 0xFFFFF000) OR 3) 0" "bit ((a AND 0xFFFFF000) OR 3) 1"
    "table_of ((a AND 0xFFFFF000) OR 1) = table_of a" "bit ((a AND 0xFFFFF000) OR 1) 0" "\<not> bit ((a AND 0xFFFFF000) OR 1) 1"
  unfolding table_of_def page_masks
  by (auto simp: bit_simps intro!: bit_word_eqI)

lemma pd_index: "drop_bit 22 v AND 0x3FF = (of_nat (frame_no v div 1024) :: u32)" 
  and pt_index: "drop_bit 12 v AND 0x3FF = (of_nat (frame_no v mod 1024) :: u32)"
proof -
  have "unat v div 4194304 < 1024" using unat_u32_bound [of v] by linarith
  then have "unat (drop_bit 22 v AND 0x3FF) = frame_no v div 1024"
    unfolding page_masks unat_and_mask
    by (simp add: drop_bit_eq_div unat_div_distrib frame_no_def flip: div_mult2_eq)
  then show "drop_bit 22 v AND 0x3FF = (of_nat (frame_no v div 1024) :: u32)" by (metis of_nat_unat ucast_id)
  have "unat (drop_bit 12 v AND 0x3FF) = frame_no v mod 1024"
    unfolding page_masks unat_and_mask by (simp add: drop_bit_eq_div unat_div_distrib frame_no_def)
  then show "drop_bit 12 v AND 0x3FF = (of_nat (frame_no v mod 1024) :: u32)" by (metis of_nat_unat ucast_id)
qed


subsection \<open>Mapping one page\<close>

lemma inv_dir: "vmm_inv s \<Longrightarrow> aligned (kernel_page_directory s)"
  by (simp add: vmm_inv_def)

lemma inv_table:
  assumes "vmm_inv s" "i < 1024" "bit (pde s i) 0"
  shows "bit (pde s i) 1" "frame_used (frames s) (frame_no (table_of (pde s i)))"
    "table_of (pde s i) \<noteq> kernel_page_directory s"
    "\<And>j. j < 1024 \<Longrightarrow> bit (pde s j) 0 \<Longrightarrow> table_of (pde s j) = table_of (pde s i) \<Longrightarrow> j = i"
  using assms unfolding vmm_inv_def by blast+

lemma vmm_inv_cong:
  assumes "vmm_inv s" "kernel_page_directory s' = kernel_page_directory s" "frames s' = frames s"
    "\<And>i. i < 1024 \<Longrightarrow> pde s' i = pde s i"
  shows "vmm_inv s'"
  using assms unfolding vmm_inv_def by auto

lemma set_pte:
  fixes v :: u32
  assumes inv: "vmm_inv s" and i: "i < 1024" "bit (pde s i) 0" and j: "j < 1024"
  defines "s' \<equiv> s\<lparr>pmem := wr32 (pmem s) (entry (table_of (pde s i)) (of_nat j)) v\<rparr>"
  shows "vmm_inv s'" "\<And>k. k < 1024 \<Longrightarrow> pde s' k = pde s k"
    "\<And>k l. k < 1024 \<Longrightarrow> l < 1024 \<Longrightarrow> bit (pde s k) 0 \<Longrightarrow> pte s' k l = (if k = i \<and> l = j then v else pte s k l)"
    "\<And>x. frame_no x \<noteq> frame_no (table_of (pde s i)) \<Longrightarrow> pmem s' x = pmem s x"
proof -
  show pde: "pde s' k = pde s k" if "k < 1024" for k
    using that j inv_dir [OF inv] inv_table(3) [OF inv i] by (auto simp: pde_def s'_def rd32_wr32_entry)
  show "pte s' k l = (if k = i \<and> l = j then v else pte s k l)" if "k < 1024" "l < 1024" "bit (pde s k) 0" for k l
    using that j inv_table(4) [OF inv i, of k] pde [OF that(1)] by (auto simp: pte_def s'_def rd32_wr32_entry)
  have "kernel_page_directory s' = kernel_page_directory s" "frames s' = frames s" by (simp_all add: s'_def)
  then show "vmm_inv s'" using pde by (rule vmm_inv_cong [OF inv])
  show "pmem s' x = pmem s x" if "frame_no x \<noteq> frame_no (table_of (pde s i))" for x
    using wr32_entry_other [OF _ j that] by (simp add: s'_def)
qed

lemma walk_set_pte:
  assumes inv: "vmm_inv s" and i: "n < 1048576" "bit (pde s (n div 1024)) 0"
    and v: "v = (if rw \<noteq> 0 then (p AND 0xFFFFF000) OR 3 else (p AND 0xFFFFF000) OR 1)"
  defines "s' \<equiv> s\<lparr>pmem := wr32 (pmem s) (entry (table_of (pde s (n div 1024))) (of_nat (n mod 1024))) v\<rparr>"
  shows "\<forall>k<1048576. walk s' k = (if k = n then Some (table_of p, rw \<noteq> (0 :: int)) else walk s k)"
proof (intro allI impI)
  fix k :: nat assume k: "k < 1048576"
  have n: "n div 1024 < 1024" "k div 1024 < 1024" using i k by simp_all
  note set = set_pte [OF inv n(1) i(2), where j = "n mod 1024" and v = v, folded s'_def]
  have "k = n \<longleftrightarrow> k div 1024 = n div 1024 \<and> k mod 1024 = n mod 1024" by (metis div_mult_mod_eq)
  then show "walk s' k = (if k = n then Some (table_of p, rw \<noteq> 0) else walk s k)"
    using set(2) [OF _ n(2)] set(3) [OF _ n(2), of "k mod 1024"] i(2) inv_table(1) [OF inv n(1) i(2)] entry_value [of p]
    by (cases "bit (pde s (k div 1024)) 0") (auto simp: walk_def v Let_def)
qed

lemma new_table:
  fixes s :: vmm
  assumes inv: "vmm_inv s" and i: "i < 1024" "\<not> bit (pde s i) 0"
    and al: "allocate_frame (frames s) = Some (t, p)" "t \<noteq> 0"
    and m: "\<And>x. frame_no x \<noteq> frame_no t \<Longrightarrow> m x = pmem s x"
  defines "s' \<equiv> s\<lparr>pmem := wr32 m (entry (kernel_page_directory s) (of_nat i))
     ((t AND 0xFFFFF000) OR 0x03), frames := p\<rparr>"
  shows "vmm_inv s'" "bit (pde s' i) 0" "\<forall>k<1048576. walk s' k =
      (if k div 1024 = i then let e = rd32 m (entry t (of_nat (k mod 1024)))
         in if bit e 0 then Some (table_of e, bit e 1) else None
       else walk s k)"
    "\<forall>f. frame_used (frames s) f \<longrightarrow> frame_used p f \<and> f \<noteq> frame_no t"
    "\<forall>x. frame_used (frames s) (frame_no x) \<and> frame_no x \<noteq> frame_no (kernel_page_directory s) \<longrightarrow> pmem s' x = pmem s x"
    "table_of (pde s' i) = t" "\<And>k. k < 1024 \<Longrightarrow> k \<noteq> i \<Longrightarrow> pde s' k = pde s k"
proof -
  let ?d = "kernel_page_directory s"
  have ok: "pmm_ok (frames s)" "frame_used (frames s) 0" using inv by (simp_all add: vmm_inv_def)
  obtain f where f: "unat t = f * 4096" "\<not> frame_used (frames s) f"
    "\<forall>g. frame_used p g \<longleftrightarrow> g = f \<or> frame_used (frames s) g"
    using pmm_frames.alloc_frame [OF ok al] by blast
  have t: "aligned t" "frame_no t = f" using f(1) by (simp_all add: aligned_def frame_no_def)
  show keep: "\<forall>f. frame_used (frames s) f \<longrightarrow> frame_used p f \<and> f \<noteq> frame_no t" using f t by auto
  have d: "aligned ?d" "t \<noteq> ?d" "frame_no ?d \<noteq> f" using inv f t unfolding vmm_inv_def by auto
  have same: "rd32 m (entry b (of_nat l)) = rd32 (pmem s) (entry b (of_nat l))" if "aligned b" "b \<noteq> t" "l < 1024" for b l
  proof (rule rd32_cong)
    show "unat (entry b (of_nat l)) + 4 \<le> 2 ^ 32" using that aligned_bound [of b] by (simp add: unat_entry)
    show "m x = pmem s x" if "x \<in> region (entry b (of_nat l)) 4" for x
      using in_entry(1) [OF \<open>aligned b\<close> \<open>l < 1024\<close> that] aligned_eq [OF \<open>aligned b\<close> t(1)] \<open>b \<noteq> t\<close> m by metis
  qed
  have pde: "pde s' k = (if k = i then (t AND 0xFFFFF000) OR 3 else pde s k)" if "k < 1024" for k
    using that i(1) t d by (auto simp: pde_def s'_def rd32_wr32_entry same)
  then show "\<And>k. k < 1024 \<Longrightarrow> k \<noteq> i \<Longrightarrow> pde s' k = pde s k" by simp
  have pi: "bit (pde s' i) 0" "bit (pde s' i) 1" "table_of (pde s' i) = t"
    using pde [OF i(1)] entry_value [of t] table_of_id [OF t(1)] by simp_all
  show "bit (pde s' i) 0" "table_of (pde s' i) = t" by (rule pi)+
  have old: "table_of (pde s k) \<noteq> t" if "k < 1024" "bit (pde s k) 0" for k
    using inv_table(2) [OF inv that] f t by auto
  have pte: "pte s' k l = (if k = i then rd32 m (entry t (of_nat l)) else pte s k l)" if "k < 1024" "l < 1024" "k = i \<or> bit (pde s k) 0" for k l
    using that pi(3) t d old [of k] i(1) inv_table(3) [OF inv that(1)] pde [OF that(1)]
    by (auto simp: pte_def s'_def rd32_wr32_entry same)
  show "vmm_inv s'"
    unfolding vmm_inv_def
  proof (intro conjI allI impI)
    show "pmm_ok (frames s')" "frame_used (frames s') 0"
      using pmm_frames.alloc_ok [OF ok al(1)] pmm_frames.alloc_keeps_zero [OF ok al(1)] by (simp_all add: s'_def)
    show "aligned (kernel_page_directory s')" "frame_used (frames s') (frame_no (kernel_page_directory s'))"
      using inv keep by (simp_all add: s'_def vmm_inv_def)
    fix k assume k: "k < 1024" "bit (pde s' k) 0"
    show "bit (pde s' k) 1" "frame_used (frames s') (frame_no (table_of (pde s' k)))"
        "table_of (pde s' k) \<noteq> kernel_page_directory s'"
      using k pde [OF k(1)] pi inv_table [OF inv k(1)] keep d f t by (auto simp: s'_def split: if_splits)
    fix l assume l: "l < 1024" "bit (pde s' l) 0 \<and> table_of (pde s' l) = table_of (pde s' k)"
    then show "l = k"
      using k pde [OF k(1)] pde [OF l(1)] pi(3) old [of l] old [of k] inv_table(4) [OF inv k(1), of l] by (auto split: if_splits)
  qed
  show "\<forall>k<1048576. walk s' k =
      (if k div 1024 = i then let e = rd32 m (entry t (of_nat (k mod 1024)))
         in if bit e 0 then Some (table_of e, bit e 1) else None
       else walk s k)"
  proof (intro allI impI)
    fix k :: nat assume "k < 1048576"
    then have "k div 1024 < 1024" by simp
    then show "walk s' k = (if k div 1024 = i then let e = rd32 m (entry t (of_nat (k mod 1024)))
         in if bit e 0 then Some (table_of e, bit e 1) else None
       else walk s k)"
      using pde [of "k div 1024"] pte [of "k div 1024" "k mod 1024"] pi by (auto simp: walk_def Let_def)
  qed
  show "\<forall>x. frame_used (frames s) (frame_no x) \<and> frame_no x \<noteq> frame_no ?d \<longrightarrow> pmem s' x = pmem s x"
    using wr32_entry_other [OF d(1) i(1)] m keep by (simp add: s'_def)
qed


lemma and_one_bit: "(e :: u32) AND 1 = 0 \<longleftrightarrow> \<not> bit e 0"
  by (simp add: and_one_eq bit_0 odd_iff_mod_2_eq_one)

lemma vmm_map_eq:
  "vmm_map s v p rw =
     (if bit (pde s (frame_no v div 1024)) 0
      then Some (vmm_map_entry s (pde s (frame_no v div 1024)) (of_nat (frame_no v mod 1024)) p rw)
      else do {
        (t, q) \<leftarrow> allocate_frame (frames s);
        if t = 0 then Some (s\<lparr>frames := q\<rparr>)
        else let s1 = s\<lparr>pmem := wr32 (memset (pmem s) t 0 PAGE_SIZE)
               (entry (kernel_page_directory s) (of_nat (frame_no v div 1024))) ((t AND 0xFFFFF000) OR 0x03), frames := q\<rparr>
             in Some (vmm_map_entry s1 (pde s1 (frame_no v div 1024)) (of_nat (frame_no v mod 1024)) p rw) })"
  unfolding vmm_map_def pd_index pt_index pde_def Let_def and_one_bit by (simp cong: if_cong)

lemma vmm_map_spec:
  assumes inv: "vmm_inv s"
  obtains s' where "vmm_map s v p rw = Some s'" "vmm_inv s'" "total_frames (frames s') = total_frames (frames s)"
    "\<And>f. frame_used (frames s) f \<Longrightarrow> frame_used (frames s') f"
    "(s' = s \<and> (\<forall>f<unat (total_frames (frames s)). frame_used (frames s) f)) \<or>
     (\<forall>k<1048576. walk s' k = (if k = frame_no v then Some (table_of p, rw \<noteq> 0) else walk s k))"
    "\<And>x. frame_used (frames s) (frame_no x) \<Longrightarrow> \<not> paging_frame s (frame_no x) \<Longrightarrow>
       pmem s' x = pmem s x \<and> \<not> paging_frame s' (frame_no x)"
proof -
  let ?i = "frame_no v div 1024" and ?j = "frame_no v mod 1024"
  have n: "frame_no v < 1048576" "?i < 1024" using unat_u32_bound [of v] unfolding frame_no_def by linarith+
  have j: "?j < 1024" by simp
  have ok: "pmm_ok (frames s)" "frame_used (frames s) 0" using inv by (simp_all add: vmm_inv_def)
  define val where "val = (if rw \<noteq> 0 then (p AND 0xFFFFF000) OR 3 else (p AND 0xFFFFF000) OR 1)"
  define put where "put s = s\<lparr>pmem := wr32 (pmem s) (entry (table_of (pde s ?i)) (of_nat ?j)) val\<rparr>" for s
  have put: "vmm_map_entry s (pde s ?i) (of_nat ?j) p rw = put s" for s
    by (simp add: vmm_map_entry_def put_def val_def table_of_def page_masks(1) Let_def)
  have frame: "pmem (put r) x = pmem r x \<and> \<not> paging_frame (put r) (frame_no x)"
    if "vmm_inv r" "bit (pde r ?i) 0" "\<not> paging_frame r (frame_no x)" for r x
    using set_pte(2,4) [OF that(1) n(2) that(2) j, where v = val, folded put_def] that(3) n(2) that(2)
    by (auto simp: paging_frame_def put_def)
  show ?thesis
  proof (cases "bit (pde s ?i) 0")
    case True
    then have "vmm_map s v p rw = Some (put s)"
      using put [of s] by (simp add: vmm_map_eq)
    then show ?thesis
      using that set_pte(1) [OF inv n(2) True j, where v = val, folded put_def] frame [OF inv True]
        walk_set_pte [OF inv n(1) True val_def, folded put_def]
      by (auto simp: put_def)
  next
    case False
    obtain t q where al: "allocate_frame (frames s) = Some (t, q)" "pmm_ok q" "total_frames q = total_frames (frames s)"
      using pmm_frames.alloc_total [OF ok] by (auto simp: unsigned_word_eqI)
    show ?thesis
    proof (cases "t = 0")
      case True
      then have q: "q = frames s" "\<forall>f<unat (total_frames (frames s)). frame_used (frames s) f"
        using pmm_frames.alloc_null [OF ok] al(1) by blast+
      then have "vmm_map s v p rw = Some s"
        using False True al(1) by (simp add: vmm_map_eq)
      then show ?thesis using that inv q by blast
    next
      case t: False
      define s1 where "s1 = s\<lparr>pmem := wr32 (memset (pmem s) t 0 PAGE_SIZE) (entry (kernel_page_directory s) (of_nat ?i))
         ((t AND 0xFFFFF000) OR 0x03), frames := q\<rparr>"
      have at: "aligned t" using pmm_frames.alloc_frame [OF ok al(1) t] by (auto simp: aligned_def)
      then have "frame_no x \<noteq> frame_no t \<Longrightarrow> memset (pmem s) t 0 PAGE_SIZE x = pmem s x" for x by (simp add: memset_page)
      note new = new_table [OF inv n(2) False al(1) t this, folded s1_def]
      have "\<forall>k<1048576. walk s1 k = walk s k"
        using new(3) False by (auto simp: walk_def rd32_memset_page [OF at at])
      note new = new(1,2) this new(4-7)
      have "vmm_map s v p rw = Some (put s1)"
        using put [of s1] False t al(1) by (simp add: vmm_map_eq Let_def flip: s1_def)
      moreover have "frames (put s1) = q" by (simp add: put_def s1_def)
      moreover have "vmm_inv (put s1)"
        using set_pte(1) [OF new(1) n(2) new(2) j, where v = val, folded put_def] .
      moreover have "\<forall>k<1048576. walk (put s1) k = (if k = frame_no v then Some (table_of p, rw \<noteq> 0) else walk s k)"
        using walk_set_pte [OF new(1) n(1) new(2) val_def, folded put_def] new(3) by simp
      moreover have "pmem (put s1) x = pmem s x \<and> \<not> paging_frame (put s1) (frame_no x)"
        if x: "frame_used (frames s) (frame_no x)" "\<not> paging_frame s (frame_no x)" for x
      proof -
        have "frame_no x \<noteq> frame_no (table_of (pde s1 k))" if "k < 1024" "bit (pde s1 k) 0" for k
          using x that new(4,6) new(7) [of k] by (cases "k = ?i") (auto simp: paging_frame_def)
        then have "\<not> paging_frame s1 (frame_no x)" using x(2) by (auto simp: paging_frame_def s1_def)
        with frame [OF new(1,2)] new(5) x show ?thesis by (simp add: paging_frame_def)
      qed
      ultimately show ?thesis using that [of "put s1"] al(3) new(4) by simp
    qed
  qed
qed


subsection \<open>Mapping a range\<close>

lemma aligned_add:
  assumes "aligned a" "unat a + n * 4096 \<le> 2 ^ 32" "k < n"
  shows "unat (a + of_nat k * PAGE_SIZE) = unat a + k * 4096" "aligned (a + of_nat k * PAGE_SIZE)"
    "frame_no (a + of_nat k * PAGE_SIZE) = frame_no a + k"
proof -
  have "k * 4096 + 4096 \<le> n * 4096" using assms(3) by linarith
  then show u: "unat (a + of_nat k * PAGE_SIZE) = unat a + k * 4096"
    using unat_plus_of_nat [of a "k * 4096"] assms(2) by (simp add: PAGE_SIZE_def)
  obtain q where "unat a = 4096 * q" using assms(1) unfolding aligned_def by (auto elim!: dvdE)
  with u show "aligned (a + of_nat k * PAGE_SIZE)" "frame_no (a + of_nat k * PAGE_SIZE) = frame_no a + k"
    by (simp_all add: aligned_def frame_no_def)
qed

lemma vmm_map_pages_spec:
  assumes "vmm_inv s" "aligned v" "aligned p" "unat v + n * 4096 \<le> 2 ^ 32" "unat p + n * 4096 \<le> 2 ^ 32" "a \<le> n"
  shows "\<exists>s'. vmm_map_pages [a..<n] s v p rw = Some s' \<and> vmm_inv s' \<and> total_frames (frames s') = total_frames (frames s) \<and>
    (\<forall>f. frame_used (frames s) f \<longrightarrow> frame_used (frames s') f) \<and>
    (\<forall>k<1048576. k < frame_no v + a \<or> frame_no v + n \<le> k \<longrightarrow> walk s' k = walk s k) \<and>
    (\<forall>k. a \<le> k \<and> k < n \<longrightarrow> walk s' (frame_no v + k) = Some (p + of_nat k * PAGE_SIZE, rw \<noteq> 0) \<or>
       (\<forall>f<unat (total_frames (frames s)). frame_used (frames s') f)) \<and>
    (\<forall>x. frame_used (frames s) (frame_no x) \<and> \<not> paging_frame s (frame_no x) \<longrightarrow>
       pmem s' x = pmem s x \<and> \<not> paging_frame s' (frame_no x))"
  using assms
proof (induction "n - a" arbitrary: a s)
  case (Suc d)
  then have a: "[a..<n] = a # [Suc a..<n]" "a < n" "Suc a \<le> n" "d = n - Suc a" by (simp_all add: upt_conv_Cons)
  note v = aligned_add [OF Suc.prems(2,4) a(2)] and p = aligned_add [OF Suc.prems(3,5) a(2)]
  let ?v = "v + of_nat a * PAGE_SIZE" and ?p = "p + of_nat a * PAGE_SIZE"
  have bound: "frame_no v + n \<le> 1048576"
    using Suc.prems(2,4) unfolding aligned_def frame_no_def by (auto elim!: dvdE)
  obtain s1 where s1: "vmm_map s ?v ?p rw = Some s1" "vmm_inv s1" "total_frames (frames s1) = total_frames (frames s)"
    "\<And>f. frame_used (frames s) f \<Longrightarrow> frame_used (frames s1) f"
    "(s1 = s \<and> (\<forall>f<unat (total_frames (frames s)). frame_used (frames s) f)) \<or>
     (\<forall>k<1048576. walk s1 k = (if k = frame_no v + a then Some (?p, rw \<noteq> 0) else walk s k))"
    "\<And>x. frame_used (frames s) (frame_no x) \<Longrightarrow> \<not> paging_frame s (frame_no x) \<Longrightarrow>
       pmem s1 x = pmem s x \<and> \<not> paging_frame s1 (frame_no x)"
    using vmm_map_spec [OF Suc.prems(1), of ?v ?p rw] unfolding v(3) table_of_id [OF p(2)] by metis
  obtain s' where s': "vmm_map_pages [Suc a..<n] s1 v p rw = Some s'" "vmm_inv s'"
    "total_frames (frames s') = total_frames (frames s1)"
    "\<And>f. frame_used (frames s1) f \<Longrightarrow> frame_used (frames s') f"
    "\<And>k. k < 1048576 \<Longrightarrow> k < frame_no v + Suc a \<or> frame_no v + n \<le> k \<Longrightarrow> walk s' k = walk s1 k"
    "\<And>k. Suc a \<le> k \<Longrightarrow> k < n \<Longrightarrow> walk s' (frame_no v + k) = Some (p + of_nat k * PAGE_SIZE, rw \<noteq> 0) \<or>
       (\<forall>f<unat (total_frames (frames s1)). frame_used (frames s') f)"
    "\<And>x. frame_used (frames s1) (frame_no x) \<Longrightarrow> \<not> paging_frame s1 (frame_no x) \<Longrightarrow>
       pmem s' x = pmem s1 x \<and> \<not> paging_frame s' (frame_no x)"
    using Suc.hyps(1) [OF a(4) s1(2) Suc.prems(2-5) a(3)] by blast
  have out: "walk s' k = walk s k" if "k < 1048576" "k < frame_no v + a \<or> frame_no v + n \<le> k" for k
    using s'(5) [of k] s1(5) that a(2) by auto
  have ins: "walk s' (frame_no v + k) = Some (p + of_nat k * PAGE_SIZE, rw \<noteq> 0) \<or>
       (\<forall>f<unat (total_frames (frames s)). frame_used (frames s') f)" if "a \<le> k" "k < n" for k
  proof (cases "k = a")
    case True
    then show ?thesis using s'(4) s'(5) [of "frame_no v + a"] s1(4,5) bound a(2) by auto
  qed (use s'(6) [of k] s1(3) that in auto)
  show ?case
    using s1(1,3,4,6) s'(1-4,7) out ins by (intro exI [of _ s'] conjI) (simp_all add: a(1))
qed auto

text \<open>Translation of an address: its page and the offset in it.\<close>

definition translate :: "vmm \<Rightarrow> addr \<Rightarrow> (addr \<times> bool) option" where
  "translate s x = (case walk s (frame_no x) of Some (f, w) \<Rightarrow> Some (f + of_nat (unat x mod 4096), w) | None \<Rightarrow> None)"

text \<open>Pages of a byte range that starts at offset \<open>V mod 4096\<close> of its first page.\<close>

lemma page_of_byte:
  fixes V P k :: nat
  assumes "V mod 4096 = P mod 4096" "k < n"
  shows "(V + k) div 4096 = V div 4096 + (V mod 4096 + k) div 4096"
    "(V mod 4096 + k) div 4096 < (n + V mod 4096 + 4095) div 4096"
    "P div 4096 * 4096 + (V mod 4096 + k) div 4096 * 4096 + (V + k) mod 4096 = P + k"
proof -
  define q r where "q = V div 4096" and "r = V mod 4096"
  have V: "V = 4096 * q + r" and r: "r < 4096" by (simp_all add: q_def r_def)
  have P: "P = P div 4096 * 4096 + r" using assms(1) div_mult_mod_eq [of P 4096] by (simp add: r_def)
  show "(V + k) div 4096 = V div 4096 + (V mod 4096 + k) div 4096"
    using r unfolding V by (simp add: add.assoc)
  show "(V mod 4096 + k) div 4096 < (n + V mod 4096 + 4095) div 4096"
    using assms(2) by (simp add: less_eq_div_iff_mult_less_eq Suc_le_eq [symmetric])
  have "(V + k) mod 4096 = (r + k) mod 4096" unfolding V by (simp add: add.assoc)
  then show "P div 4096 * 4096 + (V mod 4096 + k) div 4096 * 4096 + (V + k) mod 4096 = P + k"
    using P div_mult_mod_eq [of "r + k" 4096] unfolding r_def by linarith
qed


lemma page_end:
  fixes V n :: nat
  assumes "0 < n"
  shows "(V + n - 1) div 4096 + 1 = V div 4096 + (n + V mod 4096 + 4095) div 4096"
proof -
  have "n + V mod 4096 + 4095 = V mod 4096 + (n - 1) + 4096" using assms by simp
  then have "(n + V mod 4096 + 4095) div 4096 = (V mod 4096 + (n - 1)) div 4096 + 1" by (simp only: div_add_self2)
  moreover have "V + n - 1 = V + (n - 1)" using assms by simp
  ultimately show ?thesis using page_of_byte(1) [of V V "n - 1" n] assms by simp
qed

lemma page_count:
  assumes "unat v + unat siz \<le> 2 ^ 32 - 4096"
  shows "unat ((siz + (v AND (PAGE_SIZE - 1)) + PAGE_SIZE - 1) div PAGE_SIZE) = (unat siz + unat v mod 4096 + 4095) div 4096"
proof -
  have o: "unat (v AND (PAGE_SIZE - 1)) = unat v mod 4096"
    using unat_and_mask [of v 12] by (simp add: PAGE_SIZE_def mask_eq_exp_minus_1)
  have le: "unat v mod 4096 \<le> unat v" by simp
  have "unat (siz + (v AND (PAGE_SIZE - 1))) = unat siz + unat v mod 4096"
    using unat_plus_simple32 [of siz "v AND (PAGE_SIZE - 1)"] assms o le by simp
  then have "unat (siz + (v AND (PAGE_SIZE - 1)) + 4095) = unat siz + unat v mod 4096 + 4095"
    using unat_plus_simple32 [of "siz + (v AND (PAGE_SIZE - 1))" 4095] assms le by simp
  then show ?thesis by (simp add: PAGE_SIZE_def unat_div_distrib add_diff_eq [symmetric])
qed

lemma page_round: "unat (a AND NOT (PAGE_SIZE - 1)) = unat a div 4096 * 4096" "aligned (a AND NOT (PAGE_SIZE - 1))"
  using unat_and_not_mask [of a 12] by (simp_all add: PAGE_SIZE_def mask_eq_exp_minus_1 aligned_def)

lemma page_offset: "v AND (PAGE_SIZE - 1) = p AND (PAGE_SIZE - 1) \<longleftrightarrow> unat v mod 4096 = unat p mod 4096"
  using unat_and_mask [of v 12] unat_and_mask [of p 12]
  by (simp add: PAGE_SIZE_def mask_eq_exp_minus_1 word_unat_eq_iff)

lemma vmm_map_range_spec:
  assumes inv: "vmm_inv s" and siz: "siz \<noteq> 0" and off: "unat v mod 4096 = unat p mod 4096"
    and v: "unat v + unat siz \<le> 2 ^ 32 - 4096" and p: "unat p + unat siz \<le> 2 ^ 32 - 4096"
  shows "\<exists>s'. vmm_map_range s v p siz rw = Some s' \<and> vmm_inv s' \<and>
    ((\<forall>f<unat (total_frames (frames s)). frame_used (frames s') f) \<or>
     (\<forall>k<unat siz. translate s' (v + of_nat k) = Some (p + of_nat k, rw \<noteq> 0))) \<and>
    (\<forall>x. frame_no x < frame_no v \<or> frame_no (v + siz - 1) < frame_no x \<longrightarrow> translate s' x = translate s x) \<and>
    (\<forall>x. frame_used (frames s) (frame_no x) \<and> \<not> paging_frame s (frame_no x) \<longrightarrow> pmem s' x = pmem s x)"
proof -
  define av ap n where "av = v AND NOT (PAGE_SIZE - 1)" and "ap = p AND NOT (PAGE_SIZE - 1)"
    and "n = (unat siz + unat v mod 4096 + 4095) div 4096"
  have av: "unat av = unat v div 4096 * 4096" "aligned av" and ap: "unat ap = unat p div 4096 * 4096" "aligned ap"
    by (simp_all add: av_def ap_def page_round)
  have fv: "frame_no av = frame_no v" by (simp add: frame_no_def av)
  have n4: "n * 4096 \<le> unat siz + unat v mod 4096 + 4095" by (simp add: n_def div_times_less_eq_dividend)
  have b: "unat v + unat siz \<le> 4294963200" "unat p + unat siz \<le> 4294963200" using v p by simp_all
  have "unat av + n * 4096 \<le> 4294967296" using n4 b(1) div_mult_mod_eq [of "unat v" 4096] av(1) by linarith
  moreover have "unat ap + n * 4096 \<le> 4294967296"
    using n4 b(2) off div_mult_mod_eq [of "unat p" 4096] ap(1) by linarith
  ultimately have nv: "unat av + n * 4096 \<le> 2 ^ 32" "unat ap + n * 4096 \<le> 2 ^ 32" by simp_all
  have range: "vmm_map_range s v p siz rw = vmm_map_pages [0..<n] s av ap rw"
    using siz off page_count [OF v] by (simp add: vmm_map_range_def page_offset av_def ap_def n_def Let_def)
  obtain s' where s': "vmm_map_pages [0..<n] s av ap rw = Some s'" "vmm_inv s'"
    "\<And>k. k < 1048576 \<Longrightarrow> k < frame_no v \<or> frame_no v + n \<le> k \<Longrightarrow> walk s' k = walk s k"
    "\<And>k. k < n \<Longrightarrow> walk s' (frame_no v + k) = Some (ap + of_nat k * PAGE_SIZE, rw \<noteq> 0) \<or>
       (\<forall>f<unat (total_frames (frames s)). frame_used (frames s') f)"
    "\<And>x. frame_used (frames s) (frame_no x) \<Longrightarrow> \<not> paging_frame s (frame_no x) \<Longrightarrow> pmem s' x = pmem s x"
    using vmm_map_pages_spec [OF inv av(2) ap(2) nv le0, of rw]
    by (simp only: fv le0 simp_thms add_0_right) blast
  have "translate s' (v + of_nat k) = Some (p + of_nat k, rw \<noteq> 0)"
    if k: "k < unat siz" and free: "\<not> (\<forall>f<unat (total_frames (frames s)). frame_used (frames s') f)" for k
  proof -
    let ?q = "(unat v mod 4096 + k) div 4096"
    note pg = page_of_byte [OF off k, folded n_def]
    have u: "unat (v + of_nat k) = unat v + k" "unat (p + of_nat k) = unat p + k"
      using unat_plus_of_nat [of v k] unat_plus_of_nat [of p k] k v p by simp_all
    have "frame_no (v + of_nat k) = frame_no v + ?q" using u pg(1) by (simp add: frame_no_def)
    moreover have "ap + of_nat ?q * PAGE_SIZE + of_nat (unat (v + of_nat k) mod 4096) = p + of_nat k"
      using unat_plus_of_nat [of "ap + of_nat ?q * PAGE_SIZE" "(unat v + k) mod 4096"]
        aligned_add(1) [OF ap(2) nv(2) pg(2)] ap(1) pg(3) u unat_u32_bound [of "p + of_nat k"]
      unfolding word_unat_eq_iff by simp
    ultimately show ?thesis using s'(4) [OF pg(2)] free by (simp add: translate_def)
  qed
  moreover have "translate s' x = translate s x" if "frame_no x < frame_no v \<or> frame_no (v + siz - 1) < frame_no x" for x
  proof -
    have "unat (siz - 1) = unat siz - 1" using siz by (simp add: unat_minus_one)
    then have "unat (v + siz - 1) = unat v + unat siz - 1"
      using unat_plus_simple32 [of v "siz - 1"] v siz unat_gt_0 [of siz] by (simp add: add_diff_eq)
    then have "frame_no (v + siz - 1) + 1 = frame_no v + n"
      using page_end [of "unat siz" "unat v"] siz unat_gt_0 [of siz] by (simp add: frame_no_def n_def)
    moreover have "frame_no x < 1048576" using unat_u32_bound [of x] unfolding frame_no_def by linarith
    ultimately show ?thesis using s'(3) [of "frame_no x"] that by (auto simp: translate_def)
  qed
  ultimately show ?thesis using s'(1,2,5) unfolding range by blast
qed


subsection \<open>The identity map\<close>

lemma fill_table:
  assumes "aligned t" "n \<le> 1024"
  shows "(\<forall>l<1024. rd32 (fold (vmm_init_entry t i) [0..<n] m) (entry t (of_nat l)) =
      (if l < n then (of_nat ((i * 1024 + l) * 4096) AND 0xFFFFF000) OR 3 else rd32 m (entry t (of_nat l)))) \<and>
    (\<forall>x. frame_no x \<noteq> frame_no t \<longrightarrow> fold (vmm_init_entry t i) [0..<n] m x = m x)"
  using assms(2)
proof (induction n)
  case (Suc n)
  have "vmm_init_entry t i n M = wr32 M (entry t (of_nat n)) ((of_nat ((i * 1024 + n) * 4096) AND 0xFFFFF000) OR 3)" for M
    by (simp add: vmm_init_entry_def algebra_simps)
  with Suc assms(1) show ?case by (auto simp: rd32_wr32_entry wr32_entry_other less_Suc_eq)
qed simp

definition identity_below :: "vmm \<Rightarrow> nat \<Rightarrow> bool" where
  "identity_below s a \<longleftrightarrow> (\<forall>i<1024. bit (pde s i) 0 \<longleftrightarrow> i < a) \<and>
     (\<forall>k<1048576. walk s k = (if k < a * 1024 then Some (of_nat (k * 4096), True) else None))"

lemma vmm_init_table_spec:
  assumes "vmm_inv s" "identity_below s a" "a < 1024"
    "Suc n \<le> card {f. f < unat (total_frames (frames s)) \<and> \<not> frame_used (frames s) f}"
  obtains s' where "vmm_init_table a s = Some s'" "vmm_inv s'" "identity_below s' (Suc a)"
    "n \<le> card {f. f < unat (total_frames (frames s')) \<and> \<not> frame_used (frames s') f}"
proof -
  have ok: "pmm_ok (frames s)" "frame_used (frames s) 0" using assms(1) by (simp_all add: vmm_inv_def)
  obtain t p where al: "allocate_frame (frames s) = Some (t, p)" using pmm_frames.alloc_total [OF ok] by blast
  note fr = pmm_frames.alloc_free [OF ok al assms(4)]
  have at: "aligned t" using pmm_frames.alloc_frame [OF ok al fr(1)] by (auto simp: aligned_def)
  define m where "m = fold (vmm_init_entry t a) [0..<1024] (memset (pmem s) t 0 PAGE_SIZE)"
  have m: "frame_no x \<noteq> frame_no t \<Longrightarrow> m x = pmem s x" for x
    using fill_table [OF at, of 1024 a] by (simp add: m_def memset_page [OF at])
  have e: "l < 1024 \<Longrightarrow> rd32 m (entry t (of_nat l)) = (of_nat ((a * 1024 + l) * 4096) AND 0xFFFFF000) OR 3" for l
    using fill_table [OF at, of 1024 a] by (simp add: m_def)
  define s1 where "s1 = s\<lparr>pmem := wr32 m (entry (kernel_page_directory s) (of_nat a)) ((t AND 0xFFFFF000) OR 0x03), frames := p\<rparr>"
  have np: "\<not> bit (pde s a) 0" using assms(2,3) by (simp add: identity_below_def)
  note new = new_table [OF assms(1,3) np al fr(1) m, folded s1_def]
  define s' where "s' = s1\<lparr>kernel_page_tables := (kernel_page_tables s)[a := t]\<rparr>"
  have init: "vmm_init_table a s = Some s'" by (simp add: vmm_init_table_def al m_def s'_def s1_def)
  have pde: "pde s' k = pde s1 k" for k by (simp add: pde_def s'_def)
  have walk: "walk s' k = walk s1 k" for k by (simp add: walk_def pte_def pde_def s'_def)
  have "vmm_inv s'" by (rule vmm_inv_cong [OF new(1)]) (simp_all add: pde, simp_all add: s'_def)
  moreover have "identity_below s' (Suc a)"
    unfolding identity_below_def
  proof (intro conjI allI impI)
    fix i :: nat assume "i < 1024"
    then show "bit (pde s' i) 0 \<longleftrightarrow> i < Suc a"
      using new(2) new(7) [of i] assms(2) by (cases "i = a") (auto simp: pde identity_below_def)
  next
    fix k :: nat assume k: "k < 1048576"
    have "aligned (of_nat k * 4096)" using k by (simp add: aligned_def unat_frame)
    moreover have "rd32 m (entry t (of_nat (k mod 1024))) = (of_nat (k * 4096) AND 0xFFFFF000) OR 3" if "k div 1024 = a"
    proof -
      have "a * 1024 + k mod 1024 = k" using that by auto
      with e [of "k mod 1024"] show ?thesis by (simp only: mod_less_divisor zero_less_numeral simp_thms)
    qed
    ultimately have "walk s' k = Some (of_nat (k * 4096), True)" if "k div 1024 = a"
      using new(3) k that entry_value [of "of_nat (k * 4096)"] table_of_id by (simp add: walk)
    moreover have "k < a * 1024 \<or> k div 1024 = a \<or> a * 1024 + 1024 \<le> k" by linarith
    ultimately show "walk s' k = (if k < Suc a * 1024 then Some (of_nat (k * 4096), True) else None)"
      using new(3) k assms(2) by (auto simp: walk identity_below_def)
  qed
  moreover have "n \<le> card {f. f < unat (total_frames (frames s')) \<and> \<not> frame_used (frames s') f}"
    using fr(2) by (simp add: s'_def s1_def)
  ultimately show ?thesis using that init by blast
qed

lemma vmm_init_tables_spec:
  assumes "vmm_inv s" "identity_below s a" "a + n \<le> 1024"
    "n \<le> card {f. f < unat (total_frames (frames s)) \<and> \<not> frame_used (frames s) f}"
  shows "\<exists>s'. vmm_init_tables [a..<a + n] s = Some s' \<and> vmm_inv s' \<and> identity_below s' (a + n)"
  using assms
proof (induction n arbitrary: a s)
  case (Suc n)
  obtain s1 where s1: "vmm_init_table a s = Some s1" "vmm_inv s1" "identity_below s1 (Suc a)"
    "n \<le> card {f. f < unat (total_frames (frames s1)) \<and> \<not> frame_used (frames s1) f}"
    using vmm_init_table_spec [OF Suc.prems(1,2) _ Suc.prems(4)] Suc.prems(3) by auto
  have "[a..<a + Suc n] = a # [Suc a..<Suc a + n]" by (simp add: upt_conv_Cons)
  with Suc.IH [OF s1(2,3) _ s1(4)] s1(1) Suc.prems(3) show ?case by simp
qed simp

lemma vmm_init_spec:
  assumes ok: "pmm_ok (frames s)" "frame_used (frames s) 0"
    and free: "9 \<le> card {f. f < unat (total_frames (frames s)) \<and> \<not> frame_used (frames s) f}"
  shows "\<exists>s'. vmm_init s = Some s' \<and> vmm_inv s' \<and> identity_below s' 8"
proof -
  obtain d p where al: "allocate_frame (frames s) = Some (d, p)" using pmm_frames.alloc_total [OF ok] by blast
  have fr: "d \<noteq> 0" "8 \<le> card {f. f < unat (total_frames p) \<and> \<not> frame_used p f}"
    using pmm_frames.alloc_free [OF ok al, of 8] free by simp_all
  let ?s = "s\<lparr>pmem := memset (pmem s) d 0 PAGE_SIZE, frames := p, kernel_page_directory := d\<rparr>"
  obtain f where f: "unat d = f * 4096" "\<forall>g. frame_used p g \<longleftrightarrow> g = f \<or> frame_used (frames s) g"
    using pmm_frames.alloc_frame [OF ok al fr(1)] by blast
  have ad: "aligned d" "frame_no d = f" using f(1) by (simp_all add: aligned_def frame_no_def)
  have "pde ?s i = 0" if "i < 1024" for i using that by (simp add: pde_def rd32_memset_page ad)
  then have "vmm_inv ?s" "identity_below ?s 0"
    using pmm_frames.alloc_ok [OF ok al] f ad ok(2) by (auto simp: vmm_inv_def identity_below_def walk_def)
  then have "\<exists>s'. vmm_init_tables [0..<0 + 8] ?s = Some s' \<and> vmm_inv s' \<and> identity_below s' (0 + 8)"
    by (rule vmm_init_tables_spec) (use fr(2) in simp_all)
  then show ?thesis by (simp add: vmm_init_def al IDENTITY_TABLES_def IDENTITY_MAP_SIZE_MB_def)
qed


subsection \<open>A small machine\<close>

definition small_vmm :: vmm where
  "small_vmm = \<lparr>pmem = (\<lambda>_. 0), frames = \<lparr>bitmap = [0x7], total_frames = 5, used_frames = 3, next_free_physical = 0x3000\<rparr>,
     kernel_page_directory = 0x1000, kernel_page_tables = [], cr0 = 0, cr3 = 0\<rparr>"

lemma small_vmm_inv: "vmm_inv small_vmm" "\<not> bit (pde small_vmm i) 0"
  by (simp_all add: small_vmm_def vmm_inv_def small_pmm pde_def rd32_def aligned_def frame_no_def)

subsection \<open>Properties\<close>

text \<open>C7. Mapping a page returns and keeps the page tables well formed. Either no frame was free for a
  missing page table and nothing changed, or afterwards the processor translates that page to the given frame with
  the given right and every other page exactly as before. No byte of a frame in use that is not itself a page
  table is touched.\<close>

theorem vmm_map_correct:
  assumes "vmm_inv s"
  shows "\<exists>s'. vmm_map s virtual_addr physical_addr rw = Some s' \<and> vmm_inv s' \<and>
    ((s' = s \<and> (\<forall>f<unat (total_frames (frames s)). frame_used (frames s) f)) \<or>
     (\<forall>k<1048576. walk s' k =
        (if k = frame_no virtual_addr then Some (table_of physical_addr, rw \<noteq> 0) else walk s k))) \<and>
    (\<forall>x. frame_used (frames s) (frame_no x) \<and> \<not> paging_frame s (frame_no x) \<longrightarrow> pmem s' x = pmem s x)"
  using vmm_map_spec [OF assms, of virtual_addr physical_addr rw] by metis

theorem vmm_map_correct_witness:
  "\<exists>s'. vmm_map small_vmm 0xC0001234 0x4000 1 = Some s' \<and> walk s' 0xC0001 = Some (0x4000, True)"
proof -
  have "\<not> (\<forall>f<unat (total_frames (frames small_vmm)). frame_used (frames small_vmm) f)"
    by (auto simp: small_vmm_def small_pmm(2) intro: exI [of _ 3])
  moreover have "table_of 0x4000 = 0x4000" by (rule table_of_id) (simp add: aligned_def)
  ultimately show ?thesis
    using vmm_map_correct [OF small_vmm_inv(1), of "0xC0001234" "0x4000" 1] by (auto simp: frame_no_def)
qed

text \<open>Mapping a range whose two addresses have the same offset in their pages, and which does not
  come near the end of the address space, translates every byte of the range to the corresponding physical byte,
  unless the frames ran out; pages outside the range are translated as before, and no other frame in use is
  touched. With size 0 or different offsets nothing happens.\<close>

theorem vmm_map_range_correct:
  assumes "vmm_inv s" "unat v + unat siz \<le> 2 ^ 32 - 4096" "unat p + unat siz \<le> 2 ^ 32 - 4096"
  shows "if siz = 0 \<or> unat v mod 4096 \<noteq> unat p mod 4096 then vmm_map_range s v p siz rw = Some s
    else \<exists>s'. vmm_map_range s v p siz rw = Some s' \<and> vmm_inv s' \<and>
      ((\<forall>f<unat (total_frames (frames s)). frame_used (frames s') f) \<or>
       (\<forall>k<unat siz. translate s' (v + of_nat k) = Some (p + of_nat k, rw \<noteq> 0))) \<and>
      (\<forall>x. frame_no x < frame_no v \<or> frame_no (v + siz - 1) < frame_no x \<longrightarrow> translate s' x = translate s x) \<and>
      (\<forall>x. frame_used (frames s) (frame_no x) \<and> \<not> paging_frame s (frame_no x) \<longrightarrow> pmem s' x = pmem s x)"
  using vmm_map_range_spec [OF assms(1) _ _ assms(2,3), of rw]
  by (auto simp: vmm_map_range_def page_offset Let_def)

theorem vmm_map_range_correct_witness:
  "\<exists>s'. vmm_map_range small_vmm 0xFD000010 0xFD000010 0x300000 1 = Some s' \<and> vmm_inv s'"
  using vmm_map_range_correct [OF small_vmm_inv(1), of "0xFD000010" "0x300000" "0xFD000010" 1] by auto

text \<open>When at least nine frames are free, \<open>vmm_init\<close> builds well-formed tables that translate every page
  below 32 MiB to itself, writable, and no page above.\<close>

theorem vmm_init_correct:
  assumes "pmm_ok (frames s)" "frame_used (frames s) 0"
    "9 \<le> card {f. f < unat (total_frames (frames s)) \<and> \<not> frame_used (frames s) f}"
  shows "\<exists>s'. vmm_init s = Some s' \<and> vmm_inv s' \<and>
    (\<forall>k<1048576. walk s' k = (if k < 8192 then Some (of_nat (k * 4096), True) else None))"
  using vmm_init_spec [OF assms] by (auto simp: identity_below_def)

theorem vmm_init_correct_witness:
  "\<exists>s'. vmm_init (small_vmm\<lparr>frames := \<lparr>bitmap = [0x7], total_frames = 32, used_frames = 3, next_free_physical = 0x3000\<rparr>\<rparr>) = Some s' \<and>
     vmm_inv s' \<and> walk s' 8191 = Some (0x1FFF000, True) \<and> walk s' 8192 = None"
proof -
  let ?p = "\<lparr>bitmap = [0x7], total_frames = 32, used_frames = 3, next_free_physical = 0x3000\<rparr>"
  have used: "frame_used ?p f \<longleftrightarrow> f < 3" for f using small_pmm(2) [of f] by (simp add: frame_used_def)
  have "{f. f < unat (total_frames ?p) \<and> \<not> frame_used ?p f} = {3..<32}" by (auto simp: used)
  then have "9 \<le> card {f. f < unat (total_frames ?p) \<and> \<not> frame_used ?p f}" by simp
  moreover have "pmm_ok ?p" by (simp add: pmm_ok_def unat_bitmap_words)
  ultimately show ?thesis
    using vmm_init_correct [of "small_vmm\<lparr>frames := ?p\<rparr>"] used [of 0] by auto
qed

end
