(* ===== verification/Heap.thy ===== *)
theory Heap
  imports Libc_String
begin

text \<open>
  The kernel heap of \<^verbatim>\<open>src/kernel/heap.cpp\<close>. Block headers live in the same byte-addressed memory as
  the payloads they manage: \<open>size\<close> and \<open>next\<close> are little-endian words, \<open>free\<close> is one byte, and
  \<open>sizeof(heap_block_t)\<close> is 12 on the i686 target. The list walks are partial functions, so that
  a cyclic list would be visible as \<open>None\<close>.

  The invariant \<open>heap_inv\<close> says that the blocks tile the heap from \<open>KERNEL_HEAP_START\<close> to its end;
  \<open>owned\<close> is the abstract view of the heap, the map from the pointers handed out to the sizes they
  own. The locale \<open>allocator\<close> is the contract the rest of the kernel relies on.
\<close>

subsection \<open>The contract of an allocator\<close>

text \<open>\<open>own\<close> maps the live pointers to the number of bytes they own; \<open>bytes\<close> reads memory.
  A request above \<open>0xFFFFFFF0\<close> is exempt from the size guarantee: see \<open>kmalloc_overflow\<close> below.\<close>

locale allocator =
  fixes ok :: "'h \<Rightarrow> bool" and own :: "'h \<Rightarrow> addr \<Rightarrow> nat option" and bytes :: "'h \<Rightarrow> mem"
    and malloc :: "'h \<Rightarrow> u32 \<Rightarrow> (addr \<times> 'h) option" and release :: "'h \<Rightarrow> addr \<Rightarrow> 'h"
  assumes malloc_total: "ok h \<Longrightarrow> \<exists>p h'. malloc h n = Some (p, h') \<and> ok h'"
    and malloc_null: "ok h \<Longrightarrow> malloc h n = Some (0, h') \<Longrightarrow> h' = h"
    and malloc_own: "ok h \<Longrightarrow> malloc h n = Some (p, h') \<Longrightarrow> p \<noteq> 0 \<Longrightarrow>
      own h p = None \<and> (\<exists>k. own h' = (own h)(p \<mapsto> k) \<and> (unat n \<le> 0xFFFFFFF0 \<longrightarrow> unat n \<le> k))"
    and malloc_frame: "ok h \<Longrightarrow> malloc h n = Some (p, h') \<Longrightarrow> own h q = Some k \<Longrightarrow>
      x \<in> region q k \<Longrightarrow> bytes h' x = bytes h x"
    and release_own: "ok h \<Longrightarrow> own h p = Some k \<Longrightarrow>
      ok (release h p) \<and> own (release h p) = (own h)(p := None)"
    and release_frame: "ok h \<Longrightarrow> own h p = Some j \<Longrightarrow> own h q = Some k \<Longrightarrow>
      x \<in> region q k \<Longrightarrow> bytes (release h p) x = bytes h x"
    and own_bounds: "ok h \<Longrightarrow> own h p = Some k \<Longrightarrow> p \<noteq> 0 \<and> unat p + k < 2 ^ 32"
    and own_disjoint: "ok h \<Longrightarrow> own h p = Some j \<Longrightarrow> own h q = Some k \<Longrightarrow> p \<noteq> q \<Longrightarrow>
      region p j \<inter> region q k = {}"
begin

lemma malloc_fresh:
  assumes "ok h" "malloc h n = Some (p, h')" "p \<noteq> 0" "own h q = Some k"
  shows "own h' q = Some k" "q \<noteq> p" "\<exists>j. own h' p = Some j \<and> region p j \<inter> region q k = {}"
proof -
  obtain j where j: "own h p = None" "own h' = (own h)(p \<mapsto> j)"
    using malloc_own [OF assms(1-3)] by blast
  then show ne: "q \<noteq> p" and q: "own h' q = Some k" using assms(4) by auto
  have "ok h'" using malloc_total [OF assms(1), of n] assms(2) by simp
  then show "\<exists>j. own h' p = Some j \<and> region p j \<inter> region q k = {}"
    using j q ne own_disjoint [of h' p j q k] by auto
qed

lemma malloc_release:
  assumes "ok h" "malloc h n = Some (p, h')" "p \<noteq> 0"
  shows "ok (release h' p)" "own (release h' p) = own h"
proof -
  obtain j where j: "own h p = None" "own h' = (own h)(p \<mapsto> j)"
    using malloc_own [OF assms] by blast
  have "ok h'" using malloc_total [OF assms(1), of n] assms(2) by simp
  then have "ok (release h' p) \<and> own (release h' p) = (own h')(p := None)"
    using release_own [of h' p j] j by simp
  moreover have "(own h)(p := None) = own h" using j(1) by (rule fun_upd_idem)
  ultimately show "ok (release h' p)" "own (release h' p) = own h" using j(2) by simp_all
qed

end

subsection \<open>Blocks and their headers\<close>

definition KERNEL_HEAP_START :: addr where "KERNEL_HEAP_START = 0x00800000"

definition KERNEL_HEAP_SIZE :: u32 where "KERNEL_HEAP_SIZE = 0x00800000"

definition KERNEL_HEAP_END :: addr where "KERNEL_HEAP_END = 0x01000000"

definition HEAP_HDR :: u32 where "HEAP_HDR = 12"

definition hb_size :: "mem \<Rightarrow> addr \<Rightarrow> u32" where "hb_size m b = rd32 m b"

definition hb_next :: "mem \<Rightarrow> addr \<Rightarrow> addr" where "hb_next m b = rd32 m (b + 4)"

definition hb_free :: "mem \<Rightarrow> addr \<Rightarrow> u8" where "hb_free m b = m (b + 8)"

definition set_size :: "mem \<Rightarrow> addr \<Rightarrow> u32 \<Rightarrow> mem" where "set_size m b v = wr32 m b v"

definition set_next :: "mem \<Rightarrow> addr \<Rightarrow> addr \<Rightarrow> mem" where "set_next m b v = wr32 m (b + 4) v"

definition set_free :: "mem \<Rightarrow> addr \<Rightarrow> u8 \<Rightarrow> mem" where "set_free m b v = m(b + 8 := v)"

record heap =
  free_list :: addr
  hmem :: mem

subsection \<open>The operations\<close>

definition align16 :: "u32 \<Rightarrow> u32" where
  "align16 sz = (sz + 15) AND NOT 15"

definition init_heap :: "mem \<Rightarrow> heap" where
  "init_heap m =
     (let b = KERNEL_HEAP_START;
          m = set_size m b (KERNEL_HEAP_SIZE - HEAP_HDR);
          m = set_next m b 0;
          m = set_free m b 1
      in \<lparr>free_list = b, hmem = m\<rparr>)"

partial_function (option) kmalloc_find :: "mem \<Rightarrow> u32 \<Rightarrow> addr \<Rightarrow> addr option" where
  "kmalloc_find m sz current =
     (if current = 0 then Some 0
      else if hb_free m current \<noteq> 0 \<and> sz \<le> hb_size m current then Some current
      else kmalloc_find m sz (hb_next m current))"

definition kmalloc_split :: "mem \<Rightarrow> addr \<Rightarrow> u32 \<Rightarrow> mem" where
  "kmalloc_split m current sz =
     (if sz + HEAP_HDR + 16 \<le> hb_size m current
      then let new_block = current + HEAP_HDR + sz;
               m = set_size m new_block (hb_size m current - sz - HEAP_HDR);
               m = set_next m new_block (hb_next m current);
               m = set_free m new_block 1;
               m = set_size m current sz
           in set_next m current new_block
      else m)"

definition kmalloc :: "heap \<Rightarrow> u32 \<Rightarrow> (addr \<times> heap) option" where
  "kmalloc h sz0 =
     (if sz0 = 0 then Some (0, h)
      else let sz = align16 sz0 in
        if free_list h = 0 then Some (0, h)
        else do {
          current \<leftarrow> kmalloc_find (hmem h) sz (free_list h);
          if current = 0 then Some (0, h)
          else let m = set_free (kmalloc_split (hmem h) current sz) current 0
               in Some (current + HEAP_HDR, h\<lparr>hmem := m\<rparr>) })"

definition kfree :: "heap \<Rightarrow> addr \<Rightarrow> heap" where
  "kfree h ptr =
     (if ptr = 0 then h
      else let block = ptr - HEAP_HDR;
               m = set_free (hmem h) block 1
           in if hb_next m block \<noteq> 0 \<and> hb_free m (hb_next m block) \<noteq> 0
              then let m' = set_size m block
                              (hb_size m block + (hb_size m (hb_next m block) + HEAP_HDR))
                   in h\<lparr>hmem := set_next m' block (hb_next m' (hb_next m' block))\<rparr>
              else h\<lparr>hmem := m\<rparr>)"

definition krealloc :: "heap \<Rightarrow> addr \<Rightarrow> u32 \<Rightarrow> (addr \<times> heap) option" where
  "krealloc h ptr sz =
     (if sz = 0 then Some (0, kfree h ptr)
      else if ptr = 0 then kmalloc h sz
      else let block = ptr - HEAP_HDR in
        if sz \<le> hb_size (hmem h) block then Some (ptr, h)
        else do {
          (new_ptr, h') \<leftarrow> kmalloc h sz;
          if new_ptr = 0 then Some (0, h')
          else let m = memcpy (hmem h') new_ptr ptr (hb_size (hmem h') block)
               in Some (new_ptr, kfree (h'\<lparr>hmem := m\<rparr>) ptr) })"

record heap_stats =
  total_size :: u32
  used_size :: u32
  free_size :: u32
  allocated_blocks :: u32
  free_blocks :: u32
  largest_free_block :: u32
  overhead :: u32

partial_function (option) heap_stats_loop ::
    "mem \<Rightarrow> addr \<Rightarrow> heap_stats \<Rightarrow> heap_stats option" where
  "heap_stats_loop m current st =
     (if current = 0 then Some st
      else heap_stats_loop m (hb_next m current)
        (if hb_free m current \<noteq> 0
         then st\<lparr>free_size := free_size st + hb_size m current,
                 free_blocks := free_blocks st + 1,
                 largest_free_block :=
                   (if largest_free_block st < hb_size m current then hb_size m current
                    else largest_free_block st)\<rparr>
         else st\<lparr>used_size := used_size st + hb_size m current,
                 allocated_blocks := allocated_blocks st + 1\<rparr>))"

text \<open>\<open>stats\<close> is the structure passed by the caller; it is left untouched on an empty heap.\<close>

definition get_heap_stats :: "heap \<Rightarrow> heap_stats \<Rightarrow> heap_stats option" where
  "get_heap_stats h stats =
     (if free_list h = 0 then Some stats
      else do {
        st \<leftarrow> heap_stats_loop (hmem h) (free_list h)
          \<lparr>total_size = KERNEL_HEAP_SIZE, used_size = 0, free_size = 0, allocated_blocks = 0,
           free_blocks = 0, largest_free_block = 0, overhead = overhead stats\<rparr>;
        Some (st\<lparr>overhead := (allocated_blocks st + free_blocks st) * HEAP_HDR\<rparr>) })"

subsection \<open>The tiling invariant and the abstract view\<close>

definition link :: "mem \<Rightarrow> addr \<Rightarrow> addr" where
  "link m b = (if hb_next m b = 0 then KERNEL_HEAP_END else hb_next m b)"

fun chain :: "mem \<Rightarrow> addr \<Rightarrow> addr list \<Rightarrow> addr \<Rightarrow> bool" where
  "chain m p [] q = (p = q)"
| "chain m p (a # as) q =
     (a = p \<and> hb_next m a \<noteq> KERNEL_HEAP_END \<and>
      unat a + 12 + unat (hb_size m a) = unat (link m a) \<and> chain m (link m a) as q)"

definition heap_inv :: "heap \<Rightarrow> addr list \<Rightarrow> bool" where
  "heap_inv h as \<longleftrightarrow> free_list h = KERNEL_HEAP_START \<and>
     chain (hmem h) KERNEL_HEAP_START as KERNEL_HEAP_END"

definition heap_ok :: "heap \<Rightarrow> bool" where
  "heap_ok h \<longleftrightarrow> (\<exists>as. heap_inv h as)"

definition owned :: "heap \<Rightarrow> addr \<rightharpoonup> nat" where
  "owned h p = (if \<exists>as. heap_inv h as \<and> p - HEAP_HDR \<in> set as \<and> hb_free (hmem h) (p - HEAP_HDR) = 0
     then Some (unat (hb_size (hmem h) (p - HEAP_HDR))) else None)"

text \<open>The bytes that a set of statistics accounts for: payloads and headers.\<close>

definition accounted :: "heap_stats \<Rightarrow> u32" where
  "accounted st = used_size st + free_size st + HEAP_HDR * (allocated_blocks st + free_blocks st)"

subsection \<open>Headers\<close>

lemmas hb_defs = hb_size_def hb_next_def hb_free_def set_size_def set_next_def set_free_def

lemma hdr_cong:
  assumes "unat b + 12 \<le> 2 ^ 32" "\<And>x. x \<in> region b 12 \<Longrightarrow> m x = m' x"
  shows "hb_size m b = hb_size m' b" "hb_next m b = hb_next m' b" "hb_free m b = hb_free m' b"
proof -
  have "unat (b + 4) = unat b + 4" "unat (b + 8) = unat b + 8"
    using assms(1) by (simp_all add: unat_plus_simple32)
  then show "hb_size m b = hb_size m' b" "hb_next m b = hb_next m' b" "hb_free m b = hb_free m' b"
    using assms by (auto simp: hb_defs region_def intro!: rd32_cong)
qed

lemma set_hdr_frame:
  assumes "unat b + 12 \<le> 2 ^ 32" "x \<notin> region b 12"
  shows "set_size m b v x = m x" "set_next m b v x = m x" "set_free m b w x = m x"
proof -
  have "unat (b + 4) = unat b + 4" "unat (b + 8) = unat b + 8"
    using assms(1) by (simp_all add: unat_plus_simple32)
  with assms show "set_size m b v x = m x" "set_next m b v x = m x" "set_free m b w x = m x"
    by (auto simp: hb_defs region_def intro!: wr32_other)
qed

lemma hb_set_same:
  assumes "unat b + 12 \<le> 2 ^ 32"
  shows "hb_size (set_size m b v) b = v" "hb_next (set_size m b v) b = hb_next m b"
    "hb_free (set_size m b v) b = hb_free m b"
    "hb_size (set_next m b v) b = hb_size m b" "hb_next (set_next m b v) b = v"
    "hb_free (set_next m b v) b = hb_free m b"
    "hb_size (set_free m b w) b = hb_size m b" "hb_next (set_free m b w) b = hb_next m b"
    "hb_free (set_free m b w) b = w"
proof -
  have u: "unat (b + 4) = unat b + 4" "unat (b + 8) = unat b + 8"
    using assms(1) by (simp_all add: unat_plus_simple32)
  show "hb_size (set_size m b v) b = v" "hb_next (set_next m b v) b = v"
    "hb_free (set_free m b w) b = w" by (simp_all add: hb_defs mem_simps)
  show "hb_next (set_size m b v) b = hb_next m b" "hb_size (set_next m b v) b = hb_size m b"
    "hb_size (set_free m b w) b = hb_size m b" "hb_next (set_free m b w) b = hb_next m b"
    using assms u by (auto simp: hb_defs region_def wr32_other intro!: rd32_cong)
  show "hb_free (set_size m b v) b = hb_free m b" "hb_free (set_next m b v) b = hb_free m b"
    using assms u by (auto simp: hb_defs region_def intro!: wr32_other)
qed


subsection \<open>Chains of blocks\<close>

lemma heap_end [simp]: "unat KERNEL_HEAP_END = 16777216" "unat KERNEL_HEAP_START = 8388608"
    "unat HEAP_HDR = 12" "KERNEL_HEAP_END \<noteq> 0" "KERNEL_HEAP_START \<noteq> 0"
    "KERNEL_HEAP_START \<noteq> KERNEL_HEAP_END" "KERNEL_HEAP_END \<noteq> KERNEL_HEAP_START"
  by (simp_all add: KERNEL_HEAP_END_def KERNEL_HEAP_START_def HEAP_HDR_def)

lemma chain_append: "chain m p (xs @ ys) q \<longleftrightarrow> (\<exists>r. chain m p xs r \<and> chain m r ys q)"
  by (induction xs arbitrary: p) auto

lemma chain_split: "chain m p (xs @ a # ys) q \<longleftrightarrow> chain m p xs a \<and> chain m a (a # ys) q"
  by (auto simp: chain_append)

lemma chain_le: "chain m p as q \<Longrightarrow> unat p + 12 * length as \<le> unat q"
  by (induction as arbitrary: p) fastforce+

lemma chain_mem:
  "chain m p as q \<Longrightarrow> a \<in> set as \<Longrightarrow> unat p \<le> unat a \<and> unat a + 12 + unat (hb_size m a) \<le> unat q"
proof (induction as arbitrary: p)
  case (Cons b as)
  have "unat (link m b) \<le> unat q" using chain_le [of m "link m b" as q] Cons.prems by auto
  with Cons show ?case by fastforce
qed simp

lemma chain_cong:
  assumes "chain m p as q" "unat q \<le> unat KERNEL_HEAP_END"
    and "\<And>a x. a \<in> set as \<Longrightarrow> x \<in> region a 12 \<Longrightarrow> m' x = m x"
  shows "chain m' p as q"
  using assms(1,3)
proof (induction as arbitrary: p)
  case (Cons a as)
  have "unat a + 12 \<le> 2 ^ 32" using chain_mem [OF Cons.prems(1), of a] assms(2) by simp
  then have "hb_size m' a = hb_size m a" "hb_next m' a = hb_next m a"
    using Cons.prems(2) by (auto intro!: hdr_cong)
  moreover have "chain m' (link m a) as q" by (rule Cons.IH) (use Cons.prems in auto)
  ultimately show ?case using Cons.prems(1) by (auto simp: link_def)
qed simp

lemma chain_unique: "chain m p as q \<Longrightarrow> chain m p bs q \<Longrightarrow> as = bs"
proof (induction as arbitrary: p bs)
  case Nil
  then show ?case using chain_le [of m p bs q] by (cases bs) auto
next
  case (Cons a as)
  then show ?case using chain_le [of m p "a # as" q] by (cases bs) auto
qed

lemma chain_order:
  assumes "chain m p as q" "a \<in> set as" "b \<in> set as" "a \<noteq> b"
  shows "unat a + 12 + unat (hb_size m a) \<le> unat b \<or> unat b + 12 + unat (hb_size m b) \<le> unat a"
  using assms(1-3)
proof (induction as arbitrary: p)
  case (Cons c as)
  show ?case
  proof (cases "a = c \<or> b = c")
    case True
    with Cons.prems assms(4) have "a = c \<and> b \<in> set as \<or> b = c \<and> a \<in> set as" by auto
    with Cons.prems chain_mem [of m "link m c" as q] show ?thesis by fastforce
  next
    case False
    with Cons show ?thesis by auto
  qed
qed simp

lemma chain_next:
  assumes "chain m p (a # as) KERNEL_HEAP_END"
  shows "hb_next m a = 0 \<longleftrightarrow> as = []" "as \<noteq> [] \<Longrightarrow> hb_next m a = hd as \<and> link m a = hd as"
proof -
  show iff: "hb_next m a = 0 \<longleftrightarrow> as = []"
  proof
    assume "hb_next m a = 0"
    then have "chain m KERNEL_HEAP_END as KERNEL_HEAP_END" using assms by (simp add: link_def)
    then show "as = []" using chain_le by fastforce
  next
    assume "as = []"
    with assms show "hb_next m a = 0" by (auto simp: link_def split: if_splits)
  qed
  assume "as \<noteq> []"
  with iff assms show "hb_next m a = hd as \<and> link m a = hd as"
    by (cases as) (auto simp: link_def split: if_splits)
qed

lemma chain_nonzero: "chain m p as q \<Longrightarrow> 0 < unat p \<Longrightarrow> a \<in> set as \<Longrightarrow> a \<noteq> 0"
  using chain_mem by fastforce

lemma kmalloc_find_chain:
  assumes "chain m p as KERNEL_HEAP_END" "0 < unat p" "as \<noteq> []"
  shows "kmalloc_find m sz p =
    Some (case List.find (\<lambda>a. hb_free m a \<noteq> 0 \<and> sz \<le> hb_size m a) as of None \<Rightarrow> 0 | Some a \<Rightarrow> a)"
  using assms
proof (induction as arbitrary: p)
  case (Cons a as)
  have p: "a = p" "p \<noteq> 0" using Cons.prems by auto
  note nxt = chain_next [OF Cons.prems(1)]
  show ?case
  proof (cases "as = []")
    case True
    with nxt p show ?thesis by (auto simp: kmalloc_find.simps)
  next
    case False
    have "0 < unat (link m a)" using Cons.prems(1,2) by auto
    then have "kmalloc_find m sz (link m a) =
        Some (case List.find (\<lambda>a. hb_free m a \<noteq> 0 \<and> sz \<le> hb_size m a) as of None \<Rightarrow> 0 | Some a \<Rightarrow> a)"
      using Cons.IH [of "link m a"] Cons.prems(1) False by auto
    with nxt(2) [OF False] p show ?thesis by (simp add: kmalloc_find.simps [of m sz p])
  qed
qed simp


lemma chain_replace:
  assumes "chain m p xs a" "chain m r ys q" "unat r \<le> unat q" "unat q \<le> unat KERNEL_HEAP_END"
    and "chain m' a mid r"
    and same: "\<And>x. unat x < unat a \<or> unat r \<le> unat x \<Longrightarrow> m' x = m x"
  shows "chain m' p (xs @ mid @ ys) q"
proof -
  have "unat a \<le> unat r" using chain_le [OF assms(5)] by simp
  then have "chain m' p xs a"
    using assms(1,3,4) chain_mem [OF assms(1)]
    by (intro chain_cong [OF assms(1)] same) (fastforce simp: region_def)+
  moreover have "chain m' r ys q"
    using assms(4) chain_mem [OF assms(2)]
    by (intro chain_cong [OF assms(2)] same) (fastforce simp: region_def)+
  ultimately show ?thesis using assms(5) by (auto simp: chain_append)
qed

text \<open>Cutting one block of a chain in two: the memory that \<open>kmalloc\<close> leaves at its block.\<close>

lemma kmalloc_split_block:
  assumes blk: "unat a + 12 + unat (hb_size m a) = unat (link m a)" "unat (link m a) \<le> unat KERNEL_HEAP_END"
    "0 < unat a" "hb_next m a \<noteq> KERNEL_HEAP_END" and fits: "sz \<le> hb_size m a"
  defines "m' \<equiv> set_free (kmalloc_split m a sz) a 0"
  shows "\<exists>new. chain m' a (a # new) (link m a) \<and> (\<forall>b\<in>set new. hb_free m' b \<noteq> 0) \<and>
    hb_free m' a = 0 \<and> sz \<le> hb_size m' a \<and>
    (\<forall>x. unat x < unat a \<or> unat (link m a) \<le> unat x \<longrightarrow> m' x = m x)"
proof (cases "sz + HEAP_HDR + 16 \<le> hb_size m a")
  case False
  have a12: "unat a + 12 \<le> 2 ^ 32" using blk by simp
  have m': "m' = set_free m a 0" using False by (simp add: m'_def kmalloc_split_def)
  have "m' x = m x" if "unat x < unat a \<or> unat (link m a) \<le> unat x" for x
    using that blk(1) a12 by (auto simp: m' region_def intro!: set_hdr_frame)
  with blk fits a12 show ?thesis
    by (intro exI [of _ "[]"]) (simp add: m' hb_set_same link_def)
next
  case True
  let ?n = "a + HEAP_HDR + sz"
  have a12: "unat a + 12 \<le> 2 ^ 32" using blk by simp
  have le: "unat sz \<le> unat (hb_size m a)" using fits by (simp add: word_le_nat_alt)
  have "unat (sz + HEAP_HDR + 16) = unat sz + 12 + 16"
    using le blk(1,2) by (simp add: unat_plus_simple32)
  with True have room: "unat sz + 28 \<le> unat (hb_size m a)" by (simp add: word_le_nat_alt)
  have n: "unat ?n = unat a + 12 + unat sz" using le blk(1,2) by (simp add: unat_plus_simple32)
  have n12: "unat ?n + 12 \<le> 2 ^ 32" using n le blk(1,2) room by simp
  have sub: "unat (hb_size m a - sz - HEAP_HDR) = unat (hb_size m a) - unat sz - 12"
    using room by (simp add: unat_sub word_le_nat_alt)
  define m1 where "m1 = set_free (set_next (set_size m ?n (hb_size m a - sz - HEAP_HDR)) ?n (hb_next m a)) ?n 1"
  have m1a: "hb_size m1 a = hb_size m a" "hb_next m1 a = hb_next m a"
    using a12 n12 n by (auto simp: m1_def set_hdr_frame region_def intro!: hdr_cong)
  have m1s: "hb_next (set_size m ?n (hb_size m a - sz - HEAP_HDR)) a = hb_next m a"
    using a12 n12 n by (auto simp: set_hdr_frame region_def intro!: hdr_cong)
  have m': "m' = set_free (set_next (set_size m1 a sz) a ?n) a 0"
    using True by (simp add: m'_def kmalloc_split_def m1_def m1s Let_def)
  have m'n: "hb_size m' ?n = hb_size m1 ?n" "hb_next m' ?n = hb_next m1 ?n" "hb_free m' ?n = hb_free m1 ?n"
    using a12 n12 n by (auto simp: m' set_hdr_frame region_def intro!: hdr_cong)
  have m1n: "hb_size m1 ?n = hb_size m a - sz - HEAP_HDR" "hb_next m1 ?n = hb_next m a" "hb_free m1 ?n = 1"
    using n12 by (simp_all add: m1_def hb_set_same)
  have m'a: "hb_size m' a = sz" "hb_next m' a = ?n" "hb_free m' a = 0"
    using a12 by (simp_all add: m' hb_set_same)
  have frame: "m' x = m x" if "unat x < unat a \<or> unat (link m a) \<le> unat x" for x
    using that blk(1) a12 n12 n room by (auto simp: m' m1_def set_hdr_frame region_def)
  have "?n \<noteq> 0" "?n \<noteq> KERNEL_HEAP_END" using n blk room by (auto simp: word_unat_eq_iff)
  then have "chain m' a [a, ?n] (link m a)"
    using blk n sub room by (auto simp add: link_def m'a m'n m1n)
  moreover have "\<forall>b\<in>set [?n]. hb_free m' b \<noteq> 0" using m'n m1n by simp
  moreover have "hb_free m' a = 0 \<and> sz \<le> hb_size m' a" using m'a by simp
  ultimately show ?thesis using frame by blast
qed


lemma chain_block:
  assumes "chain m p (xs @ a # ys) KERNEL_HEAP_END" "0 < unat p"
  shows "chain m p xs a" "chain m (link m a) ys KERNEL_HEAP_END"
    "unat a + 12 + unat (hb_size m a) = unat (link m a)" "unat (link m a) \<le> unat KERNEL_HEAP_END"
    "0 < unat a" "hb_next m a \<noteq> KERNEL_HEAP_END" "unat a + 12 \<le> 2 ^ 32"
proof -
  have c: "chain m p xs a" "chain m a (a # ys) KERNEL_HEAP_END"
    using assms(1) by (simp_all only: chain_split)
  then show "chain m p xs a" "chain m (link m a) ys KERNEL_HEAP_END"
    and 1: "unat a + 12 + unat (hb_size m a) = unat (link m a)" and "hb_next m a \<noteq> KERNEL_HEAP_END"
    by simp_all
  show 2: "unat (link m a) \<le> unat KERNEL_HEAP_END" using chain_le [of m "link m a" ys KERNEL_HEAP_END] c by auto
  show "0 < unat a" using chain_le [OF c(1)] assms(2) by simp
  show "unat a + 12 \<le> 2 ^ 32" using 1 2 by simp
qed

lemma heap_inv_find:
  assumes "heap_inv h as" "sz \<noteq> 0"
  shows "kmalloc h sz = (case List.find (\<lambda>a. hb_free (hmem h) a \<noteq> 0 \<and> align16 sz \<le> hb_size (hmem h) a) as
    of None \<Rightarrow> Some (0, h)
     | Some a \<Rightarrow> Some (a + HEAP_HDR, h\<lparr>hmem := set_free (kmalloc_split (hmem h) a (align16 sz)) a 0\<rparr>))"
proof -
  have c: "chain (hmem h) KERNEL_HEAP_START as KERNEL_HEAP_END" and f: "free_list h = KERNEL_HEAP_START"
    using assms(1) by (simp_all add: heap_inv_def)
  then have "as \<noteq> []" by auto
  then have find: "kmalloc_find (hmem h) (align16 sz) KERNEL_HEAP_START =
      Some (case List.find (\<lambda>a. hb_free (hmem h) a \<noteq> 0 \<and> align16 sz \<le> hb_size (hmem h) a) as
            of None \<Rightarrow> 0 | Some a \<Rightarrow> a)"
    using c by (intro kmalloc_find_chain) simp_all
  show ?thesis
  proof (cases "List.find (\<lambda>a. hb_free (hmem h) a \<noteq> 0 \<and> align16 sz \<le> hb_size (hmem h) a) as")
    case None
    with find f assms(2) show ?thesis by (simp add: kmalloc_def)
  next
    case (Some a)
    then have "a \<in> set as" by (auto simp: find_Some_iff)
    then have "a \<noteq> 0" using chain_nonzero [OF c] by simp
    with Some find f assms(2) show ?thesis by (simp add: kmalloc_def Let_def)
  qed
qed

text \<open>A successful allocation, in terms of the chain: the block found is cut, everything else stays.\<close>

lemma kmalloc_chain:
  assumes "heap_inv h as" "kmalloc h sz = Some (p, h')" "p \<noteq> 0"
  obtains xs a ys new where "as = xs @ a # ys" "p = a + HEAP_HDR" "heap_inv h' (xs @ a # new @ ys)"
    "hb_free (hmem h) a \<noteq> 0" "hb_free (hmem h') a = 0" "align16 sz \<le> hb_size (hmem h') a"
    "\<forall>b\<in>set new. hb_free (hmem h') b \<noteq> 0"
    "\<And>x. unat x < unat a \<or> unat (link (hmem h) a) \<le> unat x \<Longrightarrow> hmem h' x = hmem h x"
proof -
  have c: "chain (hmem h) KERNEL_HEAP_START as KERNEL_HEAP_END" and f: "free_list h = KERNEL_HEAP_START"
    using assms(1) by (simp_all add: heap_inv_def)
  have sz: "sz \<noteq> 0" using assms(2,3) by (auto simp: kmalloc_def)
  from assms(2,3) obtain a where
    a: "List.find (\<lambda>a. hb_free (hmem h) a \<noteq> 0 \<and> align16 sz \<le> hb_size (hmem h) a) as = Some a"
    and p: "p = a + HEAP_HDR" and h': "h' = h\<lparr>hmem := set_free (kmalloc_split (hmem h) a (align16 sz)) a 0\<rparr>"
    unfolding heap_inv_find [OF assms(1) sz] by (auto split: option.splits)
  from a have pr: "hb_free (hmem h) a \<noteq> 0" "align16 sz \<le> hb_size (hmem h) a" "a \<in> set as"
    by (auto simp: find_Some_iff)
  from pr(3) obtain xs ys where eq: "as = xs @ a # ys" by (meson split_list)
  have c': "chain (hmem h) KERNEL_HEAP_START (xs @ a # ys) KERNEL_HEAP_END" using c eq by simp
  note b = chain_block [OF c', simplified heap_end, simplified]
  obtain new where new: "chain (hmem h') a (a # new) (link (hmem h) a)"
    "\<forall>b\<in>set new. hb_free (hmem h') b \<noteq> 0" "hb_free (hmem h') a = 0" "align16 sz \<le> hb_size (hmem h') a"
    "\<forall>x. unat x < unat a \<or> unat (link (hmem h) a) \<le> unat x \<longrightarrow> hmem h' x = hmem h x"
    using kmalloc_split_block [of a "hmem h" "align16 sz"] b pr(2) by (auto simp: h')
  have "chain (hmem h') KERNEL_HEAP_START (xs @ (a # new) @ ys) KERNEL_HEAP_END"
    using b new(1,5) by (intro chain_replace [of "hmem h" _ xs a "link (hmem h) a"]) auto
  then have "heap_inv h' (xs @ a # new @ ys)" using f by (simp add: heap_inv_def h')
  with that eq p pr(1) new show thesis by blast
qed


subsection \<open>The abstract view\<close>

lemma heap_inv_unique: "heap_inv h as \<Longrightarrow> heap_inv h bs \<Longrightarrow> as = bs"
  by (metis chain_unique heap_inv_def)

lemma owned_iff:
  assumes "heap_inv h as"
  shows "owned h p = Some n \<longleftrightarrow> p - HEAP_HDR \<in> set as \<and> hb_free (hmem h) (p - HEAP_HDR) = 0 \<and>
    n = unat (hb_size (hmem h) (p - HEAP_HDR))"
proof -
  have "(\<exists>bs. heap_inv h bs \<and> p - HEAP_HDR \<in> set bs \<and> hb_free (hmem h) (p - HEAP_HDR) = 0) \<longleftrightarrow>
      p - HEAP_HDR \<in> set as \<and> hb_free (hmem h) (p - HEAP_HDR) = 0"
    (is "?l \<longleftrightarrow> ?r")
  proof
    assume ?l
    then obtain bs where "heap_inv h bs" "p - HEAP_HDR \<in> set bs" "hb_free (hmem h) (p - HEAP_HDR) = 0"
      by (elim exE conjE)
    with heap_inv_unique [OF assms this(1)] show ?r by simp
  next
    assume ?r with assms show ?l by (intro exI [of _ as]) simp
  qed
  then show ?thesis unfolding owned_def by auto
qed

lemma owned_eqI:
  assumes "\<And>p n. owned h p = Some n \<longleftrightarrow> f p = Some n"
  shows "owned h = f"
proof
  fix p show "owned h p = f p" by (metis assms not_None_eq)
qed

lemma heap_inv_mem:
  assumes "heap_inv h as" "a \<in> set as"
  shows "unat KERNEL_HEAP_START \<le> unat a" "unat a + 12 + unat (hb_size (hmem h) a) \<le> unat KERNEL_HEAP_END"
  using assms chain_mem unfolding heap_inv_def by blast+

lemma owned_bounds:
  assumes "heap_inv h as" "owned h p = Some n"
  shows "unat (p - HEAP_HDR) + 12 = unat p" "unat KERNEL_HEAP_START + 12 \<le> unat p"
    "unat p + n \<le> unat KERNEL_HEAP_END"
proof -
  have "p - HEAP_HDR \<in> set as" "n = unat (hb_size (hmem h) (p - HEAP_HDR))"
    using assms by (auto simp: owned_iff)
  note b = heap_inv_mem [OF assms(1) this(1)] this(2)
  have "unat ((p - HEAP_HDR) + HEAP_HDR) = unat (p - HEAP_HDR) + unat HEAP_HDR"
    using b by (intro unat_plus_simple32) simp
  then show "unat (p - HEAP_HDR) + 12 = unat p" by simp
  with b show "unat KERNEL_HEAP_START + 12 \<le> unat p" "unat p + n \<le> unat KERNEL_HEAP_END" by simp_all
qed

text \<open>Two memories that agree on the headers of a chain and differ elsewhere only.\<close>

lemma hdr_outside:
  assumes "heap_inv h (xs @ a # ys)" "b \<in> set xs \<union> set ys"
    and "\<And>x. unat x < unat a \<or> unat (link (hmem h) a) \<le> unat x \<Longrightarrow> m' x = hmem h x"
  shows "hb_size m' b = hb_size (hmem h) b \<and> hb_free m' b = hb_free (hmem h) b"
proof -
  have c: "chain (hmem h) KERNEL_HEAP_START (xs @ a # ys) KERNEL_HEAP_END"
    using assms(1) by (simp add: heap_inv_def)
  note k = chain_block [OF c, simplified heap_end, simplified]
  have "unat b + 12 \<le> unat a \<or> unat (link (hmem h) a) \<le> unat b"
    using assms(2) chain_mem [OF k(1), of b] chain_mem [OF k(2), of b] by auto
  moreover have "unat b + 12 \<le> 2 ^ 32" using heap_inv_mem [OF assms(1), of b] assms(2) by auto
  ultimately show ?thesis using assms(3) by (intro conjI hdr_cong) (auto simp: region_def)
qed

lemma kmalloc_owned:
  assumes "heap_inv h as" "kmalloc h sz = Some (p, h')" "p \<noteq> 0"
  shows "owned h p = None \<and> (\<exists>n. owned h' = (owned h)(p \<mapsto> n) \<and> unat (align16 sz) \<le> n)"
proof -
  obtain xs a ys new where k: "as = xs @ a # ys" "p = a + HEAP_HDR" "heap_inv h' (xs @ a # new @ ys)"
    "hb_free (hmem h) a \<noteq> 0" "hb_free (hmem h') a = 0" "align16 sz \<le> hb_size (hmem h') a"
    "\<forall>b\<in>set new. hb_free (hmem h') b \<noteq> 0"
    "\<And>x. unat x < unat a \<or> unat (link (hmem h) a) \<le> unat x \<Longrightarrow> hmem h' x = hmem h x"
    by (rule kmalloc_chain [OF assms]) blast
  have pa: "p - HEAP_HDR = a" using k(2) by simp
  have "owned h p = None"
    using k(4) pa owned_iff [OF assms(1), of p] by (cases "owned h p") auto
  moreover have "owned h' = (owned h)(p \<mapsto> unat (hb_size (hmem h') a))"
  proof (rule owned_eqI)
    fix q n
    have hdr: "hb_size (hmem h') b = hb_size (hmem h) b \<and> hb_free (hmem h') b = hb_free (hmem h) b"
      if "b \<in> set xs \<union> set ys" for b
      using hdr_outside [of h xs a ys b "hmem h'"] assms(1) k(1,8) that by blast
    have "q = p \<longleftrightarrow> q - HEAP_HDR = a" using k(2) by auto
    then show "owned h' q = Some n \<longleftrightarrow> ((owned h)(p \<mapsto> unat (hb_size (hmem h') a))) q = Some n"
      using k(1,4,5,7) hdr pa
      by (auto simp: owned_iff [OF k(3)] owned_iff [OF assms(1)])
  qed
  ultimately show ?thesis using k(6) by (auto simp: word_le_nat_alt)
qed


lemma kfree_chain:
  assumes inv: "heap_inv h (xs @ a # ys)"
  defines "h' \<equiv> kfree h (a + HEAP_HDR)"
  shows "\<exists>ys'. heap_inv h' (xs @ a # ys') \<and> hb_free (hmem h') a \<noteq> 0 \<and> set ys' \<subseteq> set ys \<and>
    (\<forall>b\<in>set ys - set ys'. hb_free (hmem h) b \<noteq> 0) \<and> (\<forall>x. x \<notin> region a 12 \<longrightarrow> hmem h' x = hmem h x)"
proof -
  have f: "free_list h = KERNEL_HEAP_START"
    and c: "chain (hmem h) KERNEL_HEAP_START (xs @ a # ys) KERNEL_HEAP_END"
    using inv by (simp_all add: heap_inv_def)
  note k = chain_block [OF c, simplified heap_end, simplified]
  have a0: "a + HEAP_HDR \<noteq> 0" using k(5,7) unat_plus_simple32 [of a HEAP_HDR]
    k(3,4) by (auto simp: word_unat_eq_iff)
  define m1 where "m1 = set_free (hmem h) a 1"
  have m1a: "hb_size m1 a = hb_size (hmem h) a" "hb_next m1 a = hb_next (hmem h) a" "hb_free m1 a = 1"
    using k(7) by (simp_all add: m1_def hb_set_same)
  have m1x: "m1 x = hmem h x" if "x \<notin> region a 12" for x
    using that k(7) by (simp add: m1_def set_hdr_frame)
  have l1: "link m1 a = link (hmem h) a" by (simp add: link_def m1a)
  have out: "x \<notin> region a 12" if "unat x < unat a \<or> unat (link (hmem h) a) \<le> unat x" for x
    using that k(3) by (auto simp: region_def)
  have "chain m1 KERNEL_HEAP_START (xs @ [a] @ ys) KERNEL_HEAP_END"
    using k out by (intro chain_replace [of "hmem h" _ xs a "link (hmem h) a"])
      (auto simp: m1x l1 m1a)
  then have c1: "chain m1 KERNEL_HEAP_START (xs @ a # ys) KERNEL_HEAP_END" by simp
  note k1 = chain_block [OF c1, simplified heap_end, simplified]
  have n1: "chain m1 a (a # ys) KERNEL_HEAP_END" using c1 by (simp only: chain_split)
  show ?thesis
  proof (cases "hb_next m1 a \<noteq> 0 \<and> hb_free m1 (hb_next m1 a) \<noteq> 0")
    case False
    then have h': "h' = h\<lparr>hmem := m1\<rparr>" using a0 by (auto simp: h'_def kfree_def m1_def Let_def)
    with f c1 m1a(3) m1x show ?thesis by (intro exI [of _ ys]) (simp add: heap_inv_def)
  next
    case True
    with chain_next [OF n1] obtain b zs where ys: "ys = b # zs" and b: "hb_next m1 a = b" "link m1 a = b"
      by (cases ys) auto
    have c2: "chain m1 KERNEL_HEAP_START ((xs @ [a]) @ b # zs) KERNEL_HEAP_END" using c1 ys by simp
    note kb = chain_block [OF c2, simplified heap_end, simplified]
    define m2 where "m2 = set_size m1 a (hb_size m1 a + (hb_size m1 b + HEAP_HDR))"
    define m3 where "m3 = set_next m2 a (hb_next m2 b)"
    have h': "h' = h\<lparr>hmem := m3\<rparr>"
      using True a0 k(7) b by (simp add: h'_def kfree_def m1_def m2_def m3_def Let_def hb_set_same)
    have m3x: "m3 x = m1 x" if "x \<notin> region a 12" for x
      using that k(7) by (simp add: m2_def m3_def set_hdr_frame)
    have sep: "unat a + 12 \<le> unat b" using k1(3) b by simp
    have m2b: "hb_next m2 b = hb_next m1 b"
      using kb(7) sep k(7) by (auto simp: m2_def set_hdr_frame region_def intro!: hdr_cong)
    have m3a: "hb_size m3 a = hb_size m1 a + (hb_size m1 b + HEAP_HDR)" "hb_next m3 a = hb_next m1 b"
      "hb_free m3 a = 1"
      using k(7) m2b m1a(3) by (simp_all add: m2_def m3_def hb_set_same)
    have sum: "unat (hb_size m3 a) = unat (hb_size m1 a) + unat (hb_size m1 b) + 12"
      using k1(3) b kb(3,4) by (simp add: m3a unat_plus_simple32)
    have l3: "link m3 a = link m1 b" by (simp add: link_def m3a)
    have rb: "x \<notin> region a 12" if "unat x < unat a \<or> unat (link m1 b) \<le> unat x" for x
      using that sep kb(3) by (auto simp: region_def)
    have "chain m3 KERNEL_HEAP_START (xs @ [a] @ zs) KERNEL_HEAP_END"
      using k1 kb b sum l3 m3a rb
      by (intro chain_replace [of m1 _ xs a "link m1 b"]) (auto simp: m3x)
    then have "heap_inv h' (xs @ a # zs)" using f h' by (simp add: heap_inv_def)
    moreover have "hb_free (hmem h) b \<noteq> 0"
      using True b sep kb(7) hdr_cong(3) [of b m1 "hmem h"] m1x by (auto simp: region_def)
    ultimately show ?thesis using h' m3a(3) m3x m1x ys by (intro exI [of _ zs]) auto
  qed
qed


subsection \<open>The heap is an allocator\<close>

lemma heap_inv_payload:
  assumes "heap_inv h as" "a \<in> set as"
  shows "a + HEAP_HDR \<noteq> 0" "unat (a + HEAP_HDR) = unat a + 12"
proof -
  show "unat (a + HEAP_HDR) = unat a + 12"
    using heap_inv_mem [OF assms] by (simp add: unat_plus_simple32)
  then show "a + HEAP_HDR \<noteq> 0" by (auto simp: word_unat_eq_iff)
qed

lemma kmalloc_null:
  assumes "heap_inv h as" "sz \<noteq> 0"
  shows "(\<exists>h'. kmalloc h sz = Some (0, h')) \<longleftrightarrow>
      (\<forall>a\<in>set as. hb_free (hmem h) a = 0 \<or> hb_size (hmem h) a < align16 sz)"
    and "kmalloc h sz = Some (0, h') \<Longrightarrow> h' = h"
proof -
  let ?find = "List.find (\<lambda>a. hb_free (hmem h) a \<noteq> 0 \<and> align16 sz \<le> hb_size (hmem h) a) as"
  have nz: "?find = Some a \<Longrightarrow> a + HEAP_HDR \<noteq> 0" for a
    using heap_inv_payload(1) [OF assms(1)] by (auto simp: find_Some_iff)
  show "(\<exists>h'. kmalloc h sz = Some (0, h')) \<longleftrightarrow>
      (\<forall>a\<in>set as. hb_free (hmem h) a = 0 \<or> hb_size (hmem h) a < align16 sz)"
  proof (cases ?find)
    case None
    then have "\<forall>a\<in>set as. hb_free (hmem h) a = 0 \<or> hb_size (hmem h) a < align16 sz"
      by (auto simp: find_None_iff not_le)
    moreover have "kmalloc h sz = Some (0, h)" using heap_inv_find [OF assms] None by simp
    ultimately show ?thesis by simp
  next
    case (Some a)
    then have "a \<in> set as \<and> hb_free (hmem h) a \<noteq> 0 \<and> align16 sz \<le> hb_size (hmem h) a"
      by (auto simp: find_Some_iff)
    then show ?thesis using heap_inv_find [OF assms] Some nz by (auto simp: not_less)
  qed
  show "kmalloc h sz = Some (0, h') \<Longrightarrow> h' = h"
    using heap_inv_find [OF assms] nz by (auto split: option.splits)
qed

lemma kmalloc_zero: "kmalloc h 0 = Some (0, h)"
  by (simp add: kmalloc_def)

lemma kmalloc_total: "heap_ok h \<Longrightarrow> \<exists>p h'. kmalloc h sz = Some (p, h') \<and> heap_ok h'"
proof -
  assume ok: "heap_ok h"
  then obtain as where inv: "heap_inv h as" by (auto simp: heap_ok_def)
  have "kmalloc h sz \<noteq> None"
    using heap_inv_find [OF inv, of sz] by (cases "sz = 0") (auto simp: kmalloc_zero split: option.splits)
  then obtain p h' where r: "kmalloc h sz = Some (p, h')" by auto
  have "heap_ok h'"
  proof (cases "p = 0")
    case True
    then have "h' = h" using r kmalloc_null(2) [OF inv] kmalloc_zero [of h] by (cases "sz = 0") auto
    with ok show ?thesis by simp
  next
    case False
    then show ?thesis using kmalloc_chain [OF inv r] by (auto simp: heap_ok_def)
  qed
  with r show ?thesis by blast
qed

lemma kmalloc_frame:
  assumes "heap_inv h as" "kmalloc h sz = Some (p, h')" "owned h q = Some k" "x \<in> region q k"
  shows "hmem h' x = hmem h x"
proof (cases "p = 0")
  case True
  then show ?thesis
    using assms(2) kmalloc_null(2) [OF assms(1)] kmalloc_zero [of h] by (cases "sz = 0") auto
next
  case False
  obtain xs a ys where k: "as = xs @ a # ys" "hb_free (hmem h) a \<noteq> 0"
    and same: "\<And>x. unat x < unat a \<or> unat (link (hmem h) a) \<le> unat x \<Longrightarrow> hmem h' x = hmem h x"
    by (rule kmalloc_chain [OF assms(1,2) False]) blast
  have q: "q - HEAP_HDR \<in> set as" "hb_free (hmem h) (q - HEAP_HDR) = 0"
      "k = unat (hb_size (hmem h) (q - HEAP_HDR))"
    using assms(1,3) by (auto simp: owned_iff)
  have c: "chain (hmem h) KERNEL_HEAP_START as KERNEL_HEAP_END"
    using assms(1) by (simp add: heap_inv_def)
  have "unat a + 12 + unat (hb_size (hmem h) a) = unat (link (hmem h) a)"
    using chain_block(3) [of "hmem h" KERNEL_HEAP_START xs a ys] c k(1) by simp
  moreover have "unat a + 12 + unat (hb_size (hmem h) a) \<le> unat (q - HEAP_HDR) \<or>
      unat (q - HEAP_HDR) + 12 + unat (hb_size (hmem h) (q - HEAP_HDR)) \<le> unat a"
    using chain_order [OF c _ q(1), of a] k q(2) by auto
  ultimately show ?thesis
    using owned_bounds(1) [OF assms(1,3)] assms(4) q(3) by (intro same) (auto simp: region_def)
qed

lemma owned_disjoint:
  assumes "heap_inv h as" "owned h p = Some j" "owned h q = Some k" "p \<noteq> q"
  shows "region p j \<inter> region q k = {}"
proof -
  have pq: "p - HEAP_HDR \<in> set as" "j = unat (hb_size (hmem h) (p - HEAP_HDR))"
      "q - HEAP_HDR \<in> set as" "k = unat (hb_size (hmem h) (q - HEAP_HDR))"
    using assms(1-3) by (auto simp: owned_iff)
  have "unat (p - HEAP_HDR) + 12 + j \<le> unat (q - HEAP_HDR) \<or>
      unat (q - HEAP_HDR) + 12 + k \<le> unat (p - HEAP_HDR)"
    using chain_order [of "hmem h" KERNEL_HEAP_START as KERNEL_HEAP_END "p - HEAP_HDR" "q - HEAP_HDR"]
      assms(1,4) pq by (simp add: heap_inv_def)
  with owned_bounds(1) [OF assms(1,2)] owned_bounds(1) [OF assms(1,3)] show ?thesis
    by (auto simp: region_def)
qed

lemma kfree_owned:
  assumes "heap_inv h as" "owned h p = Some n"
  shows "heap_ok (kfree h p)" "owned (kfree h p) = (owned h)(p := None)"
    "owned h q = Some k \<Longrightarrow> q \<noteq> p \<Longrightarrow> x \<in> region q k \<Longrightarrow> hmem (kfree h p) x = hmem h x"
    "x \<in> region p n \<Longrightarrow> hmem (kfree h p) x = hmem h x"
proof -
  let ?a = "p - HEAP_HDR" and ?h = "kfree h p"
  obtain xs ys where eq: "as = xs @ ?a # ys"
    using assms by (auto simp: owned_iff dest: split_list)
  then obtain ys' where k: "heap_inv ?h (xs @ ?a # ys')" "hb_free (hmem ?h) ?a \<noteq> 0" "set ys' \<subseteq> set ys"
    "\<forall>b\<in>set ys - set ys'. hb_free (hmem h) b \<noteq> 0" "\<And>x. x \<notin> region ?a 12 \<Longrightarrow> hmem ?h x = hmem h x"
    using kfree_chain [of h xs ?a ys] assms(1) by auto
  then show "heap_ok ?h" by (auto simp: heap_ok_def)
  have c: "chain (hmem h) KERNEL_HEAP_START as KERNEL_HEAP_END"
    using assms(1) by (simp add: heap_inv_def)
  have far: "x \<notin> region ?a 12" if "b \<in> set as" "b \<noteq> ?a" "x \<in> region b (12 + unat (hb_size (hmem h) b))" for b x
    using chain_order [OF c, of ?a b] that eq by (auto simp: region_def)
  have hdr: "hb_size (hmem ?h) b = hb_size (hmem h) b \<and> hb_free (hmem ?h) b = hb_free (hmem h) b"
    if "b \<in> set as" "b \<noteq> ?a" for b
    using heap_inv_mem [OF assms(1) that(1)] far [OF that] k(5)
    by (intro conjI hdr_cong) (auto simp: region_def)
  show "owned ?h = (owned h)(p := None)"
  proof (rule owned_eqI)
    fix q n
    have "q = p \<longleftrightarrow> q - HEAP_HDR = ?a" by auto
    then show "owned ?h q = Some n \<longleftrightarrow> ((owned h)(p := None)) q = Some n"
      using k(2-4) hdr eq by (auto simp: owned_iff [OF k(1)] owned_iff [OF assms(1)])
  qed
  show "hmem ?h x = hmem h x" if "owned h q = Some k" "q \<noteq> p" "x \<in> region q k"
  proof -
    have "q - HEAP_HDR \<in> set as" "q - HEAP_HDR \<noteq> ?a" "k = unat (hb_size (hmem h) (q - HEAP_HDR))"
      using that assms(1) by (auto simp: owned_iff)
    then show ?thesis
      using that(3) owned_bounds(1) [OF assms(1) that(1)]
      by (intro k(5) far [of "q - HEAP_HDR"]) (auto simp: region_def)
  qed
  show "hmem ?h x = hmem h x" if "x \<in> region p n"
    using that owned_bounds(1) [OF assms] by (intro k(5)) (auto simp: region_def)
qed



lemma unat_align16: "unat (align16 sz) = unat (sz + 15) div 16 * 16"
  using unat_and_not_mask [of "sz + 15" 4] by (simp add: align16_def mask_eq_exp_minus_1)

lemma align16_ge: "unat sz \<le> 0xFFFFFFF0 \<Longrightarrow> unat sz \<le> unat (align16 sz)"
  by (simp add: unat_align16 unat_plus_simple32)

lemma align16_wraps: "0xFFFFFFF0 < sz \<Longrightarrow> align16 sz = 0"
proof -
  assume "0xFFFFFFF0 < sz"
  then have "4294967280 < unat sz" by (simp add: word_less_nat_alt)
  moreover have "unat sz < 4294967296" by simp
  ultimately have "unat (sz + 15) < 16"
    by (simp add: unat_word_ariths le_mod_geq del: unat_u32_bound)
  then show ?thesis by (simp add: word_unat_eq_iff unat_align16)
qed

lemma kfree_heap_ok:
  assumes "heap_ok h" "owned h p = Some n"
  shows "heap_ok (kfree h p) \<and> owned (kfree h p) = (owned h)(p := None)"
  using assms kfree_owned(1,2) by (auto simp: heap_ok_def)

interpretation kheap: allocator heap_ok owned hmem kmalloc kfree
proof unfold_locales
  fix h n p h' q j k x
  assume ok: "heap_ok h"
  then obtain as where inv: "heap_inv h as" by (auto simp: heap_ok_def)
  show "\<exists>p h'. kmalloc h n = Some (p, h') \<and> heap_ok h'" by (rule kmalloc_total [OF ok])
  show "kmalloc h n = Some (0, h') \<Longrightarrow> h' = h"
    using kmalloc_null(2) [OF inv] kmalloc_zero [of h] by (cases "n = 0") auto
  show "owned h p = None \<and> (\<exists>k. owned h' = (owned h)(p \<mapsto> k) \<and> (unat n \<le> 0xFFFFFFF0 \<longrightarrow> unat n \<le> k))"
    if "kmalloc h n = Some (p, h')" "p \<noteq> 0"
    using kmalloc_owned [OF inv that] align16_ge [of n] by (meson order_trans)
  show "hmem h' x = hmem h x" if "kmalloc h n = Some (p, h')" "owned h q = Some k" "x \<in> region q k"
    by (rule kmalloc_frame [OF inv that])
  show "heap_ok (kfree h p) \<and> owned (kfree h p) = (owned h)(p := None)" if "owned h p = Some k"
    by (rule kfree_heap_ok [OF ok that])
  show "hmem (kfree h p) x = hmem h x" if "owned h p = Some j" "owned h q = Some k" "x \<in> region q k"
    using kfree_owned(3) [OF inv that(1,2) _ that(3)] kfree_owned(4) [OF inv that(1)] that by (cases "q = p") auto
  show "p \<noteq> 0 \<and> unat p + k < 2 ^ 32" if "owned h p = Some k"
    using owned_bounds [OF inv that] by auto
  show "region p j \<inter> region q k = {}" if "owned h p = Some j" "owned h q = Some k" "p \<noteq> q"
    by (rule owned_disjoint [OF inv that])
qed

subsection \<open>Writing through an owned pointer\<close>

lemma payload_write:
  assumes "heap_inv h as" "owned h q = Some k" "\<And>x. x \<notin> region q k \<Longrightarrow> m' x = hmem h x"
  shows "heap_inv (h\<lparr>hmem := m'\<rparr>) as" "owned (h\<lparr>hmem := m'\<rparr>) = owned h"
proof -
  have c: "chain (hmem h) KERNEL_HEAP_START as KERNEL_HEAP_END"
    using assms(1) by (simp add: heap_inv_def)
  have q: "q - HEAP_HDR \<in> set as" "k = unat (hb_size (hmem h) (q - HEAP_HDR))"
    using assms(1,2) by (auto simp: owned_iff)
  have same: "m' x = hmem h x" if "b \<in> set as" "x \<in> region b 12" for b x
  proof (rule assms(3))
    show "x \<notin> region q k"
      using chain_order [OF c that(1) q(1)] that(2) owned_bounds(1) [OF assms(1,2)] q(2)
      by (cases "b = q - HEAP_HDR") (auto simp: region_def)
  qed
  show inv': "heap_inv (h\<lparr>hmem := m'\<rparr>) as"
    using chain_cong [OF c order_refl, of m'] same assms(1) by (simp add: heap_inv_def)
  have hdr: "hb_size m' b = hb_size (hmem h) b \<and> hb_free m' b = hb_free (hmem h) b" if "b \<in> set as" for b
    using heap_inv_mem [OF assms(1) that] same [OF that] by (intro conjI hdr_cong) auto
  show "owned (h\<lparr>hmem := m'\<rparr>) = owned h"
    by (rule owned_eqI) (auto simp: owned_iff [OF inv'] owned_iff [OF assms(1)] hdr)
qed

lemma krealloc_move:
  assumes ok: "heap_ok h" and p: "owned h p = Some n" and sz: "n < unat sz"
    and r: "kmalloc h sz = Some (q, h1)" "q \<noteq> 0" "owned h1 = (owned h)(q \<mapsto> k)" "unat sz \<le> k" "owned h q = None"
  defines "h2 \<equiv> h1\<lparr>hmem := memcpy (hmem h1) q p (hb_size (hmem h1) (p - HEAP_HDR))\<rparr>"
  shows "heap_ok h2" "owned h2 = owned h1" "\<And>i. i < n \<Longrightarrow> hmem h2 (q + of_nat i) = hmem h (p + of_nat i)"
    "\<And>x j o'. owned h o' = Some j \<Longrightarrow> x \<in> region o' j \<Longrightarrow> hmem h2 x = hmem h x"
proof -
  have ok1: "heap_ok h1" using kheap.malloc_total [OF ok, of sz] r(1) by simp
  then obtain as where inv: "heap_inv h1 as" by (auto simp: heap_ok_def)
  have p1: "owned h1 p = Some n" and q1: "owned h1 q = Some k" and pq: "p \<noteq> q" using p r(3,5) by auto
  have size: "unat (hb_size (hmem h1) (p - HEAP_HDR)) = n" using p1 inv by (simp add: owned_iff)
  have bnd: "unat p + n < 2 ^ 32" "unat q + k < 2 ^ 32"
    using kheap.own_bounds [OF ok1 p1] kheap.own_bounds [OF ok1 q1] by simp_all
  have "region p n \<inter> region q k = {}" using kheap.own_disjoint [OF ok1 p1 q1 pq] .
  moreover have "q \<in> region q k" using sz r(4) by (simp add: region_def)
  ultimately have "q \<notin> region p n" by blast
  then have "unat q \<le> unat p \<or> unat p + n \<le> unat q" by (auto simp: region_def)
  then have cp: "copied (hmem h1) (hmem h2) q p n"
    using memcpy_copied [of q "hb_size (hmem h1) (p - HEAP_HDR)" p "hmem h1"] bnd size sz r(4)
    by (simp add: h2_def)
  have out: "hmem h2 x = hmem h1 x" if "x \<notin> region q k" for x
    using cp that sz r(4) by (auto simp: copied_def region_def)
  show "heap_ok h2" "owned h2 = owned h1"
    using payload_write [OF inv q1, of "hmem h2"] out by (auto simp: h2_def heap_ok_def)
  show "hmem h2 x = hmem h x" if "owned h o' = Some j" "x \<in> region o' j" for x j o'
  proof -
    have "q \<noteq> o'" using r(5) that(1) by auto
    then have "region q k \<inter> region o' j = {}"
      using r(3) that(1) by (intro kheap.own_disjoint [OF ok1 q1]) auto
    then show ?thesis
      using out [of x] that kheap.malloc_frame [OF ok r(1) that] by auto
  qed
  show "hmem h2 (q + of_nat i) = hmem h (p + of_nat i)" if "i < n" for i
  proof -
    have "p + of_nat i \<in> region p n" using that bnd by (intro in_region_of_nat) auto
    then show ?thesis using cp that kheap.malloc_frame [OF ok r(1) p] by (simp add: copied_def)
  qed
qed


subsection \<open>Heap statistics\<close>

lemma heap_stats_chain:
  assumes "chain m p as KERNEL_HEAP_END" "0 < unat p" "as \<noteq> []"
  shows "\<exists>st'. heap_stats_loop m p st = Some st' \<and> total_size st' = total_size st \<and>
    accounted st' = accounted st + (KERNEL_HEAP_END - p) \<and>
    free_blocks st' = free_blocks st + of_nat (length (filter (\<lambda>a. hb_free m a \<noteq> 0) as)) \<and>
    (\<forall>sz. sz \<le> largest_free_block st' \<longleftrightarrow>
       sz \<le> largest_free_block st \<or> (\<exists>a\<in>set as. hb_free m a \<noteq> 0 \<and> sz \<le> hb_size m a))"
  using assms
proof (induction as arbitrary: p st)
  case (Cons a as)
  define st1 where "st1 = (if hb_free m a \<noteq> 0
         then st\<lparr>free_size := free_size st + hb_size m a,
                 free_blocks := free_blocks st + 1,
                 largest_free_block :=
                   (if largest_free_block st < hb_size m a then hb_size m a
                    else largest_free_block st)\<rparr>
         else st\<lparr>used_size := used_size st + hb_size m a,
                 allocated_blocks := allocated_blocks st + 1\<rparr>)"
  have p: "a = p" "p \<noteq> 0" using Cons.prems by auto
  have step: "heap_stats_loop m p st = heap_stats_loop m (hb_next m a) st1"
    using p by (simp add: heap_stats_loop.simps [of m p st] st1_def)
  have "unat (link m a) = unat (a + HEAP_HDR + hb_size m a)"
    using Cons.prems(1) chain_mem [OF Cons.prems(1), of a] by (auto simp: unat_plus_simple32)
  then have lnk: "link m a = a + HEAP_HDR + hb_size m a" by (simp only: word_unat_eq_iff)
  have one: "accounted st1 = accounted st + (link m a - a)"
    "total_size st1 = total_size st"
    "free_blocks st1 = free_blocks st + of_nat (length (filter (\<lambda>a. hb_free m a \<noteq> 0) [a]))"
    "\<And>sz. sz \<le> largest_free_block st1 \<longleftrightarrow>
       sz \<le> largest_free_block st \<or> (hb_free m a \<noteq> 0 \<and> sz \<le> hb_size m a)"
    by (auto simp: st1_def lnk accounted_def algebra_simps)
  show ?case
  proof (cases "as = []")
    case True
    then have nx: "hb_next m a = 0" and lend: "link m a = KERNEL_HEAP_END"
      using chain_next [OF Cons.prems(1)] Cons.prems(1) by auto
    then have "heap_stats_loop m p st = Some st1" using step by (simp add: heap_stats_loop.simps)
    then show ?thesis using one lend True unfolding p(1) [symmetric] by (intro exI [of _ st1]) auto
  next
    case False
    then have nx: "hb_next m a = link m a" using chain_next(2) [OF Cons.prems(1)] by simp
    have "chain m (link m a) as KERNEL_HEAP_END" "0 < unat (link m a)" using Cons.prems by auto
    from Cons.IH [OF this False, of st1] obtain st' where st': "heap_stats_loop m (link m a) st1 = Some st'"
      "total_size st' = total_size st1"
      "accounted st' = accounted st1 + (KERNEL_HEAP_END - link m a)"
      "free_blocks st' = free_blocks st1 + of_nat (length (filter (\<lambda>a. hb_free m a \<noteq> 0) as))"
      "\<forall>sz. sz \<le> largest_free_block st' \<longleftrightarrow>
         sz \<le> largest_free_block st1 \<or> (\<exists>a\<in>set as. hb_free m a \<noteq> 0 \<and> sz \<le> hb_size m a)"
      by blast
    have "accounted st' = accounted st + (KERNEL_HEAP_END - a)" using st'(3) one(1) by simp
    then show ?thesis using st' one(2-4) step nx unfolding p(1) [symmetric]
      by (intro exI [of _ st']) (auto simp: ac_simps)
  qed
qed simp


lemma init_heap_inv: "heap_inv (init_heap m) [KERNEL_HEAP_START]"
  "hb_free (hmem (init_heap m)) KERNEL_HEAP_START = 1"
  "hb_size (hmem (init_heap m)) KERNEL_HEAP_START = KERNEL_HEAP_SIZE - HEAP_HDR"
proof -
  have a: "unat KERNEL_HEAP_START + 12 \<le> 2 ^ 32" by simp
  have n: "hb_next (hmem (init_heap m)) KERNEL_HEAP_START = 0"
    using a by (simp add: init_heap_def Let_def hb_set_same)
  show "hb_free (hmem (init_heap m)) KERNEL_HEAP_START = 1"
    and s: "hb_size (hmem (init_heap m)) KERNEL_HEAP_START = KERNEL_HEAP_SIZE - HEAP_HDR"
    using a by (simp_all add: init_heap_def Let_def hb_set_same)
  have "unat (KERNEL_HEAP_SIZE - HEAP_HDR) = 8388596" by (simp add: KERNEL_HEAP_SIZE_def HEAP_HDR_def)
  then show "heap_inv (init_heap m) [KERNEL_HEAP_START]"
    using n s by (simp add: heap_inv_def link_def) (simp add: init_heap_def Let_def)
qed

lemma filter_free_count:
  assumes "heap_inv h as"
  shows "(of_nat (length (filter P as)) :: u32) = 0 \<longleftrightarrow> (\<forall>a\<in>set as. \<not> P a)"
proof -
  have "12 * length as \<le> unat KERNEL_HEAP_END"
    using assms chain_le [of "hmem h" KERNEL_HEAP_START as KERNEL_HEAP_END] by (simp add: heap_inv_def)
  then have "length as < 2 ^ 32" by simp
  moreover have "length (filter P as) \<le> length as" by simp
  ultimately have lt: "length (filter P as) < 2 ^ 32" by linarith
  have "unat (of_nat (length (filter P as)) :: u32) = length (filter P as)"
    using lt by (simp add: unat_of_nat)
  then have "(of_nat (length (filter P as)) :: u32) = 0 \<longleftrightarrow> length (filter P as) = 0"
    by (simp only: unat_eq_0 [symmetric])
  then show ?thesis by (simp only: length_0_conv filter_empty_conv)
qed

lemma first_alloc:
  assumes "kmalloc (init_heap m) sz = Some (p, h')" "sz \<noteq> 0" "align16 sz \<le> KERNEL_HEAP_SIZE - HEAP_HDR"
  shows "p \<noteq> 0"
proof
  assume "p = 0"
  with assms(1) have "\<exists>h'. kmalloc (init_heap m) sz = Some (0, h')" by simp
  then have "hb_free (hmem (init_heap m)) KERNEL_HEAP_START = 0 \<or>
      hb_size (hmem (init_heap m)) KERNEL_HEAP_START < align16 sz"
    using kmalloc_null(1) [OF init_heap_inv(1) assms(2)] by simp
  with assms(3) show False unfolding init_heap_inv by auto
qed

lemma init_heap_owned: "owned (init_heap m) = Map.empty"
  by (rule owned_eqI) (auto simp: owned_iff [OF init_heap_inv(1)] init_heap_inv(2))

lemma init_heap_ok: "heap_ok (init_heap m)"
  using init_heap_inv(1) by (auto simp: heap_ok_def)

lemma kmalloc_split_size:
  assumes "unat a + 12 \<le> 2 ^ 32" "sz + HEAP_HDR + 16 \<le> hb_size m a"
  shows "hb_size (set_free (kmalloc_split m a sz) a 0) a = sz"
  using assms by (simp add: kmalloc_split_def Let_def hb_set_same)

subsection \<open>Room for allocations\<close>

text \<open>A free block of at least \<open>z\<close> bytes: enough for a run of allocations that fits in it with their headers.\<close>

definition room :: "heap \<Rightarrow> nat \<Rightarrow> bool" where
  "room h z \<longleftrightarrow> (\<exists>as b. heap_inv h as \<and> b \<in> set as \<and> hb_free (hmem h) b \<noteq> 0 \<and> z \<le> unat (hb_size (hmem h) b))"

lemma init_heap_room: "room (init_heap m) 8388596"
proof -
  have "heap_inv (init_heap m) [KERNEL_HEAP_START]" by (rule init_heap_inv(1))
  then show ?thesis
    unfolding room_def by (intro exI [of _ "[KERNEL_HEAP_START]"] exI [of _ KERNEL_HEAP_START]) (simp add: init_heap_inv KERNEL_HEAP_SIZE_def HEAP_HDR_def)
qed

lemma split_rest:
  assumes "unat a + 12 + unat (hb_size m a) \<le> 16777216" "unat sz + 28 \<le> unat (hb_size m a)"
  defines "m' \<equiv> set_free (kmalloc_split m a sz) a 0"
  shows "hb_size m' (a + HEAP_HDR + sz) = hb_size m a - sz - HEAP_HDR" "hb_free m' (a + HEAP_HDR + sz) = 1" "hb_next m' a = a + HEAP_HDR + sz"
proof -
  let ?n = "a + HEAP_HDR + sz"
  have n: "unat ?n = unat a + 12 + unat sz" using assms(1,2) by (simp add: unat_plus_simple32)
  have "unat (sz + HEAP_HDR + 16) = unat sz + 28" using assms(1,2) by (simp add: unat_plus_simple32)
  then have cond: "sz + HEAP_HDR + 16 \<le> hb_size m a" using assms(2) by (simp add: word_le_nat_alt)
  have b: "unat a + 12 \<le> 2 ^ 32" "unat ?n + 12 \<le> 2 ^ 32" using n assms(1,2) by simp_all
  define m1 where "m1 = set_free (set_next (set_size m ?n (hb_size m a - sz - HEAP_HDR)) ?n (hb_next (set_size m ?n (hb_size m a - sz - HEAP_HDR)) a)) ?n 1"
  have e: "m' = set_free (set_next (set_size m1 a sz) a ?n) a 0" using cond by (simp add: m'_def kmalloc_split_def Let_def m1_def)
  have out: "x \<notin> region a 12" if "x \<in> region ?n 12" for x using that n by (auto simp: region_def)
  have "m' x = m1 x" if "x \<in> region ?n 12" for x using out [OF that] b(1) by (simp add: e set_hdr_frame)
  then have "hb_size m' ?n = hb_size m1 ?n" "hb_free m' ?n = hb_free m1 ?n" using hdr_cong [OF b(2), of m' m1] by simp_all
  then show "hb_size m' ?n = hb_size m a - sz - HEAP_HDR" "hb_free m' ?n = 1" using b(2) by (simp_all add: m1_def hb_set_same)
  show "hb_next m' a = ?n" using b(1) by (simp add: e hb_set_same)
qed

lemma kmalloc_room:
  assumes "room h z" "sz \<noteq> 0" "unat (align16 sz) + 28 \<le> z"
  obtains p h' where "kmalloc h sz = Some (p, h')" "p \<noteq> 0" "room h' (z - unat (align16 sz) - 12)"
proof -
  obtain as b where b: "heap_inv h as" "b \<in> set as" "hb_free (hmem h) b \<noteq> 0" "z \<le> unat (hb_size (hmem h) b)" using assms(1) by (auto simp: room_def)
  have ok: "heap_ok h" using b(1) by (auto simp: heap_ok_def)
  obtain p h' where r: "kmalloc h sz = Some (p, h')" using kmalloc_total [OF ok] by blast
  have "\<not> hb_size (hmem h) b < align16 sz" using assms(3) b(4) by (simp add: word_less_nat_alt)
  then have p: "p \<noteq> 0" using kmalloc_null(1) [OF b(1) assms(2)] r b(2,3) by auto
  obtain xs a ys new where c: "as = xs @ a # ys" "p = a + HEAP_HDR" "heap_inv h' (xs @ a # new @ ys)"
    "\<And>x. unat x < unat a \<or> unat (link (hmem h) a) \<le> unat x \<Longrightarrow> hmem h' x = hmem h x"
    using kmalloc_chain [OF b(1) r p] by metis
  have ch: "chain (hmem h) KERNEL_HEAP_START as KERNEL_HEAP_END" "chain (hmem h') KERNEL_HEAP_START (xs @ a # new @ ys) KERNEL_HEAP_END"
    using b(1) c(3) by (simp_all add: heap_inv_def)
  have bb: "unat b + 12 + unat (hb_size (hmem h) b) \<le> 16777216" using chain_mem [OF ch(1) b(2)] by simp
  have "room h' (z - unat (align16 sz) - 12)"
  proof (cases "b = a")
    case False
    have ab: "unat a + 12 + unat (hb_size (hmem h) a) = unat (link (hmem h) a)" using chain_block(3) [of "hmem h" KERNEL_HEAP_START xs a ys] ch(1) c(1) by simp
    have "hmem h' x = hmem h x" if "x \<in> region b 12" for x
    proof (rule c(4))
      show "unat x < unat a \<or> unat (link (hmem h) a) \<le> unat x"
        using chain_order [OF ch(1) b(2), of a] that False c(1) ab by (auto simp: region_def)
    qed
    then have "hb_size (hmem h') b = hb_size (hmem h) b" "hb_free (hmem h') b = hb_free (hmem h) b" using bb by (auto intro!: hdr_cong)
    moreover have "b \<in> set (xs @ a # new @ ys)" using b(2) c(1) False by auto
    ultimately show ?thesis unfolding room_def using c(3) b(3,4) by (intro exI [of _ "xs @ a # new @ ys"] exI [of _ b]) simp
  next
    case True
    let ?n = "a + HEAP_HDR + align16 sz"
    have m': "hmem h' = set_free (kmalloc_split (hmem h) a (align16 sz)) a 0"
      using r p c(2) unfolding heap_inv_find [OF b(1) assms(2)] by (auto split: option.splits)
    have big: "unat (align16 sz) + 28 \<le> unat (hb_size (hmem h) a)" using assms(3) b(4) True by simp
    note s = split_rest [of a "hmem h" "align16 sz", folded m', OF _ big]
    have lim: "unat a + 12 + unat (hb_size (hmem h) a) \<le> 16777216" using bb True by simp
    have n: "unat ?n = unat a + 12 + unat (align16 sz)" using lim big by (simp add: unat_plus_simple32)
    have "chain (hmem h') (link (hmem h') a) (new @ ys) KERNEL_HEAP_END"
      using chain_block(2) [of "hmem h'" KERNEL_HEAP_START xs a "new @ ys"] ch(2) by simp
    moreover have "?n \<noteq> 0" using n by (metis unat_0 add_is_0 zero_neq_numeral)
    ultimately have "chain (hmem h') ?n (new @ ys) KERNEL_HEAP_END" using s(3) [OF lim] by (simp add: link_def)
    moreover have "?n \<noteq> KERNEL_HEAP_END"
    proof
      assume "?n = KERNEL_HEAP_END"
      then have "unat ?n = 16777216" by simp
      with n lim big show False by simp
    qed
    ultimately have "?n \<in> set (new @ ys)" by (cases "new @ ys") auto
    moreover have "unat (hb_size (hmem h') ?n) = unat (hb_size (hmem h) a) - unat (align16 sz) - 12"
      using s(1) [OF lim] big by (simp add: unat_sub word_le_nat_alt)
    ultimately show ?thesis
      unfolding room_def using c(3) s(2) [OF lim] b(4) True by (intro exI [of _ "xs @ a # new @ ys"] exI [of _ ?n]) auto
  qed
  then show thesis using that r p by blast
qed

subsection \<open>What the heap guarantees\<close>

text \<open>After \<open>init_heap\<close> the blocks tile the heap and no pointer is owned, whatever
  was in memory before.\<close>

theorem init_heap_correct: "heap_ok (init_heap m) \<and> owned (init_heap m) = Map.empty"
  by (simp add: init_heap_ok init_heap_owned)

text \<open>C1. On a well-formed heap \<open>kmalloc\<close> always returns (the list walk ends) and keeps the heap
  well formed. A \<open>NULL\<close> result changes nothing. Any other result is a pointer that was not in use, with
  room for the request rounded up to 16, disjoint from every block in use, and no byte of a block in
  use is changed.\<close>

theorem kmalloc_correct:
  assumes "heap_ok h"
  shows "\<exists>p h'. kmalloc h sz = Some (p, h') \<and> heap_ok h' \<and> (p = 0 \<longrightarrow> h' = h) \<and>
    (p \<noteq> 0 \<longrightarrow> owned h p = None \<and> (\<exists>n. owned h' = (owned h)(p \<mapsto> n) \<and> unat (align16 sz) \<le> n \<and>
       (\<forall>q k. owned h q = Some k \<longrightarrow>
          region p n \<inter> region q k = {} \<and> (\<forall>x\<in>region q k. hmem h' x = hmem h x))))"
proof -
  obtain as where inv: "heap_inv h as" using assms by (auto simp: heap_ok_def)
  obtain p h' where r: "kmalloc h sz = Some (p, h')" and ok': "heap_ok h'"
    using kheap.malloc_total [OF assms] by blast
  have "p = 0 \<longrightarrow> h' = h" using kheap.malloc_null [OF assms] r by blast
  moreover have "owned h p = None \<and> (\<exists>n. owned h' = (owned h)(p \<mapsto> n) \<and> unat (align16 sz) \<le> n \<and>
       (\<forall>q k. owned h q = Some k \<longrightarrow>
          region p n \<inter> region q k = {} \<and> (\<forall>x\<in>region q k. hmem h' x = hmem h x)))" if "p \<noteq> 0"
  proof -
    obtain n where n: "owned h p = None" "owned h' = (owned h)(p \<mapsto> n)" "unat (align16 sz) \<le> n"
      using kmalloc_owned [OF inv r \<open>p \<noteq> 0\<close>] by blast
    moreover have "region p n \<inter> region q k = {}" if "owned h q = Some k" for q k
      using kheap.malloc_fresh(3) [OF assms r \<open>p \<noteq> 0\<close> that] n(2) by auto
    ultimately show ?thesis using kheap.malloc_frame [OF assms r] by blast
  qed
  ultimately show ?thesis using r ok' by blast
qed

theorem kmalloc_correct_witness:
  "\<exists>p h'. kmalloc (init_heap (\<lambda>_. 0)) 100 = Some (p, h') \<and> p \<noteq> 0 \<and> heap_ok h' \<and>
     (\<exists>n. owned h' = [p \<mapsto> n] \<and> 112 \<le> n)"
proof -
  let ?h = "init_heap (\<lambda>_. 0)"
  have al: "align16 100 = 112" by (simp add: align16_def)
  obtain p h' where r: "kmalloc ?h 100 = Some (p, h')" "heap_ok h'"
    and n: "p \<noteq> 0 \<longrightarrow> (\<exists>n. owned h' = (owned ?h)(p \<mapsto> n) \<and> unat (align16 100) \<le> n)"
    using kmalloc_correct [OF init_heap_ok, of "\<lambda>_. 0" 100] by blast
  have "p \<noteq> 0" using first_alloc [OF r(1)] al by (simp add: KERNEL_HEAP_SIZE_def HEAP_HDR_def)
  with r n show ?thesis unfolding init_heap_owned al by auto
qed

text \<open>C2. Freeing a pointer in use keeps the heap well formed, ends exactly that ownership (a free
  successor is merged, which no owner can notice), and changes no byte of any block in use.\<close>

theorem kfree_correct:
  assumes "heap_ok h" "owned h p = Some n"
  shows "heap_ok (kfree h p) \<and> owned (kfree h p) = (owned h)(p := None) \<and>
    (\<forall>q k x. owned h q = Some k \<longrightarrow> x \<in> region q k \<longrightarrow> hmem (kfree h p) x = hmem h x)"
  using kheap.release_own [OF assms] kheap.release_frame [OF assms] by blast

theorem kfree_correct_witness:
  "\<exists>p h'. kmalloc (init_heap (\<lambda>_. 0)) 100 = Some (p, h') \<and> owned h' p \<noteq> None \<and> owned (kfree h' p) p = None"
proof -
  obtain p h' where r: "kmalloc (init_heap (\<lambda>_. 0)) 100 = Some (p, h')" "heap_ok h'"
    using kheap.malloc_total [OF init_heap_ok] by blast
  have "p \<noteq> 0" using first_alloc [OF r(1)] by (simp add: align16_def KERNEL_HEAP_SIZE_def HEAP_HDR_def)
  then obtain n where n: "owned h' p = Some n" using kheap.malloc_own [OF init_heap_ok r(1)] by auto
  then have "owned (kfree h' p) p = None" using kfree_correct [OF r(2) n] by simp
  with r n show ?thesis by auto
qed

text \<open>A client that writes only inside the region of a pointer it owns cannot corrupt the
  heap: the blocks still tile it and every ownership stands.\<close>

theorem payload_write_safe:
  assumes "heap_ok h" "owned h q = Some k" "\<forall>x. x \<notin> region q k \<longrightarrow> m' x = hmem h x"
  shows "heap_ok (h\<lparr>hmem := m'\<rparr>) \<and> owned (h\<lparr>hmem := m'\<rparr>) = owned h"
proof -
  obtain as where "heap_inv h as" using assms(1) by (auto simp: heap_ok_def)
  with payload_write [OF this assms(2), of m'] assms(3) show ?thesis by (auto simp: heap_ok_def)
qed

theorem payload_write_safe_witness:
  "\<exists>p h'. kmalloc (init_heap (\<lambda>_. 0)) 100 = Some (p, h') \<and> heap_ok (h'\<lparr>hmem := (hmem h')(p := 255)\<rparr>)"
proof -
  obtain p h' where r: "kmalloc (init_heap (\<lambda>_. 0)) 100 = Some (p, h')" "heap_ok h'"
    using kheap.malloc_total [OF init_heap_ok] by blast
  have "p \<noteq> 0" using first_alloc [OF r(1)] by (simp add: align16_def KERNEL_HEAP_SIZE_def HEAP_HDR_def)
  then obtain n where n: "owned h' p = Some n" "100 \<le> n" using kheap.malloc_own [OF init_heap_ok r(1)] by auto
  then have "heap_ok (h'\<lparr>hmem := (hmem h')(p := 255)\<rparr>)"
    using payload_write_safe [OF r(2) n(1), of "(hmem h')(p := 255)"] by (auto simp: region_def)
  with r show ?thesis by blast
qed

lemma krealloc_spec:
  assumes "heap_ok h" "owned h p = Some n" "sz \<noteq> 0" "unat sz \<le> 0xFFFFFFF0"
  shows "\<exists>q h'. krealloc h p sz = Some (q, h') \<and> heap_ok h' \<and> (q = 0 \<longrightarrow> h' = h) \<and>
    (q \<noteq> 0 \<longrightarrow> (q = p \<or> owned h q = None) \<and> (\<exists>k. owned h' = ((owned h)(p := None))(q \<mapsto> k) \<and> unat sz \<le> k \<and>
       (\<forall>i<n. hmem h' (q + of_nat i) = hmem h (p + of_nat i)) \<and>
       (\<forall>r j x. r \<noteq> p \<longrightarrow> owned h r = Some j \<longrightarrow> x \<in> region r j \<longrightarrow> hmem h' x = hmem h x)))"
proof -
  obtain as where inv: "heap_inv h as" using assms(1) by (auto simp: heap_ok_def)
  have n: "unat (hb_size (hmem h) (p - HEAP_HDR)) = n" using assms(2) inv by (simp add: owned_iff)
  have p0: "p \<noteq> 0" using kheap.own_bounds [OF assms(1,2)] by simp
  obtain q h1 where r: "kmalloc h sz = Some (q, h1)" "heap_ok h1" using kheap.malloc_total [OF assms(1)] by blast
  consider (fits) "unat sz \<le> n" | (fail) "n < unat sz" "q = 0" | (move) "n < unat sz" "q \<noteq> 0" by linarith
  then show ?thesis
  proof cases
    case fits
    then have "krealloc h p sz = Some (p, h)" using assms(3) p0 n by (simp add: krealloc_def word_le_nat_alt)
    moreover have "owned h = ((owned h)(p := None))(p \<mapsto> n)" using assms(2) by (auto simp: fun_eq_iff)
    ultimately show ?thesis using assms(1) fits p0 by blast
  next
    case fail
    then have "krealloc h p sz = Some (0, h)" using assms(3) p0 n r kheap.malloc_null [OF assms(1), of sz h1]
      by (simp add: krealloc_def word_le_nat_alt)
    then show ?thesis using assms(1) by blast
  next
    case move
    obtain k where k: "owned h q = None" "owned h1 = (owned h)(q \<mapsto> k)" "unat sz \<le> k"
      using kheap.malloc_own [OF assms(1) r(1) move(2)] assms(4) by blast
    define h2 where "h2 = h1\<lparr>hmem := memcpy (hmem h1) q p (hb_size (hmem h1) (p - HEAP_HDR))\<rparr>"
    note mv = krealloc_move [OF assms(1,2) move(1) r(1) move(2) k(2,3,1), folded h2_def]
    have run: "krealloc h p sz = Some (q, kfree h2 p)"
      using assms(3) p0 n r(1) move by (simp add: krealloc_def word_le_nat_alt h2_def Let_def)
    have pq: "p \<noteq> q" using assms(2) k(1) by auto
    have p2: "owned h2 p = Some n" using mv(2) k(2) assms(2) pq by simp
    have q2: "owned h2 q = Some k" using mv(2) k(2) by simp
    have "unat q + k < 2 ^ 32" using kheap.own_bounds [OF mv(1) q2] by simp
    then have byte: "hmem (kfree h2 p) (q + of_nat i) = hmem h (p + of_nat i)" if "i < n" for i
      using that mv(3) [OF that] move(1) k(3) kheap.release_frame [OF mv(1) p2 q2]
      by (simp add: in_region_of_nat)
    have "hmem (kfree h2 p) x = hmem h x" if "r \<noteq> p" "owned h r = Some j" "x \<in> region r j" for r j x
    proof -
      have "owned h2 r = Some j" using that(2) mv(2) k(1,2) by auto
      then show ?thesis using that mv(4) [OF that(2,3)] kheap.release_frame [OF mv(1) p2] by simp
    qed
    moreover have "owned (kfree h2 p) = ((owned h)(p := None))(q \<mapsto> k)"
      using kheap.release_own [OF mv(1) p2] mv(2) k(2) pq by (simp add: fun_upd_twist)
    ultimately show ?thesis using run kheap.release_own [OF mv(1) p2] byte k(1,3) move(2) by blast
  qed
qed

lemma krealloc_null:
  assumes "heap_ok h" "owned h p = Some n" "sz \<noteq> 0" "krealloc h p sz = Some (0, h')"
  shows "n < unat sz \<and> kmalloc h sz = Some (0, h)"
proof -
  obtain as where inv: "heap_inv h as" using assms(1) by (auto simp: heap_ok_def)
  have n: "unat (hb_size (hmem h) (p - HEAP_HDR)) = n" using assms(2) inv by (simp add: owned_iff)
  have p0: "p \<noteq> 0" using kheap.own_bounds [OF assms(1,2)] by simp
  obtain q h1 where r: "kmalloc h sz = Some (q, h1)" using kheap.malloc_total [OF assms(1)] by blast
  have big: "n < unat sz" using assms(3,4) p0 n by (auto simp: krealloc_def word_le_nat_alt split: if_splits)
  then have "q = 0" using assms(3,4) p0 n r by (auto simp: krealloc_def word_le_nat_alt Let_def split: if_splits)
  with big r kheap.malloc_null [OF assms(1)] show ?thesis by blast
qed

text \<open>C3. \<open>krealloc\<close> of a pointer in use, for a size of at most \<open>0xFFFFFFF0\<close> bytes, returns and keeps
  the heap well formed and the bytes of every other block in use. Size 0 frees the pointer and gives \<open>NULL\<close>. For any
  other size \<open>NULL\<close> means that the old block is too small and \<open>kmalloc\<close> finds no block, and nothing has changed;
  otherwise the result is the old pointer or one that was not in use, owns at least the requested bytes, replaces the
  old pointer, and starts with the bytes of the old block. (Sizes above \<open>0xFFFFFFF0\<close> are excluded: rounding them up
  to 16 wraps around to 0, so that \<open>kmalloc\<close> hands out a block that is too small.)\<close>

theorem krealloc_correct:
  assumes "heap_ok h" "owned h p = Some n" "unat sz \<le> 0xFFFFFFF0"
  shows "\<exists>q h'. krealloc h p sz = Some (q, h') \<and> heap_ok h' \<and>
    (\<forall>r j x. r \<noteq> p \<longrightarrow> owned h r = Some j \<longrightarrow> x \<in> region r j \<longrightarrow> hmem h' x = hmem h x) \<and>
    (sz = 0 \<longrightarrow> q = 0 \<and> owned h' = (owned h)(p := None)) \<and>
    (sz \<noteq> 0 \<and> q = 0 \<longrightarrow> h' = h \<and> n < unat sz \<and> kmalloc h sz = Some (0, h)) \<and>
    (q \<noteq> 0 \<longrightarrow> (q = p \<or> owned h q = None) \<and>
       (\<exists>k. owned h' = ((owned h)(p := None))(q \<mapsto> k) \<and> unat sz \<le> k) \<and>
       (\<forall>i<n. hmem h' (q + of_nat i) = hmem h (p + of_nat i)))"
proof (cases "sz = 0")
  case True
  then show ?thesis
    using kheap.release_own [OF assms(1,2)] kheap.release_frame [OF assms(1,2)] by (simp add: krealloc_def)
next
  case False
  obtain q h' where s: "krealloc h p sz = Some (q, h')" "heap_ok h'" "q = 0 \<longrightarrow> h' = h"
    "q \<noteq> 0 \<longrightarrow> (q = p \<or> owned h q = None) \<and> (\<exists>k. owned h' = ((owned h)(p := None))(q \<mapsto> k) \<and> unat sz \<le> k \<and>
       (\<forall>i<n. hmem h' (q + of_nat i) = hmem h (p + of_nat i)) \<and>
       (\<forall>r j x. r \<noteq> p \<longrightarrow> owned h r = Some j \<longrightarrow> x \<in> region r j \<longrightarrow> hmem h' x = hmem h x))"
    using krealloc_spec [OF assms(1,2) False assms(3)] by blast
  have "q = 0 \<longrightarrow> n < unat sz \<and> kmalloc h sz = Some (0, h)"
    using krealloc_null [OF assms(1,2) False] s(1) by blast
  moreover have "\<forall>r j x. r \<noteq> p \<longrightarrow> owned h r = Some j \<longrightarrow> x \<in> region r j \<longrightarrow> hmem h' x = hmem h x"
    using s(3,4) by blast
  ultimately show ?thesis using s False by blast
qed

theorem krealloc_correct_witness:
  "\<exists>p h q h'. kmalloc (init_heap (\<lambda>_. 0)) 100 = Some (p, h) \<and> krealloc h p 4000 = Some (q, h') \<and>
     heap_ok h' \<and> q \<noteq> 0 \<and> (\<forall>i<100. hmem h' (q + of_nat i) = hmem h (p + of_nat i))"
proof -
  have al: "align16 100 = 112" "align16 4000 = 4000" by (simp_all add: align16_def)
  obtain p h where r: "kmalloc (init_heap (\<lambda>_. 0)) 100 = Some (p, h)" "p \<noteq> 0" "room h 8388472"
    using kmalloc_room [OF init_heap_room, of 100] al by auto
  obtain q1 h1 where q1: "kmalloc h 4000 = Some (q1, h1)" "q1 \<noteq> 0"
    using kmalloc_room [OF r(3), of 4000, unfolded al, simplified] by blast
  have ok: "heap_ok h" using kheap.malloc_total [OF init_heap_ok] r(1) by (metis option.inject prod.inject)
  obtain n where n: "owned h p = Some n" "100 \<le> n" using kheap.malloc_own [OF init_heap_ok r(1,2)] by auto
  obtain q h' where k: "krealloc h p 4000 = Some (q, h')" "heap_ok h'" "q = 0 \<longrightarrow> kmalloc h 4000 = Some (0, h)"
    "q \<noteq> 0 \<longrightarrow> (\<forall>i<n. hmem h' (q + of_nat i) = hmem h (p + of_nat i))"
    using krealloc_correct [OF ok n(1), of 4000] by auto
  have "q \<noteq> 0" using k(3) q1 by auto
  moreover have "\<forall>i<100. i < n" using n(2) by auto
  ultimately show ?thesis using r(1) k by blast
qed

text \<open>\<open>get_heap_stats\<close> returns on a well-formed heap, and the sizes it reports for used and free
  payloads and for headers add up to the size of the heap.\<close>

theorem heap_stats_account:
  assumes "heap_ok h"
  shows "\<exists>st. get_heap_stats h stats = Some st \<and> total_size st = KERNEL_HEAP_SIZE \<and>
    used_size st + free_size st + overhead st = total_size st"
proof -
  obtain as where c: "chain (hmem h) KERNEL_HEAP_START as KERNEL_HEAP_END" "free_list h = KERNEL_HEAP_START"
    using assms by (auto simp: heap_ok_def heap_inv_def)
  then have "as \<noteq> []" by auto
  let ?st0 = "\<lparr>total_size = KERNEL_HEAP_SIZE, used_size = 0, free_size = 0, allocated_blocks = 0,
           free_blocks = 0, largest_free_block = 0, overhead = overhead stats\<rparr>"
  obtain st where st: "heap_stats_loop (hmem h) KERNEL_HEAP_START ?st0 = Some st"
    "total_size st = KERNEL_HEAP_SIZE" "accounted st = accounted ?st0 + (KERNEL_HEAP_END - KERNEL_HEAP_START)"
    using heap_stats_chain [OF c(1) _ \<open>as \<noteq> []\<close>, of ?st0] by auto
  have "KERNEL_HEAP_END - KERNEL_HEAP_START = KERNEL_HEAP_SIZE"
    by (simp add: KERNEL_HEAP_END_def KERNEL_HEAP_START_def KERNEL_HEAP_SIZE_def)
  with st c(2) show ?thesis by (simp add: get_heap_stats_def accounted_def mult.commute)
qed

theorem heap_stats_account_witness:
  "\<exists>st. get_heap_stats (init_heap (\<lambda>_. 0)) \<lparr>total_size = 0, used_size = 0, free_size = 0, allocated_blocks = 0,
       free_blocks = 0, largest_free_block = 0, overhead = 0\<rparr> = Some st \<and>
     used_size st + free_size st + overhead st = 0x800000"
  using heap_stats_account [OF init_heap_ok] by (fastforce simp: KERNEL_HEAP_SIZE_def)

text \<open>The reported \<open>largest_free_block\<close> decides the next request: \<open>kmalloc\<close> returns
  \<open>NULL\<close> exactly when there is no free block, or the request rounded up to 16 exceeds it.\<close>

theorem heap_stats_predict_kmalloc:
  assumes "heap_ok h" "sz \<noteq> 0" "get_heap_stats h stats = Some st"
  shows "(\<exists>h'. kmalloc h sz = Some (0, h')) \<longleftrightarrow> free_blocks st = 0 \<or> largest_free_block st < align16 sz"
proof -
  obtain as where inv: "heap_inv h as" using assms(1) by (auto simp: heap_ok_def)
  then have c: "chain (hmem h) KERNEL_HEAP_START as KERNEL_HEAP_END" "free_list h = KERNEL_HEAP_START" "as \<noteq> []"
    by (auto simp: heap_inv_def)
  let ?st0 = "\<lparr>total_size = KERNEL_HEAP_SIZE, used_size = 0, free_size = 0, allocated_blocks = 0,
           free_blocks = 0, largest_free_block = 0, overhead = overhead stats\<rparr>"
  obtain st' where st: "heap_stats_loop (hmem h) KERNEL_HEAP_START ?st0 = Some st'"
    "free_blocks st' = of_nat (length (filter (\<lambda>a. hb_free (hmem h) a \<noteq> 0) as))"
    "\<forall>sz. sz \<le> largest_free_block st' \<longleftrightarrow>
       sz \<le> 0 \<or> (\<exists>a\<in>set as. hb_free (hmem h) a \<noteq> 0 \<and> sz \<le> hb_size (hmem h) a)"
    using heap_stats_chain [OF c(1) _ c(3), of ?st0] by auto
  then have eq: "free_blocks st = free_blocks st'" "largest_free_block st = largest_free_block st'"
    using assms(3) c(2) by (auto simp: get_heap_stats_def)
  have "free_blocks st = 0 \<longleftrightarrow> (\<forall>a\<in>set as. hb_free (hmem h) a = 0)"
    using filter_free_count [OF inv, of "\<lambda>a. hb_free (hmem h) a \<noteq> 0"] st(2) eq by simp
  then show ?thesis
    unfolding kmalloc_null(1) [OF inv assms(2)] eq not_le [symmetric]
    using st(3) by (metis word_coorder.extremum_uniqueI word_zero_le)
qed

theorem heap_stats_predict_kmalloc_witness:
  "\<exists>st. get_heap_stats (init_heap (\<lambda>_. 0)) \<lparr>total_size = 0, used_size = 0, free_size = 0, allocated_blocks = 0,
       free_blocks = 0, largest_free_block = 0, overhead = 0\<rparr> = Some st \<and>
     ((\<exists>h'. kmalloc (init_heap (\<lambda>_. 0)) 64 = Some (0, h')) \<longleftrightarrow> free_blocks st = 0 \<or> largest_free_block st < 64)"
proof -
  let ?s0 = "\<lparr>total_size = 0, used_size = 0, free_size = 0, allocated_blocks = 0,
       free_blocks = 0, largest_free_block = 0, overhead = 0\<rparr> :: heap_stats"
  let ?s1 = "?s0\<lparr>total_size := KERNEL_HEAP_SIZE\<rparr>"
  obtain st where st: "get_heap_stats (init_heap (\<lambda>_. 0)) ?s0 = Some st"
    using heap_stats_chain [of "hmem (init_heap (\<lambda>_. 0))" KERNEL_HEAP_START "[KERNEL_HEAP_START]" ?s1]
      init_heap_inv(1) [of "\<lambda>_. 0"] by (auto simp: heap_inv_def get_heap_stats_def)
  moreover have "align16 64 = 64" by (simp add: align16_def)
  ultimately show ?thesis using heap_stats_predict_kmalloc [OF init_heap_ok _ st, of 64] by simp
qed

text \<open>The rounding in \<open>align16\<close> wraps: a request above \<open>0xFFFFFFF0\<close> is rounded to zero, so on a
  fresh heap \<open>kmalloc(0xFFFFFFFF)\<close> succeeds and hands out a pointer that owns no byte at all.\<close>

theorem kmalloc_overflow:
  "\<exists>p h'. kmalloc (init_heap m) 0xFFFFFFFF = Some (p, h') \<and> p \<noteq> 0 \<and> owned h' p = Some 0"
proof -
  let ?a = "KERNEL_HEAP_START" and ?h = "init_heap m"
  have al: "align16 0xFFFFFFFF = 0" by (simp add: align16_wraps)
  define h' where "h' = ?h\<lparr>hmem := set_free (kmalloc_split (hmem ?h) ?a 0) ?a 0\<rparr>"
  have r: "kmalloc ?h 0xFFFFFFFF = Some (?a + HEAP_HDR, h')"
    using heap_inv_find [of ?h "[?a]" "0xFFFFFFFF", OF init_heap_inv(1)] by (simp add: al init_heap_inv h'_def)
  have p0: "?a + HEAP_HDR \<noteq> 0" by (simp add: KERNEL_HEAP_START_def HEAP_HDR_def)
  obtain n where n: "owned h' (?a + HEAP_HDR) = Some n"
    using kheap.malloc_own [OF init_heap_ok r p0] by auto
  have "0 + HEAP_HDR + 16 \<le> hb_size (hmem ?h) ?a"
    unfolding init_heap_inv by (simp add: KERNEL_HEAP_SIZE_def HEAP_HDR_def)
  then have "hb_size (hmem h') ?a = 0" by (simp add: h'_def kmalloc_split_size)
  moreover have "heap_ok h'" using kheap.malloc_total [of ?h "0xFFFFFFFF", OF init_heap_ok] r by simp
  then obtain as where "heap_inv h' as" by (auto simp: heap_ok_def)
  ultimately have "owned h' (?a + HEAP_HDR) = Some 0" using n by (simp add: owned_iff)
  with r p0 show ?thesis by blast
qed

end
