(* ===== verification/Process.thy ===== *)
theory Process
  imports Heap
begin

text \<open>
  Processes, \<^verbatim>\<open>include/kernel/process.h\<close>, \<^verbatim>\<open>include/kernel/hooks.h\<close>, \<^verbatim>\<open>libc/include/sys/events.h\<close> and
  \<^verbatim>\<open>src/kernel/process.cpp\<close>: the process control block with its ring buffer of input events and its array of
  hooks, and the operations that work on one process. C \<open>int\<close> fields are integers; the ring indices are kept
  as the code keeps them, so that the self-check of the queue can be stated for corrupted values too.

  The ring buffer refines a list of at most 128 events that drops its oldest event on overflow; the contract is
  the locale \<open>bounded_queue\<close>, which the character buffer of the keyboard implements with another overflow policy.
\<close>

subsection \<open>The contract of a bounded queue\<close>

primrec drain :: "('q \<Rightarrow> ('e \<times> 'q) option) \<Rightarrow> nat \<Rightarrow> 'q \<Rightarrow> 'e list" where
  "drain pop 0 q = []"
| "drain pop (Suc n) q = (case pop q of None \<Rightarrow> [] | Some (e, q') \<Rightarrow> e # drain pop n q')"

locale bounded_queue =
  fixes ok :: "'q \<Rightarrow> bool" and contents :: "'q \<Rightarrow> 'e list" and cap :: nat
    and push :: "'e \<Rightarrow> 'q \<Rightarrow> 'q" and pop :: "'q \<Rightarrow> ('e \<times> 'q) option"
    and overflow :: "'e \<Rightarrow> 'e list \<Rightarrow> 'e list"
  assumes size_bound: "ok q \<Longrightarrow> length (contents q) \<le> cap"
    and push_ok: "ok q \<Longrightarrow> ok (push e q)"
    and push_room: "ok q \<Longrightarrow> length (contents q) < cap \<Longrightarrow> contents (push e q) = contents q @ [e]"
    and push_full: "ok q \<Longrightarrow> length (contents q) = cap \<Longrightarrow> contents (push e q) = overflow e (contents q)"
    and pop_empty: "ok q \<Longrightarrow> contents q = [] \<Longrightarrow> pop q = None"
    and pop_front: "ok q \<Longrightarrow> contents q = e # es \<Longrightarrow> \<exists>q'. pop q = Some (e, q') \<and> ok q' \<and> contents q' = es"
begin

lemma push_all:
  "ok q \<Longrightarrow> length (contents q) + length es \<le> cap \<Longrightarrow>
   ok (fold push es q) \<and> contents (fold push es q) = contents q @ es"
proof (induction es arbitrary: q)
  case (Cons e es)
  then show ?case using Cons.IH [of "push e q"] push_ok [of q e] push_room [of q e] by simp
qed simp

lemma drain_contents: "ok q \<Longrightarrow> length (contents q) \<le> n \<Longrightarrow> drain pop n q = contents q"
proof (induction n arbitrary: q)
  case (Suc n)
  show ?case
  proof (cases "contents q")
    case Nil
    with pop_empty [OF Suc.prems(1)] show ?thesis by simp
  next
    case (Cons e es)
    with pop_front [OF Suc.prems(1) Cons] Suc show ?thesis by auto
  qed
qed simp

text \<open>First in, first out: events pushed while there is room are read back in order.\<close>

lemma fifo: "ok q \<Longrightarrow> contents q = [] \<Longrightarrow> length es \<le> cap \<Longrightarrow> drain pop cap (fold push es q) = es"
  using push_all [of q es] drain_contents [of "fold push es q" cap] by simp

end

subsection \<open>Data\<close>

record keyboard_event =
  scancode :: u8
  shift :: bool
  caps_lock :: bool
  ctrl :: bool
  alt :: bool
  special :: bool
  release :: bool
  enter :: bool
  backspace :: bool
  up_arrow :: bool
  down_arrow :: bool
  left_arrow :: bool
  right_arrow :: bool

record MouseEvent =
  me_x :: int
  me_y :: int
  me_dx :: int
  me_dy :: int
  me_scroll_x :: int
  me_scroll_y :: int
  me_buttons :: u8
  me_changed :: u8
  me_target_pid :: int

record pci_event_data =
  pe_bus :: u8
  pe_device :: u8
  pe_function :: u8
  pe_vendor_id :: u16
  pe_device_id :: u16
  pe_class_code :: u8
  pe_subclass :: u8
  pe_event_type :: int

text \<open>The tag and the union of \<open>IOEvent\<close>; the zero-initialised \<open>IOEvent{}\<close> is \<open>EVENT_NONE\<close>.\<close>

datatype IOEvent =
    EVENT_NONE
  | EVENT_KEYBOARD keyboard_event
  | EVENT_MOUSE MouseEvent
  | EVENT_PROCESS (event_code: int) (event_value: int)
  | EVENT_PCI pci_event_data

definition PROCESS_EVENT_FOCUS_GAINED :: int where "PROCESS_EVENT_FOCUS_GAINED = 1"

definition PROCESS_EVENT_FOCUS_LOST :: int where "PROCESS_EVENT_FOCUS_LOST = 2"

datatype HookType = TIME_REACHED | SIGNAL | CUSTOM | OTHER_HOOK u32

record Hook =
  hook_type :: HookType
  trigger_value :: u64

record CPUContext =
  c_eip :: u32
  c_esp :: u32
  c_ebp :: u32
  c_eax :: u32
  c_ebx :: u32
  c_ecx :: u32
  c_edx :: u32
  c_esi :: u32
  c_edi :: u32
  c_eflags :: u32

definition PROCESS_MAGIC :: u32 where "PROCESS_MAGIC = 0x50524F43"

definition EVENT_QUEUE_GUARD :: u32 where "EVENT_QUEUE_GUARD = 0xE17E17E1"

definition MAX_EVENT_QUEUE_SIZE :: int where "MAX_EVENT_QUEUE_SIZE = 128"

definition MAX_HOOKS_PER_PROCESS :: int where "MAX_HOOKS_PER_PROCESS = 8"

record EventQueue =
  guard_front :: u32
  q_events :: "IOEvent list"
  q_head :: int
  q_tail :: int
  q_count :: int
  guard_back :: u32

record Process =
  magic :: u32
  pid :: int
  proc_name :: addr
  cpu_context :: CPUContext
  page_directory :: addr
  stack_base :: addr
  stack_size :: u32
  alive :: int
  speculative :: int
  logical_time :: u64
  hooks :: "Hook list"
  hook_count :: int
  io_events :: EventQueue
  keyboard_handler :: addr
  tickets :: int

subsection \<open>The event queue\<close>

definition normalize_index :: "int \<Rightarrow> int" where
  "normalize_index v =
     (if v < 0
      then let md = (- v) mod MAX_EVENT_QUEUE_SIZE in (MAX_EVENT_QUEUE_SIZE - md) mod MAX_EVENT_QUEUE_SIZE
      else v mod MAX_EVENT_QUEUE_SIZE)"

text \<open>For a non-null pointer; the callers test for \<open>NULL\<close>.\<close>

definition process_is_valid :: "Process \<Rightarrow> bool" where
  "process_is_valid proc \<longleftrightarrow> magic proc = PROCESS_MAGIC"

definition reset_event_queue :: "Process \<Rightarrow> Process" where
  "reset_event_queue proc = proc\<lparr>io_events :=
     \<lparr>guard_front = EVENT_QUEUE_GUARD, q_events = replicate (nat MAX_EVENT_QUEUE_SIZE) EVENT_NONE,
      q_head = 0, q_tail = 0, q_count = 0, guard_back = EVENT_QUEUE_GUARD\<rparr>\<rparr>"

text \<open>The three repairs of the check: an index out of range, the distance from tail to head, and a count that
  does not agree with that distance.\<close>

definition repair_index :: "int \<Rightarrow> int" where
  "repair_index v = (if v < 0 \<or> v \<ge> MAX_EVENT_QUEUE_SIZE then normalize_index v else v)"

definition ring_distance :: "int \<Rightarrow> int \<Rightarrow> int" where
  "ring_distance raw_head raw_tail =
     (if raw_head - raw_tail < 0 then raw_head - raw_tail + MAX_EVENT_QUEUE_SIZE else raw_head - raw_tail)"

definition repair_count :: "int \<Rightarrow> int \<Rightarrow> int" where
  "repair_count c distance =
     (let c = (if c < 0 \<or> c > MAX_EVENT_QUEUE_SIZE then 0 else c);
          c = (if c \<noteq> distance \<and> c \<noteq> MAX_EVENT_QUEUE_SIZE then distance else c)
      in if c = MAX_EVENT_QUEUE_SIZE \<and> distance \<noteq> 0 then distance else c)"

text \<open>The code writes the three fields back only when one was adjusted; otherwise they hold these values already.\<close>

definition ensure_event_queue_integrity :: "Process \<Rightarrow> bool \<times> Process" where
  "ensure_event_queue_integrity proc =
     (if \<not> process_is_valid proc then (False, proc)
      else let q = io_events proc in
        if guard_front q \<noteq> EVENT_QUEUE_GUARD \<or> guard_back q \<noteq> EVENT_QUEUE_GUARD
        then (True, reset_event_queue proc)
        else let raw_head = repair_index (q_head q);
                 raw_tail = repair_index (q_tail q);
                 raw_count = repair_count (q_count q) (ring_distance raw_head raw_tail)
             in (True, proc\<lparr>io_events := q\<lparr>q_head := raw_head, q_tail := raw_tail, q_count := raw_count,
                   guard_front := EVENT_QUEUE_GUARD, guard_back := EVENT_QUEUE_GUARD\<rparr>\<rparr>))"

text \<open>The interrupt flag is saved and restored around both operations: they run without interruption.\<close>

definition push_io_event :: "IOEvent \<Rightarrow> Process \<Rightarrow> Process" where
  "push_io_event event proc =
     (let (good, proc) = ensure_event_queue_integrity proc
      in if \<not> good then proc
         else let q = io_events proc;
                  q = (if q_count q = MAX_EVENT_QUEUE_SIZE
                       then let q = q\<lparr>q_tail := (q_tail q + 1) mod MAX_EVENT_QUEUE_SIZE\<rparr>
                            in (if q_count q > 0 then q\<lparr>q_count := q_count q - 1\<rparr> else q)
                       else q);
                  q = q\<lparr>q_events := (q_events q)[nat (q_head q) := event]\<rparr>;
                  q = q\<lparr>q_head := (q_head q + 1) mod MAX_EVENT_QUEUE_SIZE\<rparr>;
                  q = (if q_count q < MAX_EVENT_QUEUE_SIZE then q\<lparr>q_count := q_count q + 1\<rparr> else q)
              in proc\<lparr>io_events := q\<rparr>)"

text \<open>Result 0 is \<open>None\<close>; result 1 stores the event through \<open>out_event\<close>.\<close>

definition pop_io_event :: "Process \<Rightarrow> IOEvent option \<times> Process" where
  "pop_io_event proc =
     (let (good, proc) = ensure_event_queue_integrity proc
      in if \<not> good then (None, proc)
         else let q = io_events proc
              in if q_count q = 0 then (None, proc)
                 else let e = q_events q ! nat (q_tail q);
                          q = q\<lparr>q_tail := (q_tail q + 1) mod MAX_EVENT_QUEUE_SIZE\<rparr>;
                          q = (if q_count q > 0 then q\<lparr>q_count := q_count q - 1\<rparr> else q)
                      in (Some e, proc\<lparr>io_events := q\<rparr>))"

subsection \<open>Hooks\<close>

definition process_register_hook :: "Process \<Rightarrow> HookType \<Rightarrow> u64 \<Rightarrow> int \<times> Process" where
  "process_register_hook proc type trigger =
     (if hook_count proc \<ge> MAX_HOOKS_PER_PROCESS then (-1, proc)
      else (0, proc\<lparr>hooks := (hooks proc)[nat (hook_count proc) := \<lparr>hook_type = type, trigger_value = trigger\<rparr>],
                    hook_count := hook_count proc + 1\<rparr>))"

definition hook_matches :: "HookType \<Rightarrow> u64 \<Rightarrow> Hook \<Rightarrow> bool" where
  "hook_matches type v h \<longleftrightarrow> hook_type h = type \<and> trigger_value h = v"

fun remove_hook_loop :: "Process \<Rightarrow> HookType \<Rightarrow> u64 \<Rightarrow> nat list \<Rightarrow> int \<times> Process" where
  "remove_hook_loop proc type trigger [] = (-1, proc)"
| "remove_hook_loop proc type trigger (i # js) =
     (if hook_matches type trigger (hooks proc ! i)
      then (0, proc\<lparr>hooks := shift_down (hooks proc) [i..<nat (hook_count proc - 1)],
                    hook_count := hook_count proc - 1\<rparr>)
      else remove_hook_loop proc type trigger js)"

definition process_remove_hook :: "Process \<Rightarrow> HookType \<Rightarrow> u64 \<Rightarrow> int \<times> Process" where
  "process_remove_hook proc type trigger = remove_hook_loop proc type trigger [0..<nat (hook_count proc)]"

text \<open>The loop of \<open>scheduler_resume_processes_for_event\<close> that removes hooks until none matches.\<close>

lemma remove_hook_loop_count:
  "remove_hook_loop proc type v js = (0, proc') \<Longrightarrow> js \<noteq> [] \<and> hook_count proc' = hook_count proc - 1"
  by (induction js) (auto split: if_splits)

function remove_matching_hooks :: "Process \<Rightarrow> HookType \<Rightarrow> u64 \<Rightarrow> Process" where
  "remove_matching_hooks proc type v =
     (case process_remove_hook proc type v of (r, proc') \<Rightarrow> if r = 0 then remove_matching_hooks proc' type v else proc')"
  by pat_completeness auto
termination
  by (relation "measure (\<lambda>(proc, type, v). nat (hook_count proc))")
    (auto simp: process_remove_hook_def dest!: sym [of "(_, _)"] remove_hook_loop_count)

declare remove_matching_hooks.simps [simp del]

definition process_has_matching_hook :: "Process \<Rightarrow> HookType \<Rightarrow> u64 \<Rightarrow> bool" where
  "process_has_matching_hook proc type v \<longleftrightarrow>
     list_ex (\<lambda>i. hook_matches type v (hooks proc ! i)) [0..<nat (hook_count proc)]"

definition process_yield_for_event :: "Process \<Rightarrow> HookType \<Rightarrow> u64 \<Rightarrow> Process" where
  "process_yield_for_event proc type v =
     (if \<not> process_has_matching_hook proc type v then snd (process_register_hook proc type v) else proc)"

definition process_poll_io_event :: "Process \<Rightarrow> IOEvent option \<times> Process" where
  "process_poll_io_event proc = pop_io_event proc"

definition process_wait_for_io_event :: "Process \<Rightarrow> IOEvent option \<times> Process" where
  "process_wait_for_io_event proc =
     (case pop_io_event proc of
        (Some e, proc) \<Rightarrow> (Some e, proc)
      | (None, proc) \<Rightarrow> (None, process_yield_for_event proc SIGNAL (of_int (pid proc))))"

definition register_keyboard_handler :: "Process \<Rightarrow> addr \<Rightarrow> Process" where
  "register_keyboard_handler proc handler =
     (if process_is_valid proc then proc\<lparr>keyboard_handler := handler\<rparr> else proc)"

definition set_process_tickets :: "Process \<Rightarrow> int \<Rightarrow> Process" where
  "set_process_tickets proc n = (if n > 0 then proc\<lparr>tickets := n\<rparr> else proc)"

subsection \<open>Abstract views\<close>

text \<open>A healthy queue, and the events it holds, oldest first.\<close>

definition queue_ok :: "EventQueue \<Rightarrow> bool" where
  "queue_ok q \<longleftrightarrow> guard_front q = EVENT_QUEUE_GUARD \<and> guard_back q = EVENT_QUEUE_GUARD \<and>
     length (q_events q) = 128 \<and> 0 \<le> q_tail q \<and> q_tail q < 128 \<and> 0 \<le> q_count q \<and> q_count q \<le> 128 \<and>
     q_head q = (q_tail q + q_count q) mod 128"

definition queued :: "EventQueue \<Rightarrow> IOEvent list" where
  "queued q = map (\<lambda>i. q_events q ! ((nat (q_tail q) + i) mod 128)) [0..<nat (q_count q)]"

definition proc_ok :: "Process \<Rightarrow> bool" where
  "proc_ok p \<longleftrightarrow> process_is_valid p \<and> queue_ok (io_events p) \<and> length (hooks p) = 8 \<and>
     0 \<le> hook_count p \<and> hook_count p \<le> 8"

definition active_hooks :: "Process \<Rightarrow> Hook list" where
  "active_hooks p = take (nat (hook_count p)) (hooks p)"

lemmas queue_consts = MAX_EVENT_QUEUE_SIZE_def MAX_HOOKS_PER_PROCESS_def

lemma normalize_index_range: "0 \<le> normalize_index v" "normalize_index v < 128"
  by (simp_all add: normalize_index_def queue_consts Let_def)

lemma repair_index_range: "0 \<le> repair_index v" "repair_index v < 128"
  using normalize_index_range [of v] by (simp_all add: repair_index_def queue_consts)

lemma repair_index_id: "0 \<le> v \<Longrightarrow> v < 128 \<Longrightarrow> repair_index v = v"
  by (simp add: repair_index_def queue_consts)

lemma repair_count_range:
  fixes c :: int
  assumes "0 \<le> h" "h < 128" "0 \<le> t" "t < 128"
  defines "c' \<equiv> repair_count c (ring_distance h t)"
  shows "0 \<le> c'" "c' \<le> 128" "h = (t + c') mod 128"
proof -
  have d: "0 \<le> ring_distance h t" "ring_distance h t < 128" "ring_distance h t = 0 \<longleftrightarrow> h = t"
    using assms(1-4) by (auto simp: ring_distance_def queue_consts)
  have "t + ring_distance h t = (if h < t then h + 128 else h)" by (simp add: ring_distance_def queue_consts)
  then have m: "(t + ring_distance h t) mod 128 = h" using assms(1,2) by simp
  have c: "c' = ring_distance h t \<or> c' = 128 \<and> ring_distance h t = 0"
    unfolding c'_def repair_count_def queue_consts Let_def by presburger
  with d(1,2) show "0 \<le> c'" "c' \<le> 128" by linarith+
  from c show "h = (t + c') mod 128"
  proof
    assume "c' = ring_distance h t"
    with m show ?thesis by simp
  next
    assume "c' = 128 \<and> ring_distance h t = 0"
    with d(3) assms(3,4) show ?thesis by simp
  qed
qed

lemma repair_count_id:
  assumes "0 \<le> t" "t < 128" "0 \<le> c" "c \<le> 128"
  shows "repair_count c (ring_distance ((t + c) mod 128) t) = c"
proof -
  have "(t + c) mod 128 = (if t + c < 128 then t + c else t + c - 128)"
    using assms minus_mod_self2 [of "t + c" 128] mod_pos_pos_trivial [of "t + c - 128" 128]
    by (simp add: mod_pos_pos_trivial)
  then have "ring_distance ((t + c) mod 128) t = (if c = 128 then 0 else c)"
    using assms by (simp add: ring_distance_def queue_consts)
  then show ?thesis using assms by (simp add: repair_count_def queue_consts)
qed

lemma ensure_healthy:
  assumes "process_is_valid p" "queue_ok (io_events p)"
  shows "ensure_event_queue_integrity p = (True, p)"
proof -
  let ?q = "io_events p"
  have h: "q_head ?q = (q_tail ?q + q_count ?q) mod 128" "0 \<le> q_head ?q" "q_head ?q < 128"
    using assms(2) by (simp_all add: queue_ok_def)
  have "ensure_event_queue_integrity p = (True, p\<lparr>io_events := ?q\<lparr>q_head := q_head ?q, q_tail := q_tail ?q,
      q_count := q_count ?q, guard_front := guard_front ?q, guard_back := guard_back ?q\<rparr>\<rparr>)"
    using assms h(2,3) repair_count_id [of "q_tail ?q" "q_count ?q", folded h(1)]
    by (simp add: ensure_event_queue_integrity_def queue_ok_def repair_index_id Let_def)
  then show ?thesis by simp
qed

text \<open>Whatever the indices and guards hold, the check leaves a healthy queue.\<close>

lemma ensure_repairs:
  assumes "process_is_valid p" "length (q_events (io_events p)) = 128"
  shows "\<exists>q. ensure_event_queue_integrity p = (True, p\<lparr>io_events := q\<rparr>) \<and> queue_ok q"
proof (cases "guard_front (io_events p) \<noteq> EVENT_QUEUE_GUARD \<or> guard_back (io_events p) \<noteq> EVENT_QUEUE_GUARD")
  case True
  with assms show ?thesis
    by (intro exI [of _ "io_events (reset_event_queue p)"])
      (simp add: ensure_event_queue_integrity_def reset_event_queue_def queue_ok_def queue_consts Let_def)
next
  case False
  let ?q = "io_events p"
  note r = repair_count_range [OF repair_index_range [of "q_head ?q"] repair_index_range [of "q_tail ?q"], of "q_count ?q"]
  from False assms r repair_index_range [of "q_tail ?q"] show ?thesis
    by (intro exI) (auto simp: ensure_event_queue_integrity_def queue_ok_def Let_def)
qed

subsection \<open>The ring buffer as a list\<close>

lemma length_queued [simp]: "length (queued q) = nat (q_count q)"
  by (simp add: queued_def)

lemma queued_nth: "i < nat (q_count q) \<Longrightarrow> queued q ! i = q_events q ! ((nat (q_tail q) + i) mod 128)"
  by (simp add: queued_def)

lemma nat_head:
  assumes "queue_ok q"
  shows "nat (q_head q) = (nat (q_tail q) + nat (q_count q)) mod 128"
  using assms by (auto simp: queue_ok_def nat_mod_distrib nat_add_distrib)

text \<open>Writing at the head appends, while there is room; advancing the tail drops the oldest event.\<close>

definition q_append :: "IOEvent \<Rightarrow> EventQueue \<Rightarrow> EventQueue" where
  "q_append e q = q\<lparr>q_events := (q_events q)[nat (q_head q) := e], q_head := (q_head q + 1) mod 128,
     q_count := q_count q + 1\<rparr>"

definition q_drop :: "EventQueue \<Rightarrow> EventQueue" where
  "q_drop q = q\<lparr>q_tail := (q_tail q + 1) mod 128, q_count := q_count q - 1\<rparr>"

lemma q_append_correct:
  assumes "queue_ok q" "q_count q < 128"
  shows "queue_ok (q_append e q)" "queued (q_append e q) = queued q @ [e]"
proof -
  show "queue_ok (q_append e q)"
    using assms by (auto simp: queue_ok_def q_append_def mod_simps add.assoc)
  let ?t = "nat (q_tail q)" and ?n = "nat (q_count q)"
  have n: "?n < 128" "nat (q_count q + 1) = Suc ?n" using assms by (auto simp: queue_ok_def)
  show "queued (q_append e q) = queued q @ [e]"
  proof (rule nth_equalityI)
    show "length (queued (q_append e q)) = length (queued q @ [e])" using n by (simp add: q_append_def)
    fix i assume "i < length (queued (q_append e q))"
    then have i: "i < Suc ?n" using n by (simp add: q_append_def)
    have "(?t + i) mod 128 = (?t + ?n) mod 128 \<longleftrightarrow> i = ?n"
      using i n by (intro ring_index_inj) auto
    then show "queued (q_append e q) ! i = (queued q @ [e]) ! i"
      using i n nat_head [OF assms(1)] assms(1)
      by (auto simp: queued_def q_append_def nth_append nth_list_update queue_ok_def)
  qed
qed

lemma q_drop_correct:
  assumes "queue_ok q" "0 < q_count q"
  shows "queue_ok (q_drop q)" "queued (q_drop q) = tl (queued q)" "hd (queued q) = q_events q ! nat (q_tail q)"
    "queued q \<noteq> []"
proof -
  show "queue_ok (q_drop q)"
    using assms by (auto simp: queue_ok_def q_drop_def mod_simps)
  let ?t = "nat (q_tail q)"
  have t: "nat ((q_tail q + 1) mod 128) = (?t + 1) mod 128" "nat (q_count q - 1) = nat (q_count q) - 1" "?t < 128"
    using assms by (auto simp: queue_ok_def nat_mod_distrib nat_add_distrib)
  have "((?t + 1) mod 128 + i) mod 128 = (?t + Suc i) mod 128" for i by (simp add: mod_simps)
  then show "queued (q_drop q) = tl (queued q)"
    using assms t by (intro nth_equalityI) (simp_all add: nth_tl queued_nth q_drop_def less_diff_conv)
  show "queued q \<noteq> []" using assms by (auto simp: queued_def)
  then show "hd (queued q) = q_events q ! nat (q_tail q)" using t assms by (simp add: hd_conv_nth queued_nth)
qed


lemma push_healthy:
  assumes "process_is_valid p" "queue_ok (io_events p)"
  shows "push_io_event e p = p\<lparr>io_events :=
    q_append e (if q_count (io_events p) = 128 then q_drop (io_events p) else io_events p)\<rparr>"
  using assms by (auto simp: push_io_event_def ensure_healthy q_append_def q_drop_def queue_consts Let_def queue_ok_def)

lemma pop_healthy:
  assumes "process_is_valid p" "queue_ok (io_events p)"
  shows "pop_io_event p = (if q_count (io_events p) = 0 then (None, p)
    else (Some (q_events (io_events p) ! nat (q_tail (io_events p))), p\<lparr>io_events := q_drop (io_events p)\<rparr>))"
  using assms by (auto simp: pop_io_event_def ensure_healthy q_drop_def queue_consts Let_def queue_ok_def)

definition pop_event :: "Process \<Rightarrow> (IOEvent \<times> Process) option" where
  "pop_event p = (case pop_io_event p of (Some e, p') \<Rightarrow> Some (e, p') | (None, _) \<Rightarrow> None)"

lemma push_queued:
  assumes "process_is_valid p" "queue_ok (io_events p)"
  shows "process_is_valid (push_io_event e p)" "queue_ok (io_events (push_io_event e p))"
    "queued (io_events (push_io_event e p)) =
       (if length (queued (io_events p)) < 128 then queued (io_events p) else tl (queued (io_events p))) @ [e]"
proof -
  let ?q = "io_events p"
  show "process_is_valid (push_io_event e p)" using assms by (simp add: push_healthy process_is_valid_def)
  have c: "0 \<le> q_count ?q" "q_count ?q \<le> 128" using assms(2) by (simp_all add: queue_ok_def)
  have d: "q_count ?q = 128 \<Longrightarrow> queue_ok (q_drop ?q) \<and> q_count (q_drop ?q) < 128 \<and> queued (q_drop ?q) = tl (queued ?q)"
    using q_drop_correct [OF assms(2)] by (simp add: q_drop_def)
  show "queue_ok (io_events (push_io_event e p))"
    using assms c d q_append_correct(1) by (simp add: push_healthy)
  show "queued (io_events (push_io_event e p)) =
       (if length (queued ?q) < 128 then queued ?q else tl (queued ?q)) @ [e]"
    using assms c d q_append_correct(2) by (auto simp: push_healthy)
qed

interpretation process_events: bounded_queue "\<lambda>p. process_is_valid p \<and> queue_ok (io_events p)" "\<lambda>p. queued (io_events p)"
  128 push_io_event pop_event "\<lambda>e es. tl es @ [e]"
proof unfold_locales
  fix q e es
  assume q: "process_is_valid q \<and> queue_ok (io_events q)"
  then show "length (queued (io_events q)) \<le> 128" by (auto simp: queue_ok_def)
  show "process_is_valid (push_io_event e q) \<and> queue_ok (io_events (push_io_event e q))" using push_queued q by blast
  show "length (queued (io_events q)) < 128 \<Longrightarrow> queued (io_events (push_io_event e q)) = queued (io_events q) @ [e]"
    using push_queued(3) [of q e] q by simp
  show "length (queued (io_events q)) = 128 \<Longrightarrow> queued (io_events (push_io_event e q)) = tl (queued (io_events q)) @ [e]"
    using push_queued(3) [of q e] q by simp
  have c: "0 \<le> q_count (io_events q)" using q by (simp add: queue_ok_def)
  show "queued (io_events q) = [] \<Longrightarrow> pop_event q = None"
    using q c by (auto simp: pop_event_def pop_healthy queued_def)
  show "queued (io_events q) = e # es \<Longrightarrow> \<exists>q'. pop_event q = Some (e, q') \<and>
      (process_is_valid q' \<and> queue_ok (io_events q')) \<and> queued (io_events q') = es"
  proof -
    assume e: "queued (io_events q) = e # es"
    then have "0 < q_count (io_events q)" using c by (cases "q_count (io_events q) = 0") (auto simp: queued_def)
    with q_drop_correct [of "io_events q"] q e show ?thesis
      by (auto simp: pop_event_def pop_healthy process_is_valid_def)
  qed
qed

subsection \<open>Hooks as a list\<close>

definition remove_first :: "('a \<Rightarrow> bool) \<Rightarrow> 'a list \<Rightarrow> 'a list" where
  "remove_first P xs = takeWhile (\<lambda>x. \<not> P x) xs @ tl (dropWhile (\<lambda>x. \<not> P x) xs)"

lemma filter_remove_first: "filter (\<lambda>x. \<not> P x) (remove_first P xs) = filter (\<lambda>x. \<not> P x) xs"
  by (induction xs) (auto simp: remove_first_def)

lemma takeWhile_first:
  assumes "i < length xs" "P (xs ! i)" "\<forall>j<i. \<not> P (xs ! j)"
  shows "remove_first P xs = take i xs @ drop (Suc i) xs"
proof -
  have "takeWhile (\<lambda>x. \<not> P x) xs = take i xs" using assms by (intro takeWhile_eq_take_P_nth) auto
  moreover have "dropWhile (\<lambda>x. \<not> P x) xs = drop i xs"
    using calculation assms(1) by (simp add: dropWhile_eq_drop)
  ultimately show ?thesis using assms(1) by (simp add: remove_first_def tl_drop drop_Suc)
qed

lemma remove_hook_loop_spec:
  assumes "proc_ok p" "a \<le> nat (hook_count p)" "\<forall>j<a. \<not> hook_matches ty v (hooks p ! j)"
  shows "if \<exists>h\<in>set (active_hooks p). hook_matches ty v h
    then \<exists>p'. remove_hook_loop p ty v [a..<nat (hook_count p)] = (0, p') \<and> proc_ok p' \<and>
       active_hooks p' = remove_first (hook_matches ty v) (active_hooks p) \<and> p' = p\<lparr>hooks := hooks p', hook_count := hook_count p'\<rparr>
    else remove_hook_loop p ty v [a..<nat (hook_count p)] = (-1, p)"
  using assms(2,3)
proof (induction "nat (hook_count p) - a" arbitrary: a)
  case 0
  then have "a = nat (hook_count p)" by simp
  with 0 have "\<not> (\<exists>h\<in>set (active_hooks p). hook_matches ty v h)"
    by (auto simp: active_hooks_def in_set_conv_nth)
  with 0 show ?case by simp
next
  case (Suc d)
  let ?n = "nat (hook_count p)" and ?P = "hook_matches ty v"
  have i: "[a..<?n] = a # [Suc a..<?n]" "a < ?n" "d = ?n - Suc a" using Suc.hyps(2) by (simp_all add: upt_conv_Cons)
  have len: "length (hooks p) = 8" "?n \<le> 8" "0 \<le> hook_count p" using assms(1) by (auto simp: proc_ok_def)
  show ?case
  proof (cases "?P (hooks p ! a)")
    case True
    let ?hs = "shift_down (hooks p) [a..<nat (hook_count p - 1)]"
    let ?p = "p\<lparr>hooks := ?hs, hook_count := hook_count p - 1\<rparr>"
    obtain k where k: "?n = Suc k" "nat (hook_count p - 1) = k" "k < 8" "a \<le> k"
      using i(2) len by (cases ?n) auto
    have sh: "length ?hs = 8" "\<And>j. j < 8 \<Longrightarrow> ?hs ! j = (if a \<le> j \<and> j < k then hooks p ! (j + 1) else hooks p ! j)"
      using shift_down_nth [of k "hooks p" a] k len by simp_all
    have "active_hooks ?p = take a (active_hooks p) @ drop (Suc a) (active_hooks p)"
      using sh k len by (intro nth_equalityI) (auto simp: active_hooks_def nth_append min_def)
    moreover have "remove_first ?P (active_hooks p) = take a (active_hooks p) @ drop (Suc a) (active_hooks p)"
      using True Suc.prems(2) i(2) len by (intro takeWhile_first) (auto simp: active_hooks_def)
    moreover have "proc_ok ?p" using assms(1) sh(1) k len by (auto simp: proc_ok_def process_is_valid_def)
    moreover have "\<exists>h\<in>set (active_hooks p). ?P h"
      using True i(2) len by (intro bexI [of _ "hooks p ! a"]) (auto simp: active_hooks_def in_set_conv_nth)
    ultimately show ?thesis using True by (simp add: i(1))
  next
    case False
    have "\<forall>j<Suc a. \<not> ?P (hooks p ! j)" using False Suc.prems(2) less_Suc_eq by auto
    with Suc.hyps(1) [OF i(3)] i(2) False show ?thesis by (simp add: i(1))
  qed
qed

lemma process_remove_hook_spec:
  assumes "proc_ok p"
  shows "if \<exists>h\<in>set (active_hooks p). hook_matches ty v h
    then \<exists>p'. process_remove_hook p ty v = (0, p') \<and> proc_ok p' \<and>
       active_hooks p' = remove_first (hook_matches ty v) (active_hooks p) \<and> p' = p\<lparr>hooks := hooks p', hook_count := hook_count p'\<rparr>
    else process_remove_hook p ty v = (-1, p)"
  unfolding process_remove_hook_def by (rule remove_hook_loop_spec) (use assms in simp_all)

lemma has_matching_hook_iff:
  assumes "proc_ok p"
  shows "process_has_matching_hook p ty v \<longleftrightarrow> (\<exists>h\<in>set (active_hooks p). hook_matches ty v h)"
proof -
  have "nat (hook_count p) \<le> length (hooks p)" using assms by (auto simp: proc_ok_def)
  then show ?thesis
    by (force simp: process_has_matching_hook_def active_hooks_def list_ex_iff in_set_conv_nth)
qed

lemma remove_matching_hooks_spec:
  "proc_ok p \<Longrightarrow> proc_ok (remove_matching_hooks p ty v) \<and>
   active_hooks (remove_matching_hooks p ty v) = filter (\<lambda>h. \<not> hook_matches ty v h) (active_hooks p) \<and>
   (\<exists>hs n. remove_matching_hooks p ty v = p\<lparr>hooks := hs, hook_count := n\<rparr>)"
proof (induction p ty v rule: remove_matching_hooks.induct)
  case (1 p ty v)
  show ?case
  proof (cases "\<exists>h\<in>set (active_hooks p). hook_matches ty v h")
    case True
    with process_remove_hook_spec [OF 1(2), of ty v] obtain p' where p': "process_remove_hook p ty v = (0, p')" "proc_ok p'"
       "active_hooks p' = remove_first (hook_matches ty v) (active_hooks p)" "p' = p\<lparr>hooks := hooks p', hook_count := hook_count p'\<rparr>"
      by auto
    have step: "remove_matching_hooks p ty v = remove_matching_hooks p' ty v"
      by (subst remove_matching_hooks.simps) (simp add: p'(1))
    from 1(1) [OF p'(1) [symmetric] refl p'(2)] p'(3) have "proc_ok (remove_matching_hooks p' ty v)"
      "active_hooks (remove_matching_hooks p' ty v) = filter (\<lambda>h. \<not> hook_matches ty v h) (active_hooks p)"
      "\<exists>hs n. remove_matching_hooks p' ty v = p'\<lparr>hooks := hs, hook_count := n\<rparr>"
      by (simp_all add: filter_remove_first)
    moreover from this(3) have "\<exists>hs n. remove_matching_hooks p' ty v = p\<lparr>hooks := hs, hook_count := n\<rparr>"
      by (subst (asm) p'(4)) simp
    ultimately show ?thesis using step by simp
  next
    case False
    with process_remove_hook_spec [OF 1(2), of ty v] have "remove_matching_hooks p ty v = p"
      by (subst remove_matching_hooks.simps) simp
    moreover have "p = p\<lparr>hooks := hooks p, hook_count := hook_count p\<rparr>" by simp
    moreover have "filter (\<lambda>h. \<not> hook_matches ty v h) (active_hooks p) = active_hooks p"
      using False by (simp add: filter_id_conv)
    ultimately show ?thesis using 1(2) by metis
  qed
qed


lemma process_register_hook_spec:
  assumes "proc_ok p"
  shows "process_register_hook p ty v = (if hook_count p = 8 then (-1, p) else
      (0, p\<lparr>hooks := hooks (snd (process_register_hook p ty v)), hook_count := hook_count p + 1\<rparr>))"
    "proc_ok (snd (process_register_hook p ty v))"
    "active_hooks (snd (process_register_hook p ty v)) =
       (if hook_count p = 8 then active_hooks p else active_hooks p @ [\<lparr>hook_type = ty, trigger_value = v\<rparr>])"
proof -
  have n: "nat (hook_count p + 1) = Suc (nat (hook_count p))" "0 \<le> hook_count p" "hook_count p \<le> 8" "length (hooks p) = 8"
    using assms by (auto simp: proc_ok_def)
  then show "process_register_hook p ty v = (if hook_count p = 8 then (-1, p) else
      (0, p\<lparr>hooks := hooks (snd (process_register_hook p ty v)), hook_count := hook_count p + 1\<rparr>))"
    by (auto simp: process_register_hook_def queue_consts)
  show "proc_ok (snd (process_register_hook p ty v))"
    using assms n by (auto simp: process_register_hook_def queue_consts proc_ok_def process_is_valid_def)
  show "active_hooks (snd (process_register_hook p ty v)) =
       (if hook_count p = 8 then active_hooks p else active_hooks p @ [\<lparr>hook_type = ty, trigger_value = v\<rparr>])"
    using n by (auto simp: process_register_hook_def queue_consts active_hooks_def take_Suc_conv_app_nth)
qed

lemma yield_for_event_spec:
  assumes "proc_ok p"
  shows "proc_ok (process_yield_for_event p ty v)"
    "hook_count p < 8 \<Longrightarrow> \<exists>h\<in>set (active_hooks (process_yield_for_event p ty v)). hook_matches ty v h"
  using process_register_hook_spec [OF assms, of ty v] has_matching_hook_iff [OF assms, of ty v] assms
  by (auto simp: process_yield_for_event_def hook_matches_def)

subsection \<open>Properties\<close>

text \<open>C5. On a process with a healthy queue, \<open>push_io_event\<close> appends the event to the queue, dropping the
  oldest event when 128 are waiting, and \<open>pop_io_event\<close> takes the oldest event, or reports an empty queue; both
  keep the queue healthy.\<close>

theorem event_queue_refines:
  assumes "process_is_valid p" "queue_ok (io_events p)"
  shows "queue_ok (io_events (push_io_event e p)) \<and>
    queued (io_events (push_io_event e p)) =
      (if length (queued (io_events p)) < 128 then queued (io_events p) else tl (queued (io_events p))) @ [e] \<and>
    (case pop_io_event p of
       (None, p') \<Rightarrow> queued (io_events p) = [] \<and> p' = p
     | (Some e', p') \<Rightarrow> queue_ok (io_events p') \<and> queued (io_events p) = e' # queued (io_events p'))"
proof -
  have "0 \<le> q_count (io_events p)" using assms(2) by (simp add: queue_ok_def)
  then show ?thesis
    using push_queued [OF assms, of e] pop_healthy [OF assms] q_drop_correct [OF assms(2)] hd_Cons_tl [of "queued (io_events p)"]
    by (auto simp: queued_def)
qed

text \<open>Whatever values the indices, the count and the guards of the queue hold, one operation on a
  process whose magic number is intact leaves a healthy queue; the operations leave a process with a wrong magic
  number alone.\<close>

theorem event_queue_self_heals:
  assumes "length (q_events (io_events p)) = 128"
  shows "if magic p = PROCESS_MAGIC
    then queue_ok (io_events (push_io_event e p)) \<and> queue_ok (io_events (snd (pop_io_event p)))
    else push_io_event e p = p \<and> pop_io_event p = (None, p)"
proof (cases "magic p = PROCESS_MAGIC")
  case True
  then have "process_is_valid p" by (simp add: process_is_valid_def)
  from ensure_repairs [OF this assms] obtain q
    where q: "ensure_event_queue_integrity p = (True, p\<lparr>io_events := q\<rparr>)" "queue_ok q" by blast
  have v: "process_is_valid (p\<lparr>io_events := q\<rparr>)" using True by (simp add: process_is_valid_def)
  have "push_io_event e p = push_io_event e (p\<lparr>io_events := q\<rparr>)" "pop_io_event p = pop_io_event (p\<lparr>io_events := q\<rparr>)"
    using q ensure_healthy [OF v] by (simp_all add: push_io_event_def pop_io_event_def)
  moreover have "queue_ok (io_events (snd (pop_io_event (p\<lparr>io_events := q\<rparr>))))"
  proof -
    have "0 \<le> q_count q" using q(2) by (simp add: queue_ok_def)
    then show ?thesis using pop_healthy [OF v] q(2) q_drop_correct(1) [OF q(2)] by auto
  qed
  ultimately show ?thesis using True push_queued(2) [OF v] q(2) by simp
next
  case False
  then show ?thesis
    by (simp add: push_io_event_def pop_io_event_def ensure_event_queue_integrity_def process_is_valid_def)
qed

text \<open>Up to 128 events pushed to a process whose queue is empty are read back in the order in which they
  were pushed.\<close>

theorem event_queue_fifo:
  assumes "process_is_valid p" "queue_ok (io_events p)" "queued (io_events p) = []" "length es \<le> 128"
  shows "drain pop_event 128 (fold push_io_event es p) = es"
  using process_events.fifo [of p es] assms by blast

definition sample_process :: Process where
  "sample_process = reset_event_queue
     \<lparr>magic = PROCESS_MAGIC, pid = 7, proc_name = 0,
      cpu_context = \<lparr>c_eip = 0, c_esp = 0, c_ebp = 0, c_eax = 0, c_ebx = 0, c_ecx = 0, c_edx = 0, c_esi = 0, c_edi = 0, c_eflags = 0\<rparr>,
      page_directory = 0, stack_base = 0, stack_size = 0, alive = 1, speculative = 0, logical_time = 0,
      hooks = replicate 8 \<lparr>hook_type = TIME_REACHED, trigger_value = 0\<rparr>, hook_count = 0,
      io_events = \<lparr>guard_front = 0, q_events = [], q_head = 0, q_tail = 0, q_count = 0, guard_back = 0\<rparr>,
      keyboard_handler = 0, tickets = 1\<rparr>"

lemma sample_process_ok: "process_is_valid sample_process" "queue_ok (io_events sample_process)"
    "queued (io_events sample_process) = []" "proc_ok sample_process"
  by (simp_all add: sample_process_def reset_event_queue_def queue_ok_def queued_def process_is_valid_def queue_consts proc_ok_def)

theorem event_queue_refines_witness:
  "queued (io_events (push_io_event EVENT_NONE sample_process)) = [EVENT_NONE]"
  using event_queue_refines [OF sample_process_ok(1,2), of EVENT_NONE] sample_process_ok(3) by simp

theorem event_queue_self_heals_witness:
  "queue_ok (io_events (push_io_event EVENT_NONE (sample_process\<lparr>io_events := (io_events sample_process)\<lparr>q_head := -7, q_tail := 4000, q_count := 129\<rparr>\<rparr>)))"
  using event_queue_self_heals [of "sample_process\<lparr>io_events := (io_events sample_process)\<lparr>q_head := -7, q_tail := 4000, q_count := 129\<rparr>\<rparr>" EVENT_NONE]
    sample_process_ok(1,2) by (simp add: process_is_valid_def queue_ok_def)

theorem event_queue_fifo_witness:
  "drain pop_event 128 (fold push_io_event [EVENT_PROCESS 1 2, EVENT_NONE] sample_process) = [EVENT_PROCESS 1 2, EVENT_NONE]"
  using event_queue_fifo [OF sample_process_ok(1,2,3), of "[EVENT_PROCESS 1 2, EVENT_NONE]"] by simp

end
