(* ===== verification/Terminal.thy ===== *)
theory Terminal
  imports Prelude
begin

text \<open>
  The console, \<^verbatim>\<open>include/kernel/vga.h\<close> and \<^verbatim>\<open>src/kernel/vga.cpp\<close>: a grid of 25 rows of 80 cells with a write position
  and a cursor. In text mode every cell is mirrored in the VGA text buffer at \<open>0xB8000\<close> and the cursor position is
  sent to the CRT controller; in framebuffer mode cells are drawn as pixels, which have no state here. Sizes and
  positions (\<open>size_t\<close>) are naturals: they stay below the grid's size, which is what \<open>term_ok\<close> says.
\<close>

subsection \<open>State\<close>

definition VGA_WIDTH :: nat where "VGA_WIDTH = 80"

definition VGA_HEIGHT :: nat where "VGA_HEIGHT = 25"

record Cell =
  character :: u8
  cell_color :: u8

record Snapshot =
  characters :: "u8 list list"
  colors :: "u8 list list"
  s_row :: nat
  s_column :: nat
  s_color :: u8
  s_cursor_row :: nat
  s_cursor_column :: nat
  s_cursor_active :: bool

record Terminal =
  t_row :: nat
  t_column :: nat
  t_color :: u8
  vga_buffer :: "u16 list"
  cells :: "Cell list list"
  framebuffer_mode :: bool
  t_cursor_row :: nat
  t_cursor_column :: nat
  t_cursor_active :: bool
  origin_x_px :: nat
  origin_y_px :: nat
  crtc_low :: u8
  crtc_high :: u8

definition make_color :: "u8 \<Rightarrow> u8 \<Rightarrow> u8" where
  "make_color fg bg = fg OR push_bit 4 bg"

definition make_entry :: "u8 \<Rightarrow> u8 \<Rightarrow> u16" where
  "make_entry uc entry_color = ucast uc OR push_bit 8 (ucast entry_color)"

subsection \<open>Operations\<close>

text \<open>In framebuffer mode \<open>render_cell\<close> draws pixels only.\<close>

definition render_cell :: "nat \<Rightarrow> nat \<Rightarrow> Terminal \<Rightarrow> Terminal" where
  "render_cell x y t =
     (if x \<ge> VGA_WIDTH \<or> y \<ge> VGA_HEIGHT then t
      else let cell = cells t ! y ! x
           in if \<not> framebuffer_mode t
              then t\<lparr>vga_buffer := (vga_buffer t)[y * VGA_WIDTH + x := make_entry (character cell) (cell_color cell)]\<rparr>
              else t)"

definition putentry_at :: "u8 \<Rightarrow> u8 \<Rightarrow> nat \<Rightarrow> nat \<Rightarrow> Terminal \<Rightarrow> Terminal" where
  "putentry_at c entry_color x y t =
     (if x \<ge> VGA_WIDTH \<or> y \<ge> VGA_HEIGHT then t
      else let t = t\<lparr>cells := grid_set (cells t) y x \<lparr>character = c, cell_color = entry_color\<rparr>\<rparr>
           in if \<not> framebuffer_mode t
              then t\<lparr>vga_buffer := (vga_buffer t)[y * VGA_WIDTH + x := make_entry c entry_color]\<rparr>
              else render_cell x y t)"

definition put_at :: "u8 \<Rightarrow> u8 \<Rightarrow> nat \<Rightarrow> nat \<Rightarrow> Terminal \<Rightarrow> Terminal" where
  "put_at c entry_color x y t = putentry_at c entry_color x y t"

definition erase_cursor :: "Terminal \<Rightarrow> Terminal" where
  "erase_cursor t =
     (if \<not> framebuffer_mode t \<or> \<not> t_cursor_active t then t
      else let t = (if t_cursor_column t < VGA_WIDTH \<and> t_cursor_row t < VGA_HEIGHT
                    then render_cell (t_cursor_column t) (t_cursor_row t) t else t)
           in t\<lparr>t_cursor_active := False\<rparr>)"

definition draw_cursor :: "Terminal \<Rightarrow> Terminal" where
  "draw_cursor t =
     (if \<not> framebuffer_mode t then t
      else if t_cursor_column t \<ge> VGA_WIDTH \<or> t_cursor_row t \<ge> VGA_HEIGHT then t
      else t\<lparr>t_cursor_active := True\<rparr>)"

text \<open>The position is sent to the CRT controller as two bytes of a 16-bit number.\<close>

definition update_cursor :: "Terminal \<Rightarrow> Terminal" where
  "update_cursor t =
     (if framebuffer_mode t
      then let t = erase_cursor t
           in draw_cursor (t\<lparr>t_cursor_row := t_row t, t_cursor_column := t_column t\<rparr>)
      else let pos = (of_nat (t_row t * VGA_WIDTH + t_column t) :: u16)
           in t\<lparr>crtc_low := ucast (pos AND 0xFF), crtc_high := ucast (drop_bit 8 pos AND 0xFF)\<rparr>)"

definition set_cursor :: "nat \<Rightarrow> nat \<Rightarrow> Terminal \<Rightarrow> Terminal" where
  "set_cursor r c t =
     (let r = (if r \<ge> VGA_HEIGHT then VGA_HEIGHT - 1 else r);
          c = (if c \<ge> VGA_WIDTH then VGA_WIDTH - 1 else c)
      in update_cursor (t\<lparr>t_row := r, t_column := c\<rparr>))"

definition redraw_all :: "Terminal \<Rightarrow> Terminal" where
  "redraw_all t =
     (let t = fold (\<lambda>y. fold (\<lambda>x. render_cell x y) [0..<VGA_WIDTH]) [0..<VGA_HEIGHT] t
      in t\<lparr>t_cursor_active := False\<rparr>)"

definition refresh :: "Terminal \<Rightarrow> Terminal" where
  "refresh t = (if \<not> framebuffer_mode t then t else update_cursor (redraw_all (erase_cursor t)))"

definition set_graphics_origin :: "nat \<Rightarrow> nat \<Rightarrow> bool \<Rightarrow> Terminal \<Rightarrow> Terminal" where
  "set_graphics_origin x y refresh_now t =
     (let t = t\<lparr>origin_x_px := x, origin_y_px := y\<rparr>
      in if framebuffer_mode t \<and> refresh_now then refresh t else t)"

definition scroll_cell :: "nat \<Rightarrow> nat \<Rightarrow> Terminal \<Rightarrow> Terminal" where
  "scroll_cell y x t =
     (let t = t\<lparr>cells := grid_set (cells t) y x (cells t ! (y + 1) ! x)\<rparr>
      in if \<not> framebuffer_mode t
         then t\<lparr>vga_buffer := (vga_buffer t)[y * VGA_WIDTH + x :=
                make_entry (character (cells t ! y ! x)) (cell_color (cells t ! y ! x))]\<rparr>
         else t)"

text \<open>The blanking of one cell, the loop body of the last part of \<open>scroll\<close> and of \<open>clear\<close>.\<close>

definition blank_cell :: "nat \<Rightarrow> nat \<Rightarrow> Terminal \<Rightarrow> Terminal" where
  "blank_cell y x t =
     (let t = t\<lparr>cells := grid_set (cells t) y x \<lparr>character = 0x20, cell_color = t_color t\<rparr>\<rparr>
      in if \<not> framebuffer_mode t
         then t\<lparr>vga_buffer := (vga_buffer t)[y * VGA_WIDTH + x := make_entry 0x20 (t_color t)]\<rparr> else t)"

definition scroll :: "Terminal \<Rightarrow> Terminal" where
  "scroll t =
     (let t = erase_cursor t;
          t = fold (\<lambda>y. fold (scroll_cell y) [0..<VGA_WIDTH]) [0..<VGA_HEIGHT - 1] t;
          t = fold (blank_cell (VGA_HEIGHT - 1)) [0..<VGA_WIDTH] t;
          t = (if framebuffer_mode t then redraw_all t else t)
      in update_cursor t)"

definition new_line :: "Terminal \<Rightarrow> Terminal" where
  "new_line t =
     (let t = t\<lparr>t_column := 0, t_row := t_row t + 1\<rparr>;
          t = (if t_row t = VGA_HEIGHT then (scroll t)\<lparr>t_row := VGA_HEIGHT - 1\<rparr> else t)
      in update_cursor t)"

definition term_putchar :: "u8 \<Rightarrow> Terminal \<Rightarrow> Terminal" where
  "term_putchar c t =
     (if c = 0x08
      then let t = (if t_column t > 0 then t\<lparr>t_column := t_column t - 1\<rparr>
                    else if t_row t > 0 then t\<lparr>t_row := t_row t - 1, t_column := VGA_WIDTH - 1\<rparr>
                    else t)
           in update_cursor (putentry_at 0x20 (t_color t) (t_column t) (t_row t) t)
      else if c = 0x0A then new_line t
      else let t = putentry_at c (t_color t) (t_column t) (t_row t) t;
               t = t\<lparr>t_column := t_column t + 1\<rparr>
           in if t_column t = VGA_WIDTH then new_line t else update_cursor t)"

definition setcolor :: "u8 \<Rightarrow> Terminal \<Rightarrow> Terminal" where
  "setcolor new_color t = t\<lparr>t_color := new_color\<rparr>"

definition setfull_color :: "u8 \<Rightarrow> u8 \<Rightarrow> Terminal \<Rightarrow> Terminal" where
  "setfull_color fg bg t = t\<lparr>t_color := make_color fg bg\<rparr>"

text \<open>The string is given by its characters, without the NUL that ends the loop.\<close>

definition writestring :: "u8 list \<Rightarrow> Terminal \<Rightarrow> Terminal" where
  "writestring str t = fold term_putchar str t"

definition writeLine :: "u8 list \<Rightarrow> Terminal \<Rightarrow> Terminal" where
  "writeLine str t = new_line (writestring str t)"

definition term_clear :: "Terminal \<Rightarrow> Terminal" where
  "term_clear t =
     (let t = erase_cursor t;
          t = fold (\<lambda>y. fold (blank_cell y) [0..<VGA_WIDTH]) [0..<VGA_HEIGHT] t;
          t = (if framebuffer_mode t then redraw_all t else t)
      in update_cursor (t\<lparr>t_row := 0, t_column := 0\<rparr>))"

text \<open>\<open>cells\<close> is cleared by \<open>memset\<close> before the loop overwrites every cell of it.\<close>

definition initialize_cell :: "nat \<Rightarrow> nat \<Rightarrow> Terminal \<Rightarrow> Terminal" where
  "initialize_cell y x t =
     render_cell x y (t\<lparr>cells := grid_set (cells t) y x \<lparr>character = 0x20, cell_color = t_color t\<rparr>\<rparr>)"

definition term_initialize :: "bool \<Rightarrow> Terminal \<Rightarrow> Terminal" where
  "term_initialize fb_available t =
     (let t = t\<lparr>t_row := 0, t_column := 0, t_cursor_row := 0, t_cursor_column := 0, t_cursor_active := False,
                t_color := make_color 7 0, framebuffer_mode := fb_available\<rparr>;
          t = t\<lparr>cells := replicate VGA_HEIGHT (replicate VGA_WIDTH \<lparr>character = 0, cell_color = 0\<rparr>)\<rparr>;
          t = fold (\<lambda>y. fold (initialize_cell y) [0..<VGA_WIDTH]) [0..<VGA_HEIGHT] t
      in update_cursor t)"

definition save_snapshot :: "Terminal \<Rightarrow> Snapshot" where
  "save_snapshot t =
     \<lparr>characters = map (\<lambda>y. map (\<lambda>x. character (cells t ! y ! x)) [0..<VGA_WIDTH]) [0..<VGA_HEIGHT],
      colors = map (\<lambda>y. map (\<lambda>x. cell_color (cells t ! y ! x)) [0..<VGA_WIDTH]) [0..<VGA_HEIGHT],
      s_row = t_row t, s_column = t_column t, s_color = t_color t, s_cursor_row = t_cursor_row t,
      s_cursor_column = t_cursor_column t, s_cursor_active = t_cursor_active t\<rparr>"

definition load_snapshot :: "Snapshot \<Rightarrow> Terminal \<Rightarrow> Terminal" where
  "load_snapshot s t =
     (let t = erase_cursor t;
          t = t\<lparr>cells := map (\<lambda>y. map (\<lambda>x. \<lparr>character = characters s ! y ! x, cell_color = colors s ! y ! x\<rparr>)
                 [0..<VGA_WIDTH]) [0..<VGA_HEIGHT],
                t_row := s_row s, t_column := s_column s, t_color := s_color s, t_cursor_row := s_cursor_row s,
                t_cursor_column := s_cursor_column s, t_cursor_active := s_cursor_active s\<rparr>
      in if framebuffer_mode t then update_cursor (redraw_all t) else t)"

subsection \<open>Well-formed consoles\<close>

text \<open>In text mode the VGA buffer shows the cells.\<close>

definition mirrored :: "Terminal \<Rightarrow> bool" where
  "mirrored t \<longleftrightarrow> length (vga_buffer t) = 2000 \<and>
     (\<forall>y<25. \<forall>x<80. vga_buffer t ! (y * 80 + x) = make_entry (character (cells t ! y ! x)) (cell_color (cells t ! y ! x)))"

definition term_ok :: "Terminal \<Rightarrow> bool" where
  "term_ok t \<longleftrightarrow> grid_ok (cells t) 25 80 \<and> t_row t < 25 \<and> t_column t < 80 \<and> (\<not> framebuffer_mode t \<longrightarrow> mirrored t)"

definition crtc_position :: "Terminal \<Rightarrow> nat" where
  "crtc_position t = unat (crtc_high t) * 256 + unat (crtc_low t)"

lemmas vga_consts = VGA_WIDTH_def VGA_HEIGHT_def


definition same_mode :: "Terminal \<Rightarrow> Terminal \<Rightarrow> bool" where
  "same_mode s t \<longleftrightarrow> t_row s = t_row t \<and> t_column s = t_column t \<and> t_color s = t_color t \<and>
     framebuffer_mode s = framebuffer_mode t"

lemma vga_index_eq: "x < 80 \<Longrightarrow> x' < 80 \<Longrightarrow> y * 80 + x = y' * 80 + x' \<longleftrightarrow> y = y' \<and> x = (x' :: nat)"
  by (metis div_mult_self3 div_less add_cancel_right_right mod_mult_self3 mod_less zero_neq_numeral)

lemma mirrored_set:
  assumes "mirrored t" "grid_ok (cells t) 25 80" "y < 25" "x < 80"
  shows "mirrored (t\<lparr>cells := grid_set (cells t) y x c,
    vga_buffer := (vga_buffer t)[y * 80 + x := make_entry (character c) (cell_color c)]\<rparr>)"
  using assms by (auto simp: mirrored_def grid_set_get nth_list_update vga_index_eq)

lemma mirrored_cong: "mirrored t \<Longrightarrow> cells s = cells t \<Longrightarrow> vga_buffer s = vga_buffer t \<Longrightarrow> mirrored s"
  by (simp add: mirrored_def)

subsection \<open>What the operations change\<close>

lemma render_cell_keeps: "framebuffer_mode t \<Longrightarrow> render_cell x y t = t"
  by (simp add: render_cell_def)

lemma erase_cursor_eq: "erase_cursor t = (if framebuffer_mode t then t\<lparr>t_cursor_active := False\<rparr> else t)"
  by (cases t) (simp add: erase_cursor_def render_cell_keeps)

lemma update_cursor_keeps [simp]:
  "cells (update_cursor t) = cells t" "vga_buffer (update_cursor t) = vga_buffer t"
  "t_row (update_cursor t) = t_row t" "t_column (update_cursor t) = t_column t"
  "t_color (update_cursor t) = t_color t" "framebuffer_mode (update_cursor t) = framebuffer_mode t"
  by (simp_all add: update_cursor_def erase_cursor_eq draw_cursor_def Let_def)

lemma redraw_all_fb: "framebuffer_mode t \<Longrightarrow> redraw_all t = t\<lparr>t_cursor_active := False\<rparr>"
proof -
  assume t: "framebuffer_mode t"
  have "fold (\<lambda>x. render_cell x y) xs t = t" for y xs by (induction xs) (simp_all add: render_cell_keeps t)
  then have "fold (\<lambda>y. fold (\<lambda>x. render_cell x y) [0..<VGA_WIDTH]) ys t = t" for ys by (induction ys) simp_all
  then show ?thesis by (simp add: redraw_all_def)
qed

lemma update_cursor_crtc:
  assumes "\<not> framebuffer_mode t" "t_row t < 25" "t_column t < 80"
  shows "crtc_position (update_cursor t) = t_row t * 80 + t_column t"
proof -
  define n where "n = t_row t * 80 + t_column t"
  have n: "n < 2000" using assms by (simp add: n_def)
  have m: "(0xFF :: u16) = mask 8" by (simp add: mask_eq_exp_minus_1)
  have low: "ucast (w AND 0xFF) = (ucast w :: u8)" for w :: u16
    unfolding m by (rule bit_word_eqI) (auto simp: bit_simps)
  have u: "unat (ucast w :: u8) = unat w mod 256" for w :: u16
    by (simp add: unsigned_ucast_eq take_bit_eq_mod)
  have w: "unat (of_nat n :: u16) = n" using n unat_of_nat [of n, where ?'a = 16] by simp
  have lo: "unat (ucast ((of_nat n :: u16) AND 0xFF) :: u8) = n mod 256"
    unfolding low u w ..
  have hi: "unat (ucast (drop_bit 8 (of_nat n :: u16) AND 0xFF) :: u8) = n div 256"
    unfolding low u unsigned_drop_bit_eq w using n by (simp add: drop_bit_eq_div take_bit_eq_mod w)
  show ?thesis using assms lo hi
    by (simp add: update_cursor_def crtc_position_def vga_consts Let_def n_def [symmetric])
qed

lemma putentry_at_spec:
  fixes c col :: u8
  assumes "grid_ok (cells t) 25 80" "x < 80" "y < 25"
  defines "s \<equiv> putentry_at c col x y t"
  shows "cells s = grid_set (cells t) y x \<lparr>character = c, cell_color = col\<rparr>" "same_mode s t"
    "\<not> framebuffer_mode t \<Longrightarrow> mirrored t \<Longrightarrow> mirrored s"
  using assms(2,3) mirrored_set [OF _ assms(1) assms(3,2), of "\<lparr>character = c, cell_color = col\<rparr>"]
  by (auto simp: s_def putentry_at_def render_cell_keeps same_mode_def vga_consts Let_def elim: mirrored_cong)

lemma blank_cell_spec:
  assumes "grid_ok (cells t) 25 80" "x < 80" "y < 25"
  shows "cells (blank_cell y x t) = grid_set (cells t) y x \<lparr>character = 0x20, cell_color = t_color t\<rparr>"
    "same_mode (blank_cell y x t) t" "\<not> framebuffer_mode t \<Longrightarrow> mirrored t \<Longrightarrow> mirrored (blank_cell y x t)"
  using assms(2,3) mirrored_set [OF _ assms(1) assms(3,2), of "\<lparr>character = 0x20, cell_color = t_color t\<rparr>"]
  by (auto simp: blank_cell_def same_mode_def vga_consts Let_def elim: mirrored_cong)

lemma scroll_cell_spec:
  assumes "grid_ok (cells t) 25 80" "x < 80" "y < 24"
  shows "cells (scroll_cell y x t) = grid_set (cells t) y x (cells t ! (y + 1) ! x)"
    "same_mode (scroll_cell y x t) t" "\<not> framebuffer_mode t \<Longrightarrow> mirrored t \<Longrightarrow> mirrored (scroll_cell y x t)"
proof -
  have y: "y < 25" using assms(3) by simp
  have g: "grid_set (cells t) y x v ! y ! x = v" for v using grid_set_get [OF assms(1) y assms(2) y] by simp
  show "cells (scroll_cell y x t) = grid_set (cells t) y x (cells t ! (y + 1) ! x)" "same_mode (scroll_cell y x t) t"
    by (simp_all add: scroll_cell_def same_mode_def Let_def)
  show "\<not> framebuffer_mode t \<Longrightarrow> mirrored t \<Longrightarrow> mirrored (scroll_cell y x t)"
    using mirrored_set [OF _ assms(1) y assms(2), of "cells t ! (y + 1) ! x"]
    by (auto simp: scroll_cell_def vga_consts Let_def g elim: mirrored_cong)
qed

text \<open>Cells before position \<open>(y, x)\<close> in reading order have the value \<open>new\<close>, the others still the value \<open>old\<close>.\<close>

definition swept :: "nat \<Rightarrow> nat \<Rightarrow> (nat \<Rightarrow> nat \<Rightarrow> Cell) \<Rightarrow> Terminal \<Rightarrow> Terminal \<Rightarrow> bool" where
  "swept y x new t s \<longleftrightarrow> grid_ok (cells s) 25 80 \<and> same_mode s t \<and> (\<not> framebuffer_mode t \<longrightarrow> mirrored s) \<and>
     (\<forall>y'<25. \<forall>x'<80. cells s ! y' ! x' = (if y' < y \<or> y' = y \<and> x' < x then new y' x' else cells t ! y' ! x'))"

lemma sweptI: "grid_ok (cells t) 25 80 \<Longrightarrow> (\<not> framebuffer_mode t \<Longrightarrow> mirrored t) \<Longrightarrow> swept 0 0 new t t"
  by (simp add: swept_def same_mode_def)

lemma swept_next: "swept y 80 new t s \<Longrightarrow> swept (Suc y) 0 new t s"
  by (auto simp: swept_def less_Suc_eq)

lemma swept_step:
  assumes "swept y x new t s" "y < 25" "x < 80" "cells s' = grid_set (cells s) y x (new y x)" "same_mode s' s"
    "\<not> framebuffer_mode s \<Longrightarrow> mirrored s \<Longrightarrow> mirrored s'"
  shows "swept y (Suc x) new t s'"
  using assms by (auto simp: swept_def same_mode_def grid_set_get less_Suc_eq)

lemma swept_done: "swept 25 0 new t s \<Longrightarrow> y < 25 \<Longrightarrow> x < 80 \<Longrightarrow> cells s ! y ! x = new y x"
  by (simp add: swept_def)


subsection \<open>Scrolling and clearing\<close>

lemma blank_rows:
  assumes "grid_ok (cells t) 25 80" "\<not> framebuffer_mode t \<Longrightarrow> mirrored t"
  shows "swept 25 0 (\<lambda>y x. \<lparr>character = 0x20, cell_color = t_color t\<rparr>) t
    (fold (\<lambda>y. fold (blank_cell y) [0..<80]) [0..<25] t)"
proof (rule fold_grid_inv)
  fix y x s assume *: "y < (25 :: nat)" "x < (80 :: nat)" "swept y x (\<lambda>y x. \<lparr>character = 0x20, cell_color = t_color t\<rparr>) t s"
  then have "grid_ok (cells s) 25 80" "t_color s = t_color t" by (simp_all add: swept_def same_mode_def)
  from blank_cell_spec [OF this(1) *(2,1)] this(2) *
  show "swept y (Suc x) (\<lambda>y x. \<lparr>character = 0x20, cell_color = t_color t\<rparr>) t (blank_cell y x s)"
    by (intro swept_step [OF *(3,1,2)]) simp_all
qed (use assms in \<open>auto intro: sweptI swept_next\<close>)

text \<open>The cells after scrolling by one line.\<close>

definition scrolled :: "Terminal \<Rightarrow> nat \<Rightarrow> nat \<Rightarrow> Cell" where
  "scrolled t y x = (if y < 24 then cells t ! (y + 1) ! x else \<lparr>character = 0x20, cell_color = t_color t\<rparr>)"

lemma scroll_rows:
  assumes "grid_ok (cells t) 25 80" "\<not> framebuffer_mode t \<Longrightarrow> mirrored t"
  shows "swept 24 0 (scrolled t) t (fold (\<lambda>y. fold (scroll_cell y) [0..<80]) [0..<24] t)"
proof (rule fold_grid_inv)
  fix y x s assume *: "y < (24 :: nat)" "x < (80 :: nat)" "swept y x (scrolled t) t s"
  then have "grid_ok (cells s) 25 80" "cells s ! (y + 1) ! x = scrolled t y x"
    by (simp_all add: swept_def scrolled_def)
  from scroll_cell_spec [OF this(1) *(2,1)] this(2) *
  show "swept y (Suc x) (scrolled t) t (scroll_cell y x s)"
    by (intro swept_step [OF *(3) _ *(2)]) simp_all
qed (use assms in \<open>auto intro: sweptI swept_next\<close>)

lemma blank_last_row:
  assumes "swept 24 0 (scrolled t) t s"
  shows "swept 25 0 (scrolled t) t (fold (blank_cell 24) [0..<80] s)"
proof -
  have "swept 24 80 (scrolled t) t (fold (blank_cell 24) [0..<80] s)"
  proof (rule fold_upt_inv [where P = "\<lambda>x. swept 24 x (scrolled t) t"])
    fix x s assume *: "x < (80 :: nat)" "swept 24 x (scrolled t) t s"
    then have "grid_ok (cells s) 25 80" "t_color s = t_color t" by (simp_all add: swept_def same_mode_def)
    from blank_cell_spec [OF this(1) *(1), of 24] this(2) *
    show "swept 24 (Suc x) (scrolled t) t (blank_cell 24 x s)"
      by (intro swept_step [OF *(2) _ *(1)]) (simp_all add: scrolled_def)
  qed (rule assms)
  then show ?thesis using swept_next [of 24] by simp
qed

lemma swept_cursor_active:
  "swept y x new (t\<lparr>t_cursor_active := a\<rparr>) (s\<lparr>t_cursor_active := b\<rparr>) = swept y x new t s"
  by (simp add: swept_def same_mode_def mirrored_def)

lemma scroll_spec:
  assumes "grid_ok (cells t) 25 80" "\<not> framebuffer_mode t \<Longrightarrow> mirrored t"
  shows "swept 25 0 (scrolled t) t (scroll t)"
proof -
  let ?u = "erase_cursor t"
  have u: "grid_ok (cells ?u) 25 80" "\<not> framebuffer_mode ?u \<Longrightarrow> mirrored ?u" "scrolled ?u = scrolled t"
    using assms by (auto simp: erase_cursor_eq scrolled_def mirrored_def fun_eq_iff)
  let ?s = "fold (blank_cell 24) [0..<80] (fold (\<lambda>y. fold (scroll_cell y) [0..<80]) [0..<24] ?u)"
  have s: "swept 25 0 (scrolled t) ?u ?s" using blank_last_row [OF scroll_rows [OF u(1,2)]] u(3) by simp
  have "scroll t = update_cursor (if framebuffer_mode ?s then redraw_all ?s else ?s)"
    by (simp add: scroll_def vga_consts Let_def)
  with s show ?thesis
    by (auto simp: swept_def same_mode_def erase_cursor_eq redraw_all_fb mirrored_def split: if_splits)
qed

lemma new_line_spec:
  assumes "term_ok t"
  shows "term_ok (new_line t)" "t_column (new_line t) = 0"
    "t_row (new_line t) = (if t_row t = 24 then 24 else t_row t + 1)"
    "\<And>y x. y < 25 \<Longrightarrow> x < 80 \<Longrightarrow> cells (new_line t) ! y ! x = (if t_row t = 24 then scrolled t y x else cells t ! y ! x)"
    "framebuffer_mode (new_line t) = framebuffer_mode t" "t_color (new_line t) = t_color t"
proof -
  define u where "u = t\<lparr>t_column := 0, t_row := t_row t + 1\<rparr>"
  have u: "t_column u = 0" "t_row u = t_row t + 1" "framebuffer_mode u = framebuffer_mode t" "t_color u = t_color t"
    "cells u = cells t" "vga_buffer u = vga_buffer t" by (simp_all add: u_def)
  have "grid_ok (cells u) 25 80" "\<not> framebuffer_mode u \<Longrightarrow> mirrored u"
    using assms by (auto simp: term_ok_def mirrored_def u)
  note sc = scroll_spec [OF this]
  have sd: "scrolled u = scrolled t" by (simp add: scrolled_def fun_eq_iff u)
  have nl: "new_line t = update_cursor (if t_row u = 25 then (scroll u)\<lparr>t_row := 24\<rparr> else u)"
    by (simp add: new_line_def vga_consts Let_def u_def)
  show "t_column (new_line t) = 0" "t_row (new_line t) = (if t_row t = 24 then 24 else t_row t + 1)"
    "framebuffer_mode (new_line t) = framebuffer_mode t" "t_color (new_line t) = t_color t"
    using sc u by (auto simp: nl swept_def same_mode_def)
  show "cells (new_line t) ! y ! x = (if t_row t = 24 then scrolled t y x else cells t ! y ! x)" if "y < 25" "x < 80" for y x
    using swept_done [OF sc that] u by (simp add: nl sd)
  show "term_ok (new_line t)"
    using assms sc u by (auto simp: nl term_ok_def swept_def same_mode_def mirrored_def)
qed

lemma new_line_column [simp]: "new_line (t\<lparr>t_column := c\<rparr>) = new_line t"
  by (simp add: new_line_def)

subsection \<open>Writing characters\<close>

text \<open>The write position in reading order.\<close>

definition position :: "Terminal \<Rightarrow> nat" where
  "position t = t_row t * 80 + t_column t"

lemma term_ok_update_cursor [simp]: "term_ok (update_cursor t) = term_ok t"
  by (simp add: term_ok_def mirrored_def)

lemma put_term_ok:
  assumes "term_ok t"
  shows "term_ok (putentry_at c col (t_column t) (t_row t) t)" "same_mode (putentry_at c col (t_column t) (t_row t) t) t"
    "\<And>y x. y < 25 \<Longrightarrow> x < 80 \<Longrightarrow> cells (putentry_at c col (t_column t) (t_row t) t) ! y ! x =
       (if y = t_row t \<and> x = t_column t then \<lparr>character = c, cell_color = col\<rparr> else cells t ! y ! x)"
proof -
  have a: "grid_ok (cells t) 25 80" "t_column t < 80" "t_row t < 25" "\<not> framebuffer_mode t \<Longrightarrow> mirrored t"
    using assms by (auto simp: term_ok_def)
  note p = putentry_at_spec [OF a(1-3), of c col]
  from p a show "term_ok (putentry_at c col (t_column t) (t_row t) t)"
    by (auto simp: term_ok_def same_mode_def)
  from p show "same_mode (putentry_at c col (t_column t) (t_row t) t) t" by blast
  show "\<And>y x. y < 25 \<Longrightarrow> x < 80 \<Longrightarrow> cells (putentry_at c col (t_column t) (t_row t) t) ! y ! x =
       (if y = t_row t \<and> x = t_column t then \<lparr>character = c, cell_color = col\<rparr> else cells t ! y ! x)"
    using grid_set_get [OF a(1,3,2)] by (simp add: p(1))
qed

lemma putchar_printable:
  assumes "term_ok t" "c \<noteq> 0x08" "c \<noteq> 0x0A"
  defines "u \<equiv> putentry_at c (t_color t) (t_column t) (t_row t) t"
  shows "term_putchar c t = (if t_column t = 79 then new_line u else update_cursor (u\<lparr>t_column := t_column t + 1\<rparr>))"
proof -
  have "t_column u = t_column t" using put_term_ok(2) [OF assms(1), of c "t_color t"] by (simp add: u_def same_mode_def)
  moreover have "term_putchar c t = (let u = u\<lparr>t_column := t_column u + 1\<rparr>
      in if t_column u = 80 then new_line u else update_cursor u)"
    using assms(2,3) by (simp add: term_putchar_def u_def vga_consts Let_def)
  ultimately show ?thesis by simp
qed

lemma term_putchar_ok:
  assumes "term_ok t"
  shows "term_ok (term_putchar c t)"
proof -
  consider "c = 0x08" | "c = 0x0A" | "c \<noteq> 0x08" "c \<noteq> 0x0A" by blast
  then show ?thesis
  proof cases
    case 1
    define u where "u = (if t_column t > 0 then t\<lparr>t_column := t_column t - 1\<rparr>
                    else if t_row t > 0 then t\<lparr>t_row := t_row t - 1, t_column := 79\<rparr> else t)"
    have "term_ok u" using assms by (auto simp: u_def term_ok_def mirrored_def)
    moreover have "term_putchar c t = update_cursor (putentry_at 0x20 (t_color u) (t_column u) (t_row u) u)"
      using 1 by (simp add: term_putchar_def vga_consts u_def Let_def)
    ultimately show ?thesis using put_term_ok(1) by simp
  next
    case 2
    then show ?thesis using new_line_spec(1) [OF assms] by (simp add: term_putchar_def)
  next
    case 3
    let ?u = "putentry_at c (t_color t) (t_column t) (t_row t) t"
    have u: "term_ok ?u" "t_column ?u = t_column t"
      using put_term_ok(1,2) [OF assms, of c "t_color t"] by (simp_all add: same_mode_def)
    have "t_column t \<noteq> 79 \<Longrightarrow> term_ok (?u\<lparr>t_column := t_column t + 1\<rparr>)"
      using u by (auto simp: term_ok_def mirrored_def)
    then show ?thesis using putchar_printable [OF assms 3] new_line_spec(1) [OF u(1)]
      by (cases "t_column t = 79") simp_all
  qed
qed

lemma fold_putchar_ok: "term_ok t \<Longrightarrow> term_ok (fold term_putchar cs t)"
  by (induction cs arbitrary: t) (simp_all add: term_putchar_ok)

lemma term_putchar_mode:
  assumes "term_ok t"
  shows "framebuffer_mode (term_putchar c t) = framebuffer_mode t"
proof -
  have u: "framebuffer_mode (putentry_at d col x y s) = framebuffer_mode s" for d col x y s
    by (simp add: putentry_at_def render_cell_def Let_def)
  consider "c = 0x08" | "c = 0x0A" | "c \<noteq> 0x08" "c \<noteq> 0x0A" by blast
  then show ?thesis
  proof cases
    case 3
    then show ?thesis using putchar_printable [OF assms 3] new_line_spec(5) [OF put_term_ok(1) [OF assms]]
      by (cases "t_column t = 79") (simp_all add: u)
  qed (use new_line_spec(5) [OF assms] in \<open>simp_all add: term_putchar_def u Let_def\<close>)
qed

lemma fold_putchar_mode: "term_ok t \<Longrightarrow> framebuffer_mode (fold term_putchar cs t) = framebuffer_mode t"
  by (induction cs arbitrary: t) (simp_all add: term_putchar_ok term_putchar_mode)

lemma term_clear_ok:
  assumes "term_ok t"
  shows "term_ok (term_clear t)"
    "\<And>y x. y < 25 \<Longrightarrow> x < 80 \<Longrightarrow> cells (term_clear t) ! y ! x = \<lparr>character = 0x20, cell_color = t_color t\<rparr>"
    "position (term_clear t) = 0"
proof -
  let ?u = "erase_cursor t"
  have "grid_ok (cells ?u) 25 80" "\<not> framebuffer_mode ?u \<Longrightarrow> mirrored ?u" "t_color ?u = t_color t"
    using assms by (auto simp: erase_cursor_eq term_ok_def mirrored_def)
  note s = blank_rows [OF this(1,2), unfolded this(3)]
  define v where "v = fold (\<lambda>y. fold (blank_cell y) [0..<80]) [0..<25] ?u"
  have cl: "term_clear t = update_cursor ((if framebuffer_mode v then redraw_all v else v)\<lparr>t_row := 0, t_column := 0\<rparr>)"
    by (simp add: term_clear_def vga_consts Let_def v_def)
  show "term_ok (term_clear t)" using s [folded v_def]
    by (auto simp: cl term_ok_def swept_def same_mode_def redraw_all_fb mirrored_def)
  show "cells (term_clear t) ! y ! x = \<lparr>character = 0x20, cell_color = t_color t\<rparr>" if "y < 25" "x < 80" for y x
    using swept_done [OF s [folded v_def] that] by (simp add: cl redraw_all_fb)
  show "position (term_clear t) = 0" by (simp add: cl position_def)
qed

lemma initialize_rows:
  assumes "grid_ok (cells t) 25 80" "length (vga_buffer t) = 2000"
  defines "P \<equiv> \<lambda>y x s. grid_ok (cells s) 25 80 \<and> length (vga_buffer s) = 2000 \<and> same_mode s t \<and>
     (\<forall>y'<25. \<forall>x'<80. y' < y \<or> y' = y \<and> x' < x \<longrightarrow> cells s ! y' ! x' = \<lparr>character = 0x20, cell_color = t_color t\<rparr> \<and>
        (\<not> framebuffer_mode t \<longrightarrow> vga_buffer s ! (y' * 80 + x') = make_entry 0x20 (t_color t)))"
  shows "P 25 0 (fold (\<lambda>y. fold (initialize_cell y) [0..<80]) [0..<25] t)"
proof (rule fold_grid_inv)
  show "P 0 0 t" using assms(1,2) by (simp add: P_def same_mode_def)
  show "P (Suc y) 0 s" if "P y 80 s" for y s using that by (auto simp: P_def less_Suc_eq)
  fix y x s assume *: "y < (25 :: nat)" "x < (80 :: nat)" "P y x s"
  then have g: "grid_ok (cells s) 25 80" "t_color s = t_color t" "framebuffer_mode s = framebuffer_mode t"
    by (simp_all add: P_def same_mode_def)
  have c: "cells (initialize_cell y x s) = grid_set (cells s) y x \<lparr>character = 0x20, cell_color = t_color t\<rparr>"
    "same_mode (initialize_cell y x s) s"
    "vga_buffer (initialize_cell y x s) =
      (if framebuffer_mode t then vga_buffer s else (vga_buffer s)[y * 80 + x := make_entry 0x20 (t_color t)])"
    using *(1,2) g grid_set_get [OF g(1) *(1,2,1), of _ x]
    by (simp_all add: initialize_cell_def render_cell_def same_mode_def vga_consts Let_def)
  show "P y (Suc x) (initialize_cell y x s)"
    using * c(2) g unfolding P_def c(1,3)
    by (auto simp: same_mode_def grid_set_get nth_list_update vga_index_eq less_Suc_eq)
qed


lemma term_initialize_spec:
  assumes "length (vga_buffer t) = 2000"
  shows "term_ok (term_initialize fb t)" "position (term_initialize fb t) = 0" "t_color (term_initialize fb t) = 7"
    "\<And>y x. y < 25 \<Longrightarrow> x < 80 \<Longrightarrow> cells (term_initialize fb t) ! y ! x = \<lparr>character = 0x20, cell_color = 7\<rparr>"
proof -
  define u where "u = t\<lparr>t_row := 0, t_column := 0, t_cursor_row := 0, t_cursor_column := 0, t_cursor_active := False,
      t_color := make_color 7 0, framebuffer_mode := fb, cells := replicate 25 (replicate 80 \<lparr>character = 0, cell_color = 0\<rparr>)\<rparr>"
  define v where "v = fold (\<lambda>y. fold (initialize_cell y) [0..<80]) [0..<25] u"
  have u: "grid_ok (cells u) 25 80" "length (vga_buffer u) = 2000" "t_color u = 7" "t_row u = 0" "t_column u = 0"
    using assms by (simp_all add: u_def grid_ok_def make_color_def)
  have i: "term_initialize fb t = update_cursor v"
    by (simp add: term_initialize_def v_def u_def vga_consts Let_def)
  note r = initialize_rows [OF u(1,2), folded v_def, unfolded u(3)]
  show "term_ok (term_initialize fb t)" using r u by (auto simp: i term_ok_def mirrored_def same_mode_def)
  show "position (term_initialize fb t) = 0" "t_color (term_initialize fb t) = 7"
    using r u by (simp_all add: i position_def same_mode_def)
  show "cells (term_initialize fb t) ! y ! x = \<lparr>character = 0x20, cell_color = 7\<rparr>" if "y < 25" "x < 80" for y x
    using r that by (simp add: i)
qed

subsection \<open>Properties\<close>

text \<open>Writing a character other than backspace and newline puts it, with the current colour, at the
  write position and advances the position by one; at the last position of the screen every line moves up by one,
  the last line becomes blank and the position its start. In text mode the VGA buffer then shows the cells, and the
  CRT controller has the new position.\<close>

theorem putchar_printable_correct:
  assumes "term_ok t" "c \<noteq> 0x08" "c \<noteq> 0x0A"
  defines "put \<equiv> \<lambda>y x. if y * 80 + x = position t then \<lparr>character = c, cell_color = t_color t\<rparr> else cells t ! y ! x"
  shows "term_ok (term_putchar c t) \<and>
    position (term_putchar c t) = (if position t = 1999 then 1920 else position t + 1) \<and>
    (\<forall>y<25. \<forall>x<80. cells (term_putchar c t) ! y ! x =
       (if position t < 1999 then put y x
        else if y < 24 then put (y + 1) x else \<lparr>character = 0x20, cell_color = t_color t\<rparr>)) \<and>
    (\<not> framebuffer_mode t \<longrightarrow> crtc_position (term_putchar c t) = position (term_putchar c t))"
proof -
  let ?u = "putentry_at c (t_color t) (t_column t) (t_row t) t"
  have t: "t_row t < 25" "t_column t < 80" using assms(1) by (simp_all add: term_ok_def)
  note u = put_term_ok [OF assms(1), where c = c and col = "t_color t"]
  note nl = new_line_spec [OF u(1)]
  have cell: "cells ?u ! y ! x = put y x" if "y < 25" "x < 80" for y x
    using u(3) [OF that] vga_index_eq [OF that(2) t(2)] by (auto simp: put_def position_def)
  have p: "term_putchar c t = (if t_column t = 79 then new_line ?u else update_cursor (?u\<lparr>t_column := t_column t + 1\<rparr>))"
    by (rule putchar_printable [OF assms(1-3)])
  have ok: "term_ok (term_putchar c t)" by (rule term_putchar_ok [OF assms(1)])
  have m: "t_row ?u = t_row t" "t_column ?u = t_column t" "t_color ?u = t_color t" "framebuffer_mode ?u = framebuffer_mode t"
    using u(2) by (simp_all add: same_mode_def)
  have pos: "position t = 1999 \<longleftrightarrow> t_column t = 79 \<and> t_row t = 24" "position t < 1999 \<longleftrightarrow> \<not> (t_column t = 79 \<and> t_row t = 24)"
    using t vga_index_eq [OF t(2), of 79 "t_row t" 24] by (auto simp: position_def)
  have "position (term_putchar c t) = (if position t = 1999 then 1920 else position t + 1)"
    using nl(2,3) m pos by (auto simp: p position_def)
  moreover have "cells (term_putchar c t) ! y ! x =
       (if position t < 1999 then put y x
        else if y < 24 then put (y + 1) x else \<lparr>character = 0x20, cell_color = t_color t\<rparr>)" if "y < 25" "x < 80" for y x
    using nl(4) [OF that] m pos cell [OF that] cell [of "y + 1" x] that(2) by (auto simp: p scrolled_def)
  moreover have "crtc_position (term_putchar c t) = position (term_putchar c t)" if "\<not> framebuffer_mode t"
  proof -
    obtain w where w: "term_putchar c t = update_cursor w" by (cases "t_column t = 79") (auto simp: p new_line_def Let_def)
    have "framebuffer_mode (term_putchar c t) = framebuffer_mode t" using m nl(5)
      by (cases "t_column t = 79") (simp_all add: p)
    with w ok that show ?thesis using update_cursor_crtc [of w] by (simp add: term_ok_def position_def)
  qed
  ultimately show ?thesis using ok by blast
qed

subsection \<open>The cursor\<close>

text \<open>The cursor of the framebuffer is drawn at the write position; in text mode the CRT controller has that position.\<close>

definition cursor_ok :: "Terminal \<Rightarrow> bool" where
  "cursor_ok t \<longleftrightarrow> t_cursor_row t < 25 \<and> t_cursor_column t < 80 \<and>
     (if framebuffer_mode t then t_cursor_active t \<and> t_cursor_row t = t_row t \<and> t_cursor_column t = t_column t
      else crtc_position t = position t)"

definition same_cursor :: "Terminal \<Rightarrow> Terminal \<Rightarrow> bool" where
  "same_cursor s t \<longleftrightarrow> t_cursor_row s = t_cursor_row t \<and> t_cursor_column s = t_cursor_column t"

lemma update_cursor_ok:
  assumes "t_row t < 25" "t_column t < 80" "\<not> framebuffer_mode t \<Longrightarrow> t_cursor_row t < 25 \<and> t_cursor_column t < 80"
  shows "cursor_ok (update_cursor t)"
proof (cases "framebuffer_mode t")
  case True
  with assms show ?thesis by (simp add: cursor_ok_def update_cursor_def erase_cursor_eq draw_cursor_def vga_consts Let_def)
next
  case False
  with assms update_cursor_crtc [OF False assms(1,2)] show ?thesis
    by (simp add: cursor_ok_def position_def) (simp add: update_cursor_def Let_def)
qed

lemma fold_same_cursor: "(\<And>x s. same_cursor (f x s) s) \<Longrightarrow> same_cursor (fold f xs s) s"
  by (induction xs arbitrary: s) (auto simp: same_cursor_def)

lemma cells_same_cursor:
  "same_cursor (putentry_at c col x y t) t" "same_cursor (blank_cell y x t) t" "same_cursor (scroll_cell y x t) t"
  "same_cursor (initialize_cell y x t) t" "same_cursor (erase_cursor t) t"
  "\<not> framebuffer_mode t \<Longrightarrow> same_cursor (update_cursor t) t"
  by (simp_all add: same_cursor_def putentry_at_def blank_cell_def scroll_cell_def initialize_cell_def render_cell_def
      erase_cursor_eq update_cursor_def Let_def)

lemma scroll_same_cursor:
  assumes "\<not> framebuffer_mode t" "\<not> framebuffer_mode (scroll t)"
  shows "same_cursor (scroll t) t"
proof -
  define v where "v = fold (blank_cell (VGA_HEIGHT - 1)) [0..<VGA_WIDTH]
     (fold (\<lambda>y. fold (scroll_cell y) [0..<VGA_WIDTH]) [0..<VGA_HEIGHT - 1] (erase_cursor t))"
  have v: "same_cursor v t" unfolding v_def
    using fold_same_cursor [of "blank_cell (VGA_HEIGHT - 1)" "[0..<VGA_WIDTH]"]
      fold_same_cursor [of "\<lambda>y. fold (scroll_cell y) [0..<VGA_WIDTH]" "[0..<VGA_HEIGHT - 1]"] fold_same_cursor [of "scroll_cell _"]
      cells_same_cursor by (metis (no_types, lifting) same_cursor_def)
  have "scroll t = update_cursor (if framebuffer_mode v then redraw_all v else v)"
    by (simp add: scroll_def v_def Let_def)
  with assms(2) have "\<not> framebuffer_mode v \<and> scroll t = update_cursor v"
    by (cases "framebuffer_mode v") (simp_all add: redraw_all_fb)
  with v cells_same_cursor(6) [of v] show ?thesis by (simp add: same_cursor_def)
qed

lemma new_line_cursor:
  assumes "term_ok t" "\<not> framebuffer_mode t \<Longrightarrow> t_cursor_row t < 25 \<and> t_cursor_column t < 80"
  shows "cursor_ok (new_line t)"
proof -
  define u where "u = t\<lparr>t_column := 0, t_row := t_row t + 1\<rparr>"
  have u: "t_column u = 0" "t_row u = t_row t + 1" "framebuffer_mode u = framebuffer_mode t" "same_cursor u t"
    by (simp_all add: u_def same_cursor_def)
  have "grid_ok (cells u) 25 80" "\<not> framebuffer_mode u \<Longrightarrow> mirrored u" using assms(1) by (auto simp: u_def term_ok_def mirrored_def)
  then have sc: "same_mode (scroll u) u" using scroll_spec by (simp add: swept_def)
  have "same_cursor (scroll u) u" if "\<not> framebuffer_mode t" using that u sc scroll_same_cursor [of u] by (simp add: same_mode_def)
  moreover have "new_line t = update_cursor (if t_row u = 25 then (scroll u)\<lparr>t_row := 24\<rparr> else u)"
    by (simp add: new_line_def vga_consts Let_def u_def)
  ultimately show ?thesis using assms u sc
    by (auto intro!: update_cursor_ok simp: same_cursor_def same_mode_def term_ok_def)
qed

lemma term_putchar_cursor:
  assumes "term_ok t" "cursor_ok t"
  shows "cursor_ok (term_putchar c t)"
proof -
  have b: "t_cursor_row t < 25" "t_cursor_column t < 80" using assms(2) by (simp_all add: cursor_ok_def)
  consider "c = 0x08" | "c = 0x0A" | "c \<noteq> 0x08" "c \<noteq> 0x0A" by blast
  then show ?thesis
  proof cases
    case 1
    define u where "u = (if t_column t > 0 then t\<lparr>t_column := t_column t - 1\<rparr>
                    else if t_row t > 0 then t\<lparr>t_row := t_row t - 1, t_column := 79\<rparr> else t)"
    let ?v = "putentry_at 0x20 (t_color u) (t_column u) (t_row u) u"
    have u: "term_ok u" "same_cursor u t" using assms(1) by (auto simp: u_def term_ok_def mirrored_def same_cursor_def)
    have v: "term_ok ?v" "same_cursor ?v u" using put_term_ok(1) [OF u(1)] cells_same_cursor(1) by blast+
    have "term_putchar c t = update_cursor ?v" using 1 by (simp add: term_putchar_def vga_consts u_def Let_def)
    with u v b show ?thesis by (auto intro!: update_cursor_ok simp: term_ok_def same_cursor_def)
  next
    case 2
    then show ?thesis using new_line_cursor [OF assms(1)] b by (simp add: term_putchar_def)
  next
    case 3
    let ?u = "putentry_at c (t_color t) (t_column t) (t_row t) t"
    have u: "term_ok ?u" "same_mode ?u t" "same_cursor ?u t" using put_term_ok(1,2) [OF assms(1)] cells_same_cursor(1) by blast+
    have "cursor_ok (new_line ?u)" using new_line_cursor [OF u(1)] u(3) b by (simp add: same_cursor_def)
    moreover have "cursor_ok (update_cursor (?u\<lparr>t_column := t_column t + 1\<rparr>))" if "t_column t \<noteq> 79"
      using that u b by (intro update_cursor_ok) (auto simp: term_ok_def same_mode_def same_cursor_def)
    ultimately show ?thesis unfolding putchar_printable [OF assms(1) 3] by (cases "t_column t = 79") auto
  qed
qed

lemma term_clear_cursor:
  assumes "term_ok t" "cursor_ok t"
  shows "cursor_ok (term_clear t)"
proof -
  define v where "v = fold (\<lambda>y. fold (blank_cell y) [0..<VGA_WIDTH]) [0..<VGA_HEIGHT] (erase_cursor t)"
  have "same_cursor v t" unfolding v_def
    using fold_same_cursor [of "\<lambda>y. fold (blank_cell y) [0..<VGA_WIDTH]" "[0..<VGA_HEIGHT]"] fold_same_cursor [of "blank_cell _"]
      cells_same_cursor by (metis (no_types, lifting) same_cursor_def)
  moreover have "term_clear t = update_cursor ((if framebuffer_mode v then redraw_all v else v)\<lparr>t_row := 0, t_column := 0\<rparr>)"
    by (simp add: term_clear_def Let_def v_def)
  moreover have "t_cursor_row t < 25" "t_cursor_column t < 80" using assms(2) by (simp_all add: cursor_ok_def)
  ultimately show ?thesis by (auto intro!: update_cursor_ok simp: same_cursor_def redraw_all_fb)
qed

lemma term_initialize_cursor: "cursor_ok (term_initialize fb t)" "framebuffer_mode (term_initialize fb t) = fb"
proof -
  define u where "u = t\<lparr>t_row := 0, t_column := 0, t_cursor_row := 0, t_cursor_column := 0, t_cursor_active := False,
      t_color := make_color 7 0, framebuffer_mode := fb,
      cells := replicate VGA_HEIGHT (replicate VGA_WIDTH \<lparr>character = 0, cell_color = 0\<rparr>)\<rparr>"
  define v where "v = fold (\<lambda>y. fold (initialize_cell y) [0..<VGA_WIDTH]) [0..<VGA_HEIGHT] u"
  have "same_cursor v u" unfolding v_def
    using fold_same_cursor [of "\<lambda>y. fold (initialize_cell y) [0..<VGA_WIDTH]" "[0..<VGA_HEIGHT]"] fold_same_cursor [of "initialize_cell _"]
      cells_same_cursor by (metis (no_types, lifting) same_cursor_def)
  then have "t_cursor_row v = 0 \<and> t_cursor_column v = 0" by (simp add: u_def same_cursor_def)
  moreover have keep: "t_row (fold f xs w) = t_row w \<and> t_column (fold f xs w) = t_column w \<and> framebuffer_mode (fold f xs w) = framebuffer_mode w"
    if "\<And>x w. t_row (f x w) = t_row w \<and> t_column (f x w) = t_column w \<and> framebuffer_mode (f x w) = framebuffer_mode w"
    for f :: "nat \<Rightarrow> Terminal \<Rightarrow> Terminal" and xs w
    using that by (induction xs arbitrary: w) simp_all
  have "t_row v = t_row u \<and> t_column v = t_column u \<and> framebuffer_mode v = framebuffer_mode u" unfolding v_def
    by (intro keep) (simp add: initialize_cell_def render_cell_def Let_def)
  then have v: "t_row v = 0" "t_column v = 0" "framebuffer_mode v = fb" by (simp_all add: u_def)
  moreover have i: "term_initialize fb t = update_cursor v" by (simp add: term_initialize_def v_def u_def Let_def)
  ultimately show "cursor_ok (term_initialize fb t)" by (auto intro!: update_cursor_ok)
  show "framebuffer_mode (term_initialize fb t) = fb" by (simp add: i v)
qed

subsection \<open>Reachable consoles\<close>

text \<open>Snapshots whose positions are on the screen.\<close>

definition snapshot_in_range :: "Snapshot \<Rightarrow> bool" where
  "snapshot_in_range s \<longleftrightarrow> s_row s < 25 \<and> s_column s < 80 \<and> s_cursor_row s < 25 \<and> s_cursor_column s < 80"

text \<open>The states a console can reach from its initialisation. Loading a snapshot is a step in framebuffer mode: in
  text mode \<open>load_snapshot\<close> leaves both the VGA buffer and the CRT controller as they are.\<close>

inductive console_reach :: "Terminal \<Rightarrow> bool" where
  init: "length (vga_buffer t) = 2000 \<Longrightarrow> console_reach (term_initialize fb t)"
| putchar: "console_reach t \<Longrightarrow> console_reach (term_putchar c t)"
| writeln: "console_reach t \<Longrightarrow> console_reach (writeLine cs t)"
| clear: "console_reach t \<Longrightarrow> console_reach (term_clear t)"
| cursor: "console_reach t \<Longrightarrow> console_reach (set_cursor r k t)"
| color: "console_reach t \<Longrightarrow> console_reach (setcolor col t)"
| full_color: "console_reach t \<Longrightarrow> console_reach (setfull_color fg bg t)"
| put: "console_reach t \<Longrightarrow> console_reach (put_at c col x y t)"
| origin: "console_reach t \<Longrightarrow> console_reach (set_graphics_origin px py b t)"
| refresh: "console_reach t \<Longrightarrow> console_reach (refresh t)"
| load: "console_reach t \<Longrightarrow> framebuffer_mode t \<Longrightarrow> snapshot_in_range s \<Longrightarrow> console_reach (load_snapshot s t)"

lemma refresh_ok: "term_ok t \<Longrightarrow> term_ok (refresh t)"
  by (auto simp: refresh_def redraw_all_fb erase_cursor_eq term_ok_def)

lemma small_ops_ok:
  assumes "term_ok t"
  shows "term_ok (set_cursor r k t)" "term_ok (setcolor col t)" "term_ok (setfull_color fg bg t)"
    "term_ok (put_at c col x y t)" "term_ok (set_graphics_origin px py b t)"
proof -
  show "term_ok (set_cursor r k t)" using assms by (auto simp: set_cursor_def vga_consts term_ok_def mirrored_def Let_def)
  show "term_ok (setcolor col t)" "term_ok (setfull_color fg bg t)"
    using assms by (simp_all add: setcolor_def setfull_color_def term_ok_def mirrored_def)
  show "term_ok (put_at c col x y t)"
  proof (cases "x < 80 \<and> y < 25")
    case True
    with assms putentry_at_spec [of t x y c col] show ?thesis by (auto simp: put_at_def term_ok_def same_mode_def)
  next
    case False
    with assms show ?thesis by (auto simp: put_at_def putentry_at_def vga_consts)
  qed
  have "term_ok (t\<lparr>origin_x_px := px, origin_y_px := py\<rparr>)" using assms by (simp add: term_ok_def mirrored_def)
  then show "term_ok (set_graphics_origin px py b t)"
    using refresh_ok by (simp add: set_graphics_origin_def Let_def)
qed

lemma refresh_cursor: "term_ok t \<Longrightarrow> cursor_ok t \<Longrightarrow> cursor_ok (refresh t)"
  by (auto simp: refresh_def redraw_all_fb erase_cursor_eq term_ok_def intro!: update_cursor_ok)

lemma small_ops_cursor:
  assumes "term_ok t" "cursor_ok t"
  shows "cursor_ok (set_cursor r k t)" "cursor_ok (setcolor col t)" "cursor_ok (setfull_color fg bg t)"
    "cursor_ok (put_at c col x y t)" "cursor_ok (set_graphics_origin px py b t)"
proof -
  show "cursor_ok (set_cursor r k t)" unfolding set_cursor_def Let_def
    by (rule update_cursor_ok) (use assms(2) in \<open>auto simp: vga_consts cursor_ok_def\<close>)
  show "cursor_ok (setcolor col t)" "cursor_ok (setfull_color fg bg t)"
    using assms(2) unfolding cursor_ok_def by (simp_all add: setcolor_def setfull_color_def position_def crtc_position_def split: if_splits)
  show "cursor_ok (put_at c col x y t)"
    using assms(2) unfolding cursor_ok_def by (auto simp: put_at_def putentry_at_def render_cell_def position_def crtc_position_def Let_def)
  have "term_ok (t\<lparr>origin_x_px := px, origin_y_px := py\<rparr>)" "cursor_ok (t\<lparr>origin_x_px := px, origin_y_px := py\<rparr>)"
    using assms by (simp add: term_ok_def mirrored_def)
      (use assms(2) in \<open>auto simp: cursor_ok_def position_def crtc_position_def split: if_splits\<close>)
  then show "cursor_ok (set_graphics_origin px py b t)"
    using refresh_cursor by (simp add: set_graphics_origin_def Let_def)
qed

lemma load_snapshot_ok:
  assumes "framebuffer_mode t" "snapshot_in_range s"
  shows "term_ok (load_snapshot s t)" "cursor_ok (load_snapshot s t)"
proof -
  obtain w where w: "load_snapshot s t = update_cursor w" "framebuffer_mode w" "t_row w = s_row s" "t_column w = s_column s"
    "grid_ok (cells w) 25 80"
    using assms(1) by (auto simp: load_snapshot_def Let_def vga_consts erase_cursor_eq redraw_all_fb grid_ok_def)
  with assms(2) show "term_ok (load_snapshot s t)" by (simp add: term_ok_def snapshot_in_range_def)
  show "cursor_ok (load_snapshot s t)" unfolding w(1)
    by (rule update_cursor_ok) (use w assms(2) in \<open>auto simp: snapshot_in_range_def\<close>)
qed

lemma writeLine_keeps:
  assumes "term_ok t" "cursor_ok t"
  shows "term_ok (writeLine cs t)" "cursor_ok (writeLine cs t)"
proof -
  have "term_ok (fold term_putchar cs t) \<and> cursor_ok (fold term_putchar cs t)"
    using assms by (induction cs arbitrary: t) (simp_all add: term_putchar_ok term_putchar_cursor)
  then show "term_ok (writeLine cs t)" "cursor_ok (writeLine cs t)"
    using new_line_spec(1) new_line_cursor by (auto simp: writeLine_def writestring_def cursor_ok_def)
qed

text \<open>C8. In every state that the console reaches from its initialisation by any sequence of operations
  (loading a snapshot whose positions are on the screen included, in framebuffer mode), the cells form the screen and
  the write position is on it. In framebuffer mode the cursor is drawn exactly at the write position; in text mode the
  CRT controller has the write position and the VGA buffer shows exactly the cells.\<close>

theorem console_invariant:
  assumes "console_reach t"
  shows "grid_ok (cells t) 25 80 \<and> t_row t < 25 \<and> t_column t < 80 \<and> t_cursor_row t < 25 \<and> t_cursor_column t < 80 \<and>
    (framebuffer_mode t \<longrightarrow> t_cursor_active t \<and> t_cursor_row t = t_row t \<and> t_cursor_column t = t_column t) \<and>
    (\<not> framebuffer_mode t \<longrightarrow> crtc_position t = position t \<and> mirrored t)"
proof -
  from assms have "term_ok t \<and> cursor_ok t"
    by (induction rule: console_reach.induct)
      (simp_all add: term_initialize_spec term_initialize_cursor term_putchar_ok term_putchar_cursor term_clear_ok term_clear_cursor
        small_ops_ok small_ops_cursor refresh_ok refresh_cursor load_snapshot_ok writeLine_keeps)
  then show ?thesis by (simp add: term_ok_def cursor_ok_def)
qed

definition raw_terminal :: Terminal where
  "raw_terminal = \<lparr>t_row = 99, t_column = 99, t_color = 0, vga_buffer = replicate 2000 0, cells = [], framebuffer_mode = True,
     t_cursor_row = 0, t_cursor_column = 0, t_cursor_active = True, origin_x_px = 0, origin_y_px = 0, crtc_low = 0, crtc_high = 0\<rparr>"

lemma raw_terminal_init: "console_reach (term_initialize fb raw_terminal)" "term_ok (term_initialize fb raw_terminal)"
    "position (term_initialize fb raw_terminal) = 0"
  using term_initialize_spec [where t = raw_terminal and fb = fb] by (auto simp: raw_terminal_def intro: console_reach.init)

theorem console_invariant_witness:
  "t_cursor_row (load_snapshot (save_snapshot (term_initialize True raw_terminal))
     (set_cursor 24 79 (writeLine [0x41, 0x0A, 0x08] (term_initialize True raw_terminal)))) < 25"
proof -
  let ?i = "term_initialize True raw_terminal" and ?t = "set_cursor 24 79 (writeLine [0x41, 0x0A, 0x08] (term_initialize True raw_terminal))"
  have i: "term_ok ?i" "cursor_ok ?i" "framebuffer_mode ?i" by (simp_all add: raw_terminal_init term_initialize_cursor)
  then have "framebuffer_mode ?t" using new_line_spec(5) fold_putchar_ok [OF i(1)]
    by (simp add: writeLine_def writestring_def set_cursor_def term_putchar_mode term_putchar_ok Let_def)
  moreover have "snapshot_in_range (save_snapshot ?i)"
    using i by (simp add: snapshot_in_range_def save_snapshot_def term_ok_def cursor_ok_def)
  ultimately have "console_reach (load_snapshot (save_snapshot ?i) ?t)"
    by (intro console_reach.load console_reach.cursor console_reach.writeln raw_terminal_init)
  then show ?thesis using console_invariant by blast
qed

theorem putchar_printable_correct_witness:
  "position (term_putchar 0x41 (term_initialize False raw_terminal)) = 1 \<and>
   cells (term_putchar 0x41 (term_initialize False raw_terminal)) ! 0 ! 0 =
     \<lparr>character = 0x41, cell_color = t_color (term_initialize False raw_terminal)\<rparr>"
  using putchar_printable_correct [OF raw_terminal_init(2) [of False], of "0x41"] raw_terminal_init(3) [of False] by simp

text \<open>Loading a saved snapshot brings back the characters, colours, write position and colour, in either
  mode. In text mode, however, loading leaves the VGA buffer untouched, so the screen still shows the old contents.\<close>

theorem snapshot_roundtrip:
  assumes "grid_ok (cells t) 25 80"
  shows "cells (load_snapshot (save_snapshot t) s) = cells t \<and> position (load_snapshot (save_snapshot t) s) = position t \<and>
    t_color (load_snapshot (save_snapshot t) s) = t_color t \<and>
    (\<not> framebuffer_mode s \<longrightarrow> vga_buffer (load_snapshot (save_snapshot t) s) = vga_buffer s)"
proof -
  have "cells (load_snapshot (save_snapshot t) s) =
      map (\<lambda>y. map (\<lambda>x. \<lparr>character = character (cells t ! y ! x), cell_color = cell_color (cells t ! y ! x)\<rparr>) [0..<80]) [0..<25]"
    by (simp add: load_snapshot_def save_snapshot_def vga_consts Let_def redraw_all_fb)
  also have "\<dots> = cells t"
    using assms by (intro grid_eqI [of _ 25 80]) (simp_all add: grid_ok_def)
  finally show ?thesis
    by (auto simp: load_snapshot_def save_snapshot_def vga_consts Let_def redraw_all_fb position_def erase_cursor_eq)
qed

theorem snapshot_roundtrip_witness:
  "position (load_snapshot (save_snapshot (term_initialize True raw_terminal)) raw_terminal) = 0"
proof -
  have "grid_ok (cells (term_initialize True raw_terminal)) 25 80" using raw_terminal_init(2) by (simp add: term_ok_def)
  from snapshot_roundtrip [OF this, of raw_terminal] raw_terminal_init(3) show ?thesis by simp
qed

end
