(* ===== verification/Windows.thy ===== *)
theory Windows
  imports Terminal
begin

text \<open>
  The window manager, \<^verbatim>\<open>src/kernel/terminal_windows.cpp\<close>: a table of eight windows, each with its own console
  snapshot and a region of rows to redraw, a stack of the visible windows, the active window, and the state of
  dragging and resizing. Slots and rows are naturals, frame coordinates 32-bit words as in the code, and the signed
  arithmetic of resizing integers. The geometry of the framebuffer (\<open>framebuffer::info\<close>) is part of the state.
  Drawing writes pixels only; of the drawing functions only the reset of the dirty regions is kept.

  The reaction to the mouse is in \<open>Window_Input\<close>, since it calls the scheduler.
\<close>

subsection \<open>Data\<close>

record DirtyRegion =
  min_row :: nat
  max_row :: nat
  full_refresh :: bool

record Window =
  in_use :: bool
  owner :: addr
  snapshot :: Snapshot
  frame_x :: u32
  frame_y :: u32
  frame_width :: u32
  frame_height :: u32
  content_width :: u32
  content_height :: u32
  visible_columns :: u32
  visible_rows :: u32
  dirty :: DirtyRegion

definition MAX_WINDOWS :: nat where "MAX_WINDOWS = 8"
definition FRAME_BORDER :: u32 where "FRAME_BORDER = 2"
definition TITLE_BAR_HEIGHT :: u32 where "TITLE_BAR_HEIGHT = 24"
definition CONTENT_PADDING_X :: u32 where "CONTENT_PADDING_X = 12"
definition CONTENT_PADDING_BOTTOM :: u32 where "CONTENT_PADDING_BOTTOM = 12"
definition INITIAL_FRAME_X :: u32 where "INITIAL_FRAME_X = 40"
definition INITIAL_FRAME_Y :: u32 where "INITIAL_FRAME_Y = 72"
definition CASCADE_STEP_X :: u32 where "CASCADE_STEP_X = 28"
definition CASCADE_STEP_Y :: u32 where "CASCADE_STEP_Y = 28"
definition RESIZE_MARGIN :: u32 where "RESIZE_MARGIN = 12"
definition MIN_VISIBLE_COLUMNS :: u32 where "MIN_VISIBLE_COLUMNS = 24"
definition MIN_VISIBLE_ROWS :: u32 where "MIN_VISIBLE_ROWS = 12"
definition CLOSE_BUTTON_SIZE :: u32 where "CLOSE_BUTTON_SIZE = 14"
definition CLOSE_BUTTON_MARGIN :: u32 where "CLOSE_BUTTON_MARGIN = 8"
definition FONT_WIDTH :: u32 where "FONT_WIDTH = 8"
definition FONT_HEIGHT :: u32 where "FONT_HEIGHT = 16"
definition INVALID_SLOT :: int where "INVALID_SLOT = -1"

text \<open>The set of edges is the bit mask \<open>uint8_t\<close> of the code.\<close>

definition RESIZE_EDGE_LEFT :: u8 where "RESIZE_EDGE_LEFT = 1"
definition RESIZE_EDGE_RIGHT :: u8 where "RESIZE_EDGE_RIGHT = 2"
definition RESIZE_EDGE_TOP :: u8 where "RESIZE_EDGE_TOP = 4"
definition RESIZE_EDGE_BOTTOM :: u8 where "RESIZE_EDGE_BOTTOM = 8"

record wins =
  fb_available :: bool
  fb_width :: u32
  fb_height :: u32
  g_windows :: "Window list"
  g_window_count :: nat
  g_active_slot :: int
  g_z_order :: "nat list"
  g_z_count :: nat
  g_content_offset_x :: u32
  g_content_offset_y :: u32
  g_geometry_ready :: bool
  g_blank_snapshot :: Snapshot
  g_blank_ready :: bool
  g_dragging_window :: bool
  g_drag_slot :: int
  g_drag_offset_x :: int
  g_drag_offset_y :: int
  g_resizing_window :: bool
  g_resize_slot :: int
  g_resize_edges :: u8
  g_resize_start_cursor_x :: int
  g_resize_start_cursor_y :: int
  g_resize_start_frame_x :: u32
  g_resize_start_frame_y :: u32
  g_resize_start_frame_width :: u32
  g_resize_start_frame_height :: u32

subsection \<open>Dirty regions\<close>

definition make_empty_dirty_region :: DirtyRegion where
  "make_empty_dirty_region = \<lparr>min_row = VGA_HEIGHT, max_row = 0, full_refresh = False\<rparr>"

definition dirty_region_has_updates :: "DirtyRegion \<Rightarrow> bool" where
  "dirty_region_has_updates r \<longleftrightarrow> full_refresh r \<or> min_row r \<le> max_row r"

definition mark_full_dirty :: "DirtyRegion \<Rightarrow> DirtyRegion" where
  "mark_full_dirty r = r\<lparr>full_refresh := True, min_row := 0, max_row := (if VGA_HEIGHT > 0 then VGA_HEIGHT - 1 else 0)\<rparr>"

definition mark_row_dirty :: "nat \<Rightarrow> DirtyRegion \<Rightarrow> DirtyRegion" where
  "mark_row_dirty row r =
     (if full_refresh r \<or> row \<ge> VGA_HEIGHT then r
      else if min_row r > max_row r then r\<lparr>min_row := row, max_row := row\<rparr>
      else let r = (if row < min_row r then r\<lparr>min_row := row\<rparr> else r)
           in if row > max_row r then r\<lparr>max_row := row\<rparr> else r)"

subsection \<open>Slots and the window stack\<close>

text \<open>The zero-initialised \<open>Window{}\<close> with its default members, after \<open>reset_dirty\<close>.\<close>

definition zero_snapshot :: Snapshot where
  "zero_snapshot = \<lparr>characters = replicate VGA_HEIGHT (replicate VGA_WIDTH 0), colors = replicate VGA_HEIGHT (replicate VGA_WIDTH 0),
     s_row = 0, s_column = 0, s_color = 0, s_cursor_row = 0, s_cursor_column = 0, s_cursor_active = False\<rparr>"

definition empty_window :: Window where
  "empty_window = \<lparr>in_use = False, owner = 0, snapshot = zero_snapshot, frame_x = 0, frame_y = 0, frame_width = 0,
     frame_height = 0, content_width = 0, content_height = 0, visible_columns = 80, visible_rows = 25,
     dirty = make_empty_dirty_region\<rparr>"

definition window_slot_valid :: "wins \<Rightarrow> nat \<Rightarrow> bool" where
  "window_slot_valid w slot \<longleftrightarrow> slot < MAX_WINDOWS \<and> in_use (g_windows w ! slot)"

definition upd_window :: "nat \<Rightarrow> (Window \<Rightarrow> Window) \<Rightarrow> wins \<Rightarrow> wins" where
  "upd_window slot f w = w\<lparr>g_windows := (g_windows w)[slot := f (g_windows w ! slot)]\<rparr>"

definition find_stack_position :: "wins \<Rightarrow> nat \<Rightarrow> nat" where
  "find_stack_position w slot =
     (case find (\<lambda>i. g_z_order w ! i = slot) [0..<g_z_count w] of Some i \<Rightarrow> i | None \<Rightarrow> MAX_WINDOWS)"

definition push_slot_to_top :: "nat \<Rightarrow> wins \<Rightarrow> wins" where
  "push_slot_to_top slot w =
     (if slot \<ge> MAX_WINDOWS then w
      else let position = find_stack_position w slot
           in if position = MAX_WINDOWS
              then (if g_z_count w < MAX_WINDOWS
                    then w\<lparr>g_z_order := (g_z_order w)[g_z_count w := slot], g_z_count := g_z_count w + 1\<rparr> else w)
              else w\<lparr>g_z_order := (shift_down (g_z_order w) [position..<g_z_count w - 1])[g_z_count w - 1 := slot]\<rparr>)"

definition remove_slot_from_stack :: "nat \<Rightarrow> wins \<Rightarrow> wins" where
  "remove_slot_from_stack slot w =
     (let position = find_stack_position w slot
      in if position = MAX_WINDOWS then w
         else let w = w\<lparr>g_z_order := shift_down (g_z_order w) [position..<g_z_count w - 1]\<rparr>
              in if g_z_count w > 0 then w\<lparr>g_z_count := g_z_count w - 1\<rparr> else w)"

text \<open>The slot taken, or \<open>MAX_WINDOWS\<close>.\<close>

definition allocate_window_slot :: "wins \<Rightarrow> nat \<times> wins" where
  "allocate_window_slot w =
     (case find (\<lambda>i. \<not> in_use (g_windows w ! i)) [0..<MAX_WINDOWS] of
        Some i \<Rightarrow> (i, w\<lparr>g_windows := (g_windows w)[i := empty_window\<lparr>in_use := True\<rparr>], g_window_count := g_window_count w + 1\<rparr>)
      | None \<Rightarrow> (MAX_WINDOWS, w))"

definition release_window_slot :: "nat \<Rightarrow> wins \<Rightarrow> wins" where
  "release_window_slot slot w =
     (if \<not> window_slot_valid w slot then w
      else let w = w\<lparr>g_windows := (g_windows w)[slot := empty_window]\<rparr>
           in if g_window_count w > 0 then w\<lparr>g_window_count := g_window_count w - 1\<rparr> else w)"

definition stop_dragging :: "wins \<Rightarrow> wins" where
  "stop_dragging w = w\<lparr>g_dragging_window := False, g_drag_slot := INVALID_SLOT, g_drag_offset_x := 0, g_drag_offset_y := 0\<rparr>"

definition stop_resizing :: "wins \<Rightarrow> wins" where
  "stop_resizing w = w\<lparr>g_resizing_window := False, g_resize_slot := INVALID_SLOT, g_resize_edges := 0,
     g_resize_start_cursor_x := 0, g_resize_start_cursor_y := 0, g_resize_start_frame_x := 0, g_resize_start_frame_y := 0,
     g_resize_start_frame_width := 0, g_resize_start_frame_height := 0\<rparr>"

definition begin_resize :: "nat \<Rightarrow> u8 \<Rightarrow> u32 \<Rightarrow> u32 \<Rightarrow> wins \<Rightarrow> wins" where
  "begin_resize slot edges cursor_x cursor_y w =
     (if \<not> window_slot_valid w slot then w
      else let window = g_windows w ! slot
           in w\<lparr>g_resizing_window := True, g_resize_slot := int slot, g_resize_edges := edges,
                g_resize_start_cursor_x := sint cursor_x, g_resize_start_cursor_y := sint cursor_y,
                g_resize_start_frame_x := frame_x window, g_resize_start_frame_y := frame_y window,
                g_resize_start_frame_width := frame_width window, g_resize_start_frame_height := frame_height window\<rparr>)"

definition find_window_index :: "wins \<Rightarrow> addr \<Rightarrow> int" where
  "find_window_index w proc =
     (if proc = 0 then -1
      else case find (\<lambda>i. window_slot_valid w i \<and> owner (g_windows w ! i) = proc) [0..<MAX_WINDOWS] of
             Some i \<Rightarrow> int i | None \<Rightarrow> -1)"

subsection \<open>Geometry\<close>

definition clamp_u32 :: "u32 \<Rightarrow> u32 \<Rightarrow> u32 \<Rightarrow> u32" where
  "clamp_u32 v min_value max_value = (if v < min_value then min_value else if v > max_value then max_value else v)"

definition content_padding_width :: u32 where
  "content_padding_width = 2 * FRAME_BORDER + 2 * CONTENT_PADDING_X"

definition content_padding_height :: u32 where
  "content_padding_height = 2 * FRAME_BORDER + TITLE_BAR_HEIGHT + CONTENT_PADDING_BOTTOM"

definition apply_visible_dimensions :: "u32 \<Rightarrow> u32 \<Rightarrow> Window \<Rightarrow> Window" where
  "apply_visible_dimensions columns rows window =
     (let columns = clamp_u32 columns MIN_VISIBLE_COLUMNS (of_nat VGA_WIDTH);
          rows = clamp_u32 rows MIN_VISIBLE_ROWS (of_nat VGA_HEIGHT)
      in window\<lparr>visible_columns := columns, visible_rows := rows,
           content_width := columns * FONT_WIDTH, content_height := rows * FONT_HEIGHT,
           frame_width := columns * FONT_WIDTH + content_padding_width,
           frame_height := rows * FONT_HEIGHT + content_padding_height\<rparr>)"

definition ensure_geometry :: "wins \<Rightarrow> wins" where
  "ensure_geometry w =
     (if g_geometry_ready w \<or> \<not> fb_available w then w
      else w\<lparr>g_content_offset_x := FRAME_BORDER + CONTENT_PADDING_X, g_content_offset_y := FRAME_BORDER + TITLE_BAR_HEIGHT,
             g_geometry_ready := True\<rparr>)"

definition build_blank_snapshot :: "wins \<Rightarrow> wins" where
  "build_blank_snapshot w =
     (if g_blank_ready w then w
      else let default_color = make_color 7 0
           in w\<lparr>g_blank_snapshot := \<lparr>characters = replicate VGA_HEIGHT (replicate VGA_WIDTH 0x20),
                  colors = replicate VGA_HEIGHT (replicate VGA_WIDTH default_color), s_row = 0, s_column = 0,
                  s_color = default_color, s_cursor_row = 0, s_cursor_column = 0, s_cursor_active = False\<rparr>,
                g_blank_ready := True\<rparr>)"

definition clamp_axis :: "u32 \<Rightarrow> u32 \<Rightarrow> u32 \<Rightarrow> u32" where
  "clamp_axis pos extent limit =
     (if extent \<ge> limit then 0 else if pos + extent > limit then limit - extent else pos)"

definition clamp_frame :: "wins \<Rightarrow> u32 \<Rightarrow> u32 \<Rightarrow> u32 \<Rightarrow> u32 \<Rightarrow> u32 \<times> u32" where
  "clamp_frame w x y width height =
     (if \<not> fb_available w \<or> \<not> g_geometry_ready w then (0, 0)
      else (clamp_axis x width (fb_width w), clamp_axis y height (fb_height w)))"

subsection \<open>Console snapshots\<close>

definition clear_snapshot_row :: "nat \<Rightarrow> Snapshot \<times> DirtyRegion \<Rightarrow> Snapshot \<times> DirtyRegion" where
  "clear_snapshot_row row sd =
     (case sd of (s, d) \<Rightarrow>
        if row \<ge> VGA_HEIGHT then (s, d)
        else (fold (\<lambda>x s. s\<lparr>characters := grid_set (characters s) row x 0x20, colors := grid_set (colors s) row x (s_color s)\<rparr>)
                [0..<VGA_WIDTH] s,
              mark_row_dirty row d))"

definition snapshot_scroll_cell :: "nat \<Rightarrow> nat \<Rightarrow> Snapshot \<Rightarrow> Snapshot" where
  "snapshot_scroll_cell y x s =
     s\<lparr>characters := grid_set (characters s) y x (characters s ! (y + 1) ! x),
       colors := grid_set (colors s) y x (colors s ! (y + 1) ! x)\<rparr>"

definition snapshot_scroll :: "Snapshot \<times> DirtyRegion \<Rightarrow> Snapshot \<times> DirtyRegion" where
  "snapshot_scroll sd =
     (case sd of (s, d) \<Rightarrow>
        let s = fold (\<lambda>y. fold (snapshot_scroll_cell y) [0..<VGA_WIDTH]) [0..<VGA_HEIGHT - 1] s;
            d = mark_full_dirty d
        in case clear_snapshot_row (VGA_HEIGHT - 1) (s, d) of (s, d) \<Rightarrow>
             (s\<lparr>s_row := VGA_HEIGHT - 1, s_column := 0, s_cursor_row := VGA_HEIGHT - 1, s_cursor_column := 0,
                s_cursor_active := False\<rparr>, d))"

definition snapshot_new_line :: "Snapshot \<times> DirtyRegion \<Rightarrow> Snapshot \<times> DirtyRegion" where
  "snapshot_new_line sd =
     (case sd of (s, d) \<Rightarrow>
        let s = s\<lparr>s_column := 0, s_row := s_row s + 1\<rparr>
        in if s_row s \<ge> VGA_HEIGHT then snapshot_scroll (s, d)
           else (s\<lparr>s_cursor_row := s_row s, s_cursor_column := s_column s\<rparr>, d))"

definition snapshot_backspace :: "Snapshot \<times> DirtyRegion \<Rightarrow> Snapshot \<times> DirtyRegion" where
  "snapshot_backspace sd =
     (case sd of (s, d) \<Rightarrow>
        let s = (if s_column s > 0 then s\<lparr>s_column := s_column s - 1\<rparr>
                 else if s_row s > 0 then s\<lparr>s_row := s_row s - 1, s_column := VGA_WIDTH - 1\<rparr> else s);
            s = s\<lparr>characters := grid_set (characters s) (s_row s) (s_column s) 0x20,
                  colors := grid_set (colors s) (s_row s) (s_column s) (s_color s),
                  s_cursor_row := s_row s, s_cursor_column := s_column s, s_cursor_active := False\<rparr>
        in (s, mark_row_dirty (s_row s) d))"

definition snapshot_put_char :: "u8 \<Rightarrow> Snapshot \<times> DirtyRegion \<Rightarrow> Snapshot \<times> DirtyRegion" where
  "snapshot_put_char c sd =
     (case sd of (s, d) \<Rightarrow>
        if c = 0x0D
        then (s\<lparr>s_column := 0, s_cursor_column := 0, s_cursor_row := s_row s, s_cursor_active := False\<rparr>, d)
        else if c = 0x0A then snapshot_new_line (s, d)
        else if c = 0x08 then snapshot_backspace (s, d)
        else let s = s\<lparr>characters := grid_set (characters s) (s_row s) (s_column s) c,
                       colors := grid_set (colors s) (s_row s) (s_column s) (s_color s)\<rparr>;
                 d = mark_row_dirty (s_row s) d;
                 s = s\<lparr>s_column := s_column s + 1\<rparr>
             in if s_column s \<ge> VGA_WIDTH then snapshot_new_line (s, d)
                else (s\<lparr>s_cursor_row := s_row s, s_cursor_column := s_column s, s_cursor_active := False\<rparr>, d))"

definition snapshot_write :: "u8 list \<Rightarrow> Snapshot \<times> DirtyRegion \<Rightarrow> Snapshot \<times> DirtyRegion" where
  "snapshot_write text sd = fold snapshot_put_char text sd"


subsection \<open>Presenting and focusing windows\<close>

definition reset_window_dirty :: "nat \<Rightarrow> wins \<Rightarrow> wins" where
  "reset_window_dirty slot w = upd_window slot (\<lambda>window. window\<lparr>dirty := make_empty_dirty_region\<rparr>) w"

definition present_window_slot :: "nat \<Rightarrow> wins \<Rightarrow> wins" where
  "present_window_slot slot w =
     (if \<not> window_slot_valid w slot then w
      else if \<not> dirty_region_has_updates (dirty (g_windows w ! slot)) then w
      else reset_window_dirty slot w)"

text \<open>\<open>render_window\<close> draws a window and clears its dirty region.\<close>

definition draw_inactive :: "nat \<Rightarrow> wins \<Rightarrow> wins" where
  "draw_inactive i w =
     (let slot = g_z_order w ! i
      in if \<not> window_slot_valid w slot \<or> int slot = g_active_slot w then w else reset_window_dirty slot w)"

definition draw_windows :: "wins \<Rightarrow> wins" where
  "draw_windows w =
     (if \<not> fb_available w \<or> g_z_count w = 0 then w
      else let w = ensure_geometry w;
               w = fold draw_inactive [0..<g_z_count w] w
           in if g_active_slot w \<ge> 0 \<and> window_slot_valid w (nat (g_active_slot w))
              then reset_window_dirty (nat (g_active_slot w)) w else w)"

text \<open>\<open>gui::draw_workspace\<close> (\<^verbatim>\<open>src/kernel/gui.cpp\<close>) paints the background and then the windows.\<close>

definition draw_workspace :: "wins \<Rightarrow> wins" where
  "draw_workspace w = (if \<not> fb_available w then w else draw_windows w)"

definition close_window_slot :: "nat \<Rightarrow> wins \<Rightarrow> wins" where
  "close_window_slot slot w =
     (if \<not> window_slot_valid w slot then w
      else let w = (if g_dragging_window w \<and> g_drag_slot w = int slot then stop_dragging w else w);
               w = (if g_resizing_window w \<and> g_resize_slot w = int slot then stop_resizing w else w);
               w = release_window_slot slot (remove_slot_from_stack slot w);
               w = (if g_z_count w = 0 then w\<lparr>g_active_slot := INVALID_SLOT\<rparr>
                    else w\<lparr>g_active_slot := int (g_z_order w ! (g_z_count w - 1))\<rparr>)
           in draw_workspace w)"

definition focus_window :: "nat \<Rightarrow> wins \<Rightarrow> wins" where
  "focus_window slot w =
     (if \<not> window_slot_valid w slot then w
      else let w = (if \<not> g_geometry_ready w then ensure_geometry w else w)
           in if \<not> g_geometry_ready w then w
              else let previous_active = g_active_slot w;
                       w = (push_slot_to_top slot w)\<lparr>g_active_slot := int slot\<rparr>
                   in if previous_active \<noteq> g_active_slot w then draw_windows w else w)"

definition reset_windows :: "wins \<Rightarrow> wins" where
  "reset_windows w =
     stop_resizing (stop_dragging
       (w\<lparr>g_windows := replicate MAX_WINDOWS empty_window, g_z_order := replicate MAX_WINDOWS 0,
          g_window_count := 0, g_z_count := 0, g_active_slot := INVALID_SLOT\<rparr>))"

definition activate_process :: "addr \<Rightarrow> wins \<Rightarrow> wins" where
  "activate_process proc w =
     (if proc = 0 then w
      else let w = build_blank_snapshot (ensure_geometry w);
               index = find_window_index w proc
           in if index < 0 then w else focus_window (nat index) w)"

definition request_new_window :: "addr \<Rightarrow> wins \<Rightarrow> wins" where
  "request_new_window proc w =
     (if \<not> fb_available w then w
      else let w = build_blank_snapshot (ensure_geometry w);
               existing = find_window_index w proc
           in if existing \<ge> 0
              then (if proc \<noteq> 0 then activate_process proc w else draw_windows (focus_window (nat existing) w))
              else if g_window_count w \<ge> MAX_WINDOWS then w
              else case allocate_window_slot w of (slot, w) \<Rightarrow>
                if slot \<ge> MAX_WINDOWS then w
                else let w = upd_window slot (\<lambda>window. apply_visible_dimensions (of_nat VGA_WIDTH) (of_nat VGA_HEIGHT)
                               (window\<lparr>owner := proc, snapshot := g_blank_snapshot w, dirty := make_empty_dirty_region\<rparr>)) w;
                         cascade_index = of_nat (g_z_count w);
                         window = g_windows w ! slot;
                         (x, y) = clamp_frame w (INITIAL_FRAME_X + cascade_index * CASCADE_STEP_X)
                                    (INITIAL_FRAME_Y + cascade_index * CASCADE_STEP_Y) (frame_width window) (frame_height window)
                     in focus_window slot (upd_window slot (\<lambda>window. window\<lparr>frame_x := x, frame_y := y\<rparr>) w))"

definition windows_init :: "addr \<Rightarrow> wins \<Rightarrow> wins" where
  "windows_init initial_proc w =
     (let w = build_blank_snapshot (ensure_geometry (reset_windows w))
      in if initial_proc \<noteq> 0 then request_new_window initial_proc w else w)"

definition set_active_window_origin :: "addr \<Rightarrow> int \<Rightarrow> int \<Rightarrow> wins \<Rightarrow> wins" where
  "set_active_window_origin proc x y w =
     (if proc = 0 \<or> \<not> fb_available w then w
      else let w = ensure_geometry w; slot = find_window_index w proc
           in if slot < 0 then w
              else let window = g_windows w ! nat slot;
                       desired_x = (if x < 0 then 0 else of_int x);
                       desired_y = (if y < 0 then 0 else of_int y);
                       fx = (if desired_x > g_content_offset_x w then desired_x - g_content_offset_x w else 0);
                       fy = (if desired_y > g_content_offset_y w then desired_y - g_content_offset_y w else 0);
                       (fx, fy) = clamp_frame w fx fy (frame_width window) (frame_height window)
                   in draw_windows (upd_window (nat slot) (\<lambda>window. window\<lparr>frame_x := fx, frame_y := fy\<rparr>) w))"

definition on_process_exit :: "addr \<Rightarrow> wins \<Rightarrow> wins" where
  "on_process_exit proc w =
     (if proc = 0 \<or> \<not> fb_available w then w
      else let slot = find_window_index w proc in if slot < 0 then w else close_window_slot (nat slot) w)"

definition window_present :: "addr \<Rightarrow> wins \<Rightarrow> wins" where
  "window_present proc w =
     (if proc = 0 then w
      else let slot = find_window_index w proc in if slot < 0 then w else present_window_slot (nat slot) w)"

text \<open>Writing to the window of a process; without one, or without a framebuffer, to the console.\<close>

definition write_window :: "nat \<Rightarrow> addr \<Rightarrow> u8 list \<Rightarrow> wins \<Rightarrow> wins" where
  "write_window slot proc text w =
     (let w = upd_window slot (\<lambda>window.
            let d = (if s_cursor_active (snapshot window)
                     then mark_row_dirty (s_cursor_row (snapshot window)) (dirty window) else dirty window)
            in case snapshot_write text (snapshot window, d) of (s, d) \<Rightarrow>
                 window\<lparr>snapshot := s, dirty := mark_row_dirty (s_cursor_row s) d\<rparr>) w
      in if int slot = g_active_slot w then window_present proc w else w)"

definition write_text :: "addr \<Rightarrow> u8 list \<Rightarrow> Terminal \<times> wins \<Rightarrow> Terminal \<times> wins" where
  "write_text proc text tw =
     (case tw of (t, w) \<Rightarrow>
        if text = [] then (t, w)
        else if proc = 0 \<or> \<not> fb_available w then (fold term_putchar text t, w)
        else let w = build_blank_snapshot (ensure_geometry w);
                 slot = find_window_index w proc
             in if slot < 0
                then let w = request_new_window proc w; slot = find_window_index w proc
                     in if slot < 0 then (t, w) else (t, write_window (nat slot) proc text w)
                else (t, write_window (nat slot) proc text w))"

definition window_put_char :: "addr \<Rightarrow> nat \<Rightarrow> nat \<Rightarrow> u8 \<Rightarrow> u8 \<Rightarrow> wins \<Rightarrow> wins" where
  "window_put_char proc x y ch color w =
     (if proc = 0 then w
      else let slot = find_window_index w proc
           in if slot < 0 then w
              else if x \<ge> VGA_WIDTH \<or> y \<ge> VGA_HEIGHT then w
              else let window = g_windows w ! nat slot; s = snapshot window
                   in if \<not> in_use window then w
                      else if characters s ! y ! x = ch \<and> colors s ! y ! x = color then w
                      else upd_window (nat slot) (\<lambda>window. window\<lparr>
                             snapshot := s\<lparr>characters := grid_set (characters s) y x ch, colors := grid_set (colors s) y x color\<rparr>,
                             dirty := mark_row_dirty y (dirty window)\<rparr>) w)"

definition window_set_cursor :: "addr \<Rightarrow> nat \<Rightarrow> nat \<Rightarrow> bool \<Rightarrow> wins \<Rightarrow> wins" where
  "window_set_cursor proc row column active w =
     (if proc = 0 then w
      else let slot = find_window_index w proc
           in if slot < 0 then w
              else upd_window (nat slot) (\<lambda>window.
                     let s = snapshot window;
                         d = (if s_cursor_active s \<and> s_cursor_row s < VGA_HEIGHT then mark_row_dirty (s_cursor_row s) (dirty window)
                              else dirty window);
                         row = (if row \<ge> VGA_HEIGHT then VGA_HEIGHT - 1 else row);
                         column = (if column \<ge> VGA_WIDTH then VGA_WIDTH - 1 else column);
                         s = s\<lparr>s_cursor_row := row, s_cursor_column := column, s_cursor_active := active\<rparr>
                     in window\<lparr>snapshot := s, dirty := (if active then mark_row_dirty row d else d)\<rparr>) w)"

definition window_get_cursor :: "addr \<Rightarrow> wins \<Rightarrow> (nat \<times> nat) option" where
  "window_get_cursor proc w =
     (if proc = 0 then None
      else let slot = find_window_index w proc
           in if slot < 0 then None
              else let s = snapshot (g_windows w ! nat slot) in Some (s_cursor_row s, s_cursor_column s))"

subsection \<open>Hit testing\<close>

record WindowHitResult =
  hit_slot :: int
  on_title_bar :: bool
  on_close_button :: bool
  local_x :: u32
  local_y :: u32
  resize_edges :: u8

definition no_hit :: WindowHitResult where
  "no_hit = \<lparr>hit_slot = -1, on_title_bar = False, on_close_button = False, local_x = 0, local_y = 0, resize_edges = 0\<rparr>"

definition hit_edges :: "Window \<Rightarrow> u32 \<Rightarrow> u32 \<Rightarrow> u8" where
  "hit_edges window rel_x rel_y =
     (let dist_right = (if frame_width window > rel_x then frame_width window - rel_x else 0);
          dist_bottom = (if frame_height window > rel_y then frame_height window - rel_y else 0)
      in (if rel_x < RESIZE_MARGIN then RESIZE_EDGE_LEFT else 0)
         OR (if dist_right \<le> RESIZE_MARGIN then RESIZE_EDGE_RIGHT else 0)
         OR (if rel_y < RESIZE_MARGIN \<and> rel_y \<le> FRAME_BORDER + 4 then RESIZE_EDGE_TOP else 0)
         OR (if dist_bottom \<le> RESIZE_MARGIN then RESIZE_EDGE_BOTTOM else 0))"

definition hit_close_button :: "Window \<Rightarrow> u32 \<Rightarrow> u32 \<Rightarrow> bool" where
  "hit_close_button window rel_x rel_y \<longleftrightarrow>
     (let inner_width = (if frame_width window > 2 * FRAME_BORDER then frame_width window - 2 * FRAME_BORDER else 0);
          close_x_start = FRAME_BORDER + (if inner_width > CLOSE_BUTTON_SIZE + CLOSE_BUTTON_MARGIN
                            then inner_width - CLOSE_BUTTON_MARGIN - CLOSE_BUTTON_SIZE else inner_width);
          close_y_start = FRAME_BORDER + (if TITLE_BAR_HEIGHT > CLOSE_BUTTON_SIZE
                            then (TITLE_BAR_HEIGHT - CLOSE_BUTTON_SIZE) div 2 else 0)
      in inner_width > CLOSE_BUTTON_SIZE + CLOSE_BUTTON_MARGIN \<and>
         rel_x \<ge> close_x_start \<and> rel_x < close_x_start + CLOSE_BUTTON_SIZE \<and>
         rel_y \<ge> close_y_start \<and> rel_y < close_y_start + CLOSE_BUTTON_SIZE)"

text \<open>The lambda \<open>test_slot\<close>: \<open>None\<close> when it returns false.\<close>

definition test_slot :: "wins \<Rightarrow> u32 \<Rightarrow> u32 \<Rightarrow> nat \<Rightarrow> WindowHitResult option" where
  "test_slot w x y slot =
     (if \<not> window_slot_valid w slot then None
      else let window = g_windows w ! slot
           in if x < frame_x window \<or> y < frame_y window then None
              else let rel_x = x - frame_x window; rel_y = y - frame_y window
                   in if rel_x \<ge> frame_width window \<or> rel_y \<ge> frame_height window then None
                      else let hit = no_hit\<lparr>hit_slot := int slot, local_x := rel_x, local_y := rel_y\<rparr>
                           in if hit_close_button window rel_x rel_y then Some (hit\<lparr>on_close_button := True\<rparr>)
                              else if hit_edges window rel_x rel_y \<noteq> 0
                              then Some (hit\<lparr>resize_edges := hit_edges window rel_x rel_y\<rparr>)
                              else Some (hit\<lparr>on_title_bar := (rel_y < FRAME_BORDER + TITLE_BAR_HEIGHT)\<rparr>))"

fun hit_test_stack :: "wins \<Rightarrow> u32 \<Rightarrow> u32 \<Rightarrow> nat list \<Rightarrow> WindowHitResult" where
  "hit_test_stack w x y [] = no_hit"
| "hit_test_stack w x y (slot # slots) =
     (if int slot = g_active_slot w then hit_test_stack w x y slots
      else case test_slot w x y slot of Some hit \<Rightarrow> hit | None \<Rightarrow> hit_test_stack w x y slots)"

text \<open>The active window first, then the stack from the top.\<close>

definition hit_test_window :: "wins \<Rightarrow> u32 \<Rightarrow> u32 \<Rightarrow> WindowHitResult" where
  "hit_test_window w x y =
     (if \<not> fb_available w \<or> \<not> g_geometry_ready w \<or> g_z_count w = 0 then no_hit
      else case (if g_active_slot w \<ge> 0 then test_slot w x y (nat (g_active_slot w)) else None) of
             Some hit \<Rightarrow> hit
           | None \<Rightarrow> hit_test_stack w x y (rev (take (g_z_count w) (g_z_order w))))"

subsection \<open>Resizing\<close>

text \<open>The two axes are treated alike. \<open>lo\<close> and \<open>hi\<close> say whether the low and the high edge are dragged; the result
  is the new low and high coordinate and the extent.\<close>

definition resize_axis :: "bool \<Rightarrow> bool \<Rightarrow> int \<Rightarrow> int \<Rightarrow> int \<Rightarrow> int \<Rightarrow> int \<Rightarrow> int \<times> int \<times> int" where
  "resize_axis lo hi start_low start_high delta min_frame limit =
     (let low = (if lo then
                   (let low = start_low + delta; low = (if low < 0 then 0 else low)
                    in if start_high - low < min_frame then start_high - min_frame else low)
                 else start_low);
          high = (if hi then
                    (let high = start_high + delta; high = (if high > limit then limit else high)
                     in if high - low < min_frame then low + min_frame else high)
                  else start_high);
          high = (if high \<le> low then low + min_frame else high);
          (low, high) = (if high > limit
                         then (let low = limit - min_frame in (if low < 0 then 0 else low, limit))
                         else (low, high));
          extent = high - low
      in if extent < min_frame
         then (if lo then (high - min_frame, high, min_frame) else (low, low + min_frame, min_frame))
         else (low, high, extent))"

text \<open>The number of columns (rows) that fit the proposed extent, within the limits.\<close>

definition proposed_cells :: "int \<Rightarrow> u32 \<Rightarrow> u32 \<Rightarrow> u32 \<Rightarrow> u32 \<Rightarrow> u32 \<Rightarrow> u32" where
  "proposed_cells extent padding font min_cells max_cells limit =
     (let max_fb = (if limit > padding then (limit - padding) div font else min_cells);
          content = (if extent > sint padding then of_int (extent - sint padding) else 0)
      in clamp_u32 (content div font) min_cells
           (if max_fb < min_cells then min_cells else if max_fb > max_cells then max_cells else max_fb))"

definition resize_origin :: "bool \<Rightarrow> bool \<Rightarrow> int \<Rightarrow> int \<Rightarrow> u32 \<Rightarrow> u32" where
  "resize_origin lo hi low high extent =
     (if lo \<and> \<not> hi
      then let anchor = (if high < 0 then 0 else of_int high) in if anchor < extent then 0 else anchor - extent
      else if low < 0 then 0 else of_int low)"

definition has_edge :: "wins \<Rightarrow> u8 \<Rightarrow> bool" where
  "has_edge w e \<longleftrightarrow> g_resize_edges w AND e \<noteq> 0"

definition update_resize :: "u32 \<Rightarrow> u32 \<Rightarrow> wins \<Rightarrow> bool \<times> wins" where
  "update_resize cursor_x cursor_y w =
     (if \<not> g_resizing_window w \<or> g_resize_slot w < 0 \<or> \<not> window_slot_valid w (nat (g_resize_slot w)) then (False, w)
      else if fb_width w = 0 \<or> fb_height w = 0 then (False, w)
      else
        let window = g_windows w ! nat (g_resize_slot w);
            delta_x = sint cursor_x - g_resize_start_cursor_x w;
            delta_y = sint cursor_y - g_resize_start_cursor_y w;
            min_w = sint (MIN_VISIBLE_COLUMNS * FONT_WIDTH + content_padding_width);
            min_h = sint (MIN_VISIBLE_ROWS * FONT_HEIGHT + content_padding_height);
            (left, right, width) = resize_axis (has_edge w RESIZE_EDGE_LEFT) (has_edge w RESIZE_EDGE_RIGHT)
               (sint (g_resize_start_frame_x w)) (sint (g_resize_start_frame_x w + g_resize_start_frame_width w))
               delta_x min_w (sint (fb_width w));
            (top, bottom, height) = resize_axis (has_edge w RESIZE_EDGE_TOP) (has_edge w RESIZE_EDGE_BOTTOM)
               (sint (g_resize_start_frame_y w)) (sint (g_resize_start_frame_y w + g_resize_start_frame_height w))
               delta_y min_h (sint (fb_height w));
            columns = proposed_cells width content_padding_width FONT_WIDTH MIN_VISIBLE_COLUMNS (of_nat VGA_WIDTH) (fb_width w);
            rows = proposed_cells height content_padding_height FONT_HEIGHT MIN_VISIBLE_ROWS (of_nat VGA_HEIGHT) (fb_height w);
            new_frame_width = columns * FONT_WIDTH + content_padding_width;
            new_frame_height = rows * FONT_HEIGHT + content_padding_height;
            (x, y) = clamp_frame w
               (resize_origin (has_edge w RESIZE_EDGE_LEFT) (has_edge w RESIZE_EDGE_RIGHT) left right new_frame_width)
               (resize_origin (has_edge w RESIZE_EDGE_TOP) (has_edge w RESIZE_EDGE_BOTTOM) top bottom new_frame_height)
               new_frame_width new_frame_height
        in if new_frame_width = frame_width window \<and> new_frame_height = frame_height window \<and>
              x = frame_x window \<and> y = frame_y window then (False, w)
           else (True, draw_windows (upd_window (nat (g_resize_slot w)) (\<lambda>window.
                   (apply_visible_dimensions columns rows window)\<lparr>frame_x := x, frame_y := y,
                      dirty := mark_full_dirty (dirty window)\<rparr>) w)))"


subsection \<open>Well-formed snapshots and dirty regions\<close>

definition snap_ok :: "Snapshot \<Rightarrow> bool" where
  "snap_ok s \<longleftrightarrow> grid_ok (characters s) 25 80 \<and> grid_ok (colors s) 25 80 \<and> s_row s < 25 \<and> s_column s < 80 \<and>
     s_cursor_row s < 25 \<and> s_cursor_column s < 80"

text \<open>The rows that the next redraw paints.\<close>

definition covers :: "DirtyRegion \<Rightarrow> nat \<Rightarrow> bool" where
  "covers d y \<longleftrightarrow> full_refresh d \<or> (min_row d \<le> y \<and> y \<le> max_row d)"

definition same_row :: "Snapshot \<Rightarrow> Snapshot \<Rightarrow> nat \<Rightarrow> bool" where
  "same_row s s' y \<longleftrightarrow> characters s ! y = characters s' ! y \<and> colors s ! y = colors s' ! y"

text \<open>A step on a snapshot and its dirty region: the snapshot stays well formed, the region only grows, and it covers
  every row that changed.\<close>

definition tracked :: "Snapshot \<times> DirtyRegion \<Rightarrow> Snapshot \<times> DirtyRegion \<Rightarrow> bool" where
  "tracked sd sd' \<longleftrightarrow> snap_ok (fst sd') \<and> (\<forall>y<25. covers (snd sd) y \<longrightarrow> covers (snd sd') y) \<and>
     (\<forall>y<25. \<not> covers (snd sd') y \<longrightarrow> same_row (fst sd) (fst sd') y)"

lemma tracked_refl: "snap_ok s \<Longrightarrow> tracked (s, d) (s, d)"
  by (simp add: tracked_def same_row_def)

lemma tracked_trans: "tracked a b \<Longrightarrow> tracked b c \<Longrightarrow> tracked a c"
  unfolding tracked_def same_row_def by metis

lemma mark_row_covers: "y < 25 \<Longrightarrow> covers (mark_row_dirty y d) y"
  by (auto simp: mark_row_dirty_def covers_def vga_consts Let_def)

lemma mark_row_mono: "covers d y \<Longrightarrow> covers (mark_row_dirty r d) y"
  by (auto simp: mark_row_dirty_def covers_def Let_def)

lemma mark_row_exact: "r < 25 \<Longrightarrow> covers (mark_row_dirty r d) y \<Longrightarrow> full_refresh d \<or> covers d y \<or> y = r \<or>
    (\<exists>z. covers d z \<and> (y < z \<and> r \<le> y \<or> z < y \<and> y \<le> r))"
  by (auto simp: mark_row_dirty_def covers_def vga_consts Let_def split: if_splits)

lemma mark_full_covers: "covers (mark_full_dirty d) y"
  by (simp add: mark_full_dirty_def covers_def)

lemma grid_set_row: "y' \<noteq> y \<Longrightarrow> grid_set g y x v ! y' = g ! y'"
  by (simp add: grid_set_def)

lemma clear_row_snapshot:
  assumes "grid_ok (characters s) 25 80" "grid_ok (colors s) 25 80" "row < 25"
  defines "s' \<equiv> fold (\<lambda>x s. s\<lparr>characters := grid_set (characters s) row x 0x20, colors := grid_set (colors s) row x (s_color s)\<rparr>)
                [0..<VGA_WIDTH] s"
  shows "grid_ok (characters s') 25 80" "grid_ok (colors s') 25 80" "s_color s' = s_color s"
    "\<And>y x. y < 25 \<Longrightarrow> x < 80 \<Longrightarrow> characters s' ! y ! x = (if y = row then 0x20 else characters s ! y ! x)"
    "\<And>y x. y < 25 \<Longrightarrow> x < 80 \<Longrightarrow> colors s' ! y ! x = (if y = row then s_color s else colors s ! y ! x)"
proof -
  let ?P = "\<lambda>n u. grid_ok (characters u) 25 80 \<and> grid_ok (colors u) 25 80 \<and> s_color u = s_color s \<and>
     (\<forall>y<25. \<forall>x<80. characters u ! y ! x = (if y = row \<and> x < n then 0x20 else characters s ! y ! x) \<and>
        colors u ! y ! x = (if y = row \<and> x < n then s_color s else colors s ! y ! x))"
  have "?P 80 s'"
    unfolding s'_def vga_consts
    by (rule fold_upt_inv [where P = ?P]) (use assms(1-3) in \<open>auto simp: grid_set_get less_Suc_eq\<close>)
  then show "grid_ok (characters s') 25 80" "grid_ok (colors s') 25 80" "s_color s' = s_color s"
    "\<And>y x. y < 25 \<Longrightarrow> x < 80 \<Longrightarrow> characters s' ! y ! x = (if y = row then 0x20 else characters s ! y ! x)"
    "\<And>y x. y < 25 \<Longrightarrow> x < 80 \<Longrightarrow> colors s' ! y ! x = (if y = row then s_color s else colors s ! y ! x)"
    by auto
qed

lemma scroll_rows_snapshot:
  assumes "grid_ok (characters s) 25 80" "grid_ok (colors s) 25 80"
  defines "s' \<equiv> fold (\<lambda>y. fold (snapshot_scroll_cell y) [0..<VGA_WIDTH]) [0..<VGA_HEIGHT - 1] s"
  shows "grid_ok (characters s') 25 80 \<and> grid_ok (colors s') 25 80 \<and> s_color s' = s_color s \<and>
    (\<forall>y<24. \<forall>x<80. characters s' ! y ! x = characters s ! (y + 1) ! x \<and> colors s' ! y ! x = colors s ! (y + 1) ! x)"
proof -
  let ?P = "\<lambda>y x u. grid_ok (characters u) 25 80 \<and> grid_ok (colors u) 25 80 \<and> s_color u = s_color s \<and>
    (\<forall>y'<25. \<forall>x'<80. characters u ! y' ! x' = (if y' < y \<or> y' = y \<and> x' < x then characters s ! (y' + 1) ! x' else characters s ! y' ! x') \<and>
       colors u ! y' ! x' = (if y' < y \<or> y' = y \<and> x' < x then colors s ! (y' + 1) ! x' else colors s ! y' ! x'))"
  have "?P 24 0 (fold (\<lambda>y. fold (snapshot_scroll_cell y) [0..<80]) [0..<24] s)"
  proof (rule fold_grid_inv [where P = ?P])
    fix y x and u :: Snapshot assume "y < (24 :: nat)" "x < (80 :: nat)" "?P y x u"
    then show "?P y (Suc x) (snapshot_scroll_cell y x u)"
      by (auto simp: snapshot_scroll_cell_def grid_set_get less_Suc_eq)
  qed (use assms(1,2) in \<open>auto simp: less_Suc_eq\<close>)
  then show ?thesis by (simp add: s'_def vga_consts)
qed


subsection \<open>Writing to a snapshot\<close>

lemma snapshot_scroll_spec:
  assumes "grid_ok (characters s) 25 80" "grid_ok (colors s) 25 80"
  obtains s' d' where "snapshot_scroll (s, d) = (s', d')" "snap_ok s'" "\<And>y. covers d' y"
    "s_row s' = 24" "s_column s' = 0" "s_color s' = s_color s"
    "\<And>y x. y < 25 \<Longrightarrow> x < 80 \<Longrightarrow> characters s' ! y ! x = (if y < 24 then characters s ! (y + 1) ! x else 0x20)"
    "\<And>y x. y < 25 \<Longrightarrow> x < 80 \<Longrightarrow> colors s' ! y ! x = (if y < 24 then colors s ! (y + 1) ! x else s_color s)"
proof -
  define u where "u = fold (\<lambda>y. fold (snapshot_scroll_cell y) [0..<VGA_WIDTH]) [0..<VGA_HEIGHT - 1] s"
  note u = scroll_rows_snapshot [OF assms, folded u_def]
  define v where "v = fold (\<lambda>x s. s\<lparr>characters := grid_set (characters s) 24 x 0x20, colors := grid_set (colors s) 24 x (s_color s)\<rparr>) [0..<VGA_WIDTH] u"
  have g: "grid_ok (characters u) 25 80" "grid_ok (colors u) 25 80" "24 < (25 :: nat)" using u by simp_all
  note c = clear_row_snapshot [OF g, folded v_def]
  let ?f = "\<lambda>s :: Snapshot. s\<lparr>s_row := 24, s_column := 0, s_cursor_row := 24, s_cursor_column := 0, s_cursor_active := False\<rparr>"
  have sc: "snapshot_scroll (s, d) = (?f v, mark_row_dirty 24 (mark_full_dirty d))"
    by (simp add: snapshot_scroll_def clear_snapshot_row_def u_def v_def vga_consts)
  have f: "covers (mark_row_dirty 24 (mark_full_dirty d)) y" for y by (intro mark_row_mono mark_full_covers)
  show ?thesis
    by (rule that [OF sc]) (use c u f in \<open>auto simp: snap_ok_def\<close>)
qed

lemma snapshot_new_line_spec:
  assumes "grid_ok (characters s) 25 80" "grid_ok (colors s) 25 80" "s_row s < 25"
  obtains s' d' where "snapshot_new_line (s, d) = (s', d')" "snap_ok s'" "s_column s' = 0" "s_color s' = s_color s"
    "\<And>y. covers d y \<Longrightarrow> covers d' y"
    "if s_row s = 24
     then s_row s' = 24 \<and> (\<forall>y. covers d' y) \<and>
       (\<forall>y<25. \<forall>x<80. characters s' ! y ! x = (if y < 24 then characters s ! (y + 1) ! x else 0x20) \<and>
          colors s' ! y ! x = (if y < 24 then colors s ! (y + 1) ! x else s_color s))
     else s_row s' = s_row s + 1 \<and> characters s' = characters s \<and> colors s' = colors s"
proof (cases "s_row s = 24")
  case True
  let ?s = "s\<lparr>s_column := 0, s_row := s_row s + 1\<rparr>"
  have g: "grid_ok (characters ?s) 25 80" "grid_ok (colors ?s) 25 80" using assms by simp_all
  obtain s' d' where r: "snapshot_scroll (?s, d) = (s', d')" "snap_ok s'" "\<And>y. covers d' y"
    "s_row s' = 24" "s_column s' = 0" "s_color s' = s_color ?s"
    "\<And>y x. y < 25 \<Longrightarrow> x < 80 \<Longrightarrow> characters s' ! y ! x = (if y < 24 then characters ?s ! (y + 1) ! x else 0x20)"
    "\<And>y x. y < 25 \<Longrightarrow> x < 80 \<Longrightarrow> colors s' ! y ! x = (if y < 24 then colors ?s ! (y + 1) ! x else s_color ?s)"
    by (rule snapshot_scroll_spec [OF g, of d]) blast
  have "snapshot_new_line (s, d) = (s', d')" using True r(1) by (simp add: snapshot_new_line_def vga_consts)
  then show ?thesis by (rule that) (use r True in \<open>auto\<close>)
next
  case False
  let ?s = "s\<lparr>s_column := 0, s_row := s_row s + 1, s_cursor_row := s_row s + 1, s_cursor_column := 0\<rparr>"
  have "snapshot_new_line (s, d) = (?s, d)" using False assms(3) by (simp add: snapshot_new_line_def vga_consts)
  then show ?thesis by (rule that) (use False assms in \<open>simp_all add: snap_ok_def\<close>)
qed

lemma snapshot_new_line_tracked:
  assumes "grid_ok (characters s) 25 80" "grid_ok (colors s) 25 80" "s_row s < 25"
  shows "tracked (s, d) (snapshot_new_line (s, d))"
proof -
  obtain s' d' where r: "snapshot_new_line (s, d) = (s', d')" "snap_ok s'" "\<And>y. covers d y \<Longrightarrow> covers d' y"
    "if s_row s = 24
     then s_row s' = 24 \<and> (\<forall>y. covers d' y) \<and>
       (\<forall>y<25. \<forall>x<80. characters s' ! y ! x = (if y < 24 then characters s ! (y + 1) ! x else 0x20) \<and>
          colors s' ! y ! x = (if y < 24 then colors s ! (y + 1) ! x else s_color s))
     else s_row s' = s_row s + 1 \<and> characters s' = characters s \<and> colors s' = colors s"
    by (rule snapshot_new_line_spec [OF assms, of d]) blast
  then show ?thesis by (auto simp: tracked_def same_row_def split: if_splits)
qed

text \<open>The two cases of \<open>snapshot_put_char\<close> that write a cell.\<close>

definition put_cell :: "u8 \<Rightarrow> Snapshot \<Rightarrow> Snapshot" where
  "put_cell c s = s\<lparr>characters := grid_set (characters s) (s_row s) (s_column s) c,
     colors := grid_set (colors s) (s_row s) (s_column s) (s_color s)\<rparr>"

lemma put_cell_tracked:
  assumes "snap_ok s"
  shows "tracked (s, d) (put_cell c s, mark_row_dirty (s_row s) d)"
proof -
  have "y \<noteq> s_row s" if "\<not> covers (mark_row_dirty (s_row s) d) y" for y
    using that mark_row_covers [of "s_row s" d] assms by (auto simp: snap_ok_def)
  with assms mark_row_mono show ?thesis
    by (auto simp: tracked_def same_row_def put_cell_def snap_ok_def grid_set_row)
qed

lemma tracked_cong:
  assumes "tracked a (s, d)" "characters s' = characters s" "colors s' = colors s" "snap_ok s'"
  shows "tracked a (s', d)"
  using assms by (simp add: tracked_def same_row_def)

lemma backspace_step:
  fixes s :: Snapshot
  defines "u \<equiv> (if s_column s > 0 then s\<lparr>s_column := s_column s - 1\<rparr>
     else if s_row s > 0 then s\<lparr>s_row := s_row s - 1, s_column := 79\<rparr> else s)"
  shows "snapshot_backspace (s, d) = ((put_cell 0x20 u)\<lparr>s_cursor_row := s_row u, s_cursor_column := s_column u, s_cursor_active := False\<rparr>,
     mark_row_dirty (s_row u) d)" "snap_ok s \<Longrightarrow> snap_ok u" "characters u = characters s" "colors u = colors s" "s_color u = s_color s"
  by (auto simp: snapshot_backspace_def put_cell_def u_def vga_consts snap_ok_def Let_def)

lemma printable_step:
  assumes "c \<noteq> 0x0D" "c \<noteq> 0x0A" "c \<noteq> 0x08"
  shows "snapshot_put_char c (s, d) =
    (let u = (put_cell c s)\<lparr>s_column := s_column s + 1\<rparr>; d = mark_row_dirty (s_row s) d
     in if s_column s + 1 \<ge> 80 then snapshot_new_line (u, d)
        else (u\<lparr>s_cursor_row := s_row s, s_cursor_column := s_column s + 1, s_cursor_active := False\<rparr>, d))"
  using assms by (simp add: snapshot_put_char_def put_cell_def vga_consts Let_def)

lemma put_char_tracked:
  assumes "snap_ok s"
  shows "tracked (s, d) (snapshot_put_char c (s, d))"
proof -
  consider "c = 0x0D" | "c = 0x0A" | "c = 0x08" | "c \<noteq> 0x0D" "c \<noteq> 0x0A" "c \<noteq> 0x08" by blast
  then show ?thesis
  proof cases
    case 1
    with assms show ?thesis by (auto simp: snapshot_put_char_def intro!: tracked_cong [OF tracked_refl [OF assms]] simp: snap_ok_def)
  next
    case 2
    with assms snapshot_new_line_tracked [of s d] show ?thesis by (simp add: snapshot_put_char_def snap_ok_def)
  next
    case 3
    define u where "u = (if s_column s > 0 then s\<lparr>s_column := s_column s - 1\<rparr>
       else if s_row s > 0 then s\<lparr>s_row := s_row s - 1, s_column := 79\<rparr> else s)"
    note b = backspace_step [where s = s, folded u_def]
    have "tracked (s, d) (u, d)" by (rule tracked_cong [OF tracked_refl [OF assms]]) (use b assms in simp_all)
    from tracked_trans [OF this put_cell_tracked [OF b(2) [OF assms], where d = d and c = "0x20"]]
    have t: "tracked (s, d) (put_cell 0x20 u, mark_row_dirty (s_row u) d)" .
    then have "snap_ok (put_cell 0x20 u)" "s_row (put_cell 0x20 u) = s_row u" "s_column (put_cell 0x20 u) = s_column u"
      by (simp_all add: tracked_def put_cell_def)
    with 3 t b(1) show ?thesis by (auto simp: snapshot_put_char_def intro!: tracked_cong [OF t] simp: snap_ok_def)
  next
    case 4
    let ?u = "(put_cell c s)\<lparr>s_column := s_column s + 1\<rparr>" and ?d = "mark_row_dirty (s_row s) d"
    note t = put_cell_tracked [OF assms, where d = d and c = c]
    then have ok: "snap_ok (put_cell c s)" "s_row (put_cell c s) = s_row s" by (simp_all add: tracked_def put_cell_def)
    show ?thesis
    proof (cases "s_column s + 1 \<ge> 80")
      case True
      have "tracked (?u, ?d) (snapshot_new_line (?u, ?d))"
        using ok assms by (intro snapshot_new_line_tracked) (simp_all add: snap_ok_def)
      with t have "tracked (s, d) (snapshot_new_line (?u, ?d))"
        unfolding tracked_def same_row_def by (simp, metis)
      with True 4 show ?thesis by (simp add: printable_step)
    next
      case False
      with ok t 4 assms show ?thesis by (auto simp: printable_step intro!: tracked_cong [OF t] simp: snap_ok_def)
    qed
  qed
qed

lemma snapshot_write_tracked: "snap_ok s \<Longrightarrow> tracked (s, d) (snapshot_write cs (s, d))"
proof (induction cs arbitrary: s d)
  case (Cons c cs)
  obtain s1 d1 where sd: "snapshot_put_char c (s, d) = (s1, d1)" by fastforce
  with put_char_tracked [OF Cons.prems, of d c] have t: "tracked (s, d) (s1, d1)" by simp
  then have "snap_ok s1" by (simp add: tracked_def)
  from tracked_trans [OF t Cons.IH [OF this, of d1]] sd show ?case by (simp add: snapshot_write_def)
qed (simp add: snapshot_write_def tracked_refl)


subsection \<open>A window's text behaves like the console\<close>

definition displays :: "Terminal \<Rightarrow> Snapshot \<Rightarrow> bool" where
  "displays t s \<longleftrightarrow> t_row t = s_row s \<and> t_column t = s_column s \<and> t_color t = s_color s \<and>
     (\<forall>y<25. \<forall>x<80. cells t ! y ! x = \<lparr>character = characters s ! y ! x, cell_color = colors s ! y ! x\<rparr>)"

lemma displays_put:
  assumes "displays t s" "term_ok t" "snap_ok s"
  shows "displays (putentry_at c (t_color t) (t_column t) (t_row t) t) (put_cell c s)"
  using assms put_term_ok [OF assms(2), where c = c and col = "t_color t"]
  by (auto simp: displays_def put_cell_def snap_ok_def same_mode_def grid_set_get)

lemma displays_new_line:
  assumes "displays t s" "term_ok t" "grid_ok (characters s) 25 80" "grid_ok (colors s) 25 80"
  shows "displays (new_line t) (fst (snapshot_new_line (s, d)))"
proof -
  have row: "s_row s < 25" "t_row t = s_row s" using assms(1,2) by (simp_all add: displays_def term_ok_def)
  obtain s' d' where r: "snapshot_new_line (s, d) = (s', d')" "s_column s' = 0" "s_color s' = s_color s"
    "if s_row s = 24
     then s_row s' = 24 \<and> (\<forall>y. covers d' y) \<and>
       (\<forall>y<25. \<forall>x<80. characters s' ! y ! x = (if y < 24 then characters s ! (y + 1) ! x else 0x20) \<and>
          colors s' ! y ! x = (if y < 24 then colors s ! (y + 1) ! x else s_color s))
     else s_row s' = s_row s + 1 \<and> characters s' = characters s \<and> colors s' = colors s"
    by (rule snapshot_new_line_spec [OF assms(3,4) row(1), of d]) blast
  show ?thesis
    using new_line_spec [OF assms(2)] assms(1) r row by (cases "s_row s = 24") (auto simp: displays_def scrolled_def)
qed

lemma displays_update [simp]: "displays (update_cursor t) s = displays t s"
  by (simp add: displays_def)

lemma displays_putchar:
  assumes "displays t s" "term_ok t" "snap_ok s" "c \<noteq> 0x0D"
  shows "displays (term_putchar c t) (fst (snapshot_put_char c (s, d)))"
proof -
  have pos: "t_row t = s_row s" "t_column t = s_column s" "t_color t = s_color s" using assms(1) by (simp_all add: displays_def)
  have g: "grid_ok (characters s) 25 80" "grid_ok (colors s) 25 80" "s_column s < 80" using assms(3) by (simp_all add: snap_ok_def)
  consider "c = 0x0A" | "c = 0x08" | "c \<noteq> 0x0A" "c \<noteq> 0x08" by blast
  then show ?thesis
  proof cases
    case 1
    with displays_new_line [OF assms(1,2) g(1,2)] show ?thesis by (simp add: term_putchar_def snapshot_put_char_def)
  next
    case 2
    define u where "u = (if s_column s > 0 then s\<lparr>s_column := s_column s - 1\<rparr>
       else if s_row s > 0 then s\<lparr>s_row := s_row s - 1, s_column := 79\<rparr> else s)"
    define v where "v = (if t_column t > 0 then t\<lparr>t_column := t_column t - 1\<rparr>
                    else if t_row t > 0 then t\<lparr>t_row := t_row t - 1, t_column := 79\<rparr> else t)"
    have tv: "term_putchar c t = update_cursor (putentry_at 0x20 (t_color v) (t_column v) (t_row v) v)"
      using 2 by (simp add: term_putchar_def vga_consts v_def Let_def)
    have "displays v u" "term_ok v" using assms(1,2) pos by (auto simp: displays_def u_def v_def term_ok_def mirrored_def)
    from displays_put [OF this backspace_step(2) [OF assms(3), folded u_def], of "0x20"]
    have "displays (putentry_at 0x20 (t_color v) (t_column v) (t_row v) v) (put_cell 0x20 u)" .
    moreover have "fst (snapshot_put_char c (s, d)) =
        (put_cell 0x20 u)\<lparr>s_cursor_row := s_row u, s_cursor_column := s_column u, s_cursor_active := False\<rparr>"
      using 2 backspace_step(1) [of s d, folded u_def] by (simp add: snapshot_put_char_def)
    ultimately show ?thesis unfolding tv displays_update by (simp add: displays_def)
  next
    case 3
    let ?t = "putentry_at c (t_color t) (t_column t) (t_row t) t" and ?u = "(put_cell c s)\<lparr>s_column := s_column s + 1\<rparr>"
    note put = put_term_ok [OF assms(2), where c = c and col = "t_color t"]
    have d: "displays ?t (put_cell c s)" by (rule displays_put [OF assms(1-3)])
    have tp: "term_putchar c t = (if t_column t = 79 then new_line ?t else update_cursor (?t\<lparr>t_column := t_column t + 1\<rparr>))"
      using putchar_printable [OF assms(2)] 3 by blast
    show ?thesis
    proof (cases "t_column t = 79")
      case True
      have gp: "grid_ok (characters (put_cell c s)) 25 80" "grid_ok (colors (put_cell c s)) 25 80" using g by (simp_all add: put_cell_def)
      have "snapshot_new_line (?u, e) = snapshot_new_line (put_cell c s, e)" for e
        by (simp add: snapshot_new_line_def put_cell_def)
      with displays_new_line [OF d put(1) gp] True 3 assms(4) pos show ?thesis
        by (simp add: tp printable_step)
    next
      case False
      with d 3 assms(4) pos g show ?thesis
        by (simp add: tp printable_step) (simp add: displays_def)
    qed
  qed
qed

subsection \<open>The window stack\<close>

definition zstack :: "wins \<Rightarrow> nat list" where
  "zstack w = take (g_z_count w) (g_z_order w)"

definition stack_ok :: "wins \<Rightarrow> bool" where
  "stack_ok w \<longleftrightarrow> length (g_z_order w) = 8 \<and> g_z_count w \<le> 8 \<and> distinct (zstack w)"

lemma find_Some_nth:
  assumes "find P [0..<n] = Some i"
  shows "i < n" "P i" "\<forall>j<i. \<not> P j"
  using assms by (auto simp: find_Some_iff)

lemma find_None_upt: "find P [0..<n] = None \<longleftrightarrow> (\<forall>i<n. \<not> P i)"
  by (auto simp: find_None_iff)

lemma stack_position:
  assumes "stack_ok w"
  shows "slot \<notin> set (zstack w) \<Longrightarrow> find_stack_position w slot = 8"
    "slot \<in> set (zstack w) \<Longrightarrow> find_stack_position w slot < g_z_count w \<and> zstack w ! find_stack_position w slot = slot"
proof -
  have n: "zstack w ! i = g_z_order w ! i" if "i < g_z_count w" for i using that by (simp add: zstack_def)
  have len: "length (zstack w) = g_z_count w" using assms by (simp add: stack_ok_def zstack_def)
  show "find_stack_position w slot = 8" if "slot \<notin> set (zstack w)"
  proof -
    have "find (\<lambda>i. g_z_order w ! i = slot) [0..<g_z_count w] = None"
      using that n len by (auto simp: find_None_upt in_set_conv_nth)
    then show ?thesis by (simp add: find_stack_position_def MAX_WINDOWS_def)
  qed
  show "find_stack_position w slot < g_z_count w \<and> zstack w ! find_stack_position w slot = slot" if "slot \<in> set (zstack w)"
  proof -
    have "find (\<lambda>i. g_z_order w ! i = slot) [0..<g_z_count w] \<noteq> None"
      using that n len by (auto simp: find_None_upt in_set_conv_nth)
    then obtain i where "find (\<lambda>i. g_z_order w ! i = slot) [0..<g_z_count w] = Some i" by blast
    with find_Some_nth [OF this] n show ?thesis by (simp add: find_stack_position_def)
  qed
qed

lemma remove1_nth:
  assumes "distinct xs" "i < length xs"
  shows "remove1 (xs ! i) xs = take i xs @ drop (Suc i) xs"
proof -
  have "xs ! i \<notin> set (take i xs)"
    using assms by (auto simp: in_set_conv_nth nth_eq_iff_index_eq)
  then have "remove1 (xs ! i) (take i xs @ xs ! i # drop (Suc i) xs) = take i xs @ drop (Suc i) xs"
    by (simp add: remove1_append)
  with id_take_nth_drop [OF assms(2)] show ?thesis by simp
qed

lemma stack_gap:
  assumes "stack_ok w" "slot \<in> set (zstack w)"
  defines "n \<equiv> g_z_count w - 1"
  defines "z \<equiv> shift_down (g_z_order w) [find_stack_position w slot..<n]"
  shows "length z = 8" "take n z = remove1 slot (zstack w)" "n < 8" "Suc n = g_z_count w" "length (remove1 slot (zstack w)) = n"
proof -
  let ?i = "find_stack_position w slot"
  have i: "?i < g_z_count w" "zstack w ! ?i = slot" using stack_position(2) [OF assms(1,2)] by auto
  have len: "length (g_z_order w) = 8" "g_z_count w \<le> 8" "distinct (zstack w)" "length (zstack w) = g_z_count w"
    using assms(1) by (auto simp: stack_ok_def zstack_def)
  show n: "n < 8" "Suc n = g_z_count w" using i(1) len by (auto simp: n_def)
  have ni: "?i \<le> n" "n < length (g_z_order w)" using i(1) n len by auto
  show "length z = 8" using shift_down_nth [OF ni(2,1)] len by (simp add: z_def)
  have "take n z = take ?i (g_z_order w) @ drop (Suc ?i) (take (Suc n) (g_z_order w))"
    unfolding z_def by (rule shift_down_take [OF ni(2,1)])
  also have "\<dots> = take ?i (zstack w) @ drop (Suc ?i) (zstack w)" using ni n by (simp add: zstack_def min_def)
  also have "\<dots> = remove1 slot (zstack w)" using remove1_nth [OF len(3), of ?i] i len by simp
  finally show "take n z = remove1 slot (zstack w)" .
  show "length (remove1 slot (zstack w)) = n" using assms(2) len n by (simp add: length_remove1)
qed

lemma take_Suc_update: "n < length xs \<Longrightarrow> take (Suc n) (xs[n := v]) = take n xs @ [v]"
  by (simp add: take_Suc_conv_app_nth)

lemma push_slot_stack:
  assumes "stack_ok w" "slot < 8" "slot \<notin> set (zstack w) \<Longrightarrow> g_z_count w < 8"
  shows "stack_ok (push_slot_to_top slot w)" "zstack (push_slot_to_top slot w) = remove1 slot (zstack w) @ [slot]"
proof -
  have "stack_ok (push_slot_to_top slot w) \<and> zstack (push_slot_to_top slot w) = remove1 slot (zstack w) @ [slot]"
  proof (cases "slot \<in> set (zstack w)")
    case True
    note g = stack_gap [OF assms(1) True]
    have p: "find_stack_position w slot \<noteq> 8" using stack_position(2) [OF assms(1) True] assms(1) by (auto simp: stack_ok_def)
    let ?z = "(shift_down (g_z_order w) [find_stack_position w slot..<g_z_count w - 1])[g_z_count w - 1 := slot]"
    have e: "push_slot_to_top slot w = w\<lparr>g_z_order := ?z\<rparr>"
      using assms(2) p by (simp add: push_slot_to_top_def MAX_WINDOWS_def)
    have "take (Suc (g_z_count w - 1)) ?z = remove1 slot (zstack w) @ [slot]"
      using g(1-3) by (simp only: take_Suc_update)
    then have z: "zstack (w\<lparr>g_z_order := ?z\<rparr>) = remove1 slot (zstack w) @ [slot]" using g(4) by (simp add: zstack_def)
    moreover have "distinct (remove1 slot (zstack w) @ [slot])" using assms(1) by (auto simp: stack_ok_def)
    ultimately show ?thesis using e g assms(1) by (simp add: stack_ok_def)
  next
    case False
    have e: "push_slot_to_top slot w = w\<lparr>g_z_order := (g_z_order w)[g_z_count w := slot], g_z_count := g_z_count w + 1\<rparr>"
      using assms(2,3) stack_position(1) [OF assms(1) False] False by (simp add: push_slot_to_top_def MAX_WINDOWS_def)
    have "zstack (push_slot_to_top slot w) = zstack w @ [slot]"
      using assms(1,3) False unfolding e by (simp add: zstack_def stack_ok_def take_Suc_conv_app_nth)
    with False assms(1,3) e show ?thesis by (simp add: stack_ok_def remove1_idem)
  qed
  then show "stack_ok (push_slot_to_top slot w)" "zstack (push_slot_to_top slot w) = remove1 slot (zstack w) @ [slot]" by simp_all
qed

lemma remove_slot_stack:
  assumes "stack_ok w"
  shows "stack_ok (remove_slot_from_stack slot w)" "zstack (remove_slot_from_stack slot w) = remove1 slot (zstack w)"
proof -
  have "stack_ok (remove_slot_from_stack slot w) \<and> zstack (remove_slot_from_stack slot w) = remove1 slot (zstack w)"
  proof (cases "slot \<in> set (zstack w)")
    case True
    note g = stack_gap [OF assms True]
    have p: "find_stack_position w slot \<noteq> 8" "0 < g_z_count w"
      using stack_position(2) [OF assms True] assms by (auto simp: stack_ok_def)
    let ?z = "shift_down (g_z_order w) [find_stack_position w slot..<g_z_count w - 1]"
    have e: "remove_slot_from_stack slot w = w\<lparr>g_z_order := ?z, g_z_count := g_z_count w - 1\<rparr>"
      using p by (simp add: remove_slot_from_stack_def MAX_WINDOWS_def Let_def)
    have "zstack (w\<lparr>g_z_order := ?z, g_z_count := g_z_count w - 1\<rparr>) = remove1 slot (zstack w)"
      using g(2) by (simp add: zstack_def)
    with e g assms show ?thesis by (simp add: stack_ok_def)
  next
    case False
    with stack_position(1) [OF assms False] assms show ?thesis
      by (simp add: remove_slot_from_stack_def MAX_WINDOWS_def remove1_idem)
  qed
  then show "stack_ok (remove_slot_from_stack slot w)" "zstack (remove_slot_from_stack slot w) = remove1 slot (zstack w)" by simp_all
qed


lemma stack_ops_keep [simp]:
  "g_windows (push_slot_to_top slot w) = g_windows w" "g_window_count (push_slot_to_top slot w) = g_window_count w"
  "g_blank_ready (push_slot_to_top slot w) = g_blank_ready w" "g_blank_snapshot (push_slot_to_top slot w) = g_blank_snapshot w"
  "fb_available (push_slot_to_top slot w) = fb_available w" "g_geometry_ready (push_slot_to_top slot w) = g_geometry_ready w"
  "g_windows (remove_slot_from_stack slot w) = g_windows w" "g_window_count (remove_slot_from_stack slot w) = g_window_count w"
  "g_blank_ready (remove_slot_from_stack slot w) = g_blank_ready w" "g_blank_snapshot (remove_slot_from_stack slot w) = g_blank_snapshot w"
  "fb_available (remove_slot_from_stack slot w) = fb_available w" "g_geometry_ready (remove_slot_from_stack slot w) = g_geometry_ready w"
  "fb_width (push_slot_to_top slot w) = fb_width w" "fb_height (push_slot_to_top slot w) = fb_height w"
  "fb_width (remove_slot_from_stack slot w) = fb_width w" "fb_height (remove_slot_from_stack slot w) = fb_height w"
  by (simp_all add: push_slot_to_top_def remove_slot_from_stack_def Let_def)

subsection \<open>The invariant of the window manager\<close>

definition dims_ok :: "Window \<Rightarrow> bool" where
  "dims_ok window \<longleftrightarrow> 24 \<le> visible_columns window \<and> visible_columns window \<le> 80 \<and>
     12 \<le> visible_rows window \<and> visible_rows window \<le> 25 \<and>
     frame_width window = visible_columns window * 8 + 28 \<and> frame_height window = visible_rows window * 16 + 40"

definition win_ok :: "Window \<Rightarrow> bool" where
  "win_ok window \<longleftrightarrow> snap_ok (snapshot window) \<and> (in_use window \<longrightarrow> dims_ok window)"

definition wins_ok :: "wins \<Rightarrow> bool" where
  "wins_ok w \<longleftrightarrow> stack_ok w \<and> length (g_windows w) = 8 \<and>
     set (zstack w) = {i. i < 8 \<and> in_use (g_windows w ! i)} \<and> g_window_count w = g_z_count w \<and>
     g_active_slot w = (if zstack w = [] then -1 else int (last (zstack w))) \<and>
     (\<forall>i<8. win_ok (g_windows w ! i)) \<and>
     (\<forall>i<8. \<forall>j<8. in_use (g_windows w ! i) \<and> in_use (g_windows w ! j) \<and> owner (g_windows w ! i) \<noteq> 0 \<and>
        owner (g_windows w ! i) = owner (g_windows w ! j) \<longrightarrow> i = j) \<and>
     (g_blank_ready w \<longrightarrow> snap_ok (g_blank_snapshot w))"

text \<open>The framebuffer, which no operation changes.\<close>

definition fb_of :: "wins \<Rightarrow> bool \<times> u32 \<times> u32" where
  "fb_of w = (fb_available w, fb_width w, fb_height w)"

text \<open>Changes that leave the table, the stack and the owners alone.\<close>

definition kept :: "wins \<Rightarrow> wins \<Rightarrow> bool" where
  "kept w w' \<longleftrightarrow> g_z_order w' = g_z_order w \<and> g_z_count w' = g_z_count w \<and> g_window_count w' = g_window_count w \<and>
     g_active_slot w' = g_active_slot w \<and> length (g_windows w') = length (g_windows w) \<and> fb_of w' = fb_of w \<and>
     (g_geometry_ready w \<longrightarrow> g_geometry_ready w') \<and>
     (\<forall>i<8. in_use (g_windows w' ! i) = in_use (g_windows w ! i) \<and> owner (g_windows w' ! i) = owner (g_windows w ! i) \<and>
        (win_ok (g_windows w ! i) \<longrightarrow> win_ok (g_windows w' ! i))) \<and>
     (g_blank_ready w' \<longrightarrow> g_blank_ready w \<and> g_blank_snapshot w' = g_blank_snapshot w \<or> snap_ok (g_blank_snapshot w'))"

lemma kept_refl [simp]: "kept w w"
  by (simp add: kept_def)

lemma kept_trans: "kept w w' \<Longrightarrow> kept w' w'' \<Longrightarrow> kept w w''"
  unfolding kept_def by (simp, metis)

lemma wins_okD:
  assumes "wins_ok w"
  shows "stack_ok w" "length (g_windows w) = 8" "set (zstack w) = {i. i < 8 \<and> in_use (g_windows w ! i)}"
    "g_window_count w = g_z_count w" "g_active_slot w = (if zstack w = [] then -1 else int (last (zstack w)))"
    "\<forall>i<8. win_ok (g_windows w ! i)"
    "\<forall>i<8. \<forall>j<8. in_use (g_windows w ! i) \<and> in_use (g_windows w ! j) \<and> owner (g_windows w ! i) \<noteq> 0 \<and>
        owner (g_windows w ! i) = owner (g_windows w ! j) \<longrightarrow> i = j"
    "g_blank_ready w \<longrightarrow> snap_ok (g_blank_snapshot w)"
  using assms unfolding wins_ok_def by blast+

lemma kept_ok:
  assumes "kept w w'" "wins_ok w"
  shows "wins_ok w'"
proof -
  note ok = wins_okD [OF assms(2)]
  have z: "zstack w' = zstack w" "stack_ok w' = stack_ok w" using assms(1) by (simp_all add: kept_def zstack_def stack_ok_def)
  have b: "g_blank_ready w' \<longrightarrow> snap_ok (g_blank_snapshot w')" using assms(1) ok(8) unfolding kept_def by metis
  have i: "in_use (g_windows w' ! i) = in_use (g_windows w ! i)" "owner (g_windows w' ! i) = owner (g_windows w ! i)"
    "win_ok (g_windows w ! i) \<Longrightarrow> win_ok (g_windows w' ! i)" if "i < 8" for i
    using assms(1) that by (simp_all add: kept_def)
  have u: "{i. i < 8 \<and> in_use (g_windows w' ! i)} = {i. i < 8 \<and> in_use (g_windows w ! i)}" using i by auto
  have o: "\<forall>k<8. \<forall>j<8. in_use (g_windows w' ! k) \<and> in_use (g_windows w' ! j) \<and> owner (g_windows w' ! k) \<noteq> 0 \<and>
        owner (g_windows w' ! k) = owner (g_windows w' ! j) \<longrightarrow> k = j"
  proof (intro allI impI)
    fix k j :: nat
    assume "k < 8" "j < 8" "in_use (g_windows w' ! k) \<and> in_use (g_windows w' ! j) \<and> owner (g_windows w' ! k) \<noteq> 0 \<and>
        owner (g_windows w' ! k) = owner (g_windows w' ! j)"
    moreover from this have "in_use (g_windows w ! k) \<and> in_use (g_windows w ! j) \<and> owner (g_windows w ! k) \<noteq> 0 \<and>
        owner (g_windows w ! k) = owner (g_windows w ! j)"
      using i(1,2) [OF \<open>k < 8\<close>] i(1,2) [OF \<open>j < 8\<close>] by metis
    ultimately show "k = j" using ok(7) by blast
  qed
  have "set (zstack w') = {i. i < 8 \<and> in_use (g_windows w' ! i)}" unfolding u z by (rule ok(3))
  moreover have "\<forall>i<8. win_ok (g_windows w' ! i)" using ok(6) i(3) by blast
  moreover have "length (g_windows w') = 8" "g_window_count w' = g_z_count w'"
    "g_active_slot w' = (if zstack w = [] then -1 else int (last (zstack w)))"
    using assms(1) ok(2,4,5) by (simp_all add: kept_def)
  ultimately show ?thesis using ok(1) b o unfolding wins_ok_def z by blast
qed

lemma kept_upd:
  assumes "\<And>x. in_use (f x) = in_use x" "\<And>x. owner (f x) = owner x" "win_ok (g_windows w ! slot) \<Longrightarrow> win_ok (f (g_windows w ! slot))"
  shows "kept w (upd_window slot f w)"
proof (cases "slot < length (g_windows w)")
  case True
  then show ?thesis using assms by (auto simp: kept_def upd_window_def nth_list_update fb_of_def)
next
  case False
  then show ?thesis by (simp add: kept_def upd_window_def list_update_beyond fb_of_def)
qed

lemma kept_reset_dirty: "kept w (reset_window_dirty slot w)"
  unfolding reset_window_dirty_def by (rule kept_upd) (simp_all add: win_ok_def dims_ok_def)

lemma blank_snap_ok: "snap_ok \<lparr>characters = replicate VGA_HEIGHT (replicate VGA_WIDTH c), colors = replicate VGA_HEIGHT (replicate VGA_WIDTH k),
    s_row = 0, s_column = 0, s_color = k', s_cursor_row = 0, s_cursor_column = 0, s_cursor_active = False\<rparr>"
  by (simp add: snap_ok_def grid_ok_def vga_consts)

lemma kept_prepare: "kept w (ensure_geometry w)" "kept w (build_blank_snapshot w)"
  by (simp_all add: kept_def ensure_geometry_def build_blank_snapshot_def blank_snap_ok fb_of_def Let_def)

lemma kept_fold:
  assumes "\<And>i w. kept w (f i w)"
  shows "kept w (fold f is w)"
proof (induction "is" arbitrary: w)
  case (Cons i js)
  then show ?case using kept_trans [OF assms Cons.IH] by simp
qed simp

lemma kept_draw: "kept w (draw_windows w)"
proof -
  define v where "v = fold draw_inactive [0..<g_z_count (ensure_geometry w)] (ensure_geometry w)"
  have f: "kept (ensure_geometry w) v"
    unfolding v_def by (rule kept_fold) (simp add: draw_inactive_def kept_reset_dirty Let_def)
  have v: "kept w v" by (rule kept_trans [OF kept_prepare(1) f])
  have "draw_windows w = (if \<not> fb_available w \<or> g_z_count w = 0 then w
      else if g_active_slot v \<ge> 0 \<and> window_slot_valid v (nat (g_active_slot v)) then reset_window_dirty (nat (g_active_slot v)) v else v)"
    by (simp add: draw_windows_def v_def Let_def)
  then show ?thesis using v kept_trans [OF v kept_reset_dirty] by simp
qed

lemma kept_present: "kept w (present_window_slot slot w)" "kept w (window_present proc w)" "kept w (draw_workspace w)"
  by (simp_all add: present_window_slot_def window_present_def draw_workspace_def kept_reset_dirty kept_draw Let_def)

lemma apply_dims: "dims_ok (apply_visible_dimensions columns rows window)" "snapshot (apply_visible_dimensions columns rows window) = snapshot window"
    "in_use (apply_visible_dimensions columns rows window) = in_use window" "owner (apply_visible_dimensions columns rows window) = owner window"
  by (auto simp: apply_visible_dimensions_def dims_ok_def clamp_u32_def content_padding_width_def content_padding_height_def vga_consts
      FRAME_BORDER_def CONTENT_PADDING_X_def TITLE_BAR_HEIGHT_def CONTENT_PADDING_BOTTOM_def FONT_WIDTH_def FONT_HEIGHT_def
      MIN_VISIBLE_COLUMNS_def MIN_VISIBLE_ROWS_def not_less Let_def)


lemma zstack_length: "stack_ok w \<Longrightarrow> length (zstack w) = g_z_count w"
  by (simp add: stack_ok_def zstack_def)

lemma zstack_active [simp]: "zstack (w\<lparr>g_active_slot := a\<rparr>) = zstack w" "stack_ok (w\<lparr>g_active_slot := a\<rparr>) = stack_ok w"
  by (simp_all add: zstack_def stack_ok_def)

text \<open>Bringing a window in use to the top, whether or not it is on the stack yet.\<close>

lemma push_ok:
  assumes st: "stack_ok w" "slot < 8" "length (g_windows w) = 8"
    and us: "insert slot (set (zstack w)) = {i. i < 8 \<and> in_use (g_windows w ! i)}"
    and cnt: "g_window_count w = (if slot \<in> set (zstack w) then g_z_count w else g_z_count w + 1)"
    and rest: "\<forall>i<8. win_ok (g_windows w ! i)"
      "\<forall>i<8. \<forall>j<8. in_use (g_windows w ! i) \<and> in_use (g_windows w ! j) \<and> owner (g_windows w ! i) \<noteq> 0 \<and>
        owner (g_windows w ! i) = owner (g_windows w ! j) \<longrightarrow> i = j"
      "g_blank_ready w \<longrightarrow> snap_ok (g_blank_snapshot w)"
  shows "wins_ok ((push_slot_to_top slot w)\<lparr>g_active_slot := int slot\<rparr>)"
proof -
  let ?w = "(push_slot_to_top slot w)\<lparr>g_active_slot := int slot\<rparr>"
  have "g_z_count w < 8" if "slot \<notin> set (zstack w)"
  proof -
    have "insert slot (set (zstack w)) \<subseteq> {..<8}" using us by auto
    from card_mono [OF _ this] that st(1) show ?thesis by (simp add: distinct_card zstack_length stack_ok_def)
  qed
  note p = push_slot_stack [OF st(1,2) this]
  have z: "zstack ?w = remove1 slot (zstack w) @ [slot]" "stack_ok ?w" using p by simp_all
  have "g_z_count ?w = length (remove1 slot (zstack w)) + 1" using zstack_length [OF z(2)] z(1) by simp
  also have "\<dots> = g_window_count w"
    using cnt zstack_length [OF st(1)] length_pos_if_in_set [of slot "zstack w"] by (auto simp: length_remove1 remove1_idem)
  finally have c: "g_z_count ?w = g_window_count w" .
  have "set (zstack ?w) = insert slot (set (zstack w))" using z(1) st(1) by (auto simp: stack_ok_def)
  then have "set (zstack ?w) = {i. i < 8 \<and> in_use (g_windows w ! i)}" using us by simp
  then show ?thesis using z c st(3) rest by (simp add: wins_ok_def)
qed

lemma focus_ok:
  assumes "wins_ok w"
  shows "wins_ok (focus_window slot w)"
proof (cases "window_slot_valid w slot")
  case True
  define v where "v = (if \<not> g_geometry_ready w then ensure_geometry w else w)"
  have v: "wins_ok v" using kept_ok [OF kept_prepare(1) assms] assms by (simp add: v_def)
  note ok = wins_okD [OF v]
  have s: "slot < 8" "in_use (g_windows v ! slot)"
    using True by (simp_all add: window_slot_valid_def MAX_WINDOWS_def v_def ensure_geometry_def)
  then have m: "slot \<in> set (zstack v)" using ok(3) by simp
  then have "insert slot (set (zstack v)) = {i. i < 8 \<and> in_use (g_windows v ! i)}" using ok(3) by auto
  from push_ok [OF ok(1) s(1) ok(2) this _ ok(6,7,8)] m ok(4)
  have p: "wins_ok ((push_slot_to_top slot v)\<lparr>g_active_slot := int slot\<rparr>)" by simp
  have "focus_window slot w = (if \<not> g_geometry_ready v then v
      else if g_active_slot v \<noteq> int slot then draw_windows ((push_slot_to_top slot v)\<lparr>g_active_slot := int slot\<rparr>)
      else (push_slot_to_top slot v)\<lparr>g_active_slot := int slot\<rparr>)"
    using True by (simp add: focus_window_def v_def Let_def)
  then show ?thesis using v p kept_ok [OF kept_draw p] by simp
qed (simp add: focus_window_def assms)

lemma empty_window_ok [simp]: "win_ok empty_window" "\<not> in_use empty_window"
  by (simp_all add: win_ok_def empty_window_def zero_snapshot_def blank_snap_ok)

lemma stops [simp]: "kept w (stop_dragging w)" "kept w (stop_resizing w)" "kept w (begin_resize slot e x y w)"
  by (simp_all add: kept_def stop_dragging_def stop_resizing_def begin_resize_def fb_of_def Let_def)

lemma close_ok:
  assumes "wins_ok w"
  shows "wins_ok (close_window_slot slot w)"
proof (cases "window_slot_valid w slot")
  case True
  define u where "u = (if g_dragging_window w \<and> g_drag_slot w = int slot then stop_dragging w else w)"
  define v where "v = (if g_resizing_window u \<and> g_resize_slot u = int slot then stop_resizing u else u)"
  have kv: "kept w v" unfolding v_def u_def by (auto intro: kept_trans [of _ "stop_dragging w"])
  from kept_ok [OF kv assms] have v: "wins_ok v" .
  note ok = wins_okD [OF v]
  define r where "r = remove_slot_from_stack slot v"
  have s: "slot < 8" "in_use (g_windows v ! slot)"
    using True kv by (simp_all add: window_slot_valid_def MAX_WINDOWS_def kept_def)
  have z: "stack_ok r" "zstack r = remove1 slot (zstack v)" using remove_slot_stack [OF ok(1)] by (simp_all add: r_def)
  have m: "slot \<in> set (zstack v)" using s ok(3) by simp
  have len: "g_window_count r = g_z_count r + 1" "g_window_count r > 0"
    using zstack_length [OF z(1)] zstack_length [OF ok(1)] z(2) m ok(4) length_pos_if_in_set [OF m]
    by (simp_all add: length_remove1 r_def)
  define q where "q = r\<lparr>g_windows := (g_windows r)[slot := empty_window], g_window_count := g_window_count r - 1\<rparr>"
  have q: "release_window_slot slot r = q"
    using s len by (simp add: release_window_slot_def window_slot_valid_def MAX_WINDOWS_def r_def q_def)
  have zq: "zstack q = remove1 slot (zstack v)" "stack_ok q" using z by (simp_all add: q_def zstack_def stack_ok_def)
  have gw: "g_windows q = (g_windows v)[slot := empty_window]" by (simp add: q_def r_def)
  define n where "n = (if g_z_count q = 0 then q\<lparr>g_active_slot := INVALID_SLOT\<rparr>
                    else q\<lparr>g_active_slot := int (g_z_order q ! (g_z_count q - 1))\<rparr>)"
  have nz: "zstack n = zstack q" "stack_ok n" "g_windows n = g_windows q" "g_window_count n = g_window_count q" "g_z_count n = g_z_count q"
    "g_blank_ready n = g_blank_ready q" "g_blank_snapshot n = g_blank_snapshot q"
    using zq by (simp_all add: n_def)
  have "close_window_slot slot w = draw_workspace n"
    using True unfolding n_def q [symmetric] r_def v_def u_def close_window_slot_def Let_def by (simp only: simp_thms if_False)
  moreover have "wins_ok n"
  proof -
    have "set (zstack n) = {i. i < 8 \<and> in_use (g_windows n ! i)}"
      using ok(1,2,3) s by (auto simp: nz zq gw stack_ok_def nth_list_update)
    moreover have "g_active_slot n = (if zstack n = [] then -1 else int (last (zstack n)))"
      using zstack_length [OF zq(2)] zq(2)
      by (auto simp: n_def INVALID_SLOT_def zstack_def stack_ok_def last_conv_nth)
    moreover have "\<forall>i<8. win_ok (g_windows n ! i)" using ok(2,6) s(1) by (auto simp: nz gw nth_list_update)
    moreover have "\<forall>i<8. \<forall>j<8. in_use (g_windows n ! i) \<and> in_use (g_windows n ! j) \<and> owner (g_windows n ! i) \<noteq> 0 \<and>
        owner (g_windows n ! i) = owner (g_windows n ! j) \<longrightarrow> i = j"
      using ok(2,7) s(1) by (simp add: nz gw nth_list_update) blast
    moreover have "g_window_count n = g_z_count n" using len by (simp add: nz q_def)
    moreover have "g_blank_ready n \<longrightarrow> snap_ok (g_blank_snapshot n)" using ok(8) by (simp add: nz q_def r_def)
    ultimately show ?thesis using nz ok(2) by (simp add: wins_ok_def gw)
  qed
  ultimately show ?thesis using kept_ok [OF kept_present(3)] by simp
qed (simp add: close_window_slot_def assms)


lemma activate_ok:
  assumes "wins_ok w"
  shows "wins_ok (activate_process proc w)"
proof -
  have "wins_ok (build_blank_snapshot (ensure_geometry w))"
    by (intro kept_ok [OF kept_prepare(2)] kept_ok [OF kept_prepare(1)] assms)
  then show ?thesis using assms by (simp add: activate_process_def focus_ok Let_def)
qed

text \<open>Looking a process up in the window table.\<close>

lemma find_window_index_spec:
  assumes "find_window_index w proc \<ge> 0"
  shows "proc \<noteq> 0" "nat (find_window_index w proc) < 8" "in_use (g_windows w ! nat (find_window_index w proc))"
    "owner (g_windows w ! nat (find_window_index w proc)) = proc"
proof -
  from assms obtain i where "find (\<lambda>i. window_slot_valid w i \<and> owner (g_windows w ! i) = proc) [0..<MAX_WINDOWS] = Some i"
    "proc \<noteq> 0" "find_window_index w proc = int i"
    by (auto simp: find_window_index_def split: if_splits option.splits)
  with find_Some_nth [OF this(1)] show "proc \<noteq> 0" "nat (find_window_index w proc) < 8"
    "in_use (g_windows w ! nat (find_window_index w proc))" "owner (g_windows w ! nat (find_window_index w proc)) = proc"
    by (simp_all add: window_slot_valid_def MAX_WINDOWS_def)
qed

lemma find_window_index_none:
  assumes "find_window_index w proc < 0" "proc \<noteq> 0" "i < 8" "in_use (g_windows w ! i)"
  shows "owner (g_windows w ! i) \<noteq> proc"
proof -
  have "find (\<lambda>i. window_slot_valid w i \<and> owner (g_windows w ! i) = proc) [0..<MAX_WINDOWS] = None"
    using assms(1,2) by (auto simp: find_window_index_def split: if_splits option.splits)
  then show ?thesis using assms(3,4) by (simp add: find_None_upt window_slot_valid_def MAX_WINDOWS_def)
qed

text \<open>Entering a new window in the table and bringing it to the top.\<close>

lemma open_window_ok:
  assumes ok: "wins_ok w" and i: "i < 8" "\<not> in_use (g_windows w ! i)"
    and win: "in_use window" "win_ok window" "owner window \<noteq> 0 \<Longrightarrow> \<forall>j<8. in_use (g_windows w ! j) \<longrightarrow> owner (g_windows w ! j) \<noteq> owner window"
    and v: "v = w\<lparr>g_window_count := g_window_count w + 1, g_windows := (g_windows w)[i := window]\<rparr>"
    and geo: "g_geometry_ready w"
  shows "wins_ok (focus_window i v)" "i \<in> set (zstack (focus_window i v))"
proof -
  note o = wins_okD [OF ok]
  have z: "zstack v = zstack w" "stack_ok v" using o(1) by (simp_all add: v zstack_def stack_ok_def)
  have ni: "i \<notin> set (zstack v)" using o(3) i z by simp
  have l: "length (g_windows v) = 8" using o(2) by (simp add: v)
  have gv: "g_windows v ! j = (if j = i then window else g_windows w ! j)" if "j < 8" for j
    using o(2) i(1) that by (simp add: v nth_list_update)
  have us: "insert i (set (zstack v)) = {j. j < 8 \<and> in_use (g_windows v ! j)}"
    unfolding z(1) o(3) using gv i win(1) by auto
  have c: "g_window_count v = (if i \<in> set (zstack v) then g_z_count v else g_z_count v + 1)" using ni o(4) by (simp add: v)
  have k: "\<forall>j<8. win_ok (g_windows v ! j)" using o(6) win(2) by (simp add: gv)
  have u: "\<forall>k<8. \<forall>j<8. in_use (g_windows v ! k) \<and> in_use (g_windows v ! j) \<and> owner (g_windows v ! k) \<noteq> 0 \<and>
        owner (g_windows v ! k) = owner (g_windows v ! j) \<longrightarrow> k = j"
  proof (intro allI impI)
    fix k j :: nat
    assume a: "k < 8" "j < 8" "in_use (g_windows v ! k) \<and> in_use (g_windows v ! j) \<and> owner (g_windows v ! k) \<noteq> 0 \<and>
        owner (g_windows v ! k) = owner (g_windows v ! j)"
    have n: "owner (g_windows w ! l) \<noteq> owner window" if "l < 8" "in_use (g_windows w ! l)" "owner window \<noteq> 0" for l
      using win(3) that by blast
    show "k = j" using a n o(7) gv [OF a(1)] gv [OF a(2)] by metis
  qed
  have b: "g_blank_ready v \<longrightarrow> snap_ok (g_blank_snapshot v)" using o(8) by (simp add: v)
  let ?p = "(push_slot_to_top i v)\<lparr>g_active_slot := int i\<rparr>"
  have p: "wins_ok ?p" by (rule push_ok [OF z(2) i(1) l us c k u b])
  have "in_use (g_windows ?p ! i)" using o(2) i win by (simp add: v)
  with wins_okD(3) [OF p] i(1) have m: "i \<in> set (zstack ?p)" by simp
  have "window_slot_valid v i" using i win o(2) by (simp add: window_slot_valid_def MAX_WINDOWS_def v)
  then have f: "focus_window i v = (if g_active_slot v \<noteq> int i then draw_windows ?p else ?p)"
    using geo by (simp add: focus_window_def Let_def v)
  have "zstack (draw_windows ?p) = zstack ?p" using kept_draw [of ?p] by (simp add: kept_def zstack_def)
  with f p m kept_ok [OF kept_draw p] show "wins_ok (focus_window i v)" "i \<in> set (zstack (focus_window i v))" by simp_all
qed

lemma request_ok:
  assumes "wins_ok w"
  shows "wins_ok (request_new_window proc w)"
proof (cases "fb_available w")
  case True
  define v where "v = build_blank_snapshot (ensure_geometry w)"
  have kv: "kept w v" unfolding v_def by (rule kept_trans [OF kept_prepare(1) kept_prepare(2)])
  have v: "wins_ok v" by (rule kept_ok [OF kv assms])
  have geo: "g_geometry_ready v" "g_blank_ready v" "fb_available v"
    using True by (simp_all add: v_def ensure_geometry_def build_blank_snapshot_def Let_def)
  note o = wins_okD [OF v]
  show ?thesis
  proof (cases "find_window_index v proc \<ge> 0 \<or> g_window_count v \<ge> MAX_WINDOWS")
    case True
    then show ?thesis
      using \<open>fb_available w\<close> v activate_ok [OF v] focus_ok [OF v] kept_ok [OF kept_draw focus_ok [OF v]]
      by (auto simp: request_new_window_def v_def [symmetric] Let_def)
  next
    case False
    show ?thesis
    proof (cases "find (\<lambda>i. \<not> in_use (g_windows v ! i)) [0..<MAX_WINDOWS]")
      case None
      then have "request_new_window proc w = v"
        using \<open>fb_available w\<close> False by (simp add: request_new_window_def v_def [symmetric] allocate_window_slot_def Let_def)
      with v show ?thesis by simp
    next
      case (Some i)
      note i = find_Some_nth [OF this]
      have i8: "i < 8" "\<not> in_use (g_windows v ! i)" using i(1,2) by (simp_all add: MAX_WINDOWS_def)
      define u where "u = apply_visible_dimensions (of_nat VGA_WIDTH) (of_nat VGA_HEIGHT)
          (empty_window\<lparr>in_use := True, owner := proc, snapshot := g_blank_snapshot v, dirty := make_empty_dirty_region\<rparr>)"
      obtain x y where xy: "clamp_frame v (INITIAL_FRAME_X + of_nat (g_z_count v) * CASCADE_STEP_X)
          (INITIAL_FRAME_Y + of_nat (g_z_count v) * CASCADE_STEP_Y) (frame_width u) (frame_height u) = (x, y)" by fastforce
      have cf: "clamp_frame (v\<lparr>g_window_count := b, g_windows := a\<rparr>) = clamp_frame v" for a b
        by (intro ext) (simp add: clamp_frame_def)
      have r: "request_new_window proc w = focus_window i (v\<lparr>g_window_count := g_window_count v + 1,
          g_windows := (g_windows v)[i := u\<lparr>frame_x := x, frame_y := y\<rparr>]\<rparr>)"
        using \<open>fb_available w\<close> False i(1) i8 o(2) xy
        by (simp add: request_new_window_def v_def [symmetric] allocate_window_slot_def Some upd_window_def u_def cf Let_def)
      have du: "dims_ok u" "snapshot u = g_blank_snapshot v" "in_use u" "owner u = proc"
        using apply_dims unfolding u_def by simp_all
      have "win_ok (u\<lparr>frame_x := x, frame_y := y\<rparr>)" using du o(8) geo by (simp add: win_ok_def dims_ok_def)
      from open_window_ok(1) [OF v i8 _ this _ refl geo(1)] find_window_index_none [of v proc] False du(3,4)
      show ?thesis unfolding r by simp
    qed
  qed
qed (simp add: request_new_window_def assms)


lemma origin_kept: "kept w (set_active_window_origin proc x y w)"
proof -
  have m: "kept v (draw_windows (upd_window slot (\<lambda>window. window\<lparr>frame_x := a, frame_y := b\<rparr>) v))" for v slot a b
    by (intro kept_trans [OF kept_upd kept_draw]) (simp_all add: win_ok_def dims_ok_def)
  then show ?thesis
    using kept_trans [OF kept_prepare(1) m, of w] kept_prepare(1) [of w]
    by (simp add: set_active_window_origin_def Let_def split: prod.splits)
qed

lemma write_window_kept: "kept w (write_window slot proc text w)"
proof -
  let ?f = "\<lambda>window. case snapshot_write text (snapshot window,
       if s_cursor_active (snapshot window) then mark_row_dirty (s_cursor_row (snapshot window)) (dirty window) else dirty window) of
       (s, d) \<Rightarrow> window\<lparr>snapshot := s, dirty := mark_row_dirty (s_cursor_row s) d\<rparr>"
  have "kept w (upd_window slot ?f w)"
  proof (rule kept_upd)
    assume ok: "win_ok (g_windows w ! slot)"
    let ?n = "g_windows w ! slot"
    have "snap_ok (fst (snapshot_write text (snapshot ?n, d)))" for d
      using ok snapshot_write_tracked by (simp add: win_ok_def tracked_def)
    then show "win_ok (?f ?n)" using ok by (simp add: win_ok_def dims_ok_def case_prod_beta)
  qed (simp_all split: prod.splits)
  then show ?thesis
    using kept_trans [OF _ kept_present(2)] by (simp add: write_window_def Let_def)
qed

lemma write_text_ok:
  assumes "wins_ok w"
  shows "wins_ok (snd (write_text proc text (t, w)))"
proof -
  define v where "v = build_blank_snapshot (ensure_geometry w)"
  have v: "wins_ok v" unfolding v_def by (intro kept_ok [OF kept_prepare(2)] kept_ok [OF kept_prepare(1)] assms)
  note k = kept_ok [OF write_window_kept]
  show ?thesis
    using assms v k [OF v] k [OF request_ok [OF v]] request_ok [OF v]
    by (simp add: write_text_def v_def [symmetric] Let_def)
qed

lemma put_char_kept: "kept w (window_put_char proc x y ch color w)"
  unfolding window_put_char_def Let_def
  by (auto intro!: kept_upd simp: win_ok_def snap_ok_def dims_ok_def)

lemma set_cursor_kept: "kept w (window_set_cursor proc row column active w)"
  unfolding window_set_cursor_def
  by (auto intro!: kept_upd simp: Let_def win_ok_def snap_ok_def dims_ok_def vga_consts)

lemma resize_kept: "kept w (snd (update_resize cursor_x cursor_y w))"
proof -
  have m: "kept w (draw_windows (upd_window slot (\<lambda>window. (apply_visible_dimensions columns rows window)\<lparr>frame_x := a, frame_y := b,
      dirty := mark_full_dirty (dirty window)\<rparr>) w))" for slot columns rows a b
    by (intro kept_trans [OF kept_upd kept_draw]) (use apply_dims in \<open>simp_all add: win_ok_def dims_ok_def\<close>)
  show ?thesis using m by (simp add: update_resize_def Let_def split: prod.splits)
qed

lemma init_ok:
  assumes "g_blank_ready w \<Longrightarrow> snap_ok (g_blank_snapshot w)"
  shows "wins_ok (windows_init proc w)"
proof -
  have "wins_ok (reset_windows w)"
    using assms by (simp add: wins_ok_def reset_windows_def stop_dragging_def stop_resizing_def stack_ok_def zstack_def
        MAX_WINDOWS_def INVALID_SLOT_def)
  then have "wins_ok (build_blank_snapshot (ensure_geometry (reset_windows w)))"
    by (intro kept_ok [OF kept_prepare(2)] kept_ok [OF kept_prepare(1)])
  then show ?thesis by (simp add: windows_init_def request_ok Let_def)
qed

subsection \<open>Hit testing and frames on the screen\<close>

definition in_frame :: "wins \<Rightarrow> u32 \<Rightarrow> u32 \<Rightarrow> nat \<Rightarrow> bool" where
  "in_frame w x y slot \<longleftrightarrow> (let window = g_windows w ! slot in
     unat (frame_x window) \<le> unat x \<and> unat x < unat (frame_x window) + unat (frame_width window) \<and>
     unat (frame_y window) \<le> unat y \<and> unat y < unat (frame_y window) + unat (frame_height window))"

lemma in_interval_iff: "\<not> (v :: u32) < a \<and> \<not> v - a \<ge> e \<longleftrightarrow> unat a \<le> unat v \<and> unat v < unat a + unat e"
proof (cases "a \<le> v")
  case True
  then have "unat (v - a) = unat v - unat a" by (rule unat_sub)
  moreover have "unat a \<le> unat v" using True by (simp add: word_le_nat_alt)
  ultimately show ?thesis using True by (auto simp: word_le_nat_alt word_less_nat_alt)
qed (auto simp: word_le_nat_alt word_less_nat_alt)

lemma test_slot_iff:
  assumes "window_slot_valid w slot"
  shows "test_slot w x y slot \<noteq> None \<longleftrightarrow> in_frame w x y slot"
    "test_slot w x y slot = Some h \<Longrightarrow> hit_slot h = int slot"
proof -
  let ?n = "g_windows w ! slot"
  have "test_slot w x y slot \<noteq> None \<longleftrightarrow> \<not> x < frame_x ?n \<and> \<not> x - frame_x ?n \<ge> frame_width ?n \<and>
      \<not> y < frame_y ?n \<and> \<not> y - frame_y ?n \<ge> frame_height ?n"
    using assms by (auto simp: test_slot_def Let_def)
  then show "test_slot w x y slot \<noteq> None \<longleftrightarrow> in_frame w x y slot"
    using in_interval_iff [of x "frame_x ?n"] in_interval_iff [of y "frame_y ?n"] by (auto simp: in_frame_def Let_def)
  show "test_slot w x y slot = Some h \<Longrightarrow> hit_slot h = int slot"
    using assms by (auto simp: test_slot_def Let_def split: if_splits)
qed

lemma hit_test_stack_find:
  assumes "\<forall>s\<in>set slots. window_slot_valid w s \<and> int s \<noteq> g_active_slot w"
  shows "hit_slot (hit_test_stack w x y slots) = (case find (in_frame w x y) slots of Some s \<Rightarrow> int s | None \<Rightarrow> -1)"
  using assms
proof (induction slots)
  case (Cons s slots)
  then have "window_slot_valid w s" by simp
  note t = test_slot_iff [OF this, of x y]
  show ?case
  proof (cases "test_slot w x y s")
    case None
    with t(1) Cons show ?thesis by simp
  next
    case (Some h)
    with t Cons.prems show ?thesis by auto
  qed
qed (simp add: no_hit_def)

lemma hit_test_stack_skip:
  "hit_test_stack w x y (filter (\<lambda>s. int s \<noteq> g_active_slot w) slots) = hit_test_stack w x y slots"
  by (induction slots) (auto split: option.split)

lemma hit_test_topmost:
  assumes ok: "wins_ok w" and "fb_available w" "g_geometry_ready w"
  shows "hit_slot (hit_test_window w x y) = (case find (in_frame w x y) (rev (zstack w)) of Some s \<Rightarrow> int s | None \<Rightarrow> -1)"
proof (cases "zstack w = []")
  case True
  then have "g_z_count w = 0" using zstack_length [OF wins_okD(1) [OF ok]] by simp
  with True show ?thesis by (simp add: hit_test_window_def no_hit_def)
next
  case False
  note o = wins_okD [OF ok]
  obtain zs a where z: "zstack w = zs @ [a]" using False by (metis append_butlast_last_id)
  have act: "g_active_slot w = int a" using o(5) z by simp
  have v: "window_slot_valid w s" if "s \<in> set (zstack w)" for s
    using that o(3) by (simp add: window_slot_valid_def MAX_WINDOWS_def)
  have na: "a \<notin> set zs" using o(1) z by (simp add: stack_ok_def)
  then have f: "filter (\<lambda>s. int s \<noteq> g_active_slot w) (rev (zstack w)) = rev zs"
    using z act by (auto simp: filter_id_conv)
  have r: "hit_test_stack w x y (rev (zstack w)) = hit_test_stack w x y (rev zs)"
    using hit_test_stack_skip [of w x y "rev (zstack w)"] f by simp
  have rs: "hit_slot (hit_test_stack w x y (rev zs)) = (case find (in_frame w x y) (rev zs) of Some s \<Rightarrow> int s | None \<Rightarrow> -1)"
    by (rule hit_test_stack_find) (use v z na act in auto)
  have c: "g_z_count w \<noteq> 0" using zstack_length [OF o(1)] z by auto
  have h: "hit_test_window w x y = (case test_slot w x y a of Some hit \<Rightarrow> hit | None \<Rightarrow> hit_test_stack w x y (rev zs))"
    using assms(2,3) c act r by (simp add: hit_test_window_def zstack_def split: option.split)
  have "window_slot_valid w a" using v z by simp
  note t = test_slot_iff [OF this, of x y]
  show ?thesis
  proof (cases "test_slot w x y a")
    case None
    with t(1) h rs z show ?thesis by simp
  next
    case (Some i)
    with t h z show ?thesis by auto
  qed
qed

text \<open>Along one axis a frame that fits into the screen lies on it; one that is larger starts at its edge (and leaves it at
  the other side).\<close>

definition on_screen :: "u32 \<Rightarrow> u32 \<Rightarrow> u32 \<Rightarrow> bool" where
  "on_screen pos extent limit \<longleftrightarrow> (if extent \<le> limit then unat pos + unat extent \<le> unat limit else pos = 0)"

lemma clamp_axis_on_screen:
  assumes "unat pos + unat extent < 2 ^ 32"
  shows "on_screen (clamp_axis pos extent limit) extent limit"
proof -
  have s: "unat (pos + extent) = unat pos + unat extent" using assms by (simp add: unat_add_lem [THEN iffD1])
  show ?thesis
    using s by (auto simp: on_screen_def clamp_axis_def word_le_nat_alt word_less_nat_alt unat_sub)
qed


text \<open>Drawing changes nothing but the dirty regions.\<close>

definition same_frames :: "wins \<Rightarrow> wins \<Rightarrow> bool" where
  "same_frames w w' \<longleftrightarrow> fb_width w' = fb_width w \<and> fb_height w' = fb_height w \<and>
     (\<forall>i. (g_windows w' ! i)\<lparr>dirty := make_empty_dirty_region\<rparr> = (g_windows w ! i)\<lparr>dirty := make_empty_dirty_region\<rparr>)"

lemma same_frames_refl: "same_frames w w" and same_frames_trans: "same_frames w w' \<Longrightarrow> same_frames w' w'' \<Longrightarrow> same_frames w w''"
  by (simp_all add: same_frames_def)

lemma reset_dirty_frames: "same_frames w (reset_window_dirty slot w)"
  by (cases "slot < length (g_windows w)")
    (auto simp: same_frames_def reset_window_dirty_def upd_window_def nth_list_update list_update_beyond)

lemma fold_frames:
  assumes "\<And>i w. same_frames w (f i w)"
  shows "same_frames w (fold f is w)"
proof (induction "is" arbitrary: w)
  case (Cons i js)
  then show ?case using same_frames_trans [OF assms Cons.IH] by simp
qed (simp add: same_frames_refl)

lemma draw_frames: "same_frames w (draw_windows w)"
proof -
  define v where "v = fold draw_inactive [0..<g_z_count (ensure_geometry w)] (ensure_geometry w)"
  have g: "same_frames w (ensure_geometry w)" by (simp add: same_frames_def ensure_geometry_def)
  have "same_frames (ensure_geometry w) v"
    unfolding v_def by (rule fold_frames) (simp add: draw_inactive_def reset_dirty_frames same_frames_refl Let_def)
  with g have v: "same_frames w v" by (rule same_frames_trans)
  have "draw_windows w = (if \<not> fb_available w \<or> g_z_count w = 0 then w
      else if g_active_slot v \<ge> 0 \<and> window_slot_valid v (nat (g_active_slot v)) then reset_window_dirty (nat (g_active_slot v)) v else v)"
    by (simp add: draw_windows_def v_def Let_def)
  then show ?thesis using v same_frames_trans [OF v reset_dirty_frames] by (simp add: same_frames_refl)
qed

lemma draw_frame_fields:
  "frame_x (g_windows (draw_windows w) ! i) = frame_x (g_windows w ! i)" "frame_y (g_windows (draw_windows w) ! i) = frame_y (g_windows w ! i)"
  "frame_width (g_windows (draw_windows w) ! i) = frame_width (g_windows w ! i)"
  "frame_height (g_windows (draw_windows w) ! i) = frame_height (g_windows w ! i)"
proof -
  have e: "(g_windows (draw_windows w) ! i)\<lparr>dirty := make_empty_dirty_region\<rparr> = (g_windows w ! i)\<lparr>dirty := make_empty_dirty_region\<rparr>"
    using draw_frames [of w] by (simp add: same_frames_def)
  show "frame_x (g_windows (draw_windows w) ! i) = frame_x (g_windows w ! i)" "frame_y (g_windows (draw_windows w) ! i) = frame_y (g_windows w ! i)"
    "frame_width (g_windows (draw_windows w) ! i) = frame_width (g_windows w ! i)"
    "frame_height (g_windows (draw_windows w) ! i) = frame_height (g_windows w ! i)"
    using arg_cong [OF e, of frame_x] arg_cong [OF e, of frame_y] arg_cong [OF e, of frame_width] arg_cong [OF e, of frame_height]
    by simp_all
qed

lemma resize_axis_bounds:
  assumes "resize_axis lo hi a b delta m limit = (low, high, extent)" "a < 2 ^ 31" "b < 2 ^ 31" "limit < 2 ^ 31" "0 \<le> m" "m \<le> 1000"
  shows "low < 2 ^ 31" "high < 2 ^ 31 + 1000"
  using assms by (auto simp: resize_axis_def Let_def split: if_splits)

lemma proposed_cells_range:
  assumes "min_cells \<le> max_cells"
  shows "min_cells \<le> proposed_cells extent padding font min_cells max_cells limit"
    "proposed_cells extent padding font min_cells max_cells limit \<le> max_cells"
  using assms by (auto simp: proposed_cells_def clamp_u32_def Let_def not_less)

lemma unat_of_int_small:
  assumes "0 \<le> z" "z < 2 ^ 31"
  shows "unat (of_int z :: u32) < 2 ^ 31"
proof -
  have "uint (of_int z :: u32) = z" using assms by (simp add: uint_word_of_int)
  with assms show ?thesis by (simp add: unat_eq_nat_uint)
qed

lemma resize_origin_room:
  assumes "low < 2 ^ 31" "high < 2 ^ 31 + 1000" "unat extent < 2 ^ 31"
  shows "unat (resize_origin lo hi low high extent) + unat extent < 2 ^ 32"
proof (cases "lo \<and> \<not> hi")
  case True
  define anchor :: u32 where "anchor = (if high < 0 then 0 else of_int high)"
  have r: "resize_origin lo hi low high extent = (if anchor < extent then 0 else anchor - extent)"
    using True by (simp add: resize_origin_def anchor_def Let_def)
  show ?thesis
  proof (cases "anchor < extent")
    case False
    then have "unat (anchor - extent) = unat anchor - unat extent" by (simp add: unat_sub not_less)
    moreover have "unat anchor < 2 ^ 32" using unsigned_less [of anchor, where 'a = nat] by simp
    ultimately show ?thesis using False by (simp add: r word_le_nat_alt not_less)
  qed (use assms(3) in \<open>simp add: r\<close>)
next
  case False
  with unat_of_int_small [OF _ assms(1)] assms(3) show ?thesis by (auto simp: resize_origin_def)
qed


text \<open>The frame of a window in use is never larger than 668 by 440 pixels.\<close>

lemma dims_extent:
  assumes "dims_ok n"
  shows "unat (frame_width n) < 2 ^ 31" "unat (frame_height n) < 2 ^ 31"
    "unat (frame_width n) \<le> 668" "unat (frame_height n) \<le> 440"
proof -
  have "unat (visible_columns n) \<le> 80" "unat (visible_rows n) \<le> 25" using assms by (simp_all add: dims_ok_def word_le_nat_alt)
  then have "unat (visible_columns n * 8 + 28) \<le> 668" "unat (visible_rows n * 16 + 40) \<le> 440"
    by (simp_all add: unat_word_ariths)
  then show "unat (frame_width n) \<le> 668" "unat (frame_height n) \<le> 440"
    and "unat (frame_width n) < 2 ^ 31" "unat (frame_height n) < 2 ^ 31" using assms by (simp_all add: dims_ok_def)
qed

lemma clamp_frame_on_screen:
  assumes "clamp_frame w x y wd ht = (a, b)" "unat x + unat wd < 2 ^ 32" "unat y + unat ht < 2 ^ 32"
  shows "on_screen a wd (fb_width w)" "on_screen b ht (fb_height w)"
proof -
  have z: "on_screen 0 e l" for e l by (simp add: on_screen_def word_le_nat_alt)
  show "on_screen a wd (fb_width w)" "on_screen b ht (fb_height w)"
    using assms(1) clamp_axis_on_screen [OF assms(2), of "fb_width w"] clamp_axis_on_screen [OF assms(3), of "fb_height w"] z
    by (auto simp: clamp_frame_def split: if_splits)
qed

lemma sint_less_31: "sint (x :: u32) < 2 ^ 31"
  using sint_lt [of x] by simp

lemma update_resize_effect:
  assumes ok: "wins_ok w" and r: "update_resize cx cy w = (True, w')"
  defines "n \<equiv> g_windows w' ! nat (g_resize_slot w)"
  shows "dims_ok n" "on_screen (frame_x n) (frame_width n) (fb_width w)" "on_screen (frame_y n) (frame_height n) (fb_height w)"
proof -
  let ?s = "nat (g_resize_slot w)"
  have v: "window_slot_valid w ?s" using r by (simp add: update_resize_def split: if_splits)
  have s8: "?s < length (g_windows w)" using v wins_okD(2) [OF ok] by (simp add: window_slot_valid_def MAX_WINDOWS_def)
  obtain left right width where ax: "resize_axis (has_edge w RESIZE_EDGE_LEFT) (has_edge w RESIZE_EDGE_RIGHT)
               (sint (g_resize_start_frame_x w)) (sint (g_resize_start_frame_x w + g_resize_start_frame_width w))
               (sint cx - g_resize_start_cursor_x w) (sint (MIN_VISIBLE_COLUMNS * FONT_WIDTH + content_padding_width)) (sint (fb_width w)) = (left, right, width)"
    using prod_cases3 by blast
  obtain top bottom height where ay: "resize_axis (has_edge w RESIZE_EDGE_TOP) (has_edge w RESIZE_EDGE_BOTTOM)
               (sint (g_resize_start_frame_y w)) (sint (g_resize_start_frame_y w + g_resize_start_frame_height w))
               (sint cy - g_resize_start_cursor_y w) (sint (MIN_VISIBLE_ROWS * FONT_HEIGHT + content_padding_height)) (sint (fb_height w)) = (top, bottom, height)"
    using prod_cases3 by blast
  define columns where "columns = proposed_cells width content_padding_width FONT_WIDTH MIN_VISIBLE_COLUMNS (of_nat VGA_WIDTH) (fb_width w)"
  define rows where "rows = proposed_cells height content_padding_height FONT_HEIGHT MIN_VISIBLE_ROWS (of_nat VGA_HEIGHT) (fb_height w)"
  let ?wd = "columns * FONT_WIDTH + content_padding_width" and ?ht = "rows * FONT_HEIGHT + content_padding_height"
  obtain x y where xy: "clamp_frame w (resize_origin (has_edge w RESIZE_EDGE_LEFT) (has_edge w RESIZE_EDGE_RIGHT) left right ?wd)
     (resize_origin (has_edge w RESIZE_EDGE_TOP) (has_edge w RESIZE_EDGE_BOTTOM) top bottom ?ht) ?wd ?ht = (x, y)" by fastforce
  have w': "w' = draw_windows (upd_window ?s (\<lambda>window. (apply_visible_dimensions columns rows window)\<lparr>frame_x := x, frame_y := y,
      dirty := mark_full_dirty (dirty window)\<rparr>) w)"
    using r v ax ay xy by (simp add: update_resize_def Let_def columns_def rows_def split: if_splits)
  have range: "24 \<le> columns" "columns \<le> 80" "12 \<le> rows" "rows \<le> 25"
    using proposed_cells_range [of MIN_VISIBLE_COLUMNS "of_nat VGA_WIDTH"] proposed_cells_range [of MIN_VISIBLE_ROWS "of_nat VGA_HEIGHT"]
    by (simp_all add: columns_def rows_def MIN_VISIBLE_COLUMNS_def MIN_VISIBLE_ROWS_def vga_consts)
  let ?n = "apply_visible_dimensions columns rows (g_windows w ! ?s)"
  have dn: "dims_ok ?n" by (rule apply_dims)
  have wd: "frame_width ?n = ?wd" "frame_height ?n = ?ht"
    using range [folded not_less] by (simp_all add: apply_visible_dimensions_def clamp_u32_def MIN_VISIBLE_COLUMNS_def MIN_VISIBLE_ROWS_def vga_consts Let_def)
  have mins: "0 \<le> sint (MIN_VISIBLE_COLUMNS * FONT_WIDTH + content_padding_width)" "sint (MIN_VISIBLE_COLUMNS * FONT_WIDTH + content_padding_width) \<le> 1000"
     "0 \<le> sint (MIN_VISIBLE_ROWS * FONT_HEIGHT + content_padding_height)" "sint (MIN_VISIBLE_ROWS * FONT_HEIGHT + content_padding_height) \<le> 1000"
    by (simp_all add: MIN_VISIBLE_COLUMNS_def MIN_VISIBLE_ROWS_def FONT_WIDTH_def FONT_HEIGHT_def content_padding_width_def content_padding_height_def
        FRAME_BORDER_def CONTENT_PADDING_X_def TITLE_BAR_HEIGHT_def CONTENT_PADDING_BOTTOM_def)
  note bx = resize_axis_bounds [OF ax sint_less_31 sint_less_31 sint_less_31 mins(1,2)]
  note byy = resize_axis_bounds [OF ay sint_less_31 sint_less_31 sint_less_31 mins(3,4)]
  note scr = clamp_frame_on_screen [OF xy resize_origin_room [OF bx dims_extent(1) [OF dn, unfolded wd]]
      resize_origin_room [OF byy dims_extent(2) [OF dn, unfolded wd]]]
  have f: "frame_x n = x" "frame_y n = y" "frame_width n = ?wd" "frame_height n = ?ht"
    using s8 wd unfolding n_def w' draw_frame_fields by (simp_all add: upd_window_def)
  show "on_screen (frame_x n) (frame_width n) (fb_width w)" "on_screen (frame_y n) (frame_height n) (fb_height w)"
    using scr unfolding f by simp_all
  have k: "kept w w'" using resize_kept [of w cx cy] r by simp
  have "?s < 8" "in_use (g_windows w ! ?s)" using v by (simp_all add: window_slot_valid_def MAX_WINDOWS_def)
  with wins_okD(6) [OF kept_ok [OF k ok]] k show "dims_ok n" by (simp add: n_def win_ok_def kept_def)
qed


lemma origin_effect:
  assumes ok: "wins_ok w" and fb: "fb_available w" and s: "find_window_index w proc \<ge> 0" and x: "x < 2 ^ 31" "y < 2 ^ 31"
  defines "n \<equiv> g_windows (set_active_window_origin proc x y w) ! nat (find_window_index w proc)"
  shows "on_screen (frame_x n) (frame_width n) (fb_width w)" "on_screen (frame_y n) (frame_height n) (fb_height w)"
proof -
  define v where "v = ensure_geometry w"
  have v: "g_windows v = g_windows w" "find_window_index v proc = find_window_index w proc" "fb_width v = fb_width w" "fb_height v = fb_height w"
    by (simp_all add: v_def ensure_geometry_def find_window_index_def window_slot_valid_def)
  let ?s = "nat (find_window_index w proc)"
  note fw = find_window_index_spec [OF s]
  let ?n = "g_windows w ! ?s"
  have dn: "dims_ok ?n" using wins_okD(6) [OF ok] fw by (simp add: win_ok_def)
  have len: "?s < length (g_windows w)" using fw wins_okD(2) [OF ok] by simp
  define dx :: u32 where "dx = (if x < 0 then 0 else of_int x)"
  define dy :: u32 where "dy = (if y < 0 then 0 else of_int y)"
  define fx where "fx = (if dx > g_content_offset_x v then dx - g_content_offset_x v else 0)"
  define fy where "fy = (if dy > g_content_offset_y v then dy - g_content_offset_y v else 0)"
  have small: "unat (if z < 0 then 0 else of_int z :: u32) < 2 ^ 31" if "z < 2 ^ 31" for z :: int
    using unat_of_int_small [OF _ that] by simp
  have le: "unat (if d > k then d - k else 0 :: u32) \<le> unat d" for d k :: u32 by (simp add: unat_sub)
  have f31: "unat fx < 2 ^ 31" "unat fy < 2 ^ 31"
    using le [of "g_content_offset_x v" dx] le [of "g_content_offset_y v" dy] small [OF x(1)] small [OF x(2)]
    unfolding fx_def fy_def dx_def dy_def by linarith+
  obtain a b where ab: "clamp_frame v fx fy (frame_width ?n) (frame_height ?n) = (a, b)" by fastforce
  have scr: "on_screen a (frame_width ?n) (fb_width w)" "on_screen b (frame_height ?n) (fb_height w)"
    using clamp_frame_on_screen [OF ab] f31 dims_extent [OF dn] v by simp_all
  have c: "\<not> (proc = 0 \<or> \<not> fb_available w)" "\<not> find_window_index w proc < 0" using fb fw(1) s by auto
  have "set_active_window_origin proc x y w = draw_windows (upd_window ?s (\<lambda>window. window\<lparr>frame_x := a, frame_y := b\<rparr>) v)"
    using ab unfolding set_active_window_origin_def Let_def v_def [symmetric] fx_def fy_def dx_def dy_def v
    by (simp only: c if_False prod.case)
  then have "frame_x n = a" "frame_y n = b" "frame_width n = frame_width ?n" "frame_height n = frame_height ?n"
    using len v by (simp_all add: n_def draw_frame_fields upd_window_def)
  with scr show "on_screen (frame_x n) (frame_width n) (fb_width w)" "on_screen (frame_y n) (frame_height n) (fb_height w)" by simp_all
qed

subsection \<open>Properties\<close>

text \<open>The states that the window manager reaches from its initialisation, by the calls of the kernel and of programs. The
  requests of the mouse are composed of these.\<close>

inductive windows_reach :: "wins \<Rightarrow> bool" where
  init: "\<not> g_blank_ready w \<Longrightarrow> windows_reach (windows_init proc w)"
| request: "windows_reach w \<Longrightarrow> windows_reach (request_new_window proc w)"
| activate: "windows_reach w \<Longrightarrow> windows_reach (activate_process proc w)"
| focus: "windows_reach w \<Longrightarrow> windows_reach (focus_window slot w)"
| close: "windows_reach w \<Longrightarrow> windows_reach (close_window_slot slot w)"
| exit: "windows_reach w \<Longrightarrow> windows_reach (on_process_exit proc w)"
| origin: "windows_reach w \<Longrightarrow> windows_reach (set_active_window_origin proc x y w)"
| print_text: "windows_reach w \<Longrightarrow> windows_reach (snd (write_text proc str (t, w)))"
| put_char: "windows_reach w \<Longrightarrow> windows_reach (window_put_char proc cx cy ch color w)"
| cursor: "windows_reach w \<Longrightarrow> windows_reach (window_set_cursor proc row column active w)"
| present: "windows_reach w \<Longrightarrow> windows_reach (window_present proc w)"
| draw: "windows_reach w \<Longrightarrow> windows_reach (draw_workspace w)"
| begin_resize: "windows_reach w \<Longrightarrow> windows_reach (begin_resize slot edges x y w)"
| resize: "windows_reach w \<Longrightarrow> windows_reach (snd (update_resize x y w))"
| stop_drag: "windows_reach w \<Longrightarrow> windows_reach (stop_dragging w)"
| stop_resize: "windows_reach w \<Longrightarrow> windows_reach (stop_resizing w)"

lemma windows_reach_ok: "windows_reach w \<Longrightarrow> wins_ok w"
proof (induction rule: windows_reach.induct)
  case (init w proc)
  then show ?case using init_ok [of w proc] by simp
next
  case (exit w proc)
  then show ?case by (simp add: on_process_exit_def close_ok Let_def)
qed (simp_all add: request_ok activate_ok focus_ok close_ok write_text_ok kept_ok [OF origin_kept] kept_ok [OF put_char_kept]
    kept_ok [OF set_cursor_kept] kept_ok [OF kept_present(2)] kept_ok [OF kept_present(3)] kept_ok [OF stops(1)] kept_ok [OF stops(2)]
    kept_ok [OF stops(3)] kept_ok [OF resize_kept])


text \<open>C9. In every reachable state the stack of windows lists exactly the slots in use, each once; the counter of
  windows agrees with it; the active window is the top of the stack (or there is none); no process owns two windows; and every
  window in use shows between 24 by 12 and 80 by 25 characters, in a frame of the matching size, with its cursor and write
  position inside the text.\<close>

theorem windows_invariant:
  assumes "windows_reach w"
  shows "distinct (zstack w) \<and> set (zstack w) = {i. i < 8 \<and> in_use (g_windows w ! i)} \<and> g_window_count w = length (zstack w) \<and>
    g_active_slot w = (if zstack w = [] then -1 else int (last (zstack w))) \<and>
    (\<forall>i j. i < 8 \<and> j < 8 \<and> in_use (g_windows w ! i) \<and> in_use (g_windows w ! j) \<and> owner (g_windows w ! i) \<noteq> 0 \<and>
       owner (g_windows w ! i) = owner (g_windows w ! j) \<longrightarrow> i = j) \<and>
    (\<forall>i. i < 8 \<and> in_use (g_windows w ! i) \<longrightarrow> dims_ok (g_windows w ! i) \<and> snap_ok (snapshot (g_windows w ! i)))"
proof -
  note o = wins_okD [OF windows_reach_ok [OF assms]]
  have "distinct (zstack w)" "g_window_count w = length (zstack w)"
    using o(1,4) zstack_length by (simp_all add: stack_ok_def)
  then show ?thesis using o by (auto simp: win_ok_def)
qed

definition raw_wins :: wins where
  "raw_wins = \<lparr>fb_available = True, fb_width = 1024, fb_height = 768, g_windows = replicate 8 empty_window, g_window_count = 0,
     g_active_slot = -1, g_z_order = replicate 8 0, g_z_count = 0, g_content_offset_x = 0, g_content_offset_y = 0,
     g_geometry_ready = False, g_blank_snapshot = zero_snapshot, g_blank_ready = False, g_dragging_window = False, g_drag_slot = -1,
     g_drag_offset_x = 0, g_drag_offset_y = 0, g_resizing_window = False, g_resize_slot = -1, g_resize_edges = 0,
     g_resize_start_cursor_x = 0, g_resize_start_cursor_y = 0, g_resize_start_frame_x = 0, g_resize_start_frame_y = 0,
     g_resize_start_frame_width = 0, g_resize_start_frame_height = 0\<rparr>"

definition two_windows :: wins where
  "two_windows = request_new_window 0x2000 (windows_init 0x1000 raw_wins)"

lemma two_windows_reach: "windows_reach two_windows"
  unfolding two_windows_def by (intro windows_reach.request windows_reach.init) (simp add: raw_wins_def)

lemmas windows_eval = windows_init_def reset_windows_def stop_dragging_def stop_resizing_def ensure_geometry_def build_blank_snapshot_def
  request_new_window_def find_window_index_def window_slot_valid_def allocate_window_slot_def upd_window_def clamp_frame_def clamp_axis_def
  apply_visible_dimensions_def clamp_u32_def focus_window_def push_slot_to_top_def find_stack_position_def draw_windows_def draw_inactive_def
  reset_window_dirty_def MAX_WINDOWS_def INVALID_SLOT_def FRAME_BORDER_def CONTENT_PADDING_X_def TITLE_BAR_HEIGHT_def CONTENT_PADDING_BOTTOM_def
  FONT_WIDTH_def FONT_HEIGHT_def MIN_VISIBLE_COLUMNS_def MIN_VISIBLE_ROWS_def INITIAL_FRAME_X_def INITIAL_FRAME_Y_def CASCADE_STEP_X_def
  CASCADE_STEP_Y_def content_padding_width_def content_padding_height_def vga_consts

lemma upt8: "[0..<8] = [0, 1, 2, 3, 4, 5, 6, 7]"
  by (simp add: upt_rec)

lemma replicate8: "replicate 8 x = [x, x, x, x, x, x, x, x]"
  by (simp add: numeral_eq_Suc)

lemma two_windows_eval:
  "zstack two_windows = [0, 1]" "fb_available two_windows" "g_geometry_ready two_windows" "find_window_index two_windows 0x2000 = 1"
  "in_frame two_windows 100 200 1" "in_frame two_windows 60 80 0" "\<not> in_frame two_windows 60 80 1" "fb_width two_windows = 1024"
  by (simp_all add: two_windows_def windows_eval raw_wins_def empty_window_def upt8 replicate8 zstack_def in_frame_def Let_def)

theorem windows_invariant_witness:
  "windows_reach two_windows \<and> zstack two_windows = [0, 1] \<and> g_active_slot two_windows = 1"
  using windows_invariant [OF two_windows_reach] two_windows_reach two_windows_eval(1) by simp

text \<open>Writing text to a window keeps its snapshot well formed, whatever the text, and the dirty region afterwards
  covers every row that it covered before and every row that the text changed: the next presentation repaints all of them.\<close>

theorem window_text_tracked:
  assumes "snap_ok s" "snapshot_write cs (s, d) = (s', d')"
  shows "snap_ok s' \<and> (\<forall>y<25. covers d y \<or> characters s ! y \<noteq> characters s' ! y \<or> colors s ! y \<noteq> colors s' ! y \<longrightarrow> covers d' y)"
  using snapshot_write_tracked [OF assms(1), of d cs] assms(2) by (auto simp: tracked_def same_row_def)

theorem window_text_tracked_witness:
  "covers (snd (snapshot_write [0x41, 0x0A, 0x42] (zero_snapshot, make_empty_dirty_region))) 1"
proof -
  obtain s' d' where w: "snapshot_write [0x41, 0x0A, 0x42] (zero_snapshot, make_empty_dirty_region) = (s', d')" by fastforce
  have "characters (fst (snapshot_write [0x41, 0x0A, 0x42] (zero_snapshot, make_empty_dirty_region))) ! 1 \<noteq> characters zero_snapshot ! 1"
    by code_simp
  moreover have "snap_ok zero_snapshot" by (simp add: zero_snapshot_def blank_snap_ok)
  ultimately show ?thesis using window_text_tracked [OF _ w] w by simp
qed

text \<open>C10. A window's text follows the console: as long as a text has no carriage return, writing it to a snapshot that
  shows what a console shows gives a snapshot that shows what the console shows after writing the same text.\<close>

theorem window_console_equiv:
  assumes "displays t s" "term_ok t" "snap_ok s" "0x0D \<notin> set cs"
  shows "displays (fold term_putchar cs t) (fst (snapshot_write cs (s, d)))"
  using assms
proof (induction cs arbitrary: t s d)
  case (Cons c cs)
  obtain s1 d1 where sd: "snapshot_put_char c (s, d) = (s1, d1)" by fastforce
  have "snap_ok s1" using put_char_tracked [OF Cons.prems(3), of d c] sd by (simp add: tracked_def)
  moreover have "displays (term_putchar c t) s1" using displays_putchar [of t s c d] Cons.prems sd by simp
  ultimately show ?case using Cons.IH [of "term_putchar c t" s1 d1] Cons.prems term_putchar_ok [of t c] sd by (simp add: snapshot_write_def)
qed (simp add: snapshot_write_def)

lemma console_displays_blank:
  "displays (term_initialize True raw_terminal) (g_blank_snapshot (build_blank_snapshot raw_wins))"
proof -
  have l: "length (vga_buffer raw_terminal) = 2000" by (simp add: raw_terminal_def)
  note t = term_initialize_spec [OF l, where fb = True]
  have "t_row (term_initialize True raw_terminal) = 0" "t_column (term_initialize True raw_terminal) = 0"
    using t(2) by (simp_all add: position_def)
  with t(3,4) show ?thesis by (simp add: displays_def build_blank_snapshot_def raw_wins_def make_color_def vga_consts Let_def)
qed

theorem window_console_equiv_witness:
  "displays (fold term_putchar [0x41, 0x0A, 0x42, 0x08] (term_initialize True raw_terminal))
     (fst (snapshot_write [0x41, 0x0A, 0x42, 0x08] (g_blank_snapshot (build_blank_snapshot raw_wins), make_empty_dirty_region)))"
  by (rule window_console_equiv [OF console_displays_blank raw_terminal_init(2)])
    (simp_all add: build_blank_snapshot_def raw_wins_def blank_snap_ok Let_def)

text \<open>C11. In a well-formed window table a click goes to the topmost window whose frame contains the point, and to no
  window when none does.\<close>

theorem hit_test_correct:
  assumes "windows_reach w" "fb_available w" "g_geometry_ready w"
  shows "hit_slot (hit_test_window w x y) = (case find (in_frame w x y) (rev (zstack w)) of Some s \<Rightarrow> int s | None \<Rightarrow> -1)"
  by (rule hit_test_topmost [OF windows_reach_ok [OF assms(1)] assms(2,3)])

theorem hit_test_correct_witness:
  "hit_slot (hit_test_window two_windows 100 200) = 1 \<and> hit_slot (hit_test_window two_windows 60 80) = 0"
  using hit_test_correct [OF two_windows_reach two_windows_eval(2,3), of 100 200]
    hit_test_correct [OF two_windows_reach two_windows_eval(2,3), of 60 80] two_windows_eval by simp

end
