(* ===== verification/Scheduler.thy ===== *)
theory Scheduler
  imports Heap Process Windows
begin

text \<open>
  The scheduler, \<^verbatim>\<open>src/kernel/scheduler.cpp\<close>, and the operations of \<^verbatim>\<open>src/kernel/process.cpp\<close> that work on the table of
  processes. A \<open>Process*\<close> is an address; \<open>procs\<close> holds the objects, \<open>0\<close> is \<open>NULL\<close>. A \<open>registers_t*\<close> is the address of an
  interrupt frame in \<open>frames\<close>. \<open>g_next_context\<close> holds the process whose context is meant. A \<open>PANIC\<close> is an error value.
  Ticket sums are integers: the \<open>int\<close> of the code holds them as long as they stay below \<open>2 ^ 31\<close>.
\<close>

subsection \<open>State\<close>

record registers =
  r_eip :: u32
  r_esp :: u32
  r_ebp :: u32
  r_eax :: u32
  r_ebx :: u32
  r_ecx :: u32
  r_edx :: u32
  r_esi :: u32
  r_edi :: u32
  r_eflags :: u32

datatype panic = PANIC string

definition MAX_PROCESSES :: nat where "MAX_PROCESSES = 32"

definition SCHEDULER_QUANTUM_TICKS :: int where "SCHEDULER_QUANTUM_TICKS = 10"

text \<open>\<open>sizeof(Process)\<close> on the target, and the address of the assembly routine that completes a switch.\<close>

definition SIZEOF_PROCESS :: u32 where "SIZEOF_PROCESS = 3280"

record sched =
  procs :: "addr \<Rightarrow> Process"
  process_table :: "addr list"
  process_count :: int
  current_process_idx :: int
  xorshift32_state :: u32
  quantum_counter :: int
  last_regs :: addr
  g_next_context :: addr
  foreground_proc :: addr
  foreground_stack :: "addr list"
  foreground_stack_top :: int
  next_pid :: int
  frames :: "addr \<Rightarrow> registers"
  kheap :: heap
  windows :: wins
  switch_to_trampoline :: u32

definition upd_proc :: "addr \<Rightarrow> (Process \<Rightarrow> Process) \<Rightarrow> sched \<Rightarrow> sched" where
  "upd_proc p f s = s\<lparr>procs := (procs s)(p := f (procs s p))\<rparr>"

subsection \<open>The table of processes\<close>

definition scheduler_init :: "sched \<Rightarrow> sched" where
  "scheduler_init s = s\<lparr>process_count := 0, current_process_idx := -1, process_table := replicate MAX_PROCESSES 0,
     foreground_proc := 0, foreground_stack_top := -1, foreground_stack := replicate MAX_PROCESSES 0\<rparr>"

definition scheduler_add_process :: "addr \<Rightarrow> sched \<Rightarrow> int \<times> sched" where
  "scheduler_add_process proc s =
     (if process_count s \<ge> int MAX_PROCESSES then (-1, s)
      else case find (\<lambda>i. process_table s ! i = 0) [0..<MAX_PROCESSES] of
             None \<Rightarrow> (-1, s)
           | Some i \<Rightarrow>
               let s = s\<lparr>process_table := (process_table s)[i := proc], process_count := process_count s + 1\<rparr>;
                   s = (if current_process_idx s = -1 then s\<lparr>current_process_idx := int i\<rparr> else s);
                   s = (if tickets (procs s proc) \<le> 0 then upd_proc proc (\<lambda>p. p\<lparr>tickets := 1\<rparr>) s else s)
               in (0, s))"

definition xorshift32 :: "sched \<Rightarrow> u32 \<times> sched" where
  "xorshift32 s =
     (let x = xorshift32_state s;
          x = x XOR push_bit 13 x;
          x = x XOR drop_bit 17 x;
          x = x XOR push_bit 5 x
      in (x, s\<lparr>xorshift32_state := x\<rparr>))"

text \<open>The two loops of a lottery over the entries of the table that satisfy \<open>P\<close>: the sum of their tickets, and the first
  entry at which the running count exceeds the winning ticket.\<close>

fun total_tickets :: "sched \<Rightarrow> (Process \<Rightarrow> bool) \<Rightarrow> nat list \<Rightarrow> int" where
  "total_tickets s P [] = 0"
| "total_tickets s P (i # is) =
     (let proc = process_table s ! i
      in (if proc \<noteq> 0 \<and> P (procs s proc) then tickets (procs s proc) else 0) + total_tickets s P is)"

fun draw_winner :: "sched \<Rightarrow> (Process \<Rightarrow> bool) \<Rightarrow> int \<Rightarrow> int \<Rightarrow> nat list \<Rightarrow> nat option" where
  "draw_winner s P winner count [] = None"
| "draw_winner s P winner count (i # is) =
     (let proc = process_table s ! i
      in if proc \<noteq> 0 \<and> P (procs s proc)
         then (if winner < count + tickets (procs s proc) then Some i
               else draw_winner s P winner (count + tickets (procs s proc)) is)
         else draw_winner s P winner count is)"

text \<open>\<open>xorshift32() % total_tickets\<close>, an unsigned operation whose result is stored in an \<open>int\<close>.\<close>

definition lottery :: "(Process \<Rightarrow> bool) \<Rightarrow> sched \<Rightarrow> addr \<times> sched" where
  "lottery P s =
     (case xorshift32 s of (x, s) \<Rightarrow>
        case draw_winner s P (sint (x mod of_int (total_tickets s P [0..<MAX_PROCESSES]))) 0 [0..<MAX_PROCESSES] of
          Some i \<Rightarrow> (process_table s ! i, s\<lparr>current_process_idx := int i\<rparr>)
        | None \<Rightarrow> (0, s))"

definition runnable :: "Process \<Rightarrow> bool" where
  "runnable proc \<longleftrightarrow> alive proc \<noteq> 0 \<and> hook_count proc = 0"

definition scheduler_next_process :: "sched \<Rightarrow> addr \<times> sched" where
  "scheduler_next_process s =
     (if process_count s = 0 then (0, s)
      else if total_tickets s runnable [0..<MAX_PROCESSES] = 0 then (0, s)
      else lottery runnable s)"

definition scheduler_remove_process :: "int \<Rightarrow> sched \<Rightarrow> int \<times> sched" where
  "scheduler_remove_process p_id s =
     (case find (\<lambda>i. process_table s ! i \<noteq> 0 \<and> pid (procs s (process_table s ! i)) = p_id) [0..<MAX_PROCESSES] of
        None \<Rightarrow> (-1, s)
      | Some i \<Rightarrow>
          let s = s\<lparr>process_table := (process_table s)[i := 0], process_count := process_count s - 1\<rparr>
          in (0, if current_process_idx s = int i then snd (scheduler_next_process s) else s))"

definition process_is_eligible :: "HookType \<Rightarrow> u64 \<Rightarrow> Process \<Rightarrow> bool" where
  "process_is_eligible ev_type ev_value proc \<longleftrightarrow>
     (if alive proc = 0 then False
      else if hook_count proc = 0 then True
      else list_ex (\<lambda>i. hook_type (hooks proc ! i) = ev_type \<and> trigger_value (hooks proc ! i) = ev_value)
             [0..<nat (hook_count proc)])"

definition scheduler_next_eligible_process :: "HookType \<Rightarrow> u64 \<Rightarrow> sched \<Rightarrow> addr \<times> sched" where
  "scheduler_next_eligible_process ev_type ev_value s =
     (let P = (\<lambda>proc. alive proc \<noteq> 0 \<and> process_is_eligible ev_type ev_value proc)
      in if process_count s = 0 then (0, s)
         else if total_tickets s P [0..<MAX_PROCESSES] = 0 then (0, s)
         else lottery P s)"

definition scheduler_current_process :: "sched \<Rightarrow> addr" where
  "scheduler_current_process s =
     (if current_process_idx s < 0 \<or> current_process_idx s \<ge> int MAX_PROCESSES then 0
      else process_table s ! nat (current_process_idx s))"

subsection \<open>Events and the foreground\<close>

definition resume_slot :: "HookType \<Rightarrow> u64 \<Rightarrow> nat \<Rightarrow> sched \<Rightarrow> sched" where
  "resume_slot ev_type ev_value i s =
     (let proc = process_table s ! i
      in if proc \<noteq> 0 \<and> process_has_matching_hook (procs s proc) ev_type ev_value
         then upd_proc proc (\<lambda>p. remove_matching_hooks p ev_type ev_value) s else s)"

definition scheduler_resume_processes_for_event :: "HookType \<Rightarrow> u64 \<Rightarrow> sched \<Rightarrow> sched" where
  "scheduler_resume_processes_for_event ev_type ev_value s =
     fold (resume_slot ev_type ev_value) [0..<MAX_PROCESSES] s"

definition dispatch_focus_event :: "addr \<Rightarrow> int \<Rightarrow> int \<Rightarrow> sched \<Rightarrow> sched" where
  "dispatch_focus_event proc code value s =
     (if proc = 0 \<or> alive (procs s proc) = 0 then s
      else scheduler_resume_processes_for_event SIGNAL (of_int (pid (procs s proc)))
             (upd_proc proc (push_io_event (EVENT_PROCESS code value)) s))"

definition activate :: "addr \<Rightarrow> sched \<Rightarrow> sched" where
  "activate proc s = s\<lparr>windows := activate_process proc (windows s)\<rparr>"

definition scheduler_switch_foreground :: "addr \<Rightarrow> addr \<Rightarrow> sched \<Rightarrow> sched" where
  "scheduler_switch_foreground prev target s =
     (if prev = target then (if target \<noteq> 0 then activate target s else s)
      else let s = s\<lparr>foreground_proc := target\<rparr>;
               s = (if prev \<noteq> 0 then dispatch_focus_event prev PROCESS_EVENT_FOCUS_LOST
                      (if target \<noteq> 0 then pid (procs s target) else -1) s else s);
               s = (if target \<noteq> 0 then dispatch_focus_event target PROCESS_EVENT_FOCUS_GAINED (pid (procs s target)) s else s)
           in activate target s)"

definition scheduler_set_foreground :: "addr \<Rightarrow> sched \<Rightarrow> sched" where
  "scheduler_set_foreground proc s =
     (if foreground_proc s = proc then s
      else let previous = foreground_proc s;
               s = (if previous \<noteq> 0 \<and> foreground_stack_top s + 1 < int MAX_PROCESSES
                    then s\<lparr>foreground_stack_top := foreground_stack_top s + 1,
                           foreground_stack := (foreground_stack s)[nat (foreground_stack_top s + 1) := previous]\<rparr>
                    else s)
           in scheduler_switch_foreground previous proc s)"

definition scheduler_get_foreground :: "sched \<Rightarrow> addr" where
  "scheduler_get_foreground s = foreground_proc s"

definition scheduler_restore_foreground :: "addr \<Rightarrow> sched \<Rightarrow> sched" where
  "scheduler_restore_foreground own s =
     (if own \<noteq> 0 \<and> own \<noteq> foreground_proc s then s
      else let previous = foreground_proc s;
               (target, s) = (if foreground_stack_top s \<ge> 0
                              then (foreground_stack s ! nat (foreground_stack_top s),
                                    s\<lparr>foreground_stack_top := foreground_stack_top s - 1\<rparr>)
                              else (0, s));
               s = (if target \<noteq> 0 \<and> alive (procs s target) \<noteq> 0 then upd_proc target (\<lambda>p. p\<lparr>hook_count := 0\<rparr>) s else s)
           in scheduler_switch_foreground previous target s)"

subsection \<open>Context switches\<close>

definition save_context :: "registers \<Rightarrow> Process \<Rightarrow> Process" where
  "save_context r p = p\<lparr>cpu_context := \<lparr>c_eip = r_eip r, c_esp = r_esp r, c_ebp = r_ebp r, c_eax = r_eax r, c_ebx = r_ebx r,
     c_ecx = r_ecx r, c_edx = r_edx r, c_esi = r_esi r, c_edi = r_edi r, c_eflags = r_eflags r\<rparr>\<rparr>"

definition context_switch :: "addr \<Rightarrow> sched \<Rightarrow> panic + sched" where
  "context_switch regs s =
     (let current = scheduler_current_process s
      in if current = 0 then Inr s
         else let s = (if alive (procs s current) \<noteq> 0 then upd_proc current (save_context (frames s regs)) s else s)
              in case scheduler_next_process s of (target, s) \<Rightarrow>
                   if target = 0
                   then (if alive (procs s current) = 0
                         then Inl (PANIC ''No runnable processes left after current process exit'') else Inr s)
                   else if target = current \<and> alive (procs s current) \<noteq> 0 then Inr s
                   else Inr (s\<lparr>g_next_context := target,
                               frames := (frames s)(regs := (frames s regs)\<lparr>r_eip := switch_to_trampoline s\<rparr>),
                               last_regs := regs\<rparr>))"

definition scheduler_on_tick :: "addr \<Rightarrow> sched \<Rightarrow> panic + sched" where
  "scheduler_on_tick regs s =
     (let s = s\<lparr>last_regs := regs, quantum_counter := quantum_counter s + 1\<rparr>
      in if quantum_counter s \<ge> SCHEDULER_QUANTUM_TICKS then context_switch regs (s\<lparr>quantum_counter := 0\<rparr>) else Inr s)"

definition scheduler_force_switch :: "sched \<Rightarrow> panic + sched" where
  "scheduler_force_switch s = (if last_regs s \<noteq> 0 then context_switch (last_regs s) s else Inr s)"

definition scheduler_force_switch_with_regs :: "addr \<Rightarrow> sched \<Rightarrow> panic + sched" where
  "scheduler_force_switch_with_regs regs s = (if regs \<noteq> 0 then context_switch regs s else Inr s)"

text \<open>The switch at the end of a process, which ends in a jump to the trampoline.\<close>

definition scheduler_exit_current_and_switch :: "sched \<Rightarrow> panic + sched" where
  "scheduler_exit_current_and_switch s =
     (let P = (\<lambda>proc. alive proc \<noteq> 0)
      in if total_tickets s P [0..<MAX_PROCESSES] = 0 then Inl (PANIC ''No runnable processes left after process exit'')
         else case lottery P s of (target, s) \<Rightarrow>
           if target = 0 then Inl (PANIC ''Failed to select next process after exit'')
           else Inr (s\<lparr>g_next_context := target\<rparr>))"

text \<open>The stack pointer, the frame pointer and the address that \<open>scheduler_start\<close> jumps to.\<close>

definition scheduler_start :: "sched \<Rightarrow> (u32 \<times> u32 \<times> u32) option" where
  "scheduler_start s =
     (let proc = scheduler_current_process s; c = cpu_context (procs s proc)
      in if proc = 0 then None else Some (c_esp c, c_ebp c, c_eip c))"

subsection \<open>Starting and killing processes\<close>

definition create_process :: "sched \<Rightarrow> int \<times> sched" where
  "create_process s = (next_pid s, s\<lparr>next_pid := next_pid s + 1\<rparr>)"

definition kill_process :: "addr \<Rightarrow> sched \<Rightarrow> sched" where
  "kill_process proc s =
     (if proc = 0 \<or> \<not> process_is_valid (procs s proc) then s
      else let s = upd_proc proc (\<lambda>p. register_keyboard_handler p 0) s;
               s = upd_proc proc (\<lambda>p. p\<lparr>alive := 0\<rparr>) s;
               s = s\<lparr>windows := on_process_exit proc (windows s)\<rparr>
           in scheduler_restore_foreground proc s)"

text \<open>The object at a fresh address: zeroed, then filled in.\<close>

definition new_process :: "int \<Rightarrow> addr \<Rightarrow> int \<Rightarrow> Process" where
  "new_process p_id name spec =
     \<lparr>magic = PROCESS_MAGIC, pid = p_id, proc_name = name,
      cpu_context = \<lparr>c_eip = 0, c_esp = 0, c_ebp = 0, c_eax = 0, c_ebx = 0, c_ecx = 0, c_edx = 0, c_esi = 0, c_edi = 0, c_eflags = 0\<rparr>,
      page_directory = 0, stack_base = 0, stack_size = 0, alive = 1, speculative = spec, logical_time = 0,
      hooks = replicate 8 \<lparr>hook_type = TIME_REACHED, trigger_value = 0\<rparr>, hook_count = 0,
      io_events = \<lparr>guard_front = EVENT_QUEUE_GUARD, q_events = replicate 128 EVENT_NONE, q_head = 0, q_tail = 0, q_count = 0,
        guard_back = EVENT_QUEUE_GUARD\<rparr>,
      keyboard_handler = 0, tickets = 1\<rparr>"

definition k_start_process :: "addr \<Rightarrow> u32 \<Rightarrow> int \<Rightarrow> u32 \<Rightarrow> sched \<Rightarrow> (addr \<times> sched) option" where
  "k_start_process name entry spec ssize s =
     do {
       (proc, h) \<leftarrow> kmalloc (kheap s) SIZEOF_PROCESS;
       let s = s\<lparr>kheap := h\<rparr>;
       if proc = 0 then Some (0, s)
       else do {
         let (p_id, s) = create_process s;
         let s = upd_proc proc (\<lambda>_. new_process p_id name spec) s;
         (stack, h) \<leftarrow> kmalloc (kheap s) ssize;
         let s = s\<lparr>kheap := h\<rparr>;
         if stack = 0 then Some (0, s)
         else let stack_top = stack + ssize;
                  s = upd_proc proc (\<lambda>p. p\<lparr>cpu_context := (cpu_context p)\<lparr>c_eip := entry, c_esp := stack_top, c_ebp := stack_top,
                         c_eflags := 0x202\<rparr>, stack_base := stack_top - ssize, stack_size := ssize\<rparr>) s
              in Some (proc, snd (scheduler_add_process proc s))
       }
     }"


subsection \<open>The lottery\<close>

definition weight :: "sched \<Rightarrow> (Process \<Rightarrow> bool) \<Rightarrow> nat \<Rightarrow> int" where
  "weight s P i = (let proc = process_table s ! i in if proc \<noteq> 0 \<and> P (procs s proc) then tickets (procs s proc) else 0)"

lemma total_tickets_weight: "total_tickets s P is = sum_list (map (weight s P) is)"
  by (induction "is") (simp_all add: weight_def Let_def)

text \<open>The winning ticket selects the entry in whose interval of the running sum it lies.\<close>

lemma draw_winner_iff:
  assumes "\<forall>j\<in>set is. weight s P j \<ge> 0 \<and> (process_table s ! j \<noteq> 0 \<and> P (procs s (process_table s ! j)) \<longrightarrow> weight s P j > 0)" "c \<le> w"
  shows "draw_winner s P w c is = Some i \<longleftrightarrow>
    (\<exists>pre post. is = pre @ i # post \<and> c + sum_list (map (weight s P) pre) \<le> w \<and> w < c + sum_list (map (weight s P) pre) + weight s P i)"
  using assms
proof (induction "is" arbitrary: c)
  case (Cons j js)
  let ?W = "\<lambda>xs. sum_list (map (weight s P) xs)"
  have step: "draw_winner s P w c (j # js) = (if w < c + weight s P j then Some j else draw_winner s P w (c + weight s P j) js)"
    using Cons.prems by (auto simp: weight_def Let_def)
  have nn: "?W xs \<ge> 0" if "set xs \<subseteq> set (j # js)" for xs using Cons.prems(1) that by (intro sum_list_nonneg) auto
  show ?case
  proof (cases "w < c + weight s P j")
    case True
    have "i = j" if "j # js = pre @ i # post" "c + ?W pre \<le> w" for pre post
    proof (cases pre)
      case (Cons k ks)
      with that have "k = j" "?W ks \<ge> 0" using nn [of ks] by (auto simp: Cons_eq_append_conv)
      with that Cons True show ?thesis by simp
    qed (use that in simp)
    moreover have "\<exists>pre post. j # js = pre @ j # post \<and> c + ?W pre \<le> w \<and> w < c + ?W pre + weight s P j"
      using True Cons.prems(2) by (intro exI [of _ "[]"] exI [of _ js]) simp
    moreover have d: "draw_winner s P w c (j # js) = Some j" using True by (simp only: step if_True)
    ultimately show ?thesis unfolding d option.inject by blast
  next
    case False
    have "(\<exists>pre post. js = pre @ i # post \<and> c + weight s P j + ?W pre \<le> w \<and> w < c + weight s P j + ?W pre + weight s P i) \<longleftrightarrow>
        (\<exists>pre post. j # js = pre @ i # post \<and> c + ?W pre \<le> w \<and> w < c + ?W pre + weight s P i)" (is "?l \<longleftrightarrow> ?r")
    proof
      assume ?l
      then obtain pre post where "js = pre @ i # post" "c + weight s P j + ?W pre \<le> w" "w < c + weight s P j + ?W pre + weight s P i" by blast
      then show ?r by (intro exI [of _ "j # pre"] exI [of _ post]) simp
    next
      assume ?r
      then obtain pre post where r: "j # js = pre @ i # post" "c + ?W pre \<le> w" "w < c + ?W pre + weight s P i" by blast
      with False obtain ks where "pre = j # ks" by (cases pre) auto
      with r show ?l by (intro exI [of _ ks] exI [of _ post]) simp
    qed
    moreover have "draw_winner s P w (c + weight s P j) js = Some i \<longleftrightarrow>
        (\<exists>pre post. js = pre @ i # post \<and> c + weight s P j + ?W pre \<le> w \<and> w < c + weight s P j + ?W pre + weight s P i)"
      using Cons.IH [of "c + weight s P j"] Cons.prems False by simp
    ultimately show ?thesis using False by (simp only: step if_False)
  qed
qed simp

lemma upt_split: "[0..<n] = pre @ i # post \<longleftrightarrow> i < n \<and> pre = [0..<i] \<and> post = [Suc i..<n]"
proof
  assume a: "[0..<n] = pre @ i # post"
  have l: "length pre < n" using arg_cong [OF a, of length] by simp
  have "i = [0..<n] ! length pre" using a by simp
  then have i: "i = length pre" "i < n" using l by simp_all
  have "pre = take (length pre) [0..<n]" "post = drop (Suc (length pre)) [0..<n]" using a by simp_all
  with i show "i < n \<and> pre = [0..<i] \<and> post = [Suc i..<n]" by (simp add: take_upt drop_upt)
next
  assume "i < n \<and> pre = [0..<i] \<and> post = [Suc i..<n]"
  then show "[0..<n] = pre @ i # post" using upt_add_eq_append [of 0 i "n - i"] by (simp add: upt_conv_Cons [symmetric])
qed

definition ticketed :: "sched \<Rightarrow> bool" where
  "ticketed s \<longleftrightarrow> (\<forall>i<32. process_table s ! i \<noteq> 0 \<longrightarrow> tickets (procs s (process_table s ! i)) > 0)"

lemma ticketed_weight:
  assumes "ticketed s"
  shows "\<forall>j\<in>set [0..<32]. weight s P j \<ge> 0 \<and> (process_table s ! j \<noteq> 0 \<and> P (procs s (process_table s ! j)) \<longrightarrow> weight s P j > 0)"
  using assms by (auto simp: ticketed_def weight_def Let_def)

lemma draw_interval:
  assumes "ticketed s" "0 \<le> w" "i < 32"
  shows "draw_winner s P w 0 [0..<32] = Some i \<longleftrightarrow>
    sum_list (map (weight s P) [0..<i]) \<le> w \<and> w < sum_list (map (weight s P) [0..<i]) + weight s P i"
  using draw_winner_iff [OF ticketed_weight [OF assms(1)] assms(2), of P i] assms(3) by (simp add: upt_split)

lemma draw_some:
  assumes "ticketed s" "0 \<le> w" "w < total_tickets s P [0..<32]"
  shows "\<exists>i<32. draw_winner s P w 0 [0..<32] = Some i \<and> process_table s ! i \<noteq> 0 \<and> P (procs s (process_table s ! i))"
proof -
  let ?W = "\<lambda>n. sum_list (map (weight s P) [0..<n])"
  have "\<exists>i<n. ?W i \<le> w \<and> w < ?W i + weight s P i" if "w < ?W n" for n
    using that
  proof (induction n)
    case (Suc n)
    then show ?case by (cases "w < ?W n") (auto simp: less_Suc_eq)
  qed (use assms(2) in simp)
  with assms(3) obtain i where i: "i < 32" "?W i \<le> w" "w < ?W i + weight s P i" by (auto simp: total_tickets_weight)
  then have "weight s P i \<noteq> 0" by linarith
  then have "process_table s ! i \<noteq> 0 \<and> P (procs s (process_table s ! i))" by (auto simp: weight_def Let_def split: if_splits)
  with i draw_interval [OF assms(1,2) i(1), of P] show ?thesis by blast
qed

lemma total_zero_iff:
  assumes "ticketed s"
  shows "total_tickets s P [0..<32] = 0 \<longleftrightarrow> (\<forall>i<32. process_table s ! i = 0 \<or> \<not> P (procs s (process_table s ! i)))"
    "total_tickets s P [0..<32] \<ge> 0"
proof -
  have nn: "\<forall>x\<in>set (map (weight s P) [0..<32]). x \<ge> 0" using ticketed_weight [OF assms, of P] by auto
  then have "total_tickets s P [0..<32] = 0 \<longleftrightarrow> (\<forall>i<32. weight s P i = 0)"
    by (subst total_tickets_weight, subst sum_list_nonneg_eq_0_iff) auto
  also have "\<dots> \<longleftrightarrow> (\<forall>i<32. process_table s ! i = 0 \<or> \<not> P (procs s (process_table s ! i)))"
    using assms by (auto simp: weight_def ticketed_def Let_def)
  finally show "total_tickets s P [0..<32] = 0 \<longleftrightarrow> (\<forall>i<32. process_table s ! i = 0 \<or> \<not> P (procs s (process_table s ! i)))" .
  show "total_tickets s P [0..<32] \<ge> 0" unfolding total_tickets_weight by (rule sum_list_nonneg) (use nn in blast)
qed

text \<open>The remainder stays a remainder when it is stored in an \<open>int\<close>.\<close>

lemma winner_mod:
  assumes "0 < n" "n < 2 ^ 31"
  shows "sint ((x :: u32) mod of_int n) = uint x mod n"
proof -
  have n: "uint (of_int n :: u32) = n" using assms by (simp add: uint_word_of_int)
  have "uint (x mod of_int n) = uint x mod n" by (simp add: uint_mod n)
  moreover have "0 \<le> uint x mod n" "uint x mod n < 2 ^ 31" using assms by (auto intro: less_trans [OF pos_mod_bound])
  ultimately show ?thesis by (simp add: sint_uint signed_take_bit_int_eq_self)
qed

lemma lottery_spec:
  assumes "ticketed s" "0 < total_tickets s P [0..<32]" "total_tickets s P [0..<32] < 2 ^ 31"
  shows "\<exists>i<32. lottery P s = (process_table s ! i, (snd (xorshift32 s))\<lparr>current_process_idx := int i\<rparr>) \<and>
    process_table s ! i \<noteq> 0 \<and> P (procs s (process_table s ! i)) \<and>
    draw_winner s P (uint (fst (xorshift32 s)) mod total_tickets s P [0..<32]) 0 [0..<32] = Some i"
proof -
  obtain x s' where x: "xorshift32 s = (x, s')" by fastforce
  have s': "s' = s\<lparr>xorshift32_state := x\<rparr>" using x by (auto simp: xorshift32_def Let_def)
  have t: "total_tickets (s\<lparr>xorshift32_state := x\<rparr>) P is = total_tickets s P is"
    "draw_winner (s\<lparr>xorshift32_state := x\<rparr>) P w c is = draw_winner s P w c is" for w c "is"
    by (induction "is" arbitrary: c) (simp_all add: Let_def)
  let ?t = "total_tickets s P [0..<32]"
  have "\<exists>i<32. draw_winner s P (uint x mod ?t) 0 [0..<32] = Some i \<and> process_table s ! i \<noteq> 0 \<and> P (procs s (process_table s ! i))"
    by (rule draw_some [OF assms(1)]) (use assms(2) in simp_all)
  with winner_mod [OF assms(2,3), of x] show ?thesis
    by (auto simp: lottery_def x s' t MAX_PROCESSES_def)
qed

lemma xorshift_nonzero:
  assumes "xorshift32_state s \<noteq> 0"
  shows "xorshift32_state (snd (xorshift32 s)) \<noteq> 0"
proof -
  have z: "x = y" if "x XOR y = 0" for x y :: u32 using arg_cong [OF that, of "\<lambda>v. v XOR y"] by (simp add: xor.assoc)
  have a: "x XOR push_bit 13 x \<noteq> 0" if "x \<noteq> 0" for x :: u32
  proof
    assume "x XOR push_bit 13 x = 0"
    then have e: "push_bit 13 x = x" using z by metis
    then have "push_bit 39 x = x" using push_bit_push_bit [of 13 13 x] push_bit_push_bit [of 13 26 x] by simp
    moreover have "push_bit 39 x = 0" by (rule bit_word_eqI) (simp add: bit_push_bit_iff)
    ultimately show False using that by simp
  qed
  have b: "x XOR drop_bit 17 x \<noteq> 0" if "x \<noteq> 0" for x :: u32
  proof
    assume "x XOR drop_bit 17 x = 0"
    then have e: "drop_bit 17 x = x" using z by metis
    then have "drop_bit 34 x = x" using drop_bit_drop_bit [of 17 17 x] by simp
    moreover have "drop_bit 34 x = 0" by (rule bit_word_eqI) (auto simp: bit_drop_bit_eq dest: bit_imp_le_length)
    ultimately show False using that by simp
  qed
  have c: "x XOR push_bit 5 x \<noteq> 0" if "x \<noteq> 0" for x :: u32
  proof
    assume "x XOR push_bit 5 x = 0"
    then have e: "push_bit 5 x = x" using z by metis
    then have "push_bit 10 x = x" using push_bit_push_bit [of 5 5 x] by simp
    then have "push_bit 20 x = x" using push_bit_push_bit [of 10 10 x] by simp
    then have "push_bit 40 x = x" using push_bit_push_bit [of 20 20 x] by simp
    moreover have "push_bit 40 x = 0" by (rule bit_word_eqI) (simp add: bit_push_bit_iff)
    ultimately show False using that by simp
  qed
  show ?thesis using c [OF b [OF a [OF assms]]] by (simp add: xorshift32_def Let_def)
qed


subsection \<open>The invariant of the scheduler\<close>

definition proc_fit :: "Process \<Rightarrow> bool" where
  "proc_fit p \<longleftrightarrow> proc_ok p \<and> tickets p > 0"

definition sched_ok :: "sched \<Rightarrow> bool" where
  "sched_ok s \<longleftrightarrow> length (process_table s) = 32 \<and> length (foreground_stack s) = 32 \<and>
     process_count s = int (card {i. i < 32 \<and> process_table s ! i \<noteq> 0}) \<and>
     -1 \<le> current_process_idx s \<and> current_process_idx s < 32 \<and> -1 \<le> foreground_stack_top s \<and> foreground_stack_top s < 32 \<and>
     (\<forall>i<32. process_table s ! i \<noteq> 0 \<longrightarrow> proc_fit (procs s (process_table s ! i))) \<and>
     xorshift32_state s \<noteq> 0 \<and> 0 \<le> quantum_counter s \<and> quantum_counter s < 10 \<and> wins_ok (windows s) \<and> heap_ok (kheap s)"

lemma sched_okD:
  assumes "sched_ok s"
  shows "length (process_table s) = 32" "length (foreground_stack s) = 32"
    "process_count s = int (card {i. i < 32 \<and> process_table s ! i \<noteq> 0})"
    "-1 \<le> current_process_idx s" "current_process_idx s < 32" "-1 \<le> foreground_stack_top s" "foreground_stack_top s < 32"
    "\<And>i. i < 32 \<Longrightarrow> process_table s ! i \<noteq> 0 \<Longrightarrow> proc_fit (procs s (process_table s ! i))"
    "xorshift32_state s \<noteq> 0" "0 \<le> quantum_counter s" "quantum_counter s < 10" "wins_ok (windows s)" "heap_ok (kheap s)"
  using assms by (simp_all add: sched_ok_def)

lemma sched_ok_ticketed: "sched_ok s \<Longrightarrow> ticketed s"
  by (simp add: sched_ok_def ticketed_def proc_fit_def)

lemma upd_proc_ok:
  assumes "sched_ok s" "\<And>p. proc_fit p \<Longrightarrow> proc_fit (f p)"
  shows "sched_ok (upd_proc a f s)"
  using assms by (auto simp: sched_ok_def upd_proc_def)

lemma push_proc_ok: "proc_ok p \<Longrightarrow> proc_ok (push_io_event e p)"
  using push_queued [of p e] push_healthy [of p e] by (simp add: proc_ok_def)

lemma push_fit: "proc_fit p \<Longrightarrow> proc_fit (push_io_event e p)"
  using push_proc_ok [of p e] push_healthy [of p e] by (simp add: proc_fit_def proc_ok_def)

lemma hooks_fit: "proc_fit p \<Longrightarrow> proc_fit (remove_matching_hooks p ty v)"
proof -
  assume p: "proc_fit p"
  with remove_matching_hooks_spec [of p ty v] obtain hs n where
    "proc_ok (remove_matching_hooks p ty v)" "remove_matching_hooks p ty v = p\<lparr>hooks := hs, hook_count := n\<rparr>"
    by (auto simp: proc_fit_def)
  then show ?thesis using p by (simp add: proc_fit_def)
qed

lemma small_fits:
  "proc_fit p \<Longrightarrow> proc_fit (p\<lparr>hook_count := 0\<rparr>)" "proc_fit p \<Longrightarrow> proc_fit (save_context r p)" "proc_fit p \<Longrightarrow> proc_fit (p\<lparr>alive := a\<rparr>)"
  "proc_fit p \<Longrightarrow> proc_fit (register_keyboard_handler p h)" "proc_fit p \<Longrightarrow> proc_fit (set_process_tickets p n)"
  by (simp_all add: proc_fit_def proc_ok_def process_is_valid_def save_context_def register_keyboard_handler_def set_process_tickets_def)

lemma resume_slot_ok: "sched_ok s \<Longrightarrow> sched_ok (resume_slot ty v i s)"
  by (simp add: resume_slot_def Let_def upd_proc_ok hooks_fit)

lemma resume_slots_ok: "sched_ok s \<Longrightarrow> sched_ok (fold (resume_slot ty v) js s)"
  by (induction js arbitrary: s) (simp_all add: resume_slot_ok)

lemma resume_ok: "sched_ok s \<Longrightarrow> sched_ok (scheduler_resume_processes_for_event ty v s)"
  by (simp add: scheduler_resume_processes_for_event_def resume_slots_ok)

lemma sched_ok_updates [simp]:
  "sched_ok (s\<lparr>foreground_proc := p\<rparr>) = sched_ok s" "sched_ok (s\<lparr>g_next_context := p\<rparr>) = sched_ok s"
  "sched_ok (s\<lparr>last_regs := r\<rparr>) = sched_ok s" "sched_ok (s\<lparr>frames := f\<rparr>) = sched_ok s" "sched_ok (s\<lparr>next_pid := n\<rparr>) = sched_ok s"
  by (simp_all add: sched_ok_def)

lemma windows_upd_ok: "sched_ok s \<Longrightarrow> wins_ok w \<Longrightarrow> sched_ok (s\<lparr>windows := w\<rparr>)"
  by (simp add: sched_ok_def)

lemma dispatch_ok: "sched_ok s \<Longrightarrow> sched_ok (dispatch_focus_event proc code v s)"
  by (simp add: dispatch_focus_event_def resume_ok upd_proc_ok push_fit)

lemma activate_sched_ok: "sched_ok s \<Longrightarrow> sched_ok (activate proc s)"
  unfolding activate_def by (intro windows_upd_ok activate_ok) (simp_all add: sched_ok_def)

lemma switch_foreground_ok: "sched_ok s \<Longrightarrow> sched_ok (scheduler_switch_foreground prev target s)"
  by (simp add: scheduler_switch_foreground_def activate_sched_ok dispatch_ok Let_def)

lemma set_foreground_ok: "sched_ok s \<Longrightarrow> sched_ok (scheduler_set_foreground proc s)"
proof -
  assume s: "sched_ok s"
  have "sched_ok (s\<lparr>foreground_stack_top := foreground_stack_top s + 1,
      foreground_stack := (foreground_stack s)[nat (foreground_stack_top s + 1) := foreground_proc s]\<rparr>)" if "foreground_stack_top s + 1 < 32"
    using s that by (simp add: sched_ok_def)
  then show ?thesis using s by (simp add: scheduler_set_foreground_def switch_foreground_ok MAX_PROCESSES_def Let_def)
qed

lemma restore_foreground_ok: "sched_ok s \<Longrightarrow> sched_ok (scheduler_restore_foreground own s)"
proof -
  assume s: "sched_ok s"
  have t: "sched_ok (s\<lparr>foreground_stack_top := foreground_stack_top s - 1\<rparr>)" if "foreground_stack_top s \<ge> 0"
    using s that by (simp add: sched_ok_def)
  have u: "sched_ok (if c then upd_proc a (\<lambda>p. p\<lparr>hook_count := 0\<rparr>) v else v)" if "sched_ok v" for a v c
    using that by (simp add: upd_proc_ok small_fits)
  show ?thesis
    using s t switch_foreground_ok [OF s] switch_foreground_ok [OF u [OF s]] switch_foreground_ok [OF u [OF t]]
    by (simp add: scheduler_restore_foreground_def Let_def)
qed

lemma draw_winner_mem: "draw_winner s P w c is = Some i \<Longrightarrow> i \<in> set is"
  by (induction "is" arbitrary: c) (auto simp: Let_def split: if_splits)

lemma lottery_ok: "sched_ok s \<Longrightarrow> sched_ok (snd (lottery P s))"
proof -
  assume s: "sched_ok s"
  obtain x u where x: "xorshift32 s = (x, u)" by fastforce
  have u: "u = s\<lparr>xorshift32_state := x\<rparr>" using x by (auto simp: xorshift32_def Let_def)
  have "x \<noteq> 0" using xorshift_nonzero [of s] s x u by (auto simp: sched_ok_def)
  then have "sched_ok u" using s u by (simp add: sched_ok_def)
  moreover have "sched_ok (u\<lparr>current_process_idx := int i\<rparr>)" if "i < 32" for i using that calculation by (simp add: sched_ok_def)
  ultimately show ?thesis
    using draw_winner_mem [of u P _ 0 "[0..<32]"] by (auto simp: lottery_def x MAX_PROCESSES_def split: option.split)
qed

lemma next_process_ok: "sched_ok s \<Longrightarrow> sched_ok (snd (scheduler_next_process s))"
  by (simp add: scheduler_next_process_def lottery_ok)

lemma next_eligible_ok: "sched_ok s \<Longrightarrow> sched_ok (snd (scheduler_next_eligible_process ty v s))"
  by (simp add: scheduler_next_eligible_process_def lottery_ok Let_def)

lemma context_switch_ok: "sched_ok s \<Longrightarrow> context_switch regs s = Inr s' \<Longrightarrow> sched_ok s'"
proof -
  assume s: "sched_ok s" and c: "context_switch regs s = Inr s'"
  let ?cur = "scheduler_current_process s"
  define u where "u = (if alive (procs s ?cur) \<noteq> 0 then upd_proc ?cur (save_context (frames s regs)) s else s)"
  have "sched_ok u" using s by (simp add: u_def upd_proc_ok small_fits)
  then have n: "sched_ok (snd (scheduler_next_process u))" by (rule next_process_ok)
  obtain t v where v: "scheduler_next_process u = (t, v)" by fastforce
  show ?thesis
    using c s n by (auto simp: context_switch_def u_def [symmetric] v Let_def split: if_splits)
qed


lemma tick_ok: "sched_ok s \<Longrightarrow> scheduler_on_tick regs s = Inr s' \<Longrightarrow> sched_ok s'"
proof -
  assume s: "sched_ok s" and t: "scheduler_on_tick regs s = Inr s'"
  let ?u = "s\<lparr>last_regs := regs, quantum_counter := quantum_counter s + 1\<rparr>"
  show ?thesis
  proof (cases "quantum_counter s + 1 \<ge> 10")
    case True
    have "sched_ok (?u\<lparr>quantum_counter := 0\<rparr>)" using s by (simp add: sched_ok_def)
    with t True show ?thesis by (auto simp: scheduler_on_tick_def SCHEDULER_QUANTUM_TICKS_def intro: context_switch_ok)
  next
    case False
    then have "sched_ok ?u" using s by (simp add: sched_ok_def)
    with t False show ?thesis by (simp add: scheduler_on_tick_def SCHEDULER_QUANTUM_TICKS_def)
  qed
qed

lemma exit_ok: "sched_ok s \<Longrightarrow> scheduler_exit_current_and_switch s = Inr s' \<Longrightarrow> sched_ok s'"
  using lottery_ok [of s "\<lambda>proc. alive proc \<noteq> 0"]
  by (auto simp: scheduler_exit_current_and_switch_def Let_def split: if_splits prod.splits)

lemma table_card:
  fixes t :: "addr list"
  assumes "length t = 32" "i < 32"
  shows "p \<noteq> 0 \<Longrightarrow> t ! i = 0 \<Longrightarrow> int (card {j. j < 32 \<and> t[i := p] ! j \<noteq> 0}) = int (card {j. j < 32 \<and> t ! j \<noteq> 0}) + 1"
    "t ! i \<noteq> 0 \<Longrightarrow> int (card {j. j < 32 \<and> t[i := 0] ! j \<noteq> 0}) = int (card {j. j < 32 \<and> t ! j \<noteq> 0}) - 1"
proof -
  assume "p \<noteq> 0" "t ! i = 0"
  then have "{j. j < 32 \<and> t[i := p] ! j \<noteq> 0} = insert i {j. j < 32 \<and> t ! j \<noteq> 0}" "i \<notin> {j. j < 32 \<and> t ! j \<noteq> 0}"
    using assms by (auto simp: nth_list_update split: if_splits)
  then show "int (card {j. j < 32 \<and> t[i := p] ! j \<noteq> 0}) = int (card {j. j < 32 \<and> t ! j \<noteq> 0}) + 1" by simp
next
  assume "t ! i \<noteq> 0"
  then have "{j. j < 32 \<and> t ! j \<noteq> 0} = insert i {j. j < 32 \<and> t[i := 0] ! j \<noteq> 0}" "i \<notin> {j. j < 32 \<and> t[i := 0] ! j \<noteq> 0}"
    using assms by (auto simp: nth_list_update split: if_splits)
  then show "int (card {j. j < 32 \<and> t[i := 0] ! j \<noteq> 0}) = int (card {j. j < 32 \<and> t ! j \<noteq> 0}) - 1" by simp
qed

lemma table_full: "length t = 32 \<Longrightarrow> (\<exists>i<32. t ! i = 0) \<longleftrightarrow> int (card {j. j < 32 \<and> t ! j \<noteq> 0}) < 32" for t :: "addr list"
proof -
  have "card {j. j < 32 \<and> t ! j \<noteq> 0} < card {..<32 :: nat}" if "i < 32" "t ! i = 0" for i
    by (rule psubset_card_mono) (use that in auto)
  moreover have "{j. j < 32 \<and> t ! j \<noteq> 0} = {..<32}" if "\<not> (\<exists>i<32. t ! i = 0)" using that by auto
  ultimately show ?thesis by fastforce
qed

text \<open>A process is entered in the first free slot, unless the table is full.\<close>

lemma add_process_spec:
  assumes "sched_ok s" "proc \<noteq> 0" "proc_ok (procs s proc)"
  shows "sched_ok (snd (scheduler_add_process proc s))"
    "fst (scheduler_add_process proc s) = (if process_count s < 32 then 0 else -1)"
    "process_count s < 32 \<Longrightarrow> proc \<in> set (process_table (snd (scheduler_add_process proc s)))"
    "\<not> process_count s < 32 \<Longrightarrow> snd (scheduler_add_process proc s) = s"
proof -
  note o = sched_okD [OF assms(1)]
  have "sched_ok (snd (scheduler_add_process proc s)) \<and> fst (scheduler_add_process proc s) = 0 \<and>
      proc \<in> set (process_table (snd (scheduler_add_process proc s)))" if lt: "process_count s < 32"
  proof -
    have "find (\<lambda>i. process_table s ! i = 0) [0..<32] \<noteq> None"
      using table_full [OF o(1)] lt o(3) by (auto simp: find_None_upt)
    then obtain i where f: "find (\<lambda>i. process_table s ! i = 0) [0..<32] = Some i" by blast
    note i = find_Some_nth [OF f]
    define u where "u = s\<lparr>process_table := (process_table s)[i := proc], process_count := process_count s + 1\<rparr>"
    define v where "v = (if current_process_idx u = -1 then u\<lparr>current_process_idx := int i\<rparr> else u)"
    define w where "w = (if tickets (procs v proc) \<le> 0 then upd_proc proc (\<lambda>p. p\<lparr>tickets := 1\<rparr>) v else v)"
    have r: "scheduler_add_process proc s = (0, w)"
      using lt f by (simp add: scheduler_add_process_def MAX_PROCESSES_def u_def v_def w_def Let_def)
    have "sched_ok w"
    proof -
      have tw: "process_table w = (process_table s)[i := proc]" "process_count w = process_count s + 1" "foreground_stack w = foreground_stack s"
         "foreground_stack_top w = foreground_stack_top s" "xorshift32_state w = xorshift32_state s" "quantum_counter w = quantum_counter s"
         "windows w = windows s" "kheap w = kheap s"
         "current_process_idx w = (if current_process_idx s = -1 then int i else current_process_idx s)"
        by (simp_all add: w_def v_def u_def upd_proc_def)
      have pw: "procs w a = (if a = proc \<and> tickets (procs s proc) \<le> 0 then (procs s proc)\<lparr>tickets := 1\<rparr> else procs s a)" for a
        by (simp add: w_def v_def u_def upd_proc_def)
      have "proc_fit (procs w proc)" using assms(3) by (auto simp: pw proc_fit_def proc_ok_def process_is_valid_def)
      moreover have "proc_fit (procs w a)" if "proc_fit (procs s a)" for a using that by (auto simp: pw proc_fit_def)
      ultimately have "\<forall>j<32. process_table w ! j \<noteq> 0 \<longrightarrow> proc_fit (procs w (process_table w ! j))"
        using o(1,8) i(1) by (simp add: tw nth_list_update)
      then show ?thesis using o i(1,2) table_card(1) [OF o(1) i(1) assms(2)] by (simp add: sched_ok_def tw)
    qed
    moreover have "proc \<in> set (process_table w)"
      using set_update_memI [of i "process_table s" proc] i(1) o(1) by (simp add: w_def v_def u_def upd_proc_def)
    ultimately show ?thesis by (simp add: r)
  qed
  then show "sched_ok (snd (scheduler_add_process proc s))"
    "fst (scheduler_add_process proc s) = (if process_count s < 32 then 0 else -1)"
    "process_count s < 32 \<Longrightarrow> proc \<in> set (process_table (snd (scheduler_add_process proc s)))"
    "\<not> process_count s < 32 \<Longrightarrow> snd (scheduler_add_process proc s) = s"
    using assms(1) by (auto simp: scheduler_add_process_def MAX_PROCESSES_def)
qed

lemma remove_process_ok:
  assumes "sched_ok s"
  shows "sched_ok (snd (scheduler_remove_process p_id s))"
proof (cases "find (\<lambda>i. process_table s ! i \<noteq> 0 \<and> pid (procs s (process_table s ! i)) = p_id) [0..<MAX_PROCESSES]")
  case (Some i)
  note i = find_Some_nth [OF Some] and o = sched_okD [OF assms]
  have i32: "i < 32" "process_table s ! i \<noteq> 0" using i(1,2) by (simp_all add: MAX_PROCESSES_def)
  let ?u = "s\<lparr>process_table := (process_table s)[i := 0], process_count := process_count s - 1\<rparr>"
  have "\<forall>j<32. process_table ?u ! j \<noteq> 0 \<longrightarrow> proc_fit (procs s (process_table ?u ! j))"
    using o(1,8) i32 by (simp add: nth_list_update)
  then have "sched_ok ?u" using o i32 table_card(2) [OF o(1) i32] by (simp add: sched_ok_def)
  then show ?thesis using next_process_ok by (simp add: scheduler_remove_process_def Some Let_def)
qed (simp add: scheduler_remove_process_def assms)


lemma on_exit_ok: "wins_ok w \<Longrightarrow> wins_ok (on_process_exit proc w)"
  by (simp add: on_process_exit_def close_ok Let_def)

lemma kill_ok: "sched_ok s \<Longrightarrow> sched_ok (kill_process proc s)"
proof -
  assume s: "sched_ok s"
  let ?u = "upd_proc proc (\<lambda>p. p\<lparr>alive := 0\<rparr>) (upd_proc proc (\<lambda>p. register_keyboard_handler p 0) s)"
  have u: "sched_ok ?u" by (intro upd_proc_ok s small_fits)
  then have "sched_ok (?u\<lparr>windows := on_process_exit proc (windows ?u)\<rparr>)"
    by (intro windows_upd_ok on_exit_ok sched_okD(12))
  then show ?thesis using s by (simp add: kill_process_def restore_foreground_ok Let_def)
qed

lemma new_process_ok: "proc_ok (new_process p_id name spec)" "runnable (new_process p_id name spec)" "tickets (new_process p_id name spec) = 1"
  by (simp_all add: new_process_def proc_ok_def process_is_valid_def queue_ok_def runnable_def)

lemma sched_ok_heap: "sched_ok s \<Longrightarrow> heap_ok h \<Longrightarrow> sched_ok (s\<lparr>kheap := h\<rparr>)"
  by (simp add: sched_ok_def)

lemma upd_const_ok: "sched_ok s \<Longrightarrow> proc_fit p \<Longrightarrow> sched_ok (upd_proc a (\<lambda>_. p) s)"
  by (rule upd_proc_ok)

text \<open>What a started process looks like.\<close>

definition started :: "addr \<Rightarrow> u32 \<Rightarrow> u32 \<Rightarrow> sched \<Rightarrow> sched \<Rightarrow> bool" where
  "started p entry ssize s s' \<longleftrightarrow> (let proc = procs s' p in
     runnable proc \<and> pid proc = next_pid s \<and> c_eip (cpu_context proc) = entry \<and> c_eflags (cpu_context proc) = 0x202 \<and>
     c_esp (cpu_context proc) = stack_base proc + ssize \<and> c_ebp (cpu_context proc) = c_esp (cpu_context proc) \<and>
     owned (kheap s) p = None \<and> owned (kheap s) (stack_base proc) = None \<and> p \<noteq> stack_base proc \<and>
     (\<exists>n m. owned (kheap s') = (owned (kheap s))(p \<mapsto> n, stack_base proc \<mapsto> m) \<and> 3280 \<le> n \<and> (unat ssize \<le> 0xFFFFFFF0 \<longrightarrow> unat ssize \<le> m)))"

lemma add_process_keeps:
  "kheap (snd (scheduler_add_process p s)) = kheap s" "next_pid (snd (scheduler_add_process p s)) = next_pid s"
  "tickets (procs s p) > 0 \<Longrightarrow> procs (snd (scheduler_add_process p s)) = procs s"
  by (auto simp: scheduler_add_process_def upd_proc_def Let_def split: option.split)

lemma k_start_spec:
  assumes ok: "sched_ok s"
  shows "\<exists>p s'. k_start_process name entry spec ssize s = Some (p, s') \<and> sched_ok s' \<and>
    (p = 0 \<longrightarrow> process_table s' = process_table s) \<and>
    (p \<noteq> 0 \<longrightarrow> started p entry ssize s s' \<and> next_pid s' = next_pid s + 1 \<and>
       (if process_count s < 32 then p \<in> set (process_table s') else process_table s' = process_table s))"
proof -
  have h0: "heap_ok (kheap s)" by (rule sched_okD(13) [OF ok])
  obtain p h1 where m1: "kmalloc (kheap s) SIZEOF_PROCESS = Some (p, h1)" "heap_ok h1" using kheap.malloc_total [OF h0] by blast
  show ?thesis
  proof (cases "p = 0")
    case True
    then show ?thesis using m1 ok by (simp add: k_start_process_def sched_ok_heap)
  next
    case False
    define u where "u = upd_proc p (\<lambda>_. new_process (next_pid s) name spec) (s\<lparr>kheap := h1, next_pid := next_pid s + 1\<rparr>)"
    have u: "sched_ok u" unfolding u_def
      by (intro upd_const_ok) (use ok m1(2) new_process_ok in \<open>simp_all add: sched_ok_heap proc_fit_def\<close>)
    obtain st h2 where m2: "kmalloc h1 ssize = Some (st, h2)" "heap_ok h2" using kheap.malloc_total [OF m1(2)] by blast
    have hu: "kheap u = h1" "process_table u = process_table s" "process_count u = process_count s" "next_pid u = next_pid s + 1"
      by (simp_all add: u_def upd_proc_def)
    show ?thesis
    proof (cases "st = 0")
      case True
      have "k_start_process name entry spec ssize s = Some (0, u\<lparr>kheap := h2\<rparr>)"
        using m1 m2 False True hu by (simp add: k_start_process_def create_process_def u_def [symmetric])
      then show ?thesis using sched_ok_heap [OF u m2(2)] hu by simp
    next
      case st: False
      let ?f = "\<lambda>p. p\<lparr>cpu_context := (cpu_context p)\<lparr>c_eip := entry, c_esp := st + ssize, c_ebp := st + ssize,
          c_eflags := 0x202\<rparr>, stack_base := st, stack_size := ssize\<rparr>"
      define v where "v = upd_proc p ?f (u\<lparr>kheap := h2\<rparr>)"
      have k: "k_start_process name entry spec ssize s = Some (p, snd (scheduler_add_process p v))"
        using m1 m2 False st hu by (simp add: k_start_process_def create_process_def u_def [symmetric] v_def Let_def)
      have v: "sched_ok v" unfolding v_def
        by (intro upd_proc_ok sched_ok_heap u m2) (simp add: proc_fit_def proc_ok_def process_is_valid_def)
      have pv: "procs v p = ?f (new_process (next_pid s) name spec)" by (simp add: v_def u_def upd_proc_def)
      then have pok: "proc_ok (procs v p)" "tickets (procs v p) > 0"
        using new_process_ok [of "next_pid s" name spec] by (simp_all add: proc_ok_def process_is_valid_def)
      note add = add_process_spec [OF v False pok(1)] and keep = add_process_keeps [where p = p and s = v]
      have hv: "kheap v = h2" "process_count v = process_count s" "process_table v = process_table s" "next_pid v = next_pid s + 1"
        by (simp_all add: v_def upd_proc_def hu)
      obtain n where n: "owned (kheap s) p = None" "owned h1 = (owned (kheap s))(p \<mapsto> n)" "3280 \<le> n"
        using kheap.malloc_own [OF h0 m1(1) False] by (auto simp: SIZEOF_PROCESS_def)
      obtain m where m: "owned h1 st = None" "owned h2 = (owned h1)(st \<mapsto> m)" "unat ssize \<le> 0xFFFFFFF0 \<longrightarrow> unat ssize \<le> m"
        using kheap.malloc_own [OF m1(2) m2(1) st] by blast
      have ne: "p \<noteq> st" "owned (kheap s) st = None" using m(1) n(2) by (auto split: if_splits)
      have "started p entry ssize s (snd (scheduler_add_process p v))"
        unfolding started_def Let_def keep(1) keep(3) [OF pok(2)] hv(1) pv
        using n m ne new_process_ok(2) [of "next_pid s" name spec] by (auto simp: runnable_def new_process_def)
      with k add keep hv False show ?thesis by auto
    qed
  qed
qed


subsection \<open>Events\<close>

text \<open>Resuming removes the matching hooks of every process of the table and changes nothing else.\<close>

definition waits :: "HookType \<Rightarrow> u64 \<Rightarrow> Process \<Rightarrow> Process" where
  "waits ty v p = (if process_has_matching_hook p ty v then remove_matching_hooks p ty v else p)"

lemma waits_hooks:
  assumes "proc_ok p"
  shows "proc_ok (waits ty v p)" "active_hooks (waits ty v p) = filter (\<lambda>h. \<not> hook_matches ty v h) (active_hooks p)"
    "waits ty v (waits ty v p) = waits ty v p" "\<exists>hs n. waits ty v p = p\<lparr>hooks := hs, hook_count := n\<rparr>"
proof -
  note r = remove_matching_hooks_spec [OF assms, of ty v] and m = has_matching_hook_iff [OF assms, of ty v]
  show ok: "proc_ok (waits ty v p)" using r assms by (simp add: waits_def)
  show f: "active_hooks (waits ty v p) = filter (\<lambda>h. \<not> hook_matches ty v h) (active_hooks p)"
    using r m by (simp add: waits_def filter_id_conv)
  show "waits ty v (waits ty v p) = waits ty v p"
    using has_matching_hook_iff [OF ok, of ty v] f by (simp add: waits_def [of ty v "waits ty v p"])
  have "p = p\<lparr>hooks := hooks p, hook_count := hook_count p\<rparr>" by simp
  then show "\<exists>hs n. waits ty v p = p\<lparr>hooks := hs, hook_count := n\<rparr>" using r unfolding waits_def by metis
qed

lemma resume_slots_spec:
  assumes "\<forall>i<32. process_table s ! i \<noteq> 0 \<longrightarrow> proc_ok (procs s (process_table s ! i))" "set js \<subseteq> {..<32}"
  shows "fold (resume_slot ty v) js s = s\<lparr>procs := \<lambda>a. if a \<noteq> 0 \<and> (\<exists>j\<in>set js. process_table s ! j = a) then waits ty v (procs s a) else procs s a\<rparr>"
  using assms
proof (induction js arbitrary: s)
  case (Cons j js)
  let ?a = "process_table s ! j"
  have step: "resume_slot ty v j s = (if ?a \<noteq> 0 then upd_proc ?a (waits ty v) s else s)"
    by (auto simp: resume_slot_def upd_proc_def waits_def Let_def)
  let ?u = "resume_slot ty v j s"
  have pt: "process_table ?u = process_table s" "?u\<lparr>procs := f\<rparr> = s\<lparr>procs := f\<rparr>" for f
    by (auto simp: step upd_proc_def)
  have j: "j < 32" "set js \<subseteq> {..<32}" using Cons.prems(2) by auto
  have "\<forall>i<32. process_table ?u ! i \<noteq> 0 \<longrightarrow> proc_ok (procs ?u (process_table ?u ! i))"
    using Cons.prems(1) j(1) waits_hooks(1) by (auto simp: pt step upd_proc_def)
  note IH = Cons.IH [OF this j(2)]
  have "(if a \<noteq> 0 \<and> (\<exists>k\<in>set js. process_table s ! k = a) then waits ty v (procs ?u a) else procs ?u a) =
      (if a \<noteq> 0 \<and> (\<exists>k\<in>set (j # js). process_table s ! k = a) then waits ty v (procs s a) else procs s a)" for a
  proof (cases "a = ?a \<and> a \<noteq> 0")
    case True
    then have "waits ty v (waits ty v (procs s a)) = waits ty v (procs s a)"
      using Cons.prems(1) j(1) by (intro waits_hooks(3)) auto
    with True show ?thesis by (simp add: step upd_proc_def)
  qed (auto simp: step upd_proc_def)
  then show ?case by (simp add: IH pt)
qed (auto simp: fun_eq_iff)

lemma resume_spec:
  assumes "sched_ok s"
  shows "scheduler_resume_processes_for_event ty v s =
    s\<lparr>procs := \<lambda>a. if a \<noteq> 0 \<and> a \<in> set (process_table s) then waits ty v (procs s a) else procs s a\<rparr>"
proof -
  have "(\<exists>j\<in>set [0..<32]. process_table s ! j = a) \<longleftrightarrow> a \<in> set (process_table s)" for a
    using sched_okD(1) [OF assms] by (auto simp: in_set_conv_nth)
  then show ?thesis
    using resume_slots_spec [of s "[0..<32]" ty v] sched_okD(8) [OF assms]
    by (simp add: scheduler_resume_processes_for_event_def MAX_PROCESSES_def proc_fit_def atLeast0LessThan)
qed

lemma waits_fields [simp]:
  assumes "proc_ok p"
  shows "io_events (waits ty v p) = io_events p" "pid (waits ty v p) = pid p" "alive (waits ty v p) = alive p"
proof -
  obtain hs n where "waits ty v p = p\<lparr>hooks := hs, hook_count := n\<rparr>" using waits_hooks(4) [OF assms] by blast
  then show "io_events (waits ty v p) = io_events p" "pid (waits ty v p) = pid p" "alive (waits ty v p) = alive p" by simp_all
qed

text \<open>Dispatching a focus event to a living process of the table.\<close>

lemma dispatch_spec:
  assumes "sched_ok s" "a \<in> set (process_table s)" "a \<noteq> 0" "alive (procs s a) \<noteq> 0"
  shows "queued (io_events (procs (dispatch_focus_event a code v s) a)) \<noteq> []"
    "last (queued (io_events (procs (dispatch_focus_event a code v s) a))) = EVENT_PROCESS code v"
    "\<And>b. b \<noteq> a \<Longrightarrow> b \<in> set (process_table s) \<Longrightarrow> b \<noteq> 0 \<Longrightarrow>
       io_events (procs (dispatch_focus_event a code v s) b) = io_events (procs s b) \<and> alive (procs (dispatch_focus_event a code v s) b) = alive (procs s b) \<and>
       pid (procs (dispatch_focus_event a code v s) b) = pid (procs s b)"
    "process_table (dispatch_focus_event a code v s) = process_table s"
    "foreground_proc (dispatch_focus_event a code v s) = foreground_proc s"
    "foreground_stack (dispatch_focus_event a code v s) = foreground_stack s"
    "foreground_stack_top (dispatch_focus_event a code v s) = foreground_stack_top s"
proof -
  let ?u = "upd_proc a (push_io_event (EVENT_PROCESS code v)) s"
  have u: "sched_ok ?u" using assms(1) by (simp add: upd_proc_ok push_fit)
  have fit: "proc_ok (procs s b)" if "b \<in> set (process_table s)" "b \<noteq> 0" for b
    using that sched_okD(1,8) [OF assms(1)] by (auto simp: in_set_conv_nth proc_fit_def)
  have d: "dispatch_focus_event a code v s = scheduler_resume_processes_for_event SIGNAL (of_int (pid (procs s a))) ?u"
    using assms(3,4) by (simp add: dispatch_focus_event_def)
  note r = resume_spec [OF u]
  have pt: "process_table ?u = process_table s" by (simp add: upd_proc_def)
  have pu: "procs ?u a = push_io_event (EVENT_PROCESS code v) (procs s a)" "\<And>b. b \<noteq> a \<Longrightarrow> procs ?u b = procs s b"
    by (simp_all add: upd_proc_def)
  have ok: "proc_ok (procs s a)" by (rule fit [OF assms(2,3)])
  then have ok': "proc_ok (procs ?u a)" by (simp add: pu push_proc_ok)
  have "queued (io_events (procs ?u a)) = (if length (queued (io_events (procs s a))) < 128 then queued (io_events (procs s a))
      else tl (queued (io_events (procs s a)))) @ [EVENT_PROCESS code v]"
    unfolding pu using ok by (intro push_queued(3)) (simp_all add: proc_ok_def)
  then show "queued (io_events (procs (dispatch_focus_event a code v s) a)) \<noteq> []"
    "last (queued (io_events (procs (dispatch_focus_event a code v s) a))) = EVENT_PROCESS code v"
    using ok' assms(2,3) pt by (simp_all add: d r)
  show "io_events (procs (dispatch_focus_event a code v s) b) = io_events (procs s b) \<and> alive (procs (dispatch_focus_event a code v s) b) = alive (procs s b) \<and>
       pid (procs (dispatch_focus_event a code v s) b) = pid (procs s b)"
    if "b \<noteq> a" "b \<in> set (process_table s)" "b \<noteq> 0" for b
    using that fit [OF that(2,3)] by (simp add: d r pu)
  show "process_table (dispatch_focus_event a code v s) = process_table s"
    "foreground_proc (dispatch_focus_event a code v s) = foreground_proc s"
    "foreground_stack (dispatch_focus_event a code v s) = foreground_stack s"
    "foreground_stack_top (dispatch_focus_event a code v s) = foreground_stack_top s"
    unfolding d r by (simp_all add: upd_proc_def)
qed


lemma activate_keeps [simp]:
  "procs (activate p s) = procs s" "foreground_proc (activate p s) = foreground_proc s" "process_table (activate p s) = process_table s"
  "foreground_stack (activate p s) = foreground_stack s" "foreground_stack_top (activate p s) = foreground_stack_top s"
  by (simp_all add: activate_def)

lemma dispatch_keeps [simp]:
  "sched_ok s \<Longrightarrow> foreground_proc (dispatch_focus_event a code v s) = foreground_proc s"
  "sched_ok s \<Longrightarrow> foreground_stack (dispatch_focus_event a code v s) = foreground_stack s"
  "sched_ok s \<Longrightarrow> foreground_stack_top (dispatch_focus_event a code v s) = foreground_stack_top s"
proof -
  assume "sched_ok s"
  then have r: "sched_ok (upd_proc a (push_io_event (EVENT_PROCESS code v)) s)" by (simp add: upd_proc_ok push_fit)
  show "foreground_proc (dispatch_focus_event a code v s) = foreground_proc s"
    "foreground_stack (dispatch_focus_event a code v s) = foreground_stack s"
    "foreground_stack_top (dispatch_focus_event a code v s) = foreground_stack_top s"
    by (simp_all add: dispatch_focus_event_def resume_spec [OF r]) (simp_all add: upd_proc_def)
qed

lemma switch_foreground_fields:
  assumes "sched_ok s"
  shows "foreground_proc (scheduler_switch_foreground prev target s) = (if prev = target then foreground_proc s else target)"
    "foreground_stack (scheduler_switch_foreground prev target s) = foreground_stack s"
    "foreground_stack_top (scheduler_switch_foreground prev target s) = foreground_stack_top s"
  using assms by (simp_all add: scheduler_switch_foreground_def dispatch_ok Let_def)

lemma push_alive [simp]: "alive (push_io_event e p) = alive p"
  by (simp add: push_io_event_def ensure_event_queue_integrity_def reset_event_queue_def Let_def)

lemma dispatch_table:
  assumes "sched_ok s"
  shows "alive (procs (dispatch_focus_event a code v s) b) = alive (procs s b)"
    "process_table (dispatch_focus_event a code v s) = process_table s" "process_count (dispatch_focus_event a code v s) = process_count s"
proof -
  let ?u = "upd_proc a (push_io_event (EVENT_PROCESS code v)) s"
  have u: "sched_ok ?u" using assms by (simp add: upd_proc_ok push_fit)
  have "proc_ok (procs ?u b)" if "b \<in> set (process_table ?u)" "b \<noteq> 0" for b
    using that sched_okD(1,8) [OF u] by (auto simp: in_set_conv_nth proc_fit_def)
  then show "alive (procs (dispatch_focus_event a code v s) b) = alive (procs s b)"
    by (simp add: dispatch_focus_event_def resume_spec [OF u]) (simp add: upd_proc_def)
  show "process_table (dispatch_focus_event a code v s) = process_table s" "process_count (dispatch_focus_event a code v s) = process_count s"
    unfolding dispatch_focus_event_def resume_spec [OF u] by (simp_all add: upd_proc_def)
qed

lemma switch_foreground_table:
  assumes "sched_ok s"
  shows "alive (procs (scheduler_switch_foreground prev target s) b) = alive (procs s b)"
    "process_table (scheduler_switch_foreground prev target s) = process_table s"
    "process_count (scheduler_switch_foreground prev target s) = process_count s"
  using assms by (simp_all add: scheduler_switch_foreground_def dispatch_ok dispatch_table activate_def Let_def)

lemma next_process_spec:
  assumes ok: "sched_ok s" and "total_tickets s runnable [0..<32] < 2 ^ 31"
  shows "case scheduler_next_process s of (p, s') \<Rightarrow>
    (p = 0 \<longleftrightarrow> \<not> (\<exists>i<32. process_table s ! i \<noteq> 0 \<and> runnable (procs s (process_table s ! i)))) \<and>
    (p \<noteq> 0 \<longrightarrow> runnable (procs s p) \<and> scheduler_current_process s' = p \<and> procs s' = procs s \<and> process_table s' = process_table s \<and>
      frames s' = frames s \<and> switch_to_trampoline s' = switch_to_trampoline s) \<and> (p = 0 \<longrightarrow> s' = s)"
proof -
  note t = sched_ok_ticketed [OF ok]
  have c0: "process_count s = 0 \<longleftrightarrow> (\<forall>i<32. process_table s ! i = 0)"
    using sched_okD(3) [OF ok] by auto
  show ?thesis
  proof (cases "total_tickets s runnable [0..<32] = 0")
    case True
    then show ?thesis using total_zero_iff(1) [OF t, of runnable] by (auto simp: scheduler_next_process_def MAX_PROCESSES_def)
  next
    case False
    have pos: "0 < total_tickets s runnable [0..<32]" using False total_zero_iff(2) [OF t, of runnable] by simp
    obtain i where i: "i < 32" "lottery runnable s = (process_table s ! i, (snd (xorshift32 s))\<lparr>current_process_idx := int i\<rparr>)"
      "process_table s ! i \<noteq> 0" "runnable (procs s (process_table s ! i))"
      using lottery_spec [OF t pos assms(2)] by blast
    have "process_count s \<noteq> 0" using c0 i(1,3) by blast
    with False i show ?thesis
      by (auto simp: scheduler_next_process_def MAX_PROCESSES_def scheduler_current_process_def xorshift32_def Let_def)
  qed
qed

subsection \<open>Properties\<close>

text \<open>The states that the kernel reaches after \<open>scheduler_init\<close>, by the operations of this theory. Programs also work on the
  heap and on the windows, within the invariants of those components.\<close>

inductive sched_reach :: "sched \<Rightarrow> bool" where
  boot: "xorshift32_state s \<noteq> 0 \<Longrightarrow> quantum_counter s = 0 \<Longrightarrow> wins_ok (windows s) \<Longrightarrow> heap_ok (kheap s) \<Longrightarrow> sched_reach (scheduler_init s)"
| start: "sched_reach s \<Longrightarrow> k_start_process name entry spec ssize s = Some (p, s') \<Longrightarrow> sched_reach s'"
| kill: "sched_reach s \<Longrightarrow> sched_reach (kill_process p s)"
| remove: "sched_reach s \<Longrightarrow> sched_reach (snd (scheduler_remove_process p_id s))"
| tick: "sched_reach s \<Longrightarrow> scheduler_on_tick regs s = Inr s' \<Longrightarrow> sched_reach s'"
| switch: "sched_reach s \<Longrightarrow> context_switch regs s = Inr s' \<Longrightarrow> sched_reach s'"
| exit: "sched_reach s \<Longrightarrow> scheduler_exit_current_and_switch s = Inr s' \<Longrightarrow> sched_reach s'"
| eligible: "sched_reach s \<Longrightarrow> sched_reach (snd (scheduler_next_eligible_process ty v s))"
| resume: "sched_reach s \<Longrightarrow> sched_reach (scheduler_resume_processes_for_event ty v s)"
| yield: "sched_reach s \<Longrightarrow> sched_reach (upd_proc p (\<lambda>q. process_yield_for_event q ty v) s)"
| event: "sched_reach s \<Longrightarrow> sched_reach (upd_proc p (push_io_event e) s)"
| set_tickets: "sched_reach s \<Longrightarrow> sched_reach (upd_proc p (\<lambda>q. set_process_tickets q n) s)"
| set_foreground: "sched_reach s \<Longrightarrow> sched_reach (scheduler_set_foreground p s)"
| restore_foreground: "sched_reach s \<Longrightarrow> sched_reach (scheduler_restore_foreground p s)"
| window: "sched_reach s \<Longrightarrow> wins_ok w \<Longrightarrow> sched_reach (s\<lparr>windows := w\<rparr>)"
| memory: "sched_reach s \<Longrightarrow> heap_ok h \<Longrightarrow> sched_reach (s\<lparr>kheap := h\<rparr>)"

lemma yield_fit: "proc_fit p \<Longrightarrow> proc_fit (process_yield_for_event p ty v)"
  using yield_for_event_spec(1) [of p ty v]
  by (auto simp: proc_fit_def process_yield_for_event_def process_register_hook_def)

lemma init_sched_ok:
  "xorshift32_state s \<noteq> 0 \<Longrightarrow> quantum_counter s = 0 \<Longrightarrow> wins_ok (windows s) \<Longrightarrow> heap_ok (kheap s) \<Longrightarrow> sched_ok (scheduler_init s)"
  by (simp add: sched_ok_def scheduler_init_def MAX_PROCESSES_def)

lemma sched_reach_ok: "sched_reach s \<Longrightarrow> sched_ok s"
proof (induction rule: sched_reach.induct)
  case (start s name entry spec ssize p s')
  then show ?case using k_start_spec [of s name entry spec ssize] by auto
next
  case (yield s p ty v)
  then show ?case by (intro upd_proc_ok yield_fit)
next
  case (event s p e)
  then show ?case by (intro upd_proc_ok push_fit)
next
  case (set_tickets s p n)
  then show ?case by (intro upd_proc_ok small_fits)
qed (blast intro: init_sched_ok kill_ok remove_process_ok tick_ok context_switch_ok exit_ok next_eligible_ok resume_ok
    set_foreground_ok restore_foreground_ok windows_upd_ok sched_ok_heap)+

text \<open>C12. In every reachable state the process count is the number of entries of the table, the current index and the
  top of the foreground stack are within their arrays, every process of the table has a valid header, a healthy event queue,
  at most eight hooks and at least one ticket, the random state is never zero and the quantum counter stays below ten.\<close>

theorem scheduler_invariant:
  assumes "sched_reach s"
  shows "process_count s = int (card {i. i < 32 \<and> process_table s ! i \<noteq> 0}) \<and>
    -1 \<le> current_process_idx s \<and> current_process_idx s < 32 \<and> -1 \<le> foreground_stack_top s \<and> foreground_stack_top s < 32 \<and>
    (\<forall>i. i < 32 \<and> process_table s ! i \<noteq> 0 \<longrightarrow> proc_ok (procs s (process_table s ! i)) \<and> tickets (procs s (process_table s ! i)) > 0) \<and>
    xorshift32_state s \<noteq> 0 \<and> 0 \<le> quantum_counter s \<and> quantum_counter s < SCHEDULER_QUANTUM_TICKS"
  using sched_okD [OF sched_reach_ok [OF assms]] by (simp add: proc_fit_def SCHEDULER_QUANTUM_TICKS_def)

text \<open>\<open>scheduler_next_process\<close> returns \<open>NULL\<close> exactly when no process of the table is alive and free of hooks;
  otherwise it returns such a process and makes it the current one.\<close>

theorem next_process_correct:
  assumes "sched_ok s" "total_tickets s runnable [0..<32] < 2 ^ 31"
  shows "case scheduler_next_process s of (p, s') \<Rightarrow>
    (p = 0 \<longleftrightarrow> \<not> (\<exists>i<32. process_table s ! i \<noteq> 0 \<and> runnable (procs s (process_table s ! i)))) \<and>
    (p \<noteq> 0 \<longrightarrow> runnable (procs s p) \<and> scheduler_current_process s' = p \<and> procs s' = procs s \<and> process_table s' = process_table s)"
  using next_process_spec [OF assms] by (auto split: prod.splits)

text \<open>C13. The lottery is fair: of the equally many residues that the random number can have, exactly as many choose a
  runnable process as it holds tickets.\<close>

theorem lottery_fair:
  assumes "sched_ok s" "i < 32" "process_table s ! i \<noteq> 0" "runnable (procs s (process_table s ! i))"
  shows "card {w. 0 \<le> w \<and> w < total_tickets s runnable [0..<32] \<and> draw_winner s runnable w 0 [0..<32] = Some i} =
    nat (tickets (procs s (process_table s ! i)))"
proof -
  have t: "ticketed s" by (rule sched_ok_ticketed [OF assms(1)])
  let ?W = "\<lambda>xs. sum_list (map (weight s runnable) xs)"
  have w: "weight s runnable i = tickets (procs s (process_table s ! i))" using assms(3,4) by (simp add: weight_def)
  have nn: "0 \<le> ?W xs" if "set xs \<subseteq> {0..<32}" for xs
    using ticketed_weight [OF t, of runnable] that by (intro sum_list_nonneg) auto
  have "[0..<32] = [0..<i] @ i # [Suc i..<32]" using assms(2) by (simp add: upt_split)
  then have tot: "total_tickets s runnable [0..<32] = ?W [0..<i] + weight s runnable i + ?W [Suc i..<32]"
    unfolding total_tickets_weight by simp
  have "{w. 0 \<le> w \<and> w < total_tickets s runnable [0..<32] \<and> draw_winner s runnable w 0 [0..<32] = Some i} =
      {?W [0..<i] ..< ?W [0..<i] + weight s runnable i}"
    using draw_interval [OF t _ assms(2), of _ runnable] nn [of "[0..<i]"] nn [of "[Suc i..<32]"] assms(2)
    unfolding tot by auto
  then show ?thesis by (simp add: w)
qed


text \<open>C14. A context switch without a current process does nothing. Otherwise it saves the registers of a living current
  process; when no process can run it keeps the current one, or panics when that one is dead; else it makes a runnable process
  current and, unless that is the process already running, directs the interrupted frame to the trampoline that loads its context.\<close>

theorem context_switch_correct:
  assumes "sched_ok s" "total_tickets s runnable [0..<32] < 2 ^ 31"
  defines "cur \<equiv> scheduler_current_process s"
  defines "none \<equiv> \<not> (\<exists>i<32. process_table s ! i \<noteq> 0 \<and> runnable (procs s (process_table s ! i)))"
  shows "if cur = 0 then context_switch regs s = Inr s
    else if none \<and> alive (procs s cur) = 0 then \<exists>msg. context_switch regs s = Inl (PANIC msg)
    else if none then context_switch regs s = Inr (upd_proc cur (save_context (frames s regs)) s)
    else \<exists>s' p. context_switch regs s = Inr s' \<and> scheduler_current_process s' = p \<and> p \<noteq> 0 \<and> runnable (procs s p) \<and>
      (alive (procs s cur) \<noteq> 0 \<longrightarrow> cpu_context (procs s' cur) = cpu_context (save_context (frames s regs) (procs s cur))) \<and>
      (p \<noteq> cur \<longrightarrow> g_next_context s' = p \<and> r_eip (frames s' regs) = switch_to_trampoline s \<and> last_regs s' = regs \<and> procs s' p = procs s p) \<and>
      (p = cur \<longrightarrow> frames s' = frames s)"
proof (cases "cur = 0")
  case False
  define u where "u = (if alive (procs s cur) \<noteq> 0 then upd_proc cur (save_context (frames s regs)) s else s)"
  have u: "sched_ok u" using assms(1) by (simp add: u_def upd_proc_ok small_fits)
  have keep: "process_table u = process_table s" "frames u = frames s" "switch_to_trampoline u = switch_to_trampoline s"
    by (simp_all add: u_def upd_proc_def)
  have fld: "alive (procs u a) = alive (procs s a)" "hook_count (procs u a) = hook_count (procs s a)" "tickets (procs u a) = tickets (procs s a)" for a
    by (simp_all add: u_def upd_proc_def save_context_def)
  have run: "runnable (procs u a) = runnable (procs s a)" for a by (simp add: runnable_def fld)
  have tot: "total_tickets u runnable is = total_tickets s runnable is" for "is" by (induction "is") (simp_all add: keep run fld Let_def)
  obtain p v where v: "scheduler_next_process u = (p, v)" by fastforce
  note n = next_process_spec [OF u assms(2) [folded tot], unfolded v prod.case keep run]
  have cs: "context_switch regs s = (if p = 0 then (if alive (procs v cur) = 0
        then Inl (PANIC ''No runnable processes left after current process exit'') else Inr v)
      else if p = cur \<and> alive (procs v cur) \<noteq> 0 then Inr v
      else Inr (v\<lparr>g_next_context := p, frames := (frames v)(regs := (frames v regs)\<lparr>r_eip := switch_to_trampoline v\<rparr>), last_regs := regs\<rparr>))"
    using False by (simp add: context_switch_def cur_def [symmetric] u_def [symmetric] v)
  show ?thesis
  proof (cases none)
    case True
    then have "p = 0" "v = u" using n by (auto simp: none_def)
    then show ?thesis using cs False True fld by (auto simp: u_def)
  next
    case none: False
    then have p: "p \<noteq> 0" "runnable (procs s p)" "scheduler_current_process v = p" "procs v = procs u" "frames v = frames s"
      "switch_to_trampoline v = switch_to_trampoline s" using n by (auto simp: none_def)
    have al: "alive (procs s p) \<noteq> 0" using p(2) by (simp add: runnable_def)
    have sv: "alive (procs s cur) \<noteq> 0 \<Longrightarrow> cpu_context (procs u cur) = cpu_context (save_context (frames s regs) (procs s cur))"
      "p \<noteq> cur \<Longrightarrow> procs u p = procs s p" by (simp_all add: u_def upd_proc_def)
    show ?thesis
    proof (cases "p = cur")
      case True
      then have "context_switch regs s = Inr v" using cs p al fld by simp
      then show ?thesis using False none p sv True by simp
    next
      case ne: False
      then have "context_switch regs s = Inr (v\<lparr>g_next_context := p, frames := (frames v)(regs := (frames v regs)\<lparr>r_eip := switch_to_trampoline v\<rparr>), last_regs := regs\<rparr>)"
        using cs p by simp
      moreover have "scheduler_current_process (v\<lparr>g_next_context := a, frames := f, last_regs := r\<rparr>) = p" for a f r
        unfolding p(3) [symmetric] by (simp add: scheduler_current_process_def)
      ultimately show ?thesis using False none p sv ne by simp
    qed
  qed
qed (simp add: context_switch_def cur_def)

text \<open>Leaving a process panics exactly when no process of the table is alive, and otherwise continues with a living process.\<close>

theorem exit_switch_correct:
  assumes "sched_ok s" "total_tickets s (\<lambda>p. alive p \<noteq> 0) [0..<32] < 2 ^ 31"
  shows "case scheduler_exit_current_and_switch s of
      Inl _ \<Rightarrow> \<forall>i<32. process_table s ! i = 0 \<or> alive (procs s (process_table s ! i)) = 0
    | Inr s' \<Rightarrow> g_next_context s' \<noteq> 0 \<and> g_next_context s' = scheduler_current_process s' \<and> alive (procs s (g_next_context s')) \<noteq> 0"
proof -
  let ?P = "\<lambda>p. alive p \<noteq> 0"
  note t = sched_ok_ticketed [OF assms(1)]
  show ?thesis
  proof (cases "total_tickets s ?P [0..<32] = 0")
    case True
    then show ?thesis using total_zero_iff(1) [OF t, of ?P] by (simp add: scheduler_exit_current_and_switch_def MAX_PROCESSES_def)
  next
    case False
    have pos: "0 < total_tickets s ?P [0..<32]" using False total_zero_iff(2) [OF t, of ?P] by simp
    obtain i where i: "i < 32" "lottery ?P s = (process_table s ! i, (snd (xorshift32 s))\<lparr>current_process_idx := int i\<rparr>)"
      "process_table s ! i \<noteq> 0" "alive (procs s (process_table s ! i)) \<noteq> 0"
      using lottery_spec [OF t pos assms(2)] by blast
    then show ?thesis using False
      by (simp add: scheduler_exit_current_and_switch_def MAX_PROCESSES_def scheduler_current_process_def xorshift32_def Let_def)
  qed
qed

text \<open>C15. When an event occurs, every process of the table loses exactly its hooks for that event, so that a living process
  that was waiting for nothing else can run, and no other process and no other field changes.\<close>

theorem resume_wakes:
  fixes ty :: HookType and v :: u64
  assumes "sched_ok s"
  defines "s' \<equiv> scheduler_resume_processes_for_event ty v s"
  shows "process_table s' = process_table s \<and>
    (\<forall>p. p \<noteq> 0 \<and> p \<in> set (process_table s) \<longrightarrow>
       active_hooks (procs s' p) = filter (\<lambda>h. \<not> hook_matches ty v h) (active_hooks (procs s p)) \<and>
       (alive (procs s p) \<noteq> 0 \<and> (\<forall>h\<in>set (active_hooks (procs s p)). hook_matches ty v h) \<longrightarrow> runnable (procs s' p))) \<and>
    (\<forall>p. p = 0 \<or> p \<notin> set (process_table s) \<longrightarrow> procs s' p = procs s p)"
proof -
  note r = resume_spec [OF assms(1), of ty v, folded s'_def]
  have fit: "proc_ok (procs s p)" if "p \<in> set (process_table s)" "p \<noteq> 0" for p
    using that sched_okD(1,8) [OF assms(1)] by (auto simp: in_set_conv_nth proc_fit_def)
  have run: "runnable (waits ty v (procs s p))"
    if "proc_ok (procs s p)" "alive (procs s p) \<noteq> 0" "\<forall>h\<in>set (active_hooks (procs s p)). hook_matches ty v h" for p
  proof -
    have "active_hooks (waits ty v (procs s p)) = []" using waits_hooks(2) [OF that(1)] that(3) by (simp add: filter_False)
    with waits_hooks(1) [OF that(1), of ty v] have "hook_count (waits ty v (procs s p)) = 0" by (auto simp: active_hooks_def proc_ok_def)
    with that(1,2) show ?thesis by (simp add: runnable_def)
  qed
  show ?thesis using fit run waits_hooks(2) by (simp add: r)
qed


text \<open>When a program takes the foreground from another one and then gives it back, the other one has it again and
  the stack is as before; meanwhile the previous owner is told that it lost the focus, the new one that it gained it.\<close>

theorem foreground_roundtrip:
  assumes "sched_ok s" "foreground_proc s \<noteq> p" "foreground_proc s \<noteq> 0" "p \<noteq> 0" "foreground_stack_top s < 31"
    "p \<in> set (process_table s)" "foreground_proc s \<in> set (process_table s)" "alive (procs s p) \<noteq> 0" "alive (procs s (foreground_proc s)) \<noteq> 0"
  defines "s' \<equiv> scheduler_set_foreground p s"
  shows "foreground_proc s' = p \<and>
    last (queued (io_events (procs s' (foreground_proc s)))) = EVENT_PROCESS PROCESS_EVENT_FOCUS_LOST (pid (procs s p)) \<and>
    last (queued (io_events (procs s' p))) = EVENT_PROCESS PROCESS_EVENT_FOCUS_GAINED (pid (procs s p)) \<and>
    foreground_proc (scheduler_restore_foreground p s') = foreground_proc s \<and>
    foreground_stack_top (scheduler_restore_foreground p s') = foreground_stack_top s"
proof -
  let ?f = "foreground_proc s" and ?top = "foreground_stack_top s"
  note o = sched_okD [OF assms(1)]
  define u where "u = s\<lparr>foreground_stack_top := ?top + 1, foreground_stack := (foreground_stack s)[nat (?top + 1) := ?f]\<rparr>"
  have u: "sched_ok u" using assms(1,5) by (simp add: sched_ok_def u_def)
  have s': "s' = scheduler_switch_foreground ?f p u"
    using assms(2,3,5) by (simp add: s'_def scheduler_set_foreground_def u_def MAX_PROCESSES_def Let_def)
  note fld = switch_foreground_fields [OF u, of ?f p, folded s']
  have ok': "sched_ok s'" unfolding s'_def by (rule set_foreground_ok [OF assms(1)])
  have fp: "foreground_proc s' = p" using fld(1) assms(2) by simp
  have top: "foreground_stack_top s' = ?top + 1" "foreground_stack s' ! nat (?top + 1) = ?f"
    using fld(2,3) o(2,6,7) assms(5) by (simp_all add: u_def)
  define v where "v = dispatch_focus_event ?f PROCESS_EVENT_FOCUS_LOST (pid (procs s p)) (u\<lparr>foreground_proc := p\<rparr>)"
  have uf: "sched_ok (u\<lparr>foreground_proc := p\<rparr>)" "?f \<in> set (process_table (u\<lparr>foreground_proc := p\<rparr>))" "?f \<noteq> 0" "alive (procs (u\<lparr>foreground_proc := p\<rparr>) ?f) \<noteq> 0"
    using u assms(3,7,9) by (simp_all add: u_def)
  note d1 = dispatch_spec [OF uf, where code = PROCESS_EVENT_FOCUS_LOST and v = "pid (procs s p)", folded v_def]
  have vp: "alive (procs v p) \<noteq> 0" "pid (procs v p) = pid (procs s p)" "p \<in> set (process_table v)" "process_table v = process_table s"
    using d1(3) [of p] d1(4) assms(2,4,6,8) by (auto simp: u_def)
  have v: "sched_ok v" unfolding v_def by (rule dispatch_ok [OF uf(1)])
  note d2 = dispatch_spec [OF v vp(3) assms(4) vp(1), where code = PROCESS_EVENT_FOCUS_GAINED and v = "pid (procs s p)"]
  have pr: "procs s' = procs (dispatch_focus_event p PROCESS_EVENT_FOCUS_GAINED (pid (procs s p)) v)"
    unfolding s' using assms(2-4) vp(2) by (simp add: scheduler_switch_foreground_def v_def Let_def u_def)
  have ev: "last (queued (io_events (procs s' ?f))) = EVENT_PROCESS PROCESS_EVENT_FOCUS_LOST (pid (procs s p))"
    "last (queued (io_events (procs s' p))) = EVENT_PROCESS PROCESS_EVENT_FOCUS_GAINED (pid (procs s p))"
    using d1(2) d2(2) d2(3) [of ?f] assms(2,3,7) vp(4) by (simp_all add: pr)
  define w where "w = s'\<lparr>foreground_stack_top := ?top\<rparr>"
  define x where "x = (if alive (procs w ?f) \<noteq> 0 then upd_proc ?f (\<lambda>p. p\<lparr>hook_count := 0\<rparr>) w else w)"
  have "sched_ok w" using ok' o(6,7) by (simp add: w_def sched_ok_def)
  then have x: "sched_ok x" by (simp add: x_def upd_proc_ok small_fits)
  have "scheduler_restore_foreground p s' = scheduler_switch_foreground p ?f x"
    using fp top assms(3,4) o(6) by (simp add: scheduler_restore_foreground_def w_def x_def Let_def)
  then have "foreground_proc (scheduler_restore_foreground p s') = ?f" "foreground_stack_top (scheduler_restore_foreground p s') = ?top"
    using switch_foreground_fields [OF x, of p ?f] assms(2) by (simp_all add: x_def w_def upd_proc_def)
  with fp ev show ?thesis by simp
qed

text \<open>Starting a process always returns and keeps the scheduler well formed. Unless memory runs out the result is a
  runnable process with the next pid, whose registers point to its entry and to the end of a stack of its own, both allocated
  freshly on the heap; it is in the table of processes exactly when that had room, but the caller gets the pointer even when the
  table was full and the process will never run.\<close>

theorem k_start_process_correct:
  assumes "sched_ok s"
  shows "\<exists>p s'. k_start_process name entry spec ssize s = Some (p, s') \<and> sched_ok s' \<and>
    (p = 0 \<longrightarrow> process_table s' = process_table s) \<and>
    (p \<noteq> 0 \<longrightarrow> started p entry ssize s s' \<and> next_pid s' = next_pid s + 1 \<and>
       (if process_count s < 32 then p \<in> set (process_table s') else process_table s' = process_table s))"
  by (rule k_start_spec [OF assms])

text \<open>Killing a process of the table marks it dead, removes its keyboard handler, and leaves it in the table, whose
  slots are therefore never freed. When it had the foreground, the top of the foreground stack gets it, even if that process is
  dead too.\<close>

theorem kill_process_correct:
  assumes "sched_ok s" "p \<noteq> 0" "p \<in> set (process_table s)" "foreground_stack_top s \<ge> 0" "foreground_stack s ! nat (foreground_stack_top s) \<noteq> p"
  shows "alive (procs (kill_process p s) p) = 0 \<and> process_table (kill_process p s) = process_table s \<and>
    process_count (kill_process p s) = process_count s \<and>
    foreground_proc (kill_process p s) =
      (if foreground_proc s = p then foreground_stack s ! nat (foreground_stack_top s) else foreground_proc s)"
proof -
  define u where "u = upd_proc p (\<lambda>q. q\<lparr>alive := 0\<rparr>) (upd_proc p (\<lambda>q. register_keyboard_handler q 0) s)"
  define w where "w = u\<lparr>windows := on_process_exit p (windows u)\<rparr>"
  have u: "sched_ok u" unfolding u_def by (intro upd_proc_ok assms(1) small_fits)
  then have w: "sched_ok w" unfolding w_def by (intro windows_upd_ok on_exit_ok sched_okD(12))
  have "proc_ok (procs s p)" using assms(2,3) sched_okD(1,8) [OF assms(1)] by (auto simp: in_set_conv_nth proc_fit_def)
  then have k: "kill_process p s = scheduler_restore_foreground p w"
    using assms(2) by (simp add: kill_process_def u_def w_def proc_ok_def Let_def)
  have fld: "alive (procs w p) = 0" "process_table w = process_table s" "process_count w = process_count s" "foreground_proc w = foreground_proc s"
    "foreground_stack w = foreground_stack s" "foreground_stack_top w = foreground_stack_top s"
    by (simp_all add: w_def u_def upd_proc_def)
  show ?thesis
  proof (cases "foreground_proc s = p")
    case False
    then show ?thesis using k fld assms(2) by (simp add: scheduler_restore_foreground_def)
  next
    case True
    let ?t = "foreground_stack s ! nat (foreground_stack_top s)"
    define v where "v = w\<lparr>foreground_stack_top := foreground_stack_top s - 1\<rparr>"
    define x where "x = (if ?t \<noteq> 0 \<and> alive (procs v ?t) \<noteq> 0 then upd_proc ?t (\<lambda>p. p\<lparr>hook_count := 0\<rparr>) v else v)"
    have "sched_ok v" using w assms(4) fld(6) by (simp add: v_def sched_ok_def)
    then have x: "sched_ok x" by (simp add: x_def upd_proc_ok small_fits)
    have r: "kill_process p s = scheduler_switch_foreground p ?t x"
      using k fld True assms(4) by (simp add: scheduler_restore_foreground_def v_def x_def Let_def)
    have xf: "alive (procs x p) = 0" "process_table x = process_table s" "process_count x = process_count s"
      using fld assms(5) by (simp_all add: x_def v_def upd_proc_def)
    show ?thesis
      using switch_foreground_fields(1) [OF x, of p ?t] switch_foreground_table [OF x, of p ?t] assms(5) True xf by (simp add: r)
  qed
qed


subsection \<open>Witnesses\<close>

text \<open>Two processes at \<open>0x1000\<close> and \<open>0x2000\<close>, the second with three tickets and waiting for a signal.\<close>

definition sample_sched :: sched where
  "sample_sched = \<lparr>procs = (\<lambda>a. if a = 0x2000
       then sample_process\<lparr>pid := 8, tickets := 3, hooks := replicate 8 \<lparr>hook_type = SIGNAL, trigger_value = 8\<rparr>, hook_count := 1\<rparr>
       else sample_process),
     process_table = [0x1000, 0x2000] @ replicate 30 0, process_count = 2, current_process_idx = 0, xorshift32_state = 2463534242,
     quantum_counter = 0, last_regs = 0, g_next_context = 0, foreground_proc = 0x1000, foreground_stack = replicate 32 0x2000,
     foreground_stack_top = 0, next_pid = 9,
     frames = (\<lambda>_. \<lparr>r_eip = 0x5000, r_esp = 0, r_ebp = 0, r_eax = 0, r_ebx = 0, r_ecx = 0, r_edx = 0, r_esi = 0, r_edi = 0, r_eflags = 0\<rparr>),
     kheap = init_heap (\<lambda>_. 0), windows = windows_init 0 raw_wins, switch_to_trampoline = 0x6000\<rparr>"

lemma sample_table: "i < 32 \<Longrightarrow> process_table sample_sched ! i = (if i = 0 then 0x1000 else if i = 1 then 0x2000 else 0)"
  by (auto simp: sample_sched_def nth_Cons' nth_append)

lemma sample_sched_ok: "sched_ok sample_sched"
proof -
  have "{i. i < 32 \<and> process_table sample_sched ! i \<noteq> 0} = {0, 1}" using sample_table by (auto split: if_splits)
  then have c: "process_count sample_sched = int (card {i. i < 32 \<and> process_table sample_sched ! i \<noteq> 0})" by (simp add: sample_sched_def)
  have "proc_fit sample_process" "proc_fit (sample_process\<lparr>pid := 8, tickets := 3, hooks := replicate 8 h, hook_count := 1\<rparr>)" for h
    using sample_process_ok by (simp_all add: proc_fit_def proc_ok_def process_is_valid_def) (simp_all add: sample_process_def reset_event_queue_def)
  then have "\<forall>i<32. process_table sample_sched ! i \<noteq> 0 \<longrightarrow> proc_fit (procs sample_sched (process_table sample_sched ! i))"
    using sample_table by (simp add: sample_sched_def)
  moreover have "wins_ok (windows_init 0 raw_wins)" by (rule init_ok) (simp add: raw_wins_def)
  ultimately show ?thesis using c init_heap_ok by (simp add: sched_ok_def) (simp add: sample_sched_def)
qed

lemma sample_totals:
  "total_tickets sample_sched runnable [0..<32] = 1" "total_tickets sample_sched (\<lambda>p. alive p \<noteq> 0) [0..<32] = 4"
proof -
  have u: "[0..<32] = 0 # 1 # [2..<32]" by (simp add: upt_conv_Cons)
  have z: "total_tickets sample_sched P js = 0" if "set js \<subseteq> {2..<32}" for P js
    using that by (induction js) (simp_all add: sample_table Let_def)
  have p: "procs sample_sched 0x1000 = sample_process" "alive sample_process = 1" "hook_count sample_process = 0" "tickets sample_process = 1"
     "alive (procs sample_sched 0x2000) = 1" "hook_count (procs sample_sched 0x2000) = 1" "tickets (procs sample_sched 0x2000) = 3"
    by (simp_all add: sample_sched_def sample_process_def reset_event_queue_def)
  show "total_tickets sample_sched runnable [0..<32] = 1" "total_tickets sample_sched (\<lambda>p. alive p \<noteq> 0) [0..<32] = 4"
    by (simp_all add: u z sample_table p runnable_def)
qed

lemma sample_procs:
  "procs sample_sched 0x1000 = sample_process" "alive sample_process = 1" "hook_count sample_process = 0" "tickets sample_process = 1"
  "alive (procs sample_sched 0x2000) = 1" "pid (procs sample_sched 0x2000) = 8" "runnable sample_process"
  "active_hooks (procs sample_sched 0x2000) = [\<lparr>hook_type = SIGNAL, trigger_value = 8\<rparr>]"
  "scheduler_current_process sample_sched = 0x1000" "foreground_proc sample_sched = 0x1000" "foreground_stack_top sample_sched = 0"
  "0x1000 \<in> set (process_table sample_sched)" "0x2000 \<in> set (process_table sample_sched)" "foreground_stack sample_sched ! 0 = 0x2000"
  "process_count sample_sched = 2"
  by (simp_all add: sample_sched_def sample_process_def reset_event_queue_def runnable_def active_hooks_def scheduler_current_process_def
      MAX_PROCESSES_def)

theorem scheduler_invariant_witness:
  "sched_reach (scheduler_init sample_sched) \<and> process_count (scheduler_init sample_sched) = 0 \<and> xorshift32_state (scheduler_init sample_sched) \<noteq> 0"
proof -
  note o = sched_okD [OF sample_sched_ok]
  have r: "sched_reach (scheduler_init sample_sched)" by (rule sched_reach.boot) (use o in \<open>simp_all add: sample_sched_def\<close>)
  with scheduler_invariant [OF r] show ?thesis by (simp add: scheduler_init_def)
qed

theorem next_process_correct_witness: "fst (scheduler_next_process sample_sched) \<noteq> 0"
proof -
  have "process_table sample_sched ! 0 \<noteq> 0 \<and> runnable (procs sample_sched (process_table sample_sched ! 0))"
    by (simp add: sample_table sample_procs)
  then have "\<exists>i<32. process_table sample_sched ! i \<noteq> 0 \<and> runnable (procs sample_sched (process_table sample_sched ! i))" by (intro exI [of _ 0]) simp
  then show ?thesis using next_process_correct [OF sample_sched_ok] sample_totals by (auto split: prod.splits)
qed

theorem lottery_fair_witness:
  "card {w. 0 \<le> w \<and> w < total_tickets sample_sched runnable [0..<32] \<and> draw_winner sample_sched runnable w 0 [0..<32] = Some 0} = 1"
  using lottery_fair [OF sample_sched_ok, of 0] by (simp add: sample_table sample_procs)

theorem context_switch_correct_witness: "\<exists>s'. context_switch 0x9000 sample_sched = Inr s'"
  using context_switch_correct [OF sample_sched_ok, of "0x9000"] sample_totals sample_procs by (auto split: if_splits)

theorem exit_switch_correct_witness: "\<exists>s'. scheduler_exit_current_and_switch sample_sched = Inr s' \<and> g_next_context s' \<noteq> 0"
proof -
  have "\<not> (\<forall>i<32. process_table sample_sched ! i = 0 \<or> alive (procs sample_sched (process_table sample_sched ! i)) = 0)"
    by (auto intro!: exI [of _ 0] simp: sample_table sample_procs)
  then show ?thesis using exit_switch_correct [OF sample_sched_ok] sample_totals by (auto split: sum.splits)
qed

theorem resume_wakes_witness: "runnable (procs (scheduler_resume_processes_for_event SIGNAL 8 sample_sched) 0x2000)"
  using resume_wakes [OF sample_sched_ok, of SIGNAL 8] sample_procs by (simp add: hook_matches_def)

theorem foreground_roundtrip_witness:
  "foreground_proc (scheduler_restore_foreground 0x2000 (scheduler_set_foreground 0x2000 sample_sched)) = 0x1000"
  using foreground_roundtrip [OF sample_sched_ok, of "0x2000"] sample_procs by simp

theorem k_start_process_correct_witness:
  "\<exists>p s'. k_start_process 0 0x7000 0 4096 sample_sched = Some (p, s') \<and> (p \<noteq> 0 \<longrightarrow> p \<in> set (process_table s') \<and> c_eip (cpu_context (procs s' p)) = 0x7000)"
  using k_start_process_correct [OF sample_sched_ok, of 0 "0x7000" 0 4096] sample_procs by (auto simp: started_def Let_def)

theorem kill_process_correct_witness:
  "alive (procs (kill_process 0x1000 sample_sched) 0x1000) = 0 \<and> foreground_proc (kill_process 0x1000 sample_sched) = 0x2000"
  using kill_process_correct [OF sample_sched_ok, of "0x1000"] sample_procs by simp

end
