(* ===== verification/Input.thy ===== *)
theory Input
  imports Scheduler
begin

text \<open>
  The devices that feed events into the kernel: the mouse (\<^verbatim>\<open>src/kernel/mouse.cpp\<close>, the reaction of the windows in
  \<^verbatim>\<open>terminal_windows.cpp\<close> and \<^verbatim>\<open>gui.cpp\<close>), the keyboard (\<^verbatim>\<open>keyboard.cpp\<close> and the character buffer of
  \<^verbatim>\<open>syscalls.cpp\<close>) and the timer (\<^verbatim>\<open>timer.cpp\<close>). The bytes that the controller delivers are arguments. The pixels of the
  mouse cursor are not modelled.
\<close>

subsection \<open>The mouse and the windows\<close>

definition MOUSE_BUTTON_LEFT :: u8 where "MOUSE_BUTTON_LEFT = 1"

definition on_windows :: "(wins \<Rightarrow> wins) \<Rightarrow> sched \<Rightarrow> sched" where
  "on_windows f s = s\<lparr>windows := f (windows s)\<rparr>"

definition begin_drag :: "u32 \<Rightarrow> u32 \<Rightarrow> wins \<Rightarrow> wins" where
  "begin_drag cursor_x cursor_y w =
     (let active = g_windows w ! nat (g_active_slot w)
      in (stop_resizing w)\<lparr>g_dragging_window := True, g_drag_slot := g_active_slot w,
           g_drag_offset_x := sint cursor_x - sint (frame_x active), g_drag_offset_y := sint cursor_y - sint (frame_y active)\<rparr>)"

text \<open>The branch for a press of the left button: whether the function returns at once, whether the event is consumed, and the state.\<close>

definition raise_window :: "nat \<Rightarrow> sched \<Rightarrow> sched" where
  "raise_window slot s =
     (let own = owner (g_windows (windows s) ! slot)
      in if own \<noteq> 0
         then (if scheduler_get_foreground s \<noteq> own then scheduler_set_foreground own s else on_windows (focus_window slot) s)
         else on_windows (focus_window slot) s)"

definition press_left :: "u32 \<Rightarrow> u32 \<Rightarrow> sched \<Rightarrow> bool \<times> bool \<times> sched" where
  "press_left cursor_x cursor_y s =
     (let hit = hit_test_window (windows s) cursor_x cursor_y; slot = nat (hit_slot hit)
      in if hit_slot hit \<ge> 0 \<and> window_slot_valid (windows s) slot
         then let s = raise_window slot s
              in if on_close_button hit
                 then let s = on_windows (\<lambda>w. stop_resizing (stop_dragging w)) s; own = owner (g_windows (windows s) ! slot)
                      in (True, True, if own \<noteq> 0 then kill_process own s else on_windows (close_window_slot slot) s)
                 else if resize_edges hit \<noteq> 0
                 then (False, True, on_windows (\<lambda>w. begin_resize slot (resize_edges hit) cursor_x cursor_y (stop_dragging w)) s)
                 else if g_active_slot (windows s) \<ge> 0 \<and> window_slot_valid (windows s) (nat (g_active_slot (windows s)))
                 then (False, True, if on_title_bar hit then on_windows (begin_drag cursor_x cursor_y) s
                                    else on_windows (\<lambda>w. stop_resizing (stop_dragging w)) s)
                 else (False, False, s)
         else (False, False, on_windows (\<lambda>w. stop_resizing (stop_dragging w)) s))"

definition drag_window :: "u32 \<Rightarrow> u32 \<Rightarrow> wins \<Rightarrow> wins" where
  "drag_window cursor_x cursor_y w =
     (let slot = nat (g_drag_slot w); window = g_windows w ! slot;
          desired_x = sint cursor_x - g_drag_offset_x w; desired_y = sint cursor_y - g_drag_offset_y w;
          (fx, fy) = clamp_frame w (of_int (if desired_x < 0 then 0 else desired_x)) (of_int (if desired_y < 0 then 0 else desired_y))
                       (frame_width window) (frame_height window)
      in if fx \<noteq> frame_x window \<or> fy \<noteq> frame_y window
         then draw_windows (upd_window slot (\<lambda>window. window\<lparr>frame_x := fx, frame_y := fy\<rparr>) w) else w)"

text \<open>What follows the branches on the button: continue a resize, then a drag.\<close>

definition track_drag :: "u32 \<Rightarrow> u32 \<Rightarrow> bool \<Rightarrow> sched \<Rightarrow> bool \<times> sched" where
  "track_drag cursor_x cursor_y consumed s =
     (if g_dragging_window (windows s) \<and> g_drag_slot (windows s) \<ge> 0 \<and> window_slot_valid (windows s) (nat (g_drag_slot (windows s)))
      then (True, on_windows (drag_window cursor_x cursor_y) s) else (consumed, s))"

definition track_mouse :: "u32 \<Rightarrow> u32 \<Rightarrow> bool \<Rightarrow> bool \<Rightarrow> sched \<Rightarrow> bool \<times> sched" where
  "track_mouse cursor_x cursor_y left_down consumed s =
     (if g_resizing_window (windows s)
      then (if \<not> left_down then track_drag cursor_x cursor_y consumed (on_windows stop_resizing s)
            else case update_resize cursor_x cursor_y (windows s) of (resized, w) \<Rightarrow>
              if resized then (True, s\<lparr>windows := w\<rparr>) else track_drag cursor_x cursor_y consumed s)
      else track_drag cursor_x cursor_y consumed s)"

definition windows_handle_mouse_event :: "MouseEvent \<Rightarrow> sched \<Rightarrow> bool \<times> sched" where
  "windows_handle_mouse_event event s =
     (if \<not> fb_available (windows s) then (False, s)
      else let s = on_windows ensure_geometry s;
               cursor_x = (if me_x event < 0 then 0 else of_int (me_x event));
               cursor_y = (if me_y event < 0 then 0 else of_int (me_y event));
               left_down = (me_buttons event AND MOUSE_BUTTON_LEFT \<noteq> 0);
               left_changed = (me_changed event AND MOUSE_BUTTON_LEFT \<noteq> 0)
           in if left_changed \<and> left_down
              then case press_left cursor_x cursor_y s of (done, consumed, s) \<Rightarrow>
                     if done then (True, s) else track_mouse cursor_x cursor_y left_down consumed s
              else if left_changed \<and> \<not> left_down
              then track_mouse cursor_x cursor_y left_down (g_dragging_window (windows s) \<or> g_resizing_window (windows s))
                     (on_windows (\<lambda>w. stop_resizing (stop_dragging w)) s)
              else track_mouse cursor_x cursor_y left_down False s)"


subsection \<open>What mouse events keep\<close>

lemma on_windows_ok: "sched_ok s \<Longrightarrow> (wins_ok (windows s) \<Longrightarrow> wins_ok (f (windows s))) \<Longrightarrow> sched_ok (on_windows f s)"
  unfolding on_windows_def by (intro windows_upd_ok) (simp_all add: sched_ok_def)

lemma stop_both_ok: "wins_ok w \<Longrightarrow> wins_ok (stop_resizing (stop_dragging w))"
  by (intro kept_ok [OF stops(2)] kept_ok [OF stops(1)])

lemma begin_drag_kept: "kept w (begin_drag cx cy w)"
proof -
  have "kept w (stop_resizing w)" by simp
  then show ?thesis by (simp add: kept_def begin_drag_def fb_of_def Let_def)
qed

lemma drag_kept: "kept w (drag_window cx cy w)"
proof -
  have "kept w (draw_windows (upd_window slot (\<lambda>window. window\<lparr>frame_x := a, frame_y := b\<rparr>) w))" for slot a b
    by (intro kept_trans [OF kept_upd kept_draw]) (simp_all add: win_ok_def dims_ok_def)
  then show ?thesis by (simp add: drag_window_def Let_def split: prod.split)
qed

lemma raise_ok: "sched_ok s \<Longrightarrow> sched_ok (raise_window slot s)"
  by (simp add: raise_window_def set_foreground_ok on_windows_ok focus_ok Let_def)

lemma press_left_ok:
  assumes "sched_ok s"
  shows "sched_ok (snd (snd (press_left cx cy s)))"
proof -
  note r = raise_ok [OF assms]
  have b: "sched_ok (on_windows (\<lambda>w. begin_resize slot e x y (stop_dragging w)) u)" if "sched_ok u" for slot e x y u
    by (rule on_windows_ok [OF that]) (intro kept_ok [OF stops(3)] kept_ok [OF stops(1)])
  have st: "sched_ok (on_windows (\<lambda>w. stop_resizing (stop_dragging w)) u)" if "sched_ok u" for u
    by (rule on_windows_ok [OF that]) (rule stop_both_ok)
  have c: "sched_ok (on_windows (close_window_slot slot) u)" if "sched_ok u" for slot u
    by (rule on_windows_ok [OF that]) (rule close_ok)
  have d: "sched_ok (on_windows (begin_drag x y) u)" if "sched_ok u" for x y u
    by (rule on_windows_ok [OF that]) (rule kept_ok [OF begin_drag_kept])
  show ?thesis
    using st [OF assms] st [OF r] b [OF r] d [OF r] r kill_ok [OF st [OF r]] c [OF st [OF r]]
    by (simp add: press_left_def Let_def)
qed

lemma track_drag_ok: "sched_ok s \<Longrightarrow> sched_ok (snd (track_drag cx cy c s))"
  using on_windows_ok [of s "drag_window cx cy"] kept_ok [OF drag_kept] by (simp add: track_drag_def)

lemma track_mouse_ok:
  assumes "sched_ok s"
  shows "sched_ok (snd (track_mouse cx cy down c s))"
proof -
  have "sched_ok (on_windows stop_resizing s)" by (rule on_windows_ok [OF assms]) (rule kept_ok [OF stops(2)])
  moreover have "sched_ok (s\<lparr>windows := snd (update_resize cx cy (windows s))\<rparr>)"
    by (rule windows_upd_ok [OF assms]) (rule kept_ok [OF resize_kept sched_okD(12) [OF assms]])
  ultimately show ?thesis using assms by (auto simp: track_mouse_def track_drag_ok split: prod.split)
qed

lemma mouse_event_ok:
  assumes "sched_ok s"
  shows "sched_ok (snd (windows_handle_mouse_event e s))"
proof -
  have g: "sched_ok (on_windows ensure_geometry s)" by (rule on_windows_ok [OF assms]) (rule kept_ok [OF kept_prepare(1)])
  have st: "sched_ok (on_windows (\<lambda>w. stop_resizing (stop_dragging w)) (on_windows ensure_geometry s))"
    by (rule on_windows_ok [OF g]) (rule stop_both_ok)
  have p: "sched_ok (snd (snd (press_left cx cy (on_windows ensure_geometry s))))" for cx cy by (rule press_left_ok [OF g])
  have q: "sched_ok (snd (case press_left cx cy (on_windows ensure_geometry s) of (d, c, s) \<Rightarrow>
      if d then (True, s) else track_mouse cx cy down c s))" for cx cy down
    using p [of cx cy] track_mouse_ok by (auto split: prod.split)
  show ?thesis
    using assms track_mouse_ok [OF g] track_mouse_ok [OF st] q unfolding windows_handle_mouse_event_def Let_def
    by (simp split: if_split)
qed

text \<open>Where a window ends up that is dragged.\<close>

lemma drag_effect:
  assumes ok: "wins_ok w" and s: "window_slot_valid w (nat (g_drag_slot w))"
    and off: "sint cx - g_drag_offset_x w < 2 ^ 31" "sint cy - g_drag_offset_y w < 2 ^ 31"
  defines "n \<equiv> g_windows (drag_window cx cy w) ! nat (g_drag_slot w)"
  shows "on_screen (frame_x n) (frame_width n) (fb_width w)" "on_screen (frame_y n) (frame_height n) (fb_height w)"
proof -
  let ?s = "nat (g_drag_slot w)"
  let ?n = "g_windows w ! ?s"
  have s8: "?s < 8" "in_use ?n" using s by (simp_all add: window_slot_valid_def MAX_WINDOWS_def)
  have len: "?s < length (g_windows w)" using s8 wins_okD(2) [OF ok] by simp
  have dn: "dims_ok ?n" using wins_okD(6) [OF ok] s8 by (simp add: win_ok_def)
  define dx :: u32 where "dx = of_int (if sint cx - g_drag_offset_x w < 0 then 0 else sint cx - g_drag_offset_x w)"
  define dy :: u32 where "dy = of_int (if sint cy - g_drag_offset_y w < 0 then 0 else sint cy - g_drag_offset_y w)"
  have d31: "unat dx < 2 ^ 31" "unat dy < 2 ^ 31"
    unfolding dx_def dy_def by (rule unat_of_int_small; use off in simp)+
  obtain a b where ab: "clamp_frame w dx dy (frame_width ?n) (frame_height ?n) = (a, b)" by fastforce
  have scr: "on_screen a (frame_width ?n) (fb_width w)" "on_screen b (frame_height ?n) (fb_height w)"
    using clamp_frame_on_screen [OF ab] d31 dims_extent [OF dn] by simp_all
  have "drag_window cx cy w = (if a \<noteq> frame_x ?n \<or> b \<noteq> frame_y ?n
      then draw_windows (upd_window ?s (\<lambda>window. window\<lparr>frame_x := a, frame_y := b\<rparr>) w) else w)"
    using ab unfolding drag_window_def Let_def dx_def dy_def by (simp only: prod.case)
  then have "frame_x n = a" "frame_y n = b" "frame_width n = frame_width ?n" "frame_height n = frame_height ?n"
    using len by (auto simp: n_def draw_frame_fields upd_window_def)
  with scr show "on_screen (frame_x n) (frame_width n) (fb_width w)" "on_screen (frame_y n) (frame_height n) (fb_height w)" by simp_all
qed

text \<open>Moving and resizing windows, by a program (\<open>set_active_window_origin\<close>) or by the mouse (dragging a
  window that is in use, resizing), clamps the frame to the screen: along each axis a frame that fits lies on the screen as a
  whole, and one that is larger than the screen starts at its edge. A resized window keeps between 24 by 12 and 80 by 25
  visible characters. The coordinates asked for are below $2^{31}$, as 32-bit integers are.\<close>

theorem frames_clamped_to_screen:
  assumes "windows_reach w" "fb_available w"
  shows "(find_window_index w proc \<ge> 0 \<and> x < 2 ^ 31 \<and> y < 2 ^ 31 \<longrightarrow>
      (let n = g_windows (set_active_window_origin proc x y w) ! nat (find_window_index w proc)
       in on_screen (frame_x n) (frame_width n) (fb_width w) \<and> on_screen (frame_y n) (frame_height n) (fb_height w))) \<and>
    (update_resize cx cy w = (True, w') \<longrightarrow>
      (let n = g_windows w' ! nat (g_resize_slot w)
       in dims_ok n \<and> on_screen (frame_x n) (frame_width n) (fb_width w) \<and> on_screen (frame_y n) (frame_height n) (fb_height w))) \<and>
    (window_slot_valid w (nat (g_drag_slot w)) \<and> sint cx - g_drag_offset_x w < 2 ^ 31 \<and> sint cy - g_drag_offset_y w < 2 ^ 31 \<longrightarrow>
      (let n = g_windows (drag_window cx cy w) ! nat (g_drag_slot w)
       in on_screen (frame_x n) (frame_width n) (fb_width w) \<and> on_screen (frame_y n) (frame_height n) (fb_height w)))"
  using origin_effect [OF windows_reach_ok [OF assms(1)] assms(2)] update_resize_effect [OF windows_reach_ok [OF assms(1)]]
    drag_effect [OF windows_reach_ok [OF assms(1)]]
  by (simp add: Let_def)

theorem frames_clamped_to_screen_witness:
  "unat (frame_x (g_windows (set_active_window_origin 0x2000 5000 100 two_windows) ! 1)) +
     unat (frame_width (g_windows (set_active_window_origin 0x2000 5000 100 two_windows) ! 1)) \<le> 1024"
proof -
  let ?n = "g_windows (set_active_window_origin 0x2000 5000 100 two_windows) ! 1"
  have "on_screen (frame_x ?n) (frame_width ?n) 1024"
    using frames_clamped_to_screen [OF two_windows_reach two_windows_eval(2), of "0x2000" 5000 100] two_windows_eval by (simp add: Let_def)
  moreover have "unat (frame_width ?n) \<le> 668"
  proof -
    have k: "kept two_windows (set_active_window_origin 0x2000 5000 100 two_windows)" by (rule origin_kept)
    have "in_use (g_windows two_windows ! 1)" using find_window_index_spec [of two_windows "0x2000"] two_windows_eval by simp
    then have "in_use ?n" using k by (simp add: kept_def)
    then have "dims_ok ?n" using wins_okD(6) [OF kept_ok [OF k windows_reach_ok [OF two_windows_reach]]] by (simp add: win_ok_def)
    then show ?thesis by (rule dims_extent)
  qed
  ultimately show ?thesis by (simp add: on_screen_def word_le_nat_alt)
qed


subsection \<open>Who owns which window\<close>

definition same_owners :: "wins \<Rightarrow> wins \<Rightarrow> bool" where
  "same_owners w w' \<longleftrightarrow> (\<forall>i<8. in_use (g_windows w' ! i) = in_use (g_windows w ! i) \<and> owner (g_windows w' ! i) = owner (g_windows w ! i))"

lemma same_owners_refl: "same_owners w w" and same_owners_trans: "same_owners w w' \<Longrightarrow> same_owners w' w'' \<Longrightarrow> same_owners w w''"
  by (simp_all add: same_owners_def)

lemma kept_owners: "kept w w' \<Longrightarrow> same_owners w w'"
  by (simp add: kept_def same_owners_def)

lemma focus_owners: "same_owners w (focus_window slot w)"
proof -
  define v where "v = (if \<not> g_geometry_ready w then ensure_geometry w else w)"
  let ?p = "(push_slot_to_top slot v)\<lparr>g_active_slot := int slot\<rparr>"
  have v: "same_owners w v" using kept_owners [OF kept_prepare(1) [of w]] by (simp add: v_def same_owners_refl)
  have p: "same_owners v ?p" by (simp add: same_owners_def)
  have "focus_window slot w = w \<or> focus_window slot w = v \<or> focus_window slot w = draw_windows ?p \<or> focus_window slot w = ?p"
    by (simp add: focus_window_def v_def Let_def)
  then show ?thesis
    using v same_owners_trans [OF v p] same_owners_trans [OF same_owners_trans [OF v p] kept_owners [OF kept_draw]] same_owners_refl
    by metis
qed

lemma activate_owners: "same_owners w (activate_process proc w)"
proof -
  have "same_owners w (build_blank_snapshot (ensure_geometry w))"
    by (rule kept_owners) (rule kept_trans [OF kept_prepare(1) kept_prepare(2)])
  then show ?thesis
    using same_owners_trans [OF _ focus_owners] same_owners_refl by (simp add: activate_process_def Let_def)
qed

lemma owners_index: "same_owners w w' \<Longrightarrow> find_window_index w' proc = find_window_index w proc"
proof -
  assume "same_owners w w'"
  then have "find (\<lambda>i. window_slot_valid w' i \<and> owner (g_windows w' ! i) = proc) [0..<MAX_WINDOWS] =
      find (\<lambda>i. window_slot_valid w i \<and> owner (g_windows w ! i) = proc) [0..<MAX_WINDOWS]"
    by (intro find_cong refl) (auto simp: same_owners_def window_slot_valid_def MAX_WINDOWS_def)
  then show ?thesis by (simp add: find_window_index_def)
qed

lemma switch_foreground_owners: "sched_ok s \<Longrightarrow> same_owners (windows s) (windows (scheduler_switch_foreground prev target s))"
proof -
  assume s: "sched_ok s"
  have d: "windows (dispatch_focus_event a code v u) = windows u" if "sched_ok u" for a code v u
  proof -
    have r: "sched_ok (upd_proc a (push_io_event (EVENT_PROCESS code v)) u)" using that by (simp add: upd_proc_ok push_fit)
    show ?thesis by (simp add: dispatch_focus_event_def resume_spec [OF r]) (simp add: upd_proc_def)
  qed
  show ?thesis
    using s activate_owners [of "windows s"] by (simp add: scheduler_switch_foreground_def activate_def d dispatch_ok same_owners_refl Let_def)
qed

lemma close_owners:
  assumes "window_slot_valid w slot" "length (g_windows w) = 8" "i < 8"
  shows "in_use (g_windows (close_window_slot slot w) ! i) \<longleftrightarrow> in_use (g_windows w ! i) \<and> i \<noteq> slot"
    "i \<noteq> slot \<Longrightarrow> owner (g_windows (close_window_slot slot w) ! i) = owner (g_windows w ! i)"
proof -
  define u where "u = (if g_dragging_window w \<and> g_drag_slot w = int slot then stop_dragging w else w)"
  define v where "v = (if g_resizing_window u \<and> g_resize_slot u = int slot then stop_resizing u else u)"
  have gv: "g_windows v = g_windows w" by (simp add: v_def u_def stop_dragging_def stop_resizing_def)
  define q where "q = release_window_slot slot (remove_slot_from_stack slot v)"
  have gq: "g_windows q = (g_windows w)[slot := empty_window]"
    using assms(1) by (simp add: q_def release_window_slot_def window_slot_valid_def gv Let_def)
  define n where "n = (if g_z_count q = 0 then q\<lparr>g_active_slot := INVALID_SLOT\<rparr>
                    else q\<lparr>g_active_slot := int (g_z_order q ! (g_z_count q - 1))\<rparr>)"
  have "close_window_slot slot w = draw_workspace n"
    using assms(1) unfolding n_def q_def v_def u_def close_window_slot_def Let_def by (simp only: simp_thms if_False)
  moreover have "same_owners n (draw_workspace n)" by (rule kept_owners [OF kept_present(3)])
  moreover have "slot < 8" using assms(1) by (simp add: window_slot_valid_def MAX_WINDOWS_def)
  moreover from this have "g_windows n ! i = (if i = slot then empty_window else g_windows w ! i)"
    using assms(2) by (simp add: n_def gq nth_list_update)
  ultimately show "in_use (g_windows (close_window_slot slot w) ! i) \<longleftrightarrow> in_use (g_windows w ! i) \<and> i \<noteq> slot"
    "i \<noteq> slot \<Longrightarrow> owner (g_windows (close_window_slot slot w) ! i) = owner (g_windows w ! i)"
    using assms(3) by (auto simp: same_owners_def)
qed

text \<open>A process that exits has no window afterwards.\<close>

lemma exit_no_window:
  assumes "wins_ok w" "fb_available w"
  shows "find_window_index (on_process_exit proc w) proc = -1"
proof (cases "find_window_index w proc < 0")
  case True
  moreover have "find_window_index w proc = -1" if "find_window_index w proc < 0"
    using that by (auto simp: find_window_index_def split: if_splits option.splits)
  moreover have "on_process_exit proc w = w" if "find_window_index w proc < 0" using that by (simp add: on_process_exit_def Let_def)
  ultimately show ?thesis by simp
next
  case False
  let ?i = "nat (find_window_index w proc)"
  note f = find_window_index_spec [of w proc] and o = wins_okD [OF assms(1)]
  have fi: "proc \<noteq> 0" "?i < 8" "in_use (g_windows w ! ?i)" "owner (g_windows w ! ?i) = proc" using f False by simp_all
  define v where "v = on_process_exit proc w"
  have v: "v = close_window_slot ?i w" using False fi(1) assms(2) by (simp add: v_def on_process_exit_def Let_def)
  have valid: "window_slot_valid w ?i" using fi by (simp add: window_slot_valid_def MAX_WINDOWS_def)
  have "owner (g_windows v ! j) \<noteq> proc \<or> \<not> in_use (g_windows v ! j)" if "j < 8" for j
    using close_owners [OF valid o(2) that, folded v] o(7) fi that by metis
  then have "find (\<lambda>i. window_slot_valid v i \<and> owner (g_windows v ! i) = proc) [0..<MAX_WINDOWS] = None"
    by (auto simp: find_None_upt window_slot_valid_def MAX_WINDOWS_def)
  then show ?thesis by (simp add: find_window_index_def v_def)
qed


lemma kept_fb: "kept w w' \<Longrightarrow> fb_of w' = fb_of w"
  by (simp add: kept_def)

lemma stack_fb [simp]: "fb_of (push_slot_to_top slot w) = fb_of w" "fb_of (remove_slot_from_stack slot w) = fb_of w"
    "fb_of (w\<lparr>g_active_slot := a\<rparr>) = fb_of w"
  by (simp_all add: fb_of_def)

lemma focus_fb [simp]: "fb_of (focus_window slot w) = fb_of w"
  using kept_fb [OF kept_draw] kept_fb [OF kept_prepare(1)] by (simp add: focus_window_def Let_def)

lemma activate_fb [simp]: "fb_of (activate_process p w) = fb_of w"
  using kept_fb [OF kept_prepare(1)] kept_fb [OF kept_prepare(2)] by (simp add: activate_process_def Let_def)

lemma close_fb [simp]: "fb_of (close_window_slot slot w) = fb_of w"
proof -
  have r: "fb_of (release_window_slot slot v) = fb_of v" for v by (simp add: release_window_slot_def fb_of_def Let_def)
  show ?thesis
    using kept_fb [OF kept_present(3)] kept_fb [OF stops(1)] kept_fb [OF stops(2)] by (simp add: close_window_slot_def r Let_def)
qed

lemma exit_fb [simp]: "fb_of (on_process_exit p w) = fb_of w"
  by (simp add: on_process_exit_def Let_def)

lemma dispatch_windows: "sched_ok s \<Longrightarrow> windows (dispatch_focus_event a code v s) = windows s"
proof -
  assume "sched_ok s"
  then have r: "sched_ok (upd_proc a (push_io_event (EVENT_PROCESS code v)) s)" by (simp add: upd_proc_ok push_fit)
  show ?thesis by (simp add: dispatch_focus_event_def resume_spec [OF r]) (simp add: upd_proc_def)
qed

lemma switch_foreground_fb: "sched_ok s \<Longrightarrow> fb_of (windows (scheduler_switch_foreground a b s)) = fb_of (windows s)"
  by (simp add: scheduler_switch_foreground_def activate_def dispatch_windows dispatch_ok Let_def)

lemma restore_cases:
  assumes "sched_ok s"
  obtains (same) "scheduler_restore_foreground own s = s"
  | (switch) a v where "scheduler_restore_foreground own s = scheduler_switch_foreground (foreground_proc s) a v"
      "sched_ok v" "windows v = windows s" "\<forall>p. alive (procs v p) = alive (procs s p)"
proof (cases "own \<noteq> 0 \<and> own \<noteq> foreground_proc s")
  case True
  then show ?thesis by (intro same) (simp add: scheduler_restore_foreground_def)
next
  case own: False
  show ?thesis
  proof (cases "foreground_stack_top s \<ge> 0")
    case True
    let ?v = "s\<lparr>foreground_stack_top := foreground_stack_top s - 1\<rparr>" and ?a = "foreground_stack s ! nat (foreground_stack_top s)"
    have "sched_ok ?v" using assms True by (simp add: sched_ok_def)
    then have u: "sched_ok (upd_proc ?a (\<lambda>p. p\<lparr>hook_count := 0\<rparr>) ?v)" by (simp add: upd_proc_ok small_fits)
    show ?thesis
      by (rule switch [of ?a "if ?a \<noteq> 0 \<and> alive (procs s ?a) \<noteq> 0 then upd_proc ?a (\<lambda>p. p\<lparr>hook_count := 0\<rparr>) ?v else ?v"])
        (use own True u \<open>sched_ok ?v\<close> in \<open>auto simp: scheduler_restore_foreground_def upd_proc_def Let_def\<close>)
  next
    case False
    show ?thesis by (rule switch [of 0 s]) (use own False assms in \<open>auto simp: scheduler_restore_foreground_def Let_def\<close>)
  qed
qed

lemma restore_foreground_keeps:
  assumes "sched_ok s"
  shows "alive (procs (scheduler_restore_foreground own s) p) = alive (procs s p)"
    "same_owners (windows s) (windows (scheduler_restore_foreground own s))"
    "fb_of (windows (scheduler_restore_foreground own s)) = fb_of (windows s)"
proof -
  show "alive (procs (scheduler_restore_foreground own s) p) = alive (procs s p)"
    by (rule restore_cases [OF assms, of own]) (simp_all add: switch_foreground_table)
  show "same_owners (windows s) (windows (scheduler_restore_foreground own s))"
    by (rule restore_cases [OF assms, of own]) (simp_all add: same_owners_refl, metis switch_foreground_owners)
  show "fb_of (windows (scheduler_restore_foreground own s)) = fb_of (windows s)"
    by (rule restore_cases [OF assms, of own]) (simp_all add: switch_foreground_fb)
qed

lemma kill_effect:
  assumes "sched_ok s" "p \<noteq> 0" "process_is_valid (procs s p)" "fb_available (windows s)"
  shows "alive (procs (kill_process p s) p) = 0" "find_window_index (windows (kill_process p s)) p = -1"
proof -
  define u where "u = upd_proc p (\<lambda>q. q\<lparr>alive := 0\<rparr>) (upd_proc p (\<lambda>q. register_keyboard_handler q 0) s)"
  define w where "w = u\<lparr>windows := on_process_exit p (windows u)\<rparr>"
  have u: "sched_ok u" unfolding u_def by (intro upd_proc_ok assms(1) small_fits)
  then have w: "sched_ok w" unfolding w_def by (intro windows_upd_ok on_exit_ok sched_okD(12))
  have k: "kill_process p s = scheduler_restore_foreground p w" using assms(2,3) by (simp add: kill_process_def u_def w_def Let_def)
  have "alive (procs w p) = 0" by (simp add: w_def u_def upd_proc_def)
  then show "alive (procs (kill_process p s) p) = 0" using restore_foreground_keeps(1) [OF w] k by simp
  have "find_window_index (windows w) p = -1"
    using exit_no_window [of "windows u" p] sched_okD(12) [OF u] assms(4) by (simp add: w_def u_def upd_proc_def)
  then show "find_window_index (windows (kill_process p s)) p = -1"
    using owners_index [OF restore_foreground_keeps(2) [OF w]] k by simp
qed


lemma set_foreground_keeps:
  assumes "sched_ok s"
  shows "same_owners (windows s) (windows (scheduler_set_foreground p s))" "fb_of (windows (scheduler_set_foreground p s)) = fb_of (windows s)"
    "process_table (scheduler_set_foreground p s) = process_table s"
proof -
  define g where "g = (if foreground_proc s \<noteq> 0 \<and> foreground_stack_top s + 1 < 32
      then s\<lparr>foreground_stack_top := foreground_stack_top s + 1, foreground_stack := (foreground_stack s)[nat (foreground_stack_top s + 1) := foreground_proc s]\<rparr>
      else s)"
  have g: "sched_ok g" "windows g = windows s" "process_table g = process_table s"
    using assms by (simp_all add: g_def) (simp_all add: sched_ok_def)
  have sf: "scheduler_set_foreground p s = (if foreground_proc s = p then s else scheduler_switch_foreground (foreground_proc s) p g)"
    by (simp add: scheduler_set_foreground_def g_def MAX_PROCESSES_def Let_def)
  show "same_owners (windows s) (windows (scheduler_set_foreground p s))" "fb_of (windows (scheduler_set_foreground p s)) = fb_of (windows s)"
    "process_table (scheduler_set_foreground p s) = process_table s"
    using switch_foreground_owners [OF g(1)] g switch_foreground_fb [OF g(1)] switch_foreground_table(2) [OF g(1)]
    by (auto simp: sf same_owners_refl)
qed

lemma raise_keeps:
  assumes "sched_ok s"
  shows "same_owners (windows s) (windows (raise_window slot s))" "fb_of (windows (raise_window slot s)) = fb_of (windows s)"
    "process_table (raise_window slot s) = process_table s"
  using set_foreground_keeps [OF assms] focus_owners by (simp_all add: raise_window_def on_windows_def Let_def)

lemma hit_valid:
  assumes "hit_slot (hit_test_window w x y) \<ge> 0"
  shows "window_slot_valid w (nat (hit_slot (hit_test_window w x y)))"
proof -
  have t: "window_slot_valid w k \<and> hit_slot h = int k" if "test_slot w x y k = Some h" for k h
  proof -
    have "window_slot_valid w k" using that by (auto simp: test_slot_def split: if_splits)
    with test_slot_iff(2) [OF this that] show ?thesis by simp
  qed
  have st: "hit_slot (hit_test_stack w x y ks) \<ge> 0 \<Longrightarrow> window_slot_valid w (nat (hit_slot (hit_test_stack w x y ks)))" for ks
    by (induction ks) (auto simp: no_hit_def dest!: t split: if_splits option.splits)
  show ?thesis
    using assms st t unfolding hit_test_window_def by (auto simp: no_hit_def split: if_splits option.splits)
qed

lemma kill_fb: "sched_ok s \<Longrightarrow> fb_of (windows (kill_process p s)) = fb_of (windows s)"
proof -
  assume s: "sched_ok s"
  let ?u = "upd_proc p (\<lambda>q. q\<lparr>alive := 0\<rparr>) (upd_proc p (\<lambda>q. register_keyboard_handler q 0) s)"
  let ?w = "?u\<lparr>windows := on_process_exit p (windows ?u)\<rparr>"
  have u: "sched_ok ?u" by (intro upd_proc_ok s small_fits)
  then have w: "sched_ok ?w" by (intro windows_upd_ok on_exit_ok sched_okD(12))
  have f: "fb_of (windows ?w) = fb_of (windows s)" by (simp add: upd_proc_def)
  show ?thesis using restore_foreground_keeps(3) [OF w, of p] f by (simp add: kill_process_def Let_def)
qed

lemma press_left_fb:
  assumes "sched_ok s"
  shows "fb_of (windows (snd (snd (press_left cx cy s)))) = fb_of (windows s)"
proof -
  note r = raise_ok [OF assms] and rf = raise_keeps(2) [OF assms]
  have st: "sched_ok (on_windows (\<lambda>w. stop_resizing (stop_dragging w)) u)" if "sched_ok u" for u
    by (rule on_windows_ok [OF that]) (rule stop_both_ok)
  note st_fb = kept_fb [OF stops(1)] kept_fb [OF stops(2)] kept_fb [OF stops(3)] kept_fb [OF begin_drag_kept]
  show ?thesis
    using rf kill_fb [OF st [OF r]] by (simp add: press_left_def on_windows_def st_fb Let_def)
qed

lemma track_drag_fb: "fb_of (windows (snd (track_drag cx cy c s))) = fb_of (windows s)"
  by (simp add: track_drag_def on_windows_def kept_fb [OF drag_kept])

lemma track_mouse_fb: "fb_of (windows (snd (track_mouse cx cy d c s))) = fb_of (windows s)"
proof -
  have "fb_of w = fb_of (windows s)" if "update_resize cx cy (windows s) = (b, w)" for b w
    using kept_fb [OF resize_kept [of "windows s" cx cy]] that by simp
  then show ?thesis by (auto simp: track_mouse_def track_drag_fb on_windows_def kept_fb [OF stops(2)] split: prod.split)
qed

lemma mouse_event_fb: "sched_ok s \<Longrightarrow> fb_of (windows (snd (windows_handle_mouse_event e s))) = fb_of (windows s)"
proof -
  assume s: "sched_ok s"
  let ?g = "on_windows ensure_geometry s"
  have g: "sched_ok ?g" by (rule on_windows_ok [OF s]) (rule kept_ok [OF kept_prepare(1)])
  have f: "fb_of (windows ?g) = fb_of (windows s)" by (simp add: on_windows_def kept_fb [OF kept_prepare(1)])
  have q: "fb_of (windows (snd (case press_left cx cy ?g of (d, c, s) \<Rightarrow> if d then (True, s) else track_mouse cx cy down c s))) = fb_of (windows s)" for cx cy down
    using press_left_fb [OF g, of cx cy] f track_mouse_fb by (auto split: prod.split)
  have r: "fb_of (windows (on_windows (\<lambda>w. stop_resizing (stop_dragging w)) ?g)) = fb_of (windows s)"
    using f by (simp add: on_windows_def kept_fb [OF stops(1)] kept_fb [OF stops(2)])
  show ?thesis using f q r unfolding windows_handle_mouse_event_def Let_def by (simp add: track_mouse_fb split: if_split)
qed

text \<open>A press of the left button on the close button of a window kills the process that owns it, whatever was
  dragged or resized: afterwards the process is dead and has no window.\<close>

theorem close_button_kills:
  assumes "sched_ok s" "fb_available (windows s)" "g_geometry_ready (windows s)"
    "me_buttons e AND MOUSE_BUTTON_LEFT \<noteq> 0" "me_changed e AND MOUSE_BUTTON_LEFT \<noteq> 0" "0 \<le> me_x e" "0 \<le> me_y e"
    "hit_test_window (windows s) (of_int (me_x e)) (of_int (me_y e)) = hit" "hit_slot hit \<ge> 0" "on_close_button hit"
    "owner (g_windows (windows s) ! nat (hit_slot hit)) = p" "p \<noteq> 0" "p \<in> set (process_table s)"
  shows "\<exists>s'. windows_handle_mouse_event e s = (True, s') \<and> alive (procs s' p) = 0 \<and> find_window_index (windows s') p = -1"
proof -
  let ?slot = "nat (hit_slot hit)"
  have g: "on_windows ensure_geometry s = s" using assms(3) by (simp add: on_windows_def ensure_geometry_def)
  have v: "window_slot_valid (windows s) ?slot" using hit_valid [of "windows s"] assms(8,9) by blast
  define r where "r = on_windows (\<lambda>w. stop_resizing (stop_dragging w)) (raise_window ?slot s)"
  note k = raise_keeps [OF assms(1), of ?slot]
  have r: "sched_ok r" unfolding r_def by (rule on_windows_ok [OF raise_ok [OF assms(1)]]) (rule stop_both_ok)
  have fld: "fb_available (windows r)" "process_table r = process_table s" "g_windows (windows r) = g_windows (windows (raise_window ?slot s))"
    using k assms(2) by (simp_all add: r_def on_windows_def stop_dragging_def stop_resizing_def fb_of_def)
  have own: "owner (g_windows (windows r) ! ?slot) = p"
    using k(1) v assms(11) by (simp add: fld same_owners_def window_slot_valid_def MAX_WINDOWS_def)
  have valid: "process_is_valid (procs r p)"
    using sched_okD(1,8) [OF r] assms(12,13) fld(2) by (auto simp: in_set_conv_nth proc_fit_def proc_ok_def)
  have "press_left (of_int (me_x e)) (of_int (me_y e)) s = (True, True, kill_process p r)"
    using assms(8,9,10,12) v own by (simp add: press_left_def r_def Let_def)
  then have "windows_handle_mouse_event e s = (True, kill_process p r)"
    using assms(2,4-7) g by (simp add: windows_handle_mouse_event_def Let_def)
  then show ?thesis using kill_effect [OF r assms(12) valid fld(1)] by blast
qed


text \<open>A click on the close button of the second of two windows.\<close>

definition close_click :: MouseEvent where
  "close_click = \<lparr>me_x = 715, me_y = 110, me_dx = 0, me_dy = 0, me_scroll_x = 0, me_scroll_y = 0, me_buttons = 1, me_changed = 1, me_target_pid = -1\<rparr>"

lemma windows_sched_ok: "windows_reach w \<Longrightarrow> sched_ok (sample_sched\<lparr>windows := w\<rparr>)"
  using windows_upd_ok [OF sample_sched_ok] by (simp add: windows_reach_ok)

lemma close_click_hits:
  "hit_test_window two_windows 715 110 = \<lparr>hit_slot = 1, on_title_bar = False, on_close_button = True, local_x = 647, local_y = 10, resize_edges = 0\<rparr>"
  "owner (g_windows two_windows ! 1) = 0x2000"
  by (simp_all add: two_windows_def windows_eval raw_wins_def empty_window_def upt8 replicate8 zstack_def in_frame_def hit_test_window_def test_slot_def hit_close_button_def no_hit_def
      CLOSE_BUTTON_SIZE_def CLOSE_BUTTON_MARGIN_def Let_def)

theorem close_button_kills_witness:
  "alive (procs (snd (windows_handle_mouse_event close_click (sample_sched\<lparr>windows := two_windows\<rparr>))) 0x2000) = 0"
proof -
  have "\<exists>s'. windows_handle_mouse_event close_click (sample_sched\<lparr>windows := two_windows\<rparr>) = (True, s') \<and> alive (procs s' 0x2000) = 0 \<and>
      find_window_index (windows s') 0x2000 = -1"
    by (rule close_button_kills [where hit = "hit_test_window two_windows 715 110", OF windows_sched_ok [OF two_windows_reach]])
      (use close_click_hits two_windows_eval(2,3) sample_procs(13) in \<open>simp_all add: close_click_def MOUSE_BUTTON_LEFT_def\<close>)
  then show ?thesis by auto
qed


subsection \<open>The keyboard buffer\<close>

definition KEYBOARD_BUFFER_SIZE :: nat where "KEYBOARD_BUFFER_SIZE = 128"

record keyboard_buffer =
  kb_chars :: "u8 list"
  keyboard_buffer_head :: nat
  keyboard_buffer_tail :: nat

definition keyboard_buffer_push :: "u8 \<Rightarrow> keyboard_buffer \<Rightarrow> keyboard_buffer" where
  "keyboard_buffer_push c b =
     (let next_head = (keyboard_buffer_head b + 1) mod KEYBOARD_BUFFER_SIZE
      in if next_head \<noteq> keyboard_buffer_tail b
         then b\<lparr>kb_chars := (kb_chars b)[keyboard_buffer_head b := c], keyboard_buffer_head := next_head\<rparr> else b)"

definition keyboard_buffer_pop :: "keyboard_buffer \<Rightarrow> u8 \<times> keyboard_buffer" where
  "keyboard_buffer_pop b =
     (if keyboard_buffer_head b = keyboard_buffer_tail b then (0, b)
      else (kb_chars b ! keyboard_buffer_tail b, b\<lparr>keyboard_buffer_tail := (keyboard_buffer_tail b + 1) mod KEYBOARD_BUFFER_SIZE\<rparr>))"

text \<open>The buffer as the list of its characters: a full buffer drops the new character, and one place always stays free.\<close>

definition kb_ok :: "keyboard_buffer \<Rightarrow> bool" where
  "kb_ok b \<longleftrightarrow> length (kb_chars b) = 128 \<and> keyboard_buffer_head b < 128 \<and> keyboard_buffer_tail b < 128"

definition kb_count :: "keyboard_buffer \<Rightarrow> nat" where
  "kb_count b = (keyboard_buffer_head b + 128 - keyboard_buffer_tail b) mod 128"

definition kb_contents :: "keyboard_buffer \<Rightarrow> u8 list" where
  "kb_contents b = map (\<lambda>i. kb_chars b ! ((keyboard_buffer_tail b + i) mod 128)) [0..<kb_count b]"

lemma kb_head: "kb_ok b \<Longrightarrow> keyboard_buffer_head b = (keyboard_buffer_tail b + kb_count b) mod 128"
proof -
  assume b: "kb_ok b"
  let ?h = "keyboard_buffer_head b" and ?t = "keyboard_buffer_tail b"
  have "(?t + (?h + 128 - ?t) mod 128) mod 128 = (?t + (?h + 128 - ?t)) mod 128" by (simp add: mod_simps)
  also have "\<dots> = ?h" using b by (simp add: kb_ok_def)
  finally show ?thesis by (simp add: kb_count_def)
qed

lemma kb_push:
  assumes b: "kb_ok b"
  shows "kb_ok (keyboard_buffer_push c b)"
    "kb_contents (keyboard_buffer_push c b) = (if length (kb_contents b) < 127 then kb_contents b @ [c] else kb_contents b)"
proof -
  let ?h = "keyboard_buffer_head b" and ?t = "keyboard_buffer_tail b" and ?n = "kb_count b"
  have lt: "?h < 128" "?t < 128" "length (kb_chars b) = 128" "?n < 128" using b by (simp_all add: kb_ok_def kb_count_def)
  have h: "?h = (?t + ?n) mod 128" by (rule kb_head [OF b])
  have full: "(?h + 1) mod 128 = ?t \<longleftrightarrow> ?n = 127"
  proof -
    have "(?h + 1) mod 128 = (?t + (?n + 1)) mod 128" unfolding h by (simp add: mod_simps)
    moreover have "(?t + (?n + 1)) mod 128 = ?t \<longleftrightarrow> ?n + 1 = 128"
      using lt ring_index_inj [of "?n + 1" 128 0 ?t] by (cases "?n + 1 = 128") (auto simp: ring_index)
    ultimately show ?thesis by simp
  qed
  show "kb_ok (keyboard_buffer_push c b)" using b by (simp add: kb_ok_def keyboard_buffer_push_def KEYBOARD_BUFFER_SIZE_def Let_def)
  show "kb_contents (keyboard_buffer_push c b) = (if length (kb_contents b) < 127 then kb_contents b @ [c] else kb_contents b)"
  proof (cases "?n = 127")
    case True
    then show ?thesis using full by (simp add: keyboard_buffer_push_def KEYBOARD_BUFFER_SIZE_def kb_contents_def)
  next
    case False
    define b' where "b' = keyboard_buffer_push c b"
    have b': "b' = b\<lparr>kb_chars := (kb_chars b)[?h := c], keyboard_buffer_head := (?h + 1) mod 128\<rparr>"
      using False full by (simp add: b'_def keyboard_buffer_push_def KEYBOARD_BUFFER_SIZE_def)
    have "((?h + 1) mod 128 + 128 - ?t) mod 128 = ?n + 1"
    proof -
      have "(?h + 1) mod 128 = (?t + (?n + 1)) mod 128" unfolding h by (simp add: mod_simps)
      then have "((?h + 1) mod 128 + 128 - ?t) mod 128 = ((?t + (?n + 1)) mod 128 + (128 - ?t)) mod 128" using lt by simp
      also have "\<dots> = (?t + (?n + 1) + (128 - ?t)) mod 128" by (simp only: mod_add_left_eq)
      also have "?t + (?n + 1) + (128 - ?t) = 128 + (?n + 1)" using lt by simp
      also have "(128 + (?n + 1)) mod 128 = ?n + 1" using lt False by (simp only: mod_add_self1) simp
      finally show ?thesis .
    qed
    then have n': "kb_count b' = ?n + 1" by (simp add: b' kb_count_def)
    have idx: "(?t + i) mod 128 \<noteq> ?h" if "i < ?n" for i
    proof
      assume "(?t + i) mod 128 = ?h"
      then have "(?t + i) mod 128 = (?t + ?n) mod 128" using h by simp
      then show False using ring_index_inj [of i 128 ?n ?t] that lt by simp
    qed
    have "kb_contents b' = map (\<lambda>i. kb_chars b' ! ((?t + i) mod 128)) [0..<?n] @ [kb_chars b' ! ((?t + ?n) mod 128)]"
      unfolding kb_contents_def n' by (simp add: b')
    also have "\<dots> = kb_contents b @ [c]" unfolding h [symmetric] using idx [THEN not_sym] lt by (simp add: b' kb_contents_def)
    finally show ?thesis using False lt by (simp add: b'_def kb_contents_def)
  qed
qed


lemma kb_pop:
  assumes b: "kb_ok b"
  shows "kb_contents b = [] \<Longrightarrow> keyboard_buffer_pop b = (0, b)"
    "kb_contents b = c # cs \<Longrightarrow> \<exists>b'. keyboard_buffer_pop b = (c, b') \<and> kb_ok b' \<and> kb_contents b' = cs"
proof -
  let ?h = "keyboard_buffer_head b" and ?t = "keyboard_buffer_tail b" and ?n = "kb_count b"
  have lt: "?h < 128" "?t < 128" "length (kb_chars b) = 128" "?n < 128" using b by (simp_all add: kb_ok_def kb_count_def)
  have h: "?h = (?t + ?n) mod 128" by (rule kb_head [OF b])
  have e: "?h = ?t \<longleftrightarrow> ?n = 0" using h lt ring_index_inj [of ?n 128 0 ?t] by simp
  show "kb_contents b = [] \<Longrightarrow> keyboard_buffer_pop b = (0, b)" using e by (simp add: kb_contents_def keyboard_buffer_pop_def)
  show "\<exists>b'. keyboard_buffer_pop b = (c, b') \<and> kb_ok b' \<and> kb_contents b' = cs" if c: "kb_contents b = c # cs"
  proof -
    obtain m where m: "?n = Suc m" using c by (cases ?n) (simp_all add: kb_contents_def)
    let ?b = "b\<lparr>keyboard_buffer_tail := (?t + 1) mod 128\<rparr>"
    have "[0..<?n] = 0 # map Suc [0..<m]" by (simp add: m upt_conv_Cons map_Suc_upt del: upt_Suc)
    then have l: "kb_contents b = kb_chars b ! ?t # map (\<lambda>i. kb_chars b ! ((?t + Suc i) mod 128)) [0..<m]"
      using lt by (simp add: kb_contents_def)
    have "(?h + 128 - (?t + 1) mod 128) mod 128 = m"
    proof -
      define q where "q = (?t + 1) mod 128"
      have q: "q < 128" "?h = (q + m) mod 128" unfolding q_def h m by (simp_all add: mod_simps)
      have "(?h + 128 - q) mod 128 = ((q + m) mod 128 + (128 - q)) mod 128" using q by simp
      also have "\<dots> = (q + m + (128 - q)) mod 128" by (simp only: mod_add_left_eq)
      also have "q + m + (128 - q) = 128 + m" using q(1) by linarith
      also have "(128 + m) mod 128 = m" using m lt by (simp only: mod_add_self1) simp
      finally show ?thesis unfolding q_def .
    qed
    then have n': "kb_count ?b = m" by (simp add: kb_count_def)
    have i: "((?t + 1) mod 128 + i) mod 128 = (?t + Suc i) mod 128" for i by (simp add: mod_simps)
    have "kb_contents ?b = cs" unfolding kb_contents_def n' using c l i by simp
    moreover have "keyboard_buffer_pop b = (c, ?b)" using e m c l by (simp add: keyboard_buffer_pop_def KEYBOARD_BUFFER_SIZE_def)
    moreover have "kb_ok ?b" using b by (simp add: kb_ok_def)
    ultimately show ?thesis by blast
  qed
qed

definition kb_take :: "keyboard_buffer \<Rightarrow> (u8 \<times> keyboard_buffer) option" where
  "kb_take b = (if keyboard_buffer_head b = keyboard_buffer_tail b then None else Some (keyboard_buffer_pop b))"

interpretation keyboard_chars: bounded_queue kb_ok kb_contents 127 keyboard_buffer_push kb_take "\<lambda>c cs. cs"
proof unfold_locales
  fix b c cs
  assume b: "kb_ok b"
  have n: "kb_count b < 128" by (simp add: kb_count_def)
  then show "length (kb_contents b) \<le> 127" by (simp add: kb_contents_def)
  show "kb_ok (keyboard_buffer_push c b)" by (rule kb_push(1) [OF b])
  show "length (kb_contents b) < 127 \<Longrightarrow> kb_contents (keyboard_buffer_push c b) = kb_contents b @ [c]"
    "length (kb_contents b) = 127 \<Longrightarrow> kb_contents (keyboard_buffer_push c b) = kb_contents b"
    using kb_push(2) [OF b, of c] by simp_all
  have e: "keyboard_buffer_head b = keyboard_buffer_tail b \<longleftrightarrow> kb_count b = 0"
    using kb_head [OF b] b n ring_index_inj [of "kb_count b" 128 0 "keyboard_buffer_tail b"] by (simp add: kb_ok_def)
  show "kb_contents b = [] \<Longrightarrow> kb_take b = None" using e by (simp add: kb_take_def kb_contents_def)
  show "kb_contents b = c # cs \<Longrightarrow> \<exists>b'. kb_take b = Some (c, b') \<and> kb_ok b' \<and> kb_contents b' = cs"
    using kb_pop(2) [OF b, of c cs] e by (cases "kb_count b = 0") (auto simp: kb_take_def kb_contents_def)
qed

text \<open>The ring of characters behaves as a bounded queue of 127 characters: pushing appends a character, or drops
  it when the buffer is full; popping takes the oldest one, and yields 0 from an empty buffer; up to 127 characters pushed to an
  empty buffer are read back in order.\<close>

theorem keyboard_buffer_refines:
  assumes "kb_ok b"
  shows "kb_ok (keyboard_buffer_push c b) \<and>
    kb_contents (keyboard_buffer_push c b) = (if length (kb_contents b) < 127 then kb_contents b @ [c] else kb_contents b) \<and>
    (case kb_contents b of [] \<Rightarrow> keyboard_buffer_pop b = (0, b)
     | x # xs \<Rightarrow> \<exists>b'. keyboard_buffer_pop b = (x, b') \<and> kb_ok b' \<and> kb_contents b' = xs) \<and>
    (kb_contents b = [] \<and> length cs \<le> 127 \<longrightarrow> drain kb_take 127 (fold keyboard_buffer_push cs b) = cs)"
  using kb_push [OF assms, of c] kb_pop [OF assms] keyboard_chars.fifo [of b cs] assms by (auto split: list.split)

definition empty_keyboard_buffer :: keyboard_buffer where
  "empty_keyboard_buffer = \<lparr>kb_chars = replicate 128 0, keyboard_buffer_head = 0, keyboard_buffer_tail = 0\<rparr>"

lemma empty_kb: "kb_ok empty_keyboard_buffer" "kb_contents empty_keyboard_buffer = []"
  by (simp_all add: empty_keyboard_buffer_def kb_ok_def kb_contents_def kb_count_def)

theorem keyboard_buffer_refines_witness:
  "drain kb_take 127 (fold keyboard_buffer_push [0x61, 0x62] empty_keyboard_buffer) = [0x61, 0x62]"
  using keyboard_buffer_refines [OF empty_kb(1), of 0 "[0x61, 0x62]"] empty_kb(2) by simp

end
