(* ===== verification/Devices.thy ===== *)
theory Devices
  imports Input
begin

text \<open>
  The interrupt handlers of the keyboard (\<^verbatim>\<open>src/kernel/keyboard.cpp\<close>), the mouse (\<^verbatim>\<open>mouse.cpp\<close>, \<^verbatim>\<open>gui.cpp\<close>) and the timer
  (\<^verbatim>\<open>timer.cpp\<close>) over the state of the kernel. What the controllers deliver is an argument: a scancode, the status and data
  bytes of the mouse. The last resort of the keyboard handler, \<open>shell_handle_key\<close>, is a parameter; it is reached only
  when there is neither a foreground process nor a shell nor a current process.
\<close>

subsection \<open>State\<close>

record MouseState =
  ms_x :: int
  ms_y :: int
  ms_buttons :: u8
  ms_available :: u8

record kernel =
  core :: sched
  console :: Terminal
  keys :: keyboard_buffer
  shift_pressed :: bool
  caps_lock_active :: bool
  extended :: bool
  g_shell_process :: addr
  g_mouse_x :: int
  g_mouse_y :: int
  g_mouse_buttons :: u8
  g_mouse_available :: u8
  g_state :: MouseState
  g_packet :: "u8 list"
  g_packet_index :: nat
  g_bytes_expected :: nat
  g_has_scroll_wheel :: bool
  cursor_x :: int
  cursor_y :: int
  cursor_buttons :: u8
  cursor_visible :: bool
  timer_ticks :: u32
  timer_frequency_hz :: u32

definition on_core :: "(sched \<Rightarrow> sched) \<Rightarrow> kernel \<Rightarrow> kernel" where
  "on_core f k = k\<lparr>core := f (core k)\<rparr>"

text \<open>The step that every device shares: queue the event and wake the processes that wait for the target's signal.\<close>

definition deliver_event :: "addr \<Rightarrow> IOEvent \<Rightarrow> sched \<Rightarrow> sched" where
  "deliver_event target e s =
     scheduler_resume_processes_for_event SIGNAL (of_int (pid (procs s target))) (upd_proc target (push_io_event e) s)"

subsection \<open>The keyboard\<close>

definition KBD_SCANCODE_RELEASE :: u8 where "KBD_SCANCODE_RELEASE = 0x80"
definition KBD_SCANCODE_SHIFT_LEFT :: u8 where "KBD_SCANCODE_SHIFT_LEFT = 0x2A"
definition KBD_SCANCODE_SHIFT_RIGHT :: u8 where "KBD_SCANCODE_SHIFT_RIGHT = 0x36"
definition KBD_SCANCODE_CAPS_LOCK :: u8 where "KBD_SCANCODE_CAPS_LOCK = 0x3A"
definition KBD_SCANCODE_BACKSPACE :: u8 where "KBD_SCANCODE_BACKSPACE = 0x0E"
definition KBD_SCANCODE_ENTER :: u8 where "KBD_SCANCODE_ENTER = 0x1C"

definition scancode_to_ascii :: "u8 list" where
  "scancode_to_ascii =
     [0, 0] @ map of_char ''1234567890-='' @ [0, 0] @
     map of_char ''qwertyuiop[]'' @ [0x0A, 0] @
     map of_char ''asdfghjkl;'' @ [0x27, 0x60, 0, 0x5C] @
     map of_char ''zxcvbnm,./'' @ [0] @ map of_char ''*'' @ [0] @ map of_char '' '' @
     replicate 70 0"

definition toupper :: "u8 \<Rightarrow> u8" where
  "toupper c = (if 0x61 \<le> c \<and> c \<le> 0x7A then c - (0x61 - 0x41) else c)"

definition kb_to_ascii :: "keyboard_event \<Rightarrow> u8" where
  "kb_to_ascii event =
     (if scancode event \<ge> 128 then 0
      else let ascii = scancode_to_ascii ! unat (scancode event)
           in if (shift event \<or> caps_lock event) \<and> 0x61 \<le> ascii \<and> ascii \<le> 0x7A then toupper ascii else ascii)"

text \<open>The steps of \<open>read_keyboard\<close>: the key after the prefix \<open>0xE0\<close>, the state of the shift keys and of caps lock.\<close>

definition extended_key :: "u8 \<Rightarrow> keyboard_event \<Rightarrow> keyboard_event" where
  "extended_key code event =
     (if code = 0x48 then event\<lparr>up_arrow := True\<rparr> else if code = 0x50 then event\<lparr>down_arrow := True\<rparr>
      else if code = 0x4B then event\<lparr>left_arrow := True\<rparr> else if code = 0x4D then event\<lparr>right_arrow := True\<rparr>
      else event)\<lparr>special := True\<rparr>"

definition track_shift :: "u8 \<Rightarrow> bool \<Rightarrow> bool" where
  "track_shift code pressed =
     (if code = KBD_SCANCODE_SHIFT_LEFT \<or> code = KBD_SCANCODE_SHIFT_RIGHT then True
      else if code = (KBD_SCANCODE_SHIFT_LEFT OR KBD_SCANCODE_RELEASE) \<or> code = (KBD_SCANCODE_SHIFT_RIGHT OR KBD_SCANCODE_RELEASE)
      then False else pressed)"

definition read_keyboard :: "u8 \<Rightarrow> kernel \<Rightarrow> keyboard_event \<times> kernel" where
  "read_keyboard code k =
     (let event = \<lparr>scancode = code, shift = shift_pressed k, caps_lock = caps_lock_active k, ctrl = False, alt = False, special = False,
            release = False, enter = False, backspace = False, up_arrow = False, down_arrow = False, left_arrow = False,
            right_arrow = False\<rparr>
      in if code = 0xE0 then (event\<lparr>special := True\<rparr>, k\<lparr>extended := True\<rparr>)
         else
           let event = (if extended k then extended_key code event else event);
               k = (if extended k then k\<lparr>extended := False\<rparr> else k);
               k = k\<lparr>shift_pressed := track_shift code (shift_pressed k)\<rparr>;
               event = event\<lparr>shift := shift_pressed k, release := (code AND KBD_SCANCODE_RELEASE \<noteq> 0)\<rparr>;
               k = (if code = KBD_SCANCODE_CAPS_LOCK then k\<lparr>caps_lock_active := \<not> caps_lock_active k\<rparr> else k)
           in (event\<lparr>caps_lock := caps_lock_active k, enter := (code = KBD_SCANCODE_ENTER), backspace := (code = KBD_SCANCODE_BACKSPACE)\<rparr>, k))"

definition event_target :: "kernel \<Rightarrow> addr" where
  "event_target k =
     (if scheduler_get_foreground (core k) \<noteq> 0 then scheduler_get_foreground (core k)
      else if g_shell_process k \<noteq> 0 then g_shell_process k else scheduler_current_process (core k))"

definition dispatch_keyboard_event :: "(keyboard_event \<Rightarrow> kernel \<Rightarrow> kernel) \<Rightarrow> keyboard_event \<Rightarrow> kernel \<Rightarrow> kernel" where
  "dispatch_keyboard_event shell_handle_key event k =
     (let c = kb_to_ascii event;
          k = (if \<not> release event \<and> c \<noteq> 0 then k\<lparr>keys := keyboard_buffer_push c (keys k)\<rparr> else k);
          target = event_target k
      in if target \<noteq> 0 then on_core (deliver_event target (EVENT_KEYBOARD event)) k else shell_handle_key event k)"

definition keyboard_callback :: "(keyboard_event \<Rightarrow> kernel \<Rightarrow> kernel) \<Rightarrow> u8 \<Rightarrow> kernel \<Rightarrow> kernel" where
  "keyboard_callback shell_handle_key code k =
     (case read_keyboard code k of (event, k) \<Rightarrow> dispatch_keyboard_event shell_handle_key event k)"

text \<open>Polling drains the scancodes that the controller holds.\<close>

definition keyboard_service_pending :: "(keyboard_event \<Rightarrow> kernel \<Rightarrow> kernel) \<Rightarrow> u8 list \<Rightarrow> kernel \<Rightarrow> kernel" where
  "keyboard_service_pending shell_handle_key codes k = fold (keyboard_callback shell_handle_key) codes k"

subsection \<open>The mouse\<close>

definition clamp_coordinate :: "int \<Rightarrow> u32 \<Rightarrow> int" where
  "clamp_coordinate v limit = (if v < 0 then 0 else if v \<ge> sint limit then sint limit - 1 else v)"

definition clamp_to_screen :: "wins \<Rightarrow> int \<Rightarrow> int \<Rightarrow> int \<times> int" where
  "clamp_to_screen w x y =
     (if \<not> fb_available w then (if x < 0 then 0 else x, if y < 0 then 0 else y)
      else if fb_width w = 0 \<or> fb_height w = 0 then (0, 0)
      else (clamp_coordinate x (fb_width w), clamp_coordinate y (fb_height w)))"

definition clamp_position :: "kernel \<Rightarrow> kernel" where
  "clamp_position k =
     (case clamp_to_screen (windows (core k)) (g_mouse_x k) (g_mouse_y k) of (x, y) \<Rightarrow> k\<lparr>g_mouse_x := x, g_mouse_y := y\<rparr>)"

definition clamp_cursor :: "kernel \<Rightarrow> kernel" where
  "clamp_cursor k =
     (case clamp_to_screen (windows (core k)) (cursor_x k) (cursor_y k) of (x, y) \<Rightarrow> k\<lparr>cursor_x := x, cursor_y := y\<rparr>)"

definition gui_handle_mouse_event :: "MouseEvent \<Rightarrow> kernel \<Rightarrow> kernel" where
  "gui_handle_mouse_event event k =
     (if \<not> fb_available (windows (core k)) then k
      else let k = k\<lparr>cursor_visible := True\<rparr>;
               k = (if me_x event \<noteq> cursor_x k \<or> me_y event \<noteq> cursor_y k \<or> me_buttons event \<noteq> cursor_buttons k
                    then clamp_cursor (k\<lparr>cursor_x := me_x event, cursor_y := me_y event, cursor_buttons := me_buttons event\<rparr>) else k)
           in on_core (\<lambda>s. snd (windows_handle_mouse_event event s)) k)"

definition initialize_mouse_cursor :: "int \<Rightarrow> int \<Rightarrow> u8 \<Rightarrow> kernel \<Rightarrow> kernel" where
  "initialize_mouse_cursor x y buttons k =
     (if \<not> fb_available (windows (core k)) then k
      else clamp_cursor (k\<lparr>cursor_visible := True, cursor_x := x, cursor_y := y, cursor_buttons := buttons\<rparr>))"

definition dispatch_event :: "MouseEvent \<Rightarrow> kernel \<Rightarrow> kernel" where
  "dispatch_event event k =
     (let target = event_target k
      in if target = 0 then k
         else on_core (deliver_event target (EVENT_MOUSE (event\<lparr>me_target_pid := pid (procs (core k) target)\<rparr>))) k)"

definition publish_state :: "kernel \<Rightarrow> kernel" where
  "publish_state k = k\<lparr>g_state := \<lparr>ms_x = g_mouse_x k, ms_y = g_mouse_y k, ms_buttons = g_mouse_buttons k, ms_available = g_mouse_available k\<rparr>\<rparr>"

definition handle_packet :: "kernel \<Rightarrow> kernel" where
  "handle_packet k =
     (let status = g_packet k ! 0
      in if status AND 0x40 \<noteq> 0 \<or> status AND 0x80 \<noteq> 0 then k\<lparr>g_packet_index := 0\<rparr>
         else let dx = sint (g_packet k ! 1); dy = - sint (g_packet k ! 2);
                  previous_x = g_mouse_x k; previous_y = g_mouse_y k;
                  k = clamp_position (k\<lparr>g_mouse_x := g_mouse_x k + dx, g_mouse_y := g_mouse_y k + dy\<rparr>);
                  buttons = status AND 0x07; changed = buttons XOR g_mouse_buttons k;
                  k = k\<lparr>g_mouse_buttons := buttons\<rparr>;
                  scroll_y = (if g_has_scroll_wheel k \<and> g_bytes_expected k = 4 then sint (g_packet k ! 3) else 0);
                  k = publish_state k;
                  event = \<lparr>me_x = g_mouse_x k, me_y = g_mouse_y k, me_dx = g_mouse_x k - previous_x, me_dy = g_mouse_y k - previous_y,
                           me_scroll_x = 0, me_scroll_y = scroll_y, me_buttons = buttons, me_changed = changed, me_target_pid = -1\<rparr>
              in dispatch_event event (gui_handle_mouse_event event k))"

text \<open>One data byte in the loop of \<open>mouse_callback\<close>, and the loop over the status and data bytes that the controller delivers.\<close>

definition mouse_byte :: "u8 \<Rightarrow> kernel \<Rightarrow> kernel" where
  "mouse_byte data k =
     (if g_packet_index k = 0 \<and> data AND 0x08 = 0 then k
      else let k = k\<lparr>g_packet := (g_packet k)[g_packet_index k := data], g_packet_index := g_packet_index k + 1\<rparr>
           in if g_packet_index k \<ge> g_bytes_expected k then (handle_packet k)\<lparr>g_packet_index := 0\<rparr> else k)"

fun mouse_callback :: "(u8 \<times> u8) list \<Rightarrow> kernel \<Rightarrow> kernel" where
  "mouse_callback [] k = k"
| "mouse_callback ((status, data) # input) k =
     (if status AND 0x01 = 0 \<or> status AND 0x20 = 0 then k else mouse_callback input (mouse_byte data k))"

text \<open>\<open>wheel\<close> is the answer of the device to \<open>try_enable_scroll_wheel\<close>.\<close>

definition mouse_initialize :: "bool \<Rightarrow> kernel \<Rightarrow> kernel" where
  "mouse_initialize wheel k =
     (let w = windows (core k);
          k = k\<lparr>g_packet_index := 0, g_mouse_buttons := 0, g_has_scroll_wheel := wheel, g_bytes_expected := (if wheel then 4 else 3),
                g_mouse_available := (if fb_available w then 1 else 0)\<rparr>;
          k = (if fb_available w then k\<lparr>g_mouse_x := sint (fb_width w div 2), g_mouse_y := sint (fb_height w div 2)\<rparr>
               else k\<lparr>g_mouse_x := 0, g_mouse_y := 0\<rparr>);
          k = publish_state (clamp_position k)
      in if g_mouse_available k \<noteq> 0 then initialize_mouse_cursor (g_mouse_x k) (g_mouse_y k) (g_mouse_buttons k) k else k)"

definition mouse_get_state :: "kernel \<Rightarrow> MouseState" where
  "mouse_get_state k = g_state k"

subsection \<open>The timer\<close>

definition timer_handler :: "addr \<Rightarrow> kernel \<Rightarrow> panic + kernel" where
  "timer_handler regs k =
     (let k = k\<lparr>timer_ticks := timer_ticks k + 1\<rparr>;
          s = scheduler_resume_processes_for_event TIME_REACHED (ucast (timer_ticks k)) (core k)
      in case scheduler_on_tick regs s of Inl p \<Rightarrow> Inl p | Inr s \<Rightarrow> Inr (k\<lparr>core := s\<rparr>))"

text \<open>The bytes written to the ports of the timer chip, and the new state.\<close>

definition init_timer :: "u32 \<Rightarrow> kernel \<Rightarrow> (u16 \<times> u8) list \<times> kernel" where
  "init_timer frequency k =
     (let divisor = 1193180 div frequency
      in ([(0x43, 0x36), (0x40, ucast (divisor AND 0xFF)), (0x40, ucast (drop_bit 8 divisor AND 0xFF))],
          k\<lparr>timer_frequency_hz := frequency\<rparr>))"

definition get_ticks :: "kernel \<Rightarrow> u32" where
  "get_ticks k = timer_ticks k"

definition get_ticks_milliseconds :: "kernel \<Rightarrow> u32" where
  "get_ticks_milliseconds k = (if timer_frequency_hz k = 0 then 0 else timer_ticks k * 1000 div timer_frequency_hz k)"


subsection \<open>Invariant of the devices\<close>

definition on_display :: "wins \<Rightarrow> int \<Rightarrow> int \<Rightarrow> bool" where
  "on_display w x y \<longleftrightarrow> 0 \<le> x \<and> 0 \<le> y \<and> (fb_available w \<and> 0 < sint (fb_width w) \<and> 0 < sint (fb_height w) \<longrightarrow> x < sint (fb_width w) \<and> y < sint (fb_height w))"

definition fb_sane :: "wins \<Rightarrow> bool" where
  "fb_sane w \<longleftrightarrow> 0 \<le> sint (fb_width w) \<and> 0 \<le> sint (fb_height w)"

definition kernel_ok :: "kernel \<Rightarrow> bool" where
  "kernel_ok k \<longleftrightarrow> sched_ok (core k) \<and> kb_ok (keys k) \<and> fb_sane (windows (core k)) \<and> length (g_packet k) = 4 \<and>
     (g_bytes_expected k = 3 \<or> g_bytes_expected k = 4) \<and> g_packet_index k < g_bytes_expected k \<and>
     on_display (windows (core k)) (g_mouse_x k) (g_mouse_y k)"

lemma clamp_on_display:
  assumes "fb_sane w" "clamp_to_screen w x y = (a, b)"
  shows "on_display w a b"
proof -
  have z: "sint v \<noteq> 0" if "v \<noteq> 0" for v :: u32 using that by (simp add: signed_eq_0_iff)
  show ?thesis using assms z [of "fb_width w"] z [of "fb_height w"]
    by (auto simp: clamp_to_screen_def clamp_coordinate_def on_display_def fb_sane_def split: if_splits)
qed

lemma fb_of_display: "fb_of w' = fb_of w \<Longrightarrow> on_display w' x y = on_display w x y" "fb_of w' = fb_of w \<Longrightarrow> fb_sane w' = fb_sane w"
  by (simp_all add: fb_of_def on_display_def fb_sane_def)

lemma deliver_ok: "sched_ok s \<Longrightarrow> sched_ok (deliver_event p e s)"
  by (simp add: deliver_event_def resume_ok upd_proc_ok push_fit)

lemma deliver_windows: "sched_ok s \<Longrightarrow> windows (deliver_event p e s) = windows s"
proof -
  assume "sched_ok s"
  then have r: "sched_ok (upd_proc p (push_io_event e) s)" by (simp add: upd_proc_ok push_fit)
  show ?thesis unfolding deliver_event_def resume_spec [OF r] by (simp add: upd_proc_def)
qed

text \<open>The event arrives at the end of the target's queue, and the target's waiting hooks for its signal are gone.\<close>

lemma deliver_spec:
  assumes "sched_ok s" "p \<in> set (process_table s)" "p \<noteq> 0"
  shows "queued (io_events (procs (deliver_event p e s) p)) =
      (if length (queued (io_events (procs s p))) < 128 then queued (io_events (procs s p)) else tl (queued (io_events (procs s p)))) @ [e]"
    "active_hooks (procs (deliver_event p e s) p) = filter (\<lambda>h. \<not> hook_matches SIGNAL (of_int (pid (procs s p))) h) (active_hooks (procs s p))"
proof -
  let ?u = "upd_proc p (push_io_event e) s"
  have u: "sched_ok ?u" using assms(1) by (simp add: upd_proc_ok push_fit)
  have ok: "proc_ok (procs s p)" using assms sched_okD(1,8) [OF assms(1)] by (auto simp: in_set_conv_nth proc_fit_def)
  have pu: "procs ?u p = push_io_event e (procs s p)" "process_table ?u = process_table s" by (simp_all add: upd_proc_def)
  have ok': "proc_ok (procs ?u p)" using push_proc_ok [OF ok] by (simp add: pu)
  have d: "procs (deliver_event p e s) p = waits SIGNAL (of_int (pid (procs s p))) (procs ?u p)"
    unfolding deliver_event_def resume_spec [OF u] using assms(2,3) pu by simp
  have "hooks (push_io_event e (procs s p)) = hooks (procs s p)" "hook_count (push_io_event e (procs s p)) = hook_count (procs s p)"
    using ok by (simp_all add: push_healthy proc_ok_def)
  then have h: "active_hooks (procs ?u p) = active_hooks (procs s p)" by (simp add: pu active_hooks_def)
  show "queued (io_events (procs (deliver_event p e s) p)) =
      (if length (queued (io_events (procs s p))) < 128 then queued (io_events (procs s p)) else tl (queued (io_events (procs s p)))) @ [e]"
    unfolding d waits_fields(1) [OF ok'] unfolding pu using push_queued(3) [of "procs s p" e] ok by (simp add: proc_ok_def)
  show "active_hooks (procs (deliver_event p e s) p) = filter (\<lambda>h. \<not> hook_matches SIGNAL (of_int (pid (procs s p))) h) (active_hooks (procs s p))"
    unfolding d waits_hooks(2) [OF ok'] h by (rule refl)
qed

lemma read_keyboard_state:
  "snd (read_keyboard code k) = k\<lparr>extended := (code = 0xE0), shift_pressed := track_shift code (shift_pressed k),
     caps_lock_active := (caps_lock_active k \<noteq> (code = KBD_SCANCODE_CAPS_LOCK))\<rparr>"
proof (cases "code = 0xE0")
  case True
  then show ?thesis
    by (simp add: read_keyboard_def track_shift_def KBD_SCANCODE_SHIFT_LEFT_def KBD_SCANCODE_SHIFT_RIGHT_def KBD_SCANCODE_RELEASE_def
        KBD_SCANCODE_CAPS_LOCK_def)
next
  case False
  then show ?thesis by (cases "extended k") (simp_all add: read_keyboard_def Let_def)
qed

lemma read_keyboard_keeps:
  assumes "read_keyboard code k = (e, k')"
  shows "core k' = core k" "keys k' = keys k" "g_shell_process k' = g_shell_process k" "kernel_ok k' = kernel_ok k"
  using read_keyboard_state [of code k] assms by (simp_all add: kernel_ok_def)

text \<open>Once the shell runs, every key goes to a process: the last resort of the handler is never reached.\<close>

lemma keyboard_ok:
  assumes "kernel_ok k" "g_shell_process k \<noteq> 0"
  shows "kernel_ok (keyboard_callback shell code k)" "g_shell_process (keyboard_callback shell code k) = g_shell_process k"
proof -
  obtain e k1 where r: "read_keyboard code k = (e, k1)" by fastforce
  have k1: "kernel_ok k1" using read_keyboard_keeps(4) [OF r] assms(1) by simp
  define k2 where "k2 = (if \<not> release e \<and> kb_to_ascii e \<noteq> 0 then k1\<lparr>keys := keyboard_buffer_push (kb_to_ascii e) (keys k1)\<rparr> else k1)"
  have k2: "kernel_ok k2" using k1 kb_push(1) by (simp add: k2_def kernel_ok_def)
  have "kernel_ok (on_core (deliver_event t ev) k2)" for t ev
    using k2 deliver_ok [of "core k2" t ev] deliver_windows [of "core k2" t ev] by (simp add: kernel_ok_def on_core_def)
  moreover have "g_shell_process k2 = g_shell_process k" using read_keyboard_keeps(3) [OF r] by (simp add: k2_def)
  moreover from this have "event_target k2 \<noteq> 0" using assms(2) by (simp add: event_target_def)
  ultimately show "kernel_ok (keyboard_callback shell code k)" "g_shell_process (keyboard_callback shell code k) = g_shell_process k"
    by (simp_all add: keyboard_callback_def r dispatch_keyboard_event_def k2_def [symmetric] on_core_def Let_def)
qed

lemma dispatch_event_ok: "kernel_ok k \<Longrightarrow> kernel_ok (dispatch_event e k)"
  using deliver_ok [of "core k"] deliver_windows [of "core k"] by (simp add: dispatch_event_def kernel_ok_def on_core_def Let_def)

lemma clamp_keeps: "kernel_ok k \<Longrightarrow> kernel_ok (clamp_cursor k)"
  by (simp add: clamp_cursor_def kernel_ok_def split: prod.split)

lemma gui_mouse_ok:
  assumes "kernel_ok k"
  shows "kernel_ok (gui_handle_mouse_event e k)"
proof -
  define k1 where "k1 = (if me_x e \<noteq> cursor_x k \<or> me_y e \<noteq> cursor_y k \<or> me_buttons e \<noteq> cursor_buttons k
      then clamp_cursor (k\<lparr>cursor_visible := True, cursor_x := me_x e, cursor_y := me_y e, cursor_buttons := me_buttons e\<rparr>)
      else k\<lparr>cursor_visible := True\<rparr>)"
  have "kernel_ok (k\<lparr>cursor_visible := True, cursor_x := me_x e, cursor_y := me_y e, cursor_buttons := me_buttons e\<rparr>)"
    "kernel_ok (k\<lparr>cursor_visible := True\<rparr>)" using assms by (simp_all add: kernel_ok_def)
  then have k1: "kernel_ok k1" using clamp_keeps by (simp add: k1_def)
  have "kernel_ok (on_core (\<lambda>s. snd (windows_handle_mouse_event e s)) k1)"
    using k1 mouse_event_ok [of "core k1" e] fb_of_display [OF mouse_event_fb [of "core k1" e]] by (simp add: kernel_ok_def on_core_def)
  moreover have "gui_handle_mouse_event e k = (if \<not> fb_available (windows (core k)) then k
      else on_core (\<lambda>s. snd (windows_handle_mouse_event e s)) k1)"
    by (simp add: gui_handle_mouse_event_def k1_def Let_def)
  ultimately show ?thesis using assms by simp
qed

lemma clamp_position_ok:
  assumes "sched_ok (core k)" "kb_ok (keys k)" "fb_sane (windows (core k))" "length (g_packet k) = 4"
    "g_bytes_expected k = 3 \<or> g_bytes_expected k = 4" "g_packet_index k < g_bytes_expected k"
  shows "kernel_ok (clamp_position k)"
  using assms clamp_on_display [OF assms(3)] by (auto simp: clamp_position_def kernel_ok_def split: prod.split)

lemma clamp_position_fields: "g_packet (clamp_position k) = g_packet k" "g_bytes_expected (clamp_position k) = g_bytes_expected k"
  "g_packet_index (clamp_position k) = g_packet_index k" "core (clamp_position k) = core k" "keys (clamp_position k) = keys k"
  "g_has_scroll_wheel (clamp_position k) = g_has_scroll_wheel k"
  by (simp_all add: clamp_position_def split: prod.split)

text \<open>A complete packet is handled with the packet index one past the last byte, so the index is reset before the invariant is stated.\<close>

lemma packet_ok:
  assumes "kernel_ok (k\<lparr>g_packet_index := 0\<rparr>)"
  shows "kernel_ok ((handle_packet k)\<lparr>g_packet_index := 0\<rparr>)"
proof -
  have swap: "(gui_handle_mouse_event e k)\<lparr>g_packet_index := 0\<rparr> = gui_handle_mouse_event e (k\<lparr>g_packet_index := 0\<rparr>)"
    "(dispatch_event e k)\<lparr>g_packet_index := 0\<rparr> = dispatch_event e (k\<lparr>g_packet_index := 0\<rparr>)" for e k
    by (simp_all add: gui_handle_mouse_event_def dispatch_event_def event_target_def on_core_def clamp_cursor_def Let_def split: prod.split)
  have "kernel_ok ((publish_state ((clamp_position (k\<lparr>g_mouse_x := x, g_mouse_y := y\<rparr>))\<lparr>g_mouse_buttons := b\<rparr>))\<lparr>g_packet_index := 0\<rparr>)" for x y b
    using assms clamp_position_ok [of "k\<lparr>g_mouse_x := x, g_mouse_y := y, g_packet_index := 0\<rparr>"]
    by (simp add: publish_state_def kernel_ok_def clamp_position_def split: prod.splits)
  then show ?thesis
    using assms by (simp add: handle_packet_def swap dispatch_event_ok gui_mouse_ok Let_def)
qed

lemma mouse_byte_ok: "kernel_ok k \<Longrightarrow> kernel_ok (mouse_byte d k)"
proof -
  assume k: "kernel_ok k"
  then have "kernel_ok (k\<lparr>g_packet := (g_packet k)[g_packet_index k := d], g_packet_index := 0\<rparr>)" by (auto simp: kernel_ok_def)
  then have "kernel_ok ((handle_packet (k\<lparr>g_packet := (g_packet k)[g_packet_index k := d], g_packet_index := g_packet_index k + 1\<rparr>))\<lparr>g_packet_index := 0\<rparr>)"
    by (intro packet_ok) simp
  with k show ?thesis by (simp add: mouse_byte_def kernel_ok_def Let_def)
qed

lemma mouse_callback_ok: "kernel_ok k \<Longrightarrow> kernel_ok (mouse_callback input k)"
  by (induction input k rule: mouse_callback.induct) (simp_all add: mouse_byte_ok)

lemma mouse_shell: "g_shell_process (mouse_callback input k) = g_shell_process k"
proof -
  have "g_shell_process (gui_handle_mouse_event e k) = g_shell_process k" "g_shell_process (dispatch_event e k) = g_shell_process k" for e k
    by (simp_all add: gui_handle_mouse_event_def dispatch_event_def on_core_def clamp_cursor_def Let_def split: prod.split)
  then have "g_shell_process (mouse_byte d k) = g_shell_process k" for d k
    by (simp add: mouse_byte_def handle_packet_def publish_state_def clamp_position_def Let_def split: prod.split)
  then show ?thesis by (induction input k rule: mouse_callback.induct) simp_all
qed

lemma timer_shell: "timer_handler regs k = Inr k' \<Longrightarrow> g_shell_process k' = g_shell_process k"
  by (auto simp: timer_handler_def Let_def split: sum.splits)

lemma next_process_windows [simp]: "windows (snd (scheduler_next_process s)) = windows s"
  by (simp add: scheduler_next_process_def lottery_def xorshift32_def Let_def split: option.split)

lemma context_switch_windows: "context_switch regs s = Inr s' \<Longrightarrow> windows s' = windows s"
proof -
  assume c: "context_switch regs s = Inr s'"
  let ?cur = "scheduler_current_process s"
  define u where "u = (if alive (procs s ?cur) \<noteq> 0 then upd_proc ?cur (save_context (frames s regs)) s else s)"
  obtain t v where v: "scheduler_next_process u = (t, v)" by fastforce
  have "windows v = windows u" using next_process_windows [of u] v by simp
  moreover have "windows u = windows s" by (simp add: u_def upd_proc_def)
  ultimately show ?thesis using c v by (auto simp: context_switch_def u_def [symmetric] Let_def split: if_splits)
qed

lemma timer_ok:
  assumes "kernel_ok k" "timer_handler regs k = Inr k'"
  shows "kernel_ok k'"
proof -
  define r where "r = scheduler_resume_processes_for_event TIME_REACHED (ucast (timer_ticks k + 1)) (core k)"
  have s: "sched_ok (core k)" using assms(1) by (simp add: kernel_ok_def)
  have r: "sched_ok r" "windows r = windows (core k)" using s by (simp_all add: r_def resume_ok) (simp add: resume_spec)
  obtain s' where t: "scheduler_on_tick regs r = Inr s'" "k' = k\<lparr>timer_ticks := timer_ticks k + 1, core := s'\<rparr>"
    using assms(2) by (auto simp: timer_handler_def r_def Let_def split: sum.splits)
  have "windows s' = windows r" using t(1) context_switch_windows [of regs _ s'] by (auto simp: scheduler_on_tick_def Let_def split: if_splits)
  then show ?thesis using assms(1) tick_ok [OF r(1) t(1)] r(2) t(2) by (simp add: kernel_ok_def)
qed

lemma mouse_initialize_ok:
  assumes "sched_ok (core k)" "kb_ok (keys k)" "fb_sane (windows (core k))" "length (g_packet k) = 4"
  shows "kernel_ok (mouse_initialize wheel k)"
proof -
  define n where "n = k\<lparr>g_packet_index := 0, g_mouse_buttons := 0, g_has_scroll_wheel := wheel, g_bytes_expected := (if wheel then 4 else 3),
                g_mouse_available := (if fb_available (windows (core k)) then 1 else 0)\<rparr>"
  have c: "kernel_ok (clamp_position (n\<lparr>g_mouse_x := x, g_mouse_y := y\<rparr>))" for x y
    by (rule clamp_position_ok) (use assms in \<open>simp_all add: n_def\<close>)
  have p: "kernel_ok (publish_state u)" "kernel_ok (initialize_mouse_cursor a b d u)" if "kernel_ok u" for u a b d
    using that clamp_keeps [of "u\<lparr>cursor_visible := True, cursor_x := a, cursor_y := b, cursor_buttons := d\<rparr>"]
    by (simp_all add: publish_state_def initialize_mouse_cursor_def kernel_ok_def)
  show ?thesis unfolding mouse_initialize_def n_def [symmetric] Let_def using p c by simp
qed


subsection \<open>Properties\<close>

text \<open>Interrupts in any order: a scancode, the bytes of the mouse, a tick of the timer.\<close>

inductive interrupt :: "(keyboard_event \<Rightarrow> kernel \<Rightarrow> kernel) \<Rightarrow> kernel \<Rightarrow> kernel \<Rightarrow> bool" for shell where
  keyboard: "interrupt shell k (keyboard_callback shell code k)"
| mouse: "interrupt shell k (mouse_callback input k)"
| timer: "timer_handler regs k = Inr k' \<Longrightarrow> interrupt shell k k'"

inductive_cases interruptE: "interrupt shell k k'"

text \<open>C16. Once the shell process has registered itself (\<open>shell_entry\<close>), whatever the devices send and in whatever
  order, the handlers keep the invariant of the kernel: the process table, the windows and the rings stay well formed, the packet buffer
  is never overrun, and once there is a display the mouse is on it. Every key then has a process to go to, so nothing is assumed of
  \<open>shell_handle_key\<close>, the last resort of the keyboard handler before the shell runs. Ticks that end in a panic are not steps.\<close>

theorem interrupts_keep_kernel:
  assumes "(interrupt shell)\<^sup>*\<^sup>* k k'" "kernel_ok k" "g_shell_process k \<noteq> 0"
  shows "kernel_ok k' \<and> g_shell_process k' = g_shell_process k"
  using assms
proof (induction rule: rtranclp_induct)
  case (step y z)
  then show ?case using keyboard_ok mouse_callback_ok timer_ok mouse_shell timer_shell by (fastforce elim!: interruptE)
qed simp

lemma release_bit: "code AND KBD_SCANCODE_RELEASE \<noteq> 0 \<longleftrightarrow> code \<ge> 0x80"
proof -
  have "code AND KBD_SCANCODE_RELEASE \<noteq> 0 \<longleftrightarrow> bit code 7"
    using and_exp_eq_0_iff_not_bit [of code 7] by (simp add: KBD_SCANCODE_RELEASE_def)
  also have "bit code 7 \<longleftrightarrow> bit (unat code) 7" by (simp add: bit_unsigned_iff)
  also have "\<dots> \<longleftrightarrow> odd (unat code div 128)" by (simp add: bit_iff_odd)
  also have "unat code < 256" using unsigned_less [of code, where ?'a = nat] by simp
  then have "odd (unat code div 128) \<longleftrightarrow> unat code \<ge> 128"
    using div_nat_eqI [of 128 1 "unat code"] by (cases "unat code < 128") simp_all
  also have "\<dots> \<longleftrightarrow> code \<ge> 0x80" by (simp add: word_le_nat_alt)
  finally show ?thesis .
qed

lemma event_target_cong: "core n = core k \<Longrightarrow> g_shell_process n = g_shell_process k \<Longrightarrow> event_target n = event_target k"
  by (simp add: event_target_def)

lemma dispatch_delivers:
  assumes "kernel_ok k" "event_target k = t" "t \<noteq> 0" "t \<in> set (process_table (core k))"
  shows "queued (io_events (procs (core (dispatch_keyboard_event shell e k)) t)) =
      (let q = queued (io_events (procs (core k) t)) in if length q < 128 then q else tl q) @ [EVENT_KEYBOARD e]"
    "\<forall>h\<in>set (active_hooks (procs (core (dispatch_keyboard_event shell e k)) t)). \<not> hook_matches SIGNAL (of_int (pid (procs (core k) t))) h"
    "kb_contents (keys (dispatch_keyboard_event shell e k)) = kb_contents (keys k) @
      (if \<not> release e \<and> kb_to_ascii e \<noteq> 0 \<and> length (kb_contents (keys k)) < 127 then [kb_to_ascii e] else [])"
proof -
  define n where "n = (if \<not> release e \<and> kb_to_ascii e \<noteq> 0 then k\<lparr>keys := keyboard_buffer_push (kb_to_ascii e) (keys k)\<rparr> else k)"
  have n: "core n = core k" "event_target n = t"
    using event_target_cong [of n k] assms(2) by (simp_all add: n_def)
  have d: "dispatch_keyboard_event shell e k = on_core (deliver_event t (EVENT_KEYBOARD e)) n"
    using n assms(3) by (simp add: dispatch_keyboard_event_def n_def [symmetric] Let_def)
  have ok: "sched_ok (core k)" "kb_ok (keys k)" using assms(1) by (simp_all add: kernel_ok_def)
  note s = deliver_spec [OF ok(1) assms(4,3), of "EVENT_KEYBOARD e"]
  show "queued (io_events (procs (core (dispatch_keyboard_event shell e k)) t)) =
      (let q = queued (io_events (procs (core k) t)) in if length q < 128 then q else tl q) @ [EVENT_KEYBOARD e]"
    using s(1) by (simp add: d on_core_def n Let_def)
  show "\<forall>h\<in>set (active_hooks (procs (core (dispatch_keyboard_event shell e k)) t)). \<not> hook_matches SIGNAL (of_int (pid (procs (core k) t))) h"
    using s(2) by (simp add: d on_core_def n)
  show "kb_contents (keys (dispatch_keyboard_event shell e k)) = kb_contents (keys k) @
      (if \<not> release e \<and> kb_to_ascii e \<noteq> 0 \<and> length (kb_contents (keys k)) < 127 then [kb_to_ascii e] else [])"
    using kb_push(2) [OF ok(2)] by (simp add: d on_core_def) (simp add: n_def)
qed

text \<open>C17. A key that is pressed reaches the process in the foreground, else the shell, else the current process: its
  event is the last one of that process's queue (the oldest one is dropped from a full queue), the process no longer waits
  for its signal, and the character of the key is appended to the character buffer unless that is full. The modifiers of the
  event are those after the key.\<close>

theorem key_press_reaches_process:
  assumes "kernel_ok k" "event_target k = t" "t \<noteq> 0" "t \<in> set (process_table (core k))"
  shows "\<exists>e k'. read_keyboard code k = (e, k') \<and> scancode e = code \<and>
    shift_pressed k' = track_shift code (shift_pressed k) \<and> caps_lock_active k' = (caps_lock_active k \<noteq> (code = KBD_SCANCODE_CAPS_LOCK)) \<and>
    (code \<noteq> 0xE0 \<longrightarrow> shift e = shift_pressed k' \<and> caps_lock e = caps_lock_active k' \<and> (release e \<longleftrightarrow> code \<ge> 0x80)) \<and>
    queued (io_events (procs (core (keyboard_callback shell code k)) t)) =
      (let q = queued (io_events (procs (core k) t)) in if length q < 128 then q else tl q) @ [EVENT_KEYBOARD e] \<and>
    (\<forall>h\<in>set (active_hooks (procs (core (keyboard_callback shell code k)) t)). \<not> hook_matches SIGNAL (of_int (pid (procs (core k) t))) h) \<and>
    kb_contents (keys (keyboard_callback shell code k)) = kb_contents (keys k) @
      (if \<not> release e \<and> kb_to_ascii e \<noteq> 0 \<and> length (kb_contents (keys k)) < 127 then [kb_to_ascii e] else [])"
proof -
  obtain e n where r: "read_keyboard code k = (e, n)" by fastforce
  note keep = read_keyboard_keeps [OF r]
  have n: "kernel_ok n" "event_target n = t" "t \<in> set (process_table (core n))" using assms keep event_target_cong [of n k] by simp_all
  have st: "shift_pressed n = track_shift code (shift_pressed k)" "caps_lock_active n = (caps_lock_active k \<noteq> (code = KBD_SCANCODE_CAPS_LOCK))"
    using read_keyboard_state [of code k] r by simp_all
  have ev: "scancode e = code" "code \<noteq> 0xE0 \<Longrightarrow> shift e = shift_pressed n" "code \<noteq> 0xE0 \<Longrightarrow> caps_lock e = caps_lock_active n"
      "code \<noteq> 0xE0 \<Longrightarrow> release e \<longleftrightarrow> code AND KBD_SCANCODE_RELEASE \<noteq> 0"
    using r by (auto simp: read_keyboard_def extended_key_def Let_def split: if_splits)
  have top: "code AND KBD_SCANCODE_RELEASE \<noteq> 0 \<longleftrightarrow> code \<ge> 0x80" by (rule release_bit)
  show ?thesis
    using dispatch_delivers [OF n(1,2) assms(3) n(3), of shell e] keep st ev top r
    by (intro exI [of _ e] exI [of _ n]) (simp add: keyboard_callback_def)
qed

text \<open>A complete packet of three bytes that starts in step and reports no overflow moves the mouse by the signed
  deltas, with the vertical axis turned round, clamps it to the display, and publishes the new position and buttons; a byte that cannot
  start a packet is skipped and changes nothing.\<close>

theorem mouse_packet_correct:
  assumes "kernel_ok k" "g_packet_index k = 0" "g_bytes_expected k = 3" "s AND 0x08 \<noteq> 0" "s AND 0x40 = 0" "s AND 0x80 = 0"
    "clamp_to_screen (windows (core k)) (g_mouse_x k + sint dx) (g_mouse_y k - sint dy) = (x, y)"
  shows "let k' = mouse_byte dy (mouse_byte dx (mouse_byte s k)) in
      g_mouse_x k' = x \<and> g_mouse_y k' = y \<and> g_mouse_buttons k' = s AND 0x07 \<and> g_packet_index k' = 0 \<and>
      mouse_get_state k' = \<lparr>ms_x = x, ms_y = y, ms_buttons = s AND 0x07, ms_available = g_mouse_available k\<rparr> \<and>
      (b AND 0x08 = 0 \<longrightarrow> mouse_byte b k = k)"
proof -
  have keep: "g_mouse_x (dispatch_event e (gui_handle_mouse_event e u)) = g_mouse_x u" "g_mouse_y (dispatch_event e (gui_handle_mouse_event e u)) = g_mouse_y u"
    "g_mouse_buttons (dispatch_event e (gui_handle_mouse_event e u)) = g_mouse_buttons u" "g_state (dispatch_event e (gui_handle_mouse_event e u)) = g_state u" for e u
    by (simp_all add: dispatch_event_def gui_handle_mouse_event_def on_core_def clamp_cursor_def Let_def split: prod.split)
  define p where "p = k\<lparr>g_packet := (g_packet k)[0 := s, 1 := dx, 2 := dy], g_packet_index := 3\<rparr>"
  have len: "length (g_packet k) = 4" using assms(1) by (simp add: kernel_ok_def)
  have pk: "g_packet p ! 0 = s" "g_packet p ! 1 = dx" "g_packet p ! 2 = dy" using len by (simp_all add: p_def)
  have b: "mouse_byte dy (mouse_byte dx (mouse_byte s k)) = (handle_packet p)\<lparr>g_packet_index := 0\<rparr>"
    using assms(2-4) by (simp add: mouse_byte_def p_def Let_def numeral_eq_Suc)
  define n where "n = publish_state ((clamp_position (p\<lparr>g_mouse_x := g_mouse_x p + sint dx, g_mouse_y := g_mouse_y p + - sint dy\<rparr>))\<lparr>g_mouse_buttons := s AND 0x07\<rparr>)"
  have h: "\<exists>e. handle_packet p = dispatch_event e (gui_handle_mouse_event e n)"
    unfolding handle_packet_def pk n_def Let_def using assms(5,6) by auto
  have n: "g_mouse_x n = x" "g_mouse_y n = y" "g_mouse_buttons n = s AND 0x07"
      "g_state n = \<lparr>ms_x = x, ms_y = y, ms_buttons = s AND 0x07, ms_available = g_mouse_available k\<rparr>"
    using assms(7) by (simp_all add: n_def publish_state_def clamp_position_def p_def)
  obtain e where "handle_packet p = dispatch_event e (gui_handle_mouse_event e n)" using h by blast
  then show ?thesis
    using keep n assms(2) by (simp add: b mouse_get_state_def Let_def) (simp add: mouse_byte_def)
qed

text \<open>The time in milliseconds is exact as long as a thousand times the number of ticks fits in 32 bits, which at a
  thousand ticks a second is 71 minutes; after that it starts again from zero.\<close>

theorem milliseconds_exact:
  "(unat (timer_ticks k) * 1000 < 2 ^ 32 \<longrightarrow> unat (get_ticks_milliseconds k) = unat (timer_ticks k) * 1000 div unat (timer_frequency_hz k)) \<and>
   (timer_ticks k = 4294968 \<and> timer_frequency_hz k = 1000 \<longrightarrow> get_ticks_milliseconds k = 0)"
proof (intro conjI impI)
  assume a: "unat (timer_ticks k) * 1000 < 2 ^ 32"
  have "unat (timer_ticks k * 1000) = unat (timer_ticks k) * 1000" using a by (simp add: unat_word_ariths)
  then show "unat (get_ticks_milliseconds k) = unat (timer_ticks k) * 1000 div unat (timer_frequency_hz k)"
    by (simp add: get_ticks_milliseconds_def unat_div)
qed (simp add: get_ticks_milliseconds_def)


subsection \<open>Witnesses\<close>

definition sample_kernel :: kernel where
  "sample_kernel = \<lparr>core = sample_sched, console = raw_terminal, keys = empty_keyboard_buffer, shift_pressed = False, caps_lock_active = False,
     extended = False, g_shell_process = 0, g_mouse_x = 5, g_mouse_y = 5, g_mouse_buttons = 0, g_mouse_available = 1,
     g_state = \<lparr>ms_x = 5, ms_y = 5, ms_buttons = 0, ms_available = 1\<rparr>, g_packet = replicate 4 0, g_packet_index = 0, g_bytes_expected = 3,
     g_has_scroll_wheel = False, cursor_x = 5, cursor_y = 5, cursor_buttons = 0, cursor_visible = True, timer_ticks = 0,
     timer_frequency_hz = 1000\<rparr>"

lemma sample_fb: "fb_available (windows sample_sched)" "fb_width (windows sample_sched) = 1024" "fb_height (windows sample_sched) = 768"
  by (simp_all add: sample_sched_def windows_eval raw_wins_def Let_def)

lemma sample_kernel_ok: "kernel_ok sample_kernel"
  using sample_sched_ok empty_kb(1) sample_fb by (simp add: kernel_ok_def sample_kernel_def fb_sane_def on_display_def)

theorem interrupts_keep_kernel_witness:
  "kernel_ok (mouse_callback [(0x21, 0x09), (0x21, 0x05), (0x21, 0xFB)]
     (keyboard_callback (\<lambda>_ k. k) 0x1E (sample_kernel\<lparr>g_shell_process := 0x1000\<rparr>)))"
proof -
  let ?k = "sample_kernel\<lparr>g_shell_process := 0x1000\<rparr>"
  have "(interrupt (\<lambda>_ k. k))\<^sup>*\<^sup>* ?k (mouse_callback [(0x21, 0x09), (0x21, 0x05), (0x21, 0xFB)] (keyboard_callback (\<lambda>_ k. k) 0x1E ?k))"
    by (rule rtranclp.rtrancl_into_rtrancl [OF r_into_rtranclp]) (rule interrupt.intros)+
  moreover have "kernel_ok ?k" using sample_kernel_ok by (simp add: kernel_ok_def)
  ultimately show ?thesis using interrupts_keep_kernel by fastforce
qed

lemma sample_target: "event_target sample_kernel = 0x1000" "0x1000 \<in> set (process_table (core sample_kernel))"
  using sample_procs by (simp_all add: event_target_def sample_kernel_def scheduler_get_foreground_def)

theorem key_press_reaches_process_witness:
  "\<exists>e. queued (io_events (procs (core (keyboard_callback (\<lambda>_ k. k) 0x1E sample_kernel)) 0x1000)) = [EVENT_KEYBOARD e] \<and> scancode e = 0x1E"
proof -
  have "queued (io_events (procs (core sample_kernel) 0x1000)) = []" using sample_process_ok(3) sample_procs(1) by (simp add: sample_kernel_def)
  then show ?thesis
    using key_press_reaches_process [OF sample_kernel_ok sample_target(1) _ sample_target(2), of "0x1E" "\<lambda>_ k. k"] by auto
qed

theorem mouse_packet_correct_witness:
  "g_mouse_x (mouse_byte 0xFB (mouse_byte 0x05 (mouse_byte 0x09 sample_kernel))) = 10 \<and>
   g_mouse_y (mouse_byte 0xFB (mouse_byte 0x05 (mouse_byte 0x09 sample_kernel))) = 10"
proof -
  have "clamp_to_screen (windows (core sample_kernel)) (g_mouse_x sample_kernel + sint (0x05 :: u8)) (g_mouse_y sample_kernel - sint (0xFB :: u8)) = (10, 10)"
    using sample_fb by (simp add: sample_kernel_def clamp_to_screen_def clamp_coordinate_def)
  from mouse_packet_correct [OF sample_kernel_ok _ _ _ _ _ this, of "0x09" 0] show ?thesis by (simp add: sample_kernel_def Let_def)
qed

theorem milliseconds_exact_witness: "unat (get_ticks_milliseconds (sample_kernel\<lparr>timer_ticks := 1500\<rparr>)) = 1500"
  using milliseconds_exact [of "sample_kernel\<lparr>timer_ticks := 1500\<rparr>"] by (simp add: sample_kernel_def)

end
