(* ===== verification/Pci.thy ===== *)
theory Pci
  imports Scheduler
begin

text \<open>
  The PCI bus, \<^verbatim>\<open>src/kernel/pci.cpp\<close>: access to the configuration space, the scan of the bus, the search for devices and the
  processes that listen for the events of devices. The configuration space is a map from the word written to \<open>PCI_CONFIG_ADDRESS\<close>
  to the word behind \<open>PCI_CONFIG_DATA\<close>; writes are modelled for registers that keep what is written to them. The function
  that prints the table is not modelled.
\<close>

subsection \<open>Configuration space\<close>

type_synonym config = "u32 \<Rightarrow> u32"

definition PCI_VENDOR_ID :: u8 where "PCI_VENDOR_ID = 0x00"
definition PCI_DEVICE_ID :: u8 where "PCI_DEVICE_ID = 0x02"
definition PCI_REVISION_ID :: u8 where "PCI_REVISION_ID = 0x08"
definition PCI_PROG_IF :: u8 where "PCI_PROG_IF = 0x09"
definition PCI_SUBCLASS :: u8 where "PCI_SUBCLASS = 0x0A"
definition PCI_CLASS :: u8 where "PCI_CLASS = 0x0B"
definition PCI_HEADER_TYPE :: u8 where "PCI_HEADER_TYPE = 0x0E"
definition PCI_BAR0 :: u8 where "PCI_BAR0 = 0x10"
definition PCI_INTERRUPT_LINE :: u8 where "PCI_INTERRUPT_LINE = 0x3C"
definition PCI_INTERRUPT_PIN :: u8 where "PCI_INTERRUPT_PIN = 0x3D"

definition pci_address :: "u8 \<Rightarrow> u8 \<Rightarrow> u8 \<Rightarrow> u8 \<Rightarrow> u32" where
  "pci_address bus device fn offset =
     push_bit 31 1 OR push_bit 16 (ucast bus) OR push_bit 11 (ucast device) OR push_bit 8 (ucast fn) OR ucast (offset AND 0xFC)"

definition pci_read_config_dword :: "config \<Rightarrow> u8 \<Rightarrow> u8 \<Rightarrow> u8 \<Rightarrow> u8 \<Rightarrow> u32" where
  "pci_read_config_dword cfg bus device fn offset = cfg (pci_address bus device fn offset)"

definition pci_read_config_word :: "config \<Rightarrow> u8 \<Rightarrow> u8 \<Rightarrow> u8 \<Rightarrow> u8 \<Rightarrow> u16" where
  "pci_read_config_word cfg bus device fn offset =
     ucast (drop_bit (unat ((offset AND 2) * 8)) (pci_read_config_dword cfg bus device fn (offset AND 0xFC)) AND 0xFFFF)"

definition pci_read_config_byte :: "config \<Rightarrow> u8 \<Rightarrow> u8 \<Rightarrow> u8 \<Rightarrow> u8 \<Rightarrow> u8" where
  "pci_read_config_byte cfg bus device fn offset =
     ucast (drop_bit (unat ((offset AND 3) * 8)) (pci_read_config_dword cfg bus device fn (offset AND 0xFC)) AND 0xFF)"

definition pci_write_config_dword :: "u8 \<Rightarrow> u8 \<Rightarrow> u8 \<Rightarrow> u8 \<Rightarrow> u32 \<Rightarrow> config \<Rightarrow> config" where
  "pci_write_config_dword bus device fn offset value cfg = cfg(pci_address bus device fn offset := value)"

definition pci_write_config_word :: "u8 \<Rightarrow> u8 \<Rightarrow> u8 \<Rightarrow> u8 \<Rightarrow> u16 \<Rightarrow> config \<Rightarrow> config" where
  "pci_write_config_word bus device fn offset value cfg =
     (let dword = pci_read_config_dword cfg bus device fn (offset AND 0xFC); shift = unat ((offset AND 2) * 8);
          dword = (dword AND NOT (push_bit shift 0xFFFF)) OR push_bit shift (ucast value)
      in pci_write_config_dword bus device fn (offset AND 0xFC) dword cfg)"

definition pci_write_config_byte :: "u8 \<Rightarrow> u8 \<Rightarrow> u8 \<Rightarrow> u8 \<Rightarrow> u8 \<Rightarrow> config \<Rightarrow> config" where
  "pci_write_config_byte bus device fn offset value cfg =
     (let dword = pci_read_config_dword cfg bus device fn (offset AND 0xFC); shift = unat ((offset AND 3) * 8);
          dword = (dword AND NOT (push_bit shift 0xFF)) OR push_bit shift (ucast value)
      in pci_write_config_dword bus device fn (offset AND 0xFC) dword cfg)"

subsection \<open>Devices\<close>

record pci_device =
  pd_bus :: u8
  pd_device :: u8
  pd_function :: u8
  pd_vendor_id :: u16
  pd_device_id :: u16
  pd_class_code :: u8
  pd_subclass :: u8
  pd_prog_if :: u8
  pd_revision_id :: u8
  pd_header_type :: u8
  pd_interrupt_line :: u8
  pd_interrupt_pin :: u8
  pd_bar :: "u32 list"

record pci_listener =
  pl_proc :: addr
  pl_vendor_id :: u16
  pl_device_id :: u16

definition MAX_PCI_DEVICES :: nat where "MAX_PCI_DEVICES = 64"
definition MAX_PCI_LISTENERS :: nat where "MAX_PCI_LISTENERS = 16"

record pci =
  pci_devices :: "pci_device list"
  pci_device_count :: nat
  pci_listeners :: "pci_listener list"
  pci_listener_count :: nat

definition pci_device_exists :: "config \<Rightarrow> u8 \<Rightarrow> u8 \<Rightarrow> u8 \<Rightarrow> bool" where
  "pci_device_exists cfg bus device fn \<longleftrightarrow> pci_read_config_word cfg bus device fn PCI_VENDOR_ID \<noteq> 0xFFFF"

definition pci_read_device_info :: "config \<Rightarrow> u8 \<Rightarrow> u8 \<Rightarrow> u8 \<Rightarrow> pci_device" where
  "pci_read_device_info cfg bus device fn =
     \<lparr>pd_bus = bus, pd_device = device, pd_function = fn,
      pd_vendor_id = pci_read_config_word cfg bus device fn PCI_VENDOR_ID,
      pd_device_id = pci_read_config_word cfg bus device fn PCI_DEVICE_ID,
      pd_class_code = pci_read_config_byte cfg bus device fn PCI_CLASS,
      pd_subclass = pci_read_config_byte cfg bus device fn PCI_SUBCLASS,
      pd_prog_if = pci_read_config_byte cfg bus device fn PCI_PROG_IF,
      pd_revision_id = pci_read_config_byte cfg bus device fn PCI_REVISION_ID,
      pd_header_type = pci_read_config_byte cfg bus device fn PCI_HEADER_TYPE,
      pd_interrupt_line = pci_read_config_byte cfg bus device fn PCI_INTERRUPT_LINE,
      pd_interrupt_pin = pci_read_config_byte cfg bus device fn PCI_INTERRUPT_PIN,
      pd_bar = map (\<lambda>i. pci_read_config_dword cfg bus device fn (PCI_BAR0 + of_nat i * 4)) [0..<6]\<rparr>"

text \<open>The bodies of the loops of \<open>pci_scan_bus\<close>; the first component says that the function has returned early.\<close>

definition scan_function :: "config \<Rightarrow> u8 \<Rightarrow> u8 \<Rightarrow> u8 \<Rightarrow> bool \<times> pci \<Rightarrow> bool \<times> pci" where
  "scan_function cfg bus device fn r =
     (case r of (returned, p) \<Rightarrow>
        if returned \<or> \<not> pci_device_exists cfg bus device fn then (returned, p)
        else if pci_device_count p \<ge> MAX_PCI_DEVICES then (True, p)
        else (False, p\<lparr>pci_devices := (pci_devices p)[pci_device_count p := pci_read_device_info cfg bus device fn],
                       pci_device_count := pci_device_count p + 1\<rparr>))"

definition max_functions :: "config \<Rightarrow> u8 \<Rightarrow> u8 \<Rightarrow> nat" where
  "max_functions cfg bus device = (if pci_read_config_byte cfg bus device 0 PCI_HEADER_TYPE AND 0x80 \<noteq> 0 then 8 else 1)"

definition scan_device :: "config \<Rightarrow> u8 \<Rightarrow> u8 \<Rightarrow> bool \<times> pci \<Rightarrow> bool \<times> pci" where
  "scan_device cfg bus device r =
     (if \<not> pci_device_exists cfg bus device 0 then r
      else fold (\<lambda>fn. scan_function cfg bus device (of_nat fn)) [0..<max_functions cfg bus device] r)"

definition pci_scan_bus :: "config \<Rightarrow> pci \<Rightarrow> pci" where
  "pci_scan_bus cfg p =
     snd (fold (\<lambda>bus. fold (\<lambda>device. scan_device cfg (of_nat bus) (of_nat device)) [0..<32]) [0..<256] (False, p\<lparr>pci_device_count := 0\<rparr>))"

definition pci_init :: "config \<Rightarrow> pci \<Rightarrow> pci" where
  "pci_init cfg p = pci_scan_bus cfg (p\<lparr>pci_listener_count := 0\<rparr>)"

text \<open>A pointer into the table of devices is its index.\<close>

definition pci_find_device :: "u16 \<Rightarrow> u16 \<Rightarrow> pci \<Rightarrow> nat option" where
  "pci_find_device vendor_id device_id p =
     find (\<lambda>i. pd_vendor_id (pci_devices p ! i) = vendor_id \<and> pd_device_id (pci_devices p ! i) = device_id) [0..<pci_device_count p]"

definition pci_find_device_by_class :: "u8 \<Rightarrow> u8 \<Rightarrow> pci \<Rightarrow> nat option" where
  "pci_find_device_by_class class_code subclass p =
     find (\<lambda>i. pd_class_code (pci_devices p ! i) = class_code \<and> pd_subclass (pci_devices p ! i) = subclass) [0..<pci_device_count p]"

definition pci_get_device_count :: "pci \<Rightarrow> nat" where
  "pci_get_device_count p = pci_device_count p"

definition pci_get_device :: "int \<Rightarrow> pci \<Rightarrow> nat option" where
  "pci_get_device index p = (if index < 0 \<or> index \<ge> int (pci_device_count p) then None else Some (nat index))"

text \<open>The names of classes and subclasses.\<close>

definition pci_class_to_string :: "u8 \<Rightarrow> string" where
  "pci_class_to_string class_code =
     (case map_of
        [(0x00, ''Unclassified''),
         (0x01, ''Mass Storage''),
         (0x02, ''Network''),
         (0x03, ''Display''),
         (0x04, ''Multimedia''),
         (0x05, ''Memory''),
         (0x06, ''Bridge''),
         (0x07, ''Communication''),
         (0x08, ''Base System''),
         (0x09, ''Input''),
         (0x0A, ''Docking''),
         (0x0B, ''Processor''),
         (0x0C, ''Serial Bus''),
         (0x0D, ''Wireless''),
         (0x0E, ''Intelligent I/O''),
         (0x0F, ''Satellite''),
         (0x10, ''Encryption''),
         (0x11, ''Signal Processing''),
         (0x40, ''Coprocessor'')] class_code of
        Some name \<Rightarrow> name | None \<Rightarrow> ''Unknown'')"

definition pci_subclass_to_string :: "u8 \<Rightarrow> u8 \<Rightarrow> string" where
  "pci_subclass_to_string class_code subclass =
     (let name = (\<lambda>names other. case map_of names subclass of Some name \<Rightarrow> name | None \<Rightarrow> other)
      in if class_code = 0x02 then name
           [(0x00, ''Ethernet''), (0x01, ''Token Ring''), (0x02, ''FDDI''), (0x03, ''ATM''),
            (0x04, ''ISDN''), (0x80, ''Other Network'')] ''Unknown Network''
         else if class_code = 0x03 then name
           [(0x00, ''VGA''), (0x01, ''XGA''), (0x02, ''3D''), (0x80, ''Other Display'')] ''Unknown Display''
         else if class_code = 0x01 then name
           [(0x00, ''SCSI''), (0x01, ''IDE''), (0x02, ''Floppy''), (0x03, ''IPI''),
            (0x04, ''RAID''), (0x05, ''ATA''), (0x06, ''SATA''), (0x07, ''SAS''),
            (0x08, ''NVMe''), (0x80, ''Other Storage'')] ''Unknown Storage''
         else if class_code = 0x06 then name
           [(0x00, ''Host Bridge''), (0x01, ''ISA Bridge''), (0x02, ''EISA Bridge''), (0x03, ''MCA Bridge''),
            (0x04, ''PCI-to-PCI Bridge''), (0x05, ''PCMCIA Bridge''), (0x06, ''NuBus Bridge''), (0x07, ''CardBus Bridge''),
            (0x08, ''RACEway Bridge''), (0x80, ''Other Bridge'')] ''Unknown Bridge''
         else '''')"

subsection \<open>Listeners\<close>

definition PCI_EVENT_DEVICE_ADDED :: int where "PCI_EVENT_DEVICE_ADDED = 1"
definition PCI_EVENT_DEVICE_READY :: int where "PCI_EVENT_DEVICE_READY = 3"
definition PCI_EVENT_INTERRUPT :: int where "PCI_EVENT_INTERRUPT = 4"

definition pci_matches :: "u16 \<Rightarrow> u16 \<Rightarrow> pci_device \<Rightarrow> bool" where
  "pci_matches vendor_id device_id dev \<longleftrightarrow>
     (vendor_id = 0xFFFF \<or> pd_vendor_id dev = vendor_id) \<and> (device_id = 0xFFFF \<or> pd_device_id dev = device_id)"

definition pci_event :: "pci_device \<Rightarrow> int \<Rightarrow> IOEvent" where
  "pci_event dev event_type =
     EVENT_PCI \<lparr>pe_bus = pd_bus dev, pe_device = pd_device dev, pe_function = pd_function dev, pe_vendor_id = pd_vendor_id dev,
                pe_device_id = pd_device_id dev, pe_class_code = pd_class_code dev, pe_subclass = pd_subclass dev, pe_event_type = event_type\<rparr>"

definition pci_register_process_listener :: "addr \<Rightarrow> u16 \<Rightarrow> u16 \<Rightarrow> pci \<times> sched \<Rightarrow> pci \<times> sched" where
  "pci_register_process_listener proc vendor_id device_id ps =
     (case ps of (p, s) \<Rightarrow>
        if proc = 0 then (p, s)
        else if pci_listener_count p \<ge> MAX_PCI_LISTENERS then (p, s)
        else case find (\<lambda>i. pl_proc (pci_listeners p ! i) = proc) [0..<pci_listener_count p] of
               Some i \<Rightarrow> (p\<lparr>pci_listeners := (pci_listeners p)[i := (pci_listeners p ! i)\<lparr>pl_vendor_id := vendor_id, pl_device_id := device_id\<rparr>]\<rparr>, s)
             | None \<Rightarrow>
                 (p\<lparr>pci_listeners := (pci_listeners p)[pci_listener_count p := \<lparr>pl_proc = proc, pl_vendor_id = vendor_id, pl_device_id = device_id\<rparr>],
                    pci_listener_count := pci_listener_count p + 1\<rparr>,
                  fold (\<lambda>i s. if pci_matches vendor_id device_id (pci_devices p ! i)
                              then upd_proc proc (push_io_event (pci_event (pci_devices p ! i) PCI_EVENT_DEVICE_ADDED)) s else s)
                    [0..<pci_device_count p] s))"

definition pci_unregister_process_listener :: "addr \<Rightarrow> pci \<Rightarrow> pci" where
  "pci_unregister_process_listener proc p =
     (if proc = 0 then p
      else case find (\<lambda>i. pl_proc (pci_listeners p ! i) = proc) [0..<pci_listener_count p] of
             None \<Rightarrow> p
           | Some i \<Rightarrow>
               p\<lparr>pci_listeners := shift_down (pci_listeners p) [i..<pci_listener_count p - 1],
                 pci_listener_count := pci_listener_count p - 1\<rparr>)"

definition pci_send_event_to_listeners :: "pci_device \<Rightarrow> int \<Rightarrow> pci \<Rightarrow> sched \<Rightarrow> sched" where
  "pci_send_event_to_listeners dev event_type p s =
     fold (\<lambda>i s. let listener = pci_listeners p ! i
                 in if pci_matches (pl_vendor_id listener) (pl_device_id listener) dev
                    then upd_proc (pl_proc listener) (push_io_event (pci_event dev event_type)) s else s)
       [0..<pci_listener_count p] s"

definition pci_notify :: "int \<Rightarrow> u8 \<Rightarrow> u8 \<Rightarrow> u8 \<Rightarrow> pci \<Rightarrow> sched \<Rightarrow> sched" where
  "pci_notify event_type bus device fn p s =
     (case find (\<lambda>i. pd_bus (pci_devices p ! i) = bus \<and> pd_device (pci_devices p ! i) = device \<and> pd_function (pci_devices p ! i) = fn)
             [0..<pci_device_count p] of
        None \<Rightarrow> s
      | Some i \<Rightarrow> pci_send_event_to_listeners (pci_devices p ! i) event_type p s)"

definition pci_notify_device_ready :: "u8 \<Rightarrow> u8 \<Rightarrow> u8 \<Rightarrow> pci \<Rightarrow> sched \<Rightarrow> sched" where
  "pci_notify_device_ready = pci_notify PCI_EVENT_DEVICE_READY"

definition pci_notify_interrupt :: "u8 \<Rightarrow> u8 \<Rightarrow> u8 \<Rightarrow> pci \<Rightarrow> sched \<Rightarrow> sched" where
  "pci_notify_interrupt = pci_notify PCI_EVENT_INTERRUPT"


subsection \<open>The configuration space as memory\<close>

lemma and_masks:
  fixes n :: u8
  shows "n AND 2 = 0 \<or> n AND 2 = 2" "n AND 3 \<in> {0, 1, 2, 3}" "(n AND 0xFC) AND 0xFC = n AND 0xFC" "(n XOR 2) AND 0xFC = n AND 0xFC"
    "(n XOR 2) AND 2 = 2 - (n AND 2)"
proof -
  have a: "(n AND m) = 0 \<or> n AND m = m" if "m = push_bit k 1" for m k
    using that by (cases "bit n k") (auto intro!: bit_word_eqI simp: bit_simps bit_1_iff)
  show "n AND 2 = 0 \<or> n AND 2 = 2" by (rule a [of _ 1]) simp
  have "n AND 3 = (n AND 2) OR (n AND 1)" by (simp only: bit.conj_disj_distrib [symmetric]) simp
  moreover have "n AND 1 = 0 \<or> n AND 1 = 1" by (rule a [of _ 0]) simp
  ultimately show "n AND 3 \<in> {0, 1, 2, 3}" using a [of 2 1] by auto
  show "(n AND 0xFC) AND 0xFC = n AND 0xFC" by (simp add: and.assoc)
  show "(n XOR 2) AND 0xFC = n AND 0xFC" by (simp add: bit.conj_xor_distrib2)
  show "(n XOR 2) AND 2 = 2 - (n AND 2)" using a [of 2 1] by (auto simp: bit.conj_xor_distrib2)
qed

text \<open>The registers of one device have different addresses, and so do the registers of different devices.\<close>

lemma high_bits_off: "unat x < 2 ^ j \<Longrightarrow> j \<le> k \<Longrightarrow> \<not> bit (x :: u8) k"
proof -
  assume a: "unat x < 2 ^ j" "j \<le> k"
  have t: "take_bit j (unat x) = unat x" by (rule take_bit_nat_eq_self [OF a(1)])
  have "bit x k \<longleftrightarrow> bit (unat x) k" by (simp add: bit_unsigned_iff)
  also have "\<dots> \<longleftrightarrow> bit (take_bit j (unat x)) k" by (simp only: t)
  also have "\<dots> \<longleftrightarrow> False" using a(2) by (simp add: bit_take_bit_iff)
  finally show ?thesis by simp
qed

lemma pci_address_bit:
  assumes "d < 32" "f < 8"
  shows "k < 8 \<Longrightarrow> bit (pci_address b d f n) k = bit (n AND 0xFC) k" "k < 3 \<Longrightarrow> bit (pci_address b d f n) (k + 8) = bit f k"
    "k < 5 \<Longrightarrow> bit (pci_address b d f n) (k + 11) = bit d k" "k < 8 \<Longrightarrow> bit (pci_address b d f n) (k + 16) = bit b k"
proof -
  have d: "\<not> bit d j" if "5 \<le> j" for j using high_bits_off [of d 5 j] assms(1) that by (simp add: word_less_nat_alt)
  have f: "\<not> bit f j" if "3 \<le> j" for j using high_bits_off [of f 3 j] assms(2) that by (simp add: word_less_nat_alt)
  have n: "\<not> bit (n AND 0xFC) j" if "8 \<le> j" for j using that by (auto dest: bit_imp_le_length)
  have b: "\<not> bit b j" if "8 \<le> j" for j using that by (auto dest: bit_imp_le_length)
  have e: "bit (pci_address b d f n) j \<longleftrightarrow> j < 32 \<and> (j = 31 \<or> (16 \<le> j \<and> bit b (j - 16)) \<or> (11 \<le> j \<and> bit d (j - 11)) \<or>
      (8 \<le> j \<and> bit f (j - 8)) \<or> bit (n AND 0xFC) j)" for j
    unfolding pci_address_def by (auto simp: bit_or_iff bit_push_bit_iff bit_unsigned_iff bit_1_iff simp del: push_bit_of_1)
  show "k < 8 \<Longrightarrow> bit (pci_address b d f n) k = bit (n AND 0xFC) k" unfolding e by auto
  show "k < 3 \<Longrightarrow> bit (pci_address b d f n) (k + 8) = bit f k" unfolding e using n [of "k + 8"] by auto
  show "k < 5 \<Longrightarrow> bit (pci_address b d f n) (k + 11) = bit d k" unfolding e using n [of "k + 11"] f [of "k + 3"] by (auto simp: numeral_eq_Suc)
  show "k < 8 \<Longrightarrow> bit (pci_address b d f n) (k + 16) = bit b k" unfolding e using n [of "k + 16"] f [of "k + 8"] d [of "k + 5"] by (auto simp: numeral_eq_Suc)
qed

lemma pci_address_inject:
  assumes "d < 32" "d' < 32" "f < 8" "f' < 8" "pci_address b d f n = pci_address b' d' f' n'"
  shows "b = b' \<and> d = d' \<and> f = f' \<and> n AND 0xFC = n' AND 0xFC"
proof -
  note p = pci_address_bit [OF assms(1,3), where b = b and n = n] and p' = pci_address_bit [OF assms(2,4), where b = b' and n = n']
  have "bit d k = bit d' k" for k
    using p(3) [of k] p'(3) [of k] assms(5) high_bits_off [of d 5 k] high_bits_off [of d' 5 k] assms(1,2) by (cases "k < 5") (auto simp: word_less_nat_alt)
  moreover have "bit f k = bit f' k" for k
    using p(2) [of k] p'(2) [of k] assms(5) high_bits_off [of f 3 k] high_bits_off [of f' 3 k] assms(3,4) by (cases "k < 3") (auto simp: word_less_nat_alt)
  ultimately show ?thesis using p(1,4) p'(1,4) assms(5) by (auto intro!: bit_word_eqI bit_eqI)
qed

lemma config_word_bits:
  "pci_read_config_word (pci_write_config_word b d f n v cfg) b d f n = v"
  "pci_read_config_word (pci_write_config_word b d f n v cfg) b d f (n XOR 2) = pci_read_config_word cfg b d f (n XOR 2)"
proof -
  have m: "0xFFFF = (mask 16 :: u32)" by (simp add: mask_eq_exp_minus_1)
  have "ucast (drop_bit 0 ((x AND NOT (push_bit 0 0xFFFF)) OR push_bit 0 (ucast v)) AND 0xFFFF) = v"
    "ucast (drop_bit 16 ((x AND NOT (push_bit 16 0xFFFF)) OR push_bit 16 (ucast v)) AND 0xFFFF) = v"
    "ucast (drop_bit 0 ((x AND NOT (push_bit 16 0xFFFF)) OR push_bit 16 (ucast v)) AND 0xFFFF) = (ucast (x AND 0xFFFF) :: u16)"
    "ucast (drop_bit 16 ((x AND NOT (push_bit 0 0xFFFF)) OR push_bit 0 (ucast v)) AND 0xFFFF) = (ucast (drop_bit 16 x AND 0xFFFF) :: u16)" for x :: u32
    unfolding m by (rule bit_word_eqI; auto simp: bit_simps dest: bit_imp_le_length)+
  then show "pci_read_config_word (pci_write_config_word b d f n v cfg) b d f n = v"
  "pci_read_config_word (pci_write_config_word b d f n v cfg) b d f (n XOR 2) = pci_read_config_word cfg b d f (n XOR 2)"
    using and_masks(1) [of n]
    by (auto simp: pci_read_config_word_def pci_write_config_word_def pci_read_config_dword_def pci_write_config_dword_def pci_address_def
        and_masks(3-5) Let_def)
qed

lemma byte_insert:
  fixes x :: u32 and v :: u8
  assumes "i < 4" "j < 4"
  shows "ucast (drop_bit (8 * j) ((x AND NOT (push_bit (8 * i) 0xFF)) OR push_bit (8 * i) (ucast v)) AND 0xFF) =
    (if i = j then v else ucast (drop_bit (8 * j) x AND 0xFF))"
proof (cases "i = j")
  case True
  have m: "0xFF = (mask 8 :: u32)" by (simp add: mask_eq_exp_minus_1)
  show ?thesis unfolding m using True assms by (auto simp: bit_simps intro!: bit_word_eqI)
next
  case False
  have m: "0xFF = (mask 8 :: u32)" by (simp add: mask_eq_exp_minus_1)
  have "\<not> bit (push_bit (8 * i) (ucast v :: u32)) (8 * j + k) \<and> \<not> bit (push_bit (8 * i) (mask 8 :: u32)) (8 * j + k)" if "k < 8" for k
    using that False by (auto simp: bit_simps dest!: bit_imp_le_length)
  then show ?thesis unfolding m using False assms by (auto simp: bit_simps intro!: bit_word_eqI)
qed

lemma config_byte_bits:
  "pci_read_config_byte (pci_write_config_byte b d f n v cfg) b d f n = v"
  "n' AND 0xFC = n AND 0xFC \<Longrightarrow> n' AND 3 \<noteq> n AND 3 \<Longrightarrow>
    pci_read_config_byte (pci_write_config_byte b d f n v cfg) b d f n' = pci_read_config_byte cfg b d f n'"
proof -
  have u: "unat ((k AND 3) * 8) = 8 * unat (k AND 3)" "unat (k AND 3) < 4" for k :: u8 using and_masks(2) [of k] by auto
  have r: "pci_read_config_byte (pci_write_config_byte b d f n v cfg) b d f k =
      (if n AND 3 = k AND 3 then v else pci_read_config_byte cfg b d f k)" if "k AND 0xFC = n AND 0xFC" for k
    using byte_insert [OF u(2) [of n] u(2) [of k], of "cfg (pci_address b d f (n AND 0xFC))" v] that
    by (simp add: pci_read_config_byte_def pci_write_config_byte_def pci_read_config_dword_def pci_write_config_dword_def u(1) pci_address_def
        and_masks(3) word_unat_eq_iff [symmetric] Let_def)
  show "pci_read_config_byte (pci_write_config_byte b d f n v cfg) b d f n = v" using r [of n] by simp
  show "n' AND 0xFC = n AND 0xFC \<Longrightarrow> n' AND 3 \<noteq> n AND 3 \<Longrightarrow>
    pci_read_config_byte (pci_write_config_byte b d f n v cfg) b d f n' = pci_read_config_byte cfg b d f n'" using r [of n'] by auto
qed

text \<open>Writing a word or a byte of the configuration space and reading it back gives the value written; the rest of
  the same double word and every other register of every device keep their contents.\<close>

theorem pci_config_roundtrip:
  assumes "d < 32" "f < 8" "d' < 32" "f' < 8"
  shows "pci_read_config_word (pci_write_config_word b d f n v cfg) b d f n = v \<and>
    pci_read_config_word (pci_write_config_word b d f n v cfg) b d f (n XOR 2) = pci_read_config_word cfg b d f (n XOR 2) \<and>
    pci_read_config_byte (pci_write_config_byte b d f n c cfg) b d f n = c \<and>
    (n' AND 0xFC = n AND 0xFC \<and> n' AND 3 \<noteq> n AND 3 \<longrightarrow>
      pci_read_config_byte (pci_write_config_byte b d f n c cfg) b d f n' = pci_read_config_byte cfg b d f n') \<and>
    ((b', d', f', n' AND 0xFC) \<noteq> (b, d, f, n AND 0xFC) \<longrightarrow>
      pci_read_config_dword (pci_write_config_word b d f n v cfg) b' d' f' n' = pci_read_config_dword cfg b' d' f' n' \<and>
      pci_read_config_dword (pci_write_config_byte b d f n c cfg) b' d' f' n' = pci_read_config_dword cfg b' d' f' n')"
  using config_word_bits config_byte_bits pci_address_inject [OF assms(3,1,4,2), of b' n' b "n AND 0xFC"]
  by (auto simp: pci_read_config_dword_def pci_write_config_word_def pci_write_config_byte_def pci_write_config_dword_def and_masks(3) Let_def)

theorem pci_config_roundtrip_witness:
  "pci_read_config_word (pci_write_config_word 0 3 1 4 0x0107 (\<lambda>_. 0)) 0 3 1 4 = 0x0107"
  using pci_config_roundtrip [of 3 1 3 1 0 4 "0x0107" "\<lambda>_. 0"] by simp


subsection \<open>The scan\<close>

text \<open>The functions that are present, in the order of their addresses: those of a device count only when its function 0 is present,
  and only function 0 when the header says so.\<close>

definition slot_functions :: "config \<Rightarrow> u8 \<Rightarrow> u8 \<Rightarrow> pci_device list" where
  "slot_functions cfg bus device =
     (if pci_device_exists cfg bus device 0
      then map (pci_read_device_info cfg bus device)
             (filter (pci_device_exists cfg bus device) (map of_nat [0..<max_functions cfg bus device])) else [])"

definition bus_functions :: "config \<Rightarrow> pci_device list" where
  "bus_functions cfg = concat (map (\<lambda>bus. concat (map (\<lambda>device. slot_functions cfg (of_nat bus) (of_nat device)) [0..<32])) [0..<256])"

definition scanned :: "bool \<times> pci \<Rightarrow> pci_device list \<Rightarrow> bool" where
  "scanned r L \<longleftrightarrow> length (pci_devices (snd r)) = 64 \<and> pci_device_count (snd r) = min 64 (length L) \<and>
     take (min 64 (length L)) (pci_devices (snd r)) = take 64 L \<and> (fst r \<longrightarrow> 64 \<le> length L)"

lemma scanned_fold:
  assumes "scanned r L" "\<And>x r L. x \<in> set xs \<Longrightarrow> scanned r L \<Longrightarrow> scanned (f x r) (L @ g x)"
  shows "scanned (fold f xs r) (L @ concat (map g xs))"
  using assms
proof (induction xs arbitrary: r L)
  case (Cons x xs)
  from Cons.IH [of "f x r" "L @ g x"] Cons.prems show ?case by simp
qed simp

lemma scanned_function:
  assumes "scanned r L"
  shows "scanned (scan_function cfg b d f r) (L @ (if pci_device_exists cfg b d f then [pci_read_device_info cfg b d f] else []))"
proof -
  obtain returned p where r: "r = (returned, p)" by fastforce
  have s: "length (pci_devices p) = 64" "pci_device_count p = min 64 (length L)" "take (min 64 (length L)) (pci_devices p) = take 64 L"
      "returned \<longrightarrow> 64 \<le> length L" using assms by (simp_all add: scanned_def r)
  show ?thesis
  proof (cases "length L < 64")
    case True
    have "take (Suc (length L)) ((pci_devices p)[length L := x]) = L @ [x]" for x
      using s True by (subst take_Suc_conv_app_nth) simp_all
    with s True show ?thesis by (simp add: r scanned_def scan_function_def MAX_PCI_DEVICES_def)
  qed (use s in \<open>auto simp: r scanned_def scan_function_def MAX_PCI_DEVICES_def min_def\<close>)
qed

lemma scanned_device:
  assumes "scanned r L"
  shows "scanned (scan_device cfg b d r) (L @ slot_functions cfg b d)"
proof (cases "pci_device_exists cfg b d 0")
  case True
  let ?g = "\<lambda>n. if pci_device_exists cfg b d (of_nat n) then [pci_read_device_info cfg b d (of_nat n)] else []"
  have "concat (map ?g ns) = map (pci_read_device_info cfg b d) (filter (pci_device_exists cfg b d) (map of_nat ns))" for ns
    by (induction ns) simp_all
  moreover have "scanned (fold (\<lambda>n. scan_function cfg b d (of_nat n)) ns r) (L @ concat (map ?g ns))" for ns
    by (rule scanned_fold [OF assms]) (rule scanned_function)
  ultimately show ?thesis using True by (simp add: scan_device_def slot_functions_def)
qed (use assms in \<open>simp add: scan_device_def slot_functions_def\<close>)

text \<open>C18. The scan of the bus finds exactly the functions that are present, in the order of their addresses, up to the 64
  that the table holds; every field of an entry is what its device reports.\<close>

theorem pci_scan_correct:
  assumes "length (pci_devices p) = 64"
  shows "let p' = pci_scan_bus cfg p in take (pci_device_count p') (pci_devices p') = take 64 (bus_functions cfg) \<and>
    pci_device_count p' = min 64 (length (bus_functions cfg)) \<and> length (pci_devices p') = 64"
proof -
  have "scanned (False, p\<lparr>pci_device_count := 0\<rparr>) []" using assms by (simp add: scanned_def)
  then have "scanned (fold (\<lambda>bus. fold (\<lambda>device. scan_device cfg (of_nat bus) (of_nat device)) [0..<32]) [0..<256] (False, p\<lparr>pci_device_count := 0\<rparr>))
      ([] @ concat (map (\<lambda>bus. concat (map (\<lambda>device. slot_functions cfg (of_nat bus) (of_nat device)) [0..<32])) [0..<256]))"
    by (rule scanned_fold) (rule scanned_fold, assumption, rule scanned_device)
  then have "scanned (fold (\<lambda>bus. fold (\<lambda>device. scan_device cfg (of_nat bus) (of_nat device)) [0..<32]) [0..<256] (False, p\<lparr>pci_device_count := 0\<rparr>))
      (bus_functions cfg)" by (simp only: bus_functions_def append_Nil)
  then show ?thesis unfolding scanned_def pci_scan_bus_def Let_def by simp
qed

text \<open>A bus without devices.\<close>

definition empty_pci :: pci where
  "empty_pci = \<lparr>pci_devices = replicate 64 (pci_read_device_info (\<lambda>_. 0) 0 0 0), pci_device_count = 0,
     pci_listeners = replicate 16 \<lparr>pl_proc = 0, pl_vendor_id = 0, pl_device_id = 0\<rparr>, pci_listener_count = 0\<rparr>"

lemma empty_bus: "bus_functions (\<lambda>_. 0xFFFFFFFF) = []"
proof -
  have "pci_read_config_word (\<lambda>_. 0xFFFFFFFF) b d 0 0 = 0xFFFF" for b d by (simp add: pci_read_config_word_def pci_read_config_dword_def)
  then show ?thesis by (simp add: bus_functions_def slot_functions_def pci_device_exists_def PCI_VENDOR_ID_def concat_eq_Nil_conv)
qed

theorem pci_scan_correct_witness: "pci_device_count (pci_scan_bus (\<lambda>_. 0xFFFFFFFF) empty_pci) = 0"
  using pci_scan_correct [of empty_pci "\<lambda>_. 0xFFFFFFFF"] by (simp add: empty_pci_def empty_bus Let_def)


subsection \<open>Listeners and their events\<close>

definition listening :: "pci \<Rightarrow> pci_listener list" where
  "listening p = take (pci_listener_count p) (pci_listeners p)"

definition listeners_ok :: "pci \<Rightarrow> bool" where
  "listeners_ok p \<longleftrightarrow> length (pci_listeners p) = 16 \<and> pci_listener_count p \<le> 16 \<and> distinct (map pl_proc (listening p)) \<and>
     0 \<notin> set (map pl_proc (listening p))"

lemma fold_index: "n \<le> length xs \<Longrightarrow> fold (\<lambda>i. g (xs ! i)) [0..<n] = fold g (take n xs)"
  by (induction n) (auto simp: take_Suc_conv_app_nth)

lemma find_listener:
  assumes "listeners_ok p"
  shows "find (\<lambda>i. pl_proc (pci_listeners p ! i) = q) [0..<pci_listener_count p] = None \<longleftrightarrow> q \<notin> pl_proc ` set (listening p)"
    "find (\<lambda>i. pl_proc (pci_listeners p ! i) = q) [0..<pci_listener_count p] = Some i \<Longrightarrow>
      i < length (listening p) \<and> pl_proc (listening p ! i) = q"
proof -
  have n: "listening p ! i = pci_listeners p ! i" if "i < pci_listener_count p" for i using that by (simp add: listening_def)
  have l: "length (listening p) = pci_listener_count p" using assms by (simp add: listening_def listeners_ok_def)
  have "set (listening p) = {pci_listeners p ! i |i. i < pci_listener_count p}" using n l by (auto simp: set_conv_nth) metis
  then show "find (\<lambda>i. pl_proc (pci_listeners p ! i) = q) [0..<pci_listener_count p] = None \<longleftrightarrow> q \<notin> pl_proc ` set (listening p)"
    by (auto simp: find_None_upt)
  show "find (\<lambda>i. pl_proc (pci_listeners p ! i) = q) [0..<pci_listener_count p] = Some i \<Longrightarrow>
      i < length (listening p) \<and> pl_proc (listening p ! i) = q"
    using n l find_Some_nth [of "\<lambda>i. pl_proc (pci_listeners p ! i) = q" "pci_listener_count p" i] by simp
qed

text \<open>The entries of the table as a list without repetitions: registering replaces the filter of a process that is listed or adds the
  process at the end; unregistering takes it out.\<close>

lemma register_listening:
  fixes s vid did
  assumes "listeners_ok p" "q \<noteq> 0" "pci_listener_count p < 16"
  defines "p' \<equiv> fst (pci_register_process_listener q vid did (p, s))"
  shows "listeners_ok p'" "listening p' =
      (if q \<in> pl_proc ` set (listening p)
       then map (\<lambda>l. if pl_proc l = q then \<lparr>pl_proc = q, pl_vendor_id = vid, pl_device_id = did\<rparr> else l) (listening p)
       else listening p @ [\<lparr>pl_proc = q, pl_vendor_id = vid, pl_device_id = did\<rparr>])"
proof -
  let ?l = "\<lparr>pl_proc = q, pl_vendor_id = vid, pl_device_id = did\<rparr>"
  have ok: "length (pci_listeners p) = 16" "distinct (map pl_proc (listening p))" "0 \<notin> set (map pl_proc (listening p))"
      "length (listening p) = pci_listener_count p" using assms(1) by (simp_all add: listeners_ok_def listening_def)
  have "listeners_ok p' \<and> listening p' = (if q \<in> pl_proc ` set (listening p) then map (\<lambda>l. if pl_proc l = q then ?l else l) (listening p)
       else listening p @ [?l])"
  proof (cases "find (\<lambda>i. pl_proc (pci_listeners p ! i) = q) [0..<pci_listener_count p]")
    case None
    then have q: "q \<notin> pl_proc ` set (listening p)" using find_listener(1) [OF assms(1)] by simp
    have p': "p' = p\<lparr>pci_listeners := (pci_listeners p)[pci_listener_count p := ?l], pci_listener_count := pci_listener_count p + 1\<rparr>"
      using None assms(2,3) by (simp add: p'_def pci_register_process_listener_def MAX_PCI_LISTENERS_def)
    then have "listening p' = listening p @ [?l]" using ok(1) assms(3) by (simp add: listening_def take_Suc_conv_app_nth)
    with p' q ok assms(2,3) show ?thesis by (auto simp: listeners_ok_def)
  next
    case (Some i)
    note i = find_listener(2) [OF assms(1) Some]
    then have e: "pci_listeners p ! i = listening p ! i" using ok(4) by (simp add: listening_def)
    have upd: "(listening p ! i)\<lparr>pl_vendor_id := vid, pl_device_id := did\<rparr> = ?l" using i by (cases "listening p ! i") simp
    have p': "p' = p\<lparr>pci_listeners := (pci_listeners p)[i := ?l]\<rparr>"
      using Some assms(2,3) upd by (simp add: p'_def pci_register_process_listener_def MAX_PCI_LISTENERS_def e)
    then have "listening p' = (listening p)[i := ?l]" by (simp add: listening_def take_update_swap)
    also have "\<dots> = map (\<lambda>l. if pl_proc l = q then ?l else l) (listening p)"
      using i ok(2) by (intro nth_equalityI) (auto simp: nth_list_update distinct_conv_nth)
    finally have L: "listening p' = map (\<lambda>l. if pl_proc l = q then ?l else l) (listening p)" .
    have m: "map pl_proc (listening p') = map pl_proc (listening p)" unfolding L by simp
    have "listeners_ok p'" unfolding listeners_ok_def m using p' assms(1) by (simp add: listeners_ok_def)
    moreover have "q \<in> pl_proc ` set (listening p)" using i nth_mem by blast
    ultimately show ?thesis using L by simp
  qed
  then show "listeners_ok p'" "listening p' =
      (if q \<in> pl_proc ` set (listening p)
       then map (\<lambda>l. if pl_proc l = q then ?l else l) (listening p) else listening p @ [?l])" by simp_all
qed

lemma unregister_listening:
  assumes "listeners_ok p" "q \<noteq> 0"
  shows "listeners_ok (pci_unregister_process_listener q p)"
    "listening (pci_unregister_process_listener q p) = filter (\<lambda>l. pl_proc l \<noteq> q) (listening p)"
proof -
  let ?p = "pci_unregister_process_listener q p" and ?F = "filter (\<lambda>l. pl_proc l \<noteq> q) (listening p)"
  have ok: "length (pci_listeners p) = 16" "distinct (map pl_proc (listening p))" "0 \<notin> set (map pl_proc (listening p))"
      "length (listening p) = pci_listener_count p" "pci_listener_count p \<le> 16" using assms(1) by (simp_all add: listeners_ok_def listening_def)
  have "listening ?p = ?F \<and> length (pci_listeners ?p) = 16 \<and> pci_listener_count ?p \<le> 16"
  proof (cases "find (\<lambda>i. pl_proc (pci_listeners p ! i) = q) [0..<pci_listener_count p]")
    case None
    then have "q \<notin> pl_proc ` set (listening p)" using find_listener(1) [OF assms(1)] by simp
    then have "?F = listening p" by (auto simp: filter_id_conv)
    with None ok assms(2) show ?thesis by (simp add: pci_unregister_process_listener_def)
  next
    case (Some i)
    note i = find_listener(2) [OF assms(1) Some]
    let ?n = "pci_listener_count p - 1"
    have n: "Suc ?n = pci_listener_count p" "?n < length (pci_listeners p)" "i \<le> ?n" using i ok by auto
    have p: "?p = p\<lparr>pci_listeners := shift_down (pci_listeners p) [i..<?n], pci_listener_count := ?n\<rparr>"
      using Some assms(2) by (simp add: pci_unregister_process_listener_def)
    have "listening ?p = take i (listening p) @ drop (Suc i) (listening p)"
      using shift_down_take [OF n(2,3)] n i unfolding p by (simp add: listening_def min_def)
    also have "\<dots> = ?F"
    proof -
      have d: "listening p = take i (listening p) @ listening p ! i # drop (Suc i) (listening p)" using id_take_nth_drop i by blast
      have "distinct (map pl_proc (take i (listening p)) @ pl_proc (listening p ! i) # map pl_proc (drop (Suc i) (listening p)))"
        using ok(2) by (subst (asm) d) simp
      then have "filter (\<lambda>l. pl_proc l \<noteq> q) (take i (listening p)) = take i (listening p)"
        "filter (\<lambda>l. pl_proc l \<noteq> q) (drop (Suc i) (listening p)) = drop (Suc i) (listening p)" using i by (auto simp: filter_id_conv image_iff)
      then show ?thesis using i by (subst (3) d) simp
    qed
    finally show ?thesis using shift_down_nth [OF n(2,3)] ok p by simp
  qed
  then show "listeners_ok ?p" "listening ?p = ?F" using ok by (auto simp: listeners_ok_def distinct_map_filter)
qed

text \<open>The table of listeners is a map from processes to filters: registering a process sets its filter, unless the
  table is full, and leaves those of the others alone; unregistering removes the process and nothing else. A process is never
  listed twice, so it gets an event at most once.\<close>

theorem pci_listeners_refine:
  assumes "listeners_ok p" "q \<noteq> 0" "pci_register_process_listener q vid did (p, s) = (p', s')"
  shows "listeners_ok p' \<and> listeners_ok (pci_unregister_process_listener q p) \<and>
    set (listening p') = (if length (listening p) < 16
      then {l \<in> set (listening p). pl_proc l \<noteq> q} \<union> {\<lparr>pl_proc = q, pl_vendor_id = vid, pl_device_id = did\<rparr>} else set (listening p)) \<and>
    set (listening (pci_unregister_process_listener q p)) = {l \<in> set (listening p). pl_proc l \<noteq> q}"
proof -
  have l: "length (listening p) = pci_listener_count p" using assms(1) by (simp add: listening_def listeners_ok_def)
  show ?thesis
  proof (cases "pci_listener_count p < 16")
    case True
    then show ?thesis
      using register_listening [OF assms(1,2) True, of vid did s] unregister_listening [OF assms(1,2)] assms(3) l by auto
  next
    case False
    then have "p' = p" using assms(2,3) by (simp add: pci_register_process_listener_def MAX_PCI_LISTENERS_def)
    with False show ?thesis using unregister_listening [OF assms(1,2)] assms(1) l by simp
  qed
qed

text \<open>What an event does to the processes: those of the listeners that match get it at the end of their queue.\<close>

lemma send_spec:
  assumes "listeners_ok p"
  shows "pci_send_event_to_listeners dev ty p s =
    s\<lparr>procs := \<lambda>a. if \<exists>l\<in>set (listening p). pl_proc l = a \<and> pci_matches (pl_vendor_id l) (pl_device_id l) dev
                   then push_io_event (pci_event dev ty) (procs s a) else procs s a\<rparr>"
proof -
  let ?M = "\<lambda>l. pci_matches (pl_vendor_id l) (pl_device_id l) dev" and ?f = "push_io_event (pci_event dev ty)"
  have f: "fold (\<lambda>l s. if ?M l then upd_proc (pl_proc l) ?f s else s) ls s =
      s\<lparr>procs := \<lambda>a. if \<exists>l\<in>set ls. pl_proc l = a \<and> ?M l then ?f (procs s a) else procs s a\<rparr>" if "distinct (map pl_proc ls)" for ls
    using that
  proof (induction ls arbitrary: s)
    case (Cons l ls)
    show ?case
    proof (cases "?M l")
      case True
      define P where "P = (procs s)(pl_proc l := ?f (procs s (pl_proc l)))"
      have "upd_proc (pl_proc l) ?f s = s\<lparr>procs := P\<rparr>" by (simp add: upd_proc_def P_def)
      moreover have u: "procs (s\<lparr>procs := P\<rparr>) = P" by simp
      ultimately have "fold (\<lambda>l s. if ?M l then upd_proc (pl_proc l) ?f s else s) (l # ls) s =
          s\<lparr>procs := \<lambda>a. if \<exists>l'\<in>set ls. pl_proc l' = a \<and> ?M l' then ?f (P a) else P a\<rparr>"
        using Cons.IH [of "s\<lparr>procs := P\<rparr>", unfolded u] Cons.prems True by simp
      moreover have "(\<lambda>a. if \<exists>l'\<in>set ls. pl_proc l' = a \<and> ?M l' then ?f (P a) else P a) =
          (\<lambda>a. if \<exists>l'\<in>set (l # ls). pl_proc l' = a \<and> ?M l' then ?f (procs s a) else procs s a)"
        using Cons.prems True by (intro ext) (auto simp: P_def image_iff)
      ultimately show ?thesis by (simp only:)
    qed (use Cons in simp)
  qed simp
  have "pci_listener_count p \<le> length (pci_listeners p)" using assms by (simp add: listeners_ok_def)
  from fold_index [OF this, of "\<lambda>l s. if ?M l then upd_proc (pl_proc l) ?f s else s"]
  show ?thesis using f [of "listening p"] assms by (simp add: pci_send_event_to_listeners_def listening_def [symmetric] listeners_ok_def Let_def)
qed

text \<open>When a device that was found signals, every process that listens for it gets the event at the end of its queue, and no
  other process changes. The processes that wait for their signal are not woken: the hooks of all processes stay as they are.\<close>

theorem pci_event_delivery:
  assumes "listeners_ok p" "sched_ok s" "pl_proc ` set (listening p) \<subseteq> set (process_table s)"
    "i < pci_device_count p" "pci_devices p ! i = dev" "pd_bus dev = b" "pd_device dev = d" "pd_function dev = f"
    "\<forall>j<i. (pd_bus (pci_devices p ! j), pd_device (pci_devices p ! j), pd_function (pci_devices p ! j)) \<noteq> (b, d, f)"
  shows "let s' = pci_notify_interrupt b d f p s in
    sched_ok s' \<and>
    (\<forall>l\<in>set (listening p). pci_matches (pl_vendor_id l) (pl_device_id l) dev \<longrightarrow>
       queued (io_events (procs s' (pl_proc l))) =
         (let q = queued (io_events (procs s (pl_proc l))) in if length q < 128 then q else tl q) @ [pci_event dev PCI_EVENT_INTERRUPT]) \<and>
    (\<forall>a. (\<forall>l\<in>set (listening p). pl_proc l = a \<longrightarrow> \<not> pci_matches (pl_vendor_id l) (pl_device_id l) dev) \<longrightarrow> procs s' a = procs s a) \<and>
    (\<forall>a\<in>set (process_table s) - {0}. active_hooks (procs s' a) = active_hooks (procs s a))"
proof -
  have fit: "proc_ok (procs s a)" if "a \<in> set (process_table s)" "a \<noteq> 0" for a
    using sched_okD(1,8) [OF assms(2)] that by (auto simp: in_set_conv_nth proc_fit_def)
  have pl: "proc_ok (procs s (pl_proc l))" if "l \<in> set (listening p)" for l
    using fit [of "pl_proc l"] assms(1,3) that by (force simp: listeners_ok_def)
  have "find (\<lambda>j. pd_bus (pci_devices p ! j) = b \<and> pd_device (pci_devices p ! j) = d \<and> pd_function (pci_devices p ! j) = f)
      [0..<pci_device_count p] = Some i" using assms(4-9) by (auto simp: find_Some_iff intro!: exI [of _ i])
  then have n: "pci_notify_interrupt b d f p s = pci_send_event_to_listeners dev PCI_EVENT_INTERRUPT p s"
    using assms(5) by (simp add: pci_notify_interrupt_def pci_notify_def)
  have q: "queued (io_events (push_io_event e x)) = (let q = queued (io_events x) in if length q < 128 then q else tl q) @ [e]"
    and h: "active_hooks (push_io_event e x) = active_hooks x" if "proc_ok x" for e x
    using push_queued(3) [of x e] push_healthy [of x e] that by (simp_all add: proc_ok_def active_hooks_def Let_def)
  have "sched_ok (pci_send_event_to_listeners dev PCI_EVENT_INTERRUPT p s)"
    using assms(2) push_fit unfolding send_spec [OF assms(1)] by (auto simp: sched_ok_def)
  then show ?thesis using q [OF pl] h [OF fit] unfolding n send_spec [OF assms(1)] Let_def by auto
qed

lemma empty_listeners: "listeners_ok empty_pci" "listening empty_pci = []"
  by (simp_all add: empty_pci_def listeners_ok_def listening_def)

theorem pci_listeners_refine_witness:
  "set (listening (fst (pci_register_process_listener 0x1000 0xFFFF 0xFFFF (empty_pci, sample_sched)))) =
     {\<lparr>pl_proc = 0x1000, pl_vendor_id = 0xFFFF, pl_device_id = 0xFFFF\<rparr>}"
  using pci_listeners_refine [OF empty_listeners(1), of "0x1000" "0xFFFF" "0xFFFF" sample_sched] empty_listeners(2)
  by (cases "pci_register_process_listener 0x1000 0xFFFF 0xFFFF (empty_pci, sample_sched)") simp

text \<open>One device, and one process that listens for every device.\<close>

definition sample_pci :: pci where
  "sample_pci = empty_pci\<lparr>pci_device_count := 1,
     pci_listeners := \<lparr>pl_proc = 0x1000, pl_vendor_id = 0xFFFF, pl_device_id = 0xFFFF\<rparr> # replicate 15 \<lparr>pl_proc = 0, pl_vendor_id = 0, pl_device_id = 0\<rparr>,
     pci_listener_count := 1\<rparr>"

lemma sample_pci_ok: "listeners_ok sample_pci" "listening sample_pci = [\<lparr>pl_proc = 0x1000, pl_vendor_id = 0xFFFF, pl_device_id = 0xFFFF\<rparr>]"
  by (simp_all add: sample_pci_def listeners_ok_def listening_def)

theorem pci_event_delivery_witness:
  "queued (io_events (procs (pci_notify_interrupt 0 0 0 sample_pci sample_sched) 0x1000)) =
     [pci_event (pci_read_device_info (\<lambda>_. 0) 0 0 0) PCI_EVENT_INTERRUPT]"
proof -
  have d: "pci_devices sample_pci ! 0 = pci_read_device_info (\<lambda>_. 0) 0 0 0" "0 < pci_device_count sample_pci"
    by (simp_all add: sample_pci_def empty_pci_def)
  have "pl_proc ` set (listening sample_pci) \<subseteq> set (process_table sample_sched)" using sample_pci_ok(2) sample_procs(12) by simp
  from pci_event_delivery [OF sample_pci_ok(1) sample_sched_ok this d(2,1), of 0 0 0]
  show ?thesis using sample_pci_ok(2) sample_procs(1) sample_process_ok(3) by (simp add: pci_read_device_info_def pci_matches_def Let_def)
qed

end
