(* ===== verification/Syscalls.thy ===== *)
theory Syscalls
  imports Devices Pci
begin

text \<open>
  The system calls, \<^verbatim>\<open>src/kernel/syscalls.cpp\<close>, and the commands of the graphical interface, \<^verbatim>\<open>gui.cpp\<close>. The machine is the
  kernel with the PCI bus and the memory of the processes: bytes for text, and typed stores for the \<open>IOEvent\<close> and \<open>GuiCommand\<close>
  objects that a system call reads or writes through a pointer. \<open>event_objects\<close> are the addresses at which the processes have an \<open>IOEvent\<close>
  object of their own (on their stacks, say). Processes and kernel share one flat address space and the code checks no pointer: a store to any
  other address hits whatever lies there, which this model does not follow, so such a call has no outcome (\<open>None\<close>). All other calls end in a
  panic (\<open>Inl\<close>) or in a new machine. The calls on files are not modelled.
\<close>

subsection \<open>State\<close>

record GuiCommand =
  gc_type :: u32
  gc_arg0 :: int
  gc_arg1 :: int
  gc_flags :: u32

definition GUI_COMMAND_REDRAW :: u32 where "GUI_COMMAND_REDRAW = 0"
definition GUI_COMMAND_SET_TERMINAL_ORIGIN :: u32 where "GUI_COMMAND_SET_TERMINAL_ORIGIN = 1"
definition GUI_COMMAND_REQUEST_NEW_WINDOW :: u32 where "GUI_COMMAND_REQUEST_NEW_WINDOW = 2"

record machine =
  kern :: kernel
  bus :: pci
  g_console_write_in_progress :: bool
  serial_out :: "u8 list"
  user_mem :: mem
  user_events :: "addr \<Rightarrow> IOEvent"
  event_objects :: "addr set"
  user_commands :: "addr \<Rightarrow> GuiCommand"

definition sched_of :: "machine \<Rightarrow> sched" where
  "sched_of m = core (kern m)"

definition set_sched :: "sched \<Rightarrow> machine \<Rightarrow> machine" where
  "set_sched s m = m\<lparr>kern := (kern m)\<lparr>core := s\<rparr>\<rparr>"

definition on_sched :: "(sched \<Rightarrow> panic + sched) \<Rightarrow> machine \<Rightarrow> panic + machine" where
  "on_sched f m = (case f (sched_of m) of Inl p \<Rightarrow> Inl p | Inr s \<Rightarrow> Inr (set_sched s m))"

definition set_eax :: "addr \<Rightarrow> u32 \<Rightarrow> machine \<Rightarrow> machine" where
  "set_eax regs v m =
     (let s = sched_of m in set_sched (s\<lparr>frames := (frames s)(regs := (frames s regs)\<lparr>r_eax := v\<rparr>)\<rparr>) m)"

subsection \<open>Console and graphics\<close>

definition user_text :: "machine \<Rightarrow> addr \<Rightarrow> u32 \<Rightarrow> u8 list" where
  "user_text m buffer sz = map (\<lambda>i. user_mem m (buffer + of_nat i)) [0..<unat sz]"

definition sys_console_write :: "addr \<Rightarrow> u32 \<Rightarrow> machine \<Rightarrow> u32 \<times> machine" where
  "sys_console_write buffer sz m =
     (if buffer = 0 \<or> sz = 0 then (0, m)
      else if g_console_write_in_progress m then (sz, m\<lparr>serial_out := serial_out m @ user_text m buffer sz\<rparr>)
      else let m = m\<lparr>g_console_write_in_progress := True\<rparr>;
               proc = scheduler_current_process (sched_of m);
               k = kern m
           in if \<not> fb_available (windows (sched_of m)) \<or> proc = 0
              then (sz, m\<lparr>kern := k\<lparr>console := fold term_putchar (user_text m buffer sz) (console k)\<rparr>, g_console_write_in_progress := False\<rparr>)
              else case write_text proc (user_text m buffer sz) (console k, windows (core k)) of
                     (t, w) \<Rightarrow> (sz, m\<lparr>kern := k\<lparr>console := t, core := (core k)\<lparr>windows := w\<rparr>\<rparr>, g_console_write_in_progress := False\<rparr>))"

definition gui_process_command :: "GuiCommand \<Rightarrow> addr \<Rightarrow> wins \<Rightarrow> wins" where
  "gui_process_command command requester w =
     (if gc_type command = GUI_COMMAND_REDRAW then draw_workspace w
      else if gc_type command = GUI_COMMAND_SET_TERMINAL_ORIGIN
      then (if requester \<noteq> 0 then draw_workspace (set_active_window_origin requester (gc_arg0 command) (gc_arg1 command) w) else w)
      else if gc_type command = GUI_COMMAND_REQUEST_NEW_WINDOW
      then (if requester \<noteq> 0 then draw_workspace (request_new_window requester w) else w)
      else w)"

definition sys_gui_command :: "addr \<Rightarrow> machine \<Rightarrow> machine" where
  "sys_gui_command user_command m =
     (if user_command = 0 then m
      else let s = sched_of m; proc = scheduler_current_process s
           in set_sched (on_windows (gui_process_command (user_commands m user_command) proc) s) m)"

subsection \<open>Events\<close>

definition sys_register_keyboard_handler :: "addr \<Rightarrow> machine \<Rightarrow> machine" where
  "sys_register_keyboard_handler handler m =
     (let s = sched_of m; proc = scheduler_current_process s
      in if proc \<noteq> 0 then set_sched (upd_proc proc (\<lambda>p. register_keyboard_handler p handler) s) m else m)"

text \<open>An event that is returned is written to \<open>*out_event\<close>, without a test of the pointer.\<close>

definition write_event :: "addr \<Rightarrow> IOEvent option \<Rightarrow> machine \<Rightarrow> machine option" where
  "write_event out e m =
     (case e of None \<Rightarrow> Some m
      | Some e \<Rightarrow> if out \<in> event_objects m then Some (m\<lparr>user_events := (user_events m)(out := e)\<rparr>) else None)"

definition sys_get_io_event :: "addr \<Rightarrow> machine \<Rightarrow> (u32 \<times> machine) option" where
  "sys_get_io_event out m =
     (let s = sched_of m; proc = scheduler_current_process s
      in if proc = 0 then Some (0, m)
         else case pop_io_event (procs s proc) of
                (e, p) \<Rightarrow> do {
                  m \<leftarrow> write_event out e (set_sched (upd_proc proc (\<lambda>_. p) s) m);
                  Some (if e = None then 0 else 1, m) })"

definition sys_wait_io_event :: "addr \<Rightarrow> addr \<Rightarrow> machine \<Rightarrow> (panic + (u32 \<times> machine)) option" where
  "sys_wait_io_event regs out m =
     (let s = sched_of m; proc = scheduler_current_process s
      in if proc = 0 then Some (Inr (0, m))
         else case (if out = 0 then (None, procs s proc) else process_wait_for_io_event (procs s proc)) of
                (e, p) \<Rightarrow> do {
                  m \<leftarrow> write_event out e (set_sched (upd_proc proc (\<lambda>_. p) s) m);
                  Some (if e \<noteq> None then Inr (1, m)
                        else case on_sched (scheduler_force_switch_with_regs regs) m of Inl p \<Rightarrow> Inl p | Inr m \<Rightarrow> Inr (0, m)) })"

definition sys_yield_with_regs :: "addr \<Rightarrow> machine \<Rightarrow> panic + machine" where
  "sys_yield_with_regs regs m = on_sched (scheduler_force_switch_with_regs regs) m"

definition sys_yield :: "machine \<Rightarrow> panic + machine" where
  "sys_yield m = on_sched scheduler_force_switch m"

definition hook_type_of :: "u32 \<Rightarrow> HookType" where
  "hook_type_of v = (if v = 0 then TIME_REACHED else if v = 1 then SIGNAL else if v = 2 then CUSTOM else OTHER_HOOK v)"

definition sys_yield_for_event_with_regs :: "addr \<Rightarrow> u32 \<Rightarrow> u64 \<Rightarrow> machine \<Rightarrow> panic + machine" where
  "sys_yield_for_event_with_regs regs ty v m =
     (let s = sched_of m; proc = scheduler_current_process s
      in if proc = 0 then Inr m
         else on_sched (scheduler_force_switch_with_regs regs)
                (set_sched (upd_proc proc (\<lambda>p. process_yield_for_event p (hook_type_of ty) v) s) m))"

definition sys_yield_for_event :: "u32 \<Rightarrow> u64 \<Rightarrow> machine \<Rightarrow> panic + machine" where
  "sys_yield_for_event ty v m =
     (let s = sched_of m; proc = scheduler_current_process s
      in if proc = 0 then Inr m
         else on_sched scheduler_force_switch (set_sched (upd_proc proc (\<lambda>p. process_yield_for_event p (hook_type_of ty) v) s) m))"

text \<open>\<open>sys_getchar\<close> yields until a character is there. What the rest of the system does during each yield is a step of \<open>env\<close>; \<open>None\<close> says
  that the steps were used up before a character arrived.\<close>

fun sys_getchar :: "(machine \<Rightarrow> machine) list \<Rightarrow> machine \<Rightarrow> (panic + (u8 \<times> machine)) option" where
  "sys_getchar env m =
     (if keyboard_buffer_head (keys (kern m)) \<noteq> keyboard_buffer_tail (keys (kern m))
      then (case keyboard_buffer_pop (keys (kern m)) of (c, b) \<Rightarrow> Some (Inr (c, m\<lparr>kern := (kern m)\<lparr>keys := b\<rparr>\<rparr>)))
      else case env of [] \<Rightarrow> None
        | e # es \<Rightarrow> (case sys_yield m of Inl p \<Rightarrow> Some (Inl p) | Inr m \<Rightarrow> sys_getchar es (e m)))"

declare sys_getchar.simps [simp del]

subsection \<open>Processes and PCI\<close>

definition sys_exit_with_regs :: "machine \<Rightarrow> panic + machine" where
  "sys_exit_with_regs m =
     (let s = sched_of m; proc = scheduler_current_process s;
          s = (if proc \<noteq> 0 then kill_process proc (upd_proc proc (\<lambda>p. register_keyboard_handler p 0) s) else s)
      in on_sched scheduler_exit_current_and_switch (set_sched s m))"

definition sys_pci_register_listener :: "u16 \<Rightarrow> u16 \<Rightarrow> machine \<Rightarrow> machine" where
  "sys_pci_register_listener vendor_id device_id m =
     (let proc = scheduler_current_process (sched_of m)
      in if proc \<noteq> 0
         then case pci_register_process_listener proc vendor_id device_id (bus m, sched_of m) of (b, s) \<Rightarrow> (set_sched s m)\<lparr>bus := b\<rparr>
         else m)"

definition sys_pci_unregister_listener :: "machine \<Rightarrow> machine" where
  "sys_pci_unregister_listener m =
     (let proc = scheduler_current_process (sched_of m)
      in if proc \<noteq> 0 then m\<lparr>bus := pci_unregister_process_listener proc (bus m)\<rparr> else m)"

definition sys_start_process :: "addr \<Rightarrow> addr \<Rightarrow> u32 \<Rightarrow> u32 \<Rightarrow> u32 \<Rightarrow> machine \<Rightarrow> machine option" where
  "sys_start_process regs name entry spec ssize m =
     (case k_start_process name entry (sint spec) ssize (sched_of m) of
        None \<Rightarrow> None
      | Some (p, s) \<Rightarrow> Some (set_eax regs (if p \<noteq> 0 then of_int (pid (procs s p)) else -1) (set_sched s m)))"

definition syscall_dispatch :: "addr \<Rightarrow> machine \<Rightarrow> (panic + machine) option" where
  "syscall_dispatch regs m =
     (let r = frames (sched_of m) regs; syscall_num = r_eax r; arg1 = r_ebx r; arg2 = r_ecx r; arg3 = r_edx r; arg4 = r_esi r
      in if syscall_num = 0x80 then Some (sys_yield_with_regs regs m)
         else if syscall_num = 0x81 then Some (sys_yield_for_event_with_regs regs arg1 (ucast arg2) m)
         else if syscall_num = 0x82 then map_option Inr (sys_start_process regs arg1 arg2 arg3 arg4 m)
         else if syscall_num = 0x83 then Some (sys_exit_with_regs m)
         else if syscall_num = 0x84 then map_option (\<lambda>(v, m). Inr (set_eax regs v m)) (sys_get_io_event arg1 m)
         else if syscall_num = 0x85 then map_option (\<lambda>r. case r of Inl p \<Rightarrow> Inl p | Inr (v, m) \<Rightarrow> Inr (set_eax regs v m)) (sys_wait_io_event regs arg1 m)
         else if syscall_num = 0x86 then Some (Inr (sys_gui_command arg1 m))
         else if syscall_num = 0x87 then (case sys_console_write arg1 arg2 m of (v, m) \<Rightarrow> Some (Inr (set_eax regs v m)))
         else if syscall_num = 0x88 then Some (Inr (sys_pci_register_listener (ucast arg1) (ucast arg2) m))
         else if syscall_num = 0x89 then Some (Inr (sys_pci_unregister_listener m))
         else Some (Inr m))"


subsection \<open>Invariant\<close>

definition machine_ok :: "machine \<Rightarrow> bool" where
  "machine_ok m \<longleftrightarrow> kernel_ok (kern m) \<and> term_ok (console (kern m)) \<and> listeners_ok (bus m) \<and> \<not> g_console_write_in_progress m"




lemma kernel_sched:
  assumes "kernel_ok k" "sched_ok s" "fb_of (windows s) = fb_of (windows (core k))"
  shows "kernel_ok (k\<lparr>core := s\<rparr>)"
  using assms fb_of_display [OF assms(3)] by (simp add: kernel_ok_def)

lemma set_sched_ok:
  assumes "machine_ok m" "sched_ok s" "fb_of (windows s) = fb_of (windows (sched_of m))"
  shows "machine_ok (set_sched s m)"
  using assms kernel_sched [of "kern m" s] by (simp add: machine_ok_def set_sched_def sched_of_def)

lemma set_sched_simps [simp]: "sched_of (set_sched s m) = s" "set_sched s (set_sched s' m) = set_sched s m"
  by (simp_all add: set_sched_def sched_of_def)

lemma machine_sched: "machine_ok m \<Longrightarrow> sched_ok (sched_of m)"
  by (simp add: machine_ok_def kernel_ok_def sched_of_def)





lemma set_sched_objects [simp]: "event_objects (set_sched s m) = event_objects m"
  by (simp add: set_sched_def)



lemma current_fit: "sched_ok s \<Longrightarrow> scheduler_current_process s \<noteq> 0 \<Longrightarrow> proc_fit (procs s (scheduler_current_process s))"
  using sched_okD(8) [of s "nat (current_process_idx s)"] by (auto simp: scheduler_current_process_def MAX_PROCESSES_def split: if_splits)













subsection \<open>Properties\<close>


lemma pop_queued:
  assumes "proc_fit p" "queued (io_events p) = e # es"
  shows "\<exists>q. pop_io_event p = (Some e, q) \<and> queued (io_events q) = es"
proof -
  have o: "process_is_valid p" "queue_ok (io_events p)" using assms(1) by (simp_all add: proc_fit_def proc_ok_def)
  have c: "q_count (io_events p) \<noteq> 0" "0 \<le> q_count (io_events p)" using assms(2) o(2) by (auto simp: queued_def queue_ok_def)
  then have "0 < q_count (io_events p)" by simp
  from q_drop_correct [OF o(2) this] c(1) pop_healthy [OF o] assms(2) show ?thesis by simp
qed

lemma pop_empty:
  assumes "proc_fit p" "queued (io_events p) = []"
  shows "pop_io_event p = (None, p)"
proof -
  have o: "process_is_valid p" "queue_ok (io_events p)" using assms(1) by (simp_all add: proc_fit_def proc_ok_def)
  have "q_count (io_events p) = 0" using assms(2) o(2) by (auto simp: queued_def queue_ok_def)
  then show ?thesis using pop_healthy [OF o] by simp
qed

text \<open>C20. When events are queued, polling and waiting both return 1 at once, store the oldest event in the
  object of the caller that the pointer refers to and take exactly that event from the queue.\<close>

theorem event_calls_deliver:
  assumes "machine_ok m" "scheduler_current_process (sched_of m) = p" "p \<noteq> 0" "queued (io_events (procs (sched_of m) p)) = e # es"
    "r_eax (frames (sched_of m) regs) = 0x84 \<or> r_eax (frames (sched_of m) regs) = 0x85" "r_ebx (frames (sched_of m) regs) = a" "a \<noteq> 0" "a \<in> event_objects m"
  shows "\<exists>m'. syscall_dispatch regs m = Some (Inr m') \<and> user_events m' a = e \<and> r_eax (frames (sched_of m') regs) = 1 \<and>
    queued (io_events (procs (sched_of m') p)) = es \<and> (\<forall>q. q \<noteq> p \<longrightarrow> procs (sched_of m') q = procs (sched_of m) q)"
proof -
  have fit: "proc_fit (procs (sched_of m) p)" using current_fit [OF machine_sched [OF assms(1)]] assms(2,3) by simp
  obtain q where q: "pop_io_event (procs (sched_of m) p) = (Some e, q)" "queued (io_events q) = es" using pop_queued [OF fit assms(4)] by blast
  define n where "n = (set_sched (upd_proc p (\<lambda>_. q) (sched_of m)) m)\<lparr>user_events := (user_events m)(a := e)\<rparr>"
  have s: "sched_of (set_eax regs v n) = (sched_of n)\<lparr>frames := (frames (sched_of n))(regs := (frames (sched_of n) regs)\<lparr>r_eax := v\<rparr>)\<rparr>"
      "user_events (set_eax regs v n) = user_events n" for v by (simp_all add: set_eax_def Let_def) (simp add: set_sched_def)
  have n: "sched_of n = upd_proc p (\<lambda>_. q) (sched_of m)" "user_events n a = e"
    by (simp_all add: n_def) (simp add: sched_of_def set_sched_def)
  have "write_event a (Some e) (set_sched (upd_proc p (\<lambda>_. q) (sched_of m)) m) = Some n"
    using assms(8) by (simp add: write_event_def n_def) (simp add: set_sched_def)
  then have g: "sys_get_io_event a m = Some (1, n)" "sys_wait_io_event regs a m = Some (Inr (1, n))"
    using q assms(2,3,7) by (simp_all add: sys_get_io_event_def sys_wait_io_event_def process_wait_for_io_event_def Let_def)
  have "syscall_dispatch regs m = Some (Inr (set_eax regs 1 n))"
    using assms(5,6) g by (auto simp: syscall_dispatch_def Let_def)
  then show ?thesis using q(2) n by (simp add: s upd_proc_def)
qed

lemma next_process_procs [simp]: "procs (snd (scheduler_next_process s)) = procs s"
  by (simp add: scheduler_next_process_def lottery_def xorshift32_def Let_def split: option.split)

lemma current_upd [simp]: "scheduler_current_process (upd_proc a f s) = scheduler_current_process s"
  by (simp add: upd_proc_def scheduler_current_process_def)

lemma switch_saves:
  assumes "scheduler_current_process s = p" "p \<noteq> 0" "alive (procs s p) \<noteq> 0"
  shows "\<exists>s'. context_switch regs s = Inr s' \<and> procs s' = (procs s)(p := save_context (frames s regs) (procs s p))"
proof -
  define u where "u = upd_proc p (save_context (frames s regs)) s"
  obtain t v where v: "scheduler_next_process u = (t, v)" by fastforce
  have "procs v = procs u" using next_process_procs [of u] by (simp add: v)
  then have pv: "procs v = (procs s)(p := save_context (frames s regs) (procs s p))" by (simp add: u_def upd_proc_def)
  then have "alive (procs v p) \<noteq> 0" using assms(3) by (simp add: save_context_def)
  then show ?thesis using assms v pv by (auto simp: context_switch_def u_def [symmetric] Let_def)
qed

text \<open>A process that waits while its queue is empty is put to sleep until its signal. The context that it will
  resume with was saved before the result of the call was stored, so it holds the number of the call in \<open>eax\<close>: the process wakes up with a
  result that says that an event was stored, although none was.\<close>

theorem wait_resumes_with_call_number:
  assumes "machine_ok m" "scheduler_current_process (sched_of m) = p" "p \<noteq> 0" "alive (procs (sched_of m) p) \<noteq> 0"
    "queued (io_events (procs (sched_of m) p)) = []" "hook_count (procs (sched_of m) p) < 8" "regs \<noteq> 0"
    "r_eax (frames (sched_of m) regs) = 0x85" "r_ebx (frames (sched_of m) regs) \<noteq> 0"
  shows "\<exists>m'. syscall_dispatch regs m = Some (Inr m') \<and> user_events m' = user_events m \<and> r_eax (frames (sched_of m') regs) = 0 \<and>
    \<not> runnable (procs (sched_of m') p) \<and> c_eax (cpu_context (procs (sched_of m') p)) = 0x85"
proof -
  let ?s = "sched_of m" and ?a = "r_ebx (frames (sched_of m) regs)"
  define q where "q = process_yield_for_event (procs ?s p) SIGNAL (of_int (pid (procs ?s p)))"
  define u where "u = upd_proc p (\<lambda>_. q) ?s"
  have fit: "proc_fit (procs ?s p)" using current_fit [OF machine_sched [OF assms(1)]] assms(2,3) by simp
  have qp: "alive q = alive (procs ?s p)" by (simp add: q_def process_yield_for_event_def process_register_hook_def)
  have qh: "hook_count q \<noteq> 0"
  proof (cases "process_has_matching_hook (procs ?s p) SIGNAL (of_int (pid (procs ?s p)))")
    case True
    then have "hook_count (procs ?s p) \<noteq> 0" by (auto simp: process_has_matching_hook_def)
    with True show ?thesis by (simp add: q_def process_yield_for_event_def)
  qed (use assms(6) fit in \<open>simp add: q_def process_yield_for_event_def process_register_hook_def queue_consts proc_fit_def proc_ok_def\<close>)
  have cu: "scheduler_current_process u = p" "alive (procs u p) \<noteq> 0" "frames u = frames ?s" "procs u p = q"
    using current_upd [of p "\<lambda>_. q" ?s] assms(2,4) qp by (simp_all add: u_def) (simp_all add: upd_proc_def)
  obtain s' where s': "context_switch regs u = Inr s'" "procs s' = (procs u)(p := save_context (frames ?s regs) q)"
    using switch_saves [OF cu(1) assms(3) cu(2), of regs] cu(3,4) by auto
  have w: "sys_wait_io_event regs ?a m = Some (Inr (0, set_sched s' m))"
    using assms(2,3,7,9) pop_empty [OF fit assms(5)] s'(1)
    by (simp add: sys_wait_io_event_def process_wait_for_io_event_def write_event_def on_sched_def scheduler_force_switch_with_regs_def
        q_def [symmetric] u_def [symmetric] Let_def)
  have "syscall_dispatch regs m = Some (Inr (set_eax regs 0 (set_sched s' m)))"
    using w assms(8) by (simp add: syscall_dispatch_def Let_def)
  moreover have "user_events (set_eax regs 0 (set_sched s' m)) = user_events m" by (simp add: set_eax_def Let_def) (simp add: set_sched_def)
  moreover have "procs (sched_of (set_eax regs 0 (set_sched s' m))) p = save_context (frames ?s regs) q"
    "r_eax (frames (sched_of (set_eax regs 0 (set_sched s' m))) regs) = 0" using s'(2) by (simp_all add: set_eax_def Let_def)
  ultimately show ?thesis using qh assms(8) by (auto simp: save_context_def runnable_def)
qed


subsection \<open>Witnesses\<close>

definition sample_machine :: machine where
  "sample_machine = \<lparr>kern = sample_kernel\<lparr>console := term_initialize False raw_terminal\<rparr>, bus = empty_pci,
     g_console_write_in_progress = False, serial_out = [], user_mem = (\<lambda>_. 0), user_events = (\<lambda>_. EVENT_NONE), event_objects = {0x7000},
     user_commands = (\<lambda>_. \<lparr>gc_type = 0, gc_arg0 = 0, gc_arg1 = 0, gc_flags = 0\<rparr>)\<rparr>"

lemma sample_machine_ok: "machine_ok sample_machine"
  using sample_kernel_ok raw_terminal_init(2) empty_listeners(1) by (simp add: machine_ok_def sample_machine_def) (simp add: kernel_ok_def)

lemma sample_machine_sched: "sched_of sample_machine = sample_sched"
  by (simp add: sched_of_def sample_machine_def sample_kernel_def)

text \<open>The machine at a system call of the process at \<open>0x1000\<close>, with the given call number, a pointer as argument and the given events.\<close>

definition calling :: "u32 \<Rightarrow> IOEvent list \<Rightarrow> machine" where
  "calling n es = set_sched (sample_sched\<lparr>frames := \<lambda>_. \<lparr>r_eip = 0x5000, r_esp = 0, r_ebp = 0, r_eax = n, r_ebx = 0x7000, r_ecx = 0, r_edx = 0, r_esi = 0,
     r_edi = 0, r_eflags = 0\<rparr>, procs := (procs sample_sched)(0x1000 := fold push_io_event es sample_process)\<rparr>) sample_machine"

lemma calling_ok: "machine_ok (calling n es)"
proof -
  have "proc_fit (fold push_io_event es p)" if "proc_fit p" for p using that by (induction es arbitrary: p) (simp_all add: push_fit)
  moreover have "proc_fit sample_process" using current_fit [OF sample_sched_ok] sample_procs by simp
  ultimately have "sched_ok (sample_sched\<lparr>frames := f, procs := (procs sample_sched)(0x1000 := fold push_io_event es sample_process)\<rparr>)" for f
    using sample_sched_ok by (auto simp: sched_ok_def)
  then show ?thesis unfolding calling_def
    by (intro set_sched_ok sample_machine_ok) (simp_all add: sample_machine_sched)
qed

lemma calling_simps:
  "scheduler_current_process (sched_of (calling n es)) = 0x1000" "procs (sched_of (calling n es)) 0x1000 = fold push_io_event es sample_process"
  "r_eax (frames (sched_of (calling n es)) a) = n" "r_ebx (frames (sched_of (calling n es)) a) = 0x7000"
  "event_objects (calling n es) = {0x7000}"
proof -
  show "scheduler_current_process (sched_of (calling n es)) = 0x1000"
    using sample_procs(9) by (auto simp: calling_def scheduler_current_process_def split: if_splits)
qed (simp_all add: calling_def sample_machine_def)


text \<open>A pointer elsewhere, \<open>NULL\<close> in particular: polling stores the event there all the same.\<close>

lemma stray_event_pointer:
  assumes "machine_ok m" "scheduler_current_process (sched_of m) = p" "p \<noteq> 0" "queued (io_events (procs (sched_of m) p)) = e # es"
    "r_eax (frames (sched_of m) regs) = 0x84" "r_ebx (frames (sched_of m) regs) \<notin> event_objects m"
  shows "syscall_dispatch regs m = None"
proof -
  have fit: "proc_fit (procs (sched_of m) p)" using current_fit [OF machine_sched [OF assms(1)]] assms(2,3) by simp
  obtain q where "pop_io_event (procs (sched_of m) p) = (Some e, q)" using pop_queued [OF fit assms(4)] by blast
  then show ?thesis using assms(2,3,5,6) by (simp add: syscall_dispatch_def sys_get_io_event_def write_event_def Let_def)
qed

theorem event_calls_deliver_witness:
  "\<exists>m'. syscall_dispatch 0x9000 (calling 0x85 [EVENT_PROCESS 1 7]) = Some (Inr m') \<and> user_events m' 0x7000 = EVENT_PROCESS 1 7"
proof -
  have "queued (io_events (push_io_event (EVENT_PROCESS 1 7) sample_process)) = [EVENT_PROCESS 1 7]"
    using push_queued(3) [OF sample_process_ok(1,2)] sample_process_ok(3) by simp
  then show ?thesis
    using event_calls_deliver [where m = "calling 0x85 [EVENT_PROCESS 1 7]" and regs = "0x9000" and a = "0x7000", OF calling_ok calling_simps(1)]
      calling_simps by auto
qed

theorem wait_resumes_with_call_number_witness:
  "\<exists>m'. syscall_dispatch 0x9000 (calling 0x85 []) = Some (Inr m') \<and> c_eax (cpu_context (procs (sched_of m') 0x1000)) = 0x85"
  using wait_resumes_with_call_number [OF calling_ok calling_simps(1), of "0x85" "[]" "0x9000"] calling_simps sample_process_ok(3) sample_procs by auto

end
