(* ===== verification/Vfs.thy ===== *)
theory Vfs
  imports Prelude
begin

text \<open>
  The virtual file system, \<^verbatim>\<open>src/kernel/vfs.cpp\<close>: mount table, path resolution, the working directory and the dispatch to the
  operations of the mounted file systems. A string is the list of its bytes before the terminating NUL. The file systems are a
  parameter: \<open>'s\<close> is their state and a mount carries its table of operations, each of which may be missing. A pointer to a mount is its index in
  the table, and a \<open>vfs_file_t\<close> of a caller is passed and returned by value. \<open>None\<close> is the outcome of a call that does not come back
  with a result: it loops for ever or writes past the end of one of its buffers. Every function answers a \<open>NULL\<close> argument with an error
  code before it does anything; that case has no counterpart here.
\<close>

subsection \<open>Strings and constants\<close>

type_synonym path = "u8 list"

definition SLASH :: u8 where "SLASH = 0x2F"
definition DOT :: u8 where "DOT = 0x2E"

definition VFS_MAX_MOUNTS :: nat where "VFS_MAX_MOUNTS = 8"
definition VFS_MAX_PATH :: nat where "VFS_MAX_PATH = 256"
definition VFS_MAX_NAME :: nat where "VFS_MAX_NAME = 64"
definition VFS_MAX_OPEN_FILES :: nat where "VFS_MAX_OPEN_FILES = 64"

definition VFS_SUCCESS :: int where "VFS_SUCCESS = 0"
definition VFS_ERROR :: int where "VFS_ERROR = -1"
definition VFS_NOT_FOUND :: int where "VFS_NOT_FOUND = -2"
definition VFS_NO_SPACE :: int where "VFS_NO_SPACE = -3"
definition VFS_NOT_MOUNTED :: int where "VFS_NOT_MOUNTED = -5"
definition VFS_ALREADY_MOUNTED :: int where "VFS_ALREADY_MOUNTED = -6"

definition VFS_FS_RAMFS :: u8 where "VFS_FS_RAMFS = 1"
definition VFS_FS_FAT32 :: u8 where "VFS_FS_FAT32 = 2"
definition VFS_TYPE_FILE :: u8 where "VFS_TYPE_FILE = 1"
definition VFS_TYPE_DIRECTORY :: u8 where "VFS_TYPE_DIRECTORY = 2"

text \<open>A string that is stored in a buffer of \<open>n\<close> bytes.\<close>

definition fit :: "nat \<Rightarrow> path \<Rightarrow> path option" where
  "fit n s = (if length s < n then Some s else None)"

text \<open>The strings that \<open>strtok\<close> returns one after the other for the delimiter \<open>/\<close>.\<close>

function path_tokens :: "path \<Rightarrow> path list" where
  "path_tokens [] = []"
| "path_tokens (c # cs) =
     (if c = SLASH then path_tokens cs
      else (c # takeWhile (\<lambda>x. x \<noteq> SLASH) cs) # path_tokens (dropWhile (\<lambda>x. x \<noteq> SLASH) cs))"
  by pat_completeness auto

termination
  by (relation "measure length") (auto intro: le_imp_less_Suc length_dropWhile_le)

subsection \<open>Paths\<close>

definition absolute_path :: "path \<Rightarrow> path \<Rightarrow> path" where
  "absolute_path cwd path =
     (if path \<noteq> [] \<and> hd path = SLASH then path
      else cwd @ (if cwd \<noteq> [SLASH] then [SLASH] else []) @ path)"

text \<open>The loop over the components. The branch for \<open>.\<close> continues without fetching the next token.\<close>

partial_function (option) resolve_loop :: "path list \<Rightarrow> path list \<Rightarrow> path list option" where
  "resolve_loop tokens components =
     (case tokens of
        [] \<Rightarrow> Some components
      | token # rest \<Rightarrow>
          if length components \<ge> 32 then Some components
          else if token = [DOT] then resolve_loop tokens components
          else if token = [DOT, DOT] then resolve_loop rest (butlast components)
          else if length token < VFS_MAX_NAME then resolve_loop rest (components @ [token])
          else None)"

definition vfs_resolve_dots :: "path \<Rightarrow> path \<Rightarrow> path option" where
  "vfs_resolve_dots cwd path =
     do {
       working_path \<leftarrow> fit VFS_MAX_PATH (absolute_path cwd path);
       components \<leftarrow> resolve_loop (path_tokens working_path) [];
       fit VFS_MAX_PATH (if components = [] then [SLASH] else concat (map (\<lambda>c. SLASH # c) components))
     }"

text \<open>The parent of the working directory, for the path \<open>..\<close>: the part before the last slash.\<close>

definition parent_directory :: "path \<Rightarrow> path" where
  "parent_directory cwd =
     (if cwd = [SLASH] then [SLASH]
      else let upto = rev (dropWhile (\<lambda>x. x \<noteq> SLASH) (rev cwd))
           in if length upto > 1 then butlast upto else [SLASH])"

text \<open>The loop that drops repeated slashes: \<open>n\<close> bytes are left in the buffer.\<close>

fun squeeze_slashes :: "nat \<Rightarrow> bool \<Rightarrow> path \<Rightarrow> path" where
  "squeeze_slashes n last_was_slash [] = []"
| "squeeze_slashes n last_was_slash (c # cs) =
     (if n = 0 then []
      else if c = SLASH
      then (if \<not> last_was_slash then SLASH # squeeze_slashes (n - 1) True cs else squeeze_slashes n True cs)
      else c # squeeze_slashes (n - 1) False cs)"

definition vfs_normalize_path :: "path \<Rightarrow> path \<Rightarrow> path option" where
  "vfs_normalize_path cwd path =
     (if path = [DOT] then Some cwd
      else if path = [DOT, DOT] then Some (parent_directory cwd)
      else do {
        temp_path \<leftarrow> vfs_resolve_dots cwd path;
        let dst = squeeze_slashes (VFS_MAX_PATH - 1) False temp_path;
        let dst = (if length dst > 1 \<and> last dst = SLASH then butlast dst else dst);
        Some (if dst = [] then [SLASH] else dst)
      })"

subsection \<open>Files, mounts and operations\<close>

record vfs_file =
  fs_handle :: u32
  vf_mount :: "nat option"
  vf_position :: u32
  vf_in_use :: bool

record vfs_dirent =
  de_name :: path
  de_type :: u8
  de_size :: u32

text \<open>The operations get the state of the file systems and return a result with the new state; \<open>None\<close> is again a call that does not come
  back. \<open>vop_read\<close> returns the bytes it stores in the buffer, \<open>vop_readdir\<close> the entries.\<close>

record 's vfs_operations =
  vop_open :: "(nat \<Rightarrow> path \<Rightarrow> vfs_file \<Rightarrow> 's \<Rightarrow> (int \<times> vfs_file \<times> 's) option) option"
  vop_read :: "(vfs_file \<Rightarrow> u32 \<Rightarrow> 's \<Rightarrow> (int \<times> u8 list \<times> vfs_file \<times> 's) option) option"
  vop_write :: "(vfs_file \<Rightarrow> u8 list \<Rightarrow> 's \<Rightarrow> (int \<times> vfs_file \<times> 's) option) option"
  vop_seek :: "(vfs_file \<Rightarrow> u32 \<Rightarrow> 's \<Rightarrow> (int \<times> vfs_file \<times> 's) option) option"
  vop_close :: "(vfs_file \<Rightarrow> 's \<Rightarrow> (vfs_file \<times> 's) option) option"
  vop_unmount :: "(nat \<Rightarrow> 's \<Rightarrow> (int \<times> 's) option) option"
  vop_readdir :: "(nat \<Rightarrow> path \<Rightarrow> nat \<Rightarrow> 's \<Rightarrow> (int \<times> vfs_dirent list \<times> 's) option) option"
  vop_mkdir :: "(nat \<Rightarrow> path \<Rightarrow> 's \<Rightarrow> (int \<times> 's) option) option"
  vop_rmdir :: "(nat \<Rightarrow> path \<Rightarrow> 's \<Rightarrow> (int \<times> 's) option) option"
  vop_create :: "(nat \<Rightarrow> path \<Rightarrow> 's \<Rightarrow> (int \<times> 's) option) option"
  vop_remove :: "(nat \<Rightarrow> path \<Rightarrow> 's \<Rightarrow> (int \<times> 's) option) option"
  vop_stat :: "(nat \<Rightarrow> path \<Rightarrow> 's \<Rightarrow> (int \<times> vfs_dirent option \<times> 's) option) option"

record 's vfs_mount_t =
  mountpoint :: path
  fs_type :: u8
  device_id :: u8
  fs_data :: u32
  m_ops :: "'s vfs_operations option"
  mounted :: bool

record 's vfs =
  mounts :: "'s vfs_mount_t list"
  open_files :: "vfs_file list"
  current_working_directory :: path
  vfs_initialized :: bool
  fss :: 's

definition closed_file :: vfs_file where
  "closed_file = \<lparr>fs_handle = 0, vf_mount = None, vf_position = 0, vf_in_use = False\<rparr>"

definition empty_mount :: "'s vfs_mount_t" where
  "empty_mount = \<lparr>mountpoint = [], fs_type = 0, device_id = 0, fs_data = 0, m_ops = None, mounted = False\<rparr>"

definition vfs_init :: "'s vfs \<Rightarrow> int \<times> 's vfs" where
  "vfs_init v = (VFS_SUCCESS, v\<lparr>mounts := replicate VFS_MAX_MOUNTS empty_mount, open_files := replicate VFS_MAX_OPEN_FILES closed_file,
     current_working_directory := [SLASH], vfs_initialized := True\<rparr>)"

definition vfs_mount :: "path \<Rightarrow> u8 \<Rightarrow> u8 \<Rightarrow> 's vfs_operations \<Rightarrow> u32 \<Rightarrow> 's vfs \<Rightarrow> (int \<times> 's vfs) option" where
  "vfs_mount mp ty dev ops data v =
     (if \<not> vfs_initialized v then Some (VFS_ERROR, v)
      else if ty \<noteq> VFS_FS_RAMFS \<and> ty \<noteq> VFS_FS_FAT32 then Some (VFS_ERROR, v)
      else if list_ex (\<lambda>m. mounted m \<and> mountpoint m = mp) (mounts v) then Some (VFS_ALREADY_MOUNTED, v)
      else case find (\<lambda>i. \<not> mounted (mounts v ! i)) [0..<VFS_MAX_MOUNTS] of
             None \<Rightarrow> Some (VFS_NO_SPACE, v)
           | Some i \<Rightarrow> do {
               mp \<leftarrow> fit VFS_MAX_PATH mp;
               Some (VFS_SUCCESS, v\<lparr>mounts := (mounts v)[i := \<lparr>mountpoint = mp, fs_type = ty, device_id = dev, fs_data = data,
                                                          m_ops = Some ops, mounted = True\<rparr>]\<rparr>)
             })"

text \<open>Whether a mount point is a prefix of a path that ends at a boundary of components.\<close>

definition covers_path :: "path \<Rightarrow> path \<Rightarrow> bool" where
  "covers_path mp path \<longleftrightarrow> take (length mp) path = mp \<and>
     (length path = length mp \<or> path ! length mp = SLASH \<or> mp = [SLASH])"

definition better_mount :: "'s vfs \<Rightarrow> path \<Rightarrow> nat \<Rightarrow> nat option \<times> nat \<Rightarrow> nat option \<times> nat" where
  "better_mount v path i best =
     (let m = mounts v ! i
      in if mounted m \<and> covers_path (mountpoint m) path \<and> length (mountpoint m) > snd best then (Some i, length (mountpoint m)) else best)"

definition vfs_find_mount :: "path \<Rightarrow> 's vfs \<Rightarrow> nat option" where
  "vfs_find_mount path v =
     (if \<not> vfs_initialized v then None else fst (fold (better_mount v path) [0..<VFS_MAX_MOUNTS] (None, 0)))"

text \<open>The result is the code and, on success, the mount and the path in it.\<close>

definition vfs_resolve_path :: "path \<Rightarrow> 's vfs \<Rightarrow> (int + (nat \<times> path)) option" where
  "vfs_resolve_path path v =
     do {
       absolute \<leftarrow> vfs_normalize_path (current_working_directory v) path;
       case vfs_find_mount absolute v of
         None \<Rightarrow> Some (Inl VFS_NOT_MOUNTED)
       | Some i \<Rightarrow>
           let mp = mountpoint (mounts v ! i)
           in Some (Inr (i, if mp = [SLASH] then absolute
                            else if length mp < length absolute \<and> absolute ! length mp = SLASH then drop (length mp) absolute
                            else [SLASH]))
     }"

definition vfs_list_mounts :: "'s vfs \<Rightarrow> int" where
  "vfs_list_mounts v = (if \<not> vfs_initialized v then 0 else int (length (filter mounted (mounts v))))"

definition vfs_chdir :: "path \<Rightarrow> 's vfs \<Rightarrow> (int \<times> 's vfs) option" where
  "vfs_chdir path v =
     (if \<not> vfs_initialized v then Some (VFS_ERROR, v)
      else do {
        r \<leftarrow> vfs_resolve_path path v;
        case r of
          Inl _ \<Rightarrow> Some (VFS_NOT_FOUND, v)
        | Inr _ \<Rightarrow> do {
            absolute \<leftarrow> fit VFS_MAX_PATH (absolute_path (current_working_directory v) path);
            normalized \<leftarrow> vfs_normalize_path (current_working_directory v) absolute;
            Some (VFS_SUCCESS, v\<lparr>current_working_directory := normalized\<rparr>)
          }
      })"

definition vfs_getcwd :: "'s vfs \<Rightarrow> path" where
  "vfs_getcwd v = current_working_directory v"

subsection \<open>Files\<close>

definition vfs_open :: "path \<Rightarrow> vfs_file \<Rightarrow> 's vfs \<Rightarrow> (int \<times> vfs_file \<times> 's vfs) option" where
  "vfs_open path file v =
     (if \<not> vfs_initialized v then Some (VFS_ERROR, file, v)
      else do {
        r \<leftarrow> vfs_resolve_path path v;
        case r of
          Inl _ \<Rightarrow> Some (VFS_NOT_FOUND, file, v)
        | Inr (m, relative_path) \<Rightarrow>
            (case Option.bind (m_ops (mounts v ! m)) vop_open of
               None \<Rightarrow> Some (VFS_ERROR, file, v)
             | Some op \<Rightarrow>
                 (case find (\<lambda>i. \<not> vf_in_use (open_files v ! i)) [0..<VFS_MAX_OPEN_FILES] of
                    None \<Rightarrow> Some (VFS_NO_SPACE, file, v)
                  | Some i \<Rightarrow> do {
                      (result, handle, s) \<leftarrow> op m relative_path ((open_files v ! i)\<lparr>vf_mount := Some m\<rparr>) (fss v);
                      let v = v\<lparr>fss := s\<rparr>;
                      if result = VFS_SUCCESS
                      then Some (result, handle, v\<lparr>open_files := (open_files v)[i := handle]\<rparr>)
                      else Some (result, file, v\<lparr>open_files := (open_files v)[i := handle\<lparr>vf_in_use := False, vf_mount := None\<rparr>]\<rparr>)
                    }))
      })"

text \<open>The operation of the mount of an open file, if all pointers on the way are there.\<close>

definition file_op :: "'s vfs \<Rightarrow> vfs_file \<Rightarrow> ('s vfs_operations \<Rightarrow> 'f option) \<Rightarrow> 'f option" where
  "file_op v file f = (if \<not> vf_in_use file then None else do { m \<leftarrow> vf_mount file; ops \<leftarrow> m_ops (mounts v ! m); f ops })"

definition vfs_read :: "vfs_file \<Rightarrow> u32 \<Rightarrow> 's vfs \<Rightarrow> (int \<times> u8 list \<times> vfs_file \<times> 's vfs) option" where
  "vfs_read file sz v =
     (case file_op v file vop_read of
        None \<Rightarrow> Some (VFS_ERROR, [], file, v)
      | Some op \<Rightarrow> do { (result, bytes, file, s) \<leftarrow> op file sz (fss v); Some (result, bytes, file, v\<lparr>fss := s\<rparr>) })"

definition vfs_write :: "vfs_file \<Rightarrow> u8 list \<Rightarrow> 's vfs \<Rightarrow> (int \<times> vfs_file \<times> 's vfs) option" where
  "vfs_write file bytes v =
     (case file_op v file vop_write of
        None \<Rightarrow> Some (VFS_ERROR, file, v)
      | Some op \<Rightarrow> do { (result, file, s) \<leftarrow> op file bytes (fss v); Some (result, file, v\<lparr>fss := s\<rparr>) })"

definition vfs_seek :: "vfs_file \<Rightarrow> u32 \<Rightarrow> 's vfs \<Rightarrow> (int \<times> vfs_file \<times> 's vfs) option" where
  "vfs_seek file pos v =
     (case file_op v file vop_seek of
        None \<Rightarrow> Some (VFS_ERROR, file, v)
      | Some op \<Rightarrow> do { (result, file, s) \<leftarrow> op file pos (fss v); Some (result, file, v\<lparr>fss := s\<rparr>) })"

text \<open>Closing finds the first handle of the table with the same file and mount. The file given may be that handle itself.\<close>

definition close_handle :: "vfs_file \<Rightarrow> vfs_file list \<Rightarrow> vfs_file list" where
  "close_handle file fs =
     (case find (\<lambda>i. vf_in_use (fs ! i) \<and> fs_handle (fs ! i) = fs_handle file \<and> vf_mount (fs ! i) = vf_mount file) [0..<VFS_MAX_OPEN_FILES] of
        None \<Rightarrow> fs | Some i \<Rightarrow> fs[i := closed_file])"

definition vfs_close :: "vfs_file \<Rightarrow> 's vfs \<Rightarrow> (vfs_file \<times> 's vfs) option" where
  "vfs_close file v =
     (if \<not> vf_in_use file then Some (file, v)
      else do {
        let fs = close_handle file (open_files v);
        s \<leftarrow> (case file_op v file vop_close of None \<Rightarrow> Some (fss v) | Some op \<Rightarrow> do { (_, s) \<leftarrow> op file (fss v); Some s });
        Some (closed_file, v\<lparr>open_files := fs, fss := s\<rparr>)
      })"

text \<open>Unmounting closes the open files of the mount; the file given to \<open>vfs_close\<close> is the entry of the table.\<close>

fun close_files_of :: "nat \<Rightarrow> nat list \<Rightarrow> 's vfs \<Rightarrow> 's vfs option" where
  "close_files_of m [] v = Some v"
| "close_files_of m (j # js) v =
     (if vf_in_use (open_files v ! j) \<and> vf_mount (open_files v ! j) = Some m
      then do { (f, v) \<leftarrow> vfs_close (open_files v ! j) v; close_files_of m js (v\<lparr>open_files := (open_files v)[j := f]\<rparr>) }
      else close_files_of m js v)"

definition vfs_unmount :: "path \<Rightarrow> 's vfs \<Rightarrow> (int \<times> 's vfs) option" where
  "vfs_unmount mp v =
     (if \<not> vfs_initialized v then Some (VFS_ERROR, v)
      else case find (\<lambda>i. mounted (mounts v ! i) \<and> mountpoint (mounts v ! i) = mp) [0..<VFS_MAX_MOUNTS] of
             None \<Rightarrow> Some (VFS_NOT_FOUND, v)
           | Some i \<Rightarrow> do {
               v \<leftarrow> close_files_of i [0..<VFS_MAX_OPEN_FILES] v;
               s \<leftarrow> (case Option.bind (m_ops (mounts v ! i)) vop_unmount of
                       None \<Rightarrow> Some (fss v) | Some op \<Rightarrow> do { (_, s) \<leftarrow> op i (fss v); Some s });
               Some (VFS_SUCCESS, v\<lparr>mounts := (mounts v)[i := (mounts v ! i)\<lparr>mounted := False, m_ops := None, fs_data := 0\<rparr>], fss := s\<rparr>)
             })"

subsection \<open>Directories\<close>

text \<open>The calls that only resolve the path and pass it on.\<close>

definition path_call :: "('s vfs_operations \<Rightarrow> (nat \<Rightarrow> path \<Rightarrow> 's \<Rightarrow> (int \<times> 's) option) option) \<Rightarrow> path \<Rightarrow> 's vfs \<Rightarrow> (int \<times> 's vfs) option" where
  "path_call f path v =
     (if \<not> vfs_initialized v then Some (VFS_ERROR, v)
      else do {
        r \<leftarrow> vfs_resolve_path path v;
        case r of
          Inl _ \<Rightarrow> Some (VFS_NOT_FOUND, v)
        | Inr (m, relative_path) \<Rightarrow>
            (case Option.bind (m_ops (mounts v ! m)) f of
               None \<Rightarrow> Some (VFS_ERROR, v)
             | Some op \<Rightarrow> do { (result, s) \<leftarrow> op m relative_path (fss v); Some (result, v\<lparr>fss := s\<rparr>) })
      })"

definition vfs_mkdir :: "path \<Rightarrow> 's vfs \<Rightarrow> (int \<times> 's vfs) option" where
  "vfs_mkdir = path_call vop_mkdir"

definition vfs_rmdir :: "path \<Rightarrow> 's vfs \<Rightarrow> (int \<times> 's vfs) option" where
  "vfs_rmdir = path_call vop_rmdir"

definition vfs_create :: "path \<Rightarrow> 's vfs \<Rightarrow> (int \<times> 's vfs) option" where
  "vfs_create = path_call vop_create"

definition vfs_remove :: "path \<Rightarrow> 's vfs \<Rightarrow> (int \<times> 's vfs) option" where
  "vfs_remove = path_call vop_remove"

definition vfs_stat :: "path \<Rightarrow> 's vfs \<Rightarrow> (int \<times> vfs_dirent option \<times> 's vfs) option" where
  "vfs_stat path v =
     (if \<not> vfs_initialized v then Some (VFS_ERROR, None, v)
      else do {
        r \<leftarrow> vfs_resolve_path path v;
        case r of
          Inl _ \<Rightarrow> Some (VFS_NOT_FOUND, None, v)
        | Inr (m, relative_path) \<Rightarrow>
            (case Option.bind (m_ops (mounts v ! m)) vop_stat of
               None \<Rightarrow> Some (VFS_ERROR, None, v)
             | Some op \<Rightarrow> do { (result, info, s) \<leftarrow> op m relative_path (fss v); Some (result, info, v\<lparr>fss := s\<rparr>) })
      })"

text \<open>The mount points directly below the directory are added to its entries, as long as there is room and no entry has the same name.\<close>

definition add_mount_entry :: "path \<Rightarrow> nat \<Rightarrow> 's vfs_mount_t \<Rightarrow> vfs_dirent list \<Rightarrow> vfs_dirent list" where
  "add_mount_entry dir max_entries m entries =
     (if \<not> mounted m \<or> length entries \<ge> max_entries then entries
      else if mountpoint m = dir \<or> (length dir = 1 \<and> mountpoint m = [SLASH]) then entries
      else let remaining = drop (length dir) (mountpoint m)
           in if take (length dir) (mountpoint m) = dir \<and> SLASH \<notin> set remaining \<and> \<not> list_ex (\<lambda>e. de_name e = remaining) entries
              then entries @ [\<lparr>de_name = take (VFS_MAX_NAME - 1) remaining, de_type = VFS_TYPE_DIRECTORY, de_size = 0\<rparr>] else entries)"

definition vfs_readdir :: "path \<Rightarrow> nat \<Rightarrow> 's vfs \<Rightarrow> (int \<times> vfs_dirent list \<times> 's vfs) option" where
  "vfs_readdir path max_entries v =
     (if \<not> vfs_initialized v then Some (VFS_ERROR, [], v)
      else do {
        r \<leftarrow> vfs_resolve_path path v;
        case r of
          Inl _ \<Rightarrow> Some (VFS_NOT_FOUND, [], v)
        | Inr (m, relative_path) \<Rightarrow>
            (case Option.bind (m_ops (mounts v ! m)) vop_readdir of
               None \<Rightarrow> Some (VFS_ERROR, [], v)
             | Some op \<Rightarrow> do {
                 (count, entries, s) \<leftarrow> op m relative_path max_entries (fss v);
                 let v = v\<lparr>fss := s\<rparr>;
                 if count < 0 then Some (count, entries, v)
                 else do {
                   normalized \<leftarrow> vfs_normalize_path (current_working_directory v) path;
                   dir \<leftarrow> fit VFS_MAX_PATH (if normalized \<noteq> [] \<and> last normalized \<noteq> SLASH then normalized @ [SLASH] else normalized);
                   let entries = fold (add_mount_entry dir max_entries) (mounts v) (take (nat count) entries);
                   Some (int (length entries), entries, v)
                 }
               })
      })"


subsection \<open>Normal paths\<close>

text \<open>A normal path is the root or a sequence of names, each after a slash. The reference for the resolution of paths walks over the
  components: \<open>..\<close> takes the last name away, every other component is appended.\<close>

definition is_name :: "path \<Rightarrow> bool" where
  "is_name c \<longleftrightarrow> c \<noteq> [] \<and> SLASH \<notin> set c"

definition good_name :: "path \<Rightarrow> bool" where
  "good_name c \<longleftrightarrow> is_name c \<and> c \<noteq> [DOT] \<and> c \<noteq> [DOT, DOT] \<and> length c < 64"

definition render :: "path list \<Rightarrow> path" where
  "render cs = (if cs = [] then [SLASH] else concat (map (\<lambda>c. SLASH # c) cs))"

definition walk :: "path list \<Rightarrow> path \<Rightarrow> path list" where
  "walk cs t = (if t = [DOT, DOT] then butlast cs else cs @ [t])"

definition weight_of :: "path list \<Rightarrow> nat" where
  "weight_of cs = sum_list (map (\<lambda>c. Suc (length c)) cs)"

lemma weight_simps [simp]: "weight_of [] = 0" "weight_of (c # cs) = Suc (length c) + weight_of cs" "weight_of (cs @ ds) = weight_of cs + weight_of ds"
  by (simp_all add: weight_of_def)

lemma length_render: "length (render cs) = (if cs = [] then 1 else weight_of cs)"
  by (auto simp: render_def weight_of_def length_concat comp_def)

lemma tokens_name:
  assumes "is_name c"
  shows "path_tokens (c @ s) = (if s = [] \<or> hd s = SLASH then c # path_tokens s else path_tokens (c @ s))"
proof (cases c)
  case (Cons x xs)
  have x: "x \<noteq> SLASH" "\<forall>y\<in>set xs. y \<noteq> SLASH" using assms Cons by (auto simp: is_name_def)
  then have "takeWhile (\<lambda>y. y \<noteq> SLASH) (xs @ s) = xs" "dropWhile (\<lambda>y. y \<noteq> SLASH) (xs @ s) = s" if "s = [] \<or> hd s = SLASH"
    using that by (auto simp: takeWhile_append dropWhile_append takeWhile_eq_Nil_iff dropWhile_eq_self_iff)
  with Cons x show ?thesis by auto
qed (use assms in \<open>simp add: is_name_def\<close>)

lemma tokens_slash [simp]: "path_tokens (SLASH # s) = path_tokens s"
  by simp

lemma tokens_concat:
  assumes "\<forall>c\<in>set cs. is_name c" "s = [] \<or> hd s = SLASH"
  shows "path_tokens (concat (map (\<lambda>c. SLASH # c) cs) @ s) = cs @ path_tokens s"
  using assms(1)
proof (induction cs)
  case (Cons c cs)
  let ?r = "concat (map (\<lambda>c. SLASH # c) cs) @ s"
  have "?r = [] \<or> hd ?r = SLASH" using assms(2) by (cases cs) auto
  then show ?case using tokens_name [of c ?r] Cons by simp
qed simp

lemma tokens_render: "\<forall>c\<in>set cs. is_name c \<Longrightarrow> path_tokens (render cs) = cs"
  using tokens_concat [of cs "[]"] by (simp add: render_def)

lemma tokens_absolute:
  assumes "\<forall>c\<in>set cs. is_name c"
  shows "path_tokens (absolute_path (render cs) p) = (if p \<noteq> [] \<and> hd p = SLASH then path_tokens p else cs @ path_tokens p)"
proof (cases "cs = []")
  case False
  then have "render cs \<noteq> [SLASH]" using assms by (cases cs) (auto simp: render_def is_name_def)
  then have "absolute_path (render cs) p = (if p \<noteq> [] \<and> hd p = SLASH then p else concat (map (\<lambda>c. SLASH # c) cs) @ SLASH # p)"
    using False by (simp add: absolute_path_def render_def)
  then show ?thesis using tokens_concat [OF assms, of "SLASH # p"] by auto
qed (simp add: absolute_path_def render_def)

lemma tokens_are_names: "c \<in> set (path_tokens s) \<Longrightarrow> is_name c"
proof (induction s rule: path_tokens.induct)
  case (2 x xs)
  then show ?case by (auto simp: is_name_def split: if_splits dest: set_takeWhileD)
qed simp

lemma tokens_weight: "weight_of (path_tokens s) \<le> length s + (if s \<noteq> [] \<and> hd s = SLASH then 0 else 1)"
proof (induction s rule: path_tokens.induct)
  case (2 x xs)
  show ?case
  proof (cases "x = SLASH")
    case True
    with 2(1) show ?thesis by (auto split: if_splits)
  next
    case False
    let ?d = "dropWhile (\<lambda>x. x \<noteq> SLASH) xs" and ?t = "takeWhile (\<lambda>x. x \<noteq> SLASH) xs"
    have l: "length ?t + length ?d = length xs" by (metis length_append takeWhile_dropWhile_id)
    have "?d \<noteq> [] \<Longrightarrow> hd ?d = SLASH" using hd_dropWhile [of "\<lambda>x. x \<noteq> SLASH" xs] by blast
    then have "weight_of (path_tokens ?d) \<le> length ?d" using 2(2) [OF False] by (cases "?d = []") (simp_all del: dropWhile_eq_Nil_conv)
    with False l show ?thesis by simp
  qed
qed simp

lemma walk_weight: "weight_of (foldl walk cs ts) \<le> weight_of cs + weight_of ts"
proof (induction ts arbitrary: cs)
  case (Cons t ts)
  have "weight_of (butlast cs) \<le> weight_of cs" by (cases cs rule: rev_cases) simp_all
  then have "weight_of (walk cs t) \<le> weight_of cs + Suc (length t)" by (simp add: walk_def)
  with Cons [of "walk cs t"] show ?case by simp
qed simp

lemma walk_good:
  assumes "\<forall>c\<in>set cs. good_name c" "\<forall>t\<in>set ts. is_name t \<and> length t < 64 \<and> t \<noteq> [DOT]"
  shows "\<forall>c\<in>set (foldl walk cs ts). good_name c"
  using assms
proof (induction ts arbitrary: cs)
  case (Cons t ts)
  have "\<forall>c\<in>set (walk cs t). good_name c" using Cons.prems by (auto simp: walk_def good_name_def dest: in_set_butlastD)
  with Cons show ?case by simp
qed simp

lemma walk_length: "length (foldl walk cs ts) \<le> length cs + length ts"
proof (induction ts arbitrary: cs)
  case (Cons t ts)
  show ?case using Cons [of "walk cs t"] by (simp add: walk_def split: if_splits)
qed simp

lemma walk_good_prefix: "\<forall>c\<in>set cs. good_name c \<Longrightarrow> foldl walk ds (cs @ ts) = foldl walk (ds @ cs) ts"
  by (induction cs arbitrary: ds) (auto simp: walk_def good_name_def)


subsection \<open>The loop over the components\<close>

lemma resolve_walk:
  assumes "\<forall>t\<in>set ts. t \<noteq> [DOT] \<and> length t < 64" "length cs + length ts \<le> 32"
  shows "resolve_loop ts cs = Some (foldl walk cs ts)"
  using assms
proof (induction ts arbitrary: cs)
  case Nil
  then show ?case by (subst resolve_loop.simps) simp
next
  case (Cons t ts)
  have "length (walk cs t) + length ts \<le> 32" using Cons.prems(2) by (auto simp: walk_def)
  then have "resolve_loop ts (walk cs t) = Some (foldl walk (walk cs t) ts)" using Cons.IH [of "walk cs t"] Cons.prems(1) by simp
  moreover have "resolve_loop (t # ts) cs = resolve_loop ts (walk cs t)"
    using Cons.prems by (subst resolve_loop.simps) (simp add: walk_def VFS_MAX_NAME_def)
  ultimately show ?case by simp
qed

text \<open>A component \<open>.\<close> that is reached stops the loop from making progress.\<close>

lemma resolve_dot: "length cs < 32 \<Longrightarrow> resolve_loop ([DOT] # ts) cs = None"
proof (rule ccontr)
  have stuck: "tokens = [] \<or> hd tokens \<noteq> [DOT] \<or> length cs' \<ge> 32" if "resolve_loop tokens cs' = Some r" for tokens cs' r
    using that
  proof (induction rule: resolve_loop.raw_induct [rotated 1, consumes 1])
    case (1 loop tokens cs' r)
    then show ?case by (auto split: list.splits if_splits) (metis list.distinct(1) list.sel(1))
  qed
  assume "length cs < 32" "resolve_loop ([DOT] # ts) cs \<noteq> None"
  then obtain r where "resolve_loop ([DOT] # ts) cs = Some r" by blast
  with stuck [OF this] \<open>length cs < 32\<close> show False by simp
qed

lemma resolve_reaches_dot:
  assumes "\<forall>t\<in>set ts. t \<noteq> [DOT] \<and> length t < 64" "length cs + length ts < 32"
  shows "resolve_loop (ts @ [DOT] # us) cs = None"
  using assms
proof (induction ts arbitrary: cs)
  case Nil
  then show ?case by (simp add: resolve_dot)
next
  case (Cons t ts)
  have "length (butlast cs) + length ts < 32" using Cons.prems(2) by simp
  then show ?case using Cons by (subst resolve_loop.simps) (simp add: VFS_MAX_NAME_def)
qed

text \<open>Repeated slashes do not occur in a normal path.\<close>

lemma squeeze_name:
  "SLASH \<notin> set c \<Longrightarrow> length c \<le> n \<Longrightarrow> c \<noteq> [] \<Longrightarrow> squeeze_slashes n b (c @ s) = c @ squeeze_slashes (n - length c) False s"
proof (induction c arbitrary: n b)
  case (Cons x xs)
  then show ?case by (cases "xs = []") auto
qed simp

lemma squeeze_concat:
  assumes "\<forall>c\<in>set cs. is_name c" "weight_of cs \<le> n"
  shows "squeeze_slashes n False (concat (map (\<lambda>c. SLASH # c) cs)) = concat (map (\<lambda>c. SLASH # c) cs)"
  using assms
proof (induction cs arbitrary: n)
  case (Cons c cs)
  have "squeeze_slashes (n - 1) True (c @ concat (map (\<lambda>c. SLASH # c) cs)) = c @ squeeze_slashes (n - 1 - length c) False (concat (map (\<lambda>c. SLASH # c) cs))"
    using Cons.prems by (intro squeeze_name) (auto simp: is_name_def)
  then show ?case using Cons by simp
qed simp

lemma render_last: "\<forall>c\<in>set cs. is_name c \<Longrightarrow> cs \<noteq> [] \<Longrightarrow> last (render cs) \<noteq> SLASH"
proof -
  assume a: "\<forall>c\<in>set cs. is_name c" "cs \<noteq> []"
  then obtain ds d where cs: "cs = ds @ [d]" "is_name d" by (cases cs rule: rev_cases) auto
  then have "last (render cs) = last d" by (simp add: render_def is_name_def)
  with cs(2) show ?thesis by (metis is_name_def last_in_set)
qed

lemma normalize_loop:
  assumes "\<forall>c\<in>set cs. is_name c" "length (render cs) < 256" "p \<noteq> [DOT]" "p \<noteq> [DOT, DOT]" "vfs_resolve_dots cwd p = Some (render cs)"
  shows "vfs_normalize_path cwd p = Some (render cs)"
proof (cases "cs = []")
  case True
  then show ?thesis using assms(3-5) by (simp add: vfs_normalize_path_def render_def VFS_MAX_PATH_def)
next
  case False
  have "squeeze_slashes 255 False (render cs) = render cs"
    using squeeze_concat [OF assms(1), of 255] assms(2) False by (simp add: length_render) (simp add: render_def)
  moreover have "render cs \<noteq> []" using False by (simp add: render_def)
  ultimately show ?thesis
    using assms(3-5) render_last [OF assms(1) False] by (simp add: vfs_normalize_path_def VFS_MAX_PATH_def)
qed

lemma parent_render:
  assumes "\<forall>c\<in>set cs. is_name c"
  shows "parent_directory (render cs) = render (butlast cs)"
proof (cases cs rule: rev_cases)
  case Nil
  then show ?thesis by (simp add: parent_directory_def render_def)
next
  case (snoc ds d)
  have d: "SLASH \<notin> set d" "d \<noteq> []" using assms snoc by (auto simp: is_name_def)
  have r: "render cs = concat (map (\<lambda>c. SLASH # c) ds) @ SLASH # d" using snoc by (simp add: render_def)
  have "dropWhile (\<lambda>x. x \<noteq> SLASH) (rev (render cs)) = SLASH # rev (concat (map (\<lambda>c. SLASH # c) ds))"
    using d by (simp add: r dropWhile_append del: rev_concat)
  then have u: "rev (dropWhile (\<lambda>x. x \<noteq> SLASH) (rev (render cs))) = concat (map (\<lambda>c. SLASH # c) ds) @ [SLASH]" by simp
  have "render cs \<noteq> [SLASH]" using d r by (cases ds) auto
  then show ?thesis unfolding parent_directory_def u using snoc by (cases ds) (auto simp: render_def butlast_append)
qed

text \<open>The working directory is always a normal path, short enough for its buffer.\<close>

definition normal_path :: "path \<Rightarrow> bool" where
  "normal_path p \<longleftrightarrow> (\<exists>cs. (\<forall>c\<in>set cs. good_name c) \<and> p = render cs \<and> length p < 256)"

definition components :: "path \<Rightarrow> path \<Rightarrow> path list" where
  "components cwd p = (if p \<noteq> [] \<and> hd p = SLASH then path_tokens p else path_tokens cwd @ path_tokens p)"

lemma normal_slash: "normal_path cwd \<Longrightarrow> cwd \<noteq> [] \<and> hd cwd = SLASH"
proof -
  assume "normal_path cwd"
  then obtain cs where "cwd = render cs" by (auto simp: normal_path_def)
  then show ?thesis by (cases cs) (simp_all add: render_def)
qed

lemma absolute_slash: "normal_path cwd \<Longrightarrow> absolute_path cwd p \<noteq> [] \<and> hd (absolute_path cwd p) = SLASH"
  using normal_slash by (auto simp: absolute_path_def)

lemma components_absolute: "normal_path cwd \<Longrightarrow> path_tokens (absolute_path cwd p) = components cwd p"
  using tokens_absolute tokens_render by (auto simp: normal_path_def components_def good_name_def)

lemma resolve_dots_walk:
  assumes "normal_path cwd" "length (absolute_path cwd p) < 256" "[DOT] \<notin> set (components cwd p)"
    "\<forall>t\<in>set (components cwd p). length t < 64" "length (components cwd p) \<le> 32"
  shows "vfs_resolve_dots cwd p = Some (render (foldl walk [] (components cwd p)))" "length (render (foldl walk [] (components cwd p))) < 256"
    "\<forall>c\<in>set (foldl walk [] (components cwd p)). good_name c"
proof -
  let ?cs = "components cwd p"
  have "weight_of (foldl walk [] ?cs) \<le> length (absolute_path cwd p)"
    using walk_weight [of "[]" ?cs] tokens_weight [of "absolute_path cwd p"] absolute_slash [OF assms(1), of p] components_absolute [OF assms(1), of p] by simp
  then show l: "length (render (foldl walk [] ?cs)) < 256" using assms(2) by (simp add: length_render)
  have "resolve_loop ?cs [] = Some (foldl walk [] ?cs)" using assms(3-5) by (intro resolve_walk) auto
  then show "vfs_resolve_dots cwd p = Some (render (foldl walk [] ?cs))"
    using assms(2) l components_absolute [OF assms(1), of p] by (auto simp: vfs_resolve_dots_def fit_def VFS_MAX_PATH_def render_def)
  have "is_name t" if "t \<in> set ?cs" for t using that tokens_are_names [of t "absolute_path cwd p"] components_absolute [OF assms(1), of p] by simp
  then show "\<forall>c\<in>set (foldl walk [] ?cs). good_name c" using assms(3,4) by (intro walk_good) auto
qed

lemma resolve_loop_good:
  "resolve_loop ts cs = Some r \<Longrightarrow> (\<forall>t\<in>set ts. is_name t) \<longrightarrow> (\<forall>c\<in>set cs. good_name c) \<longrightarrow> (\<forall>c\<in>set r. good_name c)"
proof (induction rule: resolve_loop.raw_induct [rotated 1, consumes 1])
  case (1 loop ts cs r)
  show ?case
  proof (intro impI)
    assume n: "\<forall>t\<in>set ts. is_name t" and g: "\<forall>c\<in>set cs. good_name c"
    show "\<forall>c\<in>set r. good_name c"
    proof (cases ts)
      case (Cons t us)
      have b: "\<forall>c\<in>set (butlast cs). good_name c" using g by (auto dest: in_set_butlastD)
      have a: "\<forall>c\<in>set (cs @ [t]). good_name c" if "t \<noteq> [DOT]" "t \<noteq> [DOT, DOT]" "length t < 64"
        using n g that Cons by (auto simp: good_name_def)
      have u: "\<forall>t\<in>set us. is_name t" using n Cons by simp
      have e: "(if length cs \<ge> 32 then Some cs else if t = [DOT] then loop ts cs
          else if t = [DOT, DOT] then loop us (butlast cs) else if length t < 64 then loop us (cs @ [t]) else None) = Some r"
        using 1(2) unfolding Cons VFS_MAX_NAME_def by simp
      then consider "r = cs" | "loop ts cs = Some r" | "loop us (butlast cs) = Some r"
        | "t \<noteq> [DOT]" "t \<noteq> [DOT, DOT]" "length t < 64" "loop us (cs @ [t]) = Some r"
        by (metis option.distinct(1) option.inject)
      then show ?thesis
      proof cases
        case 2
        from 1(1) [OF this] n g show ?thesis by blast
      next
        case 3
        from 1(1) [OF this] u b show ?thesis by blast
      next
        case 4
        from 1(1) [OF this(4)] u a [OF 4(1-3)] show ?thesis by blast
      qed (use g in blast)
    qed (use 1(2) g in simp)
  qed
qed

text \<open>Whatever is resolved is a normal path.\<close>

lemma normalize_normal:
  assumes "normal_path cwd" "vfs_normalize_path cwd p = Some a"
  shows "normal_path a"
proof (cases "p = [DOT] \<or> p = [DOT, DOT]")
  case True
  obtain cs where cs: "cwd = render cs" "\<forall>c\<in>set cs. good_name c" "length cwd < 256" using assms(1) by (auto simp: normal_path_def)
  have n: "\<forall>c\<in>set cs. is_name c" using cs(2) by (simp add: good_name_def)
  have "weight_of (butlast cs) \<le> weight_of cs" by (cases cs rule: rev_cases) simp_all
  then have l: "length (render (butlast cs)) < 256" using cs(1,3) by (cases "cs = []") (auto simp: length_render)
  have "normal_path (render (butlast cs))" unfolding normal_path_def
    using cs(2) l by (intro exI [of _ "butlast cs"]) (auto dest: in_set_butlastD)
  moreover have "a = cwd \<or> a = render (butlast cs)"
    using True assms(2) parent_render [OF n] cs(1) by (auto simp: vfs_normalize_path_def split: if_splits)
  ultimately show ?thesis using assms(1) by auto
next
  case False
  then obtain q where q: "vfs_resolve_dots cwd p = Some q" using assms(2) by (auto simp: vfs_normalize_path_def split: bind_splits)
  then obtain cs where cs: "resolve_loop (path_tokens (absolute_path cwd p)) [] = Some cs" "q = render cs" "length q < 256"
    by (auto simp: vfs_resolve_dots_def fit_def VFS_MAX_PATH_def render_def split: bind_splits if_splits)
  have g: "\<forall>c\<in>set cs. good_name c" using resolve_loop_good [OF cs(1)] tokens_are_names by auto
  have n: "\<forall>c\<in>set cs. is_name c" using g by (simp add: good_name_def)
  have "vfs_normalize_path cwd p = Some (render cs)" using normalize_loop [OF n] cs q False by simp
  then show ?thesis using assms(2) g cs(2,3) by (auto simp: normal_path_def)
qed

text \<open>A state with one file system without operations, mounted at the root.\<close>

definition no_operations :: "unit vfs_operations" where
  "no_operations = \<lparr>vop_open = None, vop_read = None, vop_write = None, vop_seek = None, vop_close = None, vop_unmount = None, vop_readdir = None,
     vop_mkdir = None, vop_rmdir = None, vop_create = None, vop_remove = None, vop_stat = None\<rparr>"

definition bare_vfs :: "unit vfs" where
  "bare_vfs = \<lparr>mounts = [], open_files = [], current_working_directory = [], vfs_initialized = False, fss = ()\<rparr>"

definition root_vfs :: "unit vfs" where
  "root_vfs = (snd (vfs_init bare_vfs))\<lparr>mounts := \<lparr>mountpoint = [SLASH], fs_type = VFS_FS_RAMFS, device_id = 0, fs_data = 0,
     m_ops = Some no_operations, mounted = True\<rparr> # replicate 7 empty_mount\<rparr>"

lemma root_vfs_simps [simp]:
  "current_working_directory root_vfs = [SLASH]" "vfs_initialized root_vfs"
  "mounts root_vfs = \<lparr>mountpoint = [SLASH], fs_type = VFS_FS_RAMFS, device_id = 0, fs_data = 0, m_ops = Some no_operations, mounted = True\<rparr> # replicate 7 empty_mount"
  by (simp_all add: root_vfs_def vfs_init_def)

lemma normal_root: "normal_path [SLASH]"
  by (auto simp: normal_path_def render_def intro: exI [of _ "[]"])

lemma root_find_mount: "vfs_find_mount (SLASH # p) root_vfs = Some 0"
  by (simp add: vfs_find_mount_def VFS_MAX_MOUNTS_def upt_rec better_mount_def covers_path_def empty_mount_def numeral_eq_Suc)

text \<open>C22. A path without \<open>.\<close> components, with at most 32 components of at most 63 bytes that fit in the buffers, is
  normalised to the walk over its components, starting at the working directory unless it is absolute: every \<open>..\<close> takes back the component
  before it and does nothing at the root. The result is a normal path again. The path \<open>.\<close> alone gives the working directory.\<close>

theorem normalize_path_correct:
  assumes "normal_path cwd" "length (absolute_path cwd p) < 256" "[DOT] \<notin> set (components cwd p)"
    "\<forall>t\<in>set (components cwd p). length t < 64" "length (components cwd p) \<le> 32"
  shows "vfs_normalize_path cwd p = Some (render (foldl walk [] (components cwd p))) \<and>
    normal_path (render (foldl walk [] (components cwd p))) \<and> vfs_normalize_path cwd [DOT] = Some cwd"
proof -
  note r = resolve_dots_walk [OF assms]
  have n: "normal_path (render (foldl walk [] (components cwd p)))" using r(2,3) by (auto simp: normal_path_def)
  have names: "\<forall>c\<in>set (foldl walk [] (components cwd p)). is_name c" using r(3) by (simp add: good_name_def)
  have "vfs_normalize_path cwd p = Some (render (foldl walk [] (components cwd p)))"
  proof (cases "p = [DOT] \<or> p = [DOT, DOT]")
    case False
    then show ?thesis using normalize_loop [OF names r(2) _ _ r(1)] by simp
  next
    case True
    obtain cs where cs: "cwd = render cs" "\<forall>c\<in>set cs. good_name c" using assms(1) by (auto simp: normal_path_def)
    have names: "\<forall>c\<in>set cs. is_name c" using cs(2) by (simp add: good_name_def)
    have t: "path_tokens [DOT] = [[DOT]]" "path_tokens [DOT, DOT] = [[DOT, DOT]]" "SLASH \<noteq> DOT" by (simp_all add: SLASH_def DOT_def)
    have "p \<noteq> [DOT]" using assms(3) t by (auto simp: components_def)
    with True have p: "p = [DOT, DOT]" by simp
    have "foldl walk [] (components cwd p) = butlast cs"
      using walk_good_prefix [OF cs(2), of "[]" "[[DOT, DOT]]"] t tokens_render [OF names] by (simp add: p components_def cs(1) walk_def)
    then show ?thesis using parent_render [OF names] by (simp add: p vfs_normalize_path_def cs(1) DOT_def)
  qed
  with n show ?thesis by (simp add: vfs_normalize_path_def)
qed

theorem normalize_path_correct_witness:
  "vfs_normalize_path [SLASH] [SLASH, 0x61, SLASH, DOT, DOT, SLASH, 0x62] = Some [SLASH, 0x62]"
  using normalize_path_correct [where cwd = "[SLASH]" and p = "[SLASH, 0x61, SLASH, DOT, DOT, SLASH, 0x62]"]
  by (simp add: normal_root [unfolded SLASH_def] absolute_path_def components_def SLASH_def DOT_def walk_def render_def)


text \<open>C24. A path with a component \<open>.\<close> after fewer than 32 others never resolves, because the loop over the components
  does not move past it. In particular changing to the directory \<open>.\<close> never returns once the working directory is mounted.\<close>

theorem dot_component_never_returns:
  assumes "normal_path cwd" "components cwd p = ts @ [DOT] # us" "[DOT] \<notin> set ts" "\<forall>t\<in>set ts. length t < 64" "length ts < 32"
    "vfs_initialized v" "current_working_directory v = cwd" "length cwd < 254" "length (path_tokens cwd) < 32" "vfs_find_mount cwd v \<noteq> None"
  shows "vfs_resolve_dots cwd p = None \<and> vfs_chdir [DOT] v = None"
proof
  have "resolve_loop (ts @ [DOT] # us) [] = None" using assms(3-5) by (intro resolve_reaches_dot) auto
  then show "vfs_resolve_dots cwd p = None"
    using components_absolute [OF assms(1), of p] assms(2) by (simp add: vfs_resolve_dots_def fit_def)
  obtain cs where cs: "cwd = render cs" "\<forall>c\<in>set cs. good_name c" using assms(1) by (auto simp: normal_path_def)
  have names: "\<forall>c\<in>set cs. is_name c" using cs(2) by (simp add: good_name_def)
  have d: "path_tokens [DOT] = [[DOT]]" "SLASH \<noteq> DOT" by (simp_all add: SLASH_def DOT_def)
  let ?a = "absolute_path cwd [DOT]"
  have t: "path_tokens ?a = cs @ [[DOT]]" using components_absolute [OF assms(1), of "[DOT]"] tokens_render [OF names] d by (simp add: components_def cs(1))
  have a: "?a \<noteq> []" "hd ?a = SLASH" using absolute_slash [OF assms(1)] by auto
  have l: "length ?a < 256" using assms(8) by (simp add: absolute_path_def)
  have "resolve_loop (cs @ [[DOT]]) [] = None"
    using resolve_reaches_dot [of cs "[]" "[]"] cs(2) assms(9) tokens_render [OF names] cs(1) by (auto simp: good_name_def)
  moreover have "absolute_path cwd ?a = ?a" using a by (simp add: absolute_path_def [of _ ?a])
  ultimately have "vfs_resolve_dots cwd ?a = None" using t by (simp add: vfs_resolve_dots_def fit_def)
  moreover have "?a \<noteq> [DOT]" "?a \<noteq> [DOT, DOT]" using a d(2) by auto
  ultimately have "vfs_normalize_path cwd ?a = None" by (simp add: vfs_normalize_path_def)
  moreover have "\<exists>r. vfs_resolve_path [DOT] v = Some (Inr r)"
    using assms(7,10) by (auto simp: vfs_resolve_path_def vfs_normalize_path_def Let_def)
  ultimately show "vfs_chdir [DOT] v = None" using assms(6,7) l by (auto simp: vfs_chdir_def fit_def VFS_MAX_PATH_def)
qed

theorem dot_component_never_returns_witness: "vfs_chdir [DOT] root_vfs = None"
  using dot_component_never_returns [where cwd = "[SLASH]" and p = "[DOT]" and ts = "[]" and us = "[]" and v = root_vfs]
  by (simp add: normal_root [unfolded SLASH_def] root_find_mount [unfolded SLASH_def] components_def SLASH_def DOT_def)



subsection \<open>Mounts\<close>

lemma find_mount_spec:
  assumes "vfs_initialized v"
  shows "case vfs_find_mount p v of
      None \<Rightarrow> \<forall>i<8. mounted (mounts v ! i) \<and> covers_path (mountpoint (mounts v ! i)) p \<longrightarrow> mountpoint (mounts v ! i) = []
    | Some i \<Rightarrow> i < 8 \<and> mounted (mounts v ! i) \<and> covers_path (mountpoint (mounts v ! i)) p \<and> mountpoint (mounts v ! i) \<noteq> [] \<and>
        (\<forall>j<8. mounted (mounts v ! j) \<and> covers_path (mountpoint (mounts v ! j)) p \<longrightarrow> length (mountpoint (mounts v ! j)) \<le> length (mountpoint (mounts v ! i)))"
proof -
  let ?M = "\<lambda>i. mounted (mounts v ! i) \<and> covers_path (mountpoint (mounts v ! i)) p" and ?len = "\<lambda>i. length (mountpoint (mounts v ! i))"
  let ?P = "\<lambda>n r. (case r of (None, l) \<Rightarrow> l = 0 \<and> (\<forall>i<n. ?M i \<longrightarrow> ?len i = 0)
      | (Some i, l) \<Rightarrow> i < n \<and> ?M i \<and> l = ?len i \<and> 0 < l \<and> (\<forall>j<n. ?M j \<longrightarrow> ?len j \<le> l))"
  have "?P 8 (fold (better_mount v p) [0..<8] (None, 0))"
  proof (rule fold_upt_inv [where P = ?P])
    fix i r assume "i < 8" "?P i r"
    then show "?P (Suc i) (better_mount v p i r)"
      by (cases r) (auto simp: better_mount_def less_Suc_eq Let_def split: option.splits)
  qed simp
  then show ?thesis using assms
    by (cases "fold (better_mount v p) [0..<8] (None, 0)") (auto simp: vfs_find_mount_def VFS_MAX_MOUNTS_def split: option.splits)
qed

text \<open>C23. A path is served by the mounted file system whose mount point is the longest prefix of the normalised path that
  ends at a component boundary, and the path within it is the rest, starting with a slash; without any such mount the result says so.\<close>

theorem path_goes_to_longest_mount:
  assumes "vfs_initialized v" "normal_path (current_working_directory v)" "vfs_normalize_path (current_working_directory v) p = Some a"
    "vfs_resolve_path p v = Some r"
  shows "case r of
      Inl code \<Rightarrow> code = VFS_NOT_MOUNTED \<and>
        (\<forall>i<8. mounted (mounts v ! i) \<and> mountpoint (mounts v ! i) \<noteq> [] \<longrightarrow> \<not> covers_path (mountpoint (mounts v ! i)) a)
    | Inr (i, rel) \<Rightarrow> i < 8 \<and> mounted (mounts v ! i) \<and> rel \<noteq> [] \<and> hd rel = SLASH \<and>
        (let mp = mountpoint (mounts v ! i) in a = (if mp = [SLASH] then rel else if a = mp then mp else mp @ rel)) \<and>
        (\<forall>j<8. mounted (mounts v ! j) \<and> covers_path (mountpoint (mounts v ! j)) a \<longrightarrow>
           length (mountpoint (mounts v ! j)) \<le> length (mountpoint (mounts v ! i)))"
proof -
  have abs: "a \<noteq> []" "hd a = SLASH"
    using normal_slash [OF normalize_normal [OF assms(2,3)]] by simp_all
  note f = find_mount_spec [OF assms(1), of a]
  show ?thesis
  proof (cases "vfs_find_mount a v")
    case None
    then have "r = Inl VFS_NOT_MOUNTED" using assms(3,4) by (simp add: vfs_resolve_path_def)
    then show ?thesis using f None by auto
  next
    case (Some i)
    define mp where "mp = mountpoint (mounts v ! i)"
    have c: "covers_path mp a" "mp \<noteq> []" using f Some by (simp_all add: mp_def)
    let ?rel = "if mp = [SLASH] then a else if length mp < length a \<and> a ! length mp = SLASH then drop (length mp) a else [SLASH]"
    have "vfs_resolve_path p v = Some (Inr (i, ?rel))" by (simp add: vfs_resolve_path_def assms(3) Some mp_def Let_def)
    then have r: "r = Inr (i, ?rel)" using assms(4) by simp
    have rel: "?rel \<noteq> []" "hd ?rel = SLASH" using abs by (auto simp: hd_drop_conv_nth)
    have A: "a = (if mp = [SLASH] then ?rel else if a = mp then mp else mp @ ?rel)"
    proof (cases "mp = [SLASH] \<or> a = mp")
      case False
      have t: "take (length mp) a = mp" using c(1) by (simp add: covers_path_def)
      with False have "length mp < length a" by (metis not_less take_all)
      moreover from this have "a ! length mp = SLASH" using c(1) False by (simp add: covers_path_def)
      ultimately have "?rel = drop (length mp) a" using False by simp
      moreover have "a = mp @ drop (length mp) a" using append_take_drop_id [of "length mp" a] t by simp
      ultimately show ?thesis using False by simp
    qed auto
    have i: "i < 8" "mounted (mounts v ! i)" "\<forall>j<8. mounted (mounts v ! j) \<and> covers_path (mountpoint (mounts v ! j)) a \<longrightarrow>
        length (mountpoint (mounts v ! j)) \<le> length mp" using f Some by (simp_all add: mp_def)
    show ?thesis unfolding r sum.case prod.case Let_def mp_def [symmetric] by (intro conjI i rel A)
  qed
qed

theorem path_goes_to_longest_mount_witness:
  "vfs_resolve_path [SLASH, 0x61] root_vfs = Some (Inr (0, [SLASH, 0x61])) \<and> mounted (mounts root_vfs ! 0)"
proof -
  have n: "vfs_normalize_path [SLASH] [SLASH, 0x61] = Some [SLASH, 0x61]"
    by (simp add: vfs_normalize_path_def vfs_resolve_dots_def fit_def absolute_path_def resolve_loop.simps SLASH_def DOT_def VFS_MAX_PATH_def VFS_MAX_NAME_def)
  have r: "vfs_resolve_path [SLASH, 0x61] root_vfs = Some (Inr (0, [SLASH, 0x61]))"
    by (simp add: vfs_resolve_path_def n root_find_mount)
  from path_goes_to_longest_mount [OF _ _ _ r, of "[SLASH, 0x61]"] r show ?thesis by (simp add: normal_root n)
qed



subsection \<open>Invariant\<close>

text \<open>What a file system promises about opening: a handle that was opened is in use and belongs to the mount it was opened for.\<close>

definition lawful :: "'s vfs_operations \<Rightarrow> bool" where
  "lawful ops \<longleftrightarrow> (\<forall>op m p f s f' s'. vop_open ops = Some op \<and> op m p f s = Some (VFS_SUCCESS, f', s') \<longrightarrow> vf_in_use f' \<and> vf_mount f' = vf_mount f)"

definition vfs_ok :: "'s vfs \<Rightarrow> bool" where
  "vfs_ok v \<longleftrightarrow> length (mounts v) = 8 \<and> length (open_files v) = 64 \<and> normal_path (current_working_directory v) \<and>
     (\<forall>i<8. \<forall>j<8. mounted (mounts v ! i) \<and> mounted (mounts v ! j) \<and> mountpoint (mounts v ! i) = mountpoint (mounts v ! j) \<longrightarrow> i = j) \<and>
     (\<forall>i<8. mounted (mounts v ! i) \<longrightarrow> (\<exists>ops. m_ops (mounts v ! i) = Some ops \<and> lawful ops)) \<and>
     (\<forall>k<64. vf_in_use (open_files v ! k) \<longrightarrow> (\<exists>m<8. vf_mount (open_files v ! k) = Some m \<and> mounted (mounts v ! m)))"

lemma vfs_okD:
  assumes "vfs_ok v"
  shows "length (mounts v) = 8" "length (open_files v) = 64" "normal_path (current_working_directory v)"
    "\<And>i j. i < 8 \<Longrightarrow> j < 8 \<Longrightarrow> mounted (mounts v ! i) \<Longrightarrow> mounted (mounts v ! j) \<Longrightarrow> mountpoint (mounts v ! i) = mountpoint (mounts v ! j) \<Longrightarrow> i = j"
    "\<And>i. i < 8 \<Longrightarrow> mounted (mounts v ! i) \<Longrightarrow> \<exists>ops. m_ops (mounts v ! i) = Some ops \<and> lawful ops"
    "\<And>k. k < 64 \<Longrightarrow> vf_in_use (open_files v ! k) \<Longrightarrow> \<exists>m<8. vf_mount (open_files v ! k) = Some m \<and> mounted (mounts v ! m)"
  using assms unfolding vfs_ok_def by blast+

lemma vfs_ok_fss [simp]: "vfs_ok (v\<lparr>fss := s\<rparr>) = vfs_ok v"
  by (simp add: vfs_ok_def)

lemma find_upt_SomeD: "find P [0..<n] = Some i \<Longrightarrow> i < n \<and> P i"
  by (auto simp: find_Some_iff)

lemma init_vfs_ok: "vfs_ok (snd (vfs_init v))"
proof -
  have "normal_path [SLASH]" unfolding normal_path_def by (intro exI [of _ "[]"]) (simp add: render_def)
  then show ?thesis by (simp add: vfs_init_def vfs_ok_def VFS_MAX_MOUNTS_def VFS_MAX_OPEN_FILES_def empty_mount_def closed_file_def)
qed

lemma mount_ok:
  assumes "vfs_ok v" "lawful ops" "vfs_mount mp ty dev ops data v = Some (r, v')"
  shows "vfs_ok v'"
proof (cases "v' = v")
  case False
  note o = vfs_okD [OF assms(1)]
  obtain i where i: "find (\<lambda>i. \<not> mounted (mounts v ! i)) [0..<8] = Some i" "\<not> list_ex (\<lambda>m. mounted m \<and> mountpoint m = mp) (mounts v)"
      "v' = v\<lparr>mounts := (mounts v)[i := \<lparr>mountpoint = mp, fs_type = ty, device_id = dev, fs_data = data, m_ops = Some ops, mounted = True\<rparr>]\<rparr>"
    using assms(3) False by (auto simp: vfs_mount_def fit_def VFS_MAX_MOUNTS_def split: if_splits option.splits)
  have f: "i < 8" "\<not> mounted (mounts v ! i)" using find_upt_SomeD [OF i(1)] by auto
  have n: "mountpoint (mounts v ! j) \<noteq> mp" if "j < 8" "mounted (mounts v ! j)" for j
    using i(2) that o(1) by (auto simp: list_ex_length)
  have at: "mounts v' ! j = (if j = i then \<lparr>mountpoint = mp, fs_type = ty, device_id = dev, fs_data = data, m_ops = Some ops, mounted = True\<rparr> else mounts v ! j)" for j
    using f(1) o(1) by (simp add: i(3) nth_list_update)
  have l: "\<exists>m<8. vf_mount (open_files v ! k) = Some m \<and> mounted (mounts v' ! m)" if k: "k < 64" "vf_in_use (open_files v ! k)" for k
  proof -
    obtain m where "m < 8" "vf_mount (open_files v ! k) = Some m" "mounted (mounts v ! m)" using o(6) [OF k] by blast
    then show ?thesis by (intro exI [of _ m]) (simp add: at)
  qed
  have u: "open_files v' = open_files v" "current_working_directory v' = current_working_directory v" "length (mounts v') = 8" using o(1) by (simp_all add: i(3))
  have d: "i' = j'" if "i' < 8" "j' < 8" "mounted (mounts v' ! i')" "mounted (mounts v' ! j')" "mountpoint (mounts v' ! i') = mountpoint (mounts v' ! j')" for i' j'
    using that o(4) [of i' j'] n [of i'] n [of j'] by (auto simp: at split: if_splits)
  have p: "\<exists>ops. m_ops (mounts v' ! j) = Some ops \<and> lawful ops" if "j < 8" "mounted (mounts v' ! j)" for j
    using that o(5) [of j] assms(2) by (auto simp: at split: if_splits)
  show ?thesis unfolding vfs_ok_def u using o(2,3) d p l by blast
qed (use assms in simp)

lemma chdir_ok: "vfs_ok v \<Longrightarrow> vfs_chdir p v = Some (r, v') \<Longrightarrow> vfs_ok v'"
  using normalize_normal [OF vfs_okD(3) [of v]]
  by (auto simp: vfs_chdir_def fit_def vfs_ok_def split: if_splits bind_splits sum.splits)

lemma close_handle_nth:
  assumes "length fs = 64"
  shows "length (close_handle f fs) = 64" "close_handle f fs ! k = fs ! k \<or> close_handle f fs ! k = closed_file"
proof -
  show "length (close_handle f fs) = 64" using assms by (simp add: close_handle_def split: option.split)
  show "close_handle f fs ! k = fs ! k \<or> close_handle f fs ! k = closed_file"
    using assms by (auto simp: close_handle_def nth_list_update VFS_MAX_OPEN_FILES_def split: option.split dest!: find_upt_SomeD)
qed

text \<open>Fewer handles in use, and everything else as it was.\<close>

definition fewer_open :: "'s vfs \<Rightarrow> 's vfs \<Rightarrow> bool" where
  "fewer_open v v' \<longleftrightarrow> mounts v' = mounts v \<and> current_working_directory v' = current_working_directory v \<and> vfs_initialized v' = vfs_initialized v \<and>
     length (open_files v') = length (open_files v) \<and> (\<forall>k. vf_in_use (open_files v' ! k) \<longrightarrow> open_files v' ! k = open_files v ! k)"

lemma fewer_refl [simp]: "fewer_open v v" and fewer_trans: "fewer_open v v' \<Longrightarrow> fewer_open v' v'' \<Longrightarrow> fewer_open v v''"
  by (auto simp: fewer_open_def)

lemma fewer_ok: "vfs_ok v \<Longrightarrow> fewer_open v v' \<Longrightarrow> vfs_ok v'"
  by (simp add: vfs_ok_def fewer_open_def) metis

lemma close_fewer:
  assumes "length (open_files v) = 64" "vfs_close f v = Some (f', v')"
  shows "fewer_open v v'" "\<not> vf_in_use f'"
proof -
  show "fewer_open v v'"
  proof (cases "vf_in_use f")
    case True
    then have "open_files v' = close_handle f (open_files v)" "mounts v' = mounts v" "current_working_directory v' = current_working_directory v"
        "vfs_initialized v' = vfs_initialized v"
      using assms(2) by (auto simp: vfs_close_def Let_def split: bind_splits)
    moreover have "close_handle f (open_files v) ! k = open_files v ! k" if "vf_in_use (close_handle f (open_files v) ! k)" for k
      using close_handle_nth(2) [OF assms(1), of f k] that by (auto simp: closed_file_def)
    ultimately show ?thesis using close_handle_nth(1) [OF assms(1), of f] assms(1) by (simp add: fewer_open_def)
  qed (use assms(2) in \<open>simp add: vfs_close_def\<close>)
  show "\<not> vf_in_use f'" using assms(2) by (auto simp: vfs_close_def closed_file_def Let_def split: if_splits bind_splits)
qed

lemma close_files_fewer:
  assumes "close_files_of m js v = Some v'" "length (open_files v) = 64" "set js \<subseteq> {..<64}"
  shows "fewer_open v v'" "\<forall>j\<in>set js. vf_in_use (open_files v' ! j) \<longrightarrow> vf_mount (open_files v' ! j) \<noteq> Some m"
proof -
  have "fewer_open v v' \<and> (\<forall>j\<in>set js. vf_in_use (open_files v' ! j) \<longrightarrow> vf_mount (open_files v' ! j) \<noteq> Some m)"
    using assms
  proof (induction js arbitrary: v)
    case (Cons j js)
    show ?case
    proof (cases "vf_in_use (open_files v ! j) \<and> vf_mount (open_files v ! j) = Some m")
      case True
      then obtain f u where f: "vfs_close (open_files v ! j) v = Some (f, u)" "close_files_of m js (u\<lparr>open_files := (open_files u)[j := f]\<rparr>) = Some v'"
        using Cons.prems(1) by (auto split: bind_splits)
      let ?w = "u\<lparr>open_files := (open_files u)[j := f]\<rparr>"
      note c = close_fewer [OF Cons.prems(2) f(1)]
      have lu: "length (open_files u) = 64" using c(1) Cons.prems(2) by (simp add: fewer_open_def)
      have w: "fewer_open u ?w" "\<not> vf_in_use (open_files ?w ! j)" using c(2) lu Cons.prems(3) by (auto simp: fewer_open_def nth_list_update)
      have i: "fewer_open ?w v' \<and> (\<forall>j\<in>set js. vf_in_use (open_files v' ! j) \<longrightarrow> vf_mount (open_files v' ! j) \<noteq> Some m)"
        using Cons.IH [OF f(2)] lu Cons.prems(3) by simp
      then have "\<not> vf_in_use (open_files v' ! j)" using w(2) by (auto simp: fewer_open_def)
      with i show ?thesis using fewer_trans [OF c(1) fewer_trans [OF w(1)]] by auto
    next
      case False
      then have i: "fewer_open v v' \<and> (\<forall>j\<in>set js. vf_in_use (open_files v' ! j) \<longrightarrow> vf_mount (open_files v' ! j) \<noteq> Some m)" using Cons by auto
      then have "vf_in_use (open_files v' ! j) \<Longrightarrow> open_files v' ! j = open_files v ! j" by (simp add: fewer_open_def)
      with i False show ?thesis by auto
    qed
  qed simp
  then show "fewer_open v v'" "\<forall>j\<in>set js. vf_in_use (open_files v' ! j) \<longrightarrow> vf_mount (open_files v' ! j) \<noteq> Some m" by simp_all
qed

lemma unmount_ok:
  assumes "vfs_ok v" "vfs_unmount mp v = Some (r, v')"
  shows "vfs_ok v'"
proof (cases "v' = v")
  case False
  obtain i u where u: "find (\<lambda>i. mounted (mounts v ! i) \<and> mountpoint (mounts v ! i) = mp) [0..<8] = Some i" "close_files_of i [0..<64] v = Some u"
      "mounts v' = (mounts u)[i := (mounts u ! i)\<lparr>mounted := False, m_ops := None, fs_data := 0\<rparr>]"
      "open_files v' = open_files u" "current_working_directory v' = current_working_directory u"
    using assms(2) False by (auto simp: vfs_unmount_def VFS_MAX_MOUNTS_def VFS_MAX_OPEN_FILES_def split: if_splits option.splits bind_splits)
  have i8: "i < 8" using find_upt_SomeD [OF u(1)] by simp
  have "set [0..<64] \<subseteq> {..<64 :: nat}" by auto
  note c = close_files_fewer [OF u(2) vfs_okD(2) [OF assms(1)] this]
  have ok: "vfs_ok u" by (rule fewer_ok [OF assms(1) c(1)])
  note o = vfs_okD [OF ok]
  have at: "mounts v' ! j = (if j = i then (mounts u ! i)\<lparr>mounted := False, m_ops := None, fs_data := 0\<rparr> else mounts u ! j)" for j
    using i8 o(1) by (simp add: u(3) nth_list_update)
  have l: "\<exists>m<8. vf_mount (open_files u ! k) = Some m \<and> mounted (mounts v' ! m)" if k: "k < 64" "vf_in_use (open_files u ! k)" for k
  proof -
    obtain m where m: "m < 8" "vf_mount (open_files u ! k) = Some m" "mounted (mounts u ! m)" using o(6) [OF k] by blast
    moreover have "m \<noteq> i" using c(2) k m(2) by auto
    ultimately show ?thesis by (intro exI [of _ m]) (simp add: at)
  qed
  have e: "open_files v' = open_files u" "current_working_directory v' = current_working_directory u" "length (mounts v') = 8" using o(1) u(4,5) by (simp_all add: u(3))
  have d: "i' = j'" if "i' < 8" "j' < 8" "mounted (mounts v' ! i')" "mounted (mounts v' ! j')" "mountpoint (mounts v' ! i') = mountpoint (mounts v' ! j')" for i' j'
    using that o(4) [of i' j'] by (auto simp: at split: if_splits)
  have p: "\<exists>ops. m_ops (mounts v' ! j) = Some ops \<and> lawful ops" if "j < 8" "mounted (mounts v' ! j)" for j
    using that o(5) [of j] by (auto simp: at split: if_splits)
  show ?thesis unfolding vfs_ok_def e using o(2,3) d p l by blast
qed (use assms in simp)

lemma resolve_mounted:
  assumes "vfs_initialized v" "vfs_resolve_path p v = Some (Inr (m, rel))"
  shows "m < 8 \<and> mounted (mounts v ! m)"
proof -
  obtain a where "vfs_find_mount a v = Some m"
    using assms(2) by (auto simp: vfs_resolve_path_def Let_def split: bind_splits option.splits)
  with find_mount_spec [OF assms(1), of a] show ?thesis by simp
qed

lemma put_handle_ok:
  assumes "vfs_ok v" "vf_in_use h \<longrightarrow> (\<exists>m<8. vf_mount h = Some m \<and> mounted (mounts v ! m))"
  shows "vfs_ok (v\<lparr>fss := s, open_files := (open_files v)[i := h]\<rparr>)"
proof -
  note o = vfs_okD [OF assms(1)]
  have "\<forall>k<64. vf_in_use ((open_files v)[i := h] ! k) \<longrightarrow> (\<exists>m<8. vf_mount ((open_files v)[i := h] ! k) = Some m \<and> mounted (mounts v ! m))"
  proof (intro allI impI)
    fix k assume "k < 64" "vf_in_use ((open_files v)[i := h] ! k)"
    then show "\<exists>m<8. vf_mount ((open_files v)[i := h] ! k) = Some m \<and> mounted (mounts v ! m)"
      using assms(2) o(2) o(6) [of k] by (cases "k = i") simp_all
  qed
  then show ?thesis using assms(1) by (simp add: vfs_ok_def)
qed

lemma open_ok:
  assumes "vfs_ok v" "vfs_open p f v = Some (r, f', v')"
  shows "vfs_ok v'"
proof (cases "vfs_initialized v")
  case True
  obtain q where q: "vfs_resolve_path p v = Some q" using assms(2) True by (auto simp: vfs_open_def split: bind_splits)
  show ?thesis
  proof (cases q)
    case (Inr x)
    obtain m rel where x: "x = (m, rel)" by fastforce
    have m: "m < 8" "mounted (mounts v ! m)" using resolve_mounted [OF True] q Inr x by auto
    then obtain ops where ops: "m_ops (mounts v ! m) = Some ops" "lawful ops" using vfs_okD(5) [OF assms(1)] by blast
    show ?thesis
    proof (cases "vop_open ops")
      case None
      then show ?thesis using assms True q Inr x ops by (simp add: vfs_open_def)
    next
      case (Some op)
      show ?thesis
      proof (cases "find (\<lambda>i. \<not> vf_in_use (open_files v ! i)) [0..<VFS_MAX_OPEN_FILES]")
        case None
        then show ?thesis using assms True q Inr x ops Some by (simp add: vfs_open_def)
      next
        case i: (Some i)
        obtain c h s where h: "op m rel ((open_files v ! i)\<lparr>vf_mount := Some m\<rparr>) (fss v) = Some (c, h, s)"
          using assms(2) True q Inr x ops Some i by (auto simp: vfs_open_def split: bind_splits)
        have "vf_mount h = vf_mount ((open_files v ! i)\<lparr>vf_mount := Some m\<rparr>)" if "c = VFS_SUCCESS"
          using ops(2) Some h that unfolding lawful_def by blast
        then have "vfs_ok (v\<lparr>fss := s, open_files := (open_files v)[i := h]\<rparr>)" if "c = VFS_SUCCESS" using that m by (intro put_handle_ok [OF assms(1)]) auto
        moreover have "vfs_ok (v\<lparr>fss := s, open_files := (open_files v)[i := h\<lparr>vf_in_use := False, vf_mount := None\<rparr>]\<rparr>)"
          by (rule put_handle_ok [OF assms(1)]) simp
        ultimately show ?thesis using assms(2) True q Inr x ops Some i h by (auto simp: vfs_open_def Let_def split: if_splits)
      qed
    qed
  qed (use assms True q in \<open>simp add: vfs_open_def\<close>)
qed (use assms in \<open>simp add: vfs_open_def\<close>)

text \<open>The calls of the virtual file system, in any order.\<close>

inductive vfs_step :: "'s vfs \<Rightarrow> 's vfs \<Rightarrow> bool" where
  mount: "lawful ops \<Longrightarrow> vfs_mount mp ty dev ops data v = Some (r, v') \<Longrightarrow> vfs_step v v'"
| unmount: "vfs_unmount mp v = Some (r, v') \<Longrightarrow> vfs_step v v'"
| chdir: "vfs_chdir p v = Some (r, v') \<Longrightarrow> vfs_step v v'"
| openf: "vfs_open p f v = Some (r, f', v') \<Longrightarrow> vfs_step v v'"
| readf: "vfs_read f n v = Some (r, bs, f', v') \<Longrightarrow> vfs_step v v'"
| writef: "vfs_write f bs v = Some (r, f', v') \<Longrightarrow> vfs_step v v'"
| seekf: "vfs_seek f n v = Some (r, f', v') \<Longrightarrow> vfs_step v v'"
| closef: "vfs_close f v = Some (f', v') \<Longrightarrow> vfs_step v v'"
| readdir: "vfs_readdir p n v = Some (r, es, v') \<Longrightarrow> vfs_step v v'"
| mkdir: "vfs_mkdir p v = Some (r, v') \<Longrightarrow> vfs_step v v'"
| rmdir: "vfs_rmdir p v = Some (r, v') \<Longrightarrow> vfs_step v v'"
| create: "vfs_create p v = Some (r, v') \<Longrightarrow> vfs_step v v'"
| remove: "vfs_remove p v = Some (r, v') \<Longrightarrow> vfs_step v v'"
| stat: "vfs_stat p v = Some (r, d, v') \<Longrightarrow> vfs_step v v'"

text \<open>Most calls only change the state of the file systems.\<close>

definition same_tables :: "'s vfs \<Rightarrow> 's vfs \<Rightarrow> bool" where
  "same_tables v v' \<longleftrightarrow> mounts v' = mounts v \<and> open_files v' = open_files v \<and> current_working_directory v' = current_working_directory v"

lemma same_tables_ok: "same_tables v v' \<Longrightarrow> vfs_ok v \<Longrightarrow> vfs_ok v'"
  by (simp add: same_tables_def vfs_ok_def)

lemma fss_only:
  "vfs_read f n v = Some (r, bs, f', v') \<Longrightarrow> same_tables v v'" "vfs_write f bs v = Some (r, f', v') \<Longrightarrow> same_tables v v'"
  "vfs_seek f n v = Some (r, f', v') \<Longrightarrow> same_tables v v'" "path_call op p v = Some (r, v') \<Longrightarrow> same_tables v v'"
  "vfs_stat p v = Some (r, d, v') \<Longrightarrow> same_tables v v'" "vfs_readdir p k v = Some (r, es, v') \<Longrightarrow> same_tables v v'"
proof -
  show "vfs_read f n v = Some (r, bs, f', v') \<Longrightarrow> same_tables v v'" "vfs_write f bs v = Some (r, f', v') \<Longrightarrow> same_tables v v'"
    "vfs_seek f n v = Some (r, f', v') \<Longrightarrow> same_tables v v'"
    by (auto simp: vfs_read_def vfs_write_def vfs_seek_def same_tables_def split: option.splits bind_splits)
  show "path_call op p v = Some (r, v') \<Longrightarrow> same_tables v v'" "vfs_stat p v = Some (r, d, v') \<Longrightarrow> same_tables v v'"
    by (auto simp: path_call_def vfs_stat_def same_tables_def split: if_splits option.splits bind_splits sum.splits)
  show "vfs_readdir p k v = Some (r, es, v') \<Longrightarrow> same_tables v v'"
    by (auto simp: vfs_readdir_def same_tables_def Let_def split: if_splits option.splits bind_splits sum.splits)
qed

lemma vfs_step_ok: "vfs_step v v' \<Longrightarrow> vfs_ok v \<Longrightarrow> vfs_ok v'"
proof (induction rule: vfs_step.induct)
  case (closef f v f' v')
  then show ?case using close_fewer(1) [of v f f' v'] fewer_ok vfs_okD(2) by metis
qed (auto simp: vfs_mkdir_def vfs_rmdir_def vfs_create_def vfs_remove_def dest: mount_ok unmount_ok chdir_ok open_ok fss_only intro: same_tables_ok)

text \<open>C21. From the state that \<open>vfs_init\<close> sets up, whatever calls follow (the file systems that are mounted being \<open>lawful\<close>: their open fills in the handle that it is given): no two file systems are mounted at the same place, the
  working directory is a normal path, and every open handle belongs to a file system that is mounted.\<close>

theorem vfs_invariant:
  assumes "vfs_step\<^sup>*\<^sup>* (snd (vfs_init v0)) v"
  shows "normal_path (current_working_directory v) \<and>
    (\<forall>i<8. \<forall>j<8. mounted (mounts v ! i) \<and> mounted (mounts v ! j) \<and> mountpoint (mounts v ! i) = mountpoint (mounts v ! j) \<longrightarrow> i = j) \<and>
    (\<forall>k<64. vf_in_use (open_files v ! k) \<longrightarrow> (\<exists>m<8. vf_mount (open_files v ! k) = Some m \<and> mounted (mounts v ! m)))"
proof -
  have "vfs_ok v" using assms by (induction rule: rtranclp_induct) (auto simp: init_vfs_ok intro: vfs_step_ok)
  from vfs_okD [OF this] show ?thesis by blast
qed

theorem vfs_invariant_witness:
  "\<exists>v :: unit vfs. vfs_step (snd (vfs_init bare_vfs)) v \<and> mounted (mounts v ! 0) \<and> normal_path (current_working_directory v)"
proof -
  have l: "lawful no_operations" by (simp add: lawful_def no_operations_def)
  have m: "vfs_mount [SLASH] VFS_FS_RAMFS 0 no_operations 0 (snd (vfs_init bare_vfs)) = Some (VFS_SUCCESS, root_vfs)"
    by (simp add: vfs_mount_def vfs_init_def root_vfs_def VFS_MAX_MOUNTS_def VFS_MAX_PATH_def upt_rec empty_mount_def fit_def VFS_FS_RAMFS_def numeral_eq_Suc)
  have s: "vfs_step (snd (vfs_init bare_vfs)) root_vfs" by (rule vfs_step.mount [OF l m])
  then have "vfs_step\<^sup>*\<^sup>* (snd (vfs_init bare_vfs)) root_vfs" by blast
  from vfs_invariant [OF this] s show ?thesis by (intro exI [of _ root_vfs]) simp
qed


end
