(* ===== verification/Ramfs.thy ===== *)
theory Ramfs
  imports Heap Vfs
begin

text \<open>
  The file system in memory, \<^verbatim>\<open>src/kernel/ramfs.cpp\<close>. Nodes, arrays of children and file contents are blocks of the kernel heap. The
  structures \<open>FSNode\<close> and the arrays of children are kept in maps from the address of their block, so that a pointer is followed by a lookup and a
  dangling pointer or \<open>NULL\<close> has no entry; the contents of a file are bytes of the heap's memory, read and written at \<open>data + offset\<close> with 32-bit
  wrap-around. Blocks come from \<open>kmalloc\<close>, \<open>krealloc\<close> and \<open>kfree\<close> of the theory \<open>Heap\<close>.

  \<open>None\<close> is a call that does not come back with a defined result: it follows a pointer to nothing, writes past one of its local buffers, or loops
  for ever. Buffers of the caller are lists of bytes outside the heap. A byte of a file that was never written has the value that the memory had;
  since structures are not stored as bytes here, nothing is claimed about such bytes.
\<close>

subsection \<open>Data\<close>

definition MAX_OPEN_FILES :: nat where "MAX_OPEN_FILES = 64"
definition MAX_CHILDREN :: nat where "MAX_CHILDREN = 32"

datatype FSNodeType = FS_FILE | FS_DIRECTORY

record FSNode =
  fn_name :: path
  fn_type :: FSNodeType
  fn_size :: u32
  fn_data :: addr
  fn_parent :: addr
  fn_children :: addr
  child_count :: nat

record FileDescriptor =
  fd_node :: addr
  fd_offset :: u32
  fd_used :: bool

record ramfs =
  rf_heap :: heap
  nodes :: "addr \<rightharpoonup> FSNode"
  arrays :: "addr \<rightharpoonup> addr list"
  fs_root :: addr
  fd_table :: "FileDescriptor list"

text \<open>Writing to a field of a node, and bytes at an address.\<close>

definition upd_node :: "addr \<Rightarrow> (FSNode \<Rightarrow> FSNode) \<Rightarrow> ramfs \<Rightarrow> ramfs option" where
  "upd_node a f s = do { n \<leftarrow> nodes s a; Some (s\<lparr>nodes := (nodes s)(a \<mapsto> f n)\<rparr>) }"

definition load :: "mem \<Rightarrow> addr \<Rightarrow> nat \<Rightarrow> u8 list" where
  "load m a n = map (\<lambda>i. m (a + of_nat i)) [0..<n]"

definition store :: "mem \<Rightarrow> addr \<Rightarrow> u8 list \<Rightarrow> mem" where
  "store m a bs = fold (\<lambda>i m. m(a + of_nat i := bs ! i)) [0..<length bs] m"

subsection \<open>Nodes\<close>

definition fs_create_node :: "path \<Rightarrow> FSNodeType \<Rightarrow> ramfs \<Rightarrow> (addr \<times> ramfs) option" where
  "fs_create_node name ty s =
     do {
       (node, h) \<leftarrow> kmalloc (rf_heap s) 88;
       if node = 0 then Some (0, s\<lparr>rf_heap := h\<rparr>)
       else
         let n = \<lparr>fn_name = take (VFS_MAX_NAME - 1) name, fn_type = ty, fn_size = 0, fn_data = 0, fn_parent = 0, fn_children = 0, child_count = 0\<rparr>
         in if ty = FS_DIRECTORY
            then do {
              (cs, h) \<leftarrow> kmalloc h 128;
              Some (node, s\<lparr>rf_heap := h, nodes := (nodes s)(node \<mapsto> n\<lparr>fn_children := cs\<rparr>),
                            arrays := (if cs \<noteq> 0 then (arrays s)(cs \<mapsto> replicate MAX_CHILDREN 0) else arrays s)\<rparr>)
            }
            else Some (node, s\<lparr>rf_heap := h, nodes := (nodes s)(node \<mapsto> n)\<rparr>)
     }"

definition fs_add_child :: "addr \<Rightarrow> addr \<Rightarrow> ramfs \<Rightarrow> ramfs option" where
  "fs_add_child parent child s =
     (if parent = 0 then Some s
      else do {
        p \<leftarrow> nodes s parent;
        if fn_type p \<noteq> FS_DIRECTORY \<or> child_count p \<ge> MAX_CHILDREN then Some s
        else do {
          arr \<leftarrow> arrays s (fn_children p);
          let s = s\<lparr>arrays := (arrays s)(fn_children p \<mapsto> arr[child_count p := child]), nodes := (nodes s)(parent \<mapsto> p\<lparr>child_count := child_count p + 1\<rparr>)\<rparr>;
          upd_node child (\<lambda>n. n\<lparr>fn_parent := parent\<rparr>) s
        }
      })"

text \<open>The children of a directory: the first \<open>child_count\<close> entries of its array.\<close>

definition children_of :: "ramfs \<Rightarrow> FSNode \<Rightarrow> addr list option" where
  "children_of s n =
     (if child_count n = 0 then Some []
      else do { arr \<leftarrow> arrays s (fn_children n); if child_count n \<le> length arr then Some (take (child_count n) arr) else None })"

text \<open>\<open>Inl (parent, child)\<close> is a call of \<open>fs_remove_child\<close>; \<open>Inr (child, j)\<close> is its loop over the children of \<open>child\<close> from index \<open>j\<close> on.\<close>

partial_function (option) remove_child :: "(addr \<times> addr) + (addr \<times> nat) \<Rightarrow> ramfs \<Rightarrow> ramfs option" where
  "remove_child call s =
     (case call of
        Inl (parent, child) \<Rightarrow>
          if parent = 0 then Some s
          else do {
            p \<leftarrow> nodes s parent;
            if fn_type p \<noteq> FS_DIRECTORY then Some s
            else do {
              cs \<leftarrow> children_of s p;
              if child \<notin> set cs then Some s
              else do {
                let i = length (takeWhile (\<lambda>c. c \<noteq> child) cs);
                n \<leftarrow> nodes s child;
                s \<leftarrow> (if fn_type n = FS_DIRECTORY then remove_child (Inr (child, 0)) s else Some s);
                p \<leftarrow> nodes s parent;
                arr \<leftarrow> arrays s (fn_children p);
                let s = s\<lparr>arrays := (arrays s)(fn_children p \<mapsto> shift_down arr [i..<child_count p - 1])\<rparr>;
                upd_node parent (\<lambda>p. p\<lparr>child_count := child_count p - 1\<rparr>) s
              }
            }
          }
      | Inr (child, j) \<Rightarrow>
          do {
            n \<leftarrow> nodes s child;
            if j < child_count n
            then do {
              cs \<leftarrow> children_of s n;
              s \<leftarrow> remove_child (Inl (child, cs ! j)) s;
              remove_child (Inr (child, j + 1)) s
            }
            else Some s
          })"

definition fs_remove_child :: "addr \<Rightarrow> addr \<Rightarrow> ramfs \<Rightarrow> ramfs option" where
  "fs_remove_child parent child = remove_child (Inl (parent, child))"

fun find_child_loop :: "ramfs \<Rightarrow> path \<Rightarrow> addr list \<Rightarrow> addr option" where
  "find_child_loop s name [] = Some 0"
| "find_child_loop s name (c # cs) = do { n \<leftarrow> nodes s c; if fn_name n = name then Some c else find_child_loop s name cs }"

definition fs_find_child :: "ramfs \<Rightarrow> addr \<Rightarrow> path \<Rightarrow> addr option" where
  "fs_find_child s parent name =
     (if parent = 0 then Some 0
      else do {
        p \<leftarrow> nodes s parent;
        if fn_type p \<noteq> FS_DIRECTORY then Some 0
        else do { cs \<leftarrow> children_of s p; find_child_loop s name cs }
      })"

text \<open>The kernel panics when there is no memory for the root directory.\<close>

definition fs_init :: "ramfs \<Rightarrow> ramfs option" where
  "fs_init s = do { (r, s) \<leftarrow> fs_create_node [SLASH] FS_DIRECTORY s; if r = 0 then None else Some (s\<lparr>fs_root := r\<rparr>) }"

definition fs_get_root :: "ramfs \<Rightarrow> addr" where
  "fs_get_root s = fs_root s"

subsection \<open>Contents of files\<close>

definition fs_read :: "addr \<Rightarrow> u32 \<Rightarrow> u32 \<Rightarrow> ramfs \<Rightarrow> (int \<times> u8 list) option" where
  "fs_read file offset sz s =
     (if file = 0 then Some (-1, [])
      else do {
        n \<leftarrow> nodes s file;
        if fn_type n \<noteq> FS_FILE \<or> offset > fn_size n then Some (-1, [])
        else let read_size = (if offset + sz > fn_size n then fn_size n - offset else sz)
             in Some (sint read_size, load (hmem (rf_heap s)) (fn_data n + offset) (unat read_size))
      })"

definition fs_write :: "addr \<Rightarrow> u32 \<Rightarrow> u8 list \<Rightarrow> ramfs \<Rightarrow> (int \<times> ramfs) option" where
  "fs_write file offset buffer s =
     (if file = 0 then Some (-1, s)
      else do {
        n \<leftarrow> nodes s file;
        let sz = (of_nat (length buffer) :: u32);
        if fn_type n \<noteq> FS_FILE then Some (-1, s)
        else do {
          (ok, s) \<leftarrow> (if offset + sz > fn_size n
             then do {
               (new_data, h) \<leftarrow> krealloc (rf_heap s) (fn_data n) (offset + sz);
               let s = s\<lparr>rf_heap := h\<rparr>;
               if new_data = 0 then Some (False, s)
               else Some (True, s\<lparr>nodes := (nodes s)(file \<mapsto> n\<lparr>fn_data := new_data, fn_size := offset + sz\<rparr>)\<rparr>)
             }
             else Some (True, s));
          if \<not> ok then Some (-1, s)
          else do {
            n \<leftarrow> nodes s file;
            Some (sint sz, s\<lparr>rf_heap := (rf_heap s)\<lparr>hmem := store (hmem (rf_heap s)) (fn_data n + offset) buffer\<rparr>\<rparr>)
          }
        }
      })"

subsection \<open>File descriptors\<close>

definition fs_open :: "addr \<Rightarrow> ramfs \<Rightarrow> int \<times> ramfs" where
  "fs_open node s =
     (case find (\<lambda>i. \<not> fd_used (fd_table s ! i)) [0..<MAX_OPEN_FILES] of
        None \<Rightarrow> (-1, s)
      | Some i \<Rightarrow> (int i, s\<lparr>fd_table := (fd_table s)[i := \<lparr>fd_node = node, fd_offset = 0, fd_used = True\<rparr>]\<rparr>))"

definition fs_close :: "int \<Rightarrow> ramfs \<Rightarrow> ramfs" where
  "fs_close fd s =
     (if 0 \<le> fd \<and> fd < int MAX_OPEN_FILES \<and> fd_used (fd_table s ! nat fd)
      then s\<lparr>fd_table := (fd_table s)[nat fd := (fd_table s ! nat fd)\<lparr>fd_used := False\<rparr>]\<rparr> else s)"

subsection \<open>Paths\<close>

text \<open>One component of a path, in \<open>temp\<close>: \<open>Inl ()\<close> is the return of \<open>NULL\<close>.\<close>

definition component :: "ramfs \<Rightarrow> addr \<Rightarrow> path \<Rightarrow> (unit + addr) option" where
  "component s current temp =
     (if temp = [] \<or> temp = [DOT] then Some (Inr current)
      else if temp = [DOT, DOT] then do { n \<leftarrow> nodes s current; Some (Inr (if fn_parent n \<noteq> 0 then fn_parent n else current)) }
      else do { c \<leftarrow> fs_find_child s current temp; Some (if c = 0 then Inl () else Inr c) })"

fun find_loop :: "ramfs \<Rightarrow> addr \<Rightarrow> path \<Rightarrow> path \<Rightarrow> addr option" where
  "find_loop s current temp [] = do { r \<leftarrow> component s current temp; case r of Inl _ \<Rightarrow> Some 0 | Inr current \<Rightarrow> Some current }"
| "find_loop s current temp (c # cs) =
     (if c = SLASH
      then do { r \<leftarrow> component s current temp; case r of Inl _ \<Rightarrow> Some 0 | Inr current \<Rightarrow> find_loop s current [] cs }
      else if length temp < VFS_MAX_NAME - 1 then find_loop s current (temp @ [c]) cs
      else Some 0)"

definition fs_find_by_path :: "path \<Rightarrow> ramfs \<Rightarrow> addr option" where
  "fs_find_by_path path s =
     (if path = [] \<or> hd path \<noteq> SLASH then Some 0
      else if path = [SLASH] then Some (fs_get_root s)
      else find_loop s (fs_get_root s) [] (tl path))"

definition fs_find_by_path_from :: "path \<Rightarrow> addr \<Rightarrow> ramfs \<Rightarrow> addr option" where
  "fs_find_by_path_from path current s =
     (if path \<noteq> [] \<and> hd path = SLASH then find_loop s (fs_get_root s) [] (tl path) else find_loop s current [] path)"

text \<open>The results go to buffers of 128 and 64 bytes.\<close>

definition split_path :: "path \<Rightarrow> (path \<times> path) option" where
  "split_path path =
     (if SLASH \<in> set path
      then let name = rev (takeWhile (\<lambda>c. c \<noteq> SLASH) (rev path)); parent = take (length path - length name - 1) path
           in do { parent \<leftarrow> fit 128 (if parent = [] then [SLASH] else parent); name \<leftarrow> fit 64 name; Some (parent, name) }
      else do { name \<leftarrow> fit 64 path; Some ([], name) })"

definition fs_mkdir :: "path \<Rightarrow> ramfs \<Rightarrow> (addr \<times> ramfs) option" where
  "fs_mkdir path s =
     do {
       (parent_path, name) \<leftarrow> split_path path;
       parent \<leftarrow> fs_find_by_path parent_path s;
       if parent = 0 then Some (0, s)
       else do {
         p \<leftarrow> nodes s parent;
         if fn_type p \<noteq> FS_DIRECTORY then Some (0, s)
         else do {
           (new_dir, s) \<leftarrow> fs_create_node name FS_DIRECTORY s;
           s \<leftarrow> fs_add_child parent new_dir s;
           Some (new_dir, s)
         }
       }
     }"

definition fs_touch :: "path \<Rightarrow> ramfs \<Rightarrow> (addr \<times> ramfs) option" where
  "fs_touch path s =
     do {
       (parent_path, name) \<leftarrow> split_path path;
       parent \<leftarrow> fs_find_by_path parent_path s;
       if parent = 0 then Some (0, s)
       else do {
         p \<leftarrow> nodes s parent;
         if fn_type p \<noteq> FS_DIRECTORY then Some (0, s)
         else do {
           (new_file, s) \<leftarrow> fs_create_node name FS_FILE s;
           if new_file = 0 then Some (0, s)
           else do {
             (d, h) \<leftarrow> kmalloc (rf_heap s) 1024;
             s \<leftarrow> upd_node new_file (\<lambda>n. n\<lparr>fn_data := d, fn_size := 0\<rparr>) (s\<lparr>rf_heap := h\<rparr>);
             s \<leftarrow> fs_add_child parent new_file s;
             Some (new_file, s)
           }
         }
       }
     }"

subsection \<open>Removing\<close>

definition fs_free_node :: "addr \<Rightarrow> ramfs \<Rightarrow> ramfs option" where
  "fs_free_node node s =
     (if node = 0 then Some s
      else do {
        n \<leftarrow> nodes s node;
        let h = (if fn_data n \<noteq> 0 then kfree (rf_heap s) (fn_data n) else rf_heap s);
        let h = (if fn_children n \<noteq> 0 then kfree h (fn_children n) else h);
        Some (s\<lparr>rf_heap := kfree h node, nodes := (nodes s)(node := None),
                arrays := (if fn_children n \<noteq> 0 then (arrays s)(fn_children n := None) else arrays s)\<rparr>)
      })"

definition unlink_and_free :: "addr \<Rightarrow> ramfs \<Rightarrow> (int \<times> ramfs) option" where
  "unlink_and_free node s =
     do {
       n \<leftarrow> nodes s node;
       s \<leftarrow> (if fn_parent n \<noteq> 0 then fs_remove_child (fn_parent n) node s else Some s);
       s \<leftarrow> fs_free_node node s;
       Some (0, s)
     }"

definition fs_remove :: "path \<Rightarrow> ramfs \<Rightarrow> (int \<times> ramfs) option" where
  "fs_remove path s =
     do {
       node \<leftarrow> fs_find_by_path path s;
       if node = 0 then Some (-1, s)
       else do {
         n \<leftarrow> nodes s node;
         if fn_type n \<noteq> FS_FILE then Some (-1, s)
         else if list_ex (\<lambda>d. fd_used d \<and> fd_node d = node) (fd_table s) then Some (-1, s)
         else unlink_and_free node s
       }
     }"

text \<open>Whether \<open>node\<close> is \<open>current\<close> or above it.\<close>

partial_function (option) is_above :: "ramfs \<Rightarrow> addr \<Rightarrow> addr \<Rightarrow> bool option" where
  "is_above s node current =
     (if current = 0 then Some False
      else if current = node then Some True
      else do { n \<leftarrow> nodes s current; is_above s node (fn_parent n) })"

fun open_below :: "ramfs \<Rightarrow> addr \<Rightarrow> FileDescriptor list \<Rightarrow> bool option" where
  "open_below s node [] = Some False"
| "open_below s node (d # ds) =
     (if fd_used d \<and> fd_node d \<noteq> 0
      then do { n \<leftarrow> nodes s (fd_node d); b \<leftarrow> is_above s node (fn_parent n); if b then Some True else open_below s node ds }
      else open_below s node ds)"

definition fs_rmdir :: "path \<Rightarrow> ramfs \<Rightarrow> (int \<times> ramfs) option" where
  "fs_rmdir path s =
     (if path = [SLASH] then Some (-1, s)
      else do {
        node \<leftarrow> fs_find_by_path path s;
        if node = 0 then Some (-1, s)
        else do {
          n \<leftarrow> nodes s node;
          if fn_type n \<noteq> FS_DIRECTORY \<or> child_count n > 0 then Some (-1, s)
          else do {
            b \<leftarrow> open_below s node (fd_table s);
            if b then Some (-1, s) else unlink_and_free node s
          }
        }
      })"

subsection \<open>The invariant\<close>

text \<open>The structure of the tree: \<open>N\<close> are the nodes, \<open>A\<close> the arrays of children.\<close>

definition kids :: "(addr \<rightharpoonup> addr list) \<Rightarrow> FSNode \<Rightarrow> addr list" where
  "kids A n = (case A (fn_children n) of None \<Rightarrow> [] | Some arr \<Rightarrow> take (child_count n) arr)"

text \<open>Only a directory has an array of children, and the array has room for 32 of them. A directory without one has no children.\<close>

definition shape :: "(addr \<rightharpoonup> addr list) \<Rightarrow> FSNode \<Rightarrow> bool" where
  "shape A n \<longleftrightarrow> child_count n \<le> 32 \<and>
     (if fn_children n = 0 then child_count n = 0 else fn_type n = FS_DIRECTORY \<and> (\<exists>arr. A (fn_children n) = Some arr \<and> length arr = 32))"

definition tree_ok :: "(addr \<rightharpoonup> FSNode) \<Rightarrow> (addr \<rightharpoonup> addr list) \<Rightarrow> addr \<Rightarrow> bool" where
  "tree_ok N A r \<longleftrightarrow>
     (\<forall>a n. N a = Some n \<longrightarrow> a \<noteq> 0 \<and> shape A n \<and> distinct (kids A n)) \<and>
     (\<forall>a n c. N a = Some n \<and> c \<in> set (kids A n) \<longrightarrow> (\<exists>m. N c = Some m \<and> fn_parent m = a)) \<and>
     (\<forall>a n. N a = Some n \<and> fn_parent n \<noteq> 0 \<longrightarrow> (\<exists>p. N (fn_parent n) = Some p \<and> a \<in> set (kids A p))) \<and>
     (\<forall>a n b m. N a = Some n \<and> N b = Some m \<and> a \<noteq> b \<and> fn_children n \<noteq> 0 \<longrightarrow> fn_children n \<noteq> fn_children m) \<and>
     (\<exists>n. N r = Some n \<and> fn_type n = FS_DIRECTORY \<and> fn_parent n = 0) \<and>
     (\<exists>rank :: addr \<Rightarrow> nat. \<forall>a n. N a = Some n \<and> fn_parent n \<noteq> 0 \<longrightarrow> rank (fn_parent n) < rank a)"

text \<open>The memory of the tree: every structure has a block of the heap of its own.\<close>

definition mem_ok :: "heap \<Rightarrow> (addr \<rightharpoonup> FSNode) \<Rightarrow> (addr \<rightharpoonup> addr list) \<Rightarrow> bool" where
  "mem_ok h N A \<longleftrightarrow> heap_ok h \<and>
     (\<forall>a n. N a = Some n \<longrightarrow> (\<exists>k\<ge>88. owned h a = Some k) \<and> A a = None \<and> N (fn_data n) = None \<and> A (fn_data n) = None \<and>
        (if fn_data n = 0 then fn_size n = 0 else fn_type n = FS_FILE \<and> (\<exists>k. owned h (fn_data n) = Some k \<and> unat (fn_size n) \<le> k))) \<and>
     (\<forall>a arr. A a = Some arr \<longrightarrow> (\<exists>k\<ge>128. owned h a = Some k)) \<and>
     (\<forall>a n b m. N a = Some n \<and> N b = Some m \<and> a \<noteq> b \<and> fn_data n \<noteq> 0 \<longrightarrow> fn_data n \<noteq> fn_data m)"

definition ramfs_ok :: "ramfs \<Rightarrow> bool" where
  "ramfs_ok s \<longleftrightarrow> tree_ok (nodes s) (arrays s) (fs_root s) \<and> mem_ok (rf_heap s) (nodes s) (arrays s)"

lemma tree_okD:
  assumes "tree_ok N A r"
  shows "N a = Some n \<Longrightarrow> a \<noteq> 0" "N a = Some n \<Longrightarrow> shape A n" "N a = Some n \<Longrightarrow> distinct (kids A n)"
    "N a = Some n \<Longrightarrow> c \<in> set (kids A n) \<Longrightarrow> \<exists>m. N c = Some m \<and> fn_parent m = a"
    "N a = Some n \<Longrightarrow> fn_parent n \<noteq> 0 \<Longrightarrow> \<exists>p. N (fn_parent n) = Some p \<and> a \<in> set (kids A p)"
    "N a = Some n \<Longrightarrow> N b = Some m \<Longrightarrow> a \<noteq> b \<Longrightarrow> fn_children n \<noteq> 0 \<Longrightarrow> fn_children n \<noteq> fn_children m"
    "\<exists>n. N r = Some n \<and> fn_type n = FS_DIRECTORY \<and> fn_parent n = 0"
    "\<exists>rank :: addr \<Rightarrow> nat. \<forall>a n. N a = Some n \<and> fn_parent n \<noteq> 0 \<longrightarrow> rank (fn_parent n) < rank a"
  using assms unfolding tree_ok_def by blast+

lemma mem_okD:
  assumes "mem_ok h N A"
  shows "heap_ok h" "N a = Some n \<Longrightarrow> \<exists>k\<ge>88. owned h a = Some k" "N a = Some n \<Longrightarrow> A a = None"
    "N a = Some n \<Longrightarrow> N (fn_data n) = None \<and> A (fn_data n) = None"
    "N a = Some n \<Longrightarrow> fn_data n = 0 \<Longrightarrow> fn_size n = 0"
    "N a = Some n \<Longrightarrow> fn_data n \<noteq> 0 \<Longrightarrow> fn_type n = FS_FILE \<and> (\<exists>k. owned h (fn_data n) = Some k \<and> unat (fn_size n) \<le> k)"
    "A a = Some arr \<Longrightarrow> \<exists>k\<ge>128. owned h a = Some k"
    "N a = Some n \<Longrightarrow> N b = Some m \<Longrightarrow> a \<noteq> b \<Longrightarrow> fn_data n \<noteq> 0 \<Longrightarrow> fn_data n \<noteq> fn_data m"
  using assms unfolding mem_ok_def by (simp_all; blast)+

lemma children_of_kids: "shape (arrays s) n \<Longrightarrow> children_of s n = Some (kids (arrays s) n)"
  by (auto simp: shape_def children_of_def kids_def split: option.splits if_splits)

lemma kids_file: "shape A n \<Longrightarrow> A 0 = None \<Longrightarrow> fn_type n = FS_FILE \<Longrightarrow> kids A n = []"
  by (auto simp: shape_def kids_def split: if_splits)

lemma mem_ok_null: "mem_ok h N A \<Longrightarrow> A 0 = None \<and> N 0 = None"
proof -
  assume m: "mem_ok h N A"
  have "owned h 0 = None" using kheap.own_bounds [OF mem_okD(1) [OF m], of 0] by (cases "owned h 0") auto
  then show ?thesis using mem_okD(2,7) [OF m] by (metis not_None_eq)
qed

subsection \<open>Looking up paths\<close>

text \<open>The reference: a walk over the tree by names. The result \<open>0\<close> is \<open>NULL\<close>.\<close>

definition child_named :: "ramfs \<Rightarrow> addr \<Rightarrow> path \<Rightarrow> addr" where
  "child_named s a t =
     (case nodes s a of
        None \<Rightarrow> 0
      | Some n \<Rightarrow> if fn_type n \<noteq> FS_DIRECTORY then 0
                  else case find (\<lambda>c. map_option fn_name (nodes s c) = Some t) (kids (arrays s) n) of None \<Rightarrow> 0 | Some c \<Rightarrow> c)"

definition up :: "ramfs \<Rightarrow> addr \<Rightarrow> addr" where
  "up s a = (case nodes s a of None \<Rightarrow> a | Some n \<Rightarrow> if fn_parent n \<noteq> 0 then fn_parent n else a)"

fun walk_tree :: "ramfs \<Rightarrow> addr \<Rightarrow> path list \<Rightarrow> addr" where
  "walk_tree s a [] = a"
| "walk_tree s a (t # ts) =
     (if t = [DOT] then walk_tree s a ts
      else if t = [DOT, DOT] then walk_tree s (up s a) ts
      else if child_named s a t = 0 then 0 else walk_tree s (child_named s a t) ts)"

lemma find_child_loop_find:
  "\<forall>c\<in>set cs. nodes s c \<noteq> None \<and> c \<noteq> 0 \<Longrightarrow>
   find_child_loop s t cs = Some (case find (\<lambda>c. map_option fn_name (nodes s c) = Some t) cs of None \<Rightarrow> 0 | Some c \<Rightarrow> c)"
  by (induction cs) auto

lemma kids_are_nodes:
  assumes "ramfs_ok s" "nodes s a = Some n" "c \<in> set (kids (arrays s) n)"
  shows "nodes s c \<noteq> None \<and> c \<noteq> 0"
  using assms tree_okD(1,4) unfolding ramfs_ok_def by (metis option.distinct(1))

lemma find_child_named:
  assumes "ramfs_ok s" "nodes s a \<noteq> None"
  shows "fs_find_child s a t = Some (child_named s a t)"
proof -
  obtain n where n: "nodes s a = Some n" using assms(2) by blast
  have t: "tree_ok (nodes s) (arrays s) (fs_root s)" using assms(1) by (simp add: ramfs_ok_def)
  have "children_of s n = Some (kids (arrays s) n)" by (rule children_of_kids) (rule tree_okD(2) [OF t n])
  then show ?thesis
    using n tree_okD(1) [OF t n] kids_are_nodes [OF assms(1) n] by (simp add: fs_find_child_def child_named_def find_child_loop_find)
qed

lemma child_named_node:
  assumes "ramfs_ok s" "child_named s a t \<noteq> 0"
  shows "nodes s (child_named s a t) \<noteq> None"
proof -
  obtain n c where n: "nodes s a = Some n" "find (\<lambda>c. map_option fn_name (nodes s c) = Some t) (kids (arrays s) n) = Some c" "child_named s a t = c"
    using assms(2) by (auto simp: child_named_def split: option.splits if_splits)
  then show ?thesis by (auto simp: find_Some_iff)
qed

lemma up_node: "ramfs_ok s \<Longrightarrow> nodes s a \<noteq> None \<Longrightarrow> nodes s (up s a) \<noteq> None"
  using tree_okD(5) unfolding ramfs_ok_def up_def by (fastforce split: option.splits)

lemma walk_tree_node: "ramfs_ok s \<Longrightarrow> nodes s a \<noteq> None \<Longrightarrow> walk_tree s a ts = 0 \<or> nodes s (walk_tree s a ts) \<noteq> None"
proof (induction ts arbitrary: a)
  case (Cons t ts)
  then show ?case using up_node [OF Cons.prems] child_named_node [OF Cons.prems(1), of a t] by (simp del: not_None_eq)
qed simp

lemma component_step:
  assumes "ramfs_ok s" "nodes s a \<noteq> None" "t \<noteq> []"
  shows "component s a t =
    Some (if t = [DOT] then Inr a else if t = [DOT, DOT] then Inr (up s a) else if child_named s a t = 0 then Inl () else Inr (child_named s a t))"
  using assms find_child_named [OF assms(1,2)] by (auto simp: component_def up_def)

text \<open>The loop over the characters with the part \<open>temp\<close> of a component read so far.\<close>

lemma tokens_start:
  assumes "SLASH \<notin> set w" "w \<noteq> []"
  shows "path_tokens (w @ r) = (w @ takeWhile (\<lambda>x. x \<noteq> SLASH) r) # path_tokens (dropWhile (\<lambda>x. x \<noteq> SLASH) r)"
proof -
  obtain x xs where w: "w = x # xs" using assms(2) by (cases w) auto
  then have "\<forall>y\<in>set xs. y \<noteq> SLASH" "x \<noteq> SLASH" using assms(1) by auto
  then show ?thesis using w by (simp add: takeWhile_append2 dropWhile_append2)
qed

lemma find_loop_walk:
  assumes "ramfs_ok s" "nodes s a \<noteq> None" "SLASH \<notin> set temp" "length temp < 64"
  shows "find_loop s a temp cs =
    Some (if \<exists>t\<in>set (path_tokens (temp @ cs)). 64 \<le> length t then 0 else walk_tree s a (path_tokens (temp @ cs)))"
  using assms(2-4)
proof (induction cs arbitrary: a temp)
  case Nil
  show ?case
  proof (cases "temp = []")
    case False
    then show ?thesis using Nil component_step [OF assms(1) Nil.prems(1) False] tokens_start [OF Nil.prems(2), of "[]"] by simp
  qed (simp add: component_def)
next
  case (Cons c cs)
  consider (slash) "c = SLASH" | (room) "c \<noteq> SLASH" "length temp < 63" | (long) "c \<noteq> SLASH" "length temp = 63" using Cons.prems by linarith
  then show ?case
  proof cases
    case slash
    show ?thesis
    proof (cases "temp = []")
      case True
      then show ?thesis using slash Cons.IH [OF Cons.prems(1), of "[]"] by (simp add: component_def)
    next
      case False
      have i: "find_loop s b [] cs = Some (if \<exists>t\<in>set (path_tokens cs). 64 \<le> length t then 0 else walk_tree s b (path_tokens cs))"
        if "nodes s b \<noteq> None" for b using Cons.IH [OF that, of "[]"] by simp
      have p: "path_tokens (temp @ c # cs) = temp # path_tokens cs" using slash tokens_start [OF Cons.prems(2) False, of "c # cs"] by simp
      note u = up_node [OF assms(1) Cons.prems(1)] and k = child_named_node [OF assms(1), of a temp]
      note step = component_step [OF assms(1) Cons.prems(1) False]
      consider "temp = [DOT]" | "temp = [DOT, DOT]" | "temp \<noteq> [DOT]" "temp \<noteq> [DOT, DOT]" "child_named s a temp = 0"
        | "temp \<noteq> [DOT]" "temp \<noteq> [DOT, DOT]" "child_named s a temp \<noteq> 0" by blast
      then show ?thesis
      proof cases
        case 1
        then show ?thesis using p slash step i [OF Cons.prems(1)] by simp
      next
        case 2
        then show ?thesis using p slash step i [OF u] by simp
      next
        case 3
        then show ?thesis using p slash step by simp
      next
        case 4
        then show ?thesis using p slash step i [OF k] Cons.prems(3) by simp
      qed
    qed
  next
    case room
    then show ?thesis using Cons.IH [OF Cons.prems(1), of "temp @ [c]"] Cons.prems(2) by (simp add: VFS_MAX_NAME_def)
  next
    case long
    then have "path_tokens (temp @ c # cs) = (temp @ c # takeWhile (\<lambda>x. x \<noteq> SLASH) cs) # path_tokens (dropWhile (\<lambda>x. x \<noteq> SLASH) cs)"
      using tokens_start [of "temp @ [c]" cs] Cons.prems(2) by simp
    then show ?thesis using long by (simp add: VFS_MAX_NAME_def)
  qed
qed

lemma root_node: "ramfs_ok s \<Longrightarrow> nodes s (fs_root s) \<noteq> None"
  using tree_okD(7) [of "nodes s" "arrays s" "fs_root s"] by (auto simp: ramfs_ok_def)

lemma find_by_path_walk:
  assumes "ramfs_ok s" "path \<noteq> []" "hd path = SLASH"
  shows "fs_find_by_path path s =
    Some (if \<exists>t\<in>set (path_tokens path). 64 \<le> length t then 0 else walk_tree s (fs_root s) (path_tokens path))"
proof (cases "path = [SLASH]")
  case False
  obtain cs where "path = SLASH # cs" using assms(2,3) by (cases path) auto
  then show ?thesis using False find_loop_walk [OF assms(1) root_node [OF assms(1)], of "[]" cs] by (simp add: fs_find_by_path_def fs_get_root_def)
qed (simp add: fs_find_by_path_def fs_get_root_def)

lemma find_by_path_node:
  assumes "ramfs_ok s" "fs_find_by_path path s = Some a" "a \<noteq> 0"
  shows "nodes s a \<noteq> None"
proof -
  have "path \<noteq> []" "hd path = SLASH" using assms(2,3) by (auto simp: fs_find_by_path_def split: if_splits)
  from assms(2,3) find_by_path_walk [OF assms(1) this] walk_tree_node [OF assms(1) root_node [OF assms(1)], of "path_tokens path"]
  show ?thesis by (simp del: not_None_eq split: if_splits)
qed

lemma find_by_path_total: "ramfs_ok s \<Longrightarrow> \<exists>a. fs_find_by_path path s = Some a"
  using find_by_path_walk [of s path] by (cases "path = [] \<or> hd path \<noteq> SLASH") (auto simp: fs_find_by_path_def)

end
