(* ===== verification/Ramfs_Tree.thy ===== *)
theory Ramfs_Tree
  imports Ramfs
begin

text \<open>
  The operations that change the tree of the file system in memory keep it a tree: new nodes, links to the parent, and removal, together with the
  blocks of the heap that they take and give back.
\<close>

subsection \<open>Changes of the tree\<close>

lemma tree_okI:
  assumes "\<And>a n. N a = Some n \<Longrightarrow> a \<noteq> 0 \<and> shape A n \<and> distinct (kids A n)"
    "\<And>a n c. N a = Some n \<Longrightarrow> c \<in> set (kids A n) \<Longrightarrow> \<exists>m. N c = Some m \<and> fn_parent m = a"
    "\<And>a n. N a = Some n \<Longrightarrow> fn_parent n \<noteq> 0 \<Longrightarrow> \<exists>p. N (fn_parent n) = Some p \<and> a \<in> set (kids A p)"
    "\<And>a n b m. N a = Some n \<Longrightarrow> N b = Some m \<Longrightarrow> a \<noteq> b \<Longrightarrow> fn_children n \<noteq> 0 \<Longrightarrow> fn_children n \<noteq> fn_children m"
    "\<exists>n. N r = Some n \<and> fn_type n = FS_DIRECTORY \<and> fn_parent n = 0"
    "\<And>a n. N a = Some n \<Longrightarrow> fn_parent n \<noteq> 0 \<Longrightarrow> (rank :: addr \<Rightarrow> nat) (fn_parent n) < rank a"
  shows "tree_ok N A r"
  unfolding tree_ok_def using assms by (intro conjI) blast+

lemma kids_upd [simp]: "kids A (n\<lparr>fn_parent := p\<rparr>) = kids A n" "kids A (n\<lparr>fn_data := d\<rparr>) = kids A n" "kids A (n\<lparr>fn_size := z\<rparr>) = kids A n"
    "shape A (n\<lparr>fn_parent := p\<rparr>) = shape A n" "shape A (n\<lparr>fn_data := d\<rparr>) = shape A n" "shape A (n\<lparr>fn_size := z\<rparr>) = shape A n"
  by (simp_all add: kids_def shape_def split: option.splits)

text \<open>A new node without parent and children.\<close>

lemma tree_insert:
  assumes t: "tree_ok N A r" "A 0 = None" and a: "N a = None" "a \<noteq> 0"
    and n: "fn_parent n = 0" "child_count n = 0" "fn_children n \<noteq> 0 \<longrightarrow> A (fn_children n) = None \<and> fn_type n = FS_DIRECTORY"
  defines "A' \<equiv> if fn_children n \<noteq> 0 then A(fn_children n \<mapsto> replicate 32 0) else A"
  shows "tree_ok (N(a \<mapsto> n)) A' r"
proof -
  have ne: "fn_children m \<noteq> fn_children n" if "N b = Some m" "fn_children n \<noteq> 0" for b m
    using tree_okD(2) [OF t(1) that(1)] n(3) that(2) by (auto simp: shape_def split: if_splits)
  have old: "kids A' m = kids A m" "shape A' m" if "N b = Some m" for b m
    using tree_okD(2) [OF t(1) that] ne [OF that] by (auto simp: A'_def kids_def shape_def)
  have new: "kids A' n = []" "shape A' n" using n by (auto simp: kids_def shape_def A'_def split: option.splits)
  obtain rank :: "addr \<Rightarrow> nat" where rank: "\<And>b m. N b = Some m \<Longrightarrow> fn_parent m \<noteq> 0 \<Longrightarrow> rank (fn_parent m) < rank b"
    using tree_okD(8) [OF t(1)] by blast
  have ra: "r \<noteq> a" using tree_okD(7) [OF t(1)] a(1) by auto
  show ?thesis
  proof (rule tree_okI [where rank = rank])
    fix b m assume b: "(N(a \<mapsto> n)) b = Some m"
    show "b \<noteq> 0 \<and> shape A' m \<and> distinct (kids A' m)"
      using b new a(2) old [of b m] tree_okD(1,3) [OF t(1), of b m] by (auto split: if_splits)
    show "\<exists>k. (N(a \<mapsto> n)) c = Some k \<and> fn_parent k = b" if "c \<in> set (kids A' m)" for c
      using that b new a(1) old(1) [of b m] tree_okD(4) [OF t(1), of b m c] by (auto split: if_splits)
    show "\<exists>p. (N(a \<mapsto> n)) (fn_parent m) = Some p \<and> b \<in> set (kids A' p)" if "fn_parent m \<noteq> 0"
      using that b n(1) a(1) old(1) tree_okD(5) [OF t(1), of b m] by (auto split: if_splits)
    show "fn_children m \<noteq> fn_children k" if "(N(a \<mapsto> n)) c = Some k" "b \<noteq> c" "fn_children m \<noteq> 0" for c k
      using that b ne [of c k] ne [of b m] tree_okD(6) [OF t(1), of b m c k] by (auto split: if_splits)
    show "rank (fn_parent m) < rank b" if "fn_parent m \<noteq> 0"
      using that b n(1) rank by (auto split: if_splits)
  next
    show "\<exists>k. (N(a \<mapsto> n)) r = Some k \<and> fn_type k = FS_DIRECTORY \<and> fn_parent k = 0" using tree_okD(7) [OF t(1)] ra by simp
  qed
qed

text \<open>A node without parent and children becomes the last child of a directory.\<close>

lemma tree_link:
  assumes t: "tree_ok N A r" "A 0 = None" and p: "N p = Some pn" "child_count pn < 32" "A (fn_children pn) = Some arr"
    and c: "N c = Some cn" "fn_parent cn = 0" "child_count cn = 0" "c \<noteq> r" "c \<noteq> p"
  defines "N' \<equiv> N(p \<mapsto> pn\<lparr>child_count := child_count pn + 1\<rparr>, c \<mapsto> cn\<lparr>fn_parent := p\<rparr>)"
    and "A' \<equiv> A(fn_children pn \<mapsto> arr[child_count pn := c])"
  shows "tree_ok N' A' r" "kids A' (pn\<lparr>child_count := child_count pn + 1\<rparr>) = kids A pn @ [c]"
    "\<And>b m. N b = Some m \<Longrightarrow> b \<noteq> p \<Longrightarrow> kids A' m = kids A m"
proof -
  have ch: "fn_children pn \<noteq> 0" using p(3) t(2) by auto
  have len: "length arr = 32" using tree_okD(2) [OF t(1) p(1)] p(3) ch by (simp add: shape_def)
  have ne: "fn_children m \<noteq> fn_children pn" if "N b = Some m" "b \<noteq> p" for b m
    using tree_okD(6) [OF t(1) p(1) that(1)] that(2) ch by auto
  show new: "kids A' (pn\<lparr>child_count := child_count pn + 1\<rparr>) = kids A pn @ [c]"
    using p(2,3) len by (simp add: kids_def A'_def take_Suc_conv_app_nth)
  show old: "kids A' m = kids A m" if "N b = Some m" "b \<noteq> p" for b m
    using ne [OF that] by (simp add: kids_def A'_def)
  have kc: "kids A cn = []" using c(3) by (simp add: kids_def split: option.splits)
  have ckids: "kids A' (cn\<lparr>fn_parent := p\<rparr>) = []" using c(3) by (simp add: kids_def split: option.splits)
  have cp: "c \<notin> set (kids A pn)" using tree_okD(4) [OF t(1) p(1), of c] tree_okD(1) [OF t(1) p(1)] c(1,2) by auto
  have noc: "fn_parent m \<noteq> c" if "N b = Some m" for b m
    using tree_okD(5) [OF t(1) that] tree_okD(1) [OF t(1) c(1)] c(1) kc by auto
  have shp: "shape A' m" if "N b = Some m" "b \<noteq> p" for b m
    using tree_okD(2) [OF t(1) that(1)] ne [OF that] by (auto simp: shape_def A'_def)
  have p0: "p \<noteq> 0" "c \<noteq> 0" using tree_okD(1) [OF t(1)] p(1) c(1) by auto
  have shpp: "shape A' (pn\<lparr>child_count := child_count pn + 1\<rparr>)"
    using tree_okD(2) [OF t(1) p(1)] p(2) len ch by (auto simp: shape_def A'_def)
  obtain rank :: "addr \<Rightarrow> nat" where rank: "\<And>b m. N b = Some m \<Longrightarrow> fn_parent m \<noteq> 0 \<Longrightarrow> rank (fn_parent m) < rank b"
    using tree_okD(8) [OF t(1)] by blast
  have at: "N' b = (if b = c then Some (cn\<lparr>fn_parent := p\<rparr>) else if b = p then Some (pn\<lparr>child_count := child_count pn + 1\<rparr>) else N b)" for b
    using c(5) by (simp add: N'_def)
  have keep: "\<exists>k. N' d = Some k \<and> fn_parent k = fn_parent m" if "N d = Some m" "d \<noteq> c" for d m
    using that p(1) by (auto simp: at)
  have orig: "\<exists>m'. N b = Some m' \<and> fn_children m' = fn_children m" if "N' b = Some m" for b m
    using that p(1) c(1) by (auto simp: at split: if_splits)
  have kk: "set (kids A m) \<subseteq> set (kids A' k)" if "N b = Some m" "N' b = Some k" for b m k
    using that new ckids kc old [OF that(1)] p(1) c(1) by (auto simp: at split: if_splits)
  show "tree_ok N' A' r"
  proof (rule tree_okI [where rank = "rank(c := Suc (rank p))"])
    fix b m assume b: "N' b = Some m"
    show "b \<noteq> 0 \<and> shape A' m \<and> distinct (kids A' m)"
    proof (cases "b = c")
      case True
      have "shape A' (cn\<lparr>fn_parent := p\<rparr>)" using shp [OF c(1,5)] by simp
      then show ?thesis using True b p0 ckids by (auto simp: at)
    next
      case False
      then show ?thesis
        using b p0 new shpp cp old shp tree_okD(3) [OF t(1) p(1)] tree_okD(1,3) [OF t(1), of b] by (auto simp: at split: if_splits)
    qed
    show "\<exists>k. N' d = Some k \<and> fn_parent k = b" if d: "d \<in> set (kids A' m)" for d
    proof (cases "b = c \<or> d = c")
      case True
      have "b \<noteq> c" using b d ckids by (auto simp: at)
      then have "d = c" using True by simp
      then have "b = p" using b d \<open>b \<noteq> c\<close> old [of b m] tree_okD(4) [OF t(1), of b m c] c(1,2) tree_okD(1) [OF t(1), of b m] by (auto simp: at split: if_splits)
      then show ?thesis using \<open>d = c\<close> by (simp add: at)
    next
      case False
      then obtain k where k: "N d = Some k" "fn_parent k = b"
        using b d new old [of b m] tree_okD(4) [OF t(1) p(1), of d] tree_okD(4) [OF t(1), of b m d] by (auto simp: at split: if_splits)
      then show ?thesis using keep [OF k(1)] False by simp
    qed
    show "\<exists>q. N' (fn_parent m) = Some q \<and> b \<in> set (kids A' q)" if f: "fn_parent m \<noteq> 0"
    proof (cases "b = c")
      case True
      then show ?thesis using b new c(5) by (auto simp: at)
    next
      case False
      then obtain k where k: "N b = Some k" "fn_parent k = fn_parent m" using b p(1) by (auto simp: at split: if_splits)
      then obtain q where q: "N (fn_parent m) = Some q" "b \<in> set (kids A q)" using tree_okD(5) [OF t(1) k(1)] f by auto
      have "\<exists>q'. N' (fn_parent m) = Some q'" using q(1) by (simp add: at)
      then show ?thesis using kk [OF q(1)] q(2) by blast
    qed
    show "fn_children m \<noteq> fn_children k" if d: "N' d = Some k" "b \<noteq> d" "fn_children m \<noteq> 0" for d k
    proof -
      obtain m' k' where "N b = Some m'" "fn_children m' = fn_children m" "N d = Some k'" "fn_children k' = fn_children k"
        using orig [OF b] orig [OF d(1)] by blast
      then show ?thesis using tree_okD(6) [OF t(1), of b m' d k'] d(2,3) by simp
    qed
    show "(rank(c := Suc (rank p))) (fn_parent m) < (rank(c := Suc (rank p))) b" if f: "fn_parent m \<noteq> 0"
    proof (cases "b = c")
      case True
      then show ?thesis using b c(5) by (auto simp: at)
    next
      case False
      then obtain k where k: "N b = Some k" "fn_parent k = fn_parent m" using b p(1) by (auto simp: at split: if_splits)
      then show ?thesis using rank [OF k(1)] noc [OF k(1)] f False by simp
    qed
  next
    show "\<exists>k. N' r = Some k \<and> fn_type k = FS_DIRECTORY \<and> fn_parent k = 0" using tree_okD(7) [OF t(1)] c(4) p(1) by (auto simp: at)
  qed
qed

text \<open>A child is taken out of its directory; the rest of the array moves up.\<close>

lemma tree_unlink:
  assumes t: "tree_ok N A r" "A 0 = None" and c: "N c = Some cn" "fn_parent cn = p" "p \<noteq> 0" and p: "N p = Some pn" "A (fn_children pn) = Some arr"
    and arr': "length arr' = 32" "take (child_count pn - 1) arr' = remove1 c (kids A pn)"
  defines "N' \<equiv> N(p \<mapsto> pn\<lparr>child_count := child_count pn - 1\<rparr>, c \<mapsto> cn\<lparr>fn_parent := 0\<rparr>)"
    and "A' \<equiv> A(fn_children pn \<mapsto> arr')"
  shows "tree_ok N' A' r"
proof -
  have ch: "fn_children pn \<noteq> 0" using p(2) t(2) by auto
  obtain rank :: "addr \<Rightarrow> nat" where rank: "\<And>b m. N b = Some m \<Longrightarrow> fn_parent m \<noteq> 0 \<Longrightarrow> rank (fn_parent m) < rank b"
    using tree_okD(8) [OF t(1)] by blast
  have cp: "c \<noteq> p" using rank [OF c(1)] c(2,3) by auto
  have cr: "c \<noteq> r" using tree_okD(7) [OF t(1)] c by auto
  have dp: "distinct (kids A pn)" by (rule tree_okD(3) [OF t(1) p(1)])
  have ne: "fn_children m \<noteq> fn_children pn" if "N b = Some m" "b \<noteq> p" for b m
    using tree_okD(6) [OF t(1) p(1) that(1)] that(2) ch by auto
  have new: "kids A' (pn\<lparr>child_count := child_count pn - 1\<rparr>) = remove1 c (kids A pn)" using arr'(2) by (simp add: kids_def A'_def)
  have old: "kids A' m = kids A m" "shape A' m" if "N b = Some m" "b \<noteq> p" for b m
    using tree_okD(2) [OF t(1) that(1)] ne [OF that] by (auto simp: kids_def A'_def shape_def)
  have oldc: "kids A' (cn\<lparr>fn_parent := 0\<rparr>) = kids A cn" "shape A' (cn\<lparr>fn_parent := 0\<rparr>)"
    using old [OF c(1) cp] by simp_all
  have shpp: "shape A' (pn\<lparr>child_count := child_count pn - 1\<rparr>)"
    using tree_okD(2) [OF t(1) p(1)] arr'(1) ch by (auto simp: shape_def A'_def)
  have at: "N' b = (if b = c then Some (cn\<lparr>fn_parent := 0\<rparr>) else if b = p then Some (pn\<lparr>child_count := child_count pn - 1\<rparr>) else N b)" for b
    using cp by (simp add: N'_def)
  have orig: "\<exists>m'. N b = Some m' \<and> fn_children m' = fn_children m \<and> set (kids A' m) = set (kids A m') - {c} \<and> distinct (kids A' m) \<and>
      fn_parent m = (if b = c then 0 else fn_parent m') \<and> shape A' m" if b: "N' b = Some m" for b m
  proof (cases "b = p")
    case True
    then show ?thesis using b p(1) new dp cp shpp by (auto simp: at)
  next
    case False
    then obtain m' where m': "N b = Some m'" "kids A' m = kids A m'" "fn_children m' = fn_children m" "fn_parent m = (if b = c then 0 else fn_parent m')" "shape A' m"
      using b c(1) old [of b] oldc by (auto simp: at split: if_splits)
    have "c \<notin> set (kids A m')" using tree_okD(4) [OF t(1) m'(1), of c] c(1,2) False by auto
    then show ?thesis using m' tree_okD(3) [OF t(1) m'(1)] by simp
  qed
  have there: "\<exists>m. N' b = Some m" if "N b = Some m'" for b m' using that by (auto simp: at)
  show ?thesis
  proof (rule tree_okI [where rank = rank])
    fix b m assume b: "N' b = Some m"
    then obtain m' where m': "N b = Some m'" "fn_children m' = fn_children m" "set (kids A' m) = set (kids A m') - {c}" "distinct (kids A' m)"
        "fn_parent m = (if b = c then 0 else fn_parent m')" "shape A' m" using orig by blast
    show "b \<noteq> 0 \<and> shape A' m \<and> distinct (kids A' m)" using m' tree_okD(1) [OF t(1) m'(1)] by simp
    show "\<exists>k. N' d = Some k \<and> fn_parent k = b" if "d \<in> set (kids A' m)" for d
    proof -
      have "d \<noteq> c" "d \<in> set (kids A m')" using that m'(3) by auto
      then show ?thesis using tree_okD(4) [OF t(1) m'(1), of d] p(1) by (auto simp: at)
    qed
    show "\<exists>q. N' (fn_parent m) = Some q \<and> b \<in> set (kids A' q)" if f: "fn_parent m \<noteq> 0"
    proof -
      have b: "b \<noteq> c" "fn_parent m = fn_parent m'" using f m'(5) by (auto split: if_splits)
      then obtain q where q: "N (fn_parent m) = Some q" "b \<in> set (kids A q)" using tree_okD(5) [OF t(1) m'(1)] f by auto
      obtain q' where "N' (fn_parent m) = Some q'" using there [OF q(1)] by blast
      then show ?thesis using orig [of "fn_parent m" q'] q b(1) by auto
    qed
    show "fn_children m \<noteq> fn_children k" if d: "N' d = Some k" "b \<noteq> d" "fn_children m \<noteq> 0" for d k
    proof -
      obtain k' where "N d = Some k'" "fn_children k' = fn_children k" using orig [OF d(1)] by blast
      then show ?thesis using tree_okD(6) [OF t(1) m'(1), of d k'] d(2,3) m'(2) by simp
    qed
    show "rank (fn_parent m) < rank b" if "fn_parent m \<noteq> 0" using that m'(5) rank [OF m'(1)] by (auto split: if_splits)
  next
    show "\<exists>k. N' r = Some k \<and> fn_type k = FS_DIRECTORY \<and> fn_parent k = 0" using tree_okD(7) [OF t(1)] cr p(1) by (auto simp: at)
  qed
qed

text \<open>A node without parent and children disappears.\<close>

lemma tree_drop:
  assumes t: "tree_ok N A r" "A 0 = None" and c: "N c = Some cn" "fn_parent cn = 0" "child_count cn = 0" "c \<noteq> r"
  shows "tree_ok (N(c := None)) (A(fn_children cn := None)) r"
proof -
  let ?N = "N(c := None)" and ?A = "A(fn_children cn := None)"
  obtain rank :: "addr \<Rightarrow> nat" where rank: "\<And>b m. N b = Some m \<Longrightarrow> fn_parent m \<noteq> 0 \<Longrightarrow> rank (fn_parent m) < rank b"
    using tree_okD(8) [OF t(1)] by blast
  have ne: "fn_children m \<noteq> fn_children cn" if "N b = Some m" "b \<noteq> c" "fn_children m \<noteq> 0" for b m
    using tree_okD(6) [OF t(1) that(1) c(1)] that by auto
  have old: "kids ?A m = kids A m" "shape ?A m" if "N b = Some m" "b \<noteq> c" for b m
    using tree_okD(2) [OF t(1) that(1)] ne [OF that] t(2) by (auto simp: kids_def shape_def split: if_splits)
  have kc: "kids A cn = []" using c(3) by (simp add: kids_def split: option.splits)
  have nokid: "c \<notin> set (kids A m)" if "N b = Some m" for b m
    using tree_okD(4) [OF t(1) that, of c] tree_okD(1) [OF t(1) that] c(1,2) by auto
  have noparent: "fn_parent m \<noteq> c" if "N b = Some m" for b m
    using tree_okD(5) [OF t(1) that] tree_okD(1) [OF t(1) c(1)] c(1) kc by auto
  show ?thesis
  proof (rule tree_okI [where rank = rank])
    fix b m assume "?N b = Some m"
    then have b: "b \<noteq> c" "N b = Some m" by (auto split: if_splits)
    show "b \<noteq> 0 \<and> shape ?A m \<and> distinct (kids ?A m)" using b old [OF b(2,1)] tree_okD(1,3) [OF t(1) b(2)] by simp
    show "\<exists>k. ?N d = Some k \<and> fn_parent k = b" if "d \<in> set (kids ?A m)" for d
      using that old(1) [OF b(2,1)] tree_okD(4) [OF t(1) b(2), of d] nokid [OF b(2)] by auto
    show "\<exists>q. ?N (fn_parent m) = Some q \<and> b \<in> set (kids ?A q)" if "fn_parent m \<noteq> 0"
      using tree_okD(5) [OF t(1) b(2) that] noparent [OF b(2)] old(1) by auto
    show "fn_children m \<noteq> fn_children k" if "?N d = Some k" "b \<noteq> d" "fn_children m \<noteq> 0" for d k
      using that tree_okD(6) [OF t(1) b(2), of d k] by (auto split: if_splits)
    show "rank (fn_parent m) < rank b" if "fn_parent m \<noteq> 0" by (rule rank [OF b(2) that])
  next
    show "\<exists>k. ?N r = Some k \<and> fn_type k = FS_DIRECTORY \<and> fn_parent k = 0" using tree_okD(7) [OF t(1)] c(4) by auto
  qed
qed

subsection \<open>Blocks of the heap\<close>

text \<open>What allocation leaves as it was: the blocks in use and their bytes.\<close>

definition heap_ext :: "heap \<Rightarrow> heap \<Rightarrow> bool" where
  "heap_ext h h' \<longleftrightarrow> heap_ok h' \<and> (\<forall>a k. owned h a = Some k \<longrightarrow> owned h' a = Some k \<and> (\<forall>x\<in>region a k. hmem h' x = hmem h x))"

lemma heap_ext_refl: "heap_ok h \<Longrightarrow> heap_ext h h"
  by (simp add: heap_ext_def)

lemma heap_ext_trans: "heap_ext h h' \<Longrightarrow> heap_ext h' h'' \<Longrightarrow> heap_ext h h''"
  unfolding heap_ext_def by (intro conjI allI impI) (simp, metis+)

lemma kmalloc_ext:
  assumes "heap_ok h" "unat n \<le> 0xFFFFFFF0"
  shows "\<exists>p h'. kmalloc h n = Some (p, h') \<and> heap_ext h h' \<and> (p = 0 \<longrightarrow> h' = h) \<and>
    (p \<noteq> 0 \<longrightarrow> owned h p = None \<and> (\<exists>k\<ge>unat n. owned h' = (owned h)(p \<mapsto> k)))"
proof -
  obtain p h' where r: "kmalloc h n = Some (p, h')" "heap_ok h'" using kheap.malloc_total [OF assms(1)] by blast
  have o: "owned h p = None \<and> (\<exists>k\<ge>unat n. owned h' = (owned h)(p \<mapsto> k))" if "p \<noteq> 0"
    using kheap.malloc_own [OF assms(1) r(1) that] assms(2) by auto
  have z: "p = 0 \<longrightarrow> h' = h" using kheap.malloc_null [OF assms(1), of n h'] r(1) by auto
  have "owned h' a = Some k" if "owned h a = Some k" for a k
    using that o z by (cases "p = 0") auto
  then have "heap_ext h h'" using r(2) kheap.malloc_frame [OF assms(1) r(1)] by (simp add: heap_ext_def)
  then show ?thesis using r(1) o z by blast
qed

lemma mem_okI:
  assumes "heap_ok h" "\<And>a n. N a = Some n \<Longrightarrow> \<exists>k\<ge>88. owned h a = Some k" "\<And>a n. N a = Some n \<Longrightarrow> A a = None"
    "\<And>a n. N a = Some n \<Longrightarrow> N (fn_data n) = None \<and> A (fn_data n) = None"
    "\<And>a n. N a = Some n \<Longrightarrow> fn_data n = 0 \<Longrightarrow> fn_size n = 0"
    "\<And>a n. N a = Some n \<Longrightarrow> fn_data n \<noteq> 0 \<Longrightarrow> fn_type n = FS_FILE \<and> (\<exists>k. owned h (fn_data n) = Some k \<and> unat (fn_size n) \<le> k)"
    "\<And>a arr. A a = Some arr \<Longrightarrow> \<exists>k\<ge>128. owned h a = Some k"
    "\<And>a n b m. N a = Some n \<Longrightarrow> N b = Some m \<Longrightarrow> a \<noteq> b \<Longrightarrow> fn_data n \<noteq> 0 \<Longrightarrow> fn_data n \<noteq> fn_data m"
  shows "mem_ok h N A"
proof -
  have "\<forall>a n b m. N a = Some n \<and> N b = Some m \<and> a \<noteq> b \<and> fn_data n \<noteq> 0 \<longrightarrow> fn_data n \<noteq> fn_data m" using assms(8) by blast
  then show ?thesis unfolding mem_ok_def using assms(1-7) by simp
qed

lemma mem_ok_ext:
  assumes "mem_ok h N A" "heap_ext h h'"
  shows "mem_ok h' N A"
proof -
  note m = mem_okD [OF assms(1)]
  have e: "heap_ok h'" "owned h a = Some k \<Longrightarrow> owned h' a = Some k" for a k using assms(2) by (auto simp: heap_ext_def)
  show ?thesis by (rule mem_okI) (use m e in blast)+
qed

text \<open>A block that was not in use belongs to no structure.\<close>

lemma mem_fresh:
  assumes "mem_ok h N A" "owned h a = None"
  shows "N a = None" "A a = None" "N b = Some n \<Longrightarrow> fn_data n \<noteq> 0 \<Longrightarrow> fn_data n \<noteq> a" "N b = Some n \<Longrightarrow> b \<noteq> a"
  using mem_okD(2,6,7) [OF assms(1)] assms(2) by (metis not_None_eq option.distinct(1))+

lemma mem_insert_node:
  assumes "mem_ok h N A" "owned h a = None" "a \<noteq> 0" "heap_ext h h'" "owned h' a = Some k" "88 \<le> k" "fn_data n = 0" "fn_size n = 0"
  shows "mem_ok h' (N(a \<mapsto> n)) A"
proof -
  note m = mem_okD [OF mem_ok_ext [OF assms(1,4)]] and f = mem_fresh [OF assms(1,2)] and z = mem_ok_null [OF assms(1)]
  have d: "fn_data p \<noteq> a" if "N b = Some p" for b p using f(3) [OF that] assms(3) by auto
  show ?thesis
    by (rule mem_okI) (use m f z d assms in \<open>auto split: if_splits\<close>)
qed

lemma mem_insert_array:
  assumes "mem_ok h N A" "owned h c = None" "c \<noteq> 0" "heap_ext h h'" "owned h' c = Some k" "128 \<le> k"
  shows "mem_ok h' N (A(c \<mapsto> arr))"
proof -
  note m = mem_okD [OF mem_ok_ext [OF assms(1,4)]] and f = mem_fresh [OF assms(1,2)]
  have d: "fn_data p \<noteq> c" if "N b = Some p" for b p using f(3) [OF that] assms(3) by auto
  show ?thesis
    by (rule mem_okI) (use m f d assms in \<open>auto split: if_splits\<close>)
qed

subsection \<open>New nodes\<close>

definition new_node :: "path \<Rightarrow> FSNodeType \<Rightarrow> addr \<Rightarrow> FSNode" where
  "new_node name ty cs = \<lparr>fn_name = take 63 name, fn_type = ty, fn_size = 0, fn_data = 0, fn_parent = 0, fn_children = cs, child_count = 0\<rparr>"

lemma new_node_simps [simp]:
  "fn_name (new_node name ty cs) = take 63 name" "fn_type (new_node name ty cs) = ty" "fn_size (new_node name ty cs) = 0" "fn_data (new_node name ty cs) = 0"
  "fn_parent (new_node name ty cs) = 0" "fn_children (new_node name ty cs) = cs" "child_count (new_node name ty cs) = 0"
  by (simp_all add: new_node_def)

text \<open>What every operation of this section leaves alone.\<close>

definition extends :: "ramfs \<Rightarrow> ramfs \<Rightarrow> bool" where
  "extends s s' \<longleftrightarrow> heap_ext (rf_heap s) (rf_heap s') \<and> fs_root s' = fs_root s \<and> fd_table s' = fd_table s"

lemma ramfs_okD:
  assumes "ramfs_ok s"
  shows "tree_ok (nodes s) (arrays s) (fs_root s)" "mem_ok (rf_heap s) (nodes s) (arrays s)" "heap_ok (rf_heap s)" "arrays s 0 = None" "nodes s 0 = None"
  using assms mem_okD(1) mem_ok_null by (auto simp: ramfs_ok_def)

text \<open>Creating a node, first from the two blocks it takes.\<close>

lemma insert_file_ok:
  assumes "ramfs_ok s" "owned (rf_heap s) a = None" "a \<noteq> 0" "heap_ext (rf_heap s) h" "owned h a = Some k" "88 \<le> k"
  shows "ramfs_ok (s\<lparr>rf_heap := h, nodes := (nodes s)(a \<mapsto> new_node name ty 0)\<rparr>)"
proof -
  note o = ramfs_okD [OF assms(1)]
  have "tree_ok ((nodes s)(a \<mapsto> new_node name ty 0)) (arrays s) (fs_root s)"
    using tree_insert [OF o(1,4) mem_fresh(1) [OF o(2) assms(2)] assms(3), of "new_node name ty 0"] by simp
  moreover have "mem_ok h ((nodes s)(a \<mapsto> new_node name ty 0)) (arrays s)" by (rule mem_insert_node [OF o(2) assms(2-6)]) simp_all
  ultimately show ?thesis by (simp add: ramfs_ok_def)
qed

lemma insert_directory_ok:
  assumes "ramfs_ok s" "owned (rf_heap s) a = None" "a \<noteq> 0" "heap_ext (rf_heap s) h1" "owned h1 a = Some k" "88 \<le> k"
    "owned h1 c = None" "c \<noteq> 0" "heap_ext h1 h2" "owned h2 c = Some j" "128 \<le> j"
  shows "ramfs_ok (s\<lparr>rf_heap := h2, nodes := (nodes s)(a \<mapsto> new_node name FS_DIRECTORY c), arrays := (arrays s)(c \<mapsto> replicate 32 0)\<rparr>)"
proof -
  note o = ramfs_okD [OF assms(1)]
  have m1: "mem_ok h1 ((nodes s)(a \<mapsto> new_node name FS_DIRECTORY c)) (arrays s)" by (rule mem_insert_node [OF o(2) assms(2-6)]) simp_all
  have "tree_ok ((nodes s)(a \<mapsto> new_node name FS_DIRECTORY c)) ((arrays s)(c \<mapsto> replicate 32 0)) (fs_root s)"
    using tree_insert [OF o(1,4) mem_fresh(1) [OF o(2) assms(2)] assms(3), of "new_node name FS_DIRECTORY c"] mem_fresh(2) [OF m1 assms(7)] assms(8) by simp
  moreover have "mem_ok h2 ((nodes s)(a \<mapsto> new_node name FS_DIRECTORY c)) ((arrays s)(c \<mapsto> replicate 32 0))"
    by (rule mem_insert_array [OF m1 assms(7-11)])
  ultimately show ?thesis by (simp add: ramfs_ok_def)
qed

lemma create_node_spec:
  assumes "ramfs_ok s"
  shows "\<exists>a s'. fs_create_node name ty s = Some (a, s') \<and> ramfs_ok s' \<and> extends s s' \<and> (a = 0 \<longrightarrow> nodes s' = nodes s \<and> arrays s' = arrays s) \<and>
    (a \<noteq> 0 \<longrightarrow> owned (rf_heap s) a = None \<and> nodes s a = None \<and>
      (\<exists>cs. nodes s' = (nodes s)(a \<mapsto> new_node name ty cs) \<and> (ty = FS_FILE \<longrightarrow> cs = 0) \<and> owned (rf_heap s) cs = None \<and>
        arrays s' = (if cs \<noteq> 0 then (arrays s)(cs \<mapsto> replicate 32 0) else arrays s)))"
proof -
  note o = ramfs_okD [OF assms]
  obtain a h where k: "kmalloc (rf_heap s) 88 = Some (a, h)" "heap_ext (rf_heap s) h" "a = 0 \<longrightarrow> h = rf_heap s"
    "a \<noteq> 0 \<longrightarrow> owned (rf_heap s) a = None \<and> (\<exists>k\<ge>88. owned h = (owned (rf_heap s))(a \<mapsto> k))" using kmalloc_ext [OF o(3), of 88] by auto
  have z: "owned (rf_heap s) 0 = None" using kheap.own_bounds [OF o(3), of 0] by (cases "owned (rf_heap s) 0") auto
  show ?thesis
  proof (cases "a = 0")
    case True
    then show ?thesis using k assms by (auto simp: fs_create_node_def extends_def)
  next
    case a: False
    then obtain j where j: "owned (rf_heap s) a = None" "owned h = (owned (rf_heap s))(a \<mapsto> j)" "88 \<le> j" using k(4) by blast
    have fr: "nodes s a = None" by (rule mem_fresh(1) [OF o(2) j(1)])
    have ja: "owned h a = Some j" using j(2) by simp
    show ?thesis
    proof (cases ty)
      case FS_FILE
      have "fs_create_node name ty s = Some (a, s\<lparr>rf_heap := h, nodes := (nodes s)(a \<mapsto> new_node name ty 0)\<rparr>)"
        using k(1) a FS_FILE by (simp add: fs_create_node_def new_node_def VFS_MAX_NAME_def)
      then show ?thesis using insert_file_ok [OF assms j(1) a k(2) ja j(3), of name ty] j(1) fr k(2) z a
        by (auto simp: extends_def)
    next
      case FS_DIRECTORY
      have hk: "heap_ok h" using k(2) by (simp add: heap_ext_def)
      obtain c h2 where k2: "kmalloc h 128 = Some (c, h2)" "heap_ext h h2" "c = 0 \<longrightarrow> h2 = h"
        "c \<noteq> 0 \<longrightarrow> owned h c = None \<and> (\<exists>k\<ge>128. owned h2 = (owned h)(c \<mapsto> k))" using kmalloc_ext [OF hk, of 128] by auto
      let ?s = "s\<lparr>rf_heap := h2, nodes := (nodes s)(a \<mapsto> new_node name ty c), arrays := (if c \<noteq> 0 then (arrays s)(c \<mapsto> replicate 32 0) else arrays s)\<rparr>"
      have run: "fs_create_node name ty s = Some (a, ?s)" using k(1) k2(1) a FS_DIRECTORY by (simp add: fs_create_node_def new_node_def VFS_MAX_NAME_def MAX_CHILDREN_def)
      have ext: "heap_ext (rf_heap s) h2" by (rule heap_ext_trans [OF k(2) k2(2)])
      have "ramfs_ok ?s \<and> owned (rf_heap s) c = None"
      proof (cases "c = 0")
        case True
        then show ?thesis using insert_file_ok [OF assms j(1) a k(2) ja j(3), of name ty] k2(3) z by simp
      next
        case False
        then obtain i where i: "owned h c = None" "owned h2 c = Some i" "128 \<le> i" using k2(4) by auto
        have "owned (rf_heap s) c = None" using i(1) k(2) by (cases "owned (rf_heap s) c") (auto simp: heap_ext_def)
        then show ?thesis using insert_directory_ok [OF assms j(1) a k(2) ja j(3) i(1) False k2(2) i(2,3), of name] False FS_DIRECTORY by simp
      qed
      then show ?thesis using run j(1) fr ext a by (auto simp: extends_def FS_DIRECTORY)
    qed
  qed
qed

text \<open>Changes of the tree that leave the data blocks alone.\<close>

lemma mem_same:
  assumes "mem_ok h N A" "\<And>a. map_option (\<lambda>n. (fn_data n, fn_size n, fn_type n)) (N' a) = map_option (\<lambda>n. (fn_data n, fn_size n, fn_type n)) (N a)"
    "\<And>a. A' a = None \<longleftrightarrow> A a = None"
  shows "mem_ok h N' A'"
proof -
  note m = mem_okD [OF assms(1)]
  have orig: "\<exists>n. N a = Some n \<and> fn_data n = fn_data n' \<and> fn_size n = fn_size n' \<and> fn_type n = fn_type n'" if "N' a = Some n'" for a n'
    using assms(2) [of a] that by (cases "N a") auto
  have none: "N' a = None \<longleftrightarrow> N a = None" for a using assms(2) [of a] by (cases "N a"; cases "N' a") auto
  show ?thesis
  proof (rule mem_okI)
    fix a n assume "N' a = Some n"
    then obtain k where k: "N a = Some k" "fn_data k = fn_data n" "fn_size k = fn_size n" "fn_type k = fn_type n" using orig by blast
    show "\<exists>k\<ge>88. owned h a = Some k" by (rule m(2) [OF k(1)])
    show "A' a = None" using m(3) [OF k(1)] assms(3) by simp
    show "N' (fn_data n) = None \<and> A' (fn_data n) = None" using m(4) [OF k(1)] k(2) none assms(3) by simp
    show "fn_size n = 0" if "fn_data n = 0" using m(5) [OF k(1)] k that by simp
    show "fn_type n = FS_FILE \<and> (\<exists>k. owned h (fn_data n) = Some k \<and> unat (fn_size n) \<le> k)" if "fn_data n \<noteq> 0" using m(6) [OF k(1)] k that by simp
    show "fn_data n \<noteq> fn_data j" if "N' b = Some j" "a \<noteq> b" "fn_data n \<noteq> 0" for b j
      using orig [OF that(1)] that(2,3) m(8) [OF k(1), of b] k(2) by auto
  next
    show "\<exists>k\<ge>128. owned h a = Some k" if "A' a = Some arr" for a arr using m(7) [of a] assms(3) [of a] that by (cases "A a") simp_all
  qed (rule m(1))
qed

lemma add_child_spec:
  assumes "ramfs_ok s" "nodes s p = Some pn" "fn_type pn = FS_DIRECTORY" "nodes s c = Some cn" "fn_parent cn = 0" "child_count cn = 0" "c \<noteq> fs_root s" "c \<noteq> p"
  shows "child_count pn = 32 \<Longrightarrow> fs_add_child p c s = Some s" "fn_children pn = 0 \<Longrightarrow> fs_add_child p c s = None"
    "child_count pn < 32 \<Longrightarrow> fn_children pn \<noteq> 0 \<Longrightarrow>
      \<exists>s'. fs_add_child p c s = Some s' \<and> ramfs_ok s' \<and> rf_heap s' = rf_heap s \<and> fs_root s' = fs_root s \<and> fd_table s' = fd_table s \<and>
        nodes s' = (nodes s)(p \<mapsto> pn\<lparr>child_count := child_count pn + 1\<rparr>, c \<mapsto> cn\<lparr>fn_parent := p\<rparr>) \<and>
        kids (arrays s') (pn\<lparr>child_count := child_count pn + 1\<rparr>) = kids (arrays s) pn @ [c] \<and>
        (\<forall>b m. nodes s b = Some m \<and> b \<noteq> p \<longrightarrow> kids (arrays s') m = kids (arrays s) m)"
proof -
  note o = ramfs_okD [OF assms(1)]
  have p0: "p \<noteq> 0" and sh: "shape (arrays s) pn" using tree_okD(1,2) [OF o(1) assms(2)] by auto
  show "child_count pn = 32 \<Longrightarrow> fs_add_child p c s = Some s" using p0 assms(2) by (simp add: fs_add_child_def MAX_CHILDREN_def)
  show "fn_children pn = 0 \<Longrightarrow> fs_add_child p c s = None" using p0 assms(2,3) sh o(4) by (simp add: fs_add_child_def MAX_CHILDREN_def shape_def)
  assume r: "child_count pn < 32" "fn_children pn \<noteq> 0"
  then obtain arr where arr: "arrays s (fn_children pn) = Some arr" using sh by (auto simp: shape_def)
  let ?N = "(nodes s)(p \<mapsto> pn\<lparr>child_count := child_count pn + 1\<rparr>, c \<mapsto> cn\<lparr>fn_parent := p\<rparr>)"
  let ?A = "(arrays s)(fn_children pn \<mapsto> arr[child_count pn := c])"
  let ?s = "s\<lparr>nodes := ?N, arrays := ?A\<rparr>"
  note l = tree_link [OF o(1,4) assms(2) r(1) arr assms(4-8)]
  have "mem_ok (rf_heap s) ?N ?A" by (rule mem_same [OF o(2)]) (use assms(2,4) arr in auto)
  then have ok: "ramfs_ok ?s" using l(1) by (simp add: ramfs_ok_def)
  have run: "fs_add_child p c s = Some ?s"
    using p0 assms(2-4,8) r arr by (simp add: fs_add_child_def upd_node_def MAX_CHILDREN_def fun_upd_twist)
  have l3: "\<forall>b m. nodes s b = Some m \<and> b \<noteq> p \<longrightarrow> kids ?A m = kids (arrays s) m" using l(3) by blast
  show "\<exists>s'. fs_add_child p c s = Some s' \<and> ramfs_ok s' \<and> rf_heap s' = rf_heap s \<and> fs_root s' = fs_root s \<and> fd_table s' = fd_table s \<and>
        nodes s' = (nodes s)(p \<mapsto> pn\<lparr>child_count := child_count pn + 1\<rparr>, c \<mapsto> cn\<lparr>fn_parent := p\<rparr>) \<and>
        kids (arrays s') (pn\<lparr>child_count := child_count pn + 1\<rparr>) = kids (arrays s) pn @ [c] \<and>
        (\<forall>b m. nodes s b = Some m \<and> b \<noteq> p \<longrightarrow> kids (arrays s') m = kids (arrays s) m)"
    using ok run l(2) l3 by (intro exI [of _ ?s]) simp
qed

subsection \<open>The data block of a file\<close>

lemma tree_set_data:
  assumes t: "tree_ok N A r" and a: "N a = Some n"
  shows "tree_ok (N(a \<mapsto> n\<lparr>fn_data := d, fn_size := z\<rparr>)) A r"
proof -
  let ?N = "N(a \<mapsto> n\<lparr>fn_data := d, fn_size := z\<rparr>)"
  obtain rank :: "addr \<Rightarrow> nat" where rank: "\<And>b m. N b = Some m \<Longrightarrow> fn_parent m \<noteq> 0 \<Longrightarrow> rank (fn_parent m) < rank b"
    using tree_okD(8) [OF t] by blast
  have orig: "\<exists>m'. N b = Some m' \<and> fn_children m' = fn_children m \<and> fn_parent m' = fn_parent m \<and> kids A m' = kids A m \<and> (shape A m' \<longrightarrow> shape A m)"
    if "?N b = Some m" for b m using that a by (auto split: if_splits)
  have new: "\<exists>m'. ?N b = Some m' \<and> fn_type m' = fn_type m \<and> fn_parent m' = fn_parent m \<and> kids A m' = kids A m" if "N b = Some m" for b m
    using that a by auto
  show ?thesis
  proof (rule tree_okI [where rank = rank])
    fix b m assume "?N b = Some m"
    then obtain m' where m': "N b = Some m'" "fn_children m' = fn_children m" "fn_parent m' = fn_parent m" "kids A m' = kids A m" "shape A m' \<longrightarrow> shape A m"
      using orig by blast
    show "b \<noteq> 0 \<and> shape A m \<and> distinct (kids A m)" using m' tree_okD(1-3) [OF t m'(1)] by simp
    show "\<exists>k. ?N c = Some k \<and> fn_parent k = b" if "c \<in> set (kids A m)" for c
      using tree_okD(4) [OF t m'(1), of c] that m'(4) new [of c] by fastforce
    show "\<exists>p. ?N (fn_parent m) = Some p \<and> b \<in> set (kids A p)" if "fn_parent m \<noteq> 0"
      using tree_okD(5) [OF t m'(1)] that m'(3) new [of "fn_parent m"] by fastforce
    show "fn_children m \<noteq> fn_children k" if "?N c = Some k" "b \<noteq> c" "fn_children m \<noteq> 0" for c k
      using orig [OF that(1)] that(2,3) tree_okD(6) [OF t m'(1), of c] m'(2) by fastforce
    show "rank (fn_parent m) < rank b" if "fn_parent m \<noteq> 0" using rank [OF m'(1)] that m'(3) by simp
  next
    show "\<exists>k. ?N r = Some k \<and> fn_type k = FS_DIRECTORY \<and> fn_parent k = 0" using tree_okD(7) [OF t] new [of r] by fastforce
  qed
qed

lemma mem_set_data:
  assumes "mem_ok h N A" "N a = Some n" "fn_type n = FS_FILE" "heap_ok h'" "d \<noteq> 0" "owned h' d = Some k" "unat z \<le> k"
    and keep: "\<And>b j. owned h b = Some j \<Longrightarrow> b \<noteq> fn_data n \<Longrightarrow> owned h' b = Some j" and fresh: "owned h d = None \<or> d = fn_data n"
  shows "mem_ok h' (N(a \<mapsto> n\<lparr>fn_data := d, fn_size := z\<rparr>)) A"
proof -
  note m = mem_okD [OF assms(1)]
  let ?N = "N(a \<mapsto> n\<lparr>fn_data := d, fn_size := z\<rparr>)"
  have dn: "N d = None" "A d = None" using fresh mem_fresh(1,2) [OF assms(1)] m(4) [OF assms(2)] by auto
  have used: "\<exists>i\<ge>j. owned h' b = Some i" if "\<exists>i\<ge>j. owned h b = Some i" "b \<noteq> fn_data n" for b j using keep that by blast
  have other: "fn_data q \<noteq> d" if "N b = Some q" "b \<noteq> a" "fn_data q \<noteq> 0" for b q
    using fresh mem_fresh(3) [OF assms(1) _ that(1,3), of d] m(8) [OF that(1) assms(2) that(2,3)] by auto
  show ?thesis
  proof (rule mem_okI)
    fix b q assume b: "?N b = Some q"
    then obtain q' where q': "N b = Some q'" "b \<noteq> a \<longrightarrow> q' = q" using assms(2) by (auto split: if_splits)
    show "\<exists>k\<ge>88. owned h' b = Some k" using used [OF m(2) [OF q'(1)]] q'(1) m(4) [OF assms(2)] by fastforce
    show "A b = None" by (rule m(3) [OF q'(1)])
    show "?N (fn_data q) = None \<and> A (fn_data q) = None"
      using b q' dn m(4) [OF q'(1)] assms(2) by (cases "b = a") auto
    show "fn_size q = 0" if "fn_data q = 0" using b q' that assms(5) m(5) [OF q'(1)] by (cases "b = a") auto
    show "fn_type q = FS_FILE \<and> (\<exists>k. owned h' (fn_data q) = Some k \<and> unat (fn_size q) \<le> k)" if nz: "fn_data q \<noteq> 0"
    proof (cases "b = a")
      case False
      then have "fn_data q \<noteq> fn_data n" using q' m(8) [OF q'(1) assms(2) False] nz by auto
      then show ?thesis using m(6) [OF q'(1)] q' nz keep False by blast
    qed (use b assms in auto)
    show "fn_data q \<noteq> fn_data p" if "?N c = Some p" "b \<noteq> c" "fn_data q \<noteq> 0" for c p
      using that b q' other [of b q] other [of c p] m(8) [of b q c p] assms(5) by (auto split: if_splits)
  next
    show "\<exists>k\<ge>128. owned h' c = Some k" if "A c = Some arr" for c arr
      using used m(7) [OF that] that m(4) [OF assms(2)] by (metis option.distinct(1))
  qed (rule assms(4))
qed

subsection \<open>Lookups after a node was added\<close>

text \<open>\<open>a\<close> became the last child of \<open>p\<close>; every other node is where it was.\<close>

definition grows :: "ramfs \<Rightarrow> ramfs \<Rightarrow> addr \<Rightarrow> addr \<Rightarrow> bool" where
  "grows s s' p a \<longleftrightarrow> (\<forall>b m. nodes s b = Some m \<longrightarrow>
     (\<exists>m'. nodes s' b = Some m' \<and> fn_name m' = fn_name m \<and> fn_type m' = fn_type m \<and> fn_parent m' = fn_parent m \<and> fn_data m' = fn_data m \<and> fn_size m' = fn_size m \<and>
        kids (arrays s') m' = kids (arrays s) m @ (if b = p then [a] else [])))"

lemma find_append: "find P (xs @ ys) = (case find P xs of None \<Rightarrow> find P ys | Some x \<Rightarrow> Some x)"
  by (induction xs) auto

lemma grows_find:
  assumes "ramfs_ok s" "grows s s' p a" "nodes s b = Some m"
  shows "find (\<lambda>c. map_option fn_name (nodes s' c) = Some t) (kids (arrays s) m) = find (\<lambda>c. map_option fn_name (nodes s c) = Some t) (kids (arrays s) m)"
proof (rule find_cong [OF refl])
  fix c assume "c \<in> set (kids (arrays s) m)"
  then obtain q where q: "nodes s c = Some q" using kids_are_nodes [OF assms(1,3)] by blast
  then obtain q' where "nodes s' c = Some q'" "fn_name q' = fn_name q" using assms(2) unfolding grows_def by blast
  with q show "(map_option fn_name (nodes s' c) = Some t) = (map_option fn_name (nodes s c) = Some t)" by simp
qed

lemma grows_child:
  assumes "ramfs_ok s" "grows s s' p a" "child_named s b t \<noteq> 0"
  shows "child_named s' b t = child_named s b t"
proof -
  obtain m where m: "nodes s b = Some m" using assms(3) by (auto simp: child_named_def split: option.splits)
  obtain m' where m': "nodes s' b = Some m'" "fn_type m' = fn_type m" "kids (arrays s') m' = kids (arrays s) m @ (if b = p then [a] else [])"
    using assms(2) m unfolding grows_def by blast
  show ?thesis using assms(3) m m' grows_find [OF assms(1,2) m] by (auto simp: child_named_def find_append split: option.splits if_splits)
qed

lemma grows_up: "grows s s' p a \<Longrightarrow> nodes s b \<noteq> None \<Longrightarrow> up s' b = up s b"
  by (fastforce simp: grows_def up_def)

lemma grows_walk:
  assumes "ramfs_ok s" "grows s s' p a" "nodes s b \<noteq> None" "walk_tree s b ts \<noteq> 0"
  shows "walk_tree s' b ts = walk_tree s b ts"
  using assms(3,4)
proof (induction ts arbitrary: b)
  case (Cons t ts)
  show ?case
    using Cons.prems Cons.IH [of b] Cons.IH [of "up s b"] Cons.IH [of "child_named s b t"] up_node [OF assms(1) Cons.prems(1)]
      child_named_node [OF assms(1), of b t] grows_up [OF assms(2) Cons.prems(1)] grows_child [OF assms(1,2), of b t]
    by (simp del: not_None_eq split: if_splits)
qed simp

lemma walk_tree_snoc:
  assumes "walk_tree s b ts \<noteq> 0" "t \<noteq> [DOT]" "t \<noteq> [DOT, DOT]"
  shows "walk_tree s b (ts @ [t]) = child_named s (walk_tree s b ts) t"
  using assms(1)
proof (induction ts arbitrary: b)
  case (Cons u ts)
  then show ?case by (simp split: if_splits)
qed (use assms in simp)

lemma tokens_append_slash: "path_tokens (p @ SLASH # q) = path_tokens p @ path_tokens q"
proof (induction p rule: path_tokens.induct)
  case (2 c cs)
  have d: "takeWhile (\<lambda>x. x \<noteq> SLASH) (cs @ SLASH # q) = takeWhile (\<lambda>x. x \<noteq> SLASH) cs"
    "dropWhile (\<lambda>x. x \<noteq> SLASH) (cs @ SLASH # q) = dropWhile (\<lambda>x. x \<noteq> SLASH) cs @ SLASH # q" by (induction cs) auto
  show ?case using 2 d by (cases "c = SLASH") simp_all
qed simp

lemma split_path_short: "split_path path = Some (pp, name) \<Longrightarrow> length name < 64"
  by (auto simp: split_path_def fit_def Let_def split: if_splits bind_splits)

lemma split_path_tokens:
  assumes "split_path path = Some (pp, name)" "pp \<noteq> []"
  shows "path_tokens path = path_tokens pp @ path_tokens name" "length name < 64" "SLASH \<notin> set name" "hd pp = SLASH \<Longrightarrow> path \<noteq> [] \<and> hd path = SLASH"
proof -
  have sl: "SLASH \<in> set path" using assms by (auto simp: split_path_def split: if_splits bind_splits)
  define n where "n = rev (takeWhile (\<lambda>c. c \<noteq> SLASH) (rev path))"
  define pre where "pre = take (length path - length n - 1) path"
  have "rev path = takeWhile (\<lambda>c. c \<noteq> SLASH) (rev path) @ dropWhile (\<lambda>c. c \<noteq> SLASH) (rev path)" by simp
  moreover obtain y ys where y: "dropWhile (\<lambda>c. c \<noteq> SLASH) (rev path) = y # ys" using sl by (cases "dropWhile (\<lambda>c. c \<noteq> SLASH) (rev path)") (auto simp: dropWhile_eq_Nil_conv)
  moreover have "y = SLASH" using hd_dropWhile [of "\<lambda>c. c \<noteq> SLASH" "rev path"] y by auto
  ultimately have "rev path = rev n @ SLASH # ys" by (simp add: n_def)
  then have path: "path = rev ys @ SLASH # n" by (metis rev_append rev_rev_ident rev.simps(2) append.assoc append_Cons append_Nil)
  then have pre: "pre = rev ys" by (simp add: pre_def)
  have r: "pp = (if pre = [] then [SLASH] else pre)" "name = n" "length n < 64"
    using assms(1) sl by (auto simp: split_path_def Let_def fit_def n_def [symmetric] pre_def split: if_splits bind_splits)
  show "path_tokens path = path_tokens pp @ path_tokens name" using path pre r tokens_append_slash [of "rev ys" n] by auto
  show "length name < 64" using r by simp
  show "SLASH \<notin> set name" using r by (auto simp: n_def dest: set_takeWhileD)
  show "path \<noteq> [] \<and> hd path = SLASH" if "hd pp = SLASH" using that path pre r by (cases "rev ys") (auto split: if_splits)
qed

subsection \<open>Creating files and directories\<close>

lemma kids_new_array:
  assumes "ramfs_ok s" "owned (rf_heap s) cs = None" "nodes s b = Some m"
  shows "kids (if cs \<noteq> 0 then (arrays s)(cs \<mapsto> arr) else arrays s) m = kids (arrays s) m"
proof -
  note o = ramfs_okD [OF assms(1)]
  have "fn_children m \<noteq> cs" if "cs \<noteq> 0" using tree_okD(2) [OF o(1) assms(3)] mem_fresh(2) [OF o(2) assms(2)] that by (auto simp: shape_def)
  then show ?thesis by (simp add: kids_def)
qed

lemma link_new:
  assumes "ramfs_ok s" "ramfs_ok s1" "nodes s1 = (nodes s)(a \<mapsto> n)" "nodes s a = None" "fs_root s1 = fs_root s"
    and k: "\<And>b m. nodes s b = Some m \<Longrightarrow> kids (arrays s1) m = kids (arrays s) m" and n: "fn_parent n = 0" "child_count n = 0"
    and p: "nodes s p = Some pn" "fn_type pn = FS_DIRECTORY" "child_count pn < 32" "fn_children pn \<noteq> 0"
  shows "\<exists>s2. fs_add_child p a s1 = Some s2 \<and> ramfs_ok s2 \<and> grows s s2 p a \<and> nodes s2 a = Some (n\<lparr>fn_parent := p\<rparr>) \<and>
    rf_heap s2 = rf_heap s1 \<and> fs_root s2 = fs_root s1 \<and> fd_table s2 = fd_table s1"
proof -
  have pa: "p \<noteq> a" and ra: "fs_root s \<noteq> a" using p(1) assms(4) root_node [OF assms(1)] by auto
  have "nodes s1 p = Some pn" "nodes s1 a = Some n" using p(1) pa assms(3) by auto
  then obtain s2 where s2: "fs_add_child p a s1 = Some s2" "ramfs_ok s2" "rf_heap s2 = rf_heap s1" "fs_root s2 = fs_root s1" "fd_table s2 = fd_table s1"
    "nodes s2 = (nodes s1)(p \<mapsto> pn\<lparr>child_count := child_count pn + 1\<rparr>, a \<mapsto> n\<lparr>fn_parent := p\<rparr>)"
    "kids (arrays s2) (pn\<lparr>child_count := child_count pn + 1\<rparr>) = kids (arrays s1) pn @ [a]"
    "\<forall>b m. nodes s1 b = Some m \<and> b \<noteq> p \<longrightarrow> kids (arrays s2) m = kids (arrays s1) m"
    using add_child_spec(3) [OF assms(2), of p pn a n] p n ra pa assms(5) by auto
  have "grows s s2 p a"
    unfolding grows_def
  proof (intro allI impI)
    fix b m assume b: "nodes s b = Some m"
    then have "b \<noteq> a" "nodes s1 b = Some m" using assms(3,4) by auto
    then show "\<exists>m'. nodes s2 b = Some m' \<and> fn_name m' = fn_name m \<and> fn_type m' = fn_type m \<and> fn_parent m' = fn_parent m \<and> fn_data m' = fn_data m \<and>
        fn_size m' = fn_size m \<and> kids (arrays s2) m' = kids (arrays s) m @ (if b = p then [a] else [])"
      using b p(1) s2(6-8) k [OF b] pa by (cases "b = p") auto
  qed
  then show ?thesis using s2 by auto
qed

text \<open>A file with its first block of data, before it is linked.\<close>

lemma new_file_spec:
  assumes "ramfs_ok s"
  obtains (none) s1 where "fs_create_node name FS_FILE s = Some (0, s1)" "ramfs_ok s1" "extends s s1" "nodes s1 = nodes s" "arrays s1 = arrays s"
  | (created) a s1 d h s2 where "fs_create_node name FS_FILE s = Some (a, s1)" "a \<noteq> 0" "kmalloc (rf_heap s1) 1024 = Some (d, h)"
      "upd_node a (\<lambda>n. n\<lparr>fn_data := d, fn_size := 0\<rparr>) (s1\<lparr>rf_heap := h\<rparr>) = Some s2" "ramfs_ok s2" "extends s s2" "nodes s a = None"
      "nodes s2 = (nodes s)(a \<mapsto> (new_node name FS_FILE 0)\<lparr>fn_data := d, fn_size := 0\<rparr>)" "arrays s2 = arrays s" "owned (rf_heap s) d = None"
proof -
  obtain a s1 where c: "fs_create_node name FS_FILE s = Some (a, s1)" "ramfs_ok s1" "extends s s1" "a = 0 \<longrightarrow> nodes s1 = nodes s \<and> arrays s1 = arrays s"
    "a \<noteq> 0 \<longrightarrow> nodes s a = None \<and> nodes s1 = (nodes s)(a \<mapsto> new_node name FS_FILE 0) \<and> arrays s1 = arrays s"
    using create_node_spec [OF assms, of name FS_FILE] by auto
  show thesis
  proof (cases "a = 0")
    case True
    then show thesis using c none [of s1] by simp
  next
    case a: False
    note o = ramfs_okD [OF c(2)]
    obtain d h where k: "kmalloc (rf_heap s1) 1024 = Some (d, h)" "heap_ext (rf_heap s1) h" "d = 0 \<longrightarrow> h = rf_heap s1"
      "d \<noteq> 0 \<longrightarrow> owned (rf_heap s1) d = None \<and> (\<exists>k\<ge>1024. owned h = (owned (rf_heap s1))(d \<mapsto> k))" using kmalloc_ext [OF o(3), of 1024] by auto
    have na: "nodes s1 a = Some (new_node name FS_FILE 0)" using c(5) a by simp
    define s2 where "s2 = s1\<lparr>rf_heap := h, nodes := (nodes s1)(a \<mapsto> (new_node name FS_FILE 0)\<lparr>fn_data := d, fn_size := 0\<rparr>)\<rparr>"
    have n2: "nodes s2 = (nodes s1)(a \<mapsto> (new_node name FS_FILE 0)\<lparr>fn_data := d, fn_size := 0\<rparr>)" by (simp add: s2_def)
    have run: "upd_node a (\<lambda>n. n\<lparr>fn_data := d, fn_size := 0\<rparr>) (s1\<lparr>rf_heap := h\<rparr>) = Some s2" using na by (simp add: upd_node_def s2_def)
    have ok: "ramfs_ok s2"
    proof (cases "d = 0")
      case True
      then have "(new_node name FS_FILE 0)\<lparr>fn_data := d, fn_size := 0\<rparr> = new_node name FS_FILE 0" by (simp add: new_node_def)
      then have "s2 = s1" using True k(3) na by (simp add: s2_def fun_upd_idem)
      then show ?thesis using c(2) by simp
    next
      case False
      then obtain j where j: "owned (rf_heap s1) d = None" "owned h = (owned (rf_heap s1))(d \<mapsto> j)" using k(4) by blast
      have "mem_ok h (nodes s2) (arrays s1)"
        unfolding n2 by (rule mem_set_data [OF o(2) na]) (use k(2) j False in \<open>auto simp: heap_ext_def\<close>)
      then show ?thesis using tree_set_data [OF o(1) na] by (simp add: ramfs_ok_def s2_def)
    qed
    have "extends s s2" using c(3) k(2) heap_ext_trans by (auto simp: extends_def s2_def)
    moreover have "owned (rf_heap s) d = None"
    proof (cases "owned (rf_heap s) d")
      case (Some j)
      then have "owned (rf_heap s1) d = Some j" using c(3) by (simp add: extends_def heap_ext_def)
      moreover have "d \<noteq> 0" using kheap.own_bounds [OF ramfs_okD(3) [OF assms] Some] by simp
      ultimately show ?thesis using k(4) by simp
    qed
    ultimately show thesis using created [OF c(1) a k(1) run ok] c(5) a by (simp add: s2_def)
  qed
qed

text \<open>The directory in which a path would create its last component: it exists, has room and an array of children.\<close>

definition target :: "path \<Rightarrow> ramfs \<Rightarrow> addr \<Rightarrow> path \<Rightarrow> bool" where
  "target path s p name \<longleftrightarrow> (\<exists>pp pn. split_path path = Some (pp, name) \<and> fs_find_by_path pp s = Some p \<and> nodes s p = Some pn \<and>
     fn_type pn = FS_DIRECTORY \<and> child_count pn < 32 \<and> fn_children pn \<noteq> 0)"

lemma extends_trans: "extends s s1 \<Longrightarrow> rf_heap s2 = rf_heap s1 \<Longrightarrow> fs_root s2 = fs_root s1 \<Longrightarrow> fd_table s2 = fd_table s1 \<Longrightarrow> extends s s2"
  by (simp add: extends_def)

lemma touch_spec:
  assumes "ramfs_ok s" "target path s p name"
  shows "\<exists>a s'. fs_touch path s = Some (a, s') \<and> ramfs_ok s' \<and> extends s s' \<and> (a = 0 \<longrightarrow> nodes s' = nodes s \<and> arrays s' = arrays s) \<and>
    (a \<noteq> 0 \<longrightarrow> nodes s a = None \<and> grows s s' p a \<and>
      (\<exists>n. nodes s' a = Some n \<and> fn_name n = name \<and> fn_type n = FS_FILE \<and> fn_size n = 0 \<and> fn_parent n = p))"
proof -
  obtain pp pn where t: "split_path path = Some (pp, name)" "fs_find_by_path pp s = Some p"
    and p: "nodes s p = Some pn" "fn_type pn = FS_DIRECTORY" "child_count pn < 32" "fn_children pn \<noteq> 0" using assms(2) by (auto simp: target_def)
  have p0: "p \<noteq> 0" using p(1) ramfs_okD(5) [OF assms(1)] by auto
  have l: "take 63 name = name" using split_path_short [OF t(1)] by simp
  show ?thesis
  proof (cases rule: new_file_spec [OF assms(1), of name, case_names none created])
    case (none s1)
    then show ?thesis using t p p0 by (simp add: fs_touch_def)
  next
    case (created a s1 d h s2)
    obtain s3 where s3: "fs_add_child p a s2 = Some s3" "ramfs_ok s3" "grows s s3 p a" "nodes s3 a = Some ((new_node name FS_FILE 0)\<lparr>fn_data := d, fn_size := 0, fn_parent := p\<rparr>)"
      "rf_heap s3 = rf_heap s2" "fs_root s3 = fs_root s2" "fd_table s3 = fd_table s2"
      using link_new [OF assms(1) created(5,8,7) _ _ _ _ p] created(6,9) by (auto simp: extends_def)
    have "fs_touch path s = Some (a, s3)" using t p p0 created(1-4) s3(1) by (simp add: fs_touch_def)
    then show ?thesis using s3 created(2,7) extends_trans [OF created(6) s3(5-7)] l by auto
  qed
qed

lemma mkdir_spec:
  assumes "ramfs_ok s" "target path s p name" "fs_mkdir path s = Some (a, s')"
  shows "a \<noteq> 0 \<and> ramfs_ok s' \<and> extends s s' \<and> nodes s a = None \<and> grows s s' p a \<and>
      (\<exists>n. nodes s' a = Some n \<and> fn_name n = name \<and> fn_type n = FS_DIRECTORY \<and> child_count n = 0 \<and> fn_parent n = p)"
proof -
  obtain pp pn where t: "split_path path = Some (pp, name)" "fs_find_by_path pp s = Some p"
    and p: "nodes s p = Some pn" "fn_type pn = FS_DIRECTORY" "child_count pn < 32" "fn_children pn \<noteq> 0" using assms(2) by (auto simp: target_def)
  have p0: "p \<noteq> 0" using p(1) ramfs_okD(5) [OF assms(1)] by auto
  have l: "take 63 name = name" using split_path_short [OF t(1)] by simp
  obtain b s1 where c: "fs_create_node name FS_DIRECTORY s = Some (b, s1)" "ramfs_ok s1" "extends s s1"
    "b = 0 \<longrightarrow> nodes s1 = nodes s"
    "b \<noteq> 0 \<longrightarrow> nodes s b = None \<and> (\<exists>cs. nodes s1 = (nodes s)(b \<mapsto> new_node name FS_DIRECTORY cs) \<and> owned (rf_heap s) cs = None \<and>
        arrays s1 = (if cs \<noteq> 0 then (arrays s)(cs \<mapsto> replicate 32 0) else arrays s))"
    using create_node_spec [OF assms(1), of name FS_DIRECTORY] by blast
  have run: "fs_mkdir path s = do { s2 \<leftarrow> fs_add_child p b s1; Some (b, s2) }" using t p p0 c(1) by (simp add: fs_mkdir_def)
  have b: "b \<noteq> 0"
  proof
    assume z: "b = 0"
    then have "nodes s1 0 = None" using ramfs_okD(5) [OF c(2)] by simp
    then have "fs_add_child p b s1 = None"
      using z c(4) p p0 by (auto simp: fs_add_child_def upd_node_def MAX_CHILDREN_def split: bind_splits)
    then show False using run assms(3) by simp
  qed
  then obtain cs where cs: "nodes s b = None" "nodes s1 = (nodes s)(b \<mapsto> new_node name FS_DIRECTORY cs)" "owned (rf_heap s) cs = None"
    "arrays s1 = (if cs \<noteq> 0 then (arrays s)(cs \<mapsto> replicate 32 0) else arrays s)" using c(5) by blast
  have k: "kids (arrays s1) m = kids (arrays s) m" if "nodes s d = Some m" for d m
    unfolding cs(4) by (rule kids_new_array [OF assms(1) cs(3) that])
  obtain s2 where s2: "fs_add_child p b s1 = Some s2" "ramfs_ok s2" "grows s s2 p b" "nodes s2 b = Some ((new_node name FS_DIRECTORY cs)\<lparr>fn_parent := p\<rparr>)"
    "rf_heap s2 = rf_heap s1" "fs_root s2 = fs_root s1" "fd_table s2 = fd_table s1"
  proof -
    have "\<exists>s2. fs_add_child p b s1 = Some s2 \<and> ramfs_ok s2 \<and> grows s s2 p b \<and> nodes s2 b = Some ((new_node name FS_DIRECTORY cs)\<lparr>fn_parent := p\<rparr>) \<and>
        rf_heap s2 = rf_heap s1 \<and> fs_root s2 = fs_root s1 \<and> fd_table s2 = fd_table s1"
      by (rule link_new [OF assms(1) c(2) cs(2,1) _ _ _ _ p]) (use c(3) k in \<open>auto simp: extends_def\<close>)
    then show thesis using that by blast
  qed
  have "a = b" "s' = s2" using run assms(3) s2(1) by simp_all
  then show ?thesis using s2 b cs(1) extends_trans [OF c(3) s2(5-7)] l by auto
qed

text \<open>The new node is found under its path.\<close>

lemma find_new:
  assumes "ramfs_ok s" "target path s p name" "ramfs_ok s'" "grows s s' p a" "fs_root s' = fs_root s" "nodes s' a = Some n" "fn_name n = name"
    and nm: "good_name name" "child_named s p name = 0"
  shows "fs_find_by_path path s' = Some a"
proof -
  obtain pp pn where t: "split_path path = Some (pp, name)" "fs_find_by_path pp s = Some p" and p: "nodes s p = Some pn" "fn_type pn = FS_DIRECTORY"
    using assms(2) by (auto simp: target_def)
  have p0: "p \<noteq> 0" using p(1) ramfs_okD(5) [OF assms(1)] by auto
  have pp: "pp \<noteq> []" "hd pp = SLASH" using t(2) p0 by (auto simp: fs_find_by_path_def split: if_splits)
  note sp = split_path_tokens [OF t(1) pp(1)]
  have tn: "path_tokens path = path_tokens pp @ [name]" using sp(1) nm(1) tokens_name [of name "[]"] by (simp add: good_name_def)
  have w: "\<forall>t\<in>set (path_tokens pp). length t < 64" "walk_tree s (fs_root s) (path_tokens pp) = p"
    using find_by_path_walk [OF assms(1) pp] t(2) p0 by (auto split: if_splits)
  have w': "walk_tree s' (fs_root s') (path_tokens pp) = p"
    using grows_walk [OF assms(1,4) root_node [OF assms(1)]] w(2) p0 assms(5) by simp
  obtain pn' where pn': "nodes s' p = Some pn'" "fn_type pn' = FS_DIRECTORY" "kids (arrays s') pn' = kids (arrays s) pn @ [a]"
    using assms(4) p unfolding grows_def by fastforce
  have "find (\<lambda>c. map_option fn_name (nodes s c) = Some name) (kids (arrays s) pn) = None"
    using nm(2) p kids_are_nodes [OF assms(1) p(1)] by (auto simp: child_named_def find_None_iff find_Some_iff split: option.splits)
  then have "child_named s' p name = a"
    using pn' assms(6,7) grows_find [OF assms(1,4) p(1)] by (simp add: child_named_def find_append)
  then have "walk_tree s' (fs_root s') (path_tokens path) = a"
    using walk_tree_snoc [of s' "fs_root s'" "path_tokens pp" name] w' p0 nm(1) by (simp add: tn good_name_def)
  moreover have "path \<noteq> []" "hd path = SLASH" using sp(4) [OF pp(2)] by simp_all
  ultimately show ?thesis using find_by_path_walk [OF assms(3), of path] w(1) sp(2) by (auto simp: tn)
qed

subsection \<open>Removing\<close>

lemma remove1_takeWhile:
  "c \<in> set cs \<Longrightarrow> remove1 c cs = take (length (takeWhile (\<lambda>x. x \<noteq> c) cs)) cs @ drop (Suc (length (takeWhile (\<lambda>x. x \<noteq> c) cs))) cs"
  by (induction cs) auto

lemma remove_leaf:
  assumes "ramfs_ok s" "nodes s p = Some pn" "c \<in> set (kids (arrays s) pn)" "nodes s c = Some cn" "child_count cn = 0"
  obtains arr arr' where "arrays s (fn_children pn) = Some arr" "length arr' = 32" "take (child_count pn - 1) arr' = remove1 c (kids (arrays s) pn)"
    "fs_remove_child p c s = Some (s\<lparr>nodes := (nodes s)(p \<mapsto> pn\<lparr>child_count := child_count pn - 1\<rparr>), arrays := (arrays s)(fn_children pn \<mapsto> arr')\<rparr>)"
proof -
  note o = ramfs_okD [OF assms(1)]
  have sh: "shape (arrays s) pn" and p0: "p \<noteq> 0" using tree_okD(1,2) [OF o(1) assms(2)] by auto
  have "kids (arrays s) pn \<noteq> []" using assms(3) by auto
  then have ch: "fn_children pn \<noteq> 0" "child_count pn \<noteq> 0" using o(4) by (auto simp: kids_def split: option.splits)
  then obtain arr where arr: "arrays s (fn_children pn) = Some arr" "length arr = 32" "fn_type pn = FS_DIRECTORY" "child_count pn \<le> 32"
    using sh by (auto simp: shape_def)
  have k: "kids (arrays s) pn = take (child_count pn) arr" using arr by (simp add: kids_def)
  define i where "i = length (takeWhile (\<lambda>x. x \<noteq> c) (kids (arrays s) pn))"
  have "takeWhile (\<lambda>x. x \<noteq> c) (kids (arrays s) pn) \<noteq> kids (arrays s) pn" using assms(3) by (auto simp: takeWhile_eq_all_conv)
  then have "i < length (kids (arrays s) pn)"
    unfolding i_def by (metis le_neq_implies_less length_takeWhile_le takeWhile_eq_take take_all order_refl)
  then have i: "i < child_count pn" using k arr by simp
  let ?arr = "shift_down arr [i..<child_count pn - 1]"
  have len: "length ?arr = 32" using shift_down_nth [of "child_count pn - 1" arr i] arr i by auto
  have "take (child_count pn - 1) ?arr = take i arr @ drop (Suc i) (take (Suc (child_count pn - 1)) arr)"
    using arr i by (intro shift_down_take) auto
  also have "\<dots> = take i (kids (arrays s) pn) @ drop (Suc i) (kids (arrays s) pn)" using ch i by (simp add: k min_def)
  also have "\<dots> = remove1 c (kids (arrays s) pn)" using remove1_takeWhile [OF assms(3)] by (simp add: i_def)
  finally have t: "take (child_count pn - 1) ?arr = remove1 c (kids (arrays s) pn)" .
  have inner: "remove_child (Inr (c, 0)) s = Some s" by (subst remove_child.simps) (simp add: assms(4,5))
  have "fs_remove_child p c s = Some (s\<lparr>nodes := (nodes s)(p \<mapsto> pn\<lparr>child_count := child_count pn - 1\<rparr>), arrays := (arrays s)(fn_children pn \<mapsto> ?arr)\<rparr>)"
    unfolding fs_remove_child_def
    by (subst remove_child.simps)
       (use p0 assms(2-4) arr inner children_of_kids [OF sh] in \<open>simp add: upd_node_def Let_def i_def\<close>)
  then show thesis by (rule that [OF arr(1) len t])
qed

text \<open>The blocks that \<open>fs_free_node\<close> gives back.\<close>

definition give_back :: "heap \<Rightarrow> addr \<Rightarrow> FSNode \<Rightarrow> heap" where
  "give_back h c n =
     (let h = (if fn_data n \<noteq> 0 then kfree h (fn_data n) else h); h = (if fn_children n \<noteq> 0 then kfree h (fn_children n) else h) in kfree h c)"

lemma free_optional:
  assumes "heap_ok h" "p \<noteq> 0 \<Longrightarrow> owned h p \<noteq> None"
  shows "heap_ok (if p \<noteq> 0 then kfree h p else h)" "owned (if p \<noteq> 0 then kfree h p else h) a = (if a = p then None else owned h a)"
    "owned h q = Some k \<Longrightarrow> x \<in> region q k \<Longrightarrow> hmem (if p \<noteq> 0 then kfree h p else h) x = hmem h x"
proof -
  have z: "owned h 0 = None" using kheap.own_bounds [OF assms(1), of 0] by (cases "owned h 0") auto
  have r: "heap_ok (kfree h p) \<and> owned (kfree h p) = (owned h)(p := None)" if "p \<noteq> 0"
    using assms(2) [OF that] kheap.release_own [OF assms(1)] by blast
  show "heap_ok (if p \<noteq> 0 then kfree h p else h)" using r assms(1) by simp
  show "owned (if p \<noteq> 0 then kfree h p else h) a = (if a = p then None else owned h a)" using r z by simp
  show "hmem (if p \<noteq> 0 then kfree h p else h) x = hmem h x" if "owned h q = Some k" "x \<in> region q k"
    using assms(2) kheap.release_frame [OF assms(1) _ that] by auto
qed

lemma give_back_spec:
  assumes "mem_ok h N A" "N c = Some n" "fn_children n \<noteq> 0 \<Longrightarrow> A (fn_children n) \<noteq> None"
  shows "heap_ok (give_back h c n)" "owned (give_back h c n) a = (if a = c \<or> a = fn_data n \<or> a = fn_children n then None else owned h a)"
    "owned h q = Some k \<Longrightarrow> q \<noteq> fn_data n \<Longrightarrow> q \<noteq> fn_children n \<Longrightarrow> x \<in> region q k \<Longrightarrow> hmem (give_back h c n) x = hmem h x"
proof -
  note m = mem_okD [OF assms(1)]
  define h1 where "h1 = (if fn_data n \<noteq> 0 then kfree h (fn_data n) else h)"
  define h2 where "h2 = (if fn_children n \<noteq> 0 then kfree h1 (fn_children n) else h1)"
  have d: "fn_data n \<noteq> 0 \<Longrightarrow> owned h (fn_data n) \<noteq> None" using m(6) [OF assms(2)] by auto
  note s1 = free_optional [OF m(1) d, folded h1_def]
  have dc: "fn_children n \<noteq> fn_data n" if "fn_children n \<noteq> 0" using that assms(3) m(4) [OF assms(2)] by auto
  have "fn_children n \<noteq> 0 \<Longrightarrow> owned h1 (fn_children n) \<noteq> None" using s1(2) dc assms(3) m(7) by fastforce
  note s2 = free_optional [OF s1(1) this, folded h2_def]
  have c: "c \<noteq> 0" "c \<noteq> fn_data n" "c \<noteq> fn_children n"
    using mem_ok_null [OF assms(1)] assms(2,3) m(3,4) [OF assms(2)] by (cases "fn_children n = 0"; auto)+
  then have "owned h2 c \<noteq> None" using s1(2) s2(2) m(2) [OF assms(2)] by fastforce
  then have e: "c \<noteq> 0 \<Longrightarrow> owned h2 c \<noteq> None" .
  note s3 = free_optional [OF s2(1) e]
  have f: "give_back h c n = (if c \<noteq> 0 then kfree h2 c else h2)" using c(1) by (simp add: give_back_def h1_def h2_def Let_def)
  show "heap_ok (give_back h c n)" unfolding f by (rule s3(1))
  show "owned (give_back h c n) a = (if a = c \<or> a = fn_data n \<or> a = fn_children n then None else owned h a)"
    using s3(2) [of a] s2(2) [of a] s1(2) [of a] c(1) by (auto simp: f)
  show "hmem (give_back h c n) x = hmem h x" if "owned h q = Some k" "q \<noteq> fn_data n" "q \<noteq> fn_children n" "x \<in> region q k"
    unfolding f using s3(3) [of q k x] s2(3) [of q k x] s1(3) [of q k x] s1(2) [of q] s2(2) [of q] that by simp
qed

lemma mem_drop:
  assumes "mem_ok h N A" "N c = Some n" "fn_children n \<noteq> 0 \<Longrightarrow> A (fn_children n) \<noteq> None"
  shows "mem_ok (give_back h c n) (N(c := None)) (A(fn_children n := None))"
proof -
  note m = mem_okD [OF assms(1)] and f = give_back_spec [OF assms] and z = mem_ok_null [OF assms(1)]
  have keep: "owned (give_back h c n) b = owned h b" if "b \<noteq> c" "b \<noteq> fn_data n" "b \<noteq> fn_children n" for b using that f(2) by simp
  have ch: "b \<noteq> fn_children n" if "N b \<noteq> None" for b using that assms(3) m(3) [of b] z by (cases "fn_children n = 0") auto
  have dt: "b \<noteq> fn_data n" if "N b \<noteq> None \<or> A b \<noteq> None" for b using that m(4) [OF assms(2)] by auto
  have cA: "A c = None" by (rule m(3) [OF assms(2)])
  show ?thesis
  proof (rule mem_okI)
    fix b q assume "(N(c := None)) b = Some q"
    then have b: "b \<noteq> c" "N b = Some q" by (auto split: if_splits)
    show "\<exists>k\<ge>88. owned (give_back h c n) b = Some k" using m(2) [OF b(2)] keep [OF b(1)] ch [of b] dt [of b] b by auto
    show "(A(fn_children n := None)) b = None" using m(3) [OF b(2)] by simp
    show "(N(c := None)) (fn_data q) = None \<and> (A(fn_children n := None)) (fn_data q) = None" using m(4) [OF b(2)] by auto
    show "fn_size q = 0" if "fn_data q = 0" by (rule m(5) [OF b(2) that])
    show "fn_type q = FS_FILE \<and> (\<exists>k. owned (give_back h c n) (fn_data q) = Some k \<and> unat (fn_size q) \<le> k)" if "fn_data q \<noteq> 0"
    proof -
      have "fn_data q \<noteq> c" "fn_data q \<noteq> fn_children n" using m(4) [OF b(2)] assms(2,3) that by auto
      then show ?thesis using m(6) [OF b(2) that] keep [of "fn_data q"] m(8) [OF b(2) assms(2) b(1) that] by simp
    qed
    show "fn_data q \<noteq> fn_data p" if "(N(c := None)) d = Some p" "b \<noteq> d" "fn_data q \<noteq> 0" for d p
      using that m(8) [OF b(2), of d p] by (auto split: if_splits)
  next
    show "\<exists>k\<ge>128. owned (give_back h c n) b = Some k" if "(A(fn_children n := None)) b = Some arr" for b arr
    proof -
      have "A b = Some arr" "b \<noteq> fn_children n" "b \<noteq> c" using that cA by (auto split: if_splits)
      then show ?thesis using m(7) [of b arr] keep [of b] dt [of b] cA by auto
    qed
  qed (rule f(1))
qed

text \<open>Removing a node without children: it disappears, its directory loses exactly this child, its blocks are free again, and nothing else changes.\<close>

definition removed :: "ramfs \<Rightarrow> ramfs \<Rightarrow> addr \<Rightarrow> bool" where
  "removed s s' c \<longleftrightarrow> (\<exists>cn. nodes s c = Some cn \<and> nodes s' c = None \<and> fs_root s' = fs_root s \<and> fd_table s' = fd_table s \<and>
     (\<forall>a. owned (rf_heap s') a = (if a = c \<or> a = fn_data cn \<or> a = fn_children cn then None else owned (rf_heap s) a)) \<and>
     (\<forall>q k x. owned (rf_heap s) q = Some k \<and> q \<noteq> fn_data cn \<and> q \<noteq> fn_children cn \<and> x \<in> region q k \<longrightarrow> hmem (rf_heap s') x = hmem (rf_heap s) x) \<and>
     (\<forall>b m'. nodes s' b = Some m' \<longrightarrow> (\<exists>m. nodes s b = Some m \<and> m' = m\<lparr>child_count := child_count m'\<rparr> \<and> kids (arrays s') m' = remove1 c (kids (arrays s) m))) \<and>
     (\<forall>b. b \<noteq> c \<and> nodes s b \<noteq> None \<longrightarrow> nodes s' b \<noteq> None))"

lemma free_node_run: "nodes s c = Some n \<Longrightarrow> c \<noteq> 0 \<Longrightarrow> arrays s 0 = None \<Longrightarrow>
    fs_free_node c s = Some (s\<lparr>rf_heap := give_back (rf_heap s) c n, nodes := (nodes s)(c := None), arrays := (arrays s)(fn_children n := None)\<rparr>)"
  by (auto simp: fs_free_node_def give_back_def Let_def fun_upd_idem)

lemma give_back_cong: "fn_data n = fn_data m \<Longrightarrow> fn_children n = fn_children m \<Longrightarrow> give_back h c n = give_back h c m"
  by (simp add: give_back_def)

lemma unlink_and_free_spec:
  assumes "ramfs_ok s" "nodes s c = Some cn" "child_count cn = 0" "c \<noteq> fs_root s"
  shows "\<exists>s'. unlink_and_free c s = Some (0, s') \<and> ramfs_ok s' \<and> removed s s' c"
proof -
  note o = ramfs_okD [OF assms(1)]
  have c0: "c \<noteq> 0" and shc: "shape (arrays s) cn" using tree_okD(1,2) [OF o(1) assms(2)] by auto
  have cha: "arrays s (fn_children cn) \<noteq> None" if "fn_children cn \<noteq> 0" using shc that by (auto simp: shape_def)
  note g = give_back_spec [OF o(2) assms(2) cha]
  show ?thesis
  proof (cases "fn_parent cn = 0")
    case True
    let ?s = "s\<lparr>rf_heap := give_back (rf_heap s) c cn, nodes := (nodes s)(c := None), arrays := (arrays s)(fn_children cn := None)\<rparr>"
    have t: "tree_ok ((nodes s)(c := None)) ((arrays s)(fn_children cn := None)) (fs_root s)" by (rule tree_drop [OF o(1,4) assms(2) True assms(3,4)])
    have ok: "ramfs_ok ?s" using t mem_drop [OF o(2) assms(2) cha] by (simp add: ramfs_ok_def)
    have run: "unlink_and_free c s = Some (0, ?s)" using True assms(2) free_node_run [OF assms(2) c0 o(4)] by (simp add: unlink_and_free_def)
    have k: "kids ((arrays s)(fn_children cn := None)) m = remove1 c (kids (arrays s) m)" if m: "nodes s b = Some m" "b \<noteq> c" for b m
    proof -
      have "c \<notin> set (kids (arrays s) m)" using tree_okD(4) [OF o(1) m(1), of c] tree_okD(1) [OF o(1) m(1)] assms(2) True by auto
      moreover have "fn_children m \<noteq> fn_children cn \<or> fn_children m = 0" using tree_okD(6) [OF o(1) m(1) assms(2) m(2)] by blast
      ultimately show ?thesis using o(4) by (auto simp: kids_def remove1_idem split: option.splits)
    qed
    have "removed s ?s c"
      unfolding removed_def using assms(2) g(2,3) k by (intro exI [of _ cn]) auto
    then show ?thesis using ok run by blast
  next
    case False
    let ?p = "fn_parent cn"
    obtain pn where p: "nodes s ?p = Some pn" "c \<in> set (kids (arrays s) pn)" using tree_okD(5) [OF o(1) assms(2) False] by blast
    obtain arr arr' where r: "arrays s (fn_children pn) = Some arr" "length arr' = 32" "take (child_count pn - 1) arr' = remove1 c (kids (arrays s) pn)"
      "fs_remove_child ?p c s = Some (s\<lparr>nodes := (nodes s)(?p \<mapsto> pn\<lparr>child_count := child_count pn - 1\<rparr>), arrays := (arrays s)(fn_children pn \<mapsto> arr')\<rparr>)"
      using remove_leaf [OF assms(1) p assms(2,3)] .
    obtain rank :: "addr \<Rightarrow> nat" where rank: "\<And>b m. nodes s b = Some m \<Longrightarrow> fn_parent m \<noteq> 0 \<Longrightarrow> rank (fn_parent m) < rank b"
      using tree_okD(8) [OF o(1)] by blast
    have pc: "?p \<noteq> c" using rank [OF assms(2) False] by auto
    have p0: "fn_children pn \<noteq> 0" using r(1) o(4) by auto
    note chn = tree_okD(6) [OF o(1) p(1) assms(2) pc p0] p0
    let ?N = "(nodes s)(?p \<mapsto> pn\<lparr>child_count := child_count pn - 1\<rparr>)" and ?A = "(arrays s)(fn_children pn \<mapsto> arr')"
    let ?s1 = "s\<lparr>nodes := ?N, arrays := ?A\<rparr>"
    let ?s = "s\<lparr>rf_heap := give_back (rf_heap s) c cn, nodes := ?N(c := None), arrays := ?A(fn_children cn := None)\<rparr>"
    have n1: "nodes ?s1 c = Some cn" using assms(2) pc by simp
    have A1: "?A 0 = None" using chn(2) o(4) by simp
    have run: "unlink_and_free c s = Some (0, ?s)"
      using False assms(2) r(4) free_node_run [OF n1 c0] A1 by (simp add: unlink_and_free_def)
    have t1: "tree_ok (?N(c \<mapsto> cn\<lparr>fn_parent := 0\<rparr>)) ?A (fs_root s)" by (rule tree_unlink [OF o(1,4) assms(2) refl False p(1) r(1-3)])
    have "tree_ok ((?N(c \<mapsto> cn\<lparr>fn_parent := 0\<rparr>))(c := None)) (?A(fn_children (cn\<lparr>fn_parent := 0\<rparr>) := None)) (fs_root s)"
      by (rule tree_drop [OF t1 A1]) (use assms(3,4) in simp_all)
    then have t: "tree_ok (?N(c := None)) (?A(fn_children cn := None)) (fs_root s)" by simp
    have m1: "mem_ok (rf_heap s) ?N ?A" by (rule mem_same [OF o(2)]) (use p(1) r(1) in auto)
    have n1': "?N c = Some cn" using n1 by simp
    have "mem_ok (give_back (rf_heap s) c cn) (?N(c := None)) (?A(fn_children cn := None))"
      by (rule mem_drop [OF m1 n1']) (use cha in simp)
    then have ok: "ramfs_ok ?s" using t by (simp add: ramfs_ok_def)
    have k: "\<exists>m. nodes s b = Some m \<and> m' = m\<lparr>child_count := child_count m'\<rparr> \<and> kids (?A(fn_children cn := None)) m' = remove1 c (kids (arrays s) m)"
      if b: "(?N(c := None)) b = Some m'" for b m'
    proof (cases "b = ?p")
      case True
      then show ?thesis using b p(1) r(3) chn by (auto simp: kids_def split: if_splits)
    next
      case F: False
      then have m: "nodes s b = Some m'" "b \<noteq> c" using b by (auto split: if_splits)
      have "c \<notin> set (kids (arrays s) m')" using tree_okD(4) [OF o(1) m(1), of c] F assms(2) by auto
      moreover have "fn_children m' \<noteq> fn_children cn \<or> fn_children m' = 0" using tree_okD(6) [OF o(1) m(1) assms(2) m(2)] by blast
      moreover have "fn_children m' \<noteq> fn_children pn" using tree_okD(6) [OF o(1) p(1) m(1)] F chn(2) by auto
      ultimately show ?thesis using m o(4) by (auto simp: kids_def remove1_idem split: option.splits)
    qed
    have "removed s ?s c"
      unfolding removed_def using assms(2) g(2,3) k by (intro exI [of _ cn]) auto
    then show ?thesis using ok run by blast
  qed
qed

end
