(* ===== verification/Ramfs_Files.thy ===== *)
theory Ramfs_Files
  imports Ramfs_Tree
begin

text \<open>
  The contents of the files of the file system in memory as lists of bytes: what reading and writing do to them, and that one file never changes with
  another. The second part puts the operations together: the invariant of every run of the file system, and what creating and removing do.
\<close>

subsection \<open>Bytes in memory\<close>

lemma load_length [simp]: "length (load m a n) = n"
  by (simp add: load_def)

lemma load_nth [simp]: "i < n \<Longrightarrow> load m a n ! i = m (a + of_nat i)"
  by (simp add: load_def)

lemma load_drop: "k \<le> n \<Longrightarrow> load m (a + of_nat k) (n - k) = drop k (load m a n)"
  by (rule nth_equalityI) (simp_all add: add.assoc)

lemma load_take: "load m a (min k n) = take k (load m a n)"
  by (rule nth_equalityI) simp_all

lemma load_cong: "unat a + n < 2 ^ 32 \<Longrightarrow> (\<And>x. x \<in> region a n \<Longrightarrow> m' x = m x) \<Longrightarrow> load m' a n = load m a n"
  by (rule nth_equalityI) (simp_all add: in_region_of_nat)

lemma store_spec:
  assumes "unat a + length bs \<le> 2 ^ 32"
  shows "i < length bs \<Longrightarrow> store m a bs (a + of_nat i) = bs ! i" "x \<notin> region a (length bs) \<Longrightarrow> store m a bs x = m x"
proof -
  have "(\<forall>i<n. fold (\<lambda>i m. m(a + of_nat i := bs ! i)) [0..<n] m (a + of_nat i) = bs ! i) \<and>
    (\<forall>x. x \<notin> region a n \<longrightarrow> fold (\<lambda>i m. m(a + of_nat i := bs ! i)) [0..<n] m x = m x)" if "unat a + n \<le> 2 ^ 32" for n
    using that
  proof (induction n)
    case (Suc n)
    have "a + of_nat i \<noteq> a + of_nat n" if "i < n" for i using that Suc.prems by (intro addr_neq) auto
    moreover have "x \<notin> region a n \<and> x \<noteq> a + of_nat n" if "x \<notin> region a (Suc n)" for x
      using that Suc.prems region_mono not_in_region_end in_region_of_nat [of a "Suc n" n] by auto
    ultimately show ?case using Suc by (simp add: less_Suc_eq)
  qed simp
  from this [OF assms] show "i < length bs \<Longrightarrow> store m a bs (a + of_nat i) = bs ! i" "x \<notin> region a (length bs) \<Longrightarrow> store m a bs x = m x"
    by (simp_all add: store_def)
qed

subsection \<open>Contents\<close>

definition contents :: "ramfs \<Rightarrow> addr \<Rightarrow> u8 list" where
  "contents s a = (case nodes s a of None \<Rightarrow> [] | Some n \<Rightarrow> load (hmem (rf_heap s)) (fn_data n) (unat (fn_size n)))"

text \<open>The reference for writing: bytes of a list are replaced from an offset on.\<close>

definition splice :: "nat \<Rightarrow> u8 list \<Rightarrow> u8 list \<Rightarrow> u8 list" where
  "splice off bs xs = take off xs @ bs @ drop (off + length bs) xs"

lemma block_bounds: "heap_ok h \<Longrightarrow> owned h p = Some k \<Longrightarrow> unat p + k \<le> 16777216"
  using owned_bounds(3) by (auto simp: heap_ok_def)

lemma mem_ok_owned: "mem_ok h N A \<Longrightarrow> heap_ok h' \<Longrightarrow> owned h' = owned h \<Longrightarrow> mem_ok h' N A"
  unfolding mem_ok_def by (elim conjE, intro conjI) (assumption | simp only:)+

lemma sint_small: "unat r < 2 ^ 31 \<Longrightarrow> sint (r :: u32) = int (unat r)"
proof -
  assume "unat r < 2 ^ 31"
  then have "int (unat r) < int (2 ^ 31)" by (simp only: of_nat_less_iff)
  moreover have u: "int (unat r) = uint r" by simp
  ultimately have "uint r < 2 ^ 31" by simp
  moreover have "- (2 ^ 31) \<le> uint r" by (rule order_trans [of _ 0]) simp_all
  ultimately have "signed_take_bit 31 (uint r) = uint r" by (intro signed_take_bit_int_eq_self)
  then have "sint r = uint r" by (simp add: sint_uint)
  then show "sint r = int (unat r)" using u by simp
qed

lemma contents_frame:
  assumes "ramfs_ok s" "nodes s b = Some m" "nodes s' b = Some m'" "fn_data m' = fn_data m" "fn_size m' = fn_size m"
    and "\<And>k x. owned (rf_heap s) (fn_data m) = Some k \<Longrightarrow> x \<in> region (fn_data m) k \<Longrightarrow> hmem (rf_heap s') x = hmem (rf_heap s) x"
  shows "contents s' b = contents s b"
proof (cases "fn_data m = 0")
  case True
  then show ?thesis using assms(2-5) mem_okD(5) [OF ramfs_okD(2) [OF assms(1)] assms(2)] by (simp add: contents_def load_def)
next
  case False
  then obtain k where k: "owned (rf_heap s) (fn_data m) = Some k" "unat (fn_size m) \<le> k" using mem_okD(6) [OF ramfs_okD(2) [OF assms(1)] assms(2)] by blast
  have "load (hmem (rf_heap s')) (fn_data m) (unat (fn_size m)) = load (hmem (rf_heap s)) (fn_data m) (unat (fn_size m))"
  proof (rule load_cong)
    show "unat (fn_data m) + unat (fn_size m) < 2 ^ 32" using block_bounds [OF ramfs_okD(3) [OF assms(1)] k(1)] k(2) by simp
    show "hmem (rf_heap s') x = hmem (rf_heap s) x" if "x \<in> region (fn_data m) (unat (fn_size m))" for x
      using assms(6) [OF k(1)] that k(2) by (auto simp: region_def)
  qed
  then show ?thesis using assms(2-5) by (simp add: contents_def)
qed

text \<open>Reading returns the bytes of the file from the offset on.\<close>

lemma read_spec:
  assumes "ramfs_ok s" "nodes s a = Some n" "fn_type n = FS_FILE" "unat offset + unat sz < 2 ^ 32"
  shows "fs_read a offset sz s =
    Some (if length (contents s a) < unat offset then (-1, [])
          else let bs = take (unat sz) (drop (unat offset) (contents s a)) in (int (length bs), bs))"
proof -
  note o = ramfs_okD [OF assms(1)]
  have a0: "a \<noteq> 0" using tree_okD(1) [OF o(1) assms(2)] .
  have c: "contents s a = load (hmem (rf_heap s)) (fn_data n) (unat (fn_size n))" using assms(2) by (simp add: contents_def)
  have small: "unat (fn_size n) \<le> 16777216"
    using mem_okD(5,6) [OF o(2) assms(2)] block_bounds [OF o(3)] by (cases "fn_data n = 0") fastforce+
  show ?thesis
  proof (cases "offset > fn_size n")
    case True
    then show ?thesis using a0 assms(2) by (simp add: fs_read_def c word_less_nat_alt)
  next
    case False
    then have le: "unat offset \<le> unat (fn_size n)" by (simp add: word_less_nat_alt)
    have u: "unat (offset + sz) = unat offset + unat sz" using assms(4) by (rule unat_plus_simple32)
    define r where "r = (if offset + sz > fn_size n then fn_size n - offset else sz)"
    have r: "unat r = min (unat sz) (unat (fn_size n) - unat offset)"
      using le u by (auto simp: r_def word_less_nat_alt unat_sub word_le_nat_alt min_def)
    then have "unat r < 2 ^ 31" using small by simp
    then have sr: "sint r = int (unat r)" by (rule sint_small)
    have "load (hmem (rf_heap s)) (fn_data n + offset) (unat r) = take (unat sz) (drop (unat offset) (contents s a))"
      using load_drop [OF le, of "hmem (rf_heap s)" "fn_data n"] by (simp add: c r load_take)
    then show ?thesis using a0 assms(2,3) False le sr r
      by (simp add: fs_read_def r_def [symmetric] c Let_def) 
  qed
qed

subsection \<open>Writing\<close>

lemma krealloc_data:
  assumes "mem_ok h N A" "N a = Some n" "fn_type n = FS_FILE" "sz \<noteq> 0" "unat sz \<le> 0xFFFFFFF0"
  shows "\<exists>q h'. krealloc h (fn_data n) sz = Some (q, h') \<and> heap_ok h' \<and> (q = 0 \<longrightarrow> h' = h) \<and>
    (q \<noteq> 0 \<longrightarrow> (q = fn_data n \<or> owned h q = None) \<and> (\<exists>k\<ge>unat sz. owned h' = ((owned h)(fn_data n := None))(q \<mapsto> k)) \<and>
      (\<forall>i<unat (fn_size n). hmem h' (q + of_nat i) = hmem h (fn_data n + of_nat i)) \<and>
      (\<forall>r j x. r \<noteq> fn_data n \<longrightarrow> owned h r = Some j \<longrightarrow> x \<in> region r j \<longrightarrow> hmem h' x = hmem h x))"
proof (cases "fn_data n = 0")
  case True
  note m = mem_okD [OF assms(1)]
  have z: "owned h 0 = None" using kheap.own_bounds [OF m(1), of 0] by (cases "owned h 0") auto
  have e: "(owned h)(0 := None) = owned h" using z by (rule fun_upd_idem)
  obtain q h' where k: "kmalloc h sz = Some (q, h')" "heap_ext h h'" "q = 0 \<longrightarrow> h' = h" "q \<noteq> 0 \<longrightarrow> owned h q = None \<and> (\<exists>k\<ge>unat sz. owned h' = (owned h)(q \<mapsto> k))"
    using kmalloc_ext [OF m(1) assms(5)] by blast
  have "krealloc h (fn_data n) sz = Some (q, h')" using k(1) True assms(4) by (simp add: krealloc_def)
  moreover have "heap_ok h'" "\<forall>r j x. owned h r = Some j \<longrightarrow> x \<in> region r j \<longrightarrow> hmem h' x = hmem h x" using k(2) by (auto simp: heap_ext_def)
  moreover have "fn_size n = 0" by (rule m(5) [OF assms(2) True])
  ultimately show ?thesis using k(3,4) True e by auto
next
  case False
  note m = mem_okD [OF assms(1)]
  obtain j where j: "owned h (fn_data n) = Some j" "unat (fn_size n) \<le> j" using m(6) [OF assms(2) False] by blast
  obtain q h' where r: "krealloc h (fn_data n) sz = Some (q, h')" "heap_ok h'" "q = 0 \<longrightarrow> h' = h"
    "q \<noteq> 0 \<longrightarrow> (q = fn_data n \<or> owned h q = None) \<and> (\<exists>k. owned h' = ((owned h)(fn_data n := None))(q \<mapsto> k) \<and> unat sz \<le> k \<and>
       (\<forall>i<j. hmem h' (q + of_nat i) = hmem h (fn_data n + of_nat i)) \<and>
       (\<forall>r j x. r \<noteq> fn_data n \<longrightarrow> owned h r = Some j \<longrightarrow> x \<in> region r j \<longrightarrow> hmem h' x = hmem h x))"
    using krealloc_spec [OF m(1) j(1) assms(4,5)] by blast
  have "\<forall>i<unat (fn_size n). i < j" using j(2) by auto
  then show ?thesis using r by blast
qed

text \<open>The state before the bytes are copied: the block is large enough and the size is set.\<close>

definition sized :: "ramfs \<Rightarrow> ramfs \<Rightarrow> addr \<Rightarrow> FSNode \<Rightarrow> nat \<Rightarrow> bool" where
  "sized s s' a n len \<longleftrightarrow> (\<exists>d k. ramfs_ok s' \<and> nodes s' = (nodes s)(a \<mapsto> n\<lparr>fn_data := d, fn_size := of_nat len\<rparr>) \<and> arrays s' = arrays s \<and> fs_root s' = fs_root s \<and>
     fd_table s' = fd_table s \<and> owned (rf_heap s') d = Some k \<and> len \<le> k \<and>
     (\<forall>i<unat (fn_size n). hmem (rf_heap s') (d + of_nat i) = hmem (rf_heap s) (fn_data n + of_nat i)) \<and>
     (\<forall>b j x. b \<noteq> fn_data n \<longrightarrow> owned (rf_heap s) b = Some j \<longrightarrow> x \<in> region b j \<longrightarrow> owned (rf_heap s') b = Some j \<and> b \<noteq> d \<and> hmem (rf_heap s') x = hmem (rf_heap s) x))"

lemma resize_sized:
  assumes "ramfs_ok s" "nodes s a = Some n" "fn_type n = FS_FILE" "len \<le> 0xFFFFFFF0" "len \<noteq> 0"
    and q: "krealloc (rf_heap s) (fn_data n) (of_nat len) = Some (q, h)" "q \<noteq> 0"
  shows "sized s (s\<lparr>rf_heap := h, nodes := (nodes s)(a \<mapsto> n\<lparr>fn_data := q, fn_size := of_nat len\<rparr>)\<rparr>) a n len"
proof -
  note o = ramfs_okD [OF assms(1)]
  have u: "unat (of_nat len :: u32) = len" using assms(4) by (simp add: unat_of_nat)
  have nz: "(of_nat len :: u32) \<noteq> 0" using u assms(5) by auto
  have le: "unat (of_nat len :: u32) \<le> 0xFFFFFFF0" using u assms(4) by simp
  obtain k where r: "heap_ok h" "q = fn_data n \<or> owned (rf_heap s) q = None" "owned h = ((owned (rf_heap s))(fn_data n := None))(q \<mapsto> k)" "len \<le> k"
    "\<forall>i<unat (fn_size n). hmem h (q + of_nat i) = hmem (rf_heap s) (fn_data n + of_nat i)"
    "\<forall>r j x. r \<noteq> fn_data n \<longrightarrow> owned (rf_heap s) r = Some j \<longrightarrow> x \<in> region r j \<longrightarrow> hmem h x = hmem (rf_heap s) x"
    using krealloc_data [OF o(2) assms(2,3) nz le] q u by auto
  have qd: "owned h q = Some k" using r(3) by simp
  have keep: "owned h b = Some j \<and> b \<noteq> q" if "owned (rf_heap s) b = Some j" "b \<noteq> fn_data n" for b j
    using that r(2,3) by auto
  have "mem_ok h ((nodes s)(a \<mapsto> n\<lparr>fn_data := q, fn_size := of_nat len\<rparr>)) (arrays s)"
    by (rule mem_set_data [OF o(2) assms(2,3) r(1) q(2) qd]) (use keep r(2,4) u in auto)
  then have ok: "ramfs_ok (s\<lparr>rf_heap := h, nodes := (nodes s)(a \<mapsto> n\<lparr>fn_data := q, fn_size := of_nat len\<rparr>)\<rparr>)"
    using tree_set_data [OF o(1) assms(2)] by (simp add: ramfs_ok_def)
  show ?thesis
    unfolding sized_def using ok qd r(4,5,6) keep by (intro exI [of _ q] exI [of _ k]) auto
qed

lemma sized_same:
  assumes "ramfs_ok s" "nodes s a = Some n" "fn_type n = FS_FILE" "fn_data n \<noteq> 0"
  shows "sized s s a n (unat (fn_size n))"
proof -
  obtain k where "owned (rf_heap s) (fn_data n) = Some k" "unat (fn_size n) \<le> k" using mem_okD(6) [OF ramfs_okD(2) [OF assms(1)] assms(2,4)] by blast
  moreover have "(nodes s)(a \<mapsto> n\<lparr>fn_data := fn_data n, fn_size := of_nat (unat (fn_size n))\<rparr>) = nodes s" using assms(2) by (simp add: fun_upd_idem)
  ultimately show ?thesis unfolding sized_def using assms(1) by (intro exI [of _ "fn_data n"] exI [of _ k]) simp
qed

text \<open>What a write leaves: the bytes at their place, the rest of the file, all other files, and the tree.\<close>

definition wrote :: "ramfs \<Rightarrow> ramfs \<Rightarrow> addr \<Rightarrow> nat \<Rightarrow> u8 list \<Rightarrow> bool" where
  "wrote s s' a off bs \<longleftrightarrow> length (contents s' a) = max (length (contents s a)) (off + length bs) \<and>
     (\<forall>i<length bs. contents s' a ! (off + i) = bs ! i) \<and>
     (\<forall>i<length (contents s a). i < off \<or> off + length bs \<le> i \<longrightarrow> contents s' a ! i = contents s a ! i) \<and>
     (\<forall>b. b \<noteq> a \<longrightarrow> contents s' b = contents s b \<and> nodes s' b = nodes s b) \<and>
     (\<exists>n n'. nodes s a = Some n \<and> nodes s' a = Some n' \<and> fn_name n' = fn_name n \<and> fn_type n' = fn_type n \<and> fn_parent n' = fn_parent n \<and> fn_children n' = fn_children n \<and>
        child_count n' = child_count n) \<and> arrays s' = arrays s \<and> fs_root s' = fs_root s \<and> fd_table s' = fd_table s"

lemma wrote_splice:
  assumes "wrote s s' a off bs" "off \<le> length (contents s a)"
  shows "contents s' a = splice off bs (contents s a)"
proof (rule nth_equalityI)
  show "length (contents s' a) = length (splice off bs (contents s a))" using assms by (auto simp: wrote_def splice_def)
next
  fix i assume "i < length (contents s' a)"
  then have i: "i < max (length (contents s a)) (off + length bs)" using assms(1) by (simp add: wrote_def)
  consider "i < off" | "off \<le> i" "i < off + length bs" | "off + length bs \<le> i" "i < length (contents s a)" using i assms(2) by linarith
  then show "contents s' a ! i = splice off bs (contents s a) ! i"
  proof cases
    case 1
    then show ?thesis using assms by (simp add: wrote_def splice_def nth_append)
  next
    case 2
    then have "contents s' a ! (off + (i - off)) = bs ! (i - off)" using assms(1) unfolding wrote_def by (metis add_less_cancel_left le_add_diff_inverse)
    moreover have "i - off < length bs" using 2 by linarith
    ultimately show ?thesis using 2 assms(2) by (simp add: splice_def nth_append)
  next
    case 3
    moreover have "\<not> i - off < length bs" "\<not> i < off" using 3 by linarith+
    ultimately show ?thesis using assms by (simp add: wrote_def splice_def nth_append)
  qed
qed

lemma copy_bytes:
  assumes "ramfs_ok s" "nodes s a = Some n" "sized s s1 a n len" "off + length bs \<le> len" "len = max (unat (fn_size n)) (off + length bs)" "nodes s1 a = Some n1"
  defines "s' \<equiv> s1\<lparr>rf_heap := (rf_heap s1)\<lparr>hmem := store (hmem (rf_heap s1)) (fn_data n1 + of_nat off) bs\<rparr>\<rparr>"
  shows "ramfs_ok s'" "wrote s s' a off bs"
proof -
  obtain d k where z: "ramfs_ok s1" "nodes s1 = (nodes s)(a \<mapsto> n\<lparr>fn_data := d, fn_size := of_nat len\<rparr>)" "arrays s1 = arrays s" "fs_root s1 = fs_root s"
     "fd_table s1 = fd_table s" "owned (rf_heap s1) d = Some k" "len \<le> k"
     "\<forall>i<unat (fn_size n). hmem (rf_heap s1) (d + of_nat i) = hmem (rf_heap s) (fn_data n + of_nat i)"
     "\<forall>b j x. b \<noteq> fn_data n \<longrightarrow> owned (rf_heap s) b = Some j \<longrightarrow> x \<in> region b j \<longrightarrow> owned (rf_heap s1) b = Some j \<and> b \<noteq> d \<and> hmem (rf_heap s1) x = hmem (rf_heap s) x"
    using assms(3) unfolding sized_def by blast
  note o = ramfs_okD [OF z(1)]
  have n1: "n1 = n\<lparr>fn_data := d, fn_size := of_nat len\<rparr>" using assms(6) z(2) by simp
  have b: "unat d + k \<le> 16777216" by (rule block_bounds [OF o(3) z(6)])
  have u: "unat (d + of_nat off) = unat d + off" using b z(7) assms(4) by (simp add: unat_plus_of_nat)
  have fits: "unat (d + of_nat off) + length bs \<le> 2 ^ 32" using u b z(7) assms(4) by simp
  note st = store_spec [OF fits, of _ "hmem (rf_heap s1)"]
  have sub: "x \<in> region d k" if "x \<in> region (d + of_nat off) (length bs)" for x using that u z(7) assms(4) by (auto simp: region_def)
  have out: "hmem (rf_heap s') x = hmem (rf_heap s1) x" if "x \<notin> region d k" for x
    using that sub st(2) by (auto simp: s'_def n1)
  obtain as where inv: "heap_inv (rf_heap s1) as" using o(3) by (auto simp: heap_ok_def)
  have pw: "heap_ok (rf_heap s')" "owned (rf_heap s') = owned (rf_heap s1)"
    using payload_write [OF inv z(6), of "hmem (rf_heap s')"] out by (auto simp: s'_def heap_ok_def)
  have ns: "nodes s' = nodes s1" "arrays s' = arrays s1" "fs_root s' = fs_root s1" "fd_table s' = fd_table s1" by (simp_all add: s'_def)
  show "ramfs_ok s'" using o(1) mem_ok_owned [OF o(2) pw] by (simp add: ramfs_ok_def ns)
  have ul: "unat (of_nat len :: u32) = len" using b z(7) by (simp add: unat_of_nat)
  have ca: "contents s' a = load (hmem (rf_heap s')) d len" using z(2) ul by (simp add: contents_def ns)
  have c: "contents s a = load (hmem (rf_heap s)) (fn_data n) (unat (fn_size n))" using assms(2) by (simp add: contents_def)
  have new: "contents s' a ! (off + i) = bs ! i" if "i < length bs" for i
  proof -
    have "hmem (rf_heap s') (d + of_nat off + of_nat i) = bs ! i" using st(1) [OF that] by (simp add: s'_def n1)
    then show ?thesis using that assms(4) by (simp add: ca add.assoc)
  qed
  have old: "contents s' a ! i = contents s a ! i" if "i < unat (fn_size n)" "i < off \<or> off + length bs \<le> i" for i
  proof -
    have "unat (d + of_nat i) = unat d + i" using that(1) assms(5) b z(7) by (simp add: unat_plus_of_nat)
    then have "d + of_nat i \<notin> region (d + of_nat off) (length bs)" using that(2) u by (auto simp: region_def)
    then have "hmem (rf_heap s') (d + of_nat i) = hmem (rf_heap s) (fn_data n + of_nat i)" using st(2) z(8) that(1) by (simp add: s'_def n1)
    then show ?thesis using that(1) assms(5) by (simp add: ca c)
  qed
  have other: "contents s' b = contents s b" if "b \<noteq> a" for b
  proof (cases "nodes s b")
    case None
    then show ?thesis using that z(2) by (simp add: contents_def ns)
  next
    case (Some m)
    show ?thesis
    proof (rule contents_frame [OF assms(1) Some])
      show "nodes s' b = Some m" using that Some z(2) by (simp add: ns)
      show "hmem (rf_heap s') x = hmem (rf_heap s) x" if j: "owned (rf_heap s) (fn_data m) = Some j" "x \<in> region (fn_data m) j" for j x
      proof -
        have "fn_data m \<noteq> 0" using kheap.own_bounds [OF ramfs_okD(3) [OF assms(1)] j(1)] by simp
        then have "fn_data m \<noteq> fn_data n" using mem_okD(8) [OF ramfs_okD(2) [OF assms(1)] Some assms(2) \<open>b \<noteq> a\<close>] by simp
        then have e: "owned (rf_heap s1) (fn_data m) = Some j" "fn_data m \<noteq> d" "hmem (rf_heap s1) x = hmem (rf_heap s) x" using z(9) j by blast+
        then have "x \<notin> region d k" using kheap.own_disjoint [OF o(3) e(1) z(6) e(2)] j(2) by auto
        then show ?thesis using out e(3) by simp
      qed
    qed simp_all
  qed
  show "wrote s s' a off bs"
    unfolding wrote_def using new old other assms(2,5) z(2-5) ns by (auto simp: ca c)
qed

lemma write_spec:
  assumes "ramfs_ok s" "nodes s a = Some n" "fn_type n = FS_FILE" "unat offset + length bs \<le> 0xFFFFFFF0"
  shows "\<exists>r s'. fs_write a offset bs s = Some (r, s') \<and> ramfs_ok s' \<and>
    ((r = -1 \<and> s' = s) \<or> (r = sint (of_nat (length bs) :: u32) \<and> wrote s s' a (unat offset) bs))"
proof -
  note o = ramfs_okD [OF assms(1)]
  have a0: "a \<noteq> 0" using tree_okD(1) [OF o(1) assms(2)] .
  let ?sz = "of_nat (length bs) :: u32" and ?len = "unat offset + length bs"
  have ul: "unat ?sz = length bs" using assms(4) by (simp add: unat_of_nat)
  have us: "unat (offset + ?sz) = ?len" using assms(4) ul by (simp add: unat_plus_simple32)
  have eq: "offset + ?sz = of_nat ?len" by simp
  show ?thesis
  proof (cases "?len \<le> unat (fn_size n)")
    case True
    then have nb: "\<not> fn_size n < offset + ?sz" using us by (simp add: word_less_nat_alt)
    let ?s = "s\<lparr>rf_heap := (rf_heap s)\<lparr>hmem := store (hmem (rf_heap s)) (fn_data n + offset) bs\<rparr>\<rparr>"
    have run: "fs_write a offset bs s = Some (sint ?sz, ?s)" using a0 assms(2,3) nb by (simp add: fs_write_def)
    show ?thesis
    proof (cases "fn_data n = 0")
      case z: True
      then have "unat (fn_size n) = 0" using mem_okD(5) [OF o(2) assms(2)] by simp
      then have e: "bs = []" "unat offset = 0" using True by simp_all
      then have "?s = s" by (simp add: store_def)
      moreover have "wrote s s a (unat offset) bs" using e assms(2) by (auto simp: wrote_def)
      ultimately show ?thesis using run assms(1) by auto
    next
      case False
      have w: "ramfs_ok ?s" "wrote s ?s a (unat offset) bs"
        using copy_bytes [OF assms(1,2) sized_same [OF assms(1-3) False] True max_absorb1 [OF True, symmetric] assms(2)] by simp_all
      then show ?thesis using run by blast
    qed
  next
    case False
    then have b: "fn_size n < offset + ?sz" using us by (simp add: word_less_nat_alt)
    have nz: "offset + ?sz \<noteq> 0" using False us by auto
    have le: "unat (offset + ?sz) \<le> 0xFFFFFFF0" using us assms(4) by simp
    obtain q h where q: "krealloc (rf_heap s) (fn_data n) (offset + ?sz) = Some (q, h)" "q = 0 \<longrightarrow> h = rf_heap s"
      using krealloc_data [OF o(2) assms(2,3) nz le] by blast
    show ?thesis
    proof (cases "q = 0")
      case True
      then show ?thesis using a0 assms(1-3) b q by (intro exI [of _ "-1"] exI [of _ s]) (simp add: fs_write_def)
    next
      case False': False
      define n1 where "n1 = n\<lparr>fn_data := q, fn_size := offset + ?sz\<rparr>"
      define s1 where "s1 = s\<lparr>rf_heap := h, nodes := (nodes s)(a \<mapsto> n1)\<rparr>"
      define s2 where "s2 = s1\<lparr>rf_heap := (rf_heap s1)\<lparr>hmem := store (hmem (rf_heap s1)) (fn_data n1 + of_nat (unat offset)) bs\<rparr>\<rparr>"
      have run: "fs_write a offset bs s = Some (sint ?sz, s2)"
        using a0 assms(2,3) b q(1) False' by (simp add: fs_write_def Let_def s2_def s1_def n1_def)
      have sz: "sized s s1 a n ?len"
        unfolding s1_def n1_def eq by (rule resize_sized [OF assms(1-3) _ _ q(1) [unfolded eq] False']) (use assms(4) False in auto)
      have mx: "?len = max (unat (fn_size n)) ?len" using False by simp
      have n1: "nodes s1 a = Some n1" by (simp add: s1_def)
      have "ramfs_ok s2" "wrote s s2 a (unat offset) bs"
        using copy_bytes [OF assms(1,2) sz order_refl mx n1, folded s2_def] by this
      then show ?thesis using run by blast
    qed
  qed
qed

subsection \<open>Runs of the file system\<close>

text \<open>A new file system: the heap is in order and there are no nodes.\<close>

lemma single_root_tree:
  assumes "a \<noteq> 0" "c \<noteq> 0 \<longrightarrow> A = [c \<mapsto> replicate 32 0]" "c = 0 \<longrightarrow> A = Map.empty"
  shows "tree_ok [a \<mapsto> new_node name FS_DIRECTORY c] A a"
  by (rule tree_okI [where rank = "\<lambda>_. 0"])
     (use assms in \<open>auto simp: shape_def kids_def split: if_splits option.splits\<close>)

lemma ramfs_init_ok:
  assumes "heap_ok (rf_heap s)" "nodes s = Map.empty" "arrays s = Map.empty" "fs_init s = Some s'"
  shows "ramfs_ok s'"
proof -
  have m: "mem_ok (rf_heap s) Map.empty Map.empty" using assms(1) by (simp add: mem_ok_def)
  obtain a h where k: "kmalloc (rf_heap s) 88 = Some (a, h)" "heap_ext (rf_heap s) h" "a \<noteq> 0 \<longrightarrow> owned (rf_heap s) a = None \<and> (\<exists>k\<ge>88. owned h = (owned (rf_heap s))(a \<mapsto> k))"
    using kmalloc_ext [OF assms(1), of 88] by auto
  have a: "a \<noteq> 0" using assms(4) k(1) by (auto simp: fs_init_def fs_create_node_def)
  then obtain i where i: "owned (rf_heap s) a = None" "owned h a = Some i" "88 \<le> i" using k(3) by auto
  have hk: "heap_ok h" using k(2) by (simp add: heap_ext_def)
  obtain c h2 where k2: "kmalloc h 128 = Some (c, h2)" "heap_ext h h2" "c \<noteq> 0 \<longrightarrow> owned h c = None \<and> (\<exists>k\<ge>128. owned h2 = (owned h)(c \<mapsto> k))"
    using kmalloc_ext [OF hk, of 128] by auto
  let ?A = "if c \<noteq> 0 then [c \<mapsto> replicate 32 0] else Map.empty"
  have s': "s' = s\<lparr>rf_heap := h2, nodes := [a \<mapsto> new_node [SLASH] FS_DIRECTORY c], arrays := ?A, fs_root := a\<rparr>"
    using assms(2-4) k(1) k2(1) a by (auto simp: fs_init_def fs_create_node_def new_node_def VFS_MAX_NAME_def MAX_CHILDREN_def)
  have m1: "mem_ok h [a \<mapsto> new_node [SLASH] FS_DIRECTORY c] Map.empty" using mem_insert_node [OF m i(1) a k(2) i(2,3)] by simp
  have "mem_ok h2 [a \<mapsto> new_node [SLASH] FS_DIRECTORY c] ?A"
  proof (cases "c = 0")
    case True
    then show ?thesis using mem_ok_ext [OF m1 k2(2)] by simp
  next
    case False
    then obtain j where "owned h c = None" "owned h2 c = Some j" "128 \<le> j" using k2(3) by auto
    then show ?thesis using mem_insert_array [OF m1 _ False k2(2)] False by simp
  qed
  moreover have "tree_ok [a \<mapsto> new_node [SLASH] FS_DIRECTORY c] ?A a" by (rule single_root_tree [OF a]) simp_all
  ultimately show ?thesis by (simp add: s' ramfs_ok_def)
qed

text \<open>Creating in a directory that is full leaves the new node without a parent.\<close>

lemma touch_ok:
  assumes "ramfs_ok s" "fs_touch path s = Some (a, s')"
  shows "ramfs_ok s'"
proof -
  obtain pp name p where t: "split_path path = Some (pp, name)" "fs_find_by_path pp s = Some p" using assms(2) by (auto simp: fs_touch_def split: bind_splits)
  show ?thesis
  proof (cases "p = 0 \<or> (\<exists>pn. nodes s p = Some pn \<and> fn_type pn \<noteq> FS_DIRECTORY)")
    case True
    then show ?thesis using assms t by (auto simp: fs_touch_def split: if_splits)
  next
    case False
    then obtain pn where p: "nodes s p = Some pn" "fn_type pn = FS_DIRECTORY" "p \<noteq> 0" using find_by_path_node [OF assms(1) t(2)] by auto
    have cnt: "child_count pn \<le> 32" using tree_okD(2) [OF ramfs_okD(1) [OF assms(1)] p(1)] by (simp add: shape_def)
    show ?thesis
    proof (cases "child_count pn < 32 \<and> fn_children pn \<noteq> 0")
      case True
      then have "target path s p name" using t p by (auto simp: target_def)
      then show ?thesis using touch_spec [OF assms(1)] assms(2) by fastforce
    next
      case full: False
      show ?thesis
      proof (cases rule: new_file_spec [OF assms(1), of name, case_names none created])
        case (none s1)
        then show ?thesis using assms(2) t p by (simp add: fs_touch_def)
      next
        case (created b s1 d h s2)
        have b: "b \<noteq> p" "b \<noteq> fs_root s2" using created(6,7) p(1) root_node [OF assms(1)] by (auto simp: extends_def)
        have np: "nodes s2 p = Some pn" "nodes s2 b = Some ((new_node name FS_FILE 0)\<lparr>fn_data := d, fn_size := 0\<rparr>)" using created(8) b(1) p(1) by auto
        note ac = add_child_spec [OF created(5) np(1) p(2) np(2), simplified, OF b(2,1)]
        have run: "fs_touch path s = do { s3 \<leftarrow> fs_add_child p b s2; Some (b, s3) }" using t p created(1-4) by (simp add: fs_touch_def)
        have "child_count pn = 32 \<or> fn_children pn = 0" using full cnt by auto
        then show ?thesis using ac(1,2) run assms(2) created(5) by auto
      qed
    qed
  qed
qed

lemma mkdir_ok:
  assumes "ramfs_ok s" "fs_mkdir path s = Some (a, s')"
  shows "ramfs_ok s'"
proof -
  obtain pp name p where t: "split_path path = Some (pp, name)" "fs_find_by_path pp s = Some p" using assms(2) by (auto simp: fs_mkdir_def split: bind_splits)
  show ?thesis
  proof (cases "p = 0 \<or> (\<exists>pn. nodes s p = Some pn \<and> fn_type pn \<noteq> FS_DIRECTORY)")
    case True
    then show ?thesis using assms t by (auto simp: fs_mkdir_def split: if_splits)
  next
    case False
    then obtain pn where p: "nodes s p = Some pn" "fn_type pn = FS_DIRECTORY" "p \<noteq> 0" using find_by_path_node [OF assms(1) t(2)] by auto
    have cnt: "child_count pn \<le> 32" using tree_okD(2) [OF ramfs_okD(1) [OF assms(1)] p(1)] by (simp add: shape_def)
    show ?thesis
    proof (cases "child_count pn < 32 \<and> fn_children pn \<noteq> 0")
      case True
      then have "target path s p name" using t p by (auto simp: target_def)
      then show ?thesis using mkdir_spec [OF assms(1) _ assms(2)] by blast
    next
      case full: False
      obtain b s1 where c: "fs_create_node name FS_DIRECTORY s = Some (b, s1)" "ramfs_ok s1" "extends s s1" "b = 0 \<longrightarrow> nodes s1 = nodes s"
        "b \<noteq> 0 \<longrightarrow> nodes s b = None \<and> (\<exists>cs. nodes s1 = (nodes s)(b \<mapsto> new_node name FS_DIRECTORY cs))"
        using create_node_spec [OF assms(1), of name FS_DIRECTORY] by blast
      have p1: "nodes s1 p = Some pn" using c(4,5) p(1) by (cases "b = 0") auto
      have run: "fs_mkdir path s = do { s2 \<leftarrow> fs_add_child p b s1; Some (b, s2) }" using t p c(1) by (simp add: fs_mkdir_def)
      have "child_count pn = 32 \<or> child_count pn < 32 \<and> arrays s1 (fn_children pn) = None" using full cnt ramfs_okD(4) [OF c(2)] by (cases "fn_children pn = 0") auto
      then show ?thesis
        using run assms(2) c(2) p1 p(2,3) by (auto simp: fs_add_child_def MAX_CHILDREN_def)
    qed
  qed
qed

text \<open>Walking up from a node ends at a root.\<close>

lemma is_above_total:
  assumes "ramfs_ok s" "c = 0 \<or> nodes s c \<noteq> None"
  shows "\<exists>b. is_above s node c = Some b"
proof -
  obtain rank :: "addr \<Rightarrow> nat" where rank: "\<And>b m. nodes s b = Some m \<Longrightarrow> fn_parent m \<noteq> 0 \<Longrightarrow> rank (fn_parent m) < rank b"
    using tree_okD(8) [OF ramfs_okD(1) [OF assms(1)]] by blast
  show ?thesis
    using assms(2)
  proof (induction "rank c" arbitrary: c rule: less_induct)
    case less
    show ?case
    proof (cases "c = 0 \<or> c = node")
      case True
      then show ?thesis by (subst is_above.simps) auto
    next
      case False
      then obtain n where n: "nodes s c = Some n" using less.prems by auto
      have "\<exists>b. is_above s node (fn_parent n) = Some b"
      proof (cases "fn_parent n = 0")
        case False
        then show ?thesis using less.hyps [OF rank [OF n False]] tree_okD(5) [OF ramfs_okD(1) [OF assms(1)] n False] by auto
      qed (intro exI [of _ False], simp add: is_above.simps)
      then show ?thesis using False n by (subst is_above.simps) simp
    qed
  qed
qed

text \<open>Every used descriptor names a node.\<close>

definition fds_alive :: "ramfs \<Rightarrow> bool" where
  "fds_alive s \<longleftrightarrow> (\<forall>d\<in>set (fd_table s). fd_used d \<longrightarrow> nodes s (fd_node d) \<noteq> None)"

lemma open_below_total:
  assumes "ramfs_ok s" "\<forall>d\<in>set ds. fd_used d \<longrightarrow> nodes s (fd_node d) \<noteq> None"
  shows "\<exists>b. open_below s node ds = Some b"
  using assms(2)
proof (induction ds)
  case (Cons d ds)
  show ?case
  proof (cases "fd_used d \<and> fd_node d \<noteq> 0")
    case True
    then obtain n where n: "nodes s (fd_node d) = Some n" using Cons.prems by auto
    have "fn_parent n = 0 \<or> nodes s (fn_parent n) \<noteq> None" using tree_okD(5) [OF ramfs_okD(1) [OF assms(1)] n] by auto
    then obtain b where "is_above s node (fn_parent n) = Some b" using is_above_total [OF assms(1)] by blast
    then show ?thesis using True n Cons by auto
  qed (use Cons in auto)
qed (intro exI [of _ False], simp)

lemma remove_spec:
  assumes "ramfs_ok s" "fs_find_by_path path s = Some c" "nodes s c = Some cn" "fn_type cn = FS_FILE" "\<forall>d\<in>set (fd_table s). \<not> (fd_used d \<and> fd_node d = c)"
  shows "\<exists>s'. fs_remove path s = Some (0, s') \<and> ramfs_ok s' \<and> removed s s' c"
proof -
  note o = ramfs_okD [OF assms(1)]
  have c0: "c \<noteq> 0" and sh: "shape (arrays s) cn" using tree_okD(1,2) [OF o(1) assms(3)] by auto
  have cc: "child_count cn = 0" using sh assms(4) by (auto simp: shape_def split: if_splits)
  have cr: "c \<noteq> fs_root s" using tree_okD(7) [OF o(1)] assms(3,4) by auto
  have "fs_remove path s = unlink_and_free c s" using assms c0 by (auto simp: fs_remove_def list_ex_iff)
  then show ?thesis using unlink_and_free_spec [OF assms(1,3) cc cr] by simp
qed

lemma remove_cases:
  assumes "ramfs_ok s" "fs_remove path s = Some (r, s')"
  shows "ramfs_ok s' \<and> (r = -1 \<and> s' = s \<or> r = 0 \<and> (\<exists>c. fs_find_by_path path s = Some c \<and> removed s s' c))"
proof -
  obtain c where c: "fs_find_by_path path s = Some c" using find_by_path_total [OF assms(1)] by blast
  show ?thesis
  proof (cases "c = 0")
    case True
    then show ?thesis using assms c by (simp add: fs_remove_def)
  next
    case False
    then obtain cn where cn: "nodes s c = Some cn" using find_by_path_node [OF assms(1) c] by blast
    show ?thesis
    proof (cases "fn_type cn = FS_FILE \<and> (\<forall>d\<in>set (fd_table s). \<not> (fd_used d \<and> fd_node d = c))")
      case True
      then show ?thesis using remove_spec [OF assms(1) c cn] assms(2) c by auto
    next
      case F: False
      then show ?thesis using assms c cn False by (auto simp: fs_remove_def list_ex_iff split: if_splits)
    qed
  qed
qed

lemma rmdir_cases:
  assumes "ramfs_ok s" "fs_rmdir path s = Some (r, s')" "fs_find_by_path path s \<noteq> Some (fs_root s)"
  shows "ramfs_ok s' \<and> (r = -1 \<and> s' = s \<or> r = 0 \<and> (\<exists>c. fs_find_by_path path s = Some c \<and> removed s s' c))"
proof -
  obtain c where c: "fs_find_by_path path s = Some c" using find_by_path_total [OF assms(1)] by blast
  show ?thesis
  proof (cases "fs_rmdir path s = unlink_and_free c s \<and> c \<noteq> 0 \<and> (\<exists>cn. nodes s c = Some cn \<and> child_count cn = 0)")
    case True
    then show ?thesis using unlink_and_free_spec [OF assms(1), of c] assms(2,3) c by fastforce
  next
    case False
    then have "r = -1 \<and> s' = s" using assms(2) c by (auto simp: fs_rmdir_def split: if_splits bind_splits)
    then show ?thesis using assms(1) by simp
  qed
qed

text \<open>The operations in any order: calls that have an outcome, writes that end at most at \<open>0xFFFFFFF0\<close>, and \<open>fs_rmdir\<close> of paths that do not lead to the root.\<close>

inductive ramfs_step :: "ramfs \<Rightarrow> ramfs \<Rightarrow> bool" where
  mkdir: "fs_mkdir path s = Some (a, s') \<Longrightarrow> ramfs_step s s'"
| touch: "fs_touch path s = Some (a, s') \<Longrightarrow> ramfs_step s s'"
| writef: "nodes s a \<noteq> None \<Longrightarrow> unat offset + length bs \<le> 0xFFFFFFF0 \<Longrightarrow> fs_write a offset bs s = Some (r, s') \<Longrightarrow> ramfs_step s s'"
| remove: "fs_remove path s = Some (r, s') \<Longrightarrow> ramfs_step s s'"
| rmdir: "fs_find_by_path path s \<noteq> Some (fs_root s) \<Longrightarrow> fs_rmdir path s = Some (r, s') \<Longrightarrow> ramfs_step s s'"
| openf: "ramfs_step s (snd (fs_open a s))"
| closef: "ramfs_step s (fs_close fd s)"

lemma ramfs_step_ok: "ramfs_step s s' \<Longrightarrow> ramfs_ok s \<Longrightarrow> ramfs_ok s'"
proof (induction rule: ramfs_step.induct)
  case (writef s a offset bs r s')
  then obtain n where n: "nodes s a = Some n" by auto
  show ?case
  proof (cases "fn_type n = FS_FILE")
    case True
    then show ?thesis using write_spec [OF writef.prems n True writef.hyps(2)] writef.hyps(3) by auto
  next
    case False
    then show ?thesis using writef n by (auto simp: fs_write_def Let_def split: if_splits)
  qed
next
  case (openf s a)
  then show ?case by (simp add: fs_open_def ramfs_ok_def split: option.splits)
next
  case (closef s fd)
  then show ?case by (simp add: fs_close_def ramfs_ok_def)
qed (auto dest: mkdir_ok touch_ok remove_cases rmdir_cases)

subsection \<open>A file system to start from\<close>

definition bare_ramfs :: ramfs where
  "bare_ramfs = \<lparr>rf_heap = init_heap (\<lambda>_. 0), nodes = Map.empty, arrays = Map.empty, fs_root = 0,
     fd_table = replicate 64 \<lparr>fd_node = 0, fd_offset = 0, fd_used = False\<rparr>\<rparr>"

lemma first_ramfs:
  obtains s n where "fs_init bare_ramfs = Some s" "ramfs_ok s" "nodes s = [fs_root s \<mapsto> n]" "fn_type n = FS_DIRECTORY" "child_count n = 0" "fn_children n \<noteq> 0"
    "room (rf_heap s) 8388348" "fd_table s = fd_table bare_ramfs"
proof -
  have al: "unat (align16 88) = 96" "unat (align16 128) = 128" by (simp_all add: align16_def)
  obtain a h where k: "kmalloc (init_heap (\<lambda>_. 0)) 88 = Some (a, h)" "a \<noteq> 0" "room h 8388488"
    using kmalloc_room [OF init_heap_room, of 88] al by auto
  obtain c h2 where k2: "kmalloc h 128 = Some (c, h2)" "c \<noteq> 0" "room h2 8388348"
    using kmalloc_room [OF k(3), of 128] al by auto
  define s where "s = bare_ramfs\<lparr>rf_heap := h2, nodes := [a \<mapsto> new_node [SLASH] FS_DIRECTORY c], arrays := [c \<mapsto> replicate 32 0], fs_root := a\<rparr>"
  have i: "fs_init bare_ramfs = Some s"
    using k k2 by (simp add: fs_init_def fs_create_node_def bare_ramfs_def s_def new_node_def VFS_MAX_NAME_def MAX_CHILDREN_def)
  have "ramfs_ok s" by (rule ramfs_init_ok [OF _ _ _ i]) (simp_all add: bare_ramfs_def init_heap_ok)
  then show thesis using that [of s "new_node [SLASH] FS_DIRECTORY c"] i k2 by (simp add: s_def)
qed

lemma first_file:
  obtains s p s1 a n where "fs_init bare_ramfs = Some s" "ramfs_ok s" "target [SLASH, 0x61] s p [0x61]" "child_named s p [0x61] = 0"
    "fs_touch [SLASH, 0x61] s = Some (a, s1)" "a \<noteq> 0" "ramfs_ok s1" "nodes s1 a = Some n" "fn_type n = FS_FILE" "fn_size n = 0" "fn_data n \<noteq> 0"
    "fs_find_by_path [SLASH, 0x61] s1 = Some a" "fd_table s1 = fd_table bare_ramfs" "nodes s a = None" "room (rf_heap s1) 8387204"
proof -
  obtain s r where s: "fs_init bare_ramfs = Some s" "ramfs_ok s" "nodes s = [fs_root s \<mapsto> r]" "fn_type r = FS_DIRECTORY" "child_count r = 0" "fn_children r \<noteq> 0"
    "room (rf_heap s) 8388348" "fd_table s = fd_table bare_ramfs" using first_ramfs .
  have sl: "SLASH \<noteq> 0x61" "[0x61 :: u8] \<noteq> [DOT]" "[0x61 :: u8] \<noteq> [DOT, DOT]" by (simp_all add: SLASH_def DOT_def)
  have sp: "split_path [SLASH, 0x61] = Some ([SLASH], [0x61])" using sl(1) by (simp add: split_path_def fit_def)
  have f: "fs_find_by_path [SLASH] s = Some (fs_root s)" by (simp add: fs_find_by_path_def fs_get_root_def)
  have t: "target [SLASH, 0x61] s (fs_root s) [0x61]" using sp f s by (auto simp: target_def)
  have cn: "child_named s (fs_root s) [0x61] = 0" using s(3,5) by (auto simp: child_named_def kids_def split: option.splits)
  obtain a s1 where r: "fs_touch [SLASH, 0x61] s = Some (a, s1)" "ramfs_ok s1" "extends s s1"
    "a \<noteq> 0 \<longrightarrow> nodes s a = None \<and> grows s s1 (fs_root s) a \<and> (\<exists>n. nodes s1 a = Some n \<and> fn_name n = [0x61] \<and> fn_type n = FS_FILE \<and> fn_size n = 0 \<and> fn_parent n = fs_root s)"
    using touch_spec [OF s(2) t] by blast
  have al: "unat (align16 88) = 96" "unat (align16 1024) = 1024" by (simp_all add: align16_def)
  obtain b h where k: "kmalloc (rf_heap s) 88 = Some (b, h)" "b \<noteq> 0" "room h 8388240" using kmalloc_room [OF s(7), of 88] al by auto
  obtain d h2 where k2: "kmalloc h 1024 = Some (d, h2)" "d \<noteq> 0" "room h2 8387204" using kmalloc_room [OF k(3), of 1024] al by auto
  have fr: "b \<noteq> fs_root s"
  proof
    assume "b = fs_root s"
    then have "owned (rf_heap s) b \<noteq> None" using mem_okD(2) [OF ramfs_okD(2) [OF s(2)], of b] s(3) by auto
    then show False using kheap.malloc_own [OF ramfs_okD(3) [OF s(2)] k(1,2)] by simp
  qed
  have r0: "fs_root s \<noteq> 0" using root_node [OF s(2)] ramfs_okD(5) [OF s(2)] by metis
  obtain arr where arr: "arrays s (fn_children r) = Some arr" using tree_okD(2) [OF ramfs_okD(1) [OF s(2)], of "fs_root s" r] s(3,6) by (auto simp: shape_def)
  have run: "a = b \<and> (\<exists>n. nodes s1 b = Some n \<and> fn_data n = d) \<and> rf_heap s1 = h2"
    using r(1) sp f s(3-5) k(1,2) k2(1) fr r0 arr
    by (auto simp: fs_touch_def fs_create_node_def upd_node_def fs_add_child_def MAX_CHILDREN_def Let_def)
  have a0: "a \<noteq> 0" using run k(2) by simp
  then obtain n where n: "nodes s1 a = Some n" "fn_name n = [0x61]" "fn_type n = FS_FILE" "fn_size n = 0" "grows s s1 (fs_root s) a" "nodes s a = None" using r(4) by blast
  have g: "good_name [0x61]" using sl by (simp add: good_name_def is_name_def)
  have "fs_find_by_path [SLASH, 0x61] s1 = Some a"
    using find_new [OF s(2) t r(2) n(5) _ n(1,2) g cn] r(3) by (simp add: extends_def)
  moreover have "fd_table s1 = fd_table bare_ramfs" using r(3) s(8) by (simp add: extends_def)
  moreover have "fn_data n \<noteq> 0" using run n(1) k2(2) by auto
  ultimately show thesis using that [OF s(1,2) t cn r(1) a0 r(2) n(1,3,4)] n(6) run k2(3) by simp
qed

subsection \<open>What the file system guarantees\<close>

text \<open>C25. From \<open>fs_init\<close> on, whatever sequence of the steps above follows, the file system stays well formed: the nodes form a forest whose links up and
  down agree, every node, array of children and file has a block of the kernel heap of its own that is large enough, and the heap itself is in
  order. Not steps, because the code breaks there, are a write that ends beyond \<open>0xFFFFFFF0\<close> (its size wraps around), \<open>fs_rmdir\<close> of another spelling of the
  root such as \<open>//\<close> or \<open>/.\<close>, which frees the root, and calls that have no outcome, such as \<open>fs_mkdir\<close> without memory, which uses the null pointer.\<close>

theorem ramfs_invariant:
  assumes "heap_ok (rf_heap s0)" "nodes s0 = Map.empty" "arrays s0 = Map.empty" "fs_init s0 = Some s" "ramfs_step\<^sup>*\<^sup>* s s'"
  shows "tree_ok (nodes s') (arrays s') (fs_root s') \<and> mem_ok (rf_heap s') (nodes s') (arrays s') \<and> heap_ok (rf_heap s')"
proof -
  have "ramfs_ok s'" using assms(5)
    by (induction rule: rtranclp_induct) (auto intro: ramfs_init_ok [OF assms(1-4)] ramfs_step_ok)
  then show ?thesis using ramfs_okD by blast
qed

theorem ramfs_invariant_witness:
  "\<exists>s a s'. fs_init bare_ramfs = Some s \<and> fs_touch [SLASH, 0x61] s = Some (a, s') \<and> a \<noteq> 0 \<and> mem_ok (rf_heap s') (nodes s') (arrays s')"
proof -
  obtain s a s' where s: "fs_init bare_ramfs = Some s" "fs_touch [SLASH, 0x61] s = Some (a, s')" "a \<noteq> 0" using first_file by metis
  have "ramfs_step\<^sup>*\<^sup>* s s'" using ramfs_step.touch [OF s(2)] by blast
  with ramfs_invariant [OF _ _ _ s(1) this] s show ?thesis by (auto simp: bare_ramfs_def init_heap_ok)
qed

text \<open>Looking up an absolute path, which reads it character by character, is the walk over its components from the root:
  \<open>.\<close> stays, \<open>..\<close> goes to the parent and stays at the root, and a name goes to the first child with that name. A component of 64 bytes or more
  makes the lookup fail.\<close>

theorem path_lookup_walks:
  assumes "ramfs_ok s" "path \<noteq> []" "hd path = SLASH"
  shows "fs_find_by_path path s = Some (if \<exists>t\<in>set (path_tokens path). 64 \<le> length t then 0 else walk_tree s (fs_root s) (path_tokens path))"
  by (rule find_by_path_walk [OF assms])

theorem path_lookup_walks_witness:
  "\<exists>s a s'. fs_init bare_ramfs = Some s \<and> fs_touch [SLASH, 0x61] s = Some (a, s') \<and> a \<noteq> 0 \<and> walk_tree s' (fs_root s') [[0x61]] = a"
proof -
  obtain s a s1 where s: "fs_init bare_ramfs = Some s" "fs_touch [SLASH, 0x61] s = Some (a, s1)" "a \<noteq> 0" "ramfs_ok s1" "fs_find_by_path [SLASH, 0x61] s1 = Some a"
    using first_file by metis
  from path_lookup_walks [OF s(4), of "[SLASH, 0x61]"] s show ?thesis by (auto simp: SLASH_def)
qed

lemma grows_contents:
  assumes "ramfs_ok s" "grows s s' p a" "extends s s'" "nodes s b \<noteq> None"
  shows "contents s' b = contents s b"
proof -
  obtain m where m: "nodes s b = Some m" using assms(4) by blast
  obtain m' where "nodes s' b = Some m'" "fn_data m' = fn_data m" "fn_size m' = fn_size m" using assms(2) m unfolding grows_def by blast
  then show ?thesis using contents_frame [OF assms(1) m] assms(3) by (auto simp: extends_def heap_ext_def)
qed

lemma grows_lookup:
  assumes "ramfs_ok s" "ramfs_ok s'" "grows s s' p a" "extends s s'" "fs_find_by_path q s = Some b" "b \<noteq> 0"
  shows "fs_find_by_path q s' = Some b"
proof -
  have q: "q \<noteq> []" "hd q = SLASH" using assms(5,6) by (auto simp: fs_find_by_path_def split: if_splits)
  have w: "\<not> (\<exists>t\<in>set (path_tokens q). 64 \<le> length t)" "walk_tree s (fs_root s) (path_tokens q) = b"
    using find_by_path_walk [OF assms(1) q] assms(5,6) by (auto split: if_splits)
  then have "walk_tree s' (fs_root s') (path_tokens q) = b"
    using grows_walk [OF assms(1,3) root_node [OF assms(1)]] assms(4,6) by (simp add: extends_def)
  then show ?thesis using find_by_path_walk [OF assms(2) q] w(1) by simp
qed

text \<open>C27. Creating a file with \<open>fs_touch\<close> under a new name in a directory that has room for another child always returns. Without memory nothing changes.
  Otherwise the new node is empty and is what the path leads to afterwards, and every path that led to a node before still leads to it, with the same
  contents. (In a full directory \<open>fs_touch\<close> returns a node that no path leads to; that case is excluded by \<open>target\<close>.)\<close>

theorem created_file_is_found:
  assumes "ramfs_ok s" "target path s p name" "good_name name" "child_named s p name = 0"
  shows "\<exists>a s'. fs_touch path s = Some (a, s') \<and> ramfs_ok s' \<and> (a = 0 \<longrightarrow> nodes s' = nodes s \<and> arrays s' = arrays s) \<and>
    (a \<noteq> 0 \<longrightarrow> nodes s a = None \<and> fs_find_by_path path s' = Some a \<and> contents s' a = [] \<and>
      (\<forall>q b. fs_find_by_path q s = Some b \<and> b \<noteq> 0 \<longrightarrow> fs_find_by_path q s' = Some b \<and> contents s' b = contents s b))"
proof -
  obtain a s' where r: "fs_touch path s = Some (a, s')" "ramfs_ok s'" "extends s s'" "a = 0 \<longrightarrow> nodes s' = nodes s \<and> arrays s' = arrays s"
    "a \<noteq> 0 \<longrightarrow> nodes s a = None \<and> grows s s' p a \<and> (\<exists>n. nodes s' a = Some n \<and> fn_name n = name \<and> fn_type n = FS_FILE \<and> fn_size n = 0 \<and> fn_parent n = p)"
    using touch_spec [OF assms(1,2)] by blast
  have "nodes s a = None \<and> fs_find_by_path path s' = Some a \<and> contents s' a = [] \<and>
      (\<forall>q b. fs_find_by_path q s = Some b \<and> b \<noteq> 0 \<longrightarrow> fs_find_by_path q s' = Some b \<and> contents s' b = contents s b)" if "a \<noteq> 0"
  proof -
    obtain n where n: "nodes s a = None" "grows s s' p a" "nodes s' a = Some n" "fn_name n = name" "fn_size n = 0" using r(5) \<open>a \<noteq> 0\<close> by blast
    have f: "fs_find_by_path path s' = Some a" using find_new [OF assms(1,2) r(2) n(2) _ n(3,4) assms(3,4)] r(3) by (simp add: extends_def)
    have "fs_find_by_path q s' = Some b \<and> contents s' b = contents s b" if "fs_find_by_path q s = Some b" "b \<noteq> 0" for q b
      using grows_lookup [OF assms(1) r(2) n(2) r(3) that] grows_contents [OF assms(1) n(2) r(3) find_by_path_node [OF assms(1) that]] by simp
    moreover have "contents s' a = []" using n(3,5) by (simp add: contents_def load_def)
    ultimately show ?thesis using n(1) f by blast
  qed
  then show ?thesis using r by blast
qed

theorem created_file_is_found_witness:
  "\<exists>s a s'. fs_init bare_ramfs = Some s \<and> fs_touch [SLASH, 0x61] s = Some (a, s') \<and> a \<noteq> 0 \<and> fs_find_by_path [SLASH, 0x61] s' = Some a \<and> contents s' a = []"
proof -
  obtain s p a s1 where s: "fs_init bare_ramfs = Some s" "ramfs_ok s" "target [SLASH, 0x61] s p [0x61]" "child_named s p [0x61] = 0"
    "fs_touch [SLASH, 0x61] s = Some (a, s1)" "a \<noteq> 0" using first_file by metis
  have "good_name [0x61]" by (simp add: good_name_def is_name_def SLASH_def DOT_def)
  from created_file_is_found [OF s(2,3) this s(4)] s show ?thesis by auto
qed

text \<open>C26. A file behaves like a list of bytes. Writing at an offset within it either fails for lack of memory and changes nothing, or replaces
  and extends exactly that stretch; no other file changes. Reading returns the stretch that is there, so a read of what was just written returns
  it.\<close>

theorem file_refines_bytes:
  assumes "ramfs_ok s" "nodes s a = Some n" "fn_type n = FS_FILE" "unat offset \<le> length (contents s a)" "unat offset + length bs \<le> 0xFFFFFFF0"
  shows "\<exists>r s'. fs_write a offset bs s = Some (r, s') \<and> ramfs_ok s' \<and>
    (r = -1 \<and> s' = s \<or>
     r = sint (of_nat (length bs) :: u32) \<and> contents s' a = splice (unat offset) bs (contents s a) \<and> (\<forall>b. b \<noteq> a \<longrightarrow> contents s' b = contents s b) \<and>
     fs_read a offset (of_nat (length bs)) s' = Some (int (length bs), bs)) \<and>
    (\<forall>sz. unat offset + unat sz < 2 ^ 32 \<longrightarrow>
       fs_read a offset sz s = Some (let out = take (unat sz) (drop (unat offset) (contents s a)) in (int (length out), out)))"
proof -
  obtain r s' where w: "fs_write a offset bs s = Some (r, s')" "ramfs_ok s'" "r = -1 \<and> s' = s \<or> r = sint (of_nat (length bs) :: u32) \<and> wrote s s' a (unat offset) bs"
    using write_spec [OF assms(1-3,5)] by blast
  have rd: "\<forall>sz. unat offset + unat sz < 2 ^ 32 \<longrightarrow>
       fs_read a offset sz s = Some (let out = take (unat sz) (drop (unat offset) (contents s a)) in (int (length out), out))"
    using read_spec [OF assms(1-3)] assms(4) by simp
  have "contents s' a = splice (unat offset) bs (contents s a) \<and> (\<forall>b. b \<noteq> a \<longrightarrow> contents s' b = contents s b) \<and>
     fs_read a offset (of_nat (length bs)) s' = Some (int (length bs), bs)" if v: "wrote s s' a (unat offset) bs"
  proof -
    have c: "contents s' a = splice (unat offset) bs (contents s a)" by (rule wrote_splice [OF v assms(4)])
    obtain n' where n': "nodes s' a = Some n'" "fn_type n' = FS_FILE" using v assms(2,3) by (auto simp: wrote_def)
    have u: "unat (of_nat (length bs) :: u32) = length bs" using assms(5) by (simp add: unat_of_nat)
    have e: "take (length bs) (drop (unat offset) (contents s' a)) = bs" using assms(4) by (simp add: c splice_def)
    have l: "\<not> length (contents s' a) < unat offset" using assms(4) by (simp add: c splice_def)
    have "fs_read a offset (of_nat (length bs)) s' = Some (int (length bs), bs)"
      using read_spec [OF w(2) n', of offset "of_nat (length bs)"] assms(5) e l by (simp only: u) (simp add: Let_def)
    moreover have "\<forall>b. b \<noteq> a \<longrightarrow> contents s' b = contents s b" using v by (simp add: wrote_def)
    ultimately show ?thesis using c by blast
  qed
  then show ?thesis using w rd by blast
qed

theorem file_refines_bytes_witness:
  "\<exists>s a s' r s''. fs_init bare_ramfs = Some s \<and> fs_touch [SLASH, 0x61] s = Some (a, s') \<and> a \<noteq> 0 \<and> fs_write a 0 [1, 2, 3] s' = Some (r, s'') \<and>
     (r \<noteq> -1 \<longrightarrow> contents s'' a = [1, 2, 3] \<and> fs_read a 0 3 s'' = Some (3, [1, 2, 3]))"
proof -
  obtain s a s1 n where s: "fs_init bare_ramfs = Some s" "fs_touch [SLASH, 0x61] s = Some (a, s1)" "a \<noteq> 0" "ramfs_ok s1" "nodes s1 a = Some n" "fn_type n = FS_FILE" "fn_size n = 0"
    using first_file by metis
  have c: "contents s1 a = []" using s(5,7) by (simp add: contents_def load_def)
  from file_refines_bytes [OF s(4-6), of 0 "[1, 2, 3]"] s c show ?thesis by (auto simp: splice_def numeral_3_eq_3 [symmetric])
qed

text \<open>Removing a file that no descriptor has open succeeds: no path leads to it any more, exactly its blocks are free again, and all
  other nodes keep their contents. While a descriptor has it open the call fails and changes nothing.\<close>

theorem removed_file_is_gone:
  assumes "ramfs_ok s" "fs_find_by_path path s = Some c" "nodes s c = Some n" "fn_type n = FS_FILE"
  shows "(if \<exists>d\<in>set (fd_table s). fd_used d \<and> fd_node d = c then fs_remove path s = Some (-1, s)
      else \<exists>s'. fs_remove path s = Some (0, s') \<and> ramfs_ok s' \<and> (\<forall>q. fs_find_by_path q s' \<noteq> Some c) \<and>
        (\<forall>a. owned (rf_heap s') a = (if a = c \<or> a = fn_data n then None else owned (rf_heap s) a)) \<and>
        (\<forall>b. b \<noteq> c \<longrightarrow> contents s' b = contents s b))"
proof (cases "\<exists>d\<in>set (fd_table s). fd_used d \<and> fd_node d = c")
  case True
  have "c \<noteq> 0" using tree_okD(1) [OF ramfs_okD(1) [OF assms(1)] assms(3)] .
  with True show ?thesis using assms by (auto simp: fs_remove_def list_ex_iff)
next
  case False
  note o = ramfs_okD [OF assms(1)]
  obtain s' where s': "fs_remove path s = Some (0, s')" "ramfs_ok s'" "removed s s' c" using remove_spec [OF assms] False by blast
  have c0: "c \<noteq> 0" using tree_okD(1) [OF o(1) assms(3)] .
  have ch: "fn_children n = 0" using tree_okD(2) [OF o(1) assms(3)] assms(4) by (auto simp: shape_def split: if_splits)
  have z: "owned (rf_heap s) 0 = None" using kheap.own_bounds [OF o(3), of 0] by (cases "owned (rf_heap s) 0") auto
  have gone: "fs_find_by_path q s' \<noteq> Some c" for q
    using find_by_path_node [OF s'(2), of q c] s'(3) c0 by (auto simp: removed_def)
  have ow: "\<forall>a. owned (rf_heap s') a = (if a = c \<or> a = fn_data n then None else owned (rf_heap s) a)" using s'(3) assms(3) ch z by (auto simp: removed_def)
  have "contents s' b = contents s b" if bc: "b \<noteq> c" for b
  proof (cases "nodes s b")
    case None
    then have "nodes s' b = None" using s'(3) unfolding removed_def by (metis not_None_eq option.distinct(1))
    then show ?thesis using None by (simp add: contents_def)
  next
    case (Some m)
    then obtain m' where m': "nodes s' b = Some m'" using s'(3) bc unfolding removed_def by blast
    then have "\<exists>k. nodes s b = Some k \<and> m' = k\<lparr>child_count := child_count m'\<rparr>" using s'(3) unfolding removed_def by blast
    then have e: "m' = m\<lparr>child_count := child_count m'\<rparr>" using Some by simp
    then have f: "fn_data m' = fn_data m" "fn_size m' = fn_size m" by (metis FSNode.select_convs FSNode.surjective FSNode.update_convs(7))+
    show ?thesis
    proof (rule contents_frame [OF assms(1) Some m' f])
      show "hmem (rf_heap s') x = hmem (rf_heap s) x" if k: "owned (rf_heap s) (fn_data m) = Some k" "x \<in> region (fn_data m) k" for k x
      proof -
        have "fn_data m \<noteq> 0" using k(1) z by auto
        then have "fn_data m \<noteq> fn_data n" "fn_data m \<noteq> fn_children n" using mem_okD(8) [OF o(2) Some assms(3) \<open>b \<noteq> c\<close>] ch by auto
        then show ?thesis using s'(3) assms(3) k unfolding removed_def by force
      qed
    qed
  qed
  then show ?thesis using s' gone ow False by auto
qed

theorem removed_file_is_gone_witness:
  "\<exists>s a s' s''. fs_init bare_ramfs = Some s \<and> fs_touch [SLASH, 0x61] s = Some (a, s') \<and> a \<noteq> 0 \<and> fs_remove [SLASH, 0x61] s' = Some (0, s'') \<and>
     fs_find_by_path [SLASH, 0x61] s'' \<noteq> Some a"
proof -
  obtain s a s1 n where s: "fs_init bare_ramfs = Some s" "fs_touch [SLASH, 0x61] s = Some (a, s1)" "a \<noteq> 0" "ramfs_ok s1" "nodes s1 a = Some n" "fn_type n = FS_FILE"
    "fs_find_by_path [SLASH, 0x61] s1 = Some a" "fd_table s1 = fd_table bare_ramfs"
    using first_file by metis
  from removed_file_is_gone [OF s(4,7,5,6)] s show ?thesis by (auto simp: bare_ramfs_def)
qed

text \<open>C28. Looking up, removing a file and removing a directory always return: the recursion over children and the walk up the parents of
  every open file end. This needs the open descriptors to name nodes that exist, and for a directory a path that does not lead to the root.\<close>

theorem ramfs_calls_return:
  assumes "ramfs_ok s" "fds_alive s"
  shows "(\<exists>a. fs_find_by_path path s = Some a) \<and> (\<exists>r s'. fs_remove path s = Some (r, s')) \<and>
    (fs_find_by_path path s \<noteq> Some (fs_root s) \<longrightarrow> (\<exists>r s'. fs_rmdir path s = Some (r, s')))"
proof -
  obtain c where c: "fs_find_by_path path s = Some c" using find_by_path_total [OF assms(1)] by blast
  have n: "\<exists>n. nodes s c = Some n" if "c \<noteq> 0" using find_by_path_node [OF assms(1) c that] by blast
  have rm: "\<exists>r s'. fs_remove path s = Some (r, s')"
  proof (cases "\<exists>n. c \<noteq> 0 \<and> nodes s c = Some n \<and> fn_type n = FS_FILE \<and> (\<forall>d\<in>set (fd_table s). \<not> (fd_used d \<and> fd_node d = c))")
    case True
    then show ?thesis using remove_spec [OF assms(1) c] by blast
  next
    case False
    then have "c = 0 \<or> (\<exists>n. nodes s c = Some n \<and> (fn_type n \<noteq> FS_FILE \<or> list_ex (\<lambda>d. fd_used d \<and> fd_node d = c) (fd_table s)))"
      using n unfolding list_ex_iff by blast
    then show ?thesis using c by (auto simp: fs_remove_def)
  qed
  have rd: "\<exists>r s'. fs_rmdir path s = Some (r, s')" if root: "c \<noteq> fs_root s"
  proof (cases "\<exists>n. c \<noteq> 0 \<and> nodes s c = Some n \<and> fn_type n = FS_DIRECTORY \<and> child_count n = 0 \<and> path \<noteq> [SLASH]")
    case True
    then obtain n' where n': "c \<noteq> 0" "nodes s c = Some n'" "fn_type n' = FS_DIRECTORY" "child_count n' = 0" "path \<noteq> [SLASH]" by blast
    obtain b where b: "open_below s c (fd_table s) = Some b" using open_below_total [OF assms(1)] assms(2) unfolding fds_alive_def by blast
    obtain s' where "unlink_and_free c s = Some (0, s')" using unlink_and_free_spec [OF assms(1) n'(2,4) root] by blast
    then show ?thesis using c n' b by (cases b) (simp_all add: fs_rmdir_def)
  next
    case False
    then show ?thesis using c n by (auto simp: fs_rmdir_def)
  qed
  show ?thesis using c rm rd by auto
qed

theorem ramfs_calls_return_witness:
  "\<exists>s a s' r s''. fs_init bare_ramfs = Some s \<and> fs_touch [SLASH, 0x61] s = Some (a, s') \<and> a \<noteq> 0 \<and> fs_remove [SLASH, 0x61] s' = Some (r, s'')"
proof -
  obtain s a s1 where s: "fs_init bare_ramfs = Some s" "fs_touch [SLASH, 0x61] s = Some (a, s1)" "a \<noteq> 0" "ramfs_ok s1" "fd_table s1 = fd_table bare_ramfs"
    using first_file by metis
  have "fds_alive s1" using s(5) by (simp add: fds_alive_def bare_ramfs_def)
  from ramfs_calls_return [OF s(4) this, of "[SLASH, 0x61]"] s show ?thesis by blast
qed

end
