(* ===== verification/Ramfs_Vfs.thy ===== *)
theory Ramfs_Vfs
  imports Ramfs_Files
begin

text \<open>
  The file system in memory behind the virtual file system, \<^verbatim>\<open>src/kernel/ramfs_vfs.cpp\<close>, and the system calls on files of
  \<^verbatim>\<open>src/kernel/syscalls.cpp\<close>. The locale \<open>file_system\<close> is what a client of the virtual file system relies on; it is interpreted on the
  adapter.
\<close>

subsection \<open>The adapter\<close>

definition ramfs_vfs_open :: "nat \<Rightarrow> path \<Rightarrow> vfs_file \<Rightarrow> ramfs \<Rightarrow> (int \<times> vfs_file \<times> ramfs) option" where
  "ramfs_vfs_open m path f s =
     do {
       node \<leftarrow> fs_find_by_path path s;
       if node = 0 then Some (VFS_NOT_FOUND, f, s)
       else do {
         n \<leftarrow> nodes s node;
         if fn_type n \<noteq> FS_FILE then Some (VFS_ERROR, f, s)
         else Some (VFS_SUCCESS, f\<lparr>fs_handle := node, vf_position := 0, vf_in_use := True\<rparr>, s)
       }
     }"

definition ramfs_vfs_read :: "vfs_file \<Rightarrow> u32 \<Rightarrow> ramfs \<Rightarrow> (int \<times> u8 list \<times> vfs_file \<times> ramfs) option" where
  "ramfs_vfs_read f sz s =
     (if \<not> vf_in_use f \<or> fs_handle f = 0 then Some (VFS_ERROR, [], f, s)
      else do {
        n \<leftarrow> nodes s (fs_handle f);
        if fn_data n = 0 then Some (VFS_ERROR, [], f, s)
        else if vf_position f \<ge> fn_size n then Some (0, [], f, s)
        else let remaining = fn_size n - vf_position f; sz = (if sz > remaining then remaining else sz)
             in Some (sint sz, load (hmem (rf_heap s)) (fn_data n + vf_position f) (unat sz), f\<lparr>vf_position := vf_position f + sz\<rparr>, s)
      })"

definition ramfs_vfs_write :: "vfs_file \<Rightarrow> u8 list \<Rightarrow> ramfs \<Rightarrow> (int \<times> vfs_file \<times> ramfs) option" where
  "ramfs_vfs_write f buffer s =
     (if \<not> vf_in_use f \<or> fs_handle f = 0 then Some (VFS_ERROR, f, s)
      else do {
        n \<leftarrow> nodes s (fs_handle f);
        let sz = (of_nat (length buffer) :: u32);
        let new_size = vf_position f + sz;
        (ok, s) \<leftarrow> (if new_size > fn_size n
           then do {
             (new_data, h) \<leftarrow> (if fn_data n = 0 then kmalloc (rf_heap s) new_size else krealloc (rf_heap s) (fn_data n) new_size);
             let s = s\<lparr>rf_heap := h\<rparr>;
             if new_data = 0 then Some (False, s)
             else Some (True, s\<lparr>nodes := (nodes s)(fs_handle f \<mapsto> n\<lparr>fn_data := new_data, fn_size := new_size\<rparr>)\<rparr>)
           }
           else Some (True, s));
        if \<not> ok then Some (VFS_ERROR, f, s)
        else do {
          n \<leftarrow> nodes s (fs_handle f);
          let s = s\<lparr>rf_heap := (rf_heap s)\<lparr>hmem := store (hmem (rf_heap s)) (fn_data n + vf_position f) buffer\<rparr>\<rparr>;
          Some (sint sz, f\<lparr>vf_position := vf_position f + sz\<rparr>, s)
        }
      })"

definition ramfs_vfs_seek :: "vfs_file \<Rightarrow> u32 \<Rightarrow> ramfs \<Rightarrow> (int \<times> vfs_file \<times> ramfs) option" where
  "ramfs_vfs_seek f pos s =
     (if \<not> vf_in_use f \<or> fs_handle f = 0 then Some (VFS_ERROR, f, s) else Some (VFS_SUCCESS, f\<lparr>vf_position := pos\<rparr>, s))"

definition ramfs_vfs_close :: "vfs_file \<Rightarrow> ramfs \<Rightarrow> (vfs_file \<times> ramfs) option" where
  "ramfs_vfs_close f s = Some (if vf_in_use f then f\<lparr>vf_in_use := False, fs_handle := 0, vf_position := 0\<rparr> else f, s)"

definition dirent_of :: "FSNode \<Rightarrow> vfs_dirent" where
  "dirent_of n = \<lparr>de_name = take (VFS_MAX_NAME - 1) (fn_name n), de_type = (if fn_type n = FS_FILE then VFS_TYPE_FILE else VFS_TYPE_DIRECTORY), de_size = fn_size n\<rparr>"

fun list_children :: "ramfs \<Rightarrow> nat \<Rightarrow> addr list \<Rightarrow> vfs_dirent list \<Rightarrow> vfs_dirent list option" where
  "list_children s max_count [] entries = Some entries"
| "list_children s max_count (c # cs) entries =
     (if length entries \<ge> max_count then Some entries
      else if c = 0 then list_children s max_count cs entries
      else do { n \<leftarrow> nodes s c; list_children s max_count cs (entries @ [dirent_of n]) })"

definition ramfs_vfs_readdir :: "nat \<Rightarrow> path \<Rightarrow> nat \<Rightarrow> ramfs \<Rightarrow> (int \<times> vfs_dirent list \<times> ramfs) option" where
  "ramfs_vfs_readdir m path max_entries s =
     do {
       d \<leftarrow> fs_find_by_path path s;
       if d = 0 then Some (VFS_NOT_FOUND, [], s)
       else do {
         n \<leftarrow> nodes s d;
         if fn_type n \<noteq> FS_DIRECTORY then Some (VFS_ERROR, [], s)
         else do {
           cs \<leftarrow> children_of s n;
           entries \<leftarrow> list_children s max_entries cs [];
           Some (int (length entries), entries, s)
         }
       }
     }"

definition ramfs_vfs_mkdir :: "nat \<Rightarrow> path \<Rightarrow> ramfs \<Rightarrow> (int \<times> ramfs) option" where
  "ramfs_vfs_mkdir m path s = do { (node, s) \<leftarrow> fs_mkdir path s; Some (if node = 0 then VFS_ERROR else VFS_SUCCESS, s) }"

definition ramfs_vfs_rmdir :: "nat \<Rightarrow> path \<Rightarrow> ramfs \<Rightarrow> (int \<times> ramfs) option" where
  "ramfs_vfs_rmdir m path s = do { (r, s) \<leftarrow> fs_rmdir path s; Some (if r = 0 then VFS_SUCCESS else VFS_ERROR, s) }"

definition ramfs_vfs_create :: "nat \<Rightarrow> path \<Rightarrow> ramfs \<Rightarrow> (int \<times> ramfs) option" where
  "ramfs_vfs_create m path s = do { (node, s) \<leftarrow> fs_touch path s; Some (if node = 0 then VFS_ERROR else VFS_SUCCESS, s) }"

definition ramfs_vfs_remove :: "nat \<Rightarrow> path \<Rightarrow> ramfs \<Rightarrow> (int \<times> ramfs) option" where
  "ramfs_vfs_remove m path s = do { (r, s) \<leftarrow> fs_remove path s; Some (if r = 0 then VFS_SUCCESS else VFS_ERROR, s) }"

definition ramfs_vfs_stat :: "nat \<Rightarrow> path \<Rightarrow> ramfs \<Rightarrow> (int \<times> vfs_dirent option \<times> ramfs) option" where
  "ramfs_vfs_stat m path s =
     do {
       node \<leftarrow> fs_find_by_path path s;
       if node = 0 then Some (VFS_NOT_FOUND, None, s) else do { n \<leftarrow> nodes s node; Some (VFS_SUCCESS, Some (dirent_of n), s) }
     }"

definition ramfs_vfs_ops :: "ramfs vfs_operations" where
  "ramfs_vfs_ops =
     \<lparr>vop_open = Some ramfs_vfs_open, vop_read = Some ramfs_vfs_read, vop_write = Some ramfs_vfs_write, vop_seek = Some ramfs_vfs_seek,
      vop_close = Some ramfs_vfs_close, vop_unmount = None, vop_readdir = Some ramfs_vfs_readdir, vop_mkdir = Some ramfs_vfs_mkdir,
      vop_rmdir = Some ramfs_vfs_rmdir, vop_create = Some ramfs_vfs_create, vop_remove = Some ramfs_vfs_remove, vop_stat = Some ramfs_vfs_stat\<rparr>"

definition ramfs_vfs_mount :: "path \<Rightarrow> ramfs vfs \<Rightarrow> (int \<times> ramfs vfs) option" where
  "ramfs_vfs_mount mp v = vfs_mount mp VFS_FS_RAMFS 0 ramfs_vfs_ops 0 v"

subsection \<open>System calls on files\<close>

definition sys_open :: "path \<Rightarrow> ramfs \<Rightarrow> (int \<times> ramfs) option" where
  "sys_open path s = do { node \<leftarrow> fs_find_by_path path s; Some (if node = 0 then (-1, s) else fs_open node s) }"

definition sys_read :: "int \<Rightarrow> u32 \<Rightarrow> ramfs \<Rightarrow> (int \<times> u8 list) option" where
  "sys_read fd sz s =
     (if fd < 0 \<or> fd \<ge> int MAX_OPEN_FILES \<or> \<not> fd_used (fd_table s ! nat fd) then Some (-1, [])
      else fs_read (fd_node (fd_table s ! nat fd)) (fd_offset (fd_table s ! nat fd)) sz s)"

definition sys_write :: "int \<Rightarrow> u8 list \<Rightarrow> ramfs \<Rightarrow> (int \<times> ramfs) option" where
  "sys_write fd buffer s =
     (if fd < 0 \<or> fd \<ge> int MAX_OPEN_FILES \<or> \<not> fd_used (fd_table s ! nat fd) then Some (-1, s)
      else fs_write (fd_node (fd_table s ! nat fd)) (fd_offset (fd_table s ! nat fd)) buffer s)"

definition sys_close :: "int \<Rightarrow> ramfs \<Rightarrow> ramfs" where
  "sys_close fd s = fs_close fd s"

subsection \<open>The contract of a file system\<close>

text \<open>\<open>inv\<close> is the invariant of the file systems' state and \<open>bytes_of\<close> the contents of the files, by handle. An operation on a handle with a file keeps the
  invariant; writing at a position within the file replaces a stretch or fails and changes nothing; reading returns the stretch that is there. A
  read at the end may report an error. \<open>limit\<close> bounds the size of a file.\<close>

locale file_system =
  fixes ops :: "'s vfs_operations" and inv :: "'s \<Rightarrow> bool" and bytes_of :: "'s \<Rightarrow> u32 \<Rightarrow> u8 list option" and limit :: nat
    and rd :: "vfs_file \<Rightarrow> u32 \<Rightarrow> 's \<Rightarrow> (int \<times> u8 list \<times> vfs_file \<times> 's) option"
    and wr :: "vfs_file \<Rightarrow> u8 list \<Rightarrow> 's \<Rightarrow> (int \<times> vfs_file \<times> 's) option"
    and sk :: "vfs_file \<Rightarrow> u32 \<Rightarrow> 's \<Rightarrow> (int \<times> vfs_file \<times> 's) option"
  assumes ops_are: "vop_read ops = Some rd" "vop_write ops = Some wr" "vop_seek ops = Some sk"
    and limit_32: "limit < 2 ^ 31"
    and read_law: "inv s \<Longrightarrow> vf_in_use f \<Longrightarrow> bytes_of s (fs_handle f) = Some xs \<Longrightarrow> unat (vf_position f) < length xs \<Longrightarrow>
      (let out = take (unat n) (drop (unat (vf_position f)) xs)
       in rd f n s = Some (int (length out), out, f\<lparr>vf_position := vf_position f + of_nat (length out)\<rparr>, s))"
    and write_law: "inv s \<Longrightarrow> vf_in_use f \<Longrightarrow> bytes_of s (fs_handle f) = Some xs \<Longrightarrow> unat (vf_position f) \<le> length xs \<Longrightarrow>
      unat (vf_position f) + length bs \<le> limit \<Longrightarrow>
      \<exists>r f' s'. wr f bs s = Some (r, f', s') \<and> inv s' \<and>
        (r = VFS_ERROR \<and> f' = f \<and> s' = s \<or>
         r = int (length bs) \<and> f' = f\<lparr>vf_position := vf_position f + of_nat (length bs)\<rparr> \<and> bytes_of s' (fs_handle f) = Some (splice (unat (vf_position f)) bs xs) \<and>
         (\<forall>h. h \<noteq> fs_handle f \<longrightarrow> bytes_of s' h = bytes_of s h))"
    and seek_law: "vf_in_use f \<Longrightarrow> bytes_of s (fs_handle f) = Some xs \<Longrightarrow> inv s \<Longrightarrow> sk f pos s = Some (VFS_SUCCESS, f\<lparr>vf_position := pos\<rparr>, s)"
begin

text \<open>Writing, seeking back and reading through the virtual file system.\<close>

lemma write_seek_read:
  assumes m: "vf_mount f = Some m" "m_ops (mounts v ! m) = Some ops" and f: "inv (fss v)" "vf_in_use f" "bytes_of (fss v) (fs_handle f) = Some xs"
    "unat (vf_position f) \<le> length xs" "unat (vf_position f) + length bs \<le> limit" and bs: "bs \<noteq> []"
  shows "\<exists>r f1 v1. vfs_write f bs v = Some (r, f1, v1) \<and> inv (fss v1) \<and>
    (r = VFS_ERROR \<and> v1 = v \<or>
     r = int (length bs) \<and> (\<forall>h. h \<noteq> fs_handle f \<longrightarrow> bytes_of (fss v1) h = bytes_of (fss v) h) \<and>
     (\<exists>f2 f3. vfs_seek f1 (vf_position f) v1 = Some (VFS_SUCCESS, f2, v1) \<and> vfs_read f2 (of_nat (length bs)) v1 = Some (int (length bs), bs, f3, v1)))"
proof -
  obtain r f1 s1 where w: "wr f bs (fss v) = Some (r, f1, s1)" "inv s1"
    "r = VFS_ERROR \<and> f1 = f \<and> s1 = fss v \<or>
     r = int (length bs) \<and> f1 = f\<lparr>vf_position := vf_position f + of_nat (length bs)\<rparr> \<and> bytes_of s1 (fs_handle f) = Some (splice (unat (vf_position f)) bs xs) \<and>
     (\<forall>h. h \<noteq> fs_handle f \<longrightarrow> bytes_of s1 h = bytes_of (fss v) h)" using write_law [OF f] by blast
  have run: "vfs_write f bs v = Some (r, f1, v\<lparr>fss := s1\<rparr>)" using w(1) m f(2) ops_are by (simp add: vfs_write_def file_op_def)
  show ?thesis
  proof (cases "r = VFS_ERROR \<and> f1 = f \<and> s1 = fss v")
    case True
    then show ?thesis using run f(1) by (intro exI [of _ r] exI [of _ f1] exI [of _ "v\<lparr>fss := s1\<rparr>"]) simp
  next
    case False
    then have f1: "r = int (length bs)" "f1 = f\<lparr>vf_position := vf_position f + of_nat (length bs)\<rparr>" "bytes_of s1 (fs_handle f) = Some (splice (unat (vf_position f)) bs xs)"
      "\<forall>h. h \<noteq> fs_handle f \<longrightarrow> bytes_of s1 h = bytes_of (fss v) h" using w(3) by auto
    let ?v = "v\<lparr>fss := s1\<rparr>"
    define f2 where "f2 = f1\<lparr>vf_position := vf_position f\<rparr>"
    have f2: "vf_in_use f2" "fs_handle f2 = fs_handle f" "vf_position f2 = vf_position f" "vf_mount f2 = Some m" using f1(2) f(2) m(1) by (simp_all add: f2_def)
    have sk: "vfs_seek f1 (vf_position f) ?v = Some (VFS_SUCCESS, f2, ?v)"
      using seek_law [of f1 s1] f1(2,3) w(2) f(2) m ops_are by (simp add: vfs_seek_def file_op_def f2_def)
    have lt: "unat (vf_position f2) < length (splice (unat (vf_position f)) bs xs)" using bs f(4) f2(3) by (simp add: splice_def)
    have u: "unat (of_nat (length bs) :: u32) = length bs" using f(5) limit_32 by (simp add: unat_of_nat)
    have e: "take (unat (of_nat (length bs) :: u32)) (drop (unat (vf_position f2)) (splice (unat (vf_position f)) bs xs)) = bs"
      using f(4) f2(3) by (simp add: u splice_def)
    have "rd f2 (of_nat (length bs)) s1 = Some (int (length bs), bs, f2\<lparr>vf_position := vf_position f2 + of_nat (length bs)\<rparr>, s1)"
      using read_law [OF w(2) f2(1) _ lt, of "of_nat (length bs)"] f1(3) f2(2) e by (simp add: Let_def)
    then have "\<exists>f3. vfs_read f2 (of_nat (length bs)) ?v = Some (int (length bs), bs, f3, ?v)"
      using f2(1,4) m(2) ops_are by (simp add: vfs_read_def file_op_def)
    then show ?thesis using run sk f1(1,4) w(2) by (intro exI [of _ r] exI [of _ f1] exI [of _ ?v]) auto
  qed
qed

end

subsection \<open>The adapter meets the contract\<close>

definition file_bytes :: "ramfs \<Rightarrow> u32 \<Rightarrow> u8 list option" where
  "file_bytes s h = (case nodes s h of None \<Rightarrow> None | Some n \<Rightarrow> if fn_type n = FS_FILE then Some (contents s h) else None)"

lemma file_bytes_node: "file_bytes s h = Some xs \<Longrightarrow> \<exists>n. nodes s h = Some n \<and> fn_type n = FS_FILE \<and> xs = contents s h"
  by (simp add: file_bytes_def split: option.splits if_splits)

text \<open>A write through the adapter is a write of the file system at the position of the handle.\<close>

lemma adapter_write:
  assumes "vf_in_use f" "fs_handle f \<noteq> 0" "nodes s (fs_handle f) = Some n" "fn_type n = FS_FILE" "length bs < 2 ^ 31"
  shows "ramfs_vfs_write f bs s =
    do { (r, s') \<leftarrow> fs_write (fs_handle f) (vf_position f) bs s;
         Some (if r = -1 then (VFS_ERROR, f, s') else (r, f\<lparr>vf_position := vf_position f + of_nat (length bs)\<rparr>, s')) }"
proof -
  have u: "unat (of_nat (length bs) :: u32) = length bs" using assms(5) by (simp add: unat_of_nat)
  then have si: "sint (of_nat (length bs) :: u32) = int (length bs)" using assms(5) by (subst sint_small) simp_all
  have k: "krealloc h 0 z = kmalloc h z" for h z by (simp add: krealloc_def kmalloc_def kfree_def)
  show ?thesis
  proof (cases "vf_position f + of_nat (length bs) > fn_size n")
    case True
    show ?thesis
    proof (cases "fn_data n = 0")
      case z: True
      show ?thesis using assms(1-4) True z unfolding ramfs_vfs_write_def fs_write_def
        by (cases "kmalloc (rf_heap s) (vf_position f + of_nat (length bs))") (auto simp: Let_def si k)
    next
      case z: False
      show ?thesis using assms(1-4) True z unfolding ramfs_vfs_write_def fs_write_def
        by (cases "krealloc (rf_heap s) (fn_data n) (vf_position f + of_nat (length bs))") (auto simp: Let_def si)
    qed
  next
    case False
    then show ?thesis using assms(1-4) by (simp add: ramfs_vfs_write_def fs_write_def Let_def si)
  qed
qed

interpretation ram: file_system ramfs_vfs_ops ramfs_ok file_bytes "2 ^ 31 - 1" ramfs_vfs_read ramfs_vfs_write ramfs_vfs_seek
proof unfold_locales
  show "vop_read ramfs_vfs_ops = Some ramfs_vfs_read" "vop_write ramfs_vfs_ops = Some ramfs_vfs_write" "vop_seek ramfs_vfs_ops = Some ramfs_vfs_seek"
    by (simp_all add: ramfs_vfs_ops_def)
  show "2 ^ 31 - 1 < (2 ^ 31 :: nat)" by simp
next
  fix s xs n and f :: vfs_file
  assume s: "ramfs_ok s" "vf_in_use f" "file_bytes s (fs_handle f) = Some xs" "unat (vf_position f) < length xs"
  obtain nd where nd: "nodes s (fs_handle f) = Some nd" "fn_type nd = FS_FILE" "xs = contents s (fs_handle f)" using file_bytes_node [OF s(3)] by blast
  note o = ramfs_okD [OF s(1)]
  have h0: "fs_handle f \<noteq> 0" using tree_okD(1) [OF o(1) nd(1)] .
  have c: "xs = load (hmem (rf_heap s)) (fn_data nd) (unat (fn_size nd))" using nd by (simp add: contents_def)
  have lt: "unat (vf_position f) < unat (fn_size nd)" using s(4) c by simp
  have d: "fn_data nd \<noteq> 0" using mem_okD(5) [OF o(2) nd(1)] lt by auto
  obtain k where "owned (rf_heap s) (fn_data nd) = Some k" "unat (fn_size nd) \<le> k" using mem_okD(6) [OF o(2) nd(1) d] by blast
  then have small: "unat (fn_size nd) \<le> 16777216" using block_bounds [OF o(3)] by fastforce
  define r where "r = (if n > fn_size nd - vf_position f then fn_size nd - vf_position f else n)"
  have sub: "unat (fn_size nd - vf_position f) = unat (fn_size nd) - unat (vf_position f)" using lt by (simp add: unat_sub word_le_nat_alt)
  have r: "unat r = min (unat n) (unat (fn_size nd) - unat (vf_position f))" using sub by (auto simp: r_def word_less_nat_alt min_def)
  have out: "load (hmem (rf_heap s)) (fn_data nd + vf_position f) (unat r) = take (unat n) (drop (unat (vf_position f)) xs)"
    using load_drop [of "unat (vf_position f)" "unat (fn_size nd)" "hmem (rf_heap s)" "fn_data nd"] lt by (simp add: c r load_take)
  have sr: "sint r = int (unat r)" using r small by (intro sint_small) simp
  have run: "ramfs_vfs_read f n s = Some (sint r, load (hmem (rf_heap s)) (fn_data nd + vf_position f) (unat r), f\<lparr>vf_position := vf_position f + r\<rparr>, s)"
    using s(2) h0 nd(1) d lt by (simp add: ramfs_vfs_read_def r_def [symmetric] Let_def word_le_nat_alt)
  have len: "length (take (unat n) (drop (unat (vf_position f)) xs)) = unat r" using out by (metis load_length)
  show "let out = take (unat n) (drop (unat (vf_position f)) xs)
       in ramfs_vfs_read f n s = Some (int (length out), out, f\<lparr>vf_position := vf_position f + of_nat (length out)\<rparr>, s)"
    unfolding Let_def len run out sr by simp
next
  fix s xs and bs :: "u8 list" and f :: vfs_file
  assume s: "ramfs_ok s" "vf_in_use f" "file_bytes s (fs_handle f) = Some xs" "unat (vf_position f) \<le> length xs" "unat (vf_position f) + length bs \<le> 2 ^ 31 - 1"
  obtain nd where nd: "nodes s (fs_handle f) = Some nd" "fn_type nd = FS_FILE" "xs = contents s (fs_handle f)" using file_bytes_node [OF s(3)] by blast
  have h0: "fs_handle f \<noteq> 0" using tree_okD(1) [OF ramfs_okD(1) [OF s(1)] nd(1)] .
  have lim: "unat (vf_position f) + length bs \<le> 0xFFFFFFF0" "length bs < 2 ^ 31" using s(5) by simp_all
  obtain r s' where w: "fs_write (fs_handle f) (vf_position f) bs s = Some (r, s')" "ramfs_ok s'"
    "r = -1 \<and> s' = s \<or> r = sint (of_nat (length bs) :: u32) \<and> wrote s s' (fs_handle f) (unat (vf_position f)) bs" using write_spec [OF s(1) nd(1,2) lim(1)] by blast
  have si: "sint (of_nat (length bs) :: u32) = int (length bs)" using lim(2) by (subst sint_small) (simp_all add: unat_of_nat)
  note run = adapter_write [OF s(2) h0 nd(1,2) lim(2)]
  have sp: "file_bytes s' (fs_handle f) = Some (splice (unat (vf_position f)) bs xs) \<and> (\<forall>h. h \<noteq> fs_handle f \<longrightarrow> file_bytes s' h = file_bytes s h)"
    if v: "wrote s s' (fs_handle f) (unat (vf_position f)) bs"
  proof
    show "file_bytes s' (fs_handle f) = Some (splice (unat (vf_position f)) bs xs)"
      using v nd wrote_splice [OF v] s(4) by (auto simp: wrote_def file_bytes_def)
    have "nodes s' h = nodes s h" "contents s' h = contents s h" if "h \<noteq> fs_handle f" for h using v that unfolding wrote_def by blast+
    then show "\<forall>h. h \<noteq> fs_handle f \<longrightarrow> file_bytes s' h = file_bytes s h" by (auto simp: file_bytes_def split: option.splits)
  qed
  show "\<exists>r f' s'. ramfs_vfs_write f bs s = Some (r, f', s') \<and> ramfs_ok s' \<and>
        (r = VFS_ERROR \<and> f' = f \<and> s' = s \<or>
         r = int (length bs) \<and> f' = f\<lparr>vf_position := vf_position f + of_nat (length bs)\<rparr> \<and> file_bytes s' (fs_handle f) = Some (splice (unat (vf_position f)) bs xs) \<and>
         (\<forall>h. h \<noteq> fs_handle f \<longrightarrow> file_bytes s' h = file_bytes s h))"
    using run w sp si by (auto simp: VFS_ERROR_def)
next
  fix s xs pos and f :: vfs_file
  assume s: "vf_in_use f" "file_bytes s (fs_handle f) = Some xs" "ramfs_ok s"
  obtain nd where "nodes s (fs_handle f) = Some nd" using file_bytes_node [OF s(2)] by blast
  then have "fs_handle f \<noteq> 0" using tree_okD(1) [OF ramfs_okD(1) [OF s(3)]] by blast
  then show "ramfs_vfs_seek f pos s = Some (VFS_SUCCESS, f\<lparr>vf_position := pos\<rparr>, s)" using s(1) by (simp add: ramfs_vfs_seek_def)
qed

lemma ramfs_ops_lawful: "lawful ramfs_vfs_ops"
  by (auto simp: lawful_def ramfs_vfs_ops_def ramfs_vfs_open_def VFS_SUCCESS_def VFS_ERROR_def VFS_NOT_FOUND_def split: bind_splits if_splits)

subsection \<open>What the adapter guarantees\<close>

text \<open>C29. With the file system in memory mounted, a write through the virtual file system at a position within the file returns. It either
  fails for lack of memory and changes nothing, or reports the number of bytes; seeking back to the position and reading then returns what was
  written, and no other file has changed.\<close>

theorem vfs_write_seek_read:
  assumes "vf_mount f = Some m" "m_ops (mounts v ! m) = Some ramfs_vfs_ops" "ramfs_ok (fss v)" "vf_in_use f" "file_bytes (fss v) (fs_handle f) = Some xs"
    "unat (vf_position f) \<le> length xs" "unat (vf_position f) + length bs \<le> 2 ^ 31 - 1" "bs \<noteq> []"
  shows "\<exists>r f1 v1. vfs_write f bs v = Some (r, f1, v1) \<and> ramfs_ok (fss v1) \<and>
    (r = VFS_ERROR \<and> v1 = v \<or>
     r = int (length bs) \<and> (\<forall>h. h \<noteq> fs_handle f \<longrightarrow> file_bytes (fss v1) h = file_bytes (fss v) h) \<and>
     (\<exists>f2 f3. vfs_seek f1 (vf_position f) v1 = Some (VFS_SUCCESS, f2, v1) \<and> vfs_read f2 (of_nat (length bs)) v1 = Some (int (length bs), bs, f3, v1)))"
  by (rule ram.write_seek_read [OF assms])

text \<open>A virtual file system with the file system in memory at the root, holding one empty file \<open>/a\<close>.\<close>

definition mounted_vfs :: "ramfs \<Rightarrow> ramfs vfs" where
  "mounted_vfs s = \<lparr>mounts = \<lparr>mountpoint = [SLASH], fs_type = VFS_FS_RAMFS, device_id = 0, fs_data = 0, m_ops = Some ramfs_vfs_ops, mounted = True\<rparr> # replicate 7 empty_mount,
     open_files = replicate 64 closed_file, current_working_directory = [SLASH], vfs_initialized = True, fss = s\<rparr>"

theorem vfs_write_seek_read_witness:
  "\<exists>s a s' f r f1 v1. fs_init bare_ramfs = Some s \<and> fs_touch [SLASH, 0x61] s = Some (a, s') \<and> f = \<lparr>fs_handle = a, vf_mount = Some 0, vf_position = 0, vf_in_use = True\<rparr> \<and>
     vfs_write f [1, 2, 3] (mounted_vfs s') = Some (r, f1, v1) \<and>
     (r \<noteq> VFS_ERROR \<longrightarrow> (\<exists>f2 f3. vfs_seek f1 0 v1 = Some (VFS_SUCCESS, f2, v1) \<and> vfs_read f2 3 v1 = Some (3, [1, 2, 3], f3, v1)))"
proof -
  obtain s a s1 n where s: "fs_init bare_ramfs = Some s" "fs_touch [SLASH, 0x61] s = Some (a, s1)" "a \<noteq> 0" "ramfs_ok s1" "nodes s1 a = Some n" "fn_type n = FS_FILE" "fn_size n = 0"
    using first_file by metis
  let ?f = "\<lparr>fs_handle = a, vf_mount = Some 0, vf_position = 0, vf_in_use = True\<rparr>"
  have "file_bytes s1 a = Some []" using s(5-7) by (simp add: file_bytes_def contents_def load_def)
  then have "\<exists>r f1 v1. vfs_write ?f [1, 2, 3] (mounted_vfs s1) = Some (r, f1, v1) \<and> ramfs_ok (fss v1) \<and>
    (r = VFS_ERROR \<and> v1 = mounted_vfs s1 \<or>
     r = int (length [1, 2, 3 :: u8]) \<and> (\<forall>h. h \<noteq> fs_handle ?f \<longrightarrow> file_bytes (fss v1) h = file_bytes (fss (mounted_vfs s1)) h) \<and>
     (\<exists>f2 f3. vfs_seek f1 (vf_position ?f) v1 = Some (VFS_SUCCESS, f2, v1) \<and> vfs_read f2 (of_nat (length [1, 2, 3 :: u8])) v1 = Some (int (length [1, 2, 3 :: u8]), [1, 2, 3], f3, v1)))"
    using s(4) by (intro vfs_write_seek_read [where m = 0 and xs = "[]"]) (simp_all add: mounted_vfs_def)
  then show ?thesis using s(1,2) by auto
qed

text \<open>C30. Removing a file only looks at the descriptors of the system calls. A file that is open through the virtual file system is
  removed all the same, and the next read through its handle follows a pointer to the freed node.\<close>

theorem remove_leaves_open_handle:
  assumes "ramfs_ok s" "fs_find_by_path path s = Some c" "nodes s c = Some n" "fn_type n = FS_FILE" "\<forall>d\<in>set (fd_table s). \<not> fd_used d"
  shows "\<exists>f s'. ramfs_vfs_open m path f0 s = Some (VFS_SUCCESS, f, s) \<and> ramfs_vfs_remove m path s = Some (VFS_SUCCESS, s') \<and>
    owned (rf_heap s') (fs_handle f) = None \<and> ramfs_vfs_read f sz s' = None"
proof -
  have c0: "c \<noteq> 0" using tree_okD(1) [OF ramfs_okD(1) [OF assms(1)] assms(3)] .
  obtain s' where s': "fs_remove path s = Some (0, s')" "removed s s' c" using remove_spec [OF assms(1-4)] assms(5) by blast
  let ?f = "f0\<lparr>fs_handle := c, vf_position := 0, vf_in_use := True\<rparr>"
  have "ramfs_vfs_open m path f0 s = Some (VFS_SUCCESS, ?f, s)" using assms(2-4) c0 by (simp add: ramfs_vfs_open_def)
  moreover have "ramfs_vfs_remove m path s = Some (VFS_SUCCESS, s')" using s'(1) by (simp add: ramfs_vfs_remove_def)
  moreover have "nodes s' c = None" "owned (rf_heap s') c = None" using s'(2) by (auto simp: removed_def)
  ultimately show ?thesis using c0 by (intro exI [of _ ?f] exI [of _ s']) (simp add: ramfs_vfs_read_def)
qed

theorem remove_leaves_open_handle_witness:
  "\<exists>s a s' f s''. fs_init bare_ramfs = Some s \<and> fs_touch [SLASH, 0x61] s = Some (a, s') \<and> ramfs_vfs_open 0 [SLASH, 0x61] closed_file s' = Some (VFS_SUCCESS, f, s') \<and>
     ramfs_vfs_remove 0 [SLASH, 0x61] s' = Some (VFS_SUCCESS, s'') \<and> ramfs_vfs_read f 1 s'' = None"
proof -
  obtain s a s1 n where s: "fs_init bare_ramfs = Some s" "fs_touch [SLASH, 0x61] s = Some (a, s1)" "ramfs_ok s1" "nodes s1 a = Some n" "fn_type n = FS_FILE"
    "fs_find_by_path [SLASH, 0x61] s1 = Some a" "fd_table s1 = fd_table bare_ramfs" using first_file by metis
  have "\<forall>d\<in>set (fd_table s1). \<not> fd_used d" using s(7) by (simp add: bare_ramfs_def)
  from remove_leaves_open_handle [OF s(3,6,4,5) this, of 0 closed_file 1] s(1,2) show ?thesis by auto
qed

lemma list_children_map:
  assumes "\<forall>c\<in>set cs. c \<noteq> 0 \<and> nodes s c \<noteq> None"
  shows "list_children s k cs es = Some (es @ take (k - length es) (map (\<lambda>c. dirent_of (the (nodes s c))) cs))"
  using assms by (induction cs arbitrary: es) (auto simp: not_le take_Cons')

text \<open>Reading a directory lists its children in their order, as many as there is room for; on a node that is no directory and on a path to
  nothing it reports so.\<close>

theorem readdir_lists_children:
  assumes "ramfs_ok s"
  shows "\<exists>d. fs_find_by_path path s = Some d \<and>
    ramfs_vfs_readdir m path k s = Some (
      case nodes s d of
        None \<Rightarrow> (VFS_NOT_FOUND, [], s)
      | Some n \<Rightarrow> if fn_type n \<noteq> FS_DIRECTORY then (VFS_ERROR, [], s)
                  else let es = take k (map (\<lambda>c. dirent_of (the (nodes s c))) (kids (arrays s) n)) in (int (length es), es, s))"
proof -
  obtain d where d: "fs_find_by_path path s = Some d" using find_by_path_total [OF assms] by blast
  show ?thesis
  proof (cases "nodes s d")
    case None
    then have "d = 0" using find_by_path_node [OF assms d] by auto
    then show ?thesis using d None by (simp add: ramfs_vfs_readdir_def)
  next
    case (Some n)
    then have "d \<noteq> 0" using ramfs_okD(5) [OF assms] by auto
    moreover have "children_of s n = Some (kids (arrays s) n)" by (rule children_of_kids) (rule tree_okD(2) [OF ramfs_okD(1) [OF assms] Some])
    moreover have "list_children s k (kids (arrays s) n) [] = Some (take k (map (\<lambda>c. dirent_of (the (nodes s c))) (kids (arrays s) n)))"
      using list_children_map [of "kids (arrays s) n" s k "[]"] kids_are_nodes [OF assms Some] by simp
    ultimately show ?thesis using d Some by (simp add: ramfs_vfs_readdir_def Let_def)
  qed
qed

theorem readdir_lists_children_witness:
  "\<exists>s. fs_init bare_ramfs = Some s \<and> ramfs_vfs_readdir 0 [SLASH] 10 s = Some (0, [], s)"
proof -
  obtain s n where s: "fs_init bare_ramfs = Some s" "ramfs_ok s" "nodes s = [fs_root s \<mapsto> n]" "fn_type n = FS_DIRECTORY" "child_count n = 0" using first_ramfs by metis
  have "kids (arrays s) n = []" using s(5) by (simp add: kids_def split: option.splits)
  with readdir_lists_children [OF s(2), of "[SLASH]" 0 10] s show ?thesis by (simp add: fs_find_by_path_def fs_get_root_def)
qed

subsection \<open>Positions that wrap around\<close>

text \<open>A chain in a memory with other contents from some block on runs through the same blocks up to there.\<close>

lemma chain_follow:
  assumes "chain m p xs b" "chain m' p as KERNEL_HEAP_END" "unat b < unat KERNEL_HEAP_END"
    "\<And>a. a \<in> set xs \<Longrightarrow> hb_next m' a = hb_next m a"
  shows "\<exists>ys. as = xs @ ys \<and> chain m' b ys KERNEL_HEAP_END"
  using assms(1,2,4)
proof (induction xs arbitrary: p as)
  case (Cons a xs)
  have "unat a < unat KERNEL_HEAP_END" using chain_le [OF Cons.prems(1)] assms(3) Cons.prems(1) by simp
  then have "a \<noteq> KERNEL_HEAP_END" by auto
  then obtain as' where as': "as = a # as'" using Cons.prems(1,2) by (cases as) auto
  have l: "link m' a = link m a" using Cons.prems(3) by (simp add: link_def)
  have "chain m (link m a) xs b" "chain m' (link m a) as' KERNEL_HEAP_END" using Cons.prems(1,2) as' l by auto
  from Cons.IH [OF this] Cons.prems(3) as' show ?case by auto
qed auto

lemma header_overwritten:
  assumes h: "heap_ok h" "owned h d = Some k" and m': "\<And>i. i < 8 \<Longrightarrow> m' (d - 8 + of_nat i) = 0xFF" "\<And>x. x \<notin> region (d - 8) 8 \<Longrightarrow> m' x = hmem h x"
  shows "\<not> heap_ok (h\<lparr>hmem := m'\<rparr>)"
proof
  assume "heap_ok (h\<lparr>hmem := m'\<rparr>)"
  then obtain as' where c': "chain m' KERNEL_HEAP_START as' KERNEL_HEAP_END" by (auto simp: heap_ok_def heap_inv_def)
  obtain as where inv: "heap_inv h as" using h(1) by (auto simp: heap_ok_def)
  have c: "chain (hmem h) KERNEL_HEAP_START as KERNEL_HEAP_END" using inv by (simp add: heap_inv_def)
  define b where "b = d - HEAP_HDR"
  have b: "b \<in> set as" using h(2) inv by (simp add: owned_iff b_def)
  have ub: "unat b + 12 = unat d" using owned_bounds(1) [OF inv h(2)] by (simp add: b_def)
  have d8: "d - 8 = b + 4" by (simp add: b_def HEAP_HDR_def)
  have bnd: "unat b + 12 + unat (hb_size (hmem h) b) \<le> 16777216" using chain_mem [OF c b] by simp
  have u4: "unat (b + 4) = unat b + 4" using bnd by (simp add: unat_plus_simple32)
  have out: "m' x = hmem h x" if "unat x < unat b + 4 \<or> unat b + 12 \<le> unat x" for x using that m'(2) u4 by (auto simp: d8 region_def)
  obtain xs ys where eq: "as = xs @ b # ys" using b by (meson split_list)
  have cx: "chain (hmem h) KERNEL_HEAP_START xs b" using chain_block(1) [of "hmem h" KERNEL_HEAP_START xs b ys] c eq by simp
  have nx: "hb_next m' a = hb_next (hmem h) a" if "a \<in> set xs" for a
  proof -
    have "unat a + 12 + unat (hb_size (hmem h) a) \<le> unat b" using chain_mem [OF cx that] by simp
    then show ?thesis using bnd out by (intro hdr_cong(2)) (auto simp: region_def)
  qed
  obtain zs where z: "chain m' b zs KERNEL_HEAP_END" using chain_follow [OF cx c' _ nx] bnd by auto
  have "b \<noteq> KERNEL_HEAP_END" using bnd by auto
  then have e: "unat b + 12 + unat (hb_size m' b) = unat (link m' b)" using z by (cases zs) auto
  have "hb_size m' b = hb_size (hmem h) b" unfolding hb_size_def using bnd out by (intro rd32_cong) (auto simp: region_def)
  moreover have "hb_next m' b = 0xFFFFFFFF"
    using m'(1) [of 0] m'(1) [of 1] m'(1) [of 2] m'(1) [of 3] by (simp add: hb_next_def rd32_def d8 push_bit_eq_mult)
  ultimately show False using e bnd by (simp add: link_def)
qed

text \<open>Seeking takes any position, and the end of a write is computed modulo \<open>2^32\<close>. After seeking to \<open>0xFFFFFFF8\<close> a write of 8
  bytes seems to end at 0: it succeeds without growing the file and goes to the 8 bytes before its data, the header of the heap block. The heap is no
  longer well formed.\<close>

theorem seek_wrap_corrupts_heap:
  assumes "ramfs_ok s" "vf_in_use f" "nodes s (fs_handle f) = Some n" "fn_data n \<noteq> 0"
  shows "\<exists>f1 f2 s'. ramfs_vfs_seek f 0xFFFFFFF8 s = Some (VFS_SUCCESS, f1, s) \<and> ramfs_vfs_write f1 (replicate 8 0xFF) s = Some (8, f2, s') \<and> \<not> heap_ok (rf_heap s')"
proof -
  note o = ramfs_okD [OF assms(1)]
  have h0: "fs_handle f \<noteq> 0" using tree_okD(1) [OF o(1) assms(3)] .
  obtain k where k: "owned (rf_heap s) (fn_data n) = Some k" using mem_okD(6) [OF o(2) assms(3,4)] by blast
  let ?f1 = "f\<lparr>vf_position := 0xFFFFFFF8\<rparr>" and ?bs = "replicate 8 (0xFF :: u8)"
  let ?s = "s\<lparr>rf_heap := (rf_heap s)\<lparr>hmem := store (hmem (rf_heap s)) (fn_data n + 0xFFFFFFF8) ?bs\<rparr>\<rparr>"
  have z: "(4294967296 :: u32) = 0" by (simp add: word_unat_eq_iff)
  have w: "ramfs_vfs_write ?f1 ?bs s = Some (8, ?f1\<lparr>vf_position := 0\<rparr>, ?s)"
    using assms(2,3) h0 by (simp add: ramfs_vfs_write_def Let_def z)
  have e: "fn_data n + 0xFFFFFFF8 = fn_data n - 8" by simp
  obtain as where inv: "heap_inv (rf_heap s) as" using o(3) by (auto simp: heap_ok_def)
  have "8 \<le> unat (fn_data n)" using owned_bounds(1) [OF inv k] by simp
  then have u: "unat (fn_data n - 8) + length ?bs \<le> 2 ^ 32" by (simp add: unat_sub word_le_nat_alt less_imp_le)
  have "\<not> heap_ok ((rf_heap s)\<lparr>hmem := store (hmem (rf_heap s)) (fn_data n - 8) ?bs\<rparr>)"
    by (rule header_overwritten [OF o(3) k]) (use store_spec [OF u] in auto)
  then show ?thesis using w assms(2) h0 unfolding e
    by (intro exI [of _ ?f1] exI [of _ "?f1\<lparr>vf_position := 0\<rparr>"] exI [of _ "s\<lparr>rf_heap := (rf_heap s)\<lparr>hmem := store (hmem (rf_heap s)) (fn_data n - 8) ?bs\<rparr>\<rparr>"]) (simp add: ramfs_vfs_seek_def)
qed

theorem seek_wrap_corrupts_heap_witness:
  "\<exists>s a s' f1 f2 s''. fs_init bare_ramfs = Some s \<and> fs_touch [SLASH, 0x61] s = Some (a, s') \<and>
     ramfs_vfs_seek \<lparr>fs_handle = a, vf_mount = Some 0, vf_position = 0, vf_in_use = True\<rparr> 0xFFFFFFF8 s' = Some (VFS_SUCCESS, f1, s') \<and>
     ramfs_vfs_write f1 (replicate 8 0xFF) s' = Some (8, f2, s'') \<and> heap_ok (rf_heap s') \<and> \<not> heap_ok (rf_heap s'')"
proof -
  obtain s a s1 n where s: "fs_init bare_ramfs = Some s" "fs_touch [SLASH, 0x61] s = Some (a, s1)" "ramfs_ok s1" "nodes s1 a = Some n" "fn_data n \<noteq> 0"
    using first_file by metis
  from seek_wrap_corrupts_heap [OF s(3), of "\<lparr>fs_handle = a, vf_mount = Some 0, vf_position = 0, vf_in_use = True\<rparr>" n] s ramfs_okD(3) [OF s(3)]
  show ?thesis by auto
qed

subsection \<open>Descriptors of the system calls\<close>

text \<open>The offset of a descriptor never moves: of two writes in a row through the same descriptor the second overwrites the first.\<close>

theorem sys_writes_start_over:
  assumes "ramfs_ok s" "0 \<le> fd" "fd < 64" "fd_table s ! nat fd = \<lparr>fd_node = a, fd_offset = 0, fd_used = True\<rparr>" "nodes s a = Some n" "fn_type n = FS_FILE"
    "sys_write fd xs s = Some (r, s1)" "r \<noteq> -1" "sys_write fd ys s1 = Some (r', s2)" "r' \<noteq> -1" "length xs \<le> 0xFFFFFFF0" "length ys \<le> 0xFFFFFFF0"
  shows "contents s2 a = splice 0 ys (splice 0 xs (contents s a))"
proof -
  have w1: "fs_write a 0 xs s = Some (r, s1)" using assms(2-4,7) by (simp add: sys_write_def MAX_OPEN_FILES_def)
  then have v1: "ramfs_ok s1" "wrote s s1 a 0 xs" using write_spec [OF assms(1,5,6), of 0 xs] assms(8,11) by auto
  obtain n1 where n1: "nodes s1 a = Some n1" "fn_type n1 = FS_FILE" using v1(2) assms(5,6) by (auto simp: wrote_def)
  have "fs_write a 0 ys s1 = Some (r', s2)" using assms(2-4,9) v1(2) by (simp add: sys_write_def MAX_OPEN_FILES_def wrote_def)
  then have "wrote s1 s2 a 0 ys" using write_spec [OF v1(1) n1, of 0 ys] assms(10,12) by auto
  then show ?thesis using wrote_splice [OF v1(2)] wrote_splice [of s1 s2 a 0 ys] by simp
qed

end
