(* ===== verification/Ide.thy ===== *)
theory Ide
  imports Prelude
begin

unbundle bit_operations_syntax

text \<open>
  The driver of the IDE drives, \<^verbatim>\<open>src/kernel/ide.cpp\<close>: detection, and the transfer of sectors word by word through the ports. The
  machine behind the port instructions is a parameter: a table \<open>P\<close> of the four instructions that the driver uses, over a state of any
  type. What the driver relies on is the documented behaviour of a drive in PIO mode with 28-bit addresses; the predicate \<open>ata\<close> states it
  as a simulation of the registers of a channel.
\<close>

subsection \<open>The driver\<close>

record 'd ports =
  inb :: "u16 \<Rightarrow> 'd \<Rightarrow> u8 \<times> 'd"
  outb :: "u16 \<Rightarrow> u8 \<Rightarrow> 'd \<Rightarrow> 'd"
  inw :: "u16 \<Rightarrow> 'd \<Rightarrow> u16 \<times> 'd"
  outw :: "u16 \<Rightarrow> u16 \<Rightarrow> 'd \<Rightarrow> 'd"

record ide_drive =
  base_port :: u16
  drive_num :: u8
  drive_exists :: u8
  drive_sectors :: u32
  cylinders :: u16
  heads :: u16
  sectors_per_track :: u16

record 'd ide =
  drives :: "ide_drive list"
  drive_count :: u8
  hw :: 'd

definition IDE_MAX_DRIVES :: nat where "IDE_MAX_DRIVES = 4"

definition IDE_TIMEOUT :: nat where "IDE_TIMEOUT = 1000000"

definition ide_delay :: "'d ports \<Rightarrow> u16 \<Rightarrow> 'd \<Rightarrow> 'd" where
  "ide_delay P base d = fold (\<lambda>_ d. snd (inb P (base + 7) d)) [0..<4] d"

text \<open>The loop that both waits share: it ends when the drive is not busy and shows the flag, on an error, or after the given
  number of readings of the status.\<close>

fun poll_status :: "'d ports \<Rightarrow> u8 \<Rightarrow> u16 \<Rightarrow> nat \<Rightarrow> 'd \<Rightarrow> int \<times> 'd" where
  "poll_status P flag base 0 d = (-1, d)"
| "poll_status P flag base (Suc timeout) d =
     (let (status, d) = inb P (base + 7) d in
      if status AND 0x80 = 0 \<and> status AND flag \<noteq> 0 then (0, d)
      else if status AND 0x01 \<noteq> 0 then (-1, d)
      else poll_status P flag base timeout d)"

definition ide_wait_ready :: "'d ports \<Rightarrow> u16 \<Rightarrow> 'd \<Rightarrow> int \<times> 'd" where
  "ide_wait_ready P base d = poll_status P 0x40 base IDE_TIMEOUT d"

definition ide_wait_drq :: "'d ports \<Rightarrow> u16 \<Rightarrow> 'd \<Rightarrow> int \<times> 'd" where
  "ide_wait_drq P base d = poll_status P 0x08 base IDE_TIMEOUT d"

definition ide_select_drive :: "'d ports \<Rightarrow> u16 \<Rightarrow> u8 \<Rightarrow> 'd \<Rightarrow> 'd" where
  "ide_select_drive P base drive d = ide_delay P base (outb P (base + 6) (0xE0 OR push_bit 4 (drive AND 1)) d)"

fun read_words :: "'d ports \<Rightarrow> u16 \<Rightarrow> nat \<Rightarrow> 'd \<Rightarrow> u16 list \<times> 'd" where
  "read_words P port 0 d = ([], d)"
| "read_words P port (Suc n) d =
     (let (w, d) = inw P port d; (ws, d) = read_words P port n d in (w # ws, d))"

definition write_words :: "'d ports \<Rightarrow> u16 \<Rightarrow> u16 list \<Rightarrow> 'd \<Rightarrow> 'd" where
  "write_words P port ws d = fold (outw P port) ws d"

definition ide_identify :: "'d ports \<Rightarrow> u8 \<Rightarrow> 'd ide \<Rightarrow> int \<times> u16 list \<times> 'd ide" where
  "ide_identify P drive_id s =
     (if unat drive_id \<ge> IDE_MAX_DRIVES then (-1, [], s)
      else let drive = drives s ! unat drive_id; base = base_port drive;
          d = ide_select_drive P base (drive_num drive) (hw s);
          (r, d) = ide_wait_ready P base d
        in if r \<noteq> 0 then (-1, [], s\<lparr>hw := d\<rparr>)
        else let d = ide_delay P base (outb P (base + 7) 0xEC d);
            (status, d) = inb P (base + 7) d
          in if status = 0 then (-1, [], s\<lparr>hw := d\<rparr>)
          else let (r, d) = ide_wait_drq P base d
            in if r \<noteq> 0 then (-1, [], s\<lparr>hw := d\<rparr>)
            else let (ws, d) = read_words P base 256 d in (0, ws, s\<lparr>hw := d\<rparr>))"

definition drive_select :: "u8 \<Rightarrow> u32 \<Rightarrow> u8" where
  "drive_select drive lba = 0xE0 OR push_bit 4 (drive AND 1) OR ucast (drop_bit 24 lba AND 0x0F)"

text \<open>The registers for a transfer: features, count, the address in four parts, and the command.\<close>

definition send_command :: "'d ports \<Rightarrow> u16 \<Rightarrow> u8 \<Rightarrow> u32 \<Rightarrow> u8 \<Rightarrow> u8 \<Rightarrow> 'd \<Rightarrow> 'd" where
  "send_command P base drive lba count command d =
     (let d = outb P (base + 1) 0 d;
          d = outb P (base + 2) count d;
          d = outb P (base + 3) (ucast (lba AND 0xFF)) d;
          d = outb P (base + 4) (ucast (drop_bit 8 lba AND 0xFF)) d;
          d = outb P (base + 5) (ucast (drop_bit 16 lba AND 0xFF)) d;
          d = outb P (base + 6) (drive_select drive lba) d
      in outb P (base + 7) command d)"

text \<open>The loop over the sectors of a read; the words that arrived before a failure are in the buffer.\<close>

fun read_sector_loop :: "'d ports \<Rightarrow> u16 \<Rightarrow> nat \<Rightarrow> 'd \<Rightarrow> int \<times> u16 list \<times> 'd" where
  "read_sector_loop P base 0 d = (0, [], d)"
| "read_sector_loop P base (Suc n) d =
     (let (r, d) = ide_wait_drq P base d in
      if r \<noteq> 0 then (-1, [], d)
      else let (ws, d) = read_words P base 256 d;
          (r, rest, d) = read_sector_loop P base n d
        in (r, ws @ rest, d))"

definition ide_read_sectors :: "'d ports \<Rightarrow> u8 \<Rightarrow> u32 \<Rightarrow> u8 \<Rightarrow> 'd ide \<Rightarrow> int \<times> u16 list \<times> 'd ide" where
  "ide_read_sectors P drive_id lba count s =
     (if unat drive_id \<ge> IDE_MAX_DRIVES \<or> drive_exists (drives s ! unat drive_id) = 0 then (-1, [], s)
      else if count = 0 then (-1, [], s)
      else let drive = drives s ! unat drive_id; base = base_port drive;
          d = ide_select_drive P base (drive_num drive) (hw s);
          (r, d) = ide_wait_ready P base d
        in if r \<noteq> 0 then (-1, [], s\<lparr>hw := d\<rparr>)
        else let d = send_command P base (drive_num drive) lba count 0x20 d;
            (r, ws, d) = read_sector_loop P base (unat count) d
          in (r, ws, s\<lparr>hw := d\<rparr>))"

fun write_sector_loop :: "'d ports \<Rightarrow> u16 \<Rightarrow> nat \<Rightarrow> u16 list \<Rightarrow> 'd \<Rightarrow> int \<times> 'd" where
  "write_sector_loop P base 0 ws d = (0, d)"
| "write_sector_loop P base (Suc n) ws d =
     (let (r, d) = ide_wait_drq P base d in
      if r \<noteq> 0 then (-1, d)
      else write_sector_loop P base n (drop 256 ws) (write_words P base (take 256 ws) d))"

text \<open>A buffer with fewer than 256 words per sector would be read past its end.\<close>

definition ide_write_sectors :: "'d ports \<Rightarrow> u8 \<Rightarrow> u32 \<Rightarrow> u8 \<Rightarrow> u16 list \<Rightarrow> 'd ide \<Rightarrow> (int \<times> 'd ide) option" where
  "ide_write_sectors P drive_id lba count buffer s =
     (if unat drive_id \<ge> IDE_MAX_DRIVES \<or> drive_exists (drives s ! unat drive_id) = 0 then Some (-1, s)
      else if count = 0 then Some (-1, s)
      else let drive = drives s ! unat drive_id; base = base_port drive;
          d = ide_select_drive P base (drive_num drive) (hw s);
          (r, d) = ide_wait_ready P base d
        in if r \<noteq> 0 then Some (-1, s\<lparr>hw := d\<rparr>)
        else if length buffer < 256 * unat count then None
        else let d = send_command P base (drive_num drive) lba count 0x30 d;
            (r, d) = write_sector_loop P base (unat count) buffer d
          in if r \<noteq> 0 then Some (-1, s\<lparr>hw := d\<rparr>)
          else let (r, d) = ide_wait_ready P base d
            in Some (if r \<noteq> 0 then -1 else 0, s\<lparr>hw := d\<rparr>))"

text \<open>The temporary drive starts with whatever was on the stack (\<open>junk\<close>); detection sets the base port and the number of it, and the
  remaining fields only when the drive answers.\<close>

definition ide_detect_drive :: "'d ports \<Rightarrow> ide_drive \<Rightarrow> u16 \<Rightarrow> u8 \<Rightarrow> 'd ide \<Rightarrow> int \<times> 'd ide" where
  "ide_detect_drive P junk base num s =
     (let i = unat (drive_count s);
          s = s\<lparr>drives := (drives s)[i := junk\<lparr>base_port := base, drive_num := num\<rparr>]\<rparr>;
          (r, ws, s) = ide_identify P (drive_count s) s
      in if r = 0
         then let drive = (drives s ! i)\<lparr>drive_exists := 1, cylinders := ws ! 1, heads := ws ! 3, sectors_per_track := ws ! 6,
                 drive_sectors := ucast (ws ! 60) OR push_bit 16 (ucast (ws ! 61))\<rparr>
           in (1, s\<lparr>drives := (drives s)[i := drive], drive_count := drive_count s + 1\<rparr>)
         else (0, s\<lparr>drives := (drives s)[i := (drives s ! i)\<lparr>drive_exists := 0\<rparr>]\<rparr>))"

definition no_drive :: ide_drive where
  "no_drive = \<lparr>base_port = 0, drive_num = 0, drive_exists = 0, drive_sectors = 0, cylinders = 0, heads = 0, sectors_per_track = 0\<rparr>"

definition ide_init :: "'d ports \<Rightarrow> ide_drive \<Rightarrow> 'd ide \<Rightarrow> int \<times> 'd ide" where
  "ide_init P junk s =
     (let s = s\<lparr>drive_count := 0, drives := replicate IDE_MAX_DRIVES no_drive\<rparr>;
          (_, s) = ide_detect_drive P junk 0x1F0 0 s;
          (_, s) = ide_detect_drive P junk 0x1F0 1 s;
          (_, s) = ide_detect_drive P junk 0x170 0 s;
          (_, s) = ide_detect_drive P junk 0x170 1 s
      in (uint (drive_count s), s))"

definition ide_get_drive :: "u8 \<Rightarrow> 'd ide \<Rightarrow> ide_drive option" where
  "ide_get_drive drive_id s =
     (if unat drive_id \<ge> IDE_MAX_DRIVES \<or> drive_exists (drives s ! unat drive_id) = 0 then None
      else Some (drives s ! unat drive_id))"


subsection \<open>What the driver relies on: a channel with its registers\<close>

text \<open>The registers of a channel, the words of a sector that wait for the host (\<open>c_in\<close>), a write in progress (address, sectors left,
  words received), for how many more readings the status shows busy, and the sectors of the two drives on the channel.\<close>

record chan =
  c_count :: u8
  c_lba0 :: u8
  c_lba1 :: u8
  c_lba2 :: u8
  c_dev :: u8
  c_busy :: nat
  c_in :: "u16 list"
  c_out :: "(u32 \<times> nat \<times> u16 list) option"
  c_disk :: "bool \<Rightarrow> u32 \<Rightarrow> u16 list"

definition c_slave :: "chan \<Rightarrow> bool" where "c_slave c = bit (c_dev c) 4"

definition c_lba :: "chan \<Rightarrow> u32" where
  "c_lba c = ucast (c_lba0 c) OR push_bit 8 (ucast (c_lba1 c)) OR push_bit 16 (ucast (c_lba2 c))
     OR push_bit 24 (ucast (c_dev c AND 0x0F))"

definition start_read :: "chan \<Rightarrow> chan" where
  "start_read c = c\<lparr>c_in := concat (map (\<lambda>i. c_disk c (c_slave c) (c_lba c + of_nat i)) [0..<unat (c_count c)])\<rparr>"

definition start_write :: "chan \<Rightarrow> chan" where
  "start_write c = c\<lparr>c_out := Some (c_lba c, unat (c_count c), [])\<rparr>"

definition disk_put :: "bool \<Rightarrow> ((u32 \<Rightarrow> u16 list) \<Rightarrow> (u32 \<Rightarrow> u16 list)) \<Rightarrow> (bool \<Rightarrow> u32 \<Rightarrow> u16 list) \<Rightarrow> (bool \<Rightarrow> u32 \<Rightarrow> u16 list)" where
  "disk_put sl f disk = disk(sl := f (disk sl))"

definition store_sector :: "u32 \<Rightarrow> 'a list \<Rightarrow> (u32 \<Rightarrow> 'a list) \<Rightarrow> (u32 \<Rightarrow> 'a list)" where
  "store_sector lba xs disk = disk(lba := xs)"

definition take_word :: "u16 \<Rightarrow> chan \<Rightarrow> chan" where
  "take_word w c = (case c_out c of None \<Rightarrow> c
     | Some (lba, n, ws) \<Rightarrow>
         if length ws + 1 < 256 then c\<lparr>c_out := Some (lba, n, ws @ [w])\<rparr>
         else c\<lparr>c_disk := disk_put (c_slave c) (store_sector lba (ws @ [w])) (c_disk c),
                c_out := (if n \<le> 1 then None else Some (lba + 1, n - 1, []))\<rparr>)"

definition status_ok :: "u8 \<Rightarrow> chan \<Rightarrow> bool" where
  "status_ok st c \<longleftrightarrow> \<not> bit st 0 \<and> (if 0 < c_busy c then bit st 7
     else \<not> bit st 7 \<and> bit st 6 \<and> (bit st 3 \<longleftrightarrow> c_in c \<noteq> [] \<or> c_out c \<noteq> None))"

text \<open>A fault-free drive on the channel with the given base port. It may be busy after a command, before the next sector of a read and
  after each sector of a write, for fewer readings of the status than the driver waits for; while it is busy its registers are not to be written.\<close>

definition settles :: "bool \<Rightarrow> chan \<Rightarrow> chan \<Rightarrow> bool" where
  "settles may_be_busy c c' \<longleftrightarrow> (\<exists>b<IDE_TIMEOUT. c' = c\<lparr>c_busy := if may_be_busy then b else 0\<rparr>)"

definition more_to_read :: "chan \<Rightarrow> bool" where
  "more_to_read c \<longleftrightarrow> c_in c \<noteq> [] \<and> 256 dvd length (c_in c)"

definition sector_taken :: "chan \<Rightarrow> bool" where
  "sector_taken c \<longleftrightarrow> (case c_out c of None \<Rightarrow> True | Some (_, _, ws) \<Rightarrow> ws = [])"

definition ata :: "'d ports \<Rightarrow> u16 \<Rightarrow> ('d \<Rightarrow> chan) \<Rightarrow> bool" where
  "ata P base v \<longleftrightarrow>
     (\<forall>d. status_ok (fst (inb P (base + 7) d)) (v d)) \<and>
     (\<forall>d. v (snd (inb P (base + 7) d)) = (v d)\<lparr>c_busy := c_busy (v d) - 1\<rparr>) \<and>
     (\<forall>d x. c_busy (v d) = 0 \<longrightarrow>
        v (outb P (base + 1) x d) = v d \<and>
        v (outb P (base + 2) x d) = (v d)\<lparr>c_count := x\<rparr> \<and>
        v (outb P (base + 3) x d) = (v d)\<lparr>c_lba0 := x\<rparr> \<and>
        v (outb P (base + 4) x d) = (v d)\<lparr>c_lba1 := x\<rparr> \<and>
        v (outb P (base + 5) x d) = (v d)\<lparr>c_lba2 := x\<rparr> \<and>
        v (outb P (base + 6) x d) = (v d)\<lparr>c_dev := x\<rparr>) \<and>
     (\<forall>d. c_busy (v d) = 0 \<longrightarrow>
        settles True (start_read (v d)) (v (outb P (base + 7) 0x20 d)) \<and>
        settles True (start_write (v d)) (v (outb P (base + 7) 0x30 d))) \<and>
     (\<forall>d. c_busy (v d) = 0 \<longrightarrow> c_in (v d) \<noteq> [] \<longrightarrow> fst (inw P base d) = hd (c_in (v d)) \<and>
        (let c = (v d)\<lparr>c_in := tl (c_in (v d))\<rparr> in settles (more_to_read c) c (v (snd (inw P base d))))) \<and>
     (\<forall>d w. c_busy (v d) = 0 \<longrightarrow>
        (let c = take_word w (v d) in settles (sector_taken c) c (v (outw P base w d))))"

text \<open>Between two transfers.\<close>

definition quiet :: "chan \<Rightarrow> bool" where
  "quiet c \<longleftrightarrow> c_busy c = 0 \<and> c_in c = [] \<and> c_out c = None"

subsection \<open>Transfers\<close>

lemma ata_inw:
  "ata P base v \<Longrightarrow> c_busy (v d) = 0 \<Longrightarrow> c_in (v d) \<noteq> [] \<Longrightarrow> fst (inw P base d) = hd (c_in (v d)) \<and>
     (let c = (v d)\<lparr>c_in := tl (c_in (v d))\<rparr> in settles (more_to_read c) c (v (snd (inw P base d))))"
  unfolding ata_def by (elim conjE) blast

lemma ata_outw:
  "ata P base v \<Longrightarrow> c_busy (v d) = 0 \<Longrightarrow>
     (let c = take_word w (v d) in settles (sector_taken c) c (v (outw P base w d)))"
  unfolding ata_def by (elim conjE) blast

lemma ata_outb:
  "ata P base v \<Longrightarrow> c_busy (v d) = 0 \<Longrightarrow>
        v (outb P (base + 1) x d) = v d \<and>
        v (outb P (base + 2) x d) = (v d)\<lparr>c_count := x\<rparr> \<and>
        v (outb P (base + 3) x d) = (v d)\<lparr>c_lba0 := x\<rparr> \<and>
        v (outb P (base + 4) x d) = (v d)\<lparr>c_lba1 := x\<rparr> \<and>
        v (outb P (base + 5) x d) = (v d)\<lparr>c_lba2 := x\<rparr> \<and>
        v (outb P (base + 6) x d) = (v d)\<lparr>c_dev := x\<rparr>"
  unfolding ata_def by (elim conjE) blast

lemma ata_command:
  "ata P base v \<Longrightarrow> c_busy (v d) = 0 \<Longrightarrow>
        settles True (start_read (v d)) (v (outb P (base + 7) 0x20 d)) \<and>
        settles True (start_write (v d)) (v (outb P (base + 7) 0x30 d))"
  unfolding ata_def by (elim conjE) blast

lemma bit_test: "(st AND 0x80 = 0) = (\<not> bit st 7)" "(st AND 0x40 = 0) = (\<not> bit st 6)" "(st AND 0x08 = 0) = (\<not> bit st 3)" "(st AND 1 = 0) = (\<not> bit st 0)"
  for st :: u8
proof -
  have "(st AND push_bit n 1 = 0) = (\<not> bit st n)" if "n < 8" for n
    by (metis (no_types) and_exp_eq_0_iff_not_bit push_bit_eq_mult mult_1)
  from this [of 7] this [of 6] this [of 3] this [of 0]
  show "(st AND 0x80 = 0) = (\<not> bit st 7)" "(st AND 0x40 = 0) = (\<not> bit st 6)" "(st AND 0x08 = 0) = (\<not> bit st 3)" "(st AND 1 = 0) = (\<not> bit st 0)"
    by (simp_all add: push_bit_eq_mult)
qed

lemma poll_ok:
  assumes "ata P base v" "c_busy (v d) < n" "flag = 0x40 \<or> flag = 0x08 \<and> (c_in (v d) \<noteq> [] \<or> c_out (v d) \<noteq> None)"
  shows "\<exists>d'. poll_status P flag base n d = (0, d') \<and> v d' = (v d)\<lparr>c_busy := 0\<rparr>"
  using assms(2,3)
proof (induction n arbitrary: d)
  case (Suc n)
  obtain st d1 where r: "inb P (base + 7) d = (st, d1)" by force
  have st: "status_ok st (v d)" and d1: "v d1 = (v d)\<lparr>c_busy := c_busy (v d) - 1\<rparr>"
    using assms(1) r unfolding ata_def by (metis fst_conv, metis snd_conv)
  show ?case
  proof (cases "c_busy (v d) = 0")
    case True
    have "st AND 0x80 = 0" "st AND flag \<noteq> 0" using True st Suc.prems(2) by (auto simp: status_ok_def bit_test)
    moreover have "v d1 = (v d)\<lparr>c_busy := 0\<rparr>" using d1 True by simp
    ultimately show ?thesis by (simp add: r)
  next
    case False
    then have b: "st AND 0x80 \<noteq> 0" "st AND 1 = 0" using st by (simp_all add: status_ok_def bit_test)
    have "c_busy (v d1) < n" "flag = 0x40 \<or> flag = 0x08 \<and> (c_in (v d1) \<noteq> [] \<or> c_out (v d1) \<noteq> None)"
      using d1 Suc.prems False by auto
    from Suc.IH [OF this] d1 show ?thesis using b by (simp add: r)
  qed
qed simp

lemma delay_ok:
  assumes "ata P base v" "c_busy (v d) = 0"
  shows "v (ide_delay P base d) = v d"
proof -
  have "v (snd (inb P (base + 7) d)) = v d" if "c_busy (v d) = 0" for d
    using assms(1) that unfolding ata_def by (metis chan.surjective chan.update_convs(6) diff_0_eq_0)
  then have "v (fold (\<lambda>_ d. snd (inb P (base + 7) d)) xs d) = v d" for xs :: "nat list"
    using assms(2) by (induction xs arbitrary: d) auto
  then show ?thesis by (simp add: ide_delay_def)
qed


lemma select_ok:
  assumes "ata P base v" "c_busy (v d) = 0"
  shows "v (ide_select_drive P base n d) = (v d)\<lparr>c_dev := 0xE0 OR push_bit 4 (n AND 1)\<rparr>"
proof -
  have "v (outb P (base + 6) x d) = (v d)\<lparr>c_dev := x\<rparr>" for x using assms unfolding ata_def by blast
  then show ?thesis using delay_ok [OF assms(1)] assms(2) by (simp add: ide_select_drive_def)
qed

text \<open>One word, and then the words of a whole sector.\<close>

lemma inw_ok:
  assumes "ata P base v" "c_busy (v d) = 0" "c_in (v d) = w # ws"
  obtains d' b where "inw P base d = (w, d')" "b < IDE_TIMEOUT"
    "v d' = (v d)\<lparr>c_in := ws, c_busy := if ws \<noteq> [] \<and> 256 dvd length ws then b else 0\<rparr>"
proof -
  have "fst (inw P base d) = w \<and> settles (ws \<noteq> [] \<and> 256 dvd length ws) ((v d)\<lparr>c_in := ws\<rparr>) (v (snd (inw P base d)))"
    using ata_inw [OF assms(1,2)] assms(3) by (simp add: Let_def more_to_read_def)
  then show thesis using that by (cases "inw P base d") (auto simp: settles_def)
qed

lemma read_words_ok:
  assumes "ata P base v" "c_busy (v d) = 0" "c_in (v d) = xs @ ws" "length xs \<le> 256" "256 dvd length ws" "xs \<noteq> []"
  obtains d' b where "read_words P base (length xs) d = (xs, d')" "b < IDE_TIMEOUT"
    "v d' = (v d)\<lparr>c_in := ws, c_busy := if ws \<noteq> [] then b else 0\<rparr>"
  using assms(2-)
proof (induction xs arbitrary: d thesis)
  case (Cons x xs)
  obtain d1 b where d1: "inw P base d = (x, d1)" "b < IDE_TIMEOUT"
    "v d1 = (v d)\<lparr>c_in := xs @ ws, c_busy := if xs @ ws \<noteq> [] \<and> 256 dvd length (xs @ ws) then b else 0\<rparr>"
    using inw_ok [OF assms(1) Cons.prems(2)] Cons.prems(3) by auto
  show ?case
  proof (cases "xs = []")
    case True
    then show ?thesis using Cons.prems(1) [of d1 b] Cons.prems(5) d1 by auto
  next
    case False
    have "\<not> 256 dvd length xs" using Cons.prems(4) False by (auto dest: dvd_imp_le)
    then have "\<not> 256 dvd length (xs @ ws)" using Cons.prems(5) by (simp add: dvd_add_left_iff)
    then have v1: "v d1 = (v d)\<lparr>c_in := xs @ ws, c_busy := 0\<rparr>" using d1(3) by simp
    obtain d2 b2 where "read_words P base (length xs) d1 = (xs, d2)" "b2 < IDE_TIMEOUT"
      "v d2 = (v d1)\<lparr>c_in := ws, c_busy := if ws \<noteq> [] then b2 else 0\<rparr>"
      using Cons.IH [of d1] Cons.prems(4,5) False v1 by auto
    then show ?thesis using Cons.prems(1) [of d2 b2] d1(1) v1 by simp
  qed
qed simp

lemma length_concat_const: "\<forall>xs\<in>set xss. length xs = n \<Longrightarrow> length (concat xss) = n * length xss"
  by (induction xss) auto

lemma read_loop_ok:
  assumes "ata P base v" "c_busy (v d) < IDE_TIMEOUT" "c_in (v d) = concat xss" "\<forall>xs\<in>set xss. length xs = 256" "xss \<noteq> []"
  obtains d' where "read_sector_loop P base (length xss) d = (0, concat xss, d')" "v d' = (v d)\<lparr>c_in := [], c_busy := 0\<rparr>"
  using assms(2-)
proof (induction xss arbitrary: d thesis)
  case (Cons xs xss)
  have len: "length xs = 256" "length (concat xss) = 256 * length xss"
    using Cons.prems(4) length_concat_const [of xss 256] by simp_all
  then have xs: "xs \<noteq> []" by auto
  then have ne: "c_in (v d) \<noteq> []" using Cons.prems(3) by auto
  obtain d1 where d1: "ide_wait_drq P base d = (0, d1)" "v d1 = (v d)\<lparr>c_busy := 0\<rparr>"
    using poll_ok [OF assms(1) Cons.prems(2), of 8] ne by (auto simp: ide_wait_drq_def)
  obtain d2 b where d2: "read_words P base 256 d1 = (xs, d2)" "b < IDE_TIMEOUT"
    "v d2 = (v d1)\<lparr>c_in := concat xss, c_busy := if concat xss \<noteq> [] then b else 0\<rparr>"
    using read_words_ok [OF assms(1), of d1 xs "concat xss"] d1(2) Cons.prems(3) len xs by auto
  show ?case
  proof (cases "xss = []")
    case True
    then show ?thesis using Cons.prems(1) [of d2] d1 d2 by simp
  next
    case False
    obtain d3 where "read_sector_loop P base (length xss) d2 = (0, concat xss, d3)" "v d3 = (v d2)\<lparr>c_in := [], c_busy := 0\<rparr>"
      using Cons.IH [of d2] Cons.prems(4) False d2(2,3) by (auto simp: IDE_TIMEOUT_def split: if_splits)
    then show ?thesis using Cons.prems(1) [of d3] d1 d2 by simp
  qed
qed simp


text \<open>The address that the registers hold after a command is the one that the driver was given, as far as 28 bits reach.\<close>

lemma drive_select_bits: "n < 8 \<Longrightarrow> bit (drive_select drive lba) n = (if n < 4 then bit lba (24 + n) else if n = 4 then odd drive else True)"
proof -
  assume n: "n < 8"
  have m: "(0x0F :: u32) = mask 4" "(0xE0 :: u8) = push_bit 5 (mask 3)" "(1 :: u8) = mask 1"
    by (simp_all add: mask_eq_exp_minus_1 push_bit_eq_mult)
  have "bit (push_bit 4 (drive AND mask 1)) n = (n = 4 \<and> odd drive)"
    unfolding bit_push_bit_iff bit_and_iff bit_mask_iff using n by (cases "n = 4") (auto simp: bit_0)
  moreover have "bit (push_bit 5 (mask 3) :: u8) n = (5 \<le> n)" using n by (auto simp: bit_simps)
  moreover have "bit (ucast (drop_bit 24 lba AND mask 4) :: u8) n = (n < 4 \<and> bit lba (24 + n))" using n by (auto simp: bit_simps)
  ultimately show ?thesis using n unfolding drive_select_def m by (auto simp: bit_or_iff)
qed

lemma lba_in_registers:
  "ucast (ucast (lba AND 0xFF) :: u8) OR push_bit 8 (ucast (ucast (drop_bit 8 lba AND 0xFF) :: u8))
    OR push_bit 16 (ucast (ucast (drop_bit 16 lba AND 0xFF) :: u8))
    OR push_bit 24 (ucast (drive_select drive lba AND 0x0F)) = lba AND mask 28" (is "?a OR ?b OR ?c OR ?d = _")
proof (rule bit_word_eqI)
  fix n assume n: "n < LENGTH(32)"
  have m: "(0xFF :: u32) = mask 8" "(0x0F :: u8) = mask 4" by (simp_all add: mask_eq_exp_minus_1)
  have "bit ?a n = (n < 8 \<and> bit lba n)" "bit ?b n = (8 \<le> n \<and> n < 16 \<and> bit lba n)" "bit ?c n = (16 \<le> n \<and> n < 24 \<and> bit lba n)"
    using n unfolding m by (auto simp: bit_simps)
  moreover have "bit ?d n = (24 \<le> n \<and> n < 28 \<and> bit lba n)"
    using n drive_select_bits [of "n - 24" drive lba] unfolding m by (auto simp: bit_simps)
  ultimately show "bit (?a OR ?b OR ?c OR ?d) n = bit (lba AND mask 28) n" using n by (auto simp: bit_or_iff bit_and_iff bit_mask_iff)
qed

definition same_regs :: "chan \<Rightarrow> chan \<Rightarrow> bool" where
  "same_regs c c' \<longleftrightarrow> c_in c' = c_in c \<and> c_out c' = c_out c \<and> c_disk c' = c_disk c"

lemma command_ok:
  assumes "ata P base v" "quiet (v d)" "com = 0x20 \<and> start = start_read \<or> com = 0x30 \<and> start = start_write"
  obtains c b where "b < IDE_TIMEOUT" "same_regs (v d) c" "c_count c = count" "c_lba c = lba AND mask 28" "c_slave c = odd drive"
    "v (send_command P base drive lba count com d) = (start c)\<lparr>c_busy := b\<rparr>"
proof -
  define d' where "d' = outb P (base + 6) (drive_select drive lba)
     (outb P (base + 5) (ucast (drop_bit 16 lba AND 0xFF)) (outb P (base + 4) (ucast (drop_bit 8 lba AND 0xFF))
     (outb P (base + 3) (ucast (lba AND 0xFF)) (outb P (base + 2) count (outb P (base + 1) 0 d)))))"
  have v': "v d' = (v d)\<lparr>c_count := count, c_lba0 := ucast (lba AND 0xFF), c_lba1 := ucast (drop_bit 8 lba AND 0xFF),
     c_lba2 := ucast (drop_bit 16 lba AND 0xFF), c_dev := drive_select drive lba\<rparr>"
    using assms(2) by (simp add: d'_def ata_outb [OF assms(1)] quiet_def)
  obtain b where "b < IDE_TIMEOUT" "v (outb P (base + 7) com d') = (start (v d'))\<lparr>c_busy := b\<rparr>"
    using ata_command [OF assms(1), of d'] v' assms(2,3) by (auto simp: settles_def quiet_def)
  moreover have "send_command P base drive lba count com d = outb P (base + 7) com d'" by (simp add: send_command_def d'_def)
  ultimately show thesis using that [of b "v d'"] v' by (simp add: same_regs_def c_lba_def c_slave_def lba_in_registers drive_select_bits)
qed

text \<open>Selecting the drive and waiting for it leave the channel quiet.\<close>

lemma prepare_ok:
  assumes "ata P base v" "quiet (v d)"
  obtains d' where "ide_wait_ready P base (ide_select_drive P base n d) = (0, d')" "quiet (v d')" "c_disk (v d') = c_disk (v d)"
proof -
  let ?d = "ide_select_drive P base n d"
  have v: "v ?d = (v d)\<lparr>c_dev := 0xE0 OR push_bit 4 (n AND 1)\<rparr>" using select_ok [OF assms(1)] assms(2) by (simp add: quiet_def)
  then obtain d' where "ide_wait_ready P base ?d = (0, d')" "v d' = (v ?d)\<lparr>c_busy := 0\<rparr>"
    using poll_ok [OF assms(1), where d = ?d and n = IDE_TIMEOUT and flag = "0x40"] assms(2) by (auto simp: ide_wait_ready_def quiet_def IDE_TIMEOUT_def)
  then show thesis using that [of d'] v assms(2) by (simp add: quiet_def)
qed

text \<open>The sectors that a transfer of \<open>n\<close> sectors from \<open>lba\<close> on covers.\<close>

definition sectors_at :: "(u32 \<Rightarrow> 'a list) \<Rightarrow> u32 \<Rightarrow> nat \<Rightarrow> 'a list" where
  "sectors_at disk lba n = concat (map (\<lambda>i. disk (lba + of_nat i)) [0..<n])"

definition drive_ok :: "'d ports \<Rightarrow> ('d \<Rightarrow> chan) \<Rightarrow> u8 \<Rightarrow> 'd ide \<Rightarrow> bool" where
  "drive_ok P v drive_id s \<longleftrightarrow> unat drive_id < IDE_MAX_DRIVES \<and> drive_exists (drives s ! unat drive_id) \<noteq> 0 \<and>
     ata P (base_port (drives s ! unat drive_id)) v \<and> quiet (v (hw s)) \<and>
     (\<forall>l. length (c_disk (v (hw s)) (odd (drive_num (drives s ! unat drive_id))) l) = 256)"

definition drive_disk :: "('d \<Rightarrow> chan) \<Rightarrow> u8 \<Rightarrow> 'd ide \<Rightarrow> u32 \<Rightarrow> u16 list" where
  "drive_disk v drive_id s = c_disk (v (hw s)) (odd (drive_num (drives s ! unat drive_id)))"

lemma sectors_at_cong: "(\<And>i. i < n \<Longrightarrow> disk (lba + of_nat i) = disk' (lba + of_nat i)) \<Longrightarrow> sectors_at disk lba n = sectors_at disk' lba n"
  unfolding sectors_at_def by (intro arg_cong [where f = concat] map_cong) auto

lemma small_lba: "unat (lba :: u32) < 2 ^ 28 \<Longrightarrow> lba AND mask 28 = lba"
  by (simp add: word_unat_eq_iff unat_and_mask)


lemma read_sectors_ok:
  assumes "drive_ok P v drive_id s" "count \<noteq> 0" "unat lba < 2 ^ 28"
  obtains d where "ide_read_sectors P drive_id lba count s = (0, sectors_at (drive_disk v drive_id s) lba (unat count), s\<lparr>hw := d\<rparr>)"
    "quiet (v d)" "c_disk (v d) = c_disk (v (hw s))"
proof -
  let ?dr = "drives s ! unat drive_id"
  have k: "unat drive_id < IDE_MAX_DRIVES" "drive_exists ?dr \<noteq> 0" "ata P (base_port ?dr) v" "quiet (v (hw s))"
    and len: "\<And>l. length (c_disk (v (hw s)) (odd (drive_num ?dr)) l) = 256" using assms(1) by (simp_all add: drive_ok_def)
  obtain d1 where d1: "ide_wait_ready P (base_port ?dr) (ide_select_drive P (base_port ?dr) (drive_num ?dr) (hw s)) = (0, d1)"
    "quiet (v d1)" "c_disk (v d1) = c_disk (v (hw s))" using prepare_ok [OF k(3,4)] by metis
  let ?d2 = "send_command P (base_port ?dr) (drive_num ?dr) lba count 0x20 d1"
  obtain c b where c: "b < IDE_TIMEOUT" "same_regs (v d1) c" "c_count c = count" "c_lba c = lba AND mask 28" "c_slave c = odd (drive_num ?dr)"
    "v ?d2 = (start_read c)\<lparr>c_busy := b\<rparr>" using command_ok [OF k(3) d1(2)] by metis
  define xss where "xss = map (\<lambda>i. c_disk (v (hw s)) (odd (drive_num ?dr)) (lba + of_nat i)) [0..<unat count]"
  have xss: "xss \<noteq> []" "length xss = unat count" "\<forall>xs\<in>set xss. length xs = 256" using assms(2) len by (auto simp: xss_def unat_eq_0)
  have cin: "c_in (v ?d2) = concat xss" "c_busy (v ?d2) < IDE_TIMEOUT"
    using c d1(3) assms(3) by (simp_all add: start_read_def xss_def same_regs_def small_lba)
  obtain d3 where d3: "read_sector_loop P (base_port ?dr) (unat count) ?d2 = (0, concat xss, d3)" "v d3 = (v ?d2)\<lparr>c_in := [], c_busy := 0\<rparr>"
    using read_loop_ok [OF k(3) cin(2,1) xss(3,1)] xss(2) by metis
  have "ide_read_sectors P drive_id lba count s = (0, concat xss, s\<lparr>hw := d3\<rparr>)"
    using k(1,2) assms(2) d1(1) d3(1) by (simp add: ide_read_sectors_def Let_def)
  moreover have "quiet (v d3)" "c_disk (v d3) = c_disk (v (hw s))"
    using d3(2) c d1(2,3) by (simp_all add: quiet_def start_read_def same_regs_def)
  ultimately show thesis using that [of d3] by (simp add: xss_def sectors_at_def drive_disk_def)
qed

text \<open>Writing: the drive collects a sector word by word and stores it when it is complete.\<close>

fun put_sectors :: "u32 \<Rightarrow> 'a list list \<Rightarrow> (u32 \<Rightarrow> 'a list) \<Rightarrow> (u32 \<Rightarrow> 'a list)" where
  "put_sectors lba [] disk = disk"
| "put_sectors lba (xs # xss) disk = put_sectors (lba + 1) xss (store_sector lba xs disk)"

lemma disk_put_put [simp]: "disk_put sl f (disk_put sl g disk) = disk_put sl (\<lambda>x. f (g x)) disk"
  by (simp add: disk_put_def)

lemma write_words_ok:
  assumes "ata P base v" "c_busy (v d) = 0" "c_out (v d) = Some (lba, n, ws)" "length ws + length xs = 256" "xs \<noteq> []"
  obtains b where "b < IDE_TIMEOUT" "v (write_words P base xs d) =
    (v d)\<lparr>c_disk := disk_put (c_slave (v d)) (store_sector lba (ws @ xs)) (c_disk (v d)),
          c_out := if n \<le> 1 then None else Some (lba + 1, n - 1, []), c_busy := b\<rparr>"
  using assms(2-)
proof (induction xs arbitrary: d ws thesis)
  case (Cons x xs)
  have s: "settles (sector_taken (take_word x (v d))) (take_word x (v d)) (v (outw P base x d))"
    using ata_outw [OF assms(1) Cons.prems(2), of x] by (simp add: Let_def)
  show ?case
  proof (cases "xs = []")
    case True
    then obtain b where "b < IDE_TIMEOUT" "v (outw P base x d) = (take_word x (v d))\<lparr>c_busy := b\<rparr>"
      using s Cons.prems(3,4) by (auto simp: settles_def sector_taken_def take_word_def split: if_splits)
    then show ?thesis using Cons.prems True by (intro Cons.prems(1) [of b]) (auto simp: write_words_def take_word_def)
  next
    case False
    then have "length ws + 1 < 256" using Cons.prems(4) by (cases xs) auto
    then have v1: "v (outw P base x d) = (v d)\<lparr>c_out := Some (lba, n, ws @ [x]), c_busy := 0\<rparr>"
      using s Cons.prems(3) by (auto simp: settles_def sector_taken_def take_word_def)
    obtain b where "b < IDE_TIMEOUT" "v (write_words P base xs (outw P base x d)) =
      (v d)\<lparr>c_disk := disk_put (c_slave (v d)) (store_sector lba (ws @ x # xs)) (c_disk (v d)),
          c_out := if n \<le> 1 then None else Some (lba + 1, n - 1, []), c_busy := b\<rparr>"
      using Cons.IH [of "outw P base x d" "ws @ [x]"] v1 Cons.prems(4) False by (auto simp: c_slave_def)
    then show ?thesis using Cons.prems(1) [of b] by (simp add: write_words_def)
  qed
qed simp

lemma write_loop_ok:
  assumes "ata P base v" "c_busy (v d) < IDE_TIMEOUT" "c_out (v d) = Some (lba, length xss, [])" "\<forall>xs\<in>set xss. length xs = 256" "xss \<noteq> []"
  obtains d' b where "write_sector_loop P base (length xss) (concat xss) d = (0, d')" "b < IDE_TIMEOUT"
    "v d' = (v d)\<lparr>c_disk := disk_put (c_slave (v d)) (put_sectors lba xss) (c_disk (v d)), c_out := None, c_busy := b\<rparr>"
  using assms(2-)
proof (induction xss arbitrary: d lba thesis)
  case (Cons xs xss)
  obtain d1 where d1: "ide_wait_drq P base d = (0, d1)" "v d1 = (v d)\<lparr>c_busy := 0\<rparr>"
    using poll_ok [OF assms(1) Cons.prems(2), of 8] Cons.prems(3) by (auto simp: ide_wait_drq_def)
  have xs: "length xs = 256" "xs \<noteq> []" using Cons.prems(4) by auto
  let ?d2 = "write_words P base xs d1"
  have s1: "c_slave (v d1) = c_slave (v d)" "c_disk (v d1) = c_disk (v d)" "c_busy (v d1) = 0" "c_out (v d1) = Some (lba, Suc (length xss), [])"
    using d1(2) Cons.prems(3) by (simp_all add: c_slave_def)
  obtain b where b: "b < IDE_TIMEOUT" "v ?d2 =
    (v d1)\<lparr>c_disk := disk_put (c_slave (v d1)) (store_sector lba ([] @ xs)) (c_disk (v d1)),
          c_out := if Suc (length xss) \<le> 1 then None else Some (lba + 1, Suc (length xss) - 1, []), c_busy := b\<rparr>"
    by (rule write_words_ok [OF assms(1) s1(3,4) _ xs(2)]) (use xs(1) in auto)
  then have d2: "v ?d2 = (v d)\<lparr>c_disk := disk_put (c_slave (v d)) (store_sector lba xs) (c_disk (v d)),
          c_out := if xss = [] then None else Some (lba + 1, length xss, []), c_busy := b\<rparr>"
    using d1(2) s1(1) by simp
  show ?case
  proof (cases "xss = []")
    case True
    then show ?thesis using Cons.prems(1) [of ?d2 b] d1(1) b(1) d2 xs(1) by simp
  next
    case False
    obtain d3 b3 where "write_sector_loop P base (length xss) (concat xss) ?d2 = (0, d3)" "b3 < IDE_TIMEOUT"
      "v d3 = (v ?d2)\<lparr>c_disk := disk_put (c_slave (v ?d2)) (put_sectors (lba + 1) xss) (c_disk (v ?d2)), c_out := None, c_busy := b3\<rparr>"
      by (rule Cons.IH [of ?d2 "lba + 1"]) (use Cons.prems(4) False b(1) d2 in auto)
    then show ?thesis using Cons.prems(1) [of d3 b3] d1 d2 xs(1) by (simp add: c_slave_def)
  qed
qed simp


text \<open>A buffer cut into sectors.\<close>

definition chunks :: "nat \<Rightarrow> nat \<Rightarrow> 'a list \<Rightarrow> 'a list list" where
  "chunks k n xs = map (\<lambda>i. take k (drop (k * i) xs)) [0..<n]"

lemma chunks_Suc: "chunks k (Suc n) xs = take k xs # chunks k n (drop k xs)"
  by (simp add: chunks_def upt_conv_Cons map_Suc_upt [symmetric] add.commute del: upt_Suc)

lemma chunks_concat: "length xs = k * n \<Longrightarrow> concat (chunks k n xs) = xs \<and> (\<forall>ys\<in>set (chunks k n xs). length ys = k)"
proof (induction n arbitrary: xs)
  case (Suc n)
  have len: "length (drop k xs) = k * n" "length (take k xs) = k" using Suc.prems by simp_all
  note IH = Suc.IH [OF len(1)]
  show ?case unfolding chunks_Suc using IH len(2) by (simp del: length_take)
qed (simp add: chunks_def)

lemma length_take_le: "n \<le> length xs \<Longrightarrow> length (take n xs) = n"
  by simp

lemma write_loop_take: "write_sector_loop P base n (take (256 * n) ws) d = write_sector_loop P base n ws d"
proof (induction n arbitrary: ws d)
  case (Suc n)
  obtain r d1 where r: "ide_wait_drq P base d = (r, d1)" by force
  have "min 256 (256 * Suc n) = 256" by (rule min_absorb1) simp
  moreover have "256 * Suc n - 256 = 256 * n" by simp
  ultimately have t: "take 256 (take (256 * Suc n) ws) = take 256 ws" "drop 256 (take (256 * Suc n) ws) = take (256 * n) (drop 256 ws)"
    by (simp_all only: take_take drop_take)
  show ?case unfolding write_sector_loop.simps t r Suc.IH by simp
qed simp

lemma write_sectors_ok:
  assumes "drive_ok P v drive_id s" "count \<noteq> 0" "unat lba < 2 ^ 28" "256 * unat count \<le> length buffer"
  obtains d where "ide_write_sectors P drive_id lba count buffer s = Some (0, s\<lparr>hw := d\<rparr>)" "quiet (v d)"
    "c_disk (v d) = disk_put (odd (drive_num (drives s ! unat drive_id))) (put_sectors lba (chunks 256 (unat count) (take (256 * unat count) buffer))) (c_disk (v (hw s)))"
proof -
  let ?dr = "drives s ! unat drive_id" and ?base = "base_port (drives s ! unat drive_id)"
  have k: "unat drive_id < IDE_MAX_DRIVES" "drive_exists ?dr \<noteq> 0" "ata P ?base v" "quiet (v (hw s))"
    using assms(1) by (simp_all add: drive_ok_def)
  obtain d1 where d1: "ide_wait_ready P ?base (ide_select_drive P ?base (drive_num ?dr) (hw s)) = (0, d1)"
    "quiet (v d1)" "c_disk (v d1) = c_disk (v (hw s))" using prepare_ok [OF k(3,4)] by metis
  let ?d2 = "send_command P ?base (drive_num ?dr) lba count 0x30 d1"
  obtain c b where c: "b < IDE_TIMEOUT" "same_regs (v d1) c" "c_count c = count" "c_lba c = lba AND mask 28" "c_slave c = odd (drive_num ?dr)"
    "v ?d2 = (start_write c)\<lparr>c_busy := b\<rparr>" using command_ok [OF k(3) d1(2)] by metis
  define xss where "xss = chunks 256 (unat count) (take (256 * unat count) buffer)"
  have "length (take (256 * unat count) buffer) = 256 * unat count" using assms(4) by (rule length_take_le)
  then have cat: "concat xss = take (256 * unat count) buffer" "\<forall>xs\<in>set xss. length xs = 256"
    unfolding xss_def using chunks_concat by blast+
  have len: "length xss = unat count" by (simp add: xss_def chunks_def)
  then have ne: "xss \<noteq> []" using assms(2) by (auto simp: unat_eq_0)
  have o: "c_out (v ?d2) = Some (lba, length xss, [])" "c_busy (v ?d2) < IDE_TIMEOUT"
    "c_slave (v ?d2) = odd (drive_num ?dr)" "c_disk (v ?d2) = c_disk (v (hw s))" "c_in (v ?d2) = []"
    using c d1(2,3) assms(3) len by (simp_all add: start_write_def same_regs_def small_lba c_slave_def quiet_def)
  obtain d3 b3 where d3: "write_sector_loop P ?base (length xss) (concat xss) ?d2 = (0, d3)" "b3 < IDE_TIMEOUT"
    "v d3 = (v ?d2)\<lparr>c_disk := disk_put (c_slave (v ?d2)) (put_sectors lba xss) (c_disk (v ?d2)), c_out := None, c_busy := b3\<rparr>"
    using write_loop_ok [OF k(3) o(2,1) cat(2) ne] by metis
  obtain d4 where d4: "ide_wait_ready P ?base d3 = (0, d4)" "v d4 = (v d3)\<lparr>c_busy := 0\<rparr>"
    using poll_ok [OF k(3), where d = d3 and n = IDE_TIMEOUT and flag = "0x40"] d3(2,3) by (auto simp: ide_wait_ready_def)
  have "ide_write_sectors P drive_id lba count buffer s = Some (0, s\<lparr>hw := d4\<rparr>)"
    using k(1,2) assms(2,4) d1(1) d3(1) d4(1) write_loop_take [of P ?base "unat count" buffer ?d2] cat(1) len
    by (simp add: ide_write_sectors_def Let_def)
  moreover have "quiet (v d4)" using d4(2) d3(3) o(5) by (simp add: quiet_def)
  moreover have "c_disk (v d4) = disk_put (odd (drive_num ?dr)) (put_sectors lba xss) (c_disk (v (hw s)))"
    using d4(2) d3(3) o(3,4) by simp
  ultimately show thesis using that [of d4] by (simp add: xss_def)
qed

end
