(* ===== verification/Blockdev.thy ===== *)
theory Blockdev
  imports Ide
begin

unbundle bit_operations_syntax

text \<open>
  The registry of block devices, \<^verbatim>\<open>src/kernel/blockdev.cpp\<close>: the IDE drives that were found, and reading and writing of sectors by
  device number. The locale \<open>sector_device\<close> says what the file system above may rely on; it is interpreted on the registry with a
  fault-free drive behind it.
\<close>

subsection \<open>The contract of a device of sectors\<close>

text \<open>\<open>disk\<close> reads the sectors, 512 bytes each, of a device with \<open>size\<close> of them.\<close>

locale sector_device =
  fixes ok :: "'s \<Rightarrow> bool" and disk :: "'s \<Rightarrow> u32 \<Rightarrow> u8 list" and size :: "'s \<Rightarrow> nat"
    and rd :: "u32 \<Rightarrow> u8 \<Rightarrow> 's \<Rightarrow> int \<times> u8 list \<times> 's" and wr :: "u32 \<Rightarrow> u8 \<Rightarrow> u8 list \<Rightarrow> 's \<Rightarrow> (int \<times> 's) option"
  assumes sector_length: "ok s \<Longrightarrow> length (disk s l) = 512"
    and read_in_range: "ok s \<Longrightarrow> count \<noteq> 0 \<Longrightarrow> unat sector + unat count \<le> size s \<Longrightarrow>
      \<exists>s'. rd sector count s = (0, concat (map (\<lambda>i. disk s (sector + of_nat i)) [0..<unat count]), s') \<and>
        ok s' \<and> disk s' = disk s \<and> size s' = size s"
    and write_in_range: "ok s \<Longrightarrow> count \<noteq> 0 \<Longrightarrow> unat sector + unat count \<le> size s \<Longrightarrow> 512 * unat count \<le> length buffer \<Longrightarrow>
      \<exists>s'. wr sector count buffer s = Some (0, s') \<and> ok s' \<and> size s' = size s \<and>
        (\<forall>l. disk s' l = (if sector \<le> l \<and> unat l < unat sector + unat count
           then take 512 (drop (512 * (unat l - unat sector)) buffer) else disk s l))"
    and size_bound: "ok s \<Longrightarrow> size s < 2 ^ 32"
begin

lemma write_then_read:
  assumes "ok s" "count \<noteq> 0" "unat sector + unat count \<le> size s" "length buffer = 512 * unat count"
  obtains s' s'' where "wr sector count buffer s = Some (0, s')" "rd sector count s' = (0, buffer, s'')" "ok s''"
    "\<And>l. \<not> (sector \<le> l \<and> unat l < unat sector + unat count) \<Longrightarrow> disk s'' l = disk s l"
proof -
  obtain s' where s': "wr sector count buffer s = Some (0, s')" "ok s'" "size s' = size s"
    "\<And>l. disk s' l = (if sector \<le> l \<and> unat l < unat sector + unat count then take 512 (drop (512 * (unat l - unat sector)) buffer) else disk s l)"
    using write_in_range [OF assms(1-3), of buffer] assms(4) by auto
  obtain s'' where s'': "rd sector count s' = (0, concat (map (\<lambda>i. disk s' (sector + of_nat i)) [0..<unat count]), s'')" "ok s''" "disk s'' = disk s'"
    using read_in_range [OF s'(2) assms(2)] assms(3) s'(3) by auto
  have "disk s' (sector + of_nat i) = take 512 (drop (512 * i) buffer)" if "i < unat count" for i
  proof -
    have "unat (sector + of_nat i) = unat sector + i" using that assms(3) size_bound [OF assms(1)] by (intro unat_plus_of_nat) linarith
    with that show ?thesis by (simp add: s'(4) word_le_nat_alt)
  qed
  then have "map (\<lambda>i. disk s' (sector + of_nat i)) [0..<unat count] = chunks 512 (unat count) buffer" by (simp add: chunks_def)
  then have "concat (map (\<lambda>i. disk s' (sector + of_nat i)) [0..<unat count]) = buffer" using chunks_concat [OF assms(4)] by simp
  with s''(1) have r: "rd sector count s' = (0, buffer, s'')" by simp
  have "disk s'' l = disk s l" if "\<not> (sector \<le> l \<and> unat l < unat sector + unat count)" for l
    using that s''(3) s'(4) [of l] by auto
  with s'(1) r s''(2) show thesis by (rule that)
qed

end

subsection \<open>The registry\<close>

record blockdev_info =
  bi_type :: u8
  bi_device_id :: u8
  bi_sector_count :: u32
  bi_sector_size :: u16
  bi_present :: u8
  bi_name :: "u8 list"

record 'd blockdev =
  devices :: "blockdev_info list"
  device_count :: u8
  ide :: "'d ide"

definition MAX_BLOCK_DEVICES :: nat where "MAX_BLOCK_DEVICES = 8"

definition BLOCKDEV_TYPE_IDE :: u8 where "BLOCKDEV_TYPE_IDE = 1"

definition no_device :: blockdev_info where
  "no_device = \<lparr>bi_type = 0, bi_device_id = 0, bi_sector_count = 0, bi_sector_size = 0, bi_present = 0, bi_name = []\<rparr>"

definition blockdev_register :: "blockdev_info \<Rightarrow> 'd blockdev \<Rightarrow> int \<times> 'd blockdev" where
  "blockdev_register info s =
     (if unat (device_count s) \<ge> MAX_BLOCK_DEVICES then (-1, s)
      else (0, s\<lparr>devices := (devices s)[unat (device_count s) := info], device_count := device_count s + 1\<rparr>))"

definition ide_info :: "nat \<Rightarrow> ide_drive \<Rightarrow> blockdev_info" where
  "ide_info i drive = \<lparr>bi_type = BLOCKDEV_TYPE_IDE, bi_device_id = of_nat i, bi_sector_count = drive_sectors drive, bi_sector_size = 512,
     bi_present = 1, bi_name = [104, 100, 48 + of_nat i]\<rparr>"

fun register_drives :: "nat list \<Rightarrow> 'd blockdev \<Rightarrow> 'd blockdev" where
  "register_drives [] s = s"
| "register_drives (i # is) s =
     (if unat (device_count s) < MAX_BLOCK_DEVICES
      then register_drives is (case ide_get_drive (of_nat i) (ide s) of None \<Rightarrow> s
        | Some drive \<Rightarrow> if drive_exists drive \<noteq> 0 then snd (blockdev_register (ide_info i drive) s) else s)
      else s)"

definition blockdev_init :: "'d ports \<Rightarrow> ide_drive \<Rightarrow> 'd blockdev \<Rightarrow> int \<times> 'd blockdev" where
  "blockdev_init P junk s =
     (let s = s\<lparr>device_count := 0, devices := replicate MAX_BLOCK_DEVICES no_device\<rparr>;
          (ide_drives, i) = ide_init P junk (ide s);
          s = register_drives [0..<nat ide_drives] (s\<lparr>ide := i\<rparr>)
      in (uint (device_count s), s))"

text \<open>A buffer of bytes as the words that the driver transfers, low byte first.\<close>

fun bytes_of_words :: "u16 list \<Rightarrow> u8 list" where
  "bytes_of_words [] = []"
| "bytes_of_words (w # ws) = ucast w # ucast (drop_bit 8 w) # bytes_of_words ws"

fun words_of_bytes :: "u8 list \<Rightarrow> u16 list" where
  "words_of_bytes (lo # hi # bs) = (ucast lo OR push_bit 8 (ucast hi)) # words_of_bytes bs"
| "words_of_bytes _ = []"

definition blockdev_read :: "'d ports \<Rightarrow> u8 \<Rightarrow> u32 \<Rightarrow> u8 \<Rightarrow> 'd blockdev \<Rightarrow> int \<times> u8 list \<times> 'd blockdev" where
  "blockdev_read P device sector count s =
     (if device \<ge> device_count s \<or> bi_present (devices s ! unat device) = 0 then (-2, [], s)
      else let dev = devices s ! unat device in
        if sector \<ge> bi_sector_count dev then (-1, [], s)
        else if bi_type dev = BLOCKDEV_TYPE_IDE
          then let (r, ws, i) = ide_read_sectors P (bi_device_id dev) sector count (ide s)
            in (r, bytes_of_words ws, s\<lparr>ide := i\<rparr>)
          else (-1, [], s))"

definition blockdev_write :: "'d ports \<Rightarrow> u8 \<Rightarrow> u32 \<Rightarrow> u8 \<Rightarrow> u8 list \<Rightarrow> 'd blockdev \<Rightarrow> (int \<times> 'd blockdev) option" where
  "blockdev_write P device sector count buffer s =
     (if device \<ge> device_count s \<or> bi_present (devices s ! unat device) = 0 then Some (-2, s)
      else let dev = devices s ! unat device in
        if sector \<ge> bi_sector_count dev \<or> ucast count > bi_sector_count dev \<or> sector + ucast count > bi_sector_count dev
        then Some (-1, s)
        else if bi_type dev = BLOCKDEV_TYPE_IDE
          then do {
            (r, i) \<leftarrow> ide_write_sectors P (bi_device_id dev) sector count (words_of_bytes buffer) (ide s);
            Some (if r \<noteq> 0 then -1 else 0, s\<lparr>ide := i\<rparr>)
          }
          else Some (-1, s))"

definition blockdev_get_info :: "u8 \<Rightarrow> 'd blockdev \<Rightarrow> blockdev_info option" where
  "blockdev_get_info device s =
     (if device \<ge> device_count s \<or> bi_present (devices s ! unat device) = 0 then None else Some (devices s ! unat device))"

definition blockdev_list_devices :: "'d blockdev \<Rightarrow> int" where
  "blockdev_list_devices s = uint (device_count s)"


subsection \<open>Sectors of bytes\<close>

lemma words_of_bytes_of_words [simp]: "words_of_bytes (bytes_of_words ws) = ws"
proof (induction ws)
  case (Cons w ws)
  have "ucast (ucast w :: u8) OR push_bit 8 (ucast (ucast (drop_bit 8 w) :: u8)) = (w :: u16)" (is "?l = _")
  proof (rule bit_word_eqI)
    fix n assume "n < LENGTH(16)"
    then have "n < 8 \<or> 8 \<le> n \<and> n < 16" by auto
    then show "bit ?l n = bit w n" by (auto simp: bit_simps)
  qed
  with Cons show ?case by simp
qed simp

lemma length_bytes_of_words [simp]: "length (bytes_of_words ws) = 2 * length ws"
  by (induction ws) auto

lemma bytes_of_words_append: "bytes_of_words (xs @ ys) = bytes_of_words xs @ bytes_of_words ys"
  by (induction xs) auto

lemma bytes_of_words_concat: "bytes_of_words (concat xss) = concat (map bytes_of_words xss)"
  by (induction xss) (auto simp: bytes_of_words_append)

lemma word_bytes:
  fixes lo hi :: u8
  shows "ucast (ucast lo OR push_bit 8 (ucast hi) :: u16) = lo" "ucast (drop_bit 8 (ucast lo) OR drop_bit 8 (push_bit 8 (ucast hi)) :: u16) = hi"
proof -
  have "\<not> bit lo (8 + n)" for n using bit_imp_le_length [of lo "8 + n"] by auto
  then show "ucast (ucast lo OR push_bit 8 (ucast hi) :: u16) = lo" "ucast (drop_bit 8 (ucast lo) OR drop_bit 8 (push_bit 8 (ucast hi)) :: u16) = hi"
    by (auto intro!: bit_word_eqI simp: bit_simps)
qed

lemma bytes_of_words_of_bytes: "even (length bs) \<Longrightarrow> bytes_of_words (words_of_bytes bs) = bs"
  by (induction bs rule: words_of_bytes.induct) (auto simp: word_bytes)

lemma length_words_of_bytes: "length (words_of_bytes bs) = length bs div 2"
  by (induction bs rule: words_of_bytes.induct) auto

lemma words_of_bytes_take: "words_of_bytes (take (2 * n) bs) = take n (words_of_bytes bs)"
proof (induction bs arbitrary: n rule: words_of_bytes.induct)
  case (1 lo hi bs)
  then show ?case by (cases n) auto
qed (auto simp: take_Cons' drop_Cons')

lemma words_of_bytes_drop: "words_of_bytes (drop (2 * n) bs) = drop n (words_of_bytes bs)"
proof (induction bs arbitrary: n rule: words_of_bytes.induct)
  case (1 lo hi bs)
  then show ?case by (cases n) auto
qed (auto simp: take_Cons' drop_Cons')

lemma put_sectors_nth:
  assumes "unat lba + length xss < 2 ^ 32"
  shows "put_sectors lba xss disk l = (if lba \<le> l \<and> unat l < unat lba + length xss then xss ! (unat l - unat lba) else disk l)"
  using assms
proof (induction xss arbitrary: lba disk)
  case (Cons xs xss)
  have u: "unat (lba + 1) = unat lba + 1" using Cons.prems by (simp add: unat_plus_simple32)
  show ?case
  proof (cases "l = lba")
    case True
    then show ?thesis using Cons.IH [of "lba + 1"] Cons.prems u by (simp add: store_sector_def word_le_nat_alt)
  next
    case False
    then have ne: "unat l \<noteq> unat lba" by (simp add: word_unat_eq_iff)
    have other: "store_sector lba xs disk l = disk l" using False by (simp add: store_sector_def)
    have "unat (lba + 1) + length xss < 2 ^ 32" using Cons.prems u by simp
    note Cons.IH [OF this, of "store_sector lba xs disk"]
    then have "put_sectors (lba + 1) xss (store_sector lba xs disk) l =
      (if lba + 1 \<le> l \<and> unat l < unat (lba + 1) + length xss then xss ! (unat l - unat (lba + 1)) else disk l)"
      using other by (simp only:)
    then show ?thesis using u ne by (auto simp: word_le_nat_alt nth_Cons' diff_diff_eq)
  qed
qed (auto simp: word_le_nat_alt)

subsection \<open>A registered drive as a device of sectors\<close>

definition dev_drive :: "u8 \<Rightarrow> 'd blockdev \<Rightarrow> u8" where
  "dev_drive device s = bi_device_id (devices s ! unat device)"

definition dev_disk :: "('d \<Rightarrow> chan) \<Rightarrow> u8 \<Rightarrow> 'd blockdev \<Rightarrow> u32 \<Rightarrow> u8 list" where
  "dev_disk v device s l = bytes_of_words (drive_disk v (dev_drive device s) (ide s) l)"

definition dev_size :: "u8 \<Rightarrow> 'd blockdev \<Rightarrow> nat" where
  "dev_size device s = unat (bi_sector_count (devices s ! unat device))"

text \<open>The device is registered as an IDE drive that works, with a size that 28-bit addresses reach.\<close>

definition dev_ok :: "'d ports \<Rightarrow> ('d \<Rightarrow> chan) \<Rightarrow> u8 \<Rightarrow> 'd blockdev \<Rightarrow> bool" where
  "dev_ok P v device s \<longleftrightarrow> device < device_count s \<and> bi_present (devices s ! unat device) \<noteq> 0 \<and>
     bi_type (devices s ! unat device) = BLOCKDEV_TYPE_IDE \<and> dev_size device s \<le> 2 ^ 28 \<and>
     drive_ok P v (dev_drive device s) (ide s)"

lemma dev_read_ok:
  assumes "dev_ok P v device s" "count \<noteq> 0" "unat sector + unat count \<le> dev_size device s"
  shows "\<exists>s'. blockdev_read P device sector count s = (0, sectors_at (dev_disk v device s) sector (unat count), s') \<and>
    dev_ok P v device s' \<and> dev_disk v device s' = dev_disk v device s \<and> dev_size device s' = dev_size device s"
proof -
  have c: "0 < unat count" using assms(2) by (simp add: unat_gt_0)
  have d: "drive_ok P v (dev_drive device s) (ide s)" "unat sector < 2 ^ 28" using assms(1,3) c by (auto simp: dev_ok_def)
  obtain h where h: "ide_read_sectors P (dev_drive device s) sector count (ide s) =
      (0, sectors_at (drive_disk v (dev_drive device s) (ide s)) sector (unat count), (ide s)\<lparr>hw := h\<rparr>)"
    "quiet (v h)" "c_disk (v h) = c_disk (v (hw (ide s)))"
    using read_sectors_ok [OF d(1) assms(2) d(2)] by metis
  have "sector < bi_sector_count (devices s ! unat device)" using assms(3) c by (simp add: dev_size_def word_less_nat_alt)
  then have r: "blockdev_read P device sector count s = (0, sectors_at (dev_disk v device s) sector (unat count), s\<lparr>ide := (ide s)\<lparr>hw := h\<rparr>\<rparr>)"
    using assms(1) h(1) by (auto simp: blockdev_read_def dev_ok_def Let_def dev_drive_def sectors_at_def bytes_of_words_concat dev_disk_def comp_def)
  have "dev_disk v device (s\<lparr>ide := (ide s)\<lparr>hw := h\<rparr>\<rparr>) = dev_disk v device s"
    using h(3) by (auto simp: dev_disk_def drive_disk_def dev_drive_def)
  moreover have "dev_ok P v device (s\<lparr>ide := (ide s)\<lparr>hw := h\<rparr>\<rparr>)"
    using assms(1) h(2,3) by (simp add: dev_ok_def drive_ok_def dev_drive_def dev_size_def)
  moreover have "dev_size device (s\<lparr>ide := (ide s)\<lparr>hw := h\<rparr>\<rparr>) = dev_size device s" by (simp add: dev_size_def)
  ultimately show ?thesis using r by blast
qed

lemma bytes_of_chunk:
  assumes "i < n" "512 * n \<le> length buffer"
  shows "bytes_of_words (chunks 256 n (take (256 * n) (words_of_bytes buffer)) ! i) = take 512 (drop (512 * i) buffer)"
proof -
  have le: "256 + 256 * i \<le> 256 * n" using assms(1) by linarith
  have "chunks 256 n (take (256 * n) (words_of_bytes buffer)) ! i = take 256 (drop (256 * i) (take (256 * n) (words_of_bytes buffer)))"
    using assms(1) by (simp add: chunks_def)
  also have "\<dots> = take 256 (drop (256 * i) (words_of_bytes buffer))" using le by (simp add: drop_take)
  also have "\<dots> = words_of_bytes (take (2 * 256) (drop (2 * (256 * i)) buffer))" by (simp only: words_of_bytes_take words_of_bytes_drop)
  also have "\<dots> = words_of_bytes (take 512 (drop (512 * i) buffer))" by simp
  finally have e: "chunks 256 n (take (256 * n) (words_of_bytes buffer)) ! i = words_of_bytes (take 512 (drop (512 * i) buffer))" .
  have "length (take 512 (drop (512 * i) buffer)) = 512" using assms(2) le by simp
  then show ?thesis unfolding e by (intro bytes_of_words_of_bytes) simp
qed

lemma dev_write_ok:
  assumes "dev_ok P v device s" "count \<noteq> 0" "unat sector + unat count \<le> dev_size device s" "512 * unat count \<le> length buffer"
  shows "\<exists>s'. blockdev_write P device sector count buffer s = Some (0, s') \<and> dev_ok P v device s' \<and> dev_size device s' = dev_size device s \<and>
    (\<forall>l. dev_disk v device s' l = (if sector \<le> l \<and> unat l < unat sector + unat count
       then take 512 (drop (512 * (unat l - unat sector)) buffer) else dev_disk v device s l))"
proof -
  let ?dr = "odd (drive_num (drives (ide s) ! unat (dev_drive device s)))"
  have c: "0 < unat count" using assms(2) by (simp add: unat_gt_0)
  have d: "drive_ok P v (dev_drive device s) (ide s)" "unat sector < 2 ^ 28" "dev_size device s \<le> 2 ^ 28" using assms(1,3) c by (auto simp: dev_ok_def)
  have len: "256 * unat count \<le> length (words_of_bytes buffer)" using assms(4) by (simp add: length_words_of_bytes)
  define xss where "xss = chunks 256 (unat count) (take (256 * unat count) (words_of_bytes buffer))"
  obtain h where h: "ide_write_sectors P (dev_drive device s) sector count (words_of_bytes buffer) (ide s) = Some (0, (ide s)\<lparr>hw := h\<rparr>)"
    "quiet (v h)" "c_disk (v h) = disk_put ?dr (put_sectors sector xss) (c_disk (v (hw (ide s))))"
    using write_sectors_ok [OF d(1) assms(2) d(2) len] unfolding xss_def by metis
  let ?s = "s\<lparr>ide := (ide s)\<lparr>hw := h\<rparr>\<rparr>"
  have uc: "unat (ucast count :: u32) = unat count" by (simp add: unsigned_ucast_eq take_bit_nat_eq_self order_less_le_trans [OF unsigned_less])
  have su: "unat (sector + ucast count) = unat sector + unat count"
    using d(2,3) assms(3) uc by (simp add: unat_plus_simple32)
  have "\<not> sector \<ge> bi_sector_count (devices s ! unat device)" "\<not> ucast count > bi_sector_count (devices s ! unat device)"
      "\<not> sector + ucast count > bi_sector_count (devices s ! unat device)"
    using assms(3) c su uc by (simp_all add: dev_size_def word_less_nat_alt word_le_nat_alt)
  then have r: "blockdev_write P device sector count buffer s = Some (0, ?s)"
    using assms(1) h(1) by (auto simp: blockdev_write_def dev_ok_def Let_def dev_drive_def)
  have lx: "length xss = unat count" by (simp add: xss_def chunks_def)
  have l: "unat sector + length xss < 2 ^ 32" using d(3) assms(3) lx by simp
  have disk: "dev_disk v device ?s l = (if sector \<le> l \<and> unat l < unat sector + unat count
       then take 512 (drop (512 * (unat l - unat sector)) buffer) else dev_disk v device s l)" for l
    using h(3) put_sectors_nth [OF l] lx bytes_of_chunk [OF _ assms(4), folded xss_def, of "unat l - unat sector"]
    by (auto simp: dev_disk_def drive_disk_def dev_drive_def disk_put_def word_le_nat_alt)
  have "length xs = 256" if "xs \<in> set xss" for xs
    using chunks_concat [of "take (256 * unat count) (words_of_bytes buffer)" 256 "unat count"] length_take_le [OF len] that unfolding xss_def by blast
  then have "length (put_sectors sector xss (c_disk (v (hw (ide s))) ?dr) l) = 256" for l
    using put_sectors_nth [OF l] d(1) lx by (auto simp: drive_ok_def word_le_nat_alt)
  then have "dev_ok P v device ?s"
    using assms(1) h(2,3) by (simp add: dev_ok_def drive_ok_def dev_drive_def dev_size_def disk_put_def)
  moreover have "dev_size device ?s = dev_size device s" by (simp add: dev_size_def)
  ultimately show ?thesis using r disk by blast
qed

interpretation registered: sector_device "dev_ok P v device" "dev_disk v device" "dev_size device" "blockdev_read P device" "blockdev_write P device"
  for P v device
proof
  show "length (dev_disk v device s l) = 512" if "dev_ok P v device s" for s l
    using that by (simp add: dev_disk_def dev_ok_def drive_ok_def drive_disk_def)
  show "dev_size device s < 2 ^ 32" for s :: "'d blockdev" by (simp add: dev_size_def)
qed (use dev_read_ok dev_write_ok in \<open>unfold sectors_at_def, blast+\<close>)


subsection \<open>What the devices guarantee\<close>

text \<open>A machine for the examples: the state is the channel itself, and the drive is never busy.\<close>

definition ata_out :: "u16 \<Rightarrow> u8 \<Rightarrow> chan \<Rightarrow> chan" where
  "ata_out port x c = (let r = port AND 7 in
     if r = 2 then c\<lparr>c_count := x\<rparr> else if r = 3 then c\<lparr>c_lba0 := x\<rparr> else if r = 4 then c\<lparr>c_lba1 := x\<rparr>
     else if r = 5 then c\<lparr>c_lba2 := x\<rparr> else if r = 6 then c\<lparr>c_dev := x\<rparr>
     else if r = 7 then (if x = 0x20 then start_read c else if x = 0x30 then start_write c else c) else c)"

definition ata_machine :: "chan ports" where
  "ata_machine = \<lparr>inb = \<lambda>port c. (if c_in c = [] \<and> c_out c = None then 0x40 else 0x48, c), outb = ata_out,
     inw = \<lambda>port c. (hd (c_in c), c\<lparr>c_in := tl (c_in c)\<rparr>), outw = \<lambda>port. take_word\<rparr>"

text \<open>The view of that machine forgets how long it is busy, which is never.\<close>

definition calm :: "chan \<Rightarrow> chan" where "calm c = c\<lparr>c_busy := 0\<rparr>"

lemma ata_machine_ok: "ata ata_machine 0x1F0 calm"
proof -
  have b: "bit (0x40 :: u8) 6" "\<not> bit (0x40 :: u8) 7" "\<not> bit (0x40 :: u8) 3" "\<not> bit (0x40 :: u8) 0"
     "bit (0x48 :: u8) 6" "\<not> bit (0x48 :: u8) 7" "bit (0x48 :: u8) 3" "\<not> bit (0x48 :: u8) 0" by code_simp+
  have p: "(0x1F1 AND 7 :: u16) = 1" "(0x1F2 AND 7 :: u16) = 2" "(0x1F3 AND 7 :: u16) = 3" "(0x1F4 AND 7 :: u16) = 4"
     "(0x1F5 AND 7 :: u16) = 5" "(0x1F6 AND 7 :: u16) = 6" "(0x1F7 AND 7 :: u16) = 7" by code_simp+
  have s: "calm (start_read c) = start_read (calm c)" "calm (start_write c) = start_write (calm c)" "calm (take_word w c) = take_word w (calm c)" for c w
    by (auto simp: calm_def start_read_def start_write_def take_word_def c_lba_def c_slave_def split: option.split)
  have t: "settles q (calm c) (calm c)" for q c
    unfolding settles_def by (rule exI [of _ 0]) (simp add: calm_def IDE_TIMEOUT_def)
  have "settles (more_to_read ((calm c)\<lparr>c_in := tl (c_in c)\<rparr>)) ((calm c)\<lparr>c_in := tl (c_in c)\<rparr>) (calm (c\<lparr>c_in := tl (c_in c)\<rparr>))" for c
  proof -
    have "(calm c)\<lparr>c_in := tl (c_in c)\<rparr> = calm (c\<lparr>c_in := tl (c_in c)\<rparr>)" by (cases c) (simp add: calm_def)
    then show ?thesis by (simp only: t)
  qed
  moreover have "settles q (start_read (calm c)) (calm (start_read c))" "settles q (start_write (calm c)) (calm (start_write c))"
    "settles q (take_word w (calm c)) (calm (take_word w c))" for q c w
    using t by (simp_all add: s [symmetric])
  ultimately show ?thesis
    unfolding ata_def by (simp add: ata_machine_def ata_out_def p status_ok_def b calm_def [of "_ :: chan"] Let_def)
qed


definition blank_chan :: chan where
  "blank_chan = \<lparr>c_count = 0, c_lba0 = 0, c_lba1 = 0, c_lba2 = 0, c_dev = 0, c_busy = 0, c_in = [], c_out = None, c_disk = \<lambda>_ _. replicate 256 0\<rparr>"

definition one_drive :: "chan blockdev" where
  "one_drive = (let drive = no_drive\<lparr>base_port := 0x1F0, drive_exists := 1, drive_sectors := 64\<rparr>
     in \<lparr>devices = ide_info 0 drive # replicate 7 no_device, device_count = 1,
         ide = \<lparr>drives = drive # replicate 3 no_drive, drive_count = 1, hw = blank_chan\<rparr>\<rparr>)"

lemma one_drive_ok: "dev_ok ata_machine calm 0 one_drive" "dev_size 0 one_drive = 64"
proof -
  show "dev_size 0 one_drive = 64" by (simp add: dev_size_def one_drive_def Let_def ide_info_def)
  then show "dev_ok ata_machine calm 0 one_drive"
    using ata_machine_ok
    by (simp add: dev_ok_def one_drive_def Let_def ide_info_def BLOCKDEV_TYPE_IDE_def drive_ok_def dev_drive_def IDE_MAX_DRIVES_def
        no_drive_def quiet_def calm_def [of "_ :: chan"] blank_chan_def)
qed

text \<open>C31. A registered drive that behaves as documented is a store of sectors: a write of sectors inside the device
  succeeds, a read of the same sectors returns the bytes that were written, and every other sector keeps its contents. The bytes go through
  the registry, the words of the driver, the status polls and the registers of the drive.\<close>

theorem block_device_roundtrip:
  assumes "dev_ok P v device s" "count \<noteq> 0" "unat sector + unat count \<le> dev_size device s" "length buffer = 512 * unat count"
  shows "\<exists>s' s''. blockdev_write P device sector count buffer s = Some (0, s') \<and> blockdev_read P device sector count s' = (0, buffer, s'') \<and>
    dev_ok P v device s'' \<and>
    (\<forall>l. \<not> (sector \<le> l \<and> unat l < unat sector + unat count) \<longrightarrow> dev_disk v device s'' l = dev_disk v device s l)"
  using registered.write_then_read [OF assms] by metis

theorem block_device_roundtrip_witness:
  "\<exists>s' s''. blockdev_write ata_machine 0 3 1 (replicate 512 7) one_drive = Some (0, s') \<and>
     blockdev_read ata_machine 0 3 1 s' = (0, replicate 512 7, s'') \<and> dev_disk calm 0 s'' 4 = replicate 512 0"
proof -
  have "dev_disk calm 0 one_drive 4 = replicate 512 0"
    by (simp add: dev_disk_def drive_disk_def one_drive_def Let_def ide_info_def dev_drive_def calm_def blank_chan_def numeral_eq_Suc)
  then show ?thesis
    using block_device_roundtrip [OF one_drive_ok(1), of 1 3 "replicate 512 7"] one_drive_ok(2) by fastforce
qed

text \<open>After a transfer the driver waits until the drive is ready. A drive that reports an error is ready too:
  its status has both bits set. The wait tests for ready first, so it reports success, and so does a write whose last wait reads such a status.\<close>

theorem drive_error_taken_for_success:
  assumes "fst (inb P (base + 7) d) = 0x51"
  shows "ide_wait_ready P base d = (0, snd (inb P (base + 7) d))"
proof -
  obtain n where n: "IDE_TIMEOUT = Suc n" using that [of 999999] by (simp add: IDE_TIMEOUT_def)
  have b: "(0x51 AND 0x80 :: u8) = 0" "(0x51 AND 0x40 :: u8) \<noteq> 0" by code_simp+
  obtain d' where "inb P (base + 7) d = (0x51, d')" using assms by (cases "inb P (base + 7) d") auto
  then show ?thesis unfolding ide_wait_ready_def n poll_status.simps using b by simp
qed

theorem drive_error_taken_for_success_witness:
  "ide_wait_ready \<lparr>inb = \<lambda>port d. (0x51, d), outb = \<lambda>_ _ d. d, inw = \<lambda>_ d. (0, d), outw = \<lambda>_ _ d. d\<rparr> 0x1F0 () = (0, ())"
  using drive_error_taken_for_success [of "\<lparr>inb = \<lambda>port d. (0x51, d), outb = \<lambda>_ _ d. d, inw = \<lambda>_ d. (0, d), outw = \<lambda>_ _ d. d\<rparr>" "0x1F0" "()"]
  by simp

end
