(* ===== verification/Fat32_Names.thy ===== *)
theory Fat32_Names
  imports Blockdev
begin

unbundle bit_operations_syntax

text \<open>
  The names of the FAT32 file system, the first part of \<^verbatim>\<open>src/kernel/fat32.cpp\<close>: the eleven bytes of a short name, the entries that
  spell a long name in pieces of thirteen characters, and the aliases that long names get. A C string is the list of its bytes before the
  terminator; a directory entry is a list of 32 bytes, as on the disk.
\<close>

subsection \<open>Characters\<close>

definition fat32_to_upper :: "u8 \<Rightarrow> u8" where
  "fat32_to_upper ch = (if 97 \<le> ch \<and> ch \<le> 122 then ch - 32 else ch)"

definition fat32_to_lower :: "u8 \<Rightarrow> u8" where
  "fat32_to_lower ch = (if 65 \<le> ch \<and> ch \<le> 90 then ch + 32 else ch)"

definition str_head :: "u8 list \<Rightarrow> u8" where
  "str_head s = (case s of [] \<Rightarrow> 0 | c # _ \<Rightarrow> c)"

fun fat32_casecmp :: "u8 list \<Rightarrow> u8 list \<Rightarrow> int" where
  "fat32_casecmp (a # as) (b # bs) =
     (let ca = fat32_to_lower a; cb = fat32_to_lower b in
      if ca \<noteq> cb then uint ca - uint cb else fat32_casecmp as bs)"
| "fat32_casecmp as bs = uint (fat32_to_lower (str_head as)) - uint (fat32_to_lower (str_head bs))"

definition fat32_sanitize_short_char :: "u8 \<Rightarrow> u8" where
  "fat32_sanitize_short_char ch =
     (let upper = fat32_to_upper ch in
      if (65 \<le> upper \<and> upper \<le> 90) \<or> (48 \<le> upper \<and> upper \<le> 57) then upper
      else if upper \<in> set [33, 35, 36, 37, 38, 39, 40, 41, 45, 64, 94, 95, 96, 123, 125, 126] then upper
      else 95)"

text \<open>The bytes of a buffer up to the terminator.\<close>

definition c_string :: "u8 list \<Rightarrow> u8 list" where
  "c_string buf = takeWhile (\<lambda>c. c \<noteq> 0) buf"


subsection \<open>Short names\<close>

definition fat32_lfn_checksum :: "u8 list \<Rightarrow> u8" where
  "fat32_lfn_checksum short_name = fold (\<lambda>i sum. (if sum AND 1 \<noteq> 0 then 0x80 else 0) + drop_bit 1 sum + short_name ! i) [0..<11] 0"

text \<open>The base name stops at the first space of its eight bytes, the extension at the first space of its three.\<close>

definition fat32_short_name_to_string :: "u8 list \<Rightarrow> nat \<Rightarrow> u8 list" where
  "fat32_short_name_to_string short_name out_size =
     (if out_size = 0 then []
      else let name_bytes = (if short_name ! 0 = 0x05 then (take 11 short_name)[0 := 0xE5] else take 11 short_name);
          base = take (out_size - 1) (takeWhile (\<lambda>c. c \<noteq> 32) (take 8 name_bytes));
          ext = takeWhile (\<lambda>c. c \<noteq> 32) (drop 8 name_bytes)
        in if 0 < length ext \<and> length base + length ext + 1 < out_size
           then base @ 46 # take (out_size - 2 - length base) ext else base)"

definition short_bad :: "u8 \<Rightarrow> bool" where
  "short_bad ch \<longleftrightarrow> ch = 32 \<or> ch = 46 \<or> ch = 47 \<or> ch = 92"

definition pad_name :: "u8 list \<Rightarrow> u8 list \<Rightarrow> u8 list" where
  "pad_name base ext = base @ replicate (8 - length base) 32 @ ext @ replicate (3 - length ext) 32"

text \<open>\<open>None\<close> is the result -1: the name does not have the form of a short name.\<close>

definition fat32_build_short_name :: "u8 list \<Rightarrow> u8 list option" where
  "fat32_build_short_name name =
     (let base = takeWhile (\<lambda>c. c \<noteq> 46) name; ext = drop 1 (dropWhile (\<lambda>c. c \<noteq> 46) name) in
      if base = [] \<or> 8 < length base \<or> 3 < length ext then None
      else let base = map fat32_to_upper base; ext = map fat32_to_upper ext in
        if list_ex short_bad base \<or> list_ex short_bad ext then None
        else Some (pad_name base ext))"

text \<open>The part before the last dot and the part after it; a dot at the start does not count.\<close>

definition last_dot :: "u8 list \<Rightarrow> nat option" where
  "last_dot name = (if 46 \<in> set name then Some (length name - 1 - length (takeWhile (\<lambda>c. c \<noteq> 46) (rev name))) else None)"

definition fat32_extract_base_ext :: "u8 list \<Rightarrow> nat \<Rightarrow> nat \<Rightarrow> u8 list \<times> u8 list" where
  "fat32_extract_base_ext name base_size ext_size =
     (case last_dot name of
        None \<Rightarrow> (take (base_size - 1) name, [])
      | Some i \<Rightarrow>
          if i = 0 then (take (base_size - 1) name, [])
          else (take (if i \<ge> base_size then base_size - 1 else i) name, take (ext_size - 1) (drop (i + 1) name)))"

fun fat32_sanitize_component :: "u8 list \<Rightarrow> nat \<Rightarrow> u8 list" where
  "fat32_sanitize_component [] n = []"
| "fat32_sanitize_component (c # cs) 0 = []"
| "fat32_sanitize_component (c # cs) (Suc n) =
     (if c = 32 then fat32_sanitize_component cs (Suc n)
      else fat32_sanitize_short_char c # fat32_sanitize_component cs n)"

fun fat32_count_digits :: "nat \<Rightarrow> nat" where
  "fat32_count_digits v = (if v \<ge> 10 then Suc (fat32_count_digits (v div 10)) else 1)"

declare fat32_count_digits.simps [simp del]

text \<open>The digits from the lowest on, at most \<open>n\<close> of them.\<close>

fun decimal_digits :: "nat \<Rightarrow> nat \<Rightarrow> u8 list" where
  "decimal_digits v 0 = []"
| "decimal_digits v (Suc n) = (if 0 < v then (48 + of_nat (v mod 10)) # decimal_digits (v div 10) n else [])"

definition fat32_decimal_to_string :: "nat \<Rightarrow> nat \<Rightarrow> u8 list" where
  "fat32_decimal_to_string v buffer_size =
     (if buffer_size = 0 then []
      else if v = 0 then (if buffer_size > 1 then [48] else [])
      else take (buffer_size - 1) (rev (decimal_digits v 20)))"

text \<open>The alias with a given number: the start of the base name, a tilde and the number, eight bytes in all.\<close>

definition short_alias :: "u8 list \<Rightarrow> u8 list \<Rightarrow> nat \<Rightarrow> u8 list" where
  "short_alias base ext suffix =
     (let digits = fat32_count_digits suffix;
          base_allow = (if 8 > digits + 1 then 8 - (digits + 1) else 1);
          start = take base_allow base;
          alias = take 8 (start @ 126 # fat32_decimal_to_string suffix 8)
      in pad_name alias ext)"

subsection \<open>Long names\<close>

definition name_at :: "u8 list \<Rightarrow> nat \<Rightarrow> u8" where
  "name_at name pos = (if pos < length name then name ! pos else 0)"

text \<open>The thirteen units of an entry: the characters from a position on, a zero after the last, and 0xFFFF in the rest. The loops over the
  three arrays of the entry share the flag \<open>finished\<close>; the last part of the function in the source stores 0xFFFF where it already is.\<close>

fun fill_units :: "u8 list \<Rightarrow> nat \<Rightarrow> nat \<Rightarrow> bool \<Rightarrow> u16 list" where
  "fill_units name pos 0 finished = []"
| "fill_units name pos (Suc n) finished =
     (if finished then 0xFFFF # fill_units name (pos + 1) n True
      else if name_at name pos \<noteq> 0 then ucast (name_at name pos) # fill_units name (pos + 1) n False
      else 0 # fill_units name (pos + 1) n True)"

definition fat32_fill_lfn_entry :: "u8 list \<Rightarrow> nat \<Rightarrow> u16 list" where
  "fat32_fill_lfn_entry name start_index = fill_units name start_index 13 False"

definition FAT32_ATTR_DIRECTORY :: u8 where "FAT32_ATTR_DIRECTORY = 0x10"

definition FAT32_ATTR_VOLUME_ID :: u8 where "FAT32_ATTR_VOLUME_ID = 0x08"

definition FAT32_ATTR_ARCHIVE :: u8 where "FAT32_ATTR_ARCHIVE = 0x20"

definition FAT32_ATTR_LONG_NAME :: u8 where "FAT32_ATTR_LONG_NAME = 0x0F"

text \<open>The 32 bytes of \<open>fat32_lfn_entry_t\<close>: order, five units, attributes, type, checksum, six units, a zero cluster, two units.\<close>

definition lfn_entry :: "u8 \<Rightarrow> u8 \<Rightarrow> u16 list \<Rightarrow> u8 list" where
  "lfn_entry order checksum units =
     order # bytes_of_words (take 5 units) @ [FAT32_ATTR_LONG_NAME, 0, checksum] @
     bytes_of_words (take 6 (drop 5 units)) @ [0, 0] @ bytes_of_words (take 2 (drop 11 units))"

text \<open>The entries of a long name in the order of the directory: the last piece comes first and is marked with 0x40.\<close>

definition lfn_entries :: "u8 list \<Rightarrow> u8 \<Rightarrow> u8 list list" where
  "lfn_entries name checksum =
     (let n = (length name + 12) div 13 in
      map (\<lambda>i. let seq = n - i; order = of_nat seq in
        lfn_entry (if i = 0 then order OR 0x40 else order) checksum (fat32_fill_lfn_entry name ((seq - 1) * 13))) [0..<n])"

definition e_attributes :: "u8 list \<Rightarrow> u8" where "e_attributes e = e ! 11"

definition e_cluster :: "u8 list \<Rightarrow> u32" where
  "e_cluster e = push_bit 16 (ucast (words_of_bytes (take 2 (drop 20 e)) ! 0)) OR ucast (words_of_bytes (take 2 (drop 26 e)) ! 0)"

definition bytes32 :: "u32 \<Rightarrow> u8 list" where
  "bytes32 x = [ucast x, ucast (drop_bit 8 x), ucast (drop_bit 16 x), ucast (drop_bit 24 x)]"

definition word32 :: "u8 list \<Rightarrow> u32" where
  "word32 bs = ucast (bs ! 0) OR push_bit 8 (ucast (bs ! 1)) OR push_bit 16 (ucast (bs ! 2)) OR push_bit 24 (ucast (bs ! 3))"

definition e_size :: "u8 list \<Rightarrow> u32" where "e_size e = word32 (take 4 (drop 28 e))"

text \<open>The 32 bytes of \<open>fat32_dir_entry_t\<close> with its times zero.\<close>

definition dir_entry :: "u8 list \<Rightarrow> u8 \<Rightarrow> u32 \<Rightarrow> u32 \<Rightarrow> u8 list" where
  "dir_entry filename attributes cluster sz =
     filename @ [attributes] @ replicate 8 0 @ drop 2 (bytes32 cluster) @ replicate 4 0 @ take 2 (bytes32 cluster) @ bytes32 sz"

text \<open>Storing the pieces of a long name: \<open>dest\<close> is the buffer of 256 characters.\<close>

fun chunk_to_ascii :: "u8 list \<Rightarrow> u16 list \<Rightarrow> nat \<Rightarrow> u8 list" where
  "chunk_to_ascii dest [] written =
     (if written < length dest then dest[written := 0] else if 0 < length dest then dest[length dest - 1 := 0] else dest)"
| "chunk_to_ascii dest (ch # src) written =
     (if written + 1 < length dest
      then if ch = 0xFFFF \<or> ch = 0 then dest[written := 0]
        else chunk_to_ascii (dest[written := if ch \<le> 0x7F then ucast ch else 63]) src (written + 1)
      else if written < length dest then dest[written := 0] else if 0 < length dest then dest[length dest - 1 := 0] else dest)"

definition fat32_utf16le_chunk_to_ascii :: "u8 list \<Rightarrow> u16 list \<Rightarrow> nat \<Rightarrow> u8 list" where
  "fat32_utf16le_chunk_to_ascii dest src offset = chunk_to_ascii dest src offset"

definition FAT32_MAX_FILENAME :: nat where "FAT32_MAX_FILENAME = 255"

text \<open>What the walk over a directory remembers of the long name entries that it has passed.\<close>

record lfn_state =
  lfn_name :: "u8 list"
  lfn_expected :: nat
  lfn_collected :: nat
  lfn_sum :: u8

record file_info =
  i_filename :: "u8 list"
  i_short_name :: "u8 list"
  i_has_long_name :: bool
  i_attributes :: u8
  i_size :: u32
  i_cluster :: u32

definition reset_lfn :: "lfn_state \<Rightarrow> lfn_state" where
  "reset_lfn l = l\<lparr>lfn_expected := 0, lfn_collected := 0, lfn_name := (lfn_name l)[0 := 0]\<rparr>"

definition lfn_start :: lfn_state where
  "lfn_start = \<lparr>lfn_name = replicate (FAT32_MAX_FILENAME + 1) 0, lfn_expected = 0, lfn_collected = 0, lfn_sum = 0\<rparr>"

definition e_units :: "u8 list \<Rightarrow> u16 list" where
  "e_units e = words_of_bytes (take 10 (drop 1 e)) @ words_of_bytes (take 12 (drop 14 e)) @ words_of_bytes (take 4 (drop 28 e))"

text \<open>An entry that belongs to a long name.\<close>

definition collect_lfn :: "u8 list \<Rightarrow> lfn_state \<Rightarrow> lfn_state" where
  "collect_lfn e l =
     (let order = e ! 0; seq = unat (order AND 0x1F) in
      if order = 0xE5 then reset_lfn l
      else if seq = 0 then reset_lfn l
      else let l = (if order AND 0x40 \<noteq> 0
             then l\<lparr>lfn_name := replicate (FAT32_MAX_FILENAME + 1) 0, lfn_expected := seq, lfn_collected := 0\<rparr> else l)
        in if lfn_expected l < seq then reset_lfn l
           else l\<lparr>lfn_name := fat32_utf16le_chunk_to_ascii (lfn_name l) (e_units e) ((seq - 1) * 13),
                  lfn_sum := e ! 13, lfn_collected := lfn_collected l + 1\<rparr>)"

text \<open>What the walk passes on for an entry that is not part of a long name.\<close>

definition entry_info :: "u8 list \<Rightarrow> lfn_state \<Rightarrow> file_info" where
  "entry_info e l =
     (let short = c_string (fat32_short_name_to_string e 13);
          info = \<lparr>i_filename = take FAT32_MAX_FILENAME short, i_short_name = short, i_has_long_name = False,
            i_attributes = e_attributes e, i_size = e_size e, i_cluster = e_cluster e\<rparr>
      in if 0 < lfn_expected l \<and> lfn_collected l = lfn_expected l \<and> lfn_sum l = fat32_lfn_checksum (take 11 e) \<and> lfn_name l ! 0 \<noteq> 0
         then info\<lparr>i_filename := take FAT32_MAX_FILENAME (c_string (lfn_name l)), i_has_long_name := True\<rparr>
         else info)"


subsection \<open>Long names that are read back\<close>

definition plain_name :: "u8 list \<Rightarrow> bool" where
  "plain_name name \<longleftrightarrow> name \<noteq> [] \<and> length name \<le> FAT32_MAX_FILENAME \<and> (\<forall>c\<in>set name. c \<noteq> 0 \<and> c \<le> 0x7F)"

lemma c_string_cut: "j < length buf \<Longrightarrow> 0 \<notin> set (take j buf) \<Longrightarrow> c_string (buf[j := 0]) = take j buf"
proof -
  assume j: "j < length buf" and z: "0 \<notin> set (take j buf)"
  have "buf[j := 0] = take j buf @ 0 # drop (Suc j) buf" using j by (simp add: upd_conv_take_nth_drop)
  moreover have "takeWhile (\<lambda>c. c \<noteq> 0) (take j buf @ 0 # drop (Suc j) buf) = take j buf"
    using z by (subst takeWhile_append2) auto
  ultimately show ?thesis by (simp add: c_string_def)
qed

lemma length_chunk [simp]: "length (chunk_to_ascii dest src w) = length dest"
  by (induction dest src w rule: chunk_to_ascii.induct) auto

lemma chunk_of_units:
  assumes "\<forall>c\<in>set name. c \<noteq> 0 \<and> c \<le> 0x7F" "j \<le> length name" "take j dest = take j name" "j + n + 1 < length dest"
  shows "c_string (chunk_to_ascii dest (fill_units name j n False) j) = take (j + n) name"
  using assms(2-)
proof (induction n arbitrary: j dest)
  case 0
  have "0 \<notin> set (take j name)" using assms(1) by (auto dest: in_set_takeD)
  then show ?case using 0 by (simp add: c_string_cut)
next
  case (Suc n)
  show ?case
  proof (cases "j < length name")
    case True
    let ?c = "name ! j"
    have c: "?c \<noteq> 0" "?c \<le> 0x7F" using assms(1) True by auto
    then have u: "unat ?c < 128" by (simp add: word_le_nat_alt)
    then have uc: "unat (ucast ?c :: u16) = unat ?c" by (simp add: unsigned_ucast_eq take_bit_nat_eq_self)
    then have w: "(ucast ?c :: u16) \<noteq> 0xFFFF" "(ucast ?c :: u16) \<noteq> 0" "(ucast ?c :: u16) \<le> 0x7F"
      using c u by (auto simp: word_unat_eq_iff word_le_nat_alt)
    have bk: "(ucast (ucast ?c :: u16) :: u8) = ?c"
      by (rule bit_word_eqI) (simp add: bit_simps)
    have "take (Suc j) (dest[j := ?c]) = take (Suc j) name"
      using Suc.prems True by (simp add: take_Suc_conv_app_nth)
    then show ?thesis using Suc.IH [of "Suc j" "dest[j := ?c]"] Suc.prems True c(1) w bk by (simp add: name_at_def)
  next
    case False
    then have "j = length name" using Suc.prems(1) by simp
    moreover have "0 \<notin> set (take j name)" using assms(1) by (auto dest: in_set_takeD)
    ultimately show ?thesis using Suc.prems by (simp add: name_at_def c_string_cut)
  qed
qed

lemma length_fill_units [simp]: "length (fill_units name pos n d) = n"
  by (induction name pos n d rule: fill_units.induct) auto

lemma entry_slices:
  assumes "length b1 = 10" "length b2 = 12" "length b3 = 4"
  shows "take 10 (drop 1 (h # b1 @ [a, t, c] @ b2 @ [0, 0] @ b3)) = b1" "take 12 (drop 14 (h # b1 @ [a, t, c] @ b2 @ [0, 0] @ b3)) = b2"
    "take 4 (drop 28 (h # b1 @ [a, t, c] @ b2 @ [0, 0] @ b3)) = b3" "(h # b1 @ [a, t, c] @ b2 @ [0, 0] @ b3) ! 13 = c"
    "(h # b1 @ [a, t, c] @ b2 @ [0, 0] @ b3) ! 11 = a" "length (h # b1 @ [a, t, c] @ b2 @ [0, 0] @ b3) = 32"
  using assms by (simp_all add: drop_Cons' nth_Cons' nth_append)

lemma e_units_of_lfn:
  assumes "length units = 13"
  shows "e_units (lfn_entry order checksum units) = units" "lfn_entry order checksum units ! 0 = order"
    "lfn_entry order checksum units ! 13 = checksum" "lfn_entry order checksum units ! 11 = FAT32_ATTR_LONG_NAME"
    "length (lfn_entry order checksum units) = 32"
proof -
  have l: "length (bytes_of_words (take 5 units)) = 10" "length (bytes_of_words (take 6 (drop 5 units))) = 12"
    "length (bytes_of_words (take 2 (drop 11 units))) = 4" using assms by simp_all
  have "take 5 units @ take 6 (drop 5 units) @ take 2 (drop 11 units) = units"
  proof -
    have "take 6 (drop 5 units) @ drop 6 (drop 5 units) = drop 5 units" "drop 6 (drop 5 units) = take 2 (drop 11 units)"
      using assms by (simp_all del: drop_drop, simp)
    then show ?thesis by (metis append_take_drop_id)
  qed
  then show "e_units (lfn_entry order checksum units) = units"
    unfolding e_units_def lfn_entry_def entry_slices(1-3) [OF l] by simp
  show "lfn_entry order checksum units ! 0 = order" by (simp add: lfn_entry_def)
  show "lfn_entry order checksum units ! 13 = checksum" "lfn_entry order checksum units ! 11 = FAT32_ATTR_LONG_NAME"
    "length (lfn_entry order checksum units) = 32"
    unfolding lfn_entry_def using entry_slices(4-6) [OF l] by blast+
qed

lemma order_bits:
  assumes "n \<le> 20" "0 < n"
  shows "unat ((of_nat n :: u8) AND 0x1F) = n" "(of_nat n :: u8) AND 0x40 = 0" "unat ((of_nat n OR 0x40 :: u8) AND 0x1F) = n"
    "(of_nat n OR 0x40 :: u8) AND 0x40 \<noteq> 0" "(of_nat n :: u8) \<noteq> 0xE5" "(of_nat n OR 0x40 :: u8) \<noteq> 0xE5"
proof -
  have "n \<in> set [1..<21]" using assms by auto
  moreover have "\<forall>n\<in>set [1..<21]. unat ((of_nat n :: u8) AND 0x1F) = n \<and> (of_nat n :: u8) AND 0x40 = 0 \<and> unat ((of_nat n OR 0x40 :: u8) AND 0x1F) = n \<and>
    (of_nat n OR 0x40 :: u8) AND 0x40 \<noteq> 0 \<and> (of_nat n :: u8) \<noteq> 0xE5 \<and> (of_nat n OR 0x40 :: u8) \<noteq> 0xE5"
    by code_simp
  ultimately show "unat ((of_nat n :: u8) AND 0x1F) = n" "(of_nat n :: u8) AND 0x40 = 0" "unat ((of_nat n OR 0x40 :: u8) AND 0x1F) = n"
    "(of_nat n OR 0x40 :: u8) AND 0x40 \<noteq> 0" "(of_nat n :: u8) \<noteq> 0xE5" "(of_nat n OR 0x40 :: u8) \<noteq> 0xE5"
    by blast+
qed

text \<open>One step of the collection for a piece of a long name.\<close>

lemma collect_piece:
  assumes "0 < seq" "seq \<le> 20" "order = (if i = (0::nat) then of_nat seq OR 0x40 else of_nat seq)" "i \<noteq> 0 \<Longrightarrow> seq \<le> lfn_expected l" "length units = 13"
  shows "collect_lfn (lfn_entry order checksum units) l =
    (let l = (if i = 0 then l\<lparr>lfn_name := replicate 256 0, lfn_expected := seq, lfn_collected := 0\<rparr> else l)
     in l\<lparr>lfn_name := chunk_to_ascii (lfn_name l) units ((seq - 1) * 13), lfn_sum := checksum, lfn_collected := lfn_collected l + 1\<rparr>)"
  unfolding collect_lfn_def Let_def e_units_of_lfn [OF assms(5)]
  using assms(1,3,4) order_bits [OF assms(2,1)]
  by (cases "i = 0") (simp_all add: fat32_utf16le_chunk_to_ascii_def FAT32_MAX_FILENAME_def)


lemma collect_pieces:
  assumes "plain_name name" "n = (length name + 12) div 13" "0 < k" "k \<le> n"
  shows "let l' = fold collect_lfn (take k (lfn_entries name checksum)) l in
    lfn_expected l' = n \<and> lfn_collected l' = k \<and> lfn_sum l' = checksum \<and> length (lfn_name l') = 256 \<and>
    (k = n \<longrightarrow> c_string (lfn_name l') = take 13 name)"
  using assms(3,4)
proof (induction k)
  case (Suc k)
  have len: "0 < length name" "length name \<le> 255" using assms(1) by (auto simp: plain_name_def FAT32_MAX_FILENAME_def)
  have n: "n \<le> 20" using assms(2) len(2) by simp
  let ?e = "\<lambda>i. lfn_entry (if i = 0 then of_nat (n - i) OR 0x40 else of_nat (n - i)) checksum (fat32_fill_lfn_entry name ((n - i - 1) * 13))"
  have es: "lfn_entries name checksum = map ?e [0..<n]" by (simp add: lfn_entries_def assms(2) Let_def)
  have step: "fold collect_lfn (take (Suc k) (lfn_entries name checksum)) l = collect_lfn (?e k) (fold collect_lfn (take k (lfn_entries name checksum)) l)"
    using Suc.prems by (simp add: es take_map take_Suc_conv_app_nth)
  let ?l = "fold collect_lfn (take k (lfn_entries name checksum)) l"
  define l0 where "l0 = (if k = 0 then ?l\<lparr>lfn_name := replicate 256 0, lfn_expected := n - k, lfn_collected := 0\<rparr> else ?l)"
  have IH: "lfn_expected ?l = n \<and> lfn_collected ?l = k \<and> length (lfn_name ?l) = 256" if "0 < k"
    using Suc.IH that Suc.prems by (simp add: Let_def)
  have e: "lfn_expected l0 = n" "lfn_collected l0 = k" "length (lfn_name l0) = 256" using IH by (auto simp: l0_def)
  have "collect_lfn (?e k) ?l =
     l0\<lparr>lfn_name := chunk_to_ascii (lfn_name l0) (fat32_fill_lfn_entry name ((n - k - 1) * 13)) ((n - k - 1) * 13),
        lfn_sum := checksum, lfn_collected := lfn_collected l0 + 1\<rparr>"
    using collect_piece [of "n - k" "if k = 0 then of_nat (n - k) OR 0x40 else of_nat (n - k)" k ?l "fat32_fill_lfn_entry name ((n - k - 1) * 13)" checksum] n Suc.prems IH
    by (simp add: fat32_fill_lfn_entry_def Let_def l0_def)
  with step obtain l' where l': "fold collect_lfn (take (Suc k) (lfn_entries name checksum)) l = l'"
    "l' = l0\<lparr>lfn_name := chunk_to_ascii (lfn_name l0) (fat32_fill_lfn_entry name ((n - k - 1) * 13)) ((n - k - 1) * 13),
        lfn_sum := checksum, lfn_collected := lfn_collected l0 + 1\<rparr>" by metis
  have "c_string (chunk_to_ascii (lfn_name l0) (fill_units name 0 13 False) 0) = take 13 name"
    using chunk_of_units [of name 0 "lfn_name l0" 13] assms(1) e(3) by (simp add: plain_name_def)
  then show ?case unfolding l'(1) Let_def using e by (auto simp: l'(2) fat32_fill_lfn_entry_def)
qed simp

text \<open>C32. The entries that \<open>fat32_create\<close> and \<open>fat32_mkdir_path\<close> write for a long name of ASCII characters, followed by the entry with the short name,
  are read back by the walk over the directory as a long name, namely the first thirteen characters of the name that was written: a name of
  up to thirteen characters is read back unchanged, and a longer one is cut off, because storing the piece for the first thirteen characters
  also stores a terminator over the first character of the second piece, which was stored before.\<close>

theorem long_names_read_back:
  assumes "plain_name name"
  shows "i_filename (entry_info e (fold collect_lfn (lfn_entries name (fat32_lfn_checksum (take 11 e))) l)) = take 13 name"
proof -
  let ?n = "(length name + 12) div 13" and ?c = "fat32_lfn_checksum (take 11 e)"
  have "0 < length name" using assms by (simp add: plain_name_def)
  then have n: "0 < ?n" by arith
  have all: "take ?n (lfn_entries name ?c) = lfn_entries name ?c" by (simp add: lfn_entries_def Let_def)
  let ?l = "fold collect_lfn (lfn_entries name ?c) l"
  have r: "lfn_expected ?l = ?n" "lfn_collected ?l = ?n" "lfn_sum ?l = ?c" "c_string (lfn_name ?l) = take 13 name" "length (lfn_name ?l) = 256"
    using collect_pieces [OF assms refl n order_refl, of ?c l] unfolding all by (simp_all add: Let_def)
  have "lfn_name ?l ! 0 \<noteq> 0"
  proof
    assume z: "lfn_name ?l ! 0 = 0"
    then have "c_string (lfn_name ?l) = []" using r(5) by (cases "lfn_name ?l") (auto simp: c_string_def)
    with r(4) assms show False by (simp add: plain_name_def)
  qed
  then show ?thesis using r n by (simp add: entry_info_def Let_def FAT32_MAX_FILENAME_def min_def)
qed


theorem long_names_read_back_witness:
  "i_filename (entry_info (dir_entry (replicate 11 65) 0x20 0 0)
     (fold collect_lfn (lfn_entries (replicate 15 97) (fat32_lfn_checksum (take 11 (dir_entry (replicate 11 65) 0x20 0 0)))) lfn_start)) = replicate 13 97"
  using long_names_read_back [of "replicate 15 97" "dir_entry (replicate 11 65) 0x20 0 0" lfn_start]
  by (simp add: plain_name_def FAT32_MAX_FILENAME_def)

subsection \<open>Short names that are read back\<close>

lemma casecmp_iff:
  assumes "0 \<notin> set as" "0 \<notin> set bs"
  shows "fat32_casecmp as bs = 0 \<longleftrightarrow> map fat32_to_lower as = map fat32_to_lower bs"
proof -
  have lz: "fat32_to_lower c = 0 \<longleftrightarrow> c = 0" for c
  proof
    assume z: "fat32_to_lower c = 0"
    show "c = 0"
    proof (cases "65 \<le> c \<and> c \<le> 90")
      case True
      then have "unat (c + 32) = unat c + 32" by (simp add: unat_word_ariths word_le_nat_alt)
      with z True show ?thesis by (simp add: fat32_to_lower_def)
    qed (use z in \<open>auto simp: fat32_to_lower_def split: if_splits\<close>)
  qed (simp add: fat32_to_lower_def)
  have l0: "fat32_to_lower 0 = 0" by (simp add: fat32_to_lower_def)
  show ?thesis using assms
  proof (induction as bs rule: fat32_casecmp.induct)
    case (1 a as b bs)
    then show ?case by (auto simp: Let_def word_uint_eq_iff)
  qed (auto simp: str_head_def lz l0 uint_0_iff split: list.splits)
qed

lemma build_short_name_parts:
  assumes "fat32_build_short_name name = Some sn"
  obtains base ext where "sn = pad_name base ext" "0 < length base" "length base \<le> 8" "length ext \<le> 3" "32 \<notin> set base" "32 \<notin> set ext"
    "base = map fat32_to_upper (takeWhile (\<lambda>c. c \<noteq> 46) name)" "ext = map fat32_to_upper (drop 1 (dropWhile (\<lambda>c. c \<noteq> 46) name))"
proof -
  let ?b = "takeWhile (\<lambda>c. c \<noteq> 46) name" and ?e = "drop 1 (dropWhile (\<lambda>c. c \<noteq> 46) name)"
  have c: "\<not> (?b = [] \<or> 8 < length ?b \<or> 3 < length ?e)" "\<not> (list_ex short_bad (map fat32_to_upper ?b) \<or> list_ex short_bad (map fat32_to_upper ?e))"
    "sn = pad_name (map fat32_to_upper ?b) (map fat32_to_upper ?e)"
    using assms by (auto simp: fat32_build_short_name_def Let_def split: if_splits)
  then have "32 \<notin> set (map fat32_to_upper ?b)" "32 \<notin> set (map fat32_to_upper ?e)" by (auto simp: list_ex_iff short_bad_def)
  with c that show thesis by auto
qed

lemma short_name_of_pad:
  assumes "length base \<le> 8" "length ext \<le> 3" "32 \<notin> set base" "32 \<notin> set ext" "0 < length base" "base ! 0 \<noteq> 0x05"
  shows "fat32_short_name_to_string (pad_name base ext) 13 = (if ext = [] then base else base @ 46 # ext)"
proof -
  have tw: "takeWhile (\<lambda>c. c \<noteq> 32) (xs @ replicate k 32) = xs" if "32 \<notin> set xs" for xs :: "u8 list" and k
    using that by (subst takeWhile_append2) (auto simp: takeWhile_replicate)
  have l: "length (pad_name base ext) = 11" using assms(1,2) by (simp add: pad_name_def)
  have t8: "take 8 (pad_name base ext) = base @ replicate (8 - length base) 32" "drop 8 (pad_name base ext) = ext @ replicate (3 - length ext) 32"
    using assms(1) by (simp_all add: pad_name_def)
  have "pad_name base ext ! 0 \<noteq> 0x05" using assms(5,6) by (simp add: pad_name_def nth_append)
  then show ?thesis using assms(1,2) l t8 tw [OF assms(3)] tw [OF assms(4)]
    by (cases "ext = []") (simp_all add: fat32_short_name_to_string_def Let_def)
qed

text \<open>A name that \<open>fat32_build_short_name\<close> accepts is stored in exactly eleven bytes, and reading these bytes back gives the
  name in capital letters, unless the name ends with a dot, which is dropped.\<close>

theorem short_names_read_back:
  assumes "fat32_build_short_name name = Some sn" "name ! 0 \<noteq> 0x05"
  shows "length sn = 11 \<and> fat32_short_name_to_string sn 13 =
    map fat32_to_upper (if last name = 46 then butlast name else name)"
proof -
  obtain base ext where p: "sn = pad_name base ext" "0 < length base" "length base \<le> 8" "length ext \<le> 3" "32 \<notin> set base" "32 \<notin> set ext"
    "base = map fat32_to_upper (takeWhile (\<lambda>c. c \<noteq> 46) name)" "ext = map fat32_to_upper (drop 1 (dropWhile (\<lambda>c. c \<noteq> 46) name))"
    using build_short_name_parts [OF assms(1)] .
  let ?b = "takeWhile (\<lambda>c. c \<noteq> 46) name" and ?d = "dropWhile (\<lambda>c. c \<noteq> 46) name"
  have "?b ! 0 = name ! 0" using p(2,7) by (simp add: takeWhile_nth)
  moreover have "fat32_to_upper c \<noteq> 5" if "c \<noteq> 5" for c
  proof (cases "97 \<le> c \<and> c \<le> 122")
    case True
    then have "unat (c - 32) = unat c - 32" by (simp add: unat_sub word_le_nat_alt)
    then have "c - 32 \<noteq> 5" using True by (auto simp: word_unat_eq_iff word_le_nat_alt)
    with True show ?thesis by (simp add: fat32_to_upper_def)
  qed (use that in \<open>auto simp: fat32_to_upper_def\<close>)
  ultimately have "base ! 0 \<noteq> 5" using assms(2) p(2,7) by simp
  then have s: "fat32_short_name_to_string sn 13 = (if ext = [] then base else base @ 46 # ext)"
    using short_name_of_pad [OF p(3-6) p(2)] p(1) by simp
  have len: "length sn = 11" using p(1,3,4) by (simp add: pad_name_def)
  have u46: "fat32_to_upper 46 = 46" by (simp add: fat32_to_upper_def)
  have split: "name = ?b @ ?d" by simp
  show ?thesis
  proof (cases "?d = []")
    case True
    then have b: "?b = name" using split by (metis append_Nil2)
    then have "last name \<noteq> 46" using p(2,7) by (metis (mono_tags) last_in_set length_greater_0_conv list.map_disc_iff set_takeWhileD)
    moreover have "base = map fat32_to_upper name" "ext = []" using p(7,8) b True by simp_all
    ultimately show ?thesis using s len by simp
  next
    case False
    then obtain e where d: "?d = 46 # e" by (metis (mono_tags) hd_dropWhile list.collapse)
    then have n: "name = ?b @ 46 # e" using split by simp
    have ext: "ext = map fat32_to_upper e" using p(8) d by simp
    show ?thesis
    proof (cases "e = []")
      case True
      have bl: "butlast name = ?b" "last name = 46" by (subst n, simp add: True)+
      show ?thesis unfolding s using ext True bl len p(7) by simp
    next
      case False
      have "46 \<notin> set ext" using assms(1) ext d by (auto simp: fat32_build_short_name_def Let_def list_ex_iff short_bad_def split: if_splits)
      then have "last name \<noteq> 46" using False ext u46 by (subst n) (auto simp: image_iff dest!: last_in_set)
      moreover have "map fat32_to_upper name = base @ 46 # ext" unfolding ext p(7) by (subst n) (simp add: u46)
      ultimately show ?thesis using s ext False len by simp
    qed
  qed
qed

theorem short_names_read_back_witness:
  "fat32_build_short_name [114, 101, 97, 100, 46, 109, 101] = Some [82, 69, 65, 68, 32, 32, 32, 32, 77, 69, 32] \<and>
   fat32_short_name_to_string [82, 69, 65, 68, 32, 32, 32, 32, 77, 69, 32] 13 = [82, 69, 65, 68, 46, 77, 69]"
proof -
  have b: "fat32_build_short_name [114, 101, 97, 100, 46, 109, 101] = Some [82, 69, 65, 68, 32, 32, 32, 32, 77, 69, 32]" by code_simp
  have u: "map fat32_to_upper [114, 101, 97, 100, 46, 109, 101] = [82, 69, 65, 68, 46, 77, 69]" by code_simp
  show ?thesis using short_names_read_back [OF b] b u by simp
qed

end
