(* ===== verification/Fat32.thy ===== *)
theory Fat32
  imports Fat32_Names Heap
begin

unbundle bit_operations_syntax

text \<open>
  The FAT32 file system, \<^verbatim>\<open>src/kernel/fat32.cpp\<close>: mounting, the table of clusters, the walk over directories, open files, and
  creating and removing entries. The static variables of the file are the record \<open>fat32\<close>, together with the heap that the buffers
  come from and the block devices below. The table of clusters in memory (\<open>fat\<close>) is the contents of the block that \<open>fi_fat_table\<close> points to; an index
  outside of it has no result. The other buffers are values: they are filled completely before they are read, and freed before the
  function returns.
\<close>

subsection \<open>State\<close>

record fat32_fs =
  fi_device_id :: u8
  fi_bytes_per_sector :: u32
  fi_sectors_per_cluster :: u32
  fi_reserved_sectors :: u32
  fi_num_fats :: u32
  fi_fat_size :: u32
  fi_root_cluster :: u32
  fi_data_start_sector :: u32
  fi_fat_start_sector :: u32
  fi_total_clusters :: u32
  fi_fat_table :: addr

record fat32_file =
  ff_start_cluster :: u32
  ff_current_cluster :: u32
  ff_file_size :: u32
  ff_position :: u32
  ff_cluster_position :: u32
  ff_last_cluster :: u32
  ff_dir_cluster :: u32
  ff_dir_entry_cluster :: u32
  ff_dir_entry_index :: u32
  ff_in_use :: bool

record 'd fat32 =
  fs_info :: fat32_fs
  open_files :: "fat32_file list"
  mounted :: bool
  fat :: "u32 list"
  fheap :: heap
  blk :: "'d blockdev"

definition FAT32_END_CLUSTER :: u32 where "FAT32_END_CLUSTER = 0x0FFFFFFF"

definition FAT32_FREE_CLUSTER :: u32 where "FAT32_FREE_CLUSTER = 0"

definition FAT32_MAX_PATH :: nat where "FAT32_MAX_PATH = 256"

definition FAT32_MAX_OPEN_FILES :: nat where "FAT32_MAX_OPEN_FILES = 16"

definition cluster_size :: "'d fat32 \<Rightarrow> u32" where
  "cluster_size s = fi_sectors_per_cluster (fs_info s) * fi_bytes_per_sector (fs_info s)"

text \<open>A buffer from the heap around a computation: without memory the result is the given one; every path frees the buffer.\<close>

definition with_buffer :: "u32 \<Rightarrow> 'a \<Rightarrow> ('d fat32 \<Rightarrow> ('a \<times> 'd fat32) option) \<Rightarrow> 'd fat32 \<Rightarrow> ('a \<times> 'd fat32) option" where
  "with_buffer sz failed body s = do {
     (p, h) \<leftarrow> kmalloc (fheap s) sz;
     if p = 0 then Some (failed, s\<lparr>fheap := h\<rparr>)
     else do {
       (r, s) \<leftarrow> body (s\<lparr>fheap := h\<rparr>);
       Some (r, s\<lparr>fheap := kfree (fheap s) p\<rparr>)
     }
   }"

definition fat_get :: "'d fat32 \<Rightarrow> u32 \<Rightarrow> u32 option" where
  "fat_get s i = (if unat i < length (fat s) then Some (fat s ! unat i) else None)"

definition fat_put :: "u32 \<Rightarrow> u32 \<Rightarrow> 'd fat32 \<Rightarrow> 'd fat32 option" where
  "fat_put i x s = (if unat i < length (fat s) then Some (s\<lparr>fat := (fat s)[unat i := x]\<rparr>) else None)"

text \<open>Storing bytes into a buffer at an offset.\<close>

definition put_bytes :: "nat \<Rightarrow> u8 list \<Rightarrow> u8 list \<Rightarrow> u8 list option" where
  "put_bytes off bs buf = (if off + length bs \<le> length buf then Some (take off buf @ bs @ drop (off + length bs) buf) else None)"

definition is_data_cluster :: "u32 \<Rightarrow> bool" where
  "is_data_cluster c \<longleftrightarrow> 2 \<le> c \<and> c < FAT32_END_CLUSTER"


subsection \<open>Mounting\<close>

definition no_fs :: fat32_fs where
  "no_fs = \<lparr>fi_device_id = 0, fi_bytes_per_sector = 0, fi_sectors_per_cluster = 0, fi_reserved_sectors = 0, fi_num_fats = 0,
     fi_fat_size = 0, fi_root_cluster = 0, fi_data_start_sector = 0, fi_fat_start_sector = 0, fi_total_clusters = 0, fi_fat_table = 0\<rparr>"

definition no_file :: fat32_file where
  "no_file = \<lparr>ff_start_cluster = 0, ff_current_cluster = 0, ff_file_size = 0, ff_position = 0, ff_cluster_position = 0, ff_last_cluster = 0,
     ff_dir_cluster = 0, ff_dir_entry_cluster = 0, ff_dir_entry_index = 0, ff_in_use = False\<rparr>"

definition fat32_init :: "'d fat32 \<Rightarrow> int \<times> 'd fat32" where
  "fat32_init s = (0, s\<lparr>fs_info := no_fs, open_files := replicate FAT32_MAX_OPEN_FILES no_file, mounted := False, fat := []\<rparr>)"

text \<open>Fields of the boot sector by their offsets in \<open>fat32_boot_sector_t\<close>.\<close>

definition boot16 :: "u8 list \<Rightarrow> nat \<Rightarrow> u16" where "boot16 b i = ucast (b ! i) OR push_bit 8 (ucast (b ! (i + 1)))"

definition boot32 :: "u8 list \<Rightarrow> nat \<Rightarrow> u32" where "boot32 b i = word32 (take 4 (drop i b))"

definition fat32_validate_boot_sector :: "u8 list \<Rightarrow> int" where
  "fat32_validate_boot_sector b =
     (if boot16 b 510 \<noteq> 0xAA55 then -1
      else if boot16 b 22 \<noteq> 0 then -1
      else if boot32 b 36 = 0 then -1
      else if boot16 b 11 \<noteq> 512 then -1
      else 0)"

text \<open>The geometry that mounting computes; the division by the sectors per cluster traps when these are zero.\<close>

definition boot_info :: "u8 \<Rightarrow> u8 list \<Rightarrow> addr \<Rightarrow> fat32_fs option" where
  "boot_info device_id b table =
     (let reserved = ucast (boot16 b 14); fats = ucast (b ! 16); fat_sz = boot32 b 36; spc = ucast (b ! 13);
          data_start = reserved + fats * fat_sz
      in if spc = 0 then None
         else Some \<lparr>fi_device_id = device_id, fi_bytes_per_sector = ucast (boot16 b 11), fi_sectors_per_cluster = spc,
           fi_reserved_sectors = reserved, fi_num_fats = fats, fi_fat_size = fat_sz, fi_root_cluster = boot32 b 44,
           fi_data_start_sector = data_start, fi_fat_start_sector = reserved,
           fi_total_clusters = (boot32 b 32 - data_start) div spc, fi_fat_table = table\<rparr>)"

text \<open>The words of a table in memory.\<close>

definition fat_words :: "u8 list \<Rightarrow> u32 list" where
  "fat_words bs = map word32 (chunks 4 (length bs div 4) bs)"

definition heap_bytes :: "heap \<Rightarrow> addr \<Rightarrow> nat \<Rightarrow> u8 list" where
  "heap_bytes h p n = map (\<lambda>i. hmem h (p + of_nat i)) [0..<n]"

definition fat32_mount :: "'d ports \<Rightarrow> u8 \<Rightarrow> 'd fat32 \<Rightarrow> (int \<times> 'd fat32) option" where
  "fat32_mount P device_id s =
     (if mounted s then Some (-1, s)
      else let (r, boot, d) = blockdev_read P device_id 0 1 (blk s); s = s\<lparr>blk := d\<rparr> in
        if r \<noteq> 0 then Some (-1, s)
        else if fat32_validate_boot_sector boot \<noteq> 0 then Some (-1, s)
        else do {
          info \<leftarrow> boot_info device_id boot (fi_fat_table (fs_info s));
          let fat_bytes = fi_fat_size info * fi_bytes_per_sector info;
          (p, h) \<leftarrow> kmalloc (fheap s) fat_bytes;
          let s = s\<lparr>fs_info := info\<lparr>fi_fat_table := p\<rparr>, fheap := h, fat := []\<rparr>;
          if p = 0 then Some (-1, s)
          else let (r, table, d) = blockdev_read P device_id (fi_fat_start_sector info) (ucast (fi_fat_size info)) (blk s);
                 s = s\<lparr>blk := d\<rparr>
            in if unat fat_bytes < length table then None
            else if r \<noteq> 0 then Some (-1, s\<lparr>fheap := kfree (fheap s) p\<rparr>)
            else Some (0, s\<lparr>fat := fat_words (table @ drop (length table) (heap_bytes h p (unat fat_bytes))), mounted := True\<rparr>)
        })"

definition fat32_unmount :: "'d fat32 \<Rightarrow> int \<times> 'd fat32" where
  "fat32_unmount s =
     (if \<not> mounted s then (-1, s)
      else let s = (if fi_fat_table (fs_info s) \<noteq> 0
             then s\<lparr>fheap := kfree (fheap s) (fi_fat_table (fs_info s)), fs_info := (fs_info s)\<lparr>fi_fat_table := 0\<rparr>, fat := []\<rparr> else s)
        in (0, s\<lparr>mounted := False\<rparr>))"

subsection \<open>Clusters\<close>

definition fat32_cluster_to_sector :: "'d fat32 \<Rightarrow> u32 \<Rightarrow> u32" where
  "fat32_cluster_to_sector s cluster =
     (if cluster < 2 then 0 else fi_data_start_sector (fs_info s) + (cluster - 2) * fi_sectors_per_cluster (fs_info s))"

definition fat32_get_next_cluster :: "'d fat32 \<Rightarrow> u32 \<Rightarrow> u32 option" where
  "fat32_get_next_cluster s cluster =
     (if \<not> mounted s \<or> fi_fat_table (fs_info s) = 0 then Some FAT32_END_CLUSTER
      else if cluster \<ge> fi_total_clusters (fs_info s) then Some FAT32_END_CLUSTER
      else do { x \<leftarrow> fat_get s cluster; Some (x AND 0x0FFFFFFF) })"

definition fat32_read_cluster :: "'d ports \<Rightarrow> u32 \<Rightarrow> 'd fat32 \<Rightarrow> int \<times> u8 list \<times> 'd fat32" where
  "fat32_read_cluster P cluster s =
     (if \<not> mounted s then (-1, [], s)
      else let sector = fat32_cluster_to_sector s cluster in
        if sector = 0 then (-1, [], s)
        else let (r, bs, d) = blockdev_read P (fi_device_id (fs_info s)) sector (ucast (fi_sectors_per_cluster (fs_info s))) (blk s)
          in (r, bs, s\<lparr>blk := d\<rparr>))"

definition fat32_write_cluster :: "'d ports \<Rightarrow> u32 \<Rightarrow> u8 list \<Rightarrow> 'd fat32 \<Rightarrow> (int \<times> 'd fat32) option" where
  "fat32_write_cluster P cluster buffer s =
     (if \<not> mounted s then Some (-1, s)
      else let sector = fat32_cluster_to_sector s cluster in
        if sector = 0 then Some (-1, s)
        else do {
          (r, d) \<leftarrow> blockdev_write P (fi_device_id (fs_info s)) sector (ucast (fi_sectors_per_cluster (fs_info s))) buffer (blk s);
          Some (r, s\<lparr>blk := d\<rparr>)
        })"

fun flush_copies :: "'d ports \<Rightarrow> u8 list \<Rightarrow> nat list \<Rightarrow> 'd fat32 \<Rightarrow> (int \<times> 'd fat32) option" where
  "flush_copies P fat_bytes [] s = Some (0, s)"
| "flush_copies P fat_bytes (copy # copies) s = do {
     (r, d) \<leftarrow> blockdev_write P (fi_device_id (fs_info s)) (fi_fat_start_sector (fs_info s) + of_nat copy * fi_fat_size (fs_info s))
       (ucast (fi_fat_size (fs_info s))) fat_bytes (blk s);
     let s = s\<lparr>blk := d\<rparr>;
     if r \<noteq> 0 then Some (-1, s) else flush_copies P fat_bytes copies s
   }"

definition fat_image :: "u32 list \<Rightarrow> u8 list" where
  "fat_image table = concat (map bytes32 table)"

definition fat32_flush_fat :: "'d ports \<Rightarrow> 'd fat32 \<Rightarrow> (int \<times> 'd fat32) option" where
  "fat32_flush_fat P s =
     (if \<not> mounted s \<or> fi_fat_table (fs_info s) = 0 then Some (-1, s)
      else flush_copies P (fat_image (fat s)) [0..<unat (fi_num_fats (fs_info s))] s)"

partial_function (option) last_loop :: "'d fat32 \<Rightarrow> u32 \<Rightarrow> u32 option" where
  "last_loop s cluster = do {
     x \<leftarrow> fat_get s cluster;
     let following = x AND 0x0FFFFFFF;
     if \<not> is_data_cluster following then Some cluster else last_loop s following
   }"

definition fat32_get_last_cluster :: "'d fat32 \<Rightarrow> u32 \<Rightarrow> u32 option" where
  "fat32_get_last_cluster s start_cluster =
     (if \<not> is_data_cluster start_cluster then Some start_cluster else last_loop s start_cluster)"

text \<open>The search for a free cluster; the inner \<open>None\<close> says that there is none.\<close>

fun find_free :: "u32 list \<Rightarrow> nat list \<Rightarrow> nat option option" where
  "find_free table [] = Some None"
| "find_free table (c # cs) =
     (if c \<ge> length table then None
      else if table ! c AND 0x0FFFFFFF = FAT32_FREE_CLUSTER then Some (Some c)
      else find_free table cs)"

text \<open>Taking a free cluster: marking it, linking it to the one before, and clearing it on the disk.\<close>

definition take_cluster :: "'d ports \<Rightarrow> u32 \<Rightarrow> u32 \<Rightarrow> 'd fat32 \<Rightarrow> (int \<times> 'd fat32) option" where
  "take_cluster P previous_cluster cluster s = do {
     s \<leftarrow> fat_put cluster FAT32_END_CLUSTER s;
     s \<leftarrow> (if is_data_cluster previous_cluster
        then do { x \<leftarrow> fat_get s previous_cluster; fat_put previous_cluster (x AND 0xF0000000 OR cluster) s }
        else Some s);
     (r, s) \<leftarrow> fat32_write_cluster P cluster (replicate (unat (cluster_size s)) 0) s;
     if r \<noteq> 0 then do { s \<leftarrow> fat_put cluster FAT32_FREE_CLUSTER s; Some (-1, s) }
     else Some (0, s)
   }"

definition fat32_allocate_cluster :: "'d ports \<Rightarrow> u32 \<Rightarrow> 'd fat32 \<Rightarrow> (u32 \<times> 'd fat32) option" where
  "fat32_allocate_cluster P previous_cluster s = do {
     (cluster, s) \<leftarrow> with_buffer (cluster_size s) 0 (\<lambda>s. do {
       found \<leftarrow> find_free (fat s) [2..<unat (fi_total_clusters (fs_info s))];
       case found of None \<Rightarrow> Some (0, s)
       | Some c \<Rightarrow> do { (r, s) \<leftarrow> take_cluster P previous_cluster (of_nat c) s; Some (if r \<noteq> 0 then 0 else of_nat c, s) }
     }) s;
     if cluster = 0 then Some (0, s)
     else do { (r, s) \<leftarrow> fat32_flush_fat P s; Some (if r \<noteq> 0 then 0 else cluster, s) }
   }"

partial_function (option) free_loop :: "u32 \<Rightarrow> 'd fat32 \<Rightarrow> 'd fat32 option" where
  "free_loop cluster s =
     (if is_data_cluster cluster
      then do {
        x \<leftarrow> fat_get s cluster;
        s \<leftarrow> fat_put cluster FAT32_FREE_CLUSTER s;
        free_loop (x AND 0x0FFFFFFF) s
      }
      else Some s)"

definition fat32_free_cluster_chain :: "'d ports \<Rightarrow> u32 \<Rightarrow> 'd fat32 \<Rightarrow> 'd fat32 option" where
  "fat32_free_cluster_chain P start_cluster s =
     (if \<not> is_data_cluster start_cluster then Some s
      else do { s \<leftarrow> free_loop start_cluster s; (_, s) \<leftarrow> fat32_flush_fat P s; Some s })"


subsection \<open>The walk over a directory\<close>

type_synonym 'c dir_callback = "u8 list \<Rightarrow> file_info \<Rightarrow> u32 \<Rightarrow> u32 \<Rightarrow> 'c \<Rightarrow> int \<times> 'c"

text \<open>One entry: \<open>Inl\<close> leaves the walk with a result, \<open>Inr\<close> goes on.\<close>

definition scan_entry :: "'c dir_callback \<Rightarrow> u32 \<Rightarrow> u32 \<Rightarrow> u8 list \<Rightarrow> lfn_state \<times> 'c \<Rightarrow> (int \<times> 'c) + (lfn_state \<times> 'c)" where
  "scan_entry callback cluster index e st =
     (let (l, ctx) = st; first_byte = e ! 0 in
      if first_byte = 0 then Inl (0, ctx)
      else if first_byte = 0xE5 then Inr (reset_lfn l, ctx)
      else if e_attributes e AND FAT32_ATTR_LONG_NAME = FAT32_ATTR_LONG_NAME then Inr (collect_lfn e l, ctx)
      else if e_attributes e AND FAT32_ATTR_VOLUME_ID \<noteq> 0 then Inr (reset_lfn l, ctx)
      else let (r, ctx) = callback e (entry_info e l) cluster index ctx
        in if r > 0 then Inl (0, ctx) else if r < 0 then Inl (r, ctx) else Inr (reset_lfn l, ctx))"

definition entry_at :: "u8 list \<Rightarrow> nat \<Rightarrow> u8 list" where
  "entry_at buffer i = take 32 (drop (32 * i) buffer)"

fun scan_cluster :: "'c dir_callback \<Rightarrow> u32 \<Rightarrow> u8 list \<Rightarrow> nat list \<Rightarrow> lfn_state \<times> 'c \<Rightarrow> (int \<times> 'c) + (lfn_state \<times> 'c)" where
  "scan_cluster callback cluster buffer [] st = Inr st"
| "scan_cluster callback cluster buffer (i # is) st =
     (case scan_entry callback cluster (of_nat i) (entry_at buffer i) st of
        Inl r \<Rightarrow> Inl r
      | Inr st \<Rightarrow> scan_cluster callback cluster buffer is st)"

definition entries_per_cluster :: "'d fat32 \<Rightarrow> nat" where
  "entries_per_cluster s = unat (cluster_size s) div 32"

partial_function (option) iterate_loop ::
  "'d ports \<Rightarrow> 'c dir_callback \<Rightarrow> u32 \<Rightarrow> lfn_state \<times> 'c \<Rightarrow> 'd fat32 \<Rightarrow> ((int \<times> 'c) \<times> 'd fat32) option" where
  "iterate_loop P callback cluster st s =
     (if is_data_cluster cluster
      then let (r, buffer, s) = fat32_read_cluster P cluster s in
        if r \<noteq> 0 then Some ((-1, snd st), s)
        else (case scan_cluster callback cluster buffer [0..<entries_per_cluster s] st of
            Inl r \<Rightarrow> Some (r, s)
          | Inr st \<Rightarrow> do {
              following \<leftarrow> fat32_get_next_cluster s cluster;
              if \<not> is_data_cluster following then Some ((0, snd st), s)
              else iterate_loop P callback following st s
            })
      else Some ((0, snd st), s))"

definition fat32_iterate_directory ::
  "'d ports \<Rightarrow> u32 \<Rightarrow> 'c dir_callback \<Rightarrow> 'c \<Rightarrow> 'd fat32 \<Rightarrow> ((int \<times> 'c) \<times> 'd fat32) option" where
  "fat32_iterate_directory P dir_cluster callback ctx s =
     with_buffer (cluster_size s) (-1, ctx) (iterate_loop P callback dir_cluster (lfn_start, ctx)) s"

definition exists_callback :: "u8 list \<Rightarrow> bool dir_callback" where
  "exists_callback needle e info cluster index found = (if take 11 e = needle then (1, True) else (0, found))"

definition fat32_short_name_exists :: "'d ports \<Rightarrow> u32 \<Rightarrow> u8 list \<Rightarrow> 'd fat32 \<Rightarrow> (int \<times> 'd fat32) option" where
  "fat32_short_name_exists P dir_cluster short_name s = do {
     ((r, found), s) \<leftarrow> fat32_iterate_directory P dir_cluster (exists_callback short_name) False s;
     Some (if r < 0 then -1 else if found then 1 else 0, s)
   }"

text \<open>Aliases with growing numbers until one is not used in the directory; the inner \<open>None\<close> is the result -1.\<close>

fun generate_loop :: "'d ports \<Rightarrow> u32 \<Rightarrow> u8 list \<Rightarrow> u8 list \<Rightarrow> nat list \<Rightarrow> 'd fat32 \<Rightarrow> (u8 list option \<times> 'd fat32) option" where
  "generate_loop P dir_cluster base ext [] s = Some (None, s)"
| "generate_loop P dir_cluster base ext (suffix # suffixes) s =
     (if fat32_count_digits suffix \<ge> 7 then Some (None, s)
      else do {
        (found, s) \<leftarrow> fat32_short_name_exists P dir_cluster (short_alias base ext suffix) s;
        if found < 0 then Some (None, s)
        else if found = 0 then Some (Some (short_alias base ext suffix), s)
        else generate_loop P dir_cluster base ext suffixes s
      })"

definition fat32_generate_unique_short_name :: "'d ports \<Rightarrow> u32 \<Rightarrow> u8 list \<Rightarrow> 'd fat32 \<Rightarrow> (u8 list option \<times> 'd fat32) option" where
  "fat32_generate_unique_short_name P dir_cluster name s =
     (let (base_raw, ext_raw) = fat32_extract_base_ext name 256 256;
          base = fat32_sanitize_component base_raw 255;
          ext = fat32_sanitize_component ext_raw 3;
          base = (if base = [] then [70, 73, 76, 69] else base)
      in generate_loop P dir_cluster base (take 3 ext) [1..<1000000] s)"

definition fat32_prepare_short_name :: "'d ports \<Rightarrow> u32 \<Rightarrow> u8 list \<Rightarrow> 'd fat32 \<Rightarrow> ((u8 list \<times> bool) option \<times> 'd fat32) option" where
  "fat32_prepare_short_name P dir_cluster name s =
     (case fat32_build_short_name name of
        Some candidate \<Rightarrow> do {
          let lfn_required = (c_string (fat32_short_name_to_string candidate 13) \<noteq> name);
          (found, s) \<leftarrow> fat32_short_name_exists P dir_cluster candidate s;
          if found < 0 then Some (None, s)
          else if found \<noteq> 0
            then do {
              (alias, s) \<leftarrow> fat32_generate_unique_short_name P dir_cluster name s;
              Some (map_option (\<lambda>a. (a, True)) alias, s)
            }
            else Some (Some (candidate, lfn_required), s)
        }
      | None \<Rightarrow> do {
          (alias, s) \<leftarrow> fat32_generate_unique_short_name P dir_cluster name s;
          Some (map_option (\<lambda>a. (a, True)) alias, s)
        })"

definition find_callback :: "u8 list \<Rightarrow> (file_info \<times> u32 \<times> u32) option dir_callback" where
  "find_callback target e info cluster index found =
     (if fat32_casecmp (i_filename info) target = 0 \<or> fat32_casecmp (i_short_name info) target = 0
      then (1, Some (info, cluster, index)) else (0, found))"

definition fat32_find_entry_in_directory ::
  "'d ports \<Rightarrow> u32 \<Rightarrow> u8 list \<Rightarrow> 'd fat32 \<Rightarrow> ((file_info \<times> u32 \<times> u32) option \<times> 'd fat32) option" where
  "fat32_find_entry_in_directory P dir_cluster name s =
     (if \<not> mounted s \<or> name = [] then Some (None, s)
      else do {
        ((r, found), s) \<leftarrow> fat32_iterate_directory P dir_cluster (find_callback name) None s;
        Some (if r < 0 then None else found, s)
      })"

record lookup =
  lk_info :: file_info
  lk_parent :: u32
  lk_cluster :: u32
  lk_index :: u32

lemma after_component:
  assumes "dropWhile P cursor \<noteq> []"
  shows "length (drop 1 (dropWhile Q (dropWhile P cursor))) < length cursor"
proof -
  have "length (dropWhile Q (dropWhile P cursor)) \<le> length cursor" using length_dropWhile_le le_trans by blast
  moreover have "cursor \<noteq> []" using assms by auto
  ultimately show ?thesis by (cases cursor) auto
qed

function lookup_loop :: "'d ports \<Rightarrow> u8 list \<Rightarrow> u32 \<Rightarrow> lookup option \<Rightarrow> 'd fat32 \<Rightarrow> (lookup option \<times> 'd fat32) option" where
  "lookup_loop P cursor current_dir last_entry s =
     (let cursor = dropWhile (\<lambda>c. c = 47) cursor in
      if cursor = [] then Some (last_entry, s)
      else let component = takeWhile (\<lambda>c. c \<noteq> 47) cursor; slash = dropWhile (\<lambda>c. c \<noteq> 47) cursor in
        if FAT32_MAX_FILENAME < length component then Some (None, s)
        else if component = [46] then lookup_loop P (drop 1 slash) current_dir last_entry s
        else if component = [46, 46] then Some (None, s)
        else case fat32_find_entry_in_directory P current_dir component s of
            None \<Rightarrow> None
          | Some (None, s) \<Rightarrow> Some (None, s)
          | Some (Some (info, cluster, index), s) \<Rightarrow>
              let found = \<lparr>lk_info = info, lk_parent = current_dir, lk_cluster = cluster, lk_index = index\<rparr> in
              if slash = [] then Some (Some found, s)
              else if i_attributes info AND FAT32_ATTR_DIRECTORY = 0 then Some (None, s)
              else lookup_loop P (drop 1 slash) (i_cluster info) (Some found) s)"
  by auto
termination by (relation "measure (\<lambda>(P, cursor, d, l, s). length cursor)") (auto simp only: in_measure prod.case intro!: after_component wf_measure)

declare lookup_loop.simps [simp del]

definition root_info :: "'d fat32 \<Rightarrow> file_info" where
  "root_info s = \<lparr>i_filename = [47], i_short_name = [], i_has_long_name = False, i_attributes = FAT32_ATTR_DIRECTORY, i_size = 0,
     i_cluster = fi_root_cluster (fs_info s)\<rparr>"

definition fat32_lookup_path :: "'d ports \<Rightarrow> u8 list \<Rightarrow> 'd fat32 \<Rightarrow> (lookup option \<times> 'd fat32) option" where
  "fat32_lookup_path P path s =
     (if \<not> mounted s then Some (None, s)
      else if path = [] \<or> path = [47]
        then Some (Some \<lparr>lk_info = root_info s, lk_parent = fi_root_cluster (fs_info s), lk_cluster = fi_root_cluster (fs_info s), lk_index = 0\<rparr>, s)
      else let working_path = take (FAT32_MAX_PATH - 1) path in
        lookup_loop P (if working_path ! 0 = 47 then drop 1 working_path else working_path) (fi_root_cluster (fs_info s)) None s)"

text \<open>The listing stops when \<open>max_files\<close> entries other than \<open>.\<close> and \<open>..\<close> have been stored.\<close>

definition list_callback :: "int \<Rightarrow> file_info list dir_callback" where
  "list_callback max_files e info cluster index files =
     (if i_filename info = [46] \<or> i_filename info = [46, 46] then (0, files)
      else if int (length files) \<ge> max_files then (1, files)
      else (0, files @ [info]))"

definition fat32_list_directory :: "'d ports \<Rightarrow> u32 \<Rightarrow> int \<Rightarrow> 'd fat32 \<Rightarrow> ((int \<times> file_info list) \<times> 'd fat32) option" where
  "fat32_list_directory P dir_cluster max_files s =
     (if \<not> mounted s then Some ((-1, []), s)
      else do {
        ((r, files), s) \<leftarrow> fat32_iterate_directory P dir_cluster (list_callback max_files) [] s;
        Some ((if r < 0 then -1 else int (length files), files), s)
      })"

definition fat32_find_file :: "'d ports \<Rightarrow> u32 \<Rightarrow> u8 list \<Rightarrow> 'd fat32 \<Rightarrow> (u32 \<times> 'd fat32) option" where
  "fat32_find_file P dir_cluster filename s =
     (if \<not> mounted s then Some (0, s)
      else do {
        (found, s) \<leftarrow> fat32_find_entry_in_directory P dir_cluster filename s;
        Some (case found of None \<Rightarrow> 0 | Some (info, _, _) \<Rightarrow> i_cluster info, s)
      })"

definition fat32_find_file_by_path :: "'d ports \<Rightarrow> u8 list \<Rightarrow> 'd fat32 \<Rightarrow> (u32 \<times> 'd fat32) option" where
  "fat32_find_file_by_path P path s =
     (if \<not> mounted s then Some (0, s)
      else do {
        (found, s) \<leftarrow> fat32_lookup_path P path s;
        Some (case found of None \<Rightarrow> 0 | Some r \<Rightarrow> i_cluster (lk_info r), s)
      })"

definition fat32_get_fs_info :: "'d fat32 \<Rightarrow> int" where
  "fat32_get_fs_info s = (if \<not> mounted s then -1 else 0)"

definition fat32_get_root_cluster :: "'d fat32 \<Rightarrow> u32" where
  "fat32_get_root_cluster s = (if \<not> mounted s then 0 else fi_root_cluster (fs_info s))"


subsection \<open>Open files\<close>

fun free_fd :: "fat32_file list \<Rightarrow> nat list \<Rightarrow> nat option" where
  "free_fd files [] = None"
| "free_fd files (fd # fds) = (if \<not> ff_in_use (files ! fd) then Some fd else free_fd files fds)"

definition upd_file :: "nat \<Rightarrow> (fat32_file \<Rightarrow> fat32_file) \<Rightarrow> 'd fat32 \<Rightarrow> 'd fat32" where
  "upd_file fd f s = s\<lparr>open_files := (open_files s)[fd := f (open_files s ! fd)]\<rparr>"

definition fat32_open :: "'d ports \<Rightarrow> u8 list \<Rightarrow> 'd fat32 \<Rightarrow> (int \<times> 'd fat32) option" where
  "fat32_open P path s =
     (if \<not> mounted s then Some (-1, s)
      else do {
        (found, s) \<leftarrow> fat32_lookup_path P path s;
        case found of None \<Rightarrow> Some (-1, s)
        | Some r \<Rightarrow>
            if i_attributes (lk_info r) AND FAT32_ATTR_DIRECTORY \<noteq> 0 then Some (-1, s)
            else (case free_fd (open_files s) [0..<FAT32_MAX_OPEN_FILES] of
                None \<Rightarrow> Some (-1, s)
              | Some fd \<Rightarrow> do {
                  let file_cluster = i_cluster (lk_info r);
                  last \<leftarrow> (if is_data_cluster file_cluster then fat32_get_last_cluster s file_cluster else Some file_cluster);
                  Some (int fd, upd_file fd (\<lambda>_. \<lparr>ff_start_cluster = file_cluster, ff_current_cluster = file_cluster,
                    ff_file_size = i_size (lk_info r), ff_position = 0, ff_cluster_position = 0, ff_last_cluster = last,
                    ff_dir_cluster = lk_parent r, ff_dir_entry_cluster = lk_cluster r, ff_dir_entry_index = lk_index r, ff_in_use = True\<rparr>) s)
                })
      })"

definition fd_ok :: "int \<Rightarrow> 'd fat32 \<Rightarrow> bool" where
  "fd_ok fd s \<longleftrightarrow> 0 \<le> fd \<and> fd < int FAT32_MAX_OPEN_FILES \<and> ff_in_use (open_files s ! nat fd)"

text \<open>How much of what is wanted fits into the rest of the cluster.\<close>

definition piece_size :: "u32 \<Rightarrow> u32 \<Rightarrow> u32" where
  "piece_size wanted available = (if wanted < available then wanted else available)"

text \<open>Moving on by the bytes that were read, to the next cluster when the current one is used up.\<close>

definition read_advance :: "'d fat32 \<Rightarrow> u32 \<Rightarrow> fat32_file \<Rightarrow> fat32_file option" where
  "read_advance s n file =
     (let file = file\<lparr>ff_position := ff_position file + n, ff_cluster_position := ff_cluster_position file + n\<rparr> in
      if ff_cluster_position file \<ge> cluster_size s
      then do { following \<leftarrow> fat32_get_next_cluster s (ff_current_cluster file);
                Some (file\<lparr>ff_current_cluster := following, ff_cluster_position := 0\<rparr>) }
      else Some file)"

text \<open>The loop of \<open>fat32_read\<close>: the result is \<open>None\<close> inside when a cluster cannot be read, and the bytes that were copied otherwise.\<close>

partial_function (option) read_loop :: "'d ports \<Rightarrow> nat \<Rightarrow> u32 \<Rightarrow> u8 list \<Rightarrow> 'd fat32 \<Rightarrow> (u8 list option \<times> 'd fat32) option" where
  "read_loop P fd sz dest s =
     (let file = open_files s ! fd; bytes_read = of_nat (length dest) in
      if bytes_read < sz \<and> ff_current_cluster file < FAT32_END_CLUSTER
      then let (r, buffer, s) = fat32_read_cluster P (ff_current_cluster file) s in
        if r \<noteq> 0 then Some (None, s)
        else let offset_in_cluster = ff_cluster_position file;
            bytes_to_read = piece_size (sz - bytes_read) (cluster_size s - offset_in_cluster)
          in if length buffer < unat offset_in_cluster + unat bytes_to_read then None
          else do {
            file \<leftarrow> read_advance s bytes_to_read file;
            read_loop P fd sz (dest @ take (unat bytes_to_read) (drop (unat offset_in_cluster) buffer)) (upd_file fd (\<lambda>_. file) s)
          }
      else Some (Some dest, s))"

definition fat32_read :: "'d ports \<Rightarrow> int \<Rightarrow> u32 \<Rightarrow> 'd fat32 \<Rightarrow> ((int \<times> u8 list) \<times> 'd fat32) option" where
  "fat32_read P fd sz s =
     (if \<not> fd_ok fd s then Some ((-1, []), s)
      else let file = open_files s ! nat fd in
        if ff_position file \<ge> ff_file_size file then Some ((0, []), s)
        else let sz = (if ff_position file + sz > ff_file_size file then ff_file_size file - ff_position file else sz) in
          with_buffer (cluster_size s) (-1, []) (\<lambda>s. do {
            (dest, s) \<leftarrow> read_loop P (nat fd) sz [] s;
            Some (case dest of None \<Rightarrow> (-1, []) | Some bs \<Rightarrow> (int (length bs), bs), s)
          }) s)"

text \<open>The three steps that bring a file to the cluster of its next byte before a write; \<open>False\<close> says that no cluster was left.\<close>

definition write_first :: "'d ports \<Rightarrow> nat \<Rightarrow> 'd fat32 \<Rightarrow> (bool \<times> 'd fat32) option" where
  "write_first P fd s =
     (let file = open_files s ! fd in
      if ff_start_cluster file < 2
      then do {
        (allocated, s) \<leftarrow> fat32_allocate_cluster P (ff_start_cluster file) s;
        if allocated = 0 then Some (False, s)
        else Some (True, upd_file fd (\<lambda>f. f\<lparr>ff_start_cluster := allocated, ff_current_cluster := allocated, ff_last_cluster := allocated,
          ff_cluster_position := 0\<rparr>) s)
      }
      else Some (True, s))"

definition write_extend :: "'d ports \<Rightarrow> nat \<Rightarrow> 'd fat32 \<Rightarrow> (bool \<times> 'd fat32) option" where
  "write_extend P fd s =
     (let file = open_files s ! fd in
      if \<not> is_data_cluster (ff_current_cluster file)
      then do {
        (new_cluster, s) \<leftarrow> fat32_allocate_cluster P (if ff_last_cluster file \<ge> 2 then ff_last_cluster file else ff_start_cluster file) s;
        if new_cluster = 0 then Some (False, s)
        else Some (True, upd_file fd (\<lambda>f. f\<lparr>
          ff_current_cluster := if is_data_cluster (ff_last_cluster f) then new_cluster else ff_start_cluster f,
          ff_last_cluster := new_cluster, ff_cluster_position := 0\<rparr>) s)
      }
      else Some (True, s))"

definition write_advance :: "'d ports \<Rightarrow> nat \<Rightarrow> 'd fat32 \<Rightarrow> (bool \<times> 'd fat32) option" where
  "write_advance P fd s =
     (let file = open_files s ! fd in
      if ff_cluster_position file \<ge> cluster_size s
      then do {
        x \<leftarrow> fat_get s (ff_current_cluster file);
        let following = x AND 0x0FFFFFFF;
        if \<not> is_data_cluster following
        then do {
          (new_cluster, s) \<leftarrow> fat32_allocate_cluster P (ff_current_cluster file) s;
          if new_cluster = 0 then Some (False, s)
          else Some (True, upd_file fd (\<lambda>f. f\<lparr>ff_last_cluster := new_cluster, ff_current_cluster := new_cluster, ff_cluster_position := 0\<rparr>) s)
        }
        else Some (True, upd_file fd (\<lambda>f. f\<lparr>ff_current_cluster := following, ff_cluster_position := 0\<rparr>) s)
      }
      else Some (True, s))"

definition write_move :: "u32 \<Rightarrow> fat32_file \<Rightarrow> fat32_file" where
  "write_move n f =
     (let f = f\<lparr>ff_cluster_position := ff_cluster_position f + n, ff_position := ff_position f + n\<rparr>
      in if ff_position f > ff_file_size f then f\<lparr>ff_file_size := ff_position f\<rparr> else f)"

text \<open>One piece: reading the cluster unless it is overwritten completely, changing it and writing it back.\<close>

definition write_piece :: "'d ports \<Rightarrow> nat \<Rightarrow> u8 list \<Rightarrow> 'd fat32 \<Rightarrow> ((nat option) \<times> 'd fat32) option" where
  "write_piece P fd src s =
     (let file = open_files s ! fd; offset = ff_cluster_position file;
          to_write = piece_size (of_nat (length src)) (cluster_size s - offset);
          (r, buffer, s) = (if offset \<noteq> 0 \<or> to_write < cluster_size s then fat32_read_cluster P (ff_current_cluster file) s
            else (0, replicate (unat (cluster_size s)) 0, s))
      in if r \<noteq> 0 then Some (None, s)
      else do {
        buffer \<leftarrow> put_bytes (unat offset) (take (unat to_write) src) buffer;
        (r, s) \<leftarrow> fat32_write_cluster P (ff_current_cluster file) buffer s;
        if r \<noteq> 0 then Some (None, s)
        else Some (Some (unat to_write), upd_file fd (write_move to_write) s)
      })"

text \<open>The loop over the pieces: whether everything was written, and how much. The buffer has fewer than \<open>2^32\<close> bytes.\<close>

partial_function (option) write_loop :: "'d ports \<Rightarrow> nat \<Rightarrow> u8 list \<Rightarrow> nat \<Rightarrow> 'd fat32 \<Rightarrow> ((bool \<times> nat) \<times> 'd fat32) option" where
  "write_loop P fd src written s =
     (if src = [] then Some ((True, written), s)
      else do {
        (ok, s) \<leftarrow> write_first P fd s;
        if \<not> ok then Some ((False, written), s)
        else do {
          (ok, s) \<leftarrow> write_extend P fd s;
          if \<not> ok then Some ((False, written), s)
          else do {
            (ok, s) \<leftarrow> write_advance P fd s;
            if \<not> ok then Some ((False, written), s)
            else do {
              (n, s) \<leftarrow> write_piece P fd src s;
              case n of None \<Rightarrow> Some ((False, written), s)
              | Some n \<Rightarrow> write_loop P fd (drop n src) (written + n) s
            }
          }
        }
      })"

definition entry_offset :: "u32 \<Rightarrow> nat" where "entry_offset index = 32 * unat index"

definition fat32_update_file_entry :: "'d ports \<Rightarrow> fat32_file \<Rightarrow> 'd fat32 \<Rightarrow> (int \<times> 'd fat32) option" where
  "fat32_update_file_entry P file s =
     (if ff_dir_entry_cluster file < 2 then Some (-1, s)
      else with_buffer (cluster_size s) (-1) (\<lambda>s.
        let (r, buffer, s) = fat32_read_cluster P (ff_dir_entry_cluster file) s in
        if r \<noteq> 0 then Some (-1, s)
        else do {
          let off = entry_offset (ff_dir_entry_index file);
          buffer \<leftarrow> put_bytes (off + 26) (take 2 (bytes32 (ff_start_cluster file))) buffer;
          buffer \<leftarrow> put_bytes (off + 20) (drop 2 (bytes32 (ff_start_cluster file))) buffer;
          buffer \<leftarrow> put_bytes (off + 28) (bytes32 (ff_file_size file)) buffer;
          (res, s) \<leftarrow> fat32_write_cluster P (ff_dir_entry_cluster file) buffer s;
          Some (if res = 0 then 0 else -1, s)
        }) s)"

definition fat32_write :: "'d ports \<Rightarrow> int \<Rightarrow> u8 list \<Rightarrow> 'd fat32 \<Rightarrow> (int \<times> 'd fat32) option" where
  "fat32_write P fd src s =
     (if \<not> fd_ok fd s then Some (-1, s)
      else if src = [] then Some (0, s)
      else do {
        (r, s) \<leftarrow> with_buffer (cluster_size s) None (\<lambda>s. do { (r, s) \<leftarrow> write_loop P (nat fd) src 0 s; Some (Some r, s) }) s;
        case r of None \<Rightarrow> Some (-1, s)
        | Some (finished, written) \<Rightarrow>
            if \<not> finished then Some (if 0 < written then int written else -1, s)
            else do {
              (r, s) \<leftarrow> fat32_update_file_entry P (open_files s ! nat fd) s;
              Some (if r \<noteq> 0 then -1 else int written, s)
            }
      })"

partial_function (option) seek_loop :: "nat \<Rightarrow> u32 \<Rightarrow> 'd fat32 \<Rightarrow> (u32 \<times> 'd fat32) option" where
  "seek_loop fd pos s =
     (let file = open_files s ! fd in
      if pos \<ge> cluster_size s \<and> ff_current_cluster file < FAT32_END_CLUSTER
      then do {
        following \<leftarrow> fat32_get_next_cluster s (ff_current_cluster file);
        seek_loop fd (pos - cluster_size s)
          (upd_file fd (\<lambda>f. f\<lparr>ff_current_cluster := following, ff_position := ff_position f + cluster_size s\<rparr>) s)
      }
      else Some (pos, s))"

definition fat32_seek :: "int \<Rightarrow> u32 \<Rightarrow> 'd fat32 \<Rightarrow> (int \<times> 'd fat32) option" where
  "fat32_seek fd pos s =
     (if \<not> fd_ok fd s then Some (-1, s)
      else let n = nat fd; file = open_files s ! n;
          pos = (if pos > ff_file_size file then ff_file_size file else pos);
          s = upd_file n (\<lambda>f. f\<lparr>ff_current_cluster := ff_start_cluster f, ff_position := 0, ff_cluster_position := 0\<rparr>) s
        in do {
          (pos, s) \<leftarrow> seek_loop n pos s;
          Some (0, upd_file n (\<lambda>f. f\<lparr>ff_cluster_position := pos, ff_position := ff_position f + pos\<rparr>) s)
        })"

definition fat32_close :: "int \<Rightarrow> 'd fat32 \<Rightarrow> 'd fat32" where
  "fat32_close fd s = (if fd_ok fd s then upd_file (nat fd) (\<lambda>_. no_file) s else s)"


subsection \<open>Entries of directories\<close>

text \<open>The free places in a cluster, collected into a run without gaps: \<open>Inl\<close> is a run of the wanted length.\<close>

fun reserve_scan :: "nat \<Rightarrow> u32 \<Rightarrow> u8 list \<Rightarrow> nat list \<Rightarrow> (u32 \<times> u32) list \<Rightarrow> (u32 \<times> u32) list + (u32 \<times> u32) list" where
  "reserve_scan count cluster buffer [] run = Inr run"
| "reserve_scan count cluster buffer (i # is) run =
     (let first = entry_at buffer i ! 0 in
      if first = 0 \<or> first = 0xE5
      then let run = run @ [(cluster, of_nat i)] in
        if length run = count then Inl run else reserve_scan count cluster buffer is run
      else reserve_scan count cluster buffer is [])"

partial_function (option) reserve_loop ::
  "'d ports \<Rightarrow> nat \<Rightarrow> u32 \<Rightarrow> (u32 \<times> u32) list \<Rightarrow> 'd fat32 \<Rightarrow> ((u32 \<times> u32) list option \<times> 'd fat32) option" where
  "reserve_loop P count cluster run s =
     (if is_data_cluster cluster
      then let (r, buffer, s) = fat32_read_cluster P cluster s in
        if r \<noteq> 0 then Some (None, s)
        else (case reserve_scan count cluster buffer [0..<entries_per_cluster s] run of
            Inl locations \<Rightarrow> Some (Some locations, s)
          | Inr run \<Rightarrow> do {
              following \<leftarrow> fat32_get_next_cluster s cluster;
              if \<not> is_data_cluster following
              then do {
                (new_cluster, s) \<leftarrow> fat32_allocate_cluster P cluster s;
                if new_cluster = 0 then Some (None, s) else reserve_loop P count new_cluster run s
              }
              else reserve_loop P count following run s
            })
      else Some (None, s))"

definition fat32_directory_reserve_entries ::
  "'d ports \<Rightarrow> u32 \<Rightarrow> nat \<Rightarrow> 'd fat32 \<Rightarrow> ((u32 \<times> u32) list option \<times> 'd fat32) option" where
  "fat32_directory_reserve_entries P dir_cluster count s =
     (if count = 0 then Some (Some [], s)
      else with_buffer (cluster_size s) None (with_buffer (8 * of_nat count) None (reserve_loop P count dir_cluster [])) s)"

text \<open>Writing entries to their places; the cluster in the buffer is written back when the next entry is in another one.\<close>

fun write_entries_loop ::
  "'d ports \<Rightarrow> ((u32 \<times> u32) \<times> u8 list) list \<Rightarrow> u32 \<Rightarrow> bool \<Rightarrow> u8 list \<Rightarrow> 'd fat32 \<Rightarrow> (int \<times> 'd fat32) option" where
  "write_entries_loop P [] current dirty buffer s =
     (if dirty
      then do { (r, s) \<leftarrow> fat32_write_cluster P current buffer s; Some (if r \<noteq> 0 then -1 else 0, s) }
      else Some (0, s))"
| "write_entries_loop P (((target, index), e) # rest) current dirty buffer s = do {
     (r, s) \<leftarrow> (if target \<noteq> current \<and> dirty then fat32_write_cluster P current buffer s else Some (0, s));
     if r \<noteq> 0 then Some (-1, s)
     else let (r, buffer, s) = (if target \<noteq> current then fat32_read_cluster P target s else (0, buffer, s)) in
       if r \<noteq> 0 then Some (-1, s)
       else do {
         buffer \<leftarrow> put_bytes (entry_offset index) e buffer;
         write_entries_loop P rest target True buffer s
       }
   }"

definition fat32_write_directory_entries :: "'d ports \<Rightarrow> (u32 \<times> u32) list \<Rightarrow> u8 list list \<Rightarrow> 'd fat32 \<Rightarrow> (int \<times> 'd fat32) option" where
  "fat32_write_directory_entries P locations entries s =
     (if entries = [] then Some (0, s)
      else with_buffer (cluster_size s) (-1) (write_entries_loop P (zip locations entries) 0 False []) s)"

partial_function (option) previous_loop :: "u32 \<Rightarrow> u32 \<Rightarrow> 'd fat32 \<Rightarrow> u32 option" where
  "previous_loop current target s =
     (if is_data_cluster current
      then do {
        following \<leftarrow> fat32_get_next_cluster s current;
        if following = target then Some current
        else if \<not> is_data_cluster following then Some 0
        else previous_loop following target s
      }
      else Some 0)"

definition fat32_directory_find_previous_cluster :: "'d fat32 \<Rightarrow> u32 \<Rightarrow> u32 \<Rightarrow> u32 option" where
  "fat32_directory_find_previous_cluster s dir_cluster target_cluster =
     (if dir_cluster = target_cluster then Some 0 else previous_loop dir_cluster target_cluster s)"

text \<open>The walk backwards over the entries of a long name, starting before the entry with the short name.\<close>

partial_function (option) delete_lfn_loop ::
  "'d ports \<Rightarrow> u32 \<Rightarrow> u32 \<Rightarrow> int \<Rightarrow> bool \<Rightarrow> u8 list \<Rightarrow> 'd fat32 \<Rightarrow> (int \<times> 'd fat32) option" where
  "delete_lfn_loop P dir_cluster cluster index dirty buffer s =
     (if index < 0
      then do {
        (r, s) \<leftarrow> (if dirty then fat32_write_cluster P cluster buffer s else Some (0, s));
        if r \<noteq> 0 then Some (-1, s)
        else do {
          prev \<leftarrow> fat32_directory_find_previous_cluster s dir_cluster cluster;
          if prev < 2 then Some (0, s)
          else let (r, buffer, s) = fat32_read_cluster P prev s in
            if r \<noteq> 0 then Some (-1, s)
            else delete_lfn_loop P dir_cluster prev (int (entries_per_cluster s) - 1) False buffer s
        }
      }
      else let e = entry_at buffer (nat index) in
        if e_attributes e AND FAT32_ATTR_LONG_NAME = FAT32_ATTR_LONG_NAME \<and> e ! 0 \<noteq> 0xE5 \<and> e ! 0 \<noteq> 0
        then do {
          buffer \<leftarrow> put_bytes (32 * nat index) [0xE5] buffer;
          delete_lfn_loop P dir_cluster cluster (index - 1) True buffer s
        }
        else if dirty
          then do { (r, s) \<leftarrow> fat32_write_cluster P cluster buffer s; Some (if r \<noteq> 0 then -1 else 0, s) }
          else Some (0, s))"

definition fat32_mark_entry_deleted :: "'d ports \<Rightarrow> u32 \<Rightarrow> u32 \<Rightarrow> u32 \<Rightarrow> bool \<Rightarrow> 'd fat32 \<Rightarrow> (int \<times> 'd fat32) option" where
  "fat32_mark_entry_deleted P dir_cluster entry_cluster entry_index remove_lfn s =
     with_buffer (cluster_size s) (-1) (\<lambda>s.
       let (r, buffer, s) = fat32_read_cluster P entry_cluster s in
       if r \<noteq> 0 then Some (-1, s)
       else do {
         buffer \<leftarrow> put_bytes (entry_offset entry_index) [0xE5] buffer;
         (r, s) \<leftarrow> fat32_write_cluster P entry_cluster buffer s;
         if r \<noteq> 0 then Some (-1, s)
         else if remove_lfn then delete_lfn_loop P dir_cluster entry_cluster (sint entry_index - 1) False buffer s
         else Some (0, s)
       }) s"

text \<open>The parent directory and the name of a path; \<open>None\<close> is the result -1.\<close>

fun strip_slashes :: "u8 list \<Rightarrow> u8 list" where
  "strip_slashes path = (if 1 < length path \<and> last path = 47 then strip_slashes (butlast path) else path)"

declare strip_slashes.simps [simp del]

definition fat32_split_path :: "u8 list \<Rightarrow> (u8 list \<times> u8 list) option" where
  "fat32_split_path path =
     (let temp = strip_slashes (take (FAT32_MAX_PATH - 1) path);
          name = rev (takeWhile (\<lambda>c. c \<noteq> 47) (rev temp));
          parent = take (length temp - length name - 1) temp
      in if 47 \<notin> set temp then Some ([47], take FAT32_MAX_FILENAME temp)
         else if parent = [] then (if name = [] then None else Some ([47], take FAT32_MAX_FILENAME name))
         else Some (take (FAT32_MAX_PATH - 1) parent, take FAT32_MAX_FILENAME name))"

text \<open>A new directory starts with the entries \<open>.\<close> and \<open>..\<close>.\<close>

definition fat32_init_directory :: "'d ports \<Rightarrow> u32 \<Rightarrow> u32 \<Rightarrow> 'd fat32 \<Rightarrow> (int \<times> 'd fat32) option" where
  "fat32_init_directory P cluster parent_cluster s =
     with_buffer (cluster_size s) (-1) (\<lambda>s. do {
       let parent = (if parent_cluster \<ge> 2 then parent_cluster else cluster);
       buffer \<leftarrow> put_bytes 0 (dir_entry (46 # replicate 10 32) FAT32_ATTR_DIRECTORY cluster 0 @
         dir_entry (46 # 46 # replicate 9 32) FAT32_ATTR_DIRECTORY parent 0) (replicate (unat (cluster_size s)) 0);
       (res, s) \<leftarrow> fat32_write_cluster P cluster buffer s;
       Some (if res = 0 then 0 else -1, s)
     }) s"

text \<open>The part that \<open>fat32_create\<close> and \<open>fat32_mkdir_path\<close> share from the choice of the short name on.\<close>

definition add_entry :: "'d ports \<Rightarrow> u32 \<Rightarrow> u8 list \<Rightarrow> u8 \<Rightarrow> u32 \<Rightarrow> 'd fat32 \<Rightarrow> (int \<times> 'd fat32) option" where
  "add_entry P dir_cluster name attributes cluster s =
     (if FAT32_MAX_FILENAME < length name then Some (-1, s)
      else do {
        (prepared, s) \<leftarrow> fat32_prepare_short_name P dir_cluster name s;
        case prepared of None \<Rightarrow> Some (-1, s)
        | Some (short_name, needs_lfn) \<Rightarrow>
            let long = (if needs_lfn then lfn_entries name (fat32_lfn_checksum short_name) else []);
                entry_count = of_nat (length long) + 1
            in with_buffer (8 * entry_count) (-1) (\<lambda>s. do {
              (locations, s) \<leftarrow> fat32_directory_reserve_entries P dir_cluster (length long + 1) s;
              case locations of None \<Rightarrow> Some (-1, s)
              | Some locations \<Rightarrow> with_buffer (32 * entry_count) (-1)
                  (fat32_write_directory_entries P locations (long @ [dir_entry short_name attributes cluster 0])) s
            }) s
      })"

definition fat32_create :: "'d ports \<Rightarrow> u8 list \<Rightarrow> 'd fat32 \<Rightarrow> (int \<times> 'd fat32) option" where
  "fat32_create P path s =
     (if \<not> mounted s \<or> path = [] then Some (-1, s)
      else if path ! 0 \<noteq> 47 then Some (-1, s)
      else do {
        (existing, s) \<leftarrow> fat32_lookup_path P path s;
        if existing \<noteq> None then Some (-1, s)
        else case fat32_split_path path of None \<Rightarrow> Some (-1, s)
        | Some (parent, name) \<Rightarrow>
            if name = [] then Some (-1, s)
            else do {
              (dir, s) \<leftarrow> fat32_lookup_path P (if parent = [] then [47] else parent) s;
              case dir of None \<Rightarrow> Some (-1, s)
              | Some r \<Rightarrow>
                  if i_attributes (lk_info r) AND FAT32_ATTR_DIRECTORY = 0 then Some (-1, s)
                  else add_entry P (i_cluster (lk_info r)) name FAT32_ATTR_ARCHIVE 0 s
            }
      })"

definition fat32_mkdir_path :: "'d ports \<Rightarrow> u8 list \<Rightarrow> 'd fat32 \<Rightarrow> (int \<times> 'd fat32) option" where
  "fat32_mkdir_path P path s =
     (if \<not> mounted s \<or> path = [] then Some (-1, s)
      else if path ! 0 \<noteq> 47 \<or> path = [47] then Some (-1, s)
      else do {
        (existing, s) \<leftarrow> fat32_lookup_path P path s;
        if existing \<noteq> None then Some (-1, s)
        else case fat32_split_path path of None \<Rightarrow> Some (-1, s)
        | Some (parent, name) \<Rightarrow>
            if name = [] then Some (-1, s)
            else do {
              (dir, s) \<leftarrow> fat32_lookup_path P (if parent = [] then [47] else parent) s;
              case dir of None \<Rightarrow> Some (-1, s)
              | Some r \<Rightarrow>
                  if i_attributes (lk_info r) AND FAT32_ATTR_DIRECTORY = 0 then Some (-1, s)
                  else do {
                    (new_cluster, s) \<leftarrow> fat32_allocate_cluster P 0 s;
                    if new_cluster = 0 then Some (-1, s)
                    else do {
                      (res, s) \<leftarrow> fat32_init_directory P new_cluster (i_cluster (lk_info r)) s;
                      (res, s) \<leftarrow> (if res \<noteq> 0 then Some (-1, s)
                        else add_entry P (i_cluster (lk_info r)) name FAT32_ATTR_DIRECTORY new_cluster s);
                      if res \<noteq> 0 then do { s \<leftarrow> fat32_free_cluster_chain P new_cluster s; Some (-1, s) }
                      else Some (0, s)
                    }
                  }
            }
      })"

text \<open>What \<open>fat32_remove\<close> and \<open>fat32_rmdir_path\<close> do with an entry that may go.\<close>

definition drop_entry :: "'d ports \<Rightarrow> lookup \<Rightarrow> 'd fat32 \<Rightarrow> (int \<times> 'd fat32) option" where
  "drop_entry P r s = do {
     s \<leftarrow> (if i_cluster (lk_info r) \<ge> 2 then fat32_free_cluster_chain P (i_cluster (lk_info r)) s else Some s);
     (res, s) \<leftarrow> fat32_mark_entry_deleted P (lk_parent r) (lk_cluster r) (lk_index r) True s;
     Some (if res \<noteq> 0 then -1 else 0, s)
   }"

definition fat32_remove :: "'d ports \<Rightarrow> u8 list \<Rightarrow> 'd fat32 \<Rightarrow> (int \<times> 'd fat32) option" where
  "fat32_remove P path s =
     (if \<not> mounted s \<or> path = [] then Some (-1, s)
      else do {
        (found, s) \<leftarrow> fat32_lookup_path P path s;
        case found of None \<Rightarrow> Some (-1, s)
        | Some r \<Rightarrow>
            if i_attributes (lk_info r) AND FAT32_ATTR_DIRECTORY \<noteq> 0 then Some (-1, s)
            else drop_entry P r s
      })"

definition fat32_rmdir_path :: "'d ports \<Rightarrow> u8 list \<Rightarrow> 'd fat32 \<Rightarrow> (int \<times> 'd fat32) option" where
  "fat32_rmdir_path P path s =
     (if \<not> mounted s \<or> path = [] \<or> path = [47] then Some (-1, s)
      else do {
        (found, s) \<leftarrow> fat32_lookup_path P path s;
        case found of None \<Rightarrow> Some (-1, s)
        | Some r \<Rightarrow>
            if i_attributes (lk_info r) AND FAT32_ATTR_DIRECTORY = 0 then Some (-1, s)
            else do {
              ((entry_count, _), s) \<leftarrow> fat32_list_directory P (i_cluster (lk_info r)) 1 s;
              if entry_count < 0 then Some (-1, s)
              else if entry_count > 0 then Some (-1, s)
              else drop_entry P r s
            }
      })"

end
