(* ===== verification/Fat32_Chains.thy ===== *)
theory Fat32_Chains
  imports Fat32
begin

unbundle bit_operations_syntax

text \<open>
  Clusters and their chains: what reading and writing a cluster, storing the table, taking a free cluster and giving a chain back do on a
  mounted file system whose drive works. The contents of a cluster are the bytes of its sectors; every operation is described by what it
  does to the table and to the contents of the clusters.
\<close>

subsection \<open>A mounted file system\<close>

abbreviation dev :: "'d fat32 \<Rightarrow> u8" where "dev s \<equiv> fi_device_id (fs_info s)"

abbreviation spc :: "'d fat32 \<Rightarrow> nat" where "spc s \<equiv> unat (fi_sectors_per_cluster (fs_info s))"

abbreviation csz :: "'d fat32 \<Rightarrow> nat" where "csz s \<equiv> 512 * unat (fi_sectors_per_cluster (fs_info s))"

text \<open>The geometry of a mounted volume: \<open>entries\<close> is the length of the table in memory, \<open>sz\<close> the number of sectors of the drive. The clusters
  below \<open>N\<close> have an entry in the table and lie on the drive. (\<open>N\<close> is not \<open>total_clusters\<close>: that number comes from the boot sector and may be
  far larger than both, see \<open>fat32_mount_establishes\<close>.)\<close>

definition sectors_ok :: "fat32_fs \<Rightarrow> nat \<Rightarrow> nat \<Rightarrow> nat \<Rightarrow> bool" where
  "sectors_ok i N entries sz \<longleftrightarrow> fi_fat_table i \<noteq> 0 \<and> fi_bytes_per_sector i = 512 \<and>
     0 < unat (fi_sectors_per_cluster i) \<and> unat (fi_sectors_per_cluster i) \<le> 255 \<and>
     0 < unat (fi_fat_size i) \<and> unat (fi_fat_size i) \<le> 255 \<and> unat (fi_num_fats i) \<le> 255 \<and> 0 < unat (fi_fat_start_sector i) \<and>
     unat (fi_fat_start_sector i) + unat (fi_num_fats i) * unat (fi_fat_size i) \<le> unat (fi_data_start_sector i) \<and>
     unat (fi_data_start_sector i) + (N - 2) * unat (fi_sectors_per_cluster i) \<le> sz \<and> sz \<le> 2 ^ 28 \<and>
     N \<le> unat (fi_total_clusters i) \<and> N \<le> entries \<and> entries = 128 * unat (fi_fat_size i)"

text \<open>A volume is mounted from a drive that completes every transfer (\<open>dev_ok\<close>), and the heap is well formed.\<close>

definition fat_ok :: "'d ports \<Rightarrow> ('d \<Rightarrow> chan) \<Rightarrow> nat \<Rightarrow> 'd fat32 \<Rightarrow> bool" where
  "fat_ok P v N s \<longleftrightarrow> mounted s \<and> sectors_ok (fs_info s) N (length (fat s)) (dev_size (dev s) (blk s)) \<and> dev_ok P v (dev s) (blk s) \<and>
     heap_ok (fheap s) \<and> length (open_files s) = FAT32_MAX_OPEN_FILES"

definition disk :: "('d \<Rightarrow> chan) \<Rightarrow> 'd fat32 \<Rightarrow> u32 \<Rightarrow> u8 list" where
  "disk v s = dev_disk v (dev s) (blk s)"

text \<open>The clusters of the volume: numbers from 2 to below \<open>N\<close>.\<close>

definition usable :: "nat \<Rightarrow> u32 \<Rightarrow> bool" where
  "usable N c \<longleftrightarrow> 2 \<le> unat c \<and> unat c < N"

text \<open>The free clusters among them, and that \<open>k\<close> more clusters can be asked for without the search leaving the volume: either the boot sector
  states the size of the volume, or there are that many free ones.\<close>

definition free_clusters :: "nat \<Rightarrow> u32 list \<Rightarrow> u32 set" where
  "free_clusters N t = {c. usable N c \<and> t ! unat c AND 0x0FFFFFFF = 0}"

definition searchable :: "nat \<Rightarrow> nat \<Rightarrow> 'd fat32 \<Rightarrow> bool" where
  "searchable N k s \<longleftrightarrow> N = unat (fi_total_clusters (fs_info s)) \<or> k \<le> card (free_clusters N (fat s))"

definition cluster_bytes :: "('d \<Rightarrow> chan) \<Rightarrow> 'd fat32 \<Rightarrow> u32 \<Rightarrow> u8 list" where
  "cluster_bytes v s c = sectors_at (disk v s) (fat32_cluster_to_sector s c) (spc s)"

text \<open>Every copy of the table on the disk agrees with the table in memory.\<close>

definition mirrored :: "('d \<Rightarrow> chan) \<Rightarrow> 'd fat32 \<Rightarrow> bool" where
  "mirrored v s \<longleftrightarrow> (\<forall>k<unat (fi_num_fats (fs_info s)).
     sectors_at (disk v s) (fi_fat_start_sector (fs_info s) + of_nat k * fi_fat_size (fs_info s)) (unat (fi_fat_size (fs_info s))) = fat_image (fat s))"

text \<open>Steps that only use the drive.\<close>

definition only_blk :: "'d ports \<Rightarrow> ('d \<Rightarrow> chan) \<Rightarrow> 'd fat32 \<Rightarrow> 'd fat32 \<Rightarrow> bool" where
  "only_blk P v s s' \<longleftrightarrow> (\<exists>d. s' = s\<lparr>blk := d\<rparr> \<and> dev_ok P v (dev s) d \<and> dev_size (dev s) d = dev_size (dev s) (blk s))"

lemma only_blk_same:
  assumes "only_blk P v s s'"
  shows "fs_info s' = fs_info s" "fat s' = fat s" "open_files s' = open_files s" "mounted s' = mounted s" "fheap s' = fheap s"
    "fat32_cluster_to_sector s' c = fat32_cluster_to_sector s c" "cluster_size s' = cluster_size s"
  using assms by (auto simp: only_blk_def fat_ok_def fat32_cluster_to_sector_def cluster_size_def)

lemma only_blk_ok: "only_blk P v s s' \<Longrightarrow> fat_ok P v N s \<Longrightarrow> fat_ok P v N s'"
  by (auto simp: only_blk_def fat_ok_def)

lemma cluster_to_sector_upd [simp]:
  "fat32_cluster_to_sector (s\<lparr>blk := d\<rparr>) c = fat32_cluster_to_sector s c" "fat32_cluster_to_sector (s\<lparr>fheap := h\<rparr>) c = fat32_cluster_to_sector s c"
  "fat32_cluster_to_sector (s\<lparr>fat := t\<rparr>) c = fat32_cluster_to_sector s c" "fat32_cluster_to_sector (s\<lparr>open_files := fs\<rparr>) c = fat32_cluster_to_sector s c"
  by (simp_all add: fat32_cluster_to_sector_def)

lemma upd_simps [simp]:
  "disk v (s\<lparr>fheap := h\<rparr>) = disk v s" "disk v (s\<lparr>fat := t\<rparr>) = disk v s" "disk v (s\<lparr>open_files := fs\<rparr>) = disk v s"
  "cluster_bytes v (s\<lparr>fheap := h\<rparr>) c = cluster_bytes v s c" "cluster_bytes v (s\<lparr>fat := t\<rparr>) c = cluster_bytes v s c"
  "cluster_bytes v (s\<lparr>open_files := fs\<rparr>) c = cluster_bytes v s c"
  "mirrored v (s\<lparr>fheap := h\<rparr>) = mirrored v s" "mirrored v (s\<lparr>open_files := fs\<rparr>) = mirrored v s"
  "cluster_size (s\<lparr>blk := d\<rparr>) = cluster_size s" "cluster_size (s\<lparr>fheap := h\<rparr>) = cluster_size s" "cluster_size (s\<lparr>fat := t\<rparr>) = cluster_size s"
  "cluster_size (s\<lparr>open_files := fs\<rparr>) = cluster_size s"
  by (simp_all add: disk_def cluster_bytes_def mirrored_def cluster_size_def)

lemma unat_ucast8: "unat (x :: u32) \<le> 255 \<Longrightarrow> unat (ucast x :: u8) = unat x"
  by (simp add: unsigned_ucast_eq take_bit_eq_mod)

lemma cluster_size_ok: "fat_ok P v N s \<Longrightarrow> unat (cluster_size s) = csz s \<and> 0 < csz s \<and> csz s < 2 ^ 17"
  by (auto simp: cluster_size_def fat_ok_def sectors_ok_def unat_word_ariths)

lemma sector_of_cluster:
  assumes "fat_ok P v N s" "usable N c"
  shows "unat (fat32_cluster_to_sector s c) = unat (fi_data_start_sector (fs_info s)) + (unat c - 2) * spc s"
    "unat (fat32_cluster_to_sector s c) + spc s \<le> dev_size (dev s) (blk s)" "dev_size (dev s) (blk s) \<le> 2 ^ 28"
    "fat32_cluster_to_sector s c \<noteq> 0"
proof -
  let ?i = "fs_info s"
  have g: "unat (fi_data_start_sector ?i) + (N - 2) * spc s \<le> dev_size (dev s) (blk s)" "dev_size (dev s) (blk s) \<le> 2 ^ 28"
    "0 < unat (fi_fat_start_sector ?i)" "unat (fi_fat_start_sector ?i) \<le> unat (fi_data_start_sector ?i)"
    using assms(1) by (auto simp: fat_ok_def sectors_ok_def)
  have c: "2 \<le> unat c" "unat c < N" using assms(2) by (auto simp: usable_def)
  have "(unat c - 2) * spc s + spc s = (unat c - 1) * spc s" using c(1) by (metis Suc_diff_Suc Suc_1 add.commute less_eq_Suc_le mult_Suc)
  moreover have "(unat c - 1) * spc s \<le> (N - 2) * spc s" using c by (intro mult_le_mono1) simp
  ultimately have le: "unat (fi_data_start_sector ?i) + (unat c - 2) * spc s + spc s \<le> dev_size (dev s) (blk s)" using g(1) by linarith
  have c2: "unat (c - 2) = unat c - 2" using c(1) by (simp add: unat_sub word_le_nat_alt)
  have "unat ((c - 2) * fi_sectors_per_cluster ?i) = (unat c - 2) * spc s"
    using le g(2) c2 by (simp add: unat_word_ariths)
  then show u: "unat (fat32_cluster_to_sector s c) = unat (fi_data_start_sector ?i) + (unat c - 2) * spc s"
    using c(1) le g(2) by (auto simp: fat32_cluster_to_sector_def word_less_nat_alt unat_plus_simple32)
  show "unat (fat32_cluster_to_sector s c) + spc s \<le> dev_size (dev s) (blk s)" "dev_size (dev s) (blk s) \<le> 2 ^ 28" using u le g by simp_all
  show "fat32_cluster_to_sector s c \<noteq> 0" using u g(3,4) by (auto simp: word_unat_eq_iff)
qed

text \<open>Two clusters do not share sectors.\<close>

lemma clusters_apart:
  assumes "fat_ok P v N s" "usable N c" "usable N c'" "c \<noteq> c'" "i < spc s" "j < spc s"
  shows "unat (fat32_cluster_to_sector s c) + i \<noteq> unat (fat32_cluster_to_sector s c') + j"
proof
  assume "unat (fat32_cluster_to_sector s c) + i = unat (fat32_cluster_to_sector s c') + j"
  then have e: "(unat c - 2) * spc s + i = (unat c' - 2) * spc s + j"
    using sector_of_cluster(1) [OF assms(1,2)] sector_of_cluster(1) [OF assms(1,3)] by simp
  then have "((unat c - 2) * spc s + i) div spc s = ((unat c' - 2) * spc s + j) div spc s" by simp
  then have "unat c - 2 = unat c' - 2" using assms(5,6) by (simp add: div_mult_self3)
  with assms(2-4) show False by (auto simp: usable_def word_unat_eq_iff)
qed

lemma length_sectors_at: "(\<And>l. length (d l) = 512) \<Longrightarrow> length (sectors_at d a n) = 512 * n"
  unfolding sectors_at_def by (subst length_concat_const [of _ 512]) auto

lemma length_cluster_bytes: "fat_ok P v N s \<Longrightarrow> length (cluster_bytes v s c) = csz s"
  unfolding cluster_bytes_def disk_def by (intro length_sectors_at registered.sector_length) (auto simp: fat_ok_def)

lemma read_cluster_ok:
  assumes "fat_ok P v N s" "usable N c"
  obtains s' where "fat32_read_cluster P c s = (0, cluster_bytes v s c, s')" "only_blk P v s s'" "disk v s' = disk v s"
proof -
  have d: "dev_ok P v (dev s) (blk s)" "spc s \<le> 255" "0 < spc s" "mounted s" using assms(1) by (auto simp: fat_ok_def sectors_ok_def)
  have u: "unat (ucast (fi_sectors_per_cluster (fs_info s)) :: u8) = spc s" using d(2) by (rule unat_ucast8)
  then have nz: "(ucast (fi_sectors_per_cluster (fs_info s)) :: u8) \<noteq> 0" using d(3) by auto
  note sec = sector_of_cluster [OF assms]
  obtain d' where d': "blockdev_read P (dev s) (fat32_cluster_to_sector s c) (ucast (fi_sectors_per_cluster (fs_info s))) (blk s) =
     (0, cluster_bytes v s c, d')" "dev_ok P v (dev s) d'" "dev_disk v (dev s) d' = dev_disk v (dev s) (blk s)" "dev_size (dev s) d' = dev_size (dev s) (blk s)"
    using dev_read_ok [OF d(1) nz, of "fat32_cluster_to_sector s c"] sec(2) u by (auto simp: cluster_bytes_def disk_def)
  have "fat32_read_cluster P c s = (0, cluster_bytes v s c, s\<lparr>blk := d'\<rparr>)" using d(4) sec(4) d'(1) by (simp add: fat32_read_cluster_def Let_def)
  then show thesis using that [of "s\<lparr>blk := d'\<rparr>"] d'(2-4) by (auto simp: only_blk_def disk_def)
qed


text \<open>What a write of \<open>n\<close> sectors does to other stretches of sectors.\<close>

definition written_at :: "(u32 \<Rightarrow> u8 list) \<Rightarrow> u32 \<Rightarrow> nat \<Rightarrow> u8 list \<Rightarrow> (u32 \<Rightarrow> u8 list) \<Rightarrow> bool" where
  "written_at d a n buf d' \<longleftrightarrow> (\<forall>l. d' l = (if a \<le> l \<and> unat l < unat a + n then take 512 (drop (512 * (unat l - unat a)) buf) else d l))"

lemma written_at_same:
  assumes "written_at d a n buf d'" "length buf = 512 * n" "unat a + n \<le> 2 ^ 28"
  shows "sectors_at d' a n = buf"
proof -
  have "d' (a + of_nat i) = take 512 (drop (512 * i) buf)" if "i < n" for i
  proof -
    have "unat (a + of_nat i) = unat a + i" using that assms(3) by (intro unat_plus_of_nat) simp
    with that assms(1) show ?thesis by (simp add: written_at_def word_le_nat_alt)
  qed
  then have "sectors_at d' a n = concat (chunks 512 n buf)" unfolding sectors_at_def chunks_def by (intro arg_cong [where f = concat] map_cong) auto
  with chunks_concat [OF assms(2)] show ?thesis by simp
qed

lemma written_at_other:
  assumes "written_at d a n buf d'" "unat b + m \<le> 2 ^ 28" "\<And>i j. i < n \<Longrightarrow> j < m \<Longrightarrow> unat a + i \<noteq> unat b + j"
  shows "sectors_at d' b m = sectors_at d b m"
proof (rule sectors_at_cong)
  fix j assume j: "j < m"
  then have u: "unat (b + of_nat j) = unat b + j" using assms(2) by (intro unat_plus_of_nat) simp
  have "\<not> (a \<le> b + of_nat j \<and> unat (b + of_nat j) < unat a + n)"
  proof
    assume "a \<le> b + of_nat j \<and> unat (b + of_nat j) < unat a + n"
    then have le: "unat a \<le> unat b + j" "unat b + j < unat a + n" by (simp_all add: word_le_nat_alt u)
    then have "unat b + j - unat a < n" "unat a + (unat b + j - unat a) = unat b + j" by linarith+
    with assms(3) [of "unat b + j - unat a" j] j show False by blast
  qed
  with assms(1) show "d' (b + of_nat j) = d (b + of_nat j)" unfolding written_at_def by (auto split: if_splits)
qed

lemma fat_copy_place:
  assumes "fat_ok P v N s" "k < unat (fi_num_fats (fs_info s))"
  shows "unat (fi_fat_start_sector (fs_info s) + of_nat k * fi_fat_size (fs_info s)) = unat (fi_fat_start_sector (fs_info s)) + k * unat (fi_fat_size (fs_info s))"
    "unat (fi_fat_start_sector (fs_info s)) + k * unat (fi_fat_size (fs_info s)) + unat (fi_fat_size (fs_info s)) \<le> unat (fi_data_start_sector (fs_info s))"
    "unat (fi_data_start_sector (fs_info s)) \<le> dev_size (dev s) (blk s)" "dev_size (dev s) (blk s) \<le> 2 ^ 28"
proof -
  let ?i = "fs_info s"
  have g: "unat (fi_fat_start_sector ?i) + unat (fi_num_fats ?i) * unat (fi_fat_size ?i) \<le> unat (fi_data_start_sector ?i)"
    "unat (fi_data_start_sector ?i) \<le> dev_size (dev s) (blk s)" "dev_size (dev s) (blk s) \<le> 2 ^ 28" "unat (fi_num_fats ?i) \<le> 255"
    using assms(1) by (auto simp: fat_ok_def sectors_ok_def)
  have "Suc k * unat (fi_fat_size ?i) \<le> unat (fi_num_fats ?i) * unat (fi_fat_size ?i)" using assms(2) by (intro mult_le_mono1) simp
  then have "k * unat (fi_fat_size ?i) + unat (fi_fat_size ?i) \<le> unat (fi_num_fats ?i) * unat (fi_fat_size ?i)" by simp
  with g(1) show le: "unat (fi_fat_start_sector ?i) + k * unat (fi_fat_size ?i) + unat (fi_fat_size ?i) \<le> unat (fi_data_start_sector ?i)" by linarith
  have k: "unat (of_nat k :: u32) = k" using assms(2) g(4) by (simp add: unat_of_nat)
  have "unat (of_nat k * fi_fat_size ?i) = k * unat (fi_fat_size ?i)" using le g k by (simp add: unat_word_ariths)
  then show "unat (fi_fat_start_sector ?i + of_nat k * fi_fat_size ?i) = unat (fi_fat_start_sector ?i) + k * unat (fi_fat_size ?i)"
    using le g by (simp add: unat_plus_simple32)
  show "unat (fi_data_start_sector ?i) \<le> dev_size (dev s) (blk s)" "dev_size (dev s) (blk s) \<le> 2 ^ 28" using g by simp_all
qed

lemma write_cluster_ok:
  assumes "fat_ok P v N s" "usable N c" "length buffer = csz s"
  obtains s' where "fat32_write_cluster P c buffer s = Some (0, s')" "only_blk P v s s'" "cluster_bytes v s' c = buffer"
    "\<And>c'. usable N c' \<Longrightarrow> c' \<noteq> c \<Longrightarrow> cluster_bytes v s' c' = cluster_bytes v s c'" "mirrored v s' = mirrored v s"
proof -
  have d: "dev_ok P v (dev s) (blk s)" "spc s \<le> 255" "0 < spc s" "mounted s" using assms(1) by (auto simp: fat_ok_def sectors_ok_def)
  have u: "unat (ucast (fi_sectors_per_cluster (fs_info s)) :: u8) = spc s" using d(2) by (rule unat_ucast8)
  then have nz: "(ucast (fi_sectors_per_cluster (fs_info s)) :: u8) \<noteq> 0" using d(3) by auto
  let ?a = "fat32_cluster_to_sector s c"
  note sec = sector_of_cluster [OF assms(1,2)]
  obtain d' where d': "blockdev_write P (dev s) ?a (ucast (fi_sectors_per_cluster (fs_info s))) buffer (blk s) = Some (0, d')"
    "dev_ok P v (dev s) d'" "dev_size (dev s) d' = dev_size (dev s) (blk s)" "written_at (dev_disk v (dev s) (blk s)) ?a (spc s) buffer (dev_disk v (dev s) d')"
    using dev_write_ok [OF d(1) nz, of ?a buffer] sec(2) u assms(3) by (auto simp: written_at_def)
  let ?s = "s\<lparr>blk := d'\<rparr>"
  have w: "written_at (disk v s) ?a (spc s) buffer (disk v ?s)" using d'(4) by (simp add: disk_def)
  have ab: "unat ?a + spc s \<le> 2 ^ 28" using sec(2,3) by linarith
  have "cluster_bytes v ?s c = buffer" using written_at_same [OF w assms(3) ab] by (simp add: cluster_bytes_def)
  moreover have "cluster_bytes v ?s c' = cluster_bytes v s c'" if c': "usable N c'" "c' \<noteq> c" for c'
  proof -
    have "unat (fat32_cluster_to_sector s c') + spc s \<le> 2 ^ 28" using sector_of_cluster(2,3) [OF assms(1) c'(1)] by linarith
    from written_at_other [OF w this clusters_apart [OF assms(1,2) c'(1) c'(2) [symmetric]]]
    show ?thesis by (simp add: cluster_bytes_def)
  qed
  moreover have "mirrored v ?s = mirrored v s"
  proof -
    have "sectors_at (disk v ?s) (fi_fat_start_sector (fs_info s) + of_nat k * fi_fat_size (fs_info s)) (unat (fi_fat_size (fs_info s))) =
       sectors_at (disk v s) (fi_fat_start_sector (fs_info s) + of_nat k * fi_fat_size (fs_info s)) (unat (fi_fat_size (fs_info s)))"
      if k: "k < unat (fi_num_fats (fs_info s))" for k
      using fat_copy_place [OF assms(1) k] sec(1) by (intro written_at_other [OF w]) linarith+
    then show ?thesis by (simp add: mirrored_def)
  qed
  moreover have "only_blk P v s ?s" using d'(2,3) by (auto simp: only_blk_def)
  moreover have "fat32_write_cluster P c buffer s = Some (0, ?s)" using d(4) sec(4) d'(1) by (simp add: fat32_write_cluster_def Let_def)
  ultimately show thesis using that by blast
qed


subsection \<open>Storing the table\<close>

definition copy_at :: "('d \<Rightarrow> chan) \<Rightarrow> 'd fat32 \<Rightarrow> nat \<Rightarrow> u8 list" where
  "copy_at v s k = sectors_at (disk v s) (fi_fat_start_sector (fs_info s) + of_nat k * fi_fat_size (fs_info s)) (unat (fi_fat_size (fs_info s)))"

lemma mirrored_iff: "mirrored v s \<longleftrightarrow> (\<forall>k<unat (fi_num_fats (fs_info s)). copy_at v s k = fat_image (fat s))"
  by (simp add: mirrored_def copy_at_def)

lemma only_blk_trans: "only_blk P v s s' \<Longrightarrow> only_blk P v s' s'' \<Longrightarrow> only_blk P v s s''"
  by (auto simp: only_blk_def)

lemma only_blk_refl: "fat_ok P v N s \<Longrightarrow> only_blk P v s s"
  by (auto simp: only_blk_def fat_ok_def intro!: exI [of _ "blk s"])

lemma length_fat_image: "length (fat_image t) = 4 * length t"
  unfolding fat_image_def by (subst length_concat_const [of _ 4]) (auto simp: bytes32_def)

lemma copies_apart:
  assumes "fat_ok P v N s" "k < unat (fi_num_fats (fs_info s))" "k' < unat (fi_num_fats (fs_info s))" "k \<noteq> k'"
    "i < unat (fi_fat_size (fs_info s))" "j < unat (fi_fat_size (fs_info s))"
  shows "unat (fi_fat_start_sector (fs_info s)) + k * unat (fi_fat_size (fs_info s)) + i \<noteq> unat (fi_fat_start_sector (fs_info s)) + k' * unat (fi_fat_size (fs_info s)) + j"
proof
  let ?z = "unat (fi_fat_size (fs_info s))"
  assume "unat (fi_fat_start_sector (fs_info s)) + k * ?z + i = unat (fi_fat_start_sector (fs_info s)) + k' * ?z + j"
  then have "k * ?z + i = k' * ?z + j" by simp
  then have "(k * ?z + i) div ?z = (k' * ?z + j) div ?z" by simp
  with assms(4-6) show False by (simp add: div_mult_self3)
qed

lemma flush_copy_ok:
  assumes "fat_ok P v N s" "k < unat (fi_num_fats (fs_info s))"
  obtains s' where "blockdev_write P (dev s) (fi_fat_start_sector (fs_info s) + of_nat k * fi_fat_size (fs_info s)) (ucast (fi_fat_size (fs_info s)))
      (fat_image (fat s)) (blk s) = Some (0, blk s')" "s' = s\<lparr>blk := blk s'\<rparr>" "only_blk P v s s'"
    "\<And>c. usable N c \<Longrightarrow> cluster_bytes v s' c = cluster_bytes v s c"
    "\<And>k'. k' < unat (fi_num_fats (fs_info s)) \<Longrightarrow> copy_at v s' k' = (if k' = k then fat_image (fat s) else copy_at v s k')"
proof -
  let ?i = "fs_info s" and ?z = "unat (fi_fat_size (fs_info s))"
  let ?a = "fi_fat_start_sector ?i + of_nat k * fi_fat_size ?i"
  have d: "dev_ok P v (dev s) (blk s)" "?z \<le> 255" "0 < ?z" "length (fat s) = 128 * ?z" using assms(1) by (auto simp: fat_ok_def sectors_ok_def)
  have u: "unat (ucast (fi_fat_size ?i) :: u8) = ?z" using d(2) by (rule unat_ucast8)
  then have nz: "(ucast (fi_fat_size ?i) :: u8) \<noteq> 0" using d(3) by auto
  have len: "length (fat_image (fat s)) = 512 * ?z" using d(4) by (simp add: length_fat_image)
  note pl = fat_copy_place [OF assms]
  obtain d' where d': "blockdev_write P (dev s) ?a (ucast (fi_fat_size ?i)) (fat_image (fat s)) (blk s) = Some (0, d')"
    "dev_ok P v (dev s) d'" "dev_size (dev s) d' = dev_size (dev s) (blk s)" "written_at (dev_disk v (dev s) (blk s)) ?a ?z (fat_image (fat s)) (dev_disk v (dev s) d')"
    using dev_write_ok [OF d(1) nz, of ?a "fat_image (fat s)"] pl u len by (auto simp: written_at_def)
  let ?s = "s\<lparr>blk := d'\<rparr>"
  have w: "written_at (disk v s) ?a ?z (fat_image (fat s)) (disk v ?s)" using d'(4) by (simp add: disk_def)
  have "cluster_bytes v ?s c = cluster_bytes v s c" if c: "usable N c" for c
  proof -
    have "sectors_at (disk v ?s) (fat32_cluster_to_sector s c) (spc s) = sectors_at (disk v s) (fat32_cluster_to_sector s c) (spc s)"
      using sector_of_cluster [OF assms(1) c] pl by (intro written_at_other [OF w]) linarith+
    then show ?thesis by (simp add: cluster_bytes_def)
  qed
  moreover have "copy_at v ?s k' = (if k' = k then fat_image (fat s) else copy_at v s k')" if k': "k' < unat (fi_num_fats ?i)" for k'
  proof (cases "k' = k")
    case True
    have "unat ?a + ?z \<le> 2 ^ 28" using pl by linarith
    then show ?thesis using written_at_same [OF w len] True by (simp add: copy_at_def)
  next
    case False
    note pl' = fat_copy_place [OF assms(1) k']
    have "unat (fi_fat_start_sector ?i + of_nat k' * fi_fat_size ?i) + ?z \<le> 2 ^ 28" using pl' by linarith
    then show ?thesis using False pl(1) pl'(1) copies_apart [OF assms(1,2) k'] unfolding copy_at_def
      by (simp add: written_at_other [OF w])
  qed
  ultimately show thesis using that [of ?s] d'(1-3) by (auto simp: only_blk_def)
qed

lemma flush_copies_ok:
  assumes "fat_ok P v N s" "\<forall>k\<in>set ks. k < unat (fi_num_fats (fs_info s))"
  shows "\<exists>s'. flush_copies P (fat_image (fat s)) ks s = Some (0, s') \<and> only_blk P v s s' \<and> (\<forall>c. usable N c \<longrightarrow> cluster_bytes v s' c = cluster_bytes v s c) \<and>
    (\<forall>k<unat (fi_num_fats (fs_info s)). copy_at v s' k = (if k \<in> set ks then fat_image (fat s) else copy_at v s k))"
  using assms
proof (induction ks arbitrary: s)
  case Nil
  then show ?case using only_blk_refl by auto
next
  case (Cons k ks)
  have k: "k < unat (fi_num_fats (fs_info s))" using Cons.prems(2) by simp
  obtain s1 where s1: "blockdev_write P (dev s) (fi_fat_start_sector (fs_info s) + of_nat k * fi_fat_size (fs_info s)) (ucast (fi_fat_size (fs_info s)))
      (fat_image (fat s)) (blk s) = Some (0, blk s1)" "s1 = s\<lparr>blk := blk s1\<rparr>" "only_blk P v s s1"
    "\<And>c. usable N c \<Longrightarrow> cluster_bytes v s1 c = cluster_bytes v s c"
    "\<And>k'. k' < unat (fi_num_fats (fs_info s)) \<Longrightarrow> copy_at v s1 k' = (if k' = k then fat_image (fat s) else copy_at v s k')"
    using flush_copy_ok [OF Cons.prems(1) k] by metis
  note same = only_blk_same [OF s1(3)]
  obtain s' where s': "flush_copies P (fat_image (fat s)) ks s1 = Some (0, s')" "only_blk P v s1 s'"
    "\<forall>c. usable N c \<longrightarrow> cluster_bytes v s' c = cluster_bytes v s1 c"
    "\<forall>k<unat (fi_num_fats (fs_info s)). copy_at v s' k = (if k \<in> set ks then fat_image (fat s) else copy_at v s1 k)"
    using Cons.IH [OF only_blk_ok [OF s1(3) Cons.prems(1)]] Cons.prems(2) by (auto simp: same)
  have "flush_copies P (fat_image (fat s)) (k # ks) s = Some (0, s')" using s1(1,2) s'(1) by simp
  moreover have "only_blk P v s s'" using s1(3) s'(2) by (rule only_blk_trans)
  ultimately show ?case using s1(4,5) s'(3,4) by auto
qed

lemma flush_fat_ok:
  assumes "fat_ok P v N s"
  obtains s' where "fat32_flush_fat P s = Some (0, s')" "only_blk P v s s'" "\<And>c. usable N c \<Longrightarrow> cluster_bytes v s' c = cluster_bytes v s c" "mirrored v s'"
proof -
  have m: "mounted s" "fi_fat_table (fs_info s) \<noteq> 0" using assms by (auto simp: fat_ok_def sectors_ok_def)
  obtain s' where s': "flush_copies P (fat_image (fat s)) [0..<unat (fi_num_fats (fs_info s))] s = Some (0, s')" "only_blk P v s s'"
    "\<And>c. usable N c \<Longrightarrow> cluster_bytes v s' c = cluster_bytes v s c"
    "\<forall>k<unat (fi_num_fats (fs_info s)). copy_at v s' k = fat_image (fat s)"
    using flush_copies_ok [OF assms, of "[0..<unat (fi_num_fats (fs_info s))]"] by auto
  have "mirrored v s'" using s'(4) by (simp add: mirrored_iff only_blk_same [OF s'(2)])
  then show thesis using that [of s'] s' m by (simp add: fat32_flush_fat_def)
qed


subsection \<open>Buffers\<close>

text \<open>A computation with a buffer around it: without memory nothing happens and the result is the failure; otherwise what the computation
  establishes holds, and the heap owns what it owned before.\<close>

lemma with_buffer_own:
  assumes "heap_ok (fheap s)"
    and body: "\<And>h p k. heap_ok h \<Longrightarrow> owned h = (owned (fheap s))(p \<mapsto> k) \<Longrightarrow>
      \<exists>r s'. body (s\<lparr>fheap := h\<rparr>) = Some (r, s') \<and> Q r s' \<and> heap_ok (fheap s') \<and> owned (fheap s') = owned h"
    and heap: "\<And>r s' h. Q r s' \<Longrightarrow> heap_ok h \<Longrightarrow> Q r (s'\<lparr>fheap := h\<rparr>)"
  shows "\<exists>r s'. with_buffer sz failed body s = Some (r, s') \<and> heap_ok (fheap s') \<and> owned (fheap s') = owned (fheap s) \<and>
    (r = failed \<and> s' = s \<and> (\<exists>h. kmalloc (fheap s) sz = Some (0, h)) \<or> Q r s')"
proof -
  obtain p h where m: "kmalloc (fheap s) sz = Some (p, h)" "heap_ok h" using kheap.malloc_total [OF assms(1)] by blast
  show ?thesis
  proof (cases "p = 0")
    case True
    then have "h = fheap s" using kheap.malloc_null [OF assms(1)] m(1) by blast
    then show ?thesis using True m assms(1) by (simp add: with_buffer_def)
  next
    case False
    obtain k where k: "owned (fheap s) p = None" "owned h = (owned (fheap s))(p \<mapsto> k)" using kheap.malloc_own [OF assms(1) m(1) False] by blast
    obtain r s' where b: "body (s\<lparr>fheap := h\<rparr>) = Some (r, s')" "Q r s'" "heap_ok (fheap s')" "owned (fheap s') = owned h" using body [OF m(2) k(2)] by blast
    have f: "heap_ok (kfree (fheap s') p)" "owned (kfree (fheap s') p) = (owned (fheap s'))(p := None)"
      using kheap.release_own [OF b(3), of p k] b(4) k(2) by auto
    have "owned (kfree (fheap s') p) = owned (fheap s)" using f(2) b(4) k by (simp add: fun_upd_idem)
    then show ?thesis using False m b f(1) heap [OF b(2) f(1)] by (simp add: with_buffer_def)
  qed
qed

lemma with_buffer_ok:
  assumes "heap_ok (fheap s)"
    and body: "\<And>h. heap_ok h \<Longrightarrow> \<exists>r s'. body (s\<lparr>fheap := h\<rparr>) = Some (r, s') \<and> Q r s' \<and> heap_ok (fheap s') \<and> owned (fheap s') = owned h"
    and heap: "\<And>r s' h. Q r s' \<Longrightarrow> heap_ok h \<Longrightarrow> Q r (s'\<lparr>fheap := h\<rparr>)"
  shows "\<exists>r s'. with_buffer sz failed body s = Some (r, s') \<and> heap_ok (fheap s') \<and> owned (fheap s') = owned (fheap s) \<and>
    (r = failed \<and> s' = s \<and> (\<exists>h. kmalloc (fheap s) sz = Some (0, h)) \<or> Q r s')"
  by (rule with_buffer_own [OF assms(1) body heap])

subsection \<open>Chains of clusters\<close>

text \<open>The clusters from \<open>c\<close> on, below the limit \<open>n\<close>, up to an entry that is no number of a cluster.\<close>

fun fchain :: "u32 list \<Rightarrow> nat \<Rightarrow> u32 \<Rightarrow> u32 list \<Rightarrow> bool" where
  "fchain t n c [] \<longleftrightarrow> \<not> is_data_cluster c"
| "fchain t n c (x # xs) \<longleftrightarrow> x = c \<and> 2 \<le> unat c \<and> unat c < n \<and> fchain t n (t ! unat c AND 0x0FFFFFFF) xs"

lemma data_below: "2 \<le> unat c \<Longrightarrow> unat c < n \<Longrightarrow> n \<le> 32640 \<Longrightarrow> is_data_cluster c"
  by (simp add: is_data_cluster_def FAT32_END_CLUSTER_def word_le_nat_alt word_less_nat_alt)

lemma limit_ok: "fat_ok P v N s \<Longrightarrow> N \<le> length (fat s) \<and> N \<le> 32640"
  by (auto simp: fat_ok_def sectors_ok_def)

lemma fchain_unique: "fchain t n c xs \<Longrightarrow> fchain t n c ys \<Longrightarrow> n \<le> 32640 \<Longrightarrow> xs = ys"
proof (induction t n c xs arbitrary: ys rule: fchain.induct)
  case (1 t n c)
  then show ?case using data_below [of c n] by (cases ys) auto
next
  case (2 t n c x xs)
  then show ?case using data_below [of c n] by (cases ys) auto
qed

lemma fchain_suffix: "fchain t n c (xs @ y # ys) \<Longrightarrow> fchain t n y (y # ys)"
  by (induction xs arbitrary: c) auto

lemma fchain_distinct: "fchain t n c xs \<Longrightarrow> n \<le> 32640 \<Longrightarrow> distinct xs"
proof (induction xs arbitrary: c)
  case (Cons x xs)
  have "x \<notin> set xs"
  proof
    assume "x \<in> set xs"
    then obtain as bs where xs: "xs = as @ x # bs" by (meson split_list)
    have "fchain t n c ((x # as) @ x # bs)" using Cons.prems(1) xs by auto
    then have "fchain t n x (x # bs)" by (rule fchain_suffix)
    moreover have "fchain t n x (x # xs)" using Cons.prems(1) by simp
    ultimately have "x # bs = x # xs" using Cons.prems(2) by (rule fchain_unique)
    with xs show False by simp
  qed
  with Cons show ?case by auto
qed simp

lemma fchain_usable: "fchain t n c xs \<Longrightarrow> x \<in> set xs \<Longrightarrow> 2 \<le> unat x \<and> unat x < n"
  by (induction xs arbitrary: c) auto

lemma fchain_cong: "fchain t n c xs \<Longrightarrow> (\<And>x. x \<in> set xs \<Longrightarrow> t' ! unat x = t ! unat x) \<Longrightarrow> fchain t' n c xs"
  by (induction xs arbitrary: c) auto

lemma fchain_append: "fchain t n c (xs @ ys) \<Longrightarrow> xs \<noteq> [] \<Longrightarrow> fchain t n (t ! unat (last xs) AND 0x0FFFFFFF) ys"
proof (induction xs arbitrary: c)
  case (Cons x xs)
  then show ?case by (cases xs) auto
qed simp

lemma next_cluster_ok: "fat_ok P v N s \<Longrightarrow> usable N c \<Longrightarrow> fat32_get_next_cluster s c = Some (fat s ! unat c AND 0x0FFFFFFF)"
  using limit_ok [of P v N s] by (auto simp: fat32_get_next_cluster_def fat_ok_def sectors_ok_def usable_def fat_get_def word_le_nat_alt)

lemma last_loop_ok: "fat_ok P v N s \<Longrightarrow> fchain (fat s) N c cs \<Longrightarrow> cs \<noteq> [] \<Longrightarrow> last_loop s c = Some (last cs)"
proof (induction cs arbitrary: c)
  case (Cons x cs)
  let ?f = "fat s ! unat c AND 0x0FFFFFFF"
  have c: "x = c" "unat c < N" "fchain (fat s) N ?f cs" using Cons.prems(2) by auto
  have g: "fat_get s c = Some (fat s ! unat c)" using c(2) limit_ok [OF Cons.prems(1)] by (simp add: fat_get_def)
  show ?case
  proof (cases cs)
    case Nil
    then show ?thesis using c g by (subst last_loop.simps) simp
  next
    case (Cons y ys)
    then have "is_data_cluster ?f" using c(3) data_below [of ?f "N"] limit_ok [OF Cons.prems(1)] by auto
    then show ?thesis using Cons.IH [OF Cons.prems(1) c(3)] Cons c(1) g by (subst last_loop.simps) simp
  qed
qed simp

lemma free_loop_ok:
  assumes "fchain (fat s) n c cs" "n \<le> length (fat s)" "n \<le> 32640"
  shows "\<exists>t. free_loop c s = Some (s\<lparr>fat := t\<rparr>) \<and> length t = length (fat s) \<and>
    (\<forall>i<length t. t ! i = (if i \<in> unat ` set cs then 0 else fat s ! i))"
  using assms
proof (induction cs arbitrary: c s)
  case Nil
  then show ?case by (subst free_loop.simps) (auto intro!: exI [of _ "fat s"])
next
  case (Cons x cs)
  let ?f = "fat s ! unat c AND 0x0FFFFFFF" and ?s = "s\<lparr>fat := (fat s)[unat c := FAT32_FREE_CLUSTER]\<rparr>"
  have c: "x = c" "2 \<le> unat c" "unat c < n" "fchain (fat s) n ?f cs" using Cons.prems(1) by auto
  have d: "is_data_cluster c" using data_below c(2,3) Cons.prems(3) by blast
  have g: "fat_get s c = Some (fat s ! unat c)" "fat_put c FAT32_FREE_CLUSTER s = Some ?s" using c(3) Cons.prems(2) by (auto simp: fat_get_def fat_put_def)
  have "c \<notin> set cs" using fchain_distinct [OF Cons.prems(1,3)] c(1) by simp
  then have "fchain (fat ?s) n ?f cs"
    by (intro fchain_cong [OF c(4)]) (metis fat32.select_convs(4) fat32.surjective fat32.update_convs(4) nth_list_update_neq unsigned_word_eqI)
  from Cons.IH [OF this] Cons.prems(2,3) obtain t where t: "free_loop ?f ?s = Some (?s\<lparr>fat := t\<rparr>)" "length t = length (fat s)"
    "\<forall>i<length t. t ! i = (if i \<in> unat ` set cs then 0 else fat ?s ! i)" by auto
  have "free_loop c s = Some (s\<lparr>fat := t\<rparr>)" using d g t(1) by (subst free_loop.simps) simp
  moreover have "\<forall>i<length t. t ! i = (if i \<in> unat ` set (x # cs) then 0 else fat s ! i)"
    using t(2,3) c(1) by (auto simp: nth_list_update FAT32_FREE_CLUSTER_def)
  ultimately show ?case using t(2) by blast
qed


subsection \<open>Taking and giving back clusters\<close>

definition fat_link :: "u32 \<Rightarrow> u32 \<Rightarrow> u32 list \<Rightarrow> u32 list" where
  "fat_link prev c t = (let t = t[unat c := FAT32_END_CLUSTER] in
     if is_data_cluster prev then t[unat prev := t ! unat prev AND 0xF0000000 OR c] else t)"

lemma length_fat_link [simp]: "length (fat_link prev c t) = length t"
  by (simp add: fat_link_def Let_def)

lemma find_free_ok:
  assumes "\<forall>c\<in>set cs. c < length t"
  shows "find_free t cs = Some (List.find (\<lambda>c. t ! c AND 0x0FFFFFFF = 0) cs)"
  using assms by (induction cs) (auto simp: FAT32_FREE_CLUSTER_def)

lemma find_first: "List.find Q [m..<n] = Some k \<Longrightarrow> m \<le> i \<Longrightarrow> i < k \<Longrightarrow> \<not> Q i"
proof -
  assume f: "List.find Q [m..<n] = Some k" and i: "m \<le> i" "i < k"
  then obtain j where j: "j < n - m" "k = m + j" "\<forall>l<j. \<not> Q ([m..<n] ! l)" by (auto simp: find_Some_iff)
  then have "i - m < j" "[m..<n] ! (i - m) = i" using i by auto
  with j(3) show "\<not> Q i" by metis
qed

lemma find_SomeD: "List.find Q xs = Some x \<Longrightarrow> x \<in> set xs \<and> Q x"
  by (auto simp: find_Some_iff)

text \<open>What taking a cluster establishes, whatever the heap.\<close>

definition taken :: "'d ports \<Rightarrow> ('d \<Rightarrow> chan) \<Rightarrow> nat \<Rightarrow> u32 \<Rightarrow> 'd fat32 \<Rightarrow> u32 \<Rightarrow> 'd fat32 \<Rightarrow> bool" where
  "taken P v N prev s c s' \<longleftrightarrow> fat_ok P v N s' \<and> fs_info s' = fs_info s \<and> open_files s' = open_files s \<and>
     (if c = 0 then fat s' = fat s \<and> disk v s' = disk v s
      else usable N c \<and> fat s ! unat c AND 0x0FFFFFFF = 0 \<and> (\<forall>c'. usable N c' \<longrightarrow> c' < c \<longrightarrow> fat s ! unat c' AND 0x0FFFFFFF \<noteq> 0) \<and> fat s' = fat_link prev c (fat s) \<and> cluster_bytes v s' c = replicate (csz s) 0 \<and>
        (\<forall>c'. usable N c' \<longrightarrow> c' \<noteq> c \<longrightarrow> cluster_bytes v s' c' = cluster_bytes v s c'))"

lemma taken_heap: "taken P v N prev s c s' \<Longrightarrow> heap_ok h \<Longrightarrow> taken P v N prev s c (s'\<lparr>fheap := h\<rparr>)"
  by (cases "c = 0") (auto simp: taken_def fat_ok_def)

lemma take_cluster_ok:
  assumes "fat_ok P v N s" "usable N c" "is_data_cluster prev \<Longrightarrow> usable N prev" "fat s ! unat c AND 0x0FFFFFFF = 0"
    "\<forall>c'. usable N c' \<longrightarrow> c' < c \<longrightarrow> fat s ! unat c' AND 0x0FFFFFFF \<noteq> 0"
  obtains s' where "take_cluster P prev c s = Some (0, s')" "taken P v N prev s c s'" "fheap s' = fheap s"
proof -
  have lim: "N \<le> length (fat s)" using limit_ok [OF assms(1)] by simp
  let ?s = "s\<lparr>fat := fat_link prev c (fat s)\<rparr>"
  have ok: "fat_ok P v N ?s" using assms(1) by (simp add: fat_ok_def)
  have u: "usable N c" "length (replicate (unat (cluster_size ?s)) (0 :: u8)) = csz ?s" using assms(2) cluster_size_ok [OF ok] by simp_all
  obtain s' where w: "fat32_write_cluster P c (replicate (unat (cluster_size ?s)) 0) ?s = Some (0, s')" "only_blk P v ?s s'"
    "cluster_bytes v s' c = replicate (unat (cluster_size ?s)) 0"
    "\<And>c'. usable N c' \<Longrightarrow> c' \<noteq> c \<Longrightarrow> cluster_bytes v s' c' = cluster_bytes v ?s c'"
    using write_cluster_ok [OF ok u] by metis
  have "take_cluster P prev c s = Some (0, s')"
    using w(1) assms(2,3) lim
    by (auto simp: take_cluster_def fat_put_def fat_get_def fat_link_def Let_def usable_def word_le_nat_alt)
  moreover have "taken P v N prev s c s'"
    using w(3,4) only_blk_same [OF w(2)] only_blk_ok [OF w(2) ok] assms(2,4,5) cluster_size_ok [OF assms(1)]
    by (auto simp: taken_def usable_def)
  ultimately show thesis using that [of s'] only_blk_same(5) [OF w(2)] by simp
qed

text \<open>Why no cluster could be taken: the heap has no memory for a buffer, or no cluster is free.\<close>

definition exhausted :: "nat \<Rightarrow> 'd fat32 \<Rightarrow> bool" where
  "exhausted N s \<longleftrightarrow> (\<exists>h. kmalloc (fheap s) (cluster_size s) = Some (0, h)) \<or> (\<forall>c. usable N c \<longrightarrow> fat s ! unat c AND 0x0FFFFFFF \<noteq> 0)"

lemma find_free_append: "find_free t xs = Some (Some n) \<Longrightarrow> find_free t (xs @ ys) = Some (Some n)"
  by (induction xs) (auto split: if_splits)

text \<open>The search through the table finds the first free cluster of the volume, if it has one.\<close>

lemma find_free_volume:
  assumes "fat_ok P v N s" "searchable N 1 s"
  shows "find_free (fat s) [2..<unat (fi_total_clusters (fs_info s))] = Some (List.find (\<lambda>c. fat s ! c AND 0x0FFFFFFF = 0) [2..<N])"
proof -
  have ff: "find_free (fat s) [2..<N] = Some (List.find (\<lambda>c. fat s ! c AND 0x0FFFFFFF = 0) [2..<N])"
    using limit_ok [OF assms(1)] by (intro find_free_ok) auto
  show ?thesis
  proof (cases "N = unat (fi_total_clusters (fs_info s))")
    case False
    then have "free_clusters N (fat s) \<noteq> {}" using assms(2) by (auto simp: searchable_def)
    then obtain c where "c \<in> free_clusters N (fat s)" by blast
    then have c: "2 \<le> unat c" "unat c < N" "fat s ! unat c AND 0x0FFFFFFF = 0" by (auto simp: free_clusters_def usable_def)
    then have "List.find (\<lambda>c. fat s ! c AND 0x0FFFFFFF = 0) [2..<N] \<noteq> None" by (auto simp: find_None_iff)
    then obtain n where n: "List.find (\<lambda>c. fat s ! c AND 0x0FFFFFFF = 0) [2..<N] = Some n" by blast
    have "N \<le> unat (fi_total_clusters (fs_info s))" using assms(1) by (simp add: fat_ok_def sectors_ok_def)
    then have "[2..<unat (fi_total_clusters (fs_info s))] = [2..<N] @ [N..<unat (fi_total_clusters (fs_info s))]"
      using upt_add_eq_append [of 2 N "unat (fi_total_clusters (fs_info s)) - N"] c by simp
    then show ?thesis using find_free_append [of "fat s" "[2..<N]" n] ff n by simp
  qed (use ff in simp)
qed

lemma allocate_cluster_ok:
  assumes "fat_ok P v N s" "is_data_cluster prev \<Longrightarrow> usable N prev" "searchable N 1 s"
  obtains c s' where "fat32_allocate_cluster P prev s = Some (c, s')" "taken P v N prev s c s'" "owned (fheap s') = owned (fheap s)"
    "c \<noteq> 0 \<Longrightarrow> mirrored v s'" "c = 0 \<Longrightarrow> exhausted N s' \<and> exhausted N s"
proof -
  let ?Q = "\<lambda>c s'. taken P v N prev s c s' \<and> (c = 0 \<longrightarrow> (\<forall>c. usable N c \<longrightarrow> fat s' ! unat c AND 0x0FFFFFFF \<noteq> 0))"
  let ?body = "\<lambda>s. do {
       found \<leftarrow> find_free (fat s) [2..<unat (fi_total_clusters (fs_info s))];
       case found of None \<Rightarrow> Some (0, s)
       | Some c \<Rightarrow> do { (r, s) \<leftarrow> take_cluster P prev (of_nat c) s; Some (if r \<noteq> 0 then 0 else of_nat c, s) }
     }"
  have body: "\<exists>r s'. ?body (s\<lparr>fheap := h\<rparr>) = Some (r, s') \<and> ?Q r s' \<and> heap_ok (fheap s') \<and> owned (fheap s') = owned h" if h: "heap_ok h" for h
  proof -
    let ?s = "s\<lparr>fheap := h\<rparr>"
    have ok: "fat_ok P v N ?s" using assms(1) h by (simp add: fat_ok_def)
    have ff: "find_free (fat ?s) [2..<unat (fi_total_clusters (fs_info ?s))] = Some (List.find (\<lambda>c. fat ?s ! c AND 0x0FFFFFFF = 0) [2..<N])"
      using find_free_volume [OF ok] assms(3) by (simp add: searchable_def)
    show ?thesis
    proof (cases "List.find (\<lambda>c. fat ?s ! c AND 0x0FFFFFFF = 0) [2..<N]")
      case None
      then have "fat s ! unat c AND 0x0FFFFFFF \<noteq> 0" if "usable N c" for c using that by (auto simp: find_None_iff usable_def)
      then show ?thesis using None ff h ok by (simp add: taken_def)
    next
      case (Some n)
      have n: "2 \<le> n" "n < N" "fat s ! n AND 0x0FFFFFFF = 0" using find_SomeD [OF Some] by auto
      have un: "unat (of_nat n :: u32) = n" using n(2) limit_ok [OF ok] by (simp add: unat_of_nat)
      then have us: "usable N (of_nat n)" "fat ?s ! unat (of_nat n :: u32) AND 0x0FFFFFFF = 0" "(of_nat n :: u32) \<noteq> 0" using n by (auto simp: usable_def)
      have first: "\<forall>c'. usable N c' \<longrightarrow> c' < of_nat n \<longrightarrow> fat ?s ! unat c' AND 0x0FFFFFFF \<noteq> 0"
        using find_first [OF Some] by (auto simp: usable_def word_less_nat_alt un)
      obtain s' where s': "take_cluster P prev (of_nat n) ?s = Some (0, s')" "taken P v N prev ?s (of_nat n) s'" "fheap s' = fheap ?s"
        using take_cluster_ok [OF ok us(1) _ us(2) first, of prev] assms(2) by auto
      have "taken P v N prev s (of_nat n) s'" using s'(2) us(3) by (simp add: taken_def)
      then show ?thesis using s'(1,3) ff Some h us(3) by simp
    qed
  qed
  have keep: "?Q c (s'\<lparr>fheap := h\<rparr>)" if "?Q c s'" "heap_ok h" for c s' h using that taken_heap by auto
  have hp: "heap_ok (fheap s)" using assms(1) by (simp add: fat_ok_def)
  obtain c s1 where s1: "with_buffer (cluster_size s) 0 ?body s = Some (c, s1)" "heap_ok (fheap s1)" "owned (fheap s1) = owned (fheap s)"
    "c = 0 \<and> s1 = s \<and> (\<exists>h. kmalloc (fheap s) (cluster_size s) = Some (0, h)) \<or> ?Q c s1"
    using with_buffer_ok [OF hp, of ?body ?Q "cluster_size s" 0, OF body keep] by blast
  then have t: "taken P v N prev s c s1" using assms(1) by (auto simp: taken_def)
  then have ok1: "fat_ok P v N s1" by (simp add: taken_def)
  show thesis
  proof (cases "c = 0")
    case True
    then have "exhausted N s1 \<and> exhausted N s" using s1(4) by (auto simp: exhausted_def taken_def)
    with True show ?thesis using that [of 0 s1] s1(1,3) t unfolding fat32_allocate_cluster_def by simp
  next
    case False
    obtain s2 where s2: "fat32_flush_fat P s1 = Some (0, s2)" "only_blk P v s1 s2" "\<And>c. usable N c \<Longrightarrow> cluster_bytes v s2 c = cluster_bytes v s1 c" "mirrored v s2"
      using flush_fat_ok [OF ok1] by metis
    have "taken P v N prev s c s2"
      using t False s2(3) only_blk_same [OF s2(2)] only_blk_ok [OF s2(2) ok1] by (auto simp: taken_def usable_def)
    then show ?thesis using that [of c s2] s1(1,3) s2 False only_blk_same(5) [OF s2(2)] unfolding fat32_allocate_cluster_def by simp
  qed
qed

lemma free_chain_ok:
  assumes "fat_ok P v N s" "fchain (fat s) N c cs" "cs \<noteq> []"
  obtains s' where "fat32_free_cluster_chain P c s = Some s'" "fat_ok P v N s'" "fs_info s' = fs_info s" "open_files s' = open_files s" "fheap s' = fheap s"
    "length (fat s') = length (fat s)" "\<And>i. i < length (fat s) \<Longrightarrow> fat s' ! i = (if i \<in> unat ` set cs then 0 else fat s ! i)"
    "\<And>c. usable N c \<Longrightarrow> cluster_bytes v s' c = cluster_bytes v s c" "mirrored v s'"
proof -
  have d: "is_data_cluster c" using assms(2,3) data_below [of c "N"] limit_ok [OF assms(1)] by (cases cs) auto
  obtain t where t: "free_loop c s = Some (s\<lparr>fat := t\<rparr>)" "length t = length (fat s)" "\<forall>i<length t. t ! i = (if i \<in> unat ` set cs then 0 else fat s ! i)"
    using free_loop_ok [OF assms(2)] limit_ok [OF assms(1)] by blast
  have ok: "fat_ok P v N (s\<lparr>fat := t\<rparr>)" using assms(1) t(2) by (simp add: fat_ok_def)
  obtain s' where s': "fat32_flush_fat P (s\<lparr>fat := t\<rparr>) = Some (0, s')" "only_blk P v (s\<lparr>fat := t\<rparr>) s'"
    "\<And>c. usable N c \<Longrightarrow> cluster_bytes v s' c = cluster_bytes v (s\<lparr>fat := t\<rparr>) c" "mirrored v s'" using flush_fat_ok [OF ok] by metis
  show thesis
    by (rule that [of s']) (use d t s' only_blk_same [OF s'(2)] only_blk_ok [OF s'(2) ok] in \<open>auto simp: fat32_free_cluster_chain_def\<close>)
qed


text \<open>A chain that grows at its end.\<close>

lemma mask_28: "x AND 0x0FFFFFFF = x AND mask 28" for x :: u32
  by (simp add: mask_eq_exp_minus_1)

lemma link_value:
  assumes "unat (c :: u32) < 2 ^ 28"
  shows "(x AND 0xF0000000 OR c) AND 0x0FFFFFFF = c" "FAT32_END_CLUSTER AND 0x0FFFFFFF = FAT32_END_CLUSTER"
proof -
  have h: "(0xF0000000 :: u32) = push_bit 28 (mask 4)" by (simp add: mask_eq_exp_minus_1 push_bit_eq_mult)
  have "bit (c AND mask 28) n = bit c n" for n using small_lba [OF assms] by simp
  then have "bit c n \<longrightarrow> n < 28" for n by (auto simp: bit_and_iff bit_mask_iff)
  then show "(x AND 0xF0000000 OR c) AND 0x0FFFFFFF = c" unfolding mask_28 h by (intro bit_word_eqI) (auto simp: bit_simps)
  show "FAT32_END_CLUSTER AND 0x0FFFFFFF = FAT32_END_CLUSTER" by (simp add: FAT32_END_CLUSTER_def)
qed


definition in_use :: "u32 list \<Rightarrow> u32 list \<Rightarrow> bool" where
  "in_use t cs \<longleftrightarrow> (\<forall>x\<in>set cs. t ! unat x AND 0x0FFFFFFF \<noteq> 0)"

lemma chain_extend:
  assumes "fchain t n st cs" "cs \<noteq> []" "in_use t cs" "t ! unat c AND 0x0FFFFFFF = 0" "2 \<le> unat c" "unat c < n" "n \<le> length t" "n \<le> 32640"
  shows "fchain (fat_link (last cs) c t) n st (cs @ [c])" "in_use (fat_link (last cs) c t) (cs @ [c])" "c \<notin> set cs"
proof -
  let ?l = "last cs" and ?t = "fat_link (last cs) c t"
  show nc: "c \<notin> set cs" using assms(3,4) by (auto simp: in_use_def)
  have l: "?l \<in> set cs" using assms(2) by simp
  have u: "unat ?l < n" "2 \<le> unat ?l" using fchain_usable [OF assms(1) l] by auto
  have d: "is_data_cluster ?l" using data_below u assms(8) by blast
  have ne: "unat c \<noteq> unat ?l" using nc l by (auto simp flip: word_unat_eq_iff)
  have tl: "?t ! unat ?l AND 0x0FFFFFFF = c" using d u assms(6-8) ne link_value(1) [of c] by (simp add: fat_link_def Let_def)
  have tc: "?t ! unat c AND 0x0FFFFFFF = FAT32_END_CLUSTER" using d assms(6,7) ne link_value(2) [of c] assms(8) by (simp add: fat_link_def Let_def)
  have other: "?t ! unat x = t ! unat x" if "x \<noteq> ?l" "x \<noteq> c" for x
    using that by (simp add: fat_link_def Let_def word_unat_eq_iff)
  have e: "\<not> is_data_cluster FAT32_END_CLUSTER" "FAT32_END_CLUSTER \<noteq> 0" by (simp_all add: is_data_cluster_def FAT32_END_CLUSTER_def)
  have one: "fchain ?t n c [c]" using assms(5,6) tc e by simp
  have ext: "fchain t n a xs \<Longrightarrow> xs \<noteq> [] \<Longrightarrow> last xs = ?l \<Longrightarrow> set xs \<subseteq> set cs \<Longrightarrow> distinct xs \<Longrightarrow> fchain ?t n a (xs @ [c])" for a xs
  proof (induction xs arbitrary: a)
    case (Cons x xs)
    show ?case
    proof (cases "xs = []")
      case True
      then show ?thesis using Cons.prems tl one by simp
    next
      case False
      then have "x \<noteq> ?l" using Cons.prems(3,5) by (metis distinct.simps(2) last_ConsR last_in_set)
      moreover have "x \<noteq> c" using Cons.prems(4) nc by auto
      ultimately show ?thesis using Cons other [of x] False by auto
    qed
  qed simp
  show "fchain ?t n st (cs @ [c])" using ext [OF assms(1,2)] fchain_distinct [OF assms(1,8)] by simp
  have "c \<noteq> 0" using assms(5) by auto
  then show "in_use ?t (cs @ [c])"
    unfolding in_use_def using assms(3) tl tc e nc other by (auto simp: in_use_def) metis
qed

lemma chain_untouched:
  assumes "fchain t n st cs" "c \<notin> set cs" "is_data_cluster prev \<Longrightarrow> prev \<notin> set cs"
  shows "fchain (fat_link prev c t) n st cs"
proof (rule fchain_cong [OF assms(1)])
  fix x assume x: "x \<in> set cs"
  then have "unat c \<noteq> unat x" "is_data_cluster prev \<Longrightarrow> unat prev \<noteq> unat x" using assms(2,3) by (auto simp flip: word_unat_eq_iff)
  then show "fat_link prev c t ! unat x = t ! unat x" by (simp add: fat_link_def Let_def)
qed


subsection \<open>What the table of clusters guarantees\<close>

text \<open>A small volume for the examples: 64 sectors, one sector per cluster, one copy of the table, and the root directory in cluster 2.\<close>

definition tiny_fat :: "chan fat32" where
  "tiny_fat = \<lparr>fs_info = \<lparr>fi_device_id = 0, fi_bytes_per_sector = 512, fi_sectors_per_cluster = 1, fi_reserved_sectors = 1, fi_num_fats = 1,
       fi_fat_size = 1, fi_root_cluster = 2, fi_data_start_sector = 2, fi_fat_start_sector = 1, fi_total_clusters = 62, fi_fat_table = 0x80000C\<rparr>,
     open_files = replicate 16 no_file, mounted = True, fat = [0x0FFFFFF8, 0x0FFFFFFF, 0x0FFFFFFF] @ replicate 125 0,
     fheap = init_heap (\<lambda>_. 0), blk = one_drive\<rparr>"

lemma tiny_fat_search: "searchable 62 k tiny_fat"
  by (simp add: searchable_def tiny_fat_def)

lemma tiny_fat_ok: "fat_ok ata_machine calm 62 tiny_fat"
  using one_drive_ok init_heap_ok
  by (simp add: fat_ok_def tiny_fat_def sectors_ok_def FAT32_MAX_OPEN_FILES_def)

text \<open>C34. On a mounted volume whose table has at most 255 sectors, on a drive that completes every transfer, taking a
  cluster returns, provided that the boot sector states the size of the volume or that some cluster of it is free (otherwise the search runs off the
  end of the table). The result is 0 only if there is no memory for a buffer or no free cluster; then table and disk stay as they
  were. Otherwise the result is the first cluster that was free; its entry marks the end of a chain, the entry of the cluster before it (if there is one)
  points to it, all its bytes are zero, no other cluster changes its contents, and every copy of the table on the disk agrees with the one in memory.\<close>

theorem allocate_cluster_correct:
  assumes "fat_ok P v N s" "is_data_cluster prev \<longrightarrow> usable N prev" "searchable N 1 s"
  shows "\<exists>c s'. fat32_allocate_cluster P prev s = Some (c, s') \<and> fat_ok P v N s' \<and>
    (c = 0 \<longrightarrow> exhausted N s \<and> fat s' = fat s \<and> disk v s' = disk v s) \<and>
    (c \<noteq> 0 \<longrightarrow> usable N c \<and> fat s ! unat c AND 0x0FFFFFFF = 0 \<and> (\<forall>c'. usable N c' \<longrightarrow> c' < c \<longrightarrow> fat s ! unat c' AND 0x0FFFFFFF \<noteq> 0) \<and>
       fat s' = fat_link prev c (fat s) \<and> mirrored v s' \<and>
       cluster_bytes v s' c = replicate (csz s) 0 \<and> (\<forall>c'. usable N c' \<longrightarrow> c' \<noteq> c \<longrightarrow> cluster_bytes v s' c' = cluster_bytes v s c'))"
proof -
  obtain c s' where "fat32_allocate_cluster P prev s = Some (c, s')" "taken P v N prev s c s'" "c \<noteq> 0 \<Longrightarrow> mirrored v s'" "c = 0 \<Longrightarrow> exhausted N s"
    using allocate_cluster_ok [OF assms(1) _ assms(3), of prev] assms(2) by metis
  then show ?thesis by (auto simp: taken_def)
qed

theorem allocate_cluster_correct_witness:
  "\<exists>s'. fat32_allocate_cluster ata_machine 2 tiny_fat = Some (3, s') \<and> mirrored calm s' \<and> cluster_bytes calm s' 3 = replicate 512 0"
proof -
  have free: "usable 62 3" "fat tiny_fat ! unat (3 :: u32) AND 0x0FFFFFFF = 0" "fat tiny_fat ! unat (2 :: u32) AND 0x0FFFFFFF \<noteq> 0"
    by (simp_all add: usable_def tiny_fat_def)
  have "kmalloc (fheap tiny_fat) (cluster_size tiny_fat) \<noteq> Some (0, h)" for h
    using first_alloc [of "\<lambda>_. 0" 512 0 h] by (auto simp: tiny_fat_def cluster_size_def align16_def KERNEL_HEAP_SIZE_def HEAP_HDR_def)
  then have "\<not> exhausted 62 tiny_fat" using free(1,2) by (auto simp: exhausted_def)
  moreover have "csz tiny_fat = 512" by (simp add: tiny_fat_def)
  ultimately obtain c s' where a: "fat32_allocate_cluster ata_machine 2 tiny_fat = Some (c, s')" "mirrored calm s'" "cluster_bytes calm s' c = replicate 512 0"
    "usable 62 c" "fat tiny_fat ! unat c AND 0x0FFFFFFF = 0" "\<forall>c'. usable 62 c' \<longrightarrow> c' < c \<longrightarrow> fat tiny_fat ! unat c' AND 0x0FFFFFFF \<noteq> 0"
    using allocate_cluster_correct [OF tiny_fat_ok _ tiny_fat_search, of 2] by (auto simp: usable_def)
  have "\<not> 3 < c" using a(6) free by blast
  moreover have "c \<noteq> 2" using a(5) free(3) by auto
  ultimately have "c = 3" using a(4) by (auto simp: usable_def word_less_nat_alt word_unat_eq_iff)
  with a(1-3) show ?thesis by blast
qed

text \<open>C35. On a mounted volume whose table has at most 255 sectors, on a drive that completes every transfer, giving back a chain of clusters of
  the volume that ends with a number below 2 or with 0x0FFFFFFF (other end marks: \<open>end_marks_not_recognised\<close>) returns, however long the chain is, frees exactly its
  clusters, changes no other entry of the table and no contents, and stores the table in all its copies on the disk.\<close>

theorem free_chain_correct:
  assumes "fat_ok P v N s" "fchain (fat s) N c cs" "cs \<noteq> []"
  shows "\<exists>s'. fat32_free_cluster_chain P c s = Some s' \<and> fat_ok P v N s' \<and> mirrored v s' \<and>
    (\<forall>i<length (fat s). fat s' ! i = (if i \<in> unat ` set cs then FAT32_FREE_CLUSTER else fat s ! i)) \<and>
    (\<forall>c. usable N c \<longrightarrow> cluster_bytes v s' c = cluster_bytes v s c)"
  using free_chain_ok [OF assms] by (metis FAT32_FREE_CLUSTER_def)

theorem free_chain_correct_witness:
  "\<exists>s'. fat32_free_cluster_chain ata_machine 2 tiny_fat = Some s' \<and> fat s' ! 2 = FAT32_FREE_CLUSTER \<and> fat s' ! 1 = 0x0FFFFFFF"
proof -
  have c: "fchain (fat tiny_fat) 62 2 [2]" by (simp add: tiny_fat_def is_data_cluster_def FAT32_END_CLUSTER_def)
  obtain s' where "fat32_free_cluster_chain ata_machine 2 tiny_fat = Some s'"
    "\<forall>i<length (fat tiny_fat). fat s' ! i = (if i \<in> unat ` set [2 :: u32] then FAT32_FREE_CLUSTER else fat tiny_fat ! i)"
    using free_chain_correct [OF tiny_fat_ok c] by auto
  then show ?thesis by (auto simp: tiny_fat_def)
qed

text \<open>A chain ends, by the definition of the format, with any entry from 0x0FFFFFF8 on. The code only takes 0x0FFFFFFF for the
  end: for every other end mark, looking for the last cluster of a file, which opening the file does, uses the mark as an index into the table and reads far outside
  of it.\<close>

theorem end_marks_not_recognised:
  assumes "fat_ok P v N s" "usable N c" "0x0FFFFFF8 \<le> fat s ! unat c AND 0x0FFFFFFF" "fat s ! unat c AND 0x0FFFFFFF < 0x0FFFFFFF"
  shows "fat32_get_last_cluster s c = None"
proof -
  let ?e = "fat s ! unat c AND 0x0FFFFFFF"
  have l: "N \<le> length (fat s)" "N \<le> 32640" "length (fat s) \<le> 32640" using assms(1) by (auto simp: fat_ok_def sectors_ok_def)
  have c: "is_data_cluster c" "unat c < length (fat s)" using assms(2) l data_below [of c "N"] by (auto simp: usable_def)
  have e: "is_data_cluster ?e" "fat_get s ?e = None"
    using assms(3,4) l(3) by (auto simp: is_data_cluster_def FAT32_END_CLUSTER_def fat_get_def word_le_nat_alt word_less_nat_alt)
  have "last_loop s ?e = None" using e(2) by (subst last_loop.simps) simp
  then have "last_loop s c = None" using c(2) e(1) by (subst last_loop.simps) (simp add: fat_get_def)
  with c(1) show ?thesis by (simp add: fat32_get_last_cluster_def)
qed

theorem end_marks_not_recognised_witness:
  "fat32_get_last_cluster (tiny_fat\<lparr>fat := (fat tiny_fat)[2 := 0x0FFFFFF8]\<rparr>) 2 = None"
proof -
  have ok: "fat_ok ata_machine calm 62 (tiny_fat\<lparr>fat := (fat tiny_fat)[2 := 0x0FFFFFF8]\<rparr>)" using tiny_fat_ok by (simp add: fat_ok_def)
  have "(0x0FFFFFF8 AND 0x0FFFFFFF :: u32) = 0x0FFFFFF8" by code_simp
  then show ?thesis by (intro end_marks_not_recognised [OF ok]) (simp_all add: usable_def tiny_fat_def)
qed

text \<open>A table with a cycle of clusters, as a damaged volume may have, makes the search for the last cluster run for ever.\<close>

theorem cyclic_chain_never_ends:
  assumes "\<forall>c\<in>C. unat c < length (fat s) \<and> is_data_cluster (fat s ! unat c AND 0x0FFFFFFF) \<and> fat s ! unat c AND 0x0FFFFFFF \<in> C" "c \<in> C" "is_data_cluster c"
  shows "fat32_get_last_cluster s c = None"
proof -
  have "s' = s \<Longrightarrow> c \<notin> C" if "last_loop s' c = Some y" for s' c y
    using that
  proof (induction rule: last_loop.raw_induct [rotated 1, consumes 1])
    case (1 f s' c y)
    then show ?case using assms(1) by (fastforce simp: fat_get_def Let_def split: if_splits bind_splits)
  qed
  with assms(2,3) show ?thesis by (cases "last_loop s c") (auto simp: fat32_get_last_cluster_def)
qed

theorem cyclic_chain_never_ends_witness:
  "fat32_get_last_cluster (tiny_fat\<lparr>fat := (fat tiny_fat)[5 := 6, 6 := 5]\<rparr>) 5 = None"
proof -
  have "(5 AND 0x0FFFFFFF :: u32) = 5" "(6 AND 0x0FFFFFFF :: u32) = 6" by code_simp+
  then show ?thesis
    by (intro cyclic_chain_never_ends [of "{5, 6}"]) (auto simp: tiny_fat_def is_data_cluster_def FAT32_END_CLUSTER_def)
qed

subsection \<open>What mounting establishes\<close>

text \<open>What the boot sector \<open>b\<close> of a drive of \<open>sz\<close> sectors has to say for the clusters below \<open>N\<close> to be usable: there are reserved sectors and copies of the
  table, of at most 255 sectors each, and these clusters have entries in the table and sectors on the drive. \<open>boot_total\<close> is the number of clusters
  that mounting computes, from the 32-bit count of sectors alone.\<close>

definition boot_start :: "u8 list \<Rightarrow> nat" where
  "boot_start b = unat (boot16 b 14) + unat (b ! 16) * unat (boot32 b 36)"

definition boot_total :: "u8 list \<Rightarrow> u32" where
  "boot_total b = (boot32 b 32 - of_nat (boot_start b)) div ucast (b ! 13)"

definition volume_fits :: "u8 list \<Rightarrow> nat \<Rightarrow> nat \<Rightarrow> bool" where
  "volume_fits b N sz \<longleftrightarrow> 0 < unat (b ! 13) \<and> 0 < unat (boot16 b 14) \<and> 0 < unat (b ! 16) \<and> unat (boot32 b 36) \<le> 255 \<and>
     boot_start b + (N - 2) * unat (b ! 13) \<le> sz \<and> N \<le> 128 * unat (boot32 b 36) \<and> N \<le> unat (boot_total b)"

lemma boot_words:
  assumes "unat (boot32 b 36) \<le> 255"
  shows "boot_start b < 2 ^ 17" "ucast (boot16 b 14) + ucast (b ! 16) * boot32 b 36 = (of_nat (boot_start b) :: u32)"
    "unat (of_nat (boot_start b) :: u32) = boot_start b"
proof -
  have u: "(of_nat (unat (b ! 16)) :: u32) = ucast (b ! 16)" "(of_nat (unat (boot16 b 14)) :: u32) = ucast (boot16 b 14)"
    by simp_all
  have "unat (boot16 b 14) < 2 ^ 16" "unat (b ! 16) < 2 ^ 8"
    using unsigned_less [of "boot16 b 14", where ?'a = nat] unsigned_less [of "b ! 16", where ?'a = nat] by simp_all
  moreover have "unat (b ! 16) * unat (boot32 b 36) \<le> 255 * 255" using assms \<open>unat (b ! 16) < 2 ^ 8\<close> by (intro mult_le_mono) simp_all
  ultimately show l: "boot_start b < 2 ^ 17" by (simp add: boot_start_def)
  show "ucast (boot16 b 14) + ucast (b ! 16) * boot32 b 36 = (of_nat (boot_start b) :: u32)"
    using u by (simp add: boot_start_def)
  show "unat (of_nat (boot_start b) :: u32) = boot_start b" using l by (simp add: unat_of_nat)
qed

lemma length_fat_words: "length (fat_words bs) = length bs div 4"
  by (simp add: fat_words_def chunks_def)

text \<open>C33. Mounting a drive that completes every transfer, with a valid boot sector, at least one copy of a table of at most 255 sectors, and whatever
  count of sectors it states, gives a volume for which all the properties of files and clusters hold, for the clusters below any \<open>N\<close> that the table and the drive
  have and the computed number of clusters admits. The table in memory is the first copy on the disk, and mounting writes nothing. The only other outcome is that there is no memory for the table.\<close>

theorem fat32_mount_establishes:
  assumes "\<not> mounted s" "dev_ok P v device (blk s)" "heap_ok (fheap s)" "length (open_files s) = FAT32_MAX_OPEN_FILES"
    "dev_disk v device (blk s) 0 = b" "fat32_validate_boot_sector b = 0" "volume_fits b N (dev_size device (blk s))"
  shows "\<exists>r s'. fat32_mount P device s = Some (r, s') \<and> dev_disk v device (blk s') = dev_disk v device (blk s) \<and>
    (r = 0 \<and> fat_ok P v N s' \<and> fi_total_clusters (fs_info s') = boot_total b \<and> fi_fat_size (fs_info s') = boot32 b 36 \<and>
       fat s' = fat_words (sectors_at (disk v s') (fi_fat_start_sector (fs_info s')) (unat (fi_fat_size (fs_info s')))) \<or>
     r = -1 \<and> \<not> mounted s' \<and> (\<exists>h. kmalloc (fheap s) (boot32 b 36 * 512) = Some (0, h)))"
proof -
  let ?z = "boot32 b 36"
  have g: "0 < unat (b ! 13)" "0 < unat (boot16 b 14)" "0 < unat (b ! 16)" "unat ?z \<le> 255" "boot_start b + (N - 2) * unat (b ! 13) \<le> dev_size device (blk s)"
    "N \<le> 128 * unat ?z" "N \<le> unat (boot_total b)" using assms(7) by (auto simp: volume_fits_def)
  have b: "?z \<noteq> 0" "boot16 b 11 = 512" using assms(6) by (auto simp: fat32_validate_boot_sector_def split: if_splits)
  have z: "0 < unat ?z" "unat (ucast ?z :: u8) = unat ?z" "(ucast ?z :: u8) \<noteq> 0"
    using b(1) unat_ucast8 [OF g(4)] by (auto simp: unat_gt_0) (simp add: word_unat_eq_iff)
  note bw = boot_words [OF g(4)]
  have sp: "(ucast (b ! 13) :: u32) \<noteq> 0" "unat (ucast (b ! 13) :: u32) = unat (b ! 13)" "unat (b ! 13) \<le> 255"
    "unat (ucast (b ! 16) :: u32) = unat (b ! 16)" "unat (b ! 16) \<le> 255" "unat (ucast (boot16 b 14) :: u32) = unat (boot16 b 14)"
    using g(1) unsigned_less [of "b ! 13", where ?'a = nat] unsigned_less [of "b ! 16", where ?'a = nat]
      unsigned_less [of "boot16 b 14", where ?'a = nat]
    by (auto simp: unsigned_ucast_eq take_bit_nat_eq_self word_unat_eq_iff)
  have start: "unat (boot16 b 14) + unat ?z \<le> boot_start b" using g(3) by (simp add: boot_start_def)
  have one: "unat (0 :: u32) + unat (1 :: u8) \<le> dev_size device (blk s)" using start g(2,5) by simp
  obtain d where d: "blockdev_read P device 0 1 (blk s) = (0, b, d)" "dev_ok P v device d" "dev_disk v device d = dev_disk v device (blk s)" "dev_size device d = dev_size device (blk s)"
    using dev_read_ok [OF assms(2) _ one] assms(5) by (auto simp: sectors_at_def)
  define i where "i = \<lparr>fi_device_id = device, fi_bytes_per_sector = 512, fi_sectors_per_cluster = ucast (b ! 13),
           fi_reserved_sectors = ucast (boot16 b 14), fi_num_fats = ucast (b ! 16), fi_fat_size = ?z, fi_root_cluster = boot32 b 44,
           fi_data_start_sector = of_nat (boot_start b), fi_fat_start_sector = ucast (boot16 b 14),
           fi_total_clusters = boot_total b, fi_fat_table = fi_fat_table (fs_info s)\<rparr>"
  have info: "boot_info device b (fi_fat_table (fs_info s)) = Some i"
    using sp(1) b(2) bw(2) by (simp add: boot_info_def i_def boot_total_def Let_def)
  obtain p h where k: "kmalloc (fheap s) (?z * 512) = Some (p, h)" "heap_ok h" using kheap.malloc_total [OF assms(3)] by blast
  have fb: "unat (?z * 512) = unat ?z * 512" using g(4) by (simp add: unat_word_ariths)
  have rd: "unat (ucast (boot16 b 14) :: u32) + unat (ucast ?z :: u8) \<le> dev_size device d" using start g(5) sp(6) z(2) d(4) by simp
  obtain d2 where d2: "blockdev_read P device (ucast (boot16 b 14)) (ucast ?z) d = (0, sectors_at (dev_disk v device d) (ucast (boot16 b 14)) (unat ?z), d2)"
    "dev_ok P v device d2" "dev_disk v device d2 = dev_disk v device d" "dev_size device d2 = dev_size device d"
    using dev_read_ok [OF d(2) z(3) rd] z(2) by auto
  let ?t = "sectors_at (dev_disk v device d) (ucast (boot16 b 14)) (unat ?z)"
  have lt: "length ?t = 512 * unat ?z" using registered.sector_length [OF d(2)] by (intro length_sectors_at) auto
  let ?s = "s\<lparr>fs_info := i\<lparr>fi_fat_table := p\<rparr>, fheap := h, blk := d2, fat := fat_words ?t, mounted := True\<rparr>"
  show ?thesis
  proof (cases "p = 0")
    case True
    then have "fat32_mount P device s = Some (-1, s\<lparr>blk := d, fs_info := i\<lparr>fi_fat_table := 0\<rparr>, fheap := h, fat := []\<rparr>)"
      using assms(1,6) d(1) info k(1) by (simp add: fat32_mount_def i_def Let_def)
    then show ?thesis using True k(1) d(3) assms(1) by auto
  next
    case False
    have dh: "drop (512 * unat ?z) (heap_bytes h p (unat ?z * 512)) = []" by (simp add: heap_bytes_def)
    have run: "fat32_mount P device s = Some (0, ?s)"
      using assms(1,6) d(1) info k(1) False d2(1) lt fb dh by (simp add: fat32_mount_def i_def Let_def)
    have "sectors_ok (i\<lparr>fi_fat_table := p\<rparr>) N (128 * unat ?z) (dev_size device d2)"
      using False g sp bw z d(4) d2(4) assms(2) by (simp add: sectors_ok_def i_def dev_ok_def boot_start_def)
    then have "fat_ok P v N ?s" using lt d2(2) k(2) assms(4) by (simp add: fat_ok_def i_def length_fat_words)
    moreover have "fat ?s = fat_words (sectors_at (disk v ?s) (fi_fat_start_sector (fs_info ?s)) (unat (fi_fat_size (fs_info ?s))))"
      using d2(3) by (simp add: disk_def i_def)
    moreover have "fi_total_clusters (fs_info ?s) = boot_total b" "fi_fat_size (fs_info ?s) = ?z" "dev_disk v device (blk ?s) = dev_disk v device (blk s)" using d(3) d2(3) by (simp_all add: i_def)
    ultimately show ?thesis using run by blast
  qed
qed

text \<open>The fields that mounting reads of the boot sector of the image that comes with the system, \<^verbatim>\<open>test_fat32.img\<close>: 32768 sectors, stated in the 16-bit field only, one sector per cluster, 32 reserved
  sectors and two copies of a table of 252 sectors. A drive with this sector in front and zeroes behind it, before the volume is mounted.\<close>

definition image_boot :: "u8 list" where
  "image_boot = (replicate 512 0)[12 := 2, 13 := 1, 14 := 32, 16 := 2, 20 := 0x80, 36 := 252, 44 := 2, 510 := 0x55, 511 := 0xAA]"

definition image_drive :: "chan blockdev" where
  "image_drive = (let drive = no_drive\<lparr>base_port := 0x1F0, drive_exists := 1, drive_sectors := 32768\<rparr>
     in \<lparr>devices = ide_info 0 drive # replicate 7 no_device, device_count = 1,
         ide = \<lparr>drives = drive # replicate 3 no_drive, drive_count = 1,
           hw = blank_chan\<lparr>c_disk := \<lambda>_ l. if l = 0 then words_of_bytes image_boot else replicate 256 0\<rparr>\<rparr>\<rparr>)"

definition image_unmounted :: "chan fat32" where
  "image_unmounted = \<lparr>fs_info = no_fs, open_files = replicate 16 no_file, mounted = False, fat = [], fheap = init_heap (\<lambda>_. 0), blk = image_drive\<rparr>"

lemma boot32_nth: "i + 4 \<le> length b \<Longrightarrow> boot32 b i = ucast (b ! i) OR push_bit 8 (ucast (b ! (i + 1))) OR push_bit 16 (ucast (b ! (i + 2))) OR push_bit 24 (ucast (b ! (i + 3)))"
  by (simp add: boot32_def word32_def)

lemma image_boot_fields:
  "length image_boot = 512" "image_boot ! 13 = 1" "image_boot ! 16 = 2" "boot16 image_boot 14 = 32" "boot32 image_boot 36 = 252" "boot32 image_boot 32 = 0"
  "fat32_validate_boot_sector image_boot = 0"
proof -
  have n: "image_boot ! i = (if i = 12 then 2 else if i = 13 then 1 else if i = 14 then 32 else if i = 16 then 2 else if i = 20 then 0x80 else
     if i = 36 then 252 else if i = 44 then 2 else if i = 510 then 0x55 else if i = 511 then 0xAA else 0)" if "i < 512" for i
    using that unfolding image_boot_def by (simp add: nth_list_update)
  show l: "length image_boot = 512" by (simp add: image_boot_def)
  show "image_boot ! 13 = 1" "image_boot ! 16 = 2" by (simp_all add: n)
  show r: "boot16 image_boot 14 = 32" "boot32 image_boot 36 = 252" "boot32 image_boot 32 = 0" by (simp_all add: boot16_def boot32_nth l n)
  have "(0x55 OR push_bit 8 0xAA :: u16) = 0xAA55" "(push_bit 8 2 :: u16) = 512" by code_simp+
  then have "boot16 image_boot 510 = 0xAA55" "boot16 image_boot 22 = 0" "boot16 image_boot 11 = 512" by (simp_all add: boot16_def n)
  with r show "fat32_validate_boot_sector image_boot = 0" by (simp add: fat32_validate_boot_sector_def)
qed

lemma image_drive_ok: "dev_ok ata_machine calm 0 image_drive" "dev_size 0 image_drive = 32768" "dev_disk calm 0 image_drive 0 = image_boot"
proof -
  have w: "length (words_of_bytes bs) = length bs div 2" for bs by (induction bs rule: words_of_bytes.induct) auto
  show s: "dev_size 0 image_drive = 32768" by (simp add: dev_size_def image_drive_def Let_def ide_info_def)
  then show "dev_ok ata_machine calm 0 image_drive"
    using ata_machine_ok w image_boot_fields(1)
    by (simp add: dev_ok_def image_drive_def Let_def ide_info_def BLOCKDEV_TYPE_IDE_def drive_ok_def dev_drive_def IDE_MAX_DRIVES_def
        no_drive_def quiet_def calm_def [of "_ :: chan"] blank_chan_def)
  show "dev_disk calm 0 image_drive 0 = image_boot"
    using image_boot_fields(1) bytes_of_words_of_bytes [of image_boot]
    by (simp add: dev_disk_def drive_disk_def image_drive_def Let_def ide_info_def dev_drive_def calm_def [of "_ :: chan"])
qed

text \<open>The volume of the image: mounting succeeds and everything about clusters below 32234, all that the drive has, is covered. But the number of clusters that mounting computes is far beyond the table,
  because the 32-bit count of sectors is zero.\<close>

theorem fat32_mount_establishes_witness:
  "\<exists>s'. fat32_mount ata_machine 0 image_unmounted = Some (0, s') \<and> fat_ok ata_machine calm 32234 s' \<and>
    fi_total_clusters (fs_info s') = 4294966760 \<and> length (fat s') = 32256"
proof -
  let ?s = image_unmounted
  note f = image_boot_fields
  have st: "boot_start image_boot = 536" by (simp add: boot_start_def f)
  have t: "boot_total image_boot = 4294966760" by (simp add: boot_total_def f st)
  have v: "volume_fits image_boot 32234 (dev_size 0 (blk ?s))" using image_drive_ok(2) by (simp add: volume_fits_def f st t image_unmounted_def)
  have m: "kmalloc (fheap ?s) (boot32 image_boot 36 * 512) \<noteq> Some (0, h)" for h
    using first_alloc [of "\<lambda>_. 0" "252 * 512" 0 h] by (auto simp: f image_unmounted_def align16_def KERNEL_HEAP_SIZE_def HEAP_HDR_def)
  have p: "\<not> mounted ?s" "dev_ok ata_machine calm 0 (blk ?s)" "heap_ok (fheap ?s)" "length (open_files ?s) = FAT32_MAX_OPEN_FILES" "dev_disk calm 0 (blk ?s) 0 = image_boot"
    using image_drive_ok init_heap_ok by (simp_all add: image_unmounted_def FAT32_MAX_OPEN_FILES_def)
  obtain s' where s': "fat32_mount ata_machine 0 ?s = Some (0, s')" "fat_ok ata_machine calm 32234 s'" "fi_total_clusters (fs_info s') = boot_total image_boot"
    "fi_fat_size (fs_info s') = boot32 image_boot 36"
    using fat32_mount_establishes [OF p f(7) v] m by blast
  moreover have "length (fat s') = 32256" using s'(2,4) f(5) by (simp add: fat_ok_def sectors_ok_def)
  ultimately show ?thesis using t by auto
qed

end
