(* ===== verification/Fat32_Files.thy ===== *)
theory Fat32_Files
  imports Fat32_Chains
begin

unbundle bit_operations_syntax

text \<open>
  Open files of the FAT32 file system as lists of bytes: the contents of a file are the bytes of the clusters of its chain, up to its size. Reading
  returns a stretch of them, and writing replaces a stretch, taking new clusters where the file grows; neither touches the clusters of
  another file.
\<close>

subsection \<open>Contents of a chain\<close>

definition chain_data :: "('d \<Rightarrow> chan) \<Rightarrow> 'd fat32 \<Rightarrow> u32 list \<Rightarrow> u8 list" where
  "chain_data v s cs = concat (map (cluster_bytes v s) cs)"

lemma drop_concat_const: "\<forall>xs\<in>set xss. length xs = B \<Longrightarrow> k \<le> length xss \<Longrightarrow> drop (k * B) (concat xss) = concat (drop k xss)"
proof (induction xss arbitrary: k)
  case (Cons xs xss)
  then show ?case by (cases k) auto
qed simp

lemma take_concat_const: "\<forall>xs\<in>set xss. length xs = B \<Longrightarrow> k \<le> length xss \<Longrightarrow> take (k * B) (concat xss) = concat (take k xss)"
proof (induction xss arbitrary: k)
  case (Cons xs xss)
  then show ?case by (cases k) auto
qed simp

lemma concat_slice:
  assumes "\<forall>xs\<in>set xss. length xs = B" "k < length xss" "off + m \<le> B"
  shows "take m (drop (k * B + off) (concat xss)) = take m (drop off (xss ! k))"
proof -
  have "drop (k * B) (concat xss) = xss ! k @ concat (drop (Suc k) xss)"
    using drop_concat_const [OF assms(1), of k] assms(2) by (simp add: Cons_nth_drop_Suc [symmetric])
  then have "drop (k * B + off) (concat xss) = drop off (xss ! k @ concat (drop (Suc k) xss))" by (metis add.commute drop_drop)
  moreover have "length (xss ! k) = B" using assms(1,2) by simp
  ultimately show ?thesis using assms(3) by simp
qed


lemma blocks_ok: "fat_ok P v N s \<Longrightarrow> \<forall>xs\<in>set (map (cluster_bytes v s) cs). length xs = csz s"
  using length_cluster_bytes by auto

lemma length_chain_data: "fat_ok P v N s \<Longrightarrow> length (chain_data v s cs) = length cs * csz s"
  unfolding chain_data_def using length_concat_const [OF blocks_ok] by (metis length_map mult.commute)

lemma chain_length:
  assumes "fat_ok P v N s" "fchain (fat s) N c cs"
  shows "length cs * csz s < 2 ^ 32"
proof -
  have d: "distinct cs" using fchain_distinct [OF assms(2)] limit_ok [OF assms(1)] by simp
  have "unat ` set cs \<subseteq> {..<N}" using fchain_usable [OF assms(2)] by auto
  then have "card (unat ` set cs) \<le> N" using card_mono [of "{..<N}"] by fastforce
  moreover have "card (unat ` set cs) = length cs" using d by (simp add: card_image inj_on_def distinct_card flip: word_unat_eq_iff)
  ultimately have "length cs \<le> 32640" using limit_ok [OF assms(1)] by simp
  moreover have "csz s \<le> 130560" using assms(1) by (auto simp: fat_ok_def sectors_ok_def)
  ultimately have "length cs * csz s \<le> 32640 * 130560" by (rule mult_le_mono)
  then show ?thesis by simp
qed

lemma fchain_next:
  assumes "fchain t n c cs" "k < length cs"
  shows "if Suc k < length cs then t ! unat (cs ! k) AND 0x0FFFFFFF = cs ! Suc k else \<not> is_data_cluster (t ! unat (cs ! k) AND 0x0FFFFFFF)"
proof -
  have s: "cs = take k cs @ cs ! k # drop (Suc k) cs" using assms(2) by (rule id_take_nth_drop)
  have "fchain t n (cs ! k) (cs ! k # drop (Suc k) cs)" using fchain_suffix [of t n c "take k cs" "cs ! k" "drop (Suc k) cs"] assms(1) s by simp
  then have r: "fchain t n (t ! unat (cs ! k) AND 0x0FFFFFFF) (drop (Suc k) cs)" by simp
  show ?thesis
  proof (cases "Suc k < length cs")
    case True
    then have "drop (Suc k) cs = cs ! Suc k # drop (Suc (Suc k)) cs" by (simp add: Cons_nth_drop_Suc)
    with r True show ?thesis by simp
  next
    case False
    with r show ?thesis by simp
  qed
qed


subsection \<open>Open files\<close>

text \<open>Where the file stands: \<open>k\<close> is the index of the current cluster in the chain. At the end of the chain the file either still stands behind the last byte of
  its last cluster (after a write) or on no cluster (after a read).\<close>

definition cursor :: "'d fat32 \<Rightarrow> fat32_file \<Rightarrow> u32 list \<Rightarrow> nat \<Rightarrow> bool" where
  "cursor s f cs k \<longleftrightarrow> unat (ff_position f) = k * csz s + unat (ff_cluster_position f) \<and>
     (k < length cs \<and> ff_current_cluster f = cs ! k \<and> unat (ff_cluster_position f) \<le> csz s \<or>
      k = length cs \<and> \<not> is_data_cluster (ff_current_cluster f) \<and> ff_cluster_position f = 0)"

definition file_ok :: "nat \<Rightarrow> 'd fat32 \<Rightarrow> fat32_file \<Rightarrow> u32 list \<Rightarrow> bool" where
  "file_ok N s f cs \<longleftrightarrow> ff_in_use f \<and> fchain (fat s) N (ff_start_cluster f) cs \<and> Fat32_Chains.in_use (fat s) cs \<and>
     (if cs = [] then unat (ff_start_cluster f) < 2 else ff_last_cluster f = last cs) \<and>
     unat (ff_position f) \<le> unat (ff_file_size f) \<and> unat (ff_file_size f) \<le> length cs * csz s \<and> (\<exists>k. cursor s f cs k)"

definition contents :: "('d \<Rightarrow> chan) \<Rightarrow> 'd fat32 \<Rightarrow> fat32_file \<Rightarrow> u32 list \<Rightarrow> u8 list" where
  "contents v s f cs = take (unat (ff_file_size f)) (chain_data v s cs)"

lemma length_contents: "fat_ok P v N s \<Longrightarrow> file_ok N s f cs \<Longrightarrow> length (contents v s f cs) = unat (ff_file_size f)"
  by (simp add: contents_def length_chain_data file_ok_def min_absorb2)

text \<open>Steps that only use the drive and move one open file.\<close>

definition moved :: "'d ports \<Rightarrow> ('d \<Rightarrow> chan) \<Rightarrow> nat \<Rightarrow> nat \<Rightarrow> 'd fat32 \<Rightarrow> 'd fat32 \<Rightarrow> bool" where
  "moved P v N fd s s' \<longleftrightarrow> fat_ok P v N s' \<and> fs_info s' = fs_info s \<and> fat s' = fat s \<and> disk v s' = disk v s \<and> fheap s' = fheap s \<and>
     (\<exists>f. open_files s' = (open_files s)[fd := f])"

lemma moved_trans: "moved P v N fd s s1 \<Longrightarrow> moved P v N fd s1 s2 \<Longrightarrow> moved P v N fd s s2"
  by (auto simp: moved_def)

lemma moved_same: "moved P v N fd s s' \<Longrightarrow> cluster_bytes v s' c = cluster_bytes v s c \<and> cluster_size s' = cluster_size s"
  by (auto simp: moved_def cluster_bytes_def fat32_cluster_to_sector_def cluster_size_def)

lemma moved_chain_data: "moved P v N fd s s' \<Longrightarrow> chain_data v s' cs = chain_data v s cs"
  unfolding chain_data_def using moved_same [of P v N fd s s'] by (intro arg_cong [where f = concat] map_cong) simp_all

lemma nth_usable: "fat_ok P v N s \<Longrightarrow> fchain (fat s) N c cs \<Longrightarrow> k < length cs \<Longrightarrow> usable N (cs ! k) \<and> is_data_cluster (cs ! k)"
  using fchain_usable [of "fat s" "N" c cs "cs ! k"] data_below [of "cs ! k" "N"] limit_ok [of P v N s] by (auto simp: usable_def)

text \<open>One turn of the loop of a read.\<close>

lemma read_turn:
  assumes ok: "fat_ok P v N s" and fd: "fd < length (open_files s)" and f: "open_files s ! fd = f"
    and ch: "fchain (fat s) N st cs" and cur: "cursor s f cs k" and k: "k < length cs"
    and rem: "length dest < unat sz" and le: "unat (ff_position f) + (unat sz - length dest) < 2 ^ 32"
  defines "b \<equiv> min (unat sz - length dest) (csz s - unat (ff_cluster_position f))"
  obtains s' f' where "read_loop P fd sz dest s = read_loop P fd sz (dest @ take b (drop (unat (ff_position f)) (chain_data v s cs))) s'"
    "moved P v N fd s s'" "open_files s' ! fd = f'" "f' = f\<lparr>ff_position := ff_position f', ff_cluster_position := ff_cluster_position f', ff_current_cluster := ff_current_cluster f'\<rparr>"
    "unat (ff_position f') = unat (ff_position f) + b" "\<exists>k'. cursor s f' cs k'" "b = 0 \<Longrightarrow> ff_cluster_position f' = 0"
proof -
  have cs: "unat (cluster_size s) = csz s" "0 < csz s" "csz s < 2 ^ 17" using cluster_size_ok [OF ok] by auto
  have c: "ff_current_cluster f = cs ! k" "unat (ff_cluster_position f) \<le> csz s" "unat (ff_position f) = k * csz s + unat (ff_cluster_position f)"
    using cur k by (auto simp: cursor_def)
  have u: "usable N (cs ! k)" "is_data_cluster (cs ! k)" using nth_usable [OF ok ch k] by auto
  obtain s1 where s1: "fat32_read_cluster P (cs ! k) s = (0, cluster_bytes v s (cs ! k), s1)" "only_blk P v s s1" "disk v s1 = disk v s"
    using read_cluster_ok [OF ok u(1)] by metis
  note same = only_blk_same [OF s1(2)]
  have ok1: "fat_ok P v N s1" using only_blk_ok [OF s1(2) ok] .
  have "length dest < 4294967296" by (rule less_trans [OF rem unat_u32_bound])
  then have ld: "unat (of_nat (length dest) :: u32) = length dest" by (simp add: unat_of_nat)
  have lt: "(of_nat (length dest) :: u32) < sz" using rem ld by (simp add: word_less_nat_alt)
  have us: "unat (sz - of_nat (length dest)) = unat sz - length dest" using lt ld by (simp add: unat_sub order_less_imp_le)
  have uc: "unat (cluster_size s - ff_cluster_position f) = csz s - unat (ff_cluster_position f)" using c(2) cs(1) by (simp add: unat_sub word_le_nat_alt)
  define w where "w = piece_size (sz - of_nat (length dest)) (cluster_size s - ff_cluster_position f)"
  have ub: "unat w = b" unfolding w_def b_def piece_size_def using us uc by (simp add: word_less_nat_alt min_def)
  define f1 where "f1 = f\<lparr>ff_position := ff_position f + w, ff_cluster_position := ff_cluster_position f + w\<rparr>"
  have p1: "unat (ff_position f + w) = unat (ff_position f) + b" using le ub b_def by (intro trans [OF unat_plus_simple32]) auto
  have q1: "unat (ff_cluster_position f + w) = unat (ff_cluster_position f) + b"
    using c(2) cs(3) ub b_def by (intro trans [OF unat_plus_simple32]) auto
  define nx where "nx = fat s ! unat (cs ! k) AND 0x0FFFFFFF"
  have nxt: "fat32_get_next_cluster s1 (cs ! k) = Some nx" using next_cluster_ok [OF ok1] u(1) same by (simp add: nx_def)
  define f2 where "f2 = (if cluster_size s \<le> ff_cluster_position f1 then f1\<lparr>ff_current_cluster := nx, ff_cluster_position := 0\<rparr> else f1)"
  have adv: "read_advance s1 w f = Some f2" using nxt c(1) same by (simp add: read_advance_def f2_def f1_def Let_def)
  define s2 where "s2 = upd_file fd (\<lambda>_. f2) s1"
  have slice: "take b (drop (unat (ff_cluster_position f)) (cluster_bytes v s (cs ! k))) = take b (drop (unat (ff_position f)) (chain_data v s cs))"
    unfolding chain_data_def c(3) using concat_slice [OF blocks_ok [OF ok], of k cs "unat (ff_cluster_position f)" b] k c(2) b_def by simp
  have lb: "\<not> length (cluster_bytes v s (cs ! k)) < unat (ff_cluster_position f) + b" using length_cluster_bytes [OF ok] c(2) b_def by simp
  have "read_loop P fd sz dest s = read_loop P fd sz (dest @ take b (drop (unat (ff_position f)) (chain_data v s cs))) s2"
    using lt u(2) adv slice lb ub
    by (subst read_loop.simps) (simp add: Let_def f c(1) is_data_cluster_def s1(1) same w_def [symmetric] s2_def)
  moreover have "moved P v N fd s s2"
    using ok1 same s1(3) fd by (auto simp: moved_def s2_def upd_file_def fat_ok_def)
  moreover have o2: "open_files s2 ! fd = f2" using fd same by (simp add: s2_def upd_file_def)
  moreover have "\<exists>k'. cursor s f2 cs k'"
  proof (cases "cluster_size s \<le> ff_cluster_position f1")
    case True
    then have q: "unat (ff_cluster_position f) + b = csz s" using q1 cs(1) c(2) b_def by (auto simp: f1_def word_le_nat_alt)
    have "cursor s f2 cs (Suc k)"
      using True q p1 c(3) k fchain_next [OF ch k] by (auto simp: cursor_def f2_def f1_def nx_def split: if_splits)
    then show ?thesis ..
  next
    case False
    then have "cursor s f2 cs k" using p1 q1 c k b_def by (simp add: cursor_def f2_def f1_def)
    then show ?thesis ..
  qed
  moreover have "ff_cluster_position f2 = 0" if "b = 0"
  proof -
    have "unat (ff_cluster_position f) = csz s" using that rem c(2) by (auto simp: b_def)
    then show ?thesis using q1 that cs(1) by (simp add: f2_def f1_def word_le_nat_alt)
  qed
  ultimately show thesis
    by (intro that [of s2 f2]) (auto simp: f2_def f1_def p1)
qed


text \<open>Only the place where the file stands differs.\<close>

definition same_file :: "fat32_file \<Rightarrow> fat32_file \<Rightarrow> bool" where
  "same_file f f' \<longleftrightarrow> f' = f\<lparr>ff_position := ff_position f', ff_cluster_position := ff_cluster_position f', ff_current_cluster := ff_current_cluster f'\<rparr>"

lemma same_file_fields:
  "same_file f f' \<Longrightarrow> ff_start_cluster f' = ff_start_cluster f \<and> ff_file_size f' = ff_file_size f \<and> ff_last_cluster f' = ff_last_cluster f \<and>
     ff_dir_cluster f' = ff_dir_cluster f \<and> ff_dir_entry_cluster f' = ff_dir_entry_cluster f \<and> ff_dir_entry_index f' = ff_dir_entry_index f \<and> ff_in_use f' = ff_in_use f"
  unfolding same_file_def by (metis fat32_file.select_convs fat32_file.surjective fat32_file.update_convs(2,4,5))

lemma same_file_trans: "same_file f f1 \<Longrightarrow> same_file f1 f2 \<Longrightarrow> same_file f f2"
  using same_file_fields [of f f1] same_file_fields [of f1 f2] unfolding same_file_def by (cases f2; cases f1; cases f) simp

lemma cursor_cong: "fs_info s' = fs_info s \<Longrightarrow> cursor s' f cs k = cursor s f cs k"
  by (simp add: cursor_def)

lemma take_drop_split: "b \<le> n \<Longrightarrow> take n (drop p xs) = take b (drop p xs) @ take (n - b) (drop (p + b) xs)"
  by (metis add.commute drop_drop le_add_diff_inverse take_add)

lemma file_read_loop_ok:
  assumes "fat_ok P v N s" "fd < length (open_files s)" "open_files s ! fd = f" "fchain (fat s) N st cs" "cursor s f cs k"
    "length dest \<le> unat sz" "unat (ff_position f) + (unat sz - length dest) \<le> length cs * csz s"
  shows "\<exists>s' f'. read_loop P fd sz dest s = Some (Some (dest @ take (unat sz - length dest) (drop (unat (ff_position f)) (chain_data v s cs))), s') \<and>
    moved P v N fd s s' \<and> open_files s' ! fd = f' \<and> same_file f f' \<and> unat (ff_position f') = unat (ff_position f) + (unat sz - length dest) \<and> (\<exists>k. cursor s f' cs k)"
  using assms
proof (induction "2 * (unat sz - length dest) + (if ff_cluster_position f = 0 then 0 else 1)" arbitrary: s f k dest rule: less_induct)
  case less
  note prems = less.prems
  show ?case
  proof (cases "length dest < unat sz")
    case False
    then have l: "length dest = unat sz" using prems(6) by simp
    then have "\<not> (of_nat (length dest) :: u32) < sz" by simp
    then have "read_loop P fd sz dest s = Some (Some dest, s)" by (subst read_loop.simps) (simp add: Let_def)
    moreover have "moved P v N fd s s" using prems(1,2) by (auto simp: moved_def intro!: exI [of _ "open_files s ! fd"])
    moreover have "same_file f f" by (simp add: same_file_def)
    ultimately show ?thesis using prems(3,5) l by auto
  next
    case True
    have len: "length cs * csz s < 2 ^ 32" using chain_length [OF prems(1,4)] .
    have k: "k < length cs"
    proof (rule ccontr)
      assume "\<not> k < length cs"
      then have "unat (ff_position f) = length cs * csz s" using prems(5) by (auto simp: cursor_def)
      with True prems(7) show False by simp
    qed
    have le: "unat (ff_position f) + (unat sz - length dest) < 2 ^ 32" using prems(7) len by linarith
    define b where "b = min (unat sz - length dest) (csz s - unat (ff_cluster_position f))"
    obtain s1 f1 where t: "read_loop P fd sz dest s = read_loop P fd sz (dest @ take b (drop (unat (ff_position f)) (chain_data v s cs))) s1"
      "moved P v N fd s s1" "open_files s1 ! fd = f1" "same_file f f1" "unat (ff_position f1) = unat (ff_position f) + b" "\<exists>k'. cursor s f1 cs k'" "b = 0 \<Longrightarrow> ff_cluster_position f1 = 0"
      using read_turn [OF prems(1-5) k True le] unfolding b_def same_file_def by metis
    obtain k1 where k1: "cursor s f1 cs k1" using t(6) by blast
    let ?d = "dest @ take b (drop (unat (ff_position f)) (chain_data v s cs))"
    have bl: "b \<le> unat sz - length dest" by (simp add: b_def)
    have "length (take b (drop (unat (ff_position f)) (chain_data v s cs))) = b" using prems(7) bl by (simp add: length_chain_data [OF prems(1)])
    then have ld: "length ?d = length dest + b" by simp
    have same: "fat s1 = fat s" "fs_info s1 = fs_info s" "length (open_files s1) = length (open_files s)" "fat_ok P v N s1" using t(2) by (auto simp: moved_def)
    have meas: "2 * (unat sz - length ?d) + (if ff_cluster_position f1 = 0 then 0 else 1) < 2 * (unat sz - length dest) + (if ff_cluster_position f = 0 then 0 else 1)"
    proof (cases "b = 0")
      case True
      then have "ff_cluster_position f \<noteq> 0" using \<open>length dest < unat sz\<close> cluster_size_ok [OF prems(1)] by (auto simp: b_def)
      then show ?thesis using True t(7) ld by simp
    qed (use bl ld in auto)
    have pr: "length ?d \<le> unat sz" "unat (ff_position f1) + (unat sz - length ?d) \<le> length cs * csz s1" using ld bl True t(5) prems(7) same by auto
    have c1: "fchain (fat s1) N st cs" "cursor s1 f1 cs k1" "fd < length (open_files s1)" using prems(2,4) k1 same cursor_cong [OF same(2)] by simp_all
    obtain s2 f2 where r: "read_loop P fd sz ?d s1 = Some (Some (?d @ take (unat sz - length ?d) (drop (unat (ff_position f1)) (chain_data v s1 cs))), s2)"
      "moved P v N fd s1 s2" "open_files s2 ! fd = f2" "same_file f1 f2" "unat (ff_position f2) = unat (ff_position f1) + (unat sz - length ?d)" "\<exists>k. cursor s1 f2 cs k"
      using less.hyps [OF meas same(4) c1(3) t(3) c1(1,2) pr] by blast
    have eq: "take (unat sz - length dest) (drop (unat (ff_position f)) (chain_data v s cs)) =
      take b (drop (unat (ff_position f)) (chain_data v s cs)) @ take (unat sz - length ?d) (drop (unat (ff_position f1)) (chain_data v s1 cs))"
      using take_drop_split [OF bl] unfolding moved_chain_data [OF t(2)] t(5) ld by simp
    have "read_loop P fd sz dest s = Some (Some (dest @ take (unat sz - length dest) (drop (unat (ff_position f)) (chain_data v s cs))), s2)"
      using t(1) r(1) unfolding eq by (simp only: append_assoc)
    moreover have "unat (ff_position f2) = unat (ff_position f) + (unat sz - length dest)" using r(5) t(5) ld bl by linarith
    moreover have "\<exists>k. cursor s f2 cs k" using r(6) cursor_cong [OF same(2)] by simp
    ultimately show ?thesis using r(3) moved_trans [OF t(2) r(2)] same_file_trans [OF t(4) r(4)] by blast
  qed
qed


lemma file_ok_moved:
  assumes "file_ok N s f cs" "same_file f f'" "fs_info s' = fs_info s" "fat s' = fat s" "unat (ff_position f') \<le> unat (ff_file_size f)" "\<exists>k. cursor s f' cs k"
  shows "file_ok N s' f' cs"
  using assms same_file_fields [OF assms(2)] cursor_cong [OF assms(3)] by (simp add: file_ok_def)

text \<open>C36. On a mounted volume whose table has at most 255 sectors and on a drive that completes every transfer, reading from an open file whose
  clusters are in the volume returns. It fails only without memory for its buffer, and then changes nothing. Otherwise it returns the stretch of the
  contents from the position on, as long as was asked for or up to the end of the file, and moves the position behind it; the table, the disk and the other open files
  stay as they are. (If the drive fails instead, the read fails: \<open>read_reports_drive_error\<close>.)\<close>

theorem fat_read_correct:
  assumes "fat_ok P v N s" "fd_ok fd s" "file_ok N s (open_files s ! nat fd) cs" "unat (ff_position (open_files s ! nat fd)) + unat sz < 2 ^ 32"
  shows "\<exists>r bs s'. fat32_read P fd sz s = Some ((r, bs), s') \<and> fat_ok P v N s' \<and> fat s' = fat s \<and> disk v s' = disk v s \<and>
    (r = -1 \<and> s' = s \<and> (\<exists>h. kmalloc (fheap s) (cluster_size s) = Some (0, h)) \<or>
     (let f = open_files s ! nat fd; f' = open_files s' ! nat fd in
      bs = take (unat sz) (drop (unat (ff_position f)) (contents v s f cs)) \<and> r = int (length bs) \<and> file_ok N s' f' cs \<and> same_file f f' \<and>
      unat (ff_position f') = unat (ff_position f) + length bs \<and> (\<forall>j. j \<noteq> nat fd \<longrightarrow> open_files s' ! j = open_files s ! j)))"
proof -
  define f where "f = open_files s ! nat fd"
  define n where "n = min (unat sz) (unat (ff_file_size f) - unat (ff_position f))"
  have fo: "file_ok N s f cs" using assms(3) by (simp add: f_def)
  have fd: "nat fd < length (open_files s)" using assms(1,2) by (auto simp: fat_ok_def fd_ok_def)
  have pos: "unat (ff_position f) \<le> unat (ff_file_size f)" "unat (ff_file_size f) \<le> length cs * csz s" using fo by (auto simp: file_ok_def)
  obtain k where k: "cursor s f cs k" using fo by (auto simp: file_ok_def)
  have ch: "fchain (fat s) N (ff_start_cluster f) cs" using fo by (auto simp: file_ok_def)
  have slice: "take n (drop (unat (ff_position f)) (chain_data v s cs)) = take (unat sz) (drop (unat (ff_position f)) (contents v s f cs))"
    by (simp add: contents_def n_def drop_take min.commute)
  show ?thesis
  proof (cases "ff_position f \<ge> ff_file_size f")
    case True
    then have z: "contents v s f cs = [] \<or> unat (ff_position f) = unat (ff_file_size f)" using pos by (simp add: word_le_nat_alt)
    have e: "take (unat sz) (drop (unat (ff_position f)) (contents v s f cs)) = []" using z length_contents [OF assms(1) fo] by auto
    have "fat32_read P fd sz s = Some ((0, []), s)" using True assms(2) by (simp add: fat32_read_def f_def Let_def)
    then show ?thesis using assms(1) fo e by (auto simp: f_def [symmetric] Let_def same_file_def)
  next
    case False
    define w where "w = (if ff_position f + sz > ff_file_size f then ff_file_size f - ff_position f else sz)"
    have ps: "unat (ff_position f + sz) = unat (ff_position f) + unat sz" using assms(4) by (simp add: f_def unat_plus_simple32)
    have w: "unat w = n" unfolding w_def n_def using ps False by (auto simp: word_less_nat_alt word_le_nat_alt unat_sub)
    let ?body = "\<lambda>s. do { (dest, s) \<leftarrow> read_loop P (nat fd) w [] s; Some (case dest of None \<Rightarrow> (-1, []) | Some bs \<Rightarrow> (int (length bs), bs), s) }"
    let ?bs = "take n (drop (unat (ff_position f)) (chain_data v s cs))"
    define Q where "Q = (\<lambda>r s'. r = (int (length ?bs), ?bs) \<and> moved P v N (nat fd) (s\<lparr>fheap := fheap s'\<rparr>) s' \<and>
      same_file f (open_files s' ! nat fd) \<and> unat (ff_position (open_files s' ! nat fd)) = unat (ff_position f) + n \<and> (\<exists>k. cursor s (open_files s' ! nat fd) cs k))"
    have body: "\<exists>r s'. ?body (s\<lparr>fheap := h\<rparr>) = Some (r, s') \<and> Q r s' \<and> heap_ok (fheap s') \<and> owned (fheap s') = owned h" if h: "heap_ok h" for h
    proof -
      let ?s = "s\<lparr>fheap := h\<rparr>"
      have ok: "fat_ok P v N ?s" using assms(1) h by (simp add: fat_ok_def)
      have pre: "nat fd < length (open_files ?s)" "open_files ?s ! nat fd = f" "fchain (fat ?s) N (ff_start_cluster f) cs" "cursor ?s f cs k"
        "length ([] :: u8 list) \<le> unat w" "unat (ff_position f) + (unat w - length ([] :: u8 list)) \<le> length cs * csz ?s"
        using fd ch k w pos cursor_cong [of ?s s] by (simp_all add: f_def [symmetric] n_def)
      have cd: "chain_data v ?s cs = chain_data v s cs" unfolding chain_data_def by (intro arg_cong [where f = concat] map_cong) simp_all
      obtain s' f' where l: "read_loop P (nat fd) w [] ?s = Some (Some ([] @ take (unat w - length ([] :: u8 list)) (drop (unat (ff_position f)) (chain_data v ?s cs))), s')"
        "moved P v N (nat fd) ?s s'" "open_files s' ! nat fd = f'" "same_file f f'"
        "unat (ff_position f') = unat (ff_position f) + (unat w - length ([] :: u8 list))" "\<exists>k. cursor ?s f' cs k"
        using file_read_loop_ok [OF ok pre] by blast
      have "read_loop P (nat fd) w [] ?s = Some (Some ?bs, s')" using l(1) w cd by simp
      then have "?body ?s = Some ((int (length ?bs), ?bs), s')" by simp
      moreover have "fheap s' = h" using l(2) by (simp add: moved_def)
      moreover have "Q (int (length ?bs), ?bs) s'"
        unfolding Q_def using l(2-6) w \<open>fheap s' = h\<close> cursor_cong [of ?s s] by simp
      ultimately show ?thesis using h by blast
    qed
    have heap: "Q r (s'\<lparr>fheap := h\<rparr>)" if "Q r s'" "heap_ok h" for r s' h using that by (auto simp: Q_def moved_def fat_ok_def)
    have hp: "heap_ok (fheap s)" using assms(1) by (simp add: fat_ok_def)
    obtain r s' where r: "with_buffer (cluster_size s) (-1, []) ?body s = Some (r, s')" "r = (-1, []) \<and> s' = s \<and> (\<exists>h. kmalloc (fheap s) (cluster_size s) = Some (0, h)) \<or> Q r s'"
      using with_buffer_ok [OF hp, of ?body Q "cluster_size s" "(-1, [])", OF body heap] by blast
    have run: "fat32_read P fd sz s = Some (r, s')" using r(1) False assms(2) unfolding fat32_read_def by (simp add: f_def [symmetric] w_def [symmetric] Let_def)
    show ?thesis
    proof (cases "r = (-1, []) \<and> s' = s \<and> (\<exists>h. kmalloc (fheap s) (cluster_size s) = Some (0, h))")
      case True
      then show ?thesis using run assms(1) by auto
    next
      case False
      then have q: "Q r s'" using r(2) by blast
      have lb: "length ?bs = n" using length_chain_data [OF assms(1), of cs] pos by (simp add: n_def)
      have m: "fat_ok P v N s'" "fs_info s' = fs_info s" "fat s' = fat s" "disk v s' = disk v s" "\<exists>g. open_files s' = (open_files s)[nat fd := g]"
        using q by (auto simp: Q_def moved_def)
      have "unat (ff_position f) + n \<le> unat (ff_file_size f)" using pos(1) unfolding n_def by linarith
      then have "file_ok N s' (open_files s' ! nat fd) cs" using q m by (intro file_ok_moved [OF fo]) (auto simp: Q_def)
      then show ?thesis using run q m lb slice by (auto simp: Q_def f_def [symmetric] Let_def)
    qed
  qed
qed


text \<open>What a drive that fails does to a read: nothing is assumed of the machine here.\<close>

lemma read_reports_drive_error:
  assumes "fd_ok fd s" "open_files s ! nat fd = f" "ff_position f < ff_file_size f" "ff_current_cluster f < FAT32_END_CLUSTER" "sz \<noteq> 0"
    "kmalloc (fheap s) (cluster_size s) = Some (p, h)" "p \<noteq> 0"
    "fat32_read_cluster P (ff_current_cluster f) (s\<lparr>fheap := h\<rparr>) = (r, bs, s1)" "r \<noteq> 0"
  shows "fat32_read P fd sz s = Some ((-1, []), s1\<lparr>fheap := kfree (fheap s1) p\<rparr>)"
proof -
  define n where "n = (if ff_position f + sz > ff_file_size f then ff_file_size f - ff_position f else sz)"
  have "0 < n" using assms(3,5) by (auto simp: n_def word_gt_0)
  then have "read_loop P (nat fd) n [] (s\<lparr>fheap := h\<rparr>) = Some (None, s1)"
    using assms(2,4,8,9) by (subst read_loop.simps) (simp add: Let_def)
  then show ?thesis using assms(1-3,6,7) by (simp add: fat32_read_def with_buffer_def n_def [symmetric] Let_def)
qed

subsection \<open>Growing a file\<close>





subsection \<open>Writing\<close>

definition overwrite :: "'a list \<Rightarrow> nat \<Rightarrow> 'a list \<Rightarrow> 'a list" where
  "overwrite xs p ys = take p xs @ ys @ drop (p + length ys) xs"

lemma overwrite_Nil [simp]: "overwrite xs p [] = xs"
  by (simp add: overwrite_def)









lemma chain_data_cong: "(\<And>c. c \<in> set cs \<Longrightarrow> cluster_bytes v s' c = cluster_bytes v s c) \<Longrightarrow> chain_data v s' cs = chain_data v s cs"
  unfolding chain_data_def by (intro arg_cong [where f = concat] map_cong) simp_all



















text \<open>The loop. It stops early only without a free cluster or without memory.\<close>




text \<open>The directory entry of a file: the halves of its first cluster at offsets 26 and 20, its size at offset 28.\<close>

definition entry_ok :: "nat \<Rightarrow> 'd fat32 \<Rightarrow> fat32_file \<Rightarrow> u32 list \<Rightarrow> bool" where
  "entry_ok N s f cs \<longleftrightarrow> usable N (ff_dir_entry_cluster f) \<and> ff_dir_entry_cluster f \<notin> set cs \<and>
     fat s ! unat (ff_dir_entry_cluster f) AND 0x0FFFFFFF \<noteq> 0 \<and> entry_offset (ff_dir_entry_index f) + 32 \<le> csz s"





lemma file_ok_heap [simp]: "file_ok N (s\<lparr>fheap := h\<rparr>) f cs = file_ok N s f cs"
  using cursor_cong [of "s\<lparr>fheap := h\<rparr>" s] by (simp add: file_ok_def)

lemma contents_heap [simp]: "contents v (s\<lparr>fheap := h\<rparr>) f cs = contents v s f cs"
  using chain_data_cong [of cs v "s\<lparr>fheap := h\<rparr>" s] by (simp add: contents_def)







text \<open>A file of 100 bytes in cluster 3 of the small volume, open with descriptor 0 and standing at its start; its entry is the first of the root directory.\<close>

definition tiny_open :: "chan fat32" where
  "tiny_open = tiny_fat\<lparr>fat := (fat tiny_fat)[3 := 0x0FFFFFFF], open_files := (open_files tiny_fat)[0 := no_file\<lparr>ff_start_cluster := 3,
     ff_current_cluster := 3, ff_last_cluster := 3, ff_file_size := 100, ff_position := 0, ff_cluster_position := 0, ff_dir_cluster := 2,
     ff_dir_entry_cluster := 2, ff_dir_entry_index := 0, ff_in_use := True\<rparr>]\<rparr>"

lemma tiny_open_ok:
  "fat_ok ata_machine calm 62 tiny_open" "fd_ok 0 tiny_open" "file_ok 62 tiny_open (open_files tiny_open ! 0) [3]" "entry_ok 62 tiny_open (open_files tiny_open ! 0) [3]"
proof -
  have e: "(0x0FFFFFFF AND 0x0FFFFFFF :: u32) = 0x0FFFFFFF" by code_simp
  have c: "cursor tiny_open (open_files tiny_open ! 0) [3] 0" by (simp add: cursor_def tiny_open_def tiny_fat_def)
  show "fat_ok ata_machine calm 62 tiny_open" using tiny_fat_ok by (simp add: fat_ok_def tiny_open_def)
  show "fd_ok 0 tiny_open" by (simp add: fd_ok_def tiny_open_def tiny_fat_def FAT32_MAX_OPEN_FILES_def)
  show "file_ok 62 tiny_open (open_files tiny_open ! 0) [3]" unfolding file_ok_def using c e
    by (auto simp: tiny_open_def tiny_fat_def Fat32_Chains.in_use_def is_data_cluster_def FAT32_END_CLUSTER_def)
  show "entry_ok 62 tiny_open (open_files tiny_open ! 0) [3]" using e
    by (simp add: entry_ok_def tiny_open_def tiny_fat_def usable_def entry_offset_def)
qed


lemma tiny_open_memory: "kmalloc (fheap tiny_open) (cluster_size tiny_open) \<noteq> Some (0, h)"
  using first_alloc [of "\<lambda>_. 0" 512 0 h]
  by (auto simp: tiny_open_def tiny_fat_def cluster_size_def align16_def KERNEL_HEAP_SIZE_def HEAP_HDR_def)

theorem fat_read_correct_witness:
  "\<exists>bs s'. fat32_read ata_machine 0 10 tiny_open = Some ((10, bs), s') \<and> disk calm s' = disk calm tiny_open \<and>
    bs = take 10 (contents calm tiny_open (open_files tiny_open ! 0) [3])"
proof -
  have p: "ff_position (open_files tiny_open ! 0) = 0" "unat (ff_file_size (open_files tiny_open ! 0)) = 100" by (simp_all add: tiny_open_def tiny_fat_def)
  have "length (contents calm tiny_open (open_files tiny_open ! 0) [3]) = 100" using length_contents [OF tiny_open_ok(1,3)] p(2) by simp
  then show ?thesis using fat_read_correct [OF tiny_open_ok(1,2), of "[3]" 10] tiny_open_ok(3) p tiny_open_memory by (fastforce simp: Let_def)
qed


end
