(* ===== verification/Fat32_Vfs.thy ===== *)
theory Fat32_Vfs
  imports Fat32_Chains Vfs
begin

unbundle bit_operations_syntax

text \<open>
  The FAT32 file system behind the virtual file system, \<^verbatim>\<open>src/kernel/fat32_vfs.cpp\<close>: the table of operations that a mount of a FAT32 volume
  uses. The handle of a file is its number in the table of open files of \<open>Fat32\<close>.
\<close>

subsection \<open>The adapter\<close>

definition fat32_vfs_open :: "'d ports \<Rightarrow> nat \<Rightarrow> path \<Rightarrow> vfs_file \<Rightarrow> 'd fat32 \<Rightarrow> (int \<times> vfs_file \<times> 'd fat32) option" where
  "fat32_vfs_open P m path f s =
     (if path = [] \<or> path = [SLASH] then Some (VFS_ERROR, f, s)
      else do {
        (found, s) \<leftarrow> fat32_lookup_path P path s;
        case found of None \<Rightarrow> Some (VFS_NOT_FOUND, f, s)
        | Some r \<Rightarrow>
            if i_attributes (lk_info r) AND FAT32_ATTR_DIRECTORY \<noteq> 0 then Some (VFS_ERROR, f, s)
            else do {
              (fd, s) \<leftarrow> fat32_open P path s;
              if fd < 0 then Some (VFS_NOT_FOUND, f, s)
              else Some (VFS_SUCCESS, f\<lparr>fs_handle := of_int fd, vf_position := 0, vf_in_use := True\<rparr>, s)
            }
      })"

definition fat32_vfs_read :: "'d ports \<Rightarrow> vfs_file \<Rightarrow> u32 \<Rightarrow> 'd fat32 \<Rightarrow> (int \<times> u8 list \<times> vfs_file \<times> 'd fat32) option" where
  "fat32_vfs_read P f sz s =
     (if \<not> vf_in_use f then Some (VFS_ERROR, [], f, s)
      else do {
        ((bytes_read, bs), s) \<leftarrow> fat32_read P (sint (fs_handle f)) sz s;
        Some (bytes_read, bs, if bytes_read \<ge> 0 then f\<lparr>vf_position := vf_position f + of_int bytes_read\<rparr> else f, s)
      })"

definition fat32_vfs_write :: "'d ports \<Rightarrow> vfs_file \<Rightarrow> u8 list \<Rightarrow> 'd fat32 \<Rightarrow> (int \<times> vfs_file \<times> 'd fat32) option" where
  "fat32_vfs_write P f buffer s =
     (if \<not> vf_in_use f then Some (VFS_ERROR, f, s)
      else do {
        (bytes_written, s) \<leftarrow> fat32_write P (sint (fs_handle f)) buffer s;
        if bytes_written \<ge> 0 then Some (bytes_written, f\<lparr>vf_position := vf_position f + of_int bytes_written\<rparr>, s)
        else Some (VFS_ERROR, f, s)
      })"

definition fat32_vfs_seek :: "vfs_file \<Rightarrow> u32 \<Rightarrow> 'd fat32 \<Rightarrow> (int \<times> vfs_file \<times> 'd fat32) option" where
  "fat32_vfs_seek f pos s =
     (if \<not> vf_in_use f then Some (VFS_ERROR, f, s)
      else do {
        (r, s) \<leftarrow> fat32_seek (sint (fs_handle f)) pos s;
        if r = 0 then Some (VFS_SUCCESS, f\<lparr>vf_position := pos\<rparr>, s) else Some (VFS_ERROR, f, s)
      })"

definition fat32_vfs_close :: "vfs_file \<Rightarrow> 'd fat32 \<Rightarrow> (vfs_file \<times> 'd fat32) option" where
  "fat32_vfs_close f s =
     Some (if vf_in_use f
       then (f\<lparr>vf_in_use := False, fs_handle := 0, vf_position := 0\<rparr>, fat32_close (sint (fs_handle f)) s) else (f, s))"

definition fat32_vfs_unmount :: "nat \<Rightarrow> 'd fat32 \<Rightarrow> (int \<times> 'd fat32) option" where
  "fat32_vfs_unmount m s = Some (fat32_unmount s)"

definition info_dirent :: "file_info \<Rightarrow> vfs_dirent" where
  "info_dirent info = \<lparr>de_name = take (VFS_MAX_NAME - 1) (i_filename info),
     de_type = (if i_attributes info AND FAT32_ATTR_DIRECTORY \<noteq> 0 then VFS_TYPE_DIRECTORY else VFS_TYPE_FILE), de_size = i_size info\<rparr>"

text \<open>An element of the array for the listing takes 280 bytes.\<close>

definition fat32_vfs_readdir :: "'d ports \<Rightarrow> nat \<Rightarrow> path \<Rightarrow> nat \<Rightarrow> 'd fat32 \<Rightarrow> (int \<times> vfs_dirent list \<times> 'd fat32) option" where
  "fat32_vfs_readdir P m path max_entries s =
     (let alloc_slots = (if max_entries > 0 then max_entries else 1);
          target_path = (if path \<noteq> [] then path else [SLASH])
      in do {
        ((r, entries), s) \<leftarrow> with_buffer (of_nat alloc_slots * 280) (VFS_ERROR, []) (\<lambda>s. do {
          (dir, s) \<leftarrow> (if target_path = [SLASH] then Some (Inr (fat32_get_root_cluster s), s)
            else do {
              (found, s) \<leftarrow> fat32_lookup_path P target_path s;
              Some (case found of None \<Rightarrow> Inl VFS_NOT_FOUND
                | Some r \<Rightarrow> if i_attributes (lk_info r) AND FAT32_ATTR_DIRECTORY = 0 then Inl VFS_ERROR else Inr (i_cluster (lk_info r)), s)
            });
          case dir of Inl e \<Rightarrow> Some ((e, []), s)
          | Inr dir_cluster \<Rightarrow> do {
              ((count, files), s) \<leftarrow> fat32_list_directory P dir_cluster (int alloc_slots) s;
              if count < 0 then Some ((VFS_ERROR, []), s)
              else let out = take max_entries (map info_dirent files) in Some ((int (length out), out), s)
            }
        }) s;
        Some (r, entries, s)
      })"

definition fat32_vfs_mkdir :: "'d ports \<Rightarrow> nat \<Rightarrow> path \<Rightarrow> 'd fat32 \<Rightarrow> (int \<times> 'd fat32) option" where
  "fat32_vfs_mkdir P m path s = do { (r, s) \<leftarrow> fat32_mkdir_path P path s; Some (if r \<noteq> 0 then VFS_ERROR else VFS_SUCCESS, s) }"

definition fat32_vfs_rmdir :: "'d ports \<Rightarrow> nat \<Rightarrow> path \<Rightarrow> 'd fat32 \<Rightarrow> (int \<times> 'd fat32) option" where
  "fat32_vfs_rmdir P m path s = do { (r, s) \<leftarrow> fat32_rmdir_path P path s; Some (if r \<noteq> 0 then VFS_ERROR else VFS_SUCCESS, s) }"

definition fat32_vfs_create :: "'d ports \<Rightarrow> nat \<Rightarrow> path \<Rightarrow> 'd fat32 \<Rightarrow> (int \<times> 'd fat32) option" where
  "fat32_vfs_create P m path s = do { (r, s) \<leftarrow> fat32_create P path s; Some (if r \<noteq> 0 then VFS_ERROR else VFS_SUCCESS, s) }"

definition fat32_vfs_remove :: "'d ports \<Rightarrow> nat \<Rightarrow> path \<Rightarrow> 'd fat32 \<Rightarrow> (int \<times> 'd fat32) option" where
  "fat32_vfs_remove P m path s = do { (r, s) \<leftarrow> fat32_remove P path s; Some (if r \<noteq> 0 then VFS_ERROR else VFS_SUCCESS, s) }"

definition fat32_vfs_stat :: "'d ports \<Rightarrow> nat \<Rightarrow> path \<Rightarrow> 'd fat32 \<Rightarrow> (int \<times> vfs_dirent option \<times> 'd fat32) option" where
  "fat32_vfs_stat P m path s =
     (let target_path = (if path \<noteq> [] then path else [SLASH]) in do {
        (found, s) \<leftarrow> fat32_lookup_path P target_path s;
        Some (case found of None \<Rightarrow> (VFS_NOT_FOUND, None, s)
          | Some r \<Rightarrow>
              if target_path = [SLASH] then (VFS_SUCCESS, Some \<lparr>de_name = [SLASH], de_type = VFS_TYPE_DIRECTORY, de_size = 0\<rparr>, s)
              else (VFS_SUCCESS, Some (info_dirent (lk_info r)), s))
      })"

definition fat32_vfs_ops :: "'d ports \<Rightarrow> 'd fat32 vfs_operations" where
  "fat32_vfs_ops P =
     \<lparr>vop_open = Some (fat32_vfs_open P), vop_read = Some (fat32_vfs_read P), vop_write = Some (fat32_vfs_write P), vop_seek = Some fat32_vfs_seek,
      vop_close = Some fat32_vfs_close, vop_unmount = Some fat32_vfs_unmount, vop_readdir = Some (fat32_vfs_readdir P), vop_mkdir = Some (fat32_vfs_mkdir P),
      vop_rmdir = Some (fat32_vfs_rmdir P), vop_create = Some (fat32_vfs_create P), vop_remove = Some (fat32_vfs_remove P), vop_stat = Some (fat32_vfs_stat P)\<rparr>"

definition fat32_vfs_mount :: "'d ports \<Rightarrow> path \<Rightarrow> u8 \<Rightarrow> 'd fat32 vfs \<Rightarrow> (int \<times> 'd fat32 vfs) option" where
  "fat32_vfs_mount P mp device v = do {
     (r, s) \<leftarrow> fat32_mount P device (fss v);
     let v = v\<lparr>fss := s\<rparr>;
     if r \<noteq> 0 then Some (VFS_ERROR, v) else vfs_mount mp VFS_FS_FAT32 device (fat32_vfs_ops P) 0 v
   }"

text \<open>What the virtual file system relies on when it opens a file: the adapter fills in the handle that it is given.\<close>

lemma fat32_ops_lawful: "lawful (fat32_vfs_ops P)"
  by (auto simp: lawful_def fat32_vfs_ops_def fat32_vfs_open_def VFS_SUCCESS_def VFS_ERROR_def VFS_NOT_FOUND_def split: bind_splits if_splits option.splits)

end
