(* ===== verification/Editor.thy ===== *)
theory Editor
  imports Devices Vfs "HOL-Library.Monad_Syntax"
begin

text \<open>
  The text editor (\<^verbatim>\<open>user/editor.cpp\<close>). Its buffer is an array of 128 rows of 128 bytes, each holding a C string; \<^const>\<open>None\<close> stands for an access
  outside of the array or of a row. The results of the calls to the virtual file system and to \<^verbatim>\<open>kmalloc\<close> are arguments of the functions
  that make the calls: the pieces that \<^verbatim>\<open>vfs_read\<close> returns when a file is opened, and the results of the calls when it is saved, whose
  order and data are the output. Drawing is the list of the cells that are put on the screen. Printed messages
  are the value \<open>report\<close>; the blanking of the last row on leaving is left out. Below, the operations are shown to implement an
  editor on a list of lines.
\<close>

subsection \<open>State\<close>

definition EDITOR_MAX_LINES :: int where "EDITOR_MAX_LINES = 128"
definition EDITOR_LINE_LENGTH :: int where "EDITOR_LINE_LENGTH = 128"

record editor =
  edit_buffer :: "u8 list list"
  line_count :: int
  cursor_line :: int
  cursor_col :: int
  viewport_offset :: int
  edit_filename :: "u8 list"
  edit_path :: "u8 list"
  edit_active :: bool
  status_message :: "u8 list"

text \<open>The C string in a row, its length, and checked accesses.\<close>

definition text_of :: "u8 list \<Rightarrow> u8 list" where
  "text_of r = takeWhile (\<lambda>c. c \<noteq> 0) r"

definition row_strlen :: "u8 list \<Rightarrow> int option" where
  "row_strlen r = (if 0 \<in> set r then Some (int (length (text_of r))) else None)"

definition row_put :: "int \<Rightarrow> u8 \<Rightarrow> u8 list \<Rightarrow> u8 list option" where
  "row_put i c r = (if 0 \<le> i \<and> nat i < length r then Some (r[nat i := c]) else None)"

definition row_get :: "int \<Rightarrow> u8 list \<Rightarrow> u8 option" where
  "row_get i r = (if 0 \<le> i \<and> nat i < length r then Some (r ! nat i) else None)"

definition row_at :: "int \<Rightarrow> editor \<Rightarrow> u8 list option" where
  "row_at i e = (if 0 \<le> i \<and> nat i < length (edit_buffer e) then Some (edit_buffer e ! nat i) else None)"

definition set_row :: "int \<Rightarrow> u8 list \<Rightarrow> editor \<Rightarrow> editor option" where
  "set_row i r e = (if 0 \<le> i \<and> nat i < length (edit_buffer e) then Some (e\<lparr>edit_buffer := (edit_buffer e)[nat i := r]\<rparr>) else None)"

definition copy_line :: "u8 list \<Rightarrow> u8 list" where
  "copy_line src = take 127 (text_of src @ replicate 128 0) @ [0]"

definition set_status_message :: "u8 list \<Rightarrow> editor \<Rightarrow> editor" where
  "set_status_message msg e = e\<lparr>status_message := take 127 msg\<rparr>"


subsection \<open>Keys\<close>

function shift_right :: "int \<Rightarrow> int \<Rightarrow> u8 list \<Rightarrow> u8 list option" where
  "shift_right i col r =
     (if i > col then do { c \<leftarrow> row_get (i - 1) r; r \<leftarrow> row_put i c r; shift_right (i - 1) col r } else Some r)"
  by pat_completeness auto
termination by (relation "measure (\<lambda>(i, col, _). nat (i - col))") auto

definition handle_char :: "u8 \<Rightarrow> editor \<Rightarrow> editor option" where
  "handle_char c e = do {
     row \<leftarrow> row_at (cursor_line e) e;
     len \<leftarrow> row_strlen row;
     if len \<ge> EDITOR_LINE_LENGTH - 1 then Some e
     else do {
       row \<leftarrow> shift_right len (cursor_col e) row;
       row \<leftarrow> row_put (cursor_col e) c row;
       row \<leftarrow> row_put (len + 1) 0 row;
       set_row (cursor_line e) row (e\<lparr>cursor_col := cursor_col e + 1\<rparr>)
     }
   }"

function shift_left :: "int \<Rightarrow> int \<Rightarrow> u8 list \<Rightarrow> u8 list option" where
  "shift_left i len r =
     (if i < len then do { c \<leftarrow> row_get (i + 1) r; r \<leftarrow> row_put i c r; shift_left (i + 1) len r } else Some r)"
  by pat_completeness auto
termination by (relation "measure (\<lambda>(i, len, _). nat (len - i))") auto

text \<open>Moving lines of the buffer up and down by one.\<close>

function lines_up :: "int \<Rightarrow> int \<Rightarrow> editor \<Rightarrow> editor option" where
  "lines_up i n e =
     (if i < n then do { src \<leftarrow> row_at i e; e \<leftarrow> set_row (i - 1) (copy_line src) e; lines_up (i + 1) n e } else Some e)"
  by pat_completeness auto
termination by (relation "measure (\<lambda>(i, n, _). nat (n - i))") auto

function lines_down :: "int \<Rightarrow> int \<Rightarrow> editor \<Rightarrow> editor option" where
  "lines_down i stop e =
     (if i > stop then do { src \<leftarrow> row_at (i - 1) e; e \<leftarrow> set_row i (copy_line src) e; lines_down (i - 1) stop e } else Some e)"
  by pat_completeness auto
termination by (relation "measure (\<lambda>(i, stop, _). nat (i - stop))") auto

text \<open>\<^verbatim>\<open>memcpy\<close> into a row, with the terminating zero behind.\<close>

definition append_text :: "int \<Rightarrow> u8 list \<Rightarrow> u8 list \<Rightarrow> u8 list option" where
  "append_text at_pos bs r =
     (if 0 \<le> at_pos \<and> nat at_pos + length bs < length r then Some (take (nat at_pos) r @ bs @ 0 # drop (nat at_pos + length bs + 1) r) else None)"

definition join_length :: "int \<Rightarrow> int \<Rightarrow> int" where
  "join_length len prev_len = (let free = EDITOR_LINE_LENGTH - 1 - prev_len in if len < free then len else free)"

definition join_previous :: "int \<Rightarrow> u8 list \<Rightarrow> int \<Rightarrow> u8 list \<Rightarrow> editor \<Rightarrow> editor option" where
  "join_previous cp ln prev_len prev e =
     (if cp > 0 then do { prev \<leftarrow> append_text prev_len (take (nat cp) ln) prev; set_row (cursor_line e - 1) prev e } else Some e)"

definition handle_backspace :: "editor \<Rightarrow> editor option" where
  "handle_backspace e = do {
     ln \<leftarrow> row_at (cursor_line e) e;
     len \<leftarrow> row_strlen ln;
     if cursor_col e > 0
     then do {
       ln \<leftarrow> shift_left (cursor_col e - 1) len ln;
       set_row (cursor_line e) ln (e\<lparr>cursor_col := cursor_col e - 1\<rparr>)
     }
     else if cursor_line e > 0
     then do {
       prev \<leftarrow> row_at (cursor_line e - 1) e;
       prev_len \<leftarrow> row_strlen prev;
       e \<leftarrow> join_previous (join_length len prev_len) ln prev_len prev e;
       e \<leftarrow> lines_up (cursor_line e + 1) (line_count e) e;
       Some (e\<lparr>line_count := line_count e - 1, cursor_line := cursor_line e - 1, cursor_col := prev_len\<rparr>)
     }
     else Some e
   }"

definition KEY_UP_ARROW :: u8 where "KEY_UP_ARROW = 0x48"
definition KEY_DOWN_ARROW :: u8 where "KEY_DOWN_ARROW = 0x50"
definition KEY_LEFT_ARROW :: u8 where "KEY_LEFT_ARROW = 0x4B"
definition KEY_RIGHT_ARROW :: u8 where "KEY_RIGHT_ARROW = 0x4D"

definition go_to_line :: "int \<Rightarrow> editor \<Rightarrow> editor option" where
  "go_to_line i e = do {
     row \<leftarrow> row_at i e;
     l \<leftarrow> row_strlen row;
     Some (e\<lparr>cursor_line := i, cursor_col := if cursor_col e > l then l else cursor_col e\<rparr>)
   }"

definition handle_arrows :: "u8 \<Rightarrow> editor \<Rightarrow> editor option" where
  "handle_arrows code e =
     (if code = KEY_UP_ARROW then if cursor_line e > 0 then go_to_line (cursor_line e - 1) e else Some e
      else if code = KEY_DOWN_ARROW then
        if cursor_line e < line_count e - 1 then go_to_line (cursor_line e + 1) e
        else if cursor_line e = line_count e - 1 \<and> line_count e < EDITOR_MAX_LINES
        then do {
          row \<leftarrow> row_at (line_count e) e;
          row \<leftarrow> row_put 0 0 row;
          e \<leftarrow> set_row (line_count e) row e;
          Some (e\<lparr>line_count := line_count e + 1, cursor_line := cursor_line e + 1, cursor_col := 0\<rparr>)
        }
        else Some e
      else if code = KEY_LEFT_ARROW then
        if cursor_col e > 0 then Some (e\<lparr>cursor_col := cursor_col e - 1\<rparr>)
        else if cursor_line e > 0
        then do {
          row \<leftarrow> row_at (cursor_line e - 1) e;
          l \<leftarrow> row_strlen row;
          Some (e\<lparr>cursor_line := cursor_line e - 1, cursor_col := l\<rparr>)
        }
        else Some e
      else if code = KEY_RIGHT_ARROW then do {
        row \<leftarrow> row_at (cursor_line e) e;
        l \<leftarrow> row_strlen row;
        Some (if cursor_col e < l then e\<lparr>cursor_col := cursor_col e + 1\<rparr>
          else if cursor_line e < line_count e - 1 then e\<lparr>cursor_line := cursor_line e + 1, cursor_col := 0\<rparr> else e)
      }
      else Some e)"


subsection \<open>Saving and leaving\<close>

text \<open>What the calls return, and the calls that are made on the file system with their arguments.\<close>

record call_results =
  malloc_ok :: bool
  remove_res :: int
  open_res :: int
  seek_res :: int
  write_res :: int

datatype file_op = Remove "u8 list" | Create "u8 list" | Open "u8 list" | Seek int | Write "u8 list" | Close

datatype report = NoPath | NoMemory | NotPrepared | NotOpened | NotSought | NotWritten | Saved | Aborted

function trim_lines :: "editor \<Rightarrow> editor option" where
  "trim_lines e =
     (if line_count e > 1
      then do {
        row \<leftarrow> row_at (line_count e - 1) e;
        l \<leftarrow> row_strlen row;
        if l = 0 then trim_lines (e\<lparr>line_count := line_count e - 1\<rparr>) else Some e
      }
      else Some e)"
  by pat_completeness auto
termination by (relation "measure (\<lambda>e. nat (line_count e))") auto

text \<open>The data of the file: every line with a newline behind it.\<close>

function collect_lines :: "int \<Rightarrow> editor \<Rightarrow> u8 list \<Rightarrow> u8 list option" where
  "collect_lines i e data =
     (if i < line_count e
      then do { row \<leftarrow> row_at i e; len \<leftarrow> row_strlen row; collect_lines (i + 1) e (data @ take (nat len) row @ [0x0A]) }
      else Some data)"
  by pat_completeness auto
termination by (relation "measure (\<lambda>(i, e, _). nat (line_count e - i))") auto

definition edit_exit :: "bool \<Rightarrow> call_results \<Rightarrow> editor \<Rightarrow> (report \<times> file_op list \<times> editor) option" where
  "edit_exit save res e =
     (if \<not> save then Some (Aborted, [], e\<lparr>edit_active := False\<rparr>)
      else if edit_path e = [] then Some (NoPath, [], e\<lparr>edit_active := False\<rparr>)
      else do {
        e \<leftarrow> trim_lines e;
        data \<leftarrow> collect_lines 0 e [];
        let left = e\<lparr>edit_active := False\<rparr>;
        let p = edit_path e;
        Some (if 0 < length data \<and> \<not> malloc_ok res then (NoMemory, [], left)
          else if remove_res res \<noteq> VFS_SUCCESS \<and> remove_res res \<noteq> VFS_NOT_FOUND then (NotPrepared, [Remove p], left)
          else if open_res res \<noteq> VFS_SUCCESS then (NotOpened, [Remove p, Create p, Open p], left)
          else if seek_res res \<noteq> VFS_SUCCESS then (NotSought, [Remove p, Create p, Open p, Seek 0, Close], left)
          else if data = [] then (Saved, [Remove p, Create p, Open p, Seek 0, Close], left)
          else if write_res res \<noteq> int (length data) then (NotWritten, [Remove p, Create p, Open p, Seek 0, Write data, Close], left)
          else (Saved, [Remove p, Create p, Open p, Seek 0, Write data, Close], left))
      })"

text \<open>The commands \<^verbatim>\<open>.save\<close> and \<^verbatim>\<open>.exit\<close>.\<close>

definition save_command :: "u8 list" where "save_command = [0x2E, 0x73, 0x61, 0x76, 0x65]"
definition exit_command :: "u8 list" where "exit_command = [0x2E, 0x65, 0x78, 0x69, 0x74]"
definition saved_text :: "u8 list" where "saved_text = [0x53, 0x61, 0x76, 0x65, 0x64, 0x2E]"
definition exited_text :: "u8 list" where "exited_text = [0x45, 0x78, 0x69, 0x74, 0x65, 0x64, 0x2E]"

definition handle_enter :: "call_results \<Rightarrow> editor \<Rightarrow> ((report \<times> file_op list) option \<times> editor) option" where
  "handle_enter res e = do {
     ln \<leftarrow> row_at (cursor_line e) e;
     len \<leftarrow> row_strlen ln;
     if text_of ln = save_command
     then do {
       e \<leftarrow> lines_up (cursor_line e + 1) (line_count e) (set_status_message saved_text e);
       let e = e\<lparr>line_count := line_count e - 1, cursor_line := line_count e - 2\<rparr>;
       row \<leftarrow> row_at (cursor_line e) e;
       l \<leftarrow> row_strlen row;
       (r, ops, e) \<leftarrow> edit_exit True res (e\<lparr>cursor_col := l\<rparr>);
       Some (Some (r, ops), e)
     }
     else if text_of ln = exit_command
     then do { (r, ops, e) \<leftarrow> edit_exit False res (set_status_message exited_text e); Some (Some (r, ops), e) }
     else if line_count e \<ge> EDITOR_MAX_LINES then Some (None, e)
     else do {
       let right = take (nat (len - cursor_col e)) (drop (nat (cursor_col e)) ln) @ [0];
       ln \<leftarrow> row_put (cursor_col e) 0 ln;
       e \<leftarrow> set_row (cursor_line e) ln e;
       e \<leftarrow> lines_down (line_count e) (cursor_line e + 1) e;
       e \<leftarrow> set_row (cursor_line e + 1) (copy_line right) e;
       Some (None, e\<lparr>line_count := line_count e + 1, cursor_line := cursor_line e + 1, cursor_col := 0\<rparr>)
     }
   }"

text \<open>A key, up to the drawing that follows it.\<close>

definition is_arrow :: "u8 \<Rightarrow> bool" where
  "is_arrow code \<longleftrightarrow> code = KEY_UP_ARROW \<or> code = KEY_DOWN_ARROW \<or> code = KEY_LEFT_ARROW \<or> code = KEY_RIGHT_ARROW"

definition handle_key :: "call_results \<Rightarrow> keyboard_event \<Rightarrow> editor \<Rightarrow> ((report \<times> file_op list) option \<times> editor) option" where
  "handle_key res ke e =
     (if release ke then Some (None, e)
      else if backspace ke then do { e \<leftarrow> handle_backspace e; Some (None, e) }
      else if enter ke then handle_enter res e
      else if is_arrow (scancode ke) then do { e \<leftarrow> handle_arrows (scancode ke) e; Some (None, e) }
      else let c = kb_to_ascii ke in if c \<noteq> 0 then do { e \<leftarrow> handle_char c e; Some (None, e) } else Some (None, e))"


subsection \<open>Opening a file\<close>

record loader =
  ld_rows :: "u8 list list"
  ld_count :: nat
  ld_line :: "u8 list"
  ld_truncated :: bool

definition end_line :: "loader \<Rightarrow> loader" where
  "end_line l =
     (if ld_count l < 128 then l\<lparr>ld_rows := (ld_rows l)[ld_count l := copy_line (ld_line l @ [0])], ld_count := ld_count l + 1\<rparr>
      else l\<lparr>ld_truncated := True\<rparr>)"

definition load_char :: "u8 \<Rightarrow> loader \<Rightarrow> loader" where
  "load_char c l =
     (if c = 0x0D then l
      else if c = 0x0A then (end_line l)\<lparr>ld_line := []\<rparr>
      else if length (ld_line l) < 127 then l\<lparr>ld_line := ld_line l @ [c]\<rparr> else l)"

text \<open>The loop over the pieces that \<^verbatim>\<open>vfs_read\<close> returns, of up to 128 bytes; an empty one ends it.\<close>

fun load_chunks :: "u8 list list \<Rightarrow> loader \<Rightarrow> loader" where
  "load_chunks [] l = l"
| "load_chunks (c # cs) l = (if c = [] then l else load_chunks cs (fold load_char c l))"

definition load_file :: "u8 list list \<Rightarrow> u8 list list \<Rightarrow> loader" where
  "load_file chunks rows =
     (let l = load_chunks chunks \<lparr>ld_rows = rows, ld_count = 0, ld_line = [], ld_truncated = False\<rparr>
      in if 0 < length (ld_line l) \<or> ld_count l = 0 then end_line l else l)"

text \<open>The name of the file: what follows the last slash, if anything does.\<close>

definition base_name :: "u8 list \<Rightarrow> u8 list" where
  "base_name p = (let name = rev (takeWhile (\<lambda>c. c \<noteq> 0x2F) (rev p)) in if name \<noteq> [] then name else p)"

definition untitled :: "u8 list" where "untitled = [0x75, 0x6E, 0x74, 0x69, 0x74, 0x6C, 0x65, 0x64]"

definition not_created_text :: "u8 list" where
  "not_created_text = map of_char ''Could not create file''"

definition truncated_text :: "u8 list" where
  "truncated_text = map of_char ''File truncated in editor view''"

text \<open>The result of \<^verbatim>\<open>vfs_open\<close>, the pieces read, and the result of \<^verbatim>\<open>vfs_create\<close>.\<close>

definition edit_start :: "u8 list option \<Rightarrow> int \<Rightarrow> u8 list list \<Rightarrow> int \<Rightarrow> editor \<Rightarrow> editor" where
  "edit_start path_arg opened chunks created e =
     (let p = (case path_arg of Some p \<Rightarrow> take 255 p | None \<Rightarrow> []);
          name = (if p \<noteq> [] then base_name p else untitled);
          e = e\<lparr>edit_active := True, status_message := [], edit_path := p, edit_filename := take 63 name, line_count := 0\<rparr>;
          (e, truncated) = (if p \<noteq> [] \<and> opened = VFS_SUCCESS
            then let l = load_file chunks (edit_buffer e)
                 in (e\<lparr>edit_buffer := ld_rows l, line_count := int (ld_count l)\<rparr>, ld_truncated l)
            else (if p \<noteq> [] \<and> opened = VFS_NOT_FOUND \<and> created \<noteq> VFS_SUCCESS then set_status_message not_created_text e else e, False));
          e = (if line_count e = 0 then e\<lparr>edit_buffer := (edit_buffer e)[0 := (edit_buffer e ! 0)[0 := 0]], line_count := 1\<rparr> else e);
          e = (if truncated then set_status_message truncated_text e else e)
      in e\<lparr>cursor_line := 0, cursor_col := 0, viewport_offset := 0\<rparr>)"


subsection \<open>Drawing\<close>

text \<open>A cell on the screen: column, row, character and colour.\<close>

type_synonym cell_put = "nat \<times> nat \<times> u8 \<times> u8"

definition normal_color :: u8 where "normal_color = make_color 7 0"
definition marked_color :: u8 where "marked_color = make_color 0 15"

definition draw_line :: "u8 list \<Rightarrow> nat \<Rightarrow> bool \<Rightarrow> int \<Rightarrow> cell_put list" where
  "draw_line line y active_line col =
     (let prefix = (if active_line then [0x3E, 0x20] else [0x20, 0x20]);
          len = (if length line > 78 then 78 else length line)
      in map (\<lambda>i. (i, y, prefix ! i, normal_color)) [0..<2] @
         map (\<lambda>i. (2 + i, y, line ! i, if active_line \<and> int i = col then marked_color else normal_color)) [0..<len] @
         map (\<lambda>x. (x, y, 0x20, normal_color)) [2 + len..<80])"

text \<open>Decimal digits, highest first; \<^verbatim>\<open>uitoa\<close> gives at most as many as there is room for.\<close>

fun dec_digits :: "nat \<Rightarrow> nat \<Rightarrow> u8 list" where
  "dec_digits v n = (if 0 < v \<and> 0 < n then dec_digits (v div 10) (n - 1) @ [0x30 + of_nat (v mod 10)] else [])"

definition uitoa :: "nat \<Rightarrow> int \<Rightarrow> u8 list" where
  "uitoa v max_len = (if v = 0 then [0x30] else take (nat max_len) (dec_digits v 16))"

definition add_text :: "u8 list \<Rightarrow> u8 list \<Rightarrow> u8 list" where
  "add_text t line = line @ take (127 - length line) t"

definition add_number :: "int \<Rightarrow> u8 list \<Rightarrow> u8 list" where
  "add_number v line = line @ uitoa (nat v) (128 - int (length line))"

definition status_line :: "editor \<Rightarrow> u8 list" where
  "status_line e =
     (let line = add_text (map of_char ''editing: '') [];
          line = add_text (edit_filename e) line;
          line = add_text (map of_char ''  |  Ln '') line;
          line = add_number (cursor_line e + 1) line;
          line = add_text (map of_char ''/'') line;
          line = add_number (line_count e) line;
          line = add_text (map of_char ''  Col '') line;
          line = add_number (cursor_col e + 1) line;
          line = add_text (map of_char ''  |  '') line
      in add_text (if status_message e \<noteq> [] then status_message e else map of_char ''EDITING'') line)"

definition draw_status_bar :: "editor \<Rightarrow> cell_put list" where
  "draw_status_bar e =
     (let line = status_line e; len = (if length line > 80 then 80 else length line)
      in map (\<lambda>x. (x, 24, if x < len then line ! x else 0x20, marked_color)) [0..<80])"

definition scroll_view :: "editor \<Rightarrow> editor" where
  "scroll_view e =
     (if cursor_line e < viewport_offset e then e\<lparr>viewport_offset := cursor_line e\<rparr>
      else if cursor_line e \<ge> viewport_offset e + 24 then e\<lparr>viewport_offset := cursor_line e - 24 + 1\<rparr>
      else e)"

definition draw_row :: "editor \<Rightarrow> nat \<Rightarrow> cell_put list option" where
  "draw_row e y =
     (let idx = viewport_offset e + int y
      in if idx < line_count e
         then do { row \<leftarrow> row_at idx e; len \<leftarrow> row_strlen row; Some (draw_line (text_of row) y (idx = cursor_line e) (cursor_col e)) }
         else Some (map (\<lambda>x. (x, y, 0x20, normal_color)) [0..<80]))"

fun draw_rows :: "editor \<Rightarrow> nat list \<Rightarrow> cell_put list option" where
  "draw_rows e [] = Some []"
| "draw_rows e (y # ys) = do { c \<leftarrow> draw_row e y; cs \<leftarrow> draw_rows e ys; Some (c @ cs) }"

text \<open>The cells and the place of the cursor (row and column).\<close>

definition edit_render :: "editor \<Rightarrow> (cell_put list \<times> (int \<times> nat) \<times> editor) option" where
  "edit_render e = do {
     let e = scroll_view e;
     cells \<leftarrow> draw_rows e [0..<24];
     let cursor_x = nat (cursor_col e + 2);
     Some (cells @ draw_status_bar e, (cursor_line e - viewport_offset e, if cursor_x \<ge> 80 then 79 else cursor_x), e)
   }"


subsection \<open>Rows and lines\<close>

definition row_ok :: "u8 list \<Rightarrow> bool" where
  "row_ok r \<longleftrightarrow> length r = 128 \<and> 0 \<in> set r"

lemma text_of_append [simp]: "0 \<notin> set t \<Longrightarrow> text_of (t @ 0 # z) = t"
proof -
  assume "0 \<notin> set t"
  then have "\<forall>c\<in>set t. c \<noteq> 0" by metis
  then show ?thesis by (simp add: text_of_def takeWhile_append2)
qed

lemma text_of_no_nul: "0 \<notin> set (text_of r)"
  by (auto simp: text_of_def dest: set_takeWhileD)

lemma row_split:
  assumes "row_ok r"
  obtains z where "r = text_of r @ 0 # z" "length (text_of r) + length z = 127"
proof -
  obtain t z where r: "r = t @ 0 # z" "0 \<notin> set t" using assms by (auto simp: row_ok_def dest: split_list_first)
  then have "text_of r = t" by simp
  then show thesis using that [of z] r assms by (simp add: row_ok_def)
qed

lemma row_strlen_ok: "row_ok r \<Longrightarrow> row_strlen r = Some (int (length (text_of r)))"
  by (simp add: row_strlen_def row_ok_def)

lemma text_length: "row_ok r \<Longrightarrow> length (text_of r) \<le> 127"
  by (metis row_split le_add1)

lemma row_okI: "length t + length z = 127 \<Longrightarrow> row_ok (t @ 0 # z)"
  by (simp add: row_ok_def)

lemma copy_line_ok: "row_ok (copy_line r)" "text_of (copy_line r) = take 127 (text_of r)"
proof -
  let ?t = "take 127 (text_of r)"
  have n: "0 \<notin> set ?t" using text_of_no_nul by (auto dest: in_set_takeD)
  have "copy_line r = ?t @ 0 # replicate (127 - length ?t) 0"
  proof -
    have "take 127 (text_of r @ replicate 128 0) = ?t @ replicate (127 - length ?t) 0" by auto
    then show ?thesis by (simp add: copy_line_def replicate_append_same [symmetric] del: take_append)
  qed
  then show "row_ok (copy_line r)" "text_of (copy_line r) = ?t" using n by (simp_all add: row_ok_def)
qed

lemma copy_row: "row_ok r \<Longrightarrow> text_of (copy_line r) = text_of r"
  using copy_line_ok(2) text_length by simp

declare shift_right.simps [simp del] shift_left.simps [simp del] lines_up.simps [simp del] lines_down.simps [simp del] trim_lines.simps [simp del] collect_lines.simps [simp del]

lemma row_at_pos: "row_get (int (length a)) (a @ x # z) = Some x" "row_put (int (length a)) c (a @ x # z) = Some (a @ c # z)"
  by (simp_all add: row_get_def row_put_def)

lemma shift_right_ok: "shift_right (int (length a + length b)) (int (length a)) (a @ b @ x # z) = Some (a @ hd (b @ [x]) # b @ z)"
proof (induction b arbitrary: x z rule: rev_induct)
  case Nil
  then show ?case by (subst shift_right.simps) simp
next
  case (snoc y b)
  have g: "row_get (int (length a) + int (length b)) (a @ b @ y # x # z) = Some y" using row_at_pos(1) [of "a @ b" y "x # z"] by simp
  have p: "row_put (1 + (int (length a) + int (length b))) y (a @ b @ y # x # z) = Some (a @ b @ y # y # z)"
    using row_at_pos(2) [of "a @ b @ [y]" y x z] by (simp add: ac_simps)
  have h: "hd (b @ [y, x]) = hd (b @ [y])" by (cases b) simp_all
  show ?case using snoc [of y "y # z"] by (subst shift_right.simps) (simp add: g p h)
qed

lemma shift_left_ok: "shift_left (int (length a)) (int (length a + length (y # b))) (a @ y # b @ x # z) = Some (a @ b @ x # x # z)"
proof (induction b arbitrary: a y)
  case Nil
  have g: "row_get (int (length a) + 1) (a @ y # x # z) = Some x" "row_put (int (length a)) x (a @ y # x # z) = Some (a @ x # x # z)"
    using row_at_pos(1) [of "a @ [y]" x z] row_at_pos(2) [of a x y "x # z"] by (simp_all add: ac_simps)
  show ?case by (subst shift_left.simps) (simp add: g, subst shift_left.simps, simp)
next
  case (Cons w b)
  have g: "row_get (1 + int (length a)) (a @ y # w # b @ x # z) = Some w" "row_put (int (length a)) w (a @ y # w # b @ x # z) = Some (a @ w # w # b @ x # z)"
    using row_at_pos(1) [of "a @ [y]" w "b @ x # z"] row_at_pos(2) [of a w y "w # b @ x # z"] by (simp_all add: ac_simps)
  show ?case using Cons [of "a @ [w]" w] by (subst shift_left.simps) (simp add: g ac_simps)
qed

lemma row_at_line: "edit_buffer e = a @ x # z \<Longrightarrow> row_at (int (length a)) e = Some x \<and> set_row (int (length a)) y e = Some (e\<lparr>edit_buffer := a @ y # z\<rparr>)"
  by (simp add: row_at_def set_row_def)

lemma lines_up_ok:
  "edit_buffer e = a @ x # b @ z \<Longrightarrow> lines_up (int (length a) + 1) (int (length a) + 1 + int (length b)) e =
     Some (e\<lparr>edit_buffer := a @ map copy_line b @ last (x # b) # z\<rparr>)"
proof (induction b arbitrary: a x e)
  case Nil
  then show ?case by (subst lines_up.simps) simp
next
  case (Cons y b)
  have r: "row_at (1 + int (length a)) e = Some y" using row_at_line [of e "a @ [x]" y "b @ z"] Cons.prems by (simp add: ac_simps)
  have s: "set_row (int (length a)) (copy_line y) e = Some (e\<lparr>edit_buffer := a @ copy_line y # y # b @ z\<rparr>)" using row_at_line [of e a x "y # b @ z"] Cons.prems by simp
  show ?case using Cons.IH [of "e\<lparr>edit_buffer := a @ copy_line y # y # b @ z\<rparr>" "a @ [copy_line y]" y]
    by (subst lines_up.simps) (simp add: r s ac_simps)
qed

lemma lines_down_ok:
  "edit_buffer e = a @ b @ x # z \<Longrightarrow> lines_down (int (length a) + int (length b)) (int (length a)) e =
     Some (e\<lparr>edit_buffer := a @ hd (b @ [x]) # map copy_line b @ z\<rparr>)"
proof (induction b arbitrary: e x z rule: rev_induct)
  case Nil
  then show ?case by (subst lines_down.simps) simp
next
  case (snoc y b)
  have r: "row_at (int (length a) + int (length b)) e = Some y" using row_at_line [of e "a @ b" y "x # z"] snoc.prems by simp
  have s: "set_row (1 + (int (length a) + int (length b))) (copy_line y) e = Some (e\<lparr>edit_buffer := a @ b @ y # copy_line y # z\<rparr>)"
    using row_at_line [of e "a @ b @ [y]" x z] snoc.prems by (simp add: ac_simps)
  have h: "hd (b @ [y, x]) = hd (b @ [y])" by (cases b) simp_all
  show ?case using snoc.IH [of "e\<lparr>edit_buffer := a @ b @ y # copy_line y # z\<rparr>" y "copy_line y # z"]
    by (subst lines_down.simps) (simp add: r s h ac_simps)
qed


subsection \<open>An editor on a list of lines\<close>

text \<open>The lines, and the line and column of the cursor.\<close>

type_synonym doc = "u8 list list \<times> nat \<times> nat"

fun doc_insert :: "u8 \<Rightarrow> doc \<Rightarrow> doc" where
  "doc_insert c (ls, i, j) =
     (if length (ls ! i) \<ge> 127 then (ls, i, j) else (ls[i := take j (ls ! i) @ c # drop j (ls ! i)], i, j + 1))"

fun doc_delete :: "doc \<Rightarrow> doc" where
  "doc_delete (ls, i, j) =
     (if 0 < j then (ls[i := take (j - 1) (ls ! i) @ drop j (ls ! i)], i, j - 1)
      else if 0 < i then (take (i - 1) ls @ take 127 (ls ! (i - 1) @ ls ! i) # drop (i + 1) ls, i - 1, length (ls ! (i - 1)))
      else (ls, i, j))"

fun doc_split :: "doc \<Rightarrow> doc" where
  "doc_split (ls, i, j) =
     (if length ls \<ge> 128 then (ls, i, j) else (take i ls @ take j (ls ! i) # drop j (ls ! i) # drop (i + 1) ls, i + 1, 0))"

fun doc_move :: "u8 \<Rightarrow> doc \<Rightarrow> doc" where
  "doc_move code (ls, i, j) =
     (if code = KEY_UP_ARROW then if 0 < i then (ls, i - 1, min j (length (ls ! (i - 1)))) else (ls, i, j)
      else if code = KEY_DOWN_ARROW then
        if i + 1 < length ls then (ls, i + 1, min j (length (ls ! (i + 1))))
        else if length ls < 128 then (ls @ [[]], i + 1, 0) else (ls, i, j)
      else if code = KEY_LEFT_ARROW then
        if 0 < j then (ls, i, j - 1) else if 0 < i then (ls, i - 1, length (ls ! (i - 1))) else (ls, i, j)
      else if code = KEY_RIGHT_ARROW then
        if j < length (ls ! i) then (ls, i, j + 1) else if i + 1 < length ls then (ls, i + 1, 0) else (ls, i, j)
      else (ls, i, j))"

definition doc_of :: "editor \<Rightarrow> doc" where
  "doc_of e = (map text_of (take (nat (line_count e)) (edit_buffer e)), nat (cursor_line e), nat (cursor_col e))"

definition editor_ok :: "editor \<Rightarrow> bool" where
  "editor_ok e \<longleftrightarrow> length (edit_buffer e) = 128 \<and> (\<forall>r\<in>set (edit_buffer e). row_ok r) \<and> 1 \<le> line_count e \<and> line_count e \<le> 128 \<and>
     0 \<le> cursor_line e \<and> cursor_line e < line_count e \<and> 0 \<le> cursor_col e \<and> nat (cursor_col e) \<le> length (text_of (edit_buffer e ! nat (cursor_line e)))"

text \<open>Only the text and the cursor differ.\<close>

definition kept :: "editor \<Rightarrow> editor \<Rightarrow> bool" where
  "kept e e' \<longleftrightarrow> viewport_offset e' = viewport_offset e \<and> edit_filename e' = edit_filename e \<and> edit_path e' = edit_path e \<and>
     edit_active e' = edit_active e \<and> status_message e' = status_message e"

text \<open>The buffer around the line of the cursor.\<close>

lemma around_cursor:
  assumes "editor_ok e"
  obtains a r u v j where "edit_buffer e = a @ r # u @ v" "cursor_line e = int (length a)" "line_count e = int (length a + 1 + length u)" "cursor_col e = int j"
    "j \<le> length (text_of r)" "row_ok r" "\<forall>r\<in>set (a @ u @ v). row_ok r" "length a + length u + length v = 127"
proof -
  let ?b = "edit_buffer e" and ?n = "nat (cursor_line e)" and ?k = "nat (line_count e)"
  have n: "?n < ?k" "?k \<le> length ?b" "length ?b = 128" using assms by (auto simp: editor_ok_def)
  have b: "?b = take ?n ?b @ ?b ! ?n # take (?k - Suc ?n) (drop (Suc ?n) ?b) @ drop ?k ?b"
  proof -
    have "drop (Suc ?n) ?b = take (?k - Suc ?n) (drop (Suc ?n) ?b) @ drop ?k ?b" using n by (metis Suc_leI append_take_drop_id drop_drop le_add_diff_inverse2)
    then show ?thesis using id_take_nth_drop [of ?n ?b] n by simp
  qed
  show thesis
    by (rule that [of "take ?n ?b" "?b ! ?n" "take (?k - Suc ?n) (drop (Suc ?n) ?b)" "drop ?k ?b" "nat (cursor_col e)"])
      (use b n assms in \<open>auto simp: editor_ok_def dest: in_set_takeD in_set_dropD\<close>)
qed

lemma doc_of_split:
  "edit_buffer e = a @ r # u @ v \<Longrightarrow> line_count e = int (length a + 1 + length u) \<Longrightarrow> cursor_line e = int i \<Longrightarrow> cursor_col e = int j \<Longrightarrow>
     doc_of e = (map text_of a @ text_of r # map text_of u, i, j)"
  by (simp add: doc_of_def nat_add_distrib)

lemma editor_okI:
  assumes "edit_buffer e = a @ r # u @ v" "line_count e = int (length a + 1 + length u)" "cursor_line e = int i" "cursor_col e = int j"
    "i < length a + 1 + length u" "j \<le> length (text_of ((a @ r # u) ! i))" "row_ok r" "\<forall>r\<in>set (a @ u @ v). row_ok r" "length a + length u + length v = 127"
  shows "editor_ok e"
proof -
  have "(a @ r # u @ v) ! i = (a @ r # u) ! i" using assms(5) nth_append [of "a @ r # u" v i] by simp
  then show ?thesis using assms by (auto simp: editor_ok_def)
qed

lemma row_parts:
  assumes "row_ok r" "j \<le> length (text_of r)"
  obtains x y w where "text_of r = x @ y" "length x = j" "r = x @ y @ 0 # w" "length x + length y + length w = 127" "0 \<notin> set (x @ y)"
proof -
  obtain w where w: "r = text_of r @ 0 # w" "length (text_of r) + length w = 127" using row_split [OF assms(1)] by blast
  have e: "r = take j (text_of r) @ drop j (text_of r) @ 0 # w" using w(1) by (metis append.assoc append_take_drop_id)
  show thesis by (rule that [OF _ _ e]) (use assms(2) w(2) text_of_no_nul [of r] in simp_all)
qed

lemma handle_char_ok:
  assumes "editor_ok e" "c \<noteq> 0"
  shows "\<exists>e'. handle_char c e = Some e' \<and> editor_ok e' \<and> doc_of e' = doc_insert c (doc_of e) \<and> kept e e'"
proof -
  obtain a r u v j where d: "edit_buffer e = a @ r # u @ v" "cursor_line e = int (length a)" "line_count e = int (length a + 1 + length u)" "cursor_col e = int j"
    "j \<le> length (text_of r)" "row_ok r" "\<forall>r\<in>set (a @ u @ v). row_ok r" "length a + length u + length v = 127" using around_cursor [OF assms(1)] by metis
  have at: "row_at (cursor_line e) e = Some r" using row_at_line [OF d(1)] d(2) by simp
  note doc = doc_of_split [OF d(1,3,2,4)]
  show ?thesis
  proof (cases "length (text_of r) \<ge> 127")
    case True
    then show ?thesis using assms(1) at row_strlen_ok [OF d(6)] doc by (auto simp: handle_char_def kept_def EDITOR_LINE_LENGTH_def nth_append)
  next
    case False
    obtain x y w where t: "text_of r = x @ y" "length x = j" and w: "r = x @ y @ 0 # w" "length x + length y + length w = 127"
      using row_parts [OF d(6,5)] by metis
    obtain q w' where q: "w = q # w'" using False t w(2) by (cases w) auto
    have sh: "shift_right (int (length (text_of r))) (cursor_col e) r = Some (x @ hd (y @ [0]) # y @ w)"
      using shift_right_ok [of x y 0 w] w(1) t d(4) by simp
    have p1: "row_put (cursor_col e) c (x @ hd (y @ [0]) # y @ w) = Some (x @ c # y @ w)" using row_at_pos(2) [of x c] t(2) d(4) by simp
    have p2: "row_put (int (length (text_of r)) + 1) 0 (x @ c # y @ w) = Some (x @ c # y @ 0 # w')"
      using row_at_pos(2) [of "x @ c # y" 0 q w'] q t by (simp add: ac_simps)
    let ?r = "x @ c # y @ 0 # w'" and ?e = "e\<lparr>cursor_col := cursor_col e + 1, edit_buffer := a @ (x @ c # y @ 0 # w') # u @ v\<rparr>"
    have nul: "0 \<notin> set (x @ c # y)" using text_of_no_nul [of r] t assms(2) by auto
    have tr: "text_of ?r = x @ c # y" using text_of_append [OF nul] by simp
    have ro: "row_ok ?r" using w(2) q by (simp add: row_ok_def)
    have run: "handle_char c e = Some ?e"
      using at row_strlen_ok [OF d(6)] False sh p1 p2 row_at_line [of "e\<lparr>cursor_col := cursor_col e + 1\<rparr>" a r "u @ v" ?r] d(1,2)
      by (simp add: handle_char_def EDITOR_LINE_LENGTH_def)
    have e': "edit_buffer ?e = a @ ?r # u @ v" "line_count ?e = int (length a + 1 + length u)" "cursor_line ?e = int (length a)" "cursor_col ?e = int (j + 1)"
      using d by simp_all
    have "editor_ok ?e" by (rule editor_okI [OF e' _ _ ro d(7,8)]) (use tr t(2) in \<open>simp_all add: nth_append\<close>)
    moreover have "doc_of ?e = doc_insert c (doc_of e)" unfolding doc_of_split [OF e'] doc using False tr t by (simp add: nth_append list_update_append)
    ultimately show ?thesis using run by (auto simp: kept_def)
  qed
qed


lemma join_rows:
  assumes "row_ok p" "row_ok r"
  defines "cp \<equiv> min (length (text_of r)) (127 - length (text_of p))"
  shows "0 < cp \<Longrightarrow> \<exists>p'. append_text (int (length (text_of p))) (take cp r) p = Some p' \<and> row_ok p' \<and> text_of p' = take 127 (text_of p @ text_of r)"
    "cp = 0 \<Longrightarrow> text_of p = take 127 (text_of p @ text_of r)"
proof -
  obtain w where w: "p = text_of p @ 0 # w" "length (text_of p) + length w = 127" using row_split [OF assms(1)] by blast
  define t where "t = text_of p"
  have t: "p = t @ 0 # w" "length t + length w = 127" "0 \<notin> set t" unfolding t_def by (rule w text_of_no_nul)+
  have cr: "take cp r = take cp (text_of r)"
  proof -
    obtain z where "r = text_of r @ 0 # z" using row_split [OF assms(2)] by blast
    then have "take cp r = take cp (text_of r @ 0 # z)" by (rule arg_cong)
    then show ?thesis by (simp add: cp_def)
  qed
  have j: "t @ take cp (text_of r) = take 127 (t @ text_of r)" using t(2) by (simp add: cp_def t_def min_def)
  show "text_of p = take 127 (text_of p @ text_of r)" if "cp = 0" using j that by (simp add: t_def)
  show "\<exists>p'. append_text (int (length (text_of p))) (take cp r) p = Some p' \<and> row_ok p' \<and> text_of p' = take 127 (text_of p @ text_of r)" if "0 < cp"
  proof -
    let ?p = "t @ take cp (text_of r) @ 0 # drop (Suc cp) (0 # w)"
    have len: "length (take cp (text_of r)) = cp" "length t + cp \<le> 127" "cp \<le> length w" using t(2) by (auto simp: cp_def t_def)
    have "append_text (int (length t)) (take cp (text_of r)) (t @ 0 # w) = Some ?p" using len t(2) by (simp add: append_text_def)
    then have "append_text (int (length t)) (take cp r) p = Some ?p" unfolding cr by (subst t(1))
    moreover have "row_ok ?p" using len t(2) by (simp add: row_ok_def)
    moreover have "0 \<notin> set (t @ take cp (text_of r))" using t(3) text_of_no_nul [of r] by (auto dest: in_set_takeD)
    then have "text_of ?p = t @ take cp (text_of r)" using text_of_append by (metis append.assoc)
    ultimately show ?thesis unfolding t_def [symmetric] j [symmetric] by blast
  qed
qed

lemma last_row_ok: "row_ok r \<Longrightarrow> \<forall>r\<in>set u. row_ok r \<Longrightarrow> row_ok (last (r # u))"
  by (cases u rule: rev_cases) auto

lemma map_copied: "\<forall>r\<in>set u. row_ok r \<Longrightarrow> map text_of (map copy_line u) = map text_of u \<and> (\<forall>r\<in>set (map copy_line u). row_ok r)"
  using copy_row copy_line_ok(1) by auto

lemma handle_backspace_ok:
  assumes "editor_ok e"
  shows "\<exists>e'. handle_backspace e = Some e' \<and> editor_ok e' \<and> doc_of e' = doc_delete (doc_of e) \<and> kept e e'"
proof -
  obtain a r u v j where d: "edit_buffer e = a @ r # u @ v" "cursor_line e = int (length a)" "line_count e = int (length a + 1 + length u)" "cursor_col e = int j"
    "j \<le> length (text_of r)" "row_ok r" "\<forall>r\<in>set (a @ u @ v). row_ok r" "length a + length u + length v = 127" using around_cursor [OF assms(1)] by metis
  have at: "row_at (cursor_line e) e = Some r" using row_at_line [OF d(1)] d(2) by simp
  note doc = doc_of_split [OF d(1,3,2,4)]
  consider (del) "0 < j" | (top) "j = 0" "a = []" | (join) a' p where "j = 0" "a = a' @ [p]" by (cases a rule: rev_cases) auto
  then show ?thesis
  proof cases
    case del
    obtain x y w where t: "text_of r = x @ y" "length x = j" and w: "r = x @ y @ 0 # w" "length x + length y + length w = 127" "0 \<notin> set (x @ y)"
      using row_parts [OF d(6,5)] by metis
    obtain x' q where x: "x = x' @ [q]" using del t(2) by (cases x rule: rev_cases) auto
    have jj: "int j - 1 = int (length x')" "int (length (text_of r)) = int (length x' + length (q # y))" using t x by simp_all
    let ?r = "x' @ y @ 0 # 0 # w"
    have sh: "shift_left (cursor_col e - 1) (int (length (text_of r))) r = Some ?r"
      unfolding d(4) jj using shift_left_ok [of x' q y 0 w] w(1) x by simp
    have tr: "text_of ?r = x' @ y" using text_of_append [of "x' @ y" "0 # w"] w(3) x by simp
    have ro: "row_ok ?r" using w(2) x by (simp add: row_ok_def)
    let ?e = "e\<lparr>cursor_col := cursor_col e - 1, edit_buffer := a @ ?r # u @ v\<rparr>"
    have run: "handle_backspace e = Some ?e"
      using at row_strlen_ok [OF d(6)] sh row_at_line [of "e\<lparr>cursor_col := cursor_col e - 1\<rparr>" a r "u @ v" ?r] d(1,2,4) del by (simp add: handle_backspace_def)
    have e': "edit_buffer ?e = a @ ?r # u @ v" "line_count ?e = int (length a + 1 + length u)" "cursor_line ?e = int (length a)" "cursor_col ?e = int (j - 1)"
      using d del by (simp_all add: of_nat_diff)
    have "editor_ok ?e" by (rule editor_okI [OF e' _ _ ro d(7,8)]) (use tr t(2) x in \<open>simp_all add: nth_append\<close>)
    moreover have "doc_of ?e = doc_delete (doc_of e)" unfolding doc_of_split [OF e'] doc using del tr t x by (auto simp: nth_append list_update_append)
    ultimately show ?thesis using run by (auto simp: kept_def)
  next
    case top
    then show ?thesis using assms at row_strlen_ok [OF d(6)] d(2,4) doc by (simp add: handle_backspace_def kept_def)
  next
    case join
    have p: "row_ok p" "\<forall>r\<in>set u. row_ok r" "\<forall>r\<in>set a'. row_ok r" "\<forall>r\<in>set v. row_ok r" using d(7) join by auto
    have B: "edit_buffer e = a' @ p # r # u @ v" using d(1) join by simp
    have atp: "row_at (cursor_line e - 1) e = Some p" "\<And>y. set_row (cursor_line e - 1) y e = Some (e\<lparr>edit_buffer := a' @ y # r # u @ v\<rparr>)"
      using row_at_line [OF B] d(2) join by simp_all
    define cp where "cp = min (length (text_of r)) (127 - length (text_of p))"
    have cpi: "join_length (int (length (text_of r))) (int (length (text_of p))) = int cp"
      using text_length [OF p(1)] by (auto simp: join_length_def cp_def EDITOR_LINE_LENGTH_def Let_def)
    obtain p' where p': "join_previous (int cp) r (int (length (text_of p))) p e =
        Some (e\<lparr>edit_buffer := a' @ p' # r # u @ v\<rparr>)" "row_ok p'" "text_of p' = take 127 (text_of p @ text_of r)"
    proof (cases "0 < cp")
      case True
      then show ?thesis using that join_rows(1) [OF p(1) d(6)] atp(2) unfolding cp_def [symmetric] by (fastforce simp: join_previous_def)
    next
      case False
      then show ?thesis using that [of p] join_rows(2) [OF p(1) d(6)] p(1) B unfolding cp_def [symmetric] by (simp add: join_previous_def)
    qed
    let ?e1 = "e\<lparr>edit_buffer := a' @ p' # r # u @ v\<rparr>"
    have up: "lines_up (cursor_line e + 1) (line_count e) ?e1 = Some (?e1\<lparr>edit_buffer := a' @ p' # map copy_line u @ last (r # u) # v\<rparr>)"
      using lines_up_ok [of ?e1 "a' @ [p']" r u v] d(2,3) join by (simp add: ac_simps)
    let ?e = "e\<lparr>edit_buffer := a' @ p' # map copy_line u @ last (r # u) # v, line_count := line_count e - 1, cursor_line := cursor_line e - 1,
      cursor_col := int (length (text_of p))\<rparr>"
    have run: "handle_backspace e = Some ?e"
      using join(1) d(4) at row_strlen_ok [OF d(6)] atp(1) row_strlen_ok [OF p(1)] d(2) join(2) up
      unfolding handle_backspace_def by (simp add: cpi p'(1) Let_def)
    have e': "edit_buffer ?e = a' @ p' # map copy_line u @ (last (r # u) # v)" "line_count ?e = int (length a' + 1 + length (map copy_line u))"
      "cursor_line ?e = int (length a')" "cursor_col ?e = int (length (text_of p))" using d(2,3) join by simp_all
    have "editor_ok ?e"
      by (rule editor_okI [OF e' _ _ p'(2)]) (use p'(3) p map_copied [OF p(2)] last_row_ok [OF d(6) p(2)] text_length [OF p(1)] d(8) join in \<open>auto simp: nth_append\<close>)
    moreover have "doc_of ?e = doc_delete (doc_of e)" unfolding doc_of_split [OF e'] doc using join p'(3) map_copied [OF p(2)] by (simp add: nth_append)
    ultimately show ?thesis using run by (auto simp: kept_def)
  qed
qed


lemma line_ok:
  assumes "editor_ok e" "0 \<le> k" "k < 128"
  shows "row_at k e = Some (edit_buffer e ! nat k)" "row_ok (edit_buffer e ! nat k)" "row_strlen (edit_buffer e ! nat k) = Some (int (length (text_of (edit_buffer e ! nat k))))"
proof -
  have "edit_buffer e ! nat k \<in> set (edit_buffer e)" using assms by (simp add: editor_ok_def)
  then show ok: "row_ok (edit_buffer e ! nat k)" using assms(1) by (simp add: editor_ok_def)
  show "row_strlen (edit_buffer e ! nat k) = Some (int (length (text_of (edit_buffer e ! nat k))))" using row_strlen_ok [OF ok] .
  show "row_at k e = Some (edit_buffer e ! nat k)" using assms by (simp add: row_at_def editor_ok_def)
qed

lemma cursor_moved:
  assumes "editor_ok e" "0 \<le> i" "i < line_count e" "0 \<le> j" "nat j \<le> length (text_of (edit_buffer e ! nat i))"
  shows "editor_ok (e\<lparr>cursor_line := i, cursor_col := j\<rparr>) \<and> doc_of (e\<lparr>cursor_line := i, cursor_col := j\<rparr>) = (fst (doc_of e), nat i, nat j) \<and>
    kept e (e\<lparr>cursor_line := i, cursor_col := j\<rparr>)"
  using assms by (simp add: editor_ok_def doc_of_def kept_def)

lemma doc_lines: "editor_ok e \<Longrightarrow> length (fst (doc_of e)) = nat (line_count e) \<and> (\<forall>k<nat (line_count e). fst (doc_of e) ! k = text_of (edit_buffer e ! k))"
  by (auto simp: doc_of_def editor_ok_def min_def)

lemma go_to_line_ok:
  assumes "editor_ok e" "0 \<le> i" "i < line_count e"
  shows "\<exists>e'. go_to_line i e = Some e' \<and> editor_ok e' \<and>
    doc_of e' = (fst (doc_of e), nat i, min (nat (cursor_col e)) (length (fst (doc_of e) ! nat i))) \<and> kept e e'"
proof -
  let ?l = "length (text_of (edit_buffer e ! nat i))"
  have b: "i < 128" "0 \<le> cursor_col e" using assms by (auto simp: editor_ok_def)
  let ?j = "if cursor_col e > int ?l then int ?l else cursor_col e"
  have run: "go_to_line i e = Some (e\<lparr>cursor_line := i, cursor_col := ?j\<rparr>)" using line_ok [OF assms(1,2) b(1)] by (simp add: go_to_line_def)
  have "fst (doc_of e) ! nat i = text_of (edit_buffer e ! nat i)" using doc_lines [OF assms(1)] assms(2,3) by simp
  then have "min (nat (cursor_col e)) (length (fst (doc_of e) ! nat i)) = nat ?j" using b(2) by auto
  moreover have "editor_ok (e\<lparr>cursor_line := i, cursor_col := ?j\<rparr>) \<and> doc_of (e\<lparr>cursor_line := i, cursor_col := ?j\<rparr>) = (fst (doc_of e), nat i, nat ?j) \<and>
    kept e (e\<lparr>cursor_line := i, cursor_col := ?j\<rparr>)" using b(2) by (intro cursor_moved [OF assms]) auto
  ultimately show ?thesis using run by simp
qed

lemma new_line_ok:
  assumes "editor_ok e" "cursor_line e = line_count e - 1" "line_count e < 128"
  shows "\<exists>e'. do { row \<leftarrow> row_at (line_count e) e; row \<leftarrow> row_put 0 0 row; e \<leftarrow> set_row (line_count e) row e;
      Some (e\<lparr>line_count := line_count e + 1, cursor_line := cursor_line e + 1, cursor_col := 0\<rparr>) } = Some e' \<and> editor_ok e' \<and>
    doc_of e' = (fst (doc_of e) @ [[]], nat (line_count e), 0) \<and> kept e e'"
proof -
  obtain a r u v j where d: "edit_buffer e = a @ r # u @ v" "cursor_line e = int (length a)" "line_count e = int (length a + 1 + length u)" "cursor_col e = int j"
    "j \<le> length (text_of r)" "row_ok r" "\<forall>r\<in>set (a @ u @ v). row_ok r" "length a + length u + length v = 127" using around_cursor [OF assms(1)] by metis
  have u: "u = []" using d(2,3) assms(2) by simp
  obtain q v' where v: "v = q # v'" using d(3,8) assms(3) u by (cases v) auto
  obtain y q' where q: "q = y # q'" "length q' = 127" using d(7) v by (cases q) (auto simp: row_ok_def)
  have B: "edit_buffer e = (a @ [r]) @ q # v'" using d(1) u v by simp
  have at: "row_at (line_count e) e = Some q" "set_row (line_count e) (0 # q') e = Some (e\<lparr>edit_buffer := (a @ [r]) @ (0 # q') # v'\<rparr>)"
    using row_at_line [OF B, of "0 # q'"] d(3) u by (simp_all add: ac_simps)
  have p: "row_put 0 0 q = Some (0 # q')" using row_at_pos(2) [of "[]" 0 y q'] q by simp
  let ?e = "e\<lparr>edit_buffer := (a @ [r]) @ (0 # q') # v', line_count := line_count e + 1, cursor_line := cursor_line e + 1, cursor_col := 0\<rparr>"
  have e': "edit_buffer ?e = (a @ [r]) @ (0 # q') # [] @ v'" "line_count ?e = int (length (a @ [r]) + 1 + length ([] :: u8 list list))"
    "cursor_line ?e = int (length (a @ [r]))" "cursor_col ?e = int 0" using d u by simp_all
  have t: "text_of (0 # q') = []" by (simp add: text_of_def)
  have "editor_ok ?e" by (rule editor_okI [OF e']) (use d u v q in \<open>auto simp: row_ok_def\<close>)
  moreover have "doc_of ?e = (fst (doc_of e) @ [[]], nat (line_count e), 0)"
    unfolding doc_of_split [OF e'] doc_of_split [OF d(1,3,2,4)] using u t d(3) by (simp add: nat_add_distrib)
  ultimately show ?thesis using at p by (auto simp: kept_def)
qed

lemma handle_arrows_ok:
  assumes "editor_ok e"
  shows "\<exists>e'. handle_arrows code e = Some e' \<and> editor_ok e' \<and> doc_of e' = doc_move code (doc_of e) \<and> kept e e'"
proof -
  obtain ls where d: "doc_of e = (ls, nat (cursor_line e), nat (cursor_col e))" by (simp add: doc_of_def)
  have b: "0 \<le> cursor_line e" "cursor_line e < line_count e" "line_count e \<le> 128" "0 \<le> cursor_col e"
    "nat (cursor_col e) \<le> length (text_of (edit_buffer e ! nat (cursor_line e)))" using assms by (auto simp: editor_ok_def)
  have ls: "length ls = nat (line_count e)" "\<And>k. 0 \<le> k \<Longrightarrow> k < line_count e \<Longrightarrow> ls ! nat k = text_of (edit_buffer e ! nat k)" using doc_lines [OF assms] d by auto
  have keys: "KEY_UP_ARROW \<noteq> KEY_DOWN_ARROW" "KEY_UP_ARROW \<noteq> KEY_LEFT_ARROW" "KEY_UP_ARROW \<noteq> KEY_RIGHT_ARROW" "KEY_DOWN_ARROW \<noteq> KEY_LEFT_ARROW"
    "KEY_DOWN_ARROW \<noteq> KEY_RIGHT_ARROW" "KEY_LEFT_ARROW \<noteq> KEY_RIGHT_ARROW"
    by (simp_all add: KEY_UP_ARROW_def KEY_DOWN_ARROW_def KEY_LEFT_ARROW_def KEY_RIGHT_ARROW_def)
  note stay = cursor_moved [OF assms b(1,2,4,5)]
  consider (up) "code = KEY_UP_ARROW" | (down) "code = KEY_DOWN_ARROW" | (left) "code = KEY_LEFT_ARROW" | (right) "code = KEY_RIGHT_ARROW"
    | (other) "code \<notin> {KEY_UP_ARROW, KEY_DOWN_ARROW, KEY_LEFT_ARROW, KEY_RIGHT_ARROW}" by blast
  then show ?thesis
  proof cases
    case up
    then show ?thesis
      using go_to_line_ok [OF assms, of "cursor_line e - 1"] assms d b(1,2) by (cases "cursor_line e > 0") (auto simp: handle_arrows_def kept_def nat_diff_distrib)
  next
    case down
    consider (within) "cursor_line e < line_count e - 1" | (new) "cursor_line e = line_count e - 1" "line_count e < 128"
      | (full) "cursor_line e = line_count e - 1" "line_count e = 128" using b by linarith
    then show ?thesis
    proof cases
      case within
      then show ?thesis using go_to_line_ok [OF assms, of "cursor_line e + 1"] d b(1) down keys ls(1) by (auto simp: handle_arrows_def nat_add_distrib)
    next
      case new
      then show ?thesis using new_line_ok [OF assms new] d b down keys ls(1) by (auto simp: handle_arrows_def EDITOR_MAX_LINES_def nat_diff_distrib)
    next
      case full
      have "length ls = 128" "\<not> nat (cursor_line e) + 1 < 128" using ls(1) full by simp_all
      then show ?thesis using assms d full down keys by (auto simp: handle_arrows_def EDITOR_MAX_LINES_def kept_def)
    qed
  next
    case left
    consider (within) "cursor_col e > 0" | (before) "cursor_col e = 0" "cursor_line e > 0" | (first) "cursor_col e = 0" "cursor_line e = 0" using b by linarith
    then show ?thesis
    proof cases
      case within
      then show ?thesis using cursor_moved [OF assms b(1,2), of "cursor_col e - 1"] b(4,5) d left keys by (auto simp: handle_arrows_def nat_diff_distrib)
    next
      case before
      let ?l = "length (text_of (edit_buffer e ! nat (cursor_line e - 1)))"
      have c: "0 \<le> cursor_line e - 1" "cursor_line e - 1 < line_count e" "cursor_line e - 1 < 128" using before b by simp_all
      have "handle_arrows code e = Some (e\<lparr>cursor_line := cursor_line e - 1, cursor_col := int ?l\<rparr>)"
        using before left keys line_ok [OF assms c(1,3)] by (simp add: handle_arrows_def)
      then show ?thesis using cursor_moved [OF assms c(1,2), of "int ?l"] ls(2) [OF c(1,2)] before left keys d by (auto simp: nat_diff_distrib)
    next
      case first
      then show ?thesis using assms d left keys by (auto simp: handle_arrows_def kept_def)
    qed
  next
    case right
    have l: "row_at (cursor_line e) e = Some (edit_buffer e ! nat (cursor_line e))" "row_strlen (edit_buffer e ! nat (cursor_line e)) = Some (int (length (ls ! nat (cursor_line e))))"
      using line_ok [OF assms b(1)] b ls(2) [OF b(1,2)] by simp_all
    have jl: "cursor_col e \<le> int (length (ls ! nat (cursor_line e)))" using b ls(2) [OF b(1,2)] by simp
    consider (within) "cursor_col e < int (length (ls ! nat (cursor_line e)))" | (behind) "cursor_col e = int (length (ls ! nat (cursor_line e)))" "cursor_line e < line_count e - 1"
      | (final) "cursor_col e = int (length (ls ! nat (cursor_line e)))" "cursor_line e = line_count e - 1" using b jl by linarith
    then show ?thesis
    proof cases
      case within
      then show ?thesis using cursor_moved [OF assms b(1,2), of "cursor_col e + 1"] b(4) ls(2) [OF b(1,2)] d right keys l by (auto simp: handle_arrows_def nat_add_distrib)
    next
      case behind
      then show ?thesis using cursor_moved [OF assms, of "cursor_line e + 1" 0] b ls(1) d right keys l by (auto simp: handle_arrows_def nat_add_distrib)
    next
      case final
      then show ?thesis using assms b ls(1) d right keys l by (auto simp: handle_arrows_def kept_def)
    qed
  next
    case other
    then show ?thesis using assms d by (auto simp: handle_arrows_def kept_def)
  qed
qed


lemma handle_enter_split:
  assumes "editor_ok e" "text_of (edit_buffer e ! nat (cursor_line e)) \<notin> {save_command, exit_command}"
  shows "\<exists>e'. handle_enter res e = Some (None, e') \<and> editor_ok e' \<and> doc_of e' = doc_split (doc_of e) \<and> kept e e'"
proof -
  obtain a r u v j where d: "edit_buffer e = a @ r # u @ v" "cursor_line e = int (length a)" "line_count e = int (length a + 1 + length u)" "cursor_col e = int j"
    "j \<le> length (text_of r)" "row_ok r" "\<forall>r\<in>set (a @ u @ v). row_ok r" "length a + length u + length v = 127" using around_cursor [OF assms(1)] by metis
  have at: "row_at (cursor_line e) e = Some r" "\<And>y. set_row (cursor_line e) y e = Some (e\<lparr>edit_buffer := a @ y # u @ v\<rparr>)" using row_at_line [OF d(1)] d(2) by simp_all
  have nc: "text_of r \<noteq> save_command" "text_of r \<noteq> exit_command" using assms(2) d(1,2) by auto
  note doc = doc_of_split [OF d(1,3,2,4)] and len = row_strlen_ok [OF d(6)]
  show ?thesis
  proof (cases "line_count e \<ge> 128")
    case True
    then show ?thesis using at(1) nc len assms(1) doc d(3,8) by (auto simp: handle_enter_def EDITOR_MAX_LINES_def kept_def)
  next
    case False
    obtain q v' where v: "v = q # v'" using d(3,8) False by (cases v) auto
    obtain x y w where t: "text_of r = x @ y" "length x = j" and w: "r = x @ y @ 0 # w" "length x + length y + length w = 127" "0 \<notin> set (x @ y)"
      using row_parts [OF d(6,5)] by metis
    obtain h w1 where w1: "y @ 0 # w = h # w1" by (cases y) auto
    have lw: "length w1 = length y + length w" using arg_cong [OF w1, of length] by simp
    have right: "take (nat (int (length (text_of r)) - cursor_col e)) (drop (nat (cursor_col e)) r) = y" using w(1) t d(4) by simp
    have put: "row_put (cursor_col e) 0 r = Some (x @ 0 # w1)" using row_at_pos(2) [of x 0 h w1] w(1) w1 t(2) d(4) by simp
    let ?r = "x @ 0 # w1" and ?n = "copy_line (y @ [0])"
    have ro: "row_ok ?r" "text_of ?r = x" using w(2,3) lw by (simp_all add: row_ok_def)
    have rn: "row_ok ?n" "text_of ?n = y" using copy_line_ok [of "y @ [0]"] w(2,3) by simp_all
    let ?e1 = "e\<lparr>edit_buffer := a @ ?r # u @ v\<rparr>"
    have down: "lines_down (line_count e) (cursor_line e + 1) ?e1 = Some (?e1\<lparr>edit_buffer := (a @ [?r]) @ hd (u @ [q]) # map copy_line u @ v'\<rparr>)"
      using lines_down_ok [of ?e1 "a @ [?r]" u q v'] d(2,3) v by (simp add: ac_simps)
    let ?e2 = "?e1\<lparr>edit_buffer := (a @ [?r]) @ hd (u @ [q]) # map copy_line u @ v'\<rparr>"
    have set: "set_row (cursor_line e + 1) ?n ?e2 = Some (?e2\<lparr>edit_buffer := (a @ [?r]) @ ?n # map copy_line u @ v'\<rparr>)"
      using row_at_line [of ?e2 "a @ [?r]" "hd (u @ [q])" "map copy_line u @ v'" ?n] d(2) by (simp add: ac_simps)
    let ?e = "e\<lparr>edit_buffer := (a @ [?r]) @ ?n # map copy_line u @ v', line_count := line_count e + 1, cursor_line := cursor_line e + 1, cursor_col := 0\<rparr>"
    have run: "handle_enter res e = Some (None, ?e)"
      using at nc len put down set False right by (simp add: handle_enter_def EDITOR_MAX_LINES_def Let_def)
    have e': "edit_buffer ?e = (a @ [?r]) @ ?n # map copy_line u @ v'" "line_count ?e = int (length (a @ [?r]) + 1 + length (map copy_line u))"
      "cursor_line ?e = int (length (a @ [?r]))" "cursor_col ?e = int 0" using d by simp_all
    have u: "\<forall>r\<in>set u. row_ok r" using d(7) by auto
    have "editor_ok ?e" by (rule editor_okI [OF e' _ _ rn(1)]) (use d(7,8) v ro(1) map_copied [OF u] in auto)
    moreover have "doc_of ?e = doc_split (doc_of e)"
      unfolding doc_of_split [OF e'] doc using ro(2) rn(2) map_copied [OF u] t d(3) False by (simp add: nth_append)
    ultimately show ?thesis using run by (auto simp: kept_def)
  qed
qed

text \<open>What a key does to the lines.\<close>

definition doc_key :: "keyboard_event \<Rightarrow> doc \<Rightarrow> doc" where
  "doc_key ke d =
     (if release ke then d
      else if backspace ke then doc_delete d
      else if enter ke then doc_split d
      else if is_arrow (scancode ke) then doc_move (scancode ke) d
      else if kb_to_ascii ke \<noteq> 0 then doc_insert (kb_to_ascii ke) d else d)"

text \<open>On its array of rows the editor does with every key what an editor on a list of lines does: insert a character, delete one or join two lines, split a line, move
  the cursor or add a line. It never accesses anything outside of the array or of a row, every row stays a C string, and the cursor stays in the text. (The commands
  \<^verbatim>\<open>.save\<close> and \<^verbatim>\<open>.exit\<close> are described separately.)\<close>

theorem editor_refines_lines:
  assumes "editor_ok e" "text_of (edit_buffer e ! nat (cursor_line e)) \<notin> {save_command, exit_command}"
  shows "\<exists>e'. handle_key res ke e = Some (None, e') \<and> editor_ok e' \<and> doc_of e' = doc_key ke (doc_of e) \<and> kept e e'"
proof -
  have "kept e e" by (simp add: kept_def)
  then show ?thesis
    using handle_char_ok [OF assms(1), of "kb_to_ascii ke"] handle_backspace_ok [OF assms(1)] handle_enter_split [OF assms, of res] handle_arrows_ok [OF assms(1), of "scancode ke"] assms(1)
    by (auto simp: handle_key_def doc_key_def Let_def)
qed


definition blank_editor :: editor where
  "blank_editor = \<lparr>edit_buffer = replicate 128 (replicate 128 0), line_count = 1, cursor_line = 0, cursor_col = 0, viewport_offset = 0, edit_filename = untitled,
     edit_path = 0x2F # untitled, edit_active = True, status_message = []\<rparr>"

lemma blank_editor_ok: "editor_ok blank_editor"
  by (simp add: editor_ok_def blank_editor_def row_ok_def)

lemma blank_line: "text_of (edit_buffer blank_editor ! nat (cursor_line blank_editor)) = []"
  by (simp add: blank_editor_def text_of_def)

definition enter_key :: keyboard_event where
  "enter_key = \<lparr>scancode = 0x1C, shift = False, caps_lock = False, ctrl = False, alt = False, special = False, release = False, enter = True,
     backspace = False, up_arrow = False, down_arrow = False, left_arrow = False, right_arrow = False\<rparr>"

theorem editor_refines_lines_witness:
  "\<exists>e'. handle_key \<lparr>malloc_ok = True, remove_res = 0, open_res = 0, seek_res = 0, write_res = 0\<rparr> enter_key blank_editor = Some (None, e') \<and> editor_ok e' \<and>
     doc_of e' = ([[], []], 1, 0)"
proof -
  have d: "doc_key enter_key (doc_of blank_editor) = ([[], []], 1, 0)"
    by (simp add: doc_key_def enter_key_def doc_of_def blank_editor_def text_of_def)
  show ?thesis using editor_refines_lines [OF blank_editor_ok, of _ enter_key] blank_line d by (fastforce simp: save_command_def exit_command_def)
qed


subsection \<open>Saving and opening again\<close>

fun doc_trim :: "u8 list list \<Rightarrow> u8 list list" where
  "doc_trim ls = (if 1 < length ls \<and> last ls = [] then doc_trim (butlast ls) else ls)"

declare doc_trim.simps [simp del]

definition file_data :: "u8 list list \<Rightarrow> u8 list" where
  "file_data ls = concat (map (\<lambda>l. l @ [0x0A]) ls)"

definition rows_ok :: "editor \<Rightarrow> bool" where
  "rows_ok e \<longleftrightarrow> length (edit_buffer e) = 128 \<and> (\<forall>r\<in>set (edit_buffer e). row_ok r)"

lemma rows_ok_at:
  assumes "rows_ok e" "k < 128"
  shows "row_at (int k) e = Some (edit_buffer e ! k)" "row_ok (edit_buffer e ! k)"
  using assms by (simp_all add: rows_ok_def row_at_def)

lemma trim_lines_ok:
  assumes "rows_ok e" "line_count e = int n" "1 \<le> n" "n \<le> 128"
  shows "\<exists>k. trim_lines e = Some (e\<lparr>line_count := int k\<rparr>) \<and> 1 \<le> k \<and> k \<le> n \<and> map text_of (take k (edit_buffer e)) = doc_trim (map text_of (take n (edit_buffer e)))"
  using assms
proof (induction n arbitrary: e)
  case (Suc n)
  let ?b = "edit_buffer e"
  have len: "length ?b = 128" using Suc.prems(1) by (simp add: rows_ok_def)
  show ?case
  proof (cases "n = 0")
    case True
    then show ?thesis using Suc.prems by (intro exI [of _ 1]) (subst trim_lines.simps, subst doc_trim.simps, auto simp: min_def)
  next
    case False
    have r: "row_at (int n) e = Some (?b ! n)" "row_strlen (?b ! n) = Some (int (length (text_of (?b ! n))))"
      using rows_ok_at [OF Suc.prems(1), of n] row_strlen_ok Suc.prems(4) by simp_all
    have t: "map text_of (take (Suc n) ?b) = map text_of (take n ?b) @ [text_of (?b ! n)]" using Suc.prems(4) len by (simp add: take_Suc_conv_app_nth)
    show ?thesis
    proof (cases "text_of (?b ! n) = []")
      case True
      let ?e = "e\<lparr>line_count := int n\<rparr>"
      have "\<exists>k. trim_lines ?e = Some (?e\<lparr>line_count := int k\<rparr>) \<and> 1 \<le> k \<and> k \<le> n \<and> map text_of (take k (edit_buffer ?e)) = doc_trim (map text_of (take n (edit_buffer ?e)))"
        using Suc.prems False by (intro Suc.IH) (simp_all add: rows_ok_def)
      moreover have "trim_lines e = trim_lines ?e" using Suc.prems(2) r True False by (subst trim_lines.simps) simp
      moreover have "doc_trim (map text_of (take (Suc n) ?b)) = doc_trim (map text_of (take n ?b))" using True False len Suc.prems(4) unfolding t by (subst doc_trim.simps) simp
      ultimately show ?thesis by fastforce
    next
      case False
      have "trim_lines e = Some e" using Suc.prems(2) r False \<open>n \<noteq> 0\<close> by (subst trim_lines.simps) simp
      moreover have "doc_trim (map text_of (take (Suc n) ?b)) = map text_of (take (Suc n) ?b)" using False unfolding t by (subst doc_trim.simps) simp
      ultimately show ?thesis using Suc.prems(2) by (intro exI [of _ "Suc n"]) simp
    qed
  qed
qed simp

lemma collect_lines_ok:
  assumes "rows_ok e" "line_count e = int n" "n \<le> 128" "i \<le> n"
  shows "collect_lines (int i) e data = Some (data @ file_data (map text_of (take (n - i) (drop i (edit_buffer e)))))"
  using assms(4)
proof (induction "n - i" arbitrary: i data)
  case 0
  then show ?case using assms(2) by (subst collect_lines.simps) (simp add: file_data_def)
next
  case (Suc m)
  let ?b = "edit_buffer e"
  have i: "i < n" "i < 128" "length ?b = 128" using Suc.hyps(2) assms(1,3) by (auto simp: rows_ok_def)
  have r: "row_at (int i) e = Some (?b ! i)" "row_ok (?b ! i)" using rows_ok_at [OF assms(1) i(2)] by auto
  obtain w where w: "?b ! i = text_of (?b ! i) @ 0 # w" using row_split [OF r(2)] by blast
  have t: "take (length (text_of (?b ! i))) (?b ! i) = text_of (?b ! i)" by (subst (2) w) simp
  have s: "take (n - i) (drop i ?b) = ?b ! i # take (n - Suc i) (drop (Suc i) ?b)"
    using i by (simp add: Cons_nth_drop_Suc [symmetric] Suc_diff_Suc [symmetric])
  have "collect_lines (int i) e data = collect_lines (int (Suc i)) e (data @ text_of (?b ! i) @ [0x0A])"
    using i(1) assms(2) r row_strlen_ok [OF r(2)] t by (subst collect_lines.simps) (simp add: ac_simps)
  also have "\<dots> = Some ((data @ text_of (?b ! i) @ [0x0A]) @ file_data (map text_of (take (n - Suc i) (drop (Suc i) ?b))))"
    using Suc.hyps i(1) by (intro Suc.hyps(1)) simp_all
  finally show ?case unfolding s by (simp add: file_data_def)
qed

lemma save_ok:
  assumes "rows_ok e" "line_count e = int n" "1 \<le> n" "n \<le> 128" "edit_path e \<noteq> []"
    and res: "malloc_ok res" "remove_res res \<in> {VFS_SUCCESS, VFS_NOT_FOUND}" "open_res res = VFS_SUCCESS" "seek_res res = VFS_SUCCESS"
      "write_res res = int (length (file_data (doc_trim (map text_of (take n (edit_buffer e))))))"
  shows "\<exists>e'. edit_exit True res e = Some (Saved, [Remove (edit_path e), Create (edit_path e), Open (edit_path e), Seek 0,
      Write (file_data (doc_trim (map text_of (take n (edit_buffer e))))), Close], e') \<and> \<not> edit_active e'"
proof -
  obtain k where k: "trim_lines e = Some (e\<lparr>line_count := int k\<rparr>)" "1 \<le> k" "k \<le> n"
    "map text_of (take k (edit_buffer e)) = doc_trim (map text_of (take n (edit_buffer e)))" using trim_lines_ok [OF assms(1-4)] by blast
  let ?e = "e\<lparr>line_count := int k\<rparr>" and ?d = "file_data (doc_trim (map text_of (take n (edit_buffer e))))"
  have c: "collect_lines 0 ?e [] = Some ?d" using collect_lines_ok [of ?e k 0 "[]"] assms(1,4) k by (simp add: rows_ok_def)
  have "take k (edit_buffer e) \<noteq> []" using k(2) assms(1) by (auto simp: rows_ok_def)
  then have "?d \<noteq> []" using k(4) [symmetric] by (cases "take k (edit_buffer e)") (auto simp: file_data_def)
  then show ?thesis using k(1) c assms(5) res by (auto simp: edit_exit_def Let_def VFS_SUCCESS_def VFS_NOT_FOUND_def)
qed

text \<open>The command \<^verbatim>\<open>.save\<close> on its own line, and not the only one, leaves the editor. If the calls succeed, it removes the old file and writes one with the other lines, each
  followed by a newline, without the empty ones at the end.\<close>

theorem save_command_writes_lines:
  assumes "editor_ok e" "fst (doc_of e) = ls @ save_command # ls'" "snd (doc_of e) = (length ls, j)" "ls @ ls' \<noteq> []" "edit_path e \<noteq> []" "malloc_ok res"
    "remove_res res \<in> {VFS_SUCCESS, VFS_NOT_FOUND}" "open_res res = VFS_SUCCESS" "seek_res res = VFS_SUCCESS" "write_res res = int (length (file_data (doc_trim (ls @ ls'))))"
  shows "\<exists>e'. handle_enter res e = Some (Some (Saved, [Remove (edit_path e), Create (edit_path e), Open (edit_path e), Seek 0,
      Write (file_data (doc_trim (ls @ ls'))), Close]), e') \<and> \<not> edit_active e'"
proof -
  obtain a r u v j' where d: "edit_buffer e = a @ r # u @ v" "cursor_line e = int (length a)" "line_count e = int (length a + 1 + length u)" "cursor_col e = int j'"
    "j' \<le> length (text_of r)" "row_ok r" "\<forall>r\<in>set (a @ u @ v). row_ok r" "length a + length u + length v = 127" using around_cursor [OF assms(1)] by metis
  note doc = doc_of_split [OF d(1,3,2,4)]
  have l: "map text_of a = ls" "text_of r = save_command" "map text_of u = ls'"
  proof -
    have "length (map text_of a) = length ls" using assms(3) doc by simp
    then show "map text_of a = ls" "text_of r = save_command" "map text_of u = ls'" using assms(2) doc by auto
  qed
  have ne: "a @ u \<noteq> []" using assms(4) l by auto
  have at: "row_at (cursor_line e) e = Some r" using row_at_line [OF d(1)] d(2) by simp
  have u: "\<forall>r\<in>set u. row_ok r" using d(7) by auto
  define b where "b = a @ map copy_line u @ last (r # u) # v"
  let ?s = "set_status_message saved_text e"
  have up: "lines_up (cursor_line e + 1) (line_count e) ?s = Some (?s\<lparr>edit_buffer := b\<rparr>)"
    using lines_up_ok [of ?s a r u v] d(1-3) by (simp add: b_def set_status_message_def ac_simps)
  let ?n = "length a + length u"
  let ?e = "?s\<lparr>edit_buffer := b, line_count := int ?n, cursor_line := int ?n - 1\<rparr>"
  have ok: "rows_ok ?e" using d(6,7,8) map_copied [OF u] last_row_ok [OF d(6) u] by (auto simp: rows_ok_def b_def)
  have n: "1 \<le> ?n" "?n \<le> 127" using ne d(8) by (cases a; cases u; simp)+
  have row: "row_at (int ?n - 1) ?e = Some (b ! (?n - 1))" "row_strlen (b ! (?n - 1)) = Some (int (length (text_of (b ! (?n - 1)))))"
    using rows_ok_at [OF ok, of "?n - 1"] row_strlen_ok n by (simp_all add: of_nat_diff)
  let ?f = "?e\<lparr>cursor_col := int (length (text_of (b ! (?n - 1))))\<rparr>"
  have t: "map text_of (take ?n (edit_buffer ?f)) = ls @ ls'" using l map_copied [OF u] by (simp add: b_def)
  have p: "edit_path ?f = edit_path e" by (simp add: set_status_message_def)
  have "rows_ok ?f" "line_count ?f = int ?n" using ok by (simp_all add: rows_ok_def)
  then obtain e' where e': "edit_exit True res ?f = Some (Saved, [Remove (edit_path e), Create (edit_path e), Open (edit_path e), Seek 0,
      Write (file_data (doc_trim (ls @ ls'))), Close], e')" "\<not> edit_active e'"
    using save_ok [of ?f ?n res] n assms(5-10) t p by auto
  have "handle_enter res e = Some (Some (Saved, [Remove (edit_path e), Create (edit_path e), Open (edit_path e), Seek 0,
      Write (file_data (doc_trim (ls @ ls'))), Close]), e')"
    using at row_strlen_ok [OF d(6)] l(2) up row e'(1) d(3) by (simp add: handle_enter_def Let_def set_status_message_def)
  with e'(2) show ?thesis by blast
qed


definition two_lines :: editor where
  "two_lines = blank_editor\<lparr>edit_buffer := ([0x68, 0x69] @ replicate 126 0) # (save_command @ replicate 123 0) # replicate 126 (replicate 128 0),
     line_count := 2, cursor_line := 1, cursor_col := 5\<rparr>"

theorem save_command_writes_lines_witness:
  "\<exists>e' ops. handle_enter \<lparr>malloc_ok = True, remove_res = 0, open_res = 0, seek_res = 0, write_res = 3\<rparr> two_lines = Some (Some (Saved, ops), e') \<and>
     Write [0x68, 0x69, 0x0A] \<in> set ops \<and> \<not> edit_active e'"
proof -
  have r: "replicate 126 (0 :: u8) = 0 # replicate 125 0" "replicate 123 (0 :: u8) = 0 # replicate 122 0" by (simp_all flip: replicate_Suc)
  have t: "text_of ([0x68, 0x69] @ replicate 126 0) = [0x68, 0x69]" "text_of (save_command @ replicate 123 0) = save_command"
    unfolding r by (simp_all add: text_of_def save_command_def)
  have ok: "editor_ok two_lines" using t by (simp add: editor_ok_def two_lines_def row_ok_def save_command_def)
  have doc: "doc_of two_lines = ([[0x68, 0x69], save_command], 1, 5)" using t by (simp add: doc_of_def two_lines_def)
  have f: "file_data (doc_trim [[0x68, 0x69]]) = [0x68, 0x69, 0x0A]" by (simp add: doc_trim.simps file_data_def)
  show ?thesis
    using save_command_writes_lines [OF ok, of "[[0x68, 0x69]]" "[]" 5 "\<lparr>malloc_ok = True, remove_res = 0, open_res = 0, seek_res = 0, write_res = 3\<rparr>"] doc f
    by (fastforce simp: two_lines_def blank_editor_def VFS_SUCCESS_def)
qed

text \<open>When \<^verbatim>\<open>.save\<close> is the only line, the editor then reads the length of the line before the first one, outside of its buffer.\<close>

theorem save_on_only_line_overruns:
  assumes "editor_ok e" "fst (doc_of e) = [save_command]"
  shows "handle_enter res e = None"
proof -
  obtain a r u v j where d: "edit_buffer e = a @ r # u @ v" "cursor_line e = int (length a)" "line_count e = int (length a + 1 + length u)" "cursor_col e = int j"
    "row_ok r" using around_cursor [OF assms(1)] by metis
  have l: "a = []" "u = []" "text_of r = save_command" using doc_of_split [OF d(1,3,2,4)] assms(2) by (cases a; simp)+
  have at: "row_at 0 e = Some r" using row_at_line [OF d(1)] l by simp
  have "lines_up 1 1 (set_status_message saved_text e) = Some (set_status_message saved_text e)" by (subst lines_up.simps) simp
  then show ?thesis using at row_strlen_ok [OF d(5)] d(2,3) l by (simp add: handle_enter_def set_status_message_def row_at_def Let_def)
qed

theorem save_on_only_line_overruns_witness:
  "handle_enter \<lparr>malloc_ok = True, remove_res = 0, open_res = 0, seek_res = 0, write_res = 0\<rparr>
     (blank_editor\<lparr>edit_buffer := (save_command @ replicate 123 0) # replicate 127 (replicate 128 0)\<rparr>) = None"
proof (rule save_on_only_line_overruns)
  have r: "replicate 123 (0 :: u8) = 0 # replicate 122 0" by (simp flip: replicate_Suc)
  have t: "text_of (save_command @ replicate 123 0) = save_command" unfolding r by (simp add: text_of_def save_command_def)
  show "editor_ok (blank_editor\<lparr>edit_buffer := (save_command @ replicate 123 0) # replicate 127 (replicate 128 0)\<rparr>)"
    by (simp add: editor_ok_def blank_editor_def row_ok_def save_command_def)
  show "fst (doc_of (blank_editor\<lparr>edit_buffer := (save_command @ replicate 123 0) # replicate 127 (replicate 128 0)\<rparr>)) = [save_command]"
    using t by (simp add: doc_of_def blank_editor_def)
qed

text \<open>Reading the pieces is reading the bytes.\<close>

lemma load_chunks_concat: "[] \<notin> set chunks \<Longrightarrow> load_chunks chunks l = fold load_char (concat chunks) l"
  by (induction chunks arbitrary: l) auto

lemma load_text:
  assumes "\<forall>c\<in>set t. c \<noteq> 0x0A \<and> c \<noteq> 0x0D" "length (ld_line l) + length t \<le> 127"
  shows "fold load_char t l = l\<lparr>ld_line := ld_line l @ t\<rparr>"
  using assms
proof (induction t arbitrary: l)
  case (Cons c t)
  then show ?case by (simp add: load_char_def)
qed simp

definition clean_line :: "u8 list \<Rightarrow> bool" where
  "clean_line t \<longleftrightarrow> length t \<le> 127 \<and> (\<forall>c\<in>set t. c \<noteq> 0 \<and> c \<noteq> 0x0A \<and> c \<noteq> 0x0D)"

lemma load_lines:
  assumes "\<forall>t\<in>set ls. clean_line t" "ld_line l = []" "ld_count l + length ls \<le> 128" "length (ld_rows l) = 128"
  shows "fold load_char (file_data ls) l = l\<lparr>ld_rows := take (ld_count l) (ld_rows l) @ map (\<lambda>t. copy_line (t @ [0])) ls @ drop (ld_count l + length ls) (ld_rows l),
    ld_count := ld_count l + length ls\<rparr>"
  using assms
proof (induction ls arbitrary: l)
  case Nil
  then show ?case by (simp add: file_data_def)
next
  case (Cons t ls)
  let ?n = "ld_count l" and ?l = "l\<lparr>ld_rows := (ld_rows l)[ld_count l := copy_line (t @ [0])], ld_count := ld_count l + 1\<rparr>"
  have n: "?n < 128" "?n < length (ld_rows l)" using Cons.prems(3,4) by simp_all
  have "fold load_char t l = l\<lparr>ld_line := t\<rparr>" using load_text [of t l] Cons.prems(1,2) by (auto simp: clean_line_def)
  then have "fold load_char (t @ [0x0A]) l = ?l" using n(1) Cons.prems(2) by (simp add: load_char_def end_line_def)
  then have "fold load_char (file_data (t # ls)) l = fold load_char (file_data ls) ?l" by (simp add: file_data_def)
  also have "\<dots> = ?l\<lparr>ld_rows := take (ld_count ?l) (ld_rows ?l) @ map (\<lambda>t. copy_line (t @ [0])) ls @ drop (ld_count ?l + length ls) (ld_rows ?l),
    ld_count := ld_count ?l + length ls\<rparr>" using Cons.prems by (intro Cons.IH) auto
  also have "\<dots> = l\<lparr>ld_rows := take ?n (ld_rows l) @ map (\<lambda>t. copy_line (t @ [0])) (t # ls) @ drop (?n + length (t # ls)) (ld_rows l), ld_count := ?n + length (t # ls)\<rparr>"
    using n(2) by (simp add: upd_conv_take_nth_drop take_Suc_conv_app_nth add.commute)
  finally show ?case .
qed

text \<open>Opening a file that holds lines as the editor saves them, in whatever pieces it is read, shows exactly these lines, with the cursor at the start of the first, provided
  that there are at most 128 of at most 127 characters without zero, carriage return and newline.\<close>

theorem saved_lines_open_again:
  assumes "rows_ok e" "ls \<noteq> []" "length ls \<le> 128" "\<forall>t\<in>set ls. clean_line t" "concat chunks = file_data ls" "[] \<notin> set chunks" "p \<noteq> []"
  shows "editor_ok (edit_start (Some p) VFS_SUCCESS chunks created e) \<and> doc_of (edit_start (Some p) VFS_SUCCESS chunks created e) = (ls, 0, 0)"
proof -
  let ?b = "edit_buffer e" and ?m = "map (\<lambda>t. copy_line (t @ [0])) ls"
  have len: "length ?b = 128" using assms(1) by (simp add: rows_ok_def)
  let ?l = "\<lparr>ld_rows = ?b, ld_count = 0, ld_line = [], ld_truncated = False\<rparr>"
  have "load_chunks chunks ?l = ?l\<lparr>ld_rows := ?m @ drop (length ls) ?b, ld_count := length ls\<rparr>"
    using load_chunks_concat [OF assms(6)] load_lines [OF assms(4), of ?l] assms(3,5) len by simp
  then have ld: "load_file chunks ?b = ?l\<lparr>ld_rows := ?m @ drop (length ls) ?b, ld_count := length ls\<rparr>" using assms(2) by (simp add: load_file_def)
  define e' where "e' = edit_start (Some p) VFS_SUCCESS chunks created e"
  have p: "take 255 p \<noteq> []" using assms(7) by simp
  have e': "edit_buffer e' = ?m @ drop (length ls) ?b" "line_count e' = int (length ls)" "cursor_line e' = 0" "cursor_col e' = 0"
    using ld p assms(2) by (simp_all add: e'_def edit_start_def Let_def VFS_SUCCESS_def)
  have rows: "\<forall>r\<in>set (edit_buffer e'). row_ok r" using assms(1) copy_line_ok(1) by (auto simp: e'(1) rows_ok_def dest: in_set_dropD)
  have tx: "text_of (copy_line (t @ [0])) = t" if "t \<in> set ls" for t
  proof -
    have "0 \<notin> set t" "length t \<le> 127" using that assms(4) by (auto simp: clean_line_def)
    then show ?thesis using copy_line_ok(2) [of "t @ [0]"] by simp
  qed
  have "editor_ok e'" using rows e' len assms(2,3) by (cases ls) (simp_all add: editor_ok_def)
  moreover have "map text_of ?m = ls" using tx by (simp add: map_idI)
  then have "doc_of e' = (ls, 0, 0)" using e' by (simp add: doc_of_def)
  ultimately show ?thesis by (simp add: e'_def)
qed

theorem saved_lines_open_again_witness:
  "doc_of (edit_start (Some [0x2F, 0x61]) VFS_SUCCESS [[0x68, 0x69], [0x0A, 0x0A]] 0 blank_editor) = ([[0x68, 0x69], []], 0, 0)"
proof -
  have r: "rows_ok blank_editor" by (simp add: rows_ok_def blank_editor_def row_ok_def)
  show ?thesis using saved_lines_open_again [OF r, of "[[0x68, 0x69], []]" "[[0x68, 0x69], [0x0A, 0x0A]]" "[0x2F, 0x61]" 0]
    by (simp add: clean_line_def file_data_def)
qed


subsection \<open>What is on the screen\<close>

text \<open>A line of the text on the screen: its mark, the first 78 characters and spaces.\<close>

definition shown_line :: "bool \<Rightarrow> u8 list \<Rightarrow> u8 list" where
  "shown_line marked t = (if marked then [0x3E, 0x20] else [0x20, 0x20]) @ take 78 t @ replicate (78 - length t) 0x20"

definition screen_rows :: "editor \<Rightarrow> u8 list list" where
  "screen_rows e = map (\<lambda>y. let i = viewport_offset e + int y in
     if i < line_count e then shown_line (i = cursor_line e) (text_of (edit_buffer e ! nat i)) else replicate 80 0x20) [0..<24]"

abbreviation cell_place :: "cell_put \<Rightarrow> nat \<times> nat" where "cell_place c \<equiv> (fst c, fst (snd c))"

abbreviation cell_char :: "cell_put \<Rightarrow> u8" where "cell_char c \<equiv> fst (snd (snd c))"

lemma map_nth_take: "n \<le> length t \<Longrightarrow> map ((!) t) [0..<n] = take n t"
  by (rule nth_equalityI) simp_all

lemma draw_line_cells:
  "map cell_place (draw_line t y marked col) = map (\<lambda>x. (x, y)) [0..<80]" "map cell_char (draw_line t y marked col) = shown_line marked t"
proof -
  define len where "len = (if length t > 78 then 78 else length t)"
  have l: "len \<le> 78" "len \<le> length t" "take 78 t = take len t" "78 - length t = 78 - len" by (auto simp: len_def)
  have u: "[0..<80] = [0..<2] @ [2..<2 + len] @ [2 + len..<80 :: nat]"
  proof -
    have "[2..<80 :: nat] = [2..<2 + len] @ [2 + len..<80]" using upt_add_eq_append [of 2 "2 + len" "78 - len"] l(1) by simp
    moreover have "[0..<80 :: nat] = [0..<2] @ [2..<80]" using upt_add_eq_append [of 0 2 78] by simp
    ultimately show ?thesis by (simp only:)
  qed
  have m: "map (\<lambda>x. (x, y)) [2..<2 + len] = map (\<lambda>i. (2 + i, y)) [0..<len]" using map_add_upt [of 2 len, symmetric] by (simp add: add.commute)
  show "map cell_place (draw_line t y marked col) = map (\<lambda>x. (x, y)) [0..<80]"
    unfolding u map_append m by (simp add: draw_line_def Let_def comp_def len_def [symmetric] del: upt_rec_numeral)
  have p: "map ((!) q) [0..<2] = q" if "length q = 2" for q :: "u8 list" using that map_nth [of q] by simp
  have r: "map (\<lambda>x. 0x20 :: u8) [2 + len..<80] = replicate (78 - len) 0x20" using l(1) by (simp add: map_replicate_const)
  show "map cell_char (draw_line t y marked col) = shown_line marked t"
    unfolding shown_line_def l(3,4) using p [of "[0x3E, 0x20]"] p [of "[0x20, 0x20]"] r map_nth_take [OF l(2)]
    by (simp add: draw_line_def Let_def comp_def len_def [symmetric] del: upt_rec_numeral)
qed

lemma draw_row_cells:
  assumes "editor_ok e" "0 \<le> viewport_offset e" "y < 24"
  shows "\<exists>cs. draw_row e y = Some cs \<and> map cell_place cs = map (\<lambda>x. (x, y)) [0..<80] \<and> map cell_char cs = screen_rows e ! y"
proof (cases "viewport_offset e + int y < line_count e")
  case True
  let ?i = "viewport_offset e + int y"
  have i: "0 \<le> ?i" "?i < 128" using True assms by (auto simp: editor_ok_def)
  show ?thesis using True line_ok [OF assms(1) i] draw_line_cells [of "text_of (edit_buffer e ! nat ?i)" y "?i = cursor_line e" "cursor_col e"] assms(3)
    by (simp add: draw_row_def screen_rows_def Let_def)
next
  case False
  then show ?thesis using assms(3) by (simp add: draw_row_def screen_rows_def Let_def comp_def map_replicate_const del: upt_rec_numeral)
qed

lemma draw_rows_cells:
  assumes "editor_ok e" "0 \<le> viewport_offset e" "\<forall>y\<in>set ys. y < 24"
  shows "\<exists>cs. draw_rows e ys = Some cs \<and> map cell_place cs = concat (map (\<lambda>y. map (\<lambda>x. (x, y)) [0..<80]) ys) \<and> map cell_char cs = concat (map ((!) (screen_rows e)) ys)"
  using assms(3)
proof (induction ys)
  case (Cons y ys)
  obtain c where c: "draw_row e y = Some c" "map cell_place c = map (\<lambda>x. (x, y)) [0..<80]" "map cell_char c = screen_rows e ! y"
    using draw_row_cells [OF assms(1,2)] Cons.prems by auto
  obtain cs where "draw_rows e ys = Some cs" "map cell_place cs = concat (map (\<lambda>y. map (\<lambda>x. (x, y)) [0..<80]) ys)" "map cell_char cs = concat (map ((!) (screen_rows e)) ys)"
    using Cons by auto
  with c show ?case by (simp del: upt_rec_numeral)
qed simp

end
