(* ===== verification/Spec2Isabelle.thy ===== *)
theory Spec2Isabelle
  imports Debug Paging Syscalls Ramfs_Vfs Fat32_Files Fat32_Vfs Editor
begin

text \<open>
  A verification library for the ContinuumOS kernel (an i686 kernel in C++ with its own C library).

  \<^bold>\<open>The program.\<close> \<^verbatim>\<open>kernel.cpp\<close> starts the machine: it prepares physical memory and paging, the heap, the console
  and the windows, the drivers, the file systems and the scheduler, and starts the shell as a process. From then on the
  kernel only reacts: interrupts of the timer, the keyboard and the mouse push events into the queues of processes and wake
  them; the timer also switches between processes; processes call the kernel through one software interrupt for text
  output, events, files, windows and new processes. The heap serves every component that keeps dynamic data; processes,
  nodes of the RAM file system, stacks and buffers are blocks of it.

  \<^bold>\<open>How to read the models.\<close> One theory models one component, with the names of the source. The conventions:
  \<^item> \<open>uint8_t\<close>, \<open>uint32_t\<close>, \<open>size_t\<close> and pointers are words of their width, so additions wrap as in the program; \<open>int\<close> results are
    \<open>int\<close>, and a conversion that can lose bits is written out;
  \<^item> static variables of a file are the fields of a record that the operations take and return; a C structure is a record
    (\<open>blockdev_info_t\<close>, \<open>Process\<close>, \<open>FSNode\<close>, \<open>vfs_file_t\<close>), an enumeration a datatype or a named constant;
  \<^item> the result \<open>None\<close> stands for the absence of a defined result: a loop that never ends (such loops are
    \<open>partial_function (option)\<close>, no fuel is used anywhere), an access outside an array, or a pointer to no object. Theorems on
    such functions state that the result is \<open>Some\<close>, and under which condition;
  \<^item> errors are the values that the code returns (\<open>NULL\<close>, negative numbers); a call that does not come back (a kernel panic, a
    switch to another process) is the left side of a sum;
  \<^item> a C string is the list of its bytes before the terminator, except in \<open>Libc_String\<close>, \<open>Heap\<close> and \<open>Paging\<close>, whose subject is the
    memory itself: there everything is bytes of one memory of type \<open>u32 \<Rightarrow> u8\<close>;
  \<^item> the lines that components log (calls of \<open>debug\<close>, \<open>error\<close>, \<open>success\<close>) are left out; how such a line is formatted is in \<open>Debug\<close>.

  \<^bold>\<open>The theories.\<close>
  \<^item> \<open>Prelude\<close>: words in little-endian memory, address arithmetic, ring indices, grids, and the facts that several components share.
  \<^item> \<open>Libc_String\<close> (\<^verbatim>\<open>libc/string/string.cpp\<close>): every routine against a specification on lists, \<open>memmove\<close> with overlap and \<open>strtok\<close> with
    its hidden pointer included.
  \<^item> \<open>Stdio\<close> (\<^verbatim>\<open>libc/stdio/stdio.cpp\<close>): \<open>printf\<close> with flags, width, precision and length; printed numbers read back, the buffer for literal
    text does not show. \<open>Debug\<close> (\<^verbatim>\<open>debug.cpp\<close>, \<^verbatim>\<open>serial.cpp\<close>): the second and third formatter, which agree with the first on plain formats, the
    truncation into a buffer, and the picture of a kernel panic, which stays on the screen.
  \<^item> \<open>Heap\<close> (\<^verbatim>\<open>heap.cpp\<close>): the chain of block headers inside the memory that the heap manages. The locale \<open>allocator\<close> is the contract
    (fresh regions are disjoint from the ones in use, contents are kept), interpreted on \<open>kmalloc\<close> and \<open>kfree\<close>; \<open>krealloc\<close> and the clients
    rest on it. A request near \<open>2^32\<close> breaks the contract, which is a theorem too.
  \<^item> \<open>Pmm\<close> (\<^verbatim>\<open>memory.cpp\<close>): the bitmap of frames, with the locale \<open>frame_allocator\<close>; \<open>Paging\<close> (\<^verbatim>\<open>paging.cpp\<close>): page tables as words of physical
    memory, and the translation that they define; mapping changes exactly one page.
  \<^item> \<open>Process\<close> (\<^verbatim>\<open>process.h\<close>, \<^verbatim>\<open>hooks.h\<close>, the queue functions of \<^verbatim>\<open>process.cpp\<close>): the ring of events with its guards implements a bounded
    queue that drops its oldest entry (locale \<open>bounded_queue\<close>, interpreted here and on the keyboard buffer in \<open>Input\<close>).
  \<^item> \<open>Terminal\<close> (\<^verbatim>\<open>vga.cpp\<close>) and \<open>Windows\<close> (\<^verbatim>\<open>terminal_windows.cpp\<close>): the console grid and the table of windows with their own consoles, the
    stack of windows, hit test, moving and resizing; the invariants of every run (for the console: write position and cursor on the screen,
    in text mode the VGA memory and the cursor registers in step), and that a window shows what a console would show. Frames are moved to
    position 0 where they are larger than the screen, so only smaller ones are kept inside (\<open>frames_clamped_to_screen\<close> in \<open>Input\<close>).
  \<^item> \<open>Scheduler\<close> (\<^verbatim>\<open>scheduler.cpp\<close>, \<^verbatim>\<open>process.cpp\<close>): process table, lottery, hooks, foreground, context switch and life cycle of
    processes; the invariant of every run, the fairness of the draw, what a switch does and that an event wakes its waiters.
  \<^item> \<open>Input\<close>, \<open>Devices\<close>, \<open>Pci\<close> (\<^verbatim>\<open>mouse.cpp\<close>, \<^verbatim>\<open>keyboard.cpp\<close>, \<^verbatim>\<open>timer.cpp\<close>, \<^verbatim>\<open>gui.cpp\<close>, \<^verbatim>\<open>pci.cpp\<close>): interrupt handlers and the bus. Bytes of
    the controllers are arguments. The key handler of the shell, the one
    callback outside of the model, is a parameter; it is only called while no shell process is registered, and the theorems that concern it are about the time after
    that. Any sequence of interrupts keeps the kernel well formed, and a key reaches the foreground.
  \<^item> \<open>Syscalls\<close> (\<^verbatim>\<open>syscalls.cpp\<close>): the dispatcher over the whole machine (processes, windows, keyboard). The kernel stores events through a pointer of
    the caller without a check. The machine therefore knows which addresses hold an \<open>IOEvent\<close> object of a program (\<open>event_objects\<close>); a store
    anywhere else has no defined result. Every call keeps the machine well formed, given such a pointer where an event is stored.
  \<^item> \<open>Vfs\<close> (\<^verbatim>\<open>vfs.cpp\<close>): mounts, paths, working directory and dispatch. A mounted file system is a table of operations in the source, and is
    a parameter of that type here.
  \<^item> \<open>Ramfs\<close>, \<open>Ramfs_Tree\<close>, \<open>Ramfs_Files\<close> (\<^verbatim>\<open>ramfs.cpp\<close>): nodes, their tree, and contents in heap blocks. Nodes and arrays of children are objects
    that are addressed by their heap block, contents are bytes of the heap. Every run keeps the nodes a tree in separate blocks; files behave
    as lists of bytes.
  \<^item> \<open>Ramfs_Vfs\<close> (\<^verbatim>\<open>ramfs_vfs.cpp\<close>, the file calls of \<^verbatim>\<open>syscalls.cpp\<close>): the adapter, with the locale \<open>file_system\<close> for what a client may rely on.
  \<^item> \<open>Ide\<close>, \<open>Blockdev\<close> (\<^verbatim>\<open>ide.cpp\<close>, \<^verbatim>\<open>blockdev.cpp\<close>): the driver and the registry of devices. The drive behind the ports is a parameter; \<open>ata\<close> is its
    documented behaviour in PIO mode without errors, shown to hold for \<open>ata_machine\<close>. The locale \<open>sector_device\<close> is the resulting contract, a
    store of sectors, interpreted on \<open>blockdev_read\<close> and \<open>blockdev_write\<close>.
  \<^item> \<open>Fat32_Names\<close>, \<open>Fat32\<close> (\<^verbatim>\<open>fat32.cpp\<close>): short and long names, and every operation on table, directories and files. \<open>Fat32_Chains\<close>: chains of
    clusters. The properties are about mounted volumes (\<open>fat_ok P v N s\<close>): the drive completes every transfer, the table has at most 255 sectors, and
    the clusters below \<open>N\<close> have an entry in the table and sectors on the drive. \<open>fat32_mount_establishes\<close> derives this from the boot sector and
    holds for the image of the repository. Where free clusters are searched, \<open>searchable\<close> is required in addition: enough free clusters are
    left, or \<open>N\<close> is the computed number of clusters, which is far larger than the table when the boot sector has no 32-bit count. \<open>Fat32_Files\<close>: reading
    and writing refine a list of bytes. \<open>Fat32_Vfs\<close> (\<^verbatim>\<open>fat32_vfs.cpp\<close>): the adapter.
  \<^item> \<open>Editor\<close> (\<^verbatim>\<open>user/editor.cpp\<close>): the array of rows implements an editor on a list of lines; what \<^verbatim>\<open>.save\<close> writes, opened again, gives the
    lines; what is drawn.

  \<^bold>\<open>Where the code does not do what it means to,\<close> the development says so by a theorem about the code as it is: a path with the component
  \<open>.\<close> is never resolved, a seek close to \<open>2^32\<close> lets a write destroy the heap, a file can be removed under an open handle, a
  process that waits for an event resumes with the wrong result, long file names are read back cut off, an end mark of a chain other than one is followed
  as a cluster, an error of the drive is taken for success, and \<^verbatim>\<open>.save\<close> as the only line makes the editor read outside of its buffer.

  \<^bold>\<open>Not modelled.\<close> Pixels and fonts (\<^verbatim>\<open>framebuffer.cpp\<close>, \<^verbatim>\<open>graphics.cpp\<close>; only the size of the display matters to the windows), the shell (\<^verbatim>\<open>shell.cpp\<close>),
  descriptor tables and assembly (\<^verbatim>\<open>gdt.cpp\<close>, \<^verbatim>\<open>idt.cpp\<close>, \<^verbatim>\<open>isr.cpp\<close>, \<^verbatim>\<open>pic.cpp\<close>, \<^verbatim>\<open>boot.s\<close>), the command protocol of the PS/2 controller, the stubs
  of the C library that raise the software interrupt, the start of the kernel (\<^verbatim>\<open>kernel.cpp\<close>), and test programs.
\<close>

end
